(* ===== verification/Prelude.thy ===== *)
theory Prelude
  imports Main "HOL-Library.Word"
begin

text \<open>
  Shared vocabulary of the development.  The C functions of the repository change state and
  may stop the process (\<open>err_dump\<close>, \<open>err_sys\<close>, \<open>err_quit\<close> of \<open>apue.3e/lib/error.c\<close> and of
  \<open>unpv13e/lib/error.c\<close> never return).  They are modelled as functions from a state to an
  outcome: a returned value with the new state, or an abort with the state at that moment.
\<close>

named_theorems exec "symbolic execution of modelled C code"
named_theorems upd "facts about lists overwritten in place"

section \<open>Outcomes of C code\<close>

datatype abort =
    Err_dump string
  | Err_sys string
  | Err_quit string
  | Diverge
  | Undefined

datatype ('s, 'a) outcome =
    Ret (ret_val: 'a) (ret_state: 's)
  | Abort abort 's

type_synonym ('s, 'a) prog = "'s \<Rightarrow> ('s, 'a) outcome"

definition ret :: "'a \<Rightarrow> ('s, 'a) prog" where
  "ret a s = Ret a s"

definition stop :: "abort \<Rightarrow> ('s, 'a) prog" where
  "stop e s = Abort e s"

definition bindc :: "('s, 'a) prog \<Rightarrow> ('a \<Rightarrow> ('s, 'b) prog) \<Rightarrow> ('s, 'b) prog" where
  "bindc m f s = (case m s of Ret a s' \<Rightarrow> f a s' | Abort e s' \<Rightarrow> Abort e s')"

definition gets :: "('s \<Rightarrow> 'a) \<Rightarrow> ('s, 'a) prog" where
  "gets f s = Ret (f s) s"

definition modify :: "('s \<Rightarrow> 's) \<Rightarrow> ('s, unit) prog" where
  "modify f s = Ret () (f s)"

lemma ret_exec [exec, simp]: "ret a s = Ret a s"
  by (simp add: ret_def)

lemma stop_exec [exec, simp]: "stop e s = Abort e s"
  by (simp add: stop_def)

lemma gets_exec [exec, simp]: "gets f s = Ret (f s) s"
  by (simp add: gets_def)

lemma modify_exec [exec, simp]: "modify f s = Ret () (f s)"
  by (simp add: modify_def)

lemma bindc_exec [exec]:
  "bindc m f s = (case m s of Ret a s' \<Rightarrow> f a s' | Abort e s' \<Rightarrow> Abort e s')"
  by (simp add: bindc_def)

lemma bindc_RetE:
  assumes "bindc m f s = Ret b t"
  obtains a s' where "m s = Ret a s'" and "f a s' = Ret b t"
  using assms by (auto simp: bindc_def split: outcome.splits)

section \<open>Overwriting a list in place\<close>

text \<open>
  \<open>write(2)\<close> at an offset: bytes past the end extend the file, and a gap left by a seek
  beyond the end reads as zero bytes.
\<close>

definition overlay :: "'a \<Rightarrow> 'a list \<Rightarrow> nat \<Rightarrow> 'a list \<Rightarrow> 'a list" where
  "overlay z f p bs = take p (f @ replicate (p - length f) z) @ bs @ drop (p + length bs) f"

lemma overlay_mid [upd]:
  "length pre = p \<Longrightarrow> length new = length old \<Longrightarrow>
   overlay z (pre @ old @ post) p new = pre @ new @ post"
  by (simp add: overlay_def)

lemma overlay_end [upd]: "length f = p \<Longrightarrow> overlay z f p bs = f @ bs"
  by (simp add: overlay_def)

lemma length_overlay: "length (overlay z f p bs) = max (length f) (p + length bs)"
  by (simp add: overlay_def)

end
