(* ===== verification/C_Text.thy ===== *)
theory C_Text
  imports Prelude
begin

text \<open>
  The C library's text functions the repository relies on, on lists of bytes: decimal
  printing (\<open>%d\<close>, \<open>%*d\<close>), \<open>atol\<close>, \<open>strchr\<close>, and the C string held by a buffer (the bytes
  before its first null byte).  The lemmas show that printing and parsing are inverse.
\<close>

definition NUL :: char where "NUL = CHR 0x00"

definition NEWLINE :: char where "NEWLINE = CHR 0x0A"

definition cstr :: "string \<Rightarrow> string" where
  "cstr b = takeWhile (\<lambda>c. c \<noteq> NUL) b"

definition isspace_c :: "char \<Rightarrow> bool" where
  "isspace_c c \<longleftrightarrow> c = CHR 0x20 \<or> (0x09 \<le> (of_char c :: nat) \<and> (of_char c :: nat) \<le> 0x0D)"

definition isdigit_c :: "char \<Rightarrow> bool" where
  "isdigit_c c \<longleftrightarrow> 48 \<le> (of_char c :: nat) \<and> (of_char c :: nat) \<le> 57"

definition digit_char :: "nat \<Rightarrow> char" where
  "digit_char n = char_of (48 + n)"

definition digit_val :: "char \<Rightarrow> nat" where
  "digit_val c = of_char c - 48"

fun dec :: "nat \<Rightarrow> string" where
  "dec n = (if n < 10 then [digit_char n] else dec (n div 10) @ [digit_char (n mod 10)])"

declare dec.simps [simp del]

definition fmt_d :: "int \<Rightarrow> string" where
  "fmt_d i = (if i < 0 then CHR ''-'' # dec (nat (- i)) else dec (nat i))"

definition fmt_wd :: "nat \<Rightarrow> int \<Rightarrow> string" where
  "fmt_wd w i = replicate (w - length (fmt_d i)) (CHR '' '') @ fmt_d i"

fun digits_val :: "nat \<Rightarrow> string \<Rightarrow> nat" where
  "digits_val a [] = a"
| "digits_val a (c # cs) = (if isdigit_c c then digits_val (10 * a + digit_val c) cs else a)"

definition atol :: "string \<Rightarrow> int" where
  "atol s = (case dropWhile isspace_c s of
       [] \<Rightarrow> 0
     | c # cs \<Rightarrow> if c = CHR ''-'' then - int (digits_val 0 cs)
               else if c = CHR ''+'' then int (digits_val 0 cs)
               else int (digits_val 0 (c # cs)))"

fun strchr :: "string \<Rightarrow> char \<Rightarrow> nat option" where
  "strchr [] c = None"
| "strchr (x # xs) c = (if x = c then Some 0
     else if x = NUL then None else map_option Suc (strchr xs c))"

section \<open>Digits\<close>

lemma of_char_digit: "n < 10 \<Longrightarrow> (of_char (digit_char n) :: nat) = 48 + n"
  by (simp add: digit_char_def)

lemma isdigit_digit [simp]: "n < 10 \<Longrightarrow> isdigit_c (digit_char n)"
  by (simp add: isdigit_c_def of_char_digit)

lemma digit_val_char [simp]: "n < 10 \<Longrightarrow> digit_val (digit_char n) = n"
  by (simp add: digit_val_def of_char_digit)

lemma isdigit_not_space: "isdigit_c c \<Longrightarrow> \<not> isspace_c c"
  by (auto simp: isdigit_c_def isspace_c_def)

lemma isdigit_no_sign: "isdigit_c c \<Longrightarrow> c \<noteq> CHR ''-'' \<and> c \<noteq> CHR ''+''"
  by (auto simp: isdigit_c_def)

lemma isdigit_misc:
  "isdigit_c c \<Longrightarrow> c \<noteq> NUL" "isdigit_c c \<Longrightarrow> c \<noteq> CHR '':''" "isdigit_c c \<Longrightarrow> c \<noteq> CHR '' ''"
  "isdigit_c c \<Longrightarrow> c \<noteq> NEWLINE" "isdigit_c c \<Longrightarrow> c \<noteq> CHR ''.''"
  by (auto simp: isdigit_c_def NUL_def NEWLINE_def)

lemma dec_digits: "c \<in> set (dec n) \<Longrightarrow> isdigit_c c"
proof (induction n rule: dec.induct)
  case (1 n)
  show ?case
  proof (cases "n < 10")
    case True
    with "1.prems" show ?thesis by (subst (asm) dec.simps) simp
  next
    case False
    with "1.prems" have "c \<in> set (dec (n div 10)) \<or> c = digit_char (n mod 10)"
      by (subst (asm) dec.simps) auto
    with "1.IH" False show ?thesis by auto
  qed
qed

lemma dec_nonempty [simp]: "dec n \<noteq> []"
  by (subst dec.simps) simp

lemma length_dec_pos [simp]: "0 < length (dec n)"
  by simp

lemma digits_val_append:
  "\<forall>c \<in> set xs. isdigit_c c \<Longrightarrow> digits_val a (xs @ ys) = digits_val (digits_val a xs) ys"
  by (induction xs arbitrary: a) auto

lemma digits_val_dec: "digits_val a (dec n @ ys) = digits_val (a * 10 ^ length (dec n) + n) ys"
proof (induction n arbitrary: a ys rule: dec.induct)
  case (1 n)
  show ?case
  proof (cases "n < 10")
    case True
    then have d: "dec n = [digit_char n]" by (subst dec.simps) simp
    with True show ?thesis by (simp add: mult.commute)
  next
    case False
    then have d: "dec n = dec (n div 10) @ [digit_char (n mod 10)]"
      by (subst dec.simps) simp
    have "digits_val a (dec n @ ys)
        = digits_val (a * 10 ^ length (dec (n div 10)) + n div 10) (digit_char (n mod 10) # ys)"
      using "1.IH" [OF False, of a "digit_char (n mod 10) # ys"] by (simp add: d)
    also have "\<dots> = digits_val (10 * (a * 10 ^ length (dec (n div 10)) + n div 10) + n mod 10) ys"
      by simp
    also have "10 * (a * 10 ^ length (dec (n div 10)) + n div 10) + n mod 10
        = a * 10 ^ length (dec n) + n"
      by (simp add: d algebra_simps)
    finally show ?thesis .
  qed
qed

lemma digits_val_stop: "ys = [] \<or> \<not> isdigit_c (hd ys) \<Longrightarrow> digits_val a ys = a"
  by (cases ys) auto

lemma length_dec_le: "n < 10 ^ k \<Longrightarrow> 0 < k \<Longrightarrow> length (dec n) \<le> k"
proof (induction n arbitrary: k rule: dec.induct)
  case (1 n)
  show ?case
  proof (cases "n < 10")
    case True
    then show ?thesis using "1.prems" by (subst dec.simps) simp
  next
    case False
    then have "1 < k" using "1.prems" by (cases "k = 1") auto
    then obtain j where k: "k = Suc j" and j: "0 < j" by (cases k) auto
    have "n div 10 < 10 ^ j" using "1.prems" k by (simp add: less_mult_imp_div_less mult.commute)
    from "1.IH" [OF False this j] have "length (dec (n div 10)) \<le> j" .
    then show ?thesis using False k by (subst dec.simps) simp
  qed
qed

section \<open>Printing and parsing are inverse\<close>

lemma dropWhile_pad: "dropWhile isspace_c (replicate k (CHR '' '') @ xs) = dropWhile isspace_c xs"
  by (induction k) (auto simp: isspace_c_def)

lemma atol_dec_pad:
  assumes "ys = [] \<or> \<not> isdigit_c (hd ys)"
  shows "atol (replicate k (CHR '' '') @ dec n @ ys) = int n"
proof -
  obtain c cs where dc: "dec n = c # cs" using dec_nonempty [of n] by (cases "dec n") auto
  have c: "isdigit_c c" using dec_digits [of c n] dc by simp
  have "atol (replicate k (CHR '' '') @ dec n @ ys) = int (digits_val 0 (dec n @ ys))"
    using isdigit_not_space [OF c] isdigit_no_sign [OF c]
    by (simp add: atol_def dropWhile_pad dc)
  also have "digits_val 0 (dec n @ ys) = n"
    using digits_val_stop [OF assms] by (simp add: digits_val_dec)
  finally show ?thesis .
qed

lemma atol_dec [simp]: "atol (dec n) = int n"
  using atol_dec_pad [of "[]" 0 n] by simp

lemma fmt_d_nat [simp]: "fmt_d (int n) = dec n"
  by (simp add: fmt_d_def)

lemma fmt_d_Suc [simp]: "fmt_d (int n + 1) = dec (Suc n)" "fmt_d (1 + int n) = dec (Suc n)"
  using fmt_d_nat [of "Suc n"] by (simp_all add: add.commute)

lemma nat_int_Suc [simp]: "nat (int n + 1) = Suc n" "nat (1 + int n) = Suc n"
  by simp_all

lemma atol_fmt_wd [simp]: "atol (fmt_wd w (int n)) = int n"
  using atol_dec_pad [of "[]" _ n] by (simp add: fmt_wd_def)

lemma length_fmt_wd: "n < 10 ^ w \<Longrightarrow> 0 < w \<Longrightarrow> length (fmt_wd w (int n)) = w"
  using length_dec_le [of n w] by (simp add: fmt_wd_def)

section \<open>C strings in buffers\<close>

lemma cstr_append_NUL: "NUL \<notin> set xs \<Longrightarrow> cstr (xs @ NUL # ys) = xs"
  by (induction xs) (auto simp: cstr_def)

lemma cstr_id: "NUL \<notin> set xs \<Longrightarrow> cstr xs = xs"
  by (induction xs) (auto simp: cstr_def)

lemma NUL_notin_cstr [simp]: "NUL \<notin> set (cstr b)"
  by (auto simp: cstr_def dest: set_takeWhileD)

lemma strchr_first:
  "c \<notin> set xs \<Longrightarrow> NUL \<notin> set xs \<Longrightarrow> strchr (xs @ c # ys) c = Some (length xs)"
  by (induction xs) auto

lemma strchr_absent: "c \<notin> set xs \<Longrightarrow> c \<noteq> NUL \<Longrightarrow> strchr (xs @ NUL # ys) c = None"
  by (induction xs) auto

text \<open>\<open>atoi\<close> converts the \<open>long\<close> to an \<open>int\<close>.\<close>

definition atoi :: "string \<Rightarrow> int" where
  "atoi s = sint (word_of_int (atol s) :: 32 word)"

lemma atoi_dec: "n < 2147483648 \<Longrightarrow> atoi (dec n) = int n"
  by (simp add: atoi_def signed_of_nat signed_take_bit_int_eq_self)

lemma atol_fmt_d: "atol (fmt_d i) = i"
proof (cases "i < 0")
  case True
  have "digits_val 0 (dec (nat (- i))) = nat (- i)" using digits_val_dec [of 0 "nat (- i)" "[]"] by simp
  then show ?thesis using True by (simp add: fmt_d_def atol_def isspace_c_def)
qed (simp add: fmt_d_def)

lemma atoi_fmt_d: "- 2147483648 \<le> i \<Longrightarrow> i < 2147483648 \<Longrightarrow> atoi (fmt_d i) = i"
  by (simp add: atoi_def atol_fmt_d signed_of_int signed_take_bit_int_eq_self)

end
