(* ===== verification/Unix_Files.thy ===== *)
theory Unix_Files
  imports C_Text
begin

text \<open>
  The system calls of the database library (\<open>open\<close>, \<open>close\<close>, \<open>lseek\<close>, \<open>read\<close>, \<open>write\<close>,
  \<open>fstat\<close>, record locks through \<open>fcntl\<close>) on an explicit kernel state: the files by path, the
  descriptor table of the process with a file offset per descriptor, the record locks the
  process holds, and a fault counter.  \<open>fault = Some n\<close> makes the system call number \<open>n\<close>
  from now, and every one after it, fail; \<open>None\<close> is a run without device errors.  The process
  is alone: a blocking lock request is granted.
\<close>

datatype whence = SEEK_SET | SEEK_CUR | SEEK_END

datatype oflag = O_RDONLY | O_RDWR | O_CREAT | O_TRUNC | O_EXCL

datatype lkind = F_RDLCK | F_WRLCK

datatype errno = E_NONE | EINVAL | ENOENT | EBADF | ENOMEM | EAFNOSUPPORT | ENOSPC | EINTR | EAGAIN | EPIPE | EMSGSIZE

type_synonym lock = "int \<times> lkind \<times> int \<times> int"

record kernel =
  disk :: "string \<Rightarrow> string option"
  fdtab :: "(string \<times> nat) option list"
  held :: "lock list"
  fault :: "nat option"
  errno :: errno

definition ofile :: "kernel \<Rightarrow> int \<Rightarrow> (string \<times> nat) option" where
  "ofile k fd = (if 0 \<le> fd \<and> nat fd < length (fdtab k) then fdtab k ! nat fd else None)"

definition pathbytes :: "kernel \<Rightarrow> string \<Rightarrow> string" where
  "pathbytes k p = (case disk k p of None \<Rightarrow> [] | Some b \<Rightarrow> b)"

text \<open>Every system call may fail without having an effect.\<close>

definition syscall :: "'r \<Rightarrow> (kernel \<Rightarrow> 'r \<times> kernel) \<Rightarrow> kernel \<Rightarrow> 'r \<times> kernel" where
  "syscall err f k = (case fault k of
       None \<Rightarrow> f k
     | Some 0 \<Rightarrow> (err, k)
     | Some (Suc n) \<Rightarrow> f (k\<lparr>fault := Some n\<rparr>))"

fun free_slot :: "'a option list \<Rightarrow> nat" where
  "free_slot [] = 0"
| "free_slot (None # xs) = 0"
| "free_slot (Some x # xs) = Suc (free_slot xs)"

definition install_fd :: "string \<Rightarrow> kernel \<Rightarrow> int \<times> kernel" where
  "install_fd path k =
     (let n = free_slot (fdtab k)
      in (int n, k\<lparr>fdtab := (if n < length (fdtab k) then (fdtab k)[n := Some (path, 0)]
                              else fdtab k @ [Some (path, 0)])\<rparr>))"

definition sys_open :: "string \<Rightarrow> oflag list \<Rightarrow> kernel \<Rightarrow> int \<times> kernel" where
  "sys_open path fl = syscall (-1) (\<lambda>k.
     case disk k path of
       None \<Rightarrow> if O_CREAT \<in> set fl then install_fd path (k\<lparr>disk := (disk k)(path \<mapsto> [])\<rparr>)
               else (-1, k)
     | Some b \<Rightarrow> if O_CREAT \<in> set fl \<and> O_EXCL \<in> set fl then (-1, k)
                 else if O_TRUNC \<in> set fl
                 then install_fd path (k\<lparr>disk := (disk k)(path \<mapsto> [])\<rparr>)
                 else install_fd path k)"

text \<open>Closing a descriptor also drops the record locks taken through it.\<close>

definition sys_close :: "int \<Rightarrow> kernel \<Rightarrow> int \<times> kernel" where
  "sys_close fd = syscall (-1) (\<lambda>k.
     case ofile k fd of
       None \<Rightarrow> (-1, k)
     | Some _ \<Rightarrow> (0, k\<lparr>fdtab := (fdtab k)[nat fd := None],
                        held := filter (\<lambda>l. fst l \<noteq> fd) (held k)\<rparr>))"

definition sys_lseek :: "int \<Rightarrow> int \<Rightarrow> whence \<Rightarrow> kernel \<Rightarrow> int \<times> kernel" where
  "sys_lseek fd off wh = syscall (-1) (\<lambda>k.
     case ofile k fd of
       None \<Rightarrow> (-1, k)
     | Some (p, pos) \<Rightarrow>
         (let new = (case wh of SEEK_SET \<Rightarrow> off | SEEK_CUR \<Rightarrow> int pos + off
                     | SEEK_END \<Rightarrow> int (length (pathbytes k p)) + off)
          in if new < 0 then (-1, k)
             else (new, k\<lparr>fdtab := (fdtab k)[nat fd := Some (p, nat new)]\<rparr>)))"

text \<open>\<open>read\<close>: the bytes read, \<open>None\<close> for a return of \<open>-1\<close>; fewer bytes than asked for at the
  end of the file.  \<open>write\<close>: the count, or \<open>-1\<close>.\<close>

definition sys_read :: "int \<Rightarrow> nat \<Rightarrow> kernel \<Rightarrow> string option \<times> kernel" where
  "sys_read fd n = syscall None (\<lambda>k.
     case ofile k fd of
       None \<Rightarrow> (None, k)
     | Some (p, pos) \<Rightarrow>
         (let bs = take n (drop pos (pathbytes k p))
          in (Some bs, k\<lparr>fdtab := (fdtab k)[nat fd := Some (p, pos + length bs)]\<rparr>)))"

definition sys_write :: "int \<Rightarrow> string \<Rightarrow> kernel \<Rightarrow> int \<times> kernel" where
  "sys_write fd bs = syscall (-1) (\<lambda>k.
     case ofile k fd of
       None \<Rightarrow> (-1, k)
     | Some (p, pos) \<Rightarrow>
         (int (length bs),
          k\<lparr>disk := (disk k)(p \<mapsto> overlay NUL (pathbytes k p) pos bs),
            fdtab := (fdtab k)[nat fd := Some (p, pos + length bs)]\<rparr>))"

definition sys_fstat_size :: "int \<Rightarrow> kernel \<Rightarrow> int \<times> kernel" where
  "sys_fstat_size fd = syscall (-1) (\<lambda>k.
     case ofile k fd of None \<Rightarrow> (-1, k) | Some (p, _) \<Rightarrow> (int (length (pathbytes k p)), k))"

text \<open>\<open>lock_reg\<close>: the requests the macros \<open>readw_lock\<close>, \<open>writew_lock\<close> and \<open>un_lock\<close> make.
  Every unlock of the library names the range of the lock it releases.\<close>

datatype lcmd = Lock lkind | Unlock

definition lock_reg :: "int \<Rightarrow> lcmd \<Rightarrow> int \<Rightarrow> int \<Rightarrow> kernel \<Rightarrow> int \<times> kernel" where
  "lock_reg fd cmd start len = syscall (-1) (\<lambda>k.
     case ofile k fd of
       None \<Rightarrow> (-1, k)
     | Some _ \<Rightarrow>
         (case cmd of
            Lock knd \<Rightarrow> (0, k\<lparr>held := (fd, knd, start, len) # held k\<rparr>)
          | Unlock \<Rightarrow> (0, k\<lparr>held := filter (\<lambda>(f, _, st, ln). \<not> (f = fd \<and> st = start \<and> ln = len))
                                            (held k)\<rparr>)))"

abbreviation readw_lock :: "int \<Rightarrow> int \<Rightarrow> int \<Rightarrow> kernel \<Rightarrow> int \<times> kernel" where
  "readw_lock fd \<equiv> lock_reg fd (Lock F_RDLCK)"

abbreviation writew_lock :: "int \<Rightarrow> int \<Rightarrow> int \<Rightarrow> kernel \<Rightarrow> int \<times> kernel" where
  "writew_lock fd \<equiv> lock_reg fd (Lock F_WRLCK)"

abbreviation un_lock :: "int \<Rightarrow> int \<Rightarrow> int \<Rightarrow> kernel \<Rightarrow> int \<times> kernel" where
  "un_lock fd \<equiv> lock_reg fd Unlock"

section \<open>A failed system call\<close>

text \<open>The value a faulting call returns, for each call.\<close>

lemma syscall_fault [simp]: "fault k = Some 0 \<Longrightarrow> syscall err f k = (err, k)"
  by (simp add: syscall_def)

lemma syscall_ok: "fault k = None \<Longrightarrow> syscall err f k = f k"
  by (simp add: syscall_def)

end
