(* ===== verification/Db.thy ===== *)
theory Db
  imports Unix_Files
begin

text \<open>
  The database library \<open>apue.3e/db/db.c\<close>: every function of the file, on a state with the
  kernel of \<^theory_text>\<open>Unix_Files\<close> and the private \<open>DB\<close> structure.  Offsets and lengths are
  integers; \<open>idxbuf\<close> and \<open>datbuf\<close> hold the bytes last stored in the buffers.  A call of
  \<open>malloc\<close> succeeds.
\<close>

record DB =
  idxfd :: int
  datfd :: int
  idxbuf :: string
  datbuf :: string
  name :: string
  idxoff :: int
  idxlen :: int
  datoff :: int
  datlen :: int
  ptrval :: int
  ptroff :: int
  chainoff :: int
  hashoff :: int
  nhash :: nat
  cnt_delok :: nat
  cnt_delerr :: nat
  cnt_fetchok :: nat
  cnt_fetcherr :: nat
  cnt_nextrec :: nat
  cnt_stor1 :: nat
  cnt_stor2 :: nat
  cnt_stor3 :: nat
  cnt_stor4 :: nat
  cnt_storerr :: nat

record dbst =
  kern :: kernel
  db :: DB

definition IDXLEN_SZ :: nat where "IDXLEN_SZ = 4"
definition SEP :: char where "SEP = CHR '':''"
definition SPACE :: char where "SPACE = CHR '' ''"
definition PTR_SZ :: nat where "PTR_SZ = 7"
definition PTR_MAX :: int where "PTR_MAX = 9999999"
definition NHASH_DEF :: nat where "NHASH_DEF = 137"
definition FREE_OFF :: int where "FREE_OFF = 0"
definition HASH_OFF :: int where "HASH_OFF = 7"
definition IDXLEN_MIN :: int where "IDXLEN_MIN = 6"
definition IDXLEN_MAX :: int where "IDXLEN_MAX = 1024"
definition DATLEN_MIN :: int where "DATLEN_MIN = 2"
definition DATLEN_MAX :: int where "DATLEN_MAX = 1024"
definition DB_INSERT :: int where "DB_INSERT = 1"
definition DB_REPLACE :: int where "DB_REPLACE = 2"
definition DB_STORE :: int where "DB_STORE = 3"

lemmas db_consts = IDXLEN_SZ_def SEP_def SPACE_def PTR_SZ_def PTR_MAX_def NHASH_DEF_def
  FREE_OFF_def HASH_OFF_def IDXLEN_MIN_def IDXLEN_MAX_def DATLEN_MIN_def DATLEN_MAX_def
  DB_INSERT_def DB_REPLACE_def DB_STORE_def

text \<open>A system call of the library, and an assignment to a field of \<open>*db\<close>.\<close>

definition kcall :: "(kernel \<Rightarrow> 'r \<times> kernel) \<Rightarrow> (dbst, 'r) prog" where
  "kcall f s = (let (r, k) = f (kern s) in Ret r (s\<lparr>kern := k\<rparr>))"

definition set_db :: "(DB \<Rightarrow> DB) \<Rightarrow> (dbst, unit) prog" where
  "set_db f = modify (\<lambda>s. s\<lparr>db := f (db s)\<rparr>)"

definition get_db :: "(DB \<Rightarrow> 'a) \<Rightarrow> (dbst, 'a) prog" where
  "get_db f = gets (\<lambda>s. f (db s))"

definition check :: "bool \<Rightarrow> abort \<Rightarrow> (dbst, unit) prog" where
  "check b e = (if b then ret () else stop e)"

section \<open>Allocation, opening, closing\<close>

definition db_alloc :: "DB" where
  "db_alloc = \<lparr>idxfd = -1, datfd = -1, idxbuf = [], datbuf = [], name = [], idxoff = 0,
     idxlen = 0, datoff = 0, datlen = 0, ptrval = 0, ptroff = 0, chainoff = 0, hashoff = 0,
     nhash = 0, cnt_delok = 0, cnt_delerr = 0, cnt_fetchok = 0, cnt_fetcherr = 0,
     cnt_nextrec = 0, cnt_stor1 = 0, cnt_stor2 = 0, cnt_stor3 = 0, cnt_stor4 = 0,
     cnt_storerr = 0\<rparr>"

definition db_free :: "(dbst, unit) prog" where
  "db_free =
     bindc (get_db idxfd) (\<lambda>fi.
     bindc (if 0 \<le> fi then bindc (kcall (sys_close fi)) (\<lambda>_. ret ()) else ret ()) (\<lambda>_.
     bindc (get_db datfd) (\<lambda>fd.
     bindc (if 0 \<le> fd then bindc (kcall (sys_close fd)) (\<lambda>_. ret ()) else ret ()) (\<lambda>_.
     set_db (\<lambda>_. db_alloc)))))"

definition db_close :: "(dbst, unit) prog" where
  "db_close = db_free"

definition db_rewind :: "(dbst, unit) prog" where
  "db_rewind =
     bindc (get_db nhash) (\<lambda>nh.
     bindc (get_db idxfd) (\<lambda>fi.
     bindc (kcall (sys_lseek fi ((int nh + 1) * int PTR_SZ + 1) SEEK_SET)) (\<lambda>r.
     bindc (set_db (\<lambda>d. d\<lparr>idxoff := r\<rparr>)) (\<lambda>_.
     check (r \<noteq> -1) (Err_dump ''db_rewind: lseek error'')))))"

text \<open>The initial contents of the index file: one pointer field of value 0 for the free list
  and for each hash chain, and a newline.\<close>

definition hash_init :: "nat \<Rightarrow> string" where
  "hash_init n = concat (replicate (n + 1) (fmt_wd PTR_SZ 0)) @ [NEWLINE]"

definition db_open :: "string \<Rightarrow> oflag list \<Rightarrow> (dbst, bool) prog" where
  "db_open pathname oflag =
     bindc (set_db (\<lambda>_. db_alloc\<lparr>nhash := NHASH_DEF, hashoff := HASH_OFF,
                                  name := pathname @ ''.idx''\<rparr>)) (\<lambda>_.
     bindc (kcall (sys_open (pathname @ ''.idx'') oflag)) (\<lambda>fi.
     bindc (set_db (\<lambda>d. d\<lparr>idxfd := fi, name := pathname @ ''.dat''\<rparr>)) (\<lambda>_.
     bindc (kcall (sys_open (pathname @ ''.dat'') oflag)) (\<lambda>fd.
     bindc (set_db (\<lambda>d. d\<lparr>datfd := fd\<rparr>)) (\<lambda>_.
     if fi < 0 \<or> fd < 0 then bindc db_free (\<lambda>_. ret False)
     else
       bindc (if O_CREAT \<in> set oflag \<and> O_TRUNC \<in> set oflag
              then
                bindc (kcall (writew_lock fi 0 0)) (\<lambda>r.
                bindc (check (0 \<le> r) (Err_dump ''db_open: writew_lock error'')) (\<lambda>_.
                bindc (kcall (sys_fstat_size fi)) (\<lambda>sz.
                bindc (check (0 \<le> sz) (Err_sys ''db_open: fstat error'')) (\<lambda>_.
                bindc (if sz = 0
                       then bindc (kcall (sys_write fi (hash_init NHASH_DEF))) (\<lambda>n.
                            check (n = int (length (hash_init NHASH_DEF)))
                              (Err_dump ''db_open: index file init write error''))
                       else ret ()) (\<lambda>_.
                bindc (kcall (un_lock fi 0 0)) (\<lambda>r.
                check (0 \<le> r) (Err_dump ''db_open: un_lock error'')))))))
              else ret ()) (\<lambda>_.
       bindc db_rewind (\<lambda>_. ret True)))))))"

section \<open>Hash, pointer fields, records\<close>

text \<open>\<open>char\<close> is signed; \<open>hval\<close> is an unsigned long.\<close>

definition schar :: "char \<Rightarrow> int" where
  "schar c = (let n = of_char c in if n < 128 then n else n - 256)"

fun db_hash_loop :: "64 word \<Rightarrow> int \<Rightarrow> string \<Rightarrow> 64 word" where
  "db_hash_loop hval i [] = hval"
| "db_hash_loop hval i (c # cs) = db_hash_loop (hval + of_int (schar c * i)) (i + 1) cs"

definition db_hash :: "nat \<Rightarrow> string \<Rightarrow> nat" where
  "db_hash nh key = unat (db_hash_loop 0 1 key) mod nh"

definition db_readptr :: "int \<Rightarrow> (dbst, int) prog" where
  "db_readptr offset =
     bindc (get_db idxfd) (\<lambda>fi.
     bindc (kcall (sys_lseek fi offset SEEK_SET)) (\<lambda>r.
     bindc (check (r \<noteq> -1) (Err_dump ''_db_readptr: lseek error to ptr field'')) (\<lambda>_.
     bindc (kcall (sys_read fi PTR_SZ)) (\<lambda>b.
     case b of
       None \<Rightarrow> stop (Err_dump ''_db_readptr: read error of ptr field'')
     | Some asciiptr \<Rightarrow>
         if length asciiptr \<noteq> PTR_SZ
         then stop (Err_dump ''_db_readptr: read error of ptr field'')
         else ret (atol (cstr asciiptr))))))"

text \<open>
  The part of \<open>_db_readidx\<close> that works on \<open>idxbuf\<close> alone: the newline and the two separators
  are replaced by null bytes; the result is the buffer, the offset and the length of the data
  record, or the abort.
\<close>

definition split_idx :: "string \<Rightarrow> abort + (string \<times> int \<times> int)" where
  "split_idx b0 =
     (if b0 = [] \<or> last b0 \<noteq> NEWLINE then Inl (Err_dump ''_db_readidx: missing newline'')
      else let b1 = b0[length b0 - 1 := NUL] in
      case strchr b1 SEP of
        None \<Rightarrow> Inl (Err_dump ''_db_readidx: missing first separator'')
      | Some i \<Rightarrow>
        let b2 = b1[i := NUL]; p1 = Suc i in
        (case strchr (drop p1 b2) SEP of
           None \<Rightarrow> Inl (Err_dump ''_db_readidx: missing second separator'')
         | Some j \<Rightarrow>
           let b3 = b2[p1 + j := NUL]; p2 = Suc (p1 + j) in
           (case strchr (drop p2 b3) SEP of
              Some _ \<Rightarrow> Inl (Err_dump ''_db_readidx: too many separators'')
            | None \<Rightarrow>
              let off = atol (cstr (drop p1 b3)); len = atol (cstr (drop p2 b3)) in
              if off < 0 then Inl (Err_dump ''_db_readidx: starting offset < 0'')
              else if len \<le> 0 \<or> len > DATLEN_MAX
              then Inl (Err_dump ''_db_readidx: invalid length'')
              else Inr (b3, off, len))))"

definition db_readidx :: "int \<Rightarrow> (dbst, int) prog" where
  "db_readidx offset =
     bindc (get_db idxfd) (\<lambda>fi.
     bindc (kcall (sys_lseek fi offset (if offset = 0 then SEEK_CUR else SEEK_SET))) (\<lambda>r.
     bindc (set_db (\<lambda>d. d\<lparr>idxoff := r\<rparr>)) (\<lambda>_.
     bindc (check (r \<noteq> -1) (Err_dump ''_db_readidx: lseek error'')) (\<lambda>_.
     bindc (kcall (sys_read fi (PTR_SZ + IDXLEN_SZ))) (\<lambda>b.
     case b of
       None \<Rightarrow> stop (Err_dump ''_db_readidx: readv error of index record'')
     | Some bs \<Rightarrow>
       if length bs \<noteq> PTR_SZ + IDXLEN_SZ
       then (if bs = [] \<and> offset = 0 then ret (-1)
             else stop (Err_dump ''_db_readidx: readv error of index record''))
       else
         bindc (set_db (\<lambda>d. d\<lparr>ptrval := atol (cstr (take PTR_SZ bs)),
                               idxlen := atol (cstr (drop PTR_SZ bs))\<rparr>)) (\<lambda>_.
         bindc (get_db idxlen) (\<lambda>len.
         bindc (check (\<not> (len < IDXLEN_MIN \<or> len > IDXLEN_MAX))
                  (Err_dump ''_db_readidx: invalid length'')) (\<lambda>_.
         bindc (kcall (sys_read fi (nat len))) (\<lambda>c.
         case c of
           None \<Rightarrow> stop (Err_dump ''_db_readidx: read error of index record'')
         | Some rec \<Rightarrow>
           if int (length rec) \<noteq> len
           then stop (Err_dump ''_db_readidx: read error of index record'')
           else (case split_idx rec of
                   Inl e \<Rightarrow> stop e
                 | Inr (buf, off, dlen) \<Rightarrow>
                   bindc (set_db (\<lambda>d. d\<lparr>idxbuf := buf, datoff := off, datlen := dlen\<rparr>)) (\<lambda>_.
                   get_db ptrval)))))))))))"

definition db_readdat :: "(dbst, string) prog" where
  "db_readdat =
     bindc (get_db datfd) (\<lambda>fd.
     bindc (get_db datoff) (\<lambda>off.
     bindc (kcall (sys_lseek fd off SEEK_SET)) (\<lambda>r.
     bindc (check (r \<noteq> -1) (Err_dump ''_db_readdat: lseek error'')) (\<lambda>_.
     bindc (get_db datlen) (\<lambda>len.
     bindc (kcall (sys_read fd (nat len))) (\<lambda>b.
     case b of
       None \<Rightarrow> stop (Err_dump ''_db_readdat: read error'')
     | Some bs \<Rightarrow>
       if int (length bs) \<noteq> len then stop (Err_dump ''_db_readdat: read error'')
       else if bs = [] \<or> last bs \<noteq> NEWLINE then stop (Err_dump ''_db_readdat: missing newline'')
       else bindc (set_db (\<lambda>d. d\<lparr>datbuf := bs[length bs - 1 := NUL]\<rparr>)) (\<lambda>_.
            get_db (\<lambda>d. cstr (datbuf d)))))))))"

definition db_writedat :: "string \<Rightarrow> int \<Rightarrow> whence \<Rightarrow> (dbst, unit) prog" where
  "db_writedat data offset wh =
     bindc (get_db datfd) (\<lambda>fd.
     bindc (if wh = SEEK_END
            then bindc (kcall (writew_lock fd 0 0)) (\<lambda>r.
                 check (0 \<le> r) (Err_dump ''_db_writedat: writew_lock error''))
            else ret ()) (\<lambda>_.
     bindc (kcall (sys_lseek fd offset wh)) (\<lambda>r.
     bindc (set_db (\<lambda>d. d\<lparr>datoff := r\<rparr>)) (\<lambda>_.
     bindc (check (r \<noteq> -1) (Err_dump ''_db_writedat: lseek error'')) (\<lambda>_.
     bindc (set_db (\<lambda>d. d\<lparr>datlen := int (length data) + 1\<rparr>)) (\<lambda>_.
     bindc (kcall (sys_write fd (data @ [NEWLINE]))) (\<lambda>n.
     bindc (check (n = int (length data) + 1)
              (Err_dump ''_db_writedat: writev error of data record'')) (\<lambda>_.
     if wh = SEEK_END
     then bindc (kcall (un_lock fd 0 0)) (\<lambda>r.
          check (0 \<le> r) (Err_dump ''_db_writedat: un_lock error''))
     else ret ()))))))))"

text \<open>
  \<open>_db_dodelete\<close> passes \<open>db->idxbuf\<close> itself as \<open>key\<close>, so \<open>sprintf\<close> copies the string onto
  itself there; the model copies the key before the buffer changes.
\<close>

definition db_writeidx :: "string \<Rightarrow> int \<Rightarrow> whence \<Rightarrow> int \<Rightarrow> (dbst, unit) prog" where
  "db_writeidx key offset wh ptr =
     bindc (set_db (\<lambda>d. d\<lparr>ptrval := ptr\<rparr>)) (\<lambda>_.
     bindc (check (\<not> (ptr < 0 \<or> ptr > PTR_MAX)) (Err_quit ''_db_writeidx: invalid ptr'')) (\<lambda>_.
     bindc (set_db (\<lambda>d. d\<lparr>idxbuf := key @ [SEP] @ fmt_d (datoff d) @ [SEP]
                                  @ fmt_d (datlen d) @ [NEWLINE, NUL]\<rparr>)) (\<lambda>_.
     bindc (get_db (\<lambda>d. cstr (idxbuf d))) (\<lambda>buf.
     bindc (check (\<not> (int (length buf) < IDXLEN_MIN \<or> int (length buf) > IDXLEN_MAX))
              (Err_dump ''_db_writeidx: invalid length'')) (\<lambda>_.
     bindc (get_db idxfd) (\<lambda>fi.
     bindc (get_db nhash) (\<lambda>nh.
     bindc (if wh = SEEK_END
            then bindc (kcall (writew_lock fi ((int nh + 1) * int PTR_SZ + 1) 0)) (\<lambda>r.
                 check (0 \<le> r) (Err_dump ''_db_writeidx: writew_lock error''))
            else ret ()) (\<lambda>_.
     bindc (kcall (sys_lseek fi offset wh)) (\<lambda>r.
     bindc (set_db (\<lambda>d. d\<lparr>idxoff := r\<rparr>)) (\<lambda>_.
     bindc (check (r \<noteq> -1) (Err_dump ''_db_writeidx: lseek error'')) (\<lambda>_.
     bindc (kcall (sys_write fi (fmt_wd PTR_SZ ptr @ fmt_wd IDXLEN_SZ (int (length buf)) @ buf)))
       (\<lambda>n.
     bindc (check (n = int (PTR_SZ + IDXLEN_SZ + length buf))
              (Err_dump ''_db_writeidx: writev error of index record'')) (\<lambda>_.
     if wh = SEEK_END
     then bindc (kcall (un_lock fi ((int nh + 1) * int PTR_SZ + 1) 0)) (\<lambda>r.
          check (0 \<le> r) (Err_dump ''_db_writeidx: un_lock error''))
     else ret ())))))))))))))"

definition db_writeptr :: "int \<Rightarrow> int \<Rightarrow> (dbst, unit) prog" where
  "db_writeptr offset ptr =
     bindc (check (\<not> (ptr < 0 \<or> ptr > PTR_MAX)) (Err_quit ''_db_writeptr: invalid ptr'')) (\<lambda>_.
     bindc (get_db idxfd) (\<lambda>fi.
     bindc (kcall (sys_lseek fi offset SEEK_SET)) (\<lambda>r.
     bindc (check (r \<noteq> -1) (Err_dump ''_db_writeptr: lseek error to ptr field'')) (\<lambda>_.
     bindc (kcall (sys_write fi (fmt_wd PTR_SZ ptr))) (\<lambda>n.
     check (n = int PTR_SZ) (Err_dump ''_db_writeptr: write error of ptr field''))))))"

section \<open>Searching a chain\<close>

text \<open>
  The two \<open>while (offset != 0)\<close> loops.  A chain that visits more offsets than the index file
  has bytes visits one twice and never ends; the fuel of the callers is that bound, and
  running out of it is the outcome \<open>Diverge\<close>.
\<close>

definition idx_fuel :: "dbst \<Rightarrow> nat" where
  "idx_fuel s = (case ofile (kern s) (idxfd (db s)) of None \<Rightarrow> 1
                 | Some (p, _) \<Rightarrow> Suc (length (pathbytes (kern s) p)))"

fun find_loop :: "nat \<Rightarrow> string \<Rightarrow> int \<Rightarrow> (dbst, int) prog" where
  "find_loop 0 key offset = stop Diverge"
| "find_loop (Suc n) key offset =
     (if offset = 0 then ret 0
      else
        bindc (db_readidx offset) (\<lambda>nextoffset.
        bindc (get_db (\<lambda>d. cstr (idxbuf d))) (\<lambda>buf.
        if buf = key then ret offset
        else bindc (set_db (\<lambda>d. d\<lparr>ptroff := offset\<rparr>)) (\<lambda>_. find_loop n key nextoffset))))"

definition db_find_and_lock :: "string \<Rightarrow> bool \<Rightarrow> (dbst, int) prog" where
  "db_find_and_lock key writelock =
     bindc (set_db (\<lambda>d. d\<lparr>chainoff := int (db_hash (nhash d) key * PTR_SZ) + hashoff d\<rparr>)) (\<lambda>_.
     bindc (set_db (\<lambda>d. d\<lparr>ptroff := chainoff d\<rparr>)) (\<lambda>_.
     bindc (get_db chainoff) (\<lambda>co.
     bindc (get_db idxfd) (\<lambda>fi.
     bindc (if writelock
            then bindc (kcall (writew_lock fi co 1)) (\<lambda>r.
                 check (0 \<le> r) (Err_dump ''_db_find_and_lock: writew_lock error''))
            else bindc (kcall (readw_lock fi co 1)) (\<lambda>r.
                 check (0 \<le> r) (Err_dump ''_db_find_and_lock: readw_lock error''))) (\<lambda>_.
     bindc (get_db ptroff) (\<lambda>po.
     bindc (db_readptr po) (\<lambda>offset.
     bindc (gets idx_fuel) (\<lambda>n.
     bindc (find_loop n key offset) (\<lambda>off.
     ret (if off = 0 then -1 else 0))))))))))"

fun free_loop :: "nat \<Rightarrow> int \<Rightarrow> int \<Rightarrow> int \<Rightarrow> int \<Rightarrow> (dbst, int \<times> int) prog" where
  "free_loop 0 keylen dlen saveoffset offset = stop Diverge"
| "free_loop (Suc n) keylen dlen saveoffset offset =
     (if offset = 0 then ret (saveoffset, 0)
      else
        bindc (db_readidx offset) (\<lambda>nextoffset.
        bindc (get_db (\<lambda>d. cstr (idxbuf d))) (\<lambda>buf.
        bindc (get_db datlen) (\<lambda>dl.
        if int (length buf) = keylen \<and> dl = dlen then ret (saveoffset, offset)
        else free_loop n keylen dlen offset nextoffset))))"

definition db_findfree :: "int \<Rightarrow> int \<Rightarrow> (dbst, int) prog" where
  "db_findfree keylen dlen =
     bindc (get_db idxfd) (\<lambda>fi.
     bindc (kcall (writew_lock fi FREE_OFF 1)) (\<lambda>r.
     bindc (check (0 \<le> r) (Err_dump ''_db_findfree: writew_lock error'')) (\<lambda>_.
     bindc (db_readptr FREE_OFF) (\<lambda>offset.
     bindc (gets idx_fuel) (\<lambda>n.
     bindc (free_loop n keylen dlen FREE_OFF offset) (\<lambda>(saveoffset, off).
     bindc (if off = 0 then ret (-1)
            else bindc (get_db ptrval) (\<lambda>pv.
                 bindc (db_writeptr saveoffset pv) (\<lambda>_. ret 0))) (\<lambda>rc.
     bindc (kcall (un_lock fi FREE_OFF 1)) (\<lambda>r.
     bindc (check (0 \<le> r) (Err_dump ''_db_findfree: un_lock error'')) (\<lambda>_.
     ret rc)))))))))"

section \<open>Fetch, delete, store\<close>

definition unlock_chain :: "string \<Rightarrow> (dbst, unit) prog" where
  "unlock_chain msg =
     bindc (get_db idxfd) (\<lambda>fi.
     bindc (get_db chainoff) (\<lambda>co.
     bindc (kcall (un_lock fi co 1)) (\<lambda>r. check (0 \<le> r) (Err_dump msg))))"

definition db_fetch :: "string \<Rightarrow> (dbst, string option) prog" where
  "db_fetch key =
     bindc (db_find_and_lock key False) (\<lambda>f.
     bindc (if f < 0
            then bindc (set_db (\<lambda>d. d\<lparr>cnt_fetcherr := cnt_fetcherr d + 1\<rparr>)) (\<lambda>_. ret None)
            else bindc db_readdat (\<lambda>p.
                 bindc (set_db (\<lambda>d. d\<lparr>cnt_fetchok := cnt_fetchok d + 1\<rparr>)) (\<lambda>_. ret (Some p))))
       (\<lambda>ptr.
     bindc (unlock_chain ''db_fetch: un_lock error'') (\<lambda>_. ret ptr)))"

definition db_dodelete :: "(dbst, unit) prog" where
  "db_dodelete =
     bindc (set_db (\<lambda>d. d\<lparr>datbuf := replicate (nat (datlen d - 1)) SPACE @ [NUL]\<rparr>)) (\<lambda>_.
     bindc (set_db (\<lambda>d. d\<lparr>idxbuf := replicate (length (cstr (idxbuf d))) SPACE
                                  @ drop (length (cstr (idxbuf d))) (idxbuf d)\<rparr>)) (\<lambda>_.
     bindc (get_db idxfd) (\<lambda>fi.
     bindc (kcall (writew_lock fi FREE_OFF 1)) (\<lambda>r.
     bindc (check (0 \<le> r) (Err_dump ''_db_dodelete: writew_lock error'')) (\<lambda>_.
     bindc (get_db (\<lambda>d. cstr (datbuf d))) (\<lambda>blanks.
     bindc (get_db datoff) (\<lambda>doff.
     bindc (db_writedat blanks doff SEEK_SET) (\<lambda>_.
     bindc (db_readptr FREE_OFF) (\<lambda>freeptr.
     bindc (get_db ptrval) (\<lambda>saveptr.
     bindc (get_db (\<lambda>d. cstr (idxbuf d))) (\<lambda>key.
     bindc (get_db idxoff) (\<lambda>ioff.
     bindc (db_writeidx key ioff SEEK_SET freeptr) (\<lambda>_.
     bindc (get_db idxoff) (\<lambda>ioff.
     bindc (db_writeptr FREE_OFF ioff) (\<lambda>_.
     bindc (get_db ptroff) (\<lambda>po.
     bindc (db_writeptr po saveptr) (\<lambda>_.
     bindc (kcall (un_lock fi FREE_OFF 1)) (\<lambda>r.
     check (0 \<le> r) (Err_dump ''_db_dodelete: un_lock error'')))))))))))))))))))"

definition db_delete :: "string \<Rightarrow> (dbst, int) prog" where
  "db_delete key =
     bindc (db_find_and_lock key True) (\<lambda>f.
     bindc (if f = 0
            then bindc db_dodelete (\<lambda>_.
                 bindc (set_db (\<lambda>d. d\<lparr>cnt_delok := cnt_delok d + 1\<rparr>)) (\<lambda>_. ret 0))
            else bindc (set_db (\<lambda>d. d\<lparr>cnt_delerr := cnt_delerr d + 1\<rparr>)) (\<lambda>_. ret (-1))) (\<lambda>rc.
     bindc (unlock_chain ''db_delete: un_lock error'') (\<lambda>_. ret rc)))"

text \<open>The two ways \<open>db_store\<close> puts a new record at the front of the chain.\<close>

definition store_append :: "string \<Rightarrow> string \<Rightarrow> int \<Rightarrow> (dbst, unit) prog" where
  "store_append key data ptr =
     bindc (db_writedat data 0 SEEK_END) (\<lambda>_.
     bindc (db_writeidx key 0 SEEK_END ptr) (\<lambda>_.
     bindc (get_db chainoff) (\<lambda>co.
     bindc (get_db idxoff) (\<lambda>ioff.
     db_writeptr co ioff))))"

definition store_reuse :: "string \<Rightarrow> string \<Rightarrow> int \<Rightarrow> (dbst, unit) prog" where
  "store_reuse key data ptr =
     bindc (get_db datoff) (\<lambda>doff.
     bindc (db_writedat data doff SEEK_SET) (\<lambda>_.
     bindc (get_db idxoff) (\<lambda>ioff.
     bindc (db_writeidx key ioff SEEK_SET ptr) (\<lambda>_.
     bindc (get_db chainoff) (\<lambda>co.
     bindc (get_db idxoff) (\<lambda>ioff.
     db_writeptr co ioff))))))"

definition store_new :: "string \<Rightarrow> string \<Rightarrow> (dbst, unit) prog" where
  "store_new key data =
     bindc (get_db chainoff) (\<lambda>co.
     bindc (db_readptr co) (\<lambda>ptr.
     bindc (db_findfree (int (length key)) (int (length data) + 1)) (\<lambda>f.
     if f < 0
     then bindc (store_append key data ptr) (\<lambda>_.
          set_db (\<lambda>d. d\<lparr>cnt_stor1 := cnt_stor1 d + 1\<rparr>))
     else bindc (store_reuse key data ptr) (\<lambda>_.
          set_db (\<lambda>d. d\<lparr>cnt_stor2 := cnt_stor2 d + 1\<rparr>)))))"

definition store_replace :: "string \<Rightarrow> string \<Rightarrow> (dbst, unit) prog" where
  "store_replace key data =
     bindc (get_db datlen) (\<lambda>dl.
     if int (length data) + 1 \<noteq> dl
     then bindc db_dodelete (\<lambda>_.
          bindc (get_db chainoff) (\<lambda>co.
          bindc (db_readptr co) (\<lambda>ptr.
          bindc (store_append key data ptr) (\<lambda>_.
          set_db (\<lambda>d. d\<lparr>cnt_stor3 := cnt_stor3 d + 1\<rparr>)))))
     else bindc (get_db datoff) (\<lambda>doff.
          bindc (db_writedat data doff SEEK_SET) (\<lambda>_.
          set_db (\<lambda>d. d\<lparr>cnt_stor4 := cnt_stor4 d + 1\<rparr>))))"

definition set_errno :: "errno \<Rightarrow> (dbst, unit) prog" where
  "set_errno e = modify (\<lambda>s. s\<lparr>kern := (kern s)\<lparr>errno := e\<rparr>\<rparr>)"

definition db_store :: "string \<Rightarrow> string \<Rightarrow> int \<Rightarrow> (dbst, int) prog" where
  "db_store key data flag =
     (if flag \<noteq> DB_INSERT \<and> flag \<noteq> DB_REPLACE \<and> flag \<noteq> DB_STORE
      then bindc (set_errno EINVAL) (\<lambda>_. ret (-1))
      else
        bindc (check (\<not> (int (length data) + 1 < DATLEN_MIN \<or> int (length data) + 1 > DATLEN_MAX))
                 (Err_dump ''db_store: invalid data length'')) (\<lambda>_.
        bindc (db_find_and_lock key True) (\<lambda>f.
        bindc (if f < 0
               then if flag = DB_REPLACE
                    then bindc (set_db (\<lambda>d. d\<lparr>cnt_storerr := cnt_storerr d + 1\<rparr>)) (\<lambda>_.
                         bindc (set_errno ENOENT) (\<lambda>_. ret (-1)))
                    else bindc (store_new key data) (\<lambda>_. ret 0)
               else if flag = DB_INSERT
                    then bindc (set_db (\<lambda>d. d\<lparr>cnt_storerr := cnt_storerr d + 1\<rparr>)) (\<lambda>_. ret 1)
                    else bindc (store_replace key data) (\<lambda>_. ret 0)) (\<lambda>rc.
        bindc (unlock_chain ''db_store: un_lock error'') (\<lambda>_. ret rc)))))"

section \<open>Sequential access\<close>

text \<open>Each round of the loop reads at least one record header, so the bound of the callers
  (\<open>idx_fuel\<close>) is never reached.\<close>

fun nextrec_loop :: "nat \<Rightarrow> (dbst, bool) prog" where
  "nextrec_loop 0 = stop Diverge"
| "nextrec_loop (Suc n) =
     bindc (db_readidx 0) (\<lambda>r.
     if r < 0 then ret False
     else bindc (get_db (\<lambda>d. cstr (idxbuf d))) (\<lambda>buf.
          if \<forall>c \<in> set buf. c = SPACE then nextrec_loop n else ret True))"

definition db_nextrec :: "(dbst, (string \<times> string) option) prog" where
  "db_nextrec =
     bindc (get_db idxfd) (\<lambda>fi.
     bindc (kcall (readw_lock fi FREE_OFF 1)) (\<lambda>r.
     bindc (check (0 \<le> r) (Err_dump ''db_nextrec: readw_lock error'')) (\<lambda>_.
     bindc (gets idx_fuel) (\<lambda>n.
     bindc (nextrec_loop n) (\<lambda>found.
     bindc (if found
            then bindc (get_db (\<lambda>d. cstr (idxbuf d))) (\<lambda>key.
                 bindc db_readdat (\<lambda>p.
                 bindc (set_db (\<lambda>d. d\<lparr>cnt_nextrec := cnt_nextrec d + 1\<rparr>)) (\<lambda>_.
                 ret (Some (key, p)))))
            else ret None) (\<lambda>res.
     bindc (kcall (un_lock fi FREE_OFF 1)) (\<lambda>r.
     bindc (check (0 \<le> r) (Err_dump ''db_nextrec: un_lock error'')) (\<lambda>_. ret res))))))))"

end
