(* ===== verification/Db_World.thy ===== *)
theory Db_World
  imports Db
begin

text \<open>
  Symbolic execution of the database code.  \<open>world\<close> is a state of the library with its two
  files open: their contents and offsets, the locks held and the \<open>DB\<close> structure, over a
  kernel \<open>k\<close> that holds whatever else the process has.  The lemmas compute every system call,
  and then every internal function of \<open>db.c\<close>, on such a state.
\<close>

definition world ::
  "string \<Rightarrow> string \<Rightarrow> kernel \<Rightarrow> string \<Rightarrow> string \<Rightarrow> nat \<Rightarrow> nat \<Rightarrow> lock list \<Rightarrow> DB \<Rightarrow> dbst" where
  "world pi pd k I D q qd H d =
     \<lparr>kern = k\<lparr>disk := (disk k)(pi \<mapsto> I, pd \<mapsto> D),
               fdtab := (fdtab k)[nat (idxfd d) := Some (pi, q), nat (datfd d) := Some (pd, qd)],
               held := H, fault := None\<rparr>,
      db = d\<rparr>"

definition ok_base :: "string \<Rightarrow> string \<Rightarrow> kernel \<Rightarrow> int \<Rightarrow> int \<Rightarrow> bool" where
  "ok_base pi pd k fi fd \<longleftrightarrow> pi \<noteq> pd \<and> 0 \<le> fi \<and> 0 \<le> fd \<and> fi \<noteq> fd
     \<and> nat fi < length (fdtab k) \<and> nat fd < length (fdtab k)"

section \<open>System calls\<close>

lemma ofile_world:
  assumes "ok_base pi pd k (idxfd d) (datfd d)"
  shows "ofile (kern (world pi pd k I D q qd H d)) (idxfd d) = Some (pi, q)"
    and "ofile (kern (world pi pd k I D q qd H d)) (datfd d) = Some (pd, qd)"
  using assms by (auto simp: ofile_def world_def ok_base_def nth_list_update)

lemma bytes_world:
  assumes "ok_base pi pd k (idxfd d) (datfd d)"
  shows "pathbytes (kern (world pi pd k I D q qd H d)) pi = I"
    and "pathbytes (kern (world pi pd k I D q qd H d)) pd = D"
  using assms by (auto simp: pathbytes_def world_def ok_base_def)

lemma fault_world [simp]: "fault (kern (world pi pd k I D q qd H d)) = None"
  by (simp add: world_def)

lemma move_world:
  assumes "ok_base pi pd k (idxfd d) (datfd d)"
  shows "(world pi pd k I D q qd H d)\<lparr>kern := (kern (world pi pd k I D q qd H d))
            \<lparr>fdtab := (fdtab (kern (world pi pd k I D q qd H d)))[nat (idxfd d) := Some (pi, q')]\<rparr>\<rparr>
         = world pi pd k I D q' qd H d"
    and "(world pi pd k I D q qd H d)\<lparr>kern := (kern (world pi pd k I D q qd H d))
            \<lparr>fdtab := (fdtab (kern (world pi pd k I D q qd H d)))[nat (datfd d) := Some (pd, q')]\<rparr>\<rparr>
         = world pi pd k I D q q' H d"
proof -
  have "nat (idxfd d) \<noteq> nat (datfd d)" using assms by (auto simp: ok_base_def)
  then show "(world pi pd k I D q qd H d)\<lparr>kern := (kern (world pi pd k I D q qd H d))
            \<lparr>fdtab := (fdtab (kern (world pi pd k I D q qd H d)))[nat (idxfd d) := Some (pi, q')]\<rparr>\<rparr>
         = world pi pd k I D q' qd H d"
    by (simp add: world_def list_update_swap)
  show "(world pi pd k I D q qd H d)\<lparr>kern := (kern (world pi pd k I D q qd H d))
            \<lparr>fdtab := (fdtab (kern (world pi pd k I D q qd H d)))[nat (datfd d) := Some (pd, q')]\<rparr>\<rparr>
         = world pi pd k I D q q' H d"
    by (simp add: world_def)
qed

lemma write_world:
  assumes "ok_base pi pd k (idxfd d) (datfd d)"
  shows "(world pi pd k I D q qd H d)\<lparr>kern := (kern (world pi pd k I D q qd H d))
            \<lparr>disk := (disk (kern (world pi pd k I D q qd H d)))(pi \<mapsto> I'),
             fdtab := (fdtab (kern (world pi pd k I D q qd H d)))[nat (idxfd d) := Some (pi, q')]\<rparr>\<rparr>
         = world pi pd k I' D q' qd H d"
    and "(world pi pd k I D q qd H d)\<lparr>kern := (kern (world pi pd k I D q qd H d))
            \<lparr>disk := (disk (kern (world pi pd k I D q qd H d)))(pd \<mapsto> D'),
             fdtab := (fdtab (kern (world pi pd k I D q qd H d)))[nat (datfd d) := Some (pd, q')]\<rparr>\<rparr>
         = world pi pd k I D' q q' H d"
proof -
  have n: "nat (idxfd d) \<noteq> nat (datfd d)" and p: "pi \<noteq> pd"
    using assms by (auto simp: ok_base_def)
  have "(disk k)(pi \<mapsto> I, pd \<mapsto> D, pi \<mapsto> I') = (disk k)(pi \<mapsto> I', pd \<mapsto> D)"
    using p by (auto simp: fun_eq_iff)
  then show "(world pi pd k I D q qd H d)\<lparr>kern := (kern (world pi pd k I D q qd H d))
            \<lparr>disk := (disk (kern (world pi pd k I D q qd H d)))(pi \<mapsto> I'),
             fdtab := (fdtab (kern (world pi pd k I D q qd H d)))[nat (idxfd d) := Some (pi, q')]\<rparr>\<rparr>
         = world pi pd k I' D q' qd H d"
    using n by (simp add: world_def list_update_swap)
  show "(world pi pd k I D q qd H d)\<lparr>kern := (kern (world pi pd k I D q qd H d))
            \<lparr>disk := (disk (kern (world pi pd k I D q qd H d)))(pd \<mapsto> D'),
             fdtab := (fdtab (kern (world pi pd k I D q qd H d)))[nat (datfd d) := Some (pd, q')]\<rparr>\<rparr>
         = world pi pd k I D' q q' H d"
    by (simp add: world_def)
qed

lemmas kworld = kcall_def syscall_ok ofile_world bytes_world move_world write_world

lemma lseek_world [exec]:
  assumes "ok_base pi pd k (idxfd d) (datfd d)"
  shows "fi = idxfd d \<Longrightarrow> kcall (sys_lseek fi (int off) SEEK_SET) (world pi pd k I D q qd H d)
         = Ret (int off) (world pi pd k I D off qd H d)"
    and "fi = idxfd d \<Longrightarrow> kcall (sys_lseek fi 0 SEEK_CUR) (world pi pd k I D q qd H d)
         = Ret (int q) (world pi pd k I D q qd H d)"
    and "fi = idxfd d \<Longrightarrow> kcall (sys_lseek fi 0 SEEK_END) (world pi pd k I D q qd H d)
         = Ret (int (length I)) (world pi pd k I D (length I) qd H d)"
    and "fd = datfd d \<Longrightarrow> kcall (sys_lseek fd (int off) SEEK_SET) (world pi pd k I D q qd H d)
         = Ret (int off) (world pi pd k I D q off H d)"
    and "fd = datfd d \<Longrightarrow> kcall (sys_lseek fd 0 SEEK_END) (world pi pd k I D q qd H d)
         = Ret (int (length D)) (world pi pd k I D q (length D) H d)"
  using assms by (simp_all add: sys_lseek_def kworld)

lemma read_world [exec]:
  assumes "ok_base pi pd k (idxfd d) (datfd d)"
  shows "fi = idxfd d \<Longrightarrow> kcall (sys_read fi n) (world pi pd k I D q qd H d)
         = Ret (Some (take n (drop q I)))
               (world pi pd k I D (q + length (take n (drop q I))) qd H d)"
    and "fd = datfd d \<Longrightarrow> kcall (sys_read fd n) (world pi pd k I D q qd H d)
         = Ret (Some (take n (drop qd D)))
               (world pi pd k I D q (qd + length (take n (drop qd D))) H d)"
  using assms by (simp_all add: sys_read_def kworld Let_def)

lemma sys_write_world [exec]:
  assumes "ok_base pi pd k (idxfd d) (datfd d)"
  shows "fi = idxfd d \<Longrightarrow> kcall (sys_write fi bs) (world pi pd k I D q qd H d)
         = Ret (int (length bs)) (world pi pd k (overlay NUL I q bs) D (q + length bs) qd H d)"
    and "fd = datfd d \<Longrightarrow> kcall (sys_write fd bs) (world pi pd k I D q qd H d)
         = Ret (int (length bs)) (world pi pd k I (overlay NUL D qd bs) q (qd + length bs) H d)"
  using assms by (simp_all add: sys_write_def kworld Let_def)

definition unlocked :: "int \<Rightarrow> int \<Rightarrow> int \<Rightarrow> lock list \<Rightarrow> lock list" where
  "unlocked fd start len H = filter (\<lambda>(f, _, st, ln). \<not> (f = fd \<and> st = start \<and> ln = len)) H"

lemma unlocked_Cons [simp]:
  "unlocked fd start len ((fd', knd, start', len') # H) =
     (if fd' = fd \<and> start' = start \<and> len' = len then unlocked fd start len H
      else (fd', knd, start', len') # unlocked fd start len H)"
  by (auto simp: unlocked_def)

lemma held_world: "(world pi pd k I D q qd H d)\<lparr>kern := (kern (world pi pd k I D q qd H d))
            \<lparr>held := H'\<rparr>\<rparr> = world pi pd k I D q qd H' d"
  by (simp add: world_def)

lemma held_of_world [simp]: "held (kern (world pi pd k I D q qd H d)) = H"
  by (simp add: world_def)

lemma lock_world [exec]:
  assumes "ok_base pi pd k (idxfd d) (datfd d)"
  shows "fi = idxfd d \<Longrightarrow> kcall (lock_reg fi (Lock knd) st ln) (world pi pd k I D q qd H d)
         = Ret 0 (world pi pd k I D q qd ((idxfd d, knd, st, ln) # H) d)"
    and "fd = datfd d \<Longrightarrow> kcall (lock_reg fd (Lock knd) st ln) (world pi pd k I D q qd H d)
         = Ret 0 (world pi pd k I D q qd ((datfd d, knd, st, ln) # H) d)"
    and "fi = idxfd d \<Longrightarrow> kcall (lock_reg fi Unlock st ln) (world pi pd k I D q qd H d)
         = Ret 0 (world pi pd k I D q qd (unlocked (idxfd d) st ln H) d)"
    and "fd = datfd d \<Longrightarrow> kcall (lock_reg fd Unlock st ln) (world pi pd k I D q qd H d)
         = Ret 0 (world pi pd k I D q qd (unlocked (datfd d) st ln H) d)"
  using assms by (simp_all add: lock_reg_def kworld held_world unlocked_def)

section \<open>The DB structure\<close>

lemma set_db_world [exec]:
  assumes "idxfd (f d) = idxfd d" and "datfd (f d) = datfd d"
  shows "set_db f (world pi pd k I D q qd H d) = Ret () (world pi pd k I D q qd H (f d))"
  using assms by (simp add: set_db_def world_def)

lemma get_db_world [exec]: "get_db f (world pi pd k I D q qd H d) = Ret (f d) (world pi pd k I D q qd H d)"
  by (simp add: get_db_def world_def)

lemma set_errno_world [exec]:
  "set_errno e (world pi pd k I D q qd H d) = Ret () (world pi pd (k\<lparr>errno := e\<rparr>) I D q qd H d)"
  by (simp add: set_errno_def world_def)

lemma check_exec [exec]: "b \<Longrightarrow> check b e s = Ret () s" "\<not> b \<Longrightarrow> check b e s = Abort e s"
  by (simp_all add: check_def)

lemma idx_fuel_world:
  "ok_base pi pd k (idxfd d) (datfd d) \<Longrightarrow>
   idx_fuel (world pi pd k I D q qd H d) = Suc (length I)"
  using ofile_world(1) [of pi pd k d I D q qd H] bytes_world(1) [of pi pd k d I D q qd H]
  by (simp add: idx_fuel_def) (simp add: world_def)

lemma ok_base_errno [simp]: "ok_base pi pd (k\<lparr>errno := e\<rparr>) fi fd = ok_base pi pd k fi fd"
  by (simp add: ok_base_def)

end
