(* ===== verification/Db_Repr.thy ===== *)
theory Db_Repr
  imports Db_World
begin

text \<open>
  What the two files hold.  An \<open>entry\<close> is an index record with its data record; the index
  file is the table of pointer fields followed by the index records, the data file the data
  records, in the same order.  The lemmas say what every internal function of \<open>db.c\<close> reads
  from, and writes to, files of this form.
\<close>

record entry =
  e_ptr :: nat
  e_key :: string
  e_data :: string

definition rec_body :: "nat \<Rightarrow> entry \<Rightarrow> string" where
  "rec_body doff e = e_key e @ [SEP] @ dec doff @ [SEP] @ dec (length (e_data e) + 1) @ [NEWLINE]"

definition enc_entry :: "nat \<Rightarrow> entry \<Rightarrow> string" where
  "enc_entry doff e = fmt_wd PTR_SZ (int (e_ptr e))
     @ fmt_wd IDXLEN_SZ (int (length (rec_body doff e))) @ rec_body doff e"

fun enc_idx :: "nat \<Rightarrow> entry list \<Rightarrow> string" where
  "enc_idx doff [] = []"
| "enc_idx doff (e # es) = enc_entry doff e @ enc_idx (doff + length (e_data e) + 1) es"

definition enc_dat :: "entry list \<Rightarrow> string" where
  "enc_dat es = concat (map (\<lambda>e. e_data e @ [NEWLINE]) es)"

definition enc_hdr :: "nat list \<Rightarrow> string" where
  "enc_hdr hs = concat (map (\<lambda>h. fmt_wd PTR_SZ (int h)) hs) @ [NEWLINE]"

definition idx_file :: "nat list \<Rightarrow> entry list \<Rightarrow> string" where
  "idx_file hs es = enc_hdr hs @ enc_idx 0 es"

text \<open>A record the library can write and read back.\<close>

definition ok_key :: "string \<Rightarrow> bool" where
  "ok_key key \<longleftrightarrow> key \<noteq> [] \<and> NUL \<notin> set key \<and> SEP \<notin> set key"

definition ok_data :: "string \<Rightarrow> bool" where
  "ok_data data \<longleftrightarrow> data \<noteq> [] \<and> NUL \<notin> set data \<and> length data < 1024"

definition ok_entry :: "nat \<Rightarrow> entry \<Rightarrow> bool" where
  "ok_entry doff e \<longleftrightarrow> e_ptr e \<le> 9999999 \<and> ok_key (e_key e) \<and> ok_data (e_data e)
     \<and> length (rec_body doff e) \<le> 1024"

definition ok_heads :: "nat list \<Rightarrow> bool" where
  "ok_heads hs \<longleftrightarrow> (\<forall>h \<in> set hs. h \<le> 9999999)"

section \<open>Fields and records are read back as written\<close>

lemma length_ptr [simp]: "n \<le> 9999999 \<Longrightarrow> length (fmt_wd PTR_SZ (int n)) = PTR_SZ"
  by (rule length_fmt_wd) (simp_all add: PTR_SZ_def)

lemma fmt_wd_chars: "c \<in> set (fmt_wd w (int n)) \<Longrightarrow> c = CHR '' '' \<or> isdigit_c c"
  by (auto simp: fmt_wd_def dest: dec_digits)

lemma cstr_fmt_wd [simp]: "cstr (fmt_wd w (int n)) = fmt_wd w (int n)"
  by (rule cstr_id) (auto dest!: fmt_wd_chars simp: isdigit_misc NUL_def isdigit_c_def)

lemma NUL_dec [simp]: "NUL \<notin> set (dec n)"
  and SEP_dec [simp]: "SEP \<notin> set (dec n)"
  and NEWLINE_dec [simp]: "NEWLINE \<notin> set (dec n)"
  using dec_digits isdigit_misc by (fastforce simp: SEP_def)+

lemma seps [simp]: "SEP \<noteq> NUL" "NUL \<noteq> SEP" "NEWLINE \<noteq> NUL" "NUL \<noteq> NEWLINE" "NEWLINE \<noteq> SEP"
    "SEP \<noteq> NEWLINE" "SPACE \<noteq> NUL" "NUL \<noteq> SPACE" "SPACE \<noteq> SEP" "SEP \<noteq> SPACE"
  by (simp_all add: SEP_def NUL_def NEWLINE_def SPACE_def)

text \<open>The contents of \<open>idxbuf\<close> after a record was read.\<close>

definition idx_image :: "nat \<Rightarrow> entry \<Rightarrow> string" where
  "idx_image doff e = e_key e @ [NUL] @ dec doff @ [NUL] @ dec (length (e_data e) + 1) @ [NUL]"

lemma cstr_idx_image: "NUL \<notin> set (e_key e) \<Longrightarrow> cstr (idx_image doff e) = e_key e"
  by (simp add: idx_image_def cstr_append_NUL)

lemma split_idx_body:
  assumes "ok_key (e_key e)" and "ok_data (e_data e)"
  shows "split_idx (rec_body doff e) = Inr (idx_image doff e, int doff, int (length (e_data e)) + 1)"
proof -
  let ?k = "e_key e" and ?o = "dec doff" and ?l = "dec (Suc (length (e_data e)))"
  define b1 where "b1 = ?k @ SEP # ?o @ SEP # ?l @ [NUL]"
  define b2 where "b2 = ?k @ NUL # ?o @ SEP # ?l @ [NUL]"
  define b3 where "b3 = ?k @ NUL # ?o @ NUL # ?l @ [NUL]"
  have body: "rec_body doff e = (?k @ SEP # ?o @ SEP # ?l) @ [NEWLINE]"
    by (simp add: rec_body_def)
  have n0: "rec_body doff e \<noteq> []" "last (rec_body doff e) = NEWLINE"
    by (simp_all add: body)
  have e1: "(rec_body doff e)[length (rec_body doff e) - 1 := NUL] = b1"
    unfolding body b1_def by (simp add: list_update_append)
  have s1: "strchr b1 SEP = Some (length ?k)"
    unfolding b1_def using assms by (intro strchr_first) (auto simp: ok_key_def)
  have e2: "b1[length ?k := NUL] = b2"
    by (simp add: b1_def b2_def list_update_append)
  have d2: "drop (Suc (length ?k)) b2 = ?o @ SEP # ?l @ [NUL]" by (simp add: b2_def)
  have s2: "strchr (drop (Suc (length ?k)) b2) SEP = Some (length ?o)"
    unfolding d2 by (intro strchr_first) auto
  have e3: "b2[Suc (length ?k) + length ?o := NUL] = b3"
    by (simp add: b2_def b3_def list_update_append)
  have d3: "drop (Suc (Suc (length ?k) + length ?o)) b3 = ?l @ [NUL]"
           "drop (Suc (length ?k)) b3 = ?o @ NUL # ?l @ [NUL]"
    by (simp_all add: b3_def)
  have s3: "strchr (drop (Suc (Suc (length ?k) + length ?o)) b3) SEP = None"
    unfolding d3 using strchr_absent [of SEP ?l "[]"] by simp
  have a1: "atol (cstr (drop (Suc (length ?k)) b3)) = int doff"
    unfolding d3 by (simp add: cstr_append_NUL)
  have a2: "atol (cstr (drop (Suc (Suc (length ?k) + length ?o)) b3)) = int (Suc (length (e_data e)))"
    unfolding d3 using cstr_append_NUL [of ?l "[]"] by simp
  have im: "b3 = idx_image doff e" by (simp add: b3_def idx_image_def)
  have "length (e_data e) < 1024" using assms by (simp add: ok_data_def)
  then show ?thesis
    unfolding split_idx_def Let_def e1 s1 option.case e2 s2 e3 s3 a1 a2
    using n0 by (simp add: im DATLEN_MAX_def)
qed

lemma length_body_bounds:
  "ok_entry doff e \<Longrightarrow> 6 \<le> length (rec_body doff e) \<and> length (rec_body doff e) \<le> 1024"
  using length_dec_pos [of doff] length_dec_pos [of "length (e_data e) + 1"]
  by (cases "e_key e") (auto simp: ok_entry_def ok_key_def rec_body_def Suc_le_eq simp del: length_dec_pos length_greater_0_conv)

lemma length_enc_entry:
  "ok_entry doff e \<Longrightarrow> length (enc_entry doff e) = 11 + length (rec_body doff e)"
  using length_body_bounds [of doff e] length_fmt_wd [of "length (rec_body doff e)" 4]
  by (simp add: enc_entry_def ok_entry_def IDXLEN_SZ_def) (simp add: PTR_SZ_def)

section \<open>The internal functions on a file given by its parts\<close>

text \<open>What \<open>_db_readidx\<close> stores in the \<open>DB\<close> structure.\<close>

definition loaded :: "nat \<Rightarrow> nat \<Rightarrow> entry \<Rightarrow> DB \<Rightarrow> DB" where
  "loaded off doff e d = d\<lparr>idxoff := int off, ptrval := int (e_ptr e),
     idxlen := int (length (rec_body doff e)), idxbuf := idx_image doff e,
     datoff := int doff, datlen := int (length (e_data e)) + 1\<rparr>"

lemma loaded_sel [simp]:
  "idxfd (loaded off doff e d) = idxfd d" "datfd (loaded off doff e d) = datfd d"
  "idxoff (loaded off doff e d) = int off" "ptrval (loaded off doff e d) = int (e_ptr e)"
  "idxbuf (loaded off doff e d) = idx_image doff e" "datoff (loaded off doff e d) = int doff"
  "datlen (loaded off doff e d) = int (length (e_data e)) + 1"
  "ptroff (loaded off doff e d) = ptroff d" "chainoff (loaded off doff e d) = chainoff d"
  "nhash (loaded off doff e d) = nhash d" "hashoff (loaded off doff e d) = hashoff d"
  by (simp_all add: loaded_def)

lemma readptr_world:
  assumes "ok_base pi pd k (idxfd d) (datfd d)" and "n \<le> 9999999" and "length pre = off"
    and "I = pre @ fmt_wd PTR_SZ (int n) @ post"
  shows "db_readptr (int off) (world pi pd k I D q qd H d)
         = Ret (int n) (world pi pd k I D (off + 7) qd H d)"
  using assms by (simp add: db_readptr_def exec) (simp add: PTR_SZ_def)

lemma writeptr_world:
  assumes "ok_base pi pd k (idxfd d) (datfd d)" and "n \<le> 9999999" and "length pre = off"
    and "length old = 7"
  shows "db_writeptr (int off) (int n) (world pi pd k (pre @ old @ post) D q qd H d)
         = Ret () (world pi pd k (pre @ fmt_wd PTR_SZ (int n) @ post) D (off + 7) qd H d)"
proof -
  have "overlay NUL (pre @ old @ post) off (fmt_wd PTR_SZ (int n))
      = pre @ fmt_wd PTR_SZ (int n) @ post"
    using assms by (intro overlay_mid) (simp_all add: PTR_SZ_def [symmetric])
  with assms show ?thesis
    by (simp add: db_writeptr_def exec PTR_MAX_def) (simp add: PTR_SZ_def)
qed

lemma readidx_tail:
  assumes ok: "ok_base pi pd k (idxfd d) (datfd d)" and e: "ok_entry doff e"
    and I: "I = pre @ enc_entry doff e @ post" and pre: "length pre = off"
    and off: "offset = 0 \<and> q = off \<or> offset = int off \<and> offset \<noteq> 0"
  shows "db_readidx offset (world pi pd k I D q qd H d)
         = Ret (int (e_ptr e)) (world pi pd k I D (off + length (enc_entry doff e)) qd H
              (loaded off doff e d))"
proof -
  let ?L = "length (rec_body doff e)" and ?h = "fmt_wd PTR_SZ (int (e_ptr e))"
  let ?l = "fmt_wd IDXLEN_SZ (int ?L)"
  note b = length_body_bounds [OF e]
  have ok_e: "e_ptr e \<le> 9999999" "ok_key (e_key e)" "ok_data (e_data e)"
    using e by (auto simp: ok_entry_def)
  have lh: "length ?h = PTR_SZ" using ok_e by simp
  have ll: "length ?l = IDXLEN_SZ" using b length_fmt_wd [of ?L 4] by (simp add: IDXLEN_SZ_def)
  define bs where "bs = ?h @ ?l"
  have t1: "take (PTR_SZ + IDXLEN_SZ) (drop off I) = bs"
    using I pre lh ll by (simp add: enc_entry_def bs_def)
  have t2: "take ?L (drop (off + (PTR_SZ + IDXLEN_SZ)) I) = rec_body doff e"
    using I pre lh ll by (simp add: enc_entry_def drop_append)
  have sz: "length bs = PTR_SZ + IDXLEN_SZ" using lh ll by (simp add: bs_def)
  have le: "off + (PTR_SZ + IDXLEN_SZ) + ?L = off + length (enc_entry doff e)"
    using lh ll by (simp add: enc_entry_def)
  have hd: "take PTR_SZ bs = ?h" "drop PTR_SZ bs = ?l" using lh by (simp_all add: bs_def)
  have s: "kcall (sys_lseek (idxfd d) offset (if offset = 0 then SEEK_CUR else SEEK_SET))
            (world pi pd k I D q qd H d)
          = Ret (int off) (world pi pd k I D off qd H d)"
    using off ok by (auto simp: exec)
  have buf: "world pi pd k I D x qd H
      (d\<lparr>idxoff := int off, ptrval := int (e_ptr e), idxlen := int ?L, idxbuf := idx_image doff e,
         datoff := int doff, datlen := int (length (e_data e)) + 1\<rparr>)
      = world pi pd k I D x qd H (loaded off doff e d)" for x
    by (simp add: loaded_def)
  show ?thesis
    using ok b
    unfolding db_readidx_def bindc_exec get_db_world outcome.case s
    by (simp add: exec t1 sz hd t2 le buf split_idx_body [OF ok_e(2,3)]
          IDXLEN_MIN_def IDXLEN_MAX_def)
qed

definition no_locks :: "int \<Rightarrow> int \<Rightarrow> lock list \<Rightarrow> bool" where
  "no_locks fi fd H \<longleftrightarrow> (\<forall>l \<in> set H. fst l \<noteq> fi \<and> fst l \<noteq> fd)"

lemma unlocked_none [simp]:
  "no_locks fi fd H \<Longrightarrow> unlocked fi st ln H = H" "no_locks fi fd H \<Longrightarrow> unlocked fd st ln H = H"
  by (auto simp: no_locks_def unlocked_def filter_id_conv)

lemma readdat_world:
  assumes "ok_base pi pd k (idxfd d) (datfd d)" and "NUL \<notin> set data"
    and "D = pre @ data @ [NEWLINE] @ post" and "int (length pre) = datoff d"
    and "datlen d = int (length data) + 1"
  shows "db_readdat (world pi pd k I D q qd H d)
         = Ret data (world pi pd k I D q (nat (datoff d) + length data + 1) H
             (d\<lparr>datbuf := data @ [NUL]\<rparr>))"
proof -
  have n: "nat (datlen d) = Suc (length data)" using assms by simp
  have t: "take (Suc (length data)) (drop (length pre) D) = data @ [NEWLINE]"
    using assms by simp
  have c: "cstr (data @ [NUL]) = data" using assms by (simp add: cstr_append_NUL)
  have o1: "nat (datoff d) = length pre" using assms by (metis nat_int)
  show ?thesis
    using assms(1,5)
    by (simp add: db_readdat_def exec assms(4) [symmetric] t c list_update_append)
qed

lemma writedat_over:
  assumes "ok_base pi pd k (idxfd d) (datfd d)"
    and "length pre = doff" and "length old = length data + 1"
  shows "db_writedat data (int doff) SEEK_SET (world pi pd k I (pre @ old @ post) q qd H d)
         = Ret () (world pi pd k I (pre @ (data @ [NEWLINE]) @ post) q (doff + length data + 1) H
             (d\<lparr>datoff := int doff, datlen := int (length data) + 1\<rparr>))"
proof -
  have "overlay NUL (pre @ old @ post) doff (data @ [NEWLINE]) = pre @ (data @ [NEWLINE]) @ post"
    using assms by (intro overlay_mid) simp_all
  with assms show ?thesis by (simp add: db_writedat_def exec)
qed

lemma writedat_append:
  assumes "ok_base pi pd k (idxfd d) (datfd d)" and "unlocked (datfd d) 0 0 H = H"
  shows "db_writedat data 0 SEEK_END (world pi pd k I D q qd H d)
         = Ret () (world pi pd k I (D @ data @ [NEWLINE]) q (length D + length data + 1) H
             (d\<lparr>datoff := int (length D), datlen := int (length data) + 1\<rparr>))"
  using assms by (simp add: db_writedat_def exec overlay_end)

lemma writeidx_buf:
  assumes "ok_entry doff e"
  shows "cstr (e_key e @ SEP # dec doff @ SEP # dec (Suc (length (e_data e))) @ [NEWLINE, NUL])
         = rec_body doff e"
proof -
  have k: "NUL \<notin> set (e_key e)" using assms by (simp add: ok_entry_def ok_key_def)
  show ?thesis
    using k cstr_append_NUL [of "rec_body doff e" "[]"] by (simp add: rec_body_def)
qed

lemma enc_entry_flat:
  "fmt_wd PTR_SZ (int (e_ptr e)) @ fmt_wd IDXLEN_SZ (int (length (rec_body doff e))) @ rec_body doff e
   = enc_entry doff e"
  by (simp add: enc_entry_def)

definition written :: "nat \<Rightarrow> nat \<Rightarrow> entry \<Rightarrow> DB \<Rightarrow> DB" where
  "written off doff e d = d\<lparr>ptrval := int (e_ptr e),
     idxbuf := e_key e @ SEP # dec doff @ SEP # dec (Suc (length (e_data e))) @ [NEWLINE, NUL],
     idxoff := int off\<rparr>"

lemma written_sel [simp]:
  "idxfd (written off doff e d) = idxfd d" "datfd (written off doff e d) = datfd d"
  "idxoff (written off doff e d) = int off" "ptrval (written off doff e d) = int (e_ptr e)"
  "datoff (written off doff e d) = datoff d" "datlen (written off doff e d) = datlen d"
  "ptroff (written off doff e d) = ptroff d" "chainoff (written off doff e d) = chainoff d"
  "nhash (written off doff e d) = nhash d" "hashoff (written off doff e d) = hashoff d"
  by (simp_all add: written_def)

lemma written_int:
  assumes "ok_entry doff e"
  shows "int (length (enc_entry doff e))
         = int PTR_SZ + int IDXLEN_SZ + int (length (rec_body doff e))"
  using length_enc_entry [OF assms] by (simp add: PTR_SZ_def IDXLEN_SZ_def)

lemma writeidx_over:
  assumes ok: "ok_base pi pd k (idxfd d) (datfd d)" and e: "ok_entry doff e"
    and d: "datoff d = int doff" "datlen d = int (length (e_data e)) + 1"
    and old: "length pre = off" "length old = length (enc_entry doff e)"
  shows "db_writeidx (e_key e) (int off) SEEK_SET (int (e_ptr e))
           (world pi pd k (pre @ old @ post) D q qd H d)
         = Ret () (world pi pd k (pre @ enc_entry doff e @ post) D
                     (off + length (enc_entry doff e)) qd H (written off doff e d))"
proof -
  have p: "e_ptr e \<le> 9999999" using e by (simp add: ok_entry_def)
  have ov: "overlay NUL (pre @ old @ post) off (enc_entry doff e) = pre @ enc_entry doff e @ post"
    using old by (intro overlay_mid) simp_all
  show ?thesis
    using ok d p length_body_bounds [OF e]
    by (simp add: db_writeidx_def exec writeidx_buf [OF e] ov enc_entry_flat written_int [OF e]
        PTR_MAX_def IDXLEN_MIN_def IDXLEN_MAX_def written_def)
qed

lemma writeidx_append:
  assumes ok: "ok_base pi pd k (idxfd d) (datfd d)" and e: "ok_entry doff e"
    and d: "datoff d = int doff" "datlen d = int (length (e_data e)) + 1"
    and "unlocked (idxfd d) ((int (nhash d) + 1) * int PTR_SZ + 1) 0 H = H"
  shows "db_writeidx (e_key e) 0 SEEK_END (int (e_ptr e)) (world pi pd k I D q qd H d)
         = Ret () (world pi pd k (I @ enc_entry doff e) D (length I + length (enc_entry doff e)) qd
             H (written (length I) doff e d))"
proof -
  have p: "e_ptr e \<le> 9999999" using e by (simp add: ok_entry_def)
  show ?thesis
    using ok d p length_body_bounds [OF e] assms(5)
    by (simp add: db_writeidx_def exec writeidx_buf [OF e] overlay_end enc_entry_flat
        written_int [OF e] PTR_MAX_def IDXLEN_MIN_def IDXLEN_MAX_def written_def)
qed

end
