(* ===== verification/Db_Files.thy ===== *)
theory Db_Files
  imports Db_Repr
begin

text \<open>
  The internal functions of \<open>db.c\<close> on the two files of a list of entries: which entry a file
  offset names, and how each read and write acts on the entries.
\<close>

definition hlen :: "nat list \<Rightarrow> nat" where
  "hlen hs = 7 * length hs + 1"

definition ioff :: "nat list \<Rightarrow> entry list \<Rightarrow> nat \<Rightarrow> nat" where
  "ioff hs es j = hlen hs + length (enc_idx 0 (take j es))"

definition doff :: "entry list \<Rightarrow> nat \<Rightarrow> nat" where
  "doff es j = length (enc_dat (take j es))"

definition ok_entries :: "entry list \<Rightarrow> bool" where
  "ok_entries es \<longleftrightarrow> (\<forall>j < length es. ok_entry (doff es j) (es ! j))"

text \<open>A place that holds a chain pointer: a field of the table (0 is the free list) or the
  pointer field of a record.\<close>

datatype loc = Head nat | Link nat

fun loc_off :: "nat list \<Rightarrow> entry list \<Rightarrow> loc \<Rightarrow> nat" where
  "loc_off hs es (Head i) = 7 * i"
| "loc_off hs es (Link j) = ioff hs es j"

fun ok_loc :: "nat list \<Rightarrow> entry list \<Rightarrow> loc \<Rightarrow> bool" where
  "ok_loc hs es (Head i) = (i < length hs)"
| "ok_loc hs es (Link j) = (j < length es)"

fun get_ptr :: "nat list \<Rightarrow> entry list \<Rightarrow> loc \<Rightarrow> nat" where
  "get_ptr hs es (Head i) = hs ! i"
| "get_ptr hs es (Link j) = e_ptr (es ! j)"

fun set_heads :: "loc \<Rightarrow> nat \<Rightarrow> nat list \<Rightarrow> nat list" where
  "set_heads (Head i) v hs = hs[i := v]"
| "set_heads (Link j) v hs = hs"

fun set_links :: "loc \<Rightarrow> nat \<Rightarrow> entry list \<Rightarrow> entry list" where
  "set_links (Head i) v es = es"
| "set_links (Link j) v es = es[j := (es ! j)\<lparr>e_ptr := v\<rparr>]"

definition W :: "string \<Rightarrow> string \<Rightarrow> kernel \<Rightarrow> nat list \<Rightarrow> entry list \<Rightarrow> nat \<Rightarrow> nat \<Rightarrow> lock list
    \<Rightarrow> DB \<Rightarrow> dbst" where
  "W pi pd k hs es q qd H d = world pi pd k (idx_file hs es) (enc_dat es) q qd H d"

section \<open>Cutting the files at an entry\<close>

lemma enc_dat_append [simp]: "enc_dat (xs @ ys) = enc_dat xs @ enc_dat ys"
  by (simp add: enc_dat_def)

lemma enc_dat_Cons: "enc_dat (e # es) = e_data e @ NEWLINE # enc_dat es"
  by (simp add: enc_dat_def)

lemma enc_dat_Nil [simp]: "enc_dat [] = []"
  by (simp add: enc_dat_def)

lemma enc_idx_append: "enc_idx n (xs @ ys) = enc_idx n xs @ enc_idx (n + length (enc_dat xs)) ys"
  by (induction xs arbitrary: n) (simp_all add: enc_dat_Cons add.assoc)

lemma doff_update [simp]:
  "length (e_data e) = length (e_data (es ! j)) \<Longrightarrow> doff (es[j := e]) i = doff es i"
proof -
  assume *: "length (e_data e) = length (e_data (es ! j))"
  have "map (\<lambda>e. length (e_data e)) (es[j := e]) = map (\<lambda>e. length (e_data e)) es"
  proof (cases "j < length es")
    case True
    with * show ?thesis by (intro nth_equalityI) (auto simp: nth_list_update)
  next
    case False
    then show ?thesis by (simp add: list_update_beyond)
  qed
  then have "map (\<lambda>e. length (e_data e)) (take i (es[j := e]))
      = map (\<lambda>e. length (e_data e)) (take i es)"
    by (metis take_map)
  moreover have "length (enc_dat xs) = sum_list (map (\<lambda>e. length (e_data e)) xs) + length xs" for xs
    by (induction xs) (simp_all add: enc_dat_Cons)
  ultimately show ?thesis by (simp add: doff_def)
qed

lemma idx_cut:
  assumes "j < length es"
  shows "idx_file hs es = (enc_hdr hs @ enc_idx 0 (take j es)) @ enc_entry (doff es j) (es ! j)
           @ enc_idx (doff es (Suc j)) (drop (Suc j) es)"
proof -
  have "enc_idx 0 es = enc_idx 0 (take j es @ es ! j # drop (Suc j) es)"
    using assms by (simp add: id_take_nth_drop [symmetric])
  then show ?thesis
    using assms
    by (simp add: idx_file_def enc_idx_append doff_def take_Suc_conv_app_nth enc_dat_Cons add.assoc)
qed

lemma idx_cut_update:
  assumes "j < length es" and "length (e_data e) = length (e_data (es ! j))"
  shows "idx_file hs (es[j := e]) = (enc_hdr hs @ enc_idx 0 (take j es)) @ enc_entry (doff es j) e
           @ enc_idx (doff es (Suc j)) (drop (Suc j) es)"
  using assms idx_cut [of j "es[j := e]" hs] by simp

lemma dat_cut:
  assumes "j < length es"
  shows "enc_dat es = enc_dat (take j es) @ (e_data (es ! j) @ [NEWLINE]) @ enc_dat (drop (Suc j) es)"
proof -
  have "enc_dat es = enc_dat (take j es @ es ! j # drop (Suc j) es)"
    using assms by (simp add: id_take_nth_drop [symmetric])
  then show ?thesis by (simp add: enc_dat_Cons)
qed

lemma dat_cut_update:
  assumes "j < length es"
  shows "enc_dat (es[j := e]) = enc_dat (take j es) @ (e_data e @ [NEWLINE]) @ enc_dat (drop (Suc j) es)"
  using assms dat_cut [of j "es[j := e]"] by simp

lemma length_concat_ptrs:
  "\<forall>h \<in> set hs. h \<le> 9999999 \<Longrightarrow>
   length (concat (map (\<lambda>h. fmt_wd PTR_SZ (int h)) hs)) = 7 * length hs"
  by (induction hs) (simp_all add: PTR_SZ_def [symmetric] length_ptr [unfolded PTR_SZ_def])

lemma length_enc_hdr: "ok_heads hs \<Longrightarrow> length (enc_hdr hs) = hlen hs"
  using length_concat_ptrs [of hs] by (simp add: ok_heads_def enc_hdr_def hlen_def)

lemma hdr_cut:
  assumes "ok_heads hs" and "i < length hs"
  obtains pre post where "length pre = 7 * i" and
    "enc_hdr hs = pre @ fmt_wd PTR_SZ (int (hs ! i)) @ post" and
    "\<And>v. enc_hdr (hs[i := v]) = pre @ fmt_wd PTR_SZ (int v) @ post"
proof
  let ?f = "\<lambda>h. fmt_wd PTR_SZ (int h)"
  show "length (concat (map ?f (take i hs))) = 7 * i"
    using assms length_concat_ptrs [of "take i hs"]
    by (auto simp: ok_heads_def dest: in_set_takeD)
  show *: "enc_hdr (hs[i := v]) = concat (map ?f (take i hs)) @ ?f v
      @ concat (map ?f (drop (Suc i) hs)) @ [NEWLINE]" for v
    using assms by (simp add: enc_hdr_def upd_conv_take_nth_drop)
  show "enc_hdr hs = concat (map ?f (take i hs)) @ ?f (hs ! i)
      @ concat (map ?f (drop (Suc i) hs)) @ [NEWLINE]"
    using * [of "hs ! i"] by simp
qed

lemma ok_entry_ptr: "ok_entry n e \<Longrightarrow> v \<le> 9999999 \<Longrightarrow> ok_entry n (e\<lparr>e_ptr := v\<rparr>)"
  by (simp add: ok_entry_def rec_body_def)

lemma rec_body_ptr [simp]: "rec_body n (e\<lparr>e_ptr := v\<rparr>) = rec_body n e"
  by (simp add: rec_body_def)

section \<open>Pointer fields\<close>

lemma get_ptr_bound:
  assumes "ok_heads hs" "ok_entries es" "ok_loc hs es l"
  shows "get_ptr hs es l \<le> 9999999"
  using assms by (cases l) (auto simp: ok_heads_def ok_entries_def ok_entry_def)

lemma ptr_cut:
  assumes h: "ok_heads hs" and e: "ok_entries es" and l: "ok_loc hs es l"
  obtains pre post where "length pre = loc_off hs es l" and
    "idx_file hs es = pre @ fmt_wd PTR_SZ (int (get_ptr hs es l)) @ post" and
    "\<And>v. idx_file (set_heads l v hs) (set_links l v es) = pre @ fmt_wd PTR_SZ (int v) @ post"
proof (cases l)
  case (Head i)
  with l have "i < length hs" by simp
  from hdr_cut [OF h this] obtain pre post where
    "length pre = 7 * i" "enc_hdr hs = pre @ fmt_wd PTR_SZ (int (hs ! i)) @ post"
    "\<And>v. enc_hdr (hs[i := v]) = pre @ fmt_wd PTR_SZ (int v) @ post" by blast
  with Head that [of pre "post @ enc_idx 0 es"] show ?thesis by (simp add: idx_file_def)
next
  case (Link j)
  with l have j: "j < length es" by simp
  define pre post where "pre = enc_hdr hs @ enc_idx 0 (take j es)"
    and "post = fmt_wd IDXLEN_SZ (int (length (rec_body (doff es j) (es ! j))))
      @ rec_body (doff es j) (es ! j) @ enc_idx (doff es (Suc j)) (drop (Suc j) es)"
  have "length pre = loc_off hs es l"
    using Link length_enc_hdr [OF h] by (simp add: pre_def ioff_def)
  moreover have "idx_file hs es = pre @ fmt_wd PTR_SZ (int (get_ptr hs es l)) @ post"
    using idx_cut [OF j, of hs] Link by (simp add: pre_def post_def enc_entry_def)
  moreover have "idx_file (set_heads l v hs) (set_links l v es) = pre @ fmt_wd PTR_SZ (int v) @ post"
    for v
    using idx_cut_update [OF j, of "(es ! j)\<lparr>e_ptr := v\<rparr>" hs] Link
    by (simp add: pre_def post_def enc_entry_def)
  ultimately show ?thesis by (rule that)
qed

lemma readptr_W [exec]:
  assumes "ok_base pi pd k (idxfd d) (datfd d)" and "ok_heads hs" "ok_entries es" "ok_loc hs es l"
    and "off = int (loc_off hs es l)"
  shows "db_readptr off (W pi pd k hs es q qd H d)
         = Ret (int (get_ptr hs es l)) (W pi pd k hs es (loc_off hs es l + 7) qd H d)"
proof -
  from ptr_cut [OF assms(2-4)] obtain pre post where
    "length pre = loc_off hs es l" "idx_file hs es = pre @ fmt_wd PTR_SZ (int (get_ptr hs es l)) @ post"
    by metis
  then show ?thesis
    unfolding W_def assms(5) using assms get_ptr_bound [OF assms(2-4)]
    by (intro readptr_world) auto
qed

lemma writeptr_W [exec]:
  assumes "ok_base pi pd k (idxfd d) (datfd d)" and "ok_heads hs" "ok_entries es" "ok_loc hs es l"
    and "off = int (loc_off hs es l)" and "v \<le> 9999999"
  shows "db_writeptr off (int v) (W pi pd k hs es q qd H d)
         = Ret () (W pi pd k (set_heads l v hs) (set_links l v es) (loc_off hs es l + 7) qd H d)"
proof -
  from ptr_cut [OF assms(2-4)] obtain pre post where
    "length pre = loc_off hs es l" "idx_file hs es = pre @ fmt_wd PTR_SZ (int (get_ptr hs es l)) @ post"
    "\<And>v. idx_file (set_heads l v hs) (set_links l v es) = pre @ fmt_wd PTR_SZ (int v) @ post"
    by metis
  moreover have "enc_dat (set_links l v es) = enc_dat es"
    using assms(4) by (cases l) (auto simp: dat_cut_update dat_cut)
  ultimately show ?thesis
    unfolding W_def assms(5) using assms get_ptr_bound [OF assms(2-4)]
      length_ptr [of "get_ptr hs es l"]
    by (simp add: writeptr_world PTR_SZ_def)
qed

section \<open>Records\<close>

lemma ioff_Suc:
  "j < length es \<Longrightarrow> ioff hs es (Suc j) = ioff hs es j + length (enc_entry (doff es j) (es ! j))"
  by (simp add: ioff_def take_Suc_conv_app_nth enc_idx_append doff_def)

lemma idx_pre: "ok_heads hs \<Longrightarrow> length (enc_hdr hs @ enc_idx 0 (take j es)) = ioff hs es j"
  by (simp add: ioff_def length_enc_hdr)

lemma readidx_W [exec]:
  assumes "ok_base pi pd k (idxfd d) (datfd d)" and "ok_heads hs" "ok_entries es" and j: "j < length es"
    and "off = 0 \<and> q = ioff hs es j \<or> off = int (ioff hs es j)"
  shows "db_readidx off (W pi pd k hs es q qd H d)
         = Ret (int (e_ptr (es ! j)))
             (W pi pd k hs es (ioff hs es (Suc j)) qd H (loaded (ioff hs es j) (doff es j) (es ! j) d))"
proof -
  have "0 < ioff hs es j" by (simp add: ioff_def hlen_def)
  then have "off = 0 \<and> q = ioff hs es j \<or> off = int (ioff hs es j) \<and> off \<noteq> 0"
    using assms(5) by auto
  moreover have "ok_entry (doff es j) (es ! j)" using assms(3) j by (simp add: ok_entries_def)
  ultimately show ?thesis
    unfolding W_def ioff_Suc [OF j]
    using readidx_tail [OF assms(1) _ idx_cut [OF j] idx_pre [OF assms(2)]] by blast
qed

lemma readdat_W [exec]:
  assumes "ok_base pi pd k (idxfd d) (datfd d)" and "ok_entries es" and j: "j < length es"
    and "datoff d = int (doff es j)" and "datlen d = int (length (e_data (es ! j))) + 1"
  shows "db_readdat (W pi pd k hs es q qd H d)
         = Ret (e_data (es ! j)) (W pi pd k hs es q (doff es (Suc j)) H
             (d\<lparr>datbuf := e_data (es ! j) @ [NUL]\<rparr>))"
proof -
  have n: "NUL \<notin> set (e_data (es ! j))"
    using assms(2) j by (auto simp: ok_entries_def ok_entry_def ok_data_def)
  have "doff es (Suc j) = doff es j + length (e_data (es ! j)) + 1"
    using j by (simp add: doff_def take_Suc_conv_app_nth enc_dat_Cons)
  then show ?thesis
    unfolding W_def
    using assms(1,4,5) n dat_cut [OF j] readdat_world [of pi pd k d "e_data (es ! j)" "enc_dat es"
        "enc_dat (take j es)" "enc_dat (drop (Suc j) es)" "idx_file hs es" q qd H]
    by (simp add: doff_def)
qed

text \<open>A data record overwritten in place by data of the same length.\<close>

lemma idx_file_data:
  assumes "j < length es" and "length data = length (e_data (es ! j))"
  shows "idx_file hs (es[j := (es ! j)\<lparr>e_data := data\<rparr>]) = idx_file hs es"
proof -
  have "enc_entry (doff es j) ((es ! j)\<lparr>e_data := data\<rparr>) = enc_entry (doff es j) (es ! j)"
    using assms by (simp add: enc_entry_def rec_body_def)
  then show ?thesis
    using assms idx_cut [of j es hs] idx_cut_update [of j es "(es ! j)\<lparr>e_data := data\<rparr>" hs]
    by simp
qed

lemma writedat_W [exec]:
  assumes "ok_base pi pd k (idxfd d) (datfd d)" and j: "j < length es"
    and off: "off = int (doff es j)" and len: "length data = length (e_data (es ! j))"
  shows "db_writedat data off SEEK_SET (W pi pd k hs es q qd H d)
         = Ret () (W pi pd k hs (es[j := (es ! j)\<lparr>e_data := data\<rparr>]) q
             (doff es j + length data + 1) H
             (d\<lparr>datoff := int (doff es j), datlen := int (length data) + 1\<rparr>))"
  unfolding W_def off
  using writedat_over [OF assms(1), of "enc_dat (take j es)" "doff es j" "e_data (es ! j) @ [NEWLINE]"
      data "idx_file hs es" "enc_dat (drop (Suc j) es)" q qd H]
    dat_cut [OF j] dat_cut_update [OF j, of "(es ! j)\<lparr>e_data := data\<rparr>"] idx_file_data [OF j len] len
  by (simp add: doff_def)

text \<open>An index record overwritten in place by one of the same length.\<close>

lemma writeidx_W:
  assumes "ok_base pi pd k (idxfd d) (datfd d)" and "ok_heads hs" "ok_entries es" and j: "j < length es"
    and e: "ok_entry (doff es j) e" and len: "length (e_key e) = length (e_key (es ! j))"
    and dat: "e_data e = e_data (es ! j)"
    and d: "datoff d = int (doff es j)" "datlen d = int (length (e_data e)) + 1"
    and off: "off = int (ioff hs es j)"
  shows "db_writeidx (e_key e) off SEEK_SET (int (e_ptr e)) (W pi pd k hs es q qd H d)
         = Ret () (W pi pd k hs (es[j := e]) (ioff hs es (Suc j)) qd H
             (written (ioff hs es j) (doff es j) e d))"
proof -
  have ej: "ok_entry (doff es j) (es ! j)" using assms(3) j by (simp add: ok_entries_def)
  have "length (rec_body (doff es j) (es ! j)) = length (rec_body (doff es j) e)"
    using len dat by (simp add: rec_body_def)
  then have l: "length (enc_entry (doff es j) (es ! j)) = length (enc_entry (doff es j) e)"
    using length_enc_entry [OF e] length_enc_entry [OF ej] by simp
  have "enc_dat (es[j := e]) = enc_dat es"
    using dat_cut [OF j] dat_cut_update [OF j, of e] dat by simp
  with writeidx_over [OF assms(1) e d idx_pre [OF assms(2)] l,
      where post = "enc_idx (doff es (Suc j)) (drop (Suc j) es)" and D = "enc_dat es"]
    idx_cut [OF j, of hs] idx_cut_update [OF j, of e hs] dat
  show ?thesis by (simp add: W_def off ioff_Suc [OF j] l)
qed

text \<open>A record appended to both files.\<close>

lemma append_W:
  assumes "ok_base pi pd k (idxfd d) (datfd d)" and "ok_heads hs"
    and e: "ok_entry (length (enc_dat es)) e" and H: "no_locks (idxfd d) (datfd d) H0"
    and HH: "H = (idxfd d, knd, co, 1) # H0"
  shows "bindc (db_writedat (e_data e) 0 SEEK_END) (\<lambda>_. db_writeidx (e_key e) 0 SEEK_END (int (e_ptr e)))
           (W pi pd k hs es q qd H d)
         = Ret () (W pi pd k hs (es @ [e]) (ioff hs (es @ [e]) (Suc (length es)))
             (length (enc_dat es) + length (e_data e) + 1) H
             (written (ioff hs es (length es)) (length (enc_dat es)) e
               (d\<lparr>datoff := int (length (enc_dat es)), datlen := int (length (e_data e)) + 1\<rparr>)))"
proof -
  let ?d = "d\<lparr>datoff := int (length (enc_dat es)), datlen := int (length (e_data e)) + 1\<rparr>"
  have u1: "unlocked (datfd d) 0 0 H = H"
    using H assms(1) by (simp add: HH ok_base_def)
  have u2: "unlocked (idxfd ?d) ((int (nhash ?d) + 1) * int PTR_SZ + 1) 0 H = H"
    using H by (simp add: HH)
  have b: "ok_base pi pd k (idxfd ?d) (datfd ?d)" using assms(1) by simp
  have i: "length (idx_file hs es) = ioff hs es (length es)"
    using assms(2) by (simp add: idx_file_def ioff_def length_enc_hdr)
  have f: "idx_file hs es @ enc_entry (length (enc_dat es)) e = idx_file hs (es @ [e])"
    by (simp add: idx_file_def enc_idx_append)
  have g: "enc_dat es @ e_data e @ [NEWLINE] = enc_dat (es @ [e])"
    by (simp add: enc_dat_Cons)
  have s: "ioff hs es (length es) + length (enc_entry (length (enc_dat es)) e)
      = ioff hs (es @ [e]) (Suc (length es))"
    by (simp add: ioff_def enc_idx_append)
  have 1: "db_writedat (e_data e) 0 SEEK_END (W pi pd k hs es q qd H d)
      = Ret () (world pi pd k (idx_file hs es) (enc_dat (es @ [e])) q
          (length (enc_dat es) + length (e_data e) + 1) H ?d)"
    unfolding W_def g [symmetric] by (rule writedat_append [OF assms(1) u1])
  have 2: "db_writeidx (e_key e) 0 SEEK_END (int (e_ptr e))
       (world pi pd k (idx_file hs es) (enc_dat (es @ [e])) q qd' H ?d)
      = Ret () (W pi pd k hs (es @ [e]) (ioff hs (es @ [e]) (Suc (length es))) qd' H
          (written (ioff hs es (length es)) (length (enc_dat es)) e ?d))" for qd'
    using writeidx_append [OF b e _ _ u2, of "idx_file hs es" "enc_dat (es @ [e])" q qd']
    by (simp only: W_def f i s) simp
  show ?thesis
    unfolding bindc_exec 1 outcome.case by (rule 2)
qed

end
