(* ===== verification/Db_Chain.thy ===== *)
theory Db_Chain
  imports Db_Files
begin

text \<open>
  The linked lists of the index file: hash chains and the free list.  A chain is followed from
  a pointer field through the pointer fields of the records; the lemmas say what overwriting a
  pointer does to a chain, and what the loops of \<open>_db_find_and_lock\<close> and \<open>_db_findfree\<close> find.
\<close>

primrec chain :: "(loc \<Rightarrow> nat) \<Rightarrow> (nat \<Rightarrow> nat) \<Rightarrow> loc \<Rightarrow> nat list \<Rightarrow> bool" where
  "chain P off l [] \<longleftrightarrow> P l = 0"
| "chain P off l (j # js) \<longleftrightarrow> P l = off j \<and> chain P off (Link j) js"

section \<open>Overwriting pointers\<close>

lemma chain_cong:
  "(\<And>x. x \<in> insert l (Link ` set js) \<Longrightarrow> P x = P' x) \<Longrightarrow> (\<And>j. j \<in> set js \<Longrightarrow> off j = off' j) \<Longrightarrow>
   chain P off l js = chain P' off' l js"
  by (induction js arbitrary: l) auto

lemma chain_other:
  "x \<notin> insert l (Link ` set js) \<Longrightarrow> chain (P(x := v)) off l js = chain P off l js"
  by (rule chain_cong) auto

lemma chain_push:
  assumes "chain P off l js" and "Link j \<noteq> l" and "j \<notin> set js" and "l \<notin> Link ` set js"
  shows "chain (P(Link j := P l, l := off j)) off l (j # js)"
proof -
  have "chain P off (Link j) js = chain P off (Link j) js" ..
  have "chain (P(Link j := P l, l := off j)) off (Link j) js"
  proof (cases js)
    case Nil
    with assms show ?thesis by simp
  next
    case (Cons a as)
    have "chain (P(Link j := P l, l := off j)) off (Link a) as = chain P off (Link a) as"
      using assms Cons by (intro chain_cong) auto
    with assms Cons show ?thesis by simp
  qed
  then show ?thesis by simp
qed

fun prev_loc :: "loc \<Rightarrow> nat list \<Rightarrow> loc" where
  "prev_loc l [] = l"
| "prev_loc l (a # as) = prev_loc (Link a) as"

lemma prev_loc_in: "prev_loc l as \<in> insert l (Link ` set as)"
  by (induction as arbitrary: l) auto

lemma prev_loc_snoc [simp]: "prev_loc l (as @ [a]) = Link a"
  by (induction as arbitrary: l) auto

lemma chain_split:
  "chain P off l (as @ j # bs) \<Longrightarrow> P (prev_loc l as) = off j \<and> chain P off (Link j) bs"
  by (induction as arbitrary: l) auto

lemma chain_unlink:
  assumes "chain P off l (as @ j # bs)" and "distinct (as @ j # bs)"
    and "l \<notin> Link ` set (as @ j # bs)"
  shows "chain (P(prev_loc l as := P (Link j))) off l (as @ bs)"
  using assms
proof (induction as arbitrary: l)
  case Nil
  show ?case
  proof (cases bs)
    case Nil
    with Nil.prems show ?thesis by simp
  next
    case (Cons b bs')
    have "chain (P(l := P (Link j))) off (Link b) bs' = chain P off (Link b) bs'"
      using Nil.prems Cons by (intro chain_other) auto
    with Nil.prems Cons show ?thesis by (simp add: fun_upd_def)
  qed
next
  case (Cons a as)
  have "chain (P(prev_loc (Link a) as := P (Link j))) off (Link a) (as @ bs)"
    using Cons.prems by (intro Cons.IH) auto
  moreover have "l \<noteq> prev_loc (Link a) as"
    using prev_loc_in [of "Link a" as] Cons.prems(3) by auto
  ultimately show ?case using Cons.prems by (simp add: fun_upd_def)
qed

lemma get_ptr_set:
  "ok_loc hs es l \<Longrightarrow> get_ptr (set_heads l v hs) (set_links l v es) = (get_ptr hs es)(l := v)"
proof
  fix x
  assume "ok_loc hs es l"
  then show "get_ptr (set_heads l v hs) (set_links l v es) x = ((get_ptr hs es)(l := v)) x"
    by (cases l; cases x) (auto simp: nth_list_update)
qed

section \<open>Updates that keep the layout of the files\<close>

definition shape :: "entry list \<Rightarrow> (nat \<times> nat) list" where
  "shape es = map (\<lambda>e. (length (e_key e), length (e_data e))) es"

lemma shape_length: "shape es = shape es' \<Longrightarrow> length es = length es'"
  unfolding shape_def by (metis length_map)

lemma shape_update:
  "length (e_key e) = length (e_key (es ! j)) \<Longrightarrow> length (e_data e) = length (e_data (es ! j)) \<Longrightarrow>
   shape (es[j := e]) = shape es"
  by (cases "j < length es")
     (auto simp: shape_def map_update list_update_beyond intro!: nth_equalityI simp: nth_list_update)

lemma length_enc_dat_shape: "shape es = shape es' \<Longrightarrow> length (enc_dat es) = length (enc_dat es')"
proof (induction es arbitrary: es')
  case Nil
  then show ?case by (simp add: shape_def)
next
  case (Cons e es)
  then obtain e' es'' where "es' = e' # es''" by (cases es') (auto simp: shape_def)
  with Cons show ?case by (simp add: shape_def enc_dat_Cons)
qed

lemma length_enc_idx_shape:
  "shape es = shape es' \<Longrightarrow> \<forall>e \<in> set es \<union> set es'. e_ptr e \<le> 9999999 \<Longrightarrow>
   length (enc_idx n es) = length (enc_idx n es')"
proof (induction es arbitrary: es' n)
  case Nil
  then show ?case by (simp add: shape_def)
next
  case (Cons e es)
  then obtain e' es'' where es': "es' = e' # es''" by (cases es') (auto simp: shape_def)
  have l: "length (e_key e) = length (e_key e')" "length (e_data e) = length (e_data e')"
    and r: "shape es = shape es''" using Cons.prems es' by (simp_all add: shape_def)
  have "length (rec_body n e) = length (rec_body n e')" using l by (simp add: rec_body_def)
  with Cons.prems es' have "length (enc_entry n e) = length (enc_entry n e')"
    by (simp add: enc_entry_def)
  moreover have "length (enc_idx m es) = length (enc_idx m es'')" for m
    using r Cons.prems es' by (intro Cons.IH) auto
  ultimately show ?case using l es' by simp
qed

lemma ok_entries_ptr: "ok_entries es \<Longrightarrow> e \<in> set es \<Longrightarrow> e_ptr e \<le> 9999999"
  by (auto simp: ok_entries_def ok_entry_def in_set_conv_nth)

lemma shape_take: "shape es = shape es' \<Longrightarrow> shape (take j es) = shape (take j es')"
  by (metis shape_def take_map)

lemma ioff_shape:
  assumes "shape es = shape es'" and "ok_entries es" and "ok_entries es'" and "length hs = length hs'"
  shows "ioff hs es j = ioff hs' es' j"
  using length_enc_idx_shape [OF shape_take [OF assms(1), of j], of 0] assms
  by (auto simp: ioff_def hlen_def dest!: in_set_takeD intro: ok_entries_ptr)

lemma doff_shape: "shape es = shape es' \<Longrightarrow> doff es j = doff es' j"
  unfolding doff_def by (rule length_enc_dat_shape [OF shape_take])

lemma ok_entries_update:
  assumes "ok_entries es" and "ok_entry (doff es j) e"
    and "length (e_data e) = length (e_data (es ! j))"
  shows "ok_entries (es[j := e])"
proof -
  have "doff (es[j := e]) i = doff es i" for i using assms(3) by simp
  with assms show ?thesis
    by (cases "j < length es") (auto simp: ok_entries_def nth_list_update list_update_beyond)
qed

lemma ok_entry_set_links:
  "ok_entries es \<Longrightarrow> v \<le> 9999999 \<Longrightarrow> ok_entries (set_links l v es)"
proof (cases l)
  case (Link j)
  assume *: "ok_entries es" "v \<le> 9999999"
  show ?thesis
  proof (cases "j < length es")
    case True
    with * have "ok_entry (doff es j) ((es ! j)\<lparr>e_ptr := v\<rparr>)"
      by (auto simp: ok_entries_def intro: ok_entry_ptr)
    with * Link show ?thesis by (auto intro: ok_entries_update)
  next
    case False
    with * Link show ?thesis by (simp add: list_update_beyond)
  qed
qed simp

lemma ok_heads_set: "ok_heads hs \<Longrightarrow> v \<le> 9999999 \<Longrightarrow> ok_heads (set_heads l v hs)"
  by (cases l) (auto simp: ok_heads_def dest!: set_update_subset_insert [THEN subsetD])

lemma shape_set_links [simp]: "shape (set_links l v es) = shape es"
  by (cases l) (auto intro: shape_update)

lemma length_set [simp]: "length (set_heads l v hs) = length hs" "length (set_links l v es) = length es"
  by (cases l; simp)+

end
