(* ===== verification/Db_Ops.thy ===== *)
theory Db_Ops
  imports Db_Chain
begin

text \<open>
  The composite functions of \<open>db.c\<close> on well-formed files: the chain searches, deletion of the
  current record, insertion of a new one.
\<close>

definition okW :: "string \<Rightarrow> string \<Rightarrow> kernel \<Rightarrow> nat list \<Rightarrow> entry list \<Rightarrow> DB \<Rightarrow> bool" where
  "okW pi pd k hs es d \<longleftrightarrow> ok_base pi pd k (idxfd d) (datfd d) \<and> ok_heads hs \<and> ok_entries es"

lemma okW_D [exec]:
  assumes "okW pi pd k hs es d"
  shows "ok_base pi pd k (idxfd d) (datfd d)" "ok_heads hs" "ok_entries es"
  using assms by (simp_all add: okW_def)

section \<open>Elementary steps on \<open>W\<close>\<close>

lemma get_db_W [exec]: "get_db f (W pi pd k hs es q qd H d) = Ret (f d) (W pi pd k hs es q qd H d)"
  by (simp add: W_def exec)

lemma set_db_W [exec]:
  "idxfd (f d) = idxfd d \<Longrightarrow> datfd (f d) = datfd d \<Longrightarrow>
   set_db f (W pi pd k hs es q qd H d) = Ret () (W pi pd k hs es q qd H (f d))"
  by (simp add: W_def exec)

lemma lock_W [exec]:
  assumes "ok_base pi pd k (idxfd d) (datfd d)"
  shows "fi = idxfd d \<Longrightarrow> kcall (lock_reg fi (Lock knd) st ln) (W pi pd k hs es q qd H d)
         = Ret 0 (W pi pd k hs es q qd ((fi, knd, st, ln) # H) d)"
    and "fi = idxfd d \<Longrightarrow> kcall (lock_reg fi Unlock st ln) (W pi pd k hs es q qd H d)
         = Ret 0 (W pi pd k hs es q qd (unlocked fi st ln H) d)"
  using assms by (simp_all add: W_def exec)

lemma idx_fuel_W [simp]:
  "ok_base pi pd k (idxfd d) (datfd d) \<Longrightarrow>
   idx_fuel (W pi pd k hs es q qd H d) = Suc (length (idx_file hs es))"
  by (simp add: W_def idx_fuel_world)

lemma length_es_le:
  assumes "ok_entries es"
  shows "length es \<le> length (enc_idx n es)"
proof -
  have "length es \<le> length (enc_idx n es)" for es n
  proof (induction es arbitrary: n)
    case (Cons e es)
    have "1 \<le> length (enc_entry n e)" by (simp add: enc_entry_def rec_body_def)
    moreover have "length es \<le> length (enc_idx (n + length (e_data e) + 1) es)" by (rule Cons.IH)
    ultimately show ?case by (simp del: One_nat_def)
  qed simp
  then show ?thesis .
qed

text \<open>The part of the \<open>DB\<close> structure that the internal functions leave alone.\<close>

definition keep :: "DB \<Rightarrow> DB" where
  "keep d = d\<lparr>idxbuf := [], datbuf := [], idxoff := 0, idxlen := 0, datoff := 0, datlen := 0,
     ptrval := 0, ptroff := 0\<rparr>"

lemma keep_upd [simp]:
  "keep (d\<lparr>idxbuf := b\<rparr>) = keep d" "keep (d\<lparr>datbuf := b\<rparr>) = keep d"
  "keep (d\<lparr>idxoff := i\<rparr>) = keep d" "keep (d\<lparr>idxlen := i\<rparr>) = keep d"
  "keep (d\<lparr>datoff := i\<rparr>) = keep d" "keep (d\<lparr>datlen := i\<rparr>) = keep d"
  "keep (d\<lparr>ptrval := i\<rparr>) = keep d" "keep (d\<lparr>ptroff := i\<rparr>) = keep d"
  by (simp_all add: keep_def)

lemma keep_loaded [simp]: "keep (loaded off n e d) = keep d" "keep (written off n e d) = keep d"
  by (simp_all add: loaded_def written_def)

lemma keep_sel:
  assumes "keep d = keep d'"
  shows "idxfd d = idxfd d'" "datfd d = datfd d'" "nhash d = nhash d'" "hashoff d = hashoff d'"
    "chainoff d = chainoff d'"
  using arg_cong [OF assms, of idxfd] arg_cong [OF assms, of datfd] arg_cong [OF assms, of nhash]
    arg_cong [OF assms, of hashoff] arg_cong [OF assms, of chainoff]
  by (simp_all add: keep_def)

lemma okW_keep: "okW pi pd k hs es d \<Longrightarrow> keep d' = keep d \<Longrightarrow> okW pi pd k hs es d'"
  by (simp add: okW_def keep_sel [of d' d])

lemma key_no_NUL: "ok_entries es \<Longrightarrow> j < length es \<Longrightarrow> NUL \<notin> set (e_key (es ! j))"
  by (auto simp: ok_entries_def ok_entry_def ok_key_def)

lemma ioff_pos [simp]: "0 < ioff hs es j" "ioff hs es j \<noteq> 0"
  by (simp_all add: ioff_def hlen_def)

section \<open>The search loops\<close>

abbreviation ptrs :: "nat list \<Rightarrow> entry list \<Rightarrow> loc \<Rightarrow> nat list \<Rightarrow> bool" where
  "ptrs hs es \<equiv> chain (get_ptr hs es) (ioff hs es)"

lemma find_loop_found:
  assumes "okW pi pd k hs es d" and "ptrs hs es l (as @ j # bs)"
    and "set (as @ j # bs) \<subseteq> {..<length es}" and "length as < m"
    and "ptroff d = int (loc_off hs es l)"
    and "e_key (es ! j) = key" and "\<forall>x \<in> set as. e_key (es ! x) \<noteq> key"
  shows "\<exists>q' d'. find_loop m key (int (get_ptr hs es l)) (W pi pd k hs es q qd H d)
           = Ret (int (ioff hs es j)) (W pi pd k hs es q' qd H (loaded (ioff hs es j) (doff es j) (es ! j) d'))
         \<and> keep d' = keep d \<and> ptroff d' = int (loc_off hs es (prev_loc l as))"
  using assms
proof (induction as arbitrary: l m d q)
  case Nil
  then obtain m' where m: "m = Suc m'" by (cases m) auto
  have j: "j < length es" and p: "get_ptr hs es l = ioff hs es j" using Nil.prems by auto
  have "find_loop m key (int (get_ptr hs es l)) (W pi pd k hs es q qd H d)
      = Ret (int (ioff hs es j)) (W pi pd k hs es (ioff hs es (Suc j)) qd H
          (loaded (ioff hs es j) (doff es j) (es ! j) d))"
    using okW_D [OF Nil.prems(1)] j key_no_NUL [of es j] Nil.prems(6)
    by (simp add: m p exec cstr_idx_image)
  then show ?case using Nil.prems(5) by auto
next
  case (Cons a as)
  then obtain m' where m: "m = Suc m'" by (cases m) auto
  have a: "a < length es" and p: "get_ptr hs es l = ioff hs es a"
    and c: "ptrs hs es (Link a) (as @ j # bs)" using Cons.prems by auto
  let ?d = "loaded (ioff hs es a) (doff es a) (es ! a) d\<lparr>ptroff := int (ioff hs es a)\<rparr>"
  have step: "find_loop m key (int (get_ptr hs es l)) (W pi pd k hs es q qd H d)
      = find_loop m' key (int (get_ptr hs es (Link a))) (W pi pd k hs es (ioff hs es (Suc a)) qd H ?d)"
    using okW_D [OF Cons.prems(1)] a key_no_NUL [of es a] Cons.prems(7)
    by (simp add: m p exec cstr_idx_image)
  have ok': "okW pi pd k hs es ?d" by (rule okW_keep [OF Cons.prems(1)]) simp
  have "\<exists>q' d'. find_loop m' key (int (get_ptr hs es (Link a))) (W pi pd k hs es (ioff hs es (Suc a)) qd H ?d)
           = Ret (int (ioff hs es j)) (W pi pd k hs es q' qd H (loaded (ioff hs es j) (doff es j) (es ! j) d'))
         \<and> keep d' = keep ?d \<and> ptroff d' = int (loc_off hs es (prev_loc (Link a) as))"
    using Cons.prems m by (intro Cons.IH [OF ok' c]) auto
  then show ?case by (simp only: step) auto
qed

lemma find_loop_absent:
  assumes "okW pi pd k hs es d" and "ptrs hs es l js" and "set js \<subseteq> {..<length es}"
    and "length js < m" and "\<forall>x \<in> set js. e_key (es ! x) \<noteq> key"
  shows "\<exists>q' d'. find_loop m key (int (get_ptr hs es l)) (W pi pd k hs es q qd H d)
           = Ret 0 (W pi pd k hs es q' qd H d') \<and> keep d' = keep d"
  using assms
proof (induction js arbitrary: l m d q)
  case Nil
  then obtain m' where m: "m = Suc m'" by (cases m) auto
  show ?case using Nil.prems by (auto simp: m)
next
  case (Cons a js)
  then obtain m' where m: "m = Suc m'" by (cases m) auto
  have a: "a < length es" and p: "get_ptr hs es l = ioff hs es a"
    and c: "ptrs hs es (Link a) js" using Cons.prems by auto
  let ?d = "loaded (ioff hs es a) (doff es a) (es ! a) d\<lparr>ptroff := int (ioff hs es a)\<rparr>"
  have step: "find_loop m key (int (get_ptr hs es l)) (W pi pd k hs es q qd H d)
      = find_loop m' key (int (get_ptr hs es (Link a))) (W pi pd k hs es (ioff hs es (Suc a)) qd H ?d)"
    using okW_D [OF Cons.prems(1)] a key_no_NUL [of es a] Cons.prems(5)
    by (simp add: m p exec cstr_idx_image)
  have ok': "okW pi pd k hs es ?d" by (rule okW_keep [OF Cons.prems(1)]) simp
  have "\<exists>q' d'. find_loop m' key (int (get_ptr hs es (Link a))) (W pi pd k hs es (ioff hs es (Suc a)) qd H ?d)
           = Ret 0 (W pi pd k hs es q' qd H d') \<and> keep d' = keep ?d"
    using Cons.prems m by (intro Cons.IH [OF ok' c]) auto
  then show ?case by (simp only: step) auto
qed

definition fits :: "nat \<Rightarrow> nat \<Rightarrow> entry \<Rightarrow> bool" where
  "fits kl dl e \<longleftrightarrow> length (e_key e) = kl \<and> length (e_data e) = dl"

lemma free_loop_found:
  assumes "okW pi pd k hs es d" and "ptrs hs es l (as @ j # bs)"
    and "set (as @ j # bs) \<subseteq> {..<length es}" and "length as < m"
    and "fits kl dl (es ! j)" and "\<forall>x \<in> set as. \<not> fits kl dl (es ! x)"
  shows "\<exists>q' d'. free_loop m (int kl) (int dl + 1) (int (loc_off hs es l)) (int (get_ptr hs es l))
             (W pi pd k hs es q qd H d)
           = Ret (int (loc_off hs es (prev_loc l as)), int (ioff hs es j))
               (W pi pd k hs es q' qd H (loaded (ioff hs es j) (doff es j) (es ! j) d'))
         \<and> keep d' = keep d"
  using assms
proof (induction as arbitrary: l m d q)
  case Nil
  then obtain m' where m: "m = Suc m'" by (cases m) auto
  have j: "j < length es" and p: "get_ptr hs es l = ioff hs es j" using Nil.prems by auto
  have "free_loop m (int kl) (int dl + 1) (int (loc_off hs es l)) (int (get_ptr hs es l))
        (W pi pd k hs es q qd H d)
      = Ret (int (loc_off hs es l), int (ioff hs es j)) (W pi pd k hs es (ioff hs es (Suc j)) qd H
          (loaded (ioff hs es j) (doff es j) (es ! j) d))"
    using okW_D [OF Nil.prems(1)] j key_no_NUL [of es j] Nil.prems(5)
    by (simp add: m p exec cstr_idx_image fits_def)
  then show ?case by auto
next
  case (Cons a as)
  then obtain m' where m: "m = Suc m'" by (cases m) auto
  have a: "a < length es" and p: "get_ptr hs es l = ioff hs es a" and nf: "\<not> fits kl dl (es ! a)"
    and c: "ptrs hs es (Link a) (as @ j # bs)" using Cons.prems by auto
  let ?d = "loaded (ioff hs es a) (doff es a) (es ! a) d"
  have step: "free_loop m (int kl) (int dl + 1) (int (loc_off hs es l)) (int (get_ptr hs es l))
        (W pi pd k hs es q qd H d)
      = free_loop m' (int kl) (int dl + 1) (int (loc_off hs es (Link a))) (int (get_ptr hs es (Link a)))
          (W pi pd k hs es (ioff hs es (Suc a)) qd H ?d)"
    using okW_D [OF Cons.prems(1)] a key_no_NUL [of es a] nf
    by (auto simp add: m p exec cstr_idx_image fits_def)
  have ok': "okW pi pd k hs es ?d" by (rule okW_keep [OF Cons.prems(1)]) simp
  have "\<exists>q' d'. free_loop m' (int kl) (int dl + 1) (int (loc_off hs es (Link a)))
             (int (get_ptr hs es (Link a))) (W pi pd k hs es (ioff hs es (Suc a)) qd H ?d)
           = Ret (int (loc_off hs es (prev_loc (Link a) as)), int (ioff hs es j))
               (W pi pd k hs es q' qd H (loaded (ioff hs es j) (doff es j) (es ! j) d'))
         \<and> keep d' = keep ?d"
    using Cons.prems m by (intro Cons.IH [OF ok' c]) auto
  then show ?case by (simp only: step) auto
qed

lemma free_loop_absent:
  assumes "okW pi pd k hs es d" and "ptrs hs es l js" and "set js \<subseteq> {..<length es}"
    and "length js < m" and "\<forall>x \<in> set js. \<not> fits kl dl (es ! x)"
  shows "\<exists>q' d' so. free_loop m (int kl) (int dl + 1) (int (loc_off hs es l)) (int (get_ptr hs es l))
             (W pi pd k hs es q qd H d)
           = Ret (so, 0) (W pi pd k hs es q' qd H d') \<and> keep d' = keep d"
  using assms
proof (induction js arbitrary: l m d q)
  case Nil
  then obtain m' where m: "m = Suc m'" by (cases m) auto
  show ?case using Nil.prems by (auto simp: m)
next
  case (Cons a js)
  then obtain m' where m: "m = Suc m'" by (cases m) auto
  have a: "a < length es" and p: "get_ptr hs es l = ioff hs es a" and nf: "\<not> fits kl dl (es ! a)"
    and c: "ptrs hs es (Link a) js" using Cons.prems by auto
  let ?d = "loaded (ioff hs es a) (doff es a) (es ! a) d"
  have step: "free_loop m (int kl) (int dl + 1) (int (loc_off hs es l)) (int (get_ptr hs es l))
        (W pi pd k hs es q qd H d)
      = free_loop m' (int kl) (int dl + 1) (int (loc_off hs es (Link a))) (int (get_ptr hs es (Link a)))
          (W pi pd k hs es (ioff hs es (Suc a)) qd H ?d)"
    using okW_D [OF Cons.prems(1)] a key_no_NUL [of es a] nf
    by (auto simp add: m p exec cstr_idx_image fits_def)
  have ok': "okW pi pd k hs es ?d" by (rule okW_keep [OF Cons.prems(1)]) simp
  have "\<exists>q' d' so. free_loop m' (int kl) (int dl + 1) (int (loc_off hs es (Link a)))
             (int (get_ptr hs es (Link a))) (W pi pd k hs es (ioff hs es (Suc a)) qd H ?d)
           = Ret (so, 0) (W pi pd k hs es q' qd H d') \<and> keep d' = keep ?d"
    using Cons.prems m by (intro Cons.IH [OF ok' c]) auto
  then show ?case by (simp only: step) auto
qed

end
