(* ===== verification/Db_Inv.thy ===== *)
theory Db_Inv
  imports Db_Ops
begin

text \<open>
  The invariant of the database and the map it stands for.  \<open>cs i\<close> lists the records of chain
  \<open>i\<close> (0 is the free list, \<open>Suc h\<close> the chain of hash value \<open>h\<close>); \<open>D\<close> is the set of records on
  no chain, empty between operations.
\<close>

definition blank_entry :: "entry \<Rightarrow> bool" where
  "blank_entry e \<longleftrightarrow> (\<forall>c \<in> set (e_key e). c = SPACE)"

definition db_inv :: "nat \<Rightarrow> nat set \<Rightarrow> nat list \<Rightarrow> entry list \<Rightarrow> (nat \<Rightarrow> nat list) \<Rightarrow> bool" where
  "db_inv n D hs es cs \<longleftrightarrow> 0 < n \<and> length hs = n + 1 \<and> ok_heads hs \<and> ok_entries es
     \<and> (\<forall>i \<le> n. ptrs hs es (Head i) (cs i) \<and> distinct (cs i))
     \<and> (\<forall>i \<le> n. \<forall>i' \<le> n. i \<noteq> i' \<longrightarrow> set (cs i) \<inter> set (cs i') = {})
     \<and> (\<Union>i \<le> n. set (cs i)) = {..<length es} - D
     \<and> (\<forall>h < n. \<forall>j \<in> set (cs (Suc h)). db_hash n (e_key (es ! j)) = h)
     \<and> (\<forall>h < n. inj_on (\<lambda>j. e_key (es ! j)) (set (cs (Suc h))))
     \<and> (\<forall>j \<in> set (cs 0). blank_entry (es ! j))"

definition db_map :: "nat \<Rightarrow> entry list \<Rightarrow> (nat \<Rightarrow> nat list) \<Rightarrow> string \<Rightarrow> string option" where
  "db_map n es cs key =
     map_option (\<lambda>j. e_data (es ! j)) (find (\<lambda>j. e_key (es ! j) = key) (cs (Suc (db_hash n key))))"

lemma db_invD:
  assumes "db_inv n D hs es cs"
  shows "0 < n" "length hs = n + 1" "ok_heads hs" "ok_entries es"
    "i \<le> n \<Longrightarrow> ptrs hs es (Head i) (cs i)" "i \<le> n \<Longrightarrow> distinct (cs i)"
    "i \<le> n \<Longrightarrow> i' \<le> n \<Longrightarrow> i \<noteq> i' \<Longrightarrow> set (cs i) \<inter> set (cs i') = {}"
    "i \<le> n \<Longrightarrow> j \<in> set (cs i) \<Longrightarrow> j < length es \<and> j \<notin> D"
    "h < n \<Longrightarrow> j \<in> set (cs (Suc h)) \<Longrightarrow> db_hash n (e_key (es ! j)) = h"
    "h < n \<Longrightarrow> inj_on (\<lambda>j. e_key (es ! j)) (set (cs (Suc h)))"
    "j \<in> set (cs 0) \<Longrightarrow> blank_entry (es ! j)"
    "(\<Union>i \<le> n. set (cs i)) = {..<length es} - D"
  using assms unfolding db_inv_def by blast+

lemma db_hash_less: "0 < n \<Longrightarrow> db_hash n key < n"
  by (simp add: db_hash_def)

lemma db_map_found:
  assumes "db_inv n D hs es cs" and "h < n" and "j \<in> set (cs (Suc h))"
  shows "db_map n es cs (e_key (es ! j)) = Some (e_data (es ! j))"
proof -
  have h: "db_hash n (e_key (es ! j)) = h" using db_invD(9) [OF assms] .
  have "find (\<lambda>x. e_key (es ! x) = e_key (es ! j)) (cs (Suc h)) = Some j"
  proof (cases "find (\<lambda>x. e_key (es ! x) = e_key (es ! j)) (cs (Suc h))")
    case None
    then show ?thesis using assms(3) by (auto simp: find_None_iff)
  next
    case (Some x)
    then have "x \<in> set (cs (Suc h))" "e_key (es ! x) = e_key (es ! j)"
      by (auto simp: find_Some_iff)
    with db_invD(10) [OF assms(1,2)] assms(3) have "x = j" by (auto dest: inj_onD)
    with Some show ?thesis by simp
  qed
  then show ?thesis by (simp add: db_map_def h)
qed

lemma db_map_None:
  "db_map n es cs key = None \<longleftrightarrow> (\<forall>j \<in> set (cs (Suc (db_hash n key))). e_key (es ! j) \<noteq> key)"
  by (auto simp: db_map_def find_None_iff)

lemma db_map_SomeE:
  assumes "db_map n es cs key = Some v"
  obtains j where "j \<in> set (cs (Suc (db_hash n key)))" "e_key (es ! j) = key" "e_data (es ! j) = v"
  using assms by (auto simp: db_map_def find_Some_iff) (metis nth_mem)

text \<open>Two states describe the same map when their live records have the same keys and data.\<close>

lemma db_map_eqI:
  assumes "\<And>h j. h < n \<Longrightarrow> j \<in> set (cs (Suc h)) \<Longrightarrow> j \<notin> X \<Longrightarrow> f (e_key (es ! j)) = Some (e_data (es ! j))"
    and "\<And>h j. h < n \<Longrightarrow> j \<in> set (cs (Suc h)) \<Longrightarrow> j \<in> X \<Longrightarrow> f (e_key (es ! j)) = Some (e_data (es ! j))"
    and "\<And>key v. f key = Some v \<Longrightarrow> \<exists>j \<in> set (cs (Suc (db_hash n key))). e_key (es ! j) = key"
    and n: "0 < n"
  shows "db_map n es cs = f"
proof
  fix key
  show "db_map n es cs key = f key"
  proof (cases "db_map n es cs key")
    case None
    then show ?thesis using assms(3) [of key] by (cases "f key") (auto simp: db_map_None)
  next
    case (Some v)
    then obtain j where "j \<in> set (cs (Suc (db_hash n key)))" "e_key (es ! j) = key"
      "e_data (es ! j) = v" by (rule db_map_SomeE)
    with assms(1,2) [OF db_hash_less [OF n]] Some show ?thesis by fastforce
  qed
qed

lemma nth_ptr_update:
  "es[j := (es ! j)\<lparr>e_ptr := v\<rparr>] ! x = (if x = j \<and> j < length es then (es ! j)\<lparr>e_ptr := v\<rparr> else es ! x)"
  by (cases "j < length es") (auto simp: list_update_beyond)

lemma set_links_sel [simp]:
  "e_key (set_links l v es ! x) = e_key (es ! x)" "e_data (set_links l v es ! x) = e_data (es ! x)"
  "blank_entry (set_links l v es ! x) = blank_entry (es ! x)"
proof -
  show "e_key (set_links l v es ! x) = e_key (es ! x)"
    by (cases l) (simp_all add: nth_ptr_update)
  then show "blank_entry (set_links l v es ! x) = blank_entry (es ! x)"
    by (simp add: blank_entry_def)
  show "e_data (set_links l v es ! x) = e_data (es ! x)"
    by (cases l) (simp_all add: nth_ptr_update)
qed

text \<open>Replacing one member of a family of disjoint sets.\<close>

lemma UN_fun_upd:
  assumes "i \<le> n" and "\<And>x. x \<le> n \<Longrightarrow> x \<noteq> i \<Longrightarrow> set (cs x) \<inter> set (cs i) = {}"
  shows "(\<Union>x \<le> n. set ((cs(i := ys)) x)) = ((\<Union>x \<le> n. set (cs x)) - set (cs i)) \<union> set ys"
proof -
  have "(\<Union>x \<le> n. set ((cs(i := ys)) x)) = (\<Union>x \<in> {..n} - {i}. set (cs x)) \<union> set ys"
    using assms(1) by (auto split: if_splits)
  moreover have "(\<Union>x \<in> {..n} - {i}. set (cs x)) = (\<Union>x \<le> n. set (cs x)) - set (cs i)"
    using assms by blast
  ultimately show ?thesis by simp
qed

lemma db_map_set_links [simp]: "db_map n (set_links l v es) cs = db_map n es cs"
  by (simp add: db_map_def fun_eq_iff)

lemma ioff_set:
  "ok_entries es \<Longrightarrow> v \<le> 9999999 \<Longrightarrow> ioff (set_heads l v hs) (set_links l v es) j = ioff hs es j"
  by (rule ioff_shape) (auto intro: ok_entry_set_links)

section \<open>Taking a record off its chain\<close>

lemma ok_prev_loc:
  assumes "db_inv n D hs es cs" and "i \<le> n" and "cs i = as @ bs"
  shows "ok_loc hs es (prev_loc (Head i) as)"
proof -
  have "set as \<subseteq> {..<length es}" using db_invD(8) [OF assms(1,2)] assms(3) by auto
  with prev_loc_in [of "Head i" as] db_invD(2) [OF assms(1)] assms(2) show ?thesis by auto
qed

lemma inv_unlink:
  assumes inv: "db_inv n {} hs es cs" and i: "i \<le> n" and cs: "cs i = as @ j # bs"
    and v: "v = e_ptr (es ! j)" and l: "l = prev_loc (Head i) as"
  shows "db_inv n {j} (set_heads l v hs) (set_links l v es) (cs(i := as @ bs))"
proof -
  note D = db_invD [OF inv]
  have j: "j < length es" using D(8) [OF i, of j] cs by simp
  have vb: "v \<le> 9999999" unfolding v using D(4) j by (auto intro: ok_entries_ptr)
  have ok: "ok_loc hs es l" unfolding l by (rule ok_prev_loc [OF inv i cs])
  have dist: "distinct (as @ j # bs)" using D(6) [OF i] cs by simp
  have lin: "l \<in> insert (Head i) (Link ` set as)" unfolding l by (rule prev_loc_in)
  have P: "get_ptr (set_heads l v hs) (set_links l v es) = (get_ptr hs es)(l := v)"
    by (rule get_ptr_set [OF ok])
  have off: "ioff (set_heads l v hs) (set_links l v es) = ioff hs es"
    using ioff_set [OF D(4) vb] by (simp add: fun_eq_iff)
  have ch: "chain ((get_ptr hs es)(l := v)) (ioff hs es) (Head x) ((cs(i := as @ bs)) x)"
    if x: "x \<le> n" for x
  proof (cases "x = i")
    case True
    have "chain (get_ptr hs es) (ioff hs es) (Head i) (as @ j # bs)" using D(5) [OF i] cs by simp
    from chain_unlink [OF this dist] have
      "chain ((get_ptr hs es)(l := get_ptr hs es (Link j))) (ioff hs es) (Head i) (as @ bs)"
      by (auto simp: l)
    with True show ?thesis by (simp add: v)
  next
    case False
    have "set (cs x) \<inter> set (cs i) = {}" by (rule D(7) [OF x i False])
    then have "l \<notin> insert (Head x) (Link ` set (cs x))" using lin cs False by auto
    with D(5) [OF x] False show ?thesis by (simp add: chain_other)
  qed
  have sub: "set (as @ bs) = set (cs i) - {j}" using cs dist by auto
  have un: "(\<Union>x \<le> n. set ((cs(i := as @ bs)) x)) = {..<length es} - {j}"
  proof -
    have "set (cs i) \<subseteq> {..<length es}" "j \<in> set (cs i)" using D(8) [OF i] cs by auto
    with sub show ?thesis
      using UN_fun_upd [of i n cs "as @ bs"] D(7) [OF _ i] i D(12) by auto
  qed
  have sub': "set ((cs(i := as @ bs)) x) \<subseteq> set (cs x)" for x using sub by auto
  show ?thesis
    unfolding db_inv_def P off
  proof (intro conjI allI impI ballI)
    show "ok_heads (set_heads l v hs)" by (rule ok_heads_set [OF D(3) vb])
    show "ok_entries (set_links l v es)" by (rule ok_entry_set_links [OF D(4) vb])
    show "set ((cs(i := as @ bs)) x) \<inter> set ((cs(i := as @ bs)) y) = {}"
      if "x \<le> n" "y \<le> n" "x \<noteq> y" for x y using D(7) [OF that] sub' by blast
    show "distinct ((cs(i := as @ bs)) x)" if "x \<le> n" for x
      using D(6) [OF that] dist by auto
    show "inj_on (\<lambda>j. e_key (set_links l v es ! j)) (set ((cs(i := as @ bs)) (Suc h)))"
      if "h < n" for h
      unfolding set_links_sel by (rule inj_on_subset [OF D(10) [OF that] sub'])
    show "blank_entry (set_links l v es ! x)" if "x \<in> set ((cs(i := as @ bs)) 0)" for x
      using D(11) [of x] sub' [of 0] that by auto
    show "db_hash n (e_key (set_links l v es ! x)) = h"
      if "h < n" "x \<in> set ((cs(i := as @ bs)) (Suc h))" for h x
      using D(9) [OF that(1), of x] sub' [of "Suc h"] that by auto
  qed (use D ch un in auto)
qed

lemma map_unlink:
  assumes inv: "db_inv n {} hs es cs" and i: "i \<le> n" and cs: "cs i = as @ j # bs"
  shows "db_map n es (cs(i := as @ bs))
         = (if i = 0 then db_map n es cs else (db_map n es cs)(e_key (es ! j) := None))"
proof (cases i)
  case 0
  then show ?thesis by (simp add: db_map_def fun_eq_iff)
next
  case (Suc h)
  note D = db_invD [OF inv]
  have h: "h < n" using Suc i by simp
  have j: "j \<in> set (cs (Suc h))" using cs Suc by simp
  have sub: "set (as @ bs) = set (cs i) - {j}" using cs D(6) [OF i] by auto
  have key: "e_key (es ! x) \<noteq> e_key (es ! j)" if "h' < n" "x \<in> set ((cs(i := as @ bs)) (Suc h'))" for h' x
  proof (cases "h' = h")
    case True
    with that sub Suc have "x \<in> set (cs (Suc h))" "x \<noteq> j" by auto
    with j inj_onD [OF D(10) [OF h]] show ?thesis by metis
  next
    case False
    with that Suc have "x \<in> set (cs (Suc h'))" by simp
    with D(9) [OF that(1)] D(9) [OF h j] False show ?thesis by metis
  qed
  have "db_map n es (cs(i := as @ bs)) = (db_map n es cs)(e_key (es ! j) := None)"
  proof (rule db_map_eqI [where X = "{}"])
    fix h' x
    assume *: "h' < n" "x \<in> set ((cs(i := as @ bs)) (Suc h'))"
    then have "x \<in> set (cs (Suc h'))" using sub by (auto split: if_splits)
    with db_map_found [OF inv *(1)] key [OF *]
    show "((db_map n es cs)(e_key (es ! j) := None)) (e_key (es ! x)) = Some (e_data (es ! x))"
      by simp
  next
    fix key v
    assume "((db_map n es cs)(e_key (es ! j) := None)) key = Some v"
    then have "key \<noteq> e_key (es ! j)" "db_map n es cs key = Some v" by (auto split: if_splits)
    then obtain x where "x \<in> set (cs (Suc (db_hash n key)))" "e_key (es ! x) = key" "x \<noteq> j"
      by (metis db_map_SomeE)
    then show "\<exists>x \<in> set ((cs(i := as @ bs)) (Suc (db_hash n key))). e_key (es ! x) = key"
      using sub by (intro bexI [of _ x]) (auto simp: Suc)
  qed (use D in auto)
  with Suc show ?thesis by simp
qed

section \<open>Putting a record on a chain\<close>

lemma inv_push:
  assumes inv: "db_inv n {j} hs es cs" and i: "i \<le> n" and j: "j < length es"
    and e: "ok_entry (doff es j) e" "e_ptr e = hs ! i"
    and len: "length (e_key e) = length (e_key (es ! j))" "length (e_data e) = length (e_data (es ! j))"
    and off: "ioff hs es j \<le> 9999999"
    and free: "i = 0 \<Longrightarrow> blank_entry e"
    and hash: "\<And>h. i = Suc h \<Longrightarrow> db_hash n (e_key e) = h"
    and new: "\<And>h x. i = Suc h \<Longrightarrow> x \<in> set (cs i) \<Longrightarrow> e_key (es ! x) \<noteq> e_key e"
  shows "db_inv n {} (hs[i := ioff hs es j]) (es[j := e]) (cs(i := j # cs i))"
proof -
  note D = db_invD [OF inv]
  have nj: "j \<notin> set (cs x)" if "x \<le> n" for x using D(8) [OF that] by blast
  have ok_es: "ok_entries (es[j := e])" by (rule ok_entries_update [OF D(4) e(1) len(2)])
  have sh: "shape (es[j := e]) = shape es" by (rule shape_update [OF len])
  have off': "ioff (hs[i := ioff hs es j]) (es[j := e]) = ioff hs es"
    by (intro ext ioff_shape [OF sh ok_es D(4)]) simp
  let ?P = "(get_ptr hs es)(Link j := hs ! i, Head i := ioff hs es j)"
  have P: "get_ptr (hs[i := ioff hs es j]) (es[j := e]) = ?P"
  proof
    fix x
    show "get_ptr (hs[i := ioff hs es j]) (es[j := e]) x = ?P x"
      using D(2) i j e(2) by (cases x) (auto simp: nth_list_update)
  qed
  have ch: "chain ?P (ioff hs es) (Head x) ((cs(i := j # cs i)) x)" if x: "x \<le> n" for x
  proof (cases "x = i")
    case True
    have "chain ((get_ptr hs es)(Link j := get_ptr hs es (Head i), Head i := ioff hs es j))
        (ioff hs es) (Head i) (j # cs i)"
      using D(5) [OF i] nj [OF i] by (intro chain_push) auto
    with True show ?thesis by simp
  next
    case False
    then have "chain ?P (ioff hs es) (Head x) (cs x) = chain (get_ptr hs es) (ioff hs es) (Head x) (cs x)"
      using nj [OF x] by (intro chain_cong) auto
    with D(5) [OF x] False show ?thesis by simp
  qed
  have sel: "es[j := e] ! x = es ! x" if "x \<in> set (cs y)" "y \<le> n" for x y
    using nj [OF that(2)] that(1) by (metis nth_list_update_neq)
  have un: "(\<Union>x \<le> n. set ((cs(i := j # cs i)) x)) = {..<length es}"
    using UN_fun_upd [of i n cs "j # cs i"] D(7) [OF _ i] i D(12) j db_invD(8) [OF inv i] by auto
  show ?thesis
    unfolding db_inv_def P off'
  proof (intro conjI allI impI ballI)
    show "ok_heads (hs[i := ioff hs es j])"
      using ok_heads_set [OF D(3) off, of "Head i"] by simp
    show "set ((cs(i := j # cs i)) x) \<inter> set ((cs(i := j # cs i)) y) = {}"
      if "x \<le> n" "y \<le> n" "x \<noteq> y" for x y
      using D(7) [OF that] nj that by auto
    show "distinct ((cs(i := j # cs i)) x)" if "x \<le> n" for x
      using D(6) [OF that] nj [OF that] by auto
    show "db_hash n (e_key (es[j := e] ! x)) = h"
      if h: "h < n" and x: "x \<in> set ((cs(i := j # cs i)) (Suc h))" for h x
    proof (cases "x = j")
      case True
      with h x nj [of "Suc h"] have "i = Suc h" by (auto split: if_splits)
      with True j hash show ?thesis by simp
    next
      case False
      with x have "x \<in> set (cs (Suc h))" by (auto split: if_splits)
      with D(9) [OF h] sel [of x "Suc h"] h show ?thesis by simp
    qed
    show "inj_on (\<lambda>j'. e_key (es[j := e] ! j')) (set ((cs(i := j # cs i)) (Suc h)))"
      if h: "h < n" for h
    proof -
      have "inj_on (\<lambda>j'. e_key (es[j := e] ! j')) (set (cs (Suc h)))"
        using D(10) [OF h] h sel [of _ "Suc h"] by (simp add: inj_on_def)
      moreover have "e_key (es[j := e] ! j) \<notin> (\<lambda>j'. e_key (es[j := e] ! j')) ` set (cs (Suc h))"
        if "i = Suc h"
      proof
        assume "e_key (es[j := e] ! j) \<in> (\<lambda>j'. e_key (es[j := e] ! j')) ` set (cs (Suc h))"
        then obtain x where x: "x \<in> set (cs (Suc h))" "e_key e = e_key (es[j := e] ! x)"
          using j by auto
        with sel [OF x(1)] h new [OF that, of x] that show False by simp
      qed
      moreover have "set (cs (Suc h)) - {j} = set (cs (Suc h))" using nj [of "Suc h"] h by simp
      ultimately show ?thesis by (cases "i = Suc h") (simp_all add: inj_on_insert)
    qed
    show "blank_entry (es[j := e] ! x)" if x: "x \<in> set ((cs(i := j # cs i)) 0)" for x
    proof (cases "x = j")
      case True
      with x nj [of 0] have "i = 0" by (auto split: if_splits)
      with True j free show ?thesis by simp
    next
      case False
      with x have "x \<in> set (cs 0)" by (auto split: if_splits)
      with D(11) sel [of x 0] show ?thesis by simp
    qed
  qed (use D ok_es ch un in auto)
qed

lemma map_push:
  assumes inv: "db_inv n {j} hs es cs" and i: "i \<le> n" and j: "j < length es"
    and hash: "\<And>h. i = Suc h \<Longrightarrow> db_hash n (e_key e) = h"
  shows "db_map n (es[j := e]) (cs(i := j # cs i))
         = (if i = 0 then db_map n es cs else (db_map n es cs)(e_key e \<mapsto> e_data e))"
proof
  note D = db_invD [OF inv]
  fix key
  let ?h = "db_hash n key"
  have h: "?h < n" by (rule db_hash_less [OF D(1)])
  have sel: "es[j := e] ! x = es ! x" if "x \<in> set (cs (Suc ?h))" for x
    using D(8) [of "Suc ?h" x] that h by (metis Suc_leI nth_list_update_neq singletonI)
  have find: "find (\<lambda>x. e_key (es[j := e] ! x) = key) (cs (Suc ?h))
      = find (\<lambda>x. e_key (es ! x) = key) (cs (Suc ?h))"
    using sel by (intro find_cong) auto
  have old: "map_option (\<lambda>x. e_data (es[j := e] ! x)) (find (\<lambda>x. e_key (es ! x) = key) (cs (Suc ?h)))
      = db_map n es cs key"
    unfolding db_map_def using sel
    by (auto simp: find_Some_iff split: option.splits intro!: map_option_cong)
  show "db_map n (es[j := e]) (cs(i := j # cs i)) key
      = (if i = 0 then db_map n es cs else (db_map n es cs)(e_key e \<mapsto> e_data e)) key"
  proof (cases "i = Suc ?h")
    case True
    then show ?thesis using find old j by (simp add: db_map_def [of n "es[j := e]"])
  next
    case False
    then have "i \<noteq> 0 \<Longrightarrow> key \<noteq> e_key e" using hash [of "i - 1"] by auto
    with False find old show ?thesis by (simp add: db_map_def [of n "es[j := e]"])
  qed
qed

section \<open>A new record at the end of the files, new data in place\<close>

lemma doff_append [simp]: "j \<le> length es \<Longrightarrow> doff (es @ es') j = doff es j"
  by (simp add: doff_def)

lemma ioff_append [simp]: "j \<le> length es \<Longrightarrow> ioff hs (es @ es') j = ioff hs es j"
  by (simp add: ioff_def)

lemma ok_entries_append:
  "ok_entries es \<Longrightarrow> ok_entry (length (enc_dat es)) e \<Longrightarrow> ok_entries (es @ [e])"
  by (auto simp: ok_entries_def nth_append less_Suc_eq) (simp add: doff_def)

lemma inv_append:
  assumes inv: "db_inv n {} hs es cs" and e: "ok_entry (length (enc_dat es)) e"
  shows "db_inv n {length es} hs (es @ [e]) cs"
    and "db_map n (es @ [e]) cs = db_map n es cs"
proof -
  note D = db_invD [OF inv]
  have lt: "x < length es" if "x \<in> set (cs y)" "y \<le> n" for x y using D(8) that by blast
  have ch: "ptrs hs (es @ [e]) (Head x) (cs x)" if "x \<le> n" for x
  proof -
    have "ptrs hs (es @ [e]) (Head x) (cs x) = ptrs hs es (Head x) (cs x)"
      using lt [OF _ that] by (intro chain_cong) (auto simp: nth_append less_imp_le)
    with D(5) [OF that] show ?thesis by simp
  qed
  have sel: "(es @ [e]) ! x = es ! x" if "x \<in> set (cs y)" "y \<le> n" for x y
    using lt [OF that] by (simp add: nth_append)
  show "db_inv n {length es} hs (es @ [e]) cs"
    unfolding db_inv_def
  proof (intro conjI allI impI ballI)
    show "ok_entries (es @ [e])" by (rule ok_entries_append [OF D(4) e])
    show "(\<Union>x \<le> n. set (cs x)) = {..<length (es @ [e])} - {length es}" using D(12) by auto
    show "inj_on (\<lambda>j. e_key ((es @ [e]) ! j)) (set (cs (Suc h)))" if "h < n" for h
      using D(10) [OF that] that sel [of _ "Suc h"] by (simp add: inj_on_def)
    show "db_hash n (e_key ((es @ [e]) ! j)) = h" if "h < n" "j \<in> set (cs (Suc h))" for h j
      using D(9) [OF that] sel [OF that(2)] that(1) by simp
    show "blank_entry ((es @ [e]) ! j)" if "j \<in> set (cs 0)" for j
      using D(11) [OF that] sel [OF that] by simp
  qed (use D ch in auto)
  show "db_map n (es @ [e]) cs = db_map n es cs"
  proof
    fix key
    have h: "Suc (db_hash n key) \<le> n" using db_hash_less [OF D(1)] by (simp add: Suc_le_eq)
    have "find (\<lambda>x. e_key ((es @ [e]) ! x) = key) (cs (Suc (db_hash n key)))
        = find (\<lambda>x. e_key (es ! x) = key) (cs (Suc (db_hash n key)))"
      using sel [OF _ h] by (intro find_cong) auto
    then show "db_map n (es @ [e]) cs key = db_map n es cs key"
      using sel [OF _ h] by (auto simp: db_map_def find_Some_iff intro!: map_option_cong)
  qed
qed

lemma inv_data:
  assumes inv: "db_inv n {} hs es cs" and h: "h < n" and j: "j \<in> set (cs (Suc h))"
    and data: "ok_data data" "length data = length (e_data (es ! j))"
  shows "db_inv n {} hs (es[j := (es ! j)\<lparr>e_data := data\<rparr>]) cs"
    and "db_map n (es[j := (es ! j)\<lparr>e_data := data\<rparr>]) cs = (db_map n es cs)(e_key (es ! j) \<mapsto> data)"
proof -
  note D = db_invD [OF inv]
  have jl: "j < length es" using D(8) [of "Suc h" j] h j by simp
  define es' where "es' = es[j := (es ! j)\<lparr>e_data := data\<rparr>]"
  have key: "e_key (es' ! x) = e_key (es ! x)" and ptr: "e_ptr (es' ! x) = e_ptr (es ! x)"
    and dat: "e_data (es' ! x) = (if x = j then data else e_data (es ! x))" for x
    using jl by (auto simp: es'_def nth_list_update)
  have blank: "blank_entry (es' ! x) = blank_entry (es ! x)" for x by (simp add: blank_entry_def key)
  have ok: "ok_entry (doff es j) ((es ! j)\<lparr>e_data := data\<rparr>)"
    using D(4) jl data by (auto simp: ok_entries_def ok_entry_def rec_body_def)
  have okes: "ok_entries es'"
    unfolding es'_def by (rule ok_entries_update [OF D(4) ok]) (simp add: data(2))
  have sh: "shape es' = shape es" unfolding es'_def by (rule shape_update) (simp_all add: data(2))
  have off: "ioff hs es' = ioff hs es" by (intro ext ioff_shape [OF sh okes D(4)]) simp
  have P: "get_ptr hs es' = get_ptr hs es"
  proof
    show "get_ptr hs es' x = get_ptr hs es x" for x by (cases x) (simp_all add: ptr)
  qed
  have inv': "db_inv n {} hs es' cs"
    unfolding db_inv_def P off key blank using D okes shape_length [OF sh] by simp
  then show "db_inv n {} hs (es[j := (es ! j)\<lparr>e_data := data\<rparr>]) cs" by (simp add: es'_def)
  have "db_map n es' cs = (db_map n es cs)(e_key (es ! j) \<mapsto> data)"
  proof (rule db_map_eqI [where X = "{j}"])
    fix h' x
    assume x: "h' < n" "x \<in> set (cs (Suc h'))"
    have jm: "db_map n es cs (e_key (es ! x)) = Some (e_data (es ! x))" by (rule db_map_found [OF inv x])
    show "((db_map n es cs)(e_key (es ! j) \<mapsto> data)) (e_key (es' ! x)) = Some (e_data (es' ! x))"
      if "x \<notin> {j}"
    proof -
      have "e_key (es ! x) \<noteq> e_key (es ! j)"
        using D(9) [OF x] D(9) [OF h j] inj_onD [OF D(10) [OF h], of x j] x j that by auto
      with jm that show ?thesis by (simp add: key dat)
    qed
    show "((db_map n es cs)(e_key (es ! j) \<mapsto> data)) (e_key (es' ! x)) = Some (e_data (es' ! x))"
      if "x \<in> {j}" using that by (simp add: key dat)
  next
    fix k v
    assume "((db_map n es cs)(e_key (es ! j) \<mapsto> data)) k = Some v"
    then show "\<exists>x \<in> set (cs (Suc (db_hash n k))). e_key (es' ! x) = k"
      using D(9) [OF h j] j by (auto simp: key split: if_splits elim!: db_map_SomeE)
  qed (use D in auto)
  then show "db_map n (es[j := (es ! j)\<lparr>e_data := data\<rparr>]) cs = (db_map n es cs)(e_key (es ! j) \<mapsto> data)"
    by (simp add: es'_def)
qed

end
