(* ===== verification/Db_Locks.thy ===== *)
theory Db_Locks
  imports Db_Inv
begin

text \<open>
  \<open>_db_find_and_lock\<close>, \<open>_db_findfree\<close> and \<open>_db_dodelete\<close> on files that satisfy the invariant.
\<close>

text \<open>The state between operations, by its parts.\<close>

definition good :: "string \<Rightarrow> string \<Rightarrow> kernel \<Rightarrow> nat list \<Rightarrow> entry list \<Rightarrow> (nat \<Rightarrow> nat list) \<Rightarrow> lock list
    \<Rightarrow> DB \<Rightarrow> bool" where
  "good pi pd k hs es cs H d \<longleftrightarrow> okW pi pd k hs es d \<and> db_inv (nhash d) {} hs es cs
     \<and> hashoff d = 7 \<and> no_locks (idxfd d) (datfd d) H"

lemma goodD:
  assumes "good pi pd k hs es cs H d"
  shows "okW pi pd k hs es d" "ok_base pi pd k (idxfd d) (datfd d)" "ok_heads hs" "ok_entries es"
    "db_inv (nhash d) {} hs es cs" "hashoff d = 7" "no_locks (idxfd d) (datfd d) H" "0 < nhash d"
    "length hs = nhash d + 1"
  using assms db_invD(1,2) [of "nhash d" "{}" hs es cs] by (auto simp: good_def okW_def)

lemma good_chain_off: "int (db_hash n key * PTR_SZ) + 7 = int (loc_off hs es (Head (Suc (db_hash n key))))"
  by (simp add: PTR_SZ_def)

lemma chain_short:
  assumes "ok_entries es" and "set js \<subseteq> {..<length es}" and "distinct js"
  shows "length js < Suc (length (idx_file hs es))"
proof -
  have "length js = card (set js)" using assms(3) by (simp add: distinct_card)
  also have "\<dots> \<le> length es" using card_mono [OF _ assms(2)] by simp
  also have "\<dots> \<le> length (idx_file hs es)"
    using length_es_le [OF assms(1), of 0] by (simp add: idx_file_def)
  finally show ?thesis by simp
qed

abbreviation locked :: "string \<Rightarrow> bool \<Rightarrow> DB \<Rightarrow> lock list \<Rightarrow> lock list" where
  "locked key wl d H \<equiv>
     (idxfd d, (if wl then F_WRLCK else F_RDLCK), int (7 * Suc (db_hash (nhash d) key)), 1) # H"

lemma find_and_lock_steps:
  fixes key :: string
  assumes ok: "good pi pd k hs es cs H d"
  defines "d1 \<equiv> d\<lparr>chainoff := int (7 * Suc (db_hash (nhash d) key)),
                   ptroff := int (7 * Suc (db_hash (nhash d) key))\<rparr>"
  shows "db_find_and_lock key wl (W pi pd k hs es q qd H d)
    = bindc (find_loop (Suc (length (idx_file hs es))) key
        (int (get_ptr hs es (Head (Suc (db_hash (nhash d) key))))))
        (\<lambda>off. ret (if off = 0 then -1 else 0))
        (W pi pd k hs es (7 * Suc (db_hash (nhash d) key) + 7) qd (locked key wl d H) d1)"
proof -
  let ?h = "db_hash (nhash d) key"
  note G = goodD [OF ok]
  have h: "Suc ?h < length hs" using db_hash_less [OF G(8)] G(9) by simp
  have c: "int (?h * PTR_SZ) + hashoff d = int (7 * Suc ?h)" using G(6) by (simp add: PTR_SZ_def)
  have rp: "db_readptr (int (7 * Suc ?h)) (W pi pd k hs es q qd H' d1)
      = Ret (int (get_ptr hs es (Head (Suc ?h)))) (W pi pd k hs es (7 * Suc ?h + 7) qd H' d1)" for q H'
    using readptr_W [of pi pd k d1 hs es "Head (Suc ?h)" "int (7 * Suc ?h)"] G(2-4) h
    by (simp add: d1_def)
  have s: "W pi pd k hs es q qd H' (d\<lparr>chainoff := int (7 * Suc ?h), ptroff := int (7 * Suc ?h)\<rparr>)
      = W pi pd k hs es q qd H' d1" for q H'
    by (simp add: d1_def)
  have b: "ok_base pi pd k (idxfd d1) (datfd d1)" using G(2) by (simp add: d1_def)
  have sel: "chainoff d1 = int (7 * Suc ?h)" "ptroff d1 = int (7 * Suc ?h)" "idxfd d1 = idxfd d"
    by (simp_all add: d1_def)
  show ?thesis
    using b unfolding db_find_and_lock_def
    by (simp add: exec c s sel rp del: of_nat_mult of_nat_Suc mult_Suc_right get_ptr.simps)
qed

lemma find_and_lock_found:
  assumes ok: "good pi pd k hs es cs H d" and cs: "cs (Suc (db_hash (nhash d) key)) = as @ j # bs"
    and key: "e_key (es ! j) = key"
  shows "\<exists>q' d'. db_find_and_lock key wl (W pi pd k hs es q qd H d)
           = Ret 0 (W pi pd k hs es q' qd (locked key wl d H) (loaded (ioff hs es j) (doff es j) (es ! j) d'))
         \<and> keep d' = keep (d\<lparr>chainoff := int (7 * Suc (db_hash (nhash d) key))\<rparr>)
         \<and> ptroff d' = int (loc_off hs es (prev_loc (Head (Suc (db_hash (nhash d) key))) as))"
proof -
  let ?h = "db_hash (nhash d) key"
  note G = goodD [OF ok]
  note D = db_invD [OF G(5)]
  have h: "?h < nhash d" by (rule db_hash_less [OF G(8)])
  then have h': "Suc ?h \<le> nhash d" by simp
  have sub: "set (as @ j # bs) \<subseteq> {..<length es}" using D(8) [OF h'] cs by auto
  have dist: "distinct (as @ j # bs)" using D(6) [OF h'] cs by simp
  have other: "e_key (es ! x) \<noteq> key" if "x \<in> set as" for x
  proof
    assume "e_key (es ! x) = key"
    with key have "x = j" using inj_onD [OF D(10) [OF h], of x j] cs that by simp
    with dist that show False by simp
  qed
  have short: "length as < Suc (length (idx_file hs es))"
    using chain_short [OF G(4) sub dist, of hs] by simp
  define d1 where "d1 = d\<lparr>chainoff := int (7 * Suc ?h), ptroff := int (7 * Suc ?h)\<rparr>"
  have ok1: "okW pi pd k hs es d1" using G(1) by (simp add: okW_def d1_def)
  have ch: "ptrs hs es (Head (Suc ?h)) (as @ j # bs)" using D(5) [OF h'] cs by simp
  have po: "ptroff d1 = int (loc_off hs es (Head (Suc ?h)))" by (simp add: d1_def)
  from find_loop_found [OF ok1 ch sub short po key ballI [OF other]]
  obtain q' d' where
    "find_loop (Suc (length (idx_file hs es))) key (int (get_ptr hs es (Head (Suc ?h))))
       (W pi pd k hs es (7 * Suc ?h + 7) qd (locked key wl d H) d1)
     = Ret (int (ioff hs es j)) (W pi pd k hs es q' qd (locked key wl d H)
         (loaded (ioff hs es j) (doff es j) (es ! j) d'))"
    "keep d' = keep d1" "ptroff d' = int (loc_off hs es (prev_loc (Head (Suc ?h)) as))"
    by blast
  then show ?thesis
    using find_and_lock_steps [OF ok, of key wl q qd]
    by (auto simp: exec d1_def simp del: loc_off.simps get_ptr.simps)
qed

lemma find_and_lock_absent:
  assumes ok: "good pi pd k hs es cs H d" and key: "db_map (nhash d) es cs key = None"
  shows "\<exists>q' d'. db_find_and_lock key wl (W pi pd k hs es q qd H d)
           = Ret (-1) (W pi pd k hs es q' qd (locked key wl d H) d')
         \<and> keep d' = keep (d\<lparr>chainoff := int (7 * Suc (db_hash (nhash d) key))\<rparr>)"
proof -
  let ?h = "db_hash (nhash d) key"
  note G = goodD [OF ok]
  note D = db_invD [OF G(5)]
  have h: "?h < nhash d" by (rule db_hash_less [OF G(8)])
  then have h': "Suc ?h \<le> nhash d" by simp
  have sub: "set (cs (Suc ?h)) \<subseteq> {..<length es}" using D(8) [OF h'] by auto
  define d1 where "d1 = d\<lparr>chainoff := int (7 * Suc ?h), ptroff := int (7 * Suc ?h)\<rparr>"
  have ok1: "okW pi pd k hs es d1" using G(1) by (simp add: okW_def d1_def)
  have other: "\<forall>x \<in> set (cs (Suc ?h)). e_key (es ! x) \<noteq> key" using key by (simp add: db_map_None)
  from find_loop_absent [OF ok1 D(5) [OF h'] sub chain_short [OF G(4) sub D(6) [OF h']] other]
  obtain q' d' where
    "find_loop (Suc (length (idx_file hs es))) key (int (get_ptr hs es (Head (Suc ?h))))
       (W pi pd k hs es (7 * Suc ?h + 7) qd (locked key wl d H) d1)
     = Ret 0 (W pi pd k hs es q' qd (locked key wl d H) d')" "keep d' = keep d1"
    by blast
  then show ?thesis
    using find_and_lock_steps [OF ok, of key wl q qd]
    by (auto simp: exec d1_def simp del: get_ptr.simps)
qed

section \<open>Unlocking\<close>

lemma unlock_chain_W:
  assumes "ok_base pi pd k (idxfd d) (datfd d)" and "no_locks (idxfd d) (datfd d) H"
    and "chainoff d = co"
  shows "unlock_chain msg (W pi pd k hs es q qd ((idxfd d, knd, co, 1) # H) d)
         = Ret () (W pi pd k hs es q qd H d)"
  using assms by (simp add: unlock_chain_def exec)


section \<open>Deleting the current record\<close>

definition blanked :: "nat \<Rightarrow> entry \<Rightarrow> entry" where
  "blanked ptr e = \<lparr>e_ptr = ptr, e_key = replicate (length (e_key e)) SPACE,
                    e_data = replicate (length (e_data e)) SPACE\<rparr>"

lemma blanked_sel [simp]:
  "e_ptr (blanked p e) = p" "length (e_key (blanked p e)) = length (e_key e)"
  "length (e_data (blanked p e)) = length (e_data e)" "blank_entry (blanked p e)"
  by (auto simp: blanked_def blank_entry_def)

lemma ok_blanked: "ok_entry n e \<Longrightarrow> p \<le> 9999999 \<Longrightarrow> ok_entry n (blanked p e)"
  by (auto simp: ok_entry_def blanked_def ok_key_def ok_data_def rec_body_def)

definition heads_del :: "loc \<Rightarrow> nat \<Rightarrow> nat list \<Rightarrow> entry list \<Rightarrow> nat list" where
  "heads_del l j hs es = (set_heads l (e_ptr (es ! j)) hs)[0 := ioff hs es j]"

definition entries_del :: "loc \<Rightarrow> nat \<Rightarrow> nat list \<Rightarrow> entry list \<Rightarrow> entry list" where
  "entries_del l j hs es = (set_links l (e_ptr (es ! j)) es)[j := blanked (hs ! 0) (es ! j)]"

lemma inv_delete:
  assumes inv: "db_inv n {} hs es cs" and h: "h < n" and cs: "cs (Suc h) = as @ j # bs"
    and l: "l = prev_loc (Head (Suc h)) as"
  defines "cs' \<equiv> (cs(Suc h := as @ bs))(0 := j # cs 0)"
  shows "db_inv n {} (heads_del l j hs es) (entries_del l j hs es) cs'"
    and "db_map n (entries_del l j hs es) cs' = (db_map n es cs)(e_key (es ! j) := None)"
proof -
  note D = db_invD [OF inv]
  have h': "Suc h \<le> n" using h by simp
  have jl: "j < length es" using D(8) [OF h'] cs by simp
  have lne: "l \<noteq> Head 0" using prev_loc_in [of "Head (Suc h)" as] l by auto
  let ?v = "e_ptr (es ! j)" and ?e = "blanked (hs ! 0) (es ! j)"
  have inv1: "db_inv n {j} (set_heads l ?v hs) (set_links l ?v es) (cs(Suc h := as @ bs))"
    by (rule inv_unlink [OF inv h' cs refl l])
  have v: "?v \<le> 9999999" using D(4) jl by (auto intro: ok_entries_ptr)
  have off: "ioff (set_heads l ?v hs) (set_links l ?v es) j = ioff hs es j"
    by (rule ioff_set [OF D(4) v])
  have doff: "doff (set_links l ?v es) j = doff es j" by (rule doff_shape) simp
  have h0: "set_heads l ?v hs ! 0 = hs ! 0" using lne by (cases l) auto
  have b0: "hs ! 0 \<le> 9999999" using D(2,3) by (auto simp: ok_heads_def)
  have "get_ptr hs es (prev_loc (Head (Suc h)) as) = ioff hs es j"
    using chain_split D(5) [OF h'] cs by metis
  then have offb: "ioff hs es j \<le> 9999999"
    using get_ptr_bound [OF D(3,4) ok_prev_loc [OF inv h' cs]] by simp
  have okb: "ok_entry (doff es j) ?e"
    using D(4) jl b0 by (auto simp: ok_entries_def intro: ok_blanked)
  have cs0: "(cs(Suc h := as @ bs)) 0 = cs 0" by simp
  from inv_push [OF inv1, of 0 ?e] show "db_inv n {} (heads_del l j hs es) (entries_del l j hs es) cs'"
    using jl okb h0 offb by (simp add: off doff heads_del_def entries_del_def cs'_def)
  have "db_map n (entries_del l j hs es) cs' = db_map n (set_links l ?v es) (cs(Suc h := as @ bs))"
    using map_push [OF inv1, of 0 ?e] jl by (simp add: entries_del_def cs'_def)
  with map_unlink [OF inv h' cs]
  show "db_map n (entries_del l j hs es) cs' = (db_map n es cs)(e_key (es ! j) := None)" by simp
qed

lemma dodelete_W:
  assumes ok: "good pi pd k hs es cs H d" and h: "h < nhash d" and cs: "cs (Suc h) = as @ j # bs"
    and l: "l = prev_loc (Head (Suc h)) as" and po: "ptroff d = int (loc_off hs es l)" and co: "co \<noteq> 0"
  shows "\<exists>q' qd' d'. db_dodelete (W pi pd k hs es q qd ((idxfd d, knd, co, 1) # H)
             (loaded (ioff hs es j) (doff es j) (es ! j) d))
           = Ret () (W pi pd k (heads_del l j hs es) (entries_del l j hs es) q' qd'
               ((idxfd d, knd, co, 1) # H) d') \<and> keep d' = keep d"
proof -
  note G = goodD [OF ok]
  note D = db_invD [OF G(5)]
  have h': "Suc h \<le> nhash d" using h by simp
  have jl: "j < length es" using D(8) [OF h'] cs by simp
  let ?v = "e_ptr (es ! j)" and ?b = "replicate (length (e_data (es ! j))) SPACE"
  let ?k = "replicate (length (e_key (es ! j))) SPACE" and ?ko = "ioff hs es j" and ?do = "doff es j"
  let ?H = "(idxfd d, knd, co, 1) # H" and ?HF = "(idxfd d, F_WRLCK, 0, 1) # (idxfd d, knd, co, 1) # H"
  define es1 where "es1 = es[j := (es ! j)\<lparr>e_data := ?b\<rparr>]"
  define e where "e = blanked (hs ! 0) (es ! j)"
  define d1 where "d1 = (loaded ?ko ?do (es ! j) d)\<lparr>datbuf := ?b @ [NUL], idxbuf := ?k @ drop (length ?k) (idx_image ?do (es ! j))\<rparr>"
  have lne: "l \<noteq> Head 0" "l \<noteq> Link j"
    using prev_loc_in [of "Head (Suc h)" as] l D(6) [OF h'] cs by auto
  have lok: "ok_loc hs es l" unfolding l by (rule ok_prev_loc [OF G(5) h' cs])
  have v: "?v \<le> 9999999" using D(4) jl by (auto intro: ok_entries_ptr)
  have b0: "hs ! 0 \<le> 9999999" using D(2,3) by (auto simp: ok_heads_def)
  have offb: "?ko \<le> 9999999"
    using get_ptr_bound [OF D(3,4) lok] chain_split D(5) [OF h'] cs l by metis
  have oke: "ok_entry ?do e" using D(4) jl b0 by (auto simp: ok_entries_def e_def intro: ok_blanked)
  have okd: "ok_entry ?do ((es ! j)\<lparr>e_data := ?b\<rparr>)"
    using D(4) jl by (auto simp: ok_entries_def ok_entry_def ok_data_def rec_body_def)
  have ok1: "ok_entries es1" unfolding es1_def by (rule ok_entries_update [OF D(4) okd]) simp
  have ok2: "ok_entries (es1[j := e])"
    unfolding es1_def using jl by (simp add: e_def) (rule ok_entries_update [OF D(4)], use oke in \<open>simp_all add: e_def\<close>)
  have es2: "es1[j := e] = es[j := e]" by (simp add: es1_def)
  have sh1: "shape es1 = shape es" unfolding es1_def by (rule shape_update) simp_all
  have sh2: "shape (es[j := e]) = shape es" by (rule shape_update) (simp_all add: e_def)
  have o1: "ioff hs es1 x = ioff hs es x" for x by (rule ioff_shape [OF sh1 ok1 D(4)]) simp
  have o2: "ioff (hs[i := w]) (es[j := e]) x = ioff hs es x" for i w x
    by (rule ioff_shape [OF sh2 _ D(4)]) (use ok2 es2 in simp_all)
  have f1: "doff es1 x = doff es x" for x by (rule doff_shape [OF sh1])
  have key: "cstr (idxbuf (loaded ?ko ?do (es ! j) d)) = e_key (es ! j)"
    using key_no_NUL [OF G(4) jl] by (simp add: cstr_idx_image)
  have kb: "cstr (?k @ drop (length ?k) (idx_image ?do (es ! j))) = ?k"
    by (simp add: idx_image_def cstr_append_NUL)
  have db: "cstr (?b @ [NUL]) = ?b" by (simp add: cstr_append_NUL)
  have base: "ok_base pi pd k (idxfd d1) (datfd d1)" using G(2) by (simp add: d1_def)
  have same: "d1\<lparr>datoff := int ?do, datlen := int (length ?b) + 1\<rparr> = d1"
    by (rule DB.equality) (simp_all add: d1_def loaded_def)
  have e_sel: "e_key e = ?k" "e_ptr e = hs ! 0" "e_data e = ?b"
    by (simp_all add: e_def blanked_def)
  have es1_sel: "length es1 = length es" "e_key (es1 ! j) = e_key (es ! j)" "e_data (es1 ! j) = ?b"
    using jl by (simp_all add: es1_def)
  have d1_sel: "datoff d1 = int ?do" "datlen d1 = int (length (e_data (es ! j))) + 1"
    by (simp_all add: d1_def)
  have wd: "db_writedat ?b (int ?do) SEEK_SET (W pi pd k hs es q qd H' d1)
      = Ret () (W pi pd k hs es1 q (?do + length ?b + 1) H' d1)" for q qd H'
    using writedat_W [OF base jl refl, of ?b hs q qd H'] 
    by (simp only: es1_def same) (simp add: same [simplified])
  have rp: "db_readptr 0 (W pi pd k hs es1 q qd H' d1) = Ret (int (hs ! 0)) (W pi pd k hs es1 7 qd H' d1)" for q qd H'
    using readptr_W [OF base D(3) ok1, of "Head 0" 0] D(1,2) by simp
  have ws: "db_writeidx ?k (int ?ko) SEEK_SET (int (hs ! 0)) (W pi pd k hs es1 q qd H' d1)
      = Ret () (W pi pd k hs (es[j := e]) (ioff hs es (Suc j)) qd H' (written ?ko ?do e d1))" for q qd H'
    using writeidx_W [OF base D(3) ok1, of j e "int ?ko" q qd H'] oke jl
    by (simp add: o1 f1 es2 e_sel es1_sel d1_sel)
  have w0: "db_writeptr 0 (int ?ko) (W pi pd k hs (es[j := e]) q qd H' (written ?ko ?do e d1))
      = Ret () (W pi pd k (hs[0 := ?ko]) (es[j := e]) 7 qd H' (written ?ko ?do e d1))" for q qd H'
    using writeptr_W [of pi pd k "written ?ko ?do e d1" hs "es[j := e]" "Head 0" 0 ?ko q qd H']
      base D(1-3) ok2 offb by (simp add: es2)
  have okh: "ok_heads (hs[0 := ?ko])" using ok_heads_set [OF D(3) offb, of "Head 0"] by simp
  have lo: "loc_off (hs[0 := ?ko]) (es[j := e]) l = loc_off hs es l" by (cases l) (simp_all add: o2)
  have lok2: "ok_loc (hs[0 := ?ko]) (es[j := e]) l" using lok by (cases l) simp_all
  have fin: "set_heads l ?v (hs[0 := ?ko]) = heads_del l j hs es"
    "set_links l ?v (es[j := e]) = entries_del l j hs es"
    unfolding heads_del_def entries_del_def e_def using lne by (cases l; simp add: list_update_swap)+
  have wl: "db_writeptr (int (loc_off hs es l)) (int ?v) (W pi pd k (hs[0 := ?ko]) (es[j := e]) q qd H' (written ?ko ?do e d1))
      = Ret () (W pi pd k (heads_del l j hs es) (entries_del l j hs es) (loc_off hs es l + 7) qd H' (written ?ko ?do e d1))" for q qd H'
    using writeptr_W [of pi pd k "written ?ko ?do e d1" "hs[0 := ?ko]" "es[j := e]" l _ ?v q qd H']
      base okh ok2 v lok2 by (simp add: es2 lo fin)
  have st: "set_db (\<lambda>d. d\<lparr>datbuf := replicate (nat (datlen d - 1)) SPACE @ [NUL]\<rparr>) 
       (W pi pd k hs es q qd H' (loaded ?ko ?do (es ! j) d))
      = Ret () (W pi pd k hs es q qd H' ((loaded ?ko ?do (es ! j) d)\<lparr>datbuf := ?b @ [NUL]\<rparr>))" for q qd H'
    by (simp add: set_db_W)
  have st2: "set_db (\<lambda>d. d\<lparr>idxbuf := replicate (length (cstr (idxbuf d))) SPACE
                                  @ drop (length (cstr (idxbuf d))) (idxbuf d)\<rparr>)
       (W pi pd k hs es q qd H' ((loaded ?ko ?do (es ! j) d)\<lparr>datbuf := ?b @ [NUL]\<rparr>))
      = Ret () (W pi pd k hs es q qd H' d1)" for q qd H'
    using key by (simp add: set_db_W d1_def)
  have sel: "idxfd d1 = idxfd d" "cstr (datbuf d1) = ?b" "datoff d1 = int ?do" "ptrval d1 = int ?v"
    "cstr (idxbuf d1) = ?k" "idxoff d1 = int ?ko" "ptroff d1 = ptroff d"
    using db kb by (simp_all add: d1_def del: length_replicate)
  have "db_dodelete (W pi pd k hs es q qd ?H (loaded ?ko ?do (es ! j) d))
      = Ret () (W pi pd k (heads_del l j hs es) (entries_del l j hs es) (loc_off hs es l + 7)
          (?do + length ?b + 1) ?H (written ?ko ?do e d1))"
    using base co G(7) unfolding db_dodelete_def
    by (simp add: bindc_exec st st2 exec sel wd rp ws w0 wl po FREE_OFF_def)
  moreover have "keep (written ?ko ?do e d1) = keep d" by (simp add: d1_def)
  ultimately show ?thesis by blast
qed


section \<open>Taking a record from the free list\<close>

lemma findfree_found:
  assumes ok: "good pi pd k hs es cs H d" and cs: "cs 0 = as @ j # bs"
    and f: "fits kl dl (es ! j)" "\<forall>x \<in> set as. \<not> fits kl dl (es ! x)" and co: "co \<noteq> 0"
    and l: "l = prev_loc (Head 0) as"
  shows "\<exists>q' d'. db_findfree (int kl) (int dl + 1) (W pi pd k hs es q qd ((idxfd d, knd, co, 1) # H) d)
           = Ret 0 (W pi pd k (set_heads l (e_ptr (es ! j)) hs) (set_links l (e_ptr (es ! j)) es) q' qd
               ((idxfd d, knd, co, 1) # H) (loaded (ioff hs es j) (doff es j) (es ! j) d'))
         \<and> keep d' = keep d"
proof -
  note G = goodD [OF ok]
  note D = db_invD [OF G(5)]
  let ?H = "(idxfd d, knd, co, 1) # H" and ?HF = "(idxfd d, F_WRLCK, 0, 1) # (idxfd d, knd, co, 1) # H"
  have sub: "set (as @ j # bs) \<subseteq> {..<length es}" using D(8) [of 0] cs by auto
  have jl: "j < length es" using sub by simp
  have dist: "distinct (as @ j # bs)" using D(6) [of 0] cs by simp
  have short: "length as < Suc (length (idx_file hs es))"
    using chain_short [OF G(4) sub dist, of hs] by simp
  have ch: "ptrs hs es (Head 0) (as @ j # bs)" using D(5) [of 0] cs by simp
  have lok: "ok_loc hs es l" unfolding l by (rule ok_prev_loc [OF G(5) _ cs]) simp
  have v: "e_ptr (es ! j) \<le> 9999999" using D(4) jl by (auto intro: ok_entries_ptr)
  have rp: "db_readptr 0 (W pi pd k hs es q qd H' d) = Ret (int (get_ptr hs es (Head 0))) (W pi pd k hs es 7 qd H' d)" for q qd H'
    using readptr_W [OF G(2-4), of "Head 0" 0] D(1,2) by simp
  from free_loop_found [OF G(1) ch sub short f, where q = 7 and qd = qd and H = ?HF] obtain q' d' where
    loop: "free_loop (Suc (length (idx_file hs es))) (int kl) (int dl + 1) 0 (int (get_ptr hs es (Head 0)))
         (W pi pd k hs es 7 qd ?HF d)
       = Ret (int (loc_off hs es l), int (ioff hs es j))
           (W pi pd k hs es q' qd ?HF (loaded (ioff hs es j) (doff es j) (es ! j) d'))"
    and kd: "keep d' = keep d" by (auto simp: l simp del: free_loop.simps get_ptr.simps)
  let ?d = "loaded (ioff hs es j) (doff es j) (es ! j) d'"
  have base: "ok_base pi pd k (idxfd ?d) (datfd ?d)" using G(2) keep_sel [OF kd] by simp
  have wp: "db_writeptr (int (loc_off hs es l)) (int (e_ptr (es ! j))) (W pi pd k hs es q' qd ?HF ?d)
      = Ret () (W pi pd k (set_heads l (e_ptr (es ! j)) hs) (set_links l (e_ptr (es ! j)) es)
          (loc_off hs es l + 7) qd ?HF ?d)"
    using writeptr_W [OF base G(3,4) lok refl v] .
  have "db_findfree (int kl) (int dl + 1) (W pi pd k hs es q qd ?H d)
      = Ret 0 (W pi pd k (set_heads l (e_ptr (es ! j)) hs) (set_links l (e_ptr (es ! j)) es)
          (loc_off hs es l + 7) qd ?H ?d)"
    using G(2,7) co base keep_sel [OF kd] unfolding db_findfree_def
    by (simp add: exec FREE_OFF_def rp loop wp del: get_ptr.simps free_loop.simps)
  with kd show ?thesis by blast
qed

lemma findfree_absent:
  assumes ok: "good pi pd k hs es cs H d" and f: "\<forall>x \<in> set (cs 0). \<not> fits kl dl (es ! x)"
    and co: "co \<noteq> 0"
  shows "\<exists>q' d'. db_findfree (int kl) (int dl + 1) (W pi pd k hs es q qd ((idxfd d, knd, co, 1) # H) d)
           = Ret (-1) (W pi pd k hs es q' qd ((idxfd d, knd, co, 1) # H) d') \<and> keep d' = keep d"
proof -
  note G = goodD [OF ok]
  note D = db_invD [OF G(5)]
  let ?H = "(idxfd d, knd, co, 1) # H" and ?HF = "(idxfd d, F_WRLCK, 0, 1) # (idxfd d, knd, co, 1) # H"
  have sub: "set (cs 0) \<subseteq> {..<length es}" using D(8) [of 0] by auto
  have rp: "db_readptr 0 (W pi pd k hs es q qd H' d) = Ret (int (get_ptr hs es (Head 0))) (W pi pd k hs es 7 qd H' d)" for q qd H'
    using readptr_W [OF G(2-4), of "Head 0" 0] D(1,2) by simp
  from free_loop_absent [OF G(1) D(5) [of 0] sub chain_short [OF G(4) sub D(6) [of 0], of hs] f, where q = 7 and qd = qd and H = ?HF]
  obtain q' d' so where
    loop: "free_loop (Suc (length (idx_file hs es))) (int kl) (int dl + 1) 0 (int (get_ptr hs es (Head 0)))
         (W pi pd k hs es 7 qd ?HF d) = Ret (so, 0) (W pi pd k hs es q' qd ?HF d')"
    and kd: "keep d' = keep d" by (auto simp del: free_loop.simps get_ptr.simps)
  have "db_findfree (int kl) (int dl + 1) (W pi pd k hs es q qd ?H d)
      = Ret (-1) (W pi pd k hs es q' qd ?H d')"
    using G(2,7) co keep_sel [OF kd] unfolding db_findfree_def
    by (simp add: exec FREE_OFF_def rp loop del: get_ptr.simps free_loop.simps)
  with kd show ?thesis by blast
qed

end
