(* ===== verification/Db_Update.thy ===== *)
theory Db_Update
  imports Db_Locks
begin

text \<open>
  The three ways \<open>db_store\<close> puts data under a key (a record appended to the files, a record of
  the free list used again, data overwritten in place), on files that satisfy the invariant.
\<close>

text \<open>Records the library accepts whatever their place in the data file.\<close>

definition storable :: "string \<Rightarrow> string \<Rightarrow> bool" where
  "storable key data \<longleftrightarrow> ok_key key \<and> ok_data data \<and> length key \<le> 1000"

lemma enc_dat_le:
  assumes "\<forall>e \<in> set es. length (e_data e) < 1024"
  shows "length (enc_dat es) \<le> 1024 * length es"
  using assms by (induction es) (auto simp: enc_dat_Cons)

lemma ok_entry_storable:
  assumes "ok_entries es" and "storable key data" and "length (idx_file hs es) \<le> 9999999"
    and "p \<le> 9999999"
  shows "ok_entry (length (enc_dat es)) \<lparr>e_ptr = p, e_key = key, e_data = data\<rparr>"
proof -
  have "\<forall>e \<in> set es. length (e_data e) < 1024"
    using assms(1) by (auto simp: ok_entries_def ok_entry_def ok_data_def in_set_conv_nth)
  then have "length (enc_dat es) \<le> 1024 * length es" by (rule enc_dat_le)
  moreover have "length es \<le> 9999999"
    using length_es_le [OF assms(1), of 0] assms(3) by (simp add: idx_file_def)
  ultimately have "length (enc_dat es) < 10 ^ 11" by simp
  then have "length (dec (length (enc_dat es))) \<le> 11" by (rule length_dec_le) simp
  moreover have "length data + 1 < 10 ^ 4" using assms(2) by (simp add: storable_def ok_data_def)
  then have "length (dec (length data + 1)) \<le> 4" by (rule length_dec_le) simp
  ultimately show ?thesis
    using assms(2,4) by (simp add: ok_entry_def storable_def rec_body_def)
qed

lemma idx_file_len: "ok_heads hs \<Longrightarrow> length (idx_file hs es) = ioff hs es (length es)"
  by (simp add: idx_file_def ioff_def length_enc_hdr)

lemma ioff_mono: "j \<le> j' \<Longrightarrow> ioff hs es j \<le> ioff hs es j'"
proof -
  assume "j \<le> j'"
  then have "take j' es = take j es @ take (j' - j) (drop j es)" by (metis le_add_diff_inverse take_add)
  then show ?thesis by (simp add: ioff_def enc_idx_append)
qed

lemma idx_file_len_shape:
  assumes "db_inv n {} hs es cs" and "db_inv n {} hs' es' cs'" and "shape es' = shape es"
  shows "length (idx_file hs' es') = length (idx_file hs es)"
proof -
  note D = db_invD [OF assms(1)] and D' = db_invD [OF assms(2)]
  have "ioff hs' es' (length es') = ioff hs es (length es')"
    by (rule ioff_shape [OF assms(3) D'(4) D(4)]) (simp add: D(2) D'(2))
  then show ?thesis using shape_length [OF assms(3)] D(3) D'(3) by (simp add: idx_file_len)
qed

section \<open>A new record at the end of the files\<close>

lemma store_append_W:
  assumes ok: "good pi pd k hs es cs H d" and key: "db_map (nhash d) es cs key = None"
    and st: "storable key data" and room: "length (idx_file hs es) \<le> 9999999"
  defines "h \<equiv> db_hash (nhash d) key"
  assumes co: "chainoff d = int (7 * Suc h)"
  shows "\<exists>hs' es' cs' q' qd' d'.
       store_append key data (int (hs ! Suc h)) (W pi pd k hs es q qd ((idxfd d, knd, chainoff d, 1) # H) d)
         = Ret () (W pi pd k hs' es' q' qd' ((idxfd d, knd, chainoff d, 1) # H) d')
       \<and> keep d' = keep d \<and> db_inv (nhash d) {} hs' es' cs'
       \<and> db_map (nhash d) es' cs' = (db_map (nhash d) es cs)(key \<mapsto> data)
       \<and> length (idx_file hs' es') \<le> length (idx_file hs es) + 1035"
proof -
  note G = goodD [OF ok]
  note D = db_invD [OF G(5)]
  have h: "h < nhash d" unfolding h_def by (rule db_hash_less [OF G(8)])
  define e where "e = \<lparr>e_ptr = hs ! Suc h, e_key = key, e_data = data\<rparr>"
  let ?H = "(idxfd d, knd, chainoff d, 1) # H" and ?j = "length es"
  have p: "hs ! Suc h \<le> 9999999" using D(2,3) h by (simp add: ok_heads_def)
  have oke: "ok_entry (length (enc_dat es)) e"
    unfolding e_def by (rule ok_entry_storable [OF G(4) st room p])
  define d1 where "d1 = written (ioff hs es ?j) (length (enc_dat es)) e
      (d\<lparr>datoff := int (length (enc_dat es)), datlen := int (length (e_data e)) + 1\<rparr>)"
  have app: "bindc (db_writedat data 0 SEEK_END) (\<lambda>_. db_writeidx key 0 SEEK_END (int (hs ! Suc h)))
      (W pi pd k hs es q qd ?H d)
    = Ret () (W pi pd k hs (es @ [e]) (ioff hs (es @ [e]) (Suc ?j))
        (length (enc_dat es) + length data + 1) ?H d1)"
    using append_W [OF G(2,3) oke G(7) refl, where knd = knd and co = "chainoff d" and q = q and qd = qd] by (simp add: e_def d1_def)
  have off: "ioff hs es ?j \<le> 9999999" using room idx_file_len [OF G(3)] by simp
  have inv1: "db_inv (nhash d) {?j} hs (es @ [e]) cs" and map1: "db_map (nhash d) (es @ [e]) cs = db_map (nhash d) es cs"
    by (rule inv_append [OF G(5) oke])+
  have ok1: "ok_entries (es @ [e])" by (rule ok_entries_append [OF G(4) oke])
  have wp: "db_writeptr (int (7 * Suc h)) (int (ioff hs es ?j)) (W pi pd k hs (es @ [e]) q qd H' d1)
      = Ret () (W pi pd k (hs[Suc h := ioff hs es ?j]) (es @ [e]) (7 * Suc h + 7) qd H' d1)" for q qd H'
    using writeptr_W [of pi pd k d1 hs "es @ [e]" "Head (Suc h)" "int (7 * Suc h)" "ioff hs es ?j"]
      G(2,3) ok1 h D(2) off by (simp add: d1_def)
  have eq: "store_append key data (int (hs ! Suc h)) (W pi pd k hs es q qd ?H d)
      = Ret () (W pi pd k (hs[Suc h := ioff hs es ?j]) (es @ [e]) (7 * Suc h + 7)
          (length (enc_dat es) + length data + 1) ?H d1)"
  proof -
    have sel: "chainoff d1 = int (7 * Suc h)" "idxoff d1 = int (ioff hs es ?j)" using co by (simp_all add: d1_def)
    have "store_append key data (int (hs ! Suc h)) (W pi pd k hs es q qd ?H d)
      = bindc (bindc (db_writedat data 0 SEEK_END) (\<lambda>_. db_writeidx key 0 SEEK_END (int (hs ! Suc h))))
         (\<lambda>_. bindc (get_db chainoff) (\<lambda>co. bindc (get_db idxoff) (\<lambda>ioff. db_writeptr co ioff)))
         (W pi pd k hs es q qd ?H d)"
      unfolding store_append_def by (simp add: bindc_def split: outcome.split)
    also have "\<dots> = bindc (get_db chainoff) (\<lambda>co. bindc (get_db idxoff) (\<lambda>ioff. db_writeptr co ioff))
        (W pi pd k hs (es @ [e]) (ioff hs (es @ [e]) (Suc ?j)) (length (enc_dat es) + length data + 1) ?H d1)"
      unfolding bindc_exec [of "bindc _ _"] app by simp
    finally show ?thesis
      by (simp only: bindc_exec get_db_W outcome.case sel wp)
  qed
  have k1: "keep d1 = keep d" by (simp add: d1_def)
  have old: "x \<in> set (cs (Suc h)) \<Longrightarrow> e_key ((es @ [e]) ! x) \<noteq> key" for x
    using key D(8) [of "Suc h" x] h by (simp add: db_map_None nth_append h_def)
  have sel: "(es @ [e]) ! ?j = e" "(es @ [e])[?j := e] = es @ [e]" "e_key e = key" "e_data e = data"
    "e_ptr e = hs ! Suc h" "doff (es @ [e]) ?j = length (enc_dat es)" "ioff hs (es @ [e]) ?j = ioff hs es ?j"
    by (simp_all add: e_def) (simp_all add: doff_def)
  have inv2: "db_inv (nhash d) {} (hs[Suc h := ioff hs es ?j]) (es @ [e]) (cs(Suc h := ?j # cs (Suc h)))"
    using inv_push [OF inv1, of "Suc h" e] h off oke old by (simp add: sel h_def)
  have map2: "db_map (nhash d) (es @ [e]) (cs(Suc h := ?j # cs (Suc h))) = (db_map (nhash d) es cs)(key \<mapsto> data)"
    using map_push [OF inv1, of "Suc h" e] h map1 by (simp add: sel h_def)
  have "length (idx_file (hs[Suc h := ioff hs es ?j]) (es @ [e])) = length (idx_file hs es) + length (enc_entry (length (enc_dat es)) e)"
    using length_enc_hdr [OF G(3)] length_enc_hdr [OF db_invD(3) [OF inv2]]
    by (simp add: idx_file_def enc_idx_append hlen_def)
  also have "\<dots> \<le> length (idx_file hs es) + 1035"
    using length_enc_entry [OF oke] length_body_bounds [OF oke] by simp
  finally show ?thesis using eq k1 inv2 map2 by blast
qed

section \<open>A record of the free list used again\<close>

lemma store_reuse_W:
  assumes ok: "good pi pd k hs es cs H d" and key: "db_map (nhash d) es cs key = None"
    and st: "storable key data" and cs: "cs 0 = as @ j # bs"
    and f: "fits (length key) (length data) (es ! j)" and l: "l = prev_loc (Head 0) as"
  defines "h \<equiv> db_hash (nhash d) key"
  defines "hs1 \<equiv> set_heads l (e_ptr (es ! j)) hs" and "es1 \<equiv> set_links l (e_ptr (es ! j)) es"
  assumes co: "chainoff d = int (7 * Suc h)"
  shows "\<exists>hs' es' cs' q' qd' d'.
       store_reuse key data (int (hs ! Suc h)) (W pi pd k hs1 es1 q qd ((idxfd d, knd, chainoff d, 1) # H)
           (loaded (ioff hs es j) (doff es j) (es ! j) d))
         = Ret () (W pi pd k hs' es' q' qd' ((idxfd d, knd, chainoff d, 1) # H) d')
       \<and> keep d' = keep d \<and> db_inv (nhash d) {} hs' es' cs'
       \<and> db_map (nhash d) es' cs' = (db_map (nhash d) es cs)(key \<mapsto> data)
       \<and> length (idx_file hs' es') = length (idx_file hs es)"
proof -
  note G = goodD [OF ok]
  note D = db_invD [OF G(5)]
  have h: "h < nhash d" unfolding h_def by (rule db_hash_less [OF G(8)])
  have jl: "j < length es" using D(8) [of 0 j] cs by simp
  let ?v = "e_ptr (es ! j)" and ?H = "(idxfd d, knd, chainoff d, 1) # H"
  let ?ko = "ioff hs es j" and ?do = "doff es j"
  have v: "?v \<le> 9999999" using D(4) jl by (auto intro: ok_entries_ptr)
  have inv1: "db_inv (nhash d) {j} hs1 es1 (cs(0 := as @ bs))"
    unfolding hs1_def es1_def using inv_unlink [OF G(5) _ cs refl l] by simp
  note D1 = db_invD [OF inv1]
  have map1: "db_map (nhash d) es1 (cs(0 := as @ bs)) = db_map (nhash d) es cs"
    using map_unlink [OF G(5) _ cs] by (simp add: es1_def)
  have o1: "ioff hs1 es1 x = ioff hs es x" for x unfolding hs1_def es1_def by (rule ioff_set [OF D(4) v])
  have f1: "doff es1 x = doff es x" for x unfolding es1_def by (rule doff_shape) simp
  have len1: "length es1 = length es" "length hs1 = length hs" by (simp_all add: es1_def hs1_def)
  have hd: "hs1 ! Suc h = hs ! Suc h"
    using prev_loc_in [of "Head 0" as] l by (cases l) (auto simp: hs1_def)
  have p: "hs ! Suc h \<le> 9999999" using D(2,3) h by (simp add: ok_heads_def)
  have lk: "length key = length (e_key (es1 ! j))" "length data = length (e_data (es1 ! j))"
    using f by (simp_all add: fits_def es1_def)
  define e where "e = \<lparr>e_ptr = hs ! Suc h, e_key = key, e_data = data\<rparr>"
  have e_sel: "e_ptr e = hs ! Suc h" "e_key e = key" "e_data e = data" by (simp_all add: e_def)
  have okj: "ok_entry (doff es1 j) (es1 ! j)" using D1(4) jl len1 by (simp add: ok_entries_def)
  have oke: "ok_entry ?do e"
    using okj st p lk by (simp add: ok_entry_def rec_body_def storable_def e_def f1)
  define es2 where "es2 = es1[j := (es1 ! j)\<lparr>e_data := data\<rparr>]"
  have okd: "ok_entry (doff es1 j) ((es1 ! j)\<lparr>e_data := data\<rparr>)"
    using okj st lk by (simp add: ok_entry_def rec_body_def storable_def)
  have ok2: "ok_entries es2" unfolding es2_def by (rule ok_entries_update [OF D1(4) okd]) (simp add: lk)
  have sh2: "shape es2 = shape es1" unfolding es2_def by (rule shape_update) (simp_all add: lk)
  have o2: "ioff hs1 es2 x = ioff hs es x" for x
    using ioff_shape [OF sh2 ok2 D1(4) refl] o1 by simp
  have f2: "doff es2 x = doff es x" for x using doff_shape [OF sh2] f1 by simp
  have es2_sel: "length es2 = length es" "es2[j := e] = es1[j := e]" "e_key (es2 ! j) = e_key (es1 ! j)"
    "e_data (es2 ! j) = data"
    using jl len1 by (simp_all add: es2_def)
  define d1 where "d1 = (loaded ?ko ?do (es ! j) d)"
  have d1_sel: "datoff d1 = int ?do" "datlen d1 = int (length data) + 1" "idxoff d1 = int ?ko"
    "chainoff d1 = int (7 * Suc h)" "idxfd d1 = idxfd d"
    using f co by (simp_all add: d1_def fits_def)
  have same: "d1\<lparr>datoff := int ?do, datlen := int (length data) + 1\<rparr> = d1"
    using d1_sel(1,2) by (intro DB.equality) simp_all
  have base: "ok_base pi pd k (idxfd d1) (datfd d1)" using G(2) by (simp add: d1_def)
  have wd: "db_writedat data (int ?do) SEEK_SET (W pi pd k hs1 es1 q qd H' d1)
      = Ret () (W pi pd k hs1 es2 q (?do + length data + 1) H' d1)" for q qd H'
    using writedat_W [OF base _ _ lk(2), of "int ?do" hs1 q qd H'] jl
    by (simp add: len1 f1 es2_def same [simplified])
  have ws: "db_writeidx key (int ?ko) SEEK_SET (int (hs ! Suc h)) (W pi pd k hs1 es2 q qd H' d1)
      = Ret () (W pi pd k hs1 (es1[j := e]) (ioff hs es (Suc j)) qd H' (written ?ko ?do e d1))" for q qd H'
    using writeidx_W [OF base D1(3) ok2, of j e "int ?ko" q qd H'] oke jl
    by (simp add: o2 f2 e_sel es2_sel d1_sel lk)
  have le: "length (e_key e) = length (e_key (es1 ! j))" "length (e_data e) = length (e_data (es1 ! j))"
    using lk by (simp_all add: e_sel)
  have ok3: "ok_entries (es1[j := e])"
    by (rule ok_entries_update [OF D1(4)]) (use oke le f1 in simp_all)
  have sh3: "shape (es1[j := e]) = shape es1" by (rule shape_update [OF le])
  have off: "?ko \<le> 9999999"
  proof -
    have "get_ptr hs es (prev_loc (Head 0) as) = ?ko" using chain_split D(5) [of 0] cs by (metis le0)
    then show ?thesis
      using get_ptr_bound [OF D(3,4) ok_prev_loc [OF G(5) _ cs]] by simp
  qed
  have wp: "db_writeptr (int (7 * Suc h)) (int ?ko) (W pi pd k hs1 (es1[j := e]) q qd H' (written ?ko ?do e d1))
      = Ret () (W pi pd k (hs1[Suc h := ?ko]) (es1[j := e]) (7 * Suc h + 7) qd H' (written ?ko ?do e d1))" for q qd H'
    using writeptr_W [of pi pd k "written ?ko ?do e d1" hs1 "es1[j := e]" "Head (Suc h)" "int (7 * Suc h)" ?ko]
      base D1(2,3) ok3 h off len1 by simp
  have eq: "store_reuse key data (int (hs ! Suc h)) (W pi pd k hs1 es1 q qd ?H d1)
      = Ret () (W pi pd k (hs1[Suc h := ?ko]) (es1[j := e]) (7 * Suc h + 7) (?do + length data + 1) ?H
          (written ?ko ?do e d1))"
    unfolding store_reuse_def
    by (simp add: bindc_exec get_db_W d1_sel wd ws wp del: of_nat_Suc of_nat_mult mult_Suc_right)
  have old: "x \<in> set (cs (Suc h)) \<Longrightarrow> e_key (es1 ! x) \<noteq> key" for x
    using key by (simp add: db_map_None h_def es1_def)
  have inv2: "db_inv (nhash d) {} (hs1[Suc h := ?ko]) (es1[j := e]) ((cs(0 := as @ bs))(Suc h := j # cs (Suc h)))"
    using inv_push [OF inv1, of "Suc h" e] h off oke old jl le hd by (simp add: o1 f1 e_sel h_def len1)
  have map2: "db_map (nhash d) (es1[j := e]) ((cs(0 := as @ bs))(Suc h := j # cs (Suc h)))
      = (db_map (nhash d) es cs)(key \<mapsto> data)"
    using map_push [OF inv1, of "Suc h" e] h map1 jl by (simp add: e_sel h_def len1)
  have "length (idx_file (hs1[Suc h := ?ko]) (es1[j := e])) = length (idx_file hs es)"
    by (rule idx_file_len_shape [OF G(5) inv2]) (simp add: sh3, simp add: es1_def)
  moreover have "keep (written ?ko ?do e d1) = keep d" by (simp add: d1_def)
  ultimately show ?thesis using eq inv2 map2 unfolding d1_def by blast
qed

end
