(* ===== verification/Db_Correct.thy ===== *)
theory Db_Correct
  imports Db_Update
begin

text \<open>
  The operations of the library against their specification: a database stands for a map from
  keys to data, and every operation returns what the map says and leaves a database that stands
  for the updated map, with the record locks it took released.
\<close>

definition db_rep :: "string \<Rightarrow> string \<Rightarrow> (string \<Rightarrow> string option) \<Rightarrow> dbst \<Rightarrow> bool" where
  "db_rep pi pd M s \<longleftrightarrow> (\<exists>k hs es cs q qd H d. s = W pi pd k hs es q qd H d
     \<and> good pi pd k hs es cs H d \<and> M = db_map (nhash d) es cs)"

definition idx_size :: "dbst \<Rightarrow> nat" where
  "idx_size s = idx_fuel s - 1"

text \<open>What every operation leaves alone: the locks held, all other files, the descriptors.\<close>

definition frame :: "string \<Rightarrow> string \<Rightarrow> dbst \<Rightarrow> dbst \<Rightarrow> bool" where
  "frame pi pd s s' \<longleftrightarrow> held (kern s') = held (kern s)
     \<and> (\<forall>p. p \<noteq> pi \<longrightarrow> p \<noteq> pd \<longrightarrow> disk (kern s') p = disk (kern s) p)
     \<and> idxfd (db s') = idxfd (db s) \<and> datfd (db s') = datfd (db s) \<and> nhash (db s') = nhash (db s)"

lemma frameI:
  assumes "keep d' = keep d \<or> idxfd d' = idxfd d \<and> datfd d' = datfd d \<and> nhash d' = nhash d"
    and "disk k' = disk k"
  shows "frame pi pd (W pi pd k hs es q qd H d) (W pi pd k' hs' es' q' qd' H d')"
  using assms keep_sel [of d' d] by (auto simp: frame_def W_def world_def)

lemma idx_size_W [simp]:
  "ok_base pi pd k (idxfd d) (datfd d) \<Longrightarrow> idx_size (W pi pd k hs es q qd H d) = length (idx_file hs es)"
  by (simp add: idx_size_def)

lemma db_repE:
  assumes "db_rep pi pd M s"
  obtains k hs es cs q qd H d where "s = W pi pd k hs es q qd H d" "good pi pd k hs es cs H d"
    "M = db_map (nhash d) es cs"
  using assms unfolding db_rep_def by blast

lemma db_repI:
  "good pi pd k hs es cs H d \<Longrightarrow> M = db_map (nhash d) es cs \<Longrightarrow> db_rep pi pd M (W pi pd k hs es q qd H d)"
  unfolding db_rep_def by blast

text \<open>\<open>good\<close> after an operation that kept the descriptors.\<close>

lemma good_new:
  assumes "good pi pd k hs es cs H d" and "db_inv (nhash d) {} hs' es' cs'"
    and "idxfd d' = idxfd d" "datfd d' = datfd d" "nhash d' = nhash d" "hashoff d' = hashoff d"
  shows "good pi pd k hs' es' cs' H d'"
  using assms db_invD(3,4) [OF assms(2)] by (simp add: good_def okW_def)

lemma keep_chain:
  assumes "keep d' = keep (d\<lparr>chainoff := co\<rparr>)"
  shows "idxfd d' = idxfd d" "datfd d' = datfd d" "nhash d' = nhash d" "hashoff d' = hashoff d"
    "chainoff d' = co"
  using keep_sel [OF assms] by simp_all

lemma find_index:
  assumes "db_inv n {} hs es cs" and "db_map n es cs key = Some v"
  obtains as j bs where "cs (Suc (db_hash n key)) = as @ j # bs" "e_key (es ! j) = key"
    "e_data (es ! j) = v" "j < length es"
proof -
  from assms(2) obtain j where j: "j \<in> set (cs (Suc (db_hash n key)))" "e_key (es ! j) = key"
    "e_data (es ! j) = v" by (rule db_map_SomeE)
  have "Suc (db_hash n key) \<le> n" using db_hash_less db_invD(1) [OF assms(1)] by (simp add: Suc_le_eq)
  with j(1) db_invD(8) [OF assms(1)] have "j < length es" by blast
  with j that split_list [OF j(1)] show ?thesis by blast
qed

lemma unlock_chain_good:
  assumes "good pi pd k hs0 es0 cs0 H d0" and "idxfd d = idxfd d0" and "datfd d = datfd d0"
    and "chainoff d = co" and "fi = idxfd d0"
  shows "unlock_chain msg (W pi pd k hs es q qd ((fi, knd, co, 1) # H) d) = Ret () (W pi pd k hs es q qd H d)"
  using unlock_chain_W [of pi pd k d H co] goodD(2,7) [OF assms(1)] assms(2-5) by simp

section \<open>Fetch\<close>

lemma fetch_rep:
  assumes "db_rep pi pd M s"
  shows "\<exists>s'. db_fetch key s = Ret (M key) s' \<and> db_rep pi pd M s' \<and> frame pi pd s s'
           \<and> disk (kern s') = disk (kern s) \<and> idx_size s' = idx_size s"
  using assms
proof (rule db_repE)
  fix k hs es cs q qd H d
  assume s: "s = W pi pd k hs es q qd H d" and ok: "good pi pd k hs es cs H d"
    and M: "M = db_map (nhash d) es cs"
  note G = goodD [OF ok]
  let ?co = "int (7 * Suc (db_hash (nhash d) key))"
  have fin: "\<exists>s'. Ret r (W pi pd k hs es q' qd' H d') = Ret r s' \<and> db_rep pi pd M s' \<and> frame pi pd s s'
           \<and> disk (kern s') = disk (kern s) \<and> idx_size s' = idx_size s"
    if "idxfd d' = idxfd d" "datfd d' = datfd d" "nhash d' = nhash d" "hashoff d' = hashoff d" for r :: "string option" and q' qd' d'
  proof (intro exI conjI refl)
    show "db_rep pi pd M (W pi pd k hs es q' qd' H d')"
      using good_new [OF ok G(5) that] M that by (intro db_repI) simp_all
    show "frame pi pd s (W pi pd k hs es q' qd' H d')" unfolding s using that by (intro frameI) simp_all
    show "disk (kern (W pi pd k hs es q' qd' H d')) = disk (kern s)" by (simp add: s W_def world_def)
    show "idx_size (W pi pd k hs es q' qd' H d') = idx_size s" using G(2) that by (simp add: s)
  qed simp
  show ?thesis
  proof (cases "M key")
    case None
    with find_and_lock_absent [OF ok, of key False q qd] M obtain q' d' where
      f: "db_find_and_lock key False s = Ret (-1) (W pi pd k hs es q' qd (locked key False d H) d')"
      and kd: "keep d' = keep (d\<lparr>chainoff := ?co\<rparr>)" unfolding s by auto
    note K = keep_chain [OF kd]
    let ?d = "d'\<lparr>cnt_fetcherr := cnt_fetcherr d' + 1\<rparr>"
    have "db_fetch key s = Ret None (W pi pd k hs es q' qd H ?d)"
      unfolding db_fetch_def
      by (simp add: bindc_exec f set_db_W unlock_chain_good [OF ok] K del: of_nat_Suc of_nat_mult mult_Suc_right)
    with fin [of ?d] K None show ?thesis by simp
  next
    case (Some v)
    with M obtain as j bs where j: "cs (Suc (db_hash (nhash d) key)) = as @ j # bs" "e_key (es ! j) = key"
      "e_data (es ! j) = v" "j < length es" by (metis find_index [OF G(5)])
    from find_and_lock_found [OF ok j(1,2), of False q qd] obtain q' d' where
      f: "db_find_and_lock key False s = Ret 0 (W pi pd k hs es q' qd (locked key False d H) (loaded (ioff hs es j) (doff es j) (es ! j) d'))"
      and kd: "keep d' = keep (d\<lparr>chainoff := ?co\<rparr>)" unfolding s by auto
    note K = keep_chain [OF kd]
    let ?l = "loaded (ioff hs es j) (doff es j) (es ! j) d'"
    have rd: "db_readdat (W pi pd k hs es q' qd H' ?l)
        = Ret v (W pi pd k hs es q' (doff es (Suc j)) H' (?l\<lparr>datbuf := v @ [NUL]\<rparr>))" for H'
      using readdat_W [of pi pd k ?l es j hs q' qd H'] G(2,4) j K by simp
    let ?d = "(?l\<lparr>datbuf := v @ [NUL]\<rparr>)\<lparr>cnt_fetchok := cnt_fetchok (?l\<lparr>datbuf := v @ [NUL]\<rparr>) + 1\<rparr>"
    have "db_fetch key s = Ret (Some v) (W pi pd k hs es q' (doff es (Suc j)) H ?d)"
      unfolding db_fetch_def
      by (simp add: bindc_exec f rd set_db_W unlock_chain_good [OF ok] K del: of_nat_Suc of_nat_mult mult_Suc_right)
    with fin [of ?d] K Some show ?thesis by simp
  qed
qed


section \<open>Delete\<close>

text \<open>What is left to show at the end of an operation that changed the files.\<close>

lemma rep_finish:
  assumes ok: "good pi pd k hs es cs H d" and inv: "db_inv (nhash d) {} hs' es' cs'"
    and sel: "idxfd d' = idxfd d" "datfd d' = datfd d" "nhash d' = nhash d" "hashoff d' = hashoff d"
    and M: "M = db_map (nhash d) es' cs'"
    and k': "disk k' = disk k" "ok_base pi pd k' (idxfd d) (datfd d)"
  shows "db_rep pi pd M (W pi pd k' hs' es' q' qd' H d')
    \<and> frame pi pd (W pi pd k hs es q qd H d) (W pi pd k' hs' es' q' qd' H d')
    \<and> idx_size (W pi pd k' hs' es' q' qd' H d') = length (idx_file hs' es')"
proof (intro conjI)
  have "good pi pd k' hs' es' cs' H d'"
    using good_new [OF ok inv sel] k' sel by (simp add: good_def okW_def)
  then show "db_rep pi pd M (W pi pd k' hs' es' q' qd' H d')" using M sel by (intro db_repI) simp_all
  show "frame pi pd (W pi pd k hs es q qd H d) (W pi pd k' hs' es' q' qd' H d')"
    by (rule frameI) (use sel k' in simp_all)
qed (use k' sel in simp)

abbreviation wlocked :: "string \<Rightarrow> DB \<Rightarrow> lock list \<Rightarrow> lock list" where
  "wlocked key d H \<equiv> (idxfd d, F_WRLCK, int (7 * Suc (db_hash (nhash d) key)), 1) # H"

lemma delete_found:
  assumes ok: "good pi pd k hs es cs H d" and key: "db_map (nhash d) es cs key = Some v"
    and cs: "cs (Suc (db_hash (nhash d) key)) = as @ j # bs" and ek: "e_key (es ! j) = key"
    and kd: "keep d' = keep (d\<lparr>chainoff := int (7 * Suc (db_hash (nhash d) key))\<rparr>)"
    and po: "ptroff d' = int (loc_off hs es (prev_loc (Head (Suc (db_hash (nhash d) key))) as))"
  shows "\<exists>q' qd' d'' hs' es' cs'.
       db_dodelete (W pi pd k hs es q qd (wlocked key d H) (loaded (ioff hs es j) (doff es j) (es ! j) d'))
       = Ret () (W pi pd k hs' es' q' qd' (wlocked key d H) d'')
     \<and> keep d'' = keep d' \<and> db_inv (nhash d) {} hs' es' cs'
     \<and> db_map (nhash d) es' cs' = (db_map (nhash d) es cs)(key := None)
     \<and> length (idx_file hs' es') = length (idx_file hs es)"
proof -
  note G = goodD [OF ok] and K = keep_chain [OF kd]
  let ?h = "db_hash (nhash d) key"
  let ?l = "prev_loc (Head (Suc ?h)) as"
  have h: "?h < nhash d" by (rule db_hash_less [OF G(8)])
  have ok': "good pi pd k hs es cs H d'" using good_new [OF ok G(5) K(1-4)] .
  have co: "int (7 * Suc ?h) \<noteq> 0" by simp
  from dodelete_W [OF ok' _ cs refl po co, of q qd F_WRLCK] h obtain q' qd' d'' where
    del: "db_dodelete (W pi pd k hs es q qd (wlocked key d H) (loaded (ioff hs es j) (doff es j) (es ! j) d'))
       = Ret () (W pi pd k (heads_del ?l j hs es) (entries_del ?l j hs es) q' qd' (wlocked key d H) d'')"
      and kd': "keep d'' = keep d'" by (auto simp: K(1,3))
  note I = inv_delete [OF G(5) h cs refl]
  have "shape (entries_del ?l j hs es) = shape (set_links ?l (e_ptr (es ! j)) es)"
    unfolding entries_del_def by (rule shape_update) simp_all
  then have "length (idx_file (heads_del ?l j hs es) (entries_del ?l j hs es)) = length (idx_file hs es)"
    by (intro idx_file_len_shape [OF G(5) I(1)]) simp
  moreover have "db_map (nhash d) (entries_del ?l j hs es) ((cs(Suc ?h := as @ bs))(0 := j # cs 0))
      = (db_map (nhash d) es cs)(key := None)" using I(2) ek by simp
  ultimately show ?thesis using del kd' I(1) by blast
qed

lemma delete_rep:
  assumes "db_rep pi pd M s"
  shows "\<exists>s'. db_delete key s = Ret (if M key = None then -1 else 0) s'
           \<and> db_rep pi pd (M(key := None)) s' \<and> frame pi pd s s' \<and> idx_size s' = idx_size s"
  using assms
proof (rule db_repE)
  fix k hs es cs q qd H d
  assume s: "s = W pi pd k hs es q qd H d" and ok: "good pi pd k hs es cs H d"
    and M: "M = db_map (nhash d) es cs"
  note G = goodD [OF ok]
  let ?co = "int (7 * Suc (db_hash (nhash d) key))"
  have size: "idx_size s = length (idx_file hs es)" using G(2) by (simp add: s)
  show ?thesis
  proof (cases "M key")
    case None
    with find_and_lock_absent [OF ok, of key True q qd] M obtain q' d' where
      f: "db_find_and_lock key True s = Ret (-1) (W pi pd k hs es q' qd (wlocked key d H) d')"
      and kd: "keep d' = keep (d\<lparr>chainoff := ?co\<rparr>)" unfolding s by auto
    note K = keep_chain [OF kd]
    let ?d = "d'\<lparr>cnt_delerr := cnt_delerr d' + 1\<rparr>"
    have "db_delete key s = Ret (-1) (W pi pd k hs es q' qd H ?d)"
      unfolding db_delete_def
      by (simp add: bindc_exec f set_db_W unlock_chain_good [OF ok] K del: of_nat_Suc of_nat_mult mult_Suc_right)
    moreover have "M(key := None) = M" using None by auto
    ultimately show ?thesis
      using rep_finish [OF ok G(5), of ?d M k q' qd q qd] G(2) K M None size by (simp add: s)
  next
    case (Some v)
    with M have key: "db_map (nhash d) es cs key = Some v" by simp
    from find_index [OF G(5) key] obtain as j bs where j: "cs (Suc (db_hash (nhash d) key)) = as @ j # bs"
      "e_key (es ! j) = key" "e_data (es ! j) = v" "j < length es" .
    from find_and_lock_found [OF ok j(1,2), of True q qd] obtain q' d' where
      f: "db_find_and_lock key True s = Ret 0 (W pi pd k hs es q' qd (wlocked key d H) (loaded (ioff hs es j) (doff es j) (es ! j) d'))"
      and kd: "keep d' = keep (d\<lparr>chainoff := ?co\<rparr>)"
      and po: "ptroff d' = int (loc_off hs es (prev_loc (Head (Suc (db_hash (nhash d) key))) as))"
      unfolding s by auto
    note K = keep_chain [OF kd]
    from delete_found [OF ok key j(1,2) kd po, of q' qd] obtain q2 qd2 d2 hs' es' cs' where
      del: "db_dodelete (W pi pd k hs es q' qd (wlocked key d H) (loaded (ioff hs es j) (doff es j) (es ! j) d'))
       = Ret () (W pi pd k hs' es' q2 qd2 (wlocked key d H) d2)" "keep d2 = keep d'"
      and inv: "db_inv (nhash d) {} hs' es' cs'"
        "db_map (nhash d) es' cs' = (db_map (nhash d) es cs)(key := None)"
        "length (idx_file hs' es') = length (idx_file hs es)" by blast
    note K2 = keep_sel [OF del(2)]
    let ?d = "d2\<lparr>cnt_delok := cnt_delok d2 + 1\<rparr>"
    have "db_delete key s = Ret 0 (W pi pd k hs' es' q2 qd2 H ?d)"
      unfolding db_delete_def
      by (simp add: bindc_exec f del(1) set_db_W unlock_chain_good [OF ok] K K2 del: of_nat_Suc of_nat_mult mult_Suc_right)
    with rep_finish [OF ok inv(1), of ?d "M(key := None)" k q2 qd2 q qd] show ?thesis
      using G(2) K K2 M Some inv(2,3) size by (simp add: s)
  qed
qed

section \<open>Store\<close>

definition store_result :: "(string \<Rightarrow> string option) \<Rightarrow> string \<Rightarrow> int \<Rightarrow> int" where
  "store_result M key flag =
     (if flag \<noteq> DB_INSERT \<and> flag \<noteq> DB_REPLACE \<and> flag \<noteq> DB_STORE then -1
      else if M key = None \<and> flag = DB_REPLACE then -1
      else if M key \<noteq> None \<and> flag = DB_INSERT then 1 else 0)"

definition store_map :: "(string \<Rightarrow> string option) \<Rightarrow> string \<Rightarrow> string \<Rightarrow> int \<Rightarrow> (string \<Rightarrow> string option)" where
  "store_map M key data flag = (if store_result M key flag = 0 then M(key \<mapsto> data) else M)"

definition cfg :: "DB \<Rightarrow> int \<times> int \<times> nat \<times> int \<times> int" where
  "cfg d = (idxfd d, datfd d, nhash d, hashoff d, chainoff d)"

lemma cfg_keep: "keep d' = keep d \<Longrightarrow> cfg d' = cfg d"
  using keep_sel [of d' d] by (simp add: cfg_def)

lemma cfg_cnt [simp]: "cfg (d\<lparr>cnt_stor1 := n\<rparr>) = cfg d" "cfg (d\<lparr>cnt_stor2 := n\<rparr>) = cfg d"
    "cfg (d\<lparr>cnt_stor3 := n\<rparr>) = cfg d" "cfg (d\<lparr>cnt_stor4 := n\<rparr>) = cfg d"
    "cfg (d\<lparr>datoff := i\<rparr>) = cfg d" "cfg (d\<lparr>datlen := i\<rparr>) = cfg d"
  by (simp_all add: cfg_def)

text \<open>The result of a store that succeeded: the new parts of the state.\<close>

definition stored :: "string \<Rightarrow> string \<Rightarrow> kernel \<Rightarrow> lock list \<Rightarrow> DB \<Rightarrow> nat \<Rightarrow> (string \<Rightarrow> string option)
    \<Rightarrow> (dbst, unit) prog \<Rightarrow> dbst \<Rightarrow> bool" where
  "stored pi pd k H d n M m s \<longleftrightarrow> (\<exists>hs' es' cs' q' qd' d'. m s = Ret () (W pi pd k hs' es' q' qd' H d')
     \<and> cfg d' = cfg d \<and> db_inv (nhash d) {} hs' es' cs' \<and> db_map (nhash d) es' cs' = M
     \<and> length (idx_file hs' es') \<le> n)"

lemma storedI:
  "m s = Ret () (W pi pd k hs' es' q' qd' H d') \<Longrightarrow> cfg d' = cfg d \<Longrightarrow> db_inv (nhash d) {} hs' es' cs' \<Longrightarrow>
   db_map (nhash d) es' cs' = M \<Longrightarrow> length (idx_file hs' es') \<le> n \<Longrightarrow> stored pi pd k H d n M m s"
  unfolding stored_def by blast

lemma stored_eq: "m s = m' s' \<Longrightarrow> stored pi pd k H d n M m' s' \<Longrightarrow> stored pi pd k H d n M m s"
  by (simp add: stored_def)

lemma stored_count:
  assumes "stored pi pd k H d n M m s" and "\<And>d. cfg (f d) = cfg d"
  shows "stored pi pd k H d n M (bindc m (\<lambda>_. set_db f)) s"
proof -
  from assms(1) obtain hs' es' cs' q' qd' d' where *: "m s = Ret () (W pi pd k hs' es' q' qd' H d')"
    "cfg d' = cfg d" "db_inv (nhash d) {} hs' es' cs'" "db_map (nhash d) es' cs' = M"
    "length (idx_file hs' es') \<le> n" unfolding stored_def by blast
  have "idxfd (f d') = idxfd d'" "datfd (f d') = datfd d'" using assms(2) [of d'] by (simp_all add: cfg_def)
  then have "bindc m (\<lambda>_. set_db f) s = Ret () (W pi pd k hs' es' q' qd' H (f d'))"
    by (simp add: bindc_exec *(1) set_db_W)
  moreover have "cfg (f d') = cfg d" using *(2) assms(2) by simp
  ultimately show ?thesis using *(3-5) by (rule storedI)
qed

lemma readptr_chain:
  assumes "good pi pd k hs es cs H d" and "h < nhash d"
  shows "db_readptr (int (7 * Suc h)) (W pi pd k hs es q qd H' d)
         = Ret (int (hs ! Suc h)) (W pi pd k hs es (7 * Suc h + 7) qd H' d)"
  using readptr_W [of pi pd k d hs es "Head (Suc h)" "int (7 * Suc h)"] goodD(2-4,9) [OF assms(1)] assms(2)
  by simp

lemma store_new_W:
  assumes ok: "good pi pd k hs es cs H d" and key: "db_map (nhash d) es cs key = None"
    and st: "storable key data" and room: "length (idx_file hs es) \<le> 9999999"
    and co: "chainoff d = int (7 * Suc (db_hash (nhash d) key))"
  shows "stored pi pd k (wlocked key d H) d (length (idx_file hs es) + 1035)
           ((db_map (nhash d) es cs)(key \<mapsto> data))
           (store_new key data) (W pi pd k hs es q qd (wlocked key d H) d)"
proof -
  note G = goodD [OF ok]
  let ?h = "db_hash (nhash d) key"
  have h: "?h < nhash d" by (rule db_hash_less [OF G(8)])
  have c0: "chainoff d \<noteq> 0" using co by simp
  let ?r = "store_new key data (W pi pd k hs es q qd (wlocked key d H) d)"
  note rp = readptr_chain [OF ok h]
  consider (none) "\<forall>x \<in> set (cs 0). \<not> fits (length key) (length data) (es ! x)"
    | (some) as j bs where "cs 0 = as @ j # bs" "fits (length key) (length data) (es ! j)"
        "\<forall>x \<in> set as. \<not> fits (length key) (length data) (es ! x)"
  proof (cases "\<exists>x \<in> set (cs 0). fits (length key) (length data) (es ! x)")
    case True
    from split_list_first_prop [OF this] show thesis using some by blast
  qed (use none in blast)
  then show ?thesis
  proof cases
    case none
    from findfree_absent [OF ok none c0, of "7 * Suc ?h + 7" qd F_WRLCK] obtain q1 d1 where
      ff: "db_findfree (int (length key)) (int (length data) + 1)
           (W pi pd k hs es (7 * Suc ?h + 7) qd (wlocked key d H) d)
         = Ret (-1) (W pi pd k hs es q1 qd (wlocked key d H) d1)"
      and k1: "keep d1 = keep d" unfolding co by blast
    note K = keep_sel [OF k1]
    have ok1: "good pi pd k hs es cs H d1" using good_new [OF ok G(5) K(1-4)] .
    from store_append_W [OF ok1 _ st room, of q1 qd F_WRLCK] key co
    obtain hs' es' cs' q' qd' d' where
      ap: "store_append key data (int (hs ! Suc ?h)) (W pi pd k hs es q1 qd (wlocked key d H) d1)
       = Ret () (W pi pd k hs' es' q' qd' (wlocked key d H) d')" "keep d' = keep d1"
      "db_inv (nhash d) {} hs' es' cs'" "db_map (nhash d) es' cs' = (db_map (nhash d) es cs)(key \<mapsto> data)"
      "length (idx_file hs' es') \<le> length (idx_file hs es) + 1035"
      unfolding K co by blast
    have "stored pi pd k (wlocked key d H) d (length (idx_file hs es) + 1035)
        ((db_map (nhash d) es cs)(key \<mapsto> data))
        (store_append key data (int (hs ! Suc ?h))) (W pi pd k hs es q1 qd (wlocked key d H) d1)"
    proof (rule storedI, fact ap(1))
      show "cfg d' = cfg d" using cfg_keep [OF ap(2)] cfg_keep [OF k1] by simp
    qed (use ap in simp_all)
    note sc = stored_count [OF this, of "\<lambda>d. d\<lparr>cnt_stor1 := cnt_stor1 d + 1\<rparr>"]
    show ?thesis
      by (rule stored_eq [OF _ sc [OF cfg_cnt(1)]]) (simp add: store_new_def bindc_exec [of "get_db _"] bindc_exec [of "db_readptr _"] bindc_exec [of "db_findfree _ _"]
          get_db_W co rp ff del: of_nat_Suc of_nat_mult mult_Suc_right)
  next
    case some
    let ?l = "prev_loc (Head 0) as"
    let ?hs = "set_heads ?l (e_ptr (es ! j)) hs" and ?es = "set_links ?l (e_ptr (es ! j)) es"
    from findfree_found [OF ok some c0 refl, of "7 * Suc ?h + 7" qd F_WRLCK] obtain q1 d1 where
      ff: "db_findfree (int (length key)) (int (length data) + 1)
           (W pi pd k hs es (7 * Suc ?h + 7) qd (wlocked key d H) d)
         = Ret 0 (W pi pd k ?hs ?es q1 qd (wlocked key d H) (loaded (ioff hs es j) (doff es j) (es ! j) d1))"
      and k1: "keep d1 = keep d" unfolding co by blast
    note K = keep_sel [OF k1]
    have ok1: "good pi pd k hs es cs H d1" using good_new [OF ok G(5) K(1-4)] .
    from store_reuse_W [OF ok1 _ st some(1,2) refl, of q1 qd F_WRLCK] key co
    obtain hs' es' cs' q' qd' d' where
      ap: "store_reuse key data (int (hs ! Suc ?h)) (W pi pd k ?hs ?es q1 qd (wlocked key d H)
          (loaded (ioff hs es j) (doff es j) (es ! j) d1))
       = Ret () (W pi pd k hs' es' q' qd' (wlocked key d H) d')" "keep d' = keep d1"
      "db_inv (nhash d) {} hs' es' cs'" "db_map (nhash d) es' cs' = (db_map (nhash d) es cs)(key \<mapsto> data)"
      "length (idx_file hs' es') = length (idx_file hs es)"
      unfolding K co by blast
    have "stored pi pd k (wlocked key d H) d (length (idx_file hs es) + 1035)
        ((db_map (nhash d) es cs)(key \<mapsto> data))
        (store_reuse key data (int (hs ! Suc ?h))) (W pi pd k ?hs ?es q1 qd (wlocked key d H)
          (loaded (ioff hs es j) (doff es j) (es ! j) d1))"
    proof (rule storedI, fact ap(1))
      show "cfg d' = cfg d" using cfg_keep [OF ap(2)] cfg_keep [OF k1] by simp
    qed (use ap in simp_all)
    note sc = stored_count [OF this, of "\<lambda>d. d\<lparr>cnt_stor2 := cnt_stor2 d + 1\<rparr>"]
    show ?thesis
      by (rule stored_eq [OF _ sc [OF cfg_cnt(2)]]) (simp add: store_new_def bindc_exec [of "get_db _"] bindc_exec [of "db_readptr _"] bindc_exec [of "db_findfree _ _"]
          get_db_W co rp ff del: of_nat_Suc of_nat_mult mult_Suc_right)
  qed
qed


lemma store_replace_W:
  assumes ok: "good pi pd k hs es cs H d" and key: "db_map (nhash d) es cs key = Some v"
    and cs: "cs (Suc (db_hash (nhash d) key)) = as @ j # bs" and ek: "e_key (es ! j) = key"
    and st: "storable key data" and room: "length (idx_file hs es) \<le> 9999999"
    and kd: "keep d' = keep (d\<lparr>chainoff := int (7 * Suc (db_hash (nhash d) key))\<rparr>)"
    and po: "ptroff d' = int (loc_off hs es (prev_loc (Head (Suc (db_hash (nhash d) key))) as))"
  shows "stored pi pd k (wlocked key d H) d' (length (idx_file hs es) + 1035)
           ((db_map (nhash d) es cs)(key \<mapsto> data))
           (store_replace key data) (W pi pd k hs es q qd (wlocked key d H)
             (loaded (ioff hs es j) (doff es j) (es ! j) d'))"
proof -
  note G = goodD [OF ok] and K = keep_chain [OF kd]
  let ?h = "db_hash (nhash d) key" and ?d = "loaded (ioff hs es j) (doff es j) (es ! j) d'"
  have h: "?h < nhash d" by (rule db_hash_less [OF G(8)])
  have j: "j \<in> set (cs (Suc ?h))" using cs by simp
  have jl: "j < length es" using db_invD(8) [OF G(5) _ j] h by simp
  show ?thesis
  proof (cases "length data = length (e_data (es ! j))")
    case True
    have dat: "ok_data data" using st by (simp add: storable_def)
    note I = inv_data [OF G(5) h j dat True]
    have base: "ok_base pi pd k (idxfd ?d) (datfd ?d)" using G(2) K by simp
    let ?es = "es[j := (es ! j)\<lparr>e_data := data\<rparr>]"
    have wd: "db_writedat data (int (doff es j)) SEEK_SET (W pi pd k hs es q qd (wlocked key d H) ?d)
      = Ret () (W pi pd k hs ?es q (doff es j + length data + 1) (wlocked key d H)
          (?d\<lparr>datoff := int (doff es j), datlen := int (length data) + 1\<rparr>))"
      by (rule writedat_W [OF base jl refl True])
    have sh: "shape ?es = shape es" by (rule shape_update) (simp_all add: True)
    have "stored pi pd k (wlocked key d H) d' (length (idx_file hs es) + 1035)
        ((db_map (nhash d) es cs)(key \<mapsto> data))
        (db_writedat data (int (doff es j)) SEEK_SET) (W pi pd k hs es q qd (wlocked key d H) ?d)"
    proof (rule storedI)
      show "db_writedat data (int (doff es j)) SEEK_SET (W pi pd k hs es q qd (wlocked key d H) ?d)
        = Ret () (W pi pd k hs ?es q (doff es j + length data + 1) (wlocked key d H)
          (?d\<lparr>datoff := int (doff es j), datlen := int (length data) + 1\<rparr>))" by (rule wd)
      show "cfg (?d\<lparr>datoff := int (doff es j), datlen := int (length data) + 1\<rparr>) = cfg d'"
        by (simp add: cfg_def)
    qed (use I ek idx_file_len_shape [OF G(5) I(1) sh] in \<open>simp_all add: K\<close>)
    note sc = stored_count [OF this, of "\<lambda>d. d\<lparr>cnt_stor4 := cnt_stor4 d + 1\<rparr>"]
    show ?thesis
      by (rule stored_eq [OF _ sc [OF cfg_cnt(4)]]) (simp add: store_replace_def bindc_exec [of "get_db _"] get_db_W True)
  next
    case False
    from delete_found [OF ok key cs ek kd po, of q qd] obtain q2 qd2 d2 hs' es' cs' where
      del: "db_dodelete (W pi pd k hs es q qd (wlocked key d H) ?d)
       = Ret () (W pi pd k hs' es' q2 qd2 (wlocked key d H) d2)" and k2: "keep d2 = keep d'"
      and inv: "db_inv (nhash d) {} hs' es' cs'"
        "db_map (nhash d) es' cs' = (db_map (nhash d) es cs)(key := None)"
        "length (idx_file hs' es') = length (idx_file hs es)" by blast
    note K2 = keep_sel [OF k2]
    have ok2: "good pi pd k hs' es' cs' H d2"
      using good_new [OF ok inv(1)] K K2 by simp
    have co: "chainoff d2 = int (7 * Suc ?h)" using K2 K by simp
    have rp: "db_readptr (int (7 * Suc ?h)) (W pi pd k hs' es' q2 qd2 (wlocked key d H) d2)
        = Ret (int (hs' ! Suc ?h)) (W pi pd k hs' es' (7 * Suc ?h + 7) qd2 (wlocked key d H) d2)"
      by (rule readptr_chain [OF ok2]) (simp add: K K2 h)
    have key2: "db_map (nhash d2) es' cs' key = None" using inv(2) K K2 by simp
    have room2: "length (idx_file hs' es') \<le> 9999999" using room inv(3) by simp
    from store_append_W [OF ok2 key2 st room2, of "7 * Suc ?h + 7" qd2 F_WRLCK] co
    obtain hs3 es3 cs3 q3 qd3 d3 where
      ap: "store_append key data (int (hs' ! Suc ?h)) (W pi pd k hs' es' (7 * Suc ?h + 7) qd2 (wlocked key d H) d2)
       = Ret () (W pi pd k hs3 es3 q3 qd3 (wlocked key d H) d3)" "keep d3 = keep d2"
      "db_inv (nhash d) {} hs3 es3 cs3" "db_map (nhash d) es3 cs3 = (db_map (nhash d) es' cs')(key \<mapsto> data)"
      "length (idx_file hs3 es3) \<le> length (idx_file hs' es') + 1035"
      unfolding K2 K co by blast
    have "stored pi pd k (wlocked key d H) d' (length (idx_file hs es) + 1035)
        ((db_map (nhash d) es cs)(key \<mapsto> data))
        (store_append key data (int (hs' ! Suc ?h))) (W pi pd k hs' es' (7 * Suc ?h + 7) qd2 (wlocked key d H) d2)"
    proof (rule storedI, fact ap(1))
      show "cfg d3 = cfg d'" using cfg_keep [OF ap(2)] cfg_keep [OF k2] by simp
    qed (use ap inv in \<open>simp_all add: K\<close>)
    note sc = stored_count [OF this, of "\<lambda>d. d\<lparr>cnt_stor3 := cnt_stor3 d + 1\<rparr>"]
    show ?thesis
      by (rule stored_eq [OF _ sc [OF cfg_cnt(3)]]) (simp add: store_replace_def False bindc_exec [of "get_db _"] bindc_exec [of "db_dodelete"] bindc_exec [of "db_readptr _"]
          get_db_W del co rp del: of_nat_Suc of_nat_mult mult_Suc_right)
  qed
qed

lemma store_rep:
  assumes "db_rep pi pd M s" and st: "storable key data" and room: "idx_size s \<le> 9999999"
  shows "\<exists>s'. db_store key data flag s = Ret (store_result M key flag) s'
           \<and> db_rep pi pd (store_map M key data flag) s' \<and> frame pi pd s s'
           \<and> idx_size s' \<le> idx_size s + 1035"
  using assms(1)
proof (rule db_repE)
  fix k hs es cs q qd H d
  assume s: "s = W pi pd k hs es q qd H d" and ok: "good pi pd k hs es cs H d"
    and M: "M = db_map (nhash d) es cs"
  note G = goodD [OF ok]
  let ?co = "int (7 * Suc (db_hash (nhash d) key))"
  have size: "idx_size s = length (idx_file hs es)" using G(2) by (simp add: s)
  have room': "length (idx_file hs es) \<le> 9999999" using room size by simp
  have len: "\<not> (int (length data) + 1 < DATLEN_MIN \<or> DATLEN_MAX < int (length data) + 1)"
    using st by (cases data) (auto simp: storable_def ok_data_def DATLEN_MIN_def DATLEN_MAX_def)
  have errno: "ok_base pi pd (k\<lparr>errno := e\<rparr>) (idxfd d) (datfd d)" "disk (k\<lparr>errno := e\<rparr>) = disk k" for e
    using G(2) by simp_all
  have se: "set_errno e (W pi pd k hs es q qd H d) = Ret () (W pi pd (k\<lparr>errno := e\<rparr>) hs es q qd H d)" for e q qd H d
    by (simp add: W_def exec)
  let ?goal = "\<lambda>r M' u. \<exists>s'. u = Ret r s' \<and> db_rep pi pd M' s' \<and> frame pi pd s s' \<and> idx_size s' \<le> idx_size s + 1035"
  have fin: "?goal r M' (Ret r (W pi pd k' hs' es' q' qd' H d'))"
    if "db_inv (nhash d) {} hs' es' cs'" "idxfd d' = idxfd d" "datfd d' = datfd d" "nhash d' = nhash d"
      "hashoff d' = hashoff d" "db_map (nhash d) es' cs' = M'" "disk k' = disk k"
      "ok_base pi pd k' (idxfd d) (datfd d)" "length (idx_file hs' es') \<le> length (idx_file hs es) + 1035"
    for r :: int and M' k' hs' es' cs' q' qd' d'
    using rep_finish [OF ok that(1-5) that(6) [symmetric] that(7,8), of q' qd' q qd] that(9) size by (auto simp: s)
  have unl: "?goal r M' (bindc (bindc m (\<lambda>_. ret r))
       (\<lambda>rc. bindc (unlock_chain msg) (\<lambda>_. ret rc)) t)"
    if st: "stored pi pd k (wlocked key d H) d0 (length (idx_file hs es) + 1035) M' m t"
      and d0: "idxfd d0 = idxfd d" "datfd d0 = datfd d" "nhash d0 = nhash d" "hashoff d0 = hashoff d" "chainoff d0 = ?co"
    for r :: int and M' m msg t d0
  proof -
    from st obtain hs' es' cs' q' qd' d' where *: "m t = Ret () (W pi pd k hs' es' q' qd' (wlocked key d H) d')"
      "cfg d' = cfg d0" "db_inv (nhash d0) {} hs' es' cs'" "db_map (nhash d0) es' cs' = M'"
      "length (idx_file hs' es') \<le> length (idx_file hs es) + 1035" unfolding stored_def by blast
    have "idxfd d' = idxfd d" "datfd d' = datfd d" "nhash d' = nhash d" "hashoff d' = hashoff d" "chainoff d' = ?co"
      using *(2) d0 by (simp_all add: cfg_def)
    with fin [of hs' es' cs' d' M' k r q' qd'] * d0 G(2) show ?thesis
      by (simp add: bindc_exec unlock_chain_good [OF ok] del: of_nat_Suc of_nat_mult mult_Suc_right)
  qed
  show ?thesis
  proof (cases "flag \<noteq> DB_INSERT \<and> flag \<noteq> DB_REPLACE \<and> flag \<noteq> DB_STORE")
    case True
    then have "db_store key data flag s = Ret (-1) (W pi pd (k\<lparr>errno := EINVAL\<rparr>) hs es q qd H d)"
      unfolding db_store_def by (simp add: bindc_exec se s)
    with fin [OF G(5) refl refl refl refl M [symmetric] errno(2,1)] True show ?thesis
      by (simp add: store_map_def store_result_def)
  next
    case flag: False
    show ?thesis
    proof (cases "M key")
      case None
      with find_and_lock_absent [OF ok, of key True q qd] M obtain q' d' where
        f: "db_find_and_lock key True s = Ret (-1) (W pi pd k hs es q' qd (wlocked key d H) d')"
        and kd: "keep d' = keep (d\<lparr>chainoff := ?co\<rparr>)" unfolding s by auto
      note K = keep_chain [OF kd]
      show ?thesis
      proof (cases "flag = DB_REPLACE")
        case True
        let ?d = "d'\<lparr>cnt_storerr := cnt_storerr d' + 1\<rparr>"
        have "good pi pd (k\<lparr>errno := ENOENT\<rparr>) hs es cs H d" using ok errno(1) by (simp add: good_def okW_def)
        then have "db_store key data flag s = Ret (-1) (W pi pd (k\<lparr>errno := ENOENT\<rparr>) hs es q' qd H ?d)"
          using flag True len unfolding db_store_def
          by (simp add: bindc_exec check_exec f set_db_W se unlock_chain_good K del: of_nat_Suc of_nat_mult mult_Suc_right)
        with fin [OF G(5), of ?d M "k\<lparr>errno := ENOENT\<rparr>"] K M errno None True flag show ?thesis
          by (simp add: store_map_def store_result_def)
      next
        case False
        have ok1: "good pi pd k hs es cs H d'" using good_new [OF ok G(5) K(1-4)] .
        have "db_map (nhash d') es cs key = None" using None M K by simp
        from store_new_W [OF ok1 this st room', of q' qd] K
        have "stored pi pd k (wlocked key d H) d' (length (idx_file hs es) + 1035) (M(key \<mapsto> data))
            (store_new key data) (W pi pd k hs es q' qd (wlocked key d H) d')" by (simp add: M)
        note u = unl [OF this K, of 0 "''db_store: un_lock error''"]
        have "store_result M key flag = 0" using flag False None by (simp add: store_result_def)
        moreover have "db_store key data flag s = bindc (bindc (store_new key data) (\<lambda>_. ret 0))
            (\<lambda>rc. bindc (unlock_chain ''db_store: un_lock error'') (\<lambda>_. ret rc))
            (W pi pd k hs es q' qd (wlocked key d H) d')"
          unfolding db_store_def if_not_P [OF flag] using False len
          by (simp add: bindc_exec check_exec f del: of_nat_Suc of_nat_mult mult_Suc_right)
        ultimately show ?thesis using u by (simp add: store_map_def)
      qed
    next
      case (Some v)
      with M have key: "db_map (nhash d) es cs key = Some v" by simp
      from find_index [OF G(5) key] obtain as j bs where j: "cs (Suc (db_hash (nhash d) key)) = as @ j # bs"
        "e_key (es ! j) = key" "e_data (es ! j) = v" "j < length es" .
      from find_and_lock_found [OF ok j(1,2), of True q qd] obtain q' d' where
        f: "db_find_and_lock key True s = Ret 0 (W pi pd k hs es q' qd (wlocked key d H) (loaded (ioff hs es j) (doff es j) (es ! j) d'))"
        and kd: "keep d' = keep (d\<lparr>chainoff := ?co\<rparr>)"
        and po: "ptroff d' = int (loc_off hs es (prev_loc (Head (Suc (db_hash (nhash d) key))) as))"
        unfolding s by auto
      note K = keep_chain [OF kd]
      show ?thesis
      proof (cases "flag = DB_INSERT")
        case True
        let ?l = "loaded (ioff hs es j) (doff es j) (es ! j) d'"
        let ?d = "?l\<lparr>cnt_storerr := cnt_storerr ?l + 1\<rparr>"
        have "db_store key data flag s = Ret 1 (W pi pd k hs es q' qd H ?d)"
          using flag True len unfolding db_store_def
          by (simp add: bindc_exec check_exec f set_db_W unlock_chain_good [OF ok] K del: of_nat_Suc of_nat_mult mult_Suc_right)
        with fin [OF G(5), of ?d M k] K M G(2) Some True flag show ?thesis
          by (simp add: store_map_def store_result_def DB_INSERT_def DB_REPLACE_def)
      next
        case False
        from store_replace_W [OF ok key j(1,2) st room' kd po, of q' qd]
        have "stored pi pd k (wlocked key d H) d' (length (idx_file hs es) + 1035) (M(key \<mapsto> data))
            (store_replace key data) (W pi pd k hs es q' qd (wlocked key d H) (loaded (ioff hs es j) (doff es j) (es ! j) d'))"
          by (simp add: M)
        note u = unl [OF this K, of 0 "''db_store: un_lock error''"]
        have "store_result M key flag = 0" using flag False Some by (simp add: store_result_def)
        moreover have "db_store key data flag s = bindc (bindc (store_replace key data) (\<lambda>_. ret 0))
            (\<lambda>rc. bindc (unlock_chain ''db_store: un_lock error'') (\<lambda>_. ret rc))
            (W pi pd k hs es q' qd (wlocked key d H) (loaded (ioff hs es j) (doff es j) (es ! j) d'))"
          unfolding db_store_def if_not_P [OF flag] using False len
          by (simp add: bindc_exec check_exec f del: of_nat_Suc of_nat_mult mult_Suc_right)
        ultimately show ?thesis using u by (simp add: store_map_def)
      qed
    qed
  qed
qed

end
