(* ===== verification/Db_Client.thy ===== *)
theory Db_Client
  imports Db_Correct
begin

text \<open>
  The interface a client of the database relies on: three calls, the map they work on and the
  room they need.  A run of any sequence of calls answers what the map answers.
\<close>

datatype ('k, 'v) call = Fetch 'k | Delete 'k | Store 'k 'v int

datatype 'v reply = Value "'v option" | Code int

fun run_calls :: "('k \<Rightarrow> ('s, 'v option) prog) \<Rightarrow> ('k \<Rightarrow> ('s, int) prog) \<Rightarrow> ('k \<Rightarrow> 'v \<Rightarrow> int \<Rightarrow> ('s, int) prog)
    \<Rightarrow> ('k, 'v) call list \<Rightarrow> ('s, 'v reply list) prog" where
  "run_calls f d st [] = ret []"
| "run_calls f d st (Fetch k # cs) = bindc (f k) (\<lambda>v. bindc (run_calls f d st cs) (\<lambda>rs. ret (Value v # rs)))"
| "run_calls f d st (Delete k # cs) = bindc (d k) (\<lambda>c. bindc (run_calls f d st cs) (\<lambda>rs. ret (Code c # rs)))"
| "run_calls f d st (Store k v fl # cs) =
     bindc (st k v fl) (\<lambda>c. bindc (run_calls f d st cs) (\<lambda>rs. ret (Code c # rs)))"

text \<open>The same sequence on a map.\<close>

fun map_calls :: "(('k \<Rightarrow> 'v option) \<Rightarrow> 'k \<Rightarrow> int \<Rightarrow> int) \<Rightarrow> ('k, 'v) call list \<Rightarrow> ('k \<Rightarrow> 'v option)
    \<Rightarrow> 'v reply list \<times> ('k \<Rightarrow> 'v option)" where
  "map_calls res [] M = ([], M)"
| "map_calls res (Fetch k # cs) M = (let (rs, M') = map_calls res cs M in (Value (M k) # rs, M'))"
| "map_calls res (Delete k # cs) M =
     (let (rs, M') = map_calls res cs (M(k := None)) in (Code (if M k = None then -1 else 0) # rs, M'))"
| "map_calls res (Store k v fl # cs) M =
     (let (rs, M') = map_calls res cs (if res M k fl = 0 then M(k \<mapsto> v) else M) in (Code (res M k fl) # rs, M'))"

fun call_ok :: "('k \<Rightarrow> 'v \<Rightarrow> bool) \<Rightarrow> ('k, 'v) call \<Rightarrow> bool" where
  "call_ok ok (Store k v fl) = ok k v"
| "call_ok ok _ = True"

fun stores :: "('k, 'v) call list \<Rightarrow> nat" where
  "stores [] = 0"
| "stores (Store k v fl # cs) = Suc (stores cs)"
| "stores (_ # cs) = stores cs"

locale kv_store =
  fixes fetch :: "'k \<Rightarrow> ('s, 'v option) prog"
    and delete :: "'k \<Rightarrow> ('s, int) prog"
    and store :: "'k \<Rightarrow> 'v \<Rightarrow> int \<Rightarrow> ('s, int) prog"
    and rep :: "('k \<Rightarrow> 'v option) \<Rightarrow> 's \<Rightarrow> bool"
    and usage :: "'s \<Rightarrow> nat"
    and capacity :: nat
    and cost :: nat
    and ok :: "'k \<Rightarrow> 'v \<Rightarrow> bool"
    and res :: "('k \<Rightarrow> 'v option) \<Rightarrow> 'k \<Rightarrow> int \<Rightarrow> int"
  assumes fetch_law: "rep M s \<Longrightarrow> \<exists>s'. fetch k s = Ret (M k) s' \<and> rep M s' \<and> usage s' = usage s"
    and delete_law: "rep M s \<Longrightarrow> \<exists>s'. delete k s = Ret (if M k = None then -1 else 0) s'
          \<and> rep (M(k := None)) s' \<and> usage s' = usage s"
    and store_law: "rep M s \<Longrightarrow> ok k v \<Longrightarrow> usage s \<le> capacity \<Longrightarrow> \<exists>s'. store k v fl s = Ret (res M k fl) s'
          \<and> rep (if res M k fl = 0 then M(k \<mapsto> v) else M) s' \<and> usage s' \<le> usage s + cost"
begin

lemma run_correct:
  assumes "rep M s" and "\<forall>c \<in> set cs. call_ok ok c" and "usage s + cost * stores cs \<le> capacity + cost"
  shows "\<exists>s'. run_calls fetch delete store cs s = Ret (fst (map_calls res cs M)) s'
           \<and> rep (snd (map_calls res cs M)) s' \<and> usage s' \<le> usage s + cost * stores cs"
  using assms
proof (induction cs arbitrary: M s)
  case Nil
  then show ?case by simp
next
  case (Cons c cs)
  have rest: "\<exists>s'. run_calls fetch delete store cs s1 = Ret (fst (map_calls res cs M1)) s'
       \<and> rep (snd (map_calls res cs M1)) s' \<and> usage s' \<le> usage s1 + cost * stores cs"
    if "rep M1 s1" "usage s1 + cost * stores cs \<le> capacity + cost" for M1 s1
    using Cons.IH [OF that(1) _ that(2)] Cons.prems(2) by simp
  show ?case
  proof (cases c)
    case (Fetch k)
    from fetch_law [OF Cons.prems(1), of k] obtain s1 where
      1: "fetch k s = Ret (M k) s1" "rep M s1" "usage s1 = usage s" by blast
    from rest [OF 1(2)] 1 Cons.prems(3) Fetch show ?thesis
      by (auto simp: bindc_exec split_def Let_def)
  next
    case (Delete k)
    from delete_law [OF Cons.prems(1), of k] obtain s1 where
      1: "delete k s = Ret (if M k = None then -1 else 0) s1" "rep (M(k := None)) s1" "usage s1 = usage s" by blast
    from rest [OF 1(2)] 1 Cons.prems(3) Delete show ?thesis
      by (auto simp: bindc_exec split_def Let_def)
  next
    case (Store k v fl)
    let ?M = "if res M k fl = 0 then M(k \<mapsto> v) else M"
    have "ok k v" "usage s \<le> capacity" using Cons.prems(2,3) Store by auto
    from store_law [OF Cons.prems(1) this, of fl] obtain s1 where
      1: "store k v fl s = Ret (res M k fl) s1" "rep ?M s1" "usage s1 \<le> usage s + cost" by blast
    have room: "usage s1 + cost * stores cs \<le> capacity + cost" using 1(3) Cons.prems(3) Store by simp
    from rest [OF 1(2) room] obtain s2 where
      2: "run_calls fetch delete store cs s1 = Ret (fst (map_calls res cs ?M)) s2"
        "rep (snd (map_calls res cs ?M)) s2" "usage s2 \<le> usage s1 + cost * stores cs" by blast
    have "run_calls fetch delete store (c # cs) s = Ret (fst (map_calls res (c # cs) M)) s2"
      using 1(1) 2(1) Store by (simp add: bindc_exec split_def Let_def)
    moreover have "snd (map_calls res (c # cs) M) = snd (map_calls res cs ?M)"
      using Store by (simp add: split_def Let_def)
    ultimately show ?thesis using 1(3) 2 Store by auto
  qed
qed

lemma fetch_after_store:
  assumes "rep M s" and "ok k v" and "usage s \<le> capacity" and "res M k fl = 0"
  shows "\<exists>s' s''. store k v fl s = Ret 0 s' \<and> fetch k' s' = Ret (if k' = k then Some v else M k') s''"
proof -
  from store_law [OF assms(1-3), of fl] assms(4) obtain s' where
    1: "store k v fl s = Ret 0 s'" "rep (M(k \<mapsto> v)) s'" by auto
  with fetch_law [OF 1(2), of k'] show ?thesis by auto
qed

end

text \<open>The library provides the interface, on the files \<open>pi\<close> and \<open>pd\<close>.\<close>

interpretation kv: kv_store db_fetch db_delete db_store "db_rep pi pd" idx_size 9999999 1035 storable store_result
  for pi pd
proof
  show "\<exists>s'. db_fetch k s = Ret (M k) s' \<and> db_rep pi pd M s' \<and> idx_size s' = idx_size s"
    if "db_rep pi pd M s" for M s k
    using fetch_rep [OF that] by blast
  show "\<exists>s'. db_delete k s = Ret (if M k = None then -1 else 0) s'
          \<and> db_rep pi pd (M(k := None)) s' \<and> idx_size s' = idx_size s"
    if "db_rep pi pd M s" for M s k
    using delete_rep [OF that] by blast
  show "\<exists>s'. db_store k v fl s = Ret (store_result M k fl) s'
          \<and> db_rep pi pd (if store_result M k fl = 0 then M(k \<mapsto> v) else M) s' \<and> idx_size s' \<le> idx_size s + 1035"
    if "db_rep pi pd M s" "storable k v" "idx_size s \<le> 9999999" for M s k v fl
    using store_rep [OF that] unfolding store_map_def by blast
qed

end
