(* ===== verification/Db_Session.thy ===== *)
theory Db_Session
  imports Db_Correct
begin

text \<open>
  Opening and closing a database: a database created afresh stands for the empty map, and a
  database closed and opened again stands for the same map.
\<close>

text \<open>Any state in which the two descriptors are open on the two files is of the form \<open>W\<close>.\<close>

lemma world_self:
  assumes "fault (kern s) = None" and "disk (kern s) pi = Some I" "disk (kern s) pd = Some D"
    and "fdtab (kern s) ! nat (idxfd (db s)) = Some (pi, q)" "fdtab (kern s) ! nat (datfd (db s)) = Some (pd, qd)"
  shows "s = world pi pd (kern s) I D q qd (held (kern s)) (db s)"
proof -
  have d: "(disk (kern s))(pi \<mapsto> I, pd \<mapsto> D) = disk (kern s)"
    using assms(2,3) by (auto simp: fun_eq_iff)
  have f: "(fdtab (kern s))[nat (idxfd (db s)) := Some (pi, q), nat (datfd (db s)) := Some (pd, qd)] = fdtab (kern s)"
    using assms(4,5) by (metis list_update_id)
  have "kern s = (kern s)\<lparr>disk := disk (kern s), fdtab := fdtab (kern s), held := held (kern s), fault := None\<rparr>"
    using assms(1) by simp
  then show ?thesis unfolding world_def d f by simp
qed

lemma db_rep_self:
  assumes "fault (kern s) = None" and "disk (kern s) pi = Some (idx_file hs es)" "disk (kern s) pd = Some (enc_dat es)"
    and "fdtab (kern s) ! nat (idxfd (db s)) = Some (pi, q)" "fdtab (kern s) ! nat (datfd (db s)) = Some (pd, qd)"
    and "ok_base pi pd (kern s) (idxfd (db s)) (datfd (db s))"
    and "db_inv (nhash (db s)) {} hs es cs" and "hashoff (db s) = 7" and "held (kern s) = []"
  shows "db_rep pi pd (db_map (nhash (db s)) es cs) s"
proof -
  have "good pi pd (kern s) hs es cs [] (db s)"
    using assms(6-8) db_invD(3,4) [OF assms(7)] by (simp add: good_def okW_def no_locks_def)
  moreover have "s = W pi pd (kern s) hs es q qd [] (db s)"
    using world_self [OF assms(1-5)] assms(9) by (simp add: W_def)
  ultimately show ?thesis using db_repI by metis
qed

section \<open>The descriptor table\<close>

lemma free_slot_le: "free_slot xs \<le> length xs"
  by (induction xs rule: free_slot.induct) simp_all

lemma free_slot_None: "free_slot xs < length xs \<Longrightarrow> xs ! free_slot xs = None"
  by (induction xs rule: free_slot.induct) simp_all

definition new_tab :: "string \<Rightarrow> (string \<times> nat) option list \<Rightarrow> (string \<times> nat) option list" where
  "new_tab p xs = (if free_slot xs < length xs then xs[free_slot xs := Some (p, 0)] else xs @ [Some (p, 0)])"

lemma install_fd_run:
  "install_fd p k = (int (free_slot (fdtab k)), k\<lparr>fdtab := new_tab p (fdtab k)\<rparr>)"
  by (simp add: install_fd_def new_tab_def Let_def)

lemma new_tab_slot: "free_slot xs < length (new_tab p xs)" "new_tab p xs ! free_slot xs = Some (p, 0)"
  using free_slot_le [of xs] by (auto simp: new_tab_def nth_append)

lemma new_tab_old:
  "i < length xs \<Longrightarrow> xs ! i = Some x \<Longrightarrow> i < length (new_tab p xs) \<and> new_tab p xs ! i = Some x"
  using free_slot_None [of xs] by (auto simp: new_tab_def nth_list_update nth_append)

section \<open>A fresh database\<close>

lemma hash_init_enc: "hash_init n = enc_hdr (replicate (n + 1) 0)"
  by (simp add: hash_init_def enc_hdr_def)

lemma empty_inv: "0 < n \<Longrightarrow> db_inv n {} (replicate (n + 1) 0) [] (\<lambda>_. [])"
proof -
  assume "0 < n"
  moreover have "i \<le> n \<Longrightarrow> replicate (n + 1) 0 ! i = 0" for i
    by (simp del: replicate_Suc add: less_Suc_eq_le)
  ultimately show ?thesis by (auto simp: db_inv_def ok_heads_def ok_entries_def simp del: replicate_Suc)
qed

lemma empty_map [simp]: "db_map n es (\<lambda>_. []) = Map.empty"
  by (simp add: db_map_def fun_eq_iff)

lemma db_open_fresh:
  assumes f: "fault (kern s) = None" and h: "held (kern s) = []"
    and fl: "O_CREAT \<in> set fl" "O_TRUNC \<in> set fl" "O_EXCL \<notin> set fl"
  shows "\<exists>s'. db_open path fl s = Ret True s'
           \<and> db_rep (path @ ''.idx'') (path @ ''.dat'') Map.empty s' \<and> held (kern s') = []
           \<and> (\<forall>p. p \<noteq> path @ ''.idx'' \<longrightarrow> p \<noteq> path @ ''.dat'' \<longrightarrow> disk (kern s') p = disk (kern s) p)"
proof -
  define pi pd where "pi = path @ ''.idx''" and "pd = path @ ''.dat''"
  have ne: "pi \<noteq> pd" by (simp add: pi_def pd_def)
  define k0 where "k0 = kern s"
  define fi where "fi = free_slot (fdtab k0)"
  define t1 where "t1 = new_tab pi (fdtab k0)"
  have t1: "install_fd pi (k0\<lparr>disk := (disk k0)(pi \<mapsto> [])\<rparr>) = (int fi, k0\<lparr>disk := (disk k0)(pi \<mapsto> []), fdtab := t1\<rparr>)"
      "fi < length t1" "t1 ! fi = Some (pi, 0)"
    using new_tab_slot by (simp_all add: install_fd_run t1_def fi_def)
  define k1 where "k1 = k0\<lparr>disk := (disk k0)(pi \<mapsto> []), fdtab := t1\<rparr>"
  have o1: "sys_open pi fl k0 = (int fi, k1)"
    using f fl t1(1) by (auto simp: sys_open_def syscall_ok k0_def k1_def split: option.split)
  define fd where "fd = free_slot (fdtab k1)"
  define t2 where "t2 = new_tab pd (fdtab k1)"
  have t2: "install_fd pd (k1\<lparr>disk := (disk k1)(pd \<mapsto> [])\<rparr>) = (int fd, k1\<lparr>disk := (disk k1)(pd \<mapsto> []), fdtab := t2\<rparr>)"
      "fd < length t2" "t2 ! fd = Some (pd, 0)" "fi < length t2" "t2 ! fi = Some (pi, 0)"
    using new_tab_slot new_tab_old [OF t1(2,3)] by (simp_all add: install_fd_run t2_def fd_def) (simp_all add: k1_def)
  define k2 where "k2 = k1\<lparr>disk := (disk k1)(pd \<mapsto> []), fdtab := t2\<rparr>"
  have f1: "fault k1 = None" using f by (simp add: k1_def k0_def)
  have o2: "sys_open pd fl k1 = (int fd, k2)"
    using f1 fl t2(1) by (auto simp: sys_open_def syscall_ok k2_def split: option.split)
  have neq: "fi \<noteq> fd" using t2(3,5) ne by auto
  define d where "d = db_alloc\<lparr>nhash := NHASH_DEF, hashoff := HASH_OFF, idxfd := int fi, name := pd, datfd := int fd\<rparr>"
  have dsel: "idxfd d = int fi" "datfd d = int fd" "nhash d = 137" "hashoff d = 7"
    by (simp_all add: d_def NHASH_DEF_def HASH_OFF_def)
  have base: "ok_base pi pd k2 (idxfd d) (datfd d)"
    using ne neq t2(2,4) by (simp add: ok_base_def dsel k2_def)
  have w2: "\<lparr>kern = k2, db = d\<rparr> = world pi pd k2 [] [] 0 0 [] d"
    using world_self [of "\<lparr>kern = k2, db = d\<rparr>" pi "[]" pd "[]" 0 0] f h t2 ne
    by (simp add: dsel k2_def k1_def k0_def)
  have fs: "kcall (sys_fstat_size (int fi)) (world pi pd k2 I D q qd H d) = Ret (int (length I)) (world pi pd k2 I D q qd H d)" for I D q qd H
    using base ofile_world(1) [OF base, of I D q qd H] bytes_world(1) [OF base, of I D q qd H]
    by (simp add: sys_fstat_size_def kcall_def syscall_ok dsel)
  let ?hs = "replicate (NHASH_DEF + 1) 0"
  have oh: "overlay NUL [] 0 (hash_init NHASH_DEF) = idx_file ?hs []"
    by (simp add: overlay_def hash_init_enc idx_file_def)
  have s1: "set_db g (s\<lparr>kern := k, db := d'\<rparr>) = Ret () (s\<lparr>kern := k, db := g d'\<rparr>)" for g k d'
    by (simp add: set_db_def)
  have rew: "db_rewind (world pi pd k2 I D q qd [] d)
      = Ret () (world pi pd k2 I D (138 * 7 + 1) qd [] (d\<lparr>idxoff := 967\<rparr>))" for I D q qd
    using base lseek_world(1) [OF base refl, of 967]
    by (simp add: db_rewind_def exec dsel PTR_SZ_def)
  have sw: "s = \<lparr>kern = k0, db = db s\<rparr>" by (simp add: k0_def)
  have open_run: "db_open path fl s
      = Ret True (world pi pd k2 (idx_file ?hs []) [] (138 * 7 + 1) 0 [] (d\<lparr>idxoff := 967\<rparr>))"
  proof -
    have "db_open path fl s = (
       bindc (bindc (kcall (writew_lock (int fi) 0 0)) (\<lambda>r.
                bindc (check (0 \<le> r) (Err_dump ''db_open: writew_lock error'')) (\<lambda>_.
                bindc (kcall (sys_fstat_size (int fi))) (\<lambda>sz.
                bindc (check (0 \<le> sz) (Err_sys ''db_open: fstat error'')) (\<lambda>_.
                bindc (if sz = 0
                       then bindc (kcall (sys_write (int fi) (hash_init NHASH_DEF))) (\<lambda>n.
                            check (n = int (length (hash_init NHASH_DEF)))
                              (Err_dump ''db_open: index file init write error''))
                       else ret ()) (\<lambda>_.
                bindc (kcall (un_lock (int fi) 0 0)) (\<lambda>r.
                check (0 \<le> r) (Err_dump ''db_open: un_lock error'')))))))) (\<lambda>_.
       bindc db_rewind (\<lambda>_. ret True))) (world pi pd k2 [] [] 0 0 [] d)"
      unfolding db_open_def w2 [symmetric]
      by (subst sw) (simp add: bindc_exec set_db_def kcall_def o1 [unfolded pi_def] o2 [unfolded pd_def] fl d_def pd_def)
    also have "\<dots> = Ret True (world pi pd k2 (idx_file ?hs []) [] (138 * 7 + 1) 0 [] (d\<lparr>idxoff := 967\<rparr>))"
      using base by (simp add: exec fs dsel oh unlocked_def rew)
    finally show ?thesis .
  qed
  let ?s = "world pi pd k2 (idx_file ?hs []) [] (138 * 7 + 1) 0 [] (d\<lparr>idxoff := 967\<rparr>)"
  have inv: "db_inv (nhash (d\<lparr>idxoff := 967\<rparr>)) {} ?hs [] (\<lambda>_. [])"
    using empty_inv [of 137] by (simp add: dsel NHASH_DEF_def)
  have "good pi pd k2 ?hs [] (\<lambda>_. []) [] (d\<lparr>idxoff := 967\<rparr>)"
    using base inv db_invD(3,4) [OF inv] by (simp add: good_def okW_def dsel no_locks_def)
  then have "db_rep pi pd Map.empty ?s"
    unfolding db_rep_def W_def by (intro exI conjI) (auto simp: enc_dat_def)
  moreover have "disk (kern ?s) p = disk (kern s) p" if "p \<noteq> pi" "p \<noteq> pd" for p
    using that by (simp add: world_def k2_def k1_def k0_def)
  moreover have "held (kern ?s) = []" by simp
  ultimately show ?thesis using open_run unfolding pi_def pd_def by blast
qed

section \<open>Closing and opening again\<close>

lemma db_close_run:
  assumes rep: "db_rep pi pd M s" and "held (kern s) = []"
  shows "\<exists>s'. db_close s = Ret () s' \<and> disk (kern s') = disk (kern s) \<and> fault (kern s') = None
           \<and> held (kern s') = [] \<and> ofile (kern s') (idxfd (db s)) = None
           \<and> ofile (kern s') (datfd (db s)) = None \<and> db s' = db_alloc"
  using rep
proof (rule db_repE)
  fix k hs es cs q qd H d
  assume s: "s = W pi pd k hs es q qd H d" and ok: "good pi pd k hs es cs H d"
  note G = goodD [OF ok]
  have H: "H = []" using assms(2) by (simp add: s W_def world_def)
  have ne: "nat (idxfd d) \<noteq> nat (datfd d)" and nn: "0 \<le> idxfd d" "0 \<le> datfd d"
    and len: "nat (idxfd d) < length (fdtab k)" "nat (datfd d) < length (fdtab k)"
    using G(2) by (auto simp: ok_base_def)
  show ?thesis
    using ne nn len
    by (simp add: db_close_def db_free_def bindc_exec get_db_def set_db_def s W_def world_def kcall_def
        sys_close_def syscall_ok ofile_def H nth_list_update split: option.split)
qed

lemma db_open_existing:
  assumes f: "fault (kern s) = None" and h: "held (kern s) = []"
    and fl: "O_TRUNC \<notin> set fl" "O_EXCL \<notin> set fl"
    and inv: "db_inv 137 {} hs es cs"
    and files: "disk (kern s) (path @ ''.idx'') = Some (idx_file hs es)"
      "disk (kern s) (path @ ''.dat'') = Some (enc_dat es)"
  shows "\<exists>s'. db_open path fl s = Ret True s' \<and> disk (kern s') = disk (kern s)
           \<and> db_rep (path @ ''.idx'') (path @ ''.dat'') (db_map 137 es cs) s'"
proof -
  define pi pd where "pi = path @ ''.idx''" and "pd = path @ ''.dat''"
  have ne: "pi \<noteq> pd" by (simp add: pi_def pd_def)
  define k0 where "k0 = kern s"
  define fi where "fi = free_slot (fdtab k0)"
  define t1 where "t1 = new_tab pi (fdtab k0)"
  define k1 where "k1 = k0\<lparr>fdtab := t1\<rparr>"
  have t1: "fi < length t1" "t1 ! fi = Some (pi, 0)"
    using new_tab_slot by (simp_all add: t1_def fi_def)
  have o1: "sys_open pi fl k0 = (int fi, k1)"
    using f fl files(1) by (simp add: sys_open_def syscall_ok k0_def k1_def install_fd_run t1_def fi_def pi_def)
  define fd where "fd = free_slot (fdtab k1)"
  define t2 where "t2 = new_tab pd (fdtab k1)"
  define k2 where "k2 = k1\<lparr>fdtab := t2\<rparr>"
  have t2: "fd < length t2" "t2 ! fd = Some (pd, 0)" "fi < length t2" "t2 ! fi = Some (pi, 0)"
    using new_tab_slot new_tab_old [OF t1] by (simp_all add: t2_def fd_def) (simp_all add: k1_def)
  have o2: "sys_open pd fl k1 = (int fd, k2)"
    using f fl files(2)
    by (simp add: sys_open_def syscall_ok k2_def k1_def k0_def install_fd_run t2_def fd_def pd_def)
  have neq: "fi \<noteq> fd" using t2(2,4) ne by auto
  define d where "d = db_alloc\<lparr>nhash := NHASH_DEF, hashoff := HASH_OFF, idxfd := int fi, name := pd, datfd := int fd\<rparr>"
  have dsel: "idxfd d = int fi" "datfd d = int fd" "nhash d = 137" "hashoff d = 7"
    by (simp_all add: d_def NHASH_DEF_def HASH_OFF_def)
  have base: "ok_base pi pd k2 (idxfd d) (datfd d)"
    using ne neq t2(1,3) by (simp add: ok_base_def dsel k2_def)
  have w2: "\<lparr>kern = k2, db = d\<rparr> = world pi pd k2 (idx_file hs es) (enc_dat es) 0 0 [] d"
    using world_self [of "\<lparr>kern = k2, db = d\<rparr>" pi "idx_file hs es" pd "enc_dat es" 0 0] f h t2 files
    by (simp add: dsel k2_def k1_def k0_def pi_def pd_def)
  have rew: "db_rewind (world pi pd k2 I D q qd [] d)
      = Ret () (world pi pd k2 I D (138 * 7 + 1) qd [] (d\<lparr>idxoff := 967\<rparr>))" for I D q qd
    using base lseek_world(1) [OF base refl, of 967]
    by (simp add: db_rewind_def exec dsel PTR_SZ_def)
  have sw: "s = \<lparr>kern = k0, db = db s\<rparr>" by (simp add: k0_def)
  let ?s = "world pi pd k2 (idx_file hs es) (enc_dat es) (138 * 7 + 1) 0 [] (d\<lparr>idxoff := 967\<rparr>)"
  have "db_open path fl s = bindc db_rewind (\<lambda>_. ret True) (world pi pd k2 (idx_file hs es) (enc_dat es) 0 0 [] d)"
    unfolding db_open_def w2 [symmetric]
    by (subst sw) (simp add: bindc_exec set_db_def kcall_def o1 [unfolded pi_def] o2 [unfolded pd_def] fl d_def pd_def)
  then have run: "db_open path fl s = Ret True ?s" by (simp add: bindc_exec rew)
  have "good pi pd k2 hs es cs [] (d\<lparr>idxoff := 967\<rparr>)"
    using base inv db_invD(3,4) [OF inv] by (simp add: good_def okW_def dsel no_locks_def)
  then have "db_rep pi pd (db_map 137 es cs) ?s"
    unfolding db_rep_def W_def by (intro exI conjI) (auto simp: dsel)
  moreover have "disk (kern ?s) = disk (kern s)"
    using files by (auto simp: world_def k2_def k1_def k0_def pi_def pd_def fun_eq_iff)
  ultimately show ?thesis using run unfolding pi_def pd_def by blast
qed

lemma reopen_rep:
  assumes rep: "db_rep (path @ ''.idx'') (path @ ''.dat'') M s" and h: "held (kern s) = []"
    and n: "nhash (db s) = NHASH_DEF" and fl: "O_TRUNC \<notin> set fl" "O_EXCL \<notin> set fl"
  shows "\<exists>s1 s2. db_close s = Ret () s1 \<and> db_open path fl s1 = Ret True s2
           \<and> disk (kern s2) = disk (kern s) \<and> db_rep (path @ ''.idx'') (path @ ''.dat'') M s2"
proof -
  from db_close_run [OF rep h] obtain s1 where
    1: "db_close s = Ret () s1" "disk (kern s1) = disk (kern s)" "fault (kern s1) = None" "held (kern s1) = []"
    by blast
  from rep obtain k hs es cs q qd H d where
    s: "s = W (path @ ''.idx'') (path @ ''.dat'') k hs es q qd H d"
      "good (path @ ''.idx'') (path @ ''.dat'') k hs es cs H d" "M = db_map (nhash d) es cs"
    by (rule db_repE)
  have nd: "nhash d = 137" using n by (simp add: s W_def world_def NHASH_DEF_def)
  have "db_inv 137 {} hs es cs" using goodD(5) [OF s(2)] nd by simp
  moreover have "disk (kern s1) (path @ ''.idx'') = Some (idx_file hs es)"
    "disk (kern s1) (path @ ''.dat'') = Some (enc_dat es)"
    by (simp_all add: 1(2) s(1) W_def world_def)
  ultimately obtain s2 where "db_open path fl s1 = Ret True s2" "disk (kern s2) = disk (kern s1)"
    "db_rep (path @ ''.idx'') (path @ ''.dat'') (db_map 137 es cs) s2"
    using db_open_existing [OF 1(3,4) fl] by blast
  then show ?thesis using 1 nd s(3) by auto
qed

end
