(* ===== verification/Db_Scan.thy ===== *)
theory Db_Scan
  imports Db_Correct
begin

text \<open>
  Sequential access: \<open>db_rewind\<close> and then \<open>db_nextrec\<close> until it reports the end of the file.
\<close>

fun scan :: "nat \<Rightarrow> (dbst, (string \<times> string) list) prog" where
  "scan 0 = ret []"
| "scan (Suc n) = bindc db_nextrec (\<lambda>r. case r of None \<Rightarrow> ret []
     | Some p \<Rightarrow> bindc (scan n) (\<lambda>ps. ret (p # ps)))"

definition live :: "entry list \<Rightarrow> nat \<Rightarrow> nat list" where
  "live es j = filter (\<lambda>i. \<not> blank_entry (es ! i)) [j..<length es]"

lemma live_step:
  "j < length es \<Longrightarrow> live es j = (if blank_entry (es ! j) then live es (Suc j) else j # live es (Suc j))"
  by (simp add: live_def upt_conv_Cons)

lemma live_end [simp]: "live es (length es) = []"
  by (simp add: live_def)

lemma live_next: "live es j = i # ls \<Longrightarrow> i < length es \<and> j \<le> i \<and> live es (Suc i) = ls"
proof (induction "length es - j" arbitrary: j)
  case 0
  then show ?case by (simp add: live_def)
next
  case (Suc n)
  then have j: "j < length es" by simp
  show ?case
  proof (cases "blank_entry (es ! j)")
    case True
    then have "live es (Suc j) = i # ls" using Suc.prems live_step [OF j] by simp
    moreover have "n = length es - Suc j" using Suc.hyps(2) by simp
    ultimately show ?thesis using Suc.hyps(1) [of "Suc j"] by auto
  next
    case False
    with Suc.prems live_step [OF j] have "i = j" "live es (Suc j) = ls" by auto
    with j show ?thesis by simp
  qed
qed

lemma readidx_eof:
  assumes "good pi pd k hs es cs H0 d"
  shows "db_readidx 0 (W pi pd k hs es (ioff hs es (length es)) qd H d)
         = Ret (-1) (W pi pd k hs es (ioff hs es (length es)) qd H (d\<lparr>idxoff := int (ioff hs es (length es))\<rparr>))"
proof -
  note G = goodD [OF assms]
  have "length (idx_file hs es) = ioff hs es (length es)"
    using G(3) by (simp add: idx_file_def ioff_def length_enc_hdr)
  then show ?thesis
    using G(2) by (simp add: db_readidx_def W_def exec PTR_SZ_def)
qed

lemma nextrec_loop_W:
  assumes "good pi pd k hs es cs H0 d" and "j \<le> length es" and "length es - j < n"
  shows "\<exists>d'. keep d' = keep d \<and> nextrec_loop n (W pi pd k hs es (ioff hs es j) qd H d)
     = (case live es j of
          [] \<Rightarrow> Ret False (W pi pd k hs es (ioff hs es (length es)) qd H d')
        | i # ls \<Rightarrow> Ret True (W pi pd k hs es (ioff hs es (Suc i)) qd H
                     (loaded (ioff hs es i) (doff es i) (es ! i) d')))"
  using assms
proof (induction n arbitrary: j d)
  case 0
  then show ?case by simp
next
  case (Suc n)
  note G = goodD [OF Suc.prems(1)]
  show ?case
  proof (cases "j < length es")
    case False
    then have "j = length es" using Suc.prems(2) by simp
    with readidx_eof [OF Suc.prems(1)] show ?thesis
      by (intro exI [of _ "d\<lparr>idxoff := int (ioff hs es (length es))\<rparr>"]) (simp add: bindc_exec)
  next
    case True
    let ?d = "loaded (ioff hs es j) (doff es j) (es ! j) d"
    have rd: "db_readidx 0 (W pi pd k hs es (ioff hs es j) qd H d)
        = Ret (int (e_ptr (es ! j))) (W pi pd k hs es (ioff hs es (Suc j)) qd H ?d)"
      using readidx_W [OF G(2-4) True] by simp
    have buf: "cstr (idx_image (doff es j) (es ! j)) = e_key (es ! j)"
      using key_no_NUL [OF G(4) True] by (simp add: cstr_idx_image)
    show ?thesis
    proof (cases "blank_entry (es ! j)")
      case blank: True
      have ok: "good pi pd k hs es cs H0 ?d" by (rule good_new [OF Suc.prems(1) G(5)]) simp_all
      have "length es - Suc j < n" using Suc.prems(3) True by simp
      from Suc.IH [OF ok _ this] True obtain d' where
        d': "keep d' = keep ?d" "nextrec_loop n (W pi pd k hs es (ioff hs es (Suc j)) qd H ?d)
     = (case live es (Suc j) of
          [] \<Rightarrow> Ret False (W pi pd k hs es (ioff hs es (length es)) qd H d')
        | i # ls \<Rightarrow> Ret True (W pi pd k hs es (ioff hs es (Suc i)) qd H
                     (loaded (ioff hs es i) (doff es i) (es ! i) d')))" by auto
      have "nextrec_loop (Suc n) (W pi pd k hs es (ioff hs es j) qd H d)
          = nextrec_loop n (W pi pd k hs es (ioff hs es (Suc j)) qd H ?d)"
        using blank by (simp add: bindc_exec rd get_db_W buf blank_entry_def)
      with d' blank show ?thesis
        by (intro exI [of _ d']) (simp add: live_step [OF True])
    next
      case nb: False
      then have "nextrec_loop (Suc n) (W pi pd k hs es (ioff hs es j) qd H d)
          = Ret True (W pi pd k hs es (ioff hs es (Suc j)) qd H ?d)"
        unfolding blank_entry_def by (simp only: nextrec_loop.simps) (auto simp: bindc_exec rd get_db_W buf)
      with nb show ?thesis by (intro exI [of _ d]) (simp add: live_step [OF True])
    qed
  qed
qed

lemma nextrec_W:
  assumes ok: "good pi pd k hs es cs H d" and j: "j \<le> length es"
  shows "\<exists>qd' d'. idxfd d' = idxfd d \<and> datfd d' = datfd d \<and> nhash d' = nhash d \<and> hashoff d' = hashoff d
     \<and> db_nextrec (W pi pd k hs es (ioff hs es j) qd H d)
     = (case live es j of
          [] \<Rightarrow> Ret None (W pi pd k hs es (ioff hs es (length es)) qd' H d')
        | i # ls \<Rightarrow> Ret (Some (e_key (es ! i), e_data (es ! i))) (W pi pd k hs es (ioff hs es (Suc i)) qd' H d'))"
proof -
  note G = goodD [OF ok]
  let ?H = "(idxfd d, F_RDLCK, 0, 1) # H"
  have len: "length es - j < Suc (length (idx_file hs es))"
    using length_es_le [OF G(4), of 0] by (simp add: idx_file_def)
  from nextrec_loop_W [OF ok j len, of qd ?H] obtain d1 where
    d1: "keep d1 = keep d" "nextrec_loop (Suc (length (idx_file hs es))) (W pi pd k hs es (ioff hs es j) qd ?H d)
     = (case live es j of
          [] \<Rightarrow> Ret False (W pi pd k hs es (ioff hs es (length es)) qd ?H d1)
        | i # ls \<Rightarrow> Ret True (W pi pd k hs es (ioff hs es (Suc i)) qd ?H
                     (loaded (ioff hs es i) (doff es i) (es ! i) d1)))" by blast
  note K = keep_sel [OF d1(1)]
  have pre: "db_nextrec (W pi pd k hs es (ioff hs es j) qd H d)
      = bindc (nextrec_loop (Suc (length (idx_file hs es))))
          (\<lambda>found. bindc (if found
            then bindc (get_db (\<lambda>d. cstr (idxbuf d))) (\<lambda>key.
                 bindc db_readdat (\<lambda>p.
                 bindc (set_db (\<lambda>d. d\<lparr>cnt_nextrec := cnt_nextrec d + 1\<rparr>)) (\<lambda>_.
                 ret (Some (key, p)))))
            else ret None) (\<lambda>res.
          bindc (kcall (un_lock (idxfd d) FREE_OFF 1)) (\<lambda>r.
          bindc (check (0 \<le> r) (Err_dump ''db_nextrec: un_lock error'')) (\<lambda>_. ret res))))
        (W pi pd k hs es (ioff hs es j) qd ?H d)"
    using G(2) unfolding db_nextrec_def
    by (simp add: bindc_exec [of "get_db _"] bindc_exec [of "kcall _"] bindc_exec [of "check _ _"] bindc_exec [of "gets _"]
        get_db_W lock_W check_exec FREE_OFF_def del: nextrec_loop.simps)
  show ?thesis
  proof (cases "live es j")
    case Nil
    have "db_nextrec (W pi pd k hs es (ioff hs es j) qd H d)
        = Ret None (W pi pd k hs es (ioff hs es (length es)) qd H d1)"
      unfolding pre bindc_exec d1(2) using Nil G(2,7) K by (simp add: exec FREE_OFF_def)
    with Nil K show ?thesis by (intro exI [of _ qd] exI [of _ d1]) simp
  next
    case (Cons i ls)
    note N = live_next [OF Cons]
    let ?l = "loaded (ioff hs es i) (doff es i) (es ! i) d1"
    let ?b = "?l\<lparr>datbuf := e_data (es ! i) @ [NUL]\<rparr>"
    have rd: "db_readdat (W pi pd k hs es q qd H' ?l)
        = Ret (e_data (es ! i)) (W pi pd k hs es q (doff es (Suc i)) H' ?b)" for q qd H'
      using readdat_W [of pi pd k ?l es i hs q qd H'] G(2,4) N K by simp
    have buf: "cstr (idx_image (doff es i) (es ! i)) = e_key (es ! i)"
      using key_no_NUL [OF G(4)] N by (simp add: cstr_idx_image)
    have "db_nextrec (W pi pd k hs es (ioff hs es j) qd H d)
        = Ret (Some (e_key (es ! i), e_data (es ! i))) (W pi pd k hs es (ioff hs es (Suc i)) (doff es (Suc i)) H
            (?b\<lparr>cnt_nextrec := cnt_nextrec ?b + 1\<rparr>))"
      unfolding pre bindc_exec d1(2) using Cons G(2,7) K by (simp add: exec FREE_OFF_def rd buf)
    with Cons K show ?thesis
      by (intro exI [of _ "doff es (Suc i)"] exI [of _ "?b\<lparr>cnt_nextrec := cnt_nextrec ?b + 1\<rparr>"]) simp
  qed
qed

lemma scan_W:
  assumes "good pi pd k hs es cs H d" and "j \<le> length es" and "length (live es j) < n"
  shows "\<exists>q' qd' d'. idxfd d' = idxfd d \<and> datfd d' = datfd d \<and> nhash d' = nhash d \<and> hashoff d' = hashoff d
     \<and> scan n (W pi pd k hs es (ioff hs es j) qd H d)
       = Ret (map (\<lambda>i. (e_key (es ! i), e_data (es ! i))) (live es j)) (W pi pd k hs es q' qd' H d')"
  using assms
proof (induction n arbitrary: j d qd)
  case 0
  then show ?case by simp
next
  case (Suc n)
  from nextrec_W [OF Suc.prems(1,2), of qd] obtain qd1 d1 where
    d1: "idxfd d1 = idxfd d" "datfd d1 = datfd d" "nhash d1 = nhash d" "hashoff d1 = hashoff d"
      "db_nextrec (W pi pd k hs es (ioff hs es j) qd H d)
     = (case live es j of
          [] \<Rightarrow> Ret None (W pi pd k hs es (ioff hs es (length es)) qd1 H d1)
        | i # ls \<Rightarrow> Ret (Some (e_key (es ! i), e_data (es ! i))) (W pi pd k hs es (ioff hs es (Suc i)) qd1 H d1))"
    by blast
  show ?case
  proof (cases "live es j")
    case Nil
    with d1 show ?thesis
      by (intro exI [of _ "ioff hs es (length es)"] exI [of _ qd1] exI [of _ d1]) (simp add: bindc_exec)
  next
    case (Cons i ls)
    note N = live_next [OF Cons]
    have ok1: "good pi pd k hs es cs H d1" by (rule good_new [OF Suc.prems(1) goodD(5) [OF Suc.prems(1)] d1(1-4)])
    have lt: "length (live es (Suc i)) < n" using Suc.prems(3) Cons N by simp
    from Suc.IH [OF ok1 _ lt, of qd1] N obtain q' qd' d' where
      "idxfd d' = idxfd d1" "datfd d' = datfd d1" "nhash d' = nhash d1" "hashoff d' = hashoff d1"
      "scan n (W pi pd k hs es (ioff hs es (Suc i)) qd1 H d1)
       = Ret (map (\<lambda>i. (e_key (es ! i), e_data (es ! i))) ls) (W pi pd k hs es q' qd' H d')" by auto
    with d1 Cons show ?thesis
      by (intro exI [of _ q'] exI [of _ qd'] exI [of _ d']) (simp add: bindc_exec)
  qed
qed

definition nonblank :: "string \<Rightarrow> bool" where
  "nonblank key \<longleftrightarrow> (\<exists>c \<in> set key. c \<noteq> SPACE)"

lemma live_pairs:
  assumes inv: "db_inv n {} hs es cs"
  defines "ps \<equiv> map (\<lambda>i. (e_key (es ! i), e_data (es ! i))) (live es 0)"
  shows "set ps = {(k, v). db_map n es cs k = Some v \<and> nonblank k}" and "distinct (map fst ps)"
proof -
  note D = db_invD [OF inv]
  have nb: "blank_entry e = (\<not> nonblank (e_key e))" for e by (simp add: blank_entry_def nonblank_def)
  have lv: "i \<in> set (live es 0) \<longleftrightarrow> i < length es \<and> nonblank (e_key (es ! i))" for i
    by (auto simp: live_def nb)
  have on: "\<exists>h. h < n \<and> i \<in> set (cs (Suc h))" if "i \<in> set (live es 0)" for i
  proof -
    from that D(12) obtain x where x: "x \<le> n" "i \<in> set (cs x)" by (auto simp: lv)
    have "x \<noteq> 0"
    proof
      assume "x = 0"
      with D(11) [of i] x that show False by (simp add: lv nb)
    qed
    then obtain h where "x = Suc h" by (cases x) auto
    with x show ?thesis by (intro exI [of _ h]) simp
  qed
  have inj: "inj_on (\<lambda>i. e_key (es ! i)) (set (live es 0))"
  proof (rule inj_onI)
    fix i i' assume *: "i \<in> set (live es 0)" "i' \<in> set (live es 0)" "e_key (es ! i) = e_key (es ! i')"
    from on [OF *(1)] on [OF *(2)] obtain h h' where h: "h < n" "i \<in> set (cs (Suc h))" "h' < n" "i' \<in> set (cs (Suc h'))" by blast
    have "h = h'" using D(9) [OF h(1,2)] D(9) [OF h(3,4)] *(3) by simp
    with inj_onD [OF D(10) [OF h(1)] *(3)] h show "i = i'" by simp
  qed
  have "distinct (live es 0)" by (simp add: live_def)
  with inj show "distinct (map fst ps)" by (simp add: ps_def distinct_map comp_def)
  show "set ps = {(k, v). db_map n es cs k = Some v \<and> nonblank k}"
  proof (intro set_eqI iffI)
    fix p assume "p \<in> set ps"
    then obtain i where i: "i \<in> set (live es 0)" "p = (e_key (es ! i), e_data (es ! i))" by (auto simp: ps_def)
    from on [OF i(1)] db_map_found [OF inv] i show "p \<in> {(k, v). db_map n es cs k = Some v \<and> nonblank k}"
      by (auto simp: lv)
  next
    fix p assume "p \<in> {(k, v). db_map n es cs k = Some v \<and> nonblank k}"
    then obtain k v where p: "p = (k, v)" "db_map n es cs k = Some v" "nonblank k" by auto
    from find_index [OF inv p(2)] obtain i where "i < length es" "e_key (es ! i) = k" "e_data (es ! i) = v" by metis
    with p show "p \<in> set ps" by (auto simp: ps_def lv intro!: image_eqI [of _ _ i])
  qed
qed

lemma scan_rep:
  assumes "db_rep pi pd M s"
  shows "\<exists>ps s'. bindc db_rewind (\<lambda>_. scan (Suc (idx_size s))) s = Ret ps s' \<and> db_rep pi pd M s'
     \<and> set ps = {(k, v). M k = Some v \<and> nonblank k} \<and> distinct (map fst ps)"
  using assms
proof (rule db_repE)
  fix k hs es cs q qd H d
  assume s: "s = W pi pd k hs es q qd H d" and ok: "good pi pd k hs es cs H d"
    and M: "M = db_map (nhash d) es cs"
  note G = goodD [OF ok]
  let ?d = "d\<lparr>idxoff := int (ioff hs es 0)\<rparr>"
  have o: "(int (nhash d) + 1) * int PTR_SZ + 1 = int (ioff hs es 0)"
    using G(9) by (simp add: ioff_def hlen_def PTR_SZ_def)
  have rw: "db_rewind s = Ret () (W pi pd k hs es (ioff hs es 0) qd H ?d)"
    using G(2) unfolding s db_rewind_def by (simp add: bindc_exec get_db_W o) (simp add: W_def exec)
  have ok1: "good pi pd k hs es cs H ?d" by (rule good_new [OF ok G(5)]) simp_all
  have "length (live es 0) \<le> length es" unfolding live_def by (metis length_filter_le length_upt diff_zero)
  then have "length (live es 0) < Suc (idx_size s)"
    using length_es_le [OF G(4), of 0] G(2) by (simp add: s idx_file_def)
  from scan_W [OF ok1 _ this, of qd] obtain q' qd' d' where
    d': "idxfd d' = idxfd ?d" "datfd d' = datfd ?d" "nhash d' = nhash ?d" "hashoff d' = hashoff ?d"
      "scan (Suc (idx_size s)) (W pi pd k hs es (ioff hs es 0) qd H ?d)
       = Ret (map (\<lambda>i. (e_key (es ! i), e_data (es ! i))) (live es 0)) (W pi pd k hs es q' qd' H d')" by blast
  have "db_rep pi pd M (W pi pd k hs es q' qd' H d')"
    using good_new [OF ok G(5)] d' M by (intro db_repI) simp_all
  moreover have "bindc db_rewind (\<lambda>_. scan (Suc (idx_size s))) s
      = Ret (map (\<lambda>i. (e_key (es ! i), e_data (es ! i))) (live es 0)) (W pi pd k hs es q' qd' H d')"
    using d'(5) by (simp add: bindc_exec rw del: scan.simps)
  ultimately show ?thesis using live_pairs [OF G(5)] M by blast
qed

end
