(* ===== verification/Db_Props.thy ===== *)
theory Db_Props
  imports Db_Client Db_Session Db_Scan
begin

text \<open>
  The properties of the database library, over the programs of \<^theory_text>\<open>Db\<close>.
\<close>

section \<open>A concrete database\<close>

definition demo :: "nat \<Rightarrow> dbst" where
  "demo n = W ''db.idx'' ''db.dat''
     \<lparr>disk = Map.empty, fdtab = [None, None], held = [], fault = None, errno = E_NONE\<rparr>
     (replicate (n + 1) 0) [] 0 0 []
     (db_alloc\<lparr>idxfd := 0, datfd := 1, nhash := n, hashoff := 7\<rparr>)"

lemma demo_good:
  "0 < n \<Longrightarrow> good ''db.idx'' ''db.dat''
     \<lparr>disk = Map.empty, fdtab = [None, None], held = [], fault = None, errno = E_NONE\<rparr>
     (replicate (n + 1) 0) [] (\<lambda>_. []) []
     (db_alloc\<lparr>idxfd := 0, datfd := 1, nhash := n, hashoff := 7\<rparr>)"
  using empty_inv [of n] db_invD(3,4) [OF empty_inv [of n]]
  by (simp add: good_def okW_def ok_base_def no_locks_def)

lemma demo_rep: "0 < n \<Longrightarrow> db_rep ''db.idx'' ''db.dat'' Map.empty (demo n)"
  unfolding demo_def by (rule db_repI, erule demo_good) simp

lemma demo_sel [simp]: "held (kern (demo n)) = []" "nhash (db (demo n)) = n" "fault (kern (demo n)) = None"
  by (simp_all add: demo_def W_def world_def)

lemma demo_size: "0 < n \<Longrightarrow> idx_size (demo n) = 7 * (n + 1) + 1"
proof -
  assume "0 < n"
  note G = goodD [OF demo_good [OF this]]
  from idx_size_W [OF G(2), of "replicate (n + 1) 0" "[]" 0 0 "[]"] length_enc_hdr [OF G(3)]
  show ?thesis by (simp only: demo_def) (simp add: idx_file_def hlen_def del: replicate_Suc)
qed

lemma storable_demo: "storable ''Alpha'' ''data1''"
  by (simp add: storable_def ok_key_def ok_data_def NUL_def SEP_def)

lemma nonblank_alpha: "nonblank ''Alpha''"
  by (simp add: nonblank_def SPACE_def)

lemma demo_one: "\<exists>s. db_rep ''db.idx'' ''db.dat'' [''Alpha'' \<mapsto> ''data1''] s \<and> held (kern s) = []
    \<and> nhash (db s) = NHASH_DEF"
proof -
  have "idx_size (demo NHASH_DEF) \<le> 9999999" by (simp add: demo_size NHASH_DEF_def)
  from store_rep [OF demo_rep storable_demo this, of DB_STORE] show ?thesis
    by (auto simp: NHASH_DEF_def store_map_def store_result_def DB_STORE_def DB_INSERT_def DB_REPLACE_def frame_def)
qed

section \<open>The map contract\<close>

text \<open>
  C1.  Let the files stand for the map \<open>M\<close>, and let every key that a call stores be 1 to 1000 bytes without
  \<open>:\<close> and \<open>NUL\<close> and its data 1 to 1023 bytes without \<open>NUL\<close>; let the index file have room, that is, its
  size before the run and 1035 bytes for each store but the last stay within the 9999999 of a chain
  pointer; let no other process use the files.  Then the run of such a sequence of \<open>db_fetch\<close>,
  \<open>db_delete\<close> (of any keys) and \<open>db_store\<close> does not abort, returns exactly what the sequence returns on \<open>M\<close>,
  and leaves files that stand for the resulting map.  What happens to other keys and data is said by
  \<open>db_store_bad_length\<close> and \<open>db_separator_in_key\<close>.
\<close>

theorem db_calls_refine_map:
  assumes "db_rep pi pd M s" and "\<forall>c \<in> set cs. call_ok storable c"
    and "idx_size s + 1035 * stores cs \<le> 9999999 + 1035"
  shows "\<exists>s'. run_calls db_fetch db_delete db_store cs s = Ret (fst (map_calls store_result cs M)) s'
           \<and> db_rep pi pd (snd (map_calls store_result cs M)) s'"
  using kv.run_correct [OF assms] by blast

theorem db_calls_refine_map_witness:
  "\<exists>s'. run_calls db_fetch db_delete db_store
       [Store ''Alpha'' ''data1'' DB_INSERT, Fetch ''Alpha'', Delete ''Alpha'', Fetch ''Alpha''] (demo 3)
     = Ret [Code 0, Value (Some ''data1''), Code 0, Value None] s'"
  using db_calls_refine_map [OF demo_rep [of 3],
      of "[Store ''Alpha'' ''data1'' DB_INSERT, Fetch ''Alpha'', Delete ''Alpha'', Fetch ''Alpha'']"]
    storable_demo demo_size [of 3]
  by (auto simp: store_result_def DB_INSERT_def DB_REPLACE_def)

text \<open>
  C2.  \<open>db_store\<close> of a key of 1 to 1000 bytes without \<open>:\<close> and \<open>NUL\<close>, with data of 1 to 1023 bytes without
  \<open>NUL\<close>, into files for \<open>M\<close> whose index is at most 9999999 bytes long, in a single process: it returns 0 and
  the files stand for \<open>M(key \<mapsto> data)\<close> (for a new key with \<open>DB_INSERT\<close> or \<open>DB_STORE\<close>, an existing one with
  \<open>DB_REPLACE\<close> or \<open>DB_STORE\<close>), 1 on an existing key with \<open>DB_INSERT\<close>, -1 on a missing key with
  \<open>DB_REPLACE\<close> or an unknown flag, the map unchanged; all locks taken are released, no other
  file changes, and the index file grows by at most 1035 bytes.
\<close>

theorem db_store_correct:
  assumes "db_rep pi pd M s" and "storable key data" and "idx_size s \<le> 9999999"
  shows "\<exists>s'. db_store key data flag s = Ret (store_result M key flag) s'
           \<and> db_rep pi pd (store_map M key data flag) s' \<and> frame pi pd s s'
           \<and> idx_size s' \<le> idx_size s + 1035"
  by (rule store_rep [OF assms])

theorem db_store_correct_witness:
  "\<exists>s'. db_store ''Alpha'' ''data1'' DB_INSERT (demo 3) = Ret 0 s'
     \<and> db_rep ''db.idx'' ''db.dat'' [''Alpha'' \<mapsto> ''data1''] s'"
  using db_store_correct [OF demo_rep [of 3] storable_demo, of DB_INSERT] demo_size [of 3]
  by (auto simp: store_map_def store_result_def DB_INSERT_def DB_REPLACE_def)

text \<open>
  C3.  \<open>db_fetch\<close> returns the data the map has under the key, and \<open>NULL\<close> exactly when it has
  none; the database still stands for the map, no file changes and the chain lock is released.
\<close>

theorem db_fetch_correct:
  assumes "db_rep pi pd M s"
  shows "\<exists>s'. db_fetch key s = Ret (M key) s' \<and> db_rep pi pd M s' \<and> frame pi pd s s'
           \<and> disk (kern s') = disk (kern s)"
  using fetch_rep [OF assms, of key] by blast

theorem db_fetch_correct_witness:
  "\<exists>s s'. db_fetch ''Alpha'' s = Ret (Some ''data1'') s'"
proof -
  from demo_one obtain s where "db_rep ''db.idx'' ''db.dat'' [''Alpha'' \<mapsto> ''data1''] s" by blast
  from db_fetch_correct [OF this, of "''Alpha''"] show ?thesis by auto
qed

text \<open>
  C4.  \<open>db_delete\<close> returns 0 and removes the key from the map when it is there, and returns -1
  otherwise; the index file keeps its length (the record goes to the free list), the locks are
  released and no other file changes.
\<close>

theorem db_delete_correct:
  assumes "db_rep pi pd M s"
  shows "\<exists>s'. db_delete key s = Ret (if M key = None then -1 else 0) s'
           \<and> db_rep pi pd (M(key := None)) s' \<and> frame pi pd s s' \<and> idx_size s' = idx_size s"
  by (rule delete_rep [OF assms])

theorem db_delete_correct_witness:
  "\<exists>s s'. db_delete ''Alpha'' s = Ret 0 s' \<and> db_rep ''db.idx'' ''db.dat'' Map.empty s'"
proof -
  from demo_one obtain s where "db_rep ''db.idx'' ''db.dat'' [''Alpha'' \<mapsto> ''data1''] s" by blast
  from db_delete_correct [OF this, of "''Alpha''"] show ?thesis by auto
qed

section \<open>Sessions\<close>

text \<open>
  \<open>db_open\<close> with \<open>O_CREAT | O_TRUNC\<close> succeeds on any file system that does not fail, creates
  the two files and leaves a database that stands for the empty map, with no lock held and no
  other file changed.
\<close>

theorem db_open_creates_empty:
  assumes "fault (kern s) = None" and "held (kern s) = []"
    and "O_CREAT \<in> set fl" "O_TRUNC \<in> set fl" "O_EXCL \<notin> set fl"
  shows "\<exists>s'. db_open path fl s = Ret True s'
           \<and> db_rep (path @ ''.idx'') (path @ ''.dat'') Map.empty s' \<and> held (kern s') = []
           \<and> (\<forall>p. p \<noteq> path @ ''.idx'' \<longrightarrow> p \<noteq> path @ ''.dat'' \<longrightarrow> disk (kern s') p = disk (kern s) p)"
  by (rule db_open_fresh [OF assms])

theorem db_open_creates_empty_witness:
  "\<exists>s'. db_open ''db4'' [O_RDWR, O_CREAT, O_TRUNC] (demo 1) = Ret True s'
     \<and> db_rep ''db4.idx'' ''db4.dat'' Map.empty s'"
  using db_open_creates_empty [of "demo 1" "[O_RDWR, O_CREAT, O_TRUNC]" "''db4''"] by auto

text \<open>
  C34.  The map outlives the process: \<open>db_close\<close> and a later \<open>db_open\<close> without \<open>O_TRUNC\<close> give a
  database that stands for the same map, the files unchanged.
\<close>

theorem db_reopen_keeps_map:
  assumes "db_rep (path @ ''.idx'') (path @ ''.dat'') M s" and "held (kern s) = []"
    and "nhash (db s) = NHASH_DEF" and "O_TRUNC \<notin> set fl" "O_EXCL \<notin> set fl"
  shows "\<exists>s1 s2. db_close s = Ret () s1 \<and> db_open path fl s1 = Ret True s2
           \<and> disk (kern s2) = disk (kern s) \<and> db_rep (path @ ''.idx'') (path @ ''.dat'') M s2"
  by (rule reopen_rep [OF assms])

theorem db_reopen_keeps_map_witness:
  "\<exists>s s1 s2. db_close s = Ret () s1 \<and> db_open ''db'' [O_RDWR] s1 = Ret True s2
     \<and> db_rep ''db.idx'' ''db.dat'' [''Alpha'' \<mapsto> ''data1''] s2"
proof -
  from demo_one obtain s where s: "db_rep (''db'' @ ''.idx'') (''db'' @ ''.dat'') [''Alpha'' \<mapsto> ''data1''] s"
    "held (kern s) = []" "nhash (db s) = NHASH_DEF" by auto
  from db_reopen_keeps_map [OF s, of "[O_RDWR]"] show ?thesis by auto
qed

text \<open>
  \<open>db_rewind\<close> and then \<open>db_nextrec\<close> until it returns \<open>NULL\<close> reads every record once: the
  pairs read are those of the map, each key once.  A key of blanks only is passed over, because
  \<open>db_nextrec\<close> takes it for a deleted record.
\<close>

theorem db_nextrec_reads_all:
  assumes "db_rep pi pd M s"
  shows "\<exists>ps s'. bindc db_rewind (\<lambda>_. scan (Suc (idx_size s))) s = Ret ps s' \<and> db_rep pi pd M s'
     \<and> set ps = {(k, v). M k = Some v \<and> nonblank k} \<and> distinct (map fst ps)"
  by (rule scan_rep [OF assms])

theorem db_nextrec_reads_all_witness:
  "\<exists>s ps s'. bindc db_rewind (\<lambda>_. scan (Suc (idx_size s))) s = Ret ps s' \<and> set ps = {(''Alpha'', ''data1'')}"
proof -
  from demo_one obtain s where "db_rep ''db.idx'' ''db.dat'' [''Alpha'' \<mapsto> ''data1''] s" by blast
  from db_nextrec_reads_all [OF this] obtain ps s' where
    run: "bindc db_rewind (\<lambda>_. scan (Suc (idx_size s))) s = Ret ps s'"
    and "set ps = {(k, v). [''Alpha'' \<mapsto> ''data1''] k = Some v \<and> nonblank k}" by blast
  moreover have "{(k, v). [''Alpha'' \<mapsto> ''data1''] k = Some v \<and> nonblank k} = {(''Alpha'', ''data1'')}"
    using nonblank_alpha by (auto split: if_splits)
  ultimately have "set ps = {(''Alpha'', ''data1'')}" by (simp only:)
  with run show ?thesis by blast
qed

section \<open>Records, keys, errors\<close>

text \<open>
  An index record appended by \<open>_db_writeidx\<close> is read back by \<open>_db_readidx\<close> at the offset the
  write recorded: the pointer is returned and the key, the offset and the length of the data
  record are in the \<open>DB\<close> structure.
\<close>

theorem db_index_record_roundtrip:
  assumes "ok_base pi pd k (idxfd d) (datfd d)" and "ok_entry off e"
    and "datoff d = int off" "datlen d = int (length (e_data e)) + 1"
    and "no_locks (idxfd d) (datfd d) H" and "I \<noteq> []"
  shows "\<exists>s' s''. db_writeidx (e_key e) 0 SEEK_END (int (e_ptr e)) (world pi pd k I D q qd H d) = Ret () s'
     \<and> idxoff (db s') = int (length I)
     \<and> db_readidx (idxoff (db s')) s' = Ret (int (e_ptr e)) s''
     \<and> cstr (idxbuf (db s'')) = e_key e \<and> datoff (db s'') = int off
     \<and> datlen (db s'') = int (length (e_data e)) + 1"
proof -
  have u: "unlocked (idxfd d) ((int (nhash d) + 1) * int PTR_SZ + 1) 0 H = H" using assms(5) by simp
  let ?d = "written (length I) off e d"
  have dbw: "db (world pi pd k I D q qd H d) = d" for I D q qd H d by (simp add: world_def)
  have n: "NUL \<notin> set (e_key e)" using assms(2) by (simp add: ok_entry_def ok_key_def)
  have "ok_base pi pd k (idxfd ?d) (datfd ?d)" using assms(1) by simp
  from readidx_tail [OF this assms(2), of "I @ enc_entry off e" I "[]" "length I" "int (length I)"] assms(6)
  show ?thesis
    unfolding writeidx_append [OF assms(1-4) u] by (simp add: dbw cstr_idx_image [OF n])
qed

theorem db_index_record_roundtrip_witness:
  "\<exists>s' s''. db_writeidx ''Beta'' 0 SEEK_END 83
       (world ''i'' ''d'' (kern (demo 1)) ''x'' ''dat'' 0 0 [] (db_alloc\<lparr>idxfd := 0, datfd := 1, datoff := 12, datlen := 5\<rparr>))
     = Ret () s' \<and> db_readidx (idxoff (db s')) s' = Ret 83 s'' \<and> cstr (idxbuf (db s'')) = ''Beta''"
proof -
  let ?d = "db_alloc\<lparr>idxfd := 0, datfd := 1, datoff := 12, datlen := 5\<rparr>"
  let ?e = "\<lparr>e_ptr = 83, e_key = ''Beta'', e_data = ''abcd''\<rparr>"
  have "ok_base ''i'' ''d'' (kern (demo 1)) (idxfd ?d) (datfd ?d)"
    by (simp add: ok_base_def demo_def W_def world_def)
  moreover have "ok_entry 12 ?e"
    using length_dec_le [of 12 2] length_dec_le [of "Suc (Suc (Suc (Suc (Suc 0))))" 1]
    by (simp add: ok_entry_def ok_key_def ok_data_def rec_body_def NUL_def SEP_def)
  ultimately show ?thesis
    using db_index_record_roundtrip [of "''i''" "''d''" "kern (demo 1)" ?d 12 ?e "[]" "''x''" "''dat''" 0 0]
    by (auto simp: no_locks_def)
qed

lemma db_hash_loop_sum:
  "db_hash_loop h i cs = h + of_int (\<Sum>j < length cs. schar (cs ! j) * (i + int j))"
proof (induction cs arbitrary: h i)
  case (Cons c cs)
  have "(\<Sum>j < length (c # cs). schar ((c # cs) ! j) * (i + int j))
      = schar c * i + (\<Sum>j < length cs. schar (cs ! j) * (i + 1 + int j))"
    by (simp add: sum.lessThan_Suc_shift algebra_simps del: sum.lessThan_Suc)
  with Cons show ?case by (simp add: add.assoc)
qed simp

text \<open>
  \<open>_db_hash\<close> is the sum of the (signed) characters times their position from 1, modulo
  \<open>2^64\<close> and the table size; the pointer field it selects is one of the \<open>nhash\<close> chain heads.
\<close>

theorem db_hash_is_weighted_sum:
  assumes "0 < n"
  shows "db_hash n key = nat ((\<Sum>j < length key. schar (key ! j) * (int j + 1)) mod 2 ^ 64) mod n
    \<and> db_hash n key < n"
proof -
  let ?S = "\<Sum>j < length key. schar (key ! j) * (1 + int j)"
  have "unat (of_int ?S :: 64 word) = nat (?S mod 2 ^ 64)"
    unfolding unat_eq_nat_uint uint_word_of_int_eq take_bit_eq_mod by simp
  moreover have "db_hash_loop 0 1 key = of_int ?S" by (simp only: db_hash_loop_sum add_0)
  ultimately show ?thesis using assms by (simp only: db_hash_def add.commute) simp
qed

theorem db_hash_is_weighted_sum_witness:
  "db_hash 137 ''ab'' = 19 \<and> db_hash 137 ''ab'' < 137"
  using db_hash_is_weighted_sum [of 137 "''ab''"] by (simp add: schar_def numeral_2_eq_2)

text \<open>
  Data of length 0 or of 1024 bytes and more is refused before anything is read, locked or
  written: \<open>db_store\<close> aborts and the state is the one it was called in.
\<close>

theorem db_store_bad_length:
  assumes "data = [] \<or> 1024 \<le> length data" and "flag \<in> {DB_INSERT, DB_REPLACE, DB_STORE}"
  shows "db_store key data flag s = Abort (Err_dump ''db_store: invalid data length'') s"
  using assms
  by (auto simp: db_store_def bindc_exec check_def DATLEN_MIN_def DATLEN_MAX_def)

theorem db_store_bad_length_witness:
  "db_store ''k'' [] DB_STORE (demo 1) = Abort (Err_dump ''db_store: invalid data length'') (demo 1)"
  by (rule db_store_bad_length) simp_all

lemma strchr_exists: "SEP \<in> set xs \<Longrightarrow> NUL \<notin> set xs \<Longrightarrow> strchr (xs @ ys) SEP \<noteq> None"
proof -
  assume s: "SEP \<in> set xs" "NUL \<notin> set xs"
  from split_list_first [OF s(1)] obtain as bs where x: "xs = as @ SEP # bs" "SEP \<notin> set as" by blast
  then have "strchr (as @ SEP # bs @ ys) SEP = Some (length as)"
    using s(2) by (intro strchr_first) auto
  with x show ?thesis by simp
qed

lemma split_idx_three:
  assumes "SEP \<notin> set a" "SEP \<notin> set b" "SEP \<in> set c" and "NUL \<notin> set (a @ b @ c)"
  shows "split_idx (a @ SEP # b @ SEP # c @ [NEWLINE])
         = Inl (Err_dump ''_db_readidx: too many separators'')"
proof -
  let ?b0 = "a @ SEP # b @ SEP # c @ [NEWLINE]"
  have e1: "?b0[length ?b0 - 1 := NUL] = a @ SEP # b @ SEP # c @ [NUL]"
    by (simp add: list_update_append)
  have s1: "strchr (a @ SEP # b @ SEP # c @ [NUL]) SEP = Some (length a)"
    using assms by (intro strchr_first) auto
  have e2: "(a @ SEP # b @ SEP # c @ [NUL])[length a := NUL] = a @ NUL # b @ SEP # c @ [NUL]"
    by (simp add: list_update_append)
  have s2: "strchr (b @ SEP # c @ [NUL]) SEP = Some (length b)"
    using assms by (intro strchr_first) auto
  have e3: "(a @ NUL # b @ SEP # c @ [NUL])[Suc (length a) + length b := NUL] = a @ NUL # b @ NUL # c @ [NUL]"
    by (simp add: list_update_append)
  obtain i where s3: "strchr (c @ [NUL]) SEP = Some i"
    using strchr_exists [OF assms(3), of "[NUL]"] assms(4) by auto
  have n0: "?b0 \<noteq> []" "last ?b0 = NEWLINE" by simp_all
  show ?thesis
    unfolding split_idx_def Let_def e1 s1 option.case e2
    using n0 by (simp add: s2 s3 e3 [simplified])
qed

text \<open>
  A key that contains the separator \<open>:\<close> is accepted by \<open>_db_writeidx\<close>, but \<open>_db_readidx\<close>
  aborts on the record it wrote, whatever the rest of the record: the part of \<open>_db_readidx\<close> that
  splits the record finds a third separator.
\<close>

theorem db_separator_in_key:
  assumes "SEP \<in> set (e_key e)" and "NUL \<notin> set (e_key e)"
  shows "split_idx (rec_body off e) = Inl (Err_dump ''_db_readidx: too many separators'')"
proof -
  from split_list_first [OF assms(1)] obtain k1 k2 where k: "e_key e = k1 @ SEP # k2" "SEP \<notin> set k1" by blast
  let ?c = "dec off @ SEP # dec (length (e_data e) + 1)"
  show ?thesis
  proof (cases "SEP \<in> set k2")
    case False
    have "split_idx (k1 @ SEP # k2 @ SEP # ?c @ [NEWLINE]) = Inl (Err_dump ''_db_readidx: too many separators'')"
      using False k assms(2) by (intro split_idx_three) auto
    then show ?thesis by (simp add: rec_body_def k)
  next
    case True
    from split_list_first [OF this] obtain k3 k4 where k2: "k2 = k3 @ SEP # k4" "SEP \<notin> set k3" by blast
    have "split_idx (k1 @ SEP # k3 @ SEP # (k4 @ SEP # ?c) @ [NEWLINE]) = Inl (Err_dump ''_db_readidx: too many separators'')"
      using k k2 assms(2) by (intro split_idx_three) auto
    then show ?thesis by (simp add: rec_body_def k k2)
  qed
qed

theorem db_separator_in_key_witness:
  "split_idx (rec_body 0 \<lparr>e_ptr = 0, e_key = ''a:b'', e_data = ''x''\<rparr>)
     = Inl (Err_dump ''_db_readidx: too many separators'')"
  by (rule db_separator_in_key) (simp_all add: SEP_def NUL_def)

text \<open>
  Opening a database that is not there without \<open>O_CREAT\<close> returns \<open>NULL\<close>, leaves every file
  as it was and no descriptor open.
\<close>

theorem db_open_missing:
  assumes "fault (kern s) = None" and "disk (kern s) (path @ ''.idx'') = None"
    and "disk (kern s) (path @ ''.dat'') = None" and "O_CREAT \<notin> set fl"
  shows "\<exists>s'. db_open path fl s = Ret False s' \<and> kern s' = kern s \<and> db s' = db_alloc"
  using assms
  by (simp add: db_open_def db_free_def bindc_exec set_db_def get_db_def kcall_def sys_open_def syscall_ok)

theorem db_open_missing_witness:
  "\<exists>s'. db_open ''none'' [O_RDWR] (demo 1) = Ret False s' \<and> kern s' = kern (demo 1)"
proof -
  have "disk (kern (demo 1)) (''none'' @ ''.idx'') = None" "disk (kern (demo 1)) (''none'' @ ''.dat'') = None"
    by (simp_all add: demo_def W_def world_def)
  from db_open_missing [OF _ this, of "[O_RDWR]"] show ?thesis by auto
qed

end
