(* ===== verification/Mem_Stream.thy ===== *)
theory Mem_Stream
  imports Unix_Files
begin

unbundle bit_operations_syntax

text \<open>
  The memory stream of \<open>apue.3e/exercises/fmemopen.c\<close>: a stdio stream over a buffer.  \<open>rsize\<close> is
  the size of the buffer, \<open>vsize\<close> the part that counts as the file, \<open>curpos\<close> the position.  The
  stream functions get the cookie and return it updated; an error is \<open>Inl\<close> of the \<open>errno\<close> set.
  The sizes in the cookie are \<open>size_t\<close>, but the functions compute lengths and positions in \<open>int\<close>
  variables: every assignment to one is written out as a conversion, and a \<open>memcpy\<close> that leaves
  the buffer or the caller's bytes aborts as \<open>Undefined\<close>.
  The contents \<open>malloc\<close> hands out are an argument (\<open>None\<close> when it fails).
\<close>

record memstream =
  ms_buf :: string
  ms_rsize :: nat
  ms_vsize :: nat
  ms_curpos :: nat
  ms_flags :: "32 word"

definition MS_READ :: "32 word" where "MS_READ = 0x01"
definition MS_WRITE :: "32 word" where "MS_WRITE = 0x02"
definition MS_APPEND :: "32 word" where "MS_APPEND = 0x04"
definition MS_TRUNCATE :: "32 word" where "MS_TRUNCATE = 0x08"
definition MS_MYBUF :: "32 word" where "MS_MYBUF = 0x10"

lemmas ms_flag_defs = MS_READ_def MS_WRITE_def MS_APPEND_def MS_TRUNCATE_def MS_MYBUF_def

fun type_loop :: "32 word \<Rightarrow> string \<Rightarrow> 32 word" where
  "type_loop fl [] = fl"
| "type_loop fl (c # cs) =
     (if c = CHR ''r'' then (if fl \<noteq> 0 then 0 else type_loop (fl OR MS_READ) cs)
      else if c = CHR ''w'' then (if fl \<noteq> 0 then 0 else type_loop (fl OR (MS_WRITE OR MS_TRUNCATE)) cs)
      else if c = CHR ''a'' then (if fl \<noteq> 0 then 0 else type_loop (fl OR MS_APPEND) cs)
      else if c = CHR ''+'' then (if fl = 0 then 0 else type_loop (fl OR (MS_READ OR MS_WRITE)) cs)
      else if c = CHR ''b'' then (if fl = 0 then 0 else type_loop fl cs)
      else 0)"

definition type_to_flags :: "string \<Rightarrow> 32 word" where
  "type_to_flags type = type_loop 0 type"

fun find_end :: "string \<Rightarrow> nat \<Rightarrow> nat" where
  "find_end (c # cs) (Suc len) = (if c = NUL then 0 else Suc (find_end cs len))"
| "find_end _ _ = 0"

definition fmemopen :: "string option \<Rightarrow> string option \<Rightarrow> nat \<Rightarrow> string \<Rightarrow> errno + memstream" where
  "fmemopen mem buf sz type =
     (let fl = type_to_flags type in
      if sz = 0 then Inl EINVAL
      else if fl = 0 then Inl EINVAL
      else
        case (case buf of
                None \<Rightarrow>
                  if fl AND (MS_READ OR MS_WRITE) \<noteq> MS_READ OR MS_WRITE then Inl EINVAL
                  else (case mem of None \<Rightarrow> Inl ENOMEM | Some b \<Rightarrow> Inr (b, fl OR MS_MYBUF, 0))
              | Some b \<Rightarrow> Inr (b, fl, if fl AND MS_APPEND \<noteq> 0 then find_end b sz else 0)) of
          Inl e \<Rightarrow> Inl e
        | Inr (b, fl, pos) \<Rightarrow>
            Inr \<lparr>ms_buf = b, ms_rsize = sz,
                 ms_vsize = (if fl AND MS_APPEND \<noteq> 0 then pos
                             else if fl AND MS_TRUNCATE \<noteq> 0 then 0 else sz),
                 ms_curpos = pos, ms_flags = fl\<rparr>)"

text \<open>
  The conversions of C: to a \<open>size_t\<close> of 64 bits, and to an \<open>int\<close> of 32 bits in two's
  complement.  \<open>MIN(len, n)\<close> compares the \<open>int\<close> as a \<open>size_t\<close>, so a negative length is the larger
  one.
\<close>

definition size_of :: "int \<Rightarrow> nat" where
  "size_of x = nat (x mod 2 ^ 64)"

definition to_int :: "int \<Rightarrow> int" where
  "to_int x = sint (word_of_int x :: 32 word)"

definition int_max :: int where "int_max = 2147483647"

definition min_len :: "int \<Rightarrow> nat \<Rightarrow> nat" where
  "min_len len n = (if size_of len < n then size_of len else n)"

text \<open>\<open>mstream_read\<close> copies to a buffer of \<open>len\<close> bytes and returns what it copied.\<close>

definition mstream_read :: "memstream \<Rightarrow> int \<Rightarrow> (memstream, errno + string) outcome" where
  "mstream_read ms len =
     (if ms_flags ms AND MS_READ = 0 then Ret (Inl EBADF) ms
      else if ms_curpos ms \<ge> ms_vsize ms then Ret (Inr []) ms
      else let nr = to_int (int (min_len len (ms_vsize ms - ms_curpos ms))) in
        if nr < 0 \<or> nr > len then Abort Undefined ms
        else Ret (Inr (take (nat nr) (drop (ms_curpos ms) (ms_buf ms))))
               (ms\<lparr>ms_curpos := ms_curpos ms + nat nr\<rparr>))"

text \<open>
  The three steps of a write: \<open>memcpy(ms->buf + off, buf, nw)\<close> (an overlay of the first \<open>nw\<close>
  bytes) and the new position; the virtual size grows, with a null byte after it on a stream
  open for both directions; a null byte at the position on a stream open for writing only.
\<close>

definition ms_put :: "nat \<Rightarrow> string \<Rightarrow> memstream \<Rightarrow> memstream" where
  "ms_put off bs ms = ms\<lparr>ms_buf := overlay NUL (ms_buf ms) off bs, ms_curpos := off + length bs\<rparr>"

definition ms_grow :: "memstream \<Rightarrow> memstream" where
  "ms_grow ms =
     (if ms_curpos ms > ms_vsize ms
      then let ms' = ms\<lparr>ms_vsize := ms_curpos ms\<rparr> in
        if ms_flags ms' AND (MS_READ OR MS_WRITE) = MS_READ OR MS_WRITE \<and> ms_vsize ms' < ms_rsize ms'
        then ms'\<lparr>ms_buf := (ms_buf ms')[ms_vsize ms' := NUL]\<rparr> else ms'
      else ms)"

definition ms_term :: "memstream \<Rightarrow> memstream" where
  "ms_term ms =
     (if ms_flags ms AND (MS_WRITE OR MS_APPEND) \<noteq> 0 \<and> ms_flags ms AND MS_READ = 0
      then if ms_curpos ms < ms_rsize ms
           then ms\<lparr>ms_buf := (ms_buf ms)[ms_curpos ms := NUL]\<rparr>
           else ms\<lparr>ms_buf := (ms_buf ms)[ms_rsize ms - 1 := NUL]\<rparr>
      else ms)"

text \<open>\<open>off\<close> and \<open>nw\<close> are \<open>int\<close>; \<open>bs\<close> are the bytes the caller's pointer leads to.\<close>

definition mstream_write :: "memstream \<Rightarrow> string \<Rightarrow> int \<Rightarrow> (memstream, errno + nat) outcome" where
  "mstream_write ms bs len =
     (if ms_flags ms AND (MS_APPEND OR MS_WRITE) = 0 then Ret (Inl EBADF) ms
      else
        let off = to_int (int (if ms_flags ms AND MS_APPEND \<noteq> 0 then ms_vsize ms else ms_curpos ms));
            nw = to_int (int (min_len len (size_of (int (ms_rsize ms) - off))))
        in if off < 0 \<or> nw < 0 \<or> nw > int (length bs) \<or> off + nw > int (ms_rsize ms) \<or> off + nw > int_max
           then Abort Undefined ms
           else Ret (Inr (nat nw)) (ms_term (ms_grow (ms_put (nat off) (take (nat nw) bs) ms))))"

definition mstream_seek :: "memstream \<Rightarrow> int \<Rightarrow> whence \<Rightarrow> (memstream, errno + int) outcome" where
  "mstream_seek ms pos wh =
     (let off = to_int (case wh of SEEK_SET \<Rightarrow> pos | SEEK_END \<Rightarrow> int (ms_vsize ms) + pos
                        | SEEK_CUR \<Rightarrow> int (ms_curpos ms) + pos)
      in if off < 0 \<or> size_of off > ms_vsize ms then Ret (Inl EINVAL) ms
         else Ret (Inr off) (ms\<lparr>ms_curpos := size_of off\<rparr>))"

text \<open>\<open>mstream_close\<close> returns what it frees: the cookie, and the buffer when it is the stream's own.\<close>

datatype ms_block = Ms_buffer | Ms_cookie

definition mstream_close :: "memstream \<Rightarrow> int \<times> ms_block list" where
  "mstream_close ms = (0, (if ms_flags ms AND MS_MYBUF \<noteq> 0 then [Ms_buffer] else []) @ [Ms_cookie])"

section \<open>The invariant\<close>

definition ms_ok :: "memstream \<Rightarrow> bool" where
  "ms_ok ms \<longleftrightarrow> length (ms_buf ms) = ms_rsize ms \<and> 0 < ms_rsize ms
     \<and> ms_curpos ms \<le> ms_vsize ms \<and> ms_vsize ms \<le> ms_rsize ms"

lemma find_end_le: "find_end b n \<le> n" "find_end b n \<le> length b"
  by (induction b n rule: find_end.induct) auto

lemma find_end_no_NUL: "NUL \<notin> set (take (find_end b n) b)"
  by (induction b n rule: find_end.induct) auto

text \<open>
  A stdio client: any sequence of calls, each with a length that is an \<open>int\<close> and no longer than
  the caller's buffer.  A call that aborts ends the sequence.
\<close>

datatype ms_call = Ms_read int | Ms_write string int | Ms_seek int whence

fun call_ok :: "ms_call \<Rightarrow> bool" where
  "call_ok (Ms_read n) \<longleftrightarrow> 0 \<le> n \<and> n \<le> int_max"
| "call_ok (Ms_write bs n) \<longleftrightarrow> 0 \<le> n \<and> n \<le> int (length bs) \<and> n \<le> int_max"
| "call_ok (Ms_seek p wh) \<longleftrightarrow> True"

fun ms_step :: "ms_call \<Rightarrow> memstream \<Rightarrow> (memstream, unit) outcome" where
  "ms_step (Ms_read n) ms = bindc (\<lambda>s. mstream_read s n) (\<lambda>_. ret ()) ms"
| "ms_step (Ms_write bs n) ms = bindc (\<lambda>s. mstream_write s bs n) (\<lambda>_. ret ()) ms"
| "ms_step (Ms_seek p wh) ms = bindc (\<lambda>s. mstream_seek s p wh) (\<lambda>_. ret ()) ms"

fun ms_run :: "ms_call list \<Rightarrow> memstream \<Rightarrow> (memstream, unit) outcome" where
  "ms_run [] ms = Ret () ms"
| "ms_run (c # cs) ms = bindc (ms_step c) (\<lambda>_. ms_run cs) ms"

lemma to_int_eq: "to_int x = (x + 2 ^ 31) mod 2 ^ 32 - 2 ^ 31"
  by (simp add: to_int_def int_word_sint)

lemma to_int_id [simp]: "0 \<le> x \<Longrightarrow> x \<le> int_max \<Longrightarrow> to_int x = x"
  by (simp add: to_int_eq int_max_def)

lemma size_of_id [simp]: "0 \<le> x \<Longrightarrow> x \<le> int_max \<Longrightarrow> size_of x = nat x"
  by (simp add: size_of_def int_max_def)

lemma min_len_id [simp]: "0 \<le> len \<Longrightarrow> len \<le> int_max \<Longrightarrow> min_len len n = min (nat len) n"
  by (simp add: min_len_def min_def)

lemma read_ok:
  assumes "ms_ok ms" and "0 \<le> len" "len \<le> int_max"
  shows "\<exists>r ms'. mstream_read ms len = Ret r ms' \<and> ms_ok ms' \<and> ms_flags ms' = ms_flags ms \<and> ms_rsize ms' = ms_rsize ms"
proof -
  let ?n = "min (nat len) (ms_vsize ms - ms_curpos ms)"
  have "to_int (int ?n) = int ?n" using assms by (intro to_int_id) auto
  with assms show ?thesis by (auto simp: mstream_read_def ms_ok_def Let_def)
qed

lemma seek_ok:
  assumes "ms_ok ms"
  shows "\<exists>r ms'. mstream_seek ms p wh = Ret r ms' \<and> ms_ok ms' \<and> ms_flags ms' = ms_flags ms \<and> ms_rsize ms' = ms_rsize ms"
  using assms by (simp add: mstream_seek_def ms_ok_def Let_def)

lemma length_overlay_in: "off + length xs \<le> length b \<Longrightarrow> length (overlay z b off xs) = length b"
  by (simp add: length_overlay)

lemma part_simps [simp]:
  "ms_flags (ms_put off bs ms) = ms_flags ms" "ms_flags (ms_grow ms) = ms_flags ms" "ms_flags (ms_term ms) = ms_flags ms"
  "ms_rsize (ms_put off bs ms) = ms_rsize ms" "ms_rsize (ms_grow ms) = ms_rsize ms" "ms_rsize (ms_term ms) = ms_rsize ms"
  by (simp_all add: ms_put_def ms_grow_def ms_term_def Let_def)

lemma put_ok:
  assumes "ms_ok ms" and "off + length bs \<le> ms_rsize ms"
  shows "ms_ok (ms_grow (ms_put off bs ms))"
proof -
  have "length (overlay NUL (ms_buf ms) off bs) = ms_rsize ms"
    using assms by (simp add: length_overlay_in ms_ok_def)
  with assms show ?thesis by (simp add: ms_put_def ms_grow_def ms_ok_def Let_def)
qed

lemma term_ok: "ms_ok ms \<Longrightarrow> ms_ok (ms_term ms)"
  by (simp add: ms_term_def ms_ok_def)

lemma write_in_range:
  assumes "ms_flags ms AND (MS_APPEND OR MS_WRITE) \<noteq> 0" and "0 \<le> len" "len \<le> int_max" "len \<le> int (length bs)"
    and "off = (if ms_flags ms AND MS_APPEND \<noteq> 0 then ms_vsize ms else ms_curpos ms)"
    and "off \<le> ms_rsize ms" and "ms_rsize ms < 2 ^ 64" and "int off + min len (int (ms_rsize ms - off)) \<le> int_max"
  shows "mstream_write ms bs len = Ret (Inr (min (nat len) (ms_rsize ms - off)))
    (ms_term (ms_grow (ms_put off (take (min (nat len) (ms_rsize ms - off)) bs) ms)))"
proof -
  let ?n = "min (nat len) (ms_rsize ms - off)"
  have n: "int off + int ?n \<le> int_max" using assms(2,8) by simp
  then have o: "to_int (int off) = int off" by (intro to_int_id) simp_all
  have r: "size_of (int (ms_rsize ms) - int off) = ms_rsize ms - off"
    using assms(6,7) by (simp add: size_of_def)
  have w: "to_int (int ?n) = int ?n" using n by (intro to_int_id) simp_all
  have b: "int ?n \<le> int (length bs)" "int off + int ?n \<le> int (ms_rsize ms)" using assms(4,6) by auto
  show ?thesis using assms(1) b n unfolding mstream_write_def Let_def assms(5) [symmetric] o r min_len_id [OF assms(2,3)] w
    by (simp add: linorder_not_less [symmetric] del: min_less_iff_conj)
qed

lemma write_ok:
  assumes ok: "ms_ok ms" and small: "int (ms_rsize ms) \<le> int_max" and len: "0 \<le> len" "len \<le> int (length bs)" "len \<le> int_max"
  shows "\<exists>r ms'. mstream_write ms bs len = Ret r ms' \<and> ms_ok ms' \<and> ms_flags ms' = ms_flags ms \<and> ms_rsize ms' = ms_rsize ms"
proof (cases "ms_flags ms AND (MS_APPEND OR MS_WRITE) = 0")
  case True
  with ok show ?thesis by (simp add: mstream_write_def)
next
  case False
  define off where "off = (if ms_flags ms AND MS_APPEND \<noteq> 0 then ms_vsize ms else ms_curpos ms)"
  have o: "off \<le> ms_rsize ms" using ok by (auto simp: off_def ms_ok_def)
  let ?n = "min (nat len) (ms_rsize ms - off)"
  have "int off + min len (int (ms_rsize ms - off)) \<le> int_max" using o small by linarith
  from write_in_range [OF False len(1,3,2) off_def o _ this] small
  have "mstream_write ms bs len = Ret (Inr ?n) (ms_term (ms_grow (ms_put off (take ?n bs) ms)))"
    by (simp add: int_max_def)
  moreover have "ms_ok (ms_term (ms_grow (ms_put off (take ?n bs) ms)))"
    using o by (intro term_ok put_ok [OF ok]) simp
  ultimately show ?thesis by simp
qed

lemma step_ok:
  assumes "ms_ok ms" and "int (ms_rsize ms) \<le> int_max" and "call_ok c"
  shows "\<exists>ms'. ms_step c ms = Ret () ms' \<and> ms_ok ms' \<and> ms_flags ms' = ms_flags ms \<and> ms_rsize ms' = ms_rsize ms"
proof (cases c)
  case (Ms_read n)
  with assms read_ok [of ms n] show ?thesis by (auto simp: bindc_def)
next
  case (Ms_write bs n)
  with assms write_ok [of ms n bs] show ?thesis by (auto simp: bindc_def)
next
  case (Ms_seek p wh)
  with assms seek_ok [of ms p wh] show ?thesis by (auto simp: bindc_def)
qed

lemma run_ok:
  assumes "ms_ok ms" and "int (ms_rsize ms) \<le> int_max" and "list_all call_ok cs"
  shows "\<exists>ms'. ms_run cs ms = Ret () ms' \<and> ms_ok ms' \<and> ms_flags ms' = ms_flags ms"
  using assms
proof (induction cs arbitrary: ms)
  case (Cons c cs)
  then obtain ms' where "ms_step c ms = Ret () ms'" "ms_ok ms'" "ms_flags ms' = ms_flags ms" "ms_rsize ms' = ms_rsize ms"
    using step_ok [of ms c] by auto
  with Cons.IH [of ms'] Cons.prems show ?case by (auto simp: bindc_def)
qed simp

lemma fmemopen_ok:
  assumes "fmemopen mem buf sz type = Inr ms" and "\<forall>b \<in> set_option buf \<union> set_option mem. length b = sz"
  shows "ms_ok ms"
proof -
  have "find_end b sz \<le> sz" for b by (rule find_end_le)
  with assms show ?thesis
    by (auto simp: fmemopen_def ms_ok_def Let_def split: if_splits option.splits sum.splits)
qed

section \<open>Flags\<close>

lemma type_loop_plus:
  assumes "fl \<noteq> 0" and "c \<in> set cs" and "c \<noteq> CHR ''+''" "c \<noteq> CHR ''b''"
  shows "type_loop fl cs = 0"
  using assms
proof (induction cs arbitrary: fl)
  case (Cons d cs)
  have "fl OR (MS_READ OR MS_WRITE) \<noteq> 0" by (simp add: or_eq_0_iff ms_flag_defs)
  with Cons show ?case by auto
qed simp

lemma type_loop_ok:
  assumes "fl \<noteq> 0" and "set cs \<subseteq> {CHR ''+'', CHR ''b''}"
  shows "type_loop fl cs = (if CHR ''+'' \<in> set cs then fl OR (MS_READ OR MS_WRITE) else fl)"
  using assms
proof (induction cs arbitrary: fl)
  case (Cons d cs)
  have "fl OR (MS_READ OR MS_WRITE) \<noteq> 0" by (simp add: or_eq_0_iff ms_flag_defs)
  with Cons show ?case by (auto simp: or.assoc)
qed simp

definition base_flags :: "char \<Rightarrow> 32 word" where
  "base_flags c = (if c = CHR ''r'' then MS_READ else if c = CHR ''w'' then MS_WRITE OR MS_TRUNCATE
     else if c = CHR ''a'' then MS_APPEND else 0)"

lemma mask_rw:
  assumes "fl AND (MS_READ OR MS_WRITE) = MS_READ OR MS_WRITE"
  shows "fl AND MS_READ \<noteq> 0" and "fl AND (MS_APPEND OR MS_WRITE) \<noteq> 0"
proof -
  have b: "bit (fl AND (MS_READ OR MS_WRITE)) n = bit (MS_READ OR MS_WRITE) n" for n by (simp add: assms)
  have "bit fl 0" "bit fl 1" using b [of 0] b [of 1] by (simp_all add: bit_and_iff ms_flag_defs bit_1_iff)
  then have "bit (fl AND MS_READ) 0" "bit (fl AND (MS_APPEND OR MS_WRITE)) 1"
    by (simp_all add: bit_and_iff ms_flag_defs bit_1_iff)
  then show "fl AND MS_READ \<noteq> 0" "fl AND (MS_APPEND OR MS_WRITE) \<noteq> 0"
    by fastforce+
qed

lemma type_loop_mybuf: "fl AND MS_MYBUF = 0 \<Longrightarrow> type_loop fl cs AND MS_MYBUF = 0"
proof (induction cs arbitrary: fl)
  case (Cons c cs)
  have z: "MS_READ AND MS_MYBUF = 0" "(MS_WRITE OR MS_TRUNCATE) AND MS_MYBUF = 0" "MS_APPEND AND MS_MYBUF = 0"
    "(MS_READ OR MS_WRITE) AND MS_MYBUF = 0" by (simp_all add: ms_flag_defs)
  have d: "(fl OR g) AND MS_MYBUF = 0" if "g AND MS_MYBUF = 0" for g
    using Cons.prems that by (simp add: bit.conj_disj_distrib2)
  show ?case using Cons.IH Cons.prems d [OF z(1)] d [OF z(2)] d [OF z(3)] d [OF z(4)]
      Cons.IH [OF z(1)] Cons.IH [OF z(2)] Cons.IH [OF z(3)] by simp
qed simp

lemma fmemopen_mybuf:
  assumes "fmemopen mem buf sz type = Inr ms"
  shows "ms_flags ms AND MS_MYBUF = 0 \<longleftrightarrow> buf \<noteq> None"
proof -
  have "type_to_flags type AND MS_MYBUF = 0" by (simp add: type_to_flags_def type_loop_mybuf)
  moreover have "(g OR MS_MYBUF) AND MS_MYBUF \<noteq> 0" for g by (simp add: bit.conj_disj_distrib2 MS_MYBUF_def)
  ultimately show ?thesis using assms
    by (auto simp: fmemopen_def Let_def split: if_splits option.splits sum.splits)
qed

section \<open>Properties\<close>

text \<open>
  No sequence of reads, writes and seeks on a stream \<open>fmemopen\<close> returned over a buffer of at most
  \<open>INT_MAX\<close> bytes accesses memory outside the buffer, when stdio passes lengths within its own
  buffers: no call aborts, the position stays within the virtual size, the virtual size within the
  size of the buffer, and the buffer keeps its size.  Closing the stream frees the buffer exactly
  when \<open>fmemopen\<close> was the one to allocate it.
\<close>

theorem mstream_stays_in_buffer:
  assumes "fmemopen mem buf sz type = Inr ms" and "\<forall>b \<in> set_option buf \<union> set_option mem. length b = sz"
    and "int sz \<le> int_max" and "list_all call_ok calls"
  shows "\<exists>ms'. ms_run calls ms = Ret () ms' \<and> ms_ok ms'
    \<and> mstream_close ms' = (0, (if buf = None then [Ms_buffer] else []) @ [Ms_cookie])"
proof -
  have "ms_rsize ms = sz" using assms(1)
    by (auto simp: fmemopen_def Let_def split: if_splits option.splits sum.splits)
  then obtain ms' where "ms_run calls ms = Ret () ms'" "ms_ok ms'" "ms_flags ms' = ms_flags ms"
    using run_ok [OF fmemopen_ok [OF assms(1,2)]] assms(3,4) by auto
  then show ?thesis using fmemopen_mybuf [OF assms(1)] by (simp add: mstream_close_def)
qed

theorem mstream_stays_in_buffer_witness:
  "\<exists>ms ms'. fmemopen None (Some ''abcd'') 4 ''r+'' = Inr ms
     \<and> ms_run [Ms_write ''xyz'' 3, Ms_write ''long'' 4, Ms_seek (-1) SEEK_END, Ms_read 9] ms = Ret () ms' \<and> ms_ok ms'"
proof -
  define calls where "calls = [Ms_write ''xyz'' 3, Ms_write ''long'' 4, Ms_seek (-1) SEEK_END, Ms_read 9]"
  define ms where "ms = \<lparr>ms_buf = ''abcd'', ms_rsize = 4, ms_vsize = 4, ms_curpos = 0, ms_flags = MS_READ OR MS_WRITE\<rparr>"
  have op: "fmemopen None (Some ''abcd'') 4 ''r+'' = Inr ms"
    by (simp add: fmemopen_def type_to_flags_def ms_flag_defs ms_def)
  have "list_all call_ok calls" by (simp add: calls_def int_max_def)
  with mstream_stays_in_buffer [OF op _ _ this] have "\<exists>ms'. ms_run calls ms = Ret () ms' \<and> ms_ok ms'"
    by (auto simp: int_max_def)
  with op show ?thesis unfolding calls_def by blast
qed

text \<open>
  C40.  What was written is read back: on a stream open for reading and writing, not in append
  mode, a write that fits in the buffer and ends at a position of at most \<open>INT_MAX\<close> returns its
  length and puts exactly those bytes at the position, nothing before it; seeking back and reading
  that many bytes returns the bytes written.
\<close>

theorem mstream_write_read:
  assumes "ms_ok ms" and "ms_rsize ms < 2 ^ 64"
    and "ms_flags ms AND (MS_READ OR MS_WRITE) = MS_READ OR MS_WRITE"
    and "ms_flags ms AND MS_APPEND = 0" and "ms_curpos ms + length bs \<le> ms_rsize ms"
    and "int (ms_curpos ms + length bs) \<le> int_max"
  shows "\<exists>ms1 ms2 ms3. mstream_write ms bs (int (length bs)) = Ret (Inr (length bs)) ms1
     \<and> ms_curpos ms1 = ms_curpos ms + length bs
     \<and> take (ms_curpos ms) (ms_buf ms1) = take (ms_curpos ms) (ms_buf ms)
     \<and> mstream_seek ms1 (int (ms_curpos ms)) SEEK_SET = Ret (Inr (int (ms_curpos ms))) ms2
     \<and> mstream_read ms2 (int (length bs)) = Ret (Inr bs) ms3"
proof -
  have r: "ms_flags ms AND MS_READ \<noteq> 0" and w: "ms_flags ms AND (MS_APPEND OR MS_WRITE) \<noteq> 0"
    using assms(3) by (rule mask_rw)+
  let ?p = "ms_curpos ms" and ?b = "ms_buf ms"
  have len: "length ?b = ms_rsize ms" and p: "?p \<le> ms_vsize ms" "ms_vsize ms \<le> ms_rsize ms"
    using assms(1) by (auto simp: ms_ok_def)
  have im: "int (length bs) \<le> int_max" "int ?p \<le> int_max" using assms(6) by auto
  let ?o = "overlay NUL ?b ?p bs"
  define ms1 where "ms1 = ms_grow (ms_put ?p bs ms)"
  have t1: "ms_term ms1 = ms1" using r by (simp add: ms_term_def ms1_def)
  have w1: "mstream_write ms bs (int (length bs)) = Ret (Inr (length bs)) ms1"
    using write_in_range [OF w _ im(1) _ _ _ assms(2), of bs ?p] assms(4-6) p t1 by (simp add: ms1_def)
  have b1: "ms_buf ms1 = ?o \<or> ms_buf ms1 = ?o[?p + length bs := NUL]" and
    v1: "?p + length bs \<le> ms_vsize ms1" "ms_curpos ms1 = ?p + length bs"
    by (simp_all add: ms1_def ms_grow_def ms_put_def Let_def)
  have t: "take (length bs) (drop ?p (ms_buf ms1)) = bs" and h: "take ?p (ms_buf ms1) = take ?p ?b"
  proof -
    have "take (length bs) (drop ?p ?o) = bs" "take ?p ?o = take ?p ?b"
      using p len by (simp_all add: overlay_def)
    then show "take (length bs) (drop ?p (ms_buf ms1)) = bs" "take ?p (ms_buf ms1) = take ?p ?b"
      using b1 by (auto simp: drop_update_swap)
  qed
  define ms2 where "ms2 = ms1\<lparr>ms_curpos := ?p\<rparr>"
  have s: "mstream_seek ms1 (int ?p) SEEK_SET = Ret (Inr (int ?p)) ms2"
    using v1 im by (simp add: mstream_seek_def ms2_def)
  have "\<exists>ms3. mstream_read ms2 (int (length bs)) = Ret (Inr bs) ms3"
    using r t v1(1) im(1) by (cases bs) (auto simp: mstream_read_def Let_def ms2_def ms1_def)
  with w1 v1 h s show ?thesis by blast
qed

theorem mstream_write_read_witness:
  "\<exists>ms1 ms2 ms3. mstream_write \<lparr>ms_buf = ''abcdef'', ms_rsize = 6, ms_vsize = 6, ms_curpos = 1,
       ms_flags = MS_READ OR MS_WRITE\<rparr> ''XYZ'' 3 = Ret (Inr 3) ms1 \<and> ms_curpos ms1 = 4
     \<and> mstream_seek ms1 1 SEEK_SET = Ret (Inr 1) ms2 \<and> mstream_read ms2 3 = Ret (Inr ''XYZ'') ms3"
proof -
  define ms where "ms = \<lparr>ms_buf = ''abcdef'', ms_rsize = 6, ms_vsize = 6, ms_curpos = 1, ms_flags = MS_READ OR MS_WRITE\<rparr>"
  have "ms_ok ms" "ms_rsize ms < 2 ^ 64" "ms_flags ms AND (MS_READ OR MS_WRITE) = MS_READ OR MS_WRITE"
    "ms_flags ms AND MS_APPEND = 0" "ms_curpos ms + length ''XYZ'' \<le> ms_rsize ms" "int (ms_curpos ms + length ''XYZ'') \<le> int_max"
    by (simp_all add: ms_def ms_ok_def ms_flag_defs int_max_def)
  from mstream_write_read [OF this] show ?thesis unfolding ms_def by (simp add: numeral_3_eq_3 numeral_eq_Suc) blast
qed

text \<open>
  Past \<open>INT_MAX\<close> the \<open>int\<close> variables lose the position: a seek between 2 GiB and 4 GiB fails
  however large the file is, a write at such a position goes to an address before the buffer, and
  a write one wrap further on overwrites the bytes at the position modulo \<open>2 ^ 32\<close> while the
  caller is told it succeeded.
\<close>

lemma to_int_wrap: "0 \<le> x \<Longrightarrow> x \<le> int_max \<Longrightarrow> to_int (2 ^ 32 + x) = x"
proof -
  assume x: "0 \<le> x" "x \<le> int_max"
  have "(2 ^ 32 + x + 2 ^ 31) mod 2 ^ 32 = (x + 2 ^ 31) mod (2 ^ 32 :: int)"
    by (metis add.assoc mod_add_self1)
  then show ?thesis unfolding to_int_eq using x by (simp add: int_max_def)
qed

lemma to_int_neg:
  assumes "int_max < x" and "x < 2 ^ 32"
  shows "to_int x < 0"
proof -
  have "(x + 2 ^ 31) mod 2 ^ 32 = x + 2 ^ 31 - 2 ^ 32"
    using assms mod_pos_pos_trivial [of "x + 2 ^ 31 - 2 ^ 32" "2 ^ 32"] minus_mod_self2 [of "x + 2 ^ 31" "2 ^ 32"]
    by (simp add: int_max_def)
  then show ?thesis using assms(2) by (simp add: to_int_eq)
qed

lemma mstream_seek_past_int_max:
  assumes "int_max < pos" and "pos < 2 ^ 32"
  shows "mstream_seek ms pos SEEK_SET = Ret (Inl EINVAL) ms"
  using to_int_neg [OF assms] by (simp add: mstream_seek_def)

lemma mstream_write_past_int_max:
  assumes "ms_flags ms AND (MS_APPEND OR MS_WRITE) \<noteq> 0" and "ms_flags ms AND MS_APPEND = 0"
    and "int_max < int (ms_curpos ms)" and "int (ms_curpos ms) < 2 ^ 32"
  shows "mstream_write ms bs len = Abort Undefined ms"
  using assms(1,2) to_int_neg [OF assms(3,4)] by (simp add: mstream_write_def Let_def)

lemma mstream_write_wraps:
  assumes "ms_flags ms AND (MS_APPEND OR MS_WRITE) \<noteq> 0" and "ms_flags ms AND MS_APPEND = 0"
    and "ms_curpos ms = 2 ^ 32 + p" and "int (p + length bs) \<le> int_max"
    and "p + length bs \<le> ms_rsize ms" and "ms_rsize ms < 2 ^ 64"
  shows "mstream_write ms bs (int (length bs))
    = Ret (Inr (length bs)) (ms_term (ms_grow (ms_put p bs ms)))"
proof -
  have "to_int (int (ms_curpos ms)) = int p" using to_int_wrap [of "int p"] assms(3,4) by simp
  moreover have "size_of (int (ms_rsize ms) - int p) = ms_rsize ms - p" using assms(5,6) by (simp add: size_of_def)
  ultimately show ?thesis using assms(1,2,4,5) by (simp add: mstream_write_def Let_def)
qed

text \<open>
  In append mode every write goes to the end of the file, wherever the stream was positioned
  before: in a buffer of at most \<open>INT_MAX\<close> bytes with room for one more byte than is written, the
  file contents after the write are the contents before followed by the bytes written.
\<close>

theorem mstream_append:
  assumes "ms_ok ms" and "ms_flags ms AND MS_APPEND \<noteq> 0" and "ms_vsize ms + length bs < ms_rsize ms"
    and "int (ms_rsize ms) \<le> int_max"
  shows "\<exists>ms'. mstream_write ms bs (int (length bs)) = Ret (Inr (length bs)) ms'
     \<and> take (ms_vsize ms') (ms_buf ms') = take (ms_vsize ms) (ms_buf ms) @ bs
     \<and> ms_curpos ms' = ms_vsize ms'"
proof -
  let ?v = "ms_vsize ms" and ?b = "ms_buf ms"
  have len: "length ?b = ms_rsize ms" and p: "ms_curpos ms \<le> ?v" using assms(1) by (auto simp: ms_ok_def)
  define ms1 where "ms1 = ms_grow (ms_put ?v bs ms)"
  have w: "ms_flags ms AND (MS_APPEND OR MS_WRITE) \<noteq> 0"
  proof
    assume "ms_flags ms AND (MS_APPEND OR MS_WRITE) = 0"
    then have "(ms_flags ms AND (MS_APPEND OR MS_WRITE)) AND MS_APPEND = 0" by simp
    then have "ms_flags ms AND ((MS_APPEND OR MS_WRITE) AND MS_APPEND) = 0" by (simp only: and.assoc)
    moreover have "(MS_APPEND OR MS_WRITE) AND MS_APPEND = MS_APPEND" by (simp add: ms_flag_defs)
    ultimately show False using assms(2) by simp
  qed
  let ?o = "overlay NUL ?b ?v bs"
  have o: "take (?v + length bs) ?o = take ?v ?b @ bs"
    using assms(3) len by (simp add: overlay_def)
  have 1: "ms_vsize ms1 = ?v + length bs" "ms_curpos ms1 = ?v + length bs" "ms_rsize ms1 = ms_rsize ms"
    "ms_buf ms1 = ?o \<or> ms_buf ms1 = ?o[?v + length bs := NUL]"
    by (cases bs; simp add: ms1_def ms_grow_def ms_put_def Let_def)+
  have t1: "take (?v + length bs) (ms_buf ms1) = take ?v ?b @ bs" using 1(4) o by auto
  define ms2 where "ms2 = ms_term ms1"
  have 2: "ms_vsize ms2 = ?v + length bs" "ms_curpos ms2 = ?v + length bs"
    "ms_buf ms2 = ms_buf ms1 \<or> ms_buf ms2 = (ms_buf ms1)[?v + length bs := NUL]"
    using 1(1-3) assms(3) by (auto simp: ms2_def ms_term_def)
  have "mstream_write ms bs (int (length bs)) = Ret (Inr (length bs)) ms2"
    using write_in_range [OF w, of "int (length bs)" bs ?v] assms(2-4) by (simp add: ms2_def ms1_def int_max_def)
  moreover have "take (?v + length bs) (ms_buf ms2) = take ?v ?b @ bs" using 2(3) t1 by auto
  ultimately show ?thesis using 2 by auto
qed

theorem mstream_append_witness:
  "\<exists>ms'. mstream_write \<lparr>ms_buf = ''ab'' @ [NUL, NUL, NUL, NUL], ms_rsize = 6, ms_vsize = 2, ms_curpos = 0,
       ms_flags = MS_APPEND\<rparr> ''cd'' 2 = Ret (Inr 2) ms' \<and> take (ms_vsize ms') (ms_buf ms') = ''abcd''"
proof -
  have "MS_APPEND \<noteq> 0" by (simp add: MS_APPEND_def)
  then show ?thesis
    using mstream_append [of "\<lparr>ms_buf = ''ab'' @ [NUL, NUL, NUL, NUL], ms_rsize = 6, ms_vsize = 2, ms_curpos = 0,
       ms_flags = MS_APPEND\<rparr>" "''cd''"]
    by (auto simp: ms_ok_def int_max_def numeral_2_eq_2)
qed

text \<open>
  \<open>type_to_flags\<close> accepts exactly the mode strings that are one of \<open>r\<close>, \<open>w\<close>, \<open>a\<close> followed by
  any number of \<open>+\<close> and \<open>b\<close>; the flags are those of the letter, with both directions added when
  there is a \<open>+\<close>; every other string gives 0, so \<open>fmemopen\<close> fails with \<open>EINVAL\<close>.
\<close>

theorem type_to_flags_spec:
  "type_to_flags type =
     (case type of [] \<Rightarrow> 0
      | c # cs \<Rightarrow> if c \<in> {CHR ''r'', CHR ''w'', CHR ''a''} \<and> set cs \<subseteq> {CHR ''+'', CHR ''b''}
                then (if CHR ''+'' \<in> set cs then base_flags c OR (MS_READ OR MS_WRITE) else base_flags c)
                else 0)"
proof (cases type)
  case (Cons c cs)
  have nz: "MS_READ \<noteq> 0" "MS_WRITE OR MS_TRUNCATE \<noteq> 0" "MS_APPEND \<noteq> 0" by (simp_all add: ms_flag_defs)
  show ?thesis
  proof (cases "c \<in> {CHR ''r'', CHR ''w'', CHR ''a''}")
    case True
    then have e: "type_to_flags type = type_loop (base_flags c) cs" "base_flags c \<noteq> 0"
      using nz Cons by (auto simp: type_to_flags_def base_flags_def)
    show ?thesis
    proof (cases "set cs \<subseteq> {CHR ''+'', CHR ''b''}")
      case ok: True
      show ?thesis using True ok type_loop_ok [OF e(2) ok] e(1) unfolding Cons by (simp del: type_loop.simps)
    next
      case False
      then obtain d where "d \<in> set cs" "d \<noteq> CHR ''+''" "d \<noteq> CHR ''b''" by blast
      with type_loop_plus [OF e(2) this] False e(1) show ?thesis unfolding Cons by simp
    qed
  next
    case False
    then show ?thesis using Cons by (auto simp: type_to_flags_def)
  qed
qed (simp add: type_to_flags_def)

end
