(* ===== verification/Inet_V4.thy ===== *)
theory Inet_V4
  imports Unix_Files
begin

unbundle bit_operations_syntax

text \<open>
  IPv4 addresses as text: \<open>inet_pton4\<close> and \<open>inet_ntop4\<close> of \<open>unpv13e/libfree/inet_pton.c\<close> and
  \<open>inet_ntop.c\<close>, and \<open>inet_aton\<close> of \<open>inet_aton.c\<close>.  A binary address is the list of its bytes in
  network order; a C string is the list of its characters before the null byte.  The return
  value 0 is \<open>None\<close> (the destination is not written then), 1 is \<open>Some\<close> of the bytes stored.
\<close>

section \<open>The functions\<close>

text \<open>\<open>tp\<close> points to the last byte of \<open>tmp\<close>.\<close>

fun pton4_loop :: "string \<Rightarrow> nat list \<Rightarrow> bool \<Rightarrow> nat \<Rightarrow> nat list option" where
  "pton4_loop [] tmp saw_digit octets = (if octets < 4 then None else Some (take 4 tmp))"
| "pton4_loop (ch # src) tmp saw_digit octets =
     (if isdigit_c ch then
        (let new = last tmp * 10 + digit_val ch in
         if new > 255 then None
         else let tmp' = butlast tmp @ [new] in
           if \<not> saw_digit then
             (if octets + 1 > 4 then None else pton4_loop src tmp' True (octets + 1))
           else pton4_loop src tmp' saw_digit octets)
      else if ch = CHR ''.'' \<and> saw_digit then
        (if octets = 4 then None else pton4_loop src (tmp @ [0]) False octets)
      else None)"

definition inet_pton4 :: "string \<Rightarrow> nat list option" where
  "inet_pton4 src = pton4_loop src [0] False 0"

text \<open>\<open>inet_ntop4\<close> returns what it stores at \<open>dst\<close>, the null byte included.\<close>

definition inet_ntop4 :: "nat list \<Rightarrow> nat \<Rightarrow> errno + string" where
  "inet_ntop4 src sz =
     (let tmp = dec (src ! 0) @ ''.'' @ dec (src ! 1) @ ''.'' @ dec (src ! 2) @ ''.'' @ dec (src ! 3)
      in if length tmp > sz then Inl ENOSPC else Inr (tmp @ [NUL]))"

text \<open>\<open>acc\<close> and \<open>addr\<close> are \<open>u_long\<close>, 64 bits.\<close>

fun aton_loop :: "string \<Rightarrow> nat \<Rightarrow> 64 word \<Rightarrow> 64 word \<Rightarrow> (nat \<times> 64 word) option" where
  "aton_loop [] dots acc addr = (if acc > 255 then None else Some (dots, push_bit 8 addr OR acc))"
| "aton_loop (cc # cp) dots acc addr =
     (if isdigit_c cc then aton_loop cp dots (acc * 10 + of_nat (digit_val cc)) addr
      else if cc = CHR ''.'' then
        (if dots + 1 > 3 then None
         else if acc > 255 then None
         else aton_loop cp (dots + 1) 0 (push_bit 8 addr OR acc))
      else None)"

text \<open>The bytes of \<open>htonl(addr)\<close> in memory.\<close>

definition net_bytes :: "64 word \<Rightarrow> nat list" where
  "net_bytes a = map (\<lambda>k. unat (drop_bit (8 * k) a AND 0xff)) [3, 2, 1, 0]"

definition inet_aton :: "string \<Rightarrow> nat list option" where
  "inet_aton cp = (case aton_loop cp 0 0 0 of
       None \<Rightarrow> None
     | Some (dots, addr) \<Rightarrow> Some (net_bytes (if dots < 3 then push_bit (8 * (3 - dots)) addr else addr)))"

definition v4_bytes :: "nat list \<Rightarrow> bool" where
  "v4_bytes bs \<longleftrightarrow> length bs = 4 \<and> (\<forall>b \<in> set bs. b < 256)"

definition v4_text :: "nat list \<Rightarrow> string" where
  "v4_text bs = dec (bs ! 0) @ ''.'' @ dec (bs ! 1) @ ''.'' @ dec (bs ! 2) @ ''.'' @ dec (bs ! 3)"

section \<open>What the loop of \<open>inet_pton4\<close> accepts\<close>

lemma punct_not_digit [simp]: "\<not> isdigit_c CHR ''.''" "\<not> isdigit_c CHR '':''"
  by (simp_all add: isdigit_c_def)

lemma digit_val_le: "isdigit_c d \<Longrightarrow> digit_val d \<le> 9"
  unfolding digit_val_def isdigit_c_def by linarith

lemma pton4_digits:
  assumes "\<forall>c \<in> set ds. isdigit_c c" and "digits_val a ds \<le> 255"
  shows "pton4_loop (ds @ rest) (tmp @ [a]) True n = pton4_loop rest (tmp @ [digits_val a ds]) True n"
  using assms
proof (induction ds arbitrary: a)
  case (Cons d ds)
  have mono: "x \<le> digits_val x cs" for x cs
  proof (induction cs arbitrary: x)
    case (Cons c cs)
    show ?case using Cons [of "10 * x + digit_val c"] by auto
  qed simp
  have "10 * a + digit_val d \<le> 255" using Cons.prems mono [of "10 * a + digit_val d" ds] by simp
  then show ?case using Cons by (simp add: mult.commute)
qed simp

lemma pton4_octet:
  assumes "b < 256" and "n < 4"
  shows "pton4_loop (dec b @ rest) (tmp @ [0]) False n = pton4_loop rest (tmp @ [b]) True (Suc n)"
proof -
  obtain d ds where d: "dec b = d # ds" by (cases "dec b") auto
  have dig: "\<forall>c \<in> set (d # ds). isdigit_c c" using dec_digits d by metis
  have val: "digits_val 0 (d # ds) = b" using digits_val_dec [of 0 b "[]"] d by simp
  then have v: "digits_val (digit_val d) ds = b" using dig by simp
  have "digit_val d \<le> 9" using dig digit_val_le by simp
  then have "pton4_loop (dec b @ rest) (tmp @ [0]) False n
      = pton4_loop (ds @ rest) (tmp @ [digit_val d]) True (Suc n)"
    using dig assms(2) by (simp add: d)
  also have "\<dots> = pton4_loop rest (tmp @ [b]) True (Suc n)"
    using pton4_digits [of ds "digit_val d"] dig v assms(1) by simp
  finally show ?thesis .
qed

lemma pton4_dot:
  "n < 4 \<Longrightarrow> pton4_loop (CHR ''.'' # rest) tmp True n = pton4_loop rest (tmp @ [0]) False n"
  by (simp add: isdigit_c_def)

lemma v4_cases:
  assumes "v4_bytes bs"
  obtains a b c d where "bs = [a, b, c, d]" "a < 256" "b < 256" "c < 256" "d < 256"
  using assms by (auto simp: v4_bytes_def length_Suc_conv eval_nat_numeral)

lemma pton4_text_rest:
  assumes "v4_bytes bs"
  shows "inet_pton4 (v4_text bs) = Some bs"
proof -
  from assms obtain a b c d where bs: "bs = [a, b, c, d]" "a < 256" "b < 256" "c < 256" "d < 256"
    by (rule v4_cases)
  have "inet_pton4 (v4_text bs)
      = pton4_loop (dec a @ CHR ''.'' # dec b @ CHR ''.'' # dec c @ CHR ''.'' # dec d) ([] @ [0]) False 0"
    by (simp add: inet_pton4_def v4_text_def bs)
  also have "\<dots> = pton4_loop (dec b @ CHR ''.'' # dec c @ CHR ''.'' # dec d) ([a] @ [0]) False 1"
    by (subst pton4_octet) (use bs in \<open>simp_all add: pton4_dot\<close>)
  also have "\<dots> = pton4_loop (dec c @ CHR ''.'' # dec d) ([a, b] @ [0]) False 2"
    by (subst pton4_octet) (use bs in \<open>simp_all add: pton4_dot numeral_2_eq_2\<close>)
  also have "\<dots> = pton4_loop (dec d @ []) ([a, b, c] @ [0]) False 3"
    by (subst pton4_octet) (use bs in \<open>simp_all add: pton4_dot numeral_3_eq_3\<close>)
  also have "\<dots> = Some bs"
    by (subst pton4_octet) (use bs in simp_all)
  finally show ?thesis .
qed

section \<open>What \<open>inet_pton4\<close> returns\<close>

fun pton4_inv :: "nat list \<Rightarrow> bool \<Rightarrow> nat \<Rightarrow> bool" where
  "pton4_inv tmp saw octets \<longleftrightarrow> tmp \<noteq> [] \<and> (\<forall>b \<in> set tmp. b < 256) \<and> octets \<le> 4
     \<and> length tmp = (if saw then octets else Suc octets) \<and> (\<not> saw \<longrightarrow> octets < 4)"

lemma butlast_snoc_inv:
  "tmp \<noteq> [] \<Longrightarrow> \<forall>b \<in> set tmp. b < 256 \<Longrightarrow> n \<le> 255 \<Longrightarrow> \<forall>b \<in> set (butlast tmp @ [n]). b < (256::nat)"
  by (auto dest: in_set_butlastD)

lemma pton4_loop_sound:
  assumes "pton4_loop src tmp saw octets = Some bs" and "pton4_inv tmp saw octets"
  shows "v4_bytes bs"
  using assms
proof (induction src tmp saw octets rule: pton4_loop.induct)
  case (1 tmp saw octets)
  then show ?case by (auto simp: v4_bytes_def split: if_splits)
next
  case (2 ch src tmp saw octets)
  note inv = "2.prems"(2)
  show ?case
  proof (cases "isdigit_c ch")
    case True
    let ?n = "last tmp * 10 + digit_val ch"
    from "2.prems"(1) True have n: "\<not> ?n > 255" by (auto split: if_splits)
    have b: "\<forall>b \<in> set (butlast tmp @ [?n]). b < 256"
      using inv n by (intro butlast_snoc_inv) auto
    have l: "length (butlast tmp @ [?n]) = length tmp" using inv by (cases tmp) auto
    show ?thesis
    proof (cases saw)
      case s: True
      show ?thesis
        using "2.prems"(1) inv True n b l s "2.IH"(2) [OF True refl n refl] by (simp add: Let_def)
    next
      case s: False
      then have o: "\<not> octets + 1 > 4" using inv by auto
      show ?thesis
        using "2.prems"(1) inv True n b l s o "2.IH"(1) [OF True refl n refl] by (simp add: Let_def)
    qed
  next
    case False
    with "2.prems"(1) have c: "ch = CHR ''.'' \<and> saw" "octets \<noteq> 4" by (auto split: if_splits)
    show ?thesis
      using "2.prems"(1) inv False c "2.IH"(3) [OF False c(1,2)] by auto
  qed
qed

section \<open>\<open>inet_aton\<close> on a dotted quad\<close>

definition be :: "nat list \<Rightarrow> 64 word" where
  "be bs = fold (\<lambda>b a. push_bit 8 a OR of_nat b) bs 0"

lemma be_snoc [simp]: "be (bs @ [b]) = push_bit 8 (be bs) OR of_nat b"
  by (simp add: be_def)

lemma byte_not_big: "n < 256 \<Longrightarrow> \<not> (of_nat n :: 64 word) > 255"
  by (simp add: word_less_nat_alt unat_of_nat)

lemma aton_pton4_loop:
  assumes "pton4_loop src tmp saw octets = Some bs" and "pton4_inv tmp saw octets"
  shows "aton_loop src (length tmp - 1) (of_nat (last tmp)) (be (butlast tmp)) = Some (3, be bs)"
  using assms
proof (induction src tmp saw octets rule: pton4_loop.induct)
  case (1 tmp saw octets)
  then have o: "octets = 4" "saw" "length tmp = 4" "bs = tmp" by (auto split: if_splits)
  then have "tmp = butlast tmp @ [last tmp]" "last tmp < 256" using 1 by auto
  then have "be tmp = push_bit 8 (be (butlast tmp)) OR of_nat (last tmp)" by (metis be_snoc)
  with o \<open>last tmp < 256\<close> byte_not_big show ?case by simp
next
  case (2 ch src tmp saw octets)
  note inv = "2.prems"(2)
  have lt: "last tmp < 256" using inv by auto
  have tmp: "tmp = butlast tmp @ [last tmp]" using inv by auto
  show ?case
  proof (cases "isdigit_c ch")
    case True
    let ?n = "last tmp * 10 + digit_val ch"
    from "2.prems"(1) True have n: "\<not> ?n > 255" by (auto split: if_splits)
    have b: "\<forall>b \<in> set (butlast tmp @ [?n]). b < 256"
      using inv n by (intro butlast_snoc_inv) auto
    have l: "length (butlast tmp @ [?n]) = length tmp" using inv by (cases tmp) auto
    have acc: "of_nat (last tmp) * 10 + of_nat (digit_val ch) = (of_nat ?n :: 64 word)" by simp
    show ?thesis
    proof (cases saw)
      case s: True
      show ?thesis
        using "2.prems"(1) inv True n b l s acc "2.IH"(2) [OF True refl n refl] by (simp add: Let_def)
    next
      case s: False
      then have o: "\<not> octets + 1 > 4" using inv by auto
      show ?thesis
        using "2.prems"(1) inv True n b l s o acc "2.IH"(1) [OF True refl n refl] by (simp add: Let_def)
    qed
  next
    case False
    with "2.prems"(1) have c: "ch = CHR ''.'' \<and> saw" "octets \<noteq> 4" by (auto split: if_splits)
    have "be tmp = push_bit 8 (be (butlast tmp)) OR of_nat (last tmp)" using tmp by (metis be_snoc)
    moreover have "length tmp - 1 + 1 = length tmp" using inv by (cases tmp) auto
    ultimately show ?thesis
      using "2.prems"(1) inv False c byte_not_big [OF lt] "2.IH"(3) [OF False c(1,2)] by auto
  qed
qed

lemma byte_bits: "bit (of_nat a :: 64 word) n \<Longrightarrow> a < 256 \<Longrightarrow> n < 8"
proof -
  assume b: "bit (of_nat a :: 64 word) n" and a: "a < 256"
  have "unat (take_bit 8 (of_nat a :: 64 word)) = a"
    using a by (simp add: unsigned_take_bit_eq unat_of_nat take_bit_nat_eq_self)
  then have "take_bit 8 (of_nat a :: 64 word) = of_nat a"
    using a by (simp add: word_unat_eq_iff unat_of_nat)
  with b have "bit (take_bit 8 (of_nat a :: 64 word)) n" by simp
  then show "n < 8" by (simp add: bit_take_bit_iff)
qed

lemma be_byte:
  assumes "a < 256" "b < 256" "c < 256" "d < 256"
  shows "net_bytes (be [a, b, c, d]) = [a, b, c, d]"
proof -
  let ?w = "be [a, b, c, d]"
  have w: "?w = push_bit 8 (push_bit 8 (push_bit 8 (of_nat a) OR of_nat b) OR of_nat c) OR of_nat d"
    by (simp add: be_def)
  have m: "x AND 0xff = take_bit 8 x" for x :: "64 word" by (simp add: take_bit_eq_mask mask_eq_exp_minus_1)
  note B = byte_bits [OF _ assms(1)] byte_bits [OF _ assms(2)] byte_bits [OF _ assms(3)] byte_bits [OF _ assms(4)]
  have k1: "take_bit 8 (drop_bit 24 ?w) = of_nat a"
    unfolding w by (rule bit_word_eqI) (auto simp: bit_take_bit_iff bit_drop_bit_eq bit_or_iff bit_push_bit_iff dest: B)
  have k2: "take_bit 8 (drop_bit 16 ?w) = of_nat b"
    unfolding w by (rule bit_word_eqI) (auto simp: bit_take_bit_iff bit_drop_bit_eq bit_or_iff bit_push_bit_iff dest: B)
  have k3: "take_bit 8 (drop_bit 8 ?w) = of_nat c"
    unfolding w by (rule bit_word_eqI) (auto simp: bit_take_bit_iff bit_drop_bit_eq bit_or_iff bit_push_bit_iff dest: B)
  have k4: "take_bit 8 ?w = of_nat d"
    unfolding w by (rule bit_word_eqI) (auto simp: bit_take_bit_iff bit_or_iff bit_push_bit_iff dest: B)
  note k = k1 k2 k3 k4
  have u: "unat (of_nat x :: 64 word) = x" if "x < 256" for x using that by (simp add: unat_of_nat)
  show ?thesis unfolding net_bytes_def m using assms by (simp add: k u)
qed

lemma aton_pton4: "inet_pton4 src = Some bs \<Longrightarrow> inet_aton src = Some bs"
proof -
  assume p: "inet_pton4 src = Some bs"
  have inv: "pton4_inv [0] False 0" by simp
  from p have v: "v4_bytes bs" unfolding inet_pton4_def by (rule pton4_loop_sound [OF _ inv])
  from p have "aton_loop src 0 0 0 = Some (3, be bs)"
    unfolding inet_pton4_def using aton_pton4_loop [OF _ inv] by (simp add: be_def)
  with v show ?thesis by (elim v4_cases) (simp add: inet_aton_def be_byte)
qed

section \<open>Properties\<close>

text \<open>
  Text and back, IPv4: what \<open>inet_ntop4\<close> stores for an address is a C string that
  \<open>inet_pton4\<close> and \<open>inet_aton\<close> both convert to the same four bytes.
\<close>

theorem inet_v4_roundtrip:
  assumes "v4_bytes bs" and "16 \<le> sz"
  shows "\<exists>out. inet_ntop4 bs sz = Inr out \<and> inet_pton4 (cstr out) = Some bs \<and> inet_aton (cstr out) = Some bs"
proof -
  have c: "cstr (v4_text bs @ [NUL]) = v4_text bs"
    using dec_digits isdigit_misc(1) by (intro cstr_append_NUL) (fastforce simp: v4_text_def NUL_def)
  have l3: "length (dec b) \<le> 3" if "b < 256" for b using that by (intro length_dec_le) auto
  from assms(1) obtain a b c d where "bs = [a, b, c, d]" "a < 256" "b < 256" "c < 256" "d < 256"
    by (rule v4_cases)
  then have "length (v4_text bs) \<le> 15"
    using l3 [of a] l3 [of b] l3 [of c] l3 [of d] by (simp add: v4_text_def eval_nat_numeral)
  with assms(2) have "inet_ntop4 bs sz = Inr (v4_text bs @ [NUL])"
    by (simp add: inet_ntop4_def v4_text_def)
  with c pton4_text_rest [OF assms(1)] aton_pton4 show ?thesis by auto
qed

theorem inet_v4_roundtrip_witness:
  "\<exists>out. inet_ntop4 [192, 168, 0, 1] 16 = Inr out \<and> inet_pton4 (cstr out) = Some [192, 168, 0, 1]"
  using inet_v4_roundtrip [of "[192, 168, 0, 1]" 16] by (auto simp: v4_bytes_def)

text \<open>
  Whatever text \<open>inet_pton4\<close> accepts, it stores four bytes, and \<open>inet_aton\<close> accepts the same
  text with the same result.
\<close>

theorem inet_pton4_sound:
  assumes "inet_pton4 src = Some bs"
  shows "length bs = 4 \<and> (\<forall>b \<in> set bs. b < 256) \<and> inet_aton src = Some bs"
proof -
  have "v4_bytes bs" using assms unfolding inet_pton4_def by (rule pton4_loop_sound) simp
  with aton_pton4 [OF assms] show ?thesis by (simp add: v4_bytes_def)
qed

theorem inet_pton4_sound_witness: "inet_pton4 ''10.0.0.255'' = Some [10, 0, 0, 255] \<and> inet_aton ''10.0.0.255'' = Some [10, 0, 0, 255]"
proof -
  have "inet_pton4 ''10.0.0.255'' = Some [10, 0, 0, 255]" by code_simp
  from inet_pton4_sound [OF this] this show ?thesis by simp
qed

text \<open>
  \<open>inet_ntop4\<close> overruns its buffer by one byte when the caller's size is exactly the length
  of the text: it compares \<open>strlen\<close>, which does not count the null byte, with the size, and
  then copies the null byte too.
\<close>

theorem inet_ntop4_overrun:
  "\<exists>out. inet_ntop4 bs (length (v4_text bs)) = Inr out \<and> length out = length (v4_text bs) + 1"
  by (simp add: inet_ntop4_def v4_text_def)

text \<open>
  \<open>inet_aton\<close> of a single number takes it modulo \<open>2^64\<close>: the accumulator overflows unnoticed,
  so that \<open>2^64 + 1\<close> is accepted as the address \<open>1.0.0.0\<close>, while 256 is refused.
\<close>

lemma aton_digits:
  "\<forall>c \<in> set ds. isdigit_c c \<Longrightarrow> aton_loop (ds @ rest) n (of_nat a) ad = aton_loop rest n (of_nat (digits_val a ds)) ad"
proof (induction ds arbitrary: a)
  case (Cons d ds)
  have "of_nat a * 10 + of_nat (digit_val d) = (of_nat (10 * a + digit_val d) :: 64 word)" by simp
  with Cons show ?case by (simp del: of_nat_add of_nat_mult)
qed simp

theorem inet_aton_number:
  "inet_aton (dec n) = (if n mod 2 ^ 64 \<le> 255 then Some [n mod 2 ^ 64, 0, 0, 0] else None)"
proof -
  have "aton_loop (dec n) 0 0 0 = aton_loop [] 0 (of_nat n) 0"
    using aton_digits [of "dec n" "[]" 0 0 0] dec_digits digits_val_dec [of 0 n "[]"] by simp
  moreover have "(of_nat n :: 64 word) > 255 \<longleftrightarrow> \<not> n mod 2 ^ 64 \<le> 255"
    by (auto simp: word_less_nat_alt unat_of_nat)
  moreover have "(of_nat n :: 64 word) = of_nat (n mod 2 ^ 64)"
    by (simp add: word_unat_eq_iff unat_of_nat)
  moreover have "net_bytes (push_bit 24 (of_nat x)) = [x, 0, 0, 0]" if "x \<le> 255" for x
  proof -
    have "be [x, 0, 0, 0] = push_bit 24 (of_nat x)" by (simp add: be_def)
    with be_byte [of x 0 0 0] that show ?thesis by simp
  qed
  ultimately show ?thesis by (simp add: inet_aton_def)
qed

end
