(* ===== verification/Inet_V6.thy ===== *)
theory Inet_V6
  imports Inet_V4
begin

text \<open>
  IPv6 addresses as text: \<open>inet_pton6\<close> and \<open>inet_ntop6\<close> of \<open>unpv13e/libfree/inet_pton.c\<close> and
  \<open>inet_ntop.c\<close>, and the dispatch on the address family.  The 16-byte array \<open>tmp\<close> is a list of
  length 16, the pointers \<open>tp\<close>, \<open>colonp\<close> and \<open>endp\<close> are indices into it.
\<close>

section \<open>Text to binary\<close>

definition xdigits_l :: string where "xdigits_l = ''0123456789abcdef''"
definition xdigits_u :: string where "xdigits_u = ''0123456789ABCDEF''"

definition xdigit :: "char \<Rightarrow> nat option" where
  "xdigit ch = (case strchr xdigits_l ch of Some i \<Rightarrow> Some i | None \<Rightarrow> strchr xdigits_u ch)"

definition put16 :: "nat list \<Rightarrow> nat \<Rightarrow> nat \<Rightarrow> nat list" where
  "put16 tmp tp val = tmp[tp := (val div 256) mod 256, Suc tp := val mod 256]"

fun pton6_loop :: "string \<Rightarrow> nat list \<Rightarrow> nat \<Rightarrow> nat option \<Rightarrow> string \<Rightarrow> bool \<Rightarrow> nat
    \<Rightarrow> (nat list \<times> nat \<times> nat option \<times> bool \<times> nat) option" where
  "pton6_loop [] tmp tp colonp curtok saw val = Some (tmp, tp, colonp, saw, val)"
| "pton6_loop (ch # src) tmp tp colonp curtok saw val =
     (case xdigit ch of
        Some d \<Rightarrow>
          if val * 16 + d > 0xffff then None
          else pton6_loop src tmp tp colonp curtok True (val * 16 + d)
      | None \<Rightarrow>
          if ch = CHR '':'' then
            (if \<not> saw then (if colonp \<noteq> None then None else pton6_loop src tmp tp (Some tp) src saw val)
             else if tp + 2 > 16 then None
             else pton6_loop src (put16 tmp tp val) (tp + 2) colonp src False 0)
          else if ch = CHR ''.'' \<and> tp + 4 \<le> 16 then
            (case inet_pton4 curtok of
               Some bs \<Rightarrow> Some (take tp tmp @ bs @ drop (tp + 4) tmp, tp + 4, colonp, False, val)
             | None \<Rightarrow> None)
          else None)"

text \<open>The shift of the bytes after a \<open>::\<close> to the end of the array, byte by byte.\<close>

definition shift_step :: "nat \<Rightarrow> nat \<Rightarrow> nat \<Rightarrow> nat list \<Rightarrow> nat list" where
  "shift_step colonp n i tmp = tmp[16 - i := tmp ! (colonp + (n - i)), colonp + (n - i) := 0]"

definition shift_loop :: "nat \<Rightarrow> nat \<Rightarrow> nat list \<Rightarrow> nat list" where
  "shift_loop colonp n tmp = fold (shift_step colonp n) [1..<n + 1] tmp"

definition pton6_end :: "(nat list \<times> nat \<times> nat option \<times> bool \<times> nat) option \<Rightarrow> nat list option" where
  "pton6_end r = (case r of
       None \<Rightarrow> None
     | Some (tmp, tp, colonp, saw, val) \<Rightarrow>
         if saw \<and> tp + 2 > 16 then None
         else
           let tmp = (if saw then put16 tmp tp val else tmp);
               tp = (if saw then tp + 2 else tp)
           in (case colonp of
                 None \<Rightarrow> if tp \<noteq> 16 then None else Some tmp
               | Some c \<Rightarrow> Some (shift_loop c (tp - c) tmp)))"

definition inet_pton6 :: "string \<Rightarrow> nat list option" where
  "inet_pton6 src =
     (let go = (\<lambda>s. pton6_end (pton6_loop s (replicate 16 0) 0 None s False 0)) in
      case src of
        [] \<Rightarrow> go src
      | ch # src' \<Rightarrow>
          if ch = CHR '':'' then (if src' \<noteq> [] \<and> hd src' = CHR '':'' then go src' else None)
          else go src)"

section \<open>Binary to text\<close>

fun hex :: "nat \<Rightarrow> string" where
  "hex n = (if n < 16 then [xdigits_l ! n] else hex (n div 16) @ [xdigits_l ! (n mod 16)])"

declare hex.simps [simp del]

definition addr_words :: "nat list \<Rightarrow> nat list" where
  "addr_words src = map (\<lambda>i. src ! (2 * i) * 256 + src ! (2 * i + 1)) [0..<8]"

text \<open>A run of zero words is its base and length; \<open>None\<close> is \<open>base == -1\<close>.\<close>

definition better :: "(nat \<times> nat) option \<Rightarrow> nat \<times> nat \<Rightarrow> (nat \<times> nat) option" where
  "better best cur = (case best of None \<Rightarrow> Some cur | Some b \<Rightarrow> if snd cur > snd b then Some cur else Some b)"

fun run_loop :: "nat \<Rightarrow> nat list \<Rightarrow> (nat \<times> nat) option \<Rightarrow> (nat \<times> nat) option \<Rightarrow> (nat \<times> nat) option" where
  "run_loop i [] best cur = (case cur of None \<Rightarrow> best | Some c \<Rightarrow> better best c)"
| "run_loop i (w # ws) best cur =
     (if w = 0 then
        (case cur of None \<Rightarrow> run_loop (i + 1) ws best (Some (i, 1))
         | Some (b, l) \<Rightarrow> run_loop (i + 1) ws best (Some (b, l + 1)))
      else (case cur of None \<Rightarrow> run_loop (i + 1) ws best None
            | Some c \<Rightarrow> run_loop (i + 1) ws (better best c) None))"

definition best_run :: "nat list \<Rightarrow> (nat \<times> nat) option" where
  "best_run ws = (case run_loop 0 ws None None of
       None \<Rightarrow> None | Some (b, l) \<Rightarrow> if l < 2 then None else Some (b, l))"

definition in_run :: "(nat \<times> nat) option \<Rightarrow> nat \<Rightarrow> bool" where
  "in_run best i = (case best of None \<Rightarrow> False | Some (b, l) \<Rightarrow> b \<le> i \<and> i < b + l)"

definition v4_inside :: "(nat \<times> nat) option \<Rightarrow> nat list \<Rightarrow> nat \<Rightarrow> bool" where
  "v4_inside best ws i = (case best of None \<Rightarrow> False
     | Some (b, l) \<Rightarrow> i = 6 \<and> b = 0 \<and> (l = 6 \<or> l = 5 \<and> ws ! 5 = 0xffff))"

fun fmt6_loop :: "(nat \<times> nat) option \<Rightarrow> nat list \<Rightarrow> nat list \<Rightarrow> nat list \<Rightarrow> string \<Rightarrow> errno + string" where
  "fmt6_loop best src ws [] acc = Inr acc"
| "fmt6_loop best src ws (i # is) acc =
     (if in_run best i then fmt6_loop best src ws is (if map_option fst best = Some i then acc @ '':'' else acc)
      else
        let acc = (if i \<noteq> 0 then acc @ '':'' else acc) in
        if v4_inside best ws i then
          (case inet_ntop4 (drop 12 src) (46 - length acc) of
             Inl e \<Rightarrow> Inl e | Inr out \<Rightarrow> Inr (acc @ cstr out))
        else fmt6_loop best src ws is (acc @ hex (ws ! i)))"

definition inet_ntop6 :: "nat list \<Rightarrow> nat \<Rightarrow> errno + string" where
  "inet_ntop6 src sz =
     (let ws = addr_words src; best = best_run ws in
      case fmt6_loop best src ws [0..<8] [] of
        Inl e \<Rightarrow> Inl e
      | Inr tmp \<Rightarrow>
          let tmp = (case best of None \<Rightarrow> tmp | Some (b, l) \<Rightarrow> if b + l = 8 then tmp @ '':'' else tmp)
          in if length tmp + 1 > sz then Inl ENOSPC else Inr (tmp @ [NUL]))"

section \<open>The two address families\<close>

datatype family = AF_INET | AF_INET6 | AF_OTHER

definition inet_pton :: "family \<Rightarrow> string \<Rightarrow> errno + nat list option" where
  "inet_pton af src = (case af of AF_INET \<Rightarrow> Inr (inet_pton4 src) | AF_INET6 \<Rightarrow> Inr (inet_pton6 src)
     | AF_OTHER \<Rightarrow> Inl EAFNOSUPPORT)"

definition inet_ntop :: "family \<Rightarrow> nat list \<Rightarrow> nat \<Rightarrow> errno + string" where
  "inet_ntop af src sz = (case af of AF_INET \<Rightarrow> inet_ntop4 src sz | AF_INET6 \<Rightarrow> inet_ntop6 src sz
     | AF_OTHER \<Rightarrow> Inl EAFNOSUPPORT)"

end
