(* ===== verification/Inet_Parse.thy ===== *)
theory Inet_Parse
  imports Inet_V6
begin

text \<open>
  The text \<open>inet_ntop6\<close> produces for an address, and what \<open>inet_pton6\<close> does with text of this form:
  the two are inverse.
\<close>

section \<open>Hexadecimal groups\<close>

lemma xdigit_l: "d < 16 \<Longrightarrow> xdigit (xdigits_l ! d) = Some d"
proof -
  have "\<forall>d \<in> {..<16}. xdigit (xdigits_l ! d) = Some d" by code_simp
  then show "d < 16 \<Longrightarrow> xdigit (xdigits_l ! d) = Some d" by simp
qed

lemma xdigit_punct [simp]: "xdigit CHR '':'' = None" "xdigit CHR ''.'' = None"
  by (simp_all add: xdigit_def xdigits_l_def xdigits_u_def NUL_def)

lemma hex_lt: "n < 16 \<Longrightarrow> hex n = [xdigits_l ! n]"
  by (subst hex.simps) simp

lemma hex_ge: "\<not> n < 16 \<Longrightarrow> hex n = hex (n div 16) @ [xdigits_l ! (n mod 16)]"
  by (subst hex.simps) simp

lemma hex_nonempty [simp]: "hex n \<noteq> []"
  by (cases "n < 16") (simp_all add: hex_lt hex_ge)

lemma length_hex: "n < 16 ^ k \<Longrightarrow> 0 < k \<Longrightarrow> length (hex n) \<le> k"
proof (induction n arbitrary: k rule: hex.induct)
  case (1 n)
  show ?case
  proof (cases "n < 16")
    case True
    with 1 show ?thesis by (simp add: hex_lt)
  next
    case False
    with 1 obtain k' where k: "k = Suc k'" "0 < k'" by (cases k; cases "k - 1") auto
    have "n div 16 < 16 ^ k'" using 1(2) k by (simp add: less_mult_imp_div_less mult.commute)
    from 1(1) [OF False this k(2)] show ?thesis using False k by (simp add: hex_ge)
  qed
qed

lemma hex_parse:
  assumes "w \<le> 0xffff"
  shows "pton6_loop (hex w @ rest) tmp tp cp ct saw 0 = pton6_loop rest tmp tp cp ct True w"
  using assms
proof (induction w arbitrary: rest saw rule: hex.induct)
  case (1 w)
  show ?case
  proof (cases "w < 16")
    case True
    then show ?thesis by (simp add: hex_lt xdigit_l)
  next
    case False
    then have "pton6_loop (hex w @ rest) tmp tp cp ct saw 0
        = pton6_loop (xdigits_l ! (w mod 16) # rest) tmp tp cp ct True (w div 16)"
      using 1(1) [OF False, of "xdigits_l ! (w mod 16) # rest" saw] 1(2) by (simp add: hex_ge)
    then show ?thesis using 1(2) by (simp add: xdigit_l mult.commute)
  qed
qed

section \<open>The array\<close>

definition arr :: "nat list \<Rightarrow> nat list" where
  "arr out = out @ replicate (16 - length out) 0"

definition wbytes :: "nat list \<Rightarrow> nat list" where
  "wbytes ws = concat (map (\<lambda>w. [w div 256, w mod 256]) ws)"

lemma length_wbytes [simp]: "length (wbytes ws) = 2 * length ws"
  by (induction ws) (simp_all add: wbytes_def)

lemma wbytes_simps [simp]: "wbytes [] = []" "wbytes (w # ws) = [w div 256, w mod 256] @ wbytes ws"
  by (simp_all add: wbytes_def)

lemma wbytes_append [simp]: "wbytes (xs @ ys) = wbytes xs @ wbytes ys"
  by (simp add: wbytes_def)

lemma arr_nil: "arr [] = replicate 16 0"
  by (simp add: arr_def)

lemma put16_arr:
  assumes "length out + 2 \<le> 16" and "w \<le> 0xffff"
  shows "put16 (arr out) (length out) w = arr (out @ [w div 256, w mod 256])"
proof -
  obtain k where k: "16 - length out = Suc (Suc k)" using assms(1) by (cases "16 - length out"; cases "16 - length out - 1") auto
  have "w div 256 mod 256 = w div 256" using assms(2) by simp
  moreover have "16 - (length out + 2) = k" using k by simp
  ultimately show ?thesis using k by (simp add: put16_def arr_def list_update_append)
qed

section \<open>Lists of groups\<close>

definition ctext :: "nat list \<Rightarrow> string" where
  "ctext ws = concat (map (\<lambda>w. CHR '':'' # hex w) ws)"

lemma ctext_simps [simp]: "ctext [] = []" "ctext (w # ws) = CHR '':'' # hex w @ ctext ws"
  by (simp_all add: ctext_def)

lemma ctext_append [simp]: "ctext (xs @ ys) = ctext xs @ ctext ys"
  by (simp add: ctext_def)

lemma ctext_rest:
  assumes "length out + 2 * length (w # ws) \<le> 16" and "\<forall>x \<in> set (w # ws). x \<le> 0xffff"
  shows "pton6_loop (ctext ws @ CHR '':'' # rest) (arr out) (length out) cp ct True w
         = pton6_loop rest (arr (out @ wbytes (w # ws))) (length (out @ wbytes (w # ws))) cp rest False 0"
  using assms
proof (induction ws arbitrary: out w ct)
  case Nil
  then show ?case by (simp add: put16_arr)
next
  case (Cons v ws)
  have "pton6_loop (ctext (v # ws) @ CHR '':'' # rest) (arr out) (length out) cp ct True w
      = pton6_loop (hex v @ ctext ws @ CHR '':'' # rest) (arr (out @ [w div 256, w mod 256]))
          (length (out @ [w div 256, w mod 256])) cp (hex v @ ctext ws @ CHR '':'' # rest) False 0"
    using Cons.prems by (simp add: put16_arr)
  also have "\<dots> = pton6_loop (ctext ws @ CHR '':'' # rest) (arr (out @ [w div 256, w mod 256]))
          (length (out @ [w div 256, w mod 256])) cp (hex v @ ctext ws @ CHR '':'' # rest) True v"
    using Cons.prems by (simp add: hex_parse)
  also have "\<dots> = pton6_loop rest (arr (out @ wbytes (w # v # ws))) (length (out @ wbytes (w # v # ws))) cp rest False 0"
    using Cons.prems by (subst Cons.IH) simp_all
  finally show ?case .
qed

text \<open>The rest of \<open>inet_pton6\<close> once the last group was stored.\<close>

definition pton6_close :: "nat option \<Rightarrow> nat list \<Rightarrow> nat list option" where
  "pton6_close cp out = pton6_end (Some (arr out, length out, cp, False, 0))"

lemma end_saw:
  assumes "length out + 2 \<le> 16" and "w \<le> 0xffff"
  shows "pton6_end (Some (arr out, length out, cp, True, w)) = pton6_close cp (out @ [w div 256, w mod 256])"
  using assms by (simp add: pton6_end_def pton6_close_def put16_arr)

lemma ctext_end:
  assumes "length out + 2 * length (w # ws) \<le> 16" and "\<forall>x \<in> set (w # ws). x \<le> 0xffff"
  shows "pton6_end (pton6_loop (ctext ws) (arr out) (length out) cp ct True w)
         = pton6_close cp (out @ wbytes (w # ws))"
proof (cases ws rule: rev_cases)
  case Nil
  with assms show ?thesis by (simp add: end_saw)
next
  case (snoc vs v)
  let ?o = "out @ wbytes (w # vs)"
  have "pton6_loop (ctext ws) (arr out) (length out) cp ct True w
      = pton6_loop (ctext vs @ CHR '':'' # hex v @ []) (arr out) (length out) cp ct True w"
    by (simp add: snoc)
  also have "\<dots> = pton6_loop (hex v @ []) (arr ?o) (length ?o) cp (hex v @ []) False 0"
    using assms snoc by (subst ctext_rest) simp_all
  also have "\<dots> = Some (arr ?o, length ?o, cp, True, v)"
    using assms snoc by (simp only: hex_parse) (simp add: hex_parse [where rest = "[]", simplified])
  finally have e: "pton6_loop (ctext ws) (arr out) (length out) cp ct True w = Some (arr ?o, length ?o, cp, True, v)" .
  show ?thesis unfolding e using assms snoc by (subst end_saw) simp_all
qed

section \<open>The shift\<close>

lemma shift_nth:
  assumes "length tmp = 16" and "c + n + k = 16" and "0 < k" and "m \<le> n"
  shows "length (fold (shift_step c n) [1..<m + 1] tmp) = 16 \<and> (\<forall>x < 16. fold (shift_step c n) [1..<m + 1] tmp ! x
     = (if 16 - m \<le> x then tmp ! (x - k) else if c + n - m \<le> x \<and> x < c + n then 0 else tmp ! x))"
  using assms(4)
proof (induction m)
  case 0
  then show ?case using assms(1) by auto
next
  case (Suc m)
  define t where "t = fold (shift_step c n) [1..<m + 1] tmp"
  have IH: "length t = 16" "\<And>x. x < 16 \<Longrightarrow> t ! x
     = (if 16 - m \<le> x then tmp ! (x - k) else if c + n - m \<le> x \<and> x < c + n then 0 else tmp ! x)"
    using Suc by (auto simp: t_def)
  have step: "fold (shift_step c n) [1..<Suc m + 1] tmp = shift_step c n (Suc m) t" by (simp add: t_def)
  define s where "s = c + (n - Suc m)"
  define d where "d = 16 - Suc m"
  have s: "s < 16" "s = c + n - Suc m" "s < 16 - m" "s < c + n - m" using Suc.prems assms(2,3) by (auto simp: s_def)
  have src: "t ! s = tmp ! s" using IH(2) [OF s(1)] s by auto
  have d: "d < 16" "d - k = s" "d \<noteq> s" "16 - Suc m = d" "16 - m = Suc d" "c + n - m = Suc s" "s < d"
    using Suc.prems assms(2,3) by (auto simp: s_def d_def)
  have val: "shift_step c n (Suc m) t = t [d := tmp ! s, s := 0]"
    unfolding shift_step_def d(4) s_def [symmetric] src ..
  have "t [d := tmp ! s, s := 0] ! x
     = (if d \<le> x then tmp ! (x - k) else if s \<le> x \<and> x < c + n then 0 else tmp ! x)" if x: "x < 16" for x
  proof -
    consider "x = d" | "x = s" | "x \<noteq> d" "x \<noteq> s" by blast
    then show ?thesis
    proof cases
      case 1 then show ?thesis using d IH(1) by simp
    next
      case 2 then show ?thesis using d s IH(1) Suc.prems by simp
    next
      case 3
      then have "(Suc d \<le> x) = (d \<le> x)" "(Suc s \<le> x) = (s \<le> x)" by auto
      then show ?thesis using IH(2) [OF x] 3 unfolding d(5,6) by simp
    qed
  qed
  then show ?case unfolding step val using IH(1) d(4) s(2) by simp
qed

lemma shift_gap:
  assumes "length out = c + n" and "c + n < 16"
  shows "shift_loop c n (arr out) = take c out @ replicate (16 - (c + n)) 0 @ drop c out"
proof -
  define k where "k = 16 - (c + n)"
  have k: "c + n + k = 16" "0 < k" using assms(2) by (simp_all add: k_def)
  have len: "length (arr out) = 16" using assms by (simp add: arr_def)
  note S = shift_nth [OF len k, of n]
  show ?thesis unfolding shift_loop_def k_def [symmetric]
  proof (rule nth_equalityI)
    show "length (fold (shift_step c n) [1..<n + 1] (arr out)) = length (take c out @ replicate k 0 @ drop c out)"
      using S assms k by simp
    fix x assume "x < length (fold (shift_step c n) [1..<n + 1] (arr out))"
    then have x: "x < 16" using S by simp
    have "fold (shift_step c n) [1..<n + 1] (arr out) ! x
        = (if 16 - n \<le> x then arr out ! (x - k) else if c \<le> x \<and> x < c + n then 0 else arr out ! x)"
      using S x k by simp
    also have "\<dots> = (take c out @ replicate k 0 @ drop c out) ! x"
    proof -
      consider "x < c" | "c \<le> x" "x < c + k" | "c + k \<le> x" by linarith
      then show ?thesis
      proof cases
        case 1
        then have "\<not> 16 - n \<le> x" using k by simp
        then show ?thesis using 1 k assms(1) by (simp add: arr_def nth_append)
      next
        case 2
        then have "\<not> 16 - n \<le> x" using k by simp
        then show ?thesis using 2 k assms(1) by (auto simp: arr_def nth_append)
      next
        case 3
        then have "16 - n \<le> x" using k by simp
        moreover have "x - k < c + n" "\<not> x < c" "\<not> x - c < k" "x - c - k + c = x - k" "c + (x - c - k) = x - k" using 3 x k by auto
        ultimately show ?thesis using k assms(1) by (simp add: arr_def nth_append)
      qed
    qed
    finally show "fold (shift_step c n) [1..<n + 1] (arr out) ! x = (take c out @ replicate k 0 @ drop c out) ! x" .
  qed
qed

lemma shift_full:
  assumes "length tmp = 16" and "c + n = 16"
  shows "shift_loop c n tmp = take c tmp @ replicate n 0"
proof -
  have "length (fold (shift_step c n) [1..<m + 1] tmp) = 16 \<and> (\<forall>x < 16. fold (shift_step c n) [1..<m + 1] tmp ! x
     = (if 16 - m \<le> x then 0 else tmp ! x))" if "m \<le> n" for m
    using that
  proof (induction m)
    case 0
    then show ?case using assms(1) by auto
  next
    case (Suc m)
    define t where "t = fold (shift_step c n) [1..<m + 1] tmp"
    define d where "d = 16 - Suc m"
    have IH: "length t = 16" "\<And>x. x < 16 \<Longrightarrow> t ! x = (if 16 - m \<le> x then 0 else tmp ! x)"
      using Suc by (auto simp: t_def)
    have e: "c + (n - Suc m) = d" "16 - m = Suc d" "d < 16" using assms(2) Suc.prems by (auto simp: d_def)
    have "fold (shift_step c n) [1..<Suc m + 1] tmp = shift_step c n (Suc m) t" by (simp add: t_def)
    also have "\<dots> = t [d := 0]" unfolding shift_step_def e(1) d_def [symmetric] by simp
    finally have step: "fold (shift_step c n) [1..<Suc m + 1] tmp = t [d := 0]" .
    show ?case unfolding step d_def [symmetric]
      using IH e by (auto simp: nth_list_update Suc_le_eq le_less)
  qed
  from this [of n] show ?thesis
    unfolding shift_loop_def using assms by (intro nth_equalityI) (auto simp: nth_append)
qed

lemma close_gap:
  "length out < 16 \<Longrightarrow> c \<le> length out \<Longrightarrow>
   pton6_close (Some c) out = Some (take c out @ replicate (16 - length out) 0 @ drop c out)"
  using shift_gap [of out c "length out - c"] by (simp add: pton6_close_def pton6_end_def)

lemma close_none: "length out = 16 \<Longrightarrow> pton6_close None out = Some out"
  by (simp add: pton6_close_def pton6_end_def arr_def)

lemma close_full:
  "length out = 16 \<Longrightarrow> c \<le> 16 \<Longrightarrow> pton6_close (Some c) out = Some (take c out @ replicate (16 - c) 0)"
  using shift_full [of "arr out" c "16 - c"] by (simp add: pton6_close_def pton6_end_def arr_def)

end
