(* ===== verification/Inet_Text.thy ===== *)
theory Inet_Text
  imports Inet_Parse
begin

text \<open>
  The text \<open>inet_ntop6\<close> writes, the round trip through \<open>inet_pton6\<close>, and what \<open>inet_pton6\<close> does
  with a \<open>::\<close> in an address that already has its eight groups.
\<close>

section \<open>The longest run of zero groups\<close>

definition zrun :: "nat list \<Rightarrow> nat \<times> nat \<Rightarrow> bool" where
  "zrun ws r \<longleftrightarrow> fst r + snd r \<le> length ws \<and> (\<forall>j. fst r \<le> j \<and> j < fst r + snd r \<longrightarrow> ws ! j = 0)"

lemma zrun_better: "pred_option (zrun ws) best \<Longrightarrow> zrun ws c \<Longrightarrow> pred_option (zrun ws) (better best c)"
  by (cases best) (simp_all add: better_def)

lemma run_loop_zrun:
  assumes "drop i ws = vs" and "pred_option (zrun ws) best"
    and "pred_option (\<lambda>c. zrun ws c \<and> fst c + snd c = i) cur"
  shows "pred_option (zrun ws) (run_loop i vs best cur)"
  using assms
proof (induction i vs best cur rule: run_loop.induct)
  case (1 i best cur)
  then show ?case by (auto split: option.splits intro: zrun_better)
next
  case (2 i w vs best cur)
  have lt: "i < length ws" using "2.prems"(1) by (metis drop_eq_Nil leI list.simps(3))
  have hd: "ws ! i = w" using "2.prems"(1) by (rule nth_via_drop)
  have tl: "drop (i + 1) ws = vs" using "2.prems"(1) by (metis Suc_eq_plus1 drop_Suc list.sel(3) tl_drop)
  have new: "zrun ws (i, 1)" if "w = 0" using lt hd that by (auto simp: zrun_def le_less_Suc_eq)
  have grow: "zrun ws (b, l + 1)" if "w = 0" "zrun ws (b, l)" "b + l = i" for b l
    using lt hd that by (auto simp: zrun_def less_Suc_eq)
  show ?case
  proof (cases cur)
    case None
    show ?thesis
      using "2.IH"(1) [OF _ None tl "2.prems"(2)] "2.IH"(3) [OF _ None tl "2.prems"(2)] new by (simp add: None)
  next
    case (Some c)
    obtain b l where c: "c = (b, l)" by (cases c)
    have cc: "zrun ws (b, l)" "b + l = i" using "2.prems"(3) by (simp_all add: Some c)
    show ?thesis
    proof (cases "w = 0")
      case True
      show ?thesis
        using "2.IH"(2) [OF True Some c [symmetric] tl "2.prems"(2)] grow [OF True cc] cc(2) by (simp add: Some c True)
    next
      case False
      show ?thesis
        using "2.IH"(4) [OF False Some tl] zrun_better [OF "2.prems"(2) cc(1)] by (simp add: Some c False)
    qed
  qed
qed

lemma best_run_zrun:
  assumes "best_run ws = Some (b, l)"
  shows "2 \<le> l \<and> b + l \<le> length ws \<and> (\<forall>j. b \<le> j \<and> j < b + l \<longrightarrow> ws ! j = 0)"
proof -
  have "pred_option (zrun ws) (run_loop 0 ws None None)" by (rule run_loop_zrun) simp_all
  with assms show ?thesis by (auto simp: best_run_def zrun_def split: option.splits if_splits)
qed

lemma wbytes_zero: "(\<forall>x \<in> set ws. x = 0) \<Longrightarrow> wbytes ws = replicate (2 * length ws) 0"
  by (induction ws) simp_all

lemma run_split:
  assumes "best_run ws = Some (b, l)"
  shows "wbytes (take b ws) @ replicate (2 * l) 0 @ wbytes (drop (b + l) ws) = wbytes ws"
proof -
  note Z = best_run_zrun [OF assms]
  have "wbytes (take l (drop b ws)) = replicate (2 * l) 0"
    using Z by (subst wbytes_zero) (auto simp: in_set_conv_nth)
  moreover have "ws = take b ws @ take l (drop b ws) @ drop (b + l) ws"
    by (metis append_take_drop_id drop_drop add.commute)
  ultimately show ?thesis by (metis wbytes_append)
qed

section \<open>What the formatting loop writes\<close>

lemma cstr_v4: "cstr (v4_text bs @ [NUL]) = v4_text bs"
  using dec_digits isdigit_misc(1) by (intro cstr_append_NUL) (fastforce simp: v4_text_def NUL_def)

lemma length_v4_text: "v4_bytes bs \<Longrightarrow> length (v4_text bs) \<le> 15"
proof -
  assume "v4_bytes bs"
  then obtain a b c d where bs: "bs = [a, b, c, d]" and ab: "a < 256" "b < 256" "c < 256" "d < 256"
    by (rule v4_cases)
  have "length (dec b) \<le> 3" if "b < 256" for b using that by (intro length_dec_le) auto
  from this [OF ab(1)] this [OF ab(2)] this [OF ab(3)] this [OF ab(4)] show "length (v4_text bs) \<le> 15"
    by (simp add: v4_text_def bs)
qed

lemma ntop4_text:
  "v4_bytes bs \<Longrightarrow> 15 \<le> sz \<Longrightarrow> \<exists>out. inet_ntop4 bs sz = Inr out \<and> cstr out = v4_text bs"
  using length_v4_text [of bs] cstr_v4 [of bs] by (simp add: inet_ntop4_def v4_text_def)

lemma fmt6_groups:
  assumes "\<forall>i \<in> set is. \<not> in_run best i \<and> \<not> v4_inside best ws i \<and> i \<noteq> 0"
  shows "fmt6_loop best src ws (is @ js) acc = fmt6_loop best src ws js (acc @ ctext (map ((!) ws) is))"
  using assms by (induction "is" arbitrary: acc) simp_all

lemma fmt6_skip:
  assumes "\<forall>i \<in> set is. in_run best i \<and> map_option fst best \<noteq> Some i"
  shows "fmt6_loop best src ws (is @ js) acc = fmt6_loop best src ws js acc"
  using assms by (induction "is" arbitrary: acc) simp_all

lemma fmt6_run:
  assumes "1 \<le> l"
  shows "fmt6_loop (Some (b, l)) src ws ([b..<b + l] @ js) acc = fmt6_loop (Some (b, l)) src ws js (acc @ '':'')"
proof -
  have "[b..<b + l] = b # [Suc b..<b + l]" using assms by (simp add: upt_conv_Cons)
  then show ?thesis using assms fmt6_skip [of "[Suc b..<b + l]" "Some (b, l)" src ws js] by (simp add: in_run_def)
qed

lemma map_nth_drop: "map ((!) ws) [k..<length ws] = drop k ws"
  by (rule nth_equalityI) simp_all

lemma map_nth_take: "k \<le> length ws \<Longrightarrow> map ((!) ws) [j..<k] = drop j (take k ws)"
  by (rule nth_equalityI) simp_all


lemma fmt6_none:
  assumes "length ws = 8"
  shows "fmt6_loop None src ws [0..<8] [] = Inr (hex (hd ws) @ ctext (tl ws))"
proof -
  have u: "[0..<8] = 0 # [1..<8] @ []" by (simp add: upt_conv_Cons)
  have h: "ws ! 0 = hd ws" using assms by (cases ws) simp_all
  have "fmt6_loop None src ws [0..<8] [] = fmt6_loop None src ws ([1..<8] @ []) (hex (hd ws))"
    unfolding u using h by (simp add: in_run_def v4_inside_def)
  also have "\<dots> = fmt6_loop None src ws [] (hex (hd ws) @ ctext (map ((!) ws) [1..<8]))"
    by (subst fmt6_groups) (auto simp: in_run_def v4_inside_def)
  finally show ?thesis using map_nth_drop [of ws 1] assms by (simp add: drop_Suc)
qed

lemma fmt6_pos:
  assumes "length ws = 8" and "0 < b" and "1 \<le> l" and "b + l \<le> 8"
  shows "fmt6_loop (Some (b, l)) src ws [0..<8] []
     = Inr (hex (hd ws) @ ctext (tl (take b ws)) @ '':'' @ ctext (drop (b + l) ws))"
proof -
  let ?B = "Some (b, l)"
  have h: "ws ! 0 = hd ws" using assms by (cases ws) simp_all
  have "[0..<8] = [0..<b] @ [b..<b + l] @ [b + l..<8]"
    using assms by (metis le_add1 le_add2 add_0 upt_add_eq_append le_add_diff_inverse zero_le append.assoc)
  also have "[0..<b] = 0 # [1..<b]" using assms by (simp add: upt_conv_Cons)
  finally have u: "[0..<8] = 0 # [1..<b] @ [b..<b + l] @ [b + l..<8] @ []" by simp
  have t: "map ((!) ws) [1..<b] = tl (take b ws)" using assms map_nth_take [of b ws 1] by (simp add: drop_Suc)
  have "fmt6_loop ?B src ws [0..<8] []
      = fmt6_loop ?B src ws ([1..<b] @ [b..<b + l] @ [b + l..<8] @ []) (hex (hd ws))"
    unfolding u using h assms(2) by (simp add: in_run_def v4_inside_def)
  also have "\<dots> = fmt6_loop ?B src ws ([b..<b + l] @ [b + l..<8] @ []) (hex (hd ws) @ ctext (tl (take b ws)))"
    by (subst fmt6_groups) (use assms in \<open>auto simp: in_run_def v4_inside_def t [simplified]\<close>)
  also have "\<dots> = fmt6_loop ?B src ws ([b + l..<8] @ []) (hex (hd ws) @ ctext (tl (take b ws)) @ '':'')"
    by (subst fmt6_run) (use assms in simp_all)
  also have "\<dots> = Inr (hex (hd ws) @ ctext (tl (take b ws)) @ '':'' @ ctext (drop (b + l) ws))"
    by (subst fmt6_groups) (use assms map_nth_drop [of ws "b + l"] in \<open>auto simp: in_run_def v4_inside_def\<close>)
  finally show ?thesis .
qed

lemma fmt6_zero:
  assumes "length ws = 8" and "1 \<le> l" and "l \<le> 8" and "\<not> v4_inside (Some (0, l)) ws 6"
  shows "fmt6_loop (Some (0, l)) src ws [0..<8] [] = Inr ('':'' @ ctext (drop l ws))"
proof -
  let ?B = "Some (0, l)"
  have u: "[0..<8] = [0..<0 + l] @ [l..<8] @ []"
    using assms by (metis append_Nil2 le_add_diff_inverse add_0 zero_le upt_add_eq_append)
  have "fmt6_loop ?B src ws [0..<8] [] = fmt6_loop ?B src ws ([l..<8] @ []) ([] @ '':'')"
    unfolding u by (rule fmt6_run) (rule assms(2))
  also have "\<dots> = Inr ('':'' @ ctext (drop l ws))"
    by (subst fmt6_groups) (use assms map_nth_drop [of ws l] in \<open>auto simp: in_run_def v4_inside_def\<close>)
  finally show ?thesis .
qed

lemma fmt6_v4:
  assumes "length ws = 8" and "v4_inside (Some (0, l)) ws 6" and "v4_bytes bs" and "drop 12 src = bs"
  shows "fmt6_loop (Some (0, l)) src ws [0..<8] []
     = Inr ('':'' @ (if l = 6 then [] else '':ffff'') @ '':'' @ v4_text bs)"
proof -
  let ?B = "Some (0, l)"
  have l: "l = 6 \<or> (l = 5 \<and> ws ! 5 = 0xffff)" using assms(2) by (simp add: v4_inside_def)
  have u56: "[0..<8] = [0..<0 + 6] @ [6..<6] @ [6, 7::nat]" "[0..<8] = [0..<0 + 5] @ [5..<6] @ [6, 7::nat]"
    by code_simp+
  have u: "[0..<8] = [0..<0 + l] @ [l..<6] @ [6, 7]"
    using l by (elim disjE conjE) (hypsubst, rule u56)+
  have f: "hex 65535 = ''ffff''" by (simp add: hex_lt hex_ge xdigits_l_def)
  have "fmt6_loop ?B src ws [0..<8] [] = fmt6_loop ?B src ws ([l..<6] @ [6, 7]) ([] @ '':'')"
    unfolding u by (rule fmt6_run) (use l in auto)
  also have "\<dots> = fmt6_loop ?B src ws [6, 7] ('':'' @ ctext (map ((!) ws) [l..<6]))"
    by (subst fmt6_groups) (use l in \<open>auto simp: in_run_def v4_inside_def\<close>)
  also have "ctext (map ((!) ws) [l..<6]) = (if l = 6 then [] else '':ffff'')"
  proof (cases "l = 6")
    case False
    then have "l = 5" "ws ! 5 = 0xffff" using l by auto
    moreover have "[5..<6] = [5::nat]" by code_simp
    ultimately show ?thesis by (simp add: f)
  qed simp
  also have "fmt6_loop ?B src ws [6, 7] ('':'' @ (if l = 6 then [] else '':ffff''))
     = Inr ('':'' @ (if l = 6 then [] else '':ffff'') @ '':'' @ v4_text bs)"
    using l assms(2) ntop4_text [OF assms(3), of 44] ntop4_text [OF assms(3), of 39] by (auto simp: in_run_def assms(4))
  finally show ?thesis .
qed

section \<open>Reading it back\<close>

lemma xdigit_digit: "isdigit_c c \<Longrightarrow> \<exists>d < 16. xdigit c = Some d"
proof -
  assume c: "isdigit_c c"
  have "\<forall>k \<in> set [48..<58::nat]. \<exists>d \<in> set [0..<16]. xdigit (char_of k) = Some d" by code_simp
  moreover have "of_char c \<in> set [48..<58::nat]" using c unfolding isdigit_c_def set_upt atLeastLessThan_iff by simp
  ultimately have "\<exists>d \<in> set [0..<16]. xdigit (char_of (of_char c :: nat)) = Some d" by blast
  then show "\<exists>d < 16. xdigit c = Some d" by auto
qed

lemma pton6_digits:
  assumes "\<forall>c \<in> set ds. isdigit_c c" and "val < 16 ^ k" and "length ds + k \<le> 4"
  shows "\<exists>v. pton6_loop (ds @ rest) tmp tp cp ct saw val = pton6_loop rest tmp tp cp ct (saw \<or> ds \<noteq> []) v"
  using assms
proof (induction ds arbitrary: val k saw)
  case (Cons c ds)
  have "isdigit_c c" using Cons.prems(1) by simp
  from xdigit_digit [OF this] obtain d where d: "d < 16" "xdigit c = Some d" by blast
  have lt: "val * 16 + d < 16 ^ Suc k" using Cons.prems(2) d(1) by simp
  also have "(16::nat) ^ Suc k \<le> 16 ^ 4" using Cons.prems(3) by (intro power_increasing) simp_all
  finally have "\<not> val * 16 + d > 0xffff" by simp
  with Cons.IH [of "val * 16 + d" "Suc k" True] lt Cons.prems d(2) show ?case by simp
qed auto

lemma pton6_v4:
  assumes "v4_bytes bs" and "length out + 4 \<le> 16"
  shows "pton6_end (pton6_loop (v4_text bs) (arr out) (length out) cp (v4_text bs) False 0) = pton6_close cp (out @ bs)"
proof -
  from assms(1) have b: "bs ! 0 < 256" by (auto simp: v4_bytes_def)
  obtain rest where r: "v4_text bs = dec (bs ! 0) @ CHR ''.'' # rest" by (simp add: v4_text_def)
  have "length (dec (bs ! 0)) \<le> 3" using b by (intro length_dec_le) auto
  then have "\<exists>v. pton6_loop (dec (bs ! 0) @ CHR ''.'' # rest) (arr out) (length out) cp (v4_text bs) False 0
      = pton6_loop (CHR ''.'' # rest) (arr out) (length out) cp (v4_text bs) (False \<or> dec (bs ! 0) \<noteq> []) v"
    using dec_digits by (intro pton6_digits [where k = 0]) auto
  then obtain v where v: "pton6_loop (v4_text bs) (arr out) (length out) cp (v4_text bs) False 0
      = pton6_loop (CHR ''.'' # rest) (arr out) (length out) cp (v4_text bs) True v"
    by (auto simp: r)
  have "take (length out) (arr out) @ bs @ drop (length out + 4) (arr out) = arr (out @ bs)"
    using assms by (simp add: arr_def v4_bytes_def add.commute)
  moreover have "length bs = 4" using assms(1) by (simp add: v4_bytes_def)
  ultimately show ?thesis
    using assms(2) pton4_text_rest [OF assms(1)] unfolding v by (simp add: pton6_close_def pton6_end_def)
qed

definition v6_bytes :: "nat list \<Rightarrow> bool" where
  "v6_bytes bs \<longleftrightarrow> length bs = 16 \<and> (\<forall>b \<in> set bs. b < 256)"

lemma addr_words:
  assumes "v6_bytes bs"
  shows "length (addr_words bs) = 8" and "\<forall>w \<in> set (addr_words bs). w \<le> 0xffff" and "wbytes (addr_words bs) = bs"
proof -
  have b: "bs ! i < 256" if "i < 16" for i using assms that by (simp add: v6_bytes_def)
  show "length (addr_words bs) = 8" by (simp add: addr_words_def)
  show "\<forall>w \<in> set (addr_words bs). w \<le> 0xffff"
  proof
    fix w assume "w \<in> set (addr_words bs)"
    then obtain i where i: "i < 8" "w = bs ! (2 * i) * 256 + bs ! (2 * i + 1)" by (auto simp: addr_words_def)
    with b [of "2 * i"] b [of "2 * i + 1"] show "w \<le> 0xffff" by simp
  qed
  have u8: "[0..<8] = [0, 1, 2, 3, 4, 5, 6, 7::nat]" by code_simp
  have u16: "[0..<16] = [0, 1, 2, 3, 4, 5, 6, 7, 8, 9, 10, 11, 12, 13, 14, 15::nat]" by code_simp
  have d: "(bs ! i * 256 + bs ! j) div 256 = bs ! i" "bs ! j mod 256 = bs ! j" "bs ! j div 256 = 0" if "j < 16" for i j
    using b [OF that] by simp_all
  have l: "map ((!) bs) [0..<16] = bs" using assms map_nth [of bs] by (simp add: v6_bytes_def)
  have "wbytes (addr_words bs) = map ((!) bs) [0, 1, 2, 3, 4, 5, 6, 7, 8, 9, 10, 11, 12, 13, 14, 15]"
    unfolding addr_words_def u8 list.map wbytes_simps by (simp add: d)
  then show "wbytes (addr_words bs) = bs" unfolding u16 [symmetric] l .
qed

lemma pton6_start: "src \<noteq> [] \<Longrightarrow> hd src \<noteq> CHR '':'' \<Longrightarrow>
  inet_pton6 src = pton6_end (pton6_loop src (arr []) 0 None src False 0)"
  by (cases src) (auto simp: inet_pton6_def arr_nil)

lemma hd_hex: "hd (hex n) \<noteq> CHR '':''"
proof (induction n rule: hex.induct)
  case (1 n)
  show ?case
  proof (cases "n < 16")
    case True
    then show ?thesis using xdigit_l [OF True] by (auto simp: hex_lt)
  next
    case False
    with 1 show ?thesis by (simp add: hex_ge)
  qed
qed

text \<open>The groups after a \<open>::\<close>, the pointer being past its first colon.\<close>

lemma pton6_tail:
  assumes "\<forall>w \<in> set ws. w \<le> 0xffff" and "length out + 2 * length ws \<le> 16"
  shows "pton6_end (pton6_loop (if ws = [] then '':'' else ctext ws) (arr out) (length out) None ct False 0)
    = pton6_close (Some (length out)) (out @ wbytes ws)"
proof (cases ws)
  case Nil
  then show ?thesis by (simp add: pton6_close_def)
next
  case (Cons v vs)
  with assms show ?thesis by (simp add: hex_parse ctext_end)
qed


lemma ctext_length: "\<forall>w \<in> set ws. w \<le> 0xffff \<Longrightarrow> length (ctext ws) \<le> 5 * length ws"
proof (induction ws)
  case (Cons w ws)
  then have "length (hex w) \<le> 4" by (intro length_hex) auto
  with Cons show ?case by simp
qed simp

lemma hex_no_NUL: "NUL \<notin> set (hex n)"
proof (induction n rule: hex.induct)
  case (1 n)
  have "NUL \<notin> set xdigits_l" by (simp add: xdigits_l_def NUL_def)
  moreover have "length xdigits_l = 16" by (simp add: xdigits_l_def)
  ultimately have d: "NUL \<noteq> xdigits_l ! k" if "k < 16" for k using that by (metis nth_mem)
  show ?case
    using 1 d by (cases "n < 16") (auto simp: hex_lt hex_ge)
qed

lemma ctext_no_NUL: "NUL \<notin> set (ctext ws)"
proof (induction ws)
  case (Cons w ws)
  then show ?case using hex_no_NUL [of w] by (auto simp: NUL_def)
qed simp

lemma v4_no_NUL: "NUL \<notin> set (v4_text bs)"
  using dec_digits isdigit_misc(1) by (fastforce simp: v4_text_def NUL_def)

text \<open>The text for a list of eight groups and the four last bytes.\<close>

definition v6_text :: "nat list \<Rightarrow> nat list \<Rightarrow> string" where
  "v6_text ws bs = (case best_run ws of
     None \<Rightarrow> hex (hd ws) @ ctext (tl ws)
   | Some (b, l) \<Rightarrow>
      if v4_inside (Some (b, l)) ws 6 then ''::'' @ (if l = 6 then [] else ''ffff:'') @ v4_text bs
      else (if b = 0 then [] else hex (hd ws) @ ctext (tl (take b ws))) @ '':''
        @ (if b + l = 8 then '':'' else ctext (drop (b + l) ws)))"

lemma v6_text_fmt:
  assumes "length ws = 8" and "drop 12 src = bs" and "v4_bytes bs"
  shows "\<exists>t. fmt6_loop (best_run ws) src ws [0..<8] [] = Inr t
    \<and> (case best_run ws of None \<Rightarrow> t | Some (b, l) \<Rightarrow> if b + l = 8 then t @ '':'' else t) = v6_text ws bs"
proof (cases "best_run ws")
  case None
  then show ?thesis using fmt6_none [OF assms(1)] by (simp add: v6_text_def)
next
  case (Some r)
  then obtain b l where r: "best_run ws = Some (b, l)" by (cases r) simp
  note Z = best_run_zrun [OF r]
  consider "b = 0" "v4_inside (Some (b, l)) ws 6" | "b = 0" "\<not> v4_inside (Some (b, l)) ws 6" | "0 < b" by auto
  then show ?thesis
  proof cases
    case 1
    then have "l = 6 \<or> l = 5" by (auto simp: v4_inside_def)
    with 1 show ?thesis using fmt6_v4 [OF assms(1) _ assms(3,2), of l] r by (auto simp: v6_text_def)
  next
    case 2
    then show ?thesis using fmt6_zero [OF assms(1), of l] r Z assms(1) by (auto simp: v6_text_def)
  next
    case 3
    then have "\<not> v4_inside (Some (b, l)) ws 6" by (simp add: v4_inside_def)
    with 3 show ?thesis using fmt6_pos [OF assms(1) 3, of l] r Z assms(1) by (auto simp: v6_text_def)
  qed
qed

lemma v6_text_length:
  assumes "length ws = 8" and "\<forall>w \<in> set ws. w \<le> 0xffff" and "v4_bytes bs"
  shows "length (v6_text ws bs) \<le> 45"
proof -
  obtain w vs where ws: "ws = w # vs" using assms(1) by (cases ws) auto
  have h: "length (hex (hd ws)) \<le> 4" using assms(2) by (intro length_hex) (auto simp: ws)
  have c: "length (ctext vs') \<le> 5 * length vs'" if "set vs' \<subseteq> set ws" for vs'
    using that assms(2) by (intro ctext_length) auto
  show ?thesis
  proof (cases "best_run ws")
    case None
    then show ?thesis using h c [of vs] assms(1) by (simp add: v6_text_def ws subset_insertI)
  next
    case (Some r)
    then obtain b l where r: "best_run ws = Some (b, l)" by (cases r) simp
    note Z = best_run_zrun [OF r]
    have "set (tl (take b ws)) \<subseteq> set ws" "set (drop (b + l) ws) \<subseteq> set ws"
      by (auto dest: in_set_takeD in_set_dropD list.set_sel(2)) (metis in_set_takeD list.set_sel(2) tl_Nil list.set(1) empty_iff)
    then have "length (ctext (tl (take b ws))) \<le> 5 * (b - 1)" "length (ctext (drop (b + l) ws)) \<le> 5 * (8 - (b + l))"
      using c [of "tl (take b ws)"] c [of "drop (b + l) ws"] Z assms(1) by simp_all
    then show ?thesis using h Z assms(1) length_v4_text [OF assms(3)] by (auto simp: v6_text_def r)
  qed
qed

lemma v6_text_no_NUL: "NUL \<notin> set (v6_text ws bs)"
  using hex_no_NUL ctext_no_NUL v4_no_NUL by (auto simp: v6_text_def NUL_def split: option.split)

lemma drop_prefix: "length xs = n \<Longrightarrow> take n (xs @ ys) = xs \<and> drop n (xs @ ys) = ys"
  by simp

lemma close_run:
  assumes "length ws = 8" and "best_run ws = Some (b, l)"
  shows "pton6_close (Some (2 * b)) (wbytes (take b ws) @ wbytes (drop (b + l) ws)) = Some (wbytes ws)"
proof -
  note Z = best_run_zrun [OF assms(2)]
  let ?o = "wbytes (take b ws) @ wbytes (drop (b + l) ws)"
  have len: "length (wbytes (take b ws)) = 2 * b" "length ?o = 16 - 2 * l" "l \<le> 8" using Z assms(1) by auto
  have "16 - length ?o = 2 * l" using len(2,3) by simp
  moreover have "pton6_close (Some (2 * b)) ?o = Some (take (2 * b) ?o @ replicate (16 - length ?o) 0 @ drop (2 * b) ?o)"
    using len Z by (intro close_gap) auto
  moreover have "take (2 * b) ?o = wbytes (take b ws)" "drop (2 * b) ?o = wbytes (drop (b + l) ws)"
    using drop_prefix [OF len(1)] by simp_all
  ultimately show ?thesis using run_split [OF assms(2)] by (simp only:)
qed

lemma pton6_v4_text:
  assumes "length ws = 8" and "best_run ws = Some (0, l)" and "v4_inside (Some (0, l)) ws 6"
    and "v4_bytes bs" and "drop 12 (wbytes ws) = bs"
  shows "inet_pton6 (''::'' @ (if l = 6 then [] else ''ffff:'') @ v4_text bs) = Some (wbytes ws)"
proof -
  have w: "wbytes ws = replicate (2 * l) 0 @ wbytes (drop l ws)" using run_split [OF assms(2)] by simp
  have go: "inet_pton6 (''::'' @ X) = pton6_end (pton6_loop X (arr []) 0 (Some 0) X False 0)" for X
    by (simp add: inet_pton6_def arr_nil)
  have l: "l = 6 \<or> (l = 5 \<and> ws ! 5 = 0xffff)" using assms(3) by (simp add: v4_inside_def)
  then show ?thesis
  proof
    assume l: "l = 6"
    have "inet_pton6 (''::'' @ v4_text bs) = pton6_close (Some 0) bs"
      unfolding go using pton6_v4 [OF assms(4), of "[]" "Some 0"] by simp
    also have "\<dots> = Some (replicate 12 0 @ bs)" using assms(4) close_gap [of bs 0] by (simp add: v4_bytes_def)
    finally show ?thesis using assms(5) w l by simp
  next
    assume l: "l = 5 \<and> ws ! 5 = 0xffff"
    then have "drop l ws = 0xffff # drop 6 ws" using assms(1) by (simp add: Cons_nth_drop_Suc [symmetric])
    then have w': "wbytes ws = replicate 10 0 @ [255, 255] @ wbytes (drop 6 ws)" using w l by simp
    have f: "hex 65535 = ''ffff''" by (simp add: hex_lt hex_ge xdigits_l_def)
    have p: "put16 (arr []) 0 65535 = arr [255, 255]" using put16_arr [of "[]" 65535] by simp
    have h: "pton6_loop (hex 65535 @ CHR '':'' # v4_text bs) (arr []) 0 (Some 0) ct False 0
        = pton6_loop (v4_text bs) (arr [255, 255]) 2 (Some 0) (v4_text bs) False 0" for ct
      by (simp add: hex_parse p numeral_2_eq_2)
    have "inet_pton6 (''::'' @ ''ffff:'' @ v4_text bs) = pton6_close (Some 0) ([255, 255] @ bs)"
      unfolding go using h [unfolded f] pton6_v4 [OF assms(4), of "[255, 255]" "Some 0"] by (simp add: numeral_2_eq_2)
    also have "\<dots> = Some (replicate 10 0 @ [255, 255] @ bs)"
      using assms(4) close_gap [of "[255, 255] @ bs" 0] by (simp add: v4_bytes_def)
    finally show ?thesis using assms(5) w' l by simp
  qed
qed

lemma pton6_run_text:
  assumes "length ws = 8" and "\<forall>w \<in> set ws. w \<le> 0xffff" and "best_run ws = Some (b, l)"
  shows "inet_pton6 ((if b = 0 then [] else hex (hd ws) @ ctext (tl (take b ws))) @ '':''
        @ (if b + l = 8 then '':'' else ctext (drop (b + l) ws))) = Some (wbytes ws)" (is "inet_pton6 ?s = _")
proof -
  note Z = best_run_zrun [OF assms(3)]
  let ?D = "drop (b + l) ws"
  let ?T = "if ?D = [] then '':'' else ctext ?D"
  have d: "(b + l = 8) = (?D = [])" using Z assms(1) by auto
  have hT: "\<exists>t. ?T = CHR '':'' # t" by (cases ?D) simp_all
  have D: "\<forall>w \<in> set ?D. w \<le> 0xffff" using assms(2) by (auto dest: in_set_dropD)
  have len: "length (wbytes (take b ws)) = 2 * b" using Z assms(1) by auto
  have tail: "pton6_end (pton6_loop ?T (arr (wbytes (take b ws))) (2 * b) None ct False 0) = Some (wbytes ws)" for ct
  proof -
    have "length (wbytes (take b ws)) + 2 * length ?D \<le> 16" using Z assms(1) len by (simp; linarith)
    from pton6_tail [OF D this, of ct] show ?thesis unfolding len close_run [OF assms(1,3)] .
  qed
  show ?thesis
  proof (cases "b = 0")
    case True
    then have "inet_pton6 ?s = pton6_end (pton6_loop ?T (arr []) 0 None ?T False 0)"
      unfolding d using hT by (auto simp: inet_pton6_def arr_nil)
    then show ?thesis using tail [of ?T] True by simp
  next
    case False
    obtain w vs where ws: "take b ws = w # vs" using False assms(1) by (cases ws; cases b) auto
    then have hd: "hd ws = w" "tl (take b ws) = vs" using assms(1) by (cases ws; cases b; auto)+
    have A: "\<forall>x \<in> set (w # vs). x \<le> 0xffff" using assms(2) ws by (metis in_set_takeD)
    have L: "length [] + 2 * length (w # vs) \<le> 16" using ws [symmetric] Z assms(1) by simp
    have hd_ne: "hd ?s \<noteq> CHR '':''" "?s \<noteq> []" using False hd_hex by simp_all
    have s: "?s = hex w @ ctext vs @ CHR '':'' # ?T" using False by (simp add: hd d)
    have "inet_pton6 ?s = pton6_end (pton6_loop ?s (arr []) 0 None ?s False 0)"
      by (rule pton6_start [OF hd_ne(2,1)])
    also have "\<dots> = pton6_end (pton6_loop (ctext vs @ CHR '':'' # ?T) (arr []) (length ([] :: nat list)) None ?s True w)"
      unfolding s using A by (simp only: hex_parse list.set_intros list.size)
    also have "\<dots> = pton6_end (pton6_loop ?T (arr (wbytes (take b ws))) (2 * b) None ?T False 0)"
      using ctext_rest [OF L A, of ?T None ?s] len by (simp only: ws append_Nil)
    finally show ?thesis using tail by simp
  qed
qed

lemma pton6_text:
  assumes "length ws = 8" and "\<forall>w \<in> set ws. w \<le> 0xffff" and "v4_bytes bs" and "drop 12 (wbytes ws) = bs"
  shows "inet_pton6 (v6_text ws bs) = Some (wbytes ws)"
proof (cases "best_run ws")
  case None
  obtain w vs where ws: "ws = w # vs" using assms(1) by (cases ws) auto
  have w: "w \<le> 0xffff" using assms(2) ws by simp
  have n: "hex w @ ctext vs \<noteq> []" "hd (hex w @ ctext vs) \<noteq> CHR '':''" using hd_hex by simp_all
  have L: "length [] + 2 * length (w # vs) \<le> 16" using ws assms(1) by simp
  have A: "\<forall>x \<in> set (w # vs). x \<le> 0xffff" using assms(2) ws by simp
  have "inet_pton6 (v6_text ws bs) = pton6_end (pton6_loop (hex w @ ctext vs) (arr []) (length ([] :: nat list)) None (hex w @ ctext vs) False 0)"
    using None pton6_start [OF n] by (simp add: v6_text_def ws)
  also have "\<dots> = pton6_close None ([] @ wbytes (w # vs))"
    unfolding hex_parse [OF w] by (rule ctext_end [OF L A])
  finally show ?thesis using assms(1) by (simp add: close_none ws)
next
  case (Some r)
  then obtain b l where r: "best_run ws = Some (b, l)" by (cases r) simp
  show ?thesis
  proof (cases "v4_inside (Some (b, l)) ws 6")
    case True
    then have "b = 0" by (simp add: v4_inside_def)
    with pton6_v4_text [OF assms(1) _ _ assms(3,4), of l] r True show ?thesis by (simp add: v6_text_def)
  next
    case False
    with pton6_run_text [OF assms(1,2) r] show ?thesis by (simp add: v6_text_def r)
  qed
qed

section \<open>What \<open>inet_pton6\<close> stores\<close>

fun pton6_inv :: "nat list \<times> nat \<times> nat option \<times> bool \<times> nat \<Rightarrow> bool" where
  "pton6_inv (tmp, tp, cp, saw, val) \<longleftrightarrow> v6_bytes tmp \<and> tp \<le> 16 \<and> (\<forall>c. cp = Some c \<longrightarrow> c \<le> tp)"

lemma v6_bytes_update: "v6_bytes tmp \<Longrightarrow> v < 256 \<Longrightarrow> v6_bytes (tmp [i := v])"
  by (auto simp: v6_bytes_def dest: set_update_subset_insert [THEN subsetD])

lemma put16_inv: "v6_bytes tmp \<Longrightarrow> v6_bytes (put16 tmp tp val)"
  by (simp add: put16_def v6_bytes_update)

lemma shift_inv: "v6_bytes tmp \<Longrightarrow> c + n \<le> 16 \<Longrightarrow> v6_bytes (shift_loop c n tmp)"
proof -
  assume "v6_bytes tmp" and cn: "c + n \<le> 16"
  then have F: "v6_bytes (fold (shift_step c n) is tmp)" if "\<forall>i \<in> set is. 1 \<le> i \<and> i \<le> n" for "is"
    using that
  proof (induction "is" arbitrary: tmp)
    case (Cons i "is")
    have "c + (n - i) < length tmp" using Cons.prems by (auto simp: v6_bytes_def)
    then have "tmp ! (c + (n - i)) < 256" using Cons.prems(1) by (simp add: v6_bytes_def)
    then have "v6_bytes (shift_step c n i tmp)"
      using Cons.prems(1) by (simp add: shift_step_def v6_bytes_update)
    with Cons show ?case by simp
  qed simp
  have "\<forall>i \<in> set [1..<n + 1]. 1 \<le> i \<and> i \<le> n" by auto
  from F [OF this] show "v6_bytes (shift_loop c n tmp)" unfolding shift_loop_def .
qed

lemma pton6_loop_inv:
  assumes "pton6_loop src tmp tp cp ct saw val = Some r" and "pton6_inv (tmp, tp, cp, saw, val)"
  shows "pton6_inv r"
  using assms
proof (induction src tmp tp cp ct saw val rule: pton6_loop.induct)
  case (1 tmp tp cp ct saw val)
  then show ?case by auto
next
  case (2 ch src tmp tp cp ct saw val)
  note inv = "2.prems"(2)
  show ?case
  proof (cases "xdigit ch")
    case (Some d)
    with "2.prems"(1) have "\<not> val * 16 + d > 0xffff" by (auto split: if_splits)
    with Some "2.prems" "2.IH"(3) [OF Some] show ?thesis by simp
  next
    case None
    show ?thesis
    proof (cases "ch = CHR '':''")
      case colon: True
      show ?thesis
      proof (cases saw)
        case True
        then have "\<not> tp + 2 > 16" using "2.prems"(1) None colon by (auto split: if_splits)
        moreover have "\<forall>c. cp = Some c \<longrightarrow> c \<le> tp + 2" using inv by auto
        ultimately show ?thesis
          using True None colon "2.prems" "2.IH"(2) [OF None colon] by (simp add: put16_inv)
      next
        case False
        then have "\<not> cp \<noteq> None" using "2.prems"(1) None colon by (auto split: if_splits)
        with False None colon "2.prems" "2.IH"(1) [OF None colon] show ?thesis by simp
      qed
    next
      case False
      with None "2.prems"(1) obtain bs where bs: "inet_pton4 ct = Some bs" "tp + 4 \<le> 16"
        "r = (take tp tmp @ bs @ drop (tp + 4) tmp, tp + 4, cp, False, val)"
        by (auto split: if_splits option.splits)
      have "v4_bytes bs" using bs(1) unfolding inet_pton4_def by (rule pton4_loop_sound) simp
      with inv bs show ?thesis
        by (auto simp: v6_bytes_def v4_bytes_def dest: in_set_takeD in_set_dropD)
    qed
  qed
qed

lemma pton6_end_sound:
  assumes "pton6_inv r" and "pton6_end (Some r) = Some bs"
  shows "v6_bytes bs"
proof -
  obtain tmp tp cp saw val where r: "r = (tmp, tp, cp, saw, val)" by (cases r)
  define t where "t = (if saw then put16 tmp tp val else tmp)"
  define p where "p = (if saw then tp + 2 else tp)"
  have t: "v6_bytes t" using assms(1) by (simp add: r t_def put16_inv)
  have p: "p \<le> 16" using assms by (auto simp: r p_def pton6_end_def split: if_splits)
  have bs: "bs = (case cp of None \<Rightarrow> t | Some c \<Rightarrow> shift_loop c (p - c) t)"
    using assms(2) by (auto simp: r t_def p_def pton6_end_def Let_def split: if_splits option.splits)
  show ?thesis
  proof (cases cp)
    case (Some c)
    then have "c \<le> tp" using assms(1) by (simp add: r)
    then have "c + (p - c) \<le> 16" using p by (simp add: p_def split: if_splits)
    with t show ?thesis by (simp add: bs Some shift_inv)
  qed (simp add: bs t)
qed

lemma pton6_sound: "inet_pton6 src = Some bs \<Longrightarrow> v6_bytes bs"
proof -
  assume "inet_pton6 src = Some bs"
  then obtain s where s: "pton6_end (pton6_loop s (replicate 16 0) 0 None s False 0) = Some bs"
    by (auto simp: inet_pton6_def Let_def simp del: pton6_loop.simps split: list.splits if_splits)
  then obtain r where r: "pton6_loop s (replicate 16 0) 0 None s False 0 = Some r"
    by (cases "pton6_loop s (replicate 16 0) 0 None s False 0") (auto simp: pton6_end_def)
  have "pton6_inv r" by (rule pton6_loop_inv [OF r]) (simp add: v6_bytes_def)
  with s r show "v6_bytes bs" by (auto intro: pton6_end_sound)
qed

lemma v6_roundtrip:
  assumes v6: "v6_bytes bs" and "46 \<le> sz"
  shows "\<exists>out. inet_ntop6 bs sz = Inr out \<and> length out \<le> 46 \<and> inet_pton6 (cstr out) = Some bs"
proof -
  let ?ws = "addr_words bs" and ?b4 = "drop 12 bs"
  note W = addr_words [OF v6]
  have b4: "v4_bytes ?b4" using v6 by (auto simp: v4_bytes_def v6_bytes_def dest: in_set_dropD)
  have tx: "cstr (v6_text ?ws ?b4 @ [NUL]) = v6_text ?ws ?b4" by (rule cstr_append_NUL) (rule v6_text_no_NUL)
  have len: "length (v6_text ?ws ?b4) \<le> 45" by (rule v6_text_length [OF W(1,2) b4])
  have "inet_ntop6 bs sz = Inr (v6_text ?ws ?b4 @ [NUL])"
    using v6_text_fmt [OF W(1) refl b4] len assms(2) by (auto simp: inet_ntop6_def Let_def)
  moreover have "inet_pton6 (v6_text ?ws ?b4) = Some bs"
    using pton6_text [OF W(1,2) b4] W(3) by simp
  ultimately show ?thesis using tx len by simp
qed

lemma numeral_4_eq_4: "(4::nat) = Suc (Suc (Suc (Suc 0)))" by simp

section \<open>Properties\<close>

text \<open>
  Text and back, IPv6: what \<open>inet_ntop6\<close> stores for an address, with the longest run of
  zero groups as \<open>::\<close> and an embedded IPv4 address as a dotted quad, is a C string that
  \<open>inet_pton6\<close> converts to the same sixteen bytes; a buffer of 46 bytes is enough.
\<close>

theorem inet_v6_roundtrip:
  assumes "length bs = 16" and "\<forall>b \<in> set bs. b < 256" and "46 \<le> sz"
  shows "\<exists>out. inet_ntop6 bs sz = Inr out \<and> length out \<le> 46 \<and> inet_pton6 (cstr out) = Some bs"
  using assms by (intro v6_roundtrip) (simp_all add: v6_bytes_def)

theorem inet_v6_roundtrip_witness:
  "\<exists>out. inet_ntop6 [0xfe, 0x80, 0, 0, 0, 0, 0, 0, 2, 0xc, 0x29, 0xff, 0xfe, 1, 2, 3] 46 = Inr out
     \<and> inet_pton6 (cstr out) = Some [0xfe, 0x80, 0, 0, 0, 0, 0, 0, 2, 0xc, 0x29, 0xff, 0xfe, 1, 2, 3]"
  using inet_v6_roundtrip [of "[0xfe, 0x80, 0, 0, 0, 0, 0, 0, 2, 0xc, 0x29, 0xff, 0xfe, 1, 2, 3]" 46] by auto

text \<open>
  Whatever text \<open>inet_pton6\<close> accepts, it stores sixteen bytes, and formatting them gives a
  text it converts to the same bytes.
\<close>

theorem inet_pton6_sound:
  assumes "inet_pton6 src = Some bs"
  shows "length bs = 16 \<and> (\<forall>b \<in> set bs. b < 256)
    \<and> (\<exists>out. inet_ntop6 bs 46 = Inr out \<and> inet_pton6 (cstr out) = Some bs)"
  using pton6_sound [OF assms] v6_roundtrip [of bs 46] by (auto simp: v6_bytes_def)

theorem inet_pton6_sound_witness:
  "inet_pton6 ''0:0::127.0.0.1'' = Some [0, 0, 0, 0, 0, 0, 0, 0, 0, 0, 0, 0, 127, 0, 0, 1]
   \<and> (\<exists>out. inet_ntop6 [0, 0, 0, 0, 0, 0, 0, 0, 0, 0, 0, 0, 127, 0, 0, 1] 46 = Inr out)"
proof -
  have r: "replicate 16 0 = [0, 0, 0, 0, 0, 0, 0, 0, 0, 0, 0, 0, 0, 0, 0, 0::nat]" by code_simp
  have p: "inet_pton4 ''127.0.0.1'' = Some [127, 0, 0, 1]" by code_simp
  have x: "xdigit CHR ''0'' = Some 0" "xdigit CHR ''1'' = Some 1" "xdigit CHR ''2'' = Some 2" "xdigit CHR ''7'' = Some 7"
    by code_simp+
  have s: "shift_loop 4 4 [0, 0, 0, 0, 127, 0, 0, 1, 0, 0, 0, 0, 0, 0, 0, 0] = [0, 0, 0, 0, 0, 0, 0, 0, 0, 0, 0, 0, 127, 0, 0, 1]"
    by code_simp
  have "inet_pton6 ''0:0::127.0.0.1'' = Some [0, 0, 0, 0, 0, 0, 0, 0, 0, 0, 0, 0, 127, 0, 0, 1]"
    using s by (simp add: inet_pton6_def r p x pton6_end_def put16_def numeral_4_eq_4)
  from inet_pton6_sound [OF this] this show ?thesis by blast
qed

text \<open>
  A \<open>::\<close> in an address that has its eight groups is not ignored: every group after it is
  stored as zero.  A colon after the eighth group is accepted.
\<close>

theorem inet_pton6_full:
  assumes "length ws = 8" and "\<forall>w \<in> set ws. w \<le> 0xffff" and "0 < c" and "c < 8"
  shows "inet_pton6 (hex (hd ws) @ ctext (tl (take c ws)) @ '':'' @ ctext (drop c ws))
      = Some (wbytes (take c ws) @ replicate (16 - 2 * c) 0)
    \<and> inet_pton6 (hex (hd ws) @ ctext (tl ws) @ '':'') = Some (wbytes ws)"
proof (rule conjI)
  obtain w vs where ws: "ws = w # vs" using assms(1) by (cases ws) auto
  have w: "w \<le> 0xffff" using assms(2) ws by simp
  have go: "inet_pton6 (hex w @ rest) = pton6_end (pton6_loop rest (arr []) 0 None (hex w @ rest) True w)" for rest
    using hd_hex [of w] by (subst pton6_start) (simp_all add: hex_parse w)
  obtain us where us: "take c ws = w # us" using ws assms(3) by (cases c) auto
  have A: "\<forall>x \<in> set (w # us). x \<le> 0xffff" "\<forall>x \<in> set (drop c ws). x \<le> 0xffff"
    using assms(2) us by (metis in_set_takeD, metis in_set_dropD)
  have len: "length (w # us) = c" "length (wbytes (w # us)) = 2 * c" using assms us [symmetric] by simp_all
  have L: "length [] + 2 * length (w # us) \<le> 16" using len assms by simp
  have ne: "drop c ws \<noteq> []" using assms by simp
  have "inet_pton6 (hex w @ ctext us @ CHR '':'' # ctext (drop c ws))
      = pton6_end (pton6_loop (ctext (drop c ws)) (arr (wbytes (w # us))) (2 * c) None (ctext (drop c ws)) False 0)"
    using ctext_rest [OF L A(1), of "ctext (drop c ws)" None] len(2) by (simp only: go append_Nil list.size)
  also have "\<dots> = pton6_close (Some (2 * c)) (wbytes (w # us) @ wbytes (drop c ws))"
  proof -
    have "length (wbytes (w # us)) + 2 * length (drop c ws) \<le> 16" using len assms by simp
    from pton6_tail [OF A(2) this, of "ctext (drop c ws)"] ne show ?thesis by (simp only: len(2) if_False)
  qed
  also have "\<dots> = Some (take (2 * c) (wbytes (w # us) @ wbytes (drop c ws)) @ replicate (16 - 2 * c) 0)"
    using len assms by (intro close_full) simp_all
  finally show "inet_pton6 (hex (hd ws) @ ctext (tl (take c ws)) @ '':'' @ ctext (drop c ws))
      = Some (wbytes (take c ws) @ replicate (16 - 2 * c) 0)"
    using drop_prefix [OF len(2)] us ws by simp
  have L2: "length [] + 2 * length (w # vs) \<le> 16" using assms(1) ws by simp
  show "inet_pton6 (hex (hd ws) @ ctext (tl ws) @ '':'') = Some (wbytes ws)"
    using go ctext_rest [OF L2, of "[]" None] assms(1,2) close_none [of "wbytes ws"] by (simp add: ws pton6_close_def)
qed

theorem inet_pton6_full_witness:
  "inet_pton6 (hex 1 @ ctext [2, 3, 4, 5, 6] @ '':'' @ ctext [7, 8]) = Some (wbytes [1, 2, 3, 4, 5, 6] @ replicate 4 0)"
  using inet_pton6_full [of "[1, 2, 3, 4, 5, 6, 7, 8]" 6] by simp

end
