(* ===== verification/Job_List.thy ===== *)
theory Job_List
  imports Prelude "HOL-Library.Monad_Syntax"
begin

text \<open>
  Doubly linked lists in memory, as the job queue of \<open>apue.3e/threads/rwlock.c\<close> and the job and
  worker lists of \<open>apue.3e/printer/printd.c\<close> keep them: a heap from addresses to nodes (the
  pointers \<open>next\<close> and \<open>prev\<close>, and the rest of the struct), a head and a tail pointer, \<open>NULL\<close>
  as \<open>None\<close>.  Following a pointer to no node is undefined in C; an operation that does so is
  \<open>None\<close>.  The locale states what the operations of a job list promise.
\<close>

section \<open>Memory\<close>

type_synonym ptr = "nat option"

record 'a node =
  nd_next :: ptr
  nd_prev :: ptr
  nd_body :: 'a

record 'a dlist =
  heap :: "nat \<Rightarrow> 'a node option"
  head :: ptr
  tail :: ptr

definition deref :: "ptr \<Rightarrow> ('a, 'z) dlist_scheme \<Rightarrow> 'a node option" where
  "deref p s = Option.bind p (heap s)"

definition put_node :: "ptr \<Rightarrow> ('a node \<Rightarrow> 'a node) \<Rightarrow> ('a, 'z) dlist_scheme \<Rightarrow> ('a, 'z) dlist_scheme option" where
  "put_node p f s = (case p of None \<Rightarrow> None | Some a \<Rightarrow>
     (case heap s a of None \<Rightarrow> None | Some nd \<Rightarrow> Some (s\<lparr>heap := (heap s)(a \<mapsto> f nd)\<rparr>)))"

definition set_next :: "ptr \<Rightarrow> ptr \<Rightarrow> ('a, 'z) dlist_scheme \<Rightarrow> ('a, 'z) dlist_scheme option" where
  "set_next p v = put_node p (\<lambda>nd. nd\<lparr>nd_next := v\<rparr>)"

definition set_prev :: "ptr \<Rightarrow> ptr \<Rightarrow> ('a, 'z) dlist_scheme \<Rightarrow> ('a, 'z) dlist_scheme option" where
  "set_prev p v = put_node p (\<lambda>nd. nd\<lparr>nd_prev := v\<rparr>)"

lemmas mem_defs = deref_def put_node_def set_next_def set_prev_def

section \<open>Lists in memory\<close>

text \<open>The nodes of \<open>xs\<close> are linked both ways between \<open>p\<close> (before the first) and \<open>q\<close> (after the last).\<close>

fun linked :: "(nat \<Rightarrow> 'a node option) \<Rightarrow> ptr \<Rightarrow> nat list \<Rightarrow> ptr \<Rightarrow> bool" where
  "linked h p [] q \<longleftrightarrow> True"
| "linked h p (x # xs) q \<longleftrightarrow>
     (\<exists>nd. h x = Some nd \<and> nd_prev nd = p \<and> nd_next nd = (if xs = [] then q else Some (List.hd xs)))
     \<and> linked h (Some x) xs q"

definition first :: "nat list \<Rightarrow> ptr \<Rightarrow> ptr" where
  "first xs q = (if xs = [] then q else Some (List.hd xs))"

definition final :: "ptr \<Rightarrow> nat list \<Rightarrow> ptr" where
  "final p xs = (if xs = [] then p else Some (List.last xs))"

lemma first_simps [simp]: "first [] q = q" "first (x # xs) q = Some x"
  by (simp_all add: first_def)

lemma final_simps [simp]: "final p [] = p" "final p [x] = Some x"
  by (simp_all add: final_def)

lemma first_append [simp]: "first (xs @ ys) q = first xs (first ys q)"
  by (simp add: first_def)

lemma final_append [simp]: "final p (xs @ ys) = final (final p xs) ys"
  by (simp add: final_def)

lemma first_other [simp]: "a \<notin> set xs \<Longrightarrow> first xs q = Some a \<longleftrightarrow> xs = [] \<and> q = Some a"
    "a \<notin> set xs \<Longrightarrow> Some a = first xs q \<longleftrightarrow> xs = [] \<and> q = Some a"
  by (auto simp: first_def)

lemma final_other [simp]: "a \<notin> set xs \<Longrightarrow> final p xs = Some a \<longleftrightarrow> xs = [] \<and> p = Some a"
    "a \<notin> set xs \<Longrightarrow> Some a = final p xs \<longleftrightarrow> xs = [] \<and> p = Some a"
  by (auto simp: final_def)

lemma final_Cons: "final p (x # xs) = final (Some x) xs"
  by (simp add: final_def)

lemma linked_Cons: "linked h p (x # xs) q \<longleftrightarrow>
    (\<exists>nd. h x = Some nd \<and> nd_prev nd = p \<and> nd_next nd = first xs q) \<and> linked h (Some x) xs q"
  by (simp add: first_def)

lemma linked_append:
  "linked h p (xs @ ys) q \<longleftrightarrow> linked h p xs (first ys q) \<and> linked h (final p xs) ys q"
proof (induction xs arbitrary: p)
  case (Cons x xs)
  then show ?case by (auto simp: linked_Cons final_Cons simp del: linked.simps(2))
qed simp

lemma linked_cong: "(\<And>a. a \<in> set xs \<Longrightarrow> h' a = h a) \<Longrightarrow> linked h' p xs q = linked h p xs q"
  by (induction xs arbitrary: p) simp_all

lemma linked_other [simp]: "a \<notin> set xs \<Longrightarrow> linked (h(a \<mapsto> nd)) p xs q = linked h p xs q"
  by (rule linked_cong) auto

lemma linked_alloc: "linked h p xs q \<Longrightarrow> a \<in> set xs \<Longrightarrow> h a \<noteq> None"
  by (induction xs arbitrary: p) auto

lemmas linked_split = linked_Cons linked_append final_Cons

definition dl :: "('a, 'z) dlist_scheme \<Rightarrow> nat list \<Rightarrow> bool" where
  "dl s xs \<longleftrightarrow> distinct xs \<and> linked (heap s) None xs None \<and> head s = first xs None \<and> tail s = final None xs"

text \<open>What the operations do not change: which nodes exist, and what is in them besides the links.\<close>

definition same_bodies :: "('a, 'z) dlist_scheme \<Rightarrow> ('a, 'z) dlist_scheme \<Rightarrow> bool" where
  "same_bodies s s' \<longleftrightarrow> (\<forall>a. map_option nd_body (heap s' a) = map_option nd_body (heap s a))"

lemma same_bodies_refl [simp]: "same_bodies s s"
  by (simp add: same_bodies_def)

lemma same_bodies_trans: "same_bodies s t \<Longrightarrow> same_bodies t u \<Longrightarrow> same_bodies s u"
  by (simp add: same_bodies_def)

lemma same_bodies_alloc: "same_bodies s s' \<Longrightarrow> heap s' a = None \<longleftrightarrow> heap s a = None"
  by (metis same_bodies_def option.map_disc_iff)

lemma same_bodies_node: "same_bodies s s' \<Longrightarrow> heap s a = Some nd \<Longrightarrow> \<exists>nd'. heap s' a = Some nd' \<and> nd_body nd' = nd_body nd"
  by (metis same_bodies_def option.map(2) map_option_eq_Some)

section \<open>The interface of a job list\<close>

locale job_list =
  fixes rep :: "'s \<Rightarrow> nat list \<Rightarrow> bool"
    and job :: "'s \<Rightarrow> nat \<Rightarrow> 'v option"
    and at_head :: "nat \<Rightarrow> 's \<Rightarrow> 's option"
    and at_tail :: "nat \<Rightarrow> 's \<Rightarrow> 's option"
    and drop_job :: "nat \<Rightarrow> 's \<Rightarrow> 's option"
  assumes rep_distinct: "rep s xs \<Longrightarrow> distinct xs"
    and rep_alloc: "rep s xs \<Longrightarrow> a \<in> set xs \<Longrightarrow> job s a \<noteq> None"
    and rep_head: "rep s xs \<Longrightarrow> job s a \<noteq> None \<Longrightarrow> a \<notin> set xs \<Longrightarrow>
          \<exists>s'. at_head a s = Some s' \<and> rep s' (a # xs) \<and> job s' = job s"
    and rep_tail: "rep s xs \<Longrightarrow> job s a \<noteq> None \<Longrightarrow> a \<notin> set xs \<Longrightarrow>
          \<exists>s'. at_tail a s = Some s' \<and> rep s' (xs @ [a]) \<and> job s' = job s"
    and rep_drop: "rep s (xs @ a # ys) \<Longrightarrow>
          \<exists>s'. drop_job a s = Some s' \<and> rep s' (xs @ ys) \<and> job s' = job s"

datatype list_call = At_head nat | At_tail nat | Drop nat

text \<open>What a call does to the list of jobs, and which calls a client may make.\<close>

fun list_step :: "list_call \<Rightarrow> nat list \<Rightarrow> nat list" where
  "list_step (At_head a) xs = a # xs"
| "list_step (At_tail a) xs = xs @ [a]"
| "list_step (Drop a) xs = remove1 a xs"

fun may_call :: "list_call \<Rightarrow> nat list \<Rightarrow> bool" where
  "may_call (At_head a) xs \<longleftrightarrow> a \<notin> set xs"
| "may_call (At_tail a) xs \<longleftrightarrow> a \<notin> set xs"
| "may_call (Drop a) xs \<longleftrightarrow> a \<in> set xs"

fun call_addr :: "list_call \<Rightarrow> nat" where
  "call_addr (At_head a) = a" | "call_addr (At_tail a) = a" | "call_addr (Drop a) = a"

fun calls_ok :: "list_call list \<Rightarrow> nat list \<Rightarrow> bool" where
  "calls_ok [] xs \<longleftrightarrow> True"
| "calls_ok (c # cs) xs \<longleftrightarrow> may_call c xs \<and> calls_ok cs (list_step c xs)"

text \<open>Running the calls on memory, with the three operations as arguments.\<close>

fun do_call :: "(nat \<Rightarrow> 's \<Rightarrow> 's option) \<Rightarrow> (nat \<Rightarrow> 's \<Rightarrow> 's option) \<Rightarrow> (nat \<Rightarrow> 's \<Rightarrow> 's option)
    \<Rightarrow> list_call \<Rightarrow> 's \<Rightarrow> 's option" where
  "do_call hd_op tl_op rm_op (At_head a) s = hd_op a s"
| "do_call hd_op tl_op rm_op (At_tail a) s = tl_op a s"
| "do_call hd_op tl_op rm_op (Drop a) s = rm_op a s"

fun do_calls :: "(nat \<Rightarrow> 's \<Rightarrow> 's option) \<Rightarrow> (nat \<Rightarrow> 's \<Rightarrow> 's option) \<Rightarrow> (nat \<Rightarrow> 's \<Rightarrow> 's option)
    \<Rightarrow> list_call list \<Rightarrow> 's \<Rightarrow> 's option" where
  "do_calls hd_op tl_op rm_op [] s = Some s"
| "do_calls hd_op tl_op rm_op (c # cs) s =
     Option.bind (do_call hd_op tl_op rm_op c s) (do_calls hd_op tl_op rm_op cs)"

context job_list
begin

lemma call_refines:
  assumes "rep s xs" and "may_call c xs" and "job s (call_addr c) \<noteq> None"
  shows "\<exists>s'. do_call at_head at_tail drop_job c s = Some s' \<and> rep s' (list_step c xs) \<and> job s' = job s"
proof (cases c)
  case (Drop a)
  with assms(2) obtain ys zs where xs: "xs = ys @ a # zs" by (auto simp: in_set_conv_decomp)
  then have "a \<notin> set ys" using rep_distinct [OF assms(1)] by simp
  then have "remove1 a xs = ys @ zs" by (simp add: xs remove1_append)
  then show ?thesis using rep_drop assms(1) by (simp add: Drop xs)
qed (use assms rep_head rep_tail in auto)

lemma calls_refine:
  assumes "rep s xs" and "calls_ok cs xs" and "\<forall>c \<in> set cs. job s (call_addr c) \<noteq> None"
  shows "\<exists>s'. do_calls at_head at_tail drop_job cs s = Some s' \<and> rep s' (fold list_step cs xs) \<and> job s' = job s"
  using assms
proof (induction cs arbitrary: s xs)
  case (Cons c cs)
  from Cons.prems call_refines [of s xs c] obtain s' where
    "do_call at_head at_tail drop_job c s = Some s'" "rep s' (list_step c xs)" "job s' = job s"
    by auto
  with Cons.IH [of s' "list_step c xs"] Cons.prems show ?case by auto
qed simp

text \<open>A list emptied from the head gives the jobs in order: first in, first out after \<open>at_tail\<close>.\<close>

lemma drain:
  assumes "rep s xs"
  shows "\<exists>s'. do_calls at_head at_tail drop_job (map Drop xs) s = Some s' \<and> rep s' []"
proof -
  have ok: "calls_ok (map Drop xs) xs" and e: "fold list_step (map Drop xs) xs = []"
    by (induction xs) simp_all
  have "\<forall>c \<in> set (map Drop xs). job s (call_addr c) \<noteq> None" using rep_alloc [OF assms] by auto
  from calls_refine [OF assms ok this] e show ?thesis by auto
qed

end

end
