(* ===== verification/Rw_Queue.thy ===== *)
theory Rw_Queue
  imports Job_List
begin

text \<open>
  The job queue of \<open>apue.3e/threads/rwlock.c\<close>: \<open>struct queue\<close> is the list's head and tail with the
  reader-writer lock, a job's remaining field is the thread that handles it.  An operation that
  has to wait for the lock, or that follows a pointer to no job, is \<open>None\<close>.
\<close>

datatype rwlock = Free | Readers nat | Writer

type_synonym tid = nat

record queue = "tid dlist" +
  q_lock :: rwlock

definition wrlock :: "queue \<Rightarrow> queue option" where
  "wrlock qp = (if q_lock qp = Free then Some (qp\<lparr>q_lock := Writer\<rparr>) else None)"

definition rdlock :: "queue \<Rightarrow> queue option" where
  "rdlock qp = (case q_lock qp of Free \<Rightarrow> Some (qp\<lparr>q_lock := Readers 1\<rparr>)
     | Readers n \<Rightarrow> Some (qp\<lparr>q_lock := Readers (n + 1)\<rparr>) | Writer \<Rightarrow> None)"

definition rwunlock :: "queue \<Rightarrow> queue" where
  "rwunlock qp = (case q_lock qp of Readers n \<Rightarrow> qp\<lparr>q_lock := (if n > 1 then Readers (n - 1) else Free)\<rparr>
     | _ \<Rightarrow> qp\<lparr>q_lock := Free\<rparr>)"

text \<open>\<open>err\<close> is the result of \<open>pthread_rwlock_init\<close>.\<close>

definition queue_init :: "int \<Rightarrow> queue \<Rightarrow> int \<times> queue" where
  "queue_init err qp =
     (let qp = qp\<lparr>head := None, tail := None\<rparr> in
      if err \<noteq> 0 then (err, qp) else (0, qp\<lparr>q_lock := Free\<rparr>))"

definition job_insert :: "nat \<Rightarrow> queue \<Rightarrow> queue option" where
  "job_insert jp qp = do {
     qp \<leftarrow> wrlock qp;
     qp \<leftarrow> set_next (Some jp) (head qp) qp;
     qp \<leftarrow> set_prev (Some jp) None qp;
     qp \<leftarrow> (if head qp \<noteq> None then set_prev (head qp) (Some jp) qp else Some (qp\<lparr>tail := Some jp\<rparr>));
     Some (rwunlock (qp\<lparr>head := Some jp\<rparr>)) }"

definition job_append :: "nat \<Rightarrow> queue \<Rightarrow> queue option" where
  "job_append jp qp = do {
     qp \<leftarrow> wrlock qp;
     qp \<leftarrow> set_next (Some jp) None qp;
     qp \<leftarrow> set_prev (Some jp) (tail qp) qp;
     qp \<leftarrow> (if tail qp \<noteq> None then set_next (tail qp) (Some jp) qp else Some (qp\<lparr>head := Some jp\<rparr>));
     Some (rwunlock (qp\<lparr>tail := Some jp\<rparr>)) }"

definition job_remove :: "nat \<Rightarrow> queue \<Rightarrow> queue option" where
  "job_remove jp qp = do {
     qp \<leftarrow> wrlock qp;
     nd \<leftarrow> deref (Some jp) qp;
     qp \<leftarrow> (if Some jp = head qp then
              (let qp = qp\<lparr>head := nd_next nd\<rparr> in
               if tail qp = Some jp then Some (qp\<lparr>tail := None\<rparr>)
               else set_prev (nd_next nd) (nd_prev nd) qp)
            else if Some jp = tail qp then
              set_next (nd_prev nd) (nd_next nd) (qp\<lparr>tail := nd_prev nd\<rparr>)
            else
              Option.bind (set_next (nd_prev nd) (nd_next nd) qp) (set_prev (nd_next nd) (nd_prev nd)));
     Some (rwunlock qp) }"

partial_function (option) find_from :: "tid \<Rightarrow> ptr \<Rightarrow> queue \<Rightarrow> ptr option" where
  "find_from i jp qp = (case jp of None \<Rightarrow> Some None
     | Some a \<Rightarrow> Option.bind (heap qp a) (\<lambda>nd. if nd_body nd = i then Some jp else find_from i (nd_next nd) qp))"

text \<open>\<open>rd\<close> is the result of \<open>pthread_rwlock_rdlock\<close>; on an error nothing is locked.\<close>

definition job_find :: "int \<Rightarrow> tid \<Rightarrow> queue \<Rightarrow> (ptr \<times> queue) option" where
  "job_find rd i qp =
     (if rd \<noteq> 0 then Some (None, qp)
      else do { qp \<leftarrow> rdlock qp; jp \<leftarrow> find_from i (head qp) qp; Some (jp, rwunlock qp) })"

section \<open>Correctness of each operation\<close>

definition q_rep :: "queue \<Rightarrow> nat list \<Rightarrow> bool" where
  "q_rep qp xs \<longleftrightarrow> q_lock qp = Free \<and> dl qp xs"

definition q_job :: "queue \<Rightarrow> nat \<Rightarrow> tid option" where
  "q_job qp a = map_option nd_body (heap qp a)"

lemma q_rep_distinct: "q_rep qp xs \<Longrightarrow> distinct xs"
  by (simp add: q_rep_def dl_def)

lemma q_rep_alloc: "q_rep qp xs \<Longrightarrow> a \<in> set xs \<Longrightarrow> q_job qp a \<noteq> None"
  by (auto simp: q_rep_def dl_def q_job_def dest: linked_alloc)

lemma job_insert_correct:
  assumes "q_rep qp xs" and "q_job qp a \<noteq> None" and "a \<notin> set xs"
  shows "\<exists>qp'. job_insert a qp = Some qp' \<and> q_rep qp' (a # xs) \<and> q_job qp' = q_job qp"
proof -
  obtain nd where nd: "heap qp a = Some nd" using assms(2) by (auto simp: q_job_def)
  show ?thesis
  proof (cases xs)
    case Nil
    then show ?thesis using assms nd
      by (auto simp: q_rep_def dl_def job_insert_def wrlock_def rwunlock_def mem_defs q_job_def fun_eq_iff)
  next
    case (Cons b ys)
    with assms obtain nb where nb: "heap qp b = Some nb" "nd_next nb = first ys None" "a \<noteq> b" "head qp = Some b"
      by (auto simp: q_rep_def dl_def first_def)
    then show ?thesis using assms nd Cons
      by (auto simp: q_rep_def dl_def job_insert_def wrlock_def rwunlock_def mem_defs q_job_def fun_eq_iff
          linked_Cons final_Cons simp del: linked.simps(2))
  qed
qed

lemmas q_defs = q_rep_def dl_def wrlock_def rwunlock_def mem_defs q_job_def fun_eq_iff

lemma job_append_correct:
  assumes "q_rep qp xs" and "q_job qp a \<noteq> None" and "a \<notin> set xs"
  shows "\<exists>qp'. job_append a qp = Some qp' \<and> q_rep qp' (xs @ [a]) \<and> q_job qp' = q_job qp"
proof -
  obtain nd where nd: "heap qp a = Some nd" using assms(2) by (auto simp: q_job_def)
  show ?thesis
  proof (cases xs rule: rev_cases)
    case Nil
    then show ?thesis using assms nd by (auto simp: job_append_def q_defs)
  next
    case (snoc ys b)
    with assms obtain nb where nb: "heap qp b = Some nb" "a \<noteq> b" "tail qp = Some b"
      by (auto simp: q_rep_def dl_def linked_append)
    then show ?thesis using assms nd snoc
      by (auto simp: job_append_def q_defs linked_split simp del: linked.simps(2))
  qed
qed

lemma job_remove_correct:
  assumes "q_rep qp (xs @ a # ys)"
  shows "\<exists>qp'. job_remove a qp = Some qp' \<and> q_rep qp' (xs @ ys) \<and> q_job qp' = q_job qp"
proof -
  obtain nd where nd: "heap qp a = Some nd" "nd_prev nd = final None xs" "nd_next nd = first ys None"
    using assms by (auto simp: q_rep_def dl_def linked_split simp del: linked.simps(2))
  show ?thesis
  proof (cases xs rule: rev_cases)
    case Nil
    then show ?thesis
    proof (cases ys)
      case Nil
      with \<open>xs = []\<close> show ?thesis using assms nd by (auto simp: job_remove_def q_defs)
    next
      case (Cons c zs)
      with \<open>xs = []\<close> show ?thesis using assms nd
        by (auto simp: job_remove_def q_defs Let_def linked_split simp del: linked.simps(2))
    qed
  next
    case (snoc us b)
    show ?thesis
    proof (cases ys)
      case Nil
      with snoc show ?thesis using assms nd
        by (auto simp: job_remove_def q_defs linked_split simp del: linked.simps(2))
    next
      case (Cons c zs)
      with snoc show ?thesis using assms nd
        by (auto simp: job_remove_def q_defs linked_split simp del: linked.simps(2))
    qed
  qed
qed

interpretation rwq: job_list q_rep q_job job_insert job_append job_remove
proof (unfold_locales, goal_cases)
  case 1 then show ?case by (rule q_rep_distinct)
next
  case 2 then show ?case by (rule q_rep_alloc)
next
  case 3 then show ?case by (rule job_insert_correct)
next
  case 4 then show ?case by (rule job_append_correct)
next
  case 5 then show ?case by (rule job_remove_correct)
qed

lemma init_rep: "q_rep (snd (queue_init 0 qp)) []"
  by (simp add: queue_init_def q_rep_def dl_def)

lemma find_from_list:
  "linked (heap qp) p xs None \<Longrightarrow>
   find_from i (first xs None) qp = Some (List.find (\<lambda>a. q_job qp a = Some i) xs)"
proof (induction xs arbitrary: p)
  case (Cons a xs)
  then obtain nd where "heap qp a = Some nd" "nd_next nd = first xs None" "linked (heap qp) (Some a) xs None"
    by (auto simp: linked_Cons simp del: linked.simps(2))
  with Cons.IH [of "Some a"] show ?case by (subst find_from.simps) (simp add: q_job_def)
qed (subst find_from.simps, simp)

section \<open>Properties\<close>

text \<open>
  C32.  A queue that \<open>queue_init\<close> set up goes through any sequence of \<open>job_insert\<close>, \<open>job_append\<close>
  and \<open>job_remove\<close> calls without following a bad pointer and without being left locked; both
  link directions then hold exactly the list of jobs that the calls leave, the jobs' own fields
  unchanged.  A call may insert only a job that is not queued, and remove only one that is.
\<close>

theorem rw_queue_calls:
  assumes "calls_ok cs []" and "\<forall>c \<in> set cs. heap qp (call_addr c) \<noteq> None"
  shows "\<exists>qp'. do_calls job_insert job_append job_remove cs (snd (queue_init 0 qp)) = Some qp'
    \<and> q_lock qp' = Free \<and> dl qp' (fold list_step cs []) \<and> q_job qp' = q_job qp"
proof -
  have j: "q_job (snd (queue_init 0 qp)) = q_job qp" by (simp add: queue_init_def q_job_def fun_eq_iff)
  have "\<forall>c \<in> set cs. q_job (snd (queue_init 0 qp)) (call_addr c) \<noteq> None"
    unfolding j using assms(2) by (simp add: q_job_def)
  from rwq.calls_refine [OF init_rep assms(1) this] j show ?thesis by (auto simp: q_rep_def)
qed

theorem rw_queue_calls_witness:
  "\<exists>qp'. do_calls job_insert job_append job_remove [At_tail 1, At_tail 2, At_head 3, Drop 2, At_tail 2]
       (snd (queue_init 0 \<lparr>heap = \<lambda>a. Some \<lparr>nd_next = None, nd_prev = None, nd_body = a\<rparr>,
                           head = None, tail = None, q_lock = Free\<rparr>)) = Some qp'
     \<and> dl qp' [3, 1, 2]"
  using rw_queue_calls [of "[At_tail 1, At_tail 2, At_head 3, Drop 2, At_tail 2]"
    "\<lparr>heap = \<lambda>a. Some \<lparr>nd_next = None, nd_prev = None, nd_body = a\<rparr>, head = None, tail = None, q_lock = Free\<rparr>"]
  by auto

text \<open>
  \<open>job_find\<close> ends, and returns the first job of the queue with the given thread, or \<open>NULL\<close>
  when there is none or the lock cannot be taken; the queue and its lock are as before.
\<close>

theorem rw_job_find:
  assumes "dl qp xs" and "q_lock qp = Free"
  shows "job_find rd i qp = Some (if rd \<noteq> 0 then None else List.find (\<lambda>a. q_job qp a = Some i) xs, qp)"
proof -
  have f: "find_from i (head qp) (qp\<lparr>q_lock := Readers 1\<rparr>) = Some (List.find (\<lambda>a. q_job qp a = Some i) xs)"
    using assms find_from_list [of "qp\<lparr>q_lock := Readers 1\<rparr>" None xs i] by (simp add: dl_def q_job_def)
  show ?thesis using assms(2) f by (cases qp) (simp add: job_find_def rdlock_def rwunlock_def)
qed

theorem rw_job_find_witness:
  "job_find 0 7 \<lparr>heap = [5 \<mapsto> \<lparr>nd_next = None, nd_prev = None, nd_body = 7\<rparr>], head = Some 5, tail = Some 5, q_lock = Free\<rparr>
     = Some (Some 5, \<lparr>heap = [5 \<mapsto> \<lparr>nd_next = None, nd_prev = None, nd_body = 7\<rparr>], head = Some 5, tail = Some 5, q_lock = Free\<rparr>)"
  using rw_job_find [of "\<lparr>heap = [5 \<mapsto> \<lparr>nd_next = None, nd_prev = None, nd_body = 7\<rparr>], head = Some 5, tail = Some 5, q_lock = Free\<rparr>" "[5]" 0 7]
  by (simp add: dl_def q_job_def)

end
