(* ===== verification/Printd_Req.thy ===== *)
theory Printd_Req
  imports C_Text
begin

unbundle bit_operations_syntax

text \<open>
  What \<open>apue.3e/printer\<close> sends: \<open>struct printreq\<close> and \<open>struct printresp\<close> of \<open>print.h\<close> in memory
  and on the network, the request \<open>print.c\<close> builds, and the IPP and HTTP headers \<open>printd.c\<close> sends
  to the printer.  Bytes are characters; the host is little-endian.
\<close>

section \<open>Integers as bytes\<close>

definition byte :: "nat \<Rightarrow> char" where
  "byte n = char_of n"

definition le32 :: "32 word \<Rightarrow> string" where
  "le32 w = map (\<lambda>k. byte (unat (drop_bit (8 * k) w AND 0xff))) [0, 1, 2, 3]"

definition be32 :: "32 word \<Rightarrow> string" where
  "be32 w = rev (le32 w)"

definition be16 :: "nat \<Rightarrow> string" where
  "be16 n = [byte (n div 256 mod 256), byte (n mod 256)]"

definition get_le32 :: "string \<Rightarrow> 32 word" where
  "get_le32 bs = foldr (\<lambda>c w. push_bit 8 w OR of_nat (of_char c)) bs 0"

definition get_be16 :: "string \<Rightarrow> nat" where
  "get_be16 bs = foldl (\<lambda>n c. n * 256 + of_char c) 0 bs"

text \<open>\<open>htonl\<close> and \<open>ntohl\<close> on a little-endian host.\<close>

definition htonl :: "32 word \<Rightarrow> 32 word" where
  "htonl w = get_le32 (be32 w)"

definition ntohl :: "32 word \<Rightarrow> 32 word" where
  "ntohl w = htonl w"

section \<open>The print request and the response\<close>

definition USERNM_MAX :: nat where "USERNM_MAX = 64"
definition JOBNM_MAX :: nat where "JOBNM_MAX = 256"
definition MSGLEN_MAX :: nat where "MSGLEN_MAX = 512"
definition PR_TEXT :: "32 word" where "PR_TEXT = 0x01"

record printreq =
  rq_size :: "32 word"
  rq_flags :: "32 word"
  rq_usernm :: string
  rq_jobnm :: string

definition req_ok :: "printreq \<Rightarrow> bool" where
  "req_ok r \<longleftrightarrow> length (rq_usernm r) = USERNM_MAX \<and> length (rq_jobnm r) = JOBNM_MAX"

definition SIZEOF_PRINTREQ :: nat where "SIZEOF_PRINTREQ = 4 + 4 + USERNM_MAX + JOBNM_MAX"

text \<open>The bytes of the struct, and the struct in the first bytes of a buffer.\<close>

definition req_bytes :: "printreq \<Rightarrow> string" where
  "req_bytes r = le32 (rq_size r) @ le32 (rq_flags r) @ rq_usernm r @ rq_jobnm r"

definition bytes_req :: "string \<Rightarrow> printreq" where
  "bytes_req b = \<lparr>rq_size = get_le32 (take 4 b), rq_flags = get_le32 (take 4 (drop 4 b)),
     rq_usernm = take USERNM_MAX (drop 8 b), rq_jobnm = take JOBNM_MAX (drop (8 + USERNM_MAX) b)\<rparr>"

record printresp =
  rs_retcode :: "32 word"
  rs_jobid :: "32 word"
  rs_msg :: string

section \<open>The client's request\<close>

text \<open>
  \<open>submit_file\<close> of \<open>print.c\<close> up to the first \<open>writen\<close>.  \<open>pw\<close> is the name of the effective user, if
  it has one.  The bytes of the two arrays after a string's null byte are what was there before
  (\<open>pad\<close>, as long as the array).
\<close>

definition put_str :: "string \<Rightarrow> string \<Rightarrow> string" where
  "put_str pad s = s @ [NUL] @ drop (length s + 1) pad"

text \<open>\<open>strncpy\<close> fills the rest of its \<open>n\<close> bytes with null bytes.\<close>

definition strncpy :: "string \<Rightarrow> nat \<Rightarrow> string \<Rightarrow> string" where
  "strncpy old n s = take n s @ replicate (n - length s) NUL @ drop n old"

definition submit_user :: "string \<Rightarrow> string option \<Rightarrow> string" where
  "submit_user pad pw = (case pw of
       None \<Rightarrow> put_str pad ''unknown''
     | Some name \<Rightarrow> (strncpy pad (USERNM_MAX - 1) name)[USERNM_MAX - 1 := NUL])"

definition submit_job :: "string \<Rightarrow> string \<Rightarrow> string" where
  "submit_job pad fname =
     (if length fname \<ge> JOBNM_MAX
      then put_str pad (''... '' @ take (JOBNM_MAX - 5) (drop (length fname - JOBNM_MAX + 5) fname))
      else put_str pad fname)"

definition submit_req :: "string \<Rightarrow> string \<Rightarrow> string option \<Rightarrow> nat \<Rightarrow> bool \<Rightarrow> string \<Rightarrow> printreq" where
  "submit_req upad jpad pw nbytes text fname =
     \<lparr>rq_size = htonl (of_nat nbytes), rq_flags = (if text then htonl PR_TEXT else 0),
      rq_usernm = submit_user upad pw, rq_jobnm = submit_job jpad fname\<rparr>"

section \<open>The IPP header\<close>

definition OP_PRINT_JOB :: nat where "OP_PRINT_JOB = 0x02"
definition TAG_OPERATION_ATTR :: nat where "TAG_OPERATION_ATTR = 0x01"
definition TAG_END_OF_ATTR :: nat where "TAG_END_OF_ATTR = 0x03"
definition TAG_CHARSET :: nat where "TAG_CHARSET = 0x47"
definition TAG_NATULANG :: nat where "TAG_NATULANG = 0x48"
definition TAG_URI :: nat where "TAG_URI = 0x45"
definition TAG_NAMEWOLANG :: nat where "TAG_NAMEWOLANG = 0x42"
definition TAG_MIMETYPE :: nat where "TAG_MIMETYPE = 0x49"
definition IPP_PORT :: nat where "IPP_PORT = 631"
definition IBUFSZ :: nat where "IBUFSZ = 512"

text \<open>\<open>add_option\<close> writes at \<open>cp\<close>, here after the bytes written before.\<close>

definition add_option :: "string \<Rightarrow> nat \<Rightarrow> string \<Rightarrow> string \<Rightarrow> string" where
  "add_option buf tag optname optval =
     buf @ [byte tag] @ be16 (length optname) @ optname @ be16 (length optval) @ optval"

text \<open>A name array that has no null byte runs on into the next array.\<close>

definition user_str :: "printreq \<Rightarrow> string" where
  "user_str r = cstr (rq_usernm r @ rq_jobnm r)"

definition is_text :: "printreq \<Rightarrow> bool" where
  "is_text r \<longleftrightarrow> rq_flags r AND PR_TEXT \<noteq> 0"

definition ipp_header :: "32 word \<Rightarrow> string \<Rightarrow> printreq \<Rightarrow> string" where
  "ipp_header jobid pname r =
     (let icp = [byte 1, byte 1] @ be16 OP_PRINT_JOB @ be32 jobid;
          icp = icp @ [byte TAG_OPERATION_ATTR];
          icp = add_option icp TAG_CHARSET ''attributes-charset'' ''utf-8'';
          icp = add_option icp TAG_NATULANG ''attributes-natural-language'' ''en-us'';
          icp = add_option icp TAG_URI ''printer-uri'' (''http://'' @ pname @ ''/ipp'');
          icp = add_option icp TAG_NAMEWOLANG ''requesting-user-name'' (user_str r);
          icp = add_option icp TAG_NAMEWOLANG ''job-name'' (cstr (rq_jobnm r));
          icp = add_option icp TAG_MIMETYPE ''document-format''
                  (if is_text r then ''text/plain'' else ''application/postscript'')
      in icp @ [byte TAG_END_OF_ATTR])"

definition CRLF :: string where "CRLF = [CHR 0x0D, CHR 0x0A]"

definition http_header :: "string \<Rightarrow> nat \<Rightarrow> string" where
  "http_header pname len =
     ''POST /ipp HTTP/1.1'' @ CRLF @ ''Content-Length: '' @ dec len @ CRLF
     @ ''Content-Type: application/ipp'' @ CRLF @ ''Host: '' @ pname @ '':'' @ dec IPP_PORT @ CRLF @ CRLF"

section \<open>Integers as bytes: both ways\<close>

lemma byte_of_char [simp]: "of_char (byte n) = n mod 256"
  by (simp add: byte_def)

lemma byte_char [simp]: "byte (of_char c) = c"
  by (simp add: byte_def)

lemma length_le32 [simp]: "length (le32 w) = 4" "length (be32 w) = 4" "length (be16 n) = 2"
  by (simp_all add: le32_def be32_def be16_def)

lemma mask8: "x AND 0xff = take_bit 8 (x :: 32 word)"
  by (simp add: take_bit_eq_mask mask_eq_exp_minus_1)

lemma unat_mask8: "unat (take_bit 8 (x :: 32 word)) < 256"
  using take_bit_nat_less_exp [of 8 "unat x"] by (simp add: unsigned_take_bit_eq)

lemma char_lt: "(of_char c :: nat) < 256"
  by (metis of_char_mod_256 mod_less_divisor zero_less_numeral)

lemma char_mod [simp]: "(of_char c :: nat) mod 4294967296 = of_char c"
  by (rule mod_less) (rule less_trans [OF char_lt], simp)

lemma take_char [simp]: "take_bit 8 (of_char c :: nat) = of_char c"
  by (rule take_bit_nat_eq_self) (use char_lt [of c] in simp)

lemma char_bits: "bit (of_nat (of_char c) :: 32 word) n \<Longrightarrow> n < 8"
proof -
  assume b: "bit (of_nat (of_char c) :: 32 word) n"
  have "take_bit 8 (of_nat (of_char c) :: 32 word) = of_nat (of_char c)"
    by (simp add: word_unat_eq_iff unsigned_take_bit_eq unat_of_nat take_bit_nat_eq_self)
  with b have "bit (take_bit 8 (of_nat (of_char c) :: 32 word)) n" by simp
  then show "n < 8" by (simp add: bit_take_bit_iff)
qed

lemma le32_get: "le32 (get_le32 [a, b, c, d]) = [a, b, c, d]"
proof -
  let ?w = "get_le32 [a, b, c, d]"
  have w: "?w = push_bit 8 (push_bit 8 (push_bit 8 (of_nat (of_char d)) OR of_nat (of_char c)) OR of_nat (of_char b))
      OR of_nat (of_char a)" by (simp add: get_le32_def)
  have k: "take_bit 8 ?w = of_nat (of_char a)" "take_bit 8 (drop_bit 8 ?w) = of_nat (of_char b)"
    "take_bit 8 (drop_bit 16 ?w) = of_nat (of_char c)" "take_bit 8 (drop_bit 24 ?w) = of_nat (of_char d)"
    unfolding w by (rule bit_word_eqI; auto simp: bit_take_bit_iff bit_drop_bit_eq bit_or_iff bit_push_bit_iff dest: char_bits)+
  have u: "unat (of_nat (of_char x) :: 32 word) = of_char x" for x
    by (simp add: unat_of_nat)
  show ?thesis unfolding le32_def mask8 by (simp add: k u)
qed

lemma get_le32: "get_le32 (le32 w) = w"
proof -
  have u: "of_nat (of_char (byte (unat (take_bit 8 (x :: 32 word))))) = take_bit 8 x" for x
    using unat_mask8 [of x] by simp
  have "get_le32 (le32 w) = push_bit 8 (push_bit 8 (push_bit 8 (take_bit 8 (drop_bit 24 w)) OR take_bit 8 (drop_bit 16 w))
      OR take_bit 8 (drop_bit 8 w)) OR take_bit 8 w"
    by (simp add: le32_def get_le32_def mask8 u del: byte_of_char)
  also have "\<dots> = w"
  proof (rule bit_word_eqI)
    fix n assume "n < LENGTH(32)"
    then consider "n < 8" | "8 \<le> n" "n < 16" | "16 \<le> n" "n < 24" | "24 \<le> n" "n < 32" by fastforce
    then show "bit (push_bit 8 (push_bit 8 (push_bit 8 (take_bit 8 (drop_bit 24 w)) OR take_bit 8 (drop_bit 16 w))
        OR take_bit 8 (drop_bit 8 w)) OR take_bit 8 w) n = bit w n"
      by cases (auto simp: bit_take_bit_iff bit_drop_bit_eq bit_or_iff bit_push_bit_iff)
  qed
  finally show ?thesis .
qed

lemma ntohl_htonl [simp]: "ntohl (htonl w) = w"
proof -
  obtain a b c d where w: "be32 w = [a, b, c, d]"
    by (simp add: be32_def le32_def)
  then have "le32 w = [d, c, b, a]" by (simp add: be32_def rev_swap)
  then show ?thesis using get_le32 [of w] by (simp add: ntohl_def htonl_def w be32_def le32_get)
qed

lemma req_roundtrip: "req_ok r \<Longrightarrow> bytes_req (req_bytes r) = r"
  by (cases r) (simp add: req_ok_def bytes_req_def req_bytes_def get_le32 USERNM_MAX_def JOBNM_MAX_def)

lemma length_req_bytes: "req_ok r \<Longrightarrow> length (req_bytes r) = SIZEOF_PRINTREQ"
  by (simp add: req_ok_def req_bytes_def SIZEOF_PRINTREQ_def)

section \<open>Strings in the two arrays\<close>

lemma cstr_put_str: "NUL \<notin> set s \<Longrightarrow> cstr (put_str pad s @ x) = s"
  unfolding put_str_def cstr_def append_assoc by (subst takeWhile_append2) auto

lemma length_put_str: "length s < length pad \<Longrightarrow> length (put_str pad s) = length pad"
  by (simp add: put_str_def)

lemma length_strncpy: "n \<le> length old \<Longrightarrow> length (strncpy old n s) = length old"
  by (simp add: strncpy_def)

lemma submit_user:
  assumes "length pad = USERNM_MAX" and "\<forall>n. pw = Some n \<longrightarrow> NUL \<notin> set n"
  shows "length (submit_user pad pw) = USERNM_MAX"
    and "cstr (submit_user pad pw @ x) = (case pw of None \<Rightarrow> ''unknown'' | Some n \<Rightarrow> take 63 n)"
proof -
  show "length (submit_user pad pw) = USERNM_MAX"
    using assms(1) by (auto simp: submit_user_def length_put_str length_strncpy USERNM_MAX_def split: option.split)
  show "cstr (submit_user pad pw @ x) = (case pw of None \<Rightarrow> ''unknown'' | Some n \<Rightarrow> take 63 n)"
  proof (cases pw)
    case None
    have "NUL \<notin> set ''unknown''" by (simp add: NUL_def)
    then show ?thesis by (simp add: None submit_user_def cstr_put_str)
  next
    case (Some n)
    have ne: "NUL \<notin> set (take 63 n)" using assms(2) Some by (auto dest: in_set_takeD)
    have "length (drop 63 pad) = 1" using assms(1) by (simp add: USERNM_MAX_def)
    then obtain p where p: "drop 63 pad = [p]" by (metis One_nat_def length_0_conv length_Suc_conv)
    have "submit_user pad pw = take 63 n @ NUL # replicate (63 - length n) NUL"
      by (auto simp: submit_user_def Some strncpy_def USERNM_MAX_def p list_update_append replicate_append_same)
    then have "submit_user pad pw @ x = put_str [] (take 63 n) @ replicate (63 - length n) NUL @ x" by (simp add: put_str_def)
    then show ?thesis using cstr_put_str [OF ne] by (simp add: Some)
  qed
qed

definition job_title :: "string \<Rightarrow> string" where
  "job_title fname = (if length fname \<ge> 256 then ''... '' @ drop (length fname - 251) fname else fname)"

lemma submit_job:
  assumes "length pad = JOBNM_MAX" and "NUL \<notin> set fname"
  shows "length (submit_job pad fname) = JOBNM_MAX" and "cstr (submit_job pad fname) = job_title fname"
proof -
  define t where "t = (if length fname \<ge> JOBNM_MAX
      then ''... '' @ take (JOBNM_MAX - 5) (drop (length fname - JOBNM_MAX + 5) fname) else fname)"
  have s: "submit_job pad fname = put_str pad t" by (simp add: submit_job_def t_def)
  have t: "t = job_title fname" by (simp add: t_def job_title_def JOBNM_MAX_def)
  have "length t < JOBNM_MAX" by (simp add: t_def JOBNM_MAX_def)
  then show "length (submit_job pad fname) = JOBNM_MAX" using assms(1) by (simp add: s length_put_str)
  have "NUL \<notin> set ''... ''" by (simp add: NUL_def)
  then have "NUL \<notin> set t" using assms(2) by (auto simp: t job_title_def dest: in_set_dropD)
  then show "cstr (submit_job pad fname) = job_title fname" using cstr_put_str [of t pad "[]"] by (simp add: s t)
qed

section \<open>Reading an IPP header\<close>

text \<open>The attributes of a header, as RFC 2910 encodes them: tag, name, value, up to the end tag.\<close>

function ipp_attrs :: "string \<Rightarrow> (nat \<times> string \<times> string) list option" where
  "ipp_attrs [] = None"
| "ipp_attrs (t # b) =
     (if of_char t = TAG_END_OF_ATTR then (if b = [] then Some [] else None)
      else
        let n = get_be16 (take 2 b); b1 = drop 2 b;
            m = get_be16 (take 2 (drop n b1)); b2 = drop 2 (drop n b1)
        in if length b < 4 + n + m then None
           else map_option (Cons (of_char t, take n b1, take m b2)) (ipp_attrs (drop m b2)))"
  by pat_completeness auto
termination
  by (relation "measure length") auto

declare ipp_attrs.simps(2) [simp del]

lemma get_be16: "n < 65536 \<Longrightarrow> get_be16 (be16 n) = n"
  by (simp add: get_be16_def be16_def)

lemma ipp_attrs_option:
  assumes "tag < 256" and "tag \<noteq> 3" and "length nm < 65536" and "length v < 65536"
  shows "ipp_attrs (add_option [] tag nm v @ rest) = map_option (Cons (tag, nm, v)) (ipp_attrs rest)"
  using assms by (simp add: add_option_def ipp_attrs.simps(2) TAG_END_OF_ATTR_def Let_def get_be16)

lemma ipp_attrs_end: "ipp_attrs [byte 3] = Some []"
  by (simp add: ipp_attrs.simps(2) TAG_END_OF_ATTR_def)

lemmas tag_defs = TAG_OPERATION_ATTR_def TAG_END_OF_ATTR_def TAG_CHARSET_def TAG_NATULANG_def TAG_URI_def
  TAG_NAMEWOLANG_def TAG_MIMETYPE_def

definition doc_format :: "printreq \<Rightarrow> string" where
  "doc_format r = (if is_text r then ''text/plain'' else ''application/postscript'')"

lemma ipp_header_opts:
  "ipp_header jobid pname r = ([byte 1, byte 1] @ be16 OP_PRINT_JOB @ be32 jobid @ [byte TAG_OPERATION_ATTR])
     @ add_option [] TAG_CHARSET ''attributes-charset'' ''utf-8''
     @ add_option [] TAG_NATULANG ''attributes-natural-language'' ''en-us''
     @ add_option [] TAG_URI ''printer-uri'' (''http://'' @ pname @ ''/ipp'')
     @ add_option [] TAG_NAMEWOLANG ''requesting-user-name'' (user_str r)
     @ add_option [] TAG_NAMEWOLANG ''job-name'' (cstr (rq_jobnm r))
     @ add_option [] TAG_MIMETYPE ''document-format'' (doc_format r)
     @ [byte TAG_END_OF_ATTR]"
  by (simp add: ipp_header_def add_option_def doc_format_def Let_def)

section \<open>Properties\<close>

text \<open>
  C35.  From the print command to the spooler: the header \<open>submit_file\<close> sends, read by the daemon
  into its struct and converted with \<open>ntohl\<close>, has the file's size modulo \<open>2^32\<close>, the text flag
  the user asked for, the user's name cut to 63 characters (or \<open>unknown\<close>), and the file name,
  cut to its last 251 characters after three dots when it is 256 or longer.
\<close>

theorem print_request_roundtrip:
  assumes "length upad = USERNM_MAX" and "length jpad = JOBNM_MAX" and "NUL \<notin> set fname"
    and "\<forall>n. pw = Some n \<longrightarrow> NUL \<notin> set n"
  shows "let q = bytes_req (req_bytes (submit_req upad jpad pw nbytes text fname)) in
    ntohl (rq_size q) = of_nat nbytes \<and> ntohl (rq_flags q) = (if text then PR_TEXT else 0)
    \<and> user_str q = (case pw of None \<Rightarrow> ''unknown'' | Some n \<Rightarrow> take 63 n)
    \<and> cstr (rq_jobnm q) = job_title fname"
proof -
  let ?r = "submit_req upad jpad pw nbytes text fname"
  have "req_ok ?r" using submit_user(1) [OF assms(1,4)] submit_job(1) [OF assms(2,3)]
    by (simp add: req_ok_def submit_req_def)
  then have q: "bytes_req (req_bytes ?r) = ?r" by (rule req_roundtrip)
  have "htonl 0 = 0" by (simp add: htonl_def be32_def le32_def get_le32_def)
  then have z: "ntohl 0 = 0" by (simp add: ntohl_def)
  show ?thesis unfolding q using z submit_user(2) [OF assms(1,4)] submit_job(2) [OF assms(2,3)]
    by (simp add: submit_req_def user_str_def Let_def)
qed

theorem print_request_roundtrip_witness:
  "cstr (rq_jobnm (bytes_req (req_bytes (submit_req (replicate 64 NUL) (replicate 256 NUL) (Some ''sar'') 5 True ''a.ps'')))) = ''a.ps''"
  using print_request_roundtrip [of "replicate 64 NUL" "replicate 256 NUL" "''a.ps''" "Some ''sar''" 5 True]
  by (simp add: USERNM_MAX_def JOBNM_MAX_def NUL_def job_title_def Let_def)

text \<open>
  The header \<open>printer_thread\<close> builds is a well-formed IPP request: version 1.1, the operation
  Print-Job, the job number, and attributes that a reader of the format gets back as they were
  given, in their order.
\<close>

theorem ipp_header_decodes:
  assumes "length pname < 65000" and "length (rq_usernm r) = 64" and "length (rq_jobnm r) = 256"
  shows "take 9 (ipp_header jobid pname r) = [byte 1, byte 1] @ be16 2 @ be32 jobid @ [byte 1]
    \<and> ipp_attrs (drop 9 (ipp_header jobid pname r)) = Some
       [(0x47, ''attributes-charset'', ''utf-8''), (0x48, ''attributes-natural-language'', ''en-us''),
        (0x45, ''printer-uri'', ''http://'' @ pname @ ''/ipp''),
        (0x42, ''requesting-user-name'', user_str r), (0x42, ''job-name'', cstr (rq_jobnm r)),
        (0x49, ''document-format'', if is_text r then ''text/plain'' else ''application/postscript'')]"
proof -
  have u: "length (user_str r) \<le> 320" "length (cstr (rq_jobnm r)) \<le> 256"
    using assms length_takeWhile_le [of _ "rq_usernm r @ rq_jobnm r"] length_takeWhile_le [of _ "rq_jobnm r"]
    by (simp_all add: user_str_def cstr_def)
  define h where "h = [byte 1, byte 1] @ be16 OP_PRINT_JOB @ be32 jobid @ [byte TAG_OPERATION_ATTR]"
  have h: "length h = 9" by (simp add: h_def)
  have d: "length (doc_format r) < 65536" by (simp add: doc_format_def)
  note e = ipp_header_opts [of jobid pname r, folded h_def]
  have t: "take 9 (ipp_header jobid pname r) = h" unfolding e using h by simp
  have a: "ipp_attrs (drop 9 (ipp_header jobid pname r)) = Some
       [(TAG_CHARSET, ''attributes-charset'', ''utf-8''), (TAG_NATULANG, ''attributes-natural-language'', ''en-us''),
        (TAG_URI, ''printer-uri'', ''http://'' @ pname @ ''/ipp''),
        (TAG_NAMEWOLANG, ''requesting-user-name'', user_str r), (TAG_NAMEWOLANG, ''job-name'', cstr (rq_jobnm r)),
        (TAG_MIMETYPE, ''document-format'', doc_format r)]"
    unfolding e using h u d assms(1) by (simp add: ipp_attrs_option ipp_attrs_end tag_defs)
  show ?thesis using t a by (simp add: h_def OP_PRINT_JOB_def tag_defs doc_format_def)
qed

theorem ipp_header_decodes_witness:
  "ipp_attrs (drop 9 (ipp_header 7 ''lp'' \<lparr>rq_size = 0, rq_flags = 1, rq_usernm = replicate 64 NUL, rq_jobnm = replicate 256 NUL\<rparr>)) \<noteq> None"
  using ipp_header_decodes [of "''lp''" "\<lparr>rq_size = 0, rq_flags = 1, rq_usernm = replicate 64 NUL, rq_jobnm = replicate 256 NUL\<rparr>" 7]
  by simp

text \<open>
  The header does not always fit the 512 bytes of \<open>ibuf\<close>, and nothing checks that it does:
  it fits exactly when the names of printer, user and job have at most 342 characters together
  (330 for PostScript).  The longest request the print command sends needs 318 of them.
\<close>

theorem ipp_header_fits:
  "length (ipp_header jobid pname r) \<le> IBUFSZ \<longleftrightarrow>
     length pname + length (user_str r) + length (cstr (rq_jobnm r)) \<le> (if is_text r then 342 else 330)"
  by (auto simp: ipp_header_opts add_option_def IBUFSZ_def doc_format_def)

end
