(* ===== verification/Printd_Jobs.thy ===== *)
theory Printd_Jobs
  imports Job_List Printd_Req
begin

text \<open>
  The shared lists of \<open>apue.3e/printer/printd.c\<close>: the pending jobs (\<open>jobhead\<close>, \<open>jobtail\<close>), the
  worker threads (\<open>workers\<close>, a list without a tail pointer: the field \<open>tail\<close> is not used), and
  the job number.  Each operation runs with the mutex of its list held; \<open>malloc\<close> gives the address
  that is an argument.
\<close>

section \<open>Pending jobs\<close>

record job =
  j_id :: "32 word"
  j_req :: printreq

definition link_tail :: "nat \<Rightarrow> job dlist \<Rightarrow> job dlist option" where
  "link_tail jp s = do {
     s \<leftarrow> set_next (Some jp) None s;
     s \<leftarrow> set_prev (Some jp) (tail s) s;
     s \<leftarrow> (if tail s = None then Some (s\<lparr>head := Some jp\<rparr>) else set_next (tail s) (Some jp) s);
     Some (s\<lparr>tail := Some jp\<rparr>) }"

definition new_job :: "nat \<Rightarrow> printreq \<Rightarrow> 32 word \<Rightarrow> job dlist \<Rightarrow> job dlist" where
  "new_job jp reqp jobid s =
     s\<lparr>heap := (heap s)(jp \<mapsto> \<lparr>nd_next = None, nd_prev = None, nd_body = \<lparr>j_id = jobid, j_req = reqp\<rparr>\<rparr>)\<rparr>"

definition add_job :: "nat \<Rightarrow> printreq \<Rightarrow> 32 word \<Rightarrow> job dlist \<Rightarrow> job dlist option" where
  "add_job jp reqp jobid s = link_tail jp (new_job jp reqp jobid s)"

definition replace_job :: "nat \<Rightarrow> job dlist \<Rightarrow> job dlist option" where
  "replace_job jp s = do {
     s \<leftarrow> set_prev (Some jp) None s;
     s \<leftarrow> set_next (Some jp) (head s) s;
     s \<leftarrow> (if head s = None then Some (s\<lparr>tail := Some jp\<rparr>) else set_prev (head s) (Some jp) s);
     Some (s\<lparr>head := Some jp\<rparr>) }"

definition remove_job :: "nat \<Rightarrow> job dlist \<Rightarrow> job dlist option" where
  "remove_job target s = do {
     nd \<leftarrow> deref (Some target) s;
     s \<leftarrow> (if nd_next nd \<noteq> None then set_prev (nd_next nd) (nd_prev nd) s else Some (s\<lparr>tail := nd_prev nd\<rparr>));
     nd \<leftarrow> deref (Some target) s;
     (if nd_prev nd \<noteq> None then set_next (nd_prev nd) (nd_next nd) s else Some (s\<lparr>head := nd_next nd\<rparr>)) }"

definition free_job :: "nat \<Rightarrow> job dlist \<Rightarrow> job dlist" where
  "free_job jp s = s\<lparr>heap := (heap s)(jp := None)\<rparr>"

definition jobs :: "job dlist \<Rightarrow> nat \<Rightarrow> job option" where
  "jobs s a = map_option nd_body (heap s a)"

lemmas jl_defs = dl_def mem_defs jobs_def fun_eq_iff

lemma link_tail_correct:
  assumes "dl s xs" and "jobs s a \<noteq> None" and "a \<notin> set xs"
  shows "\<exists>s'. link_tail a s = Some s' \<and> dl s' (xs @ [a]) \<and> jobs s' = jobs s"
proof -
  obtain nd where nd: "heap s a = Some nd" using assms(2) by (auto simp: jobs_def)
  show ?thesis
  proof (cases xs rule: rev_cases)
    case Nil
    then show ?thesis using assms nd by (auto simp: link_tail_def jl_defs)
  next
    case (snoc ys b)
    with assms obtain nb where "heap s b = Some nb" "a \<noteq> b" "tail s = Some b"
      by (auto simp: dl_def linked_append)
    then show ?thesis using assms nd snoc
      by (auto simp: link_tail_def jl_defs linked_split simp del: linked.simps(2))
  qed
qed

lemma replace_job_correct:
  assumes "dl s xs" and "jobs s a \<noteq> None" and "a \<notin> set xs"
  shows "\<exists>s'. replace_job a s = Some s' \<and> dl s' (a # xs) \<and> jobs s' = jobs s"
proof -
  obtain nd where nd: "heap s a = Some nd" using assms(2) by (auto simp: jobs_def)
  show ?thesis
  proof (cases xs)
    case Nil
    then show ?thesis using assms nd by (auto simp: replace_job_def jl_defs)
  next
    case (Cons b ys)
    with assms obtain nb where "heap s b = Some nb" "a \<noteq> b" "head s = Some b"
      by (auto simp: dl_def)
    then show ?thesis using assms nd Cons
      by (auto simp: replace_job_def jl_defs linked_split simp del: linked.simps(2))
  qed
qed

lemma remove_job_correct:
  assumes "dl s (xs @ a # ys)"
  shows "\<exists>s'. remove_job a s = Some s' \<and> dl s' (xs @ ys) \<and> jobs s' = jobs s"
proof -
  obtain nd where nd: "heap s a = Some nd" "nd_prev nd = final None xs" "nd_next nd = first ys None"
    using assms by (auto simp: dl_def linked_split simp del: linked.simps(2))
  show ?thesis
  proof (cases xs rule: rev_cases)
    case Nil
    then show ?thesis using assms nd
      by (cases ys) (auto simp: remove_job_def jl_defs linked_split simp del: linked.simps(2))
  next
    case (snoc us b)
    then show ?thesis using assms nd
      by (cases ys) (auto simp: remove_job_def jl_defs linked_split simp del: linked.simps(2))
  qed
qed

interpretation pjobs: job_list dl jobs replace_job link_tail remove_job
proof (unfold_locales, goal_cases)
  case 1 then show ?case by (simp add: dl_def)
next
  case 2 then show ?case by (auto simp: dl_def jobs_def dest: linked_alloc)
next
  case 3 then show ?case by (rule replace_job_correct)
next
  case 4 then show ?case by (rule link_tail_correct)
next
  case 5 then show ?case by (rule remove_job_correct)
qed

text \<open>The list of jobs as the threads see it.\<close>

definition pending :: "job dlist \<Rightarrow> (nat \<times> job) list \<Rightarrow> bool" where
  "pending s q \<longleftrightarrow> dl s (map fst q) \<and> (\<forall>e \<in> set q. jobs s (fst e) = Some (snd e))"

lemma dl_new_job: "heap s a = None \<Longrightarrow> dl s xs \<Longrightarrow> a \<notin> set xs \<and> dl (new_job a r i s) xs"
proof -
  assume a: "heap s a = None" "dl s xs"
  then have "a \<notin> set xs" by (auto simp: dl_def dest: linked_alloc)
  with a show ?thesis by (simp add: dl_def new_job_def)
qed

lemma add_job_pending:
  assumes "pending s q" and "heap s a = None"
  shows "\<exists>s'. add_job a r i s = Some s' \<and> pending s' (q @ [(a, \<lparr>j_id = i, j_req = r\<rparr>)])
    \<and> (\<forall>b. b \<noteq> a \<longrightarrow> jobs s' b = jobs s b)"
proof -
  have d: "a \<notin> set (map fst q)" "dl (new_job a r i s) (map fst q)"
    using dl_new_job [OF assms(2), of "map fst q"] assms(1) unfolding pending_def by blast+
  have j: "jobs (new_job a r i s) b = (if b = a then Some \<lparr>j_id = i, j_req = r\<rparr> else jobs s b)" for b
    by (simp add: jobs_def new_job_def)
  from link_tail_correct [OF d(2) _ d(1)] j obtain s' where
    "add_job a r i s = Some s'" "dl s' (map fst q @ [a])" "jobs s' = jobs (new_job a r i s)"
    by (auto simp: add_job_def)
  with assms(1) d(1) j show ?thesis by (auto simp: pending_def)
qed

lemma remove_job_pending:
  assumes "pending s ((a, j) # q)"
  shows "\<exists>s'. remove_job a s = Some s' \<and> pending s' q \<and> jobs s' = jobs s \<and> head s = Some a \<and> a \<notin> fst ` set q"
  using assms pjobs.rep_drop [of s "[]" a "map fst q"] by (auto simp: pending_def dl_def)

lemma replace_job_pending:
  assumes "pending s q" and "jobs s a = Some j" and "a \<notin> fst ` set q"
  shows "\<exists>s'. replace_job a s = Some s' \<and> pending s' ((a, j) # q) \<and> jobs s' = jobs s"
  using assms replace_job_correct [of s "map fst q" a] by (auto simp: pending_def)

lemma free_job_pending:
  assumes "pending s q" and "a \<notin> fst ` set q"
  shows "pending (free_job a s) q"
proof -
  have "linked ((heap s)(a := None)) None (map fst q) None = linked (heap s) None (map fst q) None"
    using assms(2) by (intro linked_cong) auto
  moreover have "fst e \<noteq> a" if "e \<in> set q" for e using assms(2) that by auto
  ultimately show ?thesis using assms by (auto simp: pending_def dl_def free_job_def jobs_def)
qed

end
