(* ===== verification/Printd_Workers.thy ===== *)
theory Printd_Workers
  imports Printd_Jobs
begin

text \<open>
  The worker list and the job number of \<open>apue.3e/printer/printd.c\<close>.  \<open>pthread_cancel\<close> and
  \<open>close\<close> are what the operations return: the threads cancelled, the socket closed.
\<close>

section \<open>Worker threads\<close>

type_synonym tid = nat

record worker =
  w_tid :: tid
  w_sock :: nat

definition new_worker :: "nat \<Rightarrow> tid \<Rightarrow> nat \<Rightarrow> worker dlist \<Rightarrow> worker dlist" where
  "new_worker wtp t sockfd s =
     s\<lparr>heap := (heap s)(wtp \<mapsto> \<lparr>nd_next = None, nd_prev = None, nd_body = \<lparr>w_tid = t, w_sock = sockfd\<rparr>\<rparr>)\<rparr>"

definition add_worker :: "nat \<Rightarrow> tid \<Rightarrow> nat \<Rightarrow> worker dlist \<Rightarrow> worker dlist option" where
  "add_worker wtp t sockfd s = do {
     s \<leftarrow> Some (new_worker wtp t sockfd s);
     s \<leftarrow> set_prev (Some wtp) None s;
     s \<leftarrow> set_next (Some wtp) (head s) s;
     (if head s = None then Some (s\<lparr>head := Some wtp\<rparr>) else set_prev (head s) (Some wtp) s) }"

partial_function (option) cancel_from :: "ptr \<Rightarrow> worker dlist \<Rightarrow> tid list option" where
  "cancel_from wtp s = (case wtp of None \<Rightarrow> Some []
     | Some a \<Rightarrow> do { nd \<leftarrow> heap s a; ts \<leftarrow> cancel_from (nd_next nd) s; Some (w_tid (nd_body nd) # ts) })"

definition kill_workers :: "worker dlist \<Rightarrow> tid list option" where
  "kill_workers s = cancel_from (head s) s"

partial_function (option) worker_from :: "tid \<Rightarrow> ptr \<Rightarrow> worker dlist \<Rightarrow> ptr option" where
  "worker_from t wtp s = (case wtp of None \<Rightarrow> Some None
     | Some a \<Rightarrow> do { nd \<leftarrow> heap s a; if w_tid (nd_body nd) = t then Some wtp else worker_from t (nd_next nd) s })"

definition client_cleanup :: "tid \<Rightarrow> worker dlist \<Rightarrow> (nat option \<times> worker dlist) option" where
  "client_cleanup t s = do {
     wtp \<leftarrow> worker_from t (head s) s;
     (case wtp of
        None \<Rightarrow> Some (None, s)
      | Some a \<Rightarrow> do {
          nd \<leftarrow> heap s a;
          s \<leftarrow> (if nd_next nd \<noteq> None then set_prev (nd_next nd) (nd_prev nd) s else Some s);
          s \<leftarrow> (if nd_prev nd \<noteq> None then set_next (nd_prev nd) (nd_next nd) s
               else Some (s\<lparr>head := nd_next nd\<rparr>));
          Some (Some (w_sock (nd_body nd)), s\<lparr>heap := (heap s)(a := None)\<rparr>) }) }"

section \<open>The job number\<close>

text \<open>\<open>int32_t\<close>: the increment wraps.  The results are the number handed out and the new counter.\<close>

definition get_newjobno :: "32 word \<Rightarrow> 32 word \<times> 32 word" where
  "get_newjobno nextjob = (nextjob, if sint (nextjob + 1) \<le> 0 then 1 else nextjob + 1)"

definition SPOOLDIR :: string where "SPOOLDIR = ''/var/spool/printer''"
definition JOBFILE :: string where "JOBFILE = ''jobno''"
definition FILENMSZ :: nat where "FILENMSZ = 64"

text \<open>
  \<open>init_request\<close>: \<open>locked\<close> is the success of \<open>write_lock\<close>, \<open>rd\<close> the result of \<open>read\<close> (\<open>None\<close> on an
  error).  What is read replaces the first bytes of the path name in the buffer, and \<open>atol\<close>
  reads on behind it.
\<close>

definition init_request :: "bool \<Rightarrow> string option \<Rightarrow> abort + 32 word" where
  "init_request locked rd =
     (let name = SPOOLDIR @ ''/'' @ JOBFILE @ [NUL] in
      if \<not> locked then Inl (Err_quit ''daemon already running'')
      else (case rd of
              None \<Rightarrow> Inl (Err_sys ''can't read job file'')
            | Some bs \<Rightarrow> if bs = [] then Inr 1
                         else Inr (word_of_int (atol (cstr (bs @ drop (length bs) name))))))"

text \<open>\<open>update_jobno\<close> overwrites the start of the file and does not truncate it.\<close>

definition update_jobno :: "32 word \<Rightarrow> string \<Rightarrow> string" where
  "update_jobno nextjob file = overlay NUL file 0 (fmt_d (sint nextjob))"

section \<open>The numbers handed out\<close>

fun jobnos :: "nat \<Rightarrow> 32 word \<Rightarrow> 32 word list" where
  "jobnos 0 nj = []"
| "jobnos (Suc k) nj = fst (get_newjobno nj) # jobnos k (snd (get_newjobno nj))"

lemma sint_bounds: "- 2147483648 \<le> sint (w :: 32 word)" "sint (w :: 32 word) < 2147483648"
  using sint_ge [of w] sint_lt [of w] by simp_all

lemma sint_Suc: "0 < sint (w :: 32 word) \<Longrightarrow> sint w < 2147483647 \<Longrightarrow> sint (w + 1) = sint w + 1"
  by (simp add: sint_word_ariths signed_take_bit_int_eq_self)

lemma sint_max: "sint (w :: 32 word) = 2147483647 \<Longrightarrow> sint (w + 1) = - 2147483648"
  by (simp add: sint_word_ariths signed_take_bit_eq_take_bit_shift take_bit_eq_mod)

lemma newjobno_step:
  assumes "0 < sint n"
  shows "sint (snd (get_newjobno n)) = sint n mod 2147483647 + 1"
proof (cases "sint n = 2147483647")
  case True
  then show ?thesis using sint_max [of n] by (simp add: get_newjobno_def)
next
  case False
  then have "sint n < 2147483647" using sint_bounds(2) [of n] by simp
  then show ?thesis using sint_Suc [of n] assms by (simp add: get_newjobno_def)
qed

lemma jobnos_nth:
  assumes "0 < sint n" and "i < k"
  shows "sint (jobnos k n ! i) = (sint n - 1 + int i) mod 2147483647 + 1"
  using assms
proof (induction k arbitrary: n i)
  case (Suc k)
  show ?case
  proof (cases i)
    case 0
    then show ?thesis using Suc.prems sint_bounds(2) [of n] by (simp add: get_newjobno_def)
  next
    case (Suc j)
    let ?m = "snd (get_newjobno n)"
    have m: "sint ?m = sint n mod 2147483647 + 1" by (rule newjobno_step [OF Suc.prems(1)])
    then have "0 < sint ?m" by (simp add: pos_mod_sign order_le_less_trans)
    with Suc.IH [of ?m j] Suc.prems Suc have "sint (jobnos (Suc k) n ! i) = (sint ?m - 1 + int j) mod 2147483647 + 1"
      by simp
    then show ?thesis by (simp add: m Suc mod_add_right_eq algebra_simps)
  qed
qed simp

lemma length_jobnos [simp]: "length (jobnos k n) = k"
  by (induction k arbitrary: n) simp_all

section \<open>Properties\<close>

text \<open>
  When two clients are served at once, \<open>add_worker\<close> leaves \<open>workers\<close> at the first of the two
  workers: \<open>kill_workers\<close> cancels only that one, the cleanup of the second finds no worker and
  leaves its socket open, and the cleanup of the first leaves \<open>workers\<close> at freed memory, which
  the next walk of the list follows.
\<close>

theorem printd_workers_lost:
  assumes "head s = None" and "a \<noteq> b" and "t \<noteq> u"
  shows "\<exists>s1 s2 s3. add_worker a t x s = Some s1 \<and> add_worker b u y s1 = Some s2
    \<and> kill_workers s2 = Some [t] \<and> client_cleanup u s2 = Some (None, s2)
    \<and> client_cleanup t s2 = Some (Some x, s3) \<and> kill_workers s3 = None \<and> client_cleanup u s3 = None"
  using assms
  by (auto simp: add_worker_def new_worker_def kill_workers_def client_cleanup_def mem_defs
      cancel_from.simps worker_from.simps)

theorem printd_workers_lost_witness:
  "\<exists>s1 s2. add_worker 1 10 5 \<lparr>heap = \<lambda>_. None, head = None, tail = None\<rparr> = Some s1
    \<and> add_worker 2 11 6 s1 = Some s2 \<and> kill_workers s2 = Some [10]"
  using printd_workers_lost [of "\<lparr>heap = \<lambda>_. None, head = None, tail = None\<rparr>" 1 2 10 11 5 6] by auto

text \<open>
  Started from a positive number, \<open>get_newjobno\<close> hands out positive numbers, wraps from
  \<open>2^31 - 1\<close> to 1, and repeats none before \<open>2^31 - 1\<close> numbers were handed out.
\<close>

theorem printd_jobnos_distinct:
  assumes "0 < sint n" and "k \<le> 2147483647"
  shows "distinct (jobnos k n) \<and> (\<forall>i < k. sint (jobnos k n ! i) = (sint n - 1 + int i) mod 2147483647 + 1)"
proof (intro conjI allI impI)
  show "sint (jobnos k n ! i) = (sint n - 1 + int i) mod 2147483647 + 1" if "i < k" for i
    using jobnos_nth [OF assms(1) that] .
  show "distinct (jobnos k n)"
  proof (unfold distinct_conv_nth, intro allI impI)
    fix i j assume ij: "i < length (jobnos k n)" "j < length (jobnos k n)" "i \<noteq> j"
    show "jobnos k n ! i \<noteq> jobnos k n ! j"
    proof
      assume e: "jobnos k n ! i = jobnos k n ! j"
      then have "(sint n - 1 + int i) mod 2147483647 = (sint n - 1 + int j) mod 2147483647"
        using jobnos_nth [OF assms(1), of i k] jobnos_nth [OF assms(1), of j k] ij by simp
      then have "2147483647 dvd (sint n - 1 + int i) - (sint n - 1 + int j)" by (simp add: mod_eq_dvd_iff)
      then have "2147483647 dvd int i - int j" by simp
      moreover have "int i - int j \<noteq> 0" "\<bar>int i - int j\<bar> < 2147483647" using ij assms(2) by auto
      ultimately show False using dvd_imp_le_int [of "int i - int j" 2147483647] by simp
    qed
  qed
qed

theorem printd_jobnos_distinct_witness: "distinct (jobnos 3 0x7FFFFFFE) \<and> jobnos 3 0x7FFFFFFE = [0x7FFFFFFE, 0x7FFFFFFF, 1]"
  using printd_jobnos_distinct [of "0x7FFFFFFE" 3] by (simp add: get_newjobno_def numeral_3_eq_3)

text \<open>
  The job number survives a restart: what \<open>update_jobno\<close> wrote, \<open>init_request\<close> reads back, as
  long as the number has at least as many digits as the file before; a shorter one is read with
  the digits left over behind it.
\<close>

theorem printd_jobno_file:
  assumes "0 < sint n" and "\<forall>c \<in> set file. isdigit_c c"
  shows "init_request True (Some (update_jobno n file))
    = Inr (if length file \<le> length (dec (nat (sint n))) then n
           else word_of_int (int (digits_val 0 (dec (nat (sint n)) @ drop (length (dec (nat (sint n)))) file))))"
proof -
  let ?d = "dec (nat (sint n))" and ?name = "SPOOLDIR @ ''/'' @ JOBFILE @ [NUL]"
  define up where "up = update_jobno n file"
  have up: "up = ?d @ drop (length ?d) file"
    using assms(1) by (simp add: up_def update_jobno_def overlay_def fmt_d_def)
  have ne: "up \<noteq> []" by (simp add: up)
  have dig: "\<forall>c \<in> set up. isdigit_c c" using assms(2) dec_digits by (auto simp: up dest: in_set_dropD)
  have name: "\<forall>c \<in> set ?name. \<not> isdigit_c c"
    by (simp add: SPOOLDIR_def JOBFILE_def NUL_def isdigit_c_def)
  define r where "r = cstr (drop (length up) ?name)"
  have rn: "r = [] \<or> \<not> isdigit_c (List.hd r)"
  proof (cases r)
    case (Cons c cs)
    then have "c \<in> set ?name" unfolding r_def cstr_def
      by (metis list.set_intros(1) set_takeWhileD in_set_dropD)
    with name Cons show ?thesis by auto
  qed simp
  have nul: "\<forall>c \<in> set up. c \<noteq> NUL" using dig isdigit_misc(1) by blast
  have buf: "cstr (up @ drop (length up) ?name) = up @ r"
    unfolding r_def cstr_def by (rule takeWhile_append2) (use nul in blast)
  obtain c cs where c: "up = c # cs" using ne by (cases up) auto
  then have "\<not> isspace_c c" "c \<noteq> CHR ''-''" "c \<noteq> CHR ''+''"
    using dig isdigit_not_space isdigit_no_sign by auto
  then have "atol (up @ r) = int (digits_val 0 (up @ r))" by (simp add: atol_def c)
  also have "digits_val 0 (up @ r) = digits_val 0 up"
    by (simp add: digits_val_append [OF dig] digits_val_stop [OF rn])
  finally have res: "init_request True (Some up) = Inr (word_of_int (int (digits_val 0 up)))"
    using ne buf by (simp add: init_request_def Let_def)
  show ?thesis
  proof (cases "length file \<le> length ?d")
    case True
    then have "digits_val 0 up = nat (sint n)" using digits_val_dec [of 0 "nat (sint n)" "[]"] by (simp add: up)
    then show ?thesis using res True assms(1) unfolding up_def by simp
  next
    case False
    then show ?thesis using res up unfolding up_def by simp
  qed
qed

theorem printd_jobno_file_witness: "init_request True (Some (update_jobno 12 ''300'')) = Inr 120"
proof -
  have d: "dec 12 = ''12''" by (simp add: dec.simps digit_char_def char_of_def bit_0)
  show ?thesis using printd_jobno_file [of 12 "''300''"]
    by (simp add: d isdigit_c_def digit_val_def)
qed
end
