(* ===== verification/Printd_Spool.thy ===== *)
theory Printd_Spool
  imports Printd_Workers
begin

unbundle bit_operations_syntax

text \<open>
  \<open>client_thread\<close> and \<open>build_qonstart\<close> of \<open>apue.3e/printer/printd.c\<close>, and \<open>treadn\<close> of \<open>util.c\<close>.
  The spool is two directories of files by name (\<open>DATADIR\<close> and \<open>REQDIR\<close>).  What the system calls
  return is an argument: \<open>Inl\<close> of an \<open>errno\<close> number, or what was read, or how much was written.
\<close>

section \<open>Timed reads\<close>

text \<open>
  \<open>treadn\<close> over the results of the successive \<open>tread\<close> calls, \<open>Inr []\<close> being the end of file;
  a \<open>tread\<close> returns at most as many bytes as it is asked for.
\<close>

fun treadn :: "(32 word + string) list \<Rightarrow> nat \<Rightarrow> 32 word + string" where
  "treadn rs 0 = Inr []"
| "treadn [] (Suc n) = Inr []"
| "treadn (Inl e # rs) (Suc n) = Inl e"
| "treadn (Inr bs # rs) (Suc n) =
     (if bs = [] then Inr []
      else let got = take (Suc n) bs in
        (case treadn rs (Suc n - length got) of Inl _ \<Rightarrow> Inr got | Inr rest \<Rightarrow> Inr (got @ rest)))"

section \<open>The spool\<close>

record spool =
  sp_data :: "string \<Rightarrow> string option"
  sp_reqs :: "string \<Rightarrow> string option"

definition job_name :: "32 word \<Rightarrow> string" where
  "job_name jobid = fmt_d (sint jobid)"

definition EIO :: "32 word" where "EIO = 5"

record client_io =
  ci_hdr :: "(32 word + string) list"
  ci_creat :: "32 word option"
  ci_junk :: string
  ci_chunks :: "string list"
  ci_wdata :: "nat \<Rightarrow> 32 word + nat"
  ci_creat2 :: "32 word option"
  ci_wreq :: "32 word + nat"

text \<open>The loop that stores the file: the error of the first write that is not complete, or the contents.\<close>

fun store_chunks :: "(nat \<Rightarrow> 32 word + nat) \<Rightarrow> nat \<Rightarrow> string list \<Rightarrow> string \<Rightarrow> 32 word + string" where
  "store_chunks w k [] body = Inr body"
| "store_chunks w k (c # cs) body =
     (case w k of Inl e \<Rightarrow> Inl e
      | Inr n \<Rightarrow> if n \<noteq> length c then Inl EIO else store_chunks w (k + 1) cs (body @ c))"

definition text_flag :: "string \<Rightarrow> string list \<Rightarrow> printreq \<Rightarrow> printreq" where
  "text_flag junk cs r = (case cs of [] \<Rightarrow> r
     | c # _ \<Rightarrow> if take 4 (c @ drop (length c) junk) \<noteq> ''%!PS'' then r\<lparr>rq_flags := rq_flags r OR PR_TEXT\<rparr> else r)"

text \<open>The response to a failure: \<open>strerror\<close> is applied to the value in network byte order.\<close>

definition reject :: "(32 word \<Rightarrow> string) \<Rightarrow> 32 word \<Rightarrow> printresp" where
  "reject strerr e = \<lparr>rs_retcode = htonl e, rs_jobid = 0, rs_msg = take MSGLEN_MAX (strerr (htonl e))\<rparr>"

text \<open>
  \<open>client_thread\<close> between \<open>add_worker\<close> and \<open>add_job\<close>: the response, the job counter, the spool, and
  the job to add, when there is one.
\<close>

definition client_thread :: "(32 word \<Rightarrow> string) \<Rightarrow> client_io \<Rightarrow> 32 word \<Rightarrow> spool
    \<Rightarrow> printresp \<times> 32 word \<times> spool \<times> (32 word \<times> printreq) option" where
  "client_thread strerr io nj sp =
     (case treadn (ci_hdr io) SIZEOF_PRINTREQ of
        Inl e \<Rightarrow> (reject strerr e, nj, sp, None)
      | Inr b \<Rightarrow>
        if length b \<noteq> SIZEOF_PRINTREQ then (reject strerr EIO, nj, sp, None)
        else
          let req = bytes_req b;
              req = req\<lparr>rq_size := ntohl (rq_size req), rq_flags := ntohl (rq_flags req)\<rparr>;
              (jobid, nj) = get_newjobno nj;
              name = job_name jobid
          in (case ci_creat io of
                Some e \<Rightarrow> (reject strerr e, nj, sp, None)
              | None \<Rightarrow>
                let sp = sp\<lparr>sp_data := (sp_data sp)(name \<mapsto> [])\<rparr>;
                    req = text_flag (ci_junk io) (ci_chunks io) req
                in (case store_chunks (ci_wdata io) 0 (ci_chunks io) [] of
                      Inl e \<Rightarrow> (reject strerr e, nj, sp\<lparr>sp_data := (sp_data sp)(name := None)\<rparr>, None)
                    | Inr body \<Rightarrow>
                      let sp = sp\<lparr>sp_data := (sp_data sp)(name \<mapsto> body)\<rparr> in
                      (case ci_creat2 io of
                         Some e \<Rightarrow> (reject strerr e, nj, sp\<lparr>sp_data := (sp_data sp)(name := None)\<rparr>, None)
                       | None \<Rightarrow>
                         (case (case ci_wreq io of Inl e \<Rightarrow> Some e
                                | Inr n \<Rightarrow> if n \<noteq> SIZEOF_PRINTREQ then Some EIO else None) of
                            Some e \<Rightarrow> (reject strerr e, nj,
                                sp\<lparr>sp_data := (sp_data sp)(name := None), sp_reqs := (sp_reqs sp)(name := None)\<rparr>, None)
                          | None \<Rightarrow>
                              (\<lparr>rs_retcode = 0, rs_jobid = htonl jobid, rs_msg = ''request ID '' @ job_name jobid\<rparr>,
                               nj, sp\<lparr>sp_reqs := (sp_reqs sp)(name \<mapsto> req_bytes req)\<rparr>, Some (jobid, req)))))))"

section \<open>Start-up\<close>

text \<open>
  \<open>build_qonstart\<close> over the names \<open>readdir\<close> gives for \<open>REQDIR\<close>; \<open>fails\<close> says which files cannot be
  opened or read, \<open>al\<close> where \<open>malloc\<close> puts the next job.
\<close>

datatype readable = Can_read | Cannot_open | Cannot_read

fun build_qonstart :: "(string \<Rightarrow> readable) \<Rightarrow> (job dlist \<Rightarrow> nat) \<Rightarrow> string list \<Rightarrow> spool \<times> job dlist
    \<Rightarrow> (spool \<times> job dlist) option" where
  "build_qonstart acc al [] (sp, js) = Some (sp, js)"
| "build_qonstart acc al (nm # nms) (sp, js) =
     (if nm = ''.'' \<or> nm = ''..'' then build_qonstart acc al nms (sp, js)
      else case sp_reqs sp nm of
        None \<Rightarrow> build_qonstart acc al nms (sp, js)
      | Some b \<Rightarrow>
        if acc nm = Cannot_open then build_qonstart acc al nms (sp, js)
        else if acc nm = Cannot_read \<or> length b < SIZEOF_PRINTREQ
        then build_qonstart acc al nms
               (sp\<lparr>sp_reqs := (sp_reqs sp)(nm := None), sp_data := (sp_data sp)(nm := None)\<rparr>, js)
        else case add_job (al js) (bytes_req (take SIZEOF_PRINTREQ b)) (word_of_int (atol nm)) js of
               None \<Rightarrow> None
             | Some js \<Rightarrow> build_qonstart acc al nms (sp, js))"

end
