(* ===== verification/Printd_Status.thy ===== *)
theory Printd_Status
  imports Printd_Req "HOL-Library.Monad_Syntax"
begin

text \<open>
  \<open>readmore\<close> and \<open>printer_status\<close> of \<open>apue.3e/printer/printd.c\<close>: reading and parsing the printer's
  response.  The read buffer is a list as long as the memory allocated; the pointer \<open>cp\<close> is an
  index into it, equal to \<open>i\<close> wherever the code uses both.  \<open>ins\<close> are the results of the successive
  \<open>tread\<close> calls.  \<open>None\<close> is undefined behaviour (an index outside the buffer) or a run that does not end;
  an inner \<open>None\<close> is the jump to \<open>out\<close>.
\<close>

definition IOBUFSZ :: nat where "IOBUFSZ = 8192"

type_synonym rd = "32 word + string"

definition HTTP_INFO :: "int \<Rightarrow> bool" where "HTTP_INFO x \<longleftrightarrow> 100 \<le> x \<and> x \<le> 199"
definition HTTP_SUCCESS :: "int \<Rightarrow> bool" where "HTTP_SUCCESS x \<longleftrightarrow> 200 \<le> x \<and> x \<le> 299"
definition STATCLASS_OK :: "nat \<Rightarrow> bool" where "STATCLASS_OK x \<longleftrightarrow> x \<le> 0xff"

text \<open>One \<open>tread\<close> of at most \<open>n\<close> bytes to offset \<open>off\<close>: \<open>None\<close> when it returns 0 or \<open>-1\<close>.\<close>

fun tread_at :: "string \<Rightarrow> nat \<Rightarrow> rd list \<Rightarrow> (nat \<times> string) option \<times> rd list" where
  "tread_at buf off [] = (None, [])"
| "tread_at buf off (Inl e # ins) = (None, ins)"
| "tread_at buf off (Inr bs # ins) =
     (let got = take (length buf - off) bs in
      if got = [] then (None, ins) else (Some (length got, overlay NUL buf off got), ins))"

text \<open>\<open>grow\<close> is what \<open>realloc\<close> appends.\<close>

definition readmore :: "string \<Rightarrow> string \<Rightarrow> nat \<Rightarrow> rd list \<Rightarrow> (nat \<times> string) option \<times> rd list" where
  "readmore grow buf off ins =
     (let buf = (if off \<ge> length buf then buf @ grow else buf);
          (r, ins) = tread_at buf off ins
      in (map_option (\<lambda>(n, buf). (off + n, buf)) r, ins))"

definition scan_while :: "(char \<Rightarrow> bool) \<Rightarrow> string \<Rightarrow> nat \<Rightarrow> nat option" where
  "scan_while p buf i = (let k = i + length (takeWhile p (drop i buf)) in
     if k < length buf then Some k else None)"

definition tolower_c :: "char \<Rightarrow> char" where
  "tolower_c c = (if 65 \<le> (of_char c :: nat) \<and> (of_char c :: nat) \<le> 90 then char_of (of_char c + 32 :: nat) else c)"

fun strncasecmp_eq :: "nat \<Rightarrow> string \<Rightarrow> string \<Rightarrow> bool" where
  "strncasecmp_eq (Suc n) (a # as) (b # bs) \<longleftrightarrow>
     tolower_c a = tolower_c b \<and> (a = NUL \<or> strncasecmp_eq n as bs)"
| "strncasecmp_eq (Suc n) _ _ \<longleftrightarrow> False"
| "strncasecmp_eq 0 _ _ \<longleftrightarrow> True"

text \<open>The status line: \<open>Inl\<close> is the bad format that is only logged.\<close>

definition status_line :: "string \<Rightarrow> (unit + int \<times> string \<times> nat) option" where
  "status_line buf = do {
     st \<leftarrow> scan_while isspace_c buf 8;
     cp \<leftarrow> scan_while isdigit_c buf st;
     if cp = st then Some (Inl ())
     else do {
       buf \<leftarrow> Some (buf[cp := NUL]);
       e \<leftarrow> scan_while (\<lambda>c. c \<noteq> CHR 0x0D \<and> c \<noteq> CHR 0x0A) buf (cp + 1);
       buf \<leftarrow> Some (buf[e := NUL]);
       Some (Inr (atoi (cstr (drop st buf)), buf, e)) } }"

definition CLEN :: string where "CLEN = ''Content-Length:''"

text \<open>The inner \<open>while\<close> of the search: stops at a \<open>C\<close> or \<open>c\<close>, or at \<open>datsz\<close>.\<close>

definition skip_to_c :: "string \<Rightarrow> nat \<Rightarrow> nat \<Rightarrow> nat option" where
  "skip_to_c buf datsz i =
     (let k = i + length (takeWhile (\<lambda>c. c \<noteq> CHR ''C'' \<and> c \<noteq> CHR ''c'') (take (datsz - i) (drop i buf)))
      in if k < length buf then Some k else None)"

partial_function (option) clen_loop :: "string \<Rightarrow> string \<Rightarrow> nat \<Rightarrow> nat \<Rightarrow> rd list
    \<Rightarrow> (string \<times> nat \<times> nat \<times> int \<times> rd list) option option" where
  "clen_loop grow buf i datsz ins = do {
     i \<leftarrow> skip_to_c buf datsz i;
     (r, datsz, ins) \<leftarrow> Some (if i \<ge> datsz
        then (case readmore grow buf i ins of (None, ins) \<Rightarrow> (None, datsz, ins)
              | (Some (nr, buf), ins) \<Rightarrow> (Some buf, datsz + nr, ins))
        else (Some buf, datsz, ins));
     case r of None \<Rightarrow> Some None
     | Some buf \<Rightarrow>
       if strncasecmp_eq 15 (drop i buf) CLEN then do {
         c \<leftarrow> scan_while isspace_c buf (i + 15);
         e \<leftarrow> scan_while isdigit_c buf c;
         buf \<leftarrow> Some (buf[e := NUL]);
         Some (Some (buf, e + 1, datsz, atoi (cstr (drop c buf)), ins)) }
       else clen_loop grow buf (i + 1) datsz ins }"

text \<open>The end of the HTTP header; the inner \<open>while\<close> stops at \<open>datsz - 2\<close>.\<close>

fun at_end :: "string \<Rightarrow> bool option" where
  "at_end [] = None"
| "at_end (a # r) = (if a \<noteq> CHR 0x0A then Some False else case r of [] \<Rightarrow> None
     | b # r \<Rightarrow> if b \<noteq> CHR 0x0D then Some False else case r of [] \<Rightarrow> None | c # _ \<Rightarrow> Some (c = CHR 0x0A))"

function hdr_scan :: "string \<Rightarrow> nat \<Rightarrow> nat \<Rightarrow> (bool \<times> nat) option" where
  "hdr_scan buf datsz i =
     (if i + 2 < datsz then
        (case at_end (drop i buf) of None \<Rightarrow> None
         | Some True \<Rightarrow> Some (True, i + 3) | Some False \<Rightarrow> hdr_scan buf datsz (i + 1))
      else Some (False, i))"
  by pat_completeness auto
termination
  by (relation "measure (\<lambda>(buf, datsz, i). datsz - i)") auto

declare hdr_scan.simps [simp del]

partial_function (option) hdr_end :: "string \<Rightarrow> string \<Rightarrow> nat \<Rightarrow> nat \<Rightarrow> rd list
    \<Rightarrow> (string \<times> nat \<times> nat \<times> rd list) option option" where
  "hdr_end grow buf i datsz ins = do {
     (found, i) \<leftarrow> hdr_scan buf datsz i;
     (r, datsz, ins) \<leftarrow> Some (if i \<ge> datsz
        then (case readmore grow buf i ins of (None, ins) \<Rightarrow> (None, datsz, ins)
              | (Some (nr, buf), ins) \<Rightarrow> (Some buf, datsz + nr, ins))
        else (Some buf, datsz, ins));
     case r of None \<Rightarrow> Some None
     | Some buf \<Rightarrow> if found then Some (Some (buf, i, datsz, ins)) else hdr_end grow buf i datsz ins }"

definition more_if :: "bool \<Rightarrow> string \<Rightarrow> string \<Rightarrow> nat \<Rightarrow> nat \<Rightarrow> rd list \<Rightarrow> (string \<times> nat \<times> rd list) option" where
  "more_if c grow buf i datsz ins =
     (if c then (case readmore grow buf i ins of (None, ins) \<Rightarrow> None | (Some (nr, buf), ins) \<Rightarrow> Some (buf, datsz + nr, ins))
      else Some (buf, datsz, ins))"

text \<open>The IPP header at \<open>cp\<close>: status and request number.\<close>

definition ipp_status :: "32 word \<Rightarrow> string \<Rightarrow> nat \<Rightarrow> bool option" where
  "ipp_status jobid buf i =
     (if length buf < i + 8 then None
      else Some (ntohl (get_le32 (take 4 (drop (i + 4) buf))) = jobid
                 \<and> STATCLASS_OK (get_be16 (take 2 (drop (i + 2) buf)))))"

text \<open>A response whose status line is a success, from the end \<open>e\<close> of that line.\<close>

definition after_status :: "string \<Rightarrow> 32 word \<Rightarrow> string \<Rightarrow> nat \<Rightarrow> nat \<Rightarrow> rd list \<Rightarrow> bool option" where
  "after_status grow jobid buf e datsz ins = do {
     r \<leftarrow> clen_loop grow buf e datsz ins;
     (case r of None \<Rightarrow> Some False
      | Some (buf, i, datsz, len, ins) \<Rightarrow>
        (case more_if (i \<ge> datsz) grow buf i datsz ins of None \<Rightarrow> Some False
         | Some (buf, datsz, ins) \<Rightarrow> do {
             r \<leftarrow> hdr_end grow buf i datsz ins;
             (case r of None \<Rightarrow> Some False
              | Some (buf, i, datsz, ins) \<Rightarrow>
                (case more_if (int datsz - int i < len) grow buf i datsz ins of None \<Rightarrow> Some False
                 | Some (buf, datsz, ins) \<Rightarrow> ipp_status jobid buf i)) })) }"

text \<open>
  \<open>printer_status\<close>: the result is \<open>success\<close>.  On an HTTP error the code first stores a null byte at
  \<open>bp[datsz]\<close>.
\<close>

fun status_loop :: "string \<Rightarrow> 32 word \<Rightarrow> string \<Rightarrow> rd list \<Rightarrow> bool option" where
  "status_loop grow jobid buf [] = Some False"
| "status_loop grow jobid buf (r # ins) =
     (case tread_at buf 0 [r] of
        (None, _) \<Rightarrow> Some False
      | (Some (nr, buf), _) \<Rightarrow>
        (case status_line buf of
           None \<Rightarrow> None
         | Some (Inl _) \<Rightarrow> status_loop grow jobid buf ins
         | Some (Inr (code, buf, e)) \<Rightarrow>
             if HTTP_INFO code then status_loop grow jobid buf ins
             else if \<not> HTTP_SUCCESS code then (if nr < length buf then Some False else None)
             else after_status grow jobid buf e nr ins))"

definition printer_status :: "string \<Rightarrow> string \<Rightarrow> 32 word \<Rightarrow> rd list \<Rightarrow> bool option" where
  "printer_status junk grow jobid ins = status_loop grow jobid junk ins"

section \<open>Scanning\<close>

lemma scan_at:
  assumes "\<forall>c \<in> set xs. p c" and "\<not> p y"
  shows "scan_while p (A @ xs @ y # B) (length A) = Some (length A + length xs)"
  using assms by (simp add: scan_while_def takeWhile_append2)

lemma skip_at:
  assumes "\<forall>c \<in> set xs. c \<noteq> CHR ''C'' \<and> c \<noteq> CHR ''c''" and "y = CHR ''C'' \<or> y = CHR ''c''"
    and "length A + length xs < datsz"
  shows "skip_to_c (A @ xs @ y # B) datsz (length A) = Some (length A + length xs)"
proof -
  obtain m where m: "datsz - length A = length xs + Suc m"
    using assms(3) by (metis add_Suc_right less_imp_Suc_add add_diff_cancel_left' add.assoc)
  have t: "take (datsz - length A) (xs @ y # B) = xs @ y # take m B" by (simp add: m)
  have "takeWhile (\<lambda>c. c \<noteq> CHR ''C'' \<and> c \<noteq> CHR ''c'') (xs @ y # take m B) = xs"
    using assms(1,2) by (subst takeWhile_append2) auto
  then show ?thesis using t by (simp add: skip_to_c_def)
qed

lemma CLEN_Cons: "CLEN = CHR ''C'' # ''ontent-Length:''" "length CLEN = 15"
  by (simp_all add: CLEN_def)

lemma strncasecmp_refl: "length xs = n \<Longrightarrow> strncasecmp_eq n (xs @ ys) xs"
  by (induction xs arbitrary: n) auto

lemma clen_found:
  assumes "\<forall>k < length h. \<not> strncasecmp_eq 15 (drop k h @ CLEN @ sp @ dec n @ x # B) CLEN"
    and "\<forall>c \<in> set sp. isspace_c c" and "\<not> isdigit_c x" and "n < 2147483648"
    and "length A + length h < datsz"
  shows "clen_loop grow (A @ h @ CLEN @ sp @ dec n @ x # B) (length A) datsz ins
    = Some (Some (A @ h @ CLEN @ sp @ dec n @ NUL # B, length A + length h + 15 + length sp + length (dec n) + 1, datsz, int n, ins))"
  using assms(1,5)
proof (induction "length h" arbitrary: A h rule: less_induct)
  case less
  let ?P = "\<lambda>c. c \<noteq> CHR ''C'' \<and> c \<noteq> CHR ''c''"
  obtain h1 h2 where h: "h = h1 @ h2" "\<forall>c \<in> set h1. ?P c" "h2 = [] \<or> \<not> ?P (hd h2)"
  proof (rule that [of "takeWhile ?P h" "dropWhile ?P h"])
    show "\<forall>c \<in> set (takeWhile ?P h). ?P c" using set_takeWhileD [of _ ?P h] by blast
    show "dropWhile ?P h = [] \<or> \<not> ?P (hd (dropWhile ?P h))" using hd_dropWhile [of ?P h] by blast
  qed simp
  show ?case
  proof (cases h2)
    case (Cons c h3)
    then have c: "c = CHR ''C'' \<or> c = CHR ''c''" using h(3) by auto
    let ?buf = "A @ h1 @ c # h3 @ CLEN @ sp @ dec n @ x # B"
    have sk: "skip_to_c ?buf datsz (length A) = Some (length A + length h1)"
      using skip_at [OF h(2) c] less.prems(2) by (simp add: h Cons)
    have lt: "\<not> length A + length h1 \<ge> datsz" using less.prems(2) by (simp add: h)
    have "\<not> strncasecmp_eq 15 (drop (length h1) h @ CLEN @ sp @ dec n @ x # B) CLEN"
      using less.prems(1) [rule_format, of "length h1"] by (simp add: h Cons)
    then have ns: "\<not> strncasecmp_eq 15 (c # h3 @ CLEN @ sp @ dec n @ x # B) CLEN" by (simp add: h Cons)
    have "clen_loop grow ?buf (length A) datsz ins = clen_loop grow ?buf (length A + length h1 + 1) datsz ins"
      by (subst clen_loop.simps) (simp add: sk lt ns del: strncasecmp_eq.simps)
    also have "?buf = (A @ h1 @ [c]) @ h3 @ CLEN @ sp @ dec n @ x # B" by simp
    also have "clen_loop grow \<dots> (length A + length h1 + 1) datsz ins
      = clen_loop grow ((A @ h1 @ [c]) @ h3 @ CLEN @ sp @ dec n @ x # B) (length (A @ h1 @ [c])) datsz ins" by simp
    also have "\<dots> = Some (Some ((A @ h1 @ [c]) @ h3 @ CLEN @ sp @ dec n @ NUL # B,
        length (A @ h1 @ [c]) + length h3 + 15 + length sp + length (dec n) + 1, datsz, int n, ins))"
    proof (rule less.hyps)
      show "length h3 < length h" by (simp add: h Cons)
      show "length (A @ h1 @ [c]) + length h3 < datsz" using less.prems(2) by (simp add: h Cons)
      show "\<forall>k < length h3. \<not> strncasecmp_eq 15 (drop k h3 @ CLEN @ sp @ dec n @ x # B) CLEN"
      proof (intro allI impI)
        fix k assume "k < length h3"
        with less.prems(1) [rule_format, of "length h1 + Suc k"]
        show "\<not> strncasecmp_eq 15 (drop k h3 @ CLEN @ sp @ dec n @ x # B) CLEN" by (simp add: h Cons)
      qed
    qed
    finally show ?thesis by (simp add: h Cons)
  next
    case Nil
    then have h1: "h = h1" by (simp add: h)
    let ?buf = "A @ h @ CLEN @ sp @ dec n @ x # B"
    have sk: "skip_to_c ?buf datsz (length A) = Some (length A + length h)"
      using skip_at [OF h(2), of "CHR ''C''" A datsz "''ontent-Length:'' @ sp @ dec n @ x # B"] less.prems(2)
      by (simp add: h1 CLEN_def)
    have eq: "strncasecmp_eq 15 (CLEN @ sp @ dec n @ x # B) CLEN"
      by (rule strncasecmp_refl) (simp add: CLEN_def)
    have dg: "\<forall>c \<in> set (dec n). isdigit_c c" using dec_digits by blast
    obtain d ds where d: "dec n = d # ds" by (cases "dec n") auto
    have nsp: "\<not> isspace_c d" using dg d isdigit_not_space by simp
    have s1: "scan_while isspace_c ?buf (length A + length h + 15) = Some (length A + length h + 15 + length sp)"
      using scan_at [OF assms(2) nsp, of "A @ h @ CLEN" "ds @ x # B"] by (simp add: d CLEN_Cons(2) add.assoc)
    have s2: "scan_while isdigit_c ?buf (length A + length h + 15 + length sp)
        = Some (length A + length h + 15 + length sp + length (dec n))"
      using scan_at [OF dg assms(3), of "A @ h @ CLEN @ sp" B] by (simp add: CLEN_Cons(2) add.assoc)
    have up: "?buf [length A + length h + 15 + length sp + length (dec n) := NUL] = A @ h @ CLEN @ sp @ dec n @ NUL # B"
      using list_update_length [of "A @ h @ CLEN @ sp @ dec n" x B NUL] by (simp add: CLEN_Cons(2) add.assoc)
    have dr: "drop (length A + length h + 15 + length sp) (A @ h @ CLEN @ sp @ dec n @ NUL # B) = dec n @ NUL # B"
      by (simp add: CLEN_Cons(2))
    have cs: "cstr (dec n @ NUL # B) = dec n"
      unfolding cstr_def using dg isdigit_misc(1) by (subst takeWhile_append2) auto
    show ?thesis
      using less.prems(2)
      by (subst clen_loop.simps) (simp add: sk eq s1 s2 up dr cs atoi_dec [OF assms(4)] CLEN_Cons(2) del: strncasecmp_eq.simps)
  qed
qed

section \<open>The end of the header\<close>

lemma hdr_scan_found: "length A + 3 \<le> datsz \<Longrightarrow>
   hdr_scan (A @ CHR 0x0A # CHR 0x0D # CHR 0x0A # B) datsz (length A) = Some (True, length A + 3)"
  by (subst hdr_scan.simps) simp

lemma hdr_scan_none:
  assumes "\<forall>k. k + 2 < length t \<longrightarrow> at_end (drop k t @ B) = Some False"
  shows "hdr_scan (A @ t @ B) (length A + length t) (length A) = Some (False, length A + (length t - 2))"
  using assms
proof (induction t arbitrary: A)
  case Nil
  then show ?case by (subst hdr_scan.simps) simp
next
  case (Cons c t)
  show ?case
  proof (cases "2 < length (c # t)")
    case True
    have e: "at_end (c # t @ B) = Some False" using Cons.prems [rule_format, of 0] True by simp
    have "hdr_scan ((A @ [c]) @ t @ B) (length (A @ [c]) + length t) (length (A @ [c]))
        = Some (False, length (A @ [c]) + (length t - 2))"
      using Cons.prems by (intro Cons.IH) fastforce
    moreover have "hdr_scan (A @ (c # t) @ B) (length A + length (c # t)) (length A)
        = hdr_scan ((A @ [c]) @ t @ B) (length (A @ [c]) + length t) (length (A @ [c]))"
      using True e by (subst hdr_scan.simps) simp
    ultimately show ?thesis using True by simp
  next
    case False
    then show ?thesis by (subst hdr_scan.simps) simp
  qed
qed

text \<open>Between \<open>datsz - 2\<close> and \<open>datsz\<close> nothing changes any more.\<close>

lemma hdr_end_stuck:
  assumes "hdr_end grow buf i datsz ins = Some r"
  shows "\<not> (datsz \<le> i + 2 \<and> i < datsz)"
  using assms
proof (rule hdr_end.raw_induct [where P = "\<lambda>grow buf i datsz ins r. \<not> (datsz \<le> i + 2 \<and> i < datsz)", rotated], goal_cases)
  case (1 f grow buf i datsz ins r)
  show ?case
  proof
    assume a: "datsz \<le> i + 2 \<and> i < datsz"
    then have "hdr_scan buf datsz i = Some (False, i)" by (subst hdr_scan.simps) simp
    with 1(2) a have "f grow buf i datsz ins = Some r" by simp
    from 1(1) [OF this] a show False by simp
  qed
qed

lemma hdr_end_none:
  assumes "\<forall>k. k + 2 < length t \<longrightarrow> at_end (drop k t @ B) = Some False" and "t \<noteq> []"
  shows "hdr_end grow (A @ t @ B) (length A) (length A + length t) ins = None"
proof -
  let ?i = "length A + (length t - 2)"
  have i: "?i < length A + length t" "length A + length t \<le> ?i + 2" using assms(2) by (cases t; simp)+
  have "hdr_end grow (A @ t @ B) (length A) (length A + length t) ins
      = hdr_end grow (A @ t @ B) ?i (length A + length t) ins"
    using hdr_scan_none [OF assms(1), of A] i(1) by (subst hdr_end.simps) simp
  then show ?thesis using hdr_end_stuck i by (metis not_None_eq)
qed

section \<open>A response\<close>

text \<open>
  A response up to the digits of its content length: the version (8 bytes), the status, a character
  and the reason, the header lines before the length.
\<close>

definition resp_head :: "string \<Rightarrow> string \<Rightarrow> nat \<Rightarrow> char \<Rightarrow> string \<Rightarrow> string \<Rightarrow> string \<Rightarrow> nat \<Rightarrow> string" where
  "resp_head ver sp code y reason h sp2 n =
     ver @ sp @ dec code @ y # reason @ CHR 0x0D # h @ CLEN @ sp2 @ dec n"

definition resp_ok :: "string \<Rightarrow> string \<Rightarrow> nat \<Rightarrow> char \<Rightarrow> string \<Rightarrow> string \<Rightarrow> string \<Rightarrow> nat \<Rightarrow> bool" where
  "resp_ok ver sp code y reason h sp2 n \<longleftrightarrow> length ver = 8 \<and> (\<forall>c \<in> set sp. isspace_c c) \<and> 200 \<le> code \<and> code \<le> 299
     \<and> \<not> isdigit_c y \<and> (\<forall>c \<in> set reason. c \<noteq> CHR 0x0D \<and> c \<noteq> CHR 0x0A)
     \<and> CHR ''C'' \<notin> set h \<and> CHR ''c'' \<notin> set h \<and> (\<forall>c \<in> set sp2. isspace_c c) \<and> n < 2147483648"

lemma no_c_no_match:
  assumes "CHR ''C'' \<notin> set h" and "CHR ''c'' \<notin> set h" and "k < length h"
  shows "\<not> strncasecmp_eq 15 (drop k h @ r) CLEN"
proof -
  obtain c cs where d: "drop k h = c # cs" using assms(3) by (metis Cons_nth_drop_Suc)
  then have "c \<in> set h" by (metis in_set_dropD list.set_intros(1))
  then have "c \<noteq> CHR ''C''" "c \<noteq> CHR ''c''" using assms by auto
  moreover have "of_char (tolower_c c) \<noteq> (99 :: nat)"
  proof
    assume t: "of_char (tolower_c c) = (99 :: nat)"
    show False
    proof (cases "65 \<le> (of_char c :: nat) \<and> (of_char c :: nat) \<le> 90")
      case True
      with t have "(of_char c :: nat) = of_char CHR ''C''" by (simp add: tolower_c_def)
      with \<open>c \<noteq> CHR ''C''\<close> show False by (simp only: of_char_eq_iff)
    next
      case False
      with t have "(of_char c :: nat) = of_char CHR ''c''" by (auto simp: tolower_c_def)
      with \<open>c \<noteq> CHR ''c''\<close> show False by (simp only: of_char_eq_iff)
    qed
  qed
  moreover have "of_char (tolower_c CHR ''C'') = (99 :: nat)" by (simp add: tolower_c_def)
  ultimately have "tolower_c c \<noteq> tolower_c CHR ''C''" by metis
  then show ?thesis by (simp add: d CLEN_def eval_nat_numeral)
qed

lemma status_line_ok:
  assumes "length ver = 8" and "\<forall>c \<in> set sp. isspace_c c" and "\<not> isdigit_c y" and "code < 2147483648"
    and "\<forall>c \<in> set reason. c \<noteq> CHR 0x0D \<and> c \<noteq> CHR 0x0A"
  shows "status_line (ver @ sp @ dec code @ y # reason @ CHR 0x0D # rest)
    = Some (Inr (int code, ver @ sp @ dec code @ NUL # reason @ NUL # rest, 8 + length sp + length (dec code) + 1 + length reason))"
proof -
  let ?b = "ver @ sp @ dec code @ y # reason @ CHR 0x0D # rest"
  let ?b1 = "ver @ sp @ dec code @ NUL # reason @ CHR 0x0D # rest"
  have dg: "\<forall>c \<in> set (dec code). isdigit_c c" using dec_digits by blast
  obtain d ds where d: "dec code = d # ds" by (cases "dec code") auto
  have nsp: "\<not> isspace_c d" using dg d isdigit_not_space by simp
  have s1: "scan_while isspace_c ?b 8 = Some (8 + length sp)"
    using scan_at [OF assms(2) nsp, of ver "ds @ y # reason @ CHR 0x0D # rest"] assms(1) by (simp add: d)
  have s2: "scan_while isdigit_c ?b (8 + length sp) = Some (8 + length sp + length (dec code))"
    using scan_at [OF dg assms(3), of "ver @ sp" "reason @ CHR 0x0D # rest"] assms(1) by simp
  have u1: "?b [8 + length sp + length (dec code) := NUL] = ?b1"
    using list_update_length [of "ver @ sp @ dec code" y "reason @ CHR 0x0D # rest" NUL] assms(1) by (simp add: add.assoc)
  have s3: "scan_while (\<lambda>c. c \<noteq> CHR 0x0D \<and> c \<noteq> CHR 0x0A) ?b1 (8 + length sp + length (dec code) + 1)
      = Some (8 + length sp + length (dec code) + 1 + length reason)"
    using scan_at [of reason "\<lambda>c. c \<noteq> CHR 0x0D \<and> c \<noteq> CHR 0x0A" "CHR 0x0D" "ver @ sp @ dec code @ [NUL]" rest] assms(1,5)
    by simp
  have u2: "?b1 [8 + length sp + length (dec code) + 1 + length reason := NUL] = ver @ sp @ dec code @ NUL # reason @ NUL # rest"
    using list_update_length [of "ver @ sp @ dec code @ NUL # reason" "CHR 0x0D" rest NUL] assms(1) by (simp add: add.assoc)
  have dr: "drop (8 + length sp) (ver @ sp @ dec code @ NUL # reason @ NUL # rest) = dec code @ NUL # reason @ NUL # rest"
    using assms(1) by simp
  have cs: "cstr (dec code @ NUL # r) = dec code" for r
    unfolding cstr_def using dg isdigit_misc(1) by (subst takeWhile_append2) auto
  have ne: "8 + length sp + length (dec code) \<noteq> 8 + length sp" by (simp add: d)
  show ?thesis unfolding status_line_def
    using s1 s2 u1 s3 u2 dr cs ne atoi_dec [OF assms(4)] by (simp only: bind.bind_lunit if_False sum.inject)
qed

lemma after_head:
  assumes ok: "resp_ok ver sp code y reason h sp2 n" and x: "\<not> isdigit_c x"
    and len: "length resp \<le> length junk" and r: "resp = resp_head ver sp code y reason h sp2 n @ x # t" and t: "t \<noteq> []"
  shows "\<exists>A. length A + length t = length resp \<and>
    status_loop grow jobid junk (Inr resp # ins) =
      (case hdr_end grow (A @ t @ drop (length resp) junk) (length A) (length A + length t) ins of
         None \<Rightarrow> None
       | Some None \<Rightarrow> Some False
       | Some (Some (buf, i, datsz, ins)) \<Rightarrow>
          (case more_if (int datsz - int i < int n) grow buf i datsz ins of None \<Rightarrow> Some False
           | Some (buf, datsz, ins) \<Rightarrow> ipp_status jobid buf i))"
proof -
  let ?J = "drop (length resp) junk"
  define A0 where "A0 = ver @ sp @ dec code @ NUL # reason"
  define A where "A = A0 @ (NUL # h) @ CLEN @ sp2 @ dec n @ [NUL]"
  have c: "length ver = 8" "\<forall>c \<in> set sp. isspace_c c" "\<not> isdigit_c y" "code < 2147483648" "200 \<le> code" "code \<le> 299"
    "\<forall>c \<in> set reason. c \<noteq> CHR 0x0D \<and> c \<noteq> CHR 0x0A" "CHR ''C'' \<notin> set h" "CHR ''c'' \<notin> set h"
    "\<forall>c \<in> set sp2. isspace_c c" "n < 2147483648"
    using ok by (auto simp: resp_ok_def)
  let ?B = "t @ ?J"
  have buf: "overlay NUL junk 0 resp = ver @ sp @ dec code @ y # reason @ CHR 0x0D # h @ CLEN @ sp2 @ dec n @ x # ?B"
    by (simp add: overlay_def r resp_head_def)
  have tr: "tread_at junk 0 [Inr resp] = (Some (length resp, overlay NUL junk 0 resp), [])"
    using len by (simp add: r resp_head_def Let_def)
  have st: "status_line (overlay NUL junk 0 resp)
      = Some (Inr (int code, A0 @ (NUL # h) @ CLEN @ sp2 @ dec n @ x # ?B, length A0))"
    unfolding buf using status_line_ok [OF c(1-4,7), of "h @ CLEN @ sp2 @ dec n @ x # ?B"] by (simp add: A0_def c(1))
  have nh: "CHR ''C'' \<notin> set (NUL # h)" "CHR ''c'' \<notin> set (NUL # h)" using c by (simp_all add: NUL_def)
  have lA: "length A + length t = length resp"
    by (simp add: A_def A0_def r resp_head_def)
  have lt: "length A0 + length (NUL # h) < length resp" using t by (simp add: A0_def r resp_head_def)
  have cl: "clen_loop grow (A0 @ (NUL # h) @ CLEN @ sp2 @ dec n @ x # ?B) (length A0) (length resp) ins
      = Some (Some (A @ ?B, length A, length resp, int n, ins))"
    using clen_found [OF _ c(10) x c(11) lt, of ?B grow ins] no_c_no_match [OF nh]
    by (simp add: A_def CLEN_Cons(2) add.assoc del: strncasecmp_eq.simps)
  have nm: "\<not> length A \<ge> length resp" using lA t by (cases t) auto
  have "status_loop grow jobid junk (Inr resp # ins) = after_status grow jobid (A0 @ (NUL # h) @ CLEN @ sp2 @ dec n @ x # ?B) (length A0) (length resp) ins"
    unfolding status_loop.simps tr using c(5,6) by (simp add: st HTTP_INFO_def HTTP_SUCCESS_def del: append.simps)
  also have "\<dots> = (case hdr_end grow (A @ t @ ?J) (length A) (length A + length t) ins of
         None \<Rightarrow> None
       | Some None \<Rightarrow> Some False
       | Some (Some (buf, i, datsz, ins)) \<Rightarrow>
          (case more_if (int datsz - int i < int n) grow buf i datsz ins of None \<Rightarrow> Some False
           | Some (buf, datsz, ins) \<Rightarrow> ipp_status jobid buf i))"
    unfolding after_status_def cl lA using nm by (simp add: more_if_def split: option.splits)
  finally show ?thesis using lA by blast
qed

lemma status_one_read:
  assumes "resp_ok ver sp code y reason h sp2 n" and "8 \<le> length ipp" and "n \<le> length ipp"
    and "resp = resp_head ver sp code y reason h sp2 n @ CRLF @ CRLF @ ipp" and "length resp \<le> length junk"
  shows "printer_status junk grow jobid (Inr resp # ins)
    = Some (ntohl (get_le32 (take 4 (drop 4 ipp))) = jobid \<and> get_be16 (take 2 (drop 2 ipp)) \<le> 255)"
proof -
  let ?t = "CHR 0x0A # CHR 0x0D # CHR 0x0A # ipp"
  have r: "resp = resp_head ver sp code y reason h sp2 n @ CHR 0x0D # ?t" using assms(4) by (simp add: CRLF_def)
  have x: "\<not> isdigit_c CHR 0x0D" by (simp add: isdigit_c_def)
  from after_head [OF assms(1) x assms(5) r, of grow jobid ins] obtain A where
    A: "status_loop grow jobid junk (Inr resp # ins) =
      (case hdr_end grow (A @ ?t @ drop (length resp) junk) (length A) (length A + length ?t) ins of
         None \<Rightarrow> None
       | Some None \<Rightarrow> Some False
       | Some (Some (buf, i, datsz, ins)) \<Rightarrow>
          (case more_if (int datsz - int i < int n) grow buf i datsz ins of None \<Rightarrow> Some False
           | Some (buf, datsz, ins) \<Rightarrow> ipp_status jobid buf i))" by auto
  have nm: "\<not> length A + length ?t \<le> length A + 3" using assms(2) by (cases ipp) simp_all
  have e: "hdr_end grow (A @ ?t @ drop (length resp) junk) (length A) (length A + length ?t) ins
      = Some (Some (A @ ?t @ drop (length resp) junk, length A + 3, length A + length ?t, ins))"
    using hdr_scan_found [of A "length A + length ?t" "ipp @ drop (length resp) junk"] nm
    by (subst hdr_end.simps) simp
  have m: "more_if (int (length A + length ?t) - int (length A + 3) < int n) grow buf i d ins = Some (buf, d, ins)" for buf i d
    using assms(3) by (simp add: more_if_def)
  have d: "drop (length A + 3 + k) (A @ ?t @ drop (length resp) junk) = drop k (ipp @ drop (length resp) junk)" for k
    by (simp add: add.assoc drop_Cons')
  have "ipp_status jobid (A @ ?t @ drop (length resp) junk) (length A + 3)
      = Some (ntohl (get_le32 (take 4 (drop 4 ipp))) = jobid \<and> get_be16 (take 2 (drop 2 ipp)) \<le> 255)"
    unfolding ipp_status_def d using assms(2) by (simp add: STATCLASS_OK_def)
  then show ?thesis unfolding printer_status_def A e using m by simp
qed

section \<open>Properties\<close>

text \<open>
  When the whole response arrives in one read of the socket, \<open>printer_status\<close> returns, and its
  result is that of the IPP header behind the HTTP header: the job's own number, and a status of
  the class that means success.
\<close>

theorem printer_status_one_read:
  assumes "resp_ok ver sp code y reason h sp2 n" and "8 \<le> length ipp" and "n \<le> length ipp"
    and "resp = resp_head ver sp code y reason h sp2 n @ CRLF @ CRLF @ ipp" and "length resp \<le> length junk"
  shows "printer_status junk grow jobid (Inr resp # ins)
    = Some (ntohl (get_le32 (take 4 (drop 4 ipp))) = jobid \<and> get_be16 (take 2 (drop 2 ipp)) \<le> 255)"
  by (rule status_one_read [OF assms])

theorem printer_status_one_read_witness:
  "printer_status (replicate 200 NUL) [] 9 [Inr (resp_head ''HTTP/1.1'' '' '' 200 CHR '' '' ''OK'' (CRLF @ ''Server: x'' @ CRLF) '' '' 9
      @ CRLF @ CRLF @ [CHR 0x01, CHR 0x01, CHR 0x00, CHR 0x00, CHR 0x00, CHR 0x00, CHR 0x00, CHR 0x09, CHR 0x03])] = Some True"
proof -
  let ?ipp = "[CHR 0x01, CHR 0x01, CHR 0x00, CHR 0x00, CHR 0x00, CHR 0x00, CHR 0x00, CHR 0x09, CHR 0x03]"
  have ok: "resp_ok ''HTTP/1.1'' '' '' 200 CHR '' '' ''OK'' (CRLF @ ''Server: x'' @ CRLF) '' '' 9"
    by (simp add: resp_ok_def isspace_c_def isdigit_c_def CRLF_def)
  have len: "length (resp_head ''HTTP/1.1'' '' '' 200 CHR '' '' ''OK'' (CRLF @ ''Server: x'' @ CRLF) '' '' 9 @ CRLF @ CRLF @ ?ipp) \<le> length (replicate 200 NUL)"
    using length_dec_le [of 200 3] length_dec_le [of 9 1] by (simp add: resp_head_def CRLF_def CLEN_def)
  show ?thesis
    using printer_status_one_read [OF ok _ _ refl len, of "[]" 9 "[]"]
    by (simp add: ntohl_def htonl_def be32_def le32_def get_le32_def get_be16_def byte_def)
qed

text \<open>
  When the first read ends inside the HTTP header (after the content length, before the empty
  line), \<open>printer_status\<close> never returns, whatever the printer sends afterwards: its loop stops two
  bytes before the end of the data and asks for more only at the end, so it neither moves nor
  reads.  The job is stuck, and with it the only printer thread.
\<close>

theorem printer_status_hangs:
  assumes "resp_ok ver sp code y reason h sp2 n" and "t \<noteq> []"
    and "\<forall>k. k + 2 < length t \<longrightarrow> at_end (drop k t @ drop (length resp) junk) = Some False"
    and "resp = resp_head ver sp code y reason h sp2 n @ CHR 0x0D # t" and "length resp \<le> length junk"
  shows "printer_status junk grow jobid (Inr resp # ins) = None"
proof -
  have x: "\<not> isdigit_c CHR 0x0D" by (simp add: isdigit_c_def)
  from after_head [OF assms(1) x assms(5,4,2), of grow jobid ins] show ?thesis
    unfolding printer_status_def using hdr_end_none [OF assms(3,2)] by auto
qed

theorem printer_status_hangs_witness:
  "printer_status (replicate 200 NUL) [] 9 [Inr (resp_head ''HTTP/1.1'' '' '' 200 CHR '' '' ''OK'' [] '' '' 9 @ CRLF), Inr (CRLF @ replicate 9 NUL)] = None"
proof -
  have ok: "resp_ok ''HTTP/1.1'' '' '' 200 CHR '' '' ''OK'' [] '' '' 9"
    by (simp add: resp_ok_def isspace_c_def isdigit_c_def)
  have e: "CRLF = CHR 0x0D # [CHR 0x0A]" by (simp add: CRLF_def)
  have len: "length (resp_head ''HTTP/1.1'' '' '' 200 CHR '' '' ''OK'' [] '' '' 9 @ CRLF) \<le> length (replicate 200 NUL)"
    using length_dec_le [of 200 3] length_dec_le [of 9 1] by (simp add: resp_head_def e CLEN_def)
  show ?thesis using printer_status_hangs [OF ok _ _ _ len, of "[CHR 0x0A]"] by (simp add: e)
qed

end
