(* ===== verification/Printd_Printer.thy ===== *)
theory Printd_Printer
  imports Printd_Spool Printd_Status
begin

text \<open>
  One round of \<open>printer_thread\<close> of \<open>apue.3e/printer/printd.c\<close> after it took a job: the message sent
  to the printer and what becomes of the job; and \<open>signal_thread\<close>.
\<close>

section \<open>Sending a job\<close>

text \<open>What the calls return: failures of \<open>open\<close>, \<open>fstat\<close> and \<open>connect_retry\<close>, the count of \<open>writev\<close>,
  the success of the one-byte write, the read that fails (if one does), the counts of \<open>writen\<close>,
  and what the printer answers.\<close>

record print_io =
  pi_open :: bool
  pi_fstat :: bool
  pi_connect :: bool
  pi_writev :: int
  pi_bs :: bool
  pi_rderr :: "nat option"
  pi_writen :: "nat \<Rightarrow> int"
  pi_answer :: "rd list"

datatype verdict = Canceled | Deferred | Printed

function file_chunks :: "string \<Rightarrow> string list" where
  "file_chunks bs = (if bs = [] then [] else take IOBUFSZ bs # file_chunks (drop IOBUFSZ bs))"
  by pat_completeness auto
termination
  by (relation "measure length") (auto simp: IOBUFSZ_def)

declare file_chunks.simps [simp del]

lemma concat_chunks: "concat (file_chunks bs) = bs"
  by (induction bs rule: file_chunks.induct) (subst file_chunks.simps, simp)

fun send_chunks :: "nat option \<Rightarrow> (nat \<Rightarrow> int) \<Rightarrow> nat \<Rightarrow> string list \<Rightarrow> string \<Rightarrow> string \<times> bool" where
  "send_chunks err w k cs sent =
     (if err = Some k then (sent, False)
      else case cs of [] \<Rightarrow> (sent, True)
      | c # cs \<Rightarrow> if w k \<noteq> int (length c) then (sent, False) else send_chunks err w (k + 1) cs (sent @ c))"

declare send_chunks.simps [simp del]

lemma send_chunks_all: "send_chunks err w k cs sent = (out, True) \<Longrightarrow> out = sent @ concat cs"
proof (induction cs arbitrary: k sent)
  case Nil
  then show ?case by (subst (asm) send_chunks.simps) (auto split: if_splits)
next
  case (Cons c cs)
  from Cons.prems have "send_chunks err w (k + 1) cs (sent @ c) = (out, True)"
    by (subst (asm) send_chunks.simps) (auto split: if_splits)
  then show ?case using Cons.IH [of "k + 1" "sent @ c"] by simp
qed

definition HBUFSZ :: nat where "HBUFSZ = 512"
definition BS :: char where "BS = CHR 0x08"

text \<open>
  \<open>file\<close> is the data file, \<open>junk\<close> and \<open>grow\<close> the memory of the answer's buffer.  The headers are
  built in \<open>str[64]\<close>, \<open>ibuf\<close> and \<open>hbuf\<close>; a name too long for them is undefined behaviour.
\<close>

definition print_job :: "string \<Rightarrow> string \<Rightarrow> string \<Rightarrow> job \<Rightarrow> string option \<Rightarrow> print_io \<Rightarrow> (string \<times> verdict) option" where
  "print_job junk grow pname j file io =
     (case (if pi_open io then file else None) of
        None \<Rightarrow> Some ([], Canceled)
      | Some content \<Rightarrow>
        if \<not> pi_fstat io then Some ([], Canceled)
        else if \<not> pi_connect io then Some ([], Deferred)
        else
          let ipp = ipp_header (j_id j) pname (j_req j);
              extra = (if is_text (j_req j) then 1 else 0);
              http = http_header pname (length content + length ipp + extra)
          in if length pname + 12 > 64 \<or> length ipp > IBUFSZ \<or> length http > HBUFSZ then None
             else if pi_writev io \<noteq> int (length http + length ipp) then Some ([], Deferred)
             else if is_text (j_req j) \<and> \<not> pi_bs io then Some (http @ ipp, Deferred)
             else
               let (sent, all) = send_chunks (pi_rderr io) (pi_writen io) 0 (file_chunks content)
                                   (http @ ipp @ (if is_text (j_req j) then [BS] else []))
               in if \<not> all then Some (sent, Deferred)
                  else map_option (\<lambda>ok. (sent, if ok then Printed else Deferred))
                         (printer_status junk grow (j_id j) (pi_answer io)))"

section \<open>Signals\<close>

datatype signo = SIGHUP | SIGTERM | Other_signal

datatype sig_result = Reread | Exit0 "tid list" | Quit "tid list"

text \<open>\<open>None\<close>: \<open>kill_workers\<close> follows a pointer to freed memory.\<close>

definition signal_thread :: "signo \<Rightarrow> worker dlist \<Rightarrow> sig_result option" where
  "signal_thread s ws = (case s of SIGHUP \<Rightarrow> Some Reread
     | SIGTERM \<Rightarrow> map_option Exit0 (kill_workers ws)
     | Other_signal \<Rightarrow> map_option Quit (kill_workers ws))"

section \<open>Properties\<close>

text \<open>
  What the printer is sent for a job that then counts as printed is one HTTP request: its
  content length is the number of bytes behind the HTTP header, and these are the IPP header of
  the job, a backspace if the document is to be printed as text, and the spooled file, all of it.
\<close>

theorem printer_message:
  assumes "print_job junk grow pname j file io = Some (sent, Printed)"
  shows "\<exists>content doc. file = Some content \<and> sent = http_header pname (length doc) @ doc
    \<and> doc = ipp_header (j_id j) pname (j_req j) @ (if is_text (j_req j) then [BS] else []) @ content
    \<and> printer_status junk grow (j_id j) (pi_answer io) = Some True"
proof -
  let ?ipp = "ipp_header (j_id j) pname (j_req j)" and ?bs = "if is_text (j_req j) then [BS] else []"
  obtain content where c: "file = Some content" "pi_open io"
    using assms by (auto simp: print_job_def split: option.splits if_splits)
  let ?http = "http_header pname (length content + length ?ipp + (if is_text (j_req j) then 1 else 0))"
  obtain out ok where s: "send_chunks (pi_rderr io) (pi_writen io) 0 (file_chunks content) (?http @ ?ipp @ ?bs) = (out, ok)"
    by fastforce
  have ok: "ok" "out = sent" "printer_status junk grow (j_id j) (pi_answer io) = Some True"
  proof (atomize (full), cases "is_text (j_req j)")
    case True
    then show "ok \<and> out = sent \<and> printer_status junk grow (j_id j) (pi_answer io) = Some True"
      using assms s by (simp add: print_job_def c Let_def split: if_splits)
  next
    case False
    then show "ok \<and> out = sent \<and> printer_status junk grow (j_id j) (pi_answer io) = Some True"
      using assms s by (simp add: print_job_def c Let_def split: if_splits)
  qed
  have "sent = (?http @ ?ipp @ ?bs) @ content"
    using send_chunks_all [of "pi_rderr io" "pi_writen io" 0 "file_chunks content" "?http @ ?ipp @ ?bs" out] s ok concat_chunks by simp
  then show ?thesis using c ok by (intro exI [of _ content] exI [of _ "?ipp @ ?bs @ content"]) (auto simp: add_ac)
qed

theorem printer_message_witness:
  "\<exists>sent doc. print_job (replicate 200 NUL) [] ''lp'' \<lparr>j_id = 9, j_req = \<lparr>rq_size = 0, rq_flags = 1,
       rq_usernm = replicate 64 NUL, rq_jobnm = replicate 256 NUL\<rparr>\<rparr> (Some [])
     \<lparr>pi_open = True, pi_fstat = True, pi_connect = True,
      pi_writev = int (length (http_header ''lp'' 173) + 172), pi_bs = True, pi_rderr = None, pi_writen = (\<lambda>_. 0),
      pi_answer = [Inr (resp_head ''HTTP/1.1'' '' '' 200 CHR '' '' ''OK'' [] '' '' 9
        @ CRLF @ CRLF @ [CHR 0x01, CHR 0x01, CHR 0x00, CHR 0x00, CHR 0x00, CHR 0x00, CHR 0x00, CHR 0x09, CHR 0x03])]\<rparr> = Some (sent, Printed)
     \<and> sent = http_header ''lp'' (length doc) @ doc"
proof -
  let ?ipp = "[CHR 0x01, CHR 0x01, CHR 0x00, CHR 0x00, CHR 0x00, CHR 0x00, CHR 0x00, CHR 0x09, CHR 0x03]"
  define ans where "ans = resp_head ''HTTP/1.1'' '' '' 200 CHR '' '' ''OK'' [] '' '' 9 @ CRLF @ CRLF @ ?ipp"
  define r where "r = \<lparr>rq_size = 0, rq_flags = 1, rq_usernm = replicate 64 NUL, rq_jobnm = replicate 256 NUL\<rparr>"
  define io where "io = \<lparr>pi_open = True, pi_fstat = True, pi_connect = True,
      pi_writev = int (length (http_header ''lp'' 173) + 172), pi_bs = True, pi_rderr = None, pi_writen = (\<lambda>_. 0),
      pi_answer = [Inr ans]\<rparr>"
  have ok: "resp_ok ''HTTP/1.1'' '' '' 200 CHR '' '' ''OK'' [] '' '' 9"
    by (simp add: resp_ok_def isspace_c_def isdigit_c_def)
  have len: "length ans \<le> length (replicate 200 NUL)"
    using length_dec_le [of 200 3] length_dec_le [of 9 1] by (simp add: ans_def resp_head_def CRLF_def CLEN_def)
  have st: "printer_status (replicate 200 NUL) [] 9 [Inr ans] = Some True"
    using status_one_read [OF ok _ _ ans_def len, of "[]" 9 "[]"]
    by (simp add: ntohl_def htonl_def be32_def le32_def get_le32_def get_be16_def byte_def)
  have t: "is_text r" by (simp add: is_text_def PR_TEXT_def r_def)
  have u: "user_str r = []" "cstr (rq_jobnm r) = []" by (simp_all add: user_str_def r_def cstr_def)
  have h: "length (ipp_header 9 ''lp'' r) = 172"
    using t u by (simp add: ipp_header_opts add_option_def doc_format_def)
  have hh: "length (http_header ''lp'' 173) \<le> 512"
    using length_dec_le [of 173 3] length_dec_le [of 631 3] by (simp add: http_header_def CRLF_def IPP_PORT_def)
  have c: "send_chunks None w 0 [] s = (s, True)" for w s by (subst send_chunks.simps) simp
  have "\<exists>sent. print_job (replicate 200 NUL) [] ''lp'' \<lparr>j_id = 9, j_req = r\<rparr> (Some []) io = Some (sent, Printed)"
    using st t h hh c by (simp add: print_job_def io_def IBUFSZ_def HBUFSZ_def file_chunks.simps Let_def)
  then obtain sent where p: "print_job (replicate 200 NUL) [] ''lp'' \<lparr>j_id = 9, j_req = r\<rparr> (Some []) io = Some (sent, Printed)" ..
  from printer_message [OF p] p show ?thesis unfolding io_def r_def ans_def by blast
qed

end
