(* ===== verification/Printd_Clients.thy ===== *)
theory Printd_Clients
  imports Printd_Spool
begin

text \<open>
  \<open>client_thread\<close> of \<open>apue.3e/printer/printd.c\<close> in steps, one for each call that changes the spool or answers
  the client, for interleavings with other threads and for stops of the daemon in between.  Run without
  interruption, the steps are the function \<open>client_thread\<close> of \<^theory_text>\<open>Printd_Spool\<close>.
\<close>

section \<open>The steps\<close>

text \<open>
  Before \<open>creat\<close> of the data file; in the loop, with the number of chunks and the bytes written; before
  \<open>creat\<close> of the request file, the \<open>write\<close> to it, the good response; after an error response, before the
  \<open>unlink\<close> of the request file or of the data file.
\<close>

datatype phase = Creating | Copying nat string | Requesting string | Writing string | Responding string
  | Undo_request printresp | Undo_data printresp

record client =
  cl_id :: "32 word"
  cl_req :: printreq
  cl_io :: client_io
  cl_phase :: phase

datatype client_out = Going client | Refused printresp | Answered printresp printreq string

text \<open>The header has been read and \<open>get_newjobno\<close> has returned; a header that is not complete is rejected at once.\<close>

definition new_client :: "client_io \<Rightarrow> 32 word \<Rightarrow> client option" where
  "new_client io nj =
     (case treadn (ci_hdr io) SIZEOF_PRINTREQ of
        Inl e \<Rightarrow> None
      | Inr b \<Rightarrow> if length b \<noteq> SIZEOF_PRINTREQ then None
                 else Some \<lparr>cl_id = fst (get_newjobno nj),
                   cl_req = (bytes_req b)\<lparr>rq_size := ntohl (rq_size (bytes_req b)), rq_flags := ntohl (rq_flags (bytes_req b))\<rparr>,
                   cl_io = io, cl_phase = Creating\<rparr>)"

definition put_data :: "string \<Rightarrow> string option \<Rightarrow> spool \<Rightarrow> spool" where
  "put_data nm x sp = sp\<lparr>sp_data := (sp_data sp)(nm := x)\<rparr>"

definition put_req :: "string \<Rightarrow> string option \<Rightarrow> spool \<Rightarrow> spool" where
  "put_req nm x sp = sp\<lparr>sp_reqs := (sp_reqs sp)(nm := x)\<rparr>"

definition client_step :: "(32 word \<Rightarrow> string) \<Rightarrow> client \<Rightarrow> spool \<Rightarrow> spool \<times> client_out" where
  "client_step strerr c sp =
     (let nm = job_name (cl_id c); io = cl_io c; go = (\<lambda>ph. Going (c\<lparr>cl_phase := ph\<rparr>)) in
      case cl_phase c of
        Creating \<Rightarrow>
          (case ci_creat io of
             Some e \<Rightarrow> (sp, Refused (reject strerr e))
           | None \<Rightarrow> (put_data nm (Some []) sp,
               Going (c\<lparr>cl_req := text_flag (ci_junk io) (ci_chunks io) (cl_req c), cl_phase := Copying 0 []\<rparr>)))
      | Copying k body \<Rightarrow>
          if k = length (ci_chunks io) then (sp, go (Requesting body))
          else (case ci_wdata io k of
             Inl e \<Rightarrow> (sp, go (Undo_data (reject strerr e)))
           | Inr n \<Rightarrow> if n \<noteq> length (ci_chunks io ! k)
               then (put_data nm (Some (body @ take n (ci_chunks io ! k))) sp, go (Undo_data (reject strerr EIO)))
               else (put_data nm (Some (body @ ci_chunks io ! k)) sp, go (Copying (k + 1) (body @ ci_chunks io ! k))))
      | Requesting body \<Rightarrow>
          (case ci_creat2 io of
             Some e \<Rightarrow> (sp, go (Undo_data (reject strerr e)))
           | None \<Rightarrow> (put_req nm (Some []) sp, go (Writing body)))
      | Writing body \<Rightarrow>
          (case ci_wreq io of
             Inl e \<Rightarrow> (sp, go (Undo_request (reject strerr e)))
           | Inr n \<Rightarrow> if n \<noteq> SIZEOF_PRINTREQ
               then (put_req nm (Some (take n (req_bytes (cl_req c)))) sp, go (Undo_request (reject strerr EIO)))
               else (put_req nm (Some (req_bytes (cl_req c))) sp, go (Responding body)))
      | Responding body \<Rightarrow>
          (sp, Answered \<lparr>rs_retcode = 0, rs_jobid = htonl (cl_id c), rs_msg = ''request ID '' @ job_name (cl_id c)\<rparr> (cl_req c) body)
      | Undo_request resp \<Rightarrow> (put_req nm None sp, go (Undo_data resp))
      | Undo_data resp \<Rightarrow> (put_data nm None sp, Refused resp))"

fun client_run :: "(32 word \<Rightarrow> string) \<Rightarrow> nat \<Rightarrow> client \<Rightarrow> spool \<Rightarrow> (spool \<times> client_out) option" where
  "client_run strerr 0 c sp = None"
| "client_run strerr (Suc n) c sp =
     (case client_step strerr c sp of
        (sp, Going c) \<Rightarrow> client_run strerr n c sp
      | (sp, out) \<Rightarrow> Some (sp, out))"

section \<open>The steps are client_thread\<close>

fun response :: "client_out \<Rightarrow> printresp \<times> printreq option" where
  "response (Refused resp) = (resp, None)"
| "response (Answered resp r body) = (resp, Some r)"
| "response (Going c) = undefined"

definition runs_to :: "(32 word \<Rightarrow> string) \<Rightarrow> client \<Rightarrow> spool \<Rightarrow> spool \<times> client_out \<Rightarrow> bool" where
  "runs_to strerr c sp x \<longleftrightarrow> (\<exists>n. client_run strerr n c sp = Some x)"

lemma runs_to_step: "client_step strerr c sp = (sp', Going c') \<Longrightarrow> runs_to strerr c' sp' x \<Longrightarrow> runs_to strerr c sp x"
proof -
  assume s: "client_step strerr c sp = (sp', Going c')" and "runs_to strerr c' sp' x"
  then obtain n where "client_run strerr n c' sp' = Some x" by (auto simp: runs_to_def)
  then have "client_run strerr (Suc n) c sp = Some x" using s by simp
  then show ?thesis unfolding runs_to_def by blast
qed

lemma runs_to_refused: "client_step strerr c sp = (sp', Refused resp) \<Longrightarrow> runs_to strerr c sp (sp', Refused resp)"
  unfolding runs_to_def by (rule exI [of _ 1]) simp

lemma runs_to_answered: "client_step strerr c sp = (sp', Answered resp r b) \<Longrightarrow> runs_to strerr c sp (sp', Answered resp r b)"
  unfolding runs_to_def by (rule exI [of _ 1]) simp

lemma put_simps [simp]:
  "sp_data (put_data nm x sp) = (sp_data sp)(nm := x)" "sp_reqs (put_data nm x sp) = sp_reqs sp"
  "sp_reqs (put_req nm x sp) = (sp_reqs sp)(nm := x)" "sp_data (put_req nm x sp) = sp_data sp"
  by (simp_all add: put_data_def put_req_def)

lemma put_put [simp]:
  "put_data nm x (put_data nm y sp) = put_data nm x sp" "put_req nm x (put_req nm y sp) = put_req nm x sp"
  "put_data nm x (put_req nm y (put_data nm z sp)) = put_req nm y (put_data nm x sp)"
  by (simp_all add: put_data_def put_req_def)

lemma undo_data_runs:
  "cl_phase c = Undo_data resp \<Longrightarrow> runs_to strerr c sp (put_data (job_name (cl_id c)) None sp, Refused resp)"
  by (rule runs_to_refused) (simp add: client_step_def Let_def)

lemma copying_runs:
  assumes "cl_phase c = Copying k body" and "drop k (ci_chunks (cl_io c)) = cs" and "k \<le> length (ci_chunks (cl_io c))"
    and "sp_data sp (job_name (cl_id c)) = Some body"
  shows "case store_chunks (ci_wdata (cl_io c)) k cs body of
      Inl e \<Rightarrow> runs_to strerr c sp (put_data (job_name (cl_id c)) None sp, Refused (reject strerr e))
    | Inr b \<Rightarrow> (\<forall>x. runs_to strerr (c\<lparr>cl_phase := Requesting b\<rparr>) (put_data (job_name (cl_id c)) (Some b) sp) x \<longrightarrow> runs_to strerr c sp x)"
  using assms
proof (induction cs arbitrary: c k body sp)
  case Nil
  then have "client_step strerr c sp = (sp, Going (c\<lparr>cl_phase := Requesting body\<rparr>))" by (simp add: client_step_def Let_def)
  moreover have "put_data (job_name (cl_id c)) (Some body) sp = sp" using Nil(4) by (simp add: put_data_def fun_upd_idem)
  ultimately show ?case using runs_to_step by simp
next
  case (Cons x cs)
  let ?n = "job_name (cl_id c)" and ?w = "ci_wdata (cl_io c) k"
  have k: "k < length (ci_chunks (cl_io c))" "ci_chunks (cl_io c) ! k = x" "drop (k + 1) (ci_chunks (cl_io c)) = cs"
    using Cons.prems(2) by (metis drop_all leI list.discI, metis hd_drop_conv_nth drop_all leI list.discI list.sel(1),
      metis Suc_eq_plus1 drop_Suc list.sel(3) tl_drop)
  show ?case
  proof (cases ?w)
    case (Inl e)
    then have "client_step strerr c sp = (sp, Going (c\<lparr>cl_phase := Undo_data (reject strerr e)\<rparr>))"
      using Cons.prems k by (simp add: client_step_def Let_def)
    from runs_to_step [OF this undo_data_runs] Inl show ?thesis by simp
  next
    case (Inr n)
    show ?thesis
    proof (cases "n = length x")
      case False
      then have "client_step strerr c sp = (put_data ?n (Some (body @ take n x)) sp, Going (c\<lparr>cl_phase := Undo_data (reject strerr EIO)\<rparr>))"
        using Cons.prems k Inr by (simp add: client_step_def Let_def)
      from runs_to_step [OF this undo_data_runs] Inr False show ?thesis by simp
    next
      case True
      let ?c = "c\<lparr>cl_phase := Copying (k + 1) (body @ x)\<rparr>" and ?sp = "put_data ?n (Some (body @ x)) sp"
      have st: "client_step strerr c sp = (?sp, Going ?c)"
        using Cons.prems k Inr True by (simp add: client_step_def Let_def)
      have "case store_chunks (ci_wdata (cl_io ?c)) (k + 1) cs (body @ x) of
          Inl e \<Rightarrow> runs_to strerr ?c ?sp (put_data (job_name (cl_id ?c)) None ?sp, Refused (reject strerr e))
        | Inr b \<Rightarrow> (\<forall>x. runs_to strerr (?c\<lparr>cl_phase := Requesting b\<rparr>) (put_data (job_name (cl_id ?c)) (Some b) ?sp) x \<longrightarrow> runs_to strerr ?c ?sp x)"
        by (rule Cons.IH) (use k in simp_all)
      then show ?thesis using Inr True runs_to_step [OF st] by (simp split: sum.splits)
    qed
  qed
qed

lemma request_runs:
  assumes "cl_phase c = Requesting body"
  shows "runs_to strerr c sp (case ci_creat2 (cl_io c) of
        Some e \<Rightarrow> (put_data (job_name (cl_id c)) None sp, Refused (reject strerr e))
      | None \<Rightarrow> (case (case ci_wreq (cl_io c) of Inl e \<Rightarrow> Some e | Inr n \<Rightarrow> if n \<noteq> SIZEOF_PRINTREQ then Some EIO else None) of
          Some e \<Rightarrow> (put_data (job_name (cl_id c)) None (put_req (job_name (cl_id c)) None sp), Refused (reject strerr e))
        | None \<Rightarrow> (put_req (job_name (cl_id c)) (Some (req_bytes (cl_req c))) sp,
            Answered \<lparr>rs_retcode = 0, rs_jobid = htonl (cl_id c), rs_msg = ''request ID '' @ job_name (cl_id c)\<rparr> (cl_req c) body)))"
proof (cases "ci_creat2 (cl_io c)")
  case (Some e)
  then have "client_step strerr c sp = (sp, Going (c\<lparr>cl_phase := Undo_data (reject strerr e)\<rparr>))"
    using assms by (simp add: client_step_def Let_def)
  from runs_to_step [OF this undo_data_runs] Some show ?thesis by simp
next
  case None
  let ?n = "job_name (cl_id c)" and ?c = "c\<lparr>cl_phase := Writing body\<rparr>" and ?sp = "put_req (job_name (cl_id c)) (Some []) sp"
  have s1: "client_step strerr c sp = (?sp, Going ?c)" using assms None by (simp add: client_step_def Let_def)
  have undo: "runs_to strerr (c\<lparr>cl_phase := Undo_request r\<rparr>) (put_req ?n y sp) (put_data ?n None (put_req ?n None sp), Refused r)" for r y
  proof -
    have "client_step strerr (c\<lparr>cl_phase := Undo_request r\<rparr>) (put_req ?n y sp) = (put_req ?n None sp, Going (c\<lparr>cl_phase := Undo_data r\<rparr>))"
      by (simp add: client_step_def Let_def)
    from runs_to_step [OF this undo_data_runs] show ?thesis by simp
  qed
  show ?thesis
  proof (cases "ci_wreq (cl_io c)")
    case (Inl e)
    then have "client_step strerr ?c ?sp = (?sp, Going (c\<lparr>cl_phase := Undo_request (reject strerr e)\<rparr>))"
      by (simp add: client_step_def Let_def)
    from runs_to_step [OF s1 runs_to_step [OF this undo]] None Inl show ?thesis by simp
  next
    case (Inr n)
    show ?thesis
    proof (cases "n = SIZEOF_PRINTREQ")
      case False
      then have "client_step strerr ?c ?sp = (put_req ?n (Some (take n (req_bytes (cl_req c)))) sp, Going (c\<lparr>cl_phase := Undo_request (reject strerr EIO)\<rparr>))"
        using Inr by (simp add: client_step_def Let_def)
      from runs_to_step [OF s1 runs_to_step [OF this undo]] None Inr False show ?thesis by simp
    next
      case True
      let ?t = "put_req ?n (Some (req_bytes (cl_req c))) sp"
      have s2: "client_step strerr ?c ?sp = (?t, Going (c\<lparr>cl_phase := Responding body\<rparr>))"
        using Inr True by (simp add: client_step_def Let_def)
      have s3: "client_step strerr (c\<lparr>cl_phase := Responding body\<rparr>) ?t
        = (?t, Answered \<lparr>rs_retcode = 0, rs_jobid = htonl (cl_id c), rs_msg = ''request ID '' @ job_name (cl_id c)\<rparr> (cl_req c) body)"
        by (simp add: client_step_def Let_def)
      from runs_to_step [OF s1 runs_to_step [OF s2 runs_to_answered [OF s3]]] None Inr True show ?thesis by simp
    qed
  qed
qed

text \<open>
  \<open>client_thread\<close> on a header that is complete is the steps of the new client run to the end; the job it
  adds is the one that was answered.
\<close>

theorem client_thread_steps:
  assumes "new_client io nj = Some c"
  shows "\<exists>sp' out. runs_to strerr c sp (sp', out)
    \<and> client_thread strerr io nj sp = (fst (response out), snd (get_newjobno nj), sp', map_option (Pair (cl_id c)) (snd (response out)))"
proof -
  from assms obtain b where b: "treadn (ci_hdr io) SIZEOF_PRINTREQ = Inr b" "length b = SIZEOF_PRINTREQ"
    by (auto simp: new_client_def split: sum.splits if_splits)
  define r where "r = (bytes_req b)\<lparr>rq_size := ntohl (rq_size (bytes_req b)), rq_flags := ntohl (rq_flags (bytes_req b))\<rparr>"
  have c: "c = \<lparr>cl_id = nj, cl_req = r, cl_io = io, cl_phase = Creating\<rparr>"
    using assms b by (simp add: new_client_def r_def get_newjobno_def)
  let ?n = "job_name nj"
  note thread = client_thread_def [of strerr io nj] b r_def [symmetric] Let_def get_newjobno_def
  show ?thesis
  proof (cases "ci_creat io")
    case (Some e)
    then have "client_step strerr c sp = (sp, Refused (reject strerr e))" by (simp add: client_step_def c)
    from runs_to_refused [OF this] Some show ?thesis
      by (intro exI [of _ sp] exI [of _ "Refused (reject strerr e)"]) (simp add: thread)
  next
    case None
    let ?c = "c\<lparr>cl_req := text_flag (ci_junk io) (ci_chunks io) r, cl_phase := Copying 0 []\<rparr>" and ?sp = "put_data ?n (Some []) sp"
    have s1: "client_step strerr c sp = (?sp, Going ?c)" using None by (simp add: client_step_def c)
    have copy: "case store_chunks (ci_wdata io) 0 (ci_chunks io) [] of
      Inl e \<Rightarrow> runs_to strerr ?c ?sp (put_data ?n None sp, Refused (reject strerr e))
    | Inr b \<Rightarrow> (\<forall>x. runs_to strerr (?c\<lparr>cl_phase := Requesting b\<rparr>) (put_data ?n (Some b) sp) x \<longrightarrow> runs_to strerr ?c ?sp x)"
      using copying_runs [of ?c 0 "[]" "ci_chunks io" ?sp strerr] by (simp add: c split: sum.splits)
    show ?thesis
    proof (cases "store_chunks (ci_wdata io) 0 (ci_chunks io) []")
      case (Inl e)
      with copy have "runs_to strerr c sp (put_data ?n None sp, Refused (reject strerr e))" by (auto intro: runs_to_step [OF s1])
      with Inl None show ?thesis
        by (intro exI [of _ "put_data ?n None sp"] exI [of _ "Refused (reject strerr e)"]) (simp add: thread put_data_def)
    next
      case (Inr body)
      have cp: "runs_to strerr c sp x" if "runs_to strerr (?c\<lparr>cl_phase := Requesting body\<rparr>) (put_data ?n (Some body) sp) x" for x
        by (rule runs_to_step [OF s1]) (use copy Inr that in \<open>simp del: split_paired_All\<close>)
      from request_runs [of "?c\<lparr>cl_phase := Requesting body\<rparr>" body strerr "put_data ?n (Some body) sp"]
      have rq: "runs_to strerr (?c\<lparr>cl_phase := Requesting body\<rparr>) (put_data ?n (Some body) sp) (case ci_creat2 io of
        Some e \<Rightarrow> (put_data ?n None sp, Refused (reject strerr e))
      | None \<Rightarrow> (case (case ci_wreq io of Inl e \<Rightarrow> Some e | Inr n \<Rightarrow> if n \<noteq> SIZEOF_PRINTREQ then Some EIO else None) of
          Some e \<Rightarrow> (put_data ?n None (put_req ?n None (put_data ?n (Some body) sp)), Refused (reject strerr e))
        | None \<Rightarrow> (put_req ?n (Some (req_bytes (text_flag (ci_junk io) (ci_chunks io) r))) (put_data ?n (Some body) sp),
            Answered \<lparr>rs_retcode = 0, rs_jobid = htonl nj, rs_msg = ''request ID '' @ job_name nj\<rparr> (text_flag (ci_junk io) (ci_chunks io) r) body)))"
        by (simp add: c cong: option.case_cong)
      have fin: ?thesis if "runs_to strerr c sp x" "client_thread strerr io nj sp = (fst (response (snd x)),
          snd (get_newjobno nj), fst x, map_option (Pair (cl_id c)) (snd (response (snd x))))" for x
        using that by (cases x) auto
      have id: "cl_id c = nj" by (simp add: c)
      show ?thesis
        by (rule fin [OF cp [OF rq]], cases sp, cases "ci_creat2 io"; cases "ci_wreq io")
          (simp_all add: thread id put_data_def put_req_def Inr None)
    qed
  qed
qed

end
