(* ===== verification/Printd_System.thy ===== *)
theory Printd_System
  imports Printd_Printer Printd_Clients "HOL-Library.Multiset"
begin

text \<open>
  The print spooler of \<open>apue.3e/printer/printd.c\<close> as a whole: client threads, the printer thread,
  signals and restarts, interleaved.  A step is what a thread does between two points where
  another thread, or a stop of the daemon, can see the difference.  Some components of the state are not
  the program's: the numbers handed out, those handed out more than once, the requests that were
  acknowledged with the data that came with them, what was printed, and the numbers given up because the
  data file could not be opened.
\<close>

section \<open>State and steps\<close>

record sys =
  s_jobs :: "job dlist"
  s_cur :: ptr
  s_sent :: bool
  s_clients :: "client list"
  s_adding :: "(32 word \<times> printreq) list"
  s_next :: "32 word"
  s_jobfile :: string
  s_spool :: spool
  s_reread :: bool
  s_pname :: string
  s_given :: "32 word set"
  s_reused :: "32 word set"
  s_acked :: "32 word \<Rightarrow> (printreq \<times> string) option"
  s_printed :: "(32 word \<times> printreq \<times> string) set"
  s_canceled :: "32 word set"

definition no_jobs :: "job dlist" where
  "no_jobs = \<lparr>heap = \<lambda>_. None, head = None, tail = None\<rparr>"

definition start :: "string \<Rightarrow> sys" where
  "start pname = \<lparr>s_jobs = no_jobs, s_cur = None, s_sent = False, s_clients = [], s_adding = [], s_next = 1, s_jobfile = [],
     s_spool = \<lparr>sp_data = \<lambda>_. None, sp_reqs = \<lambda>_. None\<rparr>, s_reread = False, s_pname = pname,
     s_given = {}, s_reused = {}, s_acked = \<lambda>_. None, s_printed = {}, s_canceled = {}\<rparr>"

text \<open>
  \<open>init_printer\<close>: \<open>ai\<close> is what \<open>get_printaddr\<close> finds, with the canonical name if there is one.
  \<open>exit(1)\<close> is the abort.
\<close>

definition init_printer :: "string option option \<Rightarrow> abort + string" where
  "init_printer ai = (case ai of None \<Rightarrow> Inl (Err_quit [])
     | Some nm \<Rightarrow> Inr (case nm of None \<Rightarrow> ''printer'' | Some n \<Rightarrow> n))"

text \<open>
  \<open>Accept\<close>: a client's header was read and \<open>get_newjobno\<close> called; \<open>Client\<close>: the next call of its thread,
  the last of which is the response; \<open>Enqueue\<close>: its \<open>add_job\<close>; \<open>Pick\<close>: the printer
  thread takes the first job, saves the job number and reads the configuration again if it has to
  (\<open>conf\<close> is the printer it names); \<open>Done\<close>: it has printed the file and unlinked it, puts back or gives up the
  job; \<open>Unlink\<close>: it unlinks the request of a printed job; \<open>Hangup\<close>: the signal; \<open>Restart\<close>: the daemon
  stops anywhere and starts again, \<open>nms\<close> being the order in which the request directory is read, whose
  files can be read.  The files of a number that was handed out twice may be written by two clients at
  once: \<open>Clash\<close> leaves anything in them.
\<close>

datatype pevent = Accept | Client | Enqueue | Pick | Done verdict | Unlink | Hangup | Restart | Clash

inductive pstep :: "(32 word \<Rightarrow> string) \<Rightarrow> pevent \<Rightarrow> sys \<Rightarrow> sys \<Rightarrow> bool" for strerr where
  accept: "new_client io (s_next s) = Some c \<Longrightarrow>
     pstep strerr Accept s (s\<lparr>s_next := snd (get_newjobno (s_next s)), s_clients := s_clients s @ [c],
       s_given := insert (cl_id c) (s_given s), s_reused := (if cl_id c \<in> s_given s then {cl_id c} else {}) \<union> s_reused s\<rparr>)"
| going: "s_clients s = xs @ c # ys \<Longrightarrow> client_step strerr c (s_spool s) = (sp, Going c') \<Longrightarrow>
     pstep strerr Client s (s\<lparr>s_spool := sp, s_clients := xs @ c' # ys\<rparr>)"
| refused: "s_clients s = xs @ c # ys \<Longrightarrow> client_step strerr c (s_spool s) = (sp, Refused resp) \<Longrightarrow>
     pstep strerr Client s (s\<lparr>s_spool := sp, s_clients := xs @ ys\<rparr>)"
| answered: "s_clients s = xs @ c # ys \<Longrightarrow> client_step strerr c (s_spool s) = (sp, Answered resp r body) \<Longrightarrow>
     pstep strerr Client s (s\<lparr>s_spool := sp, s_clients := xs @ ys, s_adding := s_adding s @ [(cl_id c, r)],
       s_acked := (s_acked s)(cl_id c \<mapsto> (r, body))\<rparr>)"
| enqueue: "s_adding s = xs @ (i, r) # ys \<Longrightarrow> heap (s_jobs s) a = None \<Longrightarrow> add_job a r i (s_jobs s) = Some js \<Longrightarrow>
     pstep strerr Enqueue s (s\<lparr>s_adding := xs @ ys, s_jobs := js\<rparr>)"
| pick: "s_cur s = None \<Longrightarrow> head (s_jobs s) = Some a \<Longrightarrow> remove_job a (s_jobs s) = Some js \<Longrightarrow>
     (if s_reread s then init_printer ai = Inr conf else conf = s_pname s) \<Longrightarrow>
     pstep strerr Pick s (s\<lparr>s_cur := Some a, s_jobs := js, s_jobfile := update_jobno (s_next s) (s_jobfile s),
       s_pname := conf, s_reread := False\<rparr>)"
| printed: "s_cur s = Some a \<Longrightarrow> \<not> s_sent s \<Longrightarrow> jobs (s_jobs s) a = Some j \<Longrightarrow> sp_data (s_spool s) (job_name (j_id j)) = Some body \<Longrightarrow>
     print_job junk grow (s_pname s) j (Some body) io = Some (sent, Printed) \<Longrightarrow>
     pstep strerr (Done Printed) s (s\<lparr>s_sent := True, s_spool := put_data (job_name (j_id j)) None (s_spool s),
       s_printed := insert (j_id j, j_req j, body) (s_printed s)\<rparr>)"
| unlinked: "s_cur s = Some a \<Longrightarrow> s_sent s \<Longrightarrow> jobs (s_jobs s) a = Some j \<Longrightarrow>
     pstep strerr Unlink s (s\<lparr>s_cur := None, s_sent := False, s_jobs := free_job a (s_jobs s),
       s_spool := put_req (job_name (j_id j)) None (s_spool s)\<rparr>)"
| deferred: "s_cur s = Some a \<Longrightarrow> \<not> s_sent s \<Longrightarrow> jobs (s_jobs s) a = Some j \<Longrightarrow>
     print_job junk grow (s_pname s) j (sp_data (s_spool s) (job_name (j_id j))) io = Some (sent, Deferred) \<Longrightarrow>
     replace_job a (s_jobs s) = Some js \<Longrightarrow>
     pstep strerr (Done Deferred) s (s\<lparr>s_cur := None, s_jobs := js\<rparr>)"
| canceled: "s_cur s = Some a \<Longrightarrow> \<not> s_sent s \<Longrightarrow> jobs (s_jobs s) a = Some j \<Longrightarrow>
     print_job junk grow (s_pname s) j (sp_data (s_spool s) (job_name (j_id j))) io = Some (sent, Canceled) \<Longrightarrow>
     pstep strerr (Done Canceled) s (s\<lparr>s_cur := None, s_jobs := free_job a (s_jobs s), s_canceled := insert (j_id j) (s_canceled s)\<rparr>)"
| hangup: "pstep strerr Hangup s (s\<lparr>s_reread := True\<rparr>)"
| restart: "distinct nms \<Longrightarrow> set nms = {nm. sp_reqs (s_spool s) nm \<noteq> None} \<Longrightarrow> (\<And>js :: job dlist. \<exists>a. heap js a = None \<Longrightarrow> heap js (al js) = None) \<Longrightarrow>
     build_qonstart (\<lambda>_. Can_read) al nms (s_spool s, no_jobs) = Some (sp, js) \<Longrightarrow>
     init_request True (Some (s_jobfile s)) = Inr nj \<Longrightarrow>
     init_printer ai = Inr conf \<Longrightarrow>
     pstep strerr Restart s (s\<lparr>s_jobs := js, s_cur := None, s_sent := False, s_clients := [], s_adding := [], s_next := nj, s_spool := sp,
       s_reread := False, s_pname := conf\<rparr>)"
| clash: "i \<in> s_reused s \<Longrightarrow>
     pstep strerr Clash s (s\<lparr>s_spool := put_data (job_name i) x (put_req (job_name i) y (s_spool s))\<rparr>)"


section \<open>Names of jobs\<close>

lemma atol_job_name: "atol (job_name i) = sint i"
proof (cases "sint i < 0")
  case True
  have "digits_val 0 (dec (nat (- sint i))) = nat (- sint i)" using digits_val_dec [of 0 _ "[]"] by simp
  then show ?thesis using True by (simp add: job_name_def fmt_d_def atol_def isspace_c_def)
next
  case False
  then show ?thesis by (simp add: job_name_def fmt_d_def)
qed


lemma job_name_number [simp]: "word_of_int (atol (job_name i)) = i"
  by (simp add: atol_job_name)

lemma job_name_1: "job_name 1 = ''1''"
  by (simp add: job_name_def fmt_d_def dec.simps digit_char_def char_of_def bit_0)

lemma job_name_dots [simp]: "job_name i \<noteq> ''.''" "job_name i \<noteq> ''..''"
proof -
  have "\<forall>c \<in> set (job_name i). isdigit_c c \<or> c = CHR ''-''" using dec_digits by (auto simp: job_name_def fmt_d_def)
  then show "job_name i \<noteq> ''.''" "job_name i \<noteq> ''..''" by (auto simp: isdigit_c_def)
qed

section \<open>One number\<close>

text \<open>The jobs the daemon has in memory: those queued, the one at the printer, those still to be added.\<close>

definition entry :: "job \<Rightarrow> 32 word \<times> printreq" where
  "entry j = (j_id j, j_req j)"

definition at_printer :: "ptr \<Rightarrow> job dlist \<Rightarrow> (32 word \<times> printreq) list" where
  "at_printer c js = (case c of None \<Rightarrow> [] | Some a \<Rightarrow> (case jobs js a of None \<Rightarrow> [] | Some j \<Rightarrow> [entry j]))"

lemma at_printer_simps [simp]:
  "at_printer None js = []"
  "jobs js a = Some j \<Longrightarrow> at_printer (Some a) js = [entry j]"
  by (simp_all add: at_printer_def)

definition live :: "sys \<Rightarrow> (nat \<times> job) list \<Rightarrow> (32 word \<times> printreq) list" where
  "live s q = map (entry \<circ> snd) q @ at_printer (s_cur s) (s_jobs s) @ s_adding s"

definition of_number :: "32 word \<Rightarrow> (32 word \<times> printreq) list \<Rightarrow> printreq list" where
  "of_number i L = map snd (filter (\<lambda>e. fst e = i) L)"

lemma of_number_simps [simp]:
  "of_number i [] = []" "of_number i (e # L) = (if fst e = i then [snd e] else []) @ of_number i L"
  "of_number i (L @ M) = of_number i L @ of_number i M"
  by (simp_all add: of_number_def)



definition clients_of :: "32 word \<Rightarrow> client list \<Rightarrow> client list" where
  "clients_of i cs = filter (\<lambda>c. cl_id c = i) cs"

lemma clients_of_simps [simp]:
  "clients_of i [] = []" "clients_of i (c # cs) = (if cl_id c = i then [c] else []) @ clients_of i cs"
  "clients_of i (cs @ ds) = clients_of i cs @ clients_of i ds"
  by (simp_all add: clients_of_def)





definition prints_of :: "32 word \<Rightarrow> (32 word \<times> printreq \<times> string) set \<Rightarrow> (printreq \<times> string) set" where
  "prints_of i P = {x. (i, x) \<in> P}"

lemma prints_of_insert [simp]: "prints_of i (insert e P) = (if fst e = i then insert (snd e) (prints_of i P) else prints_of i P)"
  by (cases e) (auto simp: prints_of_def)

text \<open>The number of a job that was printed and whose request file is still there.\<close>

definition sent_id :: "sys \<Rightarrow> 32 word option" where
  "sent_id s = (if s_sent s then map_option j_id (Option.bind (s_cur s) (jobs (s_jobs s))) else None)"








section \<open>The steps of a client\<close>

lemma text_flag_ok: "req_ok r \<Longrightarrow> req_ok (text_flag junk cs r)"
  by (simp add: text_flag_def req_ok_def split: list.split)




lemma client_step_others:
  assumes "client_step strerr c sp = (sp', out)"
  shows "nm \<noteq> job_name (cl_id c) \<Longrightarrow> sp_data sp' nm = sp_data sp nm \<and> sp_reqs sp' nm = sp_reqs sp nm"
    and "out = Going c' \<Longrightarrow> cl_id c' = cl_id c"
  using assms by (auto simp: client_step_def Let_def split: phase.splits option.splits sum.splits if_splits)



section \<open>Start-up\<close>










section \<open>Every step keeps the invariant\<close>



definition client_done :: "client_out \<Rightarrow> client list" where
  "client_done out = (case out of Going c \<Rightarrow> [c] | _ \<Rightarrow> [])"

definition client_job :: "client \<Rightarrow> client_out \<Rightarrow> (32 word \<times> printreq \<times> string) option" where
  "client_job c out = (case out of Answered resp r b \<Rightarrow> Some (cl_id c, r, b) | _ \<Rightarrow> None)"

definition after_client :: "sys \<Rightarrow> client list \<Rightarrow> client \<Rightarrow> client list \<Rightarrow> spool \<Rightarrow> client_out \<Rightarrow> sys" where
  "after_client s xs c ys sp out = s\<lparr>s_spool := sp, s_clients := xs @ client_done out @ ys,
     s_adding := s_adding s @ (case client_job c out of None \<Rightarrow> [] | Some (i, r, b) \<Rightarrow> [(i, r)]),
     s_acked := (case client_job c out of None \<Rightarrow> s_acked s | Some (i, x) \<Rightarrow> (s_acked s)(i \<mapsto> x))\<rparr>"


lemma live_after [simp]: "live (after_client s xs c ys sp out) q
    = live s q @ (case client_job c out of None \<Rightarrow> [] | Some (i, r, b) \<Rightarrow> [(i, r)])"
  by (simp add: live_def after_client_def)

lemma after_sel [simp]:
  "s_spool (after_client s xs c ys sp out) = sp" "s_given (after_client s xs c ys sp out) = s_given s"
  "s_reused (after_client s xs c ys sp out) = s_reused s" "s_printed (after_client s xs c ys sp out) = s_printed s"
  "s_canceled (after_client s xs c ys sp out) = s_canceled s" "sent_id (after_client s xs c ys sp out) = sent_id s"
  "s_clients (after_client s xs c ys sp out) = xs @ client_done out @ ys"
  by (simp_all add: after_client_def sent_id_def)


























section \<open>Properties\<close>

text \<open>The jobs in memory.\<close>

definition held :: "sys \<Rightarrow> (32 word \<times> printreq) set" where
  "held s = {e. (\<exists>a j. jobs (s_jobs s) a = Some j \<and> entry j = e)} \<union> set (s_adding s)"



text \<open>What a client that nothing goes wrong for gives the daemon.\<close>

definition good_io :: "printreq \<Rightarrow> string \<Rightarrow> client_io" where
  "good_io r body = \<lparr>ci_hdr = [Inr (req_bytes r)], ci_creat = None, ci_junk = [], ci_chunks = [body],
     ci_wdata = \<lambda>_. Inr (length body), ci_creat2 = None, ci_wreq = Inr SIZEOF_PRINTREQ\<rparr>"

definition stored_req :: "printreq \<Rightarrow> string \<Rightarrow> printreq" where
  "stored_req r body = text_flag [] [body] (r\<lparr>rq_size := ntohl (rq_size r), rq_flags := ntohl (rq_flags r)\<rparr>)"

lemma good_new_client:
  assumes "req_ok r"
  shows "new_client (good_io r body) n = Some \<lparr>cl_id = n, cl_req = r\<lparr>rq_size := ntohl (rq_size r), rq_flags := ntohl (rq_flags r)\<rparr>,
    cl_io = good_io r body, cl_phase = Creating\<rparr>"
proof -
  have b: "bytes_req (req_bytes r) = r" "length (req_bytes r) = SIZEOF_PRINTREQ"
    using req_roundtrip [OF assms] length_req_bytes [OF assms] .
  obtain m where m: "SIZEOF_PRINTREQ = Suc m" by (simp add: SIZEOF_PRINTREQ_def)
  have "treadn [Inr (req_bytes r)] SIZEOF_PRINTREQ = Inr (req_bytes r)" using b(2) unfolding m by auto
  then show ?thesis using b by (simp add: new_client_def good_io_def get_newjobno_def)
qed

lemma good_client_run:
  "client_run strerr 6 \<lparr>cl_id = n, cl_req = r\<lparr>rq_size := ntohl (rq_size r), rq_flags := ntohl (rq_flags r)\<rparr>,
      cl_io = good_io r body, cl_phase = Creating\<rparr> sp
   = Some (put_req (job_name n) (Some (req_bytes (stored_req r body))) (put_data (job_name n) (Some body) sp),
       Answered \<lparr>rs_retcode = 0, rs_jobid = htonl n, rs_msg = ''request ID '' @ job_name n\<rparr> (stored_req r body) body)"
  by (simp add: eval_nat_numeral client_step_def good_io_def stored_req_def)

definition psteps :: "(32 word \<Rightarrow> string) \<Rightarrow> sys \<Rightarrow> sys \<Rightarrow> bool" where
  "psteps strerr = (\<lambda>s s'. \<exists>ev. pstep strerr ev s s')\<^sup>*\<^sup>*"


lemma psteps_step: "pstep strerr ev s s' \<Longrightarrow> psteps strerr s' s'' \<Longrightarrow> psteps strerr s s''"
  unfolding psteps_def by (rule converse_rtranclp_into_rtranclp) auto

lemma psteps_client:
  assumes "client_run strerr n c (s_spool s) = Some (sp, Answered resp r b)" and "s_clients s = [c]"
    and "s' = s\<lparr>s_spool := sp, s_clients := [], s_adding := s_adding s @ [(cl_id c, r)], s_acked := (s_acked s)(cl_id c \<mapsto> (r, b))\<rparr>"
  shows "psteps strerr s s'"
  using assms
proof (induction n arbitrary: c s)
  case (Suc n)
  obtain sp1 out where st: "client_step strerr c (s_spool s) = (sp1, out)" by fastforce
  have cs: "s_clients s = [] @ c # []" using Suc.prems(2) by simp
  show ?case
  proof (cases out)
    case (Going c')
    let ?s = "s\<lparr>s_spool := sp1, s_clients := [c']\<rparr>"
    have id: "cl_id c' = cl_id c" using client_step_others(2) [OF st Going] .
    have "psteps strerr ?s s'"
      by (rule Suc.IH [of c']) (use Suc.prems(1,3) st Going id in simp_all)
    then show ?thesis using psteps_step [OF pstep.going [OF cs st [unfolded Going]]] by simp
  next
    case (Refused resp')
    then show ?thesis using Suc.prems(1) st by simp
  next
    case (Answered resp' r' b')
    then have e: "sp1 = sp" "r' = r" "b' = b" using Suc.prems(1) st by simp_all
    have "psteps strerr s' s'" by (simp add: psteps_def)
    then show ?thesis using psteps_step [OF pstep.answered [OF cs st [unfolded Answered e]]] Suc.prems(3) by (simp add: fun_upd_def)
  qed
qed simp

lemma submit_good:
  assumes "req_ok r" and "s_clients s = []"
  shows "psteps strerr s (s\<lparr>s_next := snd (get_newjobno (s_next s)), s_given := insert (s_next s) (s_given s),
    s_reused := (if s_next s \<in> s_given s then {s_next s} else {}) \<union> s_reused s,
    s_spool := put_req (job_name (s_next s)) (Some (req_bytes (stored_req r body))) (put_data (job_name (s_next s)) (Some body) (s_spool s)), s_clients := [],
    s_adding := s_adding s @ [(s_next s, stored_req r body)], s_acked := (s_acked s)(s_next s \<mapsto> (stored_req r body, body))\<rparr>)"
proof -
  note c = good_new_client [OF assms(1), of body "s_next s"]
  note st = psteps_step [OF pstep.accept [OF c]]
  show ?thesis
    by (rule st, rule psteps_client, rule good_client_run [where n = "s_next s" and r = r and body = body])
      (use assms(2) in simp_all)
qed


text \<open>
  The job number is saved only when the printer takes a job: a
  daemon that accepted a job and restarts before that numbers its next client with the same
  number, and the data of the first job are overwritten by those of the second.
\<close>

theorem printd_number_reused:
  assumes "req_ok r" and "req_ok r'"
  shows "\<exists>s1 s2 s3. psteps strerr (start pname) s1 \<and> pstep strerr Restart s1 s2 \<and> psteps strerr s2 s3
    \<and> s_acked s1 1 = Some (stored_req r one, one) \<and> sp_data (s_spool s1) ''1'' = Some one
    \<and> held s2 = {(1, stored_req r one)} \<and> s_printed s3 = {} \<and> 1 \<in> s_reused s3
    \<and> held s3 = {(1, stored_req r one), (1, stored_req r' two)} \<and> sp_data (s_spool s3) ''1'' = Some two
    \<and> (\<forall>nm. nm \<noteq> ''1'' \<longrightarrow> sp_data (s_spool s3) nm = None)"
proof -
  note n = job_name_1
  let ?q = "stored_req r one"
  have q: "req_ok ?q" unfolding stored_req_def by (rule text_flag_ok) (use assms(1) in \<open>simp add: req_ok_def\<close>)
  have qb: "bytes_req (req_bytes ?q) = ?q" "length (req_bytes ?q) = SIZEOF_PRINTREQ"
    using req_roundtrip [OF q] length_req_bytes [OF q] .
  let ?s1 = "start pname\<lparr>s_next := snd (get_newjobno 1), s_given := {1},
    s_spool := \<lparr>sp_data = [''1'' \<mapsto> one], sp_reqs = [''1'' \<mapsto> req_bytes ?q]\<rparr>,
    s_adding := [(1, ?q)], s_acked := [1 \<mapsto> (?q, one)]\<rparr>"
  have s1: "psteps strerr (start pname) ?s1"
    using submit_good [OF assms(1), of "start pname" strerr one] by (simp add: start_def n put_data_def put_req_def)
  define al :: "job dlist \<Rightarrow> nat" where "al = (\<lambda>js. LEAST a. heap js a = None)"
  have al: "heap js (al js) = None" if "\<exists>a. heap js a = None" for js
    unfolding al_def using that by (rule LeastI_ex)
  have e: "pending no_jobs []" by (simp add: no_jobs_def pending_def dl_def)
  have ja: "jobs no_jobs b = None" for b by (simp add: no_jobs_def jobs_def)
  from add_job_pending [OF e, of "al no_jobs" ?q 1] obtain js where
    js: "add_job (al no_jobs) ?q 1 no_jobs = Some js" "pending js [(al no_jobs, \<lparr>j_id = 1, j_req = ?q\<rparr>)]"
    "\<forall>b. b \<noteq> al no_jobs \<longrightarrow> jobs js b = None"
    by (auto simp: no_jobs_def jobs_def)
  have num: "word_of_int (atol ''1'') = (1 :: 32 word)" using job_name_number [of 1] n by simp
  have b: "build_qonstart (\<lambda>_. Can_read) al [''1''] (s_spool ?s1, no_jobs) = Some (s_spool ?s1, js)"
    using js(1) qb num by simp
  have i: "init_request True (Some (s_jobfile ?s1)) = Inr 1" by (simp add: init_request_def start_def)
  let ?s2 = "?s1\<lparr>s_jobs := js, s_cur := None, s_sent := False, s_clients := [], s_adding := [], s_next := 1, s_spool := s_spool ?s1,
    s_reread := False, s_pname := pname\<rparr>"
  have c: "init_printer (Some (Some pname)) = Inr pname" by (simp add: init_printer_def)
  have s2: "pstep strerr Restart ?s1 ?s2" by (rule pstep.restart [OF _ _ al b i c]) auto
  have j1: "jobs js (al no_jobs) = Some \<lparr>j_id = 1, j_req = ?q\<rparr>" using js(2) by (simp add: pending_def)
  have h: "{e. \<exists>a j. jobs js a = Some j \<and> entry j = e} = {(1, ?q)}"
  proof -
    have "jobs js a = Some j \<longleftrightarrow> a = al no_jobs \<and> j = \<lparr>j_id = 1, j_req = ?q\<rparr>" for a j
      using j1 js(3) by (metis option.distinct(1) option.inject)
    then show ?thesis by (auto simp: entry_def)
  qed
  have none: "s_clients ?s2 = []" by simp
  note s3 = submit_good [OF assms(2) none, of strerr two]
  show ?thesis
    by (rule exI, rule exI, rule exI, rule conjI [OF s1], rule conjI [OF s2], rule conjI [OF s3])
      (auto simp: held_def h n start_def)
qed

theorem printd_number_reused_witness:
  "\<exists>s1 s2 s3. psteps (\<lambda>_. []) (start []) s1 \<and> pstep (\<lambda>_. []) Restart s1 s2 \<and> psteps (\<lambda>_. []) s2 s3
    \<and> sp_data (s_spool s1) ''1'' = Some ''one'' \<and> sp_data (s_spool s3) ''1'' = Some ''two''"
proof -
  let ?r = "\<lparr>rq_size = 0, rq_flags = 0, rq_usernm = replicate 64 NUL, rq_jobnm = replicate 256 NUL\<rparr>"
  have r: "req_ok ?r" by (simp add: req_ok_def USERNM_MAX_def JOBNM_MAX_def)
  from printd_number_reused [OF r r, of "\<lambda>_. []" "[]" "''one''" "''two''"] show ?thesis by metis
qed

end
