(* ===== verification/Print_Client.thy ===== *)
theory Print_Client
  imports Printd_System
begin

text \<open>
  \<open>submit_file\<close> of \<open>apue.3e/printer/print.c\<close>, and what client and daemon do together.  What the
  system calls return is an argument: the result of the first \<open>writen\<close>, what each \<open>read\<close> of the file
  gives (\<open>Inl ()\<close> for an error, \<open>Inr []\<close> or the end of the list for the end of the file), the results
  of the later \<open>writen\<close> calls, and the response \<open>readn\<close> gives, if it is complete.
\<close>

section \<open>The client\<close>

record submit_io =
  si_hdr :: int
  si_reads :: "(unit + string) list"
  si_writes :: "nat \<Rightarrow> int"
  si_resp :: "printresp option"

datatype submitted = Rejected string | Job_id int

text \<open>
  The loop that sends the file: what was sent, and the error that stops it.  After a \<open>read\<close> that
  failed the loop calls \<open>writen\<close> with the length \<open>-1\<close>, that is \<open>2^64 - 1\<close>: \<open>None\<close>.
\<close>

fun send_file :: "(nat \<Rightarrow> int) \<Rightarrow> nat \<Rightarrow> (unit + string) list \<Rightarrow> string \<Rightarrow> (string \<times> abort option) option" where
  "send_file w k [] out = Some (out, None)"
| "send_file w k (Inl _ # rs) out = None"
| "send_file w k (Inr bs # rs) out =
     (if bs = [] then Some (out, None)
      else if w k \<noteq> int (length bs)
      then Some (out, Some (if w k < 0 then Err_sys ''can't write to print server'' else Err_quit ''short write''))
      else send_file w (k + 1) rs (out @ bs))"

definition submit_file :: "string \<Rightarrow> string \<Rightarrow> string option \<Rightarrow> string \<Rightarrow> nat \<Rightarrow> bool \<Rightarrow> submit_io
    \<Rightarrow> (string \<times> (abort + submitted)) option" where
  "submit_file upad jpad pw fname nbytes text io =
     (let hdr = req_bytes (submit_req upad jpad pw nbytes text fname) in
      if si_hdr io \<noteq> int SIZEOF_PRINTREQ
      then Some ([], Inl (if si_hdr io < 0 then Err_sys ''can't write to print server'' else Err_quit ''short write''))
      else (case send_file (si_writes io) 0 (si_reads io) hdr of
              None \<Rightarrow> None
            | Some (out, Some e) \<Rightarrow> Some (out, Inl e)
            | Some (out, None) \<Rightarrow>
              (case si_resp io of
                 None \<Rightarrow> Some (out, Inl (Err_sys ''can't read response from server''))
               | Some res \<Rightarrow> Some (out, Inr (if rs_retcode res \<noteq> 0 then Rejected (cstr (rs_msg res))
                                       else Job_id (uint (ntohl (rs_jobid res))))))))"

lemma send_file_all:
  assumes "\<forall>i < length bss. bss ! i \<noteq> [] \<and> w (k + i) = int (length (bss ! i))"
  shows "send_file w k (map Inr bss) out = Some (out @ concat bss, None)"
  using assms
proof (induction bss arbitrary: k out)
  case (Cons b bss)
  have "\<forall>i < length bss. bss ! i \<noteq> [] \<and> w (k + 1 + i) = int (length (bss ! i))"
  proof (intro allI impI)
    fix i assume "i < length bss"
    with Cons.prems [rule_format, of "Suc i"] show "bss ! i \<noteq> [] \<and> w (k + 1 + i) = int (length (bss ! i))" by simp
  qed
  from Cons.IH [OF this] show ?case using Cons.prems [rule_format, of 0] by simp
qed simp

lemma store_all:
  assumes "\<forall>i < length cs. w (k + i) = Inr (length (cs ! i))"
  shows "store_chunks w k cs body = Inr (body @ concat cs)"
  using assms
proof (induction cs arbitrary: k body)
  case (Cons c cs)
  have "\<forall>i < length cs. w (k + 1 + i) = Inr (length (cs ! i))"
  proof (intro allI impI)
    fix i assume "i < length cs"
    with Cons.prems [rule_format, of "Suc i"] show "w (k + 1 + i) = Inr (length (cs ! i))" by simp
  qed
  from Cons.IH [OF this] show ?case using Cons.prems [rule_format, of 0] by simp
qed simp

lemma submit_req_ok:
  assumes "length upad = USERNM_MAX" and "length jpad = JOBNM_MAX" and "\<forall>u. pw = Some u \<longrightarrow> NUL \<notin> set u" and "NUL \<notin> set fname"
  shows "req_ok (submit_req upad jpad pw nbytes text fname)"
  using submit_user(1) [OF assms(1,3)] submit_job(1) [OF assms(2,4)] by (simp add: req_ok_def submit_req_def)

section \<open>Properties\<close>

text \<open>
  Client and daemon together: when no call fails, the daemon stores in the spool exactly the
  file the client was given, in however many pieces client and network cut it, with a request
  that carries its size, and the client prints the number the daemon gave the job.
\<close>

theorem print_file_spooled:
  assumes "length upad = USERNM_MAX" and "length jpad = JOBNM_MAX" and "0 < sint n"
    and "\<forall>u. pw = Some u \<longrightarrow> NUL \<notin> set u" and "NUL \<notin> set fname"
    and "req = submit_req upad jpad pw nbytes text fname"
    and "\<forall>i < length bss. bss ! i \<noteq> [] \<and> si_writes sio i = int (length (bss ! i))"
    and "si_hdr sio = int SIZEOF_PRINTREQ" and "si_reads sio = map Inr bss" and "si_resp sio = Some resp"
    and "client_thread strerr io n sp = (resp, nj, sp', res)"
    and "treadn (ci_hdr io) SIZEOF_PRINTREQ = Inr (req_bytes req)" and "concat (ci_chunks io) = concat bss"
    and "\<forall>i < length (ci_chunks io). ci_wdata io i = Inr (length (ci_chunks io ! i))"
    and "ci_creat io = None" and "ci_creat2 io = None" and "ci_wreq io = Inr SIZEOF_PRINTREQ"
  shows "submit_file upad jpad pw fname nbytes text sio = Some (req_bytes req @ concat bss, Inr (Job_id (sint n)))
    \<and> sp_data sp' (job_name n) = Some (concat bss)
    \<and> (\<exists>r. res = Some (n, r) \<and> rq_size r = of_nat nbytes \<and> rq_usernm r = rq_usernm req \<and> rq_jobnm r = rq_jobnm req
         \<and> sp_reqs sp' (job_name n) = Some (req_bytes r))"
proof -
  have ok: "req_ok req" using submit_req_ok [OF assms(1,2,4,5)] assms(6) by simp
  have b: "bytes_req (req_bytes req) = req" "length (req_bytes req) = SIZEOF_PRINTREQ"
    using req_roundtrip [OF ok] length_req_bytes [OF ok] .
  have st: "store_chunks (ci_wdata io) 0 (ci_chunks io) [] = Inr (concat bss)"
    using store_all [of "ci_chunks io" "ci_wdata io" 0 "[]"] assms(13,14) by simp
  have sz: "ntohl (rq_size req) = of_nat nbytes" by (simp add: assms(6) submit_req_def)
  have tf: "rq_size (text_flag j c r) = rq_size r" "rq_usernm (text_flag j c r) = rq_usernm r"
    "rq_jobnm (text_flag j c r) = rq_jobnm r" for j c r by (simp_all add: text_flag_def split: list.split)
  have resp: "rs_retcode resp = 0" "rs_jobid resp = htonl n"
    using assms(11,12,15,16,17) b st by (auto simp: client_thread_def get_newjobno_def Let_def)
  have "uint n = sint n" using assms(3) sint_bounds(2) [of n] by (simp add: uint_sint take_bit_int_eq_self)
  then have cl: "submit_file upad jpad pw fname nbytes text sio = Some (req_bytes req @ concat bss, Inr (Job_id (sint n)))"
    using send_file_all [of bss "si_writes sio" 0 "req_bytes req"] assms(6-10) resp
    by (simp add: submit_file_def Let_def)
  show ?thesis
    using cl assms(11,12,15,16,17) b st sz tf by (auto simp: client_thread_def get_newjobno_def Let_def)
qed

theorem print_file_spooled_witness:
  "\<exists>r. submit_file (replicate 64 NUL) (replicate 256 NUL) (Some ''sar'') ''a.txt'' 4 True
      \<lparr>si_hdr = int SIZEOF_PRINTREQ, si_reads = [Inr ''abcd''], si_writes = \<lambda>_. 4,
       si_resp = Some \<lparr>rs_retcode = 0, rs_jobid = htonl 7, rs_msg = ''request ID '' @ job_name 7\<rparr>\<rparr>
    = Some (r @ ''abcd'', Inr (Job_id 7))"
proof -
  let ?req = "submit_req (replicate 64 NUL) (replicate 256 NUL) (Some ''sar'') 4 True ''a.txt''"
  have nul: "\<forall>u. Some ''sar'' = Some u \<longrightarrow> NUL \<notin> set u" "NUL \<notin> set ''a.txt''" by (simp_all add: NUL_def)
  have len: "length (replicate 64 NUL) = USERNM_MAX" "length (replicate 256 NUL) = JOBNM_MAX"
    by (simp_all add: USERNM_MAX_def JOBNM_MAX_def)
  have ok: "req_ok ?req" by (rule submit_req_ok [OF len nul])
  define io where "io = (good_io ?req ''abcd'')\<lparr>ci_chunks := [''ab'', ''cd''], ci_wdata := \<lambda>_. Inr 2\<rparr>"
  have b: "bytes_req (req_bytes ?req) = ?req" "length (req_bytes ?req) = SIZEOF_PRINTREQ"
    using req_roundtrip [OF ok] length_req_bytes [OF ok] .
  obtain m where m: "SIZEOF_PRINTREQ = Suc m" by (simp add: SIZEOF_PRINTREQ_def)
  have td: "treadn (ci_hdr io) SIZEOF_PRINTREQ = Inr (req_bytes ?req)"
    using b(2) unfolding m by (auto simp: io_def good_io_def)
  let ?resp = "\<lparr>rs_retcode = 0, rs_jobid = htonl 7, rs_msg = ''request ID '' @ job_name 7\<rparr>"
  let ?sio = "\<lparr>si_hdr = int SIZEOF_PRINTREQ, si_reads = [Inr ''abcd''], si_writes = \<lambda>_. 4, si_resp = Some ?resp\<rparr>"
  have "\<exists>sp' res. client_thread (\<lambda>_. []) io 7 (s_spool (start [])) = (?resp, snd (get_newjobno 7), sp', res)"
    using td b by (simp add: client_thread_def Let_def get_newjobno_def) (simp add: io_def good_io_def Let_def)
  then obtain sp' res where c: "client_thread (\<lambda>_. []) io 7 (s_spool (start [])) = (?resp, snd (get_newjobno 7), sp', res)" by blast
  have "sint (7 :: 32 word) = 7" by simp
  with print_file_spooled [OF len _ nul refl _ _ _ _ c td, of "[''abcd'']" ?sio]
  show ?thesis by (auto simp: io_def good_io_def less_Suc_eq)
qed

end
