(* ===== verification/Str_Cli.thy ===== *)
theory Str_Cli
  imports C_Text
begin

text \<open>
  \<open>str_cli\<close> of \<open>unpv13e/nonblock/strclinonb.c\<close>: an echo client that copies standard input to a socket
  and the socket to standard output with nonblocking calls and two buffers.  Pointers into a buffer
  are indices.  One iteration of the loop is a function of what the system calls of the iteration
  return; \<open>err_sys\<close> and \<open>err_quit\<close> stop the process.
\<close>

section \<open>State and system calls\<close>

definition MAXLINE :: nat where "MAXLINE = 4096"

record copybuf =
  cb_mem :: string
  cb_iptr :: nat
  cb_optr :: nat

record cli =
  c_to :: copybuf
  c_fr :: copybuf
  c_stdineof :: bool

text \<open>\<open>Got []\<close> is the end of file; \<open>Would_block\<close> and \<open>Failed\<close> are the result \<open>-1\<close>.\<close>

datatype rdres = Got string | Rd_block | Rd_failed
datatype wrres = Put nat | Wr_block | Wr_failed

record sysres =
  r_stdin :: bool
  r_sock :: bool
  w_sock :: bool
  w_stdout :: bool
  rd_stdin :: rdres
  rd_sock :: rdres
  wr_stdout :: wrres
  wr_sock :: wrres

text \<open>What the process reads, writes and shuts down, in order.\<close>

datatype effect = In string | Recv string | To_stdout string | To_sock string | Fin

datatype 'a iter = Next 'a | Return cli | Stop abort

section \<open>The loop\<close>

definition empty_buf :: "string \<Rightarrow> copybuf" where
  "empty_buf mem = \<lparr>cb_mem = mem, cb_iptr = 0, cb_optr = 0\<rparr>"

definition cli_init :: "string \<Rightarrow> string \<Rightarrow> cli" where
  "cli_init mem mem' = \<lparr>c_to = empty_buf mem, c_fr = empty_buf mem', c_stdineof = False\<rparr>"

definition room :: "copybuf \<Rightarrow> bool" where
  "room b \<longleftrightarrow> cb_iptr b < MAXLINE"

definition unsent :: "copybuf \<Rightarrow> bool" where
  "unsent b \<longleftrightarrow> cb_optr b \<noteq> cb_iptr b"

text \<open>A \<open>read\<close> into the rest of the buffer, of as many bytes as fit.\<close>

definition fits :: "string \<Rightarrow> copybuf \<Rightarrow> string" where
  "fits bs b = take (MAXLINE - cb_iptr b) bs"

definition fill :: "string \<Rightarrow> copybuf \<Rightarrow> copybuf" where
  "fill bs b = b\<lparr>cb_mem := overlay NUL (cb_mem b) (cb_iptr b) bs, cb_iptr := cb_iptr b + length bs\<rparr>"

definition contents :: "copybuf \<Rightarrow> string" where
  "contents b = take (cb_iptr b - cb_optr b) (drop (cb_optr b) (cb_mem b))"

text \<open>After a \<open>write\<close> of \<open>n\<close> bytes: back to the beginning when the buffer is empty.\<close>

definition drain_buf :: "nat \<Rightarrow> copybuf \<Rightarrow> copybuf" where
  "drain_buf n b =
     (let b = b\<lparr>cb_optr := cb_optr b + n\<rparr> in
      if cb_optr b = cb_iptr b then b\<lparr>cb_iptr := 0, cb_optr := 0\<rparr> else b)"

text \<open>The four parts of an iteration; the second result is the flag that part sets in \<open>wset\<close>.\<close>

definition do_stdin :: "rdres \<Rightarrow> cli \<Rightarrow> (cli \<times> bool) iter \<times> effect list" where
  "do_stdin r s = (case r of
       Rd_failed \<Rightarrow> (Stop (Err_sys ''read error on stdin''), [])
     | Rd_block \<Rightarrow> (Next (s, False), [])
     | Got bs \<Rightarrow>
         if bs = [] then (Next (s\<lparr>c_stdineof := True\<rparr>, False), if unsent (c_to s) then [] else [Fin])
         else (Next (s\<lparr>c_to := fill (fits bs (c_to s)) (c_to s)\<rparr>, True), [In (fits bs (c_to s))]))"

definition do_sock :: "rdres \<Rightarrow> cli \<Rightarrow> (cli \<times> bool) iter \<times> effect list" where
  "do_sock r s = (case r of
       Rd_failed \<Rightarrow> (Stop (Err_sys ''read error on socket''), [])
     | Rd_block \<Rightarrow> (Next (s, False), [])
     | Got bs \<Rightarrow>
         if bs = [] then (if c_stdineof s then Return s else Stop (Err_quit ''str_cli: server terminated prematurely''), [])
         else (Next (s\<lparr>c_fr := fill (fits bs (c_fr s)) (c_fr s)\<rparr>, True), [Recv (fits bs (c_fr s))]))"

text \<open>A \<open>write\<close> writes at most what it was asked to.\<close>

definition do_stdout :: "wrres \<Rightarrow> cli \<Rightarrow> cli iter \<times> effect list" where
  "do_stdout w s = (case w of
       Wr_failed \<Rightarrow> (Stop (Err_sys ''write error to stdout''), [])
     | Wr_block \<Rightarrow> (Next s, [])
     | Put n \<Rightarrow>
         let b = c_fr s; out = take n (contents b)
         in (Next (s\<lparr>c_fr := drain_buf (length out) b\<rparr>), [To_stdout out]))"

definition do_tosock :: "wrres \<Rightarrow> cli \<Rightarrow> cli iter \<times> effect list" where
  "do_tosock w s = (case w of
       Wr_failed \<Rightarrow> (Stop (Err_sys ''write error to socket''), [])
     | Wr_block \<Rightarrow> (Next s, [])
     | Put n \<Rightarrow>
         let b = c_to s; out = take n (contents b);
             fin = cb_optr b + length out = cb_iptr b \<and> c_stdineof s
         in (Next (s\<lparr>c_to := drain_buf (length out) b\<rparr>), To_sock out # (if fin then [Fin] else [])))"

text \<open>Each part runs when the one before it lets the iteration go on.\<close>

definition and_then :: "'a iter \<times> effect list \<Rightarrow> ('a \<Rightarrow> 'b iter \<times> effect list) \<Rightarrow> 'b iter \<times> effect list" where
  "and_then m f = (case m of
       (Next a, es) \<Rightarrow> (case f a of (r, es') \<Rightarrow> (r, es @ es'))
     | (Return s, es) \<Rightarrow> (Return s, es)
     | (Stop e, es) \<Rightarrow> (Stop e, es))"

text \<open>
  One iteration.  \<open>select\<close> leaves in its sets only descriptors that were in them: a flag of
  \<open>sysres\<close> counts only when the code asked for it.
\<close>

definition iteration :: "sysres \<Rightarrow> cli \<Rightarrow> cli iter \<times> effect list" where
  "iteration x s =
     (let rs_in = r_stdin x \<and> \<not> c_stdineof s \<and> room (c_to s);
          rs_sk = r_sock x \<and> room (c_fr s);
          ws_sk = w_sock x \<and> unsent (c_to s);
          ws_out = w_stdout x \<and> unsent (c_fr s)
      in and_then (if rs_in then do_stdin (rd_stdin x) s else (Next (s, False), [])) (\<lambda>(s, got_in).
         and_then (if rs_sk then do_sock (rd_sock x) s else (Next (s, False), [])) (\<lambda>(s, got_sk).
         and_then (if (ws_out \<or> got_sk) \<and> cb_iptr (c_fr s) > cb_optr (c_fr s)
                   then do_stdout (wr_stdout x) s else (Next s, [])) (\<lambda>s.
           if (ws_sk \<or> got_in) \<and> cb_iptr (c_to s) > cb_optr (c_to s)
           then do_tosock (wr_sock x) s else (Next s, [])))))"

fun str_cli :: "sysres list \<Rightarrow> cli \<Rightarrow> cli iter \<times> effect list" where
  "str_cli [] s = (Next s, [])"
| "str_cli (x # xs) s = and_then (iteration x s) (str_cli xs)"

section \<open>What goes in and out\<close>

fun ins :: "effect list \<Rightarrow> string" where
  "ins [] = []" | "ins (In s # es) = s @ ins es" | "ins (_ # es) = ins es"

fun recvd :: "effect list \<Rightarrow> string" where
  "recvd [] = []" | "recvd (Recv s # es) = s @ recvd es" | "recvd (_ # es) = recvd es"

fun outs :: "effect list \<Rightarrow> string" where
  "outs [] = []" | "outs (To_stdout s # es) = s @ outs es" | "outs (_ # es) = outs es"

fun sent :: "effect list \<Rightarrow> string" where
  "sent [] = []" | "sent (To_sock s # es) = s @ sent es" | "sent (_ # es) = sent es"

lemma ins_append [simp]: "ins (xs @ ys) = ins xs @ ins ys"
  by (induction xs rule: ins.induct) simp_all

lemma recvd_append [simp]: "recvd (xs @ ys) = recvd xs @ recvd ys"
  by (induction xs rule: recvd.induct) simp_all

lemma outs_append [simp]: "outs (xs @ ys) = outs xs @ outs ys"
  by (induction xs rule: outs.induct) simp_all

lemma sent_append [simp]: "sent (xs @ ys) = sent xs @ sent ys"
  by (induction xs rule: sent.induct) simp_all

section \<open>The buffers\<close>

definition buf_ok :: "copybuf \<Rightarrow> bool" where
  "buf_ok b \<longleftrightarrow> length (cb_mem b) = MAXLINE \<and> cb_optr b \<le> cb_iptr b \<and> cb_iptr b \<le> MAXLINE"

lemma contents_unsent: "buf_ok b \<Longrightarrow> unsent b \<longleftrightarrow> contents b \<noteq> []"
  by (auto simp: buf_ok_def unsent_def contents_def)

lemma fill_ok:
  assumes "buf_ok b"
  shows "buf_ok (fill (fits bs b) b)" and "contents (fill (fits bs b) b) = contents b @ fits bs b"
proof -
  have l: "length (fits bs b) \<le> MAXLINE - cb_iptr b" by (simp add: fits_def)
  have m: "min (MAXLINE - cb_optr b) (cb_iptr b - cb_optr b) = cb_iptr b - cb_optr b"
    using assms by (auto simp: buf_ok_def)
  from l assms show "buf_ok (fill (fits bs b) b)" by (auto simp: buf_ok_def fill_def length_overlay)
  show "contents (fill (fits bs b) b) = contents b @ fits bs b"
    using assms l m by (simp add: buf_ok_def fill_def contents_def overlay_def drop_take)
qed

lemma drain_ok:
  assumes "buf_ok b"
  shows "buf_ok (drain_buf (length (take n (contents b))) b)"
    and "take n (contents b) @ contents (drain_buf (length (take n (contents b))) b) = contents b"
    and "cb_optr b + length (take n (contents b)) = cb_iptr b \<longleftrightarrow> \<not> unsent (drain_buf (length (take n (contents b))) b)"
proof -
  show "buf_ok (drain_buf (length (take n (contents b))) b)"
    using assms by (auto simp: buf_ok_def drain_buf_def contents_def Let_def)
  let ?m = "length (take n (contents b))"
  have split: "take n (contents b) @ drop ?m (contents b) = contents b"
    by (cases "n \<le> length (contents b)") simp_all
  have "contents (drain_buf ?m b) = drop ?m (contents b)"
  proof (cases "cb_optr b + ?m = cb_iptr b")
    case True
    then have "contents (drain_buf ?m b) = []" by (simp add: drain_buf_def contents_def Let_def)
    moreover have "length (contents b) \<le> ?m" using True by (simp add: contents_def)
    ultimately show ?thesis by simp
  next
    case False
    then have "contents (drain_buf ?m b) = take (cb_iptr b - (cb_optr b + ?m)) (drop (cb_optr b + ?m) (cb_mem b))"
      by (simp add: drain_buf_def contents_def Let_def)
    also have "\<dots> = drop ?m (take (cb_iptr b - cb_optr b) (drop (cb_optr b) (cb_mem b)))"
      by (simp add: drop_take add.commute)
    finally show ?thesis by (simp only: contents_def)
  qed
  with split show "take n (contents b) @ contents (drain_buf ?m b) = contents b" by simp
  show "cb_optr b + length (take n (contents b)) = cb_iptr b \<longleftrightarrow> \<not> unsent (drain_buf (length (take n (contents b))) b)"
    by (auto simp: drain_buf_def unsent_def Let_def)
qed

section \<open>The invariant of the loop\<close>

text \<open>The client's end of the stream is shut down once, after everything read was sent.\<close>

definition fin_ok :: "effect list \<Rightarrow> bool" where
  "fin_ok es \<longleftrightarrow> (\<forall>es1 es2. es = es1 @ Fin # es2 \<longrightarrow> sent es1 = ins es \<and> sent es2 = [] \<and> Fin \<notin> set es2)"

definition cli_inv :: "cli \<Rightarrow> effect list \<Rightarrow> bool" where
  "cli_inv s es \<longleftrightarrow> buf_ok (c_to s) \<and> buf_ok (c_fr s)
     \<and> ins es = sent es @ contents (c_to s) \<and> recvd es = outs es @ contents (c_fr s)
     \<and> (Fin \<in> set es \<longleftrightarrow> c_stdineof s \<and> \<not> unsent (c_to s)) \<and> fin_ok es"

text \<open>What holds of the effects so far (\<open>es0\<close>) and those of a part of the loop, by its result.\<close>

definition holds :: "('a \<Rightarrow> cli) \<Rightarrow> effect list \<Rightarrow> 'a iter \<times> effect list \<Rightarrow> bool" where
  "holds st es0 m \<longleftrightarrow> (case m of
       (Next a, es) \<Rightarrow> cli_inv (st a) (es0 @ es)
     | (Return s, es) \<Rightarrow> cli_inv s (es0 @ es) \<and> c_stdineof s
     | (Stop e, es) \<Rightarrow> \<exists>s. cli_inv s (es0 @ es))"

lemma holds_and_then:
  assumes "holds st es0 m" and "\<And>a es. cli_inv (st a) (es0 @ es) \<Longrightarrow> m = (Next a, es) \<Longrightarrow> holds st' (es0 @ es) (f a)"
  shows "holds st' es0 (and_then m f)"
proof -
  obtain r es where m: "m = (r, es)" by fastforce
  show ?thesis
  proof (cases r)
    case (Next a)
    then have "cli_inv (st a) (es0 @ es)" using assms(1) m by (simp add: holds_def)
    from assms(2) [OF this] m Next have "holds st' (es0 @ es) (f a)" by simp
    then show ?thesis using m Next by (auto simp: holds_def and_then_def split: prod.splits iter.splits)
  qed (use assms(1) m in \<open>auto simp: holds_def and_then_def\<close>)
qed

lemma holds_same [simp]: "holds st es0 (Next a, []) = cli_inv (st a) es0"
  by (simp add: holds_def)

lemma fin_ok_other: "fin_ok es \<Longrightarrow> Fin \<notin> set es \<Longrightarrow> e \<noteq> Fin \<Longrightarrow> fin_ok (es @ [e])"
  unfolding fin_ok_def
proof (intro allI impI)
  fix es1 es2 assume "Fin \<notin> set es" "e \<noteq> Fin" "es @ [e] = es1 @ Fin # es2"
  then have False by (metis Un_iff empty_iff in_set_conv_decomp insert_iff list.set(1) list.simps(15) set_append)
  then show "sent es1 = ins (es @ [e]) \<and> sent es2 = [] \<and> Fin \<notin> set es2" ..
qed

lemma fin_ok_fin: "Fin \<notin> set es \<Longrightarrow> sent es = ins es \<Longrightarrow> fin_ok (es @ [Fin])"
proof -
  assume f: "Fin \<notin> set es" "sent es = ins es"
  have "es2 = [] \<and> es1 = es" if "es @ [Fin] = es1 @ Fin # es2" for es1 es2
    using that f(1) by (cases es2 rule: rev_cases) auto
  with f show ?thesis by (auto simp: fin_ok_def)
qed

lemma fin_ok_other_side:
  assumes "fin_ok es" and "e = Recv x \<or> e = To_stdout x"
  shows "fin_ok (es @ [e])"
  unfolding fin_ok_def
proof (intro allI impI)
  fix es1 es2 assume e: "es @ [e] = es1 @ Fin # es2"
  then obtain es3 where "es2 = es3 @ [e]" "es = es1 @ Fin # es3"
    using assms(2) by (cases es2 rule: rev_cases) auto
  with assms show "sent es1 = ins (es @ [e]) \<and> sent es2 = [] \<and> Fin \<notin> set es2"
    by (auto simp: fin_ok_def)
qed

lemma stdin_holds:
  assumes "cli_inv s es0" and "\<not> c_stdineof s" and "room (c_to s)"
  shows "holds fst es0 (do_stdin r s)"
proof -
  have b: "buf_ok (c_to s)" and nf: "Fin \<notin> set es0" using assms by (simp_all add: cli_inv_def)
  show ?thesis
  proof (cases r)
    case (Got bs)
    show ?thesis
    proof (cases "bs = []")
      case True
      then show ?thesis
        using assms Got nf contents_unsent [OF b] by (auto simp: do_stdin_def holds_def cli_inv_def intro: fin_ok_fin)
    next
      case False
      then have "fits bs (c_to s) \<noteq> []" using assms(3) by (simp add: fits_def room_def)
      then show ?thesis using False assms(1,2) Got nf fill_ok [OF b] fin_ok_other
        by (simp add: do_stdin_def holds_def cli_inv_def)
    qed
  qed (use assms in \<open>auto simp: do_stdin_def holds_def\<close>)
qed

lemma sock_holds:
  assumes "cli_inv s es0"
  shows "holds fst es0 (do_sock r s)"
proof -
  have b: "buf_ok (c_fr s)" using assms by (simp add: cli_inv_def)
  show ?thesis
  proof (cases r)
    case (Got bs)
    then show ?thesis using assms fill_ok [OF b] fin_ok_other_side [of es0]
      by (auto simp: do_sock_def holds_def cli_inv_def)
  qed (use assms in \<open>auto simp: do_sock_def holds_def\<close>)
qed

lemma stdout_holds:
  assumes "cli_inv s es0"
  shows "holds id es0 (do_stdout w s)"
proof -
  have b: "buf_ok (c_fr s)" using assms by (simp add: cli_inv_def)
  show ?thesis
  proof (cases w)
    case (Put n)
    then show ?thesis using assms drain_ok [OF b, of n] fin_ok_other_side [of es0]
      by (auto simp: do_stdout_def holds_def cli_inv_def Let_def)
  qed (use assms in \<open>auto simp: do_stdout_def holds_def\<close>)
qed

lemma tosock_holds:
  assumes "cli_inv s es0" and "cb_iptr (c_to s) > cb_optr (c_to s)"
  shows "holds id es0 (do_tosock w s)"
proof -
  have b: "buf_ok (c_to s)" and nf: "Fin \<notin> set es0" using assms by (simp_all add: cli_inv_def unsent_def)
  show ?thesis
  proof (cases w)
    case (Put n)
    let ?out = "take n (contents (c_to s))" and ?b = "drain_buf (length (take n (contents (c_to s)))) (c_to s)"
    note d = drain_ok [OF b, of n]
    have e: "ins es0 = sent (es0 @ [To_sock ?out]) @ contents ?b" using assms(1) d(2) by (simp add: cli_inv_def)
    have f: "fin_ok (es0 @ [To_sock ?out])" using assms(1) nf fin_ok_other by (simp add: cli_inv_def)
    show ?thesis
    proof (cases "cb_optr (c_to s) + length ?out = cb_iptr (c_to s) \<and> c_stdineof s")
      case True
      then have "contents ?b = []" using d(1,3) contents_unsent by blast
      then have "fin_ok ((es0 @ [To_sock ?out]) @ [Fin])" using e nf by (intro fin_ok_fin) auto
      then show ?thesis using True assms(1) Put e d by (simp add: do_tosock_def holds_def cli_inv_def Let_def)
    next
      case False
      then show ?thesis using assms(1) Put e f d(1,3) nf
        by (auto simp: do_tosock_def holds_def cli_inv_def Let_def)
    qed
  qed (use assms in \<open>auto simp: do_tosock_def holds_def\<close>)
qed

lemma iteration_holds: "cli_inv s es0 \<Longrightarrow> holds id es0 (iteration x s)"
  unfolding iteration_def Let_def
proof (rule holds_and_then [where st = fst], goal_cases)
  case 1
  then show ?case by (simp add: stdin_holds)
next
  case (2 a es)
  obtain s1 g where a: "a = (s1, g)" by fastforce
  show ?case unfolding a prod.case
  proof (rule holds_and_then [where st = fst], goal_cases)
    case 1
    then show ?case using 2(2) by (simp add: sock_holds a)
  next
    case (2 c es')
    obtain s2 g2 where c: "c = (s2, g2)" by fastforce
    show ?case unfolding c prod.case
      by (rule holds_and_then [where st = id]) (use 2(1) in \<open>simp_all add: stdout_holds tosock_holds c\<close>)
  qed
qed

lemma str_cli_holds: "cli_inv s es0 \<Longrightarrow> holds id es0 (str_cli xs s)"
proof (induction xs arbitrary: s es0)
  case (Cons x xs)
  show ?case
    unfolding str_cli.simps
    by (rule holds_and_then [OF iteration_holds [OF Cons.prems]]) (use Cons.IH in auto)
qed simp

lemma cli_inv_init: "length mem = MAXLINE \<Longrightarrow> length mem' = MAXLINE \<Longrightarrow> cli_inv (cli_init mem mem') []"
  by (simp add: cli_inv_def cli_init_def empty_buf_def buf_ok_def contents_def fin_ok_def)

section \<open>Properties\<close>

text \<open>
  C33.  Whatever the descriptors do, and however the bytes arrive and are accepted, nothing is
  lost, doubled or reordered in either direction while the loop runs: what was read is what was
  written followed by what one buffer still holds.  The stream to the server is shut down at
  most once, with everything read already sent.  When the server closes and the function returns,
  what the buffers still hold is dropped, unwritten.
\<close>

theorem str_cli_streams:
  assumes "length mem = MAXLINE" and "length mem' = MAXLINE" and "str_cli xs (cli_init mem mem') = (r, es)"
  shows "\<exists>s. ins es = sent es @ contents (c_to s) \<and> recvd es = outs es @ contents (c_fr s)
    \<and> length (contents (c_to s)) \<le> MAXLINE \<and> length (contents (c_fr s)) \<le> MAXLINE
    \<and> (\<forall>es1 es2. es = es1 @ Fin # es2 \<longrightarrow> sent es1 = ins es \<and> Fin \<notin> set es2)
    \<and> (\<forall>t. r = Next t \<longrightarrow> s = t) \<and> (\<forall>t. r = Return t \<longrightarrow> s = t \<and> c_stdineof s)"
proof -
  have "holds id [] (r, es)" using str_cli_holds [OF cli_inv_init [OF assms(1,2)], of xs] assms(3) by simp
  then obtain s where s: "cli_inv s es" "\<forall>t. r = Next t \<longrightarrow> s = t" "\<forall>t. r = Return t \<longrightarrow> s = t \<and> c_stdineof s"
    by (cases r) (auto simp: holds_def)
  have "length (contents b) \<le> MAXLINE" if "buf_ok b" for b using that by (simp add: buf_ok_def contents_def)
  with s show ?thesis unfolding cli_inv_def fin_ok_def by (intro exI [of _ s]) auto
qed

text \<open>A run that drops output: the server's bytes cannot be written at once, and then it closes.\<close>

theorem str_cli_streams_witness:
  "\<exists>s es. str_cli
     [\<lparr>r_stdin = True, r_sock = False, w_sock = False, w_stdout = False, rd_stdin = Got [], rd_sock = Rd_block, wr_stdout = Wr_block, wr_sock = Wr_block\<rparr>,
      \<lparr>r_stdin = False, r_sock = True, w_sock = False, w_stdout = False, rd_stdin = Rd_block, rd_sock = Got ''hi'', wr_stdout = Wr_block, wr_sock = Wr_block\<rparr>,
      \<lparr>r_stdin = False, r_sock = True, w_sock = False, w_stdout = False, rd_stdin = Rd_block, rd_sock = Got [], wr_stdout = Wr_block, wr_sock = Wr_block\<rparr>]
     (cli_init (replicate MAXLINE NUL) (replicate MAXLINE NUL)) = (Return s, es)
   \<and> es = [Fin, Recv ''hi''] \<and> contents (c_fr s) = ''hi''"
proof -
  define m where "m = replicate MAXLINE NUL"
  have m: "length m = MAXLINE" by (simp add: m_def)
  let ?xs = "[\<lparr>r_stdin = True, r_sock = False, w_sock = False, w_stdout = False, rd_stdin = Got [], rd_sock = Rd_block, wr_stdout = Wr_block, wr_sock = Wr_block\<rparr>,
      \<lparr>r_stdin = False, r_sock = True, w_sock = False, w_stdout = False, rd_stdin = Rd_block, rd_sock = Got ''hi'', wr_stdout = Wr_block, wr_sock = Wr_block\<rparr>,
      \<lparr>r_stdin = False, r_sock = True, w_sock = False, w_stdout = False, rd_stdin = Rd_block, rd_sock = Got [], wr_stdout = Wr_block, wr_sock = Wr_block\<rparr>]"
  have "\<exists>s. str_cli ?xs (cli_init m m) = (Return s, [Fin, Recv ''hi''])"
    by (simp add: iteration_def Let_def and_then_def cli_init_def empty_buf_def do_stdin_def do_sock_def do_stdout_def
        room_def unsent_def fits_def fill_def MAXLINE_def)
  then obtain s where s: "str_cli ?xs (cli_init m m) = (Return s, [Fin, Recv ''hi''])" ..
  from str_cli_streams [OF m m s] have "contents (c_fr s) = ''hi''" by auto
  with s show ?thesis unfolding m_def by blast
qed

end
