(* ===== verification/Foo_Hash.thy ===== *)
theory Foo_Hash
  imports Prelude "HOL-Library.Monad_Syntax"
begin

text \<open>
  The table of reference counted objects of \<open>apue.3e/threads/mutex2.c\<close> and \<open>mutex3.c\<close>: \<open>struct foo\<close>
  in memory, the 29 chains of \<open>fh\<close>, and what both programs do with them while \<open>hashlock\<close> is held.
  An operation that would follow a pointer to no object is \<open>None\<close>.  A locale states what the
  operations of either program promise.
\<close>

section \<open>Memory\<close>

definition NHASH :: nat where "NHASH = 29"

record foo =
  f_count :: "32 word"
  f_id :: "32 word"
  f_next :: "nat option"

record table =
  foos :: "nat \<Rightarrow> foo option"
  fh :: "nat \<Rightarrow> nat option"

text \<open>\<open>(unsigned long)id\<close> extends the sign.\<close>

definition HASH :: "32 word \<Rightarrow> nat" where
  "HASH i = unat (signed i :: 64 word) mod NHASH"

definition put_foo :: "nat \<Rightarrow> (foo \<Rightarrow> foo) \<Rightarrow> table \<Rightarrow> table option" where
  "put_foo a g t = map_option (\<lambda>f. t\<lparr>foos := (foos t)(a \<mapsto> g f)\<rparr>) (foos t a)"

section \<open>What both programs do\<close>

text \<open>\<open>al\<close> is what \<open>malloc\<close> returns, \<open>init_ok\<close> whether \<open>pthread_mutex_init\<close> succeeds.\<close>

definition foo_alloc :: "nat option \<Rightarrow> bool \<Rightarrow> 32 word \<Rightarrow> table \<Rightarrow> nat option \<times> table" where
  "foo_alloc al init_ok i t = (case al of
       None \<Rightarrow> (None, t)
     | Some fp \<Rightarrow>
       if \<not> init_ok then (None, t)
       else (Some fp, t\<lparr>foos := (foos t)(fp \<mapsto> \<lparr>f_count = 1, f_id = i, f_next = fh t (HASH i)\<rparr>),
                        fh := (fh t)(HASH i := Some fp)\<rparr>))"

partial_function (option) search :: "32 word \<Rightarrow> nat option \<Rightarrow> table \<Rightarrow> nat option option" where
  "search i p t = (case p of None \<Rightarrow> Some None
     | Some fp \<Rightarrow> do { f \<leftarrow> foos t fp; if f_id f = i then Some (Some fp) else search i (f_next f) t })"

text \<open>\<open>while (tfp->f_next != fp) tfp = tfp->f_next\<close>: the object before \<open>fp\<close>.\<close>

partial_function (option) before :: "nat \<Rightarrow> nat option \<Rightarrow> table \<Rightarrow> nat option" where
  "before fp tfp t = (case tfp of None \<Rightarrow> None
     | Some p \<Rightarrow> do { f \<leftarrow> foos t p; if f_next f = Some fp then Some p else before fp (f_next f) t })"

definition unlink_foo :: "nat \<Rightarrow> table \<Rightarrow> table option" where
  "unlink_foo fp t = do {
     f \<leftarrow> foos t fp;
     (if fh t (HASH (f_id f)) = Some fp
      then Some (t\<lparr>fh := (fh t)(HASH (f_id f) := f_next f)\<rparr>)
      else do { p \<leftarrow> before fp (fh t (HASH (f_id f))) t; put_foo p (\<lambda>g. g\<lparr>f_next := f_next f\<rparr>) t }) }"

definition free_foo :: "nat \<Rightarrow> table \<Rightarrow> table" where
  "free_foo fp t = t\<lparr>foos := (foos t)(fp := None)\<rparr>"

definition add_count :: "nat \<Rightarrow> 32 word \<Rightarrow> table \<Rightarrow> table option" where
  "add_count fp n t = put_foo fp (\<lambda>f. f\<lparr>f_count := f_count f + n\<rparr>) t"

section \<open>Chains\<close>

fun chain :: "(nat \<Rightarrow> foo option) \<Rightarrow> nat option \<Rightarrow> nat list \<Rightarrow> nat option \<Rightarrow> bool" where
  "chain h p [] q \<longleftrightarrow> p = q"
| "chain h p (a # as) q \<longleftrightarrow> p = Some a \<and> (\<exists>f. h a = Some f \<and> chain h (f_next f) as q)"

lemma chain_append: "chain h p (xs @ ys) q \<longleftrightarrow> (\<exists>r. chain h p xs r \<and> chain h r ys q)"
  by (induction xs arbitrary: p) auto

lemma fchain_cong: "(\<And>a. a \<in> set xs \<Longrightarrow> map_option f_next (h a) = map_option f_next (h' a)) \<Longrightarrow> chain h p xs q = chain h' p xs q"
proof (induction xs arbitrary: p)
  case (Cons a xs)
  have "chain h r xs q = chain h' r xs q" for r using Cons by simp
  moreover have "map_option f_next (h a) = map_option f_next (h' a)" using Cons.prems by simp
  ultimately show ?case by (cases "h a"; cases "h' a") auto
qed simp

lemma chain_alloc: "chain h p xs q \<Longrightarrow> a \<in> set xs \<Longrightarrow> h a \<noteq> None"
  by (induction xs arbitrary: p) auto

lemma search_chain:
  assumes "chain (foos t) p xs None"
  shows "search i p t = Some (find (\<lambda>a. map_option f_id (foos t a) = Some i) xs)"
  using assms
proof (induction xs arbitrary: p)
  case Nil
  then show ?case by (simp add: search.simps)
next
  case (Cons a xs)
  then show ?case by (subst search.simps) auto
qed

lemma before_chain:
  assumes "chain (foos t) p (xs @ b # fp # ys) None" and "fp \<notin> set xs" and "fp \<noteq> b"
  shows "before fp p t = Some b"
  using assms
proof (induction xs arbitrary: p)
  case Nil
  then show ?case by (subst before.simps) auto
next
  case (Cons a xs)
  then obtain f where f: "p = Some a" "foos t a = Some f" "chain (foos t) (f_next f) (xs @ b # fp # ys) None" by auto
  moreover have "f_next f \<noteq> Some fp" using f(3) Cons.prems by (cases xs) auto
  ultimately show ?case using Cons by (subst before.simps) auto
qed

text \<open>Every object is in the chain of its hash value, once, and nothing else is.\<close>

definition shape :: "table \<Rightarrow> (nat \<Rightarrow> nat list) \<Rightarrow> bool" where
  "shape t cs \<longleftrightarrow> (\<forall>i. chain (foos t) (fh t i) (cs i) None \<and> distinct (cs i)
     \<and> (\<forall>a. a \<in> set (cs i) \<longleftrightarrow> (\<exists>f. foos t a = Some f \<and> HASH (f_id f) = i)))"

text \<open>The references counted for each object, with its number.\<close>

definition MAXREF :: nat where "MAXREF = 2147483647"

type_synonym refs = "nat \<Rightarrow> (32 word \<times> nat) option"

definition count_at :: "foo option \<Rightarrow> (32 word \<times> nat) option \<Rightarrow> bool" where
  "count_at fo ro = (case fo of None \<Rightarrow> ro = None
     | Some f \<Rightarrow> \<exists>n. ro = Some (f_id f, n) \<and> 0 < n \<and> n \<le> MAXREF \<and> f_count f = of_nat n)"

definition counts :: "table \<Rightarrow> refs \<Rightarrow> bool" where
  "counts t R \<longleftrightarrow> (\<forall>a. count_at (foos t a) (R a))"

lemma counts_upd: "counts t R \<Longrightarrow> count_at fo ro \<Longrightarrow> counts (t\<lparr>foos := (foos t)(a := fo)\<rparr>) (R(a := ro))"
  by (simp add: counts_def)

lemma counts_fh [simp]: "counts (t\<lparr>fh := h\<rparr>) R = counts t R" "counts (t\<lparr>foos := g, fh := h\<rparr>) R = counts (t\<lparr>foos := g\<rparr>) R"
  by (simp_all add: counts_def)

definition rep :: "table \<Rightarrow> refs \<Rightarrow> bool" where
  "rep t R \<longleftrightarrow> (\<exists>cs. shape t cs) \<and> counts t R"

lemma shape_count:
  assumes "shape t cs" and "foos t a = Some f"
  shows "shape (t\<lparr>foos := (foos t)(a \<mapsto> f\<lparr>f_count := n\<rparr>)\<rparr>) cs"
proof -
  have c: "chain ((foos t)(a \<mapsto> f\<lparr>f_count := n\<rparr>)) p xs None = chain (foos t) p xs None" for p xs
    by (rule fchain_cong) (use assms(2) in auto)
  show ?thesis using assms unfolding shape_def by (auto simp: c)
qed

lemma shape_alloc:
  assumes "shape t cs" and "foos t a = None"
  shows "shape (t\<lparr>foos := (foos t)(a \<mapsto> \<lparr>f_count = n, f_id = i, f_next = fh t (HASH i)\<rparr>), fh := (fh t)(HASH i := Some a)\<rparr>)
    (cs(HASH i := a # cs (HASH i)))"
proof -
  have na: "a \<notin> set (cs k)" for k using assms by (auto simp: shape_def)
  have c: "chain ((foos t)(a \<mapsto> x)) p (cs k) None = chain (foos t) p (cs k) None" for x p k
    by (rule fchain_cong) (use na in auto)
  show ?thesis using assms na unfolding shape_def by (auto simp: c)
qed

lemma shape_unlink:
  assumes "shape t cs" and "foos t a = Some f"
  shows "\<exists>t'. unlink_foo a t = Some t' \<and> shape (free_foo a t') (cs(HASH (f_id f) := remove1 a (cs (HASH (f_id f)))))
    \<and> (\<forall>b. b \<noteq> a \<longrightarrow> map_option (\<lambda>g. (f_id g, f_count g)) (foos t' b) = map_option (\<lambda>g. (f_id g, f_count g)) (foos t b))"
proof -
  let ?i = "HASH (f_id f)"
  have "a \<in> set (cs ?i)" using assms by (auto simp: shape_def)
  then obtain xs ys where xy: "cs ?i = xs @ a # ys" "a \<notin> set xs" by (meson split_list_first)
  have d: "distinct (xs @ a # ys)" "chain (foos t) (fh t ?i) (xs @ a # ys) None"
    using assms(1) xy by (metis shape_def)+
  have rm: "remove1 a (cs ?i) = xs @ ys" using xy by (simp add: remove1_append)
  have other: "a \<notin> set (cs k)" if "k \<noteq> ?i" for k using assms that by (auto simp: shape_def)
  show ?thesis
  proof (cases xs rule: rev_cases)
    case Nil
    let ?t = "t\<lparr>fh := (fh t)(?i := f_next f)\<rparr>"
    have u: "unlink_foo a t = Some ?t" using d(2) Nil assms(2) by (simp add: unlink_foo_def)
    have c: "chain ((foos t)(a := None)) p zs None = chain (foos t) p zs None" if "a \<notin> set zs" for p zs
      by (rule fchain_cong) (use that in auto)
    have ys: "chain (foos t) (f_next f) ys None" using d(2) Nil assms(2) by simp
    have "shape (free_foo a ?t) (cs(?i := ys))"
      unfolding shape_def
    proof (intro allI conjI)
      fix k
      show "chain (foos (free_foo a ?t)) (fh (free_foo a ?t) k) ((cs(?i := ys)) k) None"
        using c [of ys] c [OF other, of k] ys d(1) assms(1) by (auto simp: free_foo_def shape_def)
      show "distinct ((cs(?i := ys)) k)" using assms(1) d(1) by (auto simp: shape_def)
      show "b \<in> set ((cs(?i := ys)) k) \<longleftrightarrow> (\<exists>f. foos (free_foo a ?t) b = Some f \<and> HASH (f_id f) = k)" for b
      proof -
        have "b \<in> set (cs k) \<longleftrightarrow> (\<exists>f. foos t b = Some f \<and> HASH (f_id f) = k)" using assms(1) by (simp add: shape_def)
        then show ?thesis using xy d(1) Nil other [of k] by (auto simp: free_foo_def)
      qed
    qed
    then show ?thesis using u rm Nil by auto
  next
    case (snoc us b)
    then have ab: "a \<noteq> b" using d(1) by auto
    obtain g where g: "foos t b = Some g" "chain (foos t) (fh t ?i) us (Some b)"
      using d(2) snoc by (auto simp: chain_append)
    let ?g = "g\<lparr>f_next := f_next f\<rparr>" and ?t = "t\<lparr>foos := (foos t)(b \<mapsto> g\<lparr>f_next := f_next f\<rparr>)\<rparr>"
    have "fh t ?i \<noteq> Some a" using d snoc by (cases us) auto
    moreover have "before a (fh t ?i) t = Some b"
      by (rule before_chain [of t _ us b a ys]) (use d snoc ab in auto)
    ultimately have u: "unlink_foo a t = Some ?t" using assms(2) g(1) by (simp add: unlink_foo_def put_foo_def)
    have c: "chain ((foos t)(b \<mapsto> ?g, a := None)) p zs q = chain (foos t) p zs q" if "a \<notin> set zs" "b \<notin> set zs" for p zs q
      by (rule fchain_cong) (use that in auto)
    have ys: "chain (foos t) (f_next f) ys None" using d(2) snoc assms(2) by (auto simp: chain_append)
    have bs: "b \<in> set (cs k) \<longleftrightarrow> k = ?i" for k
    proof -
      have "b \<in> set (cs ?i)" using xy snoc by simp
      then show ?thesis using assms(1) by (auto simp: shape_def)
    qed
    have ch: "chain ((foos t)(b \<mapsto> ?g, a := None)) (fh t ?i) (xs @ ys) None"
      using c [of us] c [of ys] g(2) ys d(1) ab snoc by (auto simp: chain_append)
    have "shape (free_foo a ?t) (cs(?i := xs @ ys))"
      unfolding shape_def
    proof (intro allI conjI)
      fix k
      show "chain (foos (free_foo a ?t)) (fh (free_foo a ?t) k) ((cs(?i := xs @ ys)) k) None"
        using c [OF other, of k] bs [of k] ch assms(1) by (auto simp: free_foo_def shape_def)
      show "distinct ((cs(?i := xs @ ys)) k)" using assms(1) d(1) by (auto simp: shape_def)
      show "e \<in> set ((cs(?i := xs @ ys)) k) \<longleftrightarrow> (\<exists>f. foos (free_foo a ?t) e = Some f \<and> HASH (f_id f) = k)" for e
      proof -
        have "e \<in> set (cs k) \<longleftrightarrow> (\<exists>f. foos t e = Some f \<and> HASH (f_id f) = k)" using assms(1) by (simp add: shape_def)
        then show ?thesis using xy d(1) other [of k] ab g(1) by (auto simp: free_foo_def)
      qed
    qed
    then show ?thesis using u rm g(1) by auto
  qed
qed

section \<open>What the operations promise\<close>

datatype call = Alloc nat "32 word" | Hold nat | Find "32 word" | Rele nat

text \<open>
  A call is allowed for a thread that holds a reference (\<open>Hold\<close>, \<open>Rele\<close>), with a fresh address from
  \<open>malloc\<close> (\<open>Alloc\<close>), and as long as no count overflows.
\<close>

fun may :: "call \<Rightarrow> refs \<Rightarrow> bool" where
  "may (Alloc a i) R \<longleftrightarrow> R a = None"
| "may (Hold a) R \<longleftrightarrow> (\<exists>i n. R a = Some (i, n) \<and> n < MAXREF)"
| "may (Find i) R \<longleftrightarrow> (\<forall>a n. R a = Some (i, n) \<longrightarrow> n < MAXREF)"
| "may (Rele a) R \<longleftrightarrow> R a \<noteq> None"

text \<open>The result of a call and the references after it.\<close>

fun spec :: "call \<Rightarrow> refs \<Rightarrow> nat option \<Rightarrow> refs \<Rightarrow> bool" where
  "spec (Alloc a i) R r R' \<longleftrightarrow> r = Some a \<and> R' = R(a \<mapsto> (i, 1))"
| "spec (Hold a) R r R' \<longleftrightarrow> r = Some a \<and> (\<exists>i n. R a = Some (i, n) \<and> R' = R(a \<mapsto> (i, Suc n)))"
| "spec (Find i) R r R' \<longleftrightarrow> (case r of
       None \<Rightarrow> R' = R \<and> (\<forall>a n. R a \<noteq> Some (i, n))
     | Some a \<Rightarrow> \<exists>n. R a = Some (i, n) \<and> R' = R(a \<mapsto> (i, Suc n)))"
| "spec (Rele a) R r R' \<longleftrightarrow> r = None \<and> (\<exists>i n. R a = Some (i, n)
     \<and> R' = (if n = 1 then R(a := None) else R(a \<mapsto> (i, n - 1))))"

type_synonym ops = "(nat option \<Rightarrow> bool \<Rightarrow> 32 word \<Rightarrow> table \<Rightarrow> nat option \<times> table)
  \<times> (nat \<Rightarrow> table \<Rightarrow> table option) \<times> (32 word \<Rightarrow> table \<Rightarrow> (nat option \<times> table) option) \<times> (nat \<Rightarrow> table \<Rightarrow> table option)"

fun do_call :: "ops \<Rightarrow> call \<Rightarrow> table \<Rightarrow> (nat option \<times> table) option" where
  "do_call (al, ho, fi, re) (Alloc a i) t = Some (al (Some a) True i t)"
| "do_call (al, ho, fi, re) (Hold a) t = map_option (Pair (Some a)) (ho a t)"
| "do_call (al, ho, fi, re) (Find i) t = fi i t"
| "do_call (al, ho, fi, re) (Rele a) t = map_option (Pair None) (re a t)"

fun do_calls :: "ops \<Rightarrow> call list \<Rightarrow> table \<Rightarrow> (nat option list \<times> table) option" where
  "do_calls p [] t = Some ([], t)"
| "do_calls p (c # cs) t = do { (r, t) \<leftarrow> do_call p c t; (rs, t) \<leftarrow> do_calls p cs t; Some (r # rs, t) }"

text \<open>A sequence of calls, each allowed whatever the calls before it answered.\<close>

fun mays :: "call list \<Rightarrow> refs \<Rightarrow> bool" where
  "mays [] R \<longleftrightarrow> True"
| "mays (c # cs) R \<longleftrightarrow> may c R \<and> (\<forall>r R'. spec c R r R' \<longrightarrow> mays cs R')"

fun specs :: "call list \<Rightarrow> refs \<Rightarrow> nat option list \<Rightarrow> refs \<Rightarrow> bool" where
  "specs [] R rs R' \<longleftrightarrow> rs = [] \<and> R' = R"
| "specs (c # cs) R rs R' \<longleftrightarrow> (\<exists>r rs1 R1. rs = r # rs1 \<and> spec c R r R1 \<and> specs cs R1 rs1 R')"

locale refcount =
  fixes hold :: "nat \<Rightarrow> table \<Rightarrow> table option"
    and find :: "32 word \<Rightarrow> table \<Rightarrow> (nat option \<times> table) option"
    and rele :: "nat \<Rightarrow> table \<Rightarrow> table option"
  assumes hold_law: "rep t R \<Longrightarrow> may (Hold a) R \<Longrightarrow> \<exists>t' R'. hold a t = Some t' \<and> spec (Hold a) R (Some a) R' \<and> rep t' R'"
    and find_law: "rep t R \<Longrightarrow> may (Find i) R \<Longrightarrow> \<exists>r t' R'. find i t = Some (r, t') \<and> spec (Find i) R r R' \<and> rep t' R'"
    and rele_law: "rep t R \<Longrightarrow> may (Rele a) R \<Longrightarrow> \<exists>t' R'. rele a t = Some t' \<and> spec (Rele a) R None R' \<and> rep t' R'"

lemma alloc_rep:
  assumes "rep t R" and "R a = None"
  shows "\<exists>t'. foo_alloc (Some a) True i t = (Some a, t') \<and> rep t' (R(a \<mapsto> (i, 1)))"
proof -
  obtain cs where cs: "shape t cs" "counts t R" using assms(1) by (auto simp: rep_def)
  have "count_at (foos t a) (R a)" using cs(2) by (simp add: counts_def)
  then have na: "foos t a = None" using assms(2) by (auto simp: count_at_def split: option.splits)
  have "counts (t\<lparr>foos := (foos t)(a \<mapsto> \<lparr>f_count = 1, f_id = i, f_next = fh t (HASH i)\<rparr>), fh := (fh t)(HASH i := Some a)\<rparr>) (R(a \<mapsto> (i, 1)))"
    using counts_upd [OF cs(2)] by (simp add: count_at_def MAXREF_def)
  then show ?thesis using shape_alloc [OF cs(1) na] by (auto simp: foo_alloc_def rep_def)
qed

context refcount
begin

lemma call_refines:
  assumes "rep t R" and "may c R"
  shows "\<exists>r t' R'. do_call (foo_alloc, hold, find, rele) c t = Some (r, t') \<and> spec c R r R' \<and> rep t' R'"
proof (cases c)
  case (Alloc a i)
  then show ?thesis using alloc_rep [OF assms(1), of a i] assms(2) by force
next
  case (Hold a)
  then show ?thesis using hold_law [OF assms(1), of a] assms(2) by force
next
  case (Find i)
  then show ?thesis using find_law [OF assms(1), of i] assms(2) by force
next
  case (Rele a)
  then show ?thesis using rele_law [OF assms(1), of a] assms(2) by force
qed

lemma calls_refine:
  assumes "rep t R" and "mays cs R"
  shows "\<exists>rs t' R'. do_calls (foo_alloc, hold, find, rele) cs t = Some (rs, t') \<and> specs cs R rs R' \<and> rep t' R'"
  using assms
proof (induction cs arbitrary: t R)
  case (Cons c cs)
  from Cons.prems(2) have "may c R" by simp
  from call_refines [OF Cons.prems(1) this] obtain r t1 R1
    where "do_call (foo_alloc, hold, find, rele) c t = Some (r, t1)" "spec c R r R1" "rep t1 R1" by auto
  with Cons.IH [of t1 R1] Cons.prems(2) show ?case by fastforce
qed auto

end

section \<open>The laws of the shared parts\<close>

lemma counts_at: "counts t R \<Longrightarrow> R a = Some (i, n) \<Longrightarrow> \<exists>f. foos t a = Some f \<and> f_id f = i \<and> f_count f = of_nat n \<and> 0 < n \<and> n \<le> MAXREF"
proof -
  assume "counts t R" "R a = Some (i, n)"
  then have "count_at (foos t a) (Some (i, n))" by (metis counts_def)
  then show ?thesis by (auto simp: count_at_def split: option.splits)
qed

lemma count_word: "n \<le> MAXREF \<Longrightarrow> (of_nat n :: 32 word) = 1 \<longleftrightarrow> n = 1"
  using word_of_nat_eq_iff [of n 1, where 'a = 32] by (simp add: MAXREF_def take_bit_nat_eq_self)

lemma set_count_rep:
  assumes "rep t R" and "R a = Some (i, n)" and "foos t a = Some f" and "0 < m" and "m \<le> MAXREF"
  shows "rep (t\<lparr>foos := (foos t)(a \<mapsto> f\<lparr>f_count := of_nat m\<rparr>)\<rparr>) (R(a \<mapsto> (i, m)))"
proof -
  obtain cs where cs: "shape t cs" "counts t R" using assms(1) by (auto simp: rep_def)
  have "f_id f = i" using counts_at [OF cs(2) assms(2)] assms(3) by auto
  then have "counts (t\<lparr>foos := (foos t)(a \<mapsto> f\<lparr>f_count := of_nat m\<rparr>)\<rparr>) (R(a \<mapsto> (i, m)))"
    using counts_upd [OF cs(2)] assms(4,5) by (simp add: count_at_def)
  then show ?thesis using shape_count [OF cs(1) assms(3)] by (auto simp: rep_def)
qed

lemma add_count_rep:
  assumes "rep t R" and "R a = Some (i, n)" and "n < MAXREF"
  shows "\<exists>t'. add_count a 1 t = Some t' \<and> rep t' (R(a \<mapsto> (i, Suc n)))"
proof -
  obtain f where f: "foos t a = Some f" "f_count f = of_nat n"
    using counts_at [of t R a i n] assms by (auto simp: rep_def)
  have "f_count f + 1 = of_nat (Suc n)" using f(2) by simp
  with set_count_rep [OF assms(1,2) f(1), of "Suc n"] assms(3) f show ?thesis
    by (simp add: add_count_def put_foo_def add.commute)
qed

lemma sub_count_rep:
  assumes "rep t R" and "R a = Some (i, n)" and "n \<noteq> 1"
  shows "\<exists>t'. add_count a (-1) t = Some t' \<and> rep t' (R(a \<mapsto> (i, n - 1))) \<and> (\<exists>f. foos t' a = Some f \<and> f_count f = of_nat (n - 1))"
proof -
  obtain f where f: "foos t a = Some f" "f_count f = of_nat n" "0 < n" "n \<le> MAXREF"
    using counts_at [of t R a i n] assms by (auto simp: rep_def)
  have "f_count f - 1 = of_nat (n - 1)" using f(2,3) by (simp add: of_nat_diff)
  with set_count_rep [OF assms(1,2) f(1), of "n - 1"] assms(3) f(1,3,4) show ?thesis
    by (simp add: add_count_def put_foo_def)
qed

lemma last_rep:
  assumes "rep t R" and "R a = Some (i, n)"
  shows "\<exists>t'. unlink_foo a t = Some t' \<and> rep (free_foo a t') (R(a := None))"
proof -
  obtain cs where cs: "shape t cs" "counts t R" using assms(1) by (auto simp: rep_def)
  obtain f where f: "foos t a = Some f" using counts_at [OF cs(2) assms(2)] by blast
  from shape_unlink [OF cs(1) f] obtain t' where
    t': "unlink_foo a t = Some t'" "shape (free_foo a t') (cs(HASH (f_id f) := remove1 a (cs (HASH (f_id f)))))"
    "\<And>b. b \<noteq> a \<Longrightarrow> map_option (\<lambda>g. (f_id g, f_count g)) (foos t' b) = map_option (\<lambda>g. (f_id g, f_count g)) (foos t b)" by blast
  have "counts (free_foo a t') (R(a := None))"
    unfolding counts_def
  proof
    fix b
    have "count_at (foos t' b) (R b)" if "b \<noteq> a"
    proof -
      have "count_at (foos t b) (R b)" using cs(2) by (simp add: counts_def)
      then show ?thesis using t'(3) [OF that] by (auto simp: count_at_def split: option.splits)
    qed
    then show "count_at (foos (free_foo a t') b) ((R(a := None)) b)" by (simp add: free_foo_def count_at_def)
  qed
  then show ?thesis using t'(1,2) by (auto simp: rep_def)
qed

lemma search_rep:
  assumes "rep t R"
  shows "\<exists>r. search i (fh t (HASH i)) t = Some r
    \<and> (case r of None \<Rightarrow> \<forall>a n. R a \<noteq> Some (i, n) | Some a \<Rightarrow> \<exists>n. R a = Some (i, n))"
proof -
  obtain cs where cs: "shape t cs" "counts t R" using assms by (auto simp: rep_def)
  let ?P = "\<lambda>a. map_option f_id (foos t a) = Some i" and ?xs = "cs (HASH i)"
  have "search i (fh t (HASH i)) t = Some (List.find ?P ?xs)"
    using search_chain [of t _ ?xs i] cs(1) by (auto simp: shape_def)
  moreover have "case List.find ?P ?xs of None \<Rightarrow> \<forall>a n. R a \<noteq> Some (i, n) | Some a \<Rightarrow> \<exists>n. R a = Some (i, n)"
  proof (cases "List.find ?P ?xs")
    case None
    have "R a \<noteq> Some (i, n)" for a n
    proof
      assume "R a = Some (i, n)"
      with counts_at [OF cs(2)] obtain f where "foos t a = Some f" "f_id f = i" by blast
      with cs(1) None show False by (auto simp: find_None_iff shape_def)
    qed
    then show ?thesis using None by simp
  next
    case (Some a)
    then have "map_option f_id (foos t a) = Some i" by (auto simp: find_Some_iff)
    moreover have "count_at (foos t a) (R a)" using cs(2) by (simp add: counts_def)
    ultimately show ?thesis using Some by (auto simp: count_at_def split: option.splits)
  qed
  ultimately show ?thesis by blast
qed

end
