(* ===== verification/Foo_Mutex.thy ===== *)
theory Foo_Mutex
  imports Foo_Hash
begin

text \<open>
  The operations of \<open>apue.3e/threads/mutex2.c\<close> (a lock in every object) and \<open>mutex3.c\<close> (one lock for
  all).  \<open>foo_rele\<close> of the first gives up the lock of the object to take \<open>hashlock\<close>: it is two
  steps, \<open>rele_check\<close> and \<open>rele_last\<close>, between which other threads run.
\<close>

section \<open>mutex2.c\<close>

definition foo_hold :: "nat \<Rightarrow> table \<Rightarrow> table option" where
  "foo_hold fp t = add_count fp 1 t"

definition foo_find :: "32 word \<Rightarrow> table \<Rightarrow> (nat option \<times> table) option" where
  "foo_find i t = do {
     r \<leftarrow> search i (fh t (HASH i)) t;
     (case r of None \<Rightarrow> Some (None, t) | Some fp \<Rightarrow> do { t \<leftarrow> foo_hold fp t; Some (Some fp, t) }) }"

text \<open>Whether this is the last reference; if not, it is given back.\<close>

definition rele_check :: "nat \<Rightarrow> table \<Rightarrow> (bool \<times> table) option" where
  "rele_check fp t = do {
     f \<leftarrow> foos t fp;
     if f_count f = 1 then Some (True, t) else do { t \<leftarrow> add_count fp (-1) t; Some (False, t) } }"

definition rele_last :: "nat \<Rightarrow> table \<Rightarrow> table option" where
  "rele_last fp t = do {
     f \<leftarrow> foos t fp;
     if f_count f \<noteq> 1 then add_count fp (-1) t else do { t \<leftarrow> unlink_foo fp t; Some (free_foo fp t) } }"

definition foo_rele :: "nat \<Rightarrow> table \<Rightarrow> table option" where
  "foo_rele fp t = do { (lst, t) \<leftarrow> rele_check fp t; if lst then rele_last fp t else Some t }"

section \<open>mutex3.c\<close>

definition foo_hold_3 :: "nat \<Rightarrow> table \<Rightarrow> table option" where
  "foo_hold_3 fp t = add_count fp 1 t"

definition foo_find_3 :: "32 word \<Rightarrow> table \<Rightarrow> (nat option \<times> table) option" where
  "foo_find_3 i t = do {
     r \<leftarrow> search i (fh t (HASH i)) t;
     (case r of None \<Rightarrow> Some (None, t) | Some fp \<Rightarrow> do { t \<leftarrow> add_count fp 1 t; Some (Some fp, t) }) }"

definition foo_rele_3 :: "nat \<Rightarrow> table \<Rightarrow> table option" where
  "foo_rele_3 fp t = do {
     t \<leftarrow> add_count fp (-1) t;
     f \<leftarrow> foos t fp;
     if f_count f = 0 then do { t \<leftarrow> unlink_foo fp t; Some (free_foo fp t) } else Some t }"

section \<open>The laws\<close>

lemma rele_last_rep:
  assumes "rep t R" and "R a = Some (i, n)"
  shows "\<exists>t'. rele_last a t = Some t' \<and> rep t' (if n = 1 then R(a := None) else R(a \<mapsto> (i, n - 1)))"
proof -
  obtain f where f: "foos t a = Some f" "f_count f = of_nat n" "n \<le> MAXREF"
    using counts_at [of t R a i n] assms by (auto simp: rep_def)
  show ?thesis
  proof (cases "n = 1")
    case True
    then show ?thesis using last_rep [OF assms] f by (auto simp: rele_last_def)
  next
    case False
    then show ?thesis using sub_count_rep [OF assms False] f count_word [OF f(3)] by (auto simp: rele_last_def)
  qed
qed

lemma rele_check_rep:
  assumes "rep t R" and "R a = Some (i, n)"
  shows "\<exists>t'. rele_check a t = Some (n = 1, t') \<and> (if n = 1 then t' = t else rep t' (R(a \<mapsto> (i, n - 1))))"
proof -
  obtain f where f: "foos t a = Some f" "f_count f = of_nat n" "n \<le> MAXREF"
    using counts_at [of t R a i n] assms by (auto simp: rep_def)
  show ?thesis
  proof (cases "n = 1")
    case True
    then show ?thesis using f by (auto simp: rele_check_def)
  next
    case False
    then show ?thesis using sub_count_rep [OF assms False] f count_word [OF f(3)] by (auto simp: rele_check_def)
  qed
qed

lemma foo_rele_rep:
  assumes "rep t R" and "R a = Some (i, n)"
  shows "\<exists>t'. foo_rele a t = Some t' \<and> rep t' (if n = 1 then R(a := None) else R(a \<mapsto> (i, n - 1)))"
  using rele_check_rep [OF assms] rele_last_rep [OF assms] by (auto simp: foo_rele_def split: if_splits)

lemma find_rep:
  assumes "rep t R" and "may (Find i) R"
  shows "\<exists>r t' R'. foo_find i t = Some (r, t') \<and> spec (Find i) R r R' \<and> rep t' R'"
proof -
  from search_rep [OF assms(1)] obtain r where r: "search i (fh t (HASH i)) t = Some r"
    "case r of None \<Rightarrow> \<forall>a n. R a \<noteq> Some (i, n) | Some a \<Rightarrow> \<exists>n. R a = Some (i, n)" by blast
  show ?thesis
  proof (cases r)
    case None
    then show ?thesis using r assms(1) by (auto simp: foo_find_def)
  next
    case (Some a)
    then obtain n where n: "R a = Some (i, n)" using r(2) by auto
    then have "n < MAXREF" using assms(2) by simp
    from add_count_rep [OF assms(1) n this] show ?thesis using r n Some
      by (force simp: foo_find_def foo_hold_def)
  qed
qed

interpretation m2: refcount foo_hold foo_find foo_rele
proof (unfold_locales, goal_cases)
  case (1 t R a)
  then show ?case using add_count_rep [of t R a] by (fastforce simp: foo_hold_def)
next
  case (2 t R i)
  then show ?case by (rule find_rep)
next
  case (3 t R a)
  then obtain i n where "R a = Some (i, n)" by auto
  then show ?case using foo_rele_rep [OF 3(1)] by force
qed

text \<open>The count that \<open>mutex3.c\<close> has already decremented does not matter to the unlinking.\<close>

lemma before_count:
  assumes "chain (foos t) p xs None" and "\<And>x. map_option f_next (foos t' x) = map_option f_next (foos t x)"
  shows "before b p t' = before b p t"
  using assms(1)
proof (induction xs arbitrary: p)
  case Nil
  then show ?case by (simp add: before.simps)
next
  case (Cons x xs)
  then obtain g where g: "p = Some x" "foos t x = Some g" "chain (foos t) (f_next g) xs None" by auto
  obtain g' where g': "foos t' x = Some g'" "f_next g' = f_next g" using assms(2) [of x] g(2) by auto
  show ?case using Cons.IH [OF g(3)] g g' by (simp add: before.simps [of b "Some x"])
qed

lemma unlink_count:
  assumes "rep t R" and "foos t a = Some f"
  shows "map_option (free_foo a) (unlink_foo a (t\<lparr>foos := (foos t)(a \<mapsto> f\<lparr>f_count := n\<rparr>)\<rparr>))
    = map_option (free_foo a) (unlink_foo a t)"
proof -
  let ?t = "t\<lparr>foos := (foos t)(a \<mapsto> f\<lparr>f_count := n\<rparr>)\<rparr>"
  obtain cs where "shape t cs" using assms(1) by (auto simp: rep_def)
  then have c: "chain (foos t) (fh t (HASH (f_id f))) (cs (HASH (f_id f))) None" by (simp add: shape_def)
  have b: "before a (fh t (HASH (f_id f))) ?t = before a (fh t (HASH (f_id f))) t"
    by (rule before_count [OF c]) (simp add: assms(2))
  have put: "map_option (free_foo a) (put_foo p g ?t) = map_option (free_foo a) (put_foo p g t)" for p g
  proof (cases "p = a")
    case True
    then show ?thesis using assms(2) by (simp add: put_foo_def free_foo_def)
  next
    case False
    then have "((foos t)(a \<mapsto> f\<lparr>f_count := n\<rparr>, p \<mapsto> x))(a := None) = ((foos t)(p \<mapsto> x))(a := None)" for x
      by (simp add: fun_upd_twist)
    then show ?thesis using False by (cases "foos t p") (simp_all add: put_foo_def free_foo_def)
  qed
  show ?thesis
  proof (cases "fh t (HASH (f_id f)) = Some a")
    case True
    then show ?thesis using assms(2) by (simp add: unlink_foo_def free_foo_def)
  next
    case False
    then show ?thesis using assms(2) b put by (cases "before a (fh t (HASH (f_id f))) t") (simp_all add: unlink_foo_def)
  qed
qed

lemma rele_same:
  assumes "rep t R" and "R a = Some (i, n)"
  shows "foo_rele_3 a t = foo_rele a t"
proof -
  obtain f where f: "foos t a = Some f" "f_count f = of_nat n" "n \<le> MAXREF" "0 < n"
    using counts_at [of t R a i n] assms by (auto simp: rep_def)
  have z: "f_count f - 1 = 0 \<longleftrightarrow> f_count f = 1" by simp
  show ?thesis
  proof (cases "n = 1")
    case True
    then show ?thesis using f unlink_count [OF assms(1) f(1), of 0]
      by (simp add: foo_rele_3_def foo_rele_def rele_check_def rele_last_def add_count_def put_foo_def
          map_option_case split: option.splits)
  next
    case False
    then have "f_count f \<noteq> 1" using f(2) count_word [OF f(3)] by simp
    then show ?thesis using f z
      by (simp add: foo_rele_3_def foo_rele_def rele_check_def add_count_def put_foo_def)
  qed
qed

interpretation m3: refcount foo_hold_3 foo_find_3 foo_rele_3
proof (unfold_locales, goal_cases)
  case (1 t R a)
  then show ?case using m2.hold_law by (simp add: foo_hold_3_def foo_hold_def)
next
  case (2 t R i)
  have "foo_find_3 i t = foo_find i t" by (simp only: foo_find_3_def foo_find_def foo_hold_def)
  then show ?case using m2.find_law [OF 2] by simp
next
  case (3 t R a)
  then obtain i n where n: "R a = Some (i, n)" by auto
  show ?case unfolding rele_same [OF 3(1) n] using m2.rele_law 3 by simp
qed

lemma calls_same:
  assumes "rep t R" and "mays cs R"
  shows "do_calls (foo_alloc, foo_hold, foo_find, foo_rele) cs t = do_calls (foo_alloc, foo_hold_3, foo_find_3, foo_rele_3) cs t"
  using assms
proof (induction cs arbitrary: t R)
  case (Cons c cs)
  have c: "do_call (foo_alloc, foo_hold, foo_find, foo_rele) c t = do_call (foo_alloc, foo_hold_3, foo_find_3, foo_rele_3) c t"
  proof (cases c)
    case (Rele a)
    then obtain i n where "R a = Some (i, n)" using Cons.prems(2) by auto
    then show ?thesis using rele_same [OF Cons.prems(1)] Rele by simp
  next
    case (Find i)
    have "foo_find_3 i t = foo_find i t" by (simp only: foo_find_3_def foo_find_def foo_hold_def)
    then show ?thesis using Find by simp
  qed (simp_all add: foo_hold_def foo_hold_3_def)
  have "may c R" using Cons.prems(2) by simp
  from m2.call_refines [OF Cons.prems(1) this] obtain r t1 R1 where
    r: "do_call (foo_alloc, foo_hold, foo_find, foo_rele) c t = Some (r, t1)" "spec c R r R1" "rep t1 R1" by auto
  have "mays cs R1" using Cons.prems(2) r(2) by auto
  from Cons.IH [OF r(3) this] show ?case using r(1) c by (simp add: Option.bind_def)
qed simp

section \<open>Threads\<close>

text \<open>
  Threads that hold references to objects (\<open>s_held\<close>: how many for each), or are between
  \<open>rele_check\<close> and \<open>rele_last\<close> (\<open>s_pend\<close>).  A step is what a thread does while it holds a lock.
\<close>

record threads =
  s_tab :: table
  s_held :: "nat \<Rightarrow> nat"
  s_pend :: "nat \<Rightarrow> nat"

definition no_foos :: table where
  "no_foos = \<lparr>foos = \<lambda>_. None, fh = \<lambda>_. None\<rparr>"

definition no_threads :: threads where
  "no_threads = \<lparr>s_tab = no_foos, s_held = \<lambda>_. 0, s_pend = \<lambda>_. 0\<rparr>"

definition refs_of :: "threads \<Rightarrow> (nat \<Rightarrow> 32 word) \<Rightarrow> refs" where
  "refs_of s ids a = (let n = s_held s a + s_pend s a in if n = 0 then None else Some (ids a, n))"

inductive tstep :: "threads \<Rightarrow> threads \<Rightarrow> bool" where
  t_alloc: "foos (s_tab s) a = None \<Longrightarrow> foo_alloc (Some a) True i (s_tab s) = (Some a, t) \<Longrightarrow>
     tstep s (s\<lparr>s_tab := t, s_held := (s_held s)(a := 1)\<rparr>)"
| t_hold: "0 < s_held s a \<Longrightarrow> s_held s a + s_pend s a < MAXREF \<Longrightarrow> foo_hold a (s_tab s) = Some t \<Longrightarrow>
     tstep s (s\<lparr>s_tab := t, s_held := (s_held s)(a := s_held s a + 1)\<rparr>)"
| t_find: "(\<And>a. s_held s a + s_pend s a < MAXREF) \<Longrightarrow> foo_find i (s_tab s) = Some (r, t) \<Longrightarrow>
     tstep s (s\<lparr>s_tab := t, s_held := (case r of None \<Rightarrow> s_held s | Some a \<Rightarrow> (s_held s)(a := s_held s a + 1))\<rparr>)"
| t_check: "0 < s_held s a \<Longrightarrow> rele_check a (s_tab s) = Some (lst, t) \<Longrightarrow>
     tstep s (s\<lparr>s_tab := t, s_held := (s_held s)(a := s_held s a - 1),
       s_pend := (if lst then (s_pend s)(a := s_pend s a + 1) else s_pend s)\<rparr>)"
| t_last: "0 < s_pend s a \<Longrightarrow> rele_last a (s_tab s) = Some t \<Longrightarrow>
     tstep s (s\<lparr>s_tab := t, s_pend := (s_pend s)(a := s_pend s a - 1)\<rparr>)"

inductive_cases tstepE: "tstep s s'"

definition threads_ok :: "threads \<Rightarrow> bool" where
  "threads_ok s \<longleftrightarrow> (\<exists>ids. rep (s_tab s) (refs_of s ids))"

lemma refs_of_upd:
  "refs_of (s\<lparr>s_tab := t, s_held := (s_held s)(a := n)\<rparr>) ids = (refs_of s ids)(a := (if n + s_pend s a = 0 then None else Some (ids a, n + s_pend s a)))"
  "refs_of (s\<lparr>s_tab := t, s_pend := (s_pend s)(a := n)\<rparr>) ids = (refs_of s ids)(a := (if s_held s a + n = 0 then None else Some (ids a, s_held s a + n)))"
  "refs_of (s\<lparr>s_tab := t\<rparr>) ids = refs_of s ids"
  by (auto simp: refs_of_def fun_eq_iff)

lemma refs_of_at: "s_held s a + s_pend s a = n \<Longrightarrow> 0 < n \<Longrightarrow> refs_of s ids a = Some (ids a, n)"
  by (auto simp: refs_of_def)

lemma rep_free: "rep t R \<Longrightarrow> foos t a = None \<longleftrightarrow> R a = None"
proof -
  assume "rep t R"
  then have "count_at (foos t a) (R a)" by (simp add: rep_def counts_def)
  then show ?thesis by (auto simp: count_at_def split: option.splits)
qed

lemma threads_okI: "rep t R \<Longrightarrow> refs_of s' ids = R \<Longrightarrow> s_tab s' = t \<Longrightarrow> threads_ok s'"
  by (auto simp: threads_ok_def)

lemma held_pos:
  assumes "foos (s_tab s) a = Some f" and "threads_ok s"
  shows "0 < s_held s a + s_pend s a"
proof -
  obtain ids where r: "rep (s_tab s) (refs_of s ids)" using assms(2) by (auto simp: threads_ok_def)
  then have "refs_of s ids a \<noteq> None" using rep_free [OF r, of a] assms(1) by simp
  then show ?thesis by (auto simp: refs_of_def Let_def split: if_splits)
qed

lemma tstep_ok:
  assumes "threads_ok s" and "tstep s s'"
  shows "threads_ok s'"
proof -
  from assms(1) obtain ids where r: "rep (s_tab s) (refs_of s ids)" by (auto simp: threads_ok_def)
  from assms(2) show ?thesis
  proof cases
    case (t_alloc a i t)
    then have R: "refs_of s ids a = None" using rep_free [OF r] by simp
    then have z: "s_held s a = 0" "s_pend s a = 0" by (simp_all add: refs_of_def Let_def split: if_splits)
    have "rep t ((refs_of s ids)(a \<mapsto> (i, 1)))" using alloc_rep [OF r R, of i] t_alloc(3) by auto
    moreover have "refs_of s' (ids(a := i)) = (refs_of s ids)(a \<mapsto> (i, 1))"
      using z unfolding t_alloc(1) by (auto simp: refs_of_def fun_eq_iff)
    ultimately show ?thesis by (rule threads_okI) (simp add: t_alloc(1))
  next
    case (t_hold a t)
    have "refs_of s ids a = Some (ids a, s_held s a + s_pend s a)" by (rule refs_of_at) (use t_hold(2) in auto)
    from add_count_rep [OF r this t_hold(3)] t_hold(4)
    have "rep t ((refs_of s ids)(a \<mapsto> (ids a, Suc (s_held s a + s_pend s a))))" by (simp add: foo_hold_def)
    moreover have "refs_of s' ids = (refs_of s ids)(a \<mapsto> (ids a, Suc (s_held s a + s_pend s a)))"
      unfolding t_hold(1) refs_of_upd by simp
    ultimately show ?thesis by (rule threads_okI) (simp add: t_hold(1))
  next
    case (t_find i q t)
    have "n < MAXREF" if "refs_of s ids b = Some (j, n)" for b j n
      using that t_find(2) [of b] by (auto simp: refs_of_def Let_def split: if_splits)
    then have "may (Find i) (refs_of s ids)" by auto
    from find_rep [OF r this] t_find(3) obtain R' where R': "spec (Find i) (refs_of s ids) q R'" "rep t R'" by auto
    show ?thesis
    proof (cases q)
      case None
      then have "refs_of s' ids = R'" using R'(1) t_find(1) by (simp add: refs_of_upd)
      from R'(2) this show ?thesis by (rule threads_okI) (simp add: t_find(1))
    next
      case (Some b)
      then obtain n where n: "refs_of s ids b = Some (i, n)" "R' = (refs_of s ids)(b \<mapsto> (i, Suc n))" using R'(1) by auto
      then have "i = ids b" "n = s_held s b + s_pend s b" by (auto simp: refs_of_def Let_def split: if_splits)
      then have "refs_of s' ids = R'" using n(2) t_find(1) Some by (simp add: refs_of_upd)
      from R'(2) this show ?thesis by (rule threads_okI) (simp add: t_find(1))
    qed
  next
    case (t_check a lst t)
    let ?n = "s_held s a + s_pend s a"
    have a: "refs_of s ids a = Some (ids a, ?n)" by (rule refs_of_at) (use t_check(2) in auto)
    from rele_check_rep [OF r a] t_check(3) have c: "lst = (?n = 1)" "if ?n = 1 then t = s_tab s else rep t ((refs_of s ids)(a \<mapsto> (ids a, ?n - 1)))"
      by auto
    show ?thesis
    proof (cases lst)
      case True
      then have "refs_of s' ids = refs_of s ids" using t_check(1,2) c(1) by (auto simp: refs_of_def fun_eq_iff)
      from r this show ?thesis by (rule threads_okI) (use t_check(1) c True in auto)
    next
      case False
      then have R: "rep t ((refs_of s ids)(a \<mapsto> (ids a, ?n - 1)))" using c by simp
      have "s_held s a - 1 + s_pend s a = ?n - 1" "?n - 1 \<noteq> 0" using t_check(2) False c(1) by auto
      then have "refs_of s' ids = (refs_of s ids)(a \<mapsto> (ids a, ?n - 1))"
        unfolding t_check(1) using False by (simp add: refs_of_upd)
      from R this show ?thesis by (rule threads_okI) (use t_check(1) in simp)
    qed
  next
    case (t_last a t)
    let ?n = "s_held s a + s_pend s a"
    have a: "refs_of s ids a = Some (ids a, ?n)" by (rule refs_of_at) (use t_last(2) in auto)
    from rele_last_rep [OF r a] t_last(3)
    have R: "rep t (if ?n = 1 then (refs_of s ids)(a := None) else (refs_of s ids)(a \<mapsto> (ids a, ?n - 1)))" by simp
    have "s_held s a + (s_pend s a - 1) = ?n - 1" using t_last(2) by simp
    then have "refs_of s' ids = (if ?n = 1 then (refs_of s ids)(a := None) else (refs_of s ids)(a \<mapsto> (ids a, ?n - 1)))"
      unfolding t_last(1) refs_of_upd using t_last(2) by auto
    from R this show ?thesis by (rule threads_okI) (use t_last(1) in simp)
  qed
qed

lemma no_foos_rep: "rep no_foos (\<lambda>_. None)"
  by (auto simp: rep_def no_foos_def shape_def counts_def count_at_def intro: exI [of _ "\<lambda>_. []"])

lemma threads_run_ok: "tstep\<^sup>*\<^sup>* no_threads s \<Longrightarrow> threads_ok s"
proof (induction rule: rtranclp_induct)
  case base
  have "refs_of no_threads (\<lambda>_. 0) = (\<lambda>_. None)" by (simp add: refs_of_def no_threads_def fun_eq_iff)
  then show ?case using no_foos_rep by (intro threads_okI [of no_foos "\<lambda>_. None" _ "\<lambda>_. 0"]) (simp_all add: no_threads_def)
qed (rule tstep_ok)

section \<open>Properties\<close>

text \<open>
  C7.  One lock for all does the same as a lock in every object: from an empty table, every
  sequence of calls by threads that hold what they use runs through in both programs (no pointer
  to a freed object is followed, no walk misses its end) with the same answers and the same
  table, and the answers are those of a plain map from objects to numbers and reference counts,
  in which an object disappears with its last reference.
\<close>

theorem foo_mutex_agree:
  assumes "mays cs (\<lambda>_. None)"
  shows "\<exists>rs t R. do_calls (foo_alloc, foo_hold, foo_find, foo_rele) cs no_foos = Some (rs, t)
    \<and> do_calls (foo_alloc, foo_hold_3, foo_find_3, foo_rele_3) cs no_foos = Some (rs, t)
    \<and> specs cs (\<lambda>_. None) rs R \<and> (\<forall>a. foos t a = None \<longleftrightarrow> R a = None)"
proof -
  from m2.calls_refine [OF no_foos_rep assms] obtain rs t R where
    r: "do_calls (foo_alloc, foo_hold, foo_find, foo_rele) cs no_foos = Some (rs, t)" "specs cs (\<lambda>_. None) rs R" "rep t R" by blast
  with calls_same [OF no_foos_rep assms] rep_free [OF r(3)] show ?thesis by (intro exI [of _ rs] exI [of _ t] exI [of _ R]) simp
qed

theorem foo_mutex_agree_witness:
  "\<exists>rs t R. do_calls (foo_alloc, foo_hold, foo_find, foo_rele) [Alloc 100 7, Find 7, Rele 100, Rele 100, Find 7] no_foos = Some (rs, t)
    \<and> specs [Alloc 100 7, Find 7, Rele 100, Rele 100, Find 7] (\<lambda>_. None) rs R \<and> rs = [Some 100, Some 100, None, None, None] \<and> foos t 100 = None"
proof -
  let ?cs = "[Alloc 100 7, Find 7, Rele 100, Rele 100, Find 7]"
  have f: "spec (Find 7) [100 \<mapsto> (7, 1)] r R' \<longleftrightarrow> r = Some 100 \<and> R' = [100 \<mapsto> (7, 2)]" for r R'
    by (auto split: option.splits if_splits)
  have e: "spec (Find 7) (\<lambda>_. None) r R' \<longleftrightarrow> r = None \<and> R' = (\<lambda>_. None)" for r R'
    by (auto split: option.splits)
  have m: "mays ?cs (\<lambda>_. None)"
    using f e by (simp add: MAXREF_def del: spec.simps(3))
  have sp: "specs ?cs (\<lambda>_. None) rs R \<longleftrightarrow> rs = [Some 100, Some 100, None, None, None] \<and> R = (\<lambda>_. None)" for rs R
    using f e by (auto simp del: spec.simps(3))
  from foo_mutex_agree [OF m] sp show ?thesis by force
qed

text \<open>
  C8.  \<open>foo_rele\<close> of \<open>mutex2.c\<close> is safe although it drops the lock of the object between looking
  at the count and taking \<open>hashlock\<close>: in every interleaving of threads, an object is in memory
  exactly while a thread holds a reference or is between the two steps, its count is the number
  of both, and every operation of a thread that holds what it uses is defined, whatever the other
  threads did in between; a search ends and finds an object with the number if there is one.
\<close>

theorem foo_threads_safe:
  assumes "tstep\<^sup>*\<^sup>* no_threads s"
  shows "(\<forall>a. foos (s_tab s) a \<noteq> None \<longleftrightarrow> 0 < s_held s a + s_pend s a)
    \<and> (\<forall>a f. foos (s_tab s) a = Some f \<longrightarrow> f_count f = of_nat (s_held s a + s_pend s a))
    \<and> (\<forall>a. 0 < s_held s a \<longrightarrow> foo_hold a (s_tab s) \<noteq> None \<and> rele_check a (s_tab s) \<noteq> None)
    \<and> (\<forall>a. 0 < s_pend s a \<longrightarrow> rele_last a (s_tab s) \<noteq> None)
    \<and> (\<forall>i. \<exists>r t. foo_find i (s_tab s) = Some (r, t)
         \<and> (r = None \<longleftrightarrow> (\<forall>a f. foos (s_tab s) a = Some f \<longrightarrow> f_id f \<noteq> i)))"
proof -
  obtain ids where r: "rep (s_tab s) (refs_of s ids)" using threads_run_ok [OF assms] by (auto simp: threads_ok_def)
  have at: "refs_of s ids a = Some (ids a, s_held s a + s_pend s a)" if "0 < s_held s a + s_pend s a" for a
    using refs_of_at [OF refl that] .
  have mem: "foos (s_tab s) a \<noteq> None \<longleftrightarrow> 0 < s_held s a + s_pend s a" for a
    using rep_free [OF r, of a] by (auto simp: refs_of_def Let_def)
  have cnt: "f_count f = of_nat (s_held s a + s_pend s a) \<and> f_id f = ids a" if "foos (s_tab s) a = Some f" for a f
  proof -
    have "0 < s_held s a + s_pend s a" using mem [of a] that by simp
    from at [OF this] have "refs_of s ids a = Some (ids a, s_held s a + s_pend s a)" .
    moreover have "counts (s_tab s) (refs_of s ids)" using r by (simp add: rep_def)
    ultimately show ?thesis using counts_at [of "s_tab s" "refs_of s ids" a] that by fastforce
  qed
  have hold: "foo_hold a (s_tab s) \<noteq> None \<and> rele_check a (s_tab s) \<noteq> None" if "0 < s_held s a" for a
  proof -
    have "foos (s_tab s) a \<noteq> None" using mem that by simp
    moreover have "rele_check a (s_tab s) \<noteq> None" using rele_check_rep [OF r at, of a] that by auto
    ultimately show ?thesis by (auto simp: foo_hold_def add_count_def put_foo_def)
  qed
  have lst: "rele_last a (s_tab s) \<noteq> None" if "0 < s_pend s a" for a
    using rele_last_rep [OF r at, of a] that by auto
  have find: "\<exists>q t. foo_find i (s_tab s) = Some (q, t) \<and> (q = None \<longleftrightarrow> (\<forall>a f. foos (s_tab s) a = Some f \<longrightarrow> f_id f \<noteq> i))" for i
  proof -
    from search_rep [OF r] obtain q where q: "search i (fh (s_tab s) (HASH i)) (s_tab s) = Some q"
      "case q of None \<Rightarrow> \<forall>a n. refs_of s ids a \<noteq> Some (i, n) | Some a \<Rightarrow> \<exists>n. refs_of s ids a = Some (i, n)" by blast
    show ?thesis
    proof (cases q)
      case None
      have "f_id f \<noteq> i" if "foos (s_tab s) a = Some f" for a f
      proof -
        have "0 < s_held s a + s_pend s a" using mem [of a] that by simp
        then show ?thesis using at cnt [OF that] q(2) None by force
      qed
      then show ?thesis using q None by (auto simp: foo_find_def)
    next
      case (Some a)
      then have "refs_of s ids a \<noteq> None" using q(2) by auto
      then obtain f where f: "foos (s_tab s) a = Some f" using rep_free [OF r, of a] by auto
      have "0 < s_held s a + s_pend s a" using mem [of a] f by simp
      then have "f_id f = i" using at [of a] cnt [OF f] q(2) Some by auto
      then show ?thesis using q Some f by (auto simp: foo_find_def foo_hold_def add_count_def put_foo_def)
    qed
  qed
  show ?thesis using mem cnt hold lst find by blast
qed

text \<open>
  Two threads: the first finds that it has the last reference; before it takes \<open>hashlock\<close> the second
  finds the object, so the first only decrements the count.
\<close>

theorem foo_threads_safe_witness:
  "\<exists>s f. tstep\<^sup>*\<^sup>* no_threads s \<and> s_held s 100 = 1 \<and> s_pend s 100 = 0 \<and> foos (s_tab s) 100 = Some f \<and> f_count f = 1"
proof -
  let ?t = "\<lambda>n. \<lparr>foos = [100 \<mapsto> \<lparr>f_count = n, f_id = 7, f_next = None\<rparr>], fh = [7 \<mapsto> 100]\<rparr>"
  let ?s = "\<lambda>n h p. \<lparr>s_tab = ?t n, s_held = (\<lambda>_. 0)(100 := h), s_pend = (\<lambda>_. 0)(100 := p)\<rparr>"
  have hash: "HASH 7 = 7" by (simp add: HASH_def NHASH_def)
  have 1: "tstep no_threads (?s 1 1 0)"
    using t_alloc [of no_threads 100 7 "?t 1"] by (simp add: no_threads_def no_foos_def foo_alloc_def hash fun_upd_idem)
  have 2: "tstep (?s 1 1 0) (?s 1 0 1)"
    using t_check [of "?s 1 1 0" 100 True "?t 1"] by (simp add: rele_check_def)
  have srch: "search 7 (Some 100) (?t 1) = Some (Some 100)" by (simp add: search.simps)
  have 3: "tstep (?s 1 0 1) (?s 2 1 1)"
    using t_find [of "?s 1 0 1" 7 "Some 100" "?t 2"] srch
    by (simp add: foo_find_def hash foo_hold_def add_count_def put_foo_def MAXREF_def)
  have 4: "tstep (?s 2 1 1) (?s 1 1 0)"
    using t_last [of "?s 2 1 1" 100 "?t 1"] by (simp add: rele_last_def add_count_def put_foo_def)
  have run: "tstep\<^sup>*\<^sup>* no_threads (?s 1 1 0)" 
    by (rule converse_rtranclp_into_rtranclp [OF 1 converse_rtranclp_into_rtranclp [OF 2
        converse_rtranclp_into_rtranclp [OF 3 r_into_rtranclp [of tstep, OF 4]]]])
  from foo_threads_safe [OF run] have "f_count f = 1" if "foos (s_tab (?s 1 1 0)) 100 = Some f" for f
    using that by fastforce
  with run show ?thesis by (intro exI [of _ "?s 1 1 0"] exI [of _ "\<lparr>f_count = 1, f_id = 7, f_next = None\<rparr>"]) simp
qed

end
