(* ===== verification/Open_Request.thy ===== *)
theory Open_Request
  imports C_Text "HOL-Library.Monad_Syntax"
begin

text \<open>
  One request to the open server of \<open>apue.3e/ipc2\<close>: \<open>csopen\<close> (\<open>open/open.c\<close>), \<open>buf_args\<close>
  (\<open>lib/bufargs.c\<close>), \<open>cli_args\<close> and \<open>handle_request\<close> (\<open>opend\<close>), \<open>send_fd\<close>, \<open>send_err\<close> and \<open>recv_fd\<close>
  (\<open>lib\<close>).  A message on the connection is its bytes and the descriptor that travels with them, if
  any.
\<close>

type_synonym msg = "string \<times> int option"

definition MAXLINE :: nat where "MAXLINE = 4096"

section \<open>Arguments\<close>

definition MAXARGC :: nat where "MAXARGC = 50"

definition is_white :: "char \<Rightarrow> bool" where
  "is_white c \<longleftrightarrow> c = CHR '' '' \<or> c = CHR 0x09 \<or> c = CHR 0x0A"

text \<open>\<open>strtok\<close>: the next token and what follows the byte that ends it.\<close>

definition strtok :: "string \<Rightarrow> (string \<times> string) option" where
  "strtok s = (let t = dropWhile is_white s in
     if t = [] then None
     else Some (takeWhile (\<lambda>c. \<not> is_white c) t, drop 1 (dropWhile (\<lambda>c. \<not> is_white c) t)))"

lemma strtok_shorter: "strtok s = Some (t, r) \<Longrightarrow> length r < length s"
proof -
  assume "strtok s = Some (t, r)"
  then have "r = drop 1 (dropWhile (\<lambda>c. \<not> is_white c) (dropWhile is_white s))" "dropWhile is_white s \<noteq> []"
    by (auto simp: strtok_def Let_def split: if_splits)
  moreover have "length (dropWhile (\<lambda>c. \<not> is_white c) (dropWhile is_white s)) \<le> length (dropWhile is_white s)"
    "length (dropWhile is_white s) \<le> length s" by (rule length_dropWhile_le)+
  ultimately show ?thesis by (cases "dropWhile is_white s") auto
qed

text \<open>The loop of \<open>buf_args\<close>; \<open>argc\<close> is the index of the last argument so far.\<close>

function more_args :: "nat \<Rightarrow> string \<Rightarrow> string list option" where
  "more_args argc s = (case strtok s of
       None \<Rightarrow> Some []
     | Some (p, s) \<Rightarrow> if argc + 1 \<ge> MAXARGC - 1 then None else map_option ((#) p) (more_args (argc + 1) s))"
  by pat_completeness auto
termination
  by (relation "measure (length \<circ> snd)") (auto simp: strtok_shorter)

declare more_args.simps [simp del]

text \<open>
  \<open>argv[0]\<close> is the start of the buffer, which ends where \<open>strtok\<close> ended its first token; \<open>None\<close> is the
  result \<open>-1\<close> of \<open>buf_args\<close> itself.
\<close>

definition buf_args :: "string \<Rightarrow> (string list \<Rightarrow> 'a) \<Rightarrow> 'a option" where
  "buf_args buf optfunc = (case strtok buf of
       None \<Rightarrow> None
     | Some (t, s) \<Rightarrow> map_option (\<lambda>as. optfunc ((takeWhile is_white buf @ t) # as)) (more_args 0 s))"

definition CL_OPEN :: string where "CL_OPEN = ''open''"

record opend =
  errmsg :: string
  pathname :: string
  oflag :: int

definition cli_args :: "opend \<Rightarrow> string list \<Rightarrow> int \<times> opend" where
  "cli_args s argv =
     (if length argv \<noteq> 3 \<or> argv ! 0 \<noteq> CL_OPEN then (-1, s\<lparr>errmsg := ''usage: <pathname> <oflag>'' @ [CHR 0x0A]\<rparr>)
      else (0, s\<lparr>pathname := argv ! 1, oflag := atoi (argv ! 2)\<rparr>))"

section \<open>Passing descriptors\<close>

text \<open>The status byte of a negative number.\<close>

definition send_fd :: "int \<Rightarrow> msg" where
  "send_fd fd_to_send =
     (if fd_to_send < 0
      then ([NUL, char_of (if (- fd_to_send) mod 256 = 0 then 1 else nat ((- fd_to_send) mod 256))], None)
      else ([NUL, NUL], Some fd_to_send))"

definition send_err :: "int \<Rightarrow> string \<Rightarrow> msg list" where
  "send_err errcode m =
     (let errcode = (if errcode \<ge> 0 then -1 else errcode)
      in (if length m > 0 then [(m, None)] else []) @ [send_fd errcode])"

text \<open>
  \<open>recv_fd\<close> over the results of the successive \<open>recvmsg\<close> calls: data and a descriptor if there is
  one; \<open>Inl False\<close> is an error, \<open>Inl True\<close> the end of the connection.  The result is what was passed
  to \<open>userfunc\<close>, which takes it all, and what the function returns; \<open>err_dump\<close> stops the process.
\<close>

definition scan_status :: "string \<Rightarrow> (nat \<times> nat) option + abort" where
  "scan_status buf = (let i = length (takeWhile (\<lambda>c. c \<noteq> NUL) buf) in
     if i = length buf then Inl None
     else if i + 2 \<noteq> length buf then Inr (Err_dump ''message format error'')
     else Inl (Some (of_char (buf ! (i + 1)), length buf - 2)))"

fun recv_fd :: "(bool + msg) list \<Rightarrow> string \<Rightarrow> string \<times> (abort + int)" where
  "recv_fd [] shown = (shown, Inr (-1))"
| "recv_fd (Inl _ # ms) shown = (shown, Inr (-1))"
| "recv_fd (Inr (buf, fd) # ms) shown =
     (case scan_status buf of
        Inr e \<Rightarrow> (shown, Inl e)
      | Inl None \<Rightarrow> if buf = [] then (shown, Inr (-1)) else recv_fd ms (shown @ buf)
      | Inl (Some (status, nr)) \<Rightarrow>
          if status = 0
          then (case fd of None \<Rightarrow> (shown, Inl (Err_dump ''status = 0 but no fd''))
                | Some newfd \<Rightarrow> (shown @ take nr buf, Inr newfd))
          else (shown @ take nr buf, Inr (- int status)))"

section \<open>The request\<close>

text \<open>\<open>csopen\<close>: what it writes to the server.\<close>

definition csopen_request :: "string \<Rightarrow> int \<Rightarrow> string" where
  "csopen_request name oflg = CL_OPEN @ '' '' @ name @ '' '' @ fmt_d oflg @ [NUL]"

text \<open>
  \<open>handle_request\<close>.  \<open>op\<close> is \<open>open(2)\<close>: an error number or a descriptor.  The result is what is sent to
  the client.
\<close>

definition null_error :: "int \<Rightarrow> string \<Rightarrow> string" where
  "null_error uid buf = take (MAXLINE - 2) (''request from uid '' @ fmt_d uid @ '' not null terminated: ''
     @ replicate (length buf - length (cstr buf)) (CHR '' '') @ cstr buf @ [CHR 0x0A])"

definition handle_request :: "(32 word \<Rightarrow> string) \<Rightarrow> (string \<Rightarrow> int \<Rightarrow> 32 word + int) \<Rightarrow> string \<Rightarrow> int
    \<Rightarrow> opend \<Rightarrow> msg list \<times> opend" where
  "handle_request strerr op buf uid s =
     (if buf ! (length buf - 1) \<noteq> NUL
      then (let s = s\<lparr>errmsg := null_error uid buf\<rparr> in (send_err (-1) (errmsg s), s))
      else (case buf_args (cstr buf) (cli_args s) of
              None \<Rightarrow> (send_err (-1) (errmsg s), s)
            | Some (rc, s) \<Rightarrow>
              if rc < 0 then (send_err (-1) (errmsg s), s)
              else (case op (pathname s) (oflag s) of
                      Inl e \<Rightarrow>
                        let s = s\<lparr>errmsg := take (MAXLINE - 2) (''can't open '' @ pathname s @ '': '' @ strerr e @ [CHR 0x0A])\<rparr>
                        in (send_err (-1) (errmsg s), s)
                    | Inr newfd \<Rightarrow> ([send_fd newfd], s))))"

section \<open>Words\<close>

text \<open>The words of a request, defined without \<open>strtok\<close>.\<close>

fun split_white :: "string \<Rightarrow> string list" where
  "split_white [] = [[]]"
| "split_white (c # cs) = (if is_white c then [] # split_white cs
     else case split_white cs of [] \<Rightarrow> [[c]] | w # ws \<Rightarrow> (c # w) # ws)"

definition words :: "string \<Rightarrow> string list" where
  "words s = filter (\<lambda>w. w \<noteq> []) (split_white s)"

lemma split_white_ne [simp]: "split_white s \<noteq> []"
  by (cases s) (auto split: list.split)

lemma split_token: "\<forall>c \<in> set t. \<not> is_white c \<Longrightarrow> split_white (t @ r) = (t @ hd (split_white r)) # tl (split_white r)"
  by (induction t) (auto split: list.split)

lemma words_dropWhile: "words s = words (dropWhile is_white s)"
  by (induction s) (auto simp: words_def)

lemma words_token:
  assumes "\<forall>c \<in> set t. \<not> is_white c" and "t \<noteq> []" and "r = [] \<or> is_white (hd r)"
  shows "words (t @ r) = t # words (drop 1 r)"
  using assms split_token [OF assms(1), of r] by (cases r) (auto simp: words_def)

lemma words_strtok: "words s = (case strtok s of None \<Rightarrow> [] | Some (t, r) \<Rightarrow> t # words r)"
proof -
  let ?t = "dropWhile is_white s" and ?P = "\<lambda>c. \<not> is_white c"
  show ?thesis
  proof (cases "?t = []")
    case True
    then have "words s = words []" by (metis words_dropWhile)
    then show ?thesis using True by (simp add: strtok_def words_def)
  next
    case False
    then have ne: "takeWhile ?P ?t \<noteq> []" using hd_dropWhile [of is_white s] by (cases ?t) auto
    have tk: "\<forall>c \<in> set (takeWhile ?P ?t). \<not> is_white c" by (auto dest: set_takeWhileD)
    have e: "dropWhile ?P ?t = [] \<or> is_white (hd (dropWhile ?P ?t))" using hd_dropWhile [of ?P ?t] by blast
    have "words s = words (takeWhile ?P ?t @ dropWhile ?P ?t)"
      unfolding takeWhile_dropWhile_id by (rule words_dropWhile)
    also have "\<dots> = takeWhile ?P ?t # words (drop 1 (dropWhile ?P ?t))" by (rule words_token [OF tk ne e])
    finally show ?thesis using False by (simp add: strtok_def Let_def)
  qed
qed

lemma more_args_words:
  "argc < 49 \<Longrightarrow> more_args argc s = (if argc + length (words s) < 49 then Some (words s) else None)"
proof (induction argc s rule: more_args.induct)
  case (1 argc s)
  show ?case
  proof (cases "strtok s")
    case None
    then show ?thesis using 1(2) words_strtok [of s] by (simp add: more_args.simps [of argc s])
  next
    case (Some tr)
    obtain t r where tr: "tr = (t, r)" by fastforce
    have w: "words s = t # words r" using words_strtok [of s] Some tr by simp
    show ?thesis
    proof (cases "argc + 1 \<ge> MAXARGC - 1")
      case True
      then show ?thesis using Some tr w 1(2) by (simp add: more_args.simps [of argc s] MAXARGC_def)
    next
      case False
      have ih: "more_args (argc + 1) r = (if argc + 1 + length (words r) < 49 then Some (words r) else None)"
        by (rule "1.IH" [OF Some tr [symmetric] False]) (use False in \<open>simp add: MAXARGC_def\<close>)
      then show ?thesis using Some tr w False by (simp add: more_args.simps [of argc s])
    qed
  qed
qed

lemma buf_args_words:
  "buf_args s f = (case words s of [] \<Rightarrow> None
     | w # ws \<Rightarrow> if length ws < 49 then Some (f ((takeWhile is_white s @ w) # ws)) else None)"
  using words_strtok [of s] more_args_words [of 0]
  by (auto simp: buf_args_def split: option.splits prod.splits)

section \<open>Receiving\<close>

lemma scan_none: "NUL \<notin> set buf \<Longrightarrow> scan_status buf = Inl None"
proof -
  assume "NUL \<notin> set buf"
  then have "takeWhile (\<lambda>c. c \<noteq> NUL) buf = buf" by (auto simp: takeWhile_eq_all_conv)
  then show ?thesis by (simp only: scan_status_def Let_def refl if_True)
qed

lemma scan_some:
  assumes "NUL \<notin> set m"
  shows "scan_status (m @ [NUL, c]) = Inl (Some (of_char c, length m))"
proof -
  have "takeWhile (\<lambda>c. c \<noteq> NUL) (m @ [NUL, c]) = m" using assms by (subst takeWhile_append2) auto
  then show ?thesis by (simp add: scan_status_def nth_append)
qed

lemma recv_pieces:
  assumes "\<forall>p \<in> set ps. NUL \<notin> set p \<and> p \<noteq> []" and "NUL \<notin> set m"
  shows "recv_fd (map (\<lambda>p. Inr (p, None)) ps @ [Inr (m @ [NUL, c], None)]) shown
    = (if c = NUL then (shown @ concat ps, Inl (Err_dump ''status = 0 but no fd''))
       else (shown @ concat ps @ m, Inr (- int (of_char c))))"
  using assms(1)
proof (induction ps arbitrary: shown)
  case Nil
  have "(of_char c :: nat) = 0 \<longleftrightarrow> c = NUL" using of_char_eq_iff [of c NUL, where 'a = nat] by (simp add: NUL_def)
  then show ?case by (simp add: scan_some [OF assms(2)])
next
  case (Cons p ps)
  then show ?case by (simp add: scan_none)
qed

section \<open>Properties\<close>

definition usage :: string where
  "usage = ''usage: <pathname> <oflag>'' @ [CHR 0x0A]"

definition cant_open :: "string \<Rightarrow> string \<Rightarrow> string" where
  "cant_open name why = take (MAXLINE - 2) (''can't open '' @ name @ '': '' @ why @ [CHR 0x0A])"

definition refuse :: "string \<Rightarrow> msg list" where
  "refuse m = (if m = [] then [] else [(m, None)]) @ [([NUL, CHR 0x01], None)]"

lemma send_err_refuse: "send_err (-1) m = refuse m"
  by (simp add: send_err_def send_fd_def refuse_def char_of_def bit_0 Let_def)

lemma last_byte: "(body @ [NUL]) ! (length (body @ [NUL]) - 1) = NUL"
  by (simp add: nth_append)

text \<open>
  What the server answers to a request, by the words of the request: the descriptor or the error
  of \<open>open\<close> for \<open>open\<close>, a path name and flags, the usage message for other words.  Two cases are not
  what the code means to do: with white space before \<open>open\<close> the first argument starts at that white
  space, so the request is refused; and on a request without a word, or with fifty or more, the
  client is sent the error message of the request before, perhaps of another client.
\<close>

theorem open_request_answer:
  assumes "NUL \<notin> set body"
  shows "handle_request strerr op (body @ [NUL]) uid s =
    (let ws = words body in
     if ws = [] \<or> length ws \<ge> 50 then (refuse (errmsg s), s)
     else if length ws = 3 \<and> takeWhile is_white body = [] \<and> ws ! 0 = CL_OPEN
     then (let s = s\<lparr>pathname := ws ! 1, oflag := atoi (ws ! 2)\<rparr> in
           case op (ws ! 1) (atoi (ws ! 2)) of
             Inr fd \<Rightarrow> ([send_fd fd], s)
           | Inl e \<Rightarrow> (refuse (cant_open (ws ! 1) (strerr e)), s\<lparr>errmsg := cant_open (ws ! 1) (strerr e)\<rparr>))
     else (refuse usage, s\<lparr>errmsg := usage\<rparr>))"
proof -
  have c: "cstr (body @ [NUL]) = body" using cstr_append_NUL [OF assms, of "[]"] by simp
  show ?thesis
  proof (cases "words body")
    case Nil
    then show ?thesis using last_byte [of body]
      by (simp add: handle_request_def c buf_args_words send_err_refuse)
  next
    case (Cons w ws)
    have nw: "takeWhile is_white body @ w = CL_OPEN \<longleftrightarrow> takeWhile is_white body = [] \<and> w = CL_OPEN"
    proof (cases "takeWhile is_white body")
      case (Cons x xs)
      then have "x \<in> set (takeWhile is_white body)" by simp
      then have "is_white x" by (rule set_takeWhileD [THEN conjunct2])
      then have "x \<noteq> CHR ''o''" by (auto simp: is_white_def)
      then show ?thesis using Cons by (simp add: CL_OPEN_def)
    qed simp
    show ?thesis using last_byte [of body] Cons nw
      by (auto simp: handle_request_def c buf_args_words send_err_refuse cli_args_def usage_def cant_open_def Let_def split: sum.split)
  qed
qed

theorem open_request_answer_witness:
  "\<forall>s. handle_request (\<lambda>_. []) (\<lambda>_ _. Inl 2) ('' open a.c 0'' @ [NUL]) 100 s = (refuse usage, s\<lparr>errmsg := usage\<rparr>)
    \<and> handle_request (\<lambda>_. []) (\<lambda>_ _. Inl 2) ('' '' @ [NUL]) 100 s = (refuse (errmsg s), s)"
  using open_request_answer [of "'' open a.c 0''" "\<lambda>_. []" "\<lambda>_ _. Inl 2" 100] open_request_answer [of "'' ''" "\<lambda>_. []" "\<lambda>_ _. Inl 2" 100]
  by (simp add: words_def is_white_def NUL_def)

lemma words_simple:
  assumes "w \<noteq> []" and "\<forall>c \<in> set w. \<not> is_white c" and "is_white x"
  shows "words (w @ x # r) = w # words r" and "words w = [w]"
proof -
  show "words (w @ x # r) = w # words r" using words_token [OF assms(2,1), of "x # r"] assms(3) by simp
  show "words w = [w]" using words_token [OF assms(2,1), of "[]"] by (simp add: words_def)
qed

text \<open>The messages for a request of \<open>csopen\<close>.\<close>

lemma csopen_answer:
  assumes "name \<noteq> []" and "\<forall>c \<in> set name. \<not> is_white c \<and> c \<noteq> NUL" and "- 2147483648 \<le> flags" and "flags < 2147483648"
  shows "fst (handle_request strerr op (csopen_request name flags) uid s) =
    (case op name flags of Inr fd \<Rightarrow> [send_fd fd] | Inl e \<Rightarrow> [(cant_open name (strerr e), None), ([NUL, CHR 0x01], None)])"
proof -
  let ?body = "CL_OPEN @ '' '' @ name @ '' '' @ fmt_d flags"
  have dg: "\<forall>c \<in> set (fmt_d flags). \<not> is_white c \<and> c \<noteq> NUL" "fmt_d flags \<noteq> []"
  proof -
    have "\<not> is_white c \<and> c \<noteq> NUL" if "isdigit_c c" for c
      using that by (auto simp: is_white_def isdigit_c_def NUL_def)
    then show "\<forall>c \<in> set (fmt_d flags). \<not> is_white c \<and> c \<noteq> NUL" using dec_digits
      by (auto simp: fmt_d_def is_white_def NUL_def)
    show "fmt_d flags \<noteq> []" by (simp add: fmt_d_def)
  qed
  have nul: "NUL \<notin> set ?body" using assms(2) dg(1) by (auto simp: CL_OPEN_def NUL_def)
  have b: "csopen_request name flags = ?body @ [NUL]" by (simp add: csopen_request_def)
  have op: "\<forall>c \<in> set CL_OPEN. \<not> is_white c" "CL_OPEN \<noteq> []" by (simp_all add: CL_OPEN_def is_white_def)
  have "words ?body = CL_OPEN # words (name @ CHR '' '' # fmt_d flags)"
    using words_simple(1) [OF op(2,1), of "CHR '' ''"] by (simp add: is_white_def)
  also have "\<dots> = [CL_OPEN, name, fmt_d flags]"
    using words_simple(1) [OF assms(1), of "CHR '' ''"] words_simple(2) [OF dg(2), of "CHR '' ''"] assms(2) dg(1)
    by (simp add: is_white_def)
  finally have w: "words ?body = [CL_OPEN, name, fmt_d flags]" .
  have tk: "takeWhile is_white ?body = []" by (simp add: CL_OPEN_def is_white_def)
  have at: "atoi (fmt_d flags) = flags" by (rule atoi_fmt_d [OF assms(3,4)])
  have ne: "cant_open name m \<noteq> []" for m by (simp add: cant_open_def MAXLINE_def)
  show ?thesis unfolding b using open_request_answer [OF nul, of strerr op uid s] w tk at ne
    by (simp add: Let_def refuse_def split: sum.split)
qed

text \<open>
  Client and server together: a name without white space is opened with exactly the flags the
  client gave, and \<open>csopen\<close> returns what \<open>open\<close> gave, or \<open>-1\<close> after passing the server's message on;
  the pieces in which the message arrives do not matter.
\<close>

lemma cant_open_NUL: "NUL \<notin> set name \<Longrightarrow> NUL \<notin> set why \<Longrightarrow> NUL \<notin> set (cant_open name why)"
proof -
  assume "NUL \<notin> set name" "NUL \<notin> set why"
  then have "NUL \<notin> set (''can't open '' @ name @ '': '' @ why @ [CHR 0x0A])" by (simp add: NUL_def)
  then show ?thesis unfolding cant_open_def using in_set_takeD by fast
qed

theorem csopen_served:
  assumes "name \<noteq> []" and "\<forall>c \<in> set name. \<not> is_white c \<and> c \<noteq> NUL"
    and "- 2147483648 \<le> flags" and "flags < 2147483648" and "\<And>e. NUL \<notin> set (strerr e)"
    and "handle_request strerr op (csopen_request name flags) uid s = (ms, s')"
  shows "case op name flags of
      Inr fd \<Rightarrow> 0 \<le> fd \<longrightarrow> recv_fd (map Inr ms) [] = ([], Inr fd)
    | Inl e \<Rightarrow> \<forall>ps. concat ps = cant_open name (strerr e) \<and> [] \<notin> set ps \<longrightarrow>
         ms = [(cant_open name (strerr e), None), ([NUL, CHR 0x01], None)]
         \<and> recv_fd (map (\<lambda>p. Inr (p, None)) ps @ [Inr ([NUL, CHR 0x01], None)]) [] = (cant_open name (strerr e), Inr (-1))"
proof -
  note ans = csopen_answer [OF assms(1-4), of strerr op uid s, unfolded assms(6) fst_conv]
  show ?thesis
  proof (cases "op name flags")
    case (Inr fd)
    then show ?thesis using ans by (simp add: send_fd_def scan_status_def NUL_def)
  next
    case (Inl e)
    let ?m = "cant_open name (strerr e)"
    have nn: "NUL \<notin> set ?m" by (rule cant_open_NUL) (use assms(2,5) in auto)
    have "recv_fd (map (\<lambda>p. Inr (p, None)) ps @ [Inr ([NUL, CHR 0x01], None)]) [] = (?m, Inr (-1))"
      if "concat ps = ?m" "[] \<notin> set ps" for ps
    proof -
      have "NUL \<notin> set (concat ps)" using that(1) nn by simp
      then have "\<forall>p \<in> set ps. NUL \<notin> set p \<and> p \<noteq> []" using that(2) by auto
      from recv_pieces [OF this, of "[]" "CHR 0x01" "[]"] that show ?thesis by (simp add: NUL_def)
    qed
    then show ?thesis using Inl ans by simp
  qed
qed

theorem csopen_served_witness:
  "\<forall>s. \<exists>ms s'. handle_request (\<lambda>_. ''No such file'') (\<lambda>_ _. Inl 2) (csopen_request ''a.c'' 0) 100 s = (ms, s')
    \<and> recv_fd (map Inr ms) [] = (cant_open ''a.c'' ''No such file'', Inr (-1))"
proof
  fix s
  let ?m = "cant_open ''a.c'' ''No such file''"
  obtain ms s' where h: "handle_request (\<lambda>_. ''No such file'') (\<lambda>_ _. Inl 2) (csopen_request ''a.c'' 0) 100 s = (ms, s')"
    by fastforce
  have ne: "?m \<noteq> []" by (simp add: cant_open_def MAXLINE_def)
  have n: "\<forall>c \<in> set ''a.c''. \<not> is_white c \<and> c \<noteq> NUL" "NUL \<notin> set ''No such file''"
    by (simp_all add: is_white_def NUL_def)
  have "\<forall>ps. concat ps = ?m \<and> [] \<notin> set ps \<longrightarrow>
         ms = [(?m, None), ([NUL, CHR 0x01], None)]
         \<and> recv_fd (map (\<lambda>p. Inr (p, None)) ps @ [Inr ([NUL, CHR 0x01], None)]) [] = (?m, Inr (-1))"
    using csopen_served [of "''a.c''" 0 "\<lambda>_. ''No such file''", OF _ n(1) _ _ n(2) h] by (simp only: sum.case) simp
  from spec [OF this, of "[?m]"] ne have "ms = [(?m, None), ([NUL, CHR 0x01], None)]"
    "recv_fd (map Inr ms) [] = (?m, Inr (-1))" by simp_all
  with h show "\<exists>ms s'. handle_request (\<lambda>_. ''No such file'') (\<lambda>_ _. Inl 2) (csopen_request ''a.c'' 0) 100 s = (ms, s')
    \<and> recv_fd (map Inr ms) [] = (cant_open ''a.c'' ''No such file'', Inr (-1))" by auto
qed

end
