(* ===== verification/Open_Loop.thy ===== *)
theory Open_Loop
  imports Open_Request
begin

text \<open>
  The open server of \<open>apue.3e/ipc2/opend\<close>: the array of clients (\<open>client.c\<close>) and the two versions of
  its main loop (\<open>loop.select.c\<close> and \<open>loop.poll.c\<close>).  One iteration of a loop is a function of what the
  system calls of that iteration return.
\<close>

section \<open>The clients\<close>

record client =
  c_fd :: int
  c_uid :: int

definition NALLOC :: nat where "NALLOC = 10"

text \<open>The user of a new entry is what the memory held; \<open>-1\<close> is the descriptor of a free entry.\<close>

definition client_alloc :: "int \<Rightarrow> client list \<Rightarrow> client list" where
  "client_alloc junk cs = cs @ replicate NALLOC \<lparr>c_fd = -1, c_uid = junk\<rparr>"

fun find_client :: "int \<Rightarrow> client list \<Rightarrow> nat option" where
  "find_client fd [] = None"
| "find_client fd (c # cs) = (if c_fd c = fd then Some 0 else map_option Suc (find_client fd cs))"

partial_function (option) add_again :: "int \<Rightarrow> int \<Rightarrow> int \<Rightarrow> client list \<Rightarrow> (nat \<times> client list) option" where
  "add_again junk fd uid cs = (case find_client (-1) cs of
       Some i \<Rightarrow> Some (i, cs[i := \<lparr>c_fd = fd, c_uid = uid\<rparr>])
     | None \<Rightarrow> add_again junk fd uid (client_alloc junk cs))"

definition client_add :: "int \<Rightarrow> int \<Rightarrow> int \<Rightarrow> client list \<Rightarrow> (nat \<times> client list) option" where
  "client_add junk fd uid cs = add_again junk fd uid (if cs = [] then client_alloc junk cs else cs)"

text \<open>\<open>None\<close> is the \<open>log_quit\<close>.\<close>

definition client_del :: "int \<Rightarrow> client list \<Rightarrow> client list option" where
  "client_del fd cs = map_option (\<lambda>i. cs[i := (cs ! i)\<lparr>c_fd := -1\<rparr>]) (find_client fd cs)"

lemma find_client_Some: "find_client fd cs = Some i \<Longrightarrow> i < length cs \<and> c_fd (cs ! i) = fd \<and> (\<forall>j < i. c_fd (cs ! j) \<noteq> fd)"
proof (induction cs arbitrary: i)
  case (Cons c cs)
  show ?case
  proof (cases "c_fd c = fd")
    case False
    then obtain k where "find_client fd cs = Some k" "i = Suc k" using Cons.prems by auto
    with Cons.IH False show ?thesis by (auto simp: less_Suc_eq_0_disj)
  qed (use Cons.prems in auto)
qed simp

lemma find_client_None: "find_client fd cs = None \<longleftrightarrow> (\<forall>c \<in> set cs. c_fd c \<noteq> fd)"
  by (induction cs) auto

lemma add_again_Some:
  "\<exists>i cs'. add_again junk fd uid cs = Some (i, cs'[i := \<lparr>c_fd = fd, c_uid = uid\<rparr>])
     \<and> find_client (-1) cs' = Some i \<and> (cs' = cs \<or> cs' = client_alloc junk cs)"
proof (cases "find_client (-1) cs")
  case (Some i)
  then show ?thesis by (subst add_again.simps) auto
next
  case None
  have "find_client (-1) (client_alloc junk cs) \<noteq> None"
    by (auto simp: find_client_None client_alloc_def NALLOC_def)
  then obtain i where "find_client (-1) (client_alloc junk cs) = Some i" by auto
  then show ?thesis using None add_again.simps [of junk fd uid cs] add_again.simps [of junk fd uid "client_alloc junk cs"]
    by auto
qed

section \<open>The loop with select\<close>

datatype rd = Data string | Rd_error

record srv =
  v_clients :: "client list"
  v_allset :: "int set"
  v_maxfd :: int
  v_maxi :: int
  v_opend :: opend

text \<open>What an iteration does: connections accepted and closed, requests handled with their answers.\<close>

datatype event = Accepted int int | Closed int | Handled int int string "msg list"

text \<open>
  The system calls: the set \<open>select\<close> returns, what \<open>serv_accept\<close> returns (an error number or the
  descriptor and the user), and what \<open>read\<close> gives for a descriptor, \<open>Data []\<close> for the end of file.
\<close>

record sel =
  sl_ready :: "int set"
  sl_accept :: "int + int \<times> int"
  sl_read :: "int \<Rightarrow> rd"
  sl_junk :: int

datatype 'a loop = Cont 'a | Quit abort

definition one_client :: "(32 word \<Rightarrow> string) \<Rightarrow> (string \<Rightarrow> int \<Rightarrow> 32 word + int) \<Rightarrow> sel \<Rightarrow> nat \<Rightarrow> srv
    \<Rightarrow> srv loop \<times> event list" where
  "one_client strerr op x i s =
     (let c = v_clients s ! i; clifd = c_fd c in
      if clifd < 0 \<or> clifd \<notin> sl_ready x then (Cont s, [])
      else case sl_read x clifd of
             Rd_error \<Rightarrow> (Quit (Err_sys ''read error''), [])
           | Data buf \<Rightarrow>
             if buf = []
             then (case client_del clifd (v_clients s) of
                     None \<Rightarrow> (Quit (Err_quit ''can't find client entry''), [])
                   | Some cs \<Rightarrow> (Cont (s\<lparr>v_clients := cs, v_allset := v_allset s - {clifd}\<rparr>), [Closed clifd]))
             else (let (ms, od) = handle_request strerr op buf (c_uid c) (v_opend s)
                   in (Cont (s\<lparr>v_opend := od\<rparr>), [Handled clifd (c_uid c) buf ms])))"

fun all_clients :: "(32 word \<Rightarrow> string) \<Rightarrow> (string \<Rightarrow> int \<Rightarrow> 32 word + int) \<Rightarrow> sel \<Rightarrow> nat list \<Rightarrow> srv
    \<Rightarrow> srv loop \<times> event list" where
  "all_clients strerr op x [] s = (Cont s, [])"
| "all_clients strerr op x (i # is) s = (case one_client strerr op x i s of
     (Quit e, es) \<Rightarrow> (Quit e, es)
   | (Cont s, es) \<Rightarrow> (case all_clients strerr op x is s of (r, es') \<Rightarrow> (r, es @ es')))"

definition select_iteration :: "(32 word \<Rightarrow> string) \<Rightarrow> (string \<Rightarrow> int \<Rightarrow> 32 word + int) \<Rightarrow> int \<Rightarrow> sel \<Rightarrow> srv
    \<Rightarrow> srv loop \<times> event list" where
  "select_iteration strerr op listenfd x s =
     (let x = x\<lparr>sl_ready := sl_ready x \<inter> v_allset s \<inter> {.. v_maxfd s}\<rparr> in
      if listenfd \<in> sl_ready x
      then (case sl_accept x of
              Inl e \<Rightarrow> (Quit (Err_sys ''serv_accept error''), [])
            | Inr (clifd, uid) \<Rightarrow>
              (case client_add (sl_junk x) clifd uid (v_clients s) of
                 None \<Rightarrow> (Quit Diverge, [])
               | Some (i, cs) \<Rightarrow>
                 (Cont (s\<lparr>v_clients := cs, v_allset := insert clifd (v_allset s),
                          v_maxfd := max clifd (v_maxfd s), v_maxi := max (int i) (v_maxi s)\<rparr>), [Accepted clifd uid])))
      else all_clients strerr op x [0 ..< nat (v_maxi s + 1)] s)"

definition select_start :: "int \<Rightarrow> opend \<Rightarrow> srv" where
  "select_start listenfd od = \<lparr>v_clients = [], v_allset = {listenfd}, v_maxfd = listenfd, v_maxi = -1, v_opend = od\<rparr>"

fun select_loop :: "(32 word \<Rightarrow> string) \<Rightarrow> (string \<Rightarrow> int \<Rightarrow> 32 word + int) \<Rightarrow> int \<Rightarrow> sel list \<Rightarrow> srv
    \<Rightarrow> srv loop \<times> event list" where
  "select_loop strerr op listenfd [] s = (Cont s, [])"
| "select_loop strerr op listenfd (x # xs) s = (case select_iteration strerr op listenfd x s of
     (Quit e, es) \<Rightarrow> (Quit e, es)
   | (Cont s, es) \<Rightarrow> (case select_loop strerr op listenfd xs s of (r, es') \<Rightarrow> (r, es @ es')))"

section \<open>The loop with poll\<close>

record pollfd =
  p_fd :: int
  p_revents :: "bool \<times> bool"

record psrv =
  q_clients :: "client list"
  q_pollfd :: "pollfd list"
  q_numfd :: nat
  q_opend :: opend

definition grow_pollfd :: "pollfd list \<Rightarrow> pollfd list" where
  "grow_pollfd pfd = pfd @ replicate NALLOC \<lparr>p_fd = -1, p_revents = (False, False)\<rparr>"

text \<open>\<open>pl_events\<close>: what \<open>poll\<close> reports for a descriptor, \<open>POLLHUP\<close> and \<open>POLLIN\<close>.\<close>

record pol =
  pl_events :: "int \<Rightarrow> bool \<times> bool"
  pl_accept :: "int + int \<times> int"
  pl_read :: "int \<Rightarrow> rd"
  pl_junk :: int

definition hung_up :: "nat \<Rightarrow> psrv \<Rightarrow> psrv option" where
  "hung_up i s = (case client_del (p_fd (q_pollfd s ! i)) (q_clients s) of
       None \<Rightarrow> None
     | Some cs \<Rightarrow> Some (s\<lparr>q_clients := cs,
         q_pollfd := (if i < q_numfd s - 1 then (q_pollfd s)[i := q_pollfd s ! (q_numfd s - 1)] else q_pollfd s),
         q_numfd := q_numfd s - 1\<rparr>))"

text \<open>
  The loop over the descriptors; after a hangup in the middle the same index is looked at again,
  at the end the loop is over: both are index \<open>i\<close> with one descriptor less.
\<close>

function poll_clients :: "(32 word \<Rightarrow> string) \<Rightarrow> (string \<Rightarrow> int \<Rightarrow> 32 word + int) \<Rightarrow> pol \<Rightarrow> nat \<Rightarrow> psrv
    \<Rightarrow> psrv loop \<times> event list" where
  "poll_clients strerr op x i s =
     (if i < q_numfd s then
        (let p = q_pollfd s ! i; fd = p_fd p; (hup, pin) = p_revents p in
         if \<not> hup \<and> \<not> pin then poll_clients strerr op x (i + 1) s
         else if \<not> hup \<and> pl_read x fd = Rd_error then (Quit (Err_sys ''read error''), [])
         else if hup \<or> pl_read x fd = Data []
         then (case hung_up i s of
                 None \<Rightarrow> (Quit (Err_quit ''can't find client entry''), [])
               | Some s' \<Rightarrow> (case poll_clients strerr op x i s' of (r, es) \<Rightarrow> (r, Closed fd # es)))
         else (let buf = (case pl_read x fd of Data b \<Rightarrow> b | Rd_error \<Rightarrow> []);
                   uid = c_uid (q_clients s ! i);
                   (ms, od) = handle_request strerr op buf uid (q_opend s)
               in (case poll_clients strerr op x (i + 1) (s\<lparr>q_opend := od\<rparr>) of
                     (r, es) \<Rightarrow> (r, Handled fd uid buf ms # es))))
      else (Cont s, []))"
  by pat_completeness auto
termination
  by (relation "measure (\<lambda>(strerr, op, x, i, s). q_numfd s - i)") (auto simp: hung_up_def split: option.splits)

declare poll_clients.simps [simp del]

definition poll_iteration :: "(32 word \<Rightarrow> string) \<Rightarrow> (string \<Rightarrow> int \<Rightarrow> 32 word + int) \<Rightarrow> int \<Rightarrow> pol \<Rightarrow> psrv
    \<Rightarrow> psrv loop \<times> event list" where
  "poll_iteration strerr op listenfd x s =
     (let s = s\<lparr>q_pollfd := map (\<lambda>i. if i < q_numfd s then (q_pollfd s ! i)\<lparr>p_revents := pl_events x (p_fd (q_pollfd s ! i))\<rparr>
                              else q_pollfd s ! i) [0 ..< length (q_pollfd s)]\<rparr> in
      if snd (p_revents (q_pollfd s ! 0))
      then (case pl_accept x of
              Inl e \<Rightarrow> (Quit (Err_sys ''serv_accept error''), [])
            | Inr (clifd, uid) \<Rightarrow>
              (case client_add (pl_junk x) clifd uid (q_clients s) of
                 None \<Rightarrow> (Quit Diverge, [])
               | Some (_, cs) \<Rightarrow>
                 let pfd = (if q_numfd s = length (q_pollfd s) then grow_pollfd (q_pollfd s) else q_pollfd s);
                     s = s\<lparr>q_clients := cs, q_pollfd := pfd[q_numfd s := \<lparr>p_fd = clifd, p_revents = (False, False)\<rparr>],
                           q_numfd := q_numfd s + 1\<rparr>
                 in (case poll_clients strerr op x 1 s of (r, es) \<Rightarrow> (r, Accepted clifd uid # es))))
      else poll_clients strerr op x 1 s)"

definition poll_start :: "int \<Rightarrow> int \<Rightarrow> opend \<Rightarrow> psrv option" where
  "poll_start junk listenfd od = (case client_add junk listenfd 0 [] of
       None \<Rightarrow> None
     | Some (_, cs) \<Rightarrow> Some \<lparr>q_clients = cs,
         q_pollfd = (replicate NALLOC \<lparr>p_fd = -1, p_revents = (False, False)\<rparr>)[0 := \<lparr>p_fd = listenfd, p_revents = (False, False)\<rparr>],
         q_numfd = 1, q_opend = od\<rparr>)"

fun poll_loop :: "(32 word \<Rightarrow> string) \<Rightarrow> (string \<Rightarrow> int \<Rightarrow> 32 word + int) \<Rightarrow> int \<Rightarrow> pol list \<Rightarrow> psrv
    \<Rightarrow> psrv loop \<times> event list" where
  "poll_loop strerr op listenfd [] s = (Cont s, [])"
| "poll_loop strerr op listenfd (x # xs) s = (case poll_iteration strerr op listenfd x s of
     (Quit e, es) \<Rightarrow> (Quit e, es)
   | (Cont s, es) \<Rightarrow> (case poll_loop strerr op listenfd xs s of (r, es') \<Rightarrow> (r, es @ es')))"

section \<open>Who is connected\<close>

text \<open>The user of each open connection, from the events so far.\<close>

fun upd_who :: "(int \<Rightarrow> int option) \<Rightarrow> event \<Rightarrow> int \<Rightarrow> int option" where
  "upd_who w (Accepted fd uid) = w(fd \<mapsto> uid)"
| "upd_who w (Closed fd) = w(fd := None)"
| "upd_who w (Handled fd uid buf ms) = w"

definition who :: "event list \<Rightarrow> int \<Rightarrow> int option" where
  "who es = foldl upd_who (\<lambda>_. None) es"

lemma who_Nil [simp]: "who [] = (\<lambda>_. None)"
  by (simp add: who_def)

lemma who_snoc [simp]: "who (es @ [e]) = upd_who (who es) e"
  by (simp add: who_def)

text \<open>The kernel gives a new connection a descriptor that is not open.\<close>

definition fresh_fds :: "int \<Rightarrow> event list \<Rightarrow> bool" where
  "fresh_fds listenfd es \<longleftrightarrow> (\<forall>es1 fd uid es2. es = es1 @ Accepted fd uid # es2 \<longrightarrow>
     0 \<le> fd \<and> fd \<noteq> listenfd \<and> who es1 fd = None)"

definition right_user :: "event list \<Rightarrow> bool" where
  "right_user es \<longleftrightarrow> (\<forall>es1 fd uid buf ms es2. es = es1 @ Handled fd uid buf ms # es2 \<longrightarrow> who es1 fd = Some uid)"

lemma right_user_snoc: "right_user (es @ [e]) \<longleftrightarrow> right_user es \<and> (\<forall>fd uid buf ms. e = Handled fd uid buf ms \<longrightarrow> who es fd = Some uid)"
proof (intro iffI conjI allI impI)
  assume r: "right_user (es @ [e])"
  show "right_user es" unfolding right_user_def
  proof (intro allI impI)
    fix es1 fd uid buf ms es2 assume "es = es1 @ Handled fd uid buf ms # es2"
    then have "es @ [e] = es1 @ Handled fd uid buf ms # (es2 @ [e])" by simp
    with r show "who es1 fd = Some uid" unfolding right_user_def by blast
  qed
  show "who es fd = Some uid" if "e = Handled fd uid buf ms" for fd uid buf ms
    using r that unfolding right_user_def by blast
next
  assume r: "right_user es \<and> (\<forall>fd uid buf ms. e = Handled fd uid buf ms \<longrightarrow> who es fd = Some uid)"
  show "right_user (es @ [e])" unfolding right_user_def
  proof (intro allI impI)
    fix es1 fd uid buf ms es2 assume eq: "es @ [e] = es1 @ Handled fd uid buf ms # es2"
    show "who es1 fd = Some uid"
    proof (cases es2 rule: rev_cases)
      case Nil
      then show ?thesis using eq r by simp
    next
      case (snoc es3 x)
      then have "es = es1 @ Handled fd uid buf ms # es3" using eq by simp
      then show ?thesis using r unfolding right_user_def by blast
    qed
  qed
qed

section \<open>The client array\<close>

text \<open>The array holds each open connection once, with its user, and nothing else.\<close>

definition table_of :: "client list \<Rightarrow> (int \<Rightarrow> int option) \<Rightarrow> bool" where
  "table_of cs w \<longleftrightarrow> w (-1) = None
     \<and> (\<forall>i < length cs. c_fd (cs ! i) \<noteq> -1 \<longrightarrow> w (c_fd (cs ! i)) = Some (c_uid (cs ! i)))
     \<and> (\<forall>fd u. w fd = Some u \<longrightarrow> (\<exists>!i. i < length cs \<and> c_fd (cs ! i) = fd))"

lemma tableD:
  assumes "table_of cs w"
  shows "w (-1) = None"
    and "i < length cs \<Longrightarrow> c_fd (cs ! i) \<noteq> -1 \<Longrightarrow> w (c_fd (cs ! i)) = Some (c_uid (cs ! i))"
    and "w fd = Some u \<Longrightarrow> \<exists>!i. i < length cs \<and> c_fd (cs ! i) = fd"
  using assms unfolding table_of_def by blast+

lemma table_alloc: "table_of cs w \<Longrightarrow> table_of (client_alloc junk cs) w"
proof -
  assume t: "table_of cs w"
  have n: "c_fd (client_alloc junk cs ! i) = (if i < length cs then c_fd (cs ! i) else -1)"
    "c_uid (client_alloc junk cs ! i) = (if i < length cs then c_uid (cs ! i) else junk)"
    if "i < length (client_alloc junk cs)" for i
    using that by (auto simp: client_alloc_def nth_append)
  show ?thesis unfolding table_of_def
  proof (intro conjI allI impI)
    show "w (-1) = None" using t by (simp add: table_of_def)
    show "w (c_fd (client_alloc junk cs ! i)) = Some (c_uid (client_alloc junk cs ! i))"
      if "i < length (client_alloc junk cs)" "c_fd (client_alloc junk cs ! i) \<noteq> -1" for i
      using that n [OF that(1)] t by (auto simp: table_of_def split: if_splits)
    show "\<exists>!i. i < length (client_alloc junk cs) \<and> c_fd (client_alloc junk cs ! i) = fd" if "w fd = Some u" for fd u
    proof -
      have "fd \<noteq> -1" using that t by (auto simp: table_of_def)
      moreover have "\<exists>!i. i < length cs \<and> c_fd (cs ! i) = fd" using that t unfolding table_of_def by blast
      moreover have "length cs \<le> length (client_alloc junk cs)" by (simp add: client_alloc_def)
      ultimately show ?thesis using n by (metis (no_types, lifting) order_less_le_trans)
    qed
  qed
qed

lemma table_add:
  assumes "table_of cs w" and "w fd = None" and "fd \<noteq> -1"
  shows "\<exists>i cs'. client_add junk fd uid cs = Some (i, cs') \<and> table_of cs' (w(fd \<mapsto> uid)) \<and> i < length cs'
    \<and> c_fd (cs' ! i) = fd \<and> (\<forall>k < length cs'. c_fd (cs' ! k) \<noteq> -1 \<longrightarrow> k = i \<or> (k < length cs \<and> c_fd (cs ! k) = c_fd (cs' ! k)))"
proof -
  define cs0 where "cs0 = (if cs = [] then client_alloc junk cs else cs)"
  from add_again_Some [of junk fd uid cs0] obtain i cs1 where
    a: "add_again junk fd uid cs0 = Some (i, cs1[i := \<lparr>c_fd = fd, c_uid = uid\<rparr>])" "find_client (-1) cs1 = Some i"
    "cs1 = cs0 \<or> cs1 = client_alloc junk cs0" by blast
  have t: "table_of cs1 w" using a(3) assms(1) table_alloc unfolding cs0_def by metis
  have i: "i < length cs1" "c_fd (cs1 ! i) = -1" using find_client_Some [OF a(2)] by auto
  let ?cs = "cs1[i := \<lparr>c_fd = fd, c_uid = uid\<rparr>]"
  have other: "c_fd (cs1 ! k) \<noteq> fd" if "k < length cs1" for k
    using t that assms(2,3) by (auto simp: table_of_def)
  have tab: "table_of ?cs (w(fd \<mapsto> uid))"
    unfolding table_of_def
  proof (intro conjI allI impI)
    show "(w(fd \<mapsto> uid)) (-1) = None" using t assms(3) by (simp add: table_of_def)
    show "(w(fd \<mapsto> uid)) (c_fd (?cs ! k)) = Some (c_uid (?cs ! k))" if "k < length ?cs" "c_fd (?cs ! k) \<noteq> -1" for k
    proof (cases "k = i")
      case True
      then show ?thesis using that i by simp
    next
      case False
      then have k: "k < length cs1" "c_fd (cs1 ! k) \<noteq> -1" using that by auto
      then show ?thesis using tableD(2) [OF t k] other [OF k(1)] False by simp
    qed
    show "\<exists>!k. k < length ?cs \<and> c_fd (?cs ! k) = fd'" if "(w(fd \<mapsto> uid)) fd' = Some u" for fd' u
    proof (cases "fd' = fd")
      case True
      show ?thesis
      proof (rule ex1I [of _ i])
        fix k assume "k < length ?cs \<and> c_fd (?cs ! k) = fd'"
        then show "k = i" using other [of k] True i by (cases "k = i") auto
      qed (use i True in simp)
    next
      case False
      then have w: "w fd' = Some u" using that by simp
      then have "fd' \<noteq> -1" using t by (auto simp: table_of_def)
      then have e: "k < length ?cs \<and> c_fd (?cs ! k) = fd' \<longleftrightarrow> k < length cs1 \<and> c_fd (cs1 ! k) = fd'" for k
        using False i by (cases "k = i") auto
      show ?thesis unfolding e using t w unfolding table_of_def by blast
    qed
  qed
  have old: "k < length cs \<and> c_fd (cs ! k) = c_fd (cs1 ! k)" if "k < length cs1" "c_fd (cs1 ! k) \<noteq> -1" for k
    using that a(3) unfolding cs0_def by (auto simp: client_alloc_def nth_append split: if_splits)
  have "c_fd (?cs ! k) = c_fd (cs1 ! k)" if "k \<noteq> i" for k using that by simp
  with old have "\<forall>k < length ?cs. c_fd (?cs ! k) \<noteq> -1 \<longrightarrow> k = i \<or> (k < length cs \<and> c_fd (cs ! k) = c_fd (?cs ! k))"
    by (metis length_list_update)
  then show ?thesis using a(1) tab i unfolding client_add_def cs0_def [symmetric]
    by (intro exI [of _ i] exI [of _ ?cs]) simp
qed

lemma table_del:
  assumes "table_of cs w" and "w fd = Some u"
  shows "\<exists>i. client_del fd cs = Some (cs[i := (cs ! i)\<lparr>c_fd := -1\<rparr>]) \<and> i < length cs \<and> c_fd (cs ! i) = fd
    \<and> table_of (cs[i := (cs ! i)\<lparr>c_fd := -1\<rparr>]) (w(fd := None))"
proof -
  have one: "\<exists>!i. i < length cs \<and> c_fd (cs ! i) = fd" using assms unfolding table_of_def by blast
  then have "find_client fd cs \<noteq> None" unfolding find_client_None by (metis nth_mem)
  then obtain i where f: "find_client fd cs = Some i" by auto
  then have i: "i < length cs" "c_fd (cs ! i) = fd" using find_client_Some by auto
  let ?cs = "cs[i := (cs ! i)\<lparr>c_fd := -1\<rparr>]"
  have uniq: "k = i" if "k < length cs" "c_fd (cs ! k) = fd" for k
    using one that i by blast
  have "table_of ?cs (w(fd := None))"
    unfolding table_of_def
  proof (intro conjI allI impI)
    show "(w(fd := None)) (-1) = None" using tableD(1) [OF assms(1)] by simp
    show "(w(fd := None)) (c_fd (?cs ! k)) = Some (c_uid (?cs ! k))" if "k < length ?cs" "c_fd (?cs ! k) \<noteq> -1" for k
    proof (cases "k = i")
      case True
      then show ?thesis using that i by simp
    next
      case False
      then have k: "k < length cs" "c_fd (cs ! k) \<noteq> -1" using that by auto
      then have "c_fd (cs ! k) \<noteq> fd" using uniq False by blast
      then show ?thesis using tableD(2) [OF assms(1) k] False by simp
    qed
    show "\<exists>!k. k < length ?cs \<and> c_fd (?cs ! k) = fd'" if "(w(fd := None)) fd' = Some v" for fd' v
    proof -
      have ne: "fd' \<noteq> fd" and w: "w fd' = Some v" using that by (auto split: if_splits)
      have m: "fd' \<noteq> -1" using w tableD(1) [OF assms(1)] by auto
      have e: "k < length ?cs \<and> c_fd (?cs ! k) = fd' \<longleftrightarrow> k < length cs \<and> c_fd (cs ! k) = fd'" for k
        using ne m i by (cases "k = i") auto
      show ?thesis unfolding e using assms(1) w unfolding table_of_def by blast
    qed
  qed
  then show ?thesis using f i by (auto simp: client_del_def)
qed

section \<open>The invariant of the loop with select\<close>

definition linv :: "int \<Rightarrow> srv \<Rightarrow> event list \<Rightarrow> bool" where
  "linv l s es \<longleftrightarrow> table_of (v_clients s) (who es) \<and> right_user es
     \<and> (\<forall>k < length (v_clients s). c_fd (v_clients s ! k) \<noteq> -1 \<longrightarrow> int k \<le> v_maxi s) \<and> v_maxi s < int (length (v_clients s))
     \<and> l \<in> v_allset s \<and> l \<le> v_maxfd s
     \<and> (\<forall>fd u. who es fd = Some u \<longrightarrow> 0 \<le> fd \<and> fd \<noteq> l \<and> fd \<in> v_allset s \<and> fd \<le> v_maxfd s)"

definition sys_error :: "abort \<Rightarrow> bool" where
  "sys_error e \<longleftrightarrow> e = Err_sys ''read error'' \<or> e = Err_sys ''serv_accept error''"

text \<open>The client at index \<open>k\<close>, if there is one and it is ready, is served by the events \<open>es\<close>.\<close>

definition served :: "sel \<Rightarrow> client \<Rightarrow> event list \<Rightarrow> bool" where
  "served x c es \<longleftrightarrow> (0 \<le> c_fd c \<and> c_fd c \<in> sl_ready x \<longrightarrow>
     Closed (c_fd c) \<in> set es \<or> (\<exists>buf ms. Handled (c_fd c) (c_uid c) buf ms \<in> set es))"

lemma served_more: "served x c es \<Longrightarrow> served x c (es @ es')" "served x c es' \<Longrightarrow> served x c (es @ es')"
  by (auto simp: served_def)

lemma one_client_step:
  assumes "linv l s es0" and "i < length (v_clients s)"
  shows "case one_client strerr op x i s of
      (Quit e, es) \<Rightarrow> es = [] \<and> sys_error e
    | (Cont s', es) \<Rightarrow> linv l s' (es0 @ es) \<and> served x (v_clients s ! i) es
        \<and> length (v_clients s') = length (v_clients s) \<and> v_maxi s' = v_maxi s \<and> (\<forall>k. k \<noteq> i \<longrightarrow> v_clients s' ! k = v_clients s ! k)"
proof -
  let ?c = "v_clients s ! i"
  show ?thesis
  proof (cases "c_fd ?c < 0 \<or> c_fd ?c \<notin> sl_ready x")
    case True
    then show ?thesis using assms(1) by (auto simp: one_client_def served_def Let_def)
  next
    case False
    have tab: "table_of (v_clients s) (who es0)" using assms(1) by (simp add: linv_def)
    have w: "who es0 (c_fd ?c) = Some (c_uid ?c)" by (rule tableD(2) [OF tab assms(2)]) (use False in auto)
    show ?thesis
    proof (cases "sl_read x (c_fd ?c)")
      case Rd_error
      then show ?thesis using False by (simp add: one_client_def Let_def sys_error_def)
    next
      case (Data buf)
      show ?thesis
      proof (cases "buf = []")
        case True
        from table_del [OF tab w] obtain j where j:
          "client_del (c_fd ?c) (v_clients s) = Some ((v_clients s)[j := (v_clients s ! j)\<lparr>c_fd := -1\<rparr>])"
          "j < length (v_clients s)" "c_fd (v_clients s ! j) = c_fd ?c"
          "table_of ((v_clients s)[j := (v_clients s ! j)\<lparr>c_fd := -1\<rparr>]) ((who es0)(c_fd ?c := None))" by blast
        have ji: "j = i" using tableD(3) [OF tab w] j(2,3) assms(2) by blast
        let ?s = "s\<lparr>v_clients := (v_clients s)[i := ?c\<lparr>c_fd := -1\<rparr>], v_allset := v_allset s - {c_fd ?c}\<rparr>"
        have o: "one_client strerr op x i s = (Cont ?s, [Closed (c_fd ?c)])"
          using False Data True j(1) ji by (simp add: one_client_def Let_def)
        have "l \<noteq> c_fd ?c" using assms(1) w unfolding linv_def by blast
        then have "linv l ?s (es0 @ [Closed (c_fd ?c)])"
          using assms j(4) ji by (auto simp: linv_def right_user_snoc nth_list_update split: if_splits)
        then show ?thesis using o by (simp add: served_def)
      next
        case buf: False
        obtain ms od where h: "handle_request strerr op buf (c_uid ?c) (v_opend s) = (ms, od)" by fastforce
        let ?s = "s\<lparr>v_opend := od\<rparr>"
        have o: "one_client strerr op x i s = (Cont ?s, [Handled (c_fd ?c) (c_uid ?c) buf ms])"
          using False Data buf h by (simp add: one_client_def Let_def)
        have "linv l ?s (es0 @ [Handled (c_fd ?c) (c_uid ?c) buf ms])"
          using assms(1) w by (auto simp: linv_def right_user_snoc)
        then show ?thesis using o by (auto simp: served_def)
      qed
    qed
  qed
qed

lemma all_clients_step:
  assumes "linv l s es0" and "\<forall>i \<in> set is. i < length (v_clients s)" and "distinct is"
  shows "case all_clients strerr op x is s of
      (Quit e, es) \<Rightarrow> right_user (es0 @ es) \<and> sys_error e
    | (Cont s', es) \<Rightarrow> linv l s' (es0 @ es) \<and> (\<forall>i \<in> set is. served x (v_clients s ! i) es)"
  using assms
proof (induction "is" arbitrary: s es0)
  case Nil
  then show ?case by simp
next
  case (Cons i "is")
  have i: "i < length (v_clients s)" using Cons.prems(2) by simp
  obtain r es where o: "one_client strerr op x i s = (r, es)" by fastforce
  note st = one_client_step [OF Cons.prems(1) i, where strerr = strerr and op = op and x = x]
  show ?case
  proof (cases r)
    case (Quit e)
    then have "es = []" "sys_error e" using st o by simp_all
    then show ?thesis using o Quit Cons.prems(1) by (simp add: linv_def)
  next
    case (Cont s1)
    have s1: "linv l s1 (es0 @ es)" "served x (v_clients s ! i) es" "length (v_clients s1) = length (v_clients s)"
      "\<forall>k. k \<noteq> i \<longrightarrow> v_clients s1 ! k = v_clients s ! k" using st o Cont by simp_all
    obtain r2 es2 where a: "all_clients strerr op x is s1 = (r2, es2)" by fastforce
    have ih: "case all_clients strerr op x is s1 of
      (Quit e, es') \<Rightarrow> right_user ((es0 @ es) @ es') \<and> sys_error e
    | (Cont s', es') \<Rightarrow> linv l s' ((es0 @ es) @ es') \<and> (\<forall>i \<in> set is. served x (v_clients s1 ! i) es')"
      by (rule Cons.IH [OF s1(1)]) (use Cons.prems(2,3) s1(3) in auto)
    have same: "v_clients s1 ! k = v_clients s ! k" if "k \<in> set is" for k using that Cons.prems(3) s1(4) by auto
    show ?thesis using ih o a Cont same served_more s1(2) by (cases r2) auto
  qed
qed

lemma select_step:
  assumes "linv l s es0" and "0 \<le> l"
    and "\<And>clifd uid. sl_accept x = Inr (clifd, uid) \<Longrightarrow> l \<in> sl_ready x \<Longrightarrow> 0 \<le> clifd \<and> clifd \<noteq> l \<and> who es0 clifd = None"
  shows "case select_iteration strerr op l x s of
      (Quit e, es) \<Rightarrow> right_user (es0 @ es) \<and> sys_error e
    | (Cont s', es) \<Rightarrow> linv l s' (es0 @ es) \<and> (l \<notin> sl_ready x \<longrightarrow> (\<forall>fd uid. fd \<in> sl_ready x \<and> who es0 fd = Some uid \<longrightarrow>
         Closed fd \<in> set es \<or> (\<exists>buf ms. Handled fd uid buf ms \<in> set es)))"
proof -
  let ?x = "x\<lparr>sl_ready := sl_ready x \<inter> v_allset s \<inter> {.. v_maxfd s}\<rparr>"
  have lx: "l \<in> sl_ready ?x \<longleftrightarrow> l \<in> sl_ready x" using assms(1) by (simp add: linv_def)
  have tab: "table_of (v_clients s) (who es0)" using assms(1) by (simp add: linv_def)
  show ?thesis
  proof (cases "l \<in> sl_ready x")
    case True
    show ?thesis
    proof (cases "sl_accept x")
      case (Inl e)
      then show ?thesis using True lx assms(1) by (simp add: select_iteration_def Let_def sys_error_def linv_def)
    next
      case (Inr a)
      obtain clifd uid where a: "a = (clifd, uid)" by fastforce
      have new: "0 \<le> clifd" "clifd \<noteq> l" "who es0 clifd = None" using assms(3) Inr a True by auto
      from table_add [OF tab new(3), of "sl_junk x" uid] new(1) obtain i cs where i:
        "client_add (sl_junk x) clifd uid (v_clients s) = Some (i, cs)" "table_of cs ((who es0)(clifd \<mapsto> uid))" "i < length cs"
        "c_fd (cs ! i) = clifd"
        "\<forall>k < length cs. c_fd (cs ! k) \<noteq> -1 \<longrightarrow> k = i \<or> (k < length (v_clients s) \<and> c_fd (v_clients s ! k) = c_fd (cs ! k))"
        by auto
      have ln: "v_maxi s < int (length cs)"
      proof (cases "0 \<le> v_maxi s")
        case True
        have "length (v_clients s) \<le> length cs"
          using i(1) add_again_Some [of "sl_junk x" clifd uid "if v_clients s = [] then client_alloc (sl_junk x) (v_clients s) else v_clients s"]
          by (auto simp: client_add_def client_alloc_def split: if_splits)
        then show ?thesis using assms(1) unfolding linv_def by linarith
      next
        case False
        then show ?thesis using i(3) by linarith
      qed
      let ?s = "s\<lparr>v_clients := cs, v_allset := insert clifd (v_allset s), v_maxfd := max clifd (v_maxfd s), v_maxi := max (int i) (v_maxi s)\<rparr>"
      have it: "select_iteration strerr op l x s = (Cont ?s, [Accepted clifd uid])"
        using True lx Inr a i(1) by (simp add: select_iteration_def Let_def)
      have ix: "\<forall>k < length cs. c_fd (cs ! k) \<noteq> -1 \<longrightarrow> int k \<le> max (int i) (v_maxi s)"
        using i(5) assms(1) unfolding linv_def by (metis max.cobounded1 max.coboundedI2)
      have "linv l ?s (es0 @ [Accepted clifd uid])"
        using assms(1) i(2,3) new ix ln by (auto simp: linv_def right_user_snoc)
      then show ?thesis using it True by simp
    qed
  next
    case False
    have it: "select_iteration strerr op l x s = all_clients strerr op ?x [0 ..< nat (v_maxi s + 1)] s"
      using False lx by (simp add: select_iteration_def Let_def)
    have "\<forall>i \<in> set [0 ..< nat (v_maxi s + 1)]. i < length (v_clients s)" using assms(1) by (auto simp: linv_def)
    note st = all_clients_step [OF assms(1) this distinct_upt, where strerr = strerr and op = op and x = ?x]
    obtain r es where r: "all_clients strerr op ?x [0 ..< nat (v_maxi s + 1)] s = (r, es)" by fastforce
    show ?thesis
    proof (cases r)
      case (Quit e)
      then show ?thesis using it r st by simp
    next
      case (Cont s')
      have srv: "Closed fd \<in> set es \<or> (\<exists>buf ms. Handled fd uid buf ms \<in> set es)"
        if "fd \<in> sl_ready x" "who es0 fd = Some uid" for fd uid
      proof -
        from tableD(3) [OF tab that(2)] obtain k where k: "k < length (v_clients s)" "c_fd (v_clients s ! k) = fd" by blast
        have f: "0 \<le> fd" "fd \<in> v_allset s" "fd \<le> v_maxfd s" using assms(1) that(2) unfolding linv_def by blast+
        then have "c_fd (v_clients s ! k) \<noteq> -1" using k(2) by simp
        then have "int k \<le> v_maxi s" "who es0 fd = Some (c_uid (v_clients s ! k))"
          using assms(1) k tableD(2) [OF tab k(1)] unfolding linv_def by auto
        then have "k \<in> set [0 ..< nat (v_maxi s + 1)]" "c_uid (v_clients s ! k) = uid" using that(2) by auto
        then have "served ?x (v_clients s ! k) es" using st r Cont by simp
        then show ?thesis using f k(2) that(1) \<open>c_uid (v_clients s ! k) = uid\<close> by (simp add: served_def)
      qed
      then show ?thesis using it r st Cont by simp
    qed
  qed
qed

lemma fresh_prefix: "fresh_fds l (es @ es') \<Longrightarrow> fresh_fds l es"
  unfolding fresh_fds_def by (metis append.assoc append_Cons)

lemma select_accepts:
  assumes "select_iteration strerr op l x s = (r, es)" and "sl_accept x = Inr (clifd, uid)" and "l \<in> sl_ready x" and "linv l s es0"
    and "fresh_fds l (es0 @ es)"
  shows "0 \<le> clifd \<and> clifd \<noteq> l \<and> who es0 clifd = None"
proof -
  have "l \<in> v_allset s" "l \<le> v_maxfd s" using assms(4) by (simp_all add: linv_def)
  moreover obtain i cs where "client_add (sl_junk x) clifd uid (v_clients s) = Some (i, cs)"
    using add_again_Some [of "sl_junk x" clifd uid] unfolding client_add_def by blast
  ultimately have "es = [Accepted clifd uid]" using assms(1,2,3) by (auto simp: select_iteration_def Let_def)
  then show ?thesis using assms(5) unfolding fresh_fds_def by blast
qed

lemma select_loop_inv:
  assumes "linv l s es0" and "0 \<le> l" and "select_loop strerr op l xs s = (r, es)" and "fresh_fds l (es0 @ es)"
  shows "case r of Quit e \<Rightarrow> right_user (es0 @ es) \<and> sys_error e | Cont s' \<Rightarrow> linv l s' (es0 @ es)"
  using assms(1,3,4)
proof (induction xs arbitrary: s es0 es)
  case Nil
  then show ?case by auto
next
  case (Cons x xs)
  obtain r1 es1 where it: "select_iteration strerr op l x s = (r1, es1)" by fastforce
  have pre: "\<exists>es2. es = es1 @ es2" using Cons.prems(2) it by (auto split: loop.splits prod.splits)
  then have fr: "fresh_fds l (es0 @ es1)" using Cons.prems(3) fresh_prefix by (metis append.assoc)
  have acc: "0 \<le> c \<and> c \<noteq> l \<and> who es0 c = None" if "sl_accept x = Inr (c, u)" "l \<in> sl_ready x" for c u
    by (rule select_accepts [OF it that Cons.prems(1) fr])
  note st = select_step [where x = x and strerr = strerr and op = op, OF Cons.prems(1) assms(2) acc]
  show ?case
  proof (cases r1)
    case (Quit e)
    then show ?thesis using st it Cons.prems(2) by auto
  next
    case (Cont s1)
    then have l1: "linv l s1 (es0 @ es1)" using st it by auto
    obtain r2 es2 where lo: "select_loop strerr op l xs s1 = (r2, es2)" by fastforce
    then have e: "es = es1 @ es2" "r = r2" using Cons.prems(2) it Cont by auto
    then have "fresh_fds l ((es0 @ es1) @ es2)" using Cons.prems(3) by simp
    from Cons.IH [OF l1 _ this] lo e show ?thesis by (simp split: loop.splits)
  qed
qed

lemma linv_start: "linv l (select_start l od) []"
  by (simp add: linv_def select_start_def table_of_def right_user_def)

section \<open>Properties\<close>

text \<open>
  C6.  The loop with \<open>select\<close>: over any run, every request is handled with the user of the connection
  it came over, whatever connections were opened and closed before and however the entries of the
  array were reused; the client array never fails to hold a connection; and an iteration without
  a new connection serves every client that is ready.
\<close>

theorem select_loop_right_user:
  assumes "0 \<le> l" and "select_loop strerr op l xs (select_start l od) = (r, es)" and "fresh_fds l es"
  shows "(\<forall>es1 fd uid buf ms es2. es = es1 @ Handled fd uid buf ms # es2 \<longrightarrow> who es1 fd = Some uid)
    \<and> (\<forall>e. r = Quit e \<longrightarrow> sys_error e)
    \<and> (\<forall>s x s' es' fd uid. r = Cont s \<and> select_iteration strerr op l x s = (Cont s', es') \<and> l \<notin> sl_ready x
          \<and> fd \<in> sl_ready x \<and> who es fd = Some uid \<longrightarrow>
         Closed fd \<in> set es' \<or> (\<exists>buf ms. Handled fd uid buf ms \<in> set es'))"
proof -
  have i: "case r of Quit e \<Rightarrow> right_user es \<and> sys_error e | Cont s' \<Rightarrow> linv l s' es"
    using select_loop_inv [OF linv_start assms(1,2)] assms(3) by (simp split: loop.splits)
  then have "right_user es" "\<forall>e. r = Quit e \<longrightarrow> sys_error e" by (auto simp: linv_def split: loop.splits)
  moreover have "Closed fd \<in> set es' \<or> (\<exists>buf ms. Handled fd uid buf ms \<in> set es')"
    if "r = Cont s" "select_iteration strerr op l x s = (Cont s', es')" "l \<notin> sl_ready x" "fd \<in> sl_ready x" "who es fd = Some uid"
    for s x s' es' fd uid
  proof -
    have "linv l s es" using i that(1) by simp
    from select_step [OF this assms(1), of x strerr op] that show ?thesis by simp
  qed
  ultimately show ?thesis unfolding right_user_def by blast
qed

lemma add_empty: "client_add j fd uid [] = Some (0, \<lparr>c_fd = fd, c_uid = uid\<rparr> # replicate 9 \<lparr>c_fd = -1, c_uid = j\<rparr>)"
proof -
  have "client_alloc j [] = \<lparr>c_fd = -1, c_uid = j\<rparr> # replicate 9 \<lparr>c_fd = -1, c_uid = j\<rparr>"
    by (simp add: client_alloc_def NALLOC_def numeral_eq_Suc)
  then show ?thesis by (simp add: client_add_def add_again.simps)
qed

lemma add_free: "find_client (-1) cs = Some i \<Longrightarrow> client_add j fd uid cs = Some (i, cs[i := \<lparr>c_fd = fd, c_uid = uid\<rparr>])"
  by (cases "cs = []") (auto simp: client_add_def add_again.simps)

theorem select_loop_right_user_witness:
  "\<forall>od. \<exists>s ms. select_loop (\<lambda>_. []) (\<lambda>_ _. Inl 2) 3
      [\<lparr>sl_ready = {3}, sl_accept = Inr (5, 100), sl_read = \<lambda>_. Rd_error, sl_junk = 0\<rparr>,
       \<lparr>sl_ready = {5}, sl_accept = Inl 0, sl_read = \<lambda>_. Data ''x'', sl_junk = 0\<rparr>] (select_start 3 od)
    = (Cont s, [Accepted 5 100, Handled 5 100 ''x'' ms])"
proof
  fix od
  let ?xs = "[\<lparr>sl_ready = {3}, sl_accept = Inr (5, 100), sl_read = \<lambda>_. Rd_error, sl_junk = 0\<rparr>,
       \<lparr>sl_ready = {5}, sl_accept = Inl 0, sl_read = \<lambda>_. Data ''x'', sl_junk = 0\<rparr>]"
  obtain ms od' where h: "handle_request (\<lambda>_. []) (\<lambda>_ _. Inl 2) ''x'' 100 od = (ms, od')" by fastforce
  have "\<exists>s uid. select_loop (\<lambda>_. []) (\<lambda>_ _. Inl 2) 3 ?xs (select_start 3 od) = (Cont s, [Accepted 5 100, Handled 5 uid ''x'' ms])"
    using h by (simp add: select_iteration_def Let_def select_start_def add_empty one_client_def)
  then obtain s uid where s: "select_loop (\<lambda>_. []) (\<lambda>_ _. Inl 2) 3 ?xs (select_start 3 od) = (Cont s, [Accepted 5 100, Handled 5 uid ''x'' ms])" by blast
  have "fresh_fds 3 [Accepted 5 100, Handled 5 uid ''x'' ms]"
    by (auto simp: fresh_fds_def Cons_eq_append_conv)
  from select_loop_right_user [OF _ s this] have "who [Accepted 5 100] 5 = Some uid" by force
  then have "uid = 100" by (simp add: who_def)
  with s show "\<exists>s ms. select_loop (\<lambda>_. []) (\<lambda>_ _. Inl 2) 3 ?xs (select_start 3 od) = (Cont s, [Accepted 5 100, Handled 5 100 ''x'' ms])" by blast
qed

text \<open>
  The loop with \<open>poll\<close> does not have this property: it looks the user up at the index in the
  array of descriptors, which is packed when a client leaves, while the array of clients is not.
  After three connections and the first one closed, a request over the third is handled with the
  user of the first, which is gone.
\<close>

theorem poll_loop_wrong_user:
  assumes "buf \<noteq> []"
  shows "\<exists>s r ms. poll_start j 3 od = Some s \<and> poll_loop strerr op 3
      [\<lparr>pl_events = (\<lambda>fd. (False, fd = 3)), pl_accept = Inr (5, u1), pl_read = (\<lambda>_. Data []), pl_junk = j\<rparr>,
       \<lparr>pl_events = (\<lambda>fd. (False, fd = 3)), pl_accept = Inr (6, u2), pl_read = (\<lambda>_. Data []), pl_junk = j\<rparr>,
       \<lparr>pl_events = (\<lambda>fd. (False, fd = 3)), pl_accept = Inr (7, u3), pl_read = (\<lambda>_. Data []), pl_junk = j\<rparr>,
       \<lparr>pl_events = (\<lambda>fd. (fd = 5, fd = 7)), pl_accept = Inl 0, pl_read = (\<lambda>_. Data buf), pl_junk = j\<rparr>] s
    = (r, [Accepted 5 u1, Accepted 6 u2, Accepted 7 u3, Closed 5, Handled 7 u1 buf ms])
    \<and> who [Accepted 5 u1, Accepted 6 u2, Accepted 7 u3, Closed 5] 7 = Some u3"
proof -
  obtain ms od' where h: "handle_request strerr op buf u1 od = (ms, od')" by fastforce
  define e where "e = \<lparr>p_fd = -1, p_revents = (False, False)\<rparr>"
  have ten: "replicate NALLOC \<lparr>p_fd = -1, p_revents = (False, False)\<rparr> = [e, e, e, e, e, e, e, e, e, e]"
    by (simp add: NALLOC_def numeral_eq_Suc e_def)
  define c where "c = \<lparr>c_fd = -1, c_uid = j\<rparr>"
  have nine: "replicate 9 \<lparr>c_fd = -1, c_uid = j\<rparr> = [c, c, c, c, c, c, c, c, c]" by (simp add: numeral_eq_Suc c_def)
  have cf: "c_fd c = -1" by (simp add: c_def)
  let ?p = "\<lambda>fd b. \<lparr>p_fd = fd, p_revents = (False, b)\<rparr>" and ?c = "\<lambda>fd u. \<lparr>c_fd = fd, c_uid = u\<rparr>"
  let ?acc = "\<lambda>fd u. \<lparr>pl_events = (\<lambda>fd. (False, fd = 3)), pl_accept = Inr (fd, u), pl_read = (\<lambda>_. Data []), pl_junk = j\<rparr>"
  have s0: "poll_start j 3 od = Some \<lparr>q_clients = [?c 3 0, c, c, c, c, c, c, c, c, c], q_pollfd = [?p 3 False, e, e, e, e, e, e, e, e, e], q_numfd = 1, q_opend = od\<rparr>"
    by (simp add: poll_start_def add_empty ten nine)
  have s1: "poll_iteration strerr op 3 (?acc 5 u1) \<lparr>q_clients = [?c 3 0, c, c, c, c, c, c, c, c, c], q_pollfd = [?p 3 False, e, e, e, e, e, e, e, e, e], q_numfd = 1, q_opend = od\<rparr>
    = (Cont \<lparr>q_clients = [?c 3 0, ?c 5 u1, c, c, c, c, c, c, c, c], q_pollfd = [?p 3 True, ?p 5 False, e, e, e, e, e, e, e, e], q_numfd = 2, q_opend = od\<rparr>, [Accepted 5 u1])"
    by (simp add: poll_iteration_def add_free [of _ 1] cf upt_rec numeral_eq_Suc poll_clients.simps)
  have s2: "poll_iteration strerr op 3 (?acc 6 u2) \<lparr>q_clients = [?c 3 0, ?c 5 u1, c, c, c, c, c, c, c, c], q_pollfd = [?p 3 True, ?p 5 False, e, e, e, e, e, e, e, e], q_numfd = 2, q_opend = od\<rparr>
    = (Cont \<lparr>q_clients = [?c 3 0, ?c 5 u1, ?c 6 u2, c, c, c, c, c, c, c], q_pollfd = [?p 3 True, ?p 5 False, ?p 6 False, e, e, e, e, e, e, e], q_numfd = 3, q_opend = od\<rparr>, [Accepted 6 u2])"
    by (simp add: poll_iteration_def add_free [of _ 2] cf upt_rec numeral_eq_Suc poll_clients.simps)
  have s3: "poll_iteration strerr op 3 (?acc 7 u3) \<lparr>q_clients = [?c 3 0, ?c 5 u1, ?c 6 u2, c, c, c, c, c, c, c], q_pollfd = [?p 3 True, ?p 5 False, ?p 6 False, e, e, e, e, e, e, e], q_numfd = 3, q_opend = od\<rparr>
    = (Cont \<lparr>q_clients = [?c 3 0, ?c 5 u1, ?c 6 u2, ?c 7 u3, c, c, c, c, c, c], q_pollfd = [?p 3 True, ?p 5 False, ?p 6 False, ?p 7 False, e, e, e, e, e, e], q_numfd = 4, q_opend = od\<rparr>, [Accepted 7 u3])"
    by (simp add: poll_iteration_def add_free [of _ 3] cf upt_rec numeral_eq_Suc poll_clients.simps)
  have s4: "\<exists>r. poll_iteration strerr op 3 \<lparr>pl_events = (\<lambda>fd. (fd = 5, fd = 7)), pl_accept = Inl 0, pl_read = (\<lambda>_. Data buf), pl_junk = j\<rparr>
      \<lparr>q_clients = [?c 3 0, ?c 5 u1, ?c 6 u2, ?c 7 u3, c, c, c, c, c, c], q_pollfd = [?p 3 True, ?p 5 False, ?p 6 False, ?p 7 False, e, e, e, e, e, e], q_numfd = 4, q_opend = od\<rparr>
    = (Cont r, [Closed 5, Handled 7 u1 buf ms])"
    using assms h by (simp add: poll_iteration_def hung_up_def client_del_def cf upt_rec numeral_eq_Suc poll_clients.simps Let_def)
  show ?thesis using s0 s1 s2 s3 s4 by (auto simp: who_def)
qed

theorem poll_loop_wrong_user_witness:
  "\<forall>od. \<exists>s r ms. poll_start 0 3 od = Some s \<and> poll_loop (\<lambda>_. []) (\<lambda>_ _. Inl 2) 3
      [\<lparr>pl_events = (\<lambda>fd. (False, fd = 3)), pl_accept = Inr (5, 100), pl_read = (\<lambda>_. Data []), pl_junk = 0\<rparr>,
       \<lparr>pl_events = (\<lambda>fd. (False, fd = 3)), pl_accept = Inr (6, 101), pl_read = (\<lambda>_. Data []), pl_junk = 0\<rparr>,
       \<lparr>pl_events = (\<lambda>fd. (False, fd = 3)), pl_accept = Inr (7, 102), pl_read = (\<lambda>_. Data []), pl_junk = 0\<rparr>,
       \<lparr>pl_events = (\<lambda>fd. (fd = 5, fd = 7)), pl_accept = Inl 0, pl_read = (\<lambda>_. Data ''x''), pl_junk = 0\<rparr>] s
    = (r, [Accepted 5 100, Accepted 6 101, Accepted 7 102, Closed 5, Handled 7 100 ''x'' ms])"
  using poll_loop_wrong_user [of "''x''" 0 _ "\<lambda>_. []" "\<lambda>_ _. Inl 2" 100 101 102] by blast

end
