(* ===== verification/Par_Sort.thy ===== *)
theory Par_Sort
  imports Prelude "HOL-Library.Multiset" "HOL-Library.Monad_Syntax"
begin

text \<open>
  The parallel sort of \<open>apue.3e/threads/barrier.c\<close>: threads sort the ranges of an array, meet at a
  barrier, and the main thread merges the ranges.  A \<open>long\<close> is an integer up to \<open>LONG_MAX\<close>; the
  number of threads and of numbers per thread are arguments, of which the program has 8 and
  1000000.  \<open>heapsort\<close> is a function of the C library, an argument too.
\<close>

section \<open>The program\<close>

definition LONG_MAX :: int where "LONG_MAX = 9223372036854775807"

definition NTHR :: nat where "NTHR = 8"
definition NUMNUM :: nat where "NUMNUM = 8000000"
definition TNUM :: nat where "TNUM = NUMNUM div NTHR"

definition complong :: "int \<Rightarrow> int \<Rightarrow> int" where
  "complong l1 l2 = (if l1 = l2 then 0 else if l1 < l2 then -1 else 1)"

text \<open>A thread sorts its range, from \<open>idx\<close>.\<close>

definition thr_fn :: "((int \<Rightarrow> int \<Rightarrow> int) \<Rightarrow> int list \<Rightarrow> int list) \<Rightarrow> nat \<Rightarrow> nat \<Rightarrow> int list \<Rightarrow> int list" where
  "thr_fn heapsort tnum idx nums =
     take idx nums @ heapsort complong (take tnum (drop idx nums)) @ drop (idx + tnum) nums"

text \<open>The inner loop of \<open>merge\<close>: the smallest number in front of a range, and its range.\<close>

fun find_min :: "nat \<Rightarrow> int list \<Rightarrow> nat list \<Rightarrow> nat list \<Rightarrow> int \<times> nat option \<Rightarrow> int \<times> nat option" where
  "find_min tnum nums idx [] (num, minidx) = (num, minidx)"
| "find_min tnum nums idx (i # is) (num, minidx) =
     find_min tnum nums idx is
       (if idx ! i < (i + 1) * tnum \<and> nums ! (idx ! i) < num then (nums ! (idx ! i), Some i) else (num, minidx))"

text \<open>
  The outer loop, \<open>k\<close> times.  \<open>minidx\<close> keeps its value from one round to the next; before it has
  one, and outside the array, the code is undefined (\<open>None\<close>).
\<close>

fun merge_loop :: "nat \<Rightarrow> nat \<Rightarrow> int list \<Rightarrow> nat \<Rightarrow> nat list \<Rightarrow> nat option \<Rightarrow> int list option" where
  "merge_loop nthr tnum nums 0 idx minidx = Some []"
| "merge_loop nthr tnum nums (Suc k) idx minidx =
     (case snd (find_min tnum nums idx [0 ..< nthr] (LONG_MAX, minidx)) of
        None \<Rightarrow> None
      | Some m \<Rightarrow>
        if idx ! m < length nums
        then map_option ((#) (nums ! (idx ! m))) (merge_loop nthr tnum nums k (idx[m := idx ! m + 1]) (Some m))
        else None)"

definition merge :: "nat \<Rightarrow> nat \<Rightarrow> int list \<Rightarrow> int list option" where
  "merge nthr tnum nums = merge_loop nthr tnum nums (nthr * tnum) (map (\<lambda>i. i * tnum) [0 ..< nthr]) None"

text \<open>The threads run in any order \<open>ord\<close>; the barrier lets \<open>merge\<close> start when all are done.\<close>

definition par_sort :: "((int \<Rightarrow> int \<Rightarrow> int) \<Rightarrow> int list \<Rightarrow> int list) \<Rightarrow> nat \<Rightarrow> nat \<Rightarrow> nat list \<Rightarrow> int list \<Rightarrow> int list option" where
  "par_sort heapsort nthr tnum ord nums = merge nthr tnum (fold (\<lambda>i. thr_fn heapsort tnum (i * tnum)) ord nums)"

section \<open>Merging\<close>

definition rest :: "nat \<Rightarrow> int list \<Rightarrow> nat list \<Rightarrow> nat \<Rightarrow> int list" where
  "rest tnum nums idx i = take ((i + 1) * tnum - idx ! i) (drop (idx ! i) nums)"

definition left :: "nat \<Rightarrow> nat \<Rightarrow> int list \<Rightarrow> nat list \<Rightarrow> int multiset" where
  "left nthr tnum nums idx = (\<Sum>i < nthr. mset (rest tnum nums idx i))"

definition idx_ok :: "nat \<Rightarrow> nat \<Rightarrow> nat list \<Rightarrow> bool" where
  "idx_ok nthr tnum idx \<longleftrightarrow> length idx = nthr \<and> (\<forall>i < nthr. i * tnum \<le> idx ! i \<and> idx ! i \<le> (i + 1) * tnum)"

lemma find_min_spec:
  assumes "find_min tnum nums idx is (num, mi) = (num', mi')"
  shows "num' \<le> num \<and> (\<forall>i \<in> set is. idx ! i < (i + 1) * tnum \<longrightarrow> num' \<le> nums ! (idx ! i))
    \<and> ((num' = num \<and> mi' = mi) \<or> (\<exists>m \<in> set is. mi' = Some m \<and> idx ! m < (m + 1) * tnum \<and> num' = nums ! (idx ! m)))"
  using assms
proof (induction "is" arbitrary: num mi)
  case (Cons i "is")
  show ?case
  proof (cases "idx ! i < (i + 1) * tnum \<and> nums ! (idx ! i) < num")
    case True
    then have "find_min tnum nums idx is (nums ! (idx ! i), Some i) = (num', mi')" using Cons.prems by simp
    from Cons.IH [OF this] True show ?thesis by fastforce
  next
    case False
    then have "find_min tnum nums idx is (num, mi) = (num', mi')" using Cons.prems by (simp split: if_splits)
    from Cons.IH [OF this] False show ?thesis by fastforce
  qed
qed simp

lemma rest_Cons:
  assumes "idx ! i < (i + 1) * tnum" and "idx ! i < length nums"
  shows "rest tnum nums idx i = nums ! (idx ! i) # take ((i + 1) * tnum - Suc (idx ! i)) (drop (Suc (idx ! i)) nums)"
proof -
  have "(i + 1) * tnum - idx ! i = Suc ((i + 1) * tnum - Suc (idx ! i))" using assms(1) by simp
  then show ?thesis using Cons_nth_drop_Suc [OF assms(2)] by (metis rest_def take_Suc_Cons)
qed

lemma left_step:
  assumes "idx_ok nthr tnum idx" and "m < nthr" and "idx ! m < (m + 1) * tnum" and "idx ! m < length nums"
  shows "left nthr tnum nums idx = add_mset (nums ! (idx ! m)) (left nthr tnum nums (idx[m := idx ! m + 1]))"
proof -
  let ?j = "idx[m := idx ! m + 1]"
  have l: "length idx = nthr" using assms(1) by (simp add: idx_ok_def)
  have o: "rest tnum nums ?j i = rest tnum nums idx i" if "i \<noteq> m" for i using that by (simp add: rest_def)
  have "mset (rest tnum nums idx m) = add_mset (nums ! (idx ! m)) (mset (rest tnum nums ?j m))"
    using rest_Cons [OF assms(3,4)] l assms(2) by (simp add: rest_def)
  moreover have "(\<Sum>i \<in> {..<nthr} - {m}. mset (rest tnum nums ?j i)) = (\<Sum>i \<in> {..<nthr} - {m}. mset (rest tnum nums idx i))"
    by (rule sum.cong) (use o in auto)
  ultimately show ?thesis unfolding left_def using assms(2)
    by (simp add: sum.remove [of "{..<nthr}" m])
qed

lemma rest_head:
  assumes "sorted (rest tnum nums idx i)" and "idx ! i < length nums" and "x \<in> set (rest tnum nums idx i)"
  shows "idx ! i < (i + 1) * tnum \<and> nums ! (idx ! i) \<le> x"
proof -
  have "idx ! i < (i + 1) * tnum" by (rule ccontr) (use assms(3) in \<open>simp add: rest_def\<close>)
  then show ?thesis using assms rest_Cons [of idx i tnum nums] by auto
qed

lemma left_member: "x \<in># left nthr tnum nums idx \<longleftrightarrow> (\<exists>i < nthr. x \<in> set (rest tnum nums idx i))"
  by (simp add: left_def set_mset_sum Bex_def)

lemma merge_loop_sorts:
  assumes "length nums = nthr * tnum" and "idx_ok nthr tnum idx" and "\<forall>i < nthr. sorted (rest tnum nums idx i)"
    and "\<forall>x \<in> set nums. x < LONG_MAX" and "size (left nthr tnum nums idx) = k"
  shows "\<exists>out. merge_loop nthr tnum nums k idx mi = Some out \<and> sorted out \<and> mset out = left nthr tnum nums idx"
  using assms(2,3,5)
proof (induction k arbitrary: idx mi)
  case 0
  then show ?case by simp
next
  case (Suc k)
  have bound: "idx ! i < length nums" if "i < nthr" "idx ! i < (i + 1) * tnum" for i
  proof -
    have "(i + 1) * tnum \<le> nthr * tnum" using that(1) by (intro mult_le_mono1) simp
    then show ?thesis using that(2) assms(1) by linarith
  qed
  obtain num mi' where f: "find_min tnum nums idx [0 ..< nthr] (LONG_MAX, mi) = (num, mi')" by fastforce
  note sp = find_min_spec [OF f]
  have low: "idx ! i < (i + 1) * tnum \<and> nums ! (idx ! i) \<le> x" if "i < nthr" "x \<in> set (rest tnum nums idx i)" for i x
  proof -
    have "idx ! i < (i + 1) * tnum" by (rule ccontr) (use that(2) in \<open>simp add: rest_def\<close>)
    then show ?thesis using rest_head [OF _ bound that(2)] Suc.prems(2) that(1) by blast
  qed
  have "left nthr tnum nums idx \<noteq> {#}" using Suc.prems(3) by auto
  then obtain x i where x: "i < nthr" "x \<in> set (rest tnum nums idx i)" using left_member by (meson multiset_nonemptyE)
  have "nums ! (idx ! i) \<in> set nums" using bound [OF x(1)] low [OF x] by simp
  then have "num < LONG_MAX" using sp x(1) low [OF x] assms(4) by fastforce
  then obtain m where m: "m < nthr" "mi' = Some m" "idx ! m < (m + 1) * tnum" "num = nums ! (idx ! m)" using sp by auto
  have least: "num \<le> y" if y: "y \<in># left nthr tnum nums idx" for y
  proof -
    obtain j where j: "j < nthr" "y \<in> set (rest tnum nums idx j)" using y left_member by blast
    then have "num \<le> nums ! (idx ! j)" using low [OF j] sp by simp
    then show ?thesis using low [OF j] by simp
  qed
  let ?j = "idx[m := idx ! m + 1]"
  have l: "length idx = nthr" using Suc.prems(1) by (simp add: idx_ok_def)
  have st: "left nthr tnum nums idx = add_mset num (left nthr tnum nums ?j)"
    using left_step [OF Suc.prems(1) m(1,3) bound [OF m(1,3)]] m(4) by simp
  have ok: "idx_ok nthr tnum ?j"
    using Suc.prems(1) m(1,3) by (auto simp: idx_ok_def nth_list_update)
  have srt: "\<forall>i < nthr. sorted (rest tnum nums ?j i)"
  proof (intro allI impI)
    fix i assume i: "i < nthr"
    show "sorted (rest tnum nums ?j i)"
    proof (cases "i = m")
      case True
      then show ?thesis using rest_Cons [OF m(3) bound [OF m(1,3)]] Suc.prems(2) m(1) l by (auto simp: rest_def)
    next
      case False
      then show ?thesis using Suc.prems(2) i by (simp add: rest_def)
    qed
  qed
  have "size (left nthr tnum nums ?j) = k" using Suc.prems(3) st by simp
  from Suc.IH [OF ok srt this, of "Some m"] obtain out where
    out: "merge_loop nthr tnum nums k ?j (Some m) = Some out" "sorted out" "mset out = left nthr tnum nums ?j" by blast
  have "merge_loop nthr tnum nums (Suc k) idx mi = Some (num # out)"
    using f m out(1) bound [OF m(1,3)] by simp
  moreover have "sorted (num # out)"
  proof -
    have "num \<le> y" if "y \<in> set out" for y
      using least [of y] that st out(3) by (metis set_mset_mset union_iff add_mset_add_single)
    then show ?thesis using out(2) by simp
  qed
  moreover have "mset (num # out) = left nthr tnum nums idx" using out(3) st by simp
  ultimately show ?case by blast
qed

section \<open>The threads\<close>

definition range_of :: "nat \<Rightarrow> nat \<Rightarrow> int list \<Rightarrow> int list" where
  "range_of tnum i nums = take tnum (drop (i * tnum) nums)"

text \<open>
  What the manual says of \<open>heapsort\<close>: it permutes its array, and leaves it in the order of the
  comparison function when that is an order.
\<close>

definition sorts_by :: "((int \<Rightarrow> int \<Rightarrow> int) \<Rightarrow> int list \<Rightarrow> int list) \<Rightarrow> bool" where
  "sorts_by heapsort \<longleftrightarrow> (\<forall>cmp xs. mset (heapsort cmp xs) = mset xs
     \<and> ((\<forall>a b. cmp a b \<le> 0 \<or> cmp b a \<le> 0) \<and> (\<forall>a b c. cmp a b \<le> 0 \<longrightarrow> cmp b c \<le> 0 \<longrightarrow> cmp a c \<le> 0)
        \<longrightarrow> sorted_wrt (\<lambda>a b. cmp a b \<le> 0) (heapsort cmp xs)))"

lemma complong_le: "complong a b \<le> 0 \<longleftrightarrow> a \<le> b"
  by (auto simp: complong_def)

lemma heapsort_complong:
  assumes "sorts_by heapsort"
  shows "mset (heapsort complong xs) = mset xs" and "sorted (heapsort complong xs)" and "length (heapsort complong xs) = length xs"
proof -
  have "mset (heapsort complong xs) = mset xs \<and> sorted_wrt (\<lambda>a b. complong a b \<le> 0) (heapsort complong xs)"
  proof -
    have o: "\<forall>a b. complong a b \<le> 0 \<or> complong b a \<le> 0"
      "\<forall>a b c. complong a b \<le> 0 \<longrightarrow> complong b c \<le> 0 \<longrightarrow> complong a c \<le> 0"
      by (auto simp: complong_le)
    from assms [unfolded sorts_by_def, rule_format, of complong xs] o show ?thesis by blast
  qed
  then show m: "mset (heapsort complong xs) = mset xs" and "sorted (heapsort complong xs)"
    by (simp_all add: complong_le)
  show "length (heapsort complong xs) = length xs" using m by (rule mset_eq_length)
qed

lemma range_thr:
  assumes "sorts_by heapsort" and "length nums = nthr * tnum" and "i < nthr" and "k < nthr"
  shows "length (thr_fn heapsort tnum (i * tnum) nums) = nthr * tnum"
    and "range_of tnum k (thr_fn heapsort tnum (i * tnum) nums)
      = (if k = i then heapsort complong (range_of tnum i nums) else range_of tnum k nums)"
proof -
  let ?h = "heapsort complong (take tnum (drop (i * tnum) nums))"
  have "(i + 1) * tnum \<le> nthr * tnum" using assms(3) by (intro mult_le_mono1) simp
  then have it: "i * tnum + tnum \<le> length nums" using assms(2) by simp
  then have lh: "length ?h = tnum" using heapsort_complong(3) [OF assms(1)] by simp
  show "length (thr_fn heapsort tnum (i * tnum) nums) = nthr * tnum"
    using it lh assms(2) by (simp add: thr_fn_def)
  show "range_of tnum k (thr_fn heapsort tnum (i * tnum) nums)
      = (if k = i then heapsort complong (range_of tnum i nums) else range_of tnum k nums)"
  proof (cases rule: linorder_cases [of k i])
    case less
    then have "(k + 1) * tnum \<le> i * tnum" by (intro mult_le_mono1) simp
    then have "k * tnum + tnum \<le> i * tnum" by simp
    then show ?thesis using less it lh heapsort_complong(3) [OF assms(1), of "[]"]
      by (simp add: range_of_def thr_fn_def drop_take min_def)
  next
    case equal
    then show ?thesis using it lh by (simp add: range_of_def thr_fn_def)
  next
    case greater
    then have "(i + 1) * tnum \<le> k * tnum" by (intro mult_le_mono1) simp
    then have "i * tnum + tnum \<le> k * tnum" by simp
    then show ?thesis using greater it lh by (simp add: range_of_def thr_fn_def)
  qed
qed

lemma range_threads:
  assumes "sorts_by heapsort" and "length nums = nthr * tnum" and "set ord \<subseteq> {..<nthr}" and "distinct ord"
  shows "length (fold (\<lambda>i. thr_fn heapsort tnum (i * tnum)) ord nums) = nthr * tnum
    \<and> (\<forall>k < nthr. range_of tnum k (fold (\<lambda>i. thr_fn heapsort tnum (i * tnum)) ord nums)
        = (if k \<in> set ord then heapsort complong (range_of tnum k nums) else range_of tnum k nums))"
  using assms(2-4)
proof (induction ord arbitrary: nums)
  case (Cons i ord)
  have i: "i < nthr" using Cons.prems(2) by simp
  let ?n = "thr_fn heapsort tnum (i * tnum) nums"
  have l: "length ?n = nthr * tnum" using range_thr(1) [OF assms(1) Cons.prems(1) i i] .
  from Cons.IH [OF l] Cons.prems(2,3) have ih: "length (fold (\<lambda>i. thr_fn heapsort tnum (i * tnum)) ord ?n) = nthr * tnum"
    "\<forall>k < nthr. range_of tnum k (fold (\<lambda>i. thr_fn heapsort tnum (i * tnum)) ord ?n)
        = (if k \<in> set ord then heapsort complong (range_of tnum k ?n) else range_of tnum k ?n)" by auto
  then show ?case using range_thr(2) [OF assms(1) Cons.prems(1) i] Cons.prems(3) by auto
qed simp

lemma mset_ranges: "mset (take (n * tnum) nums) = (\<Sum>i < n. mset (range_of tnum i nums))"
proof (induction n)
  case (Suc n)
  have "take (Suc n * tnum) nums = take (n * tnum) nums @ range_of tnum n nums"
    by (metis add.commute mult_Suc range_of_def take_add)
  then show ?case using Suc by simp
qed simp

lemma merge_sorts:
  assumes "length nums = nthr * tnum" and "\<forall>i < nthr. sorted (range_of tnum i nums)" and "\<forall>x \<in> set nums. x < LONG_MAX"
  shows "\<exists>out. merge nthr tnum nums = Some out \<and> sorted out \<and> mset out = mset nums"
proof -
  let ?idx = "map (\<lambda>i. i * tnum) [0 ..< nthr]"
  have r: "rest tnum nums ?idx i = range_of tnum i nums" if "i < nthr" for i
    using that by (simp add: rest_def range_of_def)
  have L: "left nthr tnum nums ?idx = mset nums"
    using mset_ranges [of nthr tnum nums] assms(1) r by (simp add: left_def)
  have ok: "idx_ok nthr tnum ?idx" by (simp add: idx_ok_def)
  have s: "\<forall>i < nthr. sorted (rest tnum nums ?idx i)" using assms(2) r by simp
  have "size (left nthr tnum nums ?idx) = nthr * tnum" using L assms(1) by simp
  from merge_loop_sorts [OF assms(1) ok s assms(3) this, of None] L show ?thesis by (simp add: merge_def)
qed

section \<open>Properties\<close>

text \<open>
  Whatever order the threads run in, the merged array is a sorted permutation of the numbers,
  as long as these are below \<open>LONG_MAX\<close> (\<open>random\<close> gives no others); \<open>merge\<close> uses no index before it
  has one and stays inside the array.
\<close>

theorem par_sort_sorts:
  assumes "sorts_by heapsort" and "length nums = nthr * tnum" and "set ord = {..<nthr}" and "distinct ord"
    and "\<forall>x \<in> set nums. x < LONG_MAX"
  shows "\<exists>out. par_sort heapsort nthr tnum ord nums = Some out \<and> sorted out \<and> mset out = mset nums"
proof -
  let ?n = "fold (\<lambda>i. thr_fn heapsort tnum (i * tnum)) ord nums"
  note rt = range_threads [OF assms(1,2) _ assms(4)]
  have l: "length ?n = nthr * tnum" and r: "\<forall>k < nthr. range_of tnum k ?n = heapsort complong (range_of tnum k nums)"
    using rt assms(3) by auto
  have m: "mset ?n = mset nums"
    using mset_ranges [of nthr tnum ?n] mset_ranges [of nthr tnum nums] l assms(2) r heapsort_complong(1) [OF assms(1)] by simp
  then have "set ?n = set nums" by (metis set_mset_mset)
  with merge_sorts [OF l] r heapsort_complong(2) [OF assms(1)] assms(5) m show ?thesis by (simp add: par_sort_def)
qed

text \<open>A sort by any comparison function, for the witness: insertion.\<close>

fun ins_by :: "(int \<Rightarrow> int \<Rightarrow> int) \<Rightarrow> int \<Rightarrow> int list \<Rightarrow> int list" where
  "ins_by cmp x [] = [x]"
| "ins_by cmp x (y # ys) = (if cmp x y \<le> 0 then x # y # ys else y # ins_by cmp x ys)"

definition ins_sort :: "(int \<Rightarrow> int \<Rightarrow> int) \<Rightarrow> int list \<Rightarrow> int list" where
  "ins_sort cmp xs = foldr (ins_by cmp) xs []"

lemma mset_ins_by: "mset (ins_by cmp x ys) = add_mset x (mset ys)"
  by (induction ys) auto

lemma set_ins_by: "set (ins_by cmp x ys) = insert x (set ys)"
  by (metis mset_ins_by set_mset_add_mset_insert set_mset_mset)

lemma sorted_ins_by:
  assumes "\<forall>a b. cmp a b \<le> 0 \<or> cmp b a \<le> 0" and "\<forall>a b c. cmp a b \<le> 0 \<longrightarrow> cmp b c \<le> 0 \<longrightarrow> cmp a c \<le> 0"
    and "sorted_wrt (\<lambda>a b. cmp a b \<le> 0) ys"
  shows "sorted_wrt (\<lambda>a b. cmp a b \<le> 0) (ins_by cmp x ys)"
  using assms(3)
proof (induction ys)
  case (Cons y ys)
  then show ?case using assms(1,2) by (auto simp: set_ins_by)
qed simp

lemma ins_sort_sorts: "sorts_by ins_sort"
proof -
  have "mset (ins_sort cmp xs) = mset xs" for cmp xs
    by (induction xs) (simp_all add: ins_sort_def mset_ins_by)
  moreover have "sorted_wrt (\<lambda>a b. cmp a b \<le> 0) (ins_sort cmp xs)"
    if "\<forall>a b. cmp a b \<le> 0 \<or> cmp b a \<le> 0" "\<forall>a b c. cmp a b \<le> 0 \<longrightarrow> cmp b c \<le> 0 \<longrightarrow> cmp a c \<le> 0" for cmp xs
    by (induction xs) (simp_all add: ins_sort_def sorted_ins_by [OF that])
  ultimately show ?thesis by (simp add: sorts_by_def)
qed

theorem par_sort_sorts_witness:
  "\<exists>out. par_sort ins_sort 2 2 [1, 0] [3, 1, 2, -5] = Some out \<and> sorted out \<and> mset out = mset [3, 1, 2, -5]"
  by (rule par_sort_sorts [OF ins_sort_sorts]) (auto simp: LONG_MAX_def)

end
