(* ===== verification/Index_Count.thy ===== *)
theory Index_Count
  imports Main
begin

text \<open>Counting the threads, files or children with a property: indices below a bound.\<close>

definition count :: "nat \<Rightarrow> (nat \<Rightarrow> bool) \<Rightarrow> nat" where
  "count n P = card {i. i < n \<and> P i}"

lemma count_upd:
  assumes "i < n"
  shows "count n (\<lambda>k. P ((f(i := x)) k) ((g(i := y)) k)) + of_bool (P (f i) (g i)) = count n (\<lambda>k. P (f k) (g k)) + of_bool (P x y)"
proof -
  let ?R = "{k. k < n \<and> k \<noteq> i \<and> P (f k) (g k)}"
  have a: "{k. k < n \<and> P ((f(i := x)) k) ((g(i := y)) k)} = (if P x y then insert i ?R else ?R)" using assms by auto
  have b: "{k. k < n \<and> P (f k) (g k)} = (if P (f i) (g i) then insert i ?R else ?R)" using assms by auto
  have "card (insert i ?R) = Suc (card ?R)" by (rule card_insert_disjoint) auto
  then show ?thesis unfolding count_def a b by simp
qed

lemma count_both_upd:
  assumes "i < n"
  shows "int (count n (\<lambda>k. P ((f(i := x)) k) ((g(i := y)) k))) = int (count n (\<lambda>k. P (f k) (g k))) - of_bool (P (f i) (g i)) + of_bool (P x y)"
proof -
  have "int (count n (\<lambda>k. P ((f(i := x)) k) ((g(i := y)) k)) + of_bool (P (f i) (g i))) = int (count n (\<lambda>k. P (f k) (g k)) + of_bool (P x y))"
    using count_upd [OF assms] by (rule arg_cong)
  then show ?thesis unfolding of_nat_add of_nat_of_bool by linarith
qed

lemma count_flag_upd: "i < n \<Longrightarrow> int (count n (\<lambda>k. P ((f(i := x)) k))) = int (count n (\<lambda>k. P (f k))) - of_bool (P (f i)) + of_bool (P x)"
  by (rule count_both_upd [of i n "\<lambda>a b. P a" f x f x])

lemma count_mono: "(\<And>i. i < n \<Longrightarrow> P i \<Longrightarrow> Q i) \<Longrightarrow> count n P \<le> count n Q"
  unfolding count_def by (rule card_mono) auto

lemma count_less: "(\<And>i. i < n \<Longrightarrow> P i \<Longrightarrow> Q i) \<Longrightarrow> j < n \<Longrightarrow> Q j \<Longrightarrow> \<not> P j \<Longrightarrow> count n P < count n Q"
  unfolding count_def by (rule psubset_card_mono) auto

lemma count_pos: "0 < count n P \<longleftrightarrow> (\<exists>i < n. P i)"
  unfolding count_def by (subst card_gt_0_iff) auto

lemma count_zero: "count n P = 0 \<longleftrightarrow> (\<forall>i < n. \<not> P i)"
  using count_pos [of n P] by auto

text \<open>The first index with a property, the bound if there is none: a search loop with \<open>break\<close>.\<close>

definition first_index :: "nat \<Rightarrow> (nat \<Rightarrow> bool) \<Rightarrow> nat" where
  "first_index n P = length (takeWhile (\<lambda>i. \<not> P i) [0 ..< n])"

lemma first_index_le: "first_index n P \<le> n"
  using length_takeWhile_le [of _ "[0 ..< n]"] by (simp add: first_index_def)

lemma first_index_holds:
  assumes "first_index n P < n"
  shows "P (first_index n P)"
proof -
  have "first_index n P < length [0 ..< n]" using assms by simp
  then have "\<not> \<not> P ([0 ..< n] ! first_index n P)" unfolding first_index_def by (rule nth_length_takeWhile)
  then show ?thesis using assms by simp
qed

lemma first_index_before:
  assumes "i < first_index n P"
  shows "\<not> P i"
proof -
  have "takeWhile (\<lambda>i. \<not> P i) [0 ..< n] ! i \<in> set (takeWhile (\<lambda>i. \<not> P i) [0 ..< n])"
    using assms unfolding first_index_def by (rule nth_mem)
  then have "\<not> P (takeWhile (\<lambda>i. \<not> P i) [0 ..< n] ! i)" using set_takeWhileD by fast
  moreover have "takeWhile (\<lambda>i. \<not> P i) [0 ..< n] ! i = i"
    using assms first_index_le [of n P] takeWhile_nth [of i "\<lambda>i. \<not> P i" "[0 ..< n]"] by (simp add: first_index_def)
  ultimately show ?thesis by simp
qed

lemma first_index_none:
  assumes "first_index n P = n" "i < n"
  shows "\<not> P i"
proof -
  have "length (takeWhile (\<lambda>i. \<not> P i) [0 ..< n]) = length [0 ..< n]" using assms(1) by (simp add: first_index_def)
  then have "takeWhile (\<lambda>i. \<not> P i) [0 ..< n] = [0 ..< n]" by (metis takeWhile_eq_take take_all_iff order_refl)
  then have "\<forall>i \<in> set [0 ..< n]. \<not> P i" by (simp add: takeWhile_eq_all_conv)
  then show ?thesis using assms(2) by simp
qed

lemma first_index_exists: "\<exists>i < n. P i \<Longrightarrow> first_index n P < n"
  using first_index_none first_index_le by (metis le_neq_implies_less)

end
