(* ===== verification/Web_Threads.thy ===== *)
theory Web_Threads
  imports Prelude Index_Count
begin

text \<open>
  The parallel web client of \<open>unpv13e/threads/web03.c\<close>: one thread per file, at most \<open>maxnconn\<close> at a
  time, a count of finished threads under a mutex and a condition variable.  A step is what the
  main thread or a file's thread does between two points where the other can see the difference;
  errors of the network end the process and are left out.
\<close>

section \<open>State\<close>

datatype flags = F_NONE | F_CONNECTING | F_READING | F_DONE | F_JOINED

text \<open>Where the thread of a file is; it still has to count itself after it set \<open>F_DONE\<close>.\<close>

datatype tpc = Absent | Connecting | Reading | Counting | Terminated

text \<open>
  Where the main thread is: at the head of its loop, testing \<open>ndone\<close> with the mutex held, waiting for
  the condition, at file \<open>i\<close> of the scan with the mutex held, or gone, through \<open>exit(0)\<close> or through
  \<open>err_quit\<close>.
\<close>

datatype mpc = Loop | Testing | Waiting | Scan nat | Exited | Quit

record web =
  flag :: "nat \<Rightarrow> flags"
  thread :: "nat \<Rightarrow> tpc"
  mainpc :: mpc
  nconn :: int
  nlefttoconn :: int
  nlefttoread :: int
  ndone :: int

fun ndone_mutex :: "mpc \<Rightarrow> bool" where
  "ndone_mutex Testing = True"
| "ndone_mutex (Scan i) = True"
| "ndone_mutex _ = False"

definition web_start :: "nat \<Rightarrow> web" where
  "web_start nfiles = \<lparr>flag = \<lambda>_. F_NONE, thread = \<lambda>_. Absent, mainpc = Loop, nconn = 0,
     nlefttoconn = int nfiles, nlefttoread = int nfiles, ndone = 0\<rparr>"

section \<open>Steps\<close>

text \<open>\<open>find_file\<close>: the first file not started yet, \<open>nfiles\<close> if there is none.\<close>

definition find_file :: "nat \<Rightarrow> (nat \<Rightarrow> flags) \<Rightarrow> nat" where
  "find_file nfiles fl = first_index nfiles (\<lambda>i. fl i = F_NONE)"

definition running :: "mpc \<Rightarrow> bool" where
  "running m \<longleftrightarrow> m \<noteq> Exited \<and> m \<noteq> Quit"

inductive wstep :: "nat \<Rightarrow> int \<Rightarrow> web \<Rightarrow> web \<Rightarrow> bool" for nfiles maxnconn where
  m_create: "mainpc s = Loop \<Longrightarrow> 0 < nlefttoread s \<Longrightarrow> nconn s < maxnconn \<Longrightarrow> 0 < nlefttoconn s \<Longrightarrow>
     i = find_file nfiles (flag s) \<Longrightarrow> i < nfiles \<Longrightarrow>
     wstep nfiles maxnconn s (s\<lparr>flag := (flag s)(i := F_CONNECTING), thread := (thread s)(i := Connecting),
       nconn := nconn s + 1, nlefttoconn := nlefttoconn s - 1\<rparr>)"
| m_quit: "mainpc s = Loop \<Longrightarrow> 0 < nlefttoread s \<Longrightarrow> nconn s < maxnconn \<Longrightarrow> 0 < nlefttoconn s \<Longrightarrow>
     find_file nfiles (flag s) = nfiles \<Longrightarrow> wstep nfiles maxnconn s (s\<lparr>mainpc := Quit\<rparr>)"
| m_lock: "mainpc s = Loop \<Longrightarrow> 0 < nlefttoread s \<Longrightarrow> \<not> (nconn s < maxnconn \<and> 0 < nlefttoconn s) \<Longrightarrow>
     wstep nfiles maxnconn s (s\<lparr>mainpc := Testing\<rparr>)"
| m_wait: "mainpc s = Testing \<Longrightarrow> ndone s = 0 \<Longrightarrow> wstep nfiles maxnconn s (s\<lparr>mainpc := Waiting\<rparr>)"
| m_wake: "mainpc s = Waiting \<Longrightarrow> wstep nfiles maxnconn s (s\<lparr>mainpc := Testing\<rparr>)"
| m_scan: "mainpc s = Testing \<Longrightarrow> ndone s \<noteq> 0 \<Longrightarrow> wstep nfiles maxnconn s (s\<lparr>mainpc := Scan 0\<rparr>)"
| m_skip: "mainpc s = Scan i \<Longrightarrow> i < nfiles \<Longrightarrow> flag s i \<noteq> F_DONE \<Longrightarrow> wstep nfiles maxnconn s (s\<lparr>mainpc := Scan (i + 1)\<rparr>)"
| m_join: "mainpc s = Scan i \<Longrightarrow> i < nfiles \<Longrightarrow> flag s i = F_DONE \<Longrightarrow> thread s i = Terminated \<Longrightarrow>
     wstep nfiles maxnconn s (s\<lparr>mainpc := Scan (i + 1), flag := (flag s)(i := F_JOINED),
       ndone := ndone s - 1, nconn := nconn s - 1, nlefttoread := nlefttoread s - 1\<rparr>)"
| m_unlock: "mainpc s = Scan nfiles \<Longrightarrow> wstep nfiles maxnconn s (s\<lparr>mainpc := Loop\<rparr>)"
| m_exit: "mainpc s = Loop \<Longrightarrow> nlefttoread s \<le> 0 \<Longrightarrow> wstep nfiles maxnconn s (s\<lparr>mainpc := Exited\<rparr>)"
| t_sent: "i < nfiles \<Longrightarrow> running (mainpc s) \<Longrightarrow> thread s i = Connecting \<Longrightarrow>
     wstep nfiles maxnconn s (s\<lparr>flag := (flag s)(i := F_READING), thread := (thread s)(i := Reading)\<rparr>)"
| t_eof: "i < nfiles \<Longrightarrow> running (mainpc s) \<Longrightarrow> thread s i = Reading \<Longrightarrow>
     wstep nfiles maxnconn s (s\<lparr>flag := (flag s)(i := F_DONE), thread := (thread s)(i := Counting)\<rparr>)"
| t_count: "i < nfiles \<Longrightarrow> running (mainpc s) \<Longrightarrow> thread s i = Counting \<Longrightarrow> \<not> ndone_mutex (mainpc s) \<Longrightarrow>
     wstep nfiles maxnconn s (s\<lparr>thread := (thread s)(i := Terminated), ndone := ndone s + 1\<rparr>)"

inductive_cases wstepE: "wstep nfiles maxnconn s s'"

section \<open>The counters\<close>

text \<open>What flag and thread of a file say about each other.\<close>

fun consistent :: "flags \<Rightarrow> tpc \<Rightarrow> bool" where
  "consistent F_NONE t \<longleftrightarrow> t = Absent"
| "consistent F_CONNECTING t \<longleftrightarrow> t = Connecting"
| "consistent F_READING t \<longleftrightarrow> t = Reading"
| "consistent F_DONE t \<longleftrightarrow> t = Counting \<or> t = Terminated"
| "consistent F_JOINED t \<longleftrightarrow> t = Terminated"

definition busy :: "flags \<Rightarrow> bool" where
  "busy f \<longleftrightarrow> f \<noteq> F_NONE \<and> f \<noteq> F_JOINED"

text \<open>Where the main thread is tells what it found in the counters that only it changes.\<close>

fun main_inv :: "nat \<Rightarrow> int \<Rightarrow> mpc \<Rightarrow> int \<Rightarrow> int \<Rightarrow> int \<Rightarrow> bool" where
  "main_inv nfiles maxnconn (Scan i) b c r \<longleftrightarrow> i \<le> nfiles"
| "main_inv nfiles maxnconn Exited b c r \<longleftrightarrow> r = 0"
| "main_inv nfiles maxnconn Quit b c r \<longleftrightarrow> False"
| "main_inv nfiles maxnconn Loop b c r \<longleftrightarrow> True"
| "main_inv nfiles maxnconn _ b c r \<longleftrightarrow> 0 < r \<and> \<not> (b < maxnconn \<and> 0 < c)"

definition web_inv :: "nat \<Rightarrow> int \<Rightarrow> web \<Rightarrow> bool" where
  "web_inv nfiles maxnconn s \<longleftrightarrow> (\<forall>i < nfiles. consistent (flag s i) (thread s i))
     \<and> nlefttoconn s = int (count nfiles (\<lambda>i. flag s i = F_NONE))
     \<and> nlefttoread s = int (count nfiles (\<lambda>i. flag s i \<noteq> F_JOINED))
     \<and> nconn s = int (count nfiles (\<lambda>i. busy (flag s i)))
     \<and> ndone s = int (count nfiles (\<lambda>i. thread s i = Terminated \<and> flag s i \<noteq> F_JOINED))
     \<and> nconn s \<le> max 0 maxnconn
     \<and> main_inv nfiles maxnconn (mainpc s) (nconn s) (nlefttoconn s) (nlefttoread s)"

lemma find_file_free: "find_file n fl < n \<Longrightarrow> fl (find_file n fl) = F_NONE"
  unfolding find_file_def by (rule first_index_holds)

lemma find_file_none: "find_file n fl = n \<Longrightarrow> i < n \<Longrightarrow> fl i \<noteq> F_NONE"
  unfolding find_file_def by (rule first_index_none)

lemma find_file_le: "find_file n fl \<le> n"
  unfolding find_file_def by (rule first_index_le)

lemma web_inv_start: "web_inv nfiles maxnconn (web_start nfiles)"
  by (simp add: web_inv_def web_start_def count_def busy_def)

lemma web_inv_update:
  assumes I: "web_inv n m s" and i: "i < n"
    and "flag s' = (flag s)(i := x)" "thread s' = (thread s)(i := y)" "consistent x y"
    and "nlefttoconn s' = nlefttoconn s - of_bool (flag s i = F_NONE) + of_bool (x = F_NONE)"
    and "nlefttoread s' = nlefttoread s - of_bool (flag s i \<noteq> F_JOINED) + of_bool (x \<noteq> F_JOINED)"
    and "nconn s' = nconn s - of_bool (busy (flag s i)) + of_bool (busy x)"
    and "ndone s' = ndone s - of_bool (thread s i = Terminated \<and> flag s i \<noteq> F_JOINED) + of_bool (y = Terminated \<and> x \<noteq> F_JOINED)"
    and "nconn s' \<le> max 0 m"
    and "main_inv n m (mainpc s') (nconn s') (nlefttoconn s') (nlefttoread s')"
  shows "web_inv n m s'"
  unfolding web_inv_def
  using assms count_flag_upd [OF i, of "\<lambda>f. f = F_NONE" "flag s" x] count_flag_upd [OF i, of "\<lambda>f. f \<noteq> F_JOINED" "flag s" x]
    count_flag_upd [OF i, of busy "flag s" x] count_both_upd [OF i, of "\<lambda>f t. t = Terminated \<and> f \<noteq> F_JOINED" "flag s" x "thread s" y]
  by (intro conjI) (auto simp only: web_inv_def fun_upd_apply split: if_splits)

lemma web_inv_mainpc:
  "web_inv n m s \<Longrightarrow> main_inv n m p (nconn s) (nlefttoconn s) (nlefttoread s) \<Longrightarrow> web_inv n m (s\<lparr>mainpc := p\<rparr>)"
  by (cases p) (simp_all add: web_inv_def)

lemma web_inv_main: "web_inv n m s \<Longrightarrow> main_inv n m (mainpc s) (nconn s) (nlefttoconn s) (nlefttoread s)"
  unfolding web_inv_def by (elim conjE)

lemma web_inv_thread: "web_inv n m s \<Longrightarrow> i < n \<Longrightarrow> consistent (flag s i) (thread s i)"
  by (simp add: web_inv_def)

lemma consistent_thread:
  "consistent f Connecting \<longleftrightarrow> f = F_CONNECTING" "consistent f Reading \<longleftrightarrow> f = F_READING" "consistent f Counting \<longleftrightarrow> f = F_DONE"
  by (cases f; simp)+

lemma web_inv_step:
  assumes S: "wstep n m s s'" and I: "web_inv n m s"
  shows "web_inv n m s'"
  using S
proof cases
  case (m_create i)
  then have "flag s i = F_NONE" using find_file_free by blast
  then show ?thesis using m_create web_inv_thread [OF I, of i]
    by (intro web_inv_update [OF I, of i _ F_CONNECTING Connecting]) (auto simp: busy_def)
next
  case m_quit
  then have "nlefttoconn s = 0" using I find_file_none [of n "flag s"] by (simp add: web_inv_def count_zero)
  then show ?thesis using m_quit by simp
next
  case (m_skip i)
  then show ?thesis using I by (auto intro!: web_inv_mainpc)
next
  case (m_join i)
  then show ?thesis using I by (intro web_inv_update [OF I, of i _ F_JOINED Terminated]) (auto simp: busy_def web_inv_def)
next
  case m_exit
  then show ?thesis using I by (auto intro!: web_inv_mainpc simp: web_inv_def)
next
  case (t_sent i)
  then have "flag s i = F_CONNECTING" using web_inv_thread [OF I, of i] by (simp add: consistent_thread)
  then show ?thesis using t_sent I by (intro web_inv_update [OF I, of i _ F_READING Reading]) (auto simp: busy_def web_inv_def)
next
  case (t_eof i)
  then have "flag s i = F_READING" using web_inv_thread [OF I, of i] by (simp add: consistent_thread)
  then show ?thesis using t_eof I by (intro web_inv_update [OF I, of i _ F_DONE Counting]) (auto simp: busy_def web_inv_def)
next
  case (t_count i)
  then have "flag s i = F_DONE" using web_inv_thread [OF I, of i] by (simp add: consistent_thread)
  then show ?thesis using t_count I by (intro web_inv_update [OF I, of i _ F_DONE Terminated]) (auto simp: busy_def web_inv_def)
qed (use web_inv_main [OF I] in \<open>auto intro!: web_inv_mainpc [OF I]\<close>)

lemma web_inv_reachable: "(wstep n m)\<^sup>*\<^sup>* (web_start n) s \<Longrightarrow> web_inv n m s"
  by (induction rule: rtranclp_induct) (auto intro: web_inv_start web_inv_step)

text \<open>The files not read yet are those not started and those with a thread.\<close>

lemma count_split:
  assumes "\<And>i. P i \<longleftrightarrow> Q i \<or> R i" "\<And>i. \<not> (Q i \<and> R i)"
  shows "count n P = count n Q + count n R"
proof -
  have "{i. i < n \<and> P i} = {i. i < n \<and> Q i} \<union> {i. i < n \<and> R i}" using assms(1) by auto
  then show ?thesis using assms(2) unfolding count_def by (simp add: card_Un_disjoint disjoint_iff)
qed

lemma unread: "f \<noteq> F_JOINED \<longleftrightarrow> f = F_NONE \<or> busy f"
  by (cases f) (auto simp: busy_def)

lemma web_inv_left: "web_inv n m s \<Longrightarrow> nlefttoread s = nlefttoconn s + nconn s"
  using count_split [of "\<lambda>i. flag s i \<noteq> F_JOINED" "\<lambda>i. flag s i = F_NONE" "\<lambda>i. busy (flag s i)" n, OF unread]
  by (simp add: web_inv_def busy_def)

lemma web_inv_waiting:
  assumes I: "web_inv n m s" and w: "mainpc s = Waiting" and m: "1 \<le> m"
  shows "ndone s \<noteq> 0 \<or> (\<exists>k < n. thread s k \<in> {Connecting, Reading, Counting})"
proof -
  have "0 < nconn s" using web_inv_main [OF I] web_inv_left [OF I] I m w by (auto simp: not_less)
  then have "0 < count n (\<lambda>i. busy (flag s i))" using I by (simp add: web_inv_def)
  then obtain k where k: "k < n" "busy (flag s k)" by (auto simp: count_pos)
  then consider "thread s k \<in> {Connecting, Reading, Counting}" | "thread s k = Terminated" "flag s k \<noteq> F_JOINED"
    using web_inv_thread [OF I k(1)] by (cases "flag s k") (auto simp: busy_def)
  then show ?thesis
  proof cases
    case 2
    then have "0 < count n (\<lambda>i. thread s i = Terminated \<and> flag s i \<noteq> F_JOINED)" using k(1) by (auto simp: count_pos)
    then show ?thesis using I by (simp add: web_inv_def)
  qed (use k in blast)
qed

definition blocked :: "nat \<Rightarrow> web \<Rightarrow> bool" where
  "blocked nfiles s \<longleftrightarrow> (\<exists>i < nfiles. mainpc s = Scan i \<and> thread s i = Counting) \<and> (\<forall>k < nfiles. thread s k \<noteq> Connecting \<and> thread s k \<noteq> Reading)"

lemma web_blocked_iff:
  assumes I: "web_inv n m s" and r: "running (mainpc s)"
  shows "(\<forall>s'. \<not> wstep n m s s') \<longleftrightarrow> blocked n s"
proof
  assume B: "blocked n s"
  then obtain i where i: "i < n" "mainpc s = Scan i" "thread s i = Counting" by (auto simp: blocked_def)
  then have "flag s i = F_DONE" using web_inv_thread [OF I, of i] by (simp add: consistent_thread)
  then show "\<forall>s'. \<not> wstep n m s s'" using B i by (auto simp: blocked_def elim!: wstepE)
next
  assume S: "\<forall>s'. \<not> wstep n m s s'"
  have T: "\<forall>k < n. thread s k \<noteq> Connecting \<and> thread s k \<noteq> Reading" using S r wstep.t_sent wstep.t_eof by blast
  show "blocked n s"
  proof (cases "mainpc s")
    case Loop
    then have "nlefttoread s > 0" using S wstep.m_exit by force
    moreover have "find_file n (flag s) < n \<or> find_file n (flag s) = n" using find_file_le le_neq_implies_less by blast
    ultimately show ?thesis using S Loop wstep.m_create wstep.m_quit wstep.m_lock by metis
  next
    case Testing
    then show ?thesis using S wstep.m_wait wstep.m_scan by metis
  next
    case Waiting
    then show ?thesis using S wstep.m_wake by metis
  next
    case (Scan i)
    have "i \<noteq> n" using S Scan wstep.m_unlock by blast
    then have i: "i < n" using web_inv_main [OF I] Scan by simp
    then have f: "flag s i = F_DONE" using S Scan wstep.m_skip by blast
    then have "thread s i \<noteq> Terminated" using S Scan i wstep.m_join by blast
    then have "thread s i = Counting" using web_inv_thread [OF I i] f by simp
    then show ?thesis using i Scan T by (auto simp: blocked_def)
  qed (use r in \<open>auto simp: running_def\<close>)
qed

section \<open>A run with two files\<close>

text \<open>The second thread reports the end of its file while the main thread is in the scan.\<close>

lemma two_files:
  "\<exists>s. (wstep 2 2)\<^sup>*\<^sup>* (web_start 2) s \<and> mainpc s = Scan 1 \<and> thread s 0 = Terminated \<and> thread s 1 = Counting \<and> nlefttoread s = 1"
proof -
  note go = converse_rtranclp_into_rtranclp
  show ?thesis
    apply (intro exI conjI)
        apply (rule go, rule wstep.m_create [where i = 0], (simp add: web_start_def find_file_def first_index_def upt_rec)+)
        apply (rule go, rule wstep.m_create [where i = 1], (simp add: find_file_def first_index_def upt_rec numeral_2_eq_2)+)
        apply (rule go, rule wstep.m_lock, simp, simp, simp)
        apply (rule go, rule wstep.m_wait, simp, simp)
        apply (rule go, rule wstep.t_sent [where i = 0], simp, simp add: running_def, simp)
        apply (rule go, rule wstep.t_eof [where i = 0], simp, simp add: running_def, simp)
        apply (rule go, rule wstep.t_count [where i = 0], simp, simp add: running_def, simp, simp)
        apply (rule go, rule wstep.m_wake, simp)
        apply (rule go, rule wstep.m_scan, simp, simp)
        apply (rule go, rule wstep.m_join [where i = 0], simp, simp, simp, simp)
        apply (rule go, rule wstep.t_sent [where i = 1], simp, simp add: running_def, simp)
        apply (rule go, rule wstep.t_eof [where i = 1], simp, simp add: running_def, simp)
        apply (rule rtranclp.rtrancl_refl)
       apply simp_all
    done
qed

section \<open>Properties\<close>

text \<open>
  Whatever the order in which the threads run: no more than \<open>maxnconn\<close> files are read at a time,
  \<open>nconn\<close> is the number of files started and not joined, what is left to read is what is left to
  start plus what is being read, \<open>ndone\<close> the number of threads that wait to be joined, main always
  finds a file to start when the count says there is one, and exits only after it joined the thread
  of every file.
\<close>

theorem web_counts:
  assumes "(wstep nfiles maxnconn)\<^sup>*\<^sup>* (web_start nfiles) s"
  shows "nconn s \<le> max 0 maxnconn \<and> nconn s = int (card {i. i < nfiles \<and> flag s i \<noteq> F_NONE \<and> flag s i \<noteq> F_JOINED})
    \<and> nlefttoread s = nlefttoconn s + nconn s
    \<and> ndone s = int (card {i. i < nfiles \<and> thread s i = Terminated \<and> flag s i \<noteq> F_JOINED})
    \<and> mainpc s \<noteq> Quit \<and> (mainpc s = Exited \<longrightarrow> (\<forall>i < nfiles. flag s i = F_JOINED \<and> thread s i = Terminated))"
proof -
  have I: "web_inv nfiles maxnconn s" using assms by (rule web_inv_reachable)
  have "flag s i = F_JOINED \<and> thread s i = Terminated" if e: "mainpc s = Exited" and i: "i < nfiles" for i
  proof -
    have "count nfiles (\<lambda>i. flag s i \<noteq> F_JOINED) = 0" using e web_inv_main [OF I] I by (simp add: web_inv_def)
    then have "flag s i = F_JOINED" using i by (simp add: count_zero)
    then show ?thesis using web_inv_thread [OF I i] by simp
  qed
  moreover have "mainpc s \<noteq> Quit" using web_inv_main [OF I] by auto
  ultimately show ?thesis using I web_inv_left [OF I] by (simp add: web_inv_def count_def busy_def)
qed

lemma web_counts_witness:
  "\<exists>s. (wstep 2 2)\<^sup>*\<^sup>* (web_start 2) s \<and> mainpc s = Scan 1 \<and> nconn s \<le> 2 \<and> nlefttoread s = nlefttoconn s + nconn s"
  using two_files web_counts [of 2 2] by fastforce

text \<open>
  The program can only get stuck in one way: main is in its scan, with \<open>ndone_mutex\<close>, and joins the
  thread of a file whose \<open>F_DONE\<close> is set but which still waits for that mutex to count itself, while
  no other thread is reading.  While main waits for the condition, there is a thread that has been or
  will be counted.  The stuck state is reachable with two files.
\<close>

theorem web_deadlock:
  assumes "(wstep nfiles maxnconn)\<^sup>*\<^sup>* (web_start nfiles) s" "running (mainpc s)" "1 \<le> maxnconn"
  shows "((\<forall>s'. \<not> wstep nfiles maxnconn s s') \<longleftrightarrow>
      (\<exists>i < nfiles. mainpc s = Scan i \<and> thread s i = Counting) \<and> (\<forall>k < nfiles. thread s k \<noteq> Connecting \<and> thread s k \<noteq> Reading))
    \<and> (mainpc s = Waiting \<longrightarrow> ndone s \<noteq> 0 \<or> (\<exists>k < nfiles. thread s k \<in> {Connecting, Reading, Counting}))"
  using web_blocked_iff [OF web_inv_reachable [OF assms(1)] assms(2)] web_inv_waiting [OF web_inv_reachable [OF assms(1)]] assms(3)
  unfolding blocked_def by blast

lemma web_deadlock_witness:
  "\<exists>s. (wstep 2 2)\<^sup>*\<^sup>* (web_start 2) s \<and> nlefttoread s = 1 \<and> (\<forall>s'. \<not> wstep 2 2 s s')"
proof -
  obtain s where s: "(wstep 2 2)\<^sup>*\<^sup>* (web_start 2) s" "mainpc s = Scan 1" "thread s 0 = Terminated" "thread s 1 = Counting" "nlefttoread s = 1"
    using two_files by blast
  have "\<forall>s'. \<not> wstep 2 2 s s'"
    using web_deadlock [OF s(1)] s by (simp add: running_def less_2_cases_iff)
  then show ?thesis using s by blast
qed

end
