(* ===== verification/Serv_Queue.thy ===== *)
theory Serv_Queue
  imports Prelude Index_Count
begin

text \<open>
  The prethreaded server of \<open>unpv13e/server/serv08.c\<close> and \<open>pthread08.c\<close>: the main thread accepts
  connections and hands their descriptors to the threads through a ring of \<open>MAXNCLI\<close> places, under a
  mutex and a condition variable.  A step is a critical section, or what a thread does between two of
  them; \<open>pthread_cond_signal\<close> wakes at least one blocked thread, and threads may wake without it.
\<close>

section \<open>The ring\<close>

definition MAXNCLI :: nat where "MAXNCLI = 32"

record ring =
  clifd :: "int list"
  iget :: nat
  iput :: nat

definition ring_start :: ring where
  "ring_start = \<lparr>clifd = replicate MAXNCLI 0, iget = 0, iput = 0\<rparr>"

definition advance :: "nat \<Rightarrow> nat" where
  "advance i = (if i + 1 = MAXNCLI then 0 else i + 1)"

text \<open>The main thread stores a descriptor; \<open>err_quit\<close> if the ring is full then.\<close>

definition ring_put :: "int \<Rightarrow> ring \<Rightarrow> (ring, unit) outcome" where
  "ring_put connfd r =
     (let r = r\<lparr>clifd := (clifd r)[iput r := connfd], iput := advance (iput r)\<rparr> in
      if iput r = iget r then Abort (Err_quit ''iput = iget'') r else Ret () r)"

text \<open>A thread takes one; it has waited while there was none.\<close>

definition ring_empty :: "ring \<Rightarrow> bool" where
  "ring_empty r \<longleftrightarrow> iget r = iput r"

definition ring_get :: "ring \<Rightarrow> int \<times> ring" where
  "ring_get r = (clifd r ! iget r, r\<lparr>iget := advance (iget r)\<rparr>)"

text \<open>What the ring holds, first in first out.\<close>

definition ring_ok :: "ring \<Rightarrow> bool" where
  "ring_ok r \<longleftrightarrow> length (clifd r) = MAXNCLI \<and> iget r < MAXNCLI \<and> iput r < MAXNCLI"

definition waiting :: "ring \<Rightarrow> int list" where
  "waiting r = (if iget r \<le> iput r then drop (iget r) (take (iput r) (clifd r)) else drop (iget r) (clifd r) @ take (iput r) (clifd r))"

lemma ring_start_ok: "ring_ok ring_start" "waiting ring_start = []"
  by (simp_all add: ring_ok_def waiting_def ring_start_def MAXNCLI_def)

lemma ring_empty_waiting: "ring_ok r \<Longrightarrow> ring_empty r \<longleftrightarrow> waiting r = []"
  by (auto simp: ring_empty_def waiting_def ring_ok_def)

lemma ring_get_waiting:
  assumes "ring_ok r" "\<not> ring_empty r" "ring_get r = (fd, r')"
  shows "ring_ok r'" "waiting r = fd # waiting r'"
proof -
  show "ring_ok r'" using assms by (auto simp: ring_ok_def ring_get_def advance_def)
  have fd: "fd = clifd r ! iget r" and r': "r' = r\<lparr>iget := advance (iget r)\<rparr>" using assms(3) by (simp_all add: ring_get_def)
  have l: "iget r < length (clifd r)" "iput r < length (clifd r)" "length (clifd r) = MAXNCLI" using assms(1) by (simp_all add: ring_ok_def)
  consider "iget r < iput r" | "iput r < iget r" "iget r + 1 < MAXNCLI" | "iput r < iget r" "iget r + 1 = MAXNCLI"
    using assms(2) l by (force simp: ring_empty_def)
  then show "waiting r = fd # waiting r'"
  proof cases
    case 1
    then have "drop (iget r) (take (iput r) (clifd r)) = clifd r ! iget r # drop (Suc (iget r)) (take (iput r) (clifd r))"
      using l by (subst Cons_nth_drop_Suc [symmetric]) auto
    then show ?thesis using 1 l by (simp add: waiting_def r' fd advance_def)
  next
    case 2
    then show ?thesis using l Cons_nth_drop_Suc [OF l(1)] by (simp add: waiting_def r' fd advance_def)
  next
    case 3
    then show ?thesis using l Cons_nth_drop_Suc [OF l(1)] by (simp add: waiting_def r' fd advance_def)
  qed
qed

lemma waiting_length: "ring_ok r \<Longrightarrow> length (waiting r) < MAXNCLI"
  by (auto simp: waiting_def ring_ok_def)

text \<open>The place that a descriptor is put in is free, and 31 may wait.\<close>

lemma ring_put_waiting:
  assumes "ring_ok r" "ring_put fd r = Ret u r'"
  shows "ring_ok r'" "waiting r' = waiting r @ [fd]"
proof -
  have r': "r' = r\<lparr>clifd := (clifd r)[iput r := fd], iput := advance (iput r)\<rparr>" and ne: "advance (iput r) \<noteq> iget r"
    using assms(2) by (auto simp: ring_put_def Let_def split: if_splits)
  have l: "iget r < length (clifd r)" "iput r < length (clifd r)" "length (clifd r) = MAXNCLI" using assms(1) by (simp_all add: ring_ok_def)
  show "ring_ok r'" using assms(1) by (auto simp: r' ring_ok_def advance_def)
  have upto: "take (Suc (iput r)) ((clifd r)[iput r := fd]) = take (iput r) (clifd r) @ [fd]" using l by (simp add: take_Suc_conv_app_nth)
  consider "iput r + 1 < MAXNCLI" "iget r \<le> iput r" | "iput r + 1 < MAXNCLI" "Suc (iput r) < iget r" | "iput r + 1 = MAXNCLI" "0 < iget r" "iget r \<le> iput r"
    using l ne by (fastforce simp: advance_def split: if_splits)
  then show "waiting r' = waiting r @ [fd]"
  proof cases
    case 1
    then show ?thesis using l upto by (simp add: waiting_def r' advance_def)
  next
    case 2
    then show ?thesis using l upto by (simp add: waiting_def r' advance_def)
  next
    case 3
    then have "(clifd r)[iput r := fd] = take (iput r) (clifd r) @ [fd]" using l upto by simp
    then show ?thesis using 3 l by (simp add: waiting_def r' advance_def)
  qed
qed

lemma ring_put_full:
  assumes "ring_ok r" "ring_put fd r = Abort e r'"
  shows "length (waiting r) = MAXNCLI - 1 \<and> e = Err_quit ''iput = iget''"
proof -
  have "advance (iput r) = iget r" "e = Err_quit ''iput = iget''" using assms(2) by (auto simp: ring_put_def Let_def split: if_splits)
  then show ?thesis using assms(1) by (auto simp: waiting_def ring_ok_def advance_def split: if_splits)
qed

section \<open>The threads\<close>

text \<open>
  Where a thread is: about to lock the mutex, blocked on the condition, woken from it, and with a
  connection, first not counted yet.
\<close>

datatype tpc = Ready | Blocked | Woken | Got int | Serving int

text \<open>The main thread accepts, or has a connection to hand over, or has called \<open>err_quit\<close>.\<close>

datatype mpc = Accepting | Putting int | Quit

record server =
  ring :: ring
  thread :: "nat \<Rightarrow> tpc"
  thread_count :: "nat \<Rightarrow> int"
  mainpc :: mpc

datatype event = Accepted int | Taken nat int | Closed nat int | Internal

definition serv_start :: server where
  "serv_start = \<lparr>ring = ring_start, thread = \<lambda>_. Ready, thread_count = \<lambda>_. 0, mainpc = Accepting\<rparr>"

text \<open>\<open>signals n th W\<close>: the threads that one signal may wake.\<close>

definition signals :: "nat \<Rightarrow> (nat \<Rightarrow> tpc) \<Rightarrow> (nat \<Rightarrow> bool) \<Rightarrow> bool" where
  "signals n th W \<longleftrightarrow> (\<forall>i. W i \<longrightarrow> i < n \<and> th i = Blocked) \<and> ((\<exists>i < n. th i = Blocked) \<longrightarrow> (\<exists>i < n. W i))"

text \<open>The loop of \<open>thread_main\<close>.\<close>

inductive thread_step :: "nat \<Rightarrow> server \<Rightarrow> event \<Rightarrow> server \<Rightarrow> bool" for n where
  t_wait: "i < n \<Longrightarrow> mainpc s \<noteq> Quit \<Longrightarrow> thread s i = Ready \<or> thread s i = Woken \<Longrightarrow> ring_empty (ring s) \<Longrightarrow>
     thread_step n s Internal (s\<lparr>thread := (thread s)(i := Blocked)\<rparr>)"
| t_wake: "i < n \<Longrightarrow> mainpc s \<noteq> Quit \<Longrightarrow> thread s i = Blocked \<Longrightarrow> thread_step n s Internal (s\<lparr>thread := (thread s)(i := Woken)\<rparr>)"
| t_get: "i < n \<Longrightarrow> mainpc s \<noteq> Quit \<Longrightarrow> thread s i = Ready \<or> thread s i = Woken \<Longrightarrow> \<not> ring_empty (ring s) \<Longrightarrow>
     ring_get (ring s) = (connfd, r) \<Longrightarrow> thread_step n s (Taken i connfd) (s\<lparr>ring := r, thread := (thread s)(i := Got connfd)\<rparr>)"
| t_count: "i < n \<Longrightarrow> mainpc s \<noteq> Quit \<Longrightarrow> thread s i = Got connfd \<Longrightarrow>
     thread_step n s Internal (s\<lparr>thread := (thread s)(i := Serving connfd), thread_count := (thread_count s)(i := thread_count s i + 1)\<rparr>)"
| t_close: "i < n \<Longrightarrow> mainpc s \<noteq> Quit \<Longrightarrow> thread s i = Serving connfd \<Longrightarrow>
     thread_step n s (Closed i connfd) (s\<lparr>thread := (thread s)(i := Ready)\<rparr>)"

inductive_cases thread_stepE: "thread_step n s e s'"

text \<open>The loop of \<open>main\<close>, and the threads beside it.\<close>

inductive sstep :: "nat \<Rightarrow> server \<Rightarrow> event \<Rightarrow> server \<Rightarrow> bool" for n where
  m_accept: "mainpc s = Accepting \<Longrightarrow> sstep n s (Accepted connfd) (s\<lparr>mainpc := Putting connfd\<rparr>)"
| m_put: "mainpc s = Putting connfd \<Longrightarrow> ring_put connfd (ring s) = Ret u r \<Longrightarrow> signals n (thread s) W \<Longrightarrow>
     sstep n s Internal (s\<lparr>ring := r, thread := (\<lambda>i. if W i then Woken else thread s i), mainpc := Accepting\<rparr>)"
| m_quit: "mainpc s = Putting connfd \<Longrightarrow> ring_put connfd (ring s) = Abort e r \<Longrightarrow> sstep n s Internal (s\<lparr>ring := r, mainpc := Quit\<rparr>)"
| m_thread: "thread_step n s e s' \<Longrightarrow> sstep n s e s'"

inductive_cases sstepE: "sstep n s e s'"

inductive srun :: "nat \<Rightarrow> event list \<Rightarrow> server \<Rightarrow> bool" for n where
  srun_start: "srun n [] serv_start"
| srun_step: "srun n es s \<Longrightarrow> sstep n s e s' \<Longrightarrow> srun n (es @ [e]) s'"

section \<open>Invariants\<close>

definition accepted :: "event list \<Rightarrow> int list" where
  "accepted es = List.map_filter (\<lambda>e. case e of Accepted fd \<Rightarrow> Some fd | _ \<Rightarrow> None) es"

definition taken :: "event list \<Rightarrow> int list" where
  "taken es = List.map_filter (\<lambda>e. case e of Taken i fd \<Rightarrow> Some fd | _ \<Rightarrow> None) es"

definition taken_by :: "nat \<Rightarrow> event list \<Rightarrow> int list" where
  "taken_by i es = List.map_filter (\<lambda>e. case e of Taken j fd \<Rightarrow> if i = j then Some fd else None | _ \<Rightarrow> None) es"

definition closed_by :: "nat \<Rightarrow> event list \<Rightarrow> int list" where
  "closed_by i es = List.map_filter (\<lambda>e. case e of Closed j fd \<Rightarrow> if i = j then Some fd else None | _ \<Rightarrow> None) es"

lemma serv_history [simp]:
  "accepted [] = []" "accepted (es @ [e]) = accepted es @ (case e of Accepted fd \<Rightarrow> [fd] | _ \<Rightarrow> [])"
  "taken [] = []" "taken (es @ [e]) = taken es @ (case e of Taken i fd \<Rightarrow> [fd] | _ \<Rightarrow> [])"
  "taken_by i [] = []" "taken_by i (es @ [e]) = taken_by i es @ (case e of Taken j fd \<Rightarrow> if i = j then [fd] else [] | _ \<Rightarrow> [])"
  "closed_by i [] = []" "closed_by i (es @ [e]) = closed_by i es @ (case e of Closed j fd \<Rightarrow> if i = j then [fd] else [] | _ \<Rightarrow> [])"
  by (simp_all add: accepted_def taken_def taken_by_def closed_by_def List.map_filter_def split: event.splits)

fun putting :: "mpc \<Rightarrow> int list" where
  "putting (Putting fd) = [fd]"
| "putting _ = []"

fun holding :: "tpc \<Rightarrow> int list" where
  "holding (Got fd) = [fd]"
| "holding (Serving fd) = [fd]"
| "holding _ = []"

definition woken :: "nat \<Rightarrow> (nat \<Rightarrow> tpc) \<Rightarrow> nat" where
  "woken n th = count n (\<lambda>i. th i = Woken)"

definition serv_inv :: "nat \<Rightarrow> event list \<Rightarrow> server \<Rightarrow> bool" where
  "serv_inv n es s \<longleftrightarrow> ring_ok (ring s) \<and> accepted es = taken es @ waiting (ring s) @ putting (mainpc s)
     \<and> (\<forall>i < n. taken_by i es = closed_by i es @ holding (thread s i))
     \<and> (\<forall>i < n. thread_count s i = int (length (taken_by i es)) - (case thread s i of Got fd \<Rightarrow> 1 | _ \<Rightarrow> 0))
     \<and> ((\<exists>i < n. thread s i = Blocked) \<longrightarrow> length (waiting (ring s)) \<le> woken n (thread s))"

lemma serv_inv_start: "serv_inv n [] serv_start"
  by (simp add: serv_inv_def serv_start_def ring_start_ok)

lemma woken_upd: "i < n \<Longrightarrow> woken n (th(i := x)) + of_bool (th i = Woken) = woken n th + of_bool (x = Woken)"
  unfolding woken_def using count_upd [of i n "\<lambda>a b. a = Woken" th x th x] by simp

lemma signal_woken:
  assumes "signals n th W" "\<exists>i < n. (if W i then Woken else th i) = Blocked"
  shows "woken n th < woken n (\<lambda>i. if W i then Woken else th i)" "\<exists>i < n. th i = Blocked"
proof -
  show b: "\<exists>i < n. th i = Blocked" using assms(2) by (auto split: if_splits)
  then obtain j where "j < n" "W j" "th j = Blocked" using assms(1) unfolding signals_def by blast
  then show "woken n th < woken n (\<lambda>i. if W i then Woken else th i)" unfolding woken_def by (intro count_less) auto
qed

lemma signal_keeps: "signals n th W \<Longrightarrow> holding (if W i then Woken else th i) = holding (th i)
    \<and> (case (if W i then Woken else th i) of Got fd \<Rightarrow> 1 | _ \<Rightarrow> 0) = (case th i of Got fd \<Rightarrow> 1 :: int | _ \<Rightarrow> 0)"
  by (auto simp: signals_def)

lemma serv_inv_put:
  assumes "serv_inv n es s" "mainpc s = Putting connfd" "ring_put connfd (ring s) = Ret u r" "signals n (thread s) W"
  shows "serv_inv n (es @ [Internal]) (s\<lparr>ring := r, thread := (\<lambda>i. if W i then Woken else thread s i), mainpc := Accepting\<rparr>)"
proof -
  have ok: "ring_ok (ring s)" using assms(1) by (simp add: serv_inv_def)
  note put = ring_put_waiting [OF ok assms(3)]
  have "length (waiting r) \<le> woken n (\<lambda>i. if W i then Woken else thread s i)"
    if "\<exists>i < n. (if W i then Woken else thread s i) = Blocked"
    using signal_woken [OF assms(4) that] assms(1) put(2) by (simp add: serv_inv_def)
  then show ?thesis using assms(1,2) put signal_keeps [OF assms(4)] unfolding serv_inv_def by simp
qed

lemma serv_inv_get:
  assumes "serv_inv n es s" "i < n" "thread s i = Ready \<or> thread s i = Woken" "\<not> ring_empty (ring s)" "ring_get (ring s) = (connfd, r)"
  shows "serv_inv n (es @ [Taken i connfd]) (s\<lparr>ring := r, thread := (thread s)(i := Got connfd)\<rparr>)"
proof -
  have ok: "ring_ok (ring s)" using assms(1) by (simp add: serv_inv_def)
  note get = ring_get_waiting [OF ok assms(4,5)]
  have w: "woken n (thread s) \<le> woken n ((thread s)(i := Got connfd)) + 1"
    using woken_upd [OF assms(2), of "thread s" "Got connfd"] by (cases "thread s i = Woken") simp_all
  have "length (waiting r) \<le> woken n ((thread s)(i := Got connfd))"
    if "\<exists>k < n. ((thread s)(i := Got connfd)) k = Blocked"
  proof -
    have "\<exists>k < n. thread s k = Blocked" using that by (auto split: if_splits)
    then have "length (waiting (ring s)) \<le> woken n (thread s)" using assms(1) by (simp add: serv_inv_def)
    then show ?thesis using w get(2) by simp
  qed
  then show ?thesis using assms(1-3) get unfolding serv_inv_def by (auto simp: fun_upd_def)
qed

lemma serv_inv_step:
  assumes "serv_inv n es s" "sstep n s e s'" "mainpc s' \<noteq> Quit"
  shows "serv_inv n (es @ [e]) s'"
  using assms(2)
proof cases
  case (m_accept connfd)
  then show ?thesis using assms(1) by (simp add: serv_inv_def)
next
  case (m_put connfd u r W)
  then show ?thesis using serv_inv_put [OF assms(1)] by simp
next
  case (m_quit connfd ea r)
  then show ?thesis using assms(3) by simp
next
  case m_thread
  then show ?thesis
  proof cases
    case (t_wait i)
    then have "waiting (ring s) = []" using assms(1) ring_empty_waiting by (auto simp: serv_inv_def)
    then show ?thesis using assms(1) t_wait by (auto simp: serv_inv_def)
  next
    case (t_wake i)
    have "woken n (thread s) \<le> woken n ((thread s)(i := Woken))" unfolding woken_def by (rule count_mono) simp
    moreover have "length (waiting (ring s)) \<le> woken n (thread s)" using assms(1) t_wake by (auto simp: serv_inv_def)
    ultimately have "length (waiting (ring s)) \<le> woken n ((thread s)(i := Woken))" by linarith
    then show ?thesis using assms(1) t_wake by (auto simp: serv_inv_def)
  next
    case (t_get i connfd r)
    then show ?thesis using serv_inv_get [OF assms(1)] by simp
  next
    case (t_count i connfd)
    then have "woken n ((thread s)(i := Serving connfd)) = woken n (thread s)" using woken_upd [of i n "thread s" "Serving connfd"] by simp
    then show ?thesis using assms(1) t_count by (auto simp: serv_inv_def)
  next
    case (t_close i connfd)
    then have "woken n ((thread s)(i := Ready)) = woken n (thread s)" using woken_upd [of i n "thread s" Ready] by simp
    then show ?thesis using assms(1) t_close by (auto simp: serv_inv_def)
  qed
qed

definition quit_after :: "nat \<Rightarrow> event list \<Rightarrow> server \<Rightarrow> bool" where
  "quit_after n es s \<longleftrightarrow> (\<exists>es' s0 connfd r. es = es' @ [Internal] \<and> serv_inv n es' s0 \<and> mainpc s0 = Putting connfd
     \<and> length (waiting (ring s0)) = MAXNCLI - 1 \<and> s = s0\<lparr>ring := r, mainpc := Quit\<rparr>)"

lemma no_step_after_quit: "sstep n s e s' \<Longrightarrow> mainpc s \<noteq> Quit"
  by (erule sstepE) (auto elim: thread_stepE)

lemma srun_inv: "srun n es s \<Longrightarrow> (if mainpc s = Quit then quit_after n es s else serv_inv n es s)"
proof (induction rule: srun.induct)
  case srun_start
  then show ?case by (simp add: serv_inv_start) (simp add: serv_start_def)
next
  case (srun_step es s e s')
  then have I: "serv_inv n es s" using no_step_after_quit by force
  show ?case
  proof (cases "mainpc s' = Quit")
    case True
    from srun_step(2) show ?thesis
    proof cases
      case (m_quit connfd ea r)
      then have "length (waiting (ring s)) = MAXNCLI - 1" using I ring_put_full by (auto simp: serv_inv_def)
      then show ?thesis using I m_quit True unfolding quit_after_def by auto
    qed (use True in \<open>auto elim: thread_stepE\<close>)
  next
    case False
    then show ?thesis using serv_inv_step [OF I srun_step(2)] by simp
  qed
qed

text \<open>A run in which thread 0 of two takes the only connection.\<close>

lemma sample_run:
  obtains r s where "srun 2 [Accepted 5, Internal] s" "mainpc s = Accepting" "thread s = (\<lambda>_. Ready)" "\<not> ring_empty (ring s)"
    "ring_get (ring s) = (5, r)"
proof -
  let ?s1 = "serv_start\<lparr>mainpc := Putting 5\<rparr>"
  let ?r = "ring_start\<lparr>clifd := (replicate MAXNCLI 0)[0 := 5], iput := 1\<rparr>"
  let ?s2 = "?s1\<lparr>ring := ?r, thread := (\<lambda>i. if False then Woken else thread ?s1 i), mainpc := Accepting\<rparr>"
  have "sstep 2 serv_start (Accepted 5) ?s1" by (rule m_accept) (simp add: serv_start_def)
  then have 1: "srun 2 [Accepted 5] ?s1" using srun_step [OF srun_start] by force
  have p: "ring_put 5 (ring ?s1) = Ret () ?r"
    by (simp add: ring_put_def serv_start_def ring_start_def advance_def MAXNCLI_def)
  have "sstep 2 ?s1 Internal ?s2" by (rule m_put [OF _ p]) (simp_all add: signals_def serv_start_def)
  then have "srun 2 [Accepted 5, Internal] ?s2" using srun_step [OF 1] by force
  then show ?thesis
    by (rule that) (simp_all add: serv_start_def ring_empty_def ring_get_def ring_start_def MAXNCLI_def)
qed

section \<open>Properties\<close>

text \<open>
  C31.  In every interleaving the threads take the connections in the order they were accepted, each once;
  a thread closes what it takes, and its counter says how many it took up.  At most 32 connections
  are accepted and not taken; the server ends through \<open>err_quit\<close> only when 32 are.
\<close>

theorem serv08_fifo:
  assumes "srun n es s"
  shows "(\<exists>w. accepted es = taken es @ w \<and> length w \<le> MAXNCLI \<and> (mainpc s = Quit \<longrightarrow> length w = MAXNCLI))
    \<and> (\<forall>i < n. taken_by i es = closed_by i es @ holding (thread s i)
         \<and> thread_count s i = int (length (closed_by i es)) + (case thread s i of Serving fd \<Rightarrow> 1 | _ \<Rightarrow> 0))"
proof -
  have threads: "taken_by i es' = closed_by i es' @ holding (thread s0 i)
      \<and> thread_count s0 i = int (length (closed_by i es')) + (case thread s0 i of Serving fd \<Rightarrow> 1 | _ \<Rightarrow> 0)"
    if "serv_inv n es' s0" "i < n" for es' s0 i
    using that by (cases "thread s0 i") (auto simp: serv_inv_def)
  show ?thesis
  proof (cases "mainpc s = Quit")
    case True
    then obtain es' s0 connfd r where q: "es = es' @ [Internal]" "serv_inv n es' s0" "mainpc s0 = Putting connfd"
        "length (waiting (ring s0)) = MAXNCLI - 1" "s = s0\<lparr>ring := r, mainpc := Quit\<rparr>"
      using srun_inv [OF assms] by (auto simp: quit_after_def)
    have "accepted es = taken es @ waiting (ring s0) @ [connfd]" using q(1-3) by (simp add: serv_inv_def)
    moreover have "length (waiting (ring s0) @ [connfd]) = MAXNCLI" using q(4) by (simp add: MAXNCLI_def)
    ultimately show ?thesis using q threads [OF q(2)] by auto
  next
    case False
    then have I: "serv_inv n es s" using srun_inv [OF assms] by simp
    then have "accepted es = taken es @ waiting (ring s) @ putting (mainpc s)" "length (waiting (ring s)) < MAXNCLI"
      using waiting_length by (auto simp: serv_inv_def)
    moreover have "length (putting (mainpc s)) \<le> 1" by (cases "mainpc s") simp_all
    ultimately show ?thesis using threads [OF I] False by auto
  qed
qed

theorem serv08_fifo_witness:
  "\<exists>s. srun 2 [Accepted 5, Internal, Taken 0 5] s \<and> taken_by 0 [Accepted 5, Internal, Taken 0 5] = holding (thread s 0)
     \<and> thread_count s 0 = 0 \<and> accepted [Accepted 5, Internal, Taken 0 5] = taken [Accepted 5, Internal, Taken 0 5]"
proof -
  obtain r s where s: "srun 2 [Accepted 5, Internal] s" "mainpc s = Accepting" "thread s = (\<lambda>_. Ready)" "\<not> ring_empty (ring s)"
    "ring_get (ring s) = (5, r)" by (rule sample_run)
  let ?s = "s\<lparr>ring := r, thread := (thread s)(0 := Got 5)\<rparr>"
  have "sstep 2 s (Taken 0 5) ?s" by (rule m_thread, rule t_get) (use s in simp_all)
  from srun_step [OF s(1) this] have r: "srun 2 [Accepted 5, Internal, Taken 0 5] ?s" by simp
  have "closed_by 0 [Accepted 5, Internal, Taken 0 5] = []" "accepted [Accepted 5, Internal, Taken 0 5] = [5]" "taken [Accepted 5, Internal, Taken 0 5] = [5]"
    by (simp_all add: closed_by_def accepted_def taken_def List.map_filter_def)
  then show ?thesis using serv08_fifo [OF r] r by (intro exI [of _ ?s]) auto
qed

text \<open>
  C39.  No wakeup is lost: while the server runs and a connection waits in the ring, either all threads
  have a connection of their own or one of them can take it now.
\<close>

theorem serv08_no_lost_wakeup:
  assumes "srun n es s" "mainpc s \<noteq> Quit" "\<not> ring_empty (ring s)"
  shows "(\<forall>i < n. holding (thread s i) \<noteq> []) \<or> (\<exists>i s'. i < n \<and> sstep n s (Taken i (hd (waiting (ring s)))) s')"
proof (cases "\<exists>i < n. thread s i = Ready \<or> thread s i = Woken")
  case True
  then obtain i where i: "i < n" "thread s i = Ready \<or> thread s i = Woken" by blast
  have ok: "ring_ok (ring s)" using srun_inv [OF assms(1)] assms(2) by (simp add: serv_inv_def)
  obtain fd r where g: "ring_get (ring s) = (fd, r)" by fastforce
  then have "fd = hd (waiting (ring s))" using ring_get_waiting(2) [OF ok assms(3)] by simp
  then show ?thesis using m_thread [OF t_get [OF i(1) assms(2) i(2) assms(3) g]] i(1) by blast
next
  case False
  have I: "serv_inv n es s" using srun_inv [OF assms(1)] assms(2) by simp
  have "thread s i \<noteq> Blocked" if "i < n" for i
  proof
    assume "thread s i = Blocked"
    then have "length (waiting (ring s)) \<le> woken n (thread s)" using I that by (auto simp: serv_inv_def)
    moreover have "waiting (ring s) \<noteq> []" using I assms(3) ring_empty_waiting by (auto simp: serv_inv_def)
    ultimately have "0 < woken n (thread s)" by (cases "waiting (ring s)") simp_all
    then show False using False by (auto simp: woken_def count_pos)
  qed
  then have "holding (thread s i) \<noteq> []" if "i < n" for i
    using False that by (cases "thread s i") auto
  then show ?thesis by blast
qed

theorem serv08_no_lost_wakeup_witness: "\<exists>s i s'. srun 2 [Accepted 5, Internal] s \<and> i < 2 \<and> sstep 2 s (Taken i 5) s'"
proof -
  obtain r s where s: "srun 2 [Accepted 5, Internal] s" "mainpc s = Accepting" "thread s = (\<lambda>_. Ready)" "\<not> ring_empty (ring s)"
    "ring_get (ring s) = (5, r)" by (rule sample_run)
  have "ring_ok (ring s)" using srun_inv [OF s(1)] s(2) by (simp add: serv_inv_def)
  then have "hd (waiting (ring s)) = 5" using ring_get_waiting(2) [OF _ s(4,5)] by simp
  then show ?thesis using serv08_no_lost_wakeup [OF s(1) _ s(4)] s(1-3) by (force dest: spec [of _ 0])
qed

end
