(* ===== verification/Serv_Prefork.thy ===== *)
theory Serv_Prefork
  imports Prelude Index_Count
begin

text \<open>
  The preforked server of \<open>unpv13e/server/serv05.c\<close> and \<open>child05.c\<close>: the parent accepts and passes
  each descriptor to a free child over a stream pipe; the child sends one byte back when it is done.
  A connection is a number.  A step is what one process does between two system calls others can
  see.  Children do not die.
\<close>

section \<open>State\<close>

text \<open>What a child is doing: in \<open>Read_fd\<close>, in \<open>web_child\<close>, or about to tell the parent.\<close>

datatype cpc = Reading | Serving int | Telling

text \<open>
  The parent: in \<open>Select\<close>; with a result that says the listening socket is readable; at child \<open>i\<close> of
  the loop over the children, with the pipes that were readable and \<open>nsel\<close>; gone through \<open>err_quit\<close>.
\<close>

datatype ppc = Selecting | Accepting "nat \<Rightarrow> bool" int | Checking nat "nat \<Rightarrow> bool" int | Quit

record pool =
  child_status :: "nat \<Rightarrow> int"
  child_count :: "nat \<Rightarrow> int"
  navail :: int
  parent :: ppc
  child :: "nat \<Rightarrow> cpc"
  to_child :: "nat \<Rightarrow> int list"
  to_parent :: "nat \<Rightarrow> nat"

definition pool_start :: "nat \<Rightarrow> pool" where
  "pool_start nchildren = \<lparr>child_status = \<lambda>_. 0, child_count = \<lambda>_. 0, navail = int nchildren, parent = Selecting,
     child = \<lambda>_. Reading, to_child = \<lambda>_. [], to_parent = \<lambda>_. 0\<rparr>"

datatype event = Accepted nat int | Closed nat int | Internal

section \<open>Steps\<close>

text \<open>The pipes with a byte for the parent.\<close>

definition readable :: "nat \<Rightarrow> pool \<Rightarrow> nat \<Rightarrow> bool" where
  "readable n s i \<longleftrightarrow> i < n \<and> 0 < to_parent s i"

text \<open>After one of the \<open>nsel\<close> descriptors was handled: back to \<open>Select\<close>, or on with the loop.\<close>

definition next_ready :: "nat \<Rightarrow> (nat \<Rightarrow> bool) \<Rightarrow> int \<Rightarrow> ppc" where
  "next_ready i rset nsel = (if nsel - 1 = 0 then Selecting else Checking i rset (nsel - 1))"

text \<open>The loop of \<open>child_main\<close>.\<close>

inductive child_step :: "nat \<Rightarrow> pool \<Rightarrow> event \<Rightarrow> pool \<Rightarrow> bool" for n where
  c_read: "i < n \<Longrightarrow> child s i = Reading \<Longrightarrow> to_child s i = connfd # rest \<Longrightarrow>
     child_step n s Internal (s\<lparr>child := (child s)(i := Serving connfd), to_child := (to_child s)(i := rest)\<rparr>)"
| c_close: "i < n \<Longrightarrow> child s i = Serving connfd \<Longrightarrow> child_step n s (Closed i connfd) (s\<lparr>child := (child s)(i := Telling)\<rparr>)"
| c_tell: "i < n \<Longrightarrow> child s i = Telling \<Longrightarrow>
     child_step n s Internal (s\<lparr>child := (child s)(i := Reading), to_parent := (to_parent s)(i := to_parent s i + 1)\<rparr>)"

inductive_cases child_stepE: "child_step n s e s'"

text \<open>The loop of the parent, and the children beside it.\<close>

inductive pstep :: "nat \<Rightarrow> pool \<Rightarrow> event \<Rightarrow> pool \<Rightarrow> bool" for n where
  p_select: "parent s = Selecting \<Longrightarrow> listening \<longrightarrow> 0 < navail s \<Longrightarrow> rset = readable n s \<Longrightarrow>
     nsel = int (count n rset) + of_bool listening \<Longrightarrow> 0 < nsel \<Longrightarrow>
     pstep n s Internal (s\<lparr>parent := if listening then Accepting rset nsel else Checking 0 rset nsel\<rparr>)"
| p_accept: "parent s = Accepting rset nsel \<Longrightarrow> i = first_index n (\<lambda>i. child_status s i = 0) \<Longrightarrow> i < n \<Longrightarrow>
     pstep n s (Accepted i connfd) (s\<lparr>child_status := (child_status s)(i := 1), child_count := (child_count s)(i := child_count s i + 1),
       navail := navail s - 1, to_child := (to_child s)(i := to_child s i @ [connfd]), parent := next_ready 0 rset nsel\<rparr>)"
| p_quit: "parent s = Accepting rset nsel \<Longrightarrow> first_index n (\<lambda>i. child_status s i = 0) = n \<Longrightarrow>
     pstep n s Internal (s\<lparr>parent := Quit\<rparr>)"
| p_skip: "parent s = Checking i rset nsel \<Longrightarrow> i < n \<Longrightarrow> \<not> rset i \<Longrightarrow> pstep n s Internal (s\<lparr>parent := Checking (i + 1) rset nsel\<rparr>)"
| p_read: "parent s = Checking i rset nsel \<Longrightarrow> i < n \<Longrightarrow> rset i \<Longrightarrow> to_parent s i = Suc k \<Longrightarrow>
     pstep n s Internal (s\<lparr>child_status := (child_status s)(i := 0), navail := navail s + 1,
       to_parent := (to_parent s)(i := k), parent := next_ready (i + 1) rset nsel\<rparr>)"
| p_end: "parent s = Checking n rset nsel \<Longrightarrow> pstep n s Internal (s\<lparr>parent := Selecting\<rparr>)"
| p_child: "child_step n s e s' \<Longrightarrow> pstep n s e s'"

inductive_cases pstepE: "pstep n s e s'"

inductive prun :: "nat \<Rightarrow> event list \<Rightarrow> pool \<Rightarrow> bool" for n where
  prun_start: "prun n [] (pool_start n)"
| prun_step: "prun n es s \<Longrightarrow> pstep n s e s' \<Longrightarrow> prun n (es @ [e]) s'"

section \<open>Invariant\<close>

definition accepted_for :: "nat \<Rightarrow> event list \<Rightarrow> int list" where
  "accepted_for i es = List.map_filter (\<lambda>e. case e of Accepted j fd \<Rightarrow> if i = j then Some fd else None | _ \<Rightarrow> None) es"

definition closed_by :: "nat \<Rightarrow> event list \<Rightarrow> int list" where
  "closed_by i es = List.map_filter (\<lambda>e. case e of Closed j fd \<Rightarrow> if i = j then Some fd else None | _ \<Rightarrow> None) es"

lemma pool_history [simp]:
  "accepted_for i [] = []" "accepted_for i (es @ [e]) = accepted_for i es @ (case e of Accepted j fd \<Rightarrow> if i = j then [fd] else [] | _ \<Rightarrow> [])"
  "closed_by i [] = []" "closed_by i (es @ [e]) = closed_by i es @ (case e of Closed j fd \<Rightarrow> if i = j then [fd] else [] | _ \<Rightarrow> [])"
  by (simp_all add: accepted_for_def closed_by_def List.map_filter_def split: event.splits)

fun serving :: "cpc \<Rightarrow> int list" where
  "serving (Serving fd) = [fd]"
| "serving _ = []"

text \<open>A child is free and has nothing to do, or it is busy in exactly one of four places.\<close>

definition places :: "pool \<Rightarrow> nat \<Rightarrow> nat" where
  "places s i = length (to_child s i) + of_bool (child s i \<noteq> Reading) + to_parent s i"

definition child_ok :: "event list \<Rightarrow> pool \<Rightarrow> nat \<Rightarrow> bool" where
  "child_ok es s i \<longleftrightarrow> (child_status s i = 0 \<and> places s i = 0 \<or> child_status s i = 1 \<and> places s i = 1)
     \<and> accepted_for i es = closed_by i es @ serving (child s i) @ to_child s i
     \<and> child_count s i = int (length (accepted_for i es))"

text \<open>\<open>nsel\<close> counts what is still to be handled.\<close>

fun parent_ok :: "nat \<Rightarrow> pool \<Rightarrow> ppc \<Rightarrow> bool" where
  "parent_ok n s Selecting \<longleftrightarrow> True"
| "parent_ok n s (Accepting rset nsel) \<longleftrightarrow> 0 < navail s \<and> (\<forall>i < n. rset i \<longrightarrow> 0 < to_parent s i) \<and> nsel = int (count n rset) + 1"
| "parent_ok n s (Checking j rset nsel) \<longleftrightarrow> j \<le> n \<and> (\<forall>i < n. j \<le> i \<and> rset i \<longrightarrow> 0 < to_parent s i)
     \<and> nsel = int (count n (\<lambda>i. j \<le> i \<and> rset i)) \<and> 0 < nsel"
| "parent_ok n s Quit \<longleftrightarrow> False"

definition pool_inv :: "nat \<Rightarrow> event list \<Rightarrow> pool \<Rightarrow> bool" where
  "pool_inv n es s \<longleftrightarrow> (\<forall>i < n. child_ok es s i) \<and> navail s = int (count n (\<lambda>i. child_status s i = 0)) \<and> parent_ok n s (parent s)"

lemma pool_inv_start: "pool_inv n [] (pool_start n)"
  by (simp add: pool_inv_def pool_start_def child_ok_def places_def count_def)

lemma readable_pos: "readable n s i \<Longrightarrow> 0 < to_parent s i"
  by (simp add: readable_def)

lemma child_ok_frame:
  "child_status s' i = child_status s i \<Longrightarrow> child_count s' i = child_count s i \<Longrightarrow> to_child s' i = to_child s i \<Longrightarrow>
   child s' i = child s i \<Longrightarrow> to_parent s' i = to_parent s i \<Longrightarrow> child_ok (es @ [Internal]) s' i = child_ok es s i"
  by (simp add: child_ok_def places_def)

lemma next_ready_ok:
  assumes "\<forall>i < n. j \<le> i \<and> rset i \<longrightarrow> 0 < to_parent s i" "nsel - 1 = int (count n (\<lambda>i. j \<le> i \<and> rset i))" "j \<le> n"
  shows "parent_ok n s (next_ready j rset nsel)"
  using assms by (simp add: next_ready_def)

lemma count_from:
  assumes "i < n" "P i"
  shows "count n (\<lambda>k. i \<le> k \<and> P k) = count n (\<lambda>k. Suc i \<le> k \<and> P k) + 1"
proof -
  have "{k. k < n \<and> i \<le> k \<and> P k} = insert i {k. k < n \<and> Suc i \<le> k \<and> P k}" using assms by (auto simp: Suc_le_eq)
  then show ?thesis unfolding count_def by simp
qed

lemma pool_inv_accept:
  assumes I: "pool_inv n es s" and "parent s = Accepting rset nsel" and i: "i < n" "child_status s i = 0"
  shows "pool_inv n (es @ [Accepted i connfd]) (s\<lparr>child_status := (child_status s)(i := 1), child_count := (child_count s)(i := child_count s i + 1),
       navail := navail s - 1, to_child := (to_child s)(i := to_child s i @ [connfd]), parent := next_ready 0 rset nsel\<rparr>)" (is "pool_inv n ?es ?s")
proof -
  have "child_ok ?es ?s k" if "k < n" for k
    using I that i by (auto simp: pool_inv_def child_ok_def places_def)
  moreover have "navail s - 1 = int (count n (\<lambda>k. ((child_status s)(i := 1)) k = 0))"
    using I count_flag_upd [OF i(1), of "\<lambda>x. x = 0" "child_status s" 1] i(2) by (simp add: pool_inv_def)
  moreover have "parent_ok n ?s (next_ready 0 rset nsel)"
    using I assms(2) by (intro next_ready_ok) (auto simp: pool_inv_def)
  ultimately show ?thesis by (simp add: pool_inv_def)
qed

lemma pool_inv_read:
  assumes I: "pool_inv n es s" and p: "parent s = Checking i rset nsel" "i < n" "rset i" "to_parent s i = Suc k"
  shows "pool_inv n (es @ [Internal]) (s\<lparr>child_status := (child_status s)(i := 0), navail := navail s + 1,
       to_parent := (to_parent s)(i := k), parent := next_ready (i + 1) rset nsel\<rparr>)" (is "pool_inv n ?es ?s")
proof -
  have ok: "child_ok es s i" using I p(2) by (simp add: pool_inv_def)
  then have st: "child_status s i = 1" "k = 0" "to_child s i = []" "child s i = Reading" using p(4) by (auto simp: child_ok_def places_def split: if_splits)
  have "child_ok ?es ?s j" if "j < n" for j
    using I that ok st by (auto simp: pool_inv_def child_ok_def places_def)
  moreover have "navail s + 1 = int (count n (\<lambda>j. ((child_status s)(i := 0)) j = 0))"
    using I count_flag_upd [OF p(2), of "\<lambda>x. x = 0" "child_status s" 0] st(1) by (simp add: pool_inv_def)
  moreover have "parent_ok n ?s (next_ready (i + 1) rset nsel)"
    using I p count_from [OF p(2), of rset] by (intro next_ready_ok) (auto simp: pool_inv_def)
  ultimately show ?thesis by (simp add: pool_inv_def)
qed

lemma parent_ok_mono:
  "parent_ok n s p \<Longrightarrow> navail s' = navail s \<Longrightarrow> (\<And>i. i < n \<Longrightarrow> to_parent s i \<le> to_parent s' i) \<Longrightarrow> parent_ok n s' p"
  by (cases p) (auto intro: less_le_trans)

text \<open>A step of a child.\<close>

lemma pool_inv_child:
  assumes I: "pool_inv n es s" and "child_status s' = child_status s" "navail s' = navail s" "parent s' = parent s"
    and "\<And>k. k < n \<Longrightarrow> to_parent s k \<le> to_parent s' k" "\<And>k. k < n \<Longrightarrow> child_ok es s k \<Longrightarrow> child_ok (es @ [e]) s' k"
  shows "pool_inv n (es @ [e]) s'"
  using assms parent_ok_mono [of n s "parent s" s'] by (simp add: pool_inv_def)

lemma pool_inv_step:
  assumes "pool_inv n es s" "pstep n s e s'"
  shows "pool_inv n (es @ [e]) s'"
  using assms(2)
proof cases
  case (p_select listening rset nsel)
  have "child_ok (es @ [e]) s' i" if "i < n" for i
    using assms(1) that p_select by (simp add: pool_inv_def child_ok_frame)
  moreover have "parent_ok n s' (parent s')"
    using assms(1) p_select readable_pos [of n s] by (auto simp: pool_inv_def)
  ultimately show ?thesis using assms(1) p_select by (simp add: pool_inv_def)
next
  case (p_accept rset nsel i connfd)
  then show ?thesis using pool_inv_accept [OF assms(1)] first_index_holds [of n "\<lambda>i. child_status s i = 0"] by simp
next
  case (p_quit rset nsel)
  have "\<not> child_status s i = 0" if "i < n" for i using first_index_none [OF p_quit(4) that] .
  then have "count n (\<lambda>i. child_status s i = 0) = 0" by (simp add: count_zero)
  moreover have "0 < navail s" "navail s = int (count n (\<lambda>i. child_status s i = 0))" using assms(1) p_quit(3) by (simp_all add: pool_inv_def)
  ultimately show ?thesis by simp
next
  case (p_skip i rset nsel)
  have ok: "child_ok (es @ [e]) s' k" if "k < n" for k
    using assms(1) that p_skip by (simp add: pool_inv_def child_ok_frame)
  have "{k. k < n \<and> Suc i \<le> k \<and> rset k} = {k. k < n \<and> i \<le> k \<and> rset k}" using p_skip(5) by (auto simp: Suc_le_eq le_less)
  then have "count n (\<lambda>k. Suc i \<le> k \<and> rset k) = count n (\<lambda>k. i \<le> k \<and> rset k)" by (simp add: count_def)
  then have "parent_ok n s' (parent s')" using assms(1) p_skip by (simp add: pool_inv_def)
  then show ?thesis using assms(1) p_skip ok by (simp add: pool_inv_def)
next
  case (p_read i rset nsel k)
  then show ?thesis using pool_inv_read [OF assms(1)] by simp
next
  case (p_end rset nsel)
  then show ?thesis using assms(1) by (simp add: pool_inv_def child_ok_frame)
next
  case p_child
  then show ?thesis
  proof cases
    case (c_read i connfd rest)
    show ?thesis by (rule pool_inv_child [OF assms(1)]) (use c_read in \<open>auto simp: child_ok_def places_def\<close>)
  next
    case (c_close i connfd)
    show ?thesis by (rule pool_inv_child [OF assms(1)]) (use c_close in \<open>auto simp: child_ok_def places_def\<close>)
  next
    case (c_tell i)
    show ?thesis by (rule pool_inv_child [OF assms(1)]) (use c_tell in \<open>auto simp: child_ok_def places_def\<close>)
  qed
qed

lemma prun_inv: "prun n es s \<Longrightarrow> pool_inv n es s"
  by (induction rule: prun.induct) (auto intro: pool_inv_start pool_inv_step)

definition client_arrives :: "pool \<Rightarrow> pool \<Rightarrow> bool" where
  "client_arrives s s' \<longleftrightarrow> parent s = Selecting \<and> (case parent s' of Accepting rset nsel \<Rightarrow> True | _ \<Rightarrow> False)"

lemma busy_child_steps:
  assumes "i < n" "parent s = Selecting" "0 < places s i"
  shows "\<exists>e s'. pstep n s e s' \<and> \<not> client_arrives s s'"
proof (cases "child s i")
  case (Serving fd)
  then show ?thesis using p_child [OF c_close [OF assms(1) Serving]] assms(2) by (fastforce simp: client_arrives_def)
next
  case Telling
  then show ?thesis using p_child [OF c_tell [OF assms(1) Telling]] assms(2) by (fastforce simp: client_arrives_def)
next
  case Reading
  show ?thesis
  proof (cases "to_child s i")
    case (Cons fd rest)
    then show ?thesis using p_child [OF c_read [OF assms(1) Reading Cons]] assms(2) by (fastforce simp: client_arrives_def)
  next
    case Nil
    then have "readable n s i" using assms Reading by (simp add: places_def readable_def)
    then have "0 < count n (readable n s)" using assms(1) by (auto simp: count_pos)
    then have "pstep n s Internal (s\<lparr>parent := if False then Accepting (readable n s) (int (count n (readable n s)))
        else Checking 0 (readable n s) (int (count n (readable n s)))\<rparr>)"
      using p_select [OF assms(2), of False "readable n s" n "int (count n (readable n s))"] by simp
    then show ?thesis by (fastforce simp: client_arrives_def)
  qed
qed

section \<open>Properties\<close>

text \<open>
  C30.  In every interleaving of the parent and its children the parent finds a free child for each
  connection it accepts, \<open>navail\<close> counts the free children, a child that is marked free has nothing to
  do and one that is marked busy has one connection or one byte to report, and each child closes the
  connections accepted for it, in order, and no others.
\<close>

theorem serv05_pool:
  assumes "prun n es s"
  shows "parent s \<noteq> Quit \<and> navail s = int (count n (\<lambda>i. child_status s i = 0))
    \<and> (\<forall>i < n. (child_status s i = 0 \<and> places s i = 0 \<or> child_status s i = 1 \<and> places s i = 1)
         \<and> accepted_for i es = closed_by i es @ serving (child s i) @ to_child s i
         \<and> child_count s i = int (length (accepted_for i es)))"
  using prun_inv [OF assms] by (cases "parent s") (auto simp: pool_inv_def child_ok_def)

text \<open>
  There is no deadlock: some process can go on without a new client, or the parent waits in
  \<open>select\<close> and every child is free.
\<close>

theorem serv05_no_deadlock:
  assumes "prun n es s"
  shows "(\<exists>e s'. pstep n s e s' \<and> \<not> client_arrives s s') \<or> (parent s = Selecting \<and> (\<forall>i < n. child_status s i = 0 \<and> places s i = 0))"
proof -
  have I: "pool_inv n es s" using prun_inv [OF assms] .
  show ?thesis
  proof (cases "parent s")
    case Selecting
    show ?thesis
    proof (cases "\<exists>i < n. 0 < places s i")
      case True
      then show ?thesis using busy_child_steps [OF _ Selecting] by blast
    next
      case False
      then show ?thesis using Selecting I by (auto simp: pool_inv_def child_ok_def)
    qed
  next
    case (Accepting rset nsel)
    then have "0 < count n (\<lambda>i. child_status s i = 0)" using I by (simp add: pool_inv_def)
    then have "first_index n (\<lambda>i. child_status s i = 0) < n" using first_index_exists by (simp add: count_pos)
    then show ?thesis using p_accept [OF Accepting refl, of n 0] Accepting by (auto simp: client_arrives_def)
  next
    case (Checking i rset nsel)
    then have i: "i \<le> n" "i < n \<Longrightarrow> rset i \<Longrightarrow> 0 < to_parent s i" using I by (auto simp: pool_inv_def)
    consider "i = n" | "i < n" "\<not> rset i" | k where "i < n" "rset i" "to_parent s i = Suc k"
      using i by (metis le_neq_implies_less gr0_implies_Suc)
    then have "\<exists>e s'. pstep n s e s'" by cases (metis Checking p_end p_skip p_read)+
    then show ?thesis using Checking by (auto simp: client_arrives_def)
  next
    case Quit
    then show ?thesis using I by (simp add: pool_inv_def)
  qed
qed

text \<open>A run with one child, which got a connection.\<close>

lemma sample_prun:
  obtains s where "prun 1 [Internal, Accepted 0 7] s" "parent s = Selecting" "to_child s 0 = [7]"
proof -
  let ?r = "readable 1 (pool_start 1)"
  have z: "count 1 ?r = 0" by (simp add: count_zero readable_def pool_start_def)
  let ?s1 = "(pool_start 1)\<lparr>parent := if True then Accepting ?r 1 else Checking 0 ?r 1\<rparr>"
  have "pstep 1 (pool_start 1) Internal ?s1" by (rule p_select) (use z in \<open>simp_all add: pool_start_def\<close>)
  from prun_step [OF prun_start this] have 1: "prun 1 [Internal] ?s1" by simp
  have "\<exists>s'. pstep 1 ?s1 (Accepted 0 7) s' \<and> parent s' = Selecting \<and> to_child s' 0 = [7]"
    by (rule exI, rule conjI, rule p_accept [of ?s1 ?r 1]) (simp_all add: first_index_def next_ready_def pool_start_def)
  then show ?thesis using prun_step [OF 1] that by force
qed

theorem serv05_pool_witness:
  "\<exists>s. prun 1 [Internal, Accepted 0 7] s \<and> navail s = 0 \<and> child_status s 0 = 1 \<and> child_count s 0 = 1"
proof -
  obtain s where s: "prun 1 [Internal, Accepted 0 7] s" "to_child s 0 = [7]" by (rule sample_prun)
  have "accepted_for 0 [Internal, Accepted 0 7] = [7]" by (simp add: accepted_for_def List.map_filter_def)
  moreover have "places s 0 \<noteq> 0" using s(2) by (simp add: places_def)
  ultimately have c: "child_status s 0 = 1" "child_count s 0 = 1" "navail s = int (count 1 (\<lambda>i. child_status s i = 0))"
    using serv05_pool [OF s(1)] by auto
  then have "count 1 (\<lambda>i. child_status s i = 0) = 0" by (simp add: count_zero)
  then show ?thesis using c s(1) by auto
qed

theorem serv05_no_deadlock_witness:
  "\<exists>s e s'. prun 1 [Internal, Accepted 0 7] s \<and> pstep 1 s e s' \<and> \<not> client_arrives s s'"
proof -
  obtain s where s: "prun 1 [Internal, Accepted 0 7] s" "to_child s 0 = [7]" by (rule sample_prun)
  have "places s 0 \<noteq> 0" using s(2) by (simp add: places_def)
  then show ?thesis using serv05_no_deadlock [OF s(1)] s(1) by auto
qed

end
