(* ===== verification/Semaph.thy ===== *)
theory Semaph
  imports Prelude Index_Count
begin

text \<open>
  The System V semaphores of \<open>apue.3e/lib/semaph.c\<close>, for the processes that use one key.  A step is a
  system call of a process: the set of the key exists or not, a set that was removed has no valid
  identifier any more, and a process that waits in \<open>semop\<close> on a set that is removed gets \<open>EIDRM\<close>.
  When a process exits its \<open>SEM_UNDO\<close> adjustments are applied.
\<close>

section \<open>State\<close>

definition BIGCOUNT :: int where "BIGCOUNT = 10000"
definition SEMVMX :: int where "SEMVMX = 32767"

text \<open>
  Where a process is, with the identifier it uses: before \<open>semget\<close> of \<open>sem_create\<close>, before \<open>op_lock\<close> and
  waiting in it, with the lock, after \<open>GETVAL\<close> was 0, between the two \<open>SETVAL\<close>s, before
  \<open>op_endcreate\<close>; before \<open>op_open\<close> of \<open>sem_open\<close>; using the semaphore; in \<open>sem_close\<close> with the lock,
  before \<open>IPC_RMID\<close>, before \<open>op_unlock\<close>.  A process may end in \<open>err_sys\<close>, in \<open>err_dump\<close>, or exit.
\<close>

datatype pc = Out | Creating | Got nat | Waiting nat | Locked nat | Zero nat | Half nat | Ready nat
  | Opening nat | Using nat | Closing nat | Removing nat | Unlocking nat | Err_sys_exit | Dumped | Gone

text \<open>The latest set of the key, whether it exists, its three members, and the processes.\<close>

record sem =
  semid :: nat
  alive :: bool
  v0 :: int
  v1 :: int
  v2 :: int
  pc :: "nat \<Rightarrow> pc"

definition sem_start :: sem where
  "sem_start = \<lparr>semid = 0, alive = False, v0 = 0, v1 = 0, v2 = 0, pc = \<lambda>_. Out\<rparr>"

definition valid :: "sem \<Rightarrow> nat \<Rightarrow> bool" where
  "valid s i \<longleftrightarrow> alive s \<and> i = semid s"

definition goto :: "nat \<Rightarrow> pc \<Rightarrow> sem \<Rightarrow> sem" where
  "goto p x s = s\<lparr>pc := (pc s)(p := x)\<rparr>"

section \<open>Exit\<close>

text \<open>Who holds the lock of set \<open>i\<close>, and who is counted in its second member.\<close>

fun holds_lock :: "nat \<Rightarrow> pc \<Rightarrow> bool" where
  "holds_lock i (Locked j) = (i = j)"
| "holds_lock i (Zero j) = (i = j)"
| "holds_lock i (Half j) = (i = j)"
| "holds_lock i (Ready j) = (i = j)"
| "holds_lock i (Closing j) = (i = j)"
| "holds_lock i (Removing j) = (i = j)"
| "holds_lock i (Unlocking j) = (i = j)"
| "holds_lock i _ = False"

fun uses :: "nat \<Rightarrow> pc \<Rightarrow> bool" where
  "uses i (Using j) = (i = j)"
| "uses i _ = False"

text \<open>
  A process ends, in \<open>x\<close>, and \<open>SEM_UNDO\<close> releases its lock and raises the process counter again.  What
  the adjustment makes of the value itself, \<open>v\<close>, is left open.
\<close>

definition leave :: "int \<Rightarrow> nat \<Rightarrow> pc \<Rightarrow> sem \<Rightarrow> sem" where
  "leave v p x s = goto p x (if alive s then s\<lparr>v0 := if uses (semid s) (pc s p) then v else v0 s,
     v1 := v1 s + of_bool (uses (semid s) (pc s p)), v2 := v2 s - of_bool (holds_lock (semid s) (pc s p))\<rparr> else s)"

inductive exit_step :: "nat \<Rightarrow> sem \<Rightarrow> sem \<Rightarrow> bool" for p where
  exit_undo: "pc s p \<notin> {Err_sys_exit, Dumped, Gone} \<Longrightarrow> exit_step p s (leave v p Gone s)"

section \<open>sem_create\<close>

text \<open>\<open>semget\<close> with \<open>IPC_CREAT\<close>: a new set has three zero members.\<close>

definition semget_create :: "sem \<Rightarrow> sem" where
  "semget_create s = (if alive s then s else s\<lparr>semid := semid s + 1, alive := True, v0 := 0, v1 := 0, v2 := 0\<rparr>)"

inductive create_step :: "int \<Rightarrow> nat \<Rightarrow> sem \<Rightarrow> sem \<Rightarrow> bool" for initval p where
  call_create: "pc s p = Out \<Longrightarrow> create_step initval p s (goto p Creating s)"
| create_get: "pc s p = Creating \<Longrightarrow> t = semget_create s \<Longrightarrow> create_step initval p s (goto p (Got (semid t)) t)"
| create_lock: "pc s p = Got i \<or> pc s p = Waiting i \<Longrightarrow> valid s i \<Longrightarrow> v2 s = 0 \<Longrightarrow>
     create_step initval p s (goto p (Locked i) (s\<lparr>v2 := 1\<rparr>))"
| create_wait: "pc s p = Got i \<Longrightarrow> valid s i \<Longrightarrow> v2 s \<noteq> 0 \<Longrightarrow> create_step initval p s (goto p (Waiting i) s)"
| create_again: "pc s p = Got i \<Longrightarrow> \<not> valid s i \<Longrightarrow> create_step initval p s (goto p Creating s)"
| create_getval: "pc s p = Locked i \<Longrightarrow> valid s i \<Longrightarrow>
     create_step initval p s (goto p (if v1 s = 0 then Zero i else Ready i) s)"
| create_setval0: "pc s p = Zero i \<Longrightarrow> valid s i \<Longrightarrow> create_step initval p s (goto p (Half i) (s\<lparr>v0 := initval\<rparr>))"
| create_setval1: "pc s p = Half i \<Longrightarrow> valid s i \<Longrightarrow> create_step initval p s (goto p (Ready i) (s\<lparr>v1 := BIGCOUNT\<rparr>))"
| create_end: "pc s p = Ready i \<Longrightarrow> valid s i \<Longrightarrow> 1 \<le> v1 s \<Longrightarrow> 1 \<le> v2 s \<Longrightarrow>
     create_step initval p s (goto p (Using i) (s\<lparr>v1 := v1 s - 1, v2 := v2 s - 1\<rparr>))"
| create_fail: "pc s p \<in> {Locked i, Zero i, Half i, Ready i} \<Longrightarrow> \<not> valid s i \<Longrightarrow> create_step initval p s (leave v p Err_sys_exit s)"

section \<open>sem_open, sem_op\<close>

text \<open>\<open>sem_open\<close> returns -1 if there is no set; \<open>op_open\<close> waits while the counter is 0.\<close>

inductive open_step :: "nat \<Rightarrow> sem \<Rightarrow> sem \<Rightarrow> bool" for p where
  open_get: "pc s p = Out \<Longrightarrow> alive s \<Longrightarrow> open_step p s (goto p (Opening (semid s)) s)"
| open_count: "pc s p = Opening i \<Longrightarrow> valid s i \<Longrightarrow> 1 \<le> v1 s \<Longrightarrow> open_step p s (goto p (Using i) (s\<lparr>v1 := v1 s - 1\<rparr>))"
| open_fail: "pc s p = Opening i \<Longrightarrow> \<not> valid s i \<Longrightarrow> open_step p s (leave v p Err_sys_exit s)"

text \<open>\<open>sem_wait\<close> is \<open>sem_op\<close> of -1, \<open>sem_signal\<close> of 1.\<close>

inductive op_step :: "int \<Rightarrow> nat \<Rightarrow> sem \<Rightarrow> sem \<Rightarrow> bool" for amount p where
  op_done: "pc s p = Using i \<Longrightarrow> amount \<noteq> 0 \<Longrightarrow> valid s i \<Longrightarrow> 0 \<le> v0 s + amount \<Longrightarrow> v0 s + amount \<le> SEMVMX \<Longrightarrow>
     op_step amount p s (s\<lparr>v0 := v0 s + amount\<rparr>)"
| op_fail: "pc s p = Using i \<Longrightarrow> amount = 0 \<or> \<not> valid s i \<or> SEMVMX < v0 s + amount \<Longrightarrow> op_step amount p s (leave v p Err_sys_exit s)"

section \<open>sem_close, sem_rm\<close>

text \<open>\<open>IPC_RMID\<close>: who waits in \<open>op_lock\<close> gets \<open>EIDRM\<close>, which is not \<open>EINVAL\<close>, and calls \<open>err_sys\<close>.\<close>

definition sem_rm :: "sem \<Rightarrow> sem" where
  "sem_rm s = s\<lparr>alive := False, pc := (\<lambda>q. if pc s q = Waiting (semid s) then Err_sys_exit else pc s q)\<rparr>"

inductive close_step :: "nat \<Rightarrow> sem \<Rightarrow> sem \<Rightarrow> bool" for p where
  close_lock: "pc s p = Using i \<Longrightarrow> valid s i \<Longrightarrow> v2 s = 0 \<Longrightarrow> close_step p s (goto p (Closing i) (s\<lparr>v2 := 1, v1 := v1 s + 1\<rparr>))"
| close_getval: "pc s p = Closing i \<Longrightarrow> valid s i \<Longrightarrow>
     close_step p s (if v1 s > BIGCOUNT then leave v p Dumped s else goto p (if v1 s = BIGCOUNT then Removing i else Unlocking i) s)"
| close_rm: "pc s p = Removing i \<Longrightarrow> valid s i \<Longrightarrow> close_step p s (goto p Out (sem_rm s))"
| close_unlock: "pc s p = Unlocking i \<Longrightarrow> valid s i \<Longrightarrow> 1 \<le> v2 s \<Longrightarrow> close_step p s (goto p Out (s\<lparr>v2 := v2 s - 1\<rparr>))"
| close_fail: "pc s p \<in> {Using i, Closing i, Removing i, Unlocking i} \<Longrightarrow> \<not> valid s i \<Longrightarrow> close_step p s (leave v p Err_sys_exit s)"

text \<open>The processes below \<open>n\<close>, each with its own initial value; \<open>opens\<close> says whether they use \<open>sem_open\<close>.\<close>

inductive sem_step :: "bool \<Rightarrow> nat \<Rightarrow> sem \<Rightarrow> sem \<Rightarrow> bool" for opens n where
  s_create: "p < n \<Longrightarrow> create_step initval p s s' \<Longrightarrow> sem_step opens n s s'"
| s_open: "p < n \<Longrightarrow> opens \<Longrightarrow> open_step p s s' \<Longrightarrow> sem_step opens n s s'"
| s_op: "p < n \<Longrightarrow> op_step amount p s s' \<Longrightarrow> sem_step opens n s s'"
| s_close: "p < n \<Longrightarrow> close_step p s s' \<Longrightarrow> sem_step opens n s s'"
| s_exit: "p < n \<Longrightarrow> exit_step p s s' \<Longrightarrow> sem_step opens n s s'"

inductive_cases sem_stepE: "sem_step opens n s s'"

inductive sem_run :: "bool \<Rightarrow> nat \<Rightarrow> sem \<Rightarrow> bool" for opens n where
  run_start: "sem_run opens n sem_start"
| run_step: "sem_run opens n s \<Longrightarrow> sem_step opens n s s' \<Longrightarrow> sem_run opens n s'"

section \<open>Invariant\<close>

text \<open>What a process may be doing, with a set \<open>i\<close> that exists if \<open>a\<close>, and its second member.\<close>

fun pc_ok :: "nat \<Rightarrow> bool \<Rightarrow> int \<Rightarrow> pc \<Rightarrow> bool" where
  "pc_ok i a v (Got j) = (j \<le> i)"
| "pc_ok i a v (Waiting j) = (a \<and> i = j)"
| "pc_ok i a v (Locked j) = (a \<and> i = j)"
| "pc_ok i a v (Zero j) = (a \<and> i = j \<and> v = 0)"
| "pc_ok i a v (Half j) = (a \<and> i = j \<and> v = 0)"
| "pc_ok i a v (Ready j) = (a \<and> i = j \<and> v \<noteq> 0)"
| "pc_ok i a v (Using j) = (a \<and> i = j)"
| "pc_ok i a v (Closing j) = (a \<and> i = j \<and> v \<noteq> 0)"
| "pc_ok i a v (Removing j) = (a \<and> i = j \<and> v = BIGCOUNT)"
| "pc_ok i a v (Unlocking j) = (a \<and> i = j \<and> v \<noteq> 0)"
| "pc_ok i a v (Opening j) = False"
| "pc_ok i a v Dumped = False"
| "pc_ok i a v _ = True"

definition lockers :: "nat \<Rightarrow> nat \<Rightarrow> (nat \<Rightarrow> pc) \<Rightarrow> int" where
  "lockers n i f = int (count n (\<lambda>p. holds_lock i (f p)))"

definition users :: "nat \<Rightarrow> nat \<Rightarrow> (nat \<Rightarrow> pc) \<Rightarrow> int" where
  "users n i f = int (count n (\<lambda>p. uses i (f p)))"

definition counted :: "int \<Rightarrow> int \<Rightarrow> bool" where
  "counted v u \<longleftrightarrow> v = 0 \<and> u = 0 \<or> v = BIGCOUNT - u"

definition sem_inv :: "nat \<Rightarrow> sem \<Rightarrow> bool" where
  "sem_inv n s \<longleftrightarrow> (\<forall>p < n. pc_ok (semid s) (alive s) (v1 s) (pc s p))
     \<and> (alive s \<longrightarrow> v2 s = lockers n (semid s) (pc s) \<and> v2 s \<le> 1 \<and> counted (v1 s) (users n (semid s) (pc s)))"

lemma lockers_upd: "p < n \<Longrightarrow> lockers n i (f(p := x)) = lockers n i f - of_bool (holds_lock i (f p)) + of_bool (holds_lock i x)"
  unfolding lockers_def by (rule count_flag_upd)

lemma users_upd: "p < n \<Longrightarrow> users n i (f(p := x)) = users n i f - of_bool (uses i (f p)) + of_bool (uses i x)"
  unfolding users_def by (rule count_flag_upd)

lemma lock_alone:
  assumes "lockers n i f \<le> 1" "p < n" "q < n" "holds_lock i (f p)" "holds_lock i (f q)"
  shows "q = p"
proof -
  have "card {p. p < n \<and> holds_lock i (f p)} \<le> Suc 0" using assms(1) by (simp add: lockers_def count_def)
  then show ?thesis using assms(2-) card_le_Suc0_iff_eq [of "{p. p < n \<and> holds_lock i (f p)}"] by auto
qed

lemma users_le: "users n i f \<le> int n"
proof -
  have "card {p. p < n \<and> uses i (f p)} \<le> card {..<n}" by (rule card_mono) auto
  then show ?thesis by (simp add: users_def count_def)
qed

lemma users_pos: "p < n \<Longrightarrow> uses i (f p) \<Longrightarrow> 1 \<le> users n i f"
  using count_pos [of n "\<lambda>p. uses i (f p)"] by (auto simp: users_def)

text \<open>A step of process \<open>p\<close> on a set that exists and goes on existing.\<close>

lemma sem_inv_goto:
  assumes I: "sem_inv n s" and p: "p < n" and a: "alive s" "alive s'" "semid s' = semid s" and pc: "pc s' = (pc s)(p := x)"
    and "v2 s' = v2 s - of_bool (holds_lock (semid s) (pc s p)) + of_bool (holds_lock (semid s) x)" "v2 s' \<le> 1"
    and "counted (v1 s') (users n (semid s) (pc s) - of_bool (uses (semid s) (pc s p)) + of_bool (uses (semid s) x))"
    and "pc_ok (semid s) True (v1 s') x"
    and "v1 s' = v1 s \<or> (\<forall>q < n. q \<noteq> p \<longrightarrow> pc_ok (semid s) True (v1 s') (pc s q))"
  shows "sem_inv n s'"
proof -
  have "pc_ok (semid s') (alive s') (v1 s') (pc s' q)" if "q < n" for q
    using assms that by (cases "q = p") (auto simp: sem_inv_def)
  then show ?thesis using assms lockers_upd [OF p, of "semid s" "pc s" x] users_upd [OF p, of "semid s" "pc s" x]
    by (auto simp: sem_inv_def)
qed

lemma pc_ok_other: "pc_ok i a v x \<Longrightarrow> \<not> holds_lock i x \<Longrightarrow> pc_ok i a v' x"
  by (cases x) auto

lemma sem_inv_pc: "sem_inv n s \<Longrightarrow> p < n \<Longrightarrow> pc_ok (semid s) (alive s) (v1 s) (pc s p)"
  by (simp add: sem_inv_def)

lemma others_free:
  assumes "sem_inv n s" "alive s" "p < n" "q < n" "q \<noteq> p" "holds_lock (semid s) (pc s p)"
  shows "\<not> holds_lock (semid s) (pc s q)"
  using assms lock_alone [of n "semid s" "pc s" p q] by (auto simp: sem_inv_def)

lemma lock_free:
  assumes "sem_inv n s" "alive s" "v2 s = 0" "q < n"
  shows "\<not> holds_lock (semid s) (pc s q)"
  using assms count_pos [of n "\<lambda>p. holds_lock (semid s) (pc s p)"] by (auto simp: sem_inv_def lockers_def)

text \<open>A step with the lock, which may change the counter.\<close>

lemma sem_inv_locked:
  assumes I: "sem_inv n s" and p: "p < n" and a: "alive s" "alive s'" "semid s' = semid s" and pc: "pc s' = (pc s)(p := x)"
    and "holds_lock (semid s) (pc s p)" "v2 s' = v2 s - 1 + of_bool (holds_lock (semid s) x)"
    and "counted (v1 s') (users n (semid s) (pc s) + of_bool (uses (semid s) x))" "pc_ok (semid s) True (v1 s') x"
  shows "sem_inv n s'"
proof (rule sem_inv_goto [OF I p a pc])
  have "\<not> uses (semid s) (pc s p)" using assms(7) by (cases "pc s p") auto
  then show "counted (v1 s') (users n (semid s) (pc s) - of_bool (uses (semid s) (pc s p)) + of_bool (uses (semid s) x))" using assms(9) by simp
  show "v1 s' = v1 s \<or> (\<forall>q < n. q \<noteq> p \<longrightarrow> pc_ok (semid s) True (v1 s') (pc s q))"
    using others_free [OF I a(1) p _ _ assms(7)] sem_inv_pc [OF I] pc_ok_other a(1) by metis
  have "v2 s \<le> 1" using I a(1) by (simp add: sem_inv_def)
  then show "v2 s' \<le> 1" using assms(8) by (cases "holds_lock (semid s) x") simp_all
qed (use assms in simp_all)

lemma user_count:
  assumes "sem_inv n s" "int n < BIGCOUNT" "alive s" "p < n" "uses (semid s) (pc s p)"
  shows "v1 s = BIGCOUNT - users n (semid s) (pc s)" "0 < v1 s" "v1 s < BIGCOUNT"
proof -
  have u: "1 \<le> users n (semid s) (pc s)" "users n (semid s) (pc s) \<le> int n" using users_pos [of p n "semid s" "pc s"] assms(4,5) users_le by simp_all
  then show "v1 s = BIGCOUNT - users n (semid s) (pc s)" using assms(1,3) by (auto simp: sem_inv_def counted_def)
  then show "0 < v1 s" "v1 s < BIGCOUNT" using u assms(2) by simp_all
qed

lemma sem_inv_leave:
  assumes I: "sem_inv n s" "int n < BIGCOUNT" and p: "p < n" and x: "x = Gone \<or> x = Err_sys_exit"
  shows "sem_inv n (leave v p x s)"
proof (cases "alive s")
  case False
  then show ?thesis using I(1) x by (auto simp: sem_inv_def leave_def goto_def)
next
  case True
  show ?thesis
  proof (rule sem_inv_goto [OF I(1) p True])
    show "alive (leave v p x s)" "semid (leave v p x s) = semid s" "pc (leave v p x s) = (pc s)(p := x)"
      using True by (simp_all add: leave_def goto_def)
    show v2: "v2 (leave v p x s) = v2 s - of_bool (holds_lock (semid s) (pc s p)) + of_bool (holds_lock (semid s) x)"
      using True x by (auto simp: leave_def goto_def)
    have "v2 s \<le> 1" using I(1) True by (simp add: sem_inv_def)
    then show "v2 (leave v p x s) \<le> 1" using v2 x by auto
    show "pc_ok (semid s) True (v1 (leave v p x s)) x" using x by auto
    have v1: "v1 (leave v p x s) = v1 s + of_bool (uses (semid s) (pc s p))" using True by (simp add: leave_def goto_def)
    have c: "counted (v1 s) (users n (semid s) (pc s))" using I(1) True by (simp add: sem_inv_def)
    show "counted (v1 (leave v p x s)) (users n (semid s) (pc s) - of_bool (uses (semid s) (pc s p)) + of_bool (uses (semid s) x))"
    proof (cases "uses (semid s) (pc s p)")
      case u: True
      then show ?thesis using v1 x user_count [OF I True p u] by (auto simp: counted_def)
    next
      case False
      then show ?thesis using v1 x c by auto
    qed
    show "v1 (leave v p x s) = v1 s \<or> (\<forall>q < n. q \<noteq> p \<longrightarrow> pc_ok (semid s) True (v1 (leave v p x s)) (pc s q))"
    proof (cases "uses (semid s) (pc s p)")
      case u: True
      have "pc_ok (semid s) True (v1 s + 1) (pc s q)" if "q < n" for q
        using sem_inv_pc [OF I(1) that] True user_count [OF I True p u] by (cases "pc s q") auto
      then show ?thesis using v1 u by simp
    qed (use v1 in simp)
  qed
qed

lemma sem_inv_unchanged:
  assumes "sem_inv n s" "p < n" "pc_ok (semid s) (alive s) (v1 s) x"
    and "\<not> holds_lock (semid s) x" "\<not> holds_lock (semid s) (pc s p)" "\<not> uses (semid s) x" "\<not> uses (semid s) (pc s p)"
  shows "sem_inv n (goto p x s)"
  using assms lockers_upd [OF assms(2), of "semid s" "pc s" x] users_upd [OF assms(2), of "semid s" "pc s" x]
  by (auto simp: sem_inv_def goto_def)

lemma create_inv:
  assumes I: "sem_inv n s" and n: "int n < BIGCOUNT" and p: "p < n" and st: "create_step initval p s s'"
  shows "sem_inv n s'"
  using st
proof cases
  case call_create
  then show ?thesis using sem_inv_unchanged [OF I p] by simp
next
  case (create_get t)
  show ?thesis
  proof (cases "alive s")
    case True
    then show ?thesis using create_get sem_inv_unchanged [OF I p, of "Got (semid s)"] by (simp add: semget_create_def)
  next
    case False
    have other: "pc_ok (semid s + 1) True 0 (pc s q) \<and> \<not> holds_lock (semid s + 1) (pc s q) \<and> \<not> uses (semid s + 1) (pc s q)" if "q < n" for q
      using sem_inv_pc [OF I that] False by (cases "pc s q") auto
    have t: "sem_inv n t" using False other create_get
      by (auto simp: sem_inv_def semget_create_def lockers_def users_def counted_def count_zero)
    then show ?thesis using create_get sem_inv_unchanged [OF t p, of "Got (semid t)"] False by (simp add: semget_create_def)
  qed
next
  case (create_lock i)
  then have a: "alive s" "i = semid s" by (simp_all add: valid_def)
  show ?thesis by (rule sem_inv_goto [OF I p a(1), of _ "Locked i"])
      (use create_lock a I in \<open>auto simp: goto_def sem_inv_def\<close>)
next
  case (create_wait i)
  then show ?thesis using sem_inv_unchanged [OF I p] by (simp add: valid_def)
next
  case (create_again i)
  then show ?thesis using sem_inv_unchanged [OF I p] by simp
next
  case (create_getval i)
  then have a: "alive s" "i = semid s" by (simp_all add: valid_def)
  show ?thesis by (rule sem_inv_locked [OF I p a(1), of _ "if v1 s = 0 then Zero i else Ready i"])
      (use create_getval a I in \<open>auto simp: goto_def sem_inv_def\<close>)
next
  case (create_setval0 i)
  then have a: "alive s" "i = semid s" by (simp_all add: valid_def)
  have "v1 s = 0" using sem_inv_pc [OF I p] create_setval0 by simp
  show ?thesis by (rule sem_inv_locked [OF I p a(1), of _ "Half i"])
      (use create_setval0 a I \<open>v1 s = 0\<close> in \<open>auto simp: goto_def sem_inv_def\<close>)
next
  case (create_setval1 i)
  then have a: "alive s" "i = semid s" by (simp_all add: valid_def)
  have "v1 s = 0" using sem_inv_pc [OF I p] create_setval1 by simp
  then have "users n (semid s) (pc s) = 0" using I a users_le [of n "semid s" "pc s"] n by (auto simp: sem_inv_def counted_def)
  then show ?thesis by (intro sem_inv_locked [OF I p a(1), of _ "Ready i"])
      (use create_setval1 a I in \<open>auto simp: goto_def sem_inv_def counted_def BIGCOUNT_def\<close>)
next
  case (create_end i)
  then have a: "alive s" "i = semid s" by (simp_all add: valid_def)
  have "v1 s = BIGCOUNT - users n (semid s) (pc s)" using I a create_end by (auto simp: sem_inv_def counted_def)
  then show ?thesis by (intro sem_inv_locked [OF I p a(1), of _ "Using i"])
      (use create_end a I in \<open>auto simp: goto_def sem_inv_def counted_def\<close>)
next
  case (create_fail i v)
  then show ?thesis using sem_inv_leave [OF I n p] by simp
qed

lemma op_inv:
  assumes I: "sem_inv n s" "int n < BIGCOUNT" and p: "p < n" and st: "op_step amount p s s'"
  shows "sem_inv n s'"
  using st
proof cases
  case (op_done i)
  then show ?thesis using I(1) by (auto simp: sem_inv_def)
next
  case (op_fail i v)
  then show ?thesis using sem_inv_leave [OF I p] by simp
qed

lemma rm_inv:
  assumes I: "sem_inv n s" "int n < BIGCOUNT" and p: "p < n" and r: "pc s p = Removing i"
  shows "sem_inv n (goto p Out (sem_rm s))"
proof -
  have ok: "alive s" "i = semid s" "v1 s = BIGCOUNT" using sem_inv_pc [OF I(1) p] r by auto
  have "pc_ok (semid s) False (v1 s) (pc (goto p Out (sem_rm s)) q)" if q: "q < n" for q
  proof (cases "q = p \<or> pc s q = Waiting (semid s)")
    case True
    then show ?thesis by (auto simp: goto_def sem_rm_def)
  next
    case False
    have "\<not> holds_lock (semid s) (pc s q)" using others_free [OF I(1) ok(1) p q] False r ok(2) by auto
    moreover have "\<not> uses (semid s) (pc s q)" using user_count(3) [OF I ok(1) q] ok(3) by auto
    ultimately have "pc_ok (semid s) False (v1 s) (pc s q)" using sem_inv_pc [OF I(1) q] False by (cases "pc s q") auto
    then show ?thesis using False by (simp add: goto_def sem_rm_def)
  qed
  then show ?thesis by (simp add: sem_inv_def goto_def sem_rm_def)
qed

lemma close_inv:
  assumes I: "sem_inv n s" "int n < BIGCOUNT" and p: "p < n" and st: "close_step p s s'"
  shows "sem_inv n s'"
  using st
proof cases
  case (close_lock i)
  then have a: "alive s" "i = semid s" "uses (semid s) (pc s p)" by (simp_all add: valid_def)
  note v = user_count [OF I a(1) p a(3)]
  have "pc_ok (semid s) True (v1 s + 1) (pc s q)" if "q < n" for q
    using sem_inv_pc [OF I(1) that] a(1) lock_free [OF I(1) a(1) close_lock(4) that] pc_ok_other by metis
  then show ?thesis
    by (intro sem_inv_goto [OF I(1) p a(1), of _ "Closing i"])
      (use close_lock a v in \<open>auto simp: goto_def counted_def\<close>)
next
  case (close_getval i)
  then have a: "alive s" "i = semid s" by (simp_all add: valid_def)
  have "v1 s \<noteq> 0" using sem_inv_pc [OF I(1) p] close_getval by simp
  then have v: "v1 s = BIGCOUNT - users n (semid s) (pc s)" using I(1) a(1) by (auto simp: sem_inv_def counted_def)
  moreover have "0 \<le> users n (semid s) (pc s)" by (simp add: users_def)
  ultimately have "v1 s \<le> BIGCOUNT" by simp
  then show ?thesis
    by (intro sem_inv_locked [OF I(1) p a(1), of _ "if v1 s = BIGCOUNT then Removing i else Unlocking i"])
      (use close_getval a v \<open>v1 s \<noteq> 0\<close> in \<open>auto simp: goto_def counted_def\<close>)
next
  case (close_rm i)
  then show ?thesis using rm_inv [OF I p] by simp
next
  case (close_unlock i)
  then have a: "alive s" "i = semid s" by (simp_all add: valid_def)
  show ?thesis by (rule sem_inv_locked [OF I(1) p a(1), of _ Out])
      (use close_unlock a I(1) in \<open>auto simp: goto_def sem_inv_def\<close>)
next
  case (close_fail i v)
  then show ?thesis using sem_inv_leave [OF I p] by simp
qed

lemma sem_run_inv: "sem_run False n s \<Longrightarrow> int n < BIGCOUNT \<Longrightarrow> sem_inv n s"
proof (induction rule: sem_run.induct)
  case run_start
  then show ?case by (simp add: sem_inv_def sem_start_def)
next
  case (run_step s s')
  then have I: "sem_inv n s" "int n < BIGCOUNT" by simp_all
  from run_step(2) show ?case
    by (cases rule: sem_step.cases) (auto intro: create_inv [OF I] op_inv [OF I] close_inv [OF I] sem_inv_leave [OF I] elim: exit_step.cases)
qed

text \<open>Two processes: one creates the semaphore with value 5.\<close>

abbreviation st :: "nat \<Rightarrow> bool \<Rightarrow> int \<Rightarrow> int \<Rightarrow> int \<Rightarrow> pc \<Rightarrow> pc \<Rightarrow> sem" where
  "st i a x y z q0 q1 \<equiv> \<lparr>semid = i, alive = a, v0 = x, v1 = y, v2 = z, pc = (\<lambda>_. Out)(0 := q0, Suc 0 := q1)\<rparr>"

lemma st_goto:
  "goto 0 x (st i a v w z q0 q1) = st i a v w z x q1" "goto (Suc 0) x (st i a v w z q0 q1) = st i a v w z q0 x"
  by (simp_all add: goto_def fun_upd_twist)

lemma sample_create: "sem_run opens 2 (st 1 True 5 9999 0 (Using 1) Out)"
proof -
  have step: "sem_run opens 2 t" if "sem_run opens 2 s" "create_step 5 0 s t" for s t
    using run_step [OF that(1) s_create [OF _ that(2)]] by simp
  have "sem_start = st 0 False 0 0 0 Out Out" by (auto simp: sem_start_def)
  then have 0: "sem_run opens 2 (st 0 False 0 0 0 Out Out)" using run_start [of opens 2] by simp
  have 1: "sem_run opens 2 (st 0 False 0 0 0 Creating Out)"
    using step [OF 0] call_create [of "st 0 False 0 0 0 Out Out" 0 5] by (simp add: st_goto)
  have 2: "sem_run opens 2 (st 1 True 0 0 0 (Got 1) Out)"
    using step [OF 1] create_get [of "st 0 False 0 0 0 Creating Out" 0 _ 5, OF _ refl] by (simp add: st_goto semget_create_def)
  have 3: "sem_run opens 2 (st 1 True 0 0 1 (Locked 1) Out)"
    using step [OF 2] create_lock [of "st 1 True 0 0 0 (Got 1) Out" 0 1 5] by (simp add: st_goto valid_def)
  have 4: "sem_run opens 2 (st 1 True 0 0 1 (Zero 1) Out)"
    using step [OF 3] create_getval [of "st 1 True 0 0 1 (Locked 1) Out" 0 1 5] by (simp add: st_goto valid_def)
  have 5: "sem_run opens 2 (st 1 True 5 0 1 (Half 1) Out)"
    using step [OF 4] create_setval0 [of "st 1 True 0 0 1 (Zero 1) Out" 0 1 5] by (simp add: st_goto valid_def)
  have 6: "sem_run opens 2 (st 1 True 5 10000 1 (Ready 1) Out)"
    using step [OF 5] create_setval1 [of "st 1 True 5 0 1 (Half 1) Out" 0 1 5] by (simp add: st_goto valid_def BIGCOUNT_def)
  show ?thesis
    using step [OF 6] create_end [of "st 1 True 5 10000 1 (Ready 1) Out" 0 1 5] by (simp add: st_goto valid_def)
qed

lemma sample_removing:
  shows "sem_run True 2 (st 1 True 5 10000 1 (Removing 1) (Opening 1))" "sem_run opens 2 (st 1 True 5 10000 1 (Removing 1) (Waiting 1))"
proof -
  have cl: "sem_run o2 2 t" if "sem_run o2 2 s" "close_step 0 s t" for s t o2
    using run_step [OF that(1) s_close [OF _ that(2)]] by simp
  have cr: "sem_run o2 2 t" if "sem_run o2 2 s" "create_step 0 1 s t" for s t o2
    using run_step [OF that(1) s_create [OF _ that(2)]] by simp
  have "sem_run True 2 (st 1 True 5 9999 0 (Using 1) (Opening 1))"
    using run_step [OF sample_create s_open [OF _ _ open_get [of "st 1 True 5 9999 0 (Using 1) Out" 1]], of True] by (simp add: st_goto)
  from cl [OF this, of "st 1 True 5 10000 1 (Closing 1) (Opening 1)"] have "sem_run True 2 (st 1 True 5 10000 1 (Closing 1) (Opening 1))"
    using close_lock [of "st 1 True 5 9999 0 (Using 1) (Opening 1)" 0 1] by (simp add: st_goto valid_def)
  from cl [OF this, of "st 1 True 5 10000 1 (Removing 1) (Opening 1)"] show "sem_run True 2 (st 1 True 5 10000 1 (Removing 1) (Opening 1))"
    using close_getval [of "st 1 True 5 10000 1 (Closing 1) (Opening 1)" 0 1] by (simp add: st_goto valid_def BIGCOUNT_def)
  from cl [OF sample_create [of opens], of "st 1 True 5 10000 1 (Closing 1) Out"] have "sem_run opens 2 (st 1 True 5 10000 1 (Closing 1) Out)"
    using close_lock [of "st 1 True 5 9999 0 (Using 1) Out" 0 1] by (simp add: st_goto valid_def)
  from cr [OF this, of "st 1 True 5 10000 1 (Closing 1) Creating"] have "sem_run opens 2 (st 1 True 5 10000 1 (Closing 1) Creating)"
    using call_create [of "st 1 True 5 10000 1 (Closing 1) Out" 1 0] by (simp add: st_goto)
  from cr [OF this, of "st 1 True 5 10000 1 (Closing 1) (Got 1)"] have "sem_run opens 2 (st 1 True 5 10000 1 (Closing 1) (Got 1))"
    using create_get [of "st 1 True 5 10000 1 (Closing 1) Creating" 1 _ 0, OF _ refl] by (simp add: st_goto semget_create_def)
  from cr [OF this, of "st 1 True 5 10000 1 (Closing 1) (Waiting 1)"] have "sem_run opens 2 (st 1 True 5 10000 1 (Closing 1) (Waiting 1))"
    using create_wait [of "st 1 True 5 10000 1 (Closing 1) (Got 1)" 1 1 0] by (simp add: st_goto valid_def)
  from cl [OF this, of "st 1 True 5 10000 1 (Removing 1) (Waiting 1)"] show "sem_run opens 2 (st 1 True 5 10000 1 (Removing 1) (Waiting 1))"
    using close_getval [of "st 1 True 5 10000 1 (Closing 1) (Waiting 1)" 0 1] by (simp add: st_goto valid_def BIGCOUNT_def)
qed

section \<open>Properties\<close>

text \<open>
  C29.  Of processes that use \<open>sem_create\<close>, \<open>sem_op\<close> and \<open>sem_close\<close>, and may exit at any point, each
  that has the semaphore has an identifier that is valid; the second member is \<open>BIGCOUNT\<close> less
  those processes, once it is set; one process at a time is in a critical section; and while one
  initialises the semaphore or is about to remove it nobody has it.
\<close>

theorem sem_create_close:
  assumes "sem_run False n s" "int n < BIGCOUNT"
  shows "(\<forall>p < n. \<forall>i. pc s p = Using i \<longrightarrow> valid s i) \<and> (\<forall>p < n. pc s p \<noteq> Dumped)
    \<and> (alive s \<longrightarrow> v1 s = 0 \<and> users n (semid s) (pc s) = 0 \<or> v1 s = BIGCOUNT - users n (semid s) (pc s))
    \<and> (\<forall>p < n. \<forall>q < n. holds_lock (semid s) (pc s p) \<and> holds_lock (semid s) (pc s q) \<longrightarrow> p = q)
    \<and> (\<forall>p < n. \<forall>i. pc s p \<in> {Zero i, Half i, Removing i} \<longrightarrow> valid s i \<and> users n i (pc s) = 0)"
proof -
  have I: "sem_inv n s" using sem_run_inv [OF assms] .
  have ok: "pc_ok (semid s) (alive s) (v1 s) (pc s p)" if "p < n" for p using sem_inv_pc [OF I that] .
  have c: "counted (v1 s) (users n (semid s) (pc s))" if "alive s" using I that by (simp add: sem_inv_def)
  have "valid s i" if "p < n" "pc s p = Using i" for p i using ok [OF that(1)] that(2) by (simp add: valid_def)
  moreover have "pc s p \<noteq> Dumped" if "p < n" for p using ok [OF that] by auto
  moreover have "p = q" if "p < n" "q < n" "holds_lock (semid s) (pc s p)" "holds_lock (semid s) (pc s q)" for p q
  proof -
    have "alive s" using ok [OF that(1)] that(3) by (cases "pc s p") auto
    then show ?thesis using others_free [OF I _ that(1,2) _ that(3)] that(4) by blast
  qed
  moreover have "valid s i \<and> users n i (pc s) = 0" if "p < n" "pc s p \<in> {Zero i, Half i, Removing i}" for p i
    using ok [OF that(1)] that(2) c users_le [of n "semid s" "pc s"] assms(2) by (auto simp: valid_def counted_def)
  ultimately show ?thesis using c by (auto simp: counted_def)
qed

theorem sem_create_close_witness:
  "\<exists>s. sem_run False 2 s \<and> pc s 0 = Using 1 \<and> valid s 1 \<and> v1 s = BIGCOUNT - users 2 1 (pc s)"
proof -
  let ?s = "st 1 True 5 9999 0 (Using 1) Out"
  have r: "sem_run False 2 ?s" by (rule sample_create)
  have b: "int 2 < BIGCOUNT" by (simp add: BIGCOUNT_def)
  have all: "\<forall>p < 2. \<forall>i. pc ?s p = Using i \<longrightarrow> valid ?s i" using sem_create_close [OF r b] by (rule conjunct1)
  have "valid ?s 1" by (rule all [rule_format, of 0]) simp_all
  moreover have "alive ?s \<longrightarrow> v1 ?s = 0 \<and> users 2 (semid ?s) (pc ?s) = 0 \<or> v1 ?s = BIGCOUNT - users 2 (semid ?s) (pc ?s)"
    using sem_create_close [OF r b] by blast
  ultimately show ?thesis using r by (intro exI [of _ ?s]) auto
qed

text \<open>
  \<open>sem_open\<close> decrements the counter without the lock: if it does so after the last user read the
  counter and before it removes the set, \<open>sem_open\<close> returns an identifier that becomes invalid, and
  the next operation ends the process.
\<close>

theorem sem_open_race:
  assumes "sem_run True n s" "p < n" "q < n" "pc s p = Removing i" "pc s q = Opening i" "valid s i" "1 \<le> v1 s"
  shows "\<exists>s' s''. sem_run True n s' \<and> pc s' q = Using i \<and> \<not> valid s' i \<and> op_step 1 q s' s'' \<and> pc s'' q = Err_sys_exit"
proof -
  have pq: "p \<noteq> q" using assms(4,5) by auto
  let ?s1 = "goto q (Using i) (s\<lparr>v1 := v1 s - 1\<rparr>)"
  let ?s2 = "goto p Out (sem_rm ?s1)"
  have "sem_run True n ?s1" by (rule run_step [OF assms(1) s_open [OF assms(3) _ open_count]]) (use assms in simp_all)
  then have 2: "sem_run True n ?s2"
    by (rule run_step [OF _ s_close [OF assms(2) close_rm]]) (use assms pq in \<open>auto simp: goto_def valid_def\<close>)
  have u: "pc ?s2 q = Using i" "\<not> valid ?s2 i" using pq by (auto simp: goto_def sem_rm_def valid_def)
  have "op_step 1 q ?s2 (leave 0 q Err_sys_exit ?s2)" by (rule op_fail [OF u(1)]) (use u(2) in simp)
  then show ?thesis using 2 u by (intro exI [of _ ?s2] exI [of _ "leave 0 q Err_sys_exit ?s2"]) (simp add: leave_def goto_def)
qed

theorem sem_open_race_witness: "\<exists>s s'. sem_run True 2 s \<and> pc s 1 = Using 1 \<and> \<not> valid s 1 \<and> op_step 1 1 s s' \<and> pc s' 1 = Err_sys_exit"
  using sem_open_race [OF sample_removing(1), of 0 1 1] by (simp add: valid_def)

text \<open>
  A process that waits for the lock in \<open>sem_create\<close> while the last user removes the set is ended by
  \<open>err_sys\<close>: it gets \<open>EIDRM\<close>, and only \<open>EINVAL\<close> leads back to \<open>again\<close>.
\<close>

theorem sem_create_killed:
  assumes "sem_run opens n s" "p < n" "pc s p = Removing i" "pc s q = Waiting i" "valid s i"
  shows "\<exists>s'. sem_run opens n s' \<and> pc s' q = Err_sys_exit"
proof -
  have "sem_run opens n (goto p Out (sem_rm s))" by (rule run_step [OF assms(1) s_close [OF assms(2) close_rm [OF assms(3,5)]]])
  then show ?thesis using assms(3-5) by (intro exI [of _ "goto p Out (sem_rm s)"]) (auto simp: goto_def sem_rm_def valid_def)
qed

theorem sem_create_killed_witness: "\<exists>s. sem_run False 2 s \<and> pc s 1 = Err_sys_exit"
  using sem_create_killed [OF sample_removing(2), of 0 1 1] by (simp add: valid_def)

end
