(* ===== verification/Popen.thy ===== *)
theory Popen
  imports Prelude
begin

text \<open>
  \<open>popen\<close> and \<open>pclose\<close> of \<open>apue.3e/lib/popen.c\<close>.  A stream is its descriptor; a descriptor table says
  what each descriptor is open on.  What the kernel decides in a call is an argument of it.
\<close>

section \<open>State\<close>

datatype obj = Pipe_read nat | Pipe_write nat | Opened nat

type_synonym fdtab = "nat \<Rightarrow> obj option"

definition STDIN_FILENO :: nat where "STDIN_FILENO = 0"
definition STDOUT_FILENO :: nat where "STDOUT_FILENO = 1"

datatype errno = EINVAL | EMFILE | Failed string

text \<open>The descriptors of the process, the array \<open>childpid\<close> once it is allocated, and \<open>maxfd\<close>.\<close>

record popen_state =
  fds :: fdtab
  childpid :: "int list option"
  maxfd :: nat

text \<open>
  One call of \<open>popen\<close>: \<open>open_max\<close>, whether \<open>calloc\<close> succeeds, the descriptors \<open>pipe\<close> returns and its
  number, the child that \<open>fork\<close> makes, and whether \<open>fdopen\<close> succeeds.
\<close>

record kernel =
  open_max :: nat
  calloc_ok :: bool
  pipe :: "(nat \<times> nat) option"
  pipe_id :: nat
  fork :: "int option"
  fdopen_ok :: bool

definition close :: "nat \<Rightarrow> fdtab \<Rightarrow> fdtab" where
  "close fd t = t(fd := None)"

definition dup2 :: "nat \<Rightarrow> nat \<Rightarrow> fdtab \<Rightarrow> fdtab" where
  "dup2 a b t = t(b := t a)"

section \<open>popen\<close>

text \<open>The child up to \<open>execl\<close>: its descriptors.\<close>

definition move_to :: "nat \<Rightarrow> nat \<Rightarrow> fdtab \<Rightarrow> fdtab" where
  "move_to a b t = (if a \<noteq> b then close a (dup2 a b t) else t)"

fun close_popened :: "nat \<Rightarrow> int list \<Rightarrow> fdtab \<Rightarrow> fdtab" where
  "close_popened i [] t = t"
| "close_popened i (p # ps) t = close_popened (i + 1) ps (if p > 0 then close i t else t)"

definition child_fds :: "string \<Rightarrow> nat \<times> nat \<Rightarrow> int list \<Rightarrow> fdtab \<Rightarrow> fdtab" where
  "child_fds type pfd pids t = close_popened 0 pids
     (if hd type = CHR ''r'' then move_to (snd pfd) STDOUT_FILENO (close (fst pfd) t)
      else move_to (fst pfd) STDIN_FILENO (close (snd pfd) t))"

text \<open>The answer, and the descriptors of the child if there is one.\<close>

definition popen :: "kernel \<Rightarrow> string \<Rightarrow> popen_state \<Rightarrow> (errno + nat) \<times> fdtab option \<times> popen_state" where
  "popen K type s =
     (if type \<noteq> ''r'' \<and> type \<noteq> ''w'' then (Inl EINVAL, None, s)
      else
        let s = (if childpid s = None then s\<lparr>maxfd := open_max K, childpid := if calloc_ok K then Some (replicate (open_max K) 0) else None\<rparr> else s) in
        (case childpid s of
           None \<Rightarrow> (Inl (Failed ''calloc''), None, s)
         | Some pids \<Rightarrow>
             (case pipe K of
                None \<Rightarrow> (Inl (Failed ''pipe''), None, s)
              | Some pfd \<Rightarrow>
                  let t = (fds s)(fst pfd \<mapsto> Pipe_read (pipe_id K), snd pfd \<mapsto> Pipe_write (pipe_id K)) in
                  if fst pfd \<ge> maxfd s \<or> snd pfd \<ge> maxfd s then (Inl EMFILE, None, s\<lparr>fds := close (snd pfd) (close (fst pfd) t)\<rparr>)
                  else (case fork K of
                      None \<Rightarrow> (Inl (Failed ''fork''), None, s\<lparr>fds := t\<rparr>)
                    | Some pid \<Rightarrow>
                        let child = child_fds type pfd pids t;
                            (closed, kept) = (if hd type = CHR ''r'' then (snd pfd, fst pfd) else (fst pfd, snd pfd));
                            s = s\<lparr>fds := close closed t\<rparr> in
                        if fdopen_ok K then (Inr kept, Some child, s\<lparr>childpid := Some (pids[kept := pid])\<rparr>)
                        else (Inl (Failed ''fdopen''), Some child, s)))))"

section \<open>pclose\<close>

text \<open>
  \<open>wait_ok pid\<close> is the status of the child, \<open>None\<close> if \<open>waitpid\<close> fails with another error than \<open>EINTR\<close>;
  the loop repeats the call otherwise.  The result is the status, or -1, and the child waited for.
\<close>

definition pclose :: "(int \<Rightarrow> int option) \<Rightarrow> bool \<Rightarrow> nat \<Rightarrow> popen_state \<Rightarrow> (errno + int) \<times> int option \<times> popen_state" where
  "pclose waitpid fclose_ok fd s =
     (case childpid s of
        None \<Rightarrow> (Inl EINVAL, None, s)
      | Some pids \<Rightarrow>
          if fd \<ge> maxfd s then (Inl EINVAL, None, s)
          else let pid = pids ! fd in
            if pid = 0 then (Inl EINVAL, None, s)
            else
              let s = s\<lparr>childpid := Some (pids[fd := 0]), fds := close fd (fds s)\<rparr> in
              if \<not> fclose_ok then (Inl (Failed ''fclose''), None, s)
              else (case waitpid pid of
                  None \<Rightarrow> (Inl (Failed ''waitpid''), Some pid, s)
                | Some stat \<Rightarrow> (Inr stat, Some pid, s)))"

section \<open>The children\<close>

text \<open>The streams that are open, with their children, and what they say of the state.\<close>

definition kids :: "popen_state \<Rightarrow> nat \<Rightarrow> int option" where
  "kids s fd = (case childpid s of None \<Rightarrow> None
     | Some pids \<Rightarrow> if fd < maxfd s \<and> pids ! fd \<noteq> 0 then Some (pids ! fd) else None)"

definition popen_ok :: "popen_state \<Rightarrow> bool" where
  "popen_ok s \<longleftrightarrow> (\<forall>pids. childpid s = Some pids \<longrightarrow> length pids = maxfd s \<and> list_all (\<lambda>p. 0 \<le> p) pids)
     \<and> (\<forall>fd. kids s fd \<noteq> None \<longrightarrow> fds s fd \<noteq> None)"

text \<open>\<open>pipe\<close> returns two descriptors that are not open, and \<open>fork\<close> in the parent a positive number.\<close>

definition kernel_ok :: "kernel \<Rightarrow> popen_state \<Rightarrow> bool" where
  "kernel_ok K s \<longleftrightarrow> (\<forall>a b. pipe K = Some (a, b) \<longrightarrow> a \<noteq> b \<and> fds s a = None \<and> fds s b = None)
     \<and> (\<forall>pid. fork K = Some pid \<longrightarrow> 0 < pid)"

lemma close_popened_at: "close_popened k ps t i = (if k \<le> i \<and> i < k + length ps \<and> 0 < ps ! (i - k) then None else t i)"
proof (induction ps arbitrary: k t)
  case (Cons p ps)
  show ?case
  proof (cases "i = k")
    case True
    then show ?thesis using Cons.IH [of "Suc k"] by (simp add: close_def)
  next
    case False
    then show ?thesis using Cons.IH [of "Suc k"] by (auto simp: close_def nth_Cons')
  qed
qed auto

definition std_fd :: "string \<Rightarrow> nat" where
  "std_fd type = (if type = ''r'' then STDOUT_FILENO else STDIN_FILENO)"

definition child_end :: "string \<Rightarrow> nat \<Rightarrow> obj" where
  "child_end type p = (if type = ''r'' then Pipe_write p else Pipe_read p)"

lemma child_fds_at:
  assumes "type = ''r'' \<or> type = ''w''" "a \<noteq> b" "t a = None" "t b = None"
  shows "child_fds type (a, b) pids (t(a \<mapsto> Pipe_read p, b \<mapsto> Pipe_write p)) i
    = (if i < length pids \<and> 0 < pids ! i then None else if i = std_fd type then Some (child_end type p) else t i)"
proof -
  let ?t = "t(a \<mapsto> Pipe_read p, b \<mapsto> Pipe_write p)"
  have "move_to b STDOUT_FILENO (close a ?t) = t(STDOUT_FILENO \<mapsto> Pipe_write p)"
    using assms(2-4) by (intro ext) (simp add: move_to_def close_def dup2_def)
  moreover have "move_to a STDIN_FILENO (close b ?t) = t(STDIN_FILENO \<mapsto> Pipe_read p)"
    using assms(2-4) by (intro ext) (simp add: move_to_def close_def dup2_def)
  ultimately show ?thesis using assms(1) by (elim disjE) (simp_all add: child_fds_def close_popened_at std_fd_def child_end_def)
qed

text \<open>The first call allocates the array.\<close>

definition allocated :: "kernel \<Rightarrow> popen_state \<Rightarrow> popen_state" where
  "allocated K s = (if childpid s = None then s\<lparr>maxfd := open_max K, childpid := if calloc_ok K then Some (replicate (open_max K) 0) else None\<rparr> else s)"

lemma allocated_ok:
  assumes "popen_ok s"
  shows "popen_ok (allocated K s)" "kids (allocated K s) = kids s" "fds (allocated K s) = fds s"
proof -
  show k: "kids (allocated K s) = kids s" by (rule ext) (auto simp: kids_def allocated_def split: option.split)
  show f: "fds (allocated K s) = fds s" by (simp add: allocated_def)
  show "popen_ok (allocated K s)"
  proof (cases "childpid s")
    case None
    have "popen_ok (allocated K s) \<longleftrightarrow> (\<forall>pids. childpid (allocated K s) = Some pids \<longrightarrow> length pids = maxfd (allocated K s) \<and> list_all (\<lambda>p. 0 \<le> p) pids)"
      using assms k f by (simp add: popen_ok_def)
    then show ?thesis using None by (auto simp: allocated_def list_all_iff split: if_splits)
  next
    case (Some pids)
    then show ?thesis using assms by (simp add: allocated_def)
  qed
qed

lemma kids_fds: "childpid s' = childpid s \<Longrightarrow> maxfd s' = maxfd s \<Longrightarrow> kids s' = kids s"
  by (rule ext) (simp add: kids_def split: option.split)

lemma popen_ok_fds:
  "popen_ok s \<Longrightarrow> childpid s' = childpid s \<Longrightarrow> maxfd s' = maxfd s \<Longrightarrow> (\<And>fd. kids s fd \<noteq> None \<Longrightarrow> fds s' fd \<noteq> None) \<Longrightarrow> popen_ok s'"
  using kids_fds [of s' s] by (simp add: popen_ok_def)

lemma popen_kids:
  assumes "popen_ok s" "kernel_ok K s" "popen K type s = (r, c, s')"
  shows "popen_ok s' \<and> (case r of
      Inl e \<Rightarrow> kids s' = kids s
    | Inr fd \<Rightarrow> kids s fd = None \<and> (\<exists>pid. fork K = Some pid \<and> kids s' = (kids s)(fd \<mapsto> pid)))"
proof -
  let ?s = "allocated K s"
  note al = allocated_ok [OF assms(1), of K]
  show ?thesis
  proof (cases "(type = ''r'' \<or> type = ''w'') \<and> (\<exists>pids pfd. childpid ?s = Some pids \<and> pipe K = Some pfd)")
    case False
    then have "s' = s \<or> s' = ?s" "\<exists>e. r = Inl e" using assms(3) unfolding popen_def allocated_def [symmetric]
      by (auto simp: Let_def split: if_splits option.splits)
    then show ?thesis using al assms(1) by auto
  next
    case True
    then obtain pids a b where t: "type = ''r'' \<or> type = ''w''" and p: "childpid ?s = Some pids" "pipe K = Some (a, b)" by auto
    have ab: "a \<noteq> b" "fds s a = None" "fds s b = None" using assms(2) p(2) by (auto simp: kernel_ok_def)
    let ?t = "(fds s)(a \<mapsto> Pipe_read (pipe_id K), b \<mapsto> Pipe_write (pipe_id K))"
    let ?kept = "if type = ''r'' then a else b" and ?closed = "if type = ''r'' then b else a"
    have un: "kids ?s a = None" "kids ?s b = None" using al(1) ab(2,3) al(3) unfolding popen_ok_def by fastforce+
    have eq: "popen K type s = (if a \<ge> maxfd ?s \<or> b \<ge> maxfd ?s then (Inl EMFILE, None, ?s\<lparr>fds := close b (close a ?t)\<rparr>)
      else (case fork K of
          None \<Rightarrow> (Inl (Failed ''fork''), None, ?s\<lparr>fds := ?t\<rparr>)
        | Some pid \<Rightarrow> if fdopen_ok K then (Inr ?kept, Some (child_fds type (a, b) pids ?t), ?s\<lparr>fds := close ?closed ?t, childpid := Some (pids[?kept := pid])\<rparr>)
            else (Inl (Failed ''fdopen''), Some (child_fds type (a, b) pids ?t), ?s\<lparr>fds := close ?closed ?t\<rparr>)))"
      using t p al(3) unfolding popen_def allocated_def [symmetric] by (auto simp: Let_def split: option.splits)
    have same: "popen_ok (?s\<lparr>fds := f\<rparr>) \<and> kids (?s\<lparr>fds := f\<rparr>) = kids s" if "\<And>fd. fd \<noteq> a \<Longrightarrow> fd \<noteq> b \<Longrightarrow> f fd = fds s fd" for f
    proof -
      have "f fd \<noteq> None" if "kids ?s fd \<noteq> None" for fd
      proof -
        have "fd \<noteq> a" "fd \<noteq> b" using that un by auto
        then show ?thesis using \<open>\<And>fd. fd \<noteq> a \<Longrightarrow> fd \<noteq> b \<Longrightarrow> f fd = fds s fd\<close> al that by (simp add: popen_ok_def)
      qed
      then show ?thesis using popen_ok_fds [OF al(1), of "?s\<lparr>fds := f\<rparr>"] kids_fds [of "?s\<lparr>fds := f\<rparr>" ?s] al(2) by simp
    qed
    show ?thesis
    proof (cases "\<not> (a \<ge> maxfd ?s \<or> b \<ge> maxfd ?s) \<and> fork K \<noteq> None \<and> fdopen_ok K")
      case False
      then obtain e f where "r = Inl e" "s' = ?s\<lparr>fds := f\<rparr>" "\<And>fd. fd \<noteq> a \<Longrightarrow> fd \<noteq> b \<Longrightarrow> f fd = fds s fd"
        using assms(3) unfolding eq by (auto simp: close_def split: if_splits option.splits)
      then show ?thesis using same by auto
    next
      case True
      then obtain pid where pid: "fork K = Some pid" "0 < pid" using assms(2) by (auto simp: kernel_ok_def)
      then have r: "r = Inr ?kept" and s': "s' = ?s\<lparr>fds := close ?closed ?t, childpid := Some (pids[?kept := pid])\<rparr>"
        using assms(3) True unfolding eq by (auto split: if_splits)
      have len: "length pids = maxfd ?s" "list_all (\<lambda>p. 0 \<le> p) pids" using al(1) p(1) by (simp_all add: popen_ok_def)
      have k: "kids s' = (kids s)(?kept \<mapsto> pid)"
      proof
        fix fd
        have "kids s fd = (if fd < maxfd ?s \<and> pids ! fd \<noteq> 0 then Some (pids ! fd) else None)" using fun_cong [OF al(2), of fd] p(1) by (simp add: kids_def [of ?s])
        then show "kids s' fd = ((kids s)(?kept \<mapsto> pid)) fd" using s' len True pid by (auto simp: kids_def nth_list_update)
      qed
      have "list_all (\<lambda>p. 0 \<le> p) (pids[?kept := pid])" using len(2) pid(2) set_update_subset_insert [of pids ?kept pid] by (auto simp: list_all_iff)
      moreover have "fds s' fd \<noteq> None" if "kids s' fd \<noteq> None" for fd
        using that k s' al ab un by (auto simp: close_def popen_ok_def split: if_splits)
      ultimately have "popen_ok s'" using s' len by (auto simp: popen_ok_def)
      then show ?thesis using r k pid un al(2) by auto
    qed
  qed
qed

lemma pclose_kids:
  assumes "popen_ok s" "pclose waitpid fclose_ok fd s = (r, w, s')"
  shows "popen_ok s' \<and> (case kids s fd of
      None \<Rightarrow> r = Inl EINVAL \<and> w = None \<and> s' = s
    | Some pid \<Rightarrow> kids s' = (kids s)(fd := None) \<and> fds s' = (fds s)(fd := None) \<and> w = (if fclose_ok then Some pid else None)
        \<and> (\<forall>stat. fclose_ok \<and> waitpid pid = Some stat \<longrightarrow> r = Inr stat))"
proof (cases "kids s fd")
  case None
  then show ?thesis using assms by (auto simp: kids_def pclose_def Let_def split: option.splits if_splits)
next
  case (Some pid)
  then obtain pids where p: "childpid s = Some pids" "fd < maxfd s" "pids ! fd = pid" "pid \<noteq> 0"
    by (auto simp: kids_def split: option.splits if_splits)
  let ?s = "s\<lparr>childpid := Some (pids[fd := 0]), fds := close fd (fds s)\<rparr>"
  have s': "s' = ?s" using assms(2) p by (auto simp: pclose_def Let_def split: if_splits option.splits)
  have r: "w = (if fclose_ok then Some pid else None)" "\<forall>stat. fclose_ok \<and> waitpid pid = Some stat \<longrightarrow> r = Inr stat"
    using assms(2) p by (auto simp: pclose_def Let_def split: if_splits option.splits)
  have len: "length pids = maxfd s" "list_all (\<lambda>p. 0 \<le> p) pids" using assms(1) p(1) by (simp_all add: popen_ok_def)
  have k: "kids s' = (kids s)(fd := None)"
    by (rule ext) (use s' p len in \<open>simp add: kids_def nth_list_update\<close>)
  have "list_all (\<lambda>p. 0 \<le> p) (pids[fd := 0])" using len(2) set_update_subset_insert [of pids fd 0] by (auto simp: list_all_iff)
  moreover have "fds s' x \<noteq> None" if "kids s' x \<noteq> None" for x
    using that k s' assms(1) by (auto simp: close_def popen_ok_def split: if_splits)
  ultimately have "popen_ok s'" using s' len by (simp add: popen_ok_def)
  then show ?thesis using Some k r s' by (simp add: close_def)
qed

section \<open>Properties\<close>

text \<open>
  The command runs with the descriptors of the caller, without those of other streams of \<open>popen\<close>, and
  with the pipe as its standard input or output - unless that descriptor number belongs to such a
  stream, because the caller had closed its standard descriptors: then the command gets it closed.
\<close>

theorem popen_child_fds:
  assumes "type = ''r'' \<or> type = ''w''" "childpid s = Some pids" "pipe K = Some (a, b)" "a \<noteq> b" "fds s a = None" "fds s b = None"
    and "a < maxfd s" "b < maxfd s" "fork K = Some pid"
  shows "\<exists>r s'. popen K type s = (r,
      Some (\<lambda>i. if i < length pids \<and> 0 < pids ! i then None
                else if i = std_fd type then Some (child_end type (pipe_id K)) else fds s i), s')"
proof -
  have "child_fds type (a, b) pids ((fds s)(a \<mapsto> Pipe_read (pipe_id K), b \<mapsto> Pipe_write (pipe_id K)))
      = (\<lambda>i. if i < length pids \<and> 0 < pids ! i then None
                else if i = std_fd type then Some (child_end type (pipe_id K)) else fds s i)"
    by (rule ext) (rule child_fds_at [OF assms(1,4,5,6)])
  then show ?thesis using assms by (auto simp: popen_def Let_def)
qed

theorem popen_child_fds_witness:
  "\<exists>r s'. popen \<lparr>open_max = 8, calloc_ok = True, pipe = Some (1, 4), pipe_id = 7, fork = Some 99, fdopen_ok = True\<rparr> ''w''
      \<lparr>fds = [2 \<mapsto> Opened 0, 0 \<mapsto> Pipe_read 5], childpid = Some ([98] @ replicate 7 0), maxfd = 8\<rparr>
    = (r, Some (\<lambda>i. if i = 2 then Some (Opened 0) else None), s')"
proof -
  let ?K = "\<lparr>open_max = 8, calloc_ok = True, pipe = Some (1, 4), pipe_id = 7, fork = Some 99, fdopen_ok = True\<rparr>"
  let ?s = "\<lparr>fds = [2 \<mapsto> Opened 0, 0 \<mapsto> Pipe_read 5], childpid = Some ([98] @ replicate 7 0), maxfd = 8\<rparr>"
  obtain r s' where "popen ?K ''w'' ?s = (r, Some (\<lambda>i. if i < length ([98] @ replicate 7 0 :: int list) \<and> 0 < ([98] @ replicate 7 0 :: int list) ! i then None
      else if i = std_fd ''w'' then Some (child_end ''w'' (pipe_id ?K)) else fds ?s i), s')"
    using popen_child_fds [of "''w''" ?s "[98] @ replicate 7 0" ?K 1 4 99] by auto
  moreover have "(\<lambda>i. if i < length ([98] @ replicate 7 0 :: int list) \<and> 0 < ([98] @ replicate 7 0 :: int list) ! i then None
      else if i = std_fd ''w'' then Some (child_end ''w'' (pipe_id ?K)) else fds ?s i) = (\<lambda>i. if i = 2 then Some (Opened 0) else None)"
    by (rule ext) (auto simp: std_fd_def STDIN_FILENO_def nth_Cons')
  ultimately show ?thesis by metis
qed

text \<open>
  \<open>popen\<close> and \<open>pclose\<close> are an insertion and a removal in the map from streams to children: a new
  stream had no child before, \<open>pclose\<close> waits for the child of its own stream and returns its status,
  closes the stream and forgets it, and refuses every other descriptor without a change.
\<close>

theorem popen_pclose_map:
  assumes "popen_ok s" "kernel_ok K s" "popen K type s = (r, c, s')" "pclose waitpid fclose_ok fd s = (q, w, s'')"
  shows "popen_ok s' \<and> popen_ok s'' \<and> (case r of
      Inl e \<Rightarrow> kids s' = kids s
    | Inr new \<Rightarrow> kids s new = None \<and> (\<exists>pid. fork K = Some pid \<and> kids s' = (kids s)(new \<mapsto> pid)))
    \<and> (case kids s fd of
      None \<Rightarrow> q = Inl EINVAL \<and> w = None \<and> s'' = s
    | Some pid \<Rightarrow> kids s'' = (kids s)(fd := None) \<and> fds s'' = (fds s)(fd := None) \<and> w = (if fclose_ok then Some pid else None)
        \<and> (\<forall>stat. fclose_ok \<and> waitpid pid = Some stat \<longrightarrow> q = Inr stat))"
  using popen_kids [OF assms(1-3)] pclose_kids [OF assms(1,4)] by blast

theorem popen_pclose_map_witness:
  "case popen \<lparr>open_max = 8, calloc_ok = True, pipe = Some (3, 4), pipe_id = 7, fork = Some 99, fdopen_ok = True\<rparr> ''r''
      \<lparr>fds = [0 \<mapsto> Opened 0], childpid = None, maxfd = 0\<rparr> of (r, c, s') \<Rightarrow> r = Inr 3 \<and> kids s' = [3 \<mapsto> 99]"
proof -
  let ?K = "\<lparr>open_max = 8, calloc_ok = True, pipe = Some (3, 4), pipe_id = 7, fork = Some 99, fdopen_ok = True\<rparr>"
  let ?s = "\<lparr>fds = [0 \<mapsto> Opened 0], childpid = None, maxfd = 0\<rparr>"
  have ok: "popen_ok ?s" "kernel_ok ?K ?s" by (simp_all add: popen_ok_def kernel_ok_def kids_def)
  obtain r c s' where p: "popen ?K ''r'' ?s = (r, c, s')" by (metis prod_cases3)
  obtain q w s'' where q: "pclose (\<lambda>_. Some 0) True 5 ?s = (q, w, s'')" by (metis prod_cases3)
  have k: "kids ?s = Map.empty" by (rule ext) (simp add: kids_def)
  have "r = Inr 3" using p by (auto simp: popen_def Let_def)
  then show ?thesis using popen_pclose_map [OF ok p q] p k by auto
qed

end
