(* ===== verification/Lib_Io.thy ===== *)
theory Lib_Io
  imports Prelude
begin

text \<open>
  The input and output routines of \<open>unpv13e/lib\<close>: \<open>readn\<close>, \<open>writen\<close> and the buffered \<open>readline\<close>.
  A descriptor is the bytes that will arrive on it, those written to it, and a plan that says of the
  next calls of \<open>read\<close> and \<open>write\<close> how much they transfer or with which error they fail; after the plan
  they transfer everything they are asked for.
\<close>

section \<open>Descriptors\<close>

record fd =
  incoming :: string
  rplan :: "(nat + nat) list"
  outgoing :: string
  wplan :: "(nat + nat) list"

definition EINTR :: nat where
  "EINTR = 4"

text \<open>\<open>read\<close> blocks until there is a byte, so it returns 0 only at the end of the stream.\<close>

definition sys_read :: "fd \<Rightarrow> nat \<Rightarrow> (nat + string) \<times> fd" where
  "sys_read f n = (case rplan f of
     [] \<Rightarrow> (Inr (take n (incoming f)), f\<lparr>incoming := drop n (incoming f)\<rparr>)
   | Inl e # p \<Rightarrow> (Inl e, f\<lparr>rplan := p\<rparr>)
   | Inr k # p \<Rightarrow> (Inr (take (min n (Suc k)) (incoming f)), f\<lparr>incoming := drop (min n (Suc k)) (incoming f), rplan := p\<rparr>))"

definition sys_write :: "fd \<Rightarrow> string \<Rightarrow> (nat + nat) \<times> fd" where
  "sys_write f s = (case wplan f of
     [] \<Rightarrow> (Inr (length s), f\<lparr>outgoing := outgoing f @ s\<rparr>)
   | Inl e # p \<Rightarrow> (Inl e, f\<lparr>wplan := p\<rparr>)
   | Inr k # p \<Rightarrow> (Inr (min k (length s)), f\<lparr>outgoing := outgoing f @ take k s, wplan := p\<rparr>))"

section \<open>readn and writen\<close>

text \<open>The loop of \<open>readn\<close>: what is left to read, unless \<open>read\<close> failed, and what was stored.\<close>

function readn_loop :: "fd \<Rightarrow> nat \<Rightarrow> string \<Rightarrow> nat option \<times> string \<times> fd" where
  "readn_loop f nleft buf = (if 0 < nleft then
     (case sys_read f nleft of
        (Inl e, f') \<Rightarrow> if e = EINTR then readn_loop f' nleft buf else (None, buf, f')
      | (Inr s, f') \<Rightarrow> if length s = 0 then (Some nleft, buf, f') else readn_loop f' (nleft - length s) (buf @ s))
   else (Some nleft, buf, f))"
  by pat_completeness auto
termination
  by (relation "measure (\<lambda>(f, nleft, buf). length (rplan f) + nleft)") (auto simp: sys_read_def split: list.splits sum.splits)

definition readn :: "fd \<Rightarrow> nat \<Rightarrow> int \<times> string \<times> fd" where
  "readn f n = (case readn_loop f n [] of
     (None, buf, f') \<Rightarrow> (-1, buf, f')
   | (Some nleft, buf, f') \<Rightarrow> (int n - int nleft, buf, f'))"

text \<open>\<open>writen\<close>: the argument of the loop is what \<open>ptr\<close> and \<open>nleft\<close> delimit.\<close>

function writen_loop :: "fd \<Rightarrow> string \<Rightarrow> bool \<times> fd" where
  "writen_loop f s = (if 0 < length s then
     (case sys_write f s of
        (Inl e, f') \<Rightarrow> if e = EINTR then writen_loop f' s else (False, f')
      | (Inr nwritten, f') \<Rightarrow> if nwritten = 0 then (False, f') else writen_loop f' (drop nwritten s))
   else (True, f))"
  by pat_completeness auto
termination
  by (relation "measure (\<lambda>(f, s). length (wplan f) + length s)") (auto simp: sys_write_def split: list.splits sum.splits)

definition writen :: "fd \<Rightarrow> string \<Rightarrow> int \<times> fd" where
  "writen f s = (case writen_loop f s of (True, f') \<Rightarrow> (int (length s), f') | (False, f') \<Rightarrow> (-1, f'))"

text \<open>The wrappers \<open>Readn\<close> and \<open>Writen\<close> end the process when there was an error.\<close>

definition Readn :: "nat \<Rightarrow> (fd, int \<times> string) prog" where
  "Readn n f = (case readn f n of (r, buf, f') \<Rightarrow> if r < 0 then Abort (Err_sys ''readn error'') f' else Ret (r, buf) f')"

definition Writen :: "string \<Rightarrow> (fd, unit) prog" where
  "Writen s f = (case writen f s of (r, f') \<Rightarrow> if r \<noteq> int (length s) then Abort (Err_sys ''writen error'') f' else Ret () f')"

section \<open>readline\<close>

definition MAXLINE :: nat where
  "MAXLINE = 4096"

text \<open>The static variables.\<close>

record rbuf =
  read_cnt :: int
  read_ptr :: nat
  read_buf :: string

definition rbuf_init :: rbuf where
  "rbuf_init = \<lparr>read_cnt = 0, read_ptr = 0, read_buf = replicate MAXLINE (CHR 0x00)\<rparr>"

text \<open>The part of \<open>my_read\<close> from \<open>again\<close> on: the value it returns at once, or 1 when the buffer was filled.\<close>

function my_again :: "rbuf \<Rightarrow> fd \<Rightarrow> int \<times> rbuf \<times> fd" where
  "my_again r f = (case sys_read f MAXLINE of
     (Inl e, f') \<Rightarrow> if e = EINTR then my_again (r\<lparr>read_cnt := -1\<rparr>) f' else (-1, r\<lparr>read_cnt := -1\<rparr>, f')
   | (Inr s, f') \<Rightarrow> if length s = 0 then (0, r\<lparr>read_cnt := 0\<rparr>, f')
       else (1, \<lparr>read_cnt = int (length s), read_ptr = 0, read_buf = s @ drop (length s) (read_buf r)\<rparr>, f'))"
  by pat_completeness auto
termination
  by (relation "measure (\<lambda>(r, f). length (rplan f))") (auto simp: sys_read_def split: list.splits sum.splits)

definition take_char :: "rbuf \<Rightarrow> char \<times> rbuf" where
  "take_char r = (read_buf r ! read_ptr r, r\<lparr>read_cnt := read_cnt r - 1, read_ptr := read_ptr r + 1\<rparr>)"

definition my_read :: "rbuf \<Rightarrow> fd \<Rightarrow> int \<times> char \<times> rbuf \<times> fd" where
  "my_read r f = (case (if read_cnt r \<le> 0 then my_again r f else (1, r, f)) of
     (rc, r', f') \<Rightarrow> if rc = 1 then (case take_char r' of (c, r'') \<Rightarrow> (1, c, r'', f')) else (rc, CHR 0x00, r', f'))"

text \<open>The value, and what was stored at \<open>vptr\<close>.\<close>

function readline_loop :: "rbuf \<Rightarrow> fd \<Rightarrow> nat \<Rightarrow> nat \<Rightarrow> string \<Rightarrow> int \<times> string \<times> rbuf \<times> fd" where
  "readline_loop r f n maxlen buf = (if n < maxlen then
     (case my_read r f of (rc, c, r', f') \<Rightarrow>
        if rc = 1 then
          (if c = CHR 0x0A then (int n, buf @ [c, CHR 0x00], r', f') else readline_loop r' f' (n + 1) maxlen (buf @ [c]))
        else if rc = 0 then (int n - 1, buf @ [CHR 0x00], r', f')
        else (-1, buf, r', f'))
   else (int n, buf @ [CHR 0x00], r, f))"
  by pat_completeness auto
termination
  by (relation "measure (\<lambda>(r, f, n, maxlen, buf). maxlen - n)") auto

definition readline :: "rbuf \<Rightarrow> fd \<Rightarrow> nat \<Rightarrow> int \<times> string \<times> rbuf \<times> fd" where
  "readline r f maxlen = readline_loop r f 1 maxlen []"

definition readlinebuf :: "rbuf \<Rightarrow> int \<times> nat option" where
  "readlinebuf r = (read_cnt r, if read_cnt r \<noteq> 0 then Some (read_ptr r) else None)"

definition Readline :: "rbuf \<Rightarrow> nat \<Rightarrow> (fd, int \<times> string \<times> rbuf) prog" where
  "Readline r maxlen f = (case readline r f maxlen of (n, buf, r', f') \<Rightarrow>
     if n < 0 then Abort (Err_sys ''readline error'') f' else Ret (n, buf, r') f')"

declare readn_loop.simps [simp del] writen_loop.simps [simp del] my_again.simps [simp del] readline_loop.simps [simp del]

section \<open>Every byte once\<close>

lemma sys_read_cases:
  assumes "0 < n"
  obtains (err) e p where "rplan f = Inl e # p" "sys_read f n = (Inl e, f\<lparr>rplan := p\<rparr>)"
  | (got) k f' where "0 < k" "k \<le> n" "sys_read f n = (Inr (take k (incoming f)), f')" "incoming f' = drop k (incoming f)"
      "set (rplan f') \<subseteq> set (rplan f)"
proof (cases "rplan f")
  case Nil
  then show ?thesis using assms by (intro got [of n "f\<lparr>incoming := drop n (incoming f)\<rparr>"]) (auto simp: sys_read_def)
next
  case (Cons x p)
  show ?thesis
  proof (cases x)
    case (Inl e)
    then show ?thesis using Cons by (intro err) (auto simp: sys_read_def)
  next
    case (Inr k)
    let ?m = "min n (Suc k)"
    show ?thesis using Cons Inr assms
      by (intro got [of ?m "f\<lparr>incoming := drop ?m (incoming f), rplan := p\<rparr>"]) (auto simp: sys_read_def)
  qed
qed

lemma readn_loop_spec:
  "readn_loop f nleft buf = (r, buf', f') \<Longrightarrow>
   \<exists>got. buf' = buf @ got \<and> incoming f = got @ incoming f' \<and> length got \<le> nleft
     \<and> (case r of Some l \<Rightarrow> l = nleft - length got \<and> (l = 0 \<or> incoming f' = []) | None \<Rightarrow> \<exists>e. Inl e \<in> set (rplan f) \<and> e \<noteq> EINTR)"
proof (induction f nleft buf rule: readn_loop.induct)
  case (1 f nleft buf)
  show ?case
  proof (cases "0 < nleft")
    case False
    then show ?thesis using 1(3) by (auto simp: readn_loop.simps [of f])
  next
    case True
    then show ?thesis
    proof (cases rule: sys_read_cases [of nleft f, case_names err got])
      case (err e p)
      show ?thesis
      proof (cases "e = EINTR")
        case e: True
        have "readn_loop (f\<lparr>rplan := p\<rparr>) nleft buf = (r, buf', f')" using 1(3) True err e by (simp add: readn_loop.simps [of f nleft])
        from 1(1) [OF True err(2) [symmetric] refl e this] show ?thesis using err by (auto split: option.splits)
      next
        case False
        then show ?thesis using 1(3) True err by (auto simp: readn_loop.simps [of f nleft])
      qed
    next
      case (got k g)
      show ?thesis
      proof (cases "incoming f = []")
        case True
        then show ?thesis using got 1(3) \<open>0 < nleft\<close> by (auto simp: readn_loop.simps [of f nleft])
      next
        case False
        let ?s = "take k (incoming f)"
        have ne: "?s \<noteq> []" using False got by simp
        have l: "length ?s \<noteq> 0" using ne by simp
        have "readn_loop g (nleft - length ?s) (buf @ ?s) = (r, buf', f')"
          using 1(3) got ne True by (simp add: readn_loop.simps [of f nleft] del: length_take)
        from 1(2) [OF True got(3) [symmetric] refl l this] obtain h where h: "buf' = (buf @ ?s) @ h" "incoming g = h @ incoming f'" "length h \<le> nleft - length ?s"
          "case r of Some l \<Rightarrow> l = nleft - length ?s - length h \<and> (l = 0 \<or> incoming f' = []) | None \<Rightarrow> \<exists>e. Inl e \<in> set (rplan g) \<and> e \<noteq> EINTR"
          by blast
        have "incoming f = (?s @ h) @ incoming f'" using h(2) got(4) by (metis append_assoc append_take_drop_id)
        then show ?thesis using h got by (intro exI [of _ "?s @ h"]) (auto split: option.splits)
      qed
    qed
  qed
qed

lemma readn_spec:
  assumes "readn f n = (r, buf, f')"
  shows "incoming f = buf @ incoming f' \<and> (r = int (min n (length (incoming f))) \<and> r = int (length buf)
    \<or> r = -1 \<and> (\<exists>e. Inl e \<in> set (rplan f) \<and> e \<noteq> EINTR))"
proof -
  obtain q where q: "readn_loop f n [] = (q, buf, f')" "r = (case q of None \<Rightarrow> -1 | Some l \<Rightarrow> int n - int l)"
    using assms by (auto simp: readn_def split: prod.splits option.splits)
  show ?thesis using readn_loop_spec [OF q(1)] q(2) by (auto split: option.splits)
qed

lemma writen_loop_spec:
  "writen_loop f s = (r, f') \<Longrightarrow> \<exists>k \<le> length s. outgoing f' = outgoing f @ take k s
     \<and> (if r then k = length s else \<exists>x \<in> set (wplan f). x = Inr 0 \<or> (\<exists>e. x = Inl e \<and> e \<noteq> EINTR))"
proof (induction f s rule: writen_loop.induct)
  case (1 f s)
  show ?case
  proof (cases "0 < length s")
    case False
    then show ?thesis using 1(3) by (auto simp: writen_loop.simps [of f])
  next
    case True
    show ?thesis
    proof (cases "wplan f")
      case Nil
      then show ?thesis using 1(3) True by (auto simp: writen_loop.simps sys_write_def)
    next
      case (Cons x p)
      show ?thesis
      proof (cases x)
        case (Inl e)
        let ?g = "f\<lparr>wplan := p\<rparr>"
        have w: "sys_write f s = (Inl e, ?g)" using Cons Inl by (simp add: sys_write_def)
        show ?thesis
        proof (cases "e = EINTR")
          case e: True
          have "writen_loop ?g s = (r, f')" using 1(3) True w e by (simp add: writen_loop.simps [of f])
          from 1(1) [OF True w [symmetric] refl e this] show ?thesis using Cons by (auto split: if_splits)
        next
          case False
          then show ?thesis using 1(3) True w Cons Inl by (intro exI [of _ 0]) (auto simp: writen_loop.simps [of f])
        qed
      next
        case (Inr k)
        let ?m = "min k (length s)" and ?g = "f\<lparr>outgoing := outgoing f @ take k s, wplan := p\<rparr>"
        have w: "sys_write f s = (Inr ?m, ?g)" using Cons Inr by (simp add: sys_write_def)
        show ?thesis
        proof (cases "?m = 0")
          case True
          then have "k = 0" using \<open>0 < length s\<close> by (simp add: min_def split: if_splits)
          then show ?thesis using 1(3) Cons Inr \<open>0 < length s\<close> w by (intro exI [of _ 0]) (auto simp: writen_loop.simps [of f])
        next
          case False
          have "writen_loop ?g (drop ?m s) = (r, f')" using 1(3) True w by (simp add: writen_loop.simps [of f] False)
          then obtain j where j: "j \<le> length (drop ?m s)" "outgoing f' = outgoing ?g @ take j (drop ?m s)"
            "if r then j = length (drop ?m s) else \<exists>x \<in> set (wplan ?g). x = Inr 0 \<or> (\<exists>e. x = Inl e \<and> e \<noteq> EINTR)"
            using 1(2) [OF True w [symmetric] refl False] by blast
          have "take k s @ take j (drop ?m s) = take (?m + j) s" by (simp add: take_add min_def)
          then show ?thesis using j Cons by (intro exI [of _ "?m + j"]) (auto split: if_splits)
        qed
      qed
    qed
  qed
qed

section \<open>Lines\<close>

text \<open>What is still to be read: the rest of the buffer, then what has not arrived.\<close>

definition unread :: "rbuf \<Rightarrow> fd \<Rightarrow> string" where
  "unread r f = (if read_cnt r \<le> 0 then [] else take (nat (read_cnt r)) (drop (read_ptr r) (read_buf r))) @ incoming f"

definition rbuf_ok :: "rbuf \<Rightarrow> bool" where
  "rbuf_ok r \<longleftrightarrow> length (read_buf r) = MAXLINE \<and> (0 < read_cnt r \<longrightarrow> read_ptr r + nat (read_cnt r) \<le> MAXLINE)"

definition only_eintr :: "fd \<Rightarrow> bool" where
  "only_eintr f \<longleftrightarrow> (\<forall>e. Inl e \<in> set (rplan f) \<longrightarrow> e = EINTR)"

lemma rbuf_init_ok: "rbuf_ok rbuf_init" "unread rbuf_init f = incoming f"
  by (auto simp: rbuf_ok_def rbuf_init_def unread_def)

lemma my_again_spec:
  "my_again r f = (rc, r', f') \<Longrightarrow> only_eintr f \<Longrightarrow> length (read_buf r) = MAXLINE \<Longrightarrow>
   rbuf_ok r' \<and> only_eintr f' \<and> unread r' f' = incoming f \<and> (if incoming f = [] then rc = 0 else rc = 1 \<and> 0 < read_cnt r')"
proof (induction r f rule: my_again.induct)
  case (1 r f)
  have M: "0 < MAXLINE" by (simp add: MAXLINE_def)
  then show ?case
  proof (cases rule: sys_read_cases [of MAXLINE f, case_names err got])
    case (err e p)
    then have "e = EINTR" "only_eintr (f\<lparr>rplan := p\<rparr>)" using 1(3) by (auto simp: only_eintr_def)
    then show ?thesis using 1(1) [OF err(2) [symmetric] refl] 1(2,4) err by (simp add: my_again.simps [of r f])
  next
    case (got k g)
    let ?s = "take k (incoming f)"
    have o: "only_eintr g" using got 1(3) by (auto simp: only_eintr_def)
    show ?thesis
    proof (cases "incoming f = []")
      case True
      then show ?thesis using 1(2,4) got o by (auto simp: my_again.simps [of r f] rbuf_ok_def unread_def)
    next
      case False
      then have "?s \<noteq> []" "length ?s \<le> MAXLINE" using got by auto
      moreover from this have "(rc, r', f') = (1, \<lparr>read_cnt = int (length ?s), read_ptr = 0, read_buf = ?s @ drop (length ?s) (read_buf r)\<rparr>, g)"
        using 1(2) got by (simp add: my_again.simps [of r f] del: length_take)
      moreover have "take (min (length (incoming f)) k) (incoming f) = ?s" by (simp add: min_def)
      ultimately show ?thesis using 1(4) got o False by (simp add: rbuf_ok_def unread_def)
    qed
  qed
qed

lemma unread_char:
  assumes "rbuf_ok r" "0 < read_cnt r"
  shows "unread r f = fst (take_char r) # unread (snd (take_char r)) f \<and> rbuf_ok (snd (take_char r))"
proof -
  obtain k where k: "nat (read_cnt r) = Suc k" using assms(2) by (metis gr0_implies_Suc zero_less_nat_eq)
  have k': "nat (read_cnt r - 1) = k" "read_cnt r - 1 \<le> 0 \<longleftrightarrow> k = 0" "read_cnt r = 1 + int k" using k by linarith+
  have l: "read_ptr r < length (read_buf r)" using assms k by (auto simp: rbuf_ok_def)
  have "unread r f = take (Suc k) (read_buf r ! read_ptr r # drop (Suc (read_ptr r)) (read_buf r)) @ incoming f"
    using assms(2) k Cons_nth_drop_Suc [OF l] by (simp add: unread_def)
  moreover have "unread (snd (take_char r)) f = take k (drop (Suc (read_ptr r)) (read_buf r)) @ incoming f"
    using k' by (simp add: unread_def take_char_def)
  ultimately show ?thesis using assms k k' by (auto simp: take_char_def rbuf_ok_def)
qed

lemma my_read_spec:
  assumes "my_read r f = (rc, c, r', f')" "only_eintr f" "rbuf_ok r"
  shows "rbuf_ok r' \<and> only_eintr f' \<and> (if unread r f = [] then rc = 0 \<and> unread r' f' = [] else rc = 1 \<and> unread r f = c # unread r' f')"
proof (cases "read_cnt r \<le> 0")
  case True
  obtain q r1 f1 where a: "my_again r f = (q, r1, f1)" using prod_cases3 by blast
  have s: "rbuf_ok r1 \<and> only_eintr f1 \<and> unread r1 f1 = incoming f \<and> (if incoming f = [] then q = 0 else q = 1 \<and> 0 < read_cnt r1)"
    using my_again_spec [OF a] assms(2,3) by (simp add: rbuf_ok_def)
  show ?thesis using assms(1) s a True unread_char [of r1 f1]
    by (auto simp: my_read_def unread_def [of r] split: if_splits prod.splits)
next
  case False
  then show ?thesis using assms unread_char [of r f] by (auto simp: my_read_def split: prod.splits)
qed

text \<open>The next line of a stream of bytes: up to the newline, at most \<open>m\<close> bytes.\<close>

fun first_line :: "nat \<Rightarrow> string \<Rightarrow> string" where
  "first_line 0 u = []"
| "first_line m [] = []"
| "first_line (Suc m) (c # u) = (if c = CHR 0x0A then [c] else c # first_line m u)"

lemma length_first_line: "length (first_line m u) \<le> m"
  by (induction m u rule: first_line.induct) auto

lemma first_line_prefix: "take (length (first_line m u)) u = first_line m u"
  by (induction m u rule: first_line.induct) auto

lemma readline_loop_spec:
  "readline_loop r f n maxlen buf = (v, out, r', f') \<Longrightarrow> only_eintr f \<Longrightarrow> rbuf_ok r \<Longrightarrow> 0 < n \<Longrightarrow> n \<le> maxlen \<Longrightarrow>
   l = first_line (maxlen - n) (unread r f) \<Longrightarrow>
   rbuf_ok r' \<and> only_eintr f' \<and> out = buf @ l @ [CHR 0x00] \<and> unread r f = l @ unread r' f'
     \<and> v = int (n - 1 + length l) + of_bool (length l = maxlen - n \<and> CHR 0x0A \<notin> set l)"
proof (induction r f n maxlen buf arbitrary: l rule: readline_loop.induct)
  case (1 r f n maxlen buf)
  show ?case
  proof (cases "n < maxlen")
    case False
    then show ?thesis using 1(2-) by (auto simp: readline_loop.simps [of r f])
  next
    case True
    obtain rc c r1 f1 where m: "my_read r f = (rc, c, r1, f1)" using prod_cases4 by blast
    have ok: "rbuf_ok r1" "only_eintr f1" using my_read_spec [OF m 1(3,4)] by simp_all
    obtain k where k: "maxlen - n = Suc k" "maxlen - (n + 1) = k" using True by (metis Suc_diff_Suc add.commute plus_1_eq_Suc)
    show ?thesis
    proof (cases "unread r f")
      case Nil
      then have "rc = 0" "unread r1 f1 = []" using my_read_spec [OF m 1(3,4)] by simp_all
      then show ?thesis using 1(2-) ok True m Nil k by (auto simp: readline_loop.simps [of r f n])
    next
      case (Cons a u)
      then have c: "rc = 1" "c = a" "unread r1 f1 = u" using my_read_spec [OF m 1(3,4)] by simp_all
      show ?thesis
      proof (cases "a = CHR 0x0A")
        case True
        then show ?thesis using 1(2-) c ok \<open>n < maxlen\<close> m Cons k by (auto simp: readline_loop.simps [of r f n])
      next
        case False
        have r: "readline_loop r1 f1 (n + 1) maxlen (buf @ [c]) = (v, out, r', f')"
          using 1(2) c False True m by (simp add: readline_loop.simps [of r f n])
        have nl: "c \<noteq> CHR 0x0A" using False c by simp
        have l: "l = a # first_line k u" using 1(7) Cons False k by simp
        have "first_line k u = first_line (maxlen - (n + 1)) (unread r1 f1)" using c k by simp
        from 1(1) [OF True m [symmetric] refl refl c(1) nl r ok(2,1) _ _ this] 1(5) True
        show ?thesis using l c Cons k False by auto
      qed
    qed
  qed
qed

section \<open>Properties\<close>

text \<open>
  What \<open>writen\<close> sends arrives in \<open>readn\<close>, in whatever pieces and with whatever interruptions by
  signals: when \<open>writen\<close> returns the length, \<open>readn\<close> of as many bytes stores exactly these and leaves
  what follows, unless \<open>read\<close> fails with another error than \<open>EINTR\<close>.  When \<open>writen\<close> fails, a call of
  \<open>write\<close> failed or wrote nothing, and a prefix was sent.
\<close>

theorem writen_readn:
  assumes "writen f s = (v, f')" "incoming g = drop (length (outgoing f)) (outgoing f') @ rest" "readn g (length s) = (r, buf, g')"
  shows "(v = int (length s) \<and> (r = int (length s) \<and> buf = s \<and> incoming g' = rest
          \<or> r = -1 \<and> (\<exists>e. Inl e \<in> set (rplan g) \<and> e \<noteq> EINTR)))
    \<or> (v = -1 \<and> (\<exists>x \<in> set (wplan f). x = Inr 0 \<or> (\<exists>e. x = Inl e \<and> e \<noteq> EINTR))
          \<and> (\<exists>k \<le> length s. outgoing f' = outgoing f @ take k s))"
proof -
  obtain ok where w: "writen_loop f s = (ok, f')" "v = (if ok then int (length s) else -1)"
    using assms(1) by (auto simp: writen_def split: prod.splits bool.splits)
  obtain k where k: "k \<le> length s" "outgoing f' = outgoing f @ take k s"
    "if ok then k = length s else \<exists>x \<in> set (wplan f). x = Inr 0 \<or> (\<exists>e. x = Inl e \<and> e \<noteq> EINTR)"
    using writen_loop_spec [OF w(1)] by blast
  show ?thesis
  proof (cases ok)
    case True
    then have "incoming g = s @ rest" using assms(2) k by simp
    then have e: "s @ rest = buf @ incoming g'" using readn_spec [OF assms(3)] by simp
    show ?thesis
    proof (cases "r = -1 \<and> (\<exists>e. Inl e \<in> set (rplan g) \<and> e \<noteq> EINTR)")
      case False
      then have "r = int (min (length s) (length (incoming g))) \<and> r = int (length buf)" using readn_spec [OF assms(3)] by blast
      then have l: "length s = length buf" and r: "r = int (length s)" unfolding \<open>incoming g = s @ rest\<close> by simp_all
      have "s = buf \<and> rest = incoming g'" using e l by (metis append_eq_append_conv)
      then show ?thesis using r w(2) True by simp
    qed (use w(2) True in auto)
  qed (use k w in auto)
qed

theorem writen_readn_witness:
  "\<exists>f' g'. writen \<lparr>incoming = [], rplan = [], outgoing = [], wplan = [Inr 2, Inl EINTR, Inr 1]\<rparr> ''abcd'' = (4, f')
    \<and> readn \<lparr>incoming = outgoing f' @ ''xy'', rplan = [Inl EINTR, Inr 0, Inr 1], outgoing = [], wplan = []\<rparr> 4 = (4, ''abcd'', g') \<and> incoming g' = ''xy''"
proof -
  let ?f = "\<lparr>incoming = [], rplan = [], outgoing = [], wplan = [Inr 2, Inl EINTR, Inr 1]\<rparr>"
  let ?g = "\<lambda>f'. \<lparr>incoming = outgoing f' @ ''xy'', rplan = [Inl EINTR, Inr 0, Inr 1], outgoing = [], wplan = []\<rparr>"
  obtain v f' where w: "writen ?f ''abcd'' = (v, f')" by fastforce
  obtain r buf g' where r: "readn (?g f') 4 = (r, buf, g')" using prod_cases3 by blast
  have r': "readn (?g f') (length ''abcd'') = (r, buf, g')" using r by (simp add: numeral_eq_Suc)
  have "v = 4 \<and> r = 4 \<and> buf = ''abcd'' \<and> incoming g' = ''xy''"
    using writen_readn [OF w _ r', of "''xy''"] by (simp add: EINTR_def)
  then show ?thesis using w r by blast
qed

text \<open>
  \<open>readline\<close> returns the stream line by line however the bytes arrive: it stores the next line with its
  newline, or as much of it as fits, and a null byte, and what is unread afterwards is the rest of
  the stream.  Its value is the number of bytes of the line, except when the line does not fit: then
  it is one more.
\<close>

theorem readline_next_line:
  assumes "readline r f maxlen = (v, out, r', f')" "only_eintr f" "rbuf_ok r" "0 < maxlen"
    and "l = first_line (maxlen - 1) (unread r f)"
  shows "out = l @ [CHR 0x00] \<and> unread r f = l @ unread r' f' \<and> rbuf_ok r' \<and> only_eintr f'
    \<and> v = (if length l = maxlen - 1 \<and> CHR 0x0A \<notin> set l then int (length l) + 1 else int (length l))"
  using readline_loop_spec [of r f 1 maxlen "[]" v out r' f'] assms by (auto simp: readline_def)

theorem readline_next_line_witness:
  "\<exists>v r' f'. readline rbuf_init \<lparr>incoming = ''ab'' @ [CHR 0x0A] @ ''cd'', rplan = [Inr 0, Inl EINTR], outgoing = [], wplan = []\<rparr> 8
      = (3, ''ab'' @ [CHR 0x0A, CHR 0x00], r', f')
    \<and> readline r' f' 2 = (2, ''c'' @ [CHR 0x00], v)"
proof -
  let ?f = "\<lparr>incoming = ''ab'' @ [CHR 0x0A] @ ''cd'', rplan = [Inr 0, Inl EINTR], outgoing = [], wplan = []\<rparr>"
  have l: "first_line (8 - 1) (unread rbuf_init ?f) = ''ab'' @ [CHR 0x0A]"
    by (simp add: rbuf_init_ok eval_nat_numeral)
  obtain v out r' f' where a: "readline rbuf_init ?f 8 = (v, out, r', f')" using prod_cases4 by blast
  have "only_eintr ?f" by (simp add: only_eintr_def)
  from readline_next_line [OF a this rbuf_init_ok(1) _ l [symmetric]]
  have A: "v = 3" "out = ''ab'' @ [CHR 0x0A, CHR 0x00]" "unread r' f' = ''cd''" "rbuf_ok r'" "only_eintr f'"
    by (simp_all add: rbuf_init_ok)
  obtain v2 out2 r2 f2 where b: "readline r' f' 2 = (v2, out2, r2, f2)" using prod_cases4 by blast
  have m: "first_line (2 - 1) (unread r' f') = ''c''" using A(3) by simp
  from readline_next_line [OF b A(5,4) _ m [symmetric]] have "v2 = 2" "out2 = ''c'' @ [CHR 0x00]" by simp_all
  then show ?thesis using a b A by auto
qed

end
