(* ===== verification/Gai.thy ===== *)
theory Gai
  imports Inet_Text
begin

text \<open>
  \<open>getaddrinfo\<close> of \<open>unpv13e/libgai\<close>, with IPv4, IPv6 and Unix domain addresses compiled in.  The
  linked list of \<open>struct addrinfo\<close> is a list, the tail pointer \<open>aipnext\<close> its end; the length of a
  socket address is that of its structure.  Ports are the numbers that \<open>htons\<close> and \<open>ntohs\<close> convert.
  The resolver and the service database are arguments.
\<close>

section \<open>Types\<close>

datatype af = AF_UNSPEC | AF_LOCAL | AF_INET | AF_INET6 | AF_UNKNOWN nat

datatype eai = EAI_ADDRFAMILY | EAI_AGAIN | EAI_BADFLAGS | EAI_FAIL | EAI_FAMILY | EAI_MEMORY
  | EAI_NODATA | EAI_NONAME | EAI_SERVICE | EAI_SOCKTYPE | EAI_SYSTEM

datatype h_error = HOST_NOT_FOUND | TRY_AGAIN | NO_RECOVERY | NO_DATA | H_other

definition SOCK_STREAM :: int where "SOCK_STREAM = 1"
definition SOCK_DGRAM :: int where "SOCK_DGRAM = 2"
definition SOCK_RAW :: int where "SOCK_RAW = 3"

definition AI_PASSIVE :: "32 word" where "AI_PASSIVE = 1"
definition AI_CANONNAME :: "32 word" where "AI_CANONNAME = 2"
definition AI_CLONE :: "32 word" where "AI_CLONE = 4"

datatype sockaddr = Sin "16 word" "nat list" | Sin6 "16 word" "nat list" | Sun string

record addrinfo =
  ai_flags :: "32 word"
  ai_family :: af
  ai_socktype :: int
  ai_protocol :: int
  ai_canonname :: "string option"
  ai_addr :: "sockaddr option"

record hostent =
  h_name :: string
  h_addrtype :: af
  h_addr_list :: "nat list list"

text \<open>The flag of \<open>gethostbyname\<close> is \<open>RES_USE_INET6\<close>; \<open>nodename\<close> is what \<open>uname\<close> gives.\<close>

record resolver =
  gethostbyname :: "bool \<Rightarrow> string \<Rightarrow> h_error + hostent"
  gethostbyname2 :: "string \<Rightarrow> af \<Rightarrow> h_error + hostent"
  getservbyname :: "string \<Rightarrow> string \<Rightarrow> (16 word) option"
  nodename :: "string option"

text \<open>
  What a call changes: the allocations of \<open>calloc\<close>, \<open>malloc\<close> and \<open>strdup\<close> that will succeed or
  fail (all succeed after the list), the number of blocks allocated and not freed, \<open>RES_USE_INET6\<close>,
  and the files removed.
\<close>

record gst =
  allocs :: "bool list"
  live :: nat
  use_inet6 :: bool
  unlinked :: "string list"

definition alloc :: "gst \<Rightarrow> bool \<times> gst" where
  "alloc g = (case allocs g of [] \<Rightarrow> (True, g\<lparr>live := live g + 1\<rparr>)
     | b # bs \<Rightarrow> (b, g\<lparr>allocs := bs, live := (if b then live g + 1 else live g)\<rparr>))"

definition is_unset :: "string option \<Rightarrow> bool" where
  "is_unset s \<longleftrightarrow> s = None \<or> s = Some []"

section \<open>Checks\<close>

definition ga_echeck :: "string option \<Rightarrow> string option \<Rightarrow> 32 word \<Rightarrow> af \<Rightarrow> int \<Rightarrow> int \<Rightarrow> eai option" where
  "ga_echeck hostname servname flags family socktype protocol =
     (if flags AND NOT (AI_PASSIVE OR AI_CANONNAME) \<noteq> 0 then Some EAI_BADFLAGS
      else if is_unset hostname \<and> is_unset servname then Some EAI_NONAME
      else (case family of
          AF_UNSPEC \<Rightarrow> None
        | AF_INET \<Rightarrow> if socktype \<noteq> 0 \<and> (socktype \<noteq> SOCK_STREAM \<and> socktype \<noteq> SOCK_DGRAM \<and> socktype \<noteq> SOCK_RAW)
            then Some EAI_SOCKTYPE else None
        | AF_INET6 \<Rightarrow> if socktype \<noteq> 0 \<and> (socktype \<noteq> SOCK_STREAM \<and> socktype \<noteq> SOCK_DGRAM \<and> socktype \<noteq> SOCK_RAW)
            then Some EAI_SOCKTYPE else None
        | AF_LOCAL \<Rightarrow> if socktype \<noteq> 0 \<and> (socktype \<noteq> SOCK_STREAM \<and> socktype \<noteq> SOCK_DGRAM)
            then Some EAI_SOCKTYPE else None
        | AF_UNKNOWN n \<Rightarrow> Some EAI_FAMILY))"

section \<open>What to look up\<close>

type_synonym search = "string \<times> af"

definition ga_nsearch :: "string option \<Rightarrow> addrinfo \<Rightarrow> search list" where
  "ga_nsearch hostname hints =
     (if is_unset hostname then
        if ai_flags hints AND AI_PASSIVE \<noteq> 0 then
          (case ai_family hints of
             AF_INET \<Rightarrow> [(''0.0.0.0'', AF_INET)]
           | AF_INET6 \<Rightarrow> [(''0::0'', AF_INET6)]
           | AF_UNSPEC \<Rightarrow> [(''0::0'', AF_INET6), (''0.0.0.0'', AF_INET)]
           | _ \<Rightarrow> [])
        else
          (case ai_family hints of
             AF_INET \<Rightarrow> [(''localhost'', AF_INET)]
           | AF_INET6 \<Rightarrow> [(''0::1'', AF_INET6)]
           | AF_UNSPEC \<Rightarrow> [(''0::1'', AF_INET6), (''localhost'', AF_INET)]
           | _ \<Rightarrow> [])
      else
        (case ai_family hints of
           AF_INET \<Rightarrow> [(the hostname, AF_INET)]
         | AF_INET6 \<Rightarrow> [(the hostname, AF_INET6)]
         | AF_UNSPEC \<Rightarrow> [(the hostname, AF_INET6), (the hostname, AF_INET)]
         | _ \<Rightarrow> []))"

section \<open>Building entries\<close>

definition SUN_PATH :: nat where "SUN_PATH = 108"

text \<open>
  The entry is in the list before its socket address is allocated.  \<open>addr\<close> points to the bytes of
  an address or to a path name.
\<close>

definition new_ai :: "addrinfo \<Rightarrow> af \<Rightarrow> addrinfo" where
  "new_ai hints family = \<lparr>ai_flags = (if ai_socktype hints = 0 then AI_CLONE else 0), ai_family = family,
     ai_socktype = ai_socktype hints, ai_protocol = ai_protocol hints, ai_canonname = None, ai_addr = None\<rparr>"

definition path_of :: "nat list \<Rightarrow> string" where
  "path_of addr = map char_of addr"

definition ga_sockaddr :: "nat list \<Rightarrow> af \<Rightarrow> sockaddr" where
  "ga_sockaddr addr family = (case family of AF_INET \<Rightarrow> Sin 0 (take 4 addr) | AF_INET6 \<Rightarrow> Sin6 0 (take 16 addr)
     | _ \<Rightarrow> Sun (path_of addr))"

definition ga_aistruct :: "addrinfo \<Rightarrow> nat list \<Rightarrow> af \<Rightarrow> addrinfo list \<Rightarrow> gst \<Rightarrow> eai option \<times> addrinfo list \<times> gst" where
  "ga_aistruct hints addr family ais g =
     (case alloc g of (ok, g) \<Rightarrow>
      if \<not> ok then (Some EAI_MEMORY, ais, g)
      else let ai = new_ai hints family in
        if family \<noteq> AF_INET \<and> family \<noteq> AF_INET6 \<and> family \<noteq> AF_LOCAL then (None, ais @ [ai], g)
        else if family = AF_LOCAL \<and> SUN_PATH \<le> length (path_of addr) then (Some EAI_SERVICE, ais @ [ai], g)
        else (case alloc g of (ok, g) \<Rightarrow>
          if \<not> ok then (Some EAI_MEMORY, ais @ [ai], g)
          else (None, ais @ [ai\<lparr>ai_addr := Some (ga_sockaddr addr family)\<rparr>],
                if family = AF_LOCAL \<and> ai_flags hints AND AI_PASSIVE \<noteq> 0
                then g\<lparr>unlinked := unlinked g @ [path_of addr]\<rparr> else g)))"

text \<open>\<open>ga_clone\<close>: whether it returned an entry, and the entry it linked behind the given one.\<close>

definition ga_clone :: "addrinfo \<Rightarrow> gst \<Rightarrow> bool \<times> addrinfo option \<times> gst" where
  "ga_clone ai g = (case alloc g of (ok, g) \<Rightarrow>
     if \<not> ok then (False, None, g)
     else let new = ai\<lparr>ai_flags := 0, ai_canonname := None, ai_addr := None\<rparr> in
       (case alloc g of (ok, g) \<Rightarrow>
          if \<not> ok then (False, Some new, g) else (True, Some (new\<lparr>ai_addr := ai_addr ai\<rparr>), g)))"

definition free_ai :: "addrinfo \<Rightarrow> nat" where
  "free_ai ai = 1 + (if ai_addr ai = None then 0 else 1) + (if ai_canonname ai = None then 0 else 1)"

fun freeaddrinfo :: "addrinfo list \<Rightarrow> gst \<Rightarrow> gst" where
  "freeaddrinfo [] g = g"
| "freeaddrinfo (ai # ais) g = freeaddrinfo ais (g\<lparr>live := live g - free_ai ai\<rparr>)"

section \<open>Ports\<close>

fun set_port :: "16 word \<Rightarrow> sockaddr \<Rightarrow> sockaddr" where
  "set_port p (Sin q a) = Sin p a"
| "set_port p (Sin6 q a) = Sin6 p a"
| "set_port p (Sun path) = Sun path"

text \<open>What the loop of \<open>ga_port\<close> does with an entry it does not skip: how many it found, the entry.\<close>

definition fill_in :: "16 word \<Rightarrow> int \<Rightarrow> addrinfo \<Rightarrow> int \<times> addrinfo" where
  "fill_in port socktype ai = (let ai = ai\<lparr>ai_socktype := socktype\<rparr> in
     case ai_family ai of
       AF_INET \<Rightarrow> (1, ai\<lparr>ai_addr := map_option (set_port port) (ai_addr ai)\<rparr>)
     | AF_INET6 \<Rightarrow> (1, ai\<lparr>ai_addr := map_option (set_port port) (ai_addr ai)\<rparr>)
     | _ \<Rightarrow> (0, ai))"

fun ga_port_loop :: "16 word \<Rightarrow> int \<Rightarrow> int \<Rightarrow> addrinfo list \<Rightarrow> gst \<Rightarrow> int \<times> addrinfo list \<times> gst" where
  "ga_port_loop port socktype nfound [] g = (nfound, [], g)"
| "ga_port_loop port socktype nfound (ai # ais) g =
     (if ai_flags ai AND AI_CLONE \<noteq> 0 then
        if ai_socktype ai \<noteq> 0 then
          (case ga_clone ai g of
             (True, new, g) \<Rightarrow> (case fill_in port socktype (the new) of (k, new) \<Rightarrow>
               (case ga_port_loop port socktype (nfound + k) ais g of (rc, ais, g) \<Rightarrow> (rc, ai # new # ais, g)))
           | (False, new, g) \<Rightarrow> (-1, ai # (case new of None \<Rightarrow> [] | Some n \<Rightarrow> [n]) @ ais, g))
        else (case fill_in port socktype ai of (k, ai) \<Rightarrow>
               (case ga_port_loop port socktype (nfound + k) ais g of (rc, ais, g) \<Rightarrow> (rc, ai # ais, g)))
      else if ai_socktype ai \<noteq> socktype then
        (case ga_port_loop port socktype nfound ais g of (rc, ais, g) \<Rightarrow> (rc, ai # ais, g))
      else (case fill_in port socktype ai of (k, ai) \<Rightarrow>
             (case ga_port_loop port socktype (nfound + k) ais g of (rc, ais, g) \<Rightarrow> (rc, ai # ais, g))))"

definition ga_port :: "16 word \<Rightarrow> int \<Rightarrow> addrinfo list \<Rightarrow> gst \<Rightarrow> int \<times> addrinfo list \<times> gst" where
  "ga_port port socktype ais g = ga_port_loop port socktype 0 ais g"

text \<open>The calls of \<open>ga_port\<close> one after the other, as \<open>ga_serv\<close> makes them, until one fails.\<close>

fun ga_ports :: "(16 word \<times> int) list \<Rightarrow> int \<Rightarrow> addrinfo list \<Rightarrow> gst \<Rightarrow> (eai + int) \<times> addrinfo list \<times> gst" where
  "ga_ports [] nfound ais g = (Inr nfound, ais, g)"
| "ga_ports ((port, socktype) # ps) nfound ais g =
     (case ga_port port socktype ais g of (rc, ais, g) \<Rightarrow>
        if rc < 0 then (Inl EAI_MEMORY, ais, g) else ga_ports ps (nfound + rc) ais g)"

definition serv_port :: "resolver \<Rightarrow> string \<Rightarrow> string \<Rightarrow> int \<Rightarrow> (16 word \<times> int) list" where
  "serv_port R serv proto socktype = (case getservbyname R serv proto of None \<Rightarrow> [] | Some p \<Rightarrow> [(p, socktype)])"

definition serv_ports :: "resolver \<Rightarrow> int \<Rightarrow> string \<Rightarrow> (16 word \<times> int) list" where
  "serv_ports R socktype serv =
     (if serv \<noteq> [] \<and> isdigit_c (hd serv) then
        let port = of_int (atoi serv) in
        if socktype \<noteq> 0 then [(port, socktype)] else [(port, SOCK_STREAM), (port, SOCK_DGRAM)]
      else (if socktype = 0 \<or> socktype = SOCK_STREAM then serv_port R serv ''tcp'' SOCK_STREAM else [])
         @ (if socktype = 0 \<or> socktype = SOCK_DGRAM then serv_port R serv ''udp'' SOCK_DGRAM else []))"

definition ga_serv :: "resolver \<Rightarrow> addrinfo \<Rightarrow> string \<Rightarrow> addrinfo list \<Rightarrow> gst \<Rightarrow> eai option \<times> addrinfo list \<times> gst" where
  "ga_serv R hints serv ais g =
     (case ga_ports (serv_ports R (ai_socktype hints) serv) 0 ais g of (rc, ais, g) \<Rightarrow>
        (case rc of Inl e \<Rightarrow> (Some e, ais, g)
         | Inr nfound \<Rightarrow>
             (if nfound = 0 then (if ai_socktype hints = 0 then Some EAI_NONAME else Some EAI_SERVICE) else None, ais, g)))"

section \<open>Unix domain\<close>

text \<open>On an error the list built so far is returned too: the function does not free it.\<close>

definition ga_unix :: "resolver \<Rightarrow> string \<Rightarrow> addrinfo \<Rightarrow> gst \<Rightarrow> (eai + addrinfo list) \<times> gst" where
  "ga_unix R path hints g =
     (if ai_family hints \<noteq> AF_UNSPEC \<and> ai_family hints \<noteq> AF_LOCAL then (Inl EAI_ADDRFAMILY, g)
      else
        let first = (if ai_socktype hints = 0 then ga_aistruct (hints\<lparr>ai_socktype := SOCK_STREAM\<rparr>) (map of_char path) AF_LOCAL [] g
                     else (None, [], g));
            hints = (if ai_socktype hints = 0 then hints\<lparr>ai_socktype := SOCK_DGRAM\<rparr> else hints)
        in (case first of
            (Some e, ais, g) \<Rightarrow> (Inl e, g)
          | (None, ais, g) \<Rightarrow>
             (case ga_aistruct hints (map of_char path) AF_LOCAL ais g of
                (Some e, ais, g) \<Rightarrow> (Inl e, g)
              | (None, ais, g) \<Rightarrow>
                  if ai_flags hints AND AI_CANONNAME \<noteq> 0 then
                    (case nodename R of
                       None \<Rightarrow> (Inl EAI_SYSTEM, g)
                     | Some name \<Rightarrow>
                         (case alloc g of (ok, g) \<Rightarrow>
                            if ok then (Inr ((hd ais)\<lparr>ai_canonname := Some name\<rparr> # tl ais), g) else (Inl EAI_MEMORY, g)))
                  else (Inr ais, g))))"

section \<open>getaddrinfo\<close>

definition isxdigit_c :: "char \<Rightarrow> bool" where
  "isxdigit_c c \<longleftrightarrow> c \<in> set ''0123456789abcdefABCDEF''"

text \<open>The null byte at the end of an empty string is no digit.\<close>

definition starts :: "(char \<Rightarrow> bool) \<Rightarrow> string \<Rightarrow> bool" where
  "starts P s \<longleftrightarrow> s \<noteq> [] \<and> P (hd s)"

text \<open>The value of \<open>h_errno\<close> as an error of \<open>getaddrinfo\<close>.\<close>

fun h_errno_eai :: "h_error \<Rightarrow> eai" where
  "h_errno_eai HOST_NOT_FOUND = EAI_NONAME"
| "h_errno_eai TRY_AGAIN = EAI_AGAIN"
| "h_errno_eai NO_RECOVERY = EAI_FAIL"
| "h_errno_eai NO_DATA = EAI_NODATA"
| "h_errno_eai H_other = EAI_NONAME"

text \<open>The list, the canonical name and the state; an error takes the list along, to be freed.\<close>

type_synonym found = "eai option \<times> addrinfo list \<times> string option \<times> gst"

fun add_addrs :: "addrinfo \<Rightarrow> af \<Rightarrow> nat list list \<Rightarrow> addrinfo list \<Rightarrow> gst \<Rightarrow> eai option \<times> addrinfo list \<times> gst" where
  "add_addrs hints family [] ais g = (None, ais, g)"
| "add_addrs hints family (a # as) ais g =
     (case ga_aistruct hints a family ais g of
        (Some e, ais, g) \<Rightarrow> (Some e, ais, g)
      | (None, ais, g) \<Rightarrow> add_addrs hints family as ais g)"

definition lookup_name :: "resolver \<Rightarrow> nat \<Rightarrow> search \<Rightarrow> gst \<Rightarrow> (h_error + hostent) \<times> gst" where
  "lookup_name R nsearch s g =
     (if nsearch = 2 then (gethostbyname2 R (fst s) (snd s), g\<lparr>use_inet6 := False\<rparr>)
      else (gethostbyname R (snd s = AF_INET6) (fst s), g\<lparr>use_inet6 := snd s = AF_INET6\<rparr>))"

definition canon_wanted :: "string option \<Rightarrow> addrinfo \<Rightarrow> bool" where
  "canon_wanted hostname hints \<longleftrightarrow> \<not> is_unset hostname \<and> ai_flags hints AND AI_CANONNAME \<noteq> 0"

definition save_canon :: "string option \<Rightarrow> addrinfo \<Rightarrow> string \<Rightarrow> string option \<Rightarrow> gst \<Rightarrow> bool \<times> string option \<times> gst" where
  "save_canon hostname hints name canon g =
     (if canon_wanted hostname hints \<and> canon = None then
        (case alloc g of (ok, g) \<Rightarrow> (ok, if ok then Some name else None, g))
      else (True, canon, g))"

definition search_name :: "resolver \<Rightarrow> string option \<Rightarrow> addrinfo \<Rightarrow> nat \<Rightarrow> search \<Rightarrow> addrinfo list \<Rightarrow> string option \<Rightarrow> gst \<Rightarrow> found" where
  "search_name R hostname hints nsearch s ais canon g =
     (case lookup_name R nsearch s g of
        (Inl he, g) \<Rightarrow> if nsearch = 2 then (None, ais, canon, g) else (Some (h_errno_eai he), ais, canon, g)
      | (Inr hp, g) \<Rightarrow>
          if ai_family hints \<noteq> AF_UNSPEC \<and> ai_family hints \<noteq> h_addrtype hp then (Some EAI_ADDRFAMILY, ais, canon, g)
          else (case save_canon hostname hints (h_name hp) canon g of (ok, canon, g) \<Rightarrow>
            if \<not> ok then (Some EAI_MEMORY, ais, canon, g)
            else (case add_addrs hints (h_addrtype hp) (h_addr_list hp) ais g of (e, ais, g) \<Rightarrow> (e, ais, canon, g))))"

text \<open>An address as text: an error if it is not of the family asked for, nothing if this search is not for it.\<close>

definition search_text :: "addrinfo \<Rightarrow> af \<Rightarrow> nat list \<Rightarrow> search \<Rightarrow> addrinfo list \<Rightarrow> string option \<Rightarrow> gst \<Rightarrow> found" where
  "search_text hints family bs s ais canon g =
     (if ai_family hints \<noteq> AF_UNSPEC \<and> ai_family hints \<noteq> family then (Some EAI_ADDRFAMILY, ais, canon, g)
      else if snd s \<noteq> family then (None, ais, canon, g)
      else (case ga_aistruct hints bs family ais g of (e, ais, g) \<Rightarrow> (e, ais, canon, g)))"

definition ipv4_text :: "string \<Rightarrow> nat list option" where
  "ipv4_text host = (if starts isdigit_c host then inet_pton4 host else None)"

definition ipv6_text :: "string \<Rightarrow> nat list option" where
  "ipv6_text host = (if starts (\<lambda>c. isxdigit_c c \<or> c = CHR '':'') host \<and> CHR '':'' \<in> set host then inet_pton6 host else None)"

definition search_one :: "resolver \<Rightarrow> string option \<Rightarrow> addrinfo \<Rightarrow> nat \<Rightarrow> search \<Rightarrow> addrinfo list \<Rightarrow> string option \<Rightarrow> gst \<Rightarrow> found" where
  "search_one R hostname hints nsearch s ais canon g =
     (case ipv4_text (fst s) of
        Some bs \<Rightarrow> search_text hints AF_INET bs s ais canon g
      | None \<Rightarrow>
         (case ipv6_text (fst s) of
            Some bs \<Rightarrow> search_text hints AF_INET6 bs s ais canon g
          | None \<Rightarrow> search_name R hostname hints nsearch s ais canon g))"

fun searches :: "resolver \<Rightarrow> string option \<Rightarrow> addrinfo \<Rightarrow> nat \<Rightarrow> search list \<Rightarrow> addrinfo list \<Rightarrow> string option \<Rightarrow> gst \<Rightarrow> found" where
  "searches R hostname hints nsearch [] ais canon g = (None, ais, canon, g)"
| "searches R hostname hints nsearch (s # ss) ais canon g =
     (case search_one R hostname hints nsearch s ais canon g of
        (Some e, ais, canon, g) \<Rightarrow> (Some e, ais, canon, g)
      | (None, ais, canon, g) \<Rightarrow> searches R hostname hints nsearch ss ais canon g)"

text \<open>After the searches: the canonical name goes into the first entry, then the ports.\<close>

definition put_canon :: "string option \<Rightarrow> addrinfo \<Rightarrow> string \<Rightarrow> addrinfo list \<Rightarrow> string option \<Rightarrow> gst \<Rightarrow> eai option \<times> addrinfo list \<times> gst" where
  "put_canon hostname hints host0 ais canon g =
     (if canon_wanted hostname hints then
        (case canon of
           Some name \<Rightarrow> (None, (hd ais)\<lparr>ai_canonname := Some name\<rparr> # tl ais, g)
         | None \<Rightarrow> (case alloc g of (ok, g) \<Rightarrow>
             if ok then (None, (hd ais)\<lparr>ai_canonname := Some host0\<rparr> # tl ais, g) else (Some EAI_MEMORY, ais, g)))
      else (None, ais, g))"

definition finish :: "resolver \<Rightarrow> string option \<Rightarrow> string option \<Rightarrow> addrinfo \<Rightarrow> string \<Rightarrow> found \<Rightarrow> (eai + addrinfo list) \<times> gst" where
  "finish R hostname servname hints host0 r =
     (let bad = (\<lambda>e ais g. (Inl e, freeaddrinfo ais g)) in
      case r of
        (Some e, ais, canon, g) \<Rightarrow> bad e ais g
      | (None, ais, canon, g) \<Rightarrow>
          if ais = [] then bad EAI_NONAME ais g
          else (case put_canon hostname hints host0 ais canon g of
              (Some e, ais, g) \<Rightarrow> bad e ais g
            | (None, ais, g) \<Rightarrow>
                if is_unset servname then (Inr ais, g)
                else (case ga_serv R hints (the servname) ais g of
                    (Some e, ais, g) \<Rightarrow> bad e ais g
                  | (None, ais, g) \<Rightarrow> (Inr ais, g))))"

definition no_hints :: addrinfo where
  "no_hints = \<lparr>ai_flags = 0, ai_family = AF_UNSPEC, ai_socktype = 0, ai_protocol = 0, ai_canonname = None, ai_addr = None\<rparr>"

definition unix_domain :: "string option \<Rightarrow> string option \<Rightarrow> bool" where
  "unix_domain hostname servname \<longleftrightarrow> (hostname = Some ''/local'' \<or> hostname = Some ''/unix'') \<and> servname \<noteq> None \<and> starts (\<lambda>c. c = CHR ''/'') (the servname)"

definition getaddrinfo :: "resolver \<Rightarrow> string option \<Rightarrow> string option \<Rightarrow> addrinfo option \<Rightarrow> (gst, eai + addrinfo list) prog" where
  "getaddrinfo R hostname servname hintsp g =
     (let hints = (case hintsp of None \<Rightarrow> no_hints | Some h \<Rightarrow> h) in
      case ga_echeck hostname servname (ai_flags hints) (ai_family hints) (ai_socktype hints) (ai_protocol hints) of
        Some e \<Rightarrow> Ret (Inl e) g
      | None \<Rightarrow>
        if unix_domain hostname servname then
          (case ga_unix R (the servname) hints g of (r, g) \<Rightarrow> Ret r g)
        else let ss = ga_nsearch hostname hints in
          if length ss < 1 \<or> length ss > 2 then Abort (Err_quit ''nsearch = %d'') g
          else (case finish R hostname servname hints (fst (hd ss)) (searches R hostname hints (length ss) ss [] None g) of
                  (r, g) \<Rightarrow> Ret r g))"

end
