(* ===== verification/Gai_Mem.thy ===== *)
theory Gai_Mem
  imports Gai
begin

text \<open>
  The memory of \<open>getaddrinfo\<close>: every block it allocates is in the list it returns or is freed, except
  for a copy of the canonical name.
\<close>

definition blocks :: "addrinfo list \<Rightarrow> nat" where
  "blocks ais = sum_list (map free_ai ais)"

lemma blocks_simps [simp]:
  "blocks [] = 0" "blocks (a # ais) = free_ai a + blocks ais" "blocks (xs @ ys) = blocks xs + blocks ys"
  by (simp_all add: blocks_def)

lemma live_freeaddrinfo: "live (freeaddrinfo ais g) = live g - blocks ais"
  by (induction ais g rule: freeaddrinfo.induct) (auto simp: diff_diff_left)

definition full :: "addrinfo \<Rightarrow> bool" where
  "full ai \<longleftrightarrow> ai_addr ai \<noteq> None"

definition ip_family :: "af \<Rightarrow> bool" where
  "ip_family f \<longleftrightarrow> f = AF_INET \<or> f = AF_INET6"

lemma ga_aistruct_live:
  assumes "ga_aistruct hints addr family ais g = (e, ais', g')"
  shows "live g' + blocks ais = live g + blocks ais' \<and>
    (list_all full ais \<and> e = None \<and> ip_family family \<longrightarrow> list_all full ais')"
  using assms
  by (auto simp: ga_aistruct_def alloc_def Let_def free_ai_def new_ai_def full_def ip_family_def
      split: prod.splits list.splits if_splits)

lemma fill_in_ai:
  assumes "fill_in port t ai = (k, ai')"
  shows "free_ai ai' = free_ai ai \<and> (full ai' \<longleftrightarrow> full ai)"
  using assms by (auto simp: fill_in_def Let_def free_ai_def full_def split: af.splits)

lemma ga_clone_live:
  assumes "ga_clone ai g = (ok, new, g')" "full ai"
  shows "live g' = live g + blocks (case new of None \<Rightarrow> [] | Some n \<Rightarrow> [n]) \<and> (ok \<longrightarrow> new \<noteq> None \<and> full (the new))"
  using assms by (auto simp: ga_clone_def alloc_def Let_def free_ai_def full_def split: prod.splits list.splits if_splits)

lemma fill_in_count: "fill_in port t ai = (k, ai') \<Longrightarrow> 0 \<le> k"
  by (auto simp: fill_in_def Let_def split: af.splits)

lemma ga_port_loop_live:
  "ga_port_loop port t n ais g = (rc, ais', g') \<Longrightarrow> list_all full ais \<Longrightarrow> 0 \<le> n \<Longrightarrow>
   live g' + blocks ais = live g + blocks ais' \<and> (0 \<le> rc \<longrightarrow> list_all full ais')"
proof (induction port t n ais g arbitrary: ais' g' rc rule: ga_port_loop.induct)
  case (2 port t n ai ais g)
  have full: "full ai" "list_all full ais" using 2(6) by simp_all
  consider (clone) "ai_flags ai AND AI_CLONE \<noteq> 0" "ai_socktype ai \<noteq> 0"
    | (first) "ai_flags ai AND AI_CLONE \<noteq> 0" "ai_socktype ai = 0"
    | (skip) "ai_flags ai AND AI_CLONE = 0" "ai_socktype ai \<noteq> t"
    | (same) "ai_flags ai AND AI_CLONE = 0" "ai_socktype ai = t" by blast
  then show ?case
  proof cases
    case clone
    obtain ok new g1 where c: "ga_clone ai g = (ok, new, g1)" using prod_cases3 by blast
    note l = ga_clone_live [OF c full(1)]
    show ?thesis
    proof (cases ok)
      case False
      then show ?thesis using 2(5) clone c l full by (auto split: option.splits)
    next
      case True
      obtain k a where f: "fill_in port t (the new) = (k, a)" by fastforce
      obtain rc1 ais1 g2 where r: "ga_port_loop port t (n + k) ais g1 = (rc1, ais1, g2)" using prod_cases3 by blast
      have "live g2 + blocks ais = live g1 + blocks ais1 \<and> (0 \<le> rc1 \<longrightarrow> list_all full ais1)"
        using 2(1) clone c True f r full 2(7) fill_in_count [OF f] by fastforce
      then show ?thesis using 2(5) clone c True f r l fill_in_ai [OF f] full by (auto split: option.splits)
    qed
  next
    case first
    obtain k a where f: "fill_in port t ai = (k, a)" by fastforce
    obtain rc1 ais1 g2 where r: "ga_port_loop port t (n + k) ais g = (rc1, ais1, g2)" using prod_cases3 by blast
    have "live g2 + blocks ais = live g + blocks ais1 \<and> (0 \<le> rc1 \<longrightarrow> list_all full ais1)"
      using 2(2) first f r full 2(7) fill_in_count [OF f] by fastforce
    then show ?thesis using 2(5) first f r fill_in_ai [OF f] full by auto
  next
    case skip
    obtain rc1 ais1 g2 where r: "ga_port_loop port t n ais g = (rc1, ais1, g2)" using prod_cases3 by blast
    have "live g2 + blocks ais = live g + blocks ais1 \<and> (0 \<le> rc1 \<longrightarrow> list_all full ais1)"
      using 2(3) skip r full 2(7) by fastforce
    then show ?thesis using 2(5) skip r full by auto
  next
    case same
    obtain k a where f: "fill_in port t ai = (k, a)" by fastforce
    obtain rc1 ais1 g2 where r: "ga_port_loop port t (n + k) ais g = (rc1, ais1, g2)" using prod_cases3 by blast
    have "live g2 + blocks ais = live g + blocks ais1 \<and> (0 \<le> rc1 \<longrightarrow> list_all full ais1)"
      using 2(4) same f r full 2(7) fill_in_count [OF f] by fastforce
    then show ?thesis using 2(5) same f r fill_in_ai [OF f] full by auto
  qed
qed auto

lemma ga_ports_live:
  "ga_ports ps n ais g = (r, ais', g') \<Longrightarrow> list_all full ais \<Longrightarrow> live g' + blocks ais = live g + blocks ais'"
proof (induction ps n ais g arbitrary: ais' g' r rule: ga_ports.induct)
  case (2 port t ps n ais g)
  obtain rc ais1 g1 where p: "ga_port port t ais g = (rc, ais1, g1)" using prod_cases3 by blast
  have l: "live g1 + blocks ais = live g + blocks ais1 \<and> (0 \<le> rc \<longrightarrow> list_all full ais1)"
    using ga_port_loop_live [of port t 0 ais g rc ais1 g1] p 2(3) by (simp add: ga_port_def)
  show ?case
  proof (cases "rc < 0")
    case True
    then show ?thesis using 2(2) p l by auto
  next
    case False
    then have "ga_ports ps (n + rc) ais1 g1 = (r, ais', g')" using 2(2) p by simp
    then show ?thesis using 2(1) [OF p [symmetric] refl] False l by fastforce
  qed
qed auto

lemma ga_serv_live:
  assumes "ga_serv R hints serv ais g = (e, ais', g')" "list_all full ais"
  shows "live g' + blocks ais = live g + blocks ais'"
  using assms ga_ports_live [of "serv_ports R (ai_socktype hints) serv" 0 ais g]
  by (fastforce simp: ga_serv_def split: prod.splits sum.splits)

section \<open>The searches\<close>

definition plain :: "addrinfo list \<Rightarrow> bool" where
  "plain ais \<longleftrightarrow> list_all (\<lambda>a. ai_canonname a = None) ais"

lemma plain_append [simp]: "plain (xs @ ys) \<longleftrightarrow> plain xs \<and> plain ys" "plain []" "plain [a] \<longleftrightarrow> ai_canonname a = None"
  by (simp_all add: plain_def)

definition nc :: "string option \<Rightarrow> nat" where
  "nc canon = (if canon = None then 0 else 1)"

definition resolver_ok :: "resolver \<Rightarrow> bool" where
  "resolver_ok R \<longleftrightarrow> (\<forall>b h hp. gethostbyname R b h = Inr hp \<longrightarrow> ip_family (h_addrtype hp))
     \<and> (\<forall>h f hp. gethostbyname2 R h f = Inr hp \<longrightarrow> ip_family (h_addrtype hp))"

text \<open>\<open>L\<close> blocks, those of the list and the copy of the name are allocated.\<close>

definition mem_ok :: "bool \<Rightarrow> nat \<Rightarrow> found \<Rightarrow> bool" where
  "mem_ok wanted L r = (case r of (e, ais, canon, g) \<Rightarrow>
     live g = L + blocks ais + nc canon \<and> plain ais \<and> (e = None \<longrightarrow> list_all full ais) \<and> (canon \<noteq> None \<longrightarrow> wanted))"

lemma ga_aistruct_plain: "ga_aistruct hints addr family ais g = (e, ais', g') \<Longrightarrow> plain ais \<Longrightarrow> plain ais'"
  by (auto simp: ga_aistruct_def alloc_def Let_def new_ai_def split: prod.splits list.splits if_splits)

lemma ga_aistruct_mem:
  assumes "ga_aistruct hints addr family ais g = (e, ais', g')" "mem_ok w L (None, ais, canon, g)" "ip_family family"
  shows "mem_ok w L (e, ais', canon, g')"
  using ga_aistruct_live [OF assms(1)] ga_aistruct_plain [OF assms(1)] assms(2,3) by (auto simp: mem_ok_def)

lemma add_addrs_mem:
  "add_addrs hints family as ais g = (e, ais', g') \<Longrightarrow> mem_ok w L (None, ais, canon, g) \<Longrightarrow> ip_family family \<Longrightarrow> mem_ok w L (e, ais', canon, g')"
proof (induction hints family as ais g rule: add_addrs.induct)
  case (2 hints family a as ais g)
  obtain e1 ais1 g1 where s: "ga_aistruct hints a family ais g = (e1, ais1, g1)" using prod_cases3 by blast
  show ?case using 2 s ga_aistruct_mem [OF s 2(3,4)] by (cases e1) auto
qed auto

lemma save_canon_mem:
  assumes "save_canon hostname hints name canon g = (ok, canon', g')" "mem_ok (canon_wanted hostname hints) L (None, ais, canon, g)"
  shows "mem_ok (canon_wanted hostname hints) L (None, ais, canon', g')"
  using assms by (auto simp: save_canon_def alloc_def mem_ok_def nc_def split: prod.splits list.splits if_splits)

lemma mem_ok_err: "mem_ok w L (None, ais, canon, g) \<Longrightarrow> mem_ok w L (e, ais, canon, g)"
  by (simp add: mem_ok_def)

lemma lookup_name_facts:
  assumes "lookup_name R n s g = (r, g')"
  shows "live g' = live g \<and> (resolver_ok R \<and> r = Inr hp \<longrightarrow> ip_family (h_addrtype hp))"
  using assms by (auto simp: lookup_name_def resolver_ok_def split: if_splits)

lemma search_one_mem:
  assumes "search_one R hostname hints n s ais canon g = r" "mem_ok (canon_wanted hostname hints) L (None, ais, canon, g)" "resolver_ok R"
  shows "mem_ok (canon_wanted hostname hints) L r"
proof -
  let ?w = "canon_wanted hostname hints"
  have addr: "mem_ok ?w L (search_text hints f bs s ais canon g)" if "ip_family f" for f bs
    using ga_aistruct_mem [of hints bs f ais g _ _ _ ?w L canon] assms(2) that mem_ok_err [OF assms(2)]
    by (auto simp: search_text_def split: prod.splits)
  have name: "mem_ok ?w L (search_name R hostname hints n s ais canon g)"
  proof -
    obtain h g1 where h: "lookup_name R n s g = (h, g1)" by fastforce
    have m: "mem_ok ?w L (e, ais, canon, g1)" for e
      using lookup_name_facts [OF h] assms(2) by (auto simp: mem_ok_def)
    show ?thesis
    proof (cases h)
      case (Inl he)
      then show ?thesis using m h by (simp add: search_name_def)
    next
      case (Inr hp)
      obtain ok c2 g2 where c: "save_canon hostname hints (h_name hp) canon g1 = (ok, c2, g2)" using prod_cases3 by blast
      obtain e3 a3 g3 where a: "add_addrs hints (h_addrtype hp) (h_addr_list hp) ais g2 = (e3, a3, g3)" using prod_cases3 by blast
      note m2 = save_canon_mem [OF c m]
      have "ip_family (h_addrtype hp)" using lookup_name_facts [OF h, of hp] assms(3) Inr by blast
      note m3 = add_addrs_mem [OF a m2 this]
      show ?thesis using h Inr c a m m2 m3 mem_ok_err [OF m2] by (simp add: search_name_def)
    qed
  qed
  show ?thesis using addr [of AF_INET] addr [of AF_INET6] name assms(1)
    by (auto simp: search_one_def ip_family_def split: option.splits)
qed

lemma searches_mem:
  "mem_ok (canon_wanted hostname hints) L (None, ais, canon, g) \<Longrightarrow> resolver_ok R \<Longrightarrow>
   mem_ok (canon_wanted hostname hints) L (searches R hostname hints n ss ais canon g)"
proof (induction R hostname hints n ss ais canon g rule: searches.induct)
  case (2 R hostname hints n s ss ais canon g)
  obtain e a c g1 where s: "search_one R hostname hints n s ais canon g = (e, a, c, g1)" using prod_cases4 by blast
  show ?case using 2 s search_one_mem [OF s 2(2,3)] by (cases e) auto
qed simp

section \<open>The end\<close>

definition mem_done :: "bool \<Rightarrow> nat \<Rightarrow> (eai + addrinfo list) \<times> gst \<Rightarrow> bool" where
  "mem_done w L r = (case r of
     (Inr ais, g) \<Rightarrow> live g = L + blocks ais
   | (Inl e, g) \<Rightarrow> live g = L \<or> w \<and> live g = L + 1)"

lemma mem_bad: "live g = L + blocks ais + nc canon \<Longrightarrow> (canon \<noteq> None \<longrightarrow> w) \<Longrightarrow> mem_done w L (Inl e, freeaddrinfo ais g)"
  by (auto simp: mem_done_def live_freeaddrinfo nc_def)

lemma put_canon_mem:
  assumes "put_canon hostname hints host0 ais canon g = (e, ais', g')"
    and "mem_ok (canon_wanted hostname hints) L (None, ais, canon, g)" "ais \<noteq> []"
  shows "live g' = L + blocks ais' \<and> (e = None \<longrightarrow> list_all full ais')"
  using assms
  by (cases ais; cases canon)
    (auto simp: put_canon_def mem_ok_def alloc_def plain_def nc_def free_ai_def full_def split: prod.splits list.splits if_splits)

lemma finish_mem:
  assumes "mem_ok (canon_wanted hostname hints) L r"
  shows "mem_done (canon_wanted hostname hints) L (finish R hostname servname hints host0 r)"
proof -
  obtain e ais canon g where r: "r = (e, ais, canon, g)" using prod_cases4 by blast
  let ?w = "canon_wanted hostname hints"
  note m = assms [unfolded r]
  have bad: "mem_done ?w L (Inl e', freeaddrinfo ais g)" for e'
    using m by (intro mem_bad [of _ _ _ canon]) (auto simp: mem_ok_def)
  show ?thesis
  proof (cases "e = None \<and> ais \<noteq> []")
    case False
    then show ?thesis using bad r by (cases e) (auto simp: finish_def Let_def)
  next
    case True
    obtain e1 a1 g1 where p: "put_canon hostname hints host0 ais canon g = (e1, a1, g1)" using prod_cases3 by blast
    have P: "live g1 = L + blocks a1 \<and> (e1 = None \<longrightarrow> list_all full a1)" using put_canon_mem [OF p] m True by simp
    have bad1: "mem_done ?w L (Inl e', freeaddrinfo a1 g1)" for e' using P by (intro mem_bad [of _ _ _ None]) (auto simp: nc_def)
    show ?thesis
    proof (cases "e1 = None \<and> \<not> is_unset servname")
      case False
      then show ?thesis using True r p bad1 P by (cases e1) (auto simp: finish_def Let_def mem_done_def)
    next
      case s: True
      obtain e2 a2 g2 where v: "ga_serv R hints (the servname) a1 g1 = (e2, a2, g2)" using prod_cases3 by blast
      have V: "live g2 = L + blocks a2" using ga_serv_live [OF v] P s by auto
      have "mem_done ?w L (Inl e', freeaddrinfo a2 g2)" for e' using V by (intro mem_bad [of _ _ _ None]) (auto simp: nc_def)
      then show ?thesis using True r p s v V by (cases e2) (auto simp: finish_def Let_def mem_done_def)
    qed
  qed
qed

lemma ga_aistruct_size:
  assumes "ga_aistruct hints addr family ais g = (e, ais', g')"
  shows "blocks ais \<le> blocks ais' \<and> blocks ais' \<le> blocks ais + 2 \<and> (e = None \<longrightarrow> ais' \<noteq> [])"
  using assms
  by (auto simp: ga_aistruct_def alloc_def Let_def free_ai_def new_ai_def split: prod.splits list.splits if_splits)

lemma ga_unix_mem:
  assumes "ga_unix R path hints g = (r, g')"
  shows "case r of Inr ais \<Rightarrow> live g' = live g + blocks ais | Inl e \<Rightarrow> live g \<le> live g' \<and> live g' \<le> live g + 4"
proof (cases "ai_family hints \<noteq> AF_UNSPEC \<and> ai_family hints \<noteq> AF_LOCAL")
  case True
  then show ?thesis using assms by (auto simp: ga_unix_def)
next
  case fam: False
  let ?h1 = "hints\<lparr>ai_socktype := SOCK_STREAM\<rparr>" and ?a = "map of_char path :: nat list"
  let ?h2 = "if ai_socktype hints = 0 then hints\<lparr>ai_socktype := SOCK_DGRAM\<rparr> else hints"
  obtain e1 a1 g1 where 1: "(if ai_socktype hints = 0 then ga_aistruct ?h1 ?a AF_LOCAL [] g else (None, [], g)) = (e1, a1, g1)"
    using prod_cases3 by blast
  have m1: "live g1 = live g + blocks a1 \<and> blocks a1 \<le> 2 \<and> plain a1"
    using 1 ga_aistruct_live [of ?h1 ?a AF_LOCAL "[]" g e1 a1 g1] ga_aistruct_size [of ?h1 ?a AF_LOCAL "[]" g e1 a1 g1]
      ga_aistruct_plain [of ?h1 ?a AF_LOCAL "[]" g e1 a1 g1] by (auto split: if_splits)
  show ?thesis
  proof (cases e1)
    case (Some e)
    then show ?thesis using assms fam 1 m1 by (auto simp: ga_unix_def Let_def)
  next
    case None
    obtain e2 a2 g2 where 2: "ga_aistruct ?h2 ?a AF_LOCAL a1 g1 = (e2, a2, g2)" using prod_cases3 by blast
    have m2: "live g2 = live g + blocks a2 \<and> blocks a2 \<le> 4 \<and> plain a2 \<and> (e2 = None \<longrightarrow> a2 \<noteq> [])"
      using m1 ga_aistruct_live [OF 2] ga_aistruct_size [OF 2] ga_aistruct_plain [OF 2] by auto
    have "(r, g') = (case (e2, a2, g2) of (Some e, ais, g) \<Rightarrow> (Inl e, g)
              | (None, ais, g) \<Rightarrow>
                  if ai_flags ?h2 AND AI_CANONNAME \<noteq> 0 then
                    (case nodename R of
                       None \<Rightarrow> (Inl EAI_SYSTEM, g)
                     | Some name \<Rightarrow>
                         (case alloc g of (ok, g) \<Rightarrow>
                            if ok then (Inr ((hd ais)\<lparr>ai_canonname := Some name\<rparr> # tl ais), g) else (Inl EAI_MEMORY, g)))
                  else (Inr ais, g))"
      using assms fam 1 2 None by (simp add: ga_unix_def Let_def)
    then show ?thesis using m2
      by (cases a2) (auto simp: alloc_def plain_def free_ai_def split: option.splits if_splits prod.splits list.splits)
  qed
qed

section \<open>Property\<close>

text \<open>
  C11.  Whatever allocations fail, what \<open>getaddrinfo\<close> returns holds exactly the blocks it allocated, so
  that \<open>freeaddrinfo\<close> gives all of them back.  After an error nothing is left but, when the canonical
  name was asked for, its copy; for a Unix domain path up to the four blocks of two entries.
\<close>

theorem getaddrinfo_memory:
  assumes "resolver_ok R" "getaddrinfo R hostname servname hintsp g = Ret r g'"
  shows "(case r of
      Inr ais \<Rightarrow> live (freeaddrinfo ais g') = live g
    | Inl e \<Rightarrow> if unix_domain hostname servname then live g \<le> live g' \<and> live g' \<le> live g + 4
               else live g' = live g \<or> (\<exists>h. hintsp = Some h \<and> canon_wanted hostname h) \<and> live g' = live g + 1)"
proof -
  define hints where "hints = (case hintsp of None \<Rightarrow> no_hints | Some h \<Rightarrow> h)"
  have nohints: "\<not> canon_wanted hostname no_hints" by (simp add: canon_wanted_def no_hints_def)
  have fin: ?thesis if "mem_done (canon_wanted hostname hints) (live g) (r, g')" "\<not> unix_domain hostname servname"
    using that nohints by (auto simp: mem_done_def live_freeaddrinfo hints_def split: sum.splits option.splits)
  show ?thesis
  proof (cases "ga_echeck hostname servname (ai_flags hints) (ai_family hints) (ai_socktype hints) (ai_protocol hints)")
    case (Some e)
    then show ?thesis using assms(2) by (auto simp: getaddrinfo_def hints_def [symmetric] Let_def)
  next
    case None
    show ?thesis
    proof (cases "unix_domain hostname servname")
      case True
      then have "ga_unix R (the servname) hints g = (r, g')"
        using assms(2) None by (auto simp: getaddrinfo_def hints_def [symmetric] Let_def split: prod.splits)
      from ga_unix_mem [OF this] show ?thesis using True by (auto simp: live_freeaddrinfo split: sum.splits)
    next
      case False
      let ?ss = "ga_nsearch hostname hints"
      let ?r = "searches R hostname hints (length ?ss) ?ss [] None g"
      have "finish R hostname servname hints (fst (hd ?ss)) ?r = (r, g')"
        using assms(2) None False by (auto simp: getaddrinfo_def hints_def [symmetric] Let_def split: prod.splits if_splits)
      moreover have "mem_ok (canon_wanted hostname hints) (live g) ?r"
        using assms(1) by (intro searches_mem) (auto simp: mem_ok_def nc_def)
      ultimately show ?thesis using finish_mem False fin by metis
    qed
  qed
qed

text \<open>The copy of the name that is left: the second allocation, of the first entry, fails.\<close>

theorem getaddrinfo_memory_witness:
  "\<exists>g'. getaddrinfo \<lparr>gethostbyname = \<lambda>_ _. Inr \<lparr>h_name = ''a.b'', h_addrtype = AF_INET, h_addr_list = [[10, 0, 0, 1]]\<rparr>,
        gethostbyname2 = \<lambda>_ _. Inl HOST_NOT_FOUND, getservbyname = \<lambda>_ _. None, nodename = None\<rparr>
      (Some ''a'') None (Some (no_hints\<lparr>ai_family := AF_INET, ai_flags := AI_CANONNAME\<rparr>))
      \<lparr>allocs = [True, False], live = 0, use_inet6 = True, unlinked = []\<rparr> = Ret (Inl EAI_MEMORY) g' \<and> live g' = 1"
proof -
  let ?R = "\<lparr>gethostbyname = \<lambda>_ _. Inr \<lparr>h_name = ''a.b'', h_addrtype = AF_INET, h_addr_list = [[10, 0, 0, 1]]\<rparr>,
        gethostbyname2 = \<lambda>_ _. Inl HOST_NOT_FOUND, getservbyname = \<lambda>_ _. None, nodename = None\<rparr>"
  let ?h = "no_hints\<lparr>ai_family := AF_INET, ai_flags := AI_CANONNAME\<rparr>"
  let ?g = "\<lparr>allocs = [True, False], live = 0, use_inet6 = True, unlinked = []\<rparr>"
  have "\<exists>g'. getaddrinfo ?R (Some ''a'') None (Some ?h) ?g = Ret (Inl EAI_MEMORY) g' \<and> live g' \<noteq> 0"
    by (simp add: getaddrinfo_def ga_echeck_def ga_nsearch_def is_unset_def no_hints_def AI_CANONNAME_def AI_PASSIVE_def unix_domain_def
        search_one_def ipv4_text_def ipv6_text_def starts_def isdigit_c_def search_name_def lookup_name_def save_canon_def canon_wanted_def
        ga_aistruct_def alloc_def finish_def Let_def)
  then obtain g' where g: "getaddrinfo ?R (Some ''a'') None (Some ?h) ?g = Ret (Inl EAI_MEMORY) g'" "live g' \<noteq> 0" by blast
  have "resolver_ok ?R" by (simp add: resolver_ok_def ip_family_def)
  from getaddrinfo_memory [OF this g(1)] g show ?thesis by (auto simp: unix_domain_def)
qed

end
