(* ===== verification/Gai_Ref.thy ===== *)
theory Gai_Ref
  imports Gai_Mem
begin

text \<open>
  What \<open>getaddrinfo\<close> computes when memory suffices: the addresses of all searches, each with all the
  ports of the service, in this order.
\<close>

section \<open>The reference\<close>

definition entry :: "addrinfo \<Rightarrow> af \<times> nat list \<Rightarrow> addrinfo" where
  "entry hints fa = (new_ai hints (fst fa))\<lparr>ai_addr := Some (ga_sockaddr (snd fa) (fst fa))\<rparr>"

definition ref_text :: "addrinfo \<Rightarrow> af \<Rightarrow> nat list \<Rightarrow> search \<Rightarrow> eai + (af \<times> nat list) list \<times> string option" where
  "ref_text hints f bs s = (if ai_family hints \<noteq> AF_UNSPEC \<and> ai_family hints \<noteq> f then Inl EAI_ADDRFAMILY
     else Inr (if snd s = f then [(f, bs)] else [], None))"

definition ref_search :: "resolver \<Rightarrow> addrinfo \<Rightarrow> nat \<Rightarrow> search \<Rightarrow> eai + (af \<times> nat list) list \<times> string option" where
  "ref_search R hints n s =
     (case ipv4_text (fst s) of Some bs \<Rightarrow> ref_text hints AF_INET bs s
      | None \<Rightarrow> (case ipv6_text (fst s) of Some bs \<Rightarrow> ref_text hints AF_INET6 bs s
      | None \<Rightarrow> (case (if n = 2 then gethostbyname2 R (fst s) (snd s) else gethostbyname R (snd s = AF_INET6) (fst s)) of
          Inl he \<Rightarrow> if n = 2 then Inr ([], None) else Inl (h_errno_eai he)
        | Inr hp \<Rightarrow> if ai_family hints \<noteq> AF_UNSPEC \<and> ai_family hints \<noteq> h_addrtype hp then Inl EAI_ADDRFAMILY
            else Inr (map (Pair (h_addrtype hp)) (h_addr_list hp), Some (h_name hp)))))"

text \<open>All addresses, and the first name.\<close>

fun ref_searches :: "resolver \<Rightarrow> addrinfo \<Rightarrow> nat \<Rightarrow> search list \<Rightarrow> eai + (af \<times> nat list) list \<times> string option" where
  "ref_searches R hints n [] = Inr ([], None)"
| "ref_searches R hints n (s # ss) =
     (case ref_search R hints n s of Inl e \<Rightarrow> Inl e
      | Inr (as, name) \<Rightarrow> (case ref_searches R hints n ss of Inl e \<Rightarrow> Inl e
         | Inr (bs, name') \<Rightarrow> Inr (as @ bs, case name of None \<Rightarrow> name' | Some x \<Rightarrow> Some x)))"

definition with_port :: "16 word \<times> int \<Rightarrow> addrinfo \<Rightarrow> addrinfo" where
  "with_port pt ai = ai\<lparr>ai_socktype := snd pt, ai_addr := map_option (set_port (fst pt)) (ai_addr ai)\<rparr>"

text \<open>One entry for each socket type; the first keeps the flag and the name.\<close>

fun with_ports :: "(16 word \<times> int) list \<Rightarrow> addrinfo \<Rightarrow> addrinfo list" where
  "with_ports [] ai = []"
| "with_ports (pt # pts) ai = with_port pt ai # map (\<lambda>q. with_port q (ai\<lparr>ai_flags := 0, ai_canonname := None\<rparr>)) pts"

definition name_first :: "string option \<Rightarrow> addrinfo list \<Rightarrow> addrinfo list" where
  "name_first name ais = (case ais of [] \<Rightarrow> [] | a # as \<Rightarrow> a\<lparr>ai_canonname := name\<rparr> # as)"

definition gai_ref :: "resolver \<Rightarrow> string option \<Rightarrow> string option \<Rightarrow> addrinfo \<Rightarrow> eai + addrinfo list" where
  "gai_ref R hostname servname hints =
     (let ss = ga_nsearch hostname hints in
      case ref_searches R hints (length ss) ss of Inl e \<Rightarrow> Inl e
      | Inr (as, name) \<Rightarrow>
          if as = [] then Inl EAI_NONAME
          else let canon = (if canon_wanted hostname hints then Some (case name of None \<Rightarrow> fst (hd ss) | Some x \<Rightarrow> x) else None);
                   ais = name_first canon (map (entry hints) as)
               in if is_unset servname then Inr ais
                  else let ports = serv_ports R (ai_socktype hints) (the servname) in
                    if ports = [] then Inl (if ai_socktype hints = 0 then EAI_NONAME else EAI_SERVICE)
                    else Inr (concat (map (with_ports ports) ais)))"

section \<open>Building the list\<close>

definition ample :: "gst \<Rightarrow> bool" where
  "ample g \<longleftrightarrow> allocs g = []"

lemma alloc_ample: "ample g \<Longrightarrow> \<exists>g'. alloc g = (True, g') \<and> ample g'"
  by (simp add: ample_def alloc_def)

lemma ga_aistruct_ample:
  assumes "ample g" "ip_family f"
  shows "\<exists>g'. ga_aistruct hints a f ais g = (None, ais @ [entry hints (f, a)], g') \<and> ample g'"
  using assms by (auto simp: ga_aistruct_def ample_def alloc_def Let_def ip_family_def entry_def)

lemma add_addrs_ample:
  "ample g \<Longrightarrow> ip_family f \<Longrightarrow> \<exists>g'. add_addrs hints f as ais g = (None, ais @ map (entry hints) (map (Pair f) as), g') \<and> ample g'"
proof (induction as arbitrary: ais g)
  case (Cons a as)
  obtain g1 where 1: "ga_aistruct hints a f ais g = (None, ais @ [entry hints (f, a)], g1)" "ample g1"
    using ga_aistruct_ample [OF Cons(2,3)] by blast
  show ?case using Cons(1) [OF 1(2) Cons(3), of "ais @ [entry hints (f, a)]"] 1 by auto
qed auto

definition later :: "bool \<Rightarrow> string option \<Rightarrow> string option \<Rightarrow> string option" where
  "later w canon name = (if w \<and> canon = None then name else canon)"

lemma save_canon_ample:
  assumes "ample g"
  shows "\<exists>g'. save_canon hostname hints name canon g = (True, later (canon_wanted hostname hints) canon (Some name), g') \<and> ample g'"
  using alloc_ample [OF assms] assms by (auto simp: save_canon_def later_def)

text \<open>The result of a search and what the reference says of it.\<close>

definition fits :: "addrinfo \<Rightarrow> bool \<Rightarrow> addrinfo list \<Rightarrow> string option \<Rightarrow> found \<Rightarrow> eai + (af \<times> nat list) list \<times> string option \<Rightarrow> bool" where
  "fits hints w ais canon r q = (case q of
      Inl e \<Rightarrow> (case r of (e', ais', canon', g') \<Rightarrow> e' = Some e)
    | Inr (as, name) \<Rightarrow> (case r of (e', ais', canon', g') \<Rightarrow>
        e' = None \<and> ais' = ais @ map (entry hints) as \<and> canon' = later w canon name \<and> ample g'))"

lemma fits_text:
  assumes "ample g" "ip_family f"
  shows "fits hints w ais canon (search_text hints f bs s ais canon g) (ref_text hints f bs s)"
  using ga_aistruct_ample [OF assms, of hints bs ais] assms(1)
  by (auto simp: fits_def search_text_def ref_text_def later_def)

lemma fits_name:
  assumes "ample g" "resolver_ok R" "ipv4_text (fst s) = None" "ipv6_text (fst s) = None"
  shows "fits hints (canon_wanted hostname hints) ais canon (search_name R hostname hints n s ais canon g) (ref_search R hints n s)"
proof -
  let ?w = "canon_wanted hostname hints"
  obtain h g1 where h: "lookup_name R n s g = (h, g1)" by fastforce
  have hr: "(if n = 2 then gethostbyname2 R (fst s) (snd s) else gethostbyname R (snd s = AF_INET6) (fst s)) = h"
    and g1: "ample g1" using h assms(1) by (auto simp: lookup_name_def ample_def split: if_splits)
  note r = ref_search_def [of R hints n s, unfolded assms(3,4) option.case hr]
  show ?thesis
  proof (cases h)
    case (Inl he)
    then show ?thesis using h g1 by (simp add: fits_def r search_name_def later_def)
  next
    case (Inr hp)
    have ip: "ip_family (h_addrtype hp)" using lookup_name_facts [OF h, of hp] assms(2) Inr by blast
    obtain g2 where 2: "save_canon hostname hints (h_name hp) canon g1 = (True, later ?w canon (Some (h_name hp)), g2)" "ample g2"
      using save_canon_ample [OF g1] by blast
    obtain g3 where 3: "add_addrs hints (h_addrtype hp) (h_addr_list hp) ais g2
        = (None, ais @ map (entry hints) (map (Pair (h_addrtype hp)) (h_addr_list hp)), g3)" "ample g3"
      using add_addrs_ample [OF 2(2) ip] by blast
    show ?thesis using h 2 3 Inr by (simp add: fits_def r search_name_def)
  qed
qed

lemma fits_one:
  assumes "ample g" "resolver_ok R"
  shows "fits hints (canon_wanted hostname hints) ais canon (search_one R hostname hints n s ais canon g) (ref_search R hints n s)"
proof (cases "ipv4_text (fst s)")
  case 4: None
  show ?thesis
  proof (cases "ipv6_text (fst s)")
    case None
    then show ?thesis using 4 fits_name [OF assms] by (simp add: search_one_def)
  next
    case (Some bs)
    then show ?thesis using 4 fits_text [OF assms(1)] by (simp add: search_one_def ref_search_def [of R hints n s] ip_family_def)
  qed
next
  case (Some bs)
  then show ?thesis using fits_text [OF assms(1)] by (simp add: search_one_def ref_search_def [of R hints n s] ip_family_def)
qed

lemma later_later: "later w (later w canon x) y = later w canon (case x of None \<Rightarrow> y | Some z \<Rightarrow> Some z)"
  by (auto simp: later_def split: option.splits)

lemma fits_searches:
  "ample g \<Longrightarrow> resolver_ok R \<Longrightarrow>
   fits hints (canon_wanted hostname hints) ais canon (searches R hostname hints n ss ais canon g) (ref_searches R hints n ss)"
proof (induction R hostname hints n ss ais canon g rule: searches.induct)
  case (1 R hostname hints n ais canon g)
  then show ?case by (simp add: fits_def later_def)
next
  case (2 R hostname hints n s ss ais canon g)
  let ?w = "canon_wanted hostname hints"
  obtain e a c g1 where s: "search_one R hostname hints n s ais canon g = (e, a, c, g1)" using prod_cases4 by blast
  note f = fits_one [OF 2(2,3), of hints hostname ais canon n s, unfolded s]
  show ?case
  proof (cases "ref_search R hints n s")
    case (Inl x)
    then show ?thesis using f s by (simp add: fits_def)
  next
    case (Inr q)
    obtain as name where q: "q = (as, name)" by fastforce
    have F: "e = None" "a = ais @ map (entry hints) as" "c = later ?w canon name" "ample g1"
      using f Inr q by (simp_all add: fits_def)
    have i: "fits hints ?w a c (searches R hostname hints n ss a c g1) (ref_searches R hints n ss)"
      using 2(1) [OF s [symmetric] F(1) refl refl F(4) 2(3)] .
    show ?thesis using i s Inr q F by (auto simp: fits_def later_later split: sum.splits prod.splits)
  qed
qed

section \<open>Ports\<close>

lemma fill_in_ip: "ip_family (ai_family ai) \<Longrightarrow> fill_in port t ai = (1, with_port (port, t) ai)"
  by (auto simp: fill_in_def with_port_def ip_family_def Let_def)

lemma ga_port_first:
  "list_all (\<lambda>a. ip_family (ai_family a) \<and> (if ai_flags a AND AI_CLONE \<noteq> 0 then ai_socktype a = 0 else ai_socktype a = t)) ais \<Longrightarrow>
   ga_port_loop port t n ais g = (n + int (length ais), map (with_port (port, t)) ais, g)"
  by (induction ais arbitrary: n) (auto simp: fill_in_ip split: if_splits)

lemma ga_clone_ample:
  assumes "ample g"
  shows "\<exists>g'. ga_clone ai g = (True, Some (ai\<lparr>ai_flags := 0, ai_canonname := None\<rparr>), g') \<and> ample g'"
  using assms by (simp add: ga_clone_def ample_def alloc_def Let_def)

lemma ga_port_clone:
  "list_all (\<lambda>a. ip_family (ai_family a) \<and> ai_flags a AND AI_CLONE \<noteq> 0 \<and> ai_socktype a \<noteq> 0) ais \<Longrightarrow> ample g \<Longrightarrow>
   \<exists>g'. ga_port_loop port t n ais g = (n + int (length ais),
     concat (map (\<lambda>a. [a, with_port (port, t) (a\<lparr>ai_flags := 0, ai_canonname := None\<rparr>)]) ais), g') \<and> ample g'"
proof (induction ais arbitrary: n g)
  case (Cons a ais)
  obtain g1 where 1: "ga_clone a g = (True, Some (a\<lparr>ai_flags := 0, ai_canonname := None\<rparr>), g1)" "ample g1"
    using ga_clone_ample [OF Cons(3)] by blast
  obtain g2 where "ga_port_loop port t (n + 1) ais g1 = (n + 1 + int (length ais),
     concat (map (\<lambda>a. [a, with_port (port, t) (a\<lparr>ai_flags := 0, ai_canonname := None\<rparr>)]) ais), g2)" "ample g2"
    using Cons(1) [OF _ 1(2), of "n + 1"] Cons(2) by auto
  then show ?case using Cons(2) 1 by (simp add: fill_in_ip)
qed simp

text \<open>The entries before the ports are filled in.\<close>

definition fresh :: "int \<Rightarrow> addrinfo \<Rightarrow> bool" where
  "fresh t a \<longleftrightarrow> ip_family (ai_family a) \<and> ai_socktype a = t \<and> ai_flags a = (if t = 0 then AI_CLONE else 0)"

lemma fresh_entry: "ip_family (fst fa) \<Longrightarrow> fresh (ai_socktype hints) (entry hints fa)"
  by (simp add: fresh_def entry_def new_ai_def)

lemma fresh_first:
  assumes "list_all (fresh t) ais" "t = 0 \<or> u = t"
  shows "ga_port p u ais g = (int (length ais), map (with_port (p, u)) ais, g)"
proof -
  have "list_all (\<lambda>a. ip_family (ai_family a) \<and> (if ai_flags a AND AI_CLONE \<noteq> 0 then ai_socktype a = 0 else ai_socktype a = u)) ais"
    using assms by (auto simp: list_all_iff fresh_def AI_CLONE_def)
  from ga_port_first [OF this] show ?thesis by (simp add: ga_port_def)
qed

lemma fresh_second:
  assumes "list_all (fresh 0) ais" "ample g" "v \<noteq> 0"
  shows "\<exists>g'. ga_port p u (map (with_port (q, v)) ais) g = (int (length ais), concat (map (with_ports [(q, v), (p, u)]) ais), g') \<and> ample g'"
proof -
  have "list_all (\<lambda>a. ip_family (ai_family a) \<and> ai_flags a AND AI_CLONE \<noteq> 0 \<and> ai_socktype a \<noteq> 0) (map (with_port (q, v)) ais)"
    using assms(1,3) by (auto simp: list_all_iff fresh_def with_port_def AI_CLONE_def)
  from ga_port_clone [OF this assms(2), of p u 0] obtain g' where "ga_port p u (map (with_port (q, v)) ais) g
      = (int (length ais), concat (map (\<lambda>a. [a, with_port (p, u) (a\<lparr>ai_flags := 0, ai_canonname := None\<rparr>)]) (map (with_port (q, v)) ais)), g')"
    "ample g'" by (auto simp: ga_port_def)
  moreover have "with_port (p, u) ((with_port (q, v) a)\<lparr>ai_flags := 0, ai_canonname := None\<rparr>)
      = with_port (p, u) (a\<lparr>ai_flags := 0, ai_canonname := None\<rparr>)" for a
  proof (cases "ai_addr a")
    case (Some x)
    then show ?thesis by (cases x) (simp_all add: with_port_def)
  qed (simp add: with_port_def)
  moreover have "with_ports [(q, v), (p, u)] = (\<lambda>x. [with_port (q, v) x, with_port (p, u) (x\<lparr>ai_flags := 0, ai_canonname := None\<rparr>)])"
    by (rule ext) simp
  ultimately show ?thesis by (simp add: comp_def)
qed

text \<open>The shapes of the list of ports.\<close>

lemma serv_ports_cases:
  obtains (none) "serv_ports R t serv = []"
  | (one) p u where "serv_ports R t serv = [(p, u)]" "t = 0 \<or> u = t"
  | (two) p q where "t = 0" "serv_ports R t serv = [(p, SOCK_STREAM), (q, SOCK_DGRAM)]"
proof (cases "serv \<noteq> [] \<and> isdigit_c (hd serv)")
  case True
  then show ?thesis using one [of "of_int (atoi serv)" t] two by (cases "t = 0") (simp_all add: serv_ports_def Let_def)
next
  case False
  then have s: "serv_ports R t serv = (if t = 0 \<or> t = SOCK_STREAM then serv_port R serv ''tcp'' SOCK_STREAM else [])
      @ (if t = 0 \<or> t = SOCK_DGRAM then serv_port R serv ''udp'' SOCK_DGRAM else [])"
    by (auto simp: serv_ports_def)
  have d: "SOCK_STREAM \<noteq> SOCK_DGRAM" by (simp add: SOCK_STREAM_def SOCK_DGRAM_def)
  consider (z) "t = 0" | (st) "t \<noteq> 0" "t = SOCK_STREAM" | (dg) "t \<noteq> 0" "t = SOCK_DGRAM" | (other) "t \<noteq> 0" "t \<noteq> SOCK_STREAM" "t \<noteq> SOCK_DGRAM"
    by blast
  then show ?thesis
  proof cases
    case z
    then have "serv_ports R t serv = serv_port R serv ''tcp'' SOCK_STREAM @ serv_port R serv ''udp'' SOCK_DGRAM" using s by simp
    then show ?thesis using z none one two
      by (cases "getservbyname R serv ''tcp''"; cases "getservbyname R serv ''udp''") (simp_all add: serv_port_def)
  next
    case st
    then have "serv_ports R t serv = serv_port R serv ''tcp'' SOCK_STREAM" using s d by simp
    then show ?thesis using st none one by (cases "getservbyname R serv ''tcp''") (simp_all add: serv_port_def)
  next
    case dg
    then have "serv_ports R t serv = serv_port R serv ''udp'' SOCK_DGRAM" using s d by simp
    then show ?thesis using dg none one by (cases "getservbyname R serv ''udp''") (simp_all add: serv_port_def)
  next
    case other
    then show ?thesis using s none by simp
  qed
qed

lemma ga_serv_ample:
  assumes "list_all (fresh (ai_socktype hints)) ais" "ample g" "ais \<noteq> []"
  shows "\<exists>g' ais'. ample g' \<and> ga_serv R hints serv ais g =
    (let ports = serv_ports R (ai_socktype hints) serv in
     if ports = [] then (Some (if ai_socktype hints = 0 then EAI_NONAME else EAI_SERVICE), ais', g')
     else (None, concat (map (with_ports ports) ais), g'))"
proof (cases R "ai_socktype hints" serv rule: serv_ports_cases)
  case none
  then show ?thesis using assms(2) by (auto simp: ga_serv_def)
next
  case (one p u)
  have "concat (map (with_ports [(p, u)]) ais) = map (with_port (p, u)) ais" by (induction ais) auto
  then show ?thesis using one assms fresh_first [OF assms(1) one(2), of p g] by (auto simp: ga_serv_def)
next
  case (two p q)
  obtain g' where "ga_port q SOCK_DGRAM (map (with_port (p, SOCK_STREAM)) ais) g
     = (int (length ais), concat (map (with_ports [(p, SOCK_STREAM), (q, SOCK_DGRAM)]) ais), g')" "ample g'"
    using fresh_second [of ais g SOCK_STREAM q SOCK_DGRAM p] two assms by (auto simp: SOCK_STREAM_def)
  then show ?thesis using two assms(3) fresh_first [OF assms(1), of SOCK_STREAM p g] by (auto simp: ga_serv_def)
qed

section \<open>The end\<close>

lemma put_canon_ample:
  assumes "ample g" "plain ais" "ais \<noteq> []" "canon = (if w then name else None)" "w = canon_wanted hostname hints"
  shows "\<exists>g'. ample g' \<and> put_canon hostname hints host0 ais canon g
    = (None, name_first (if w then Some (case name of None \<Rightarrow> host0 | Some x \<Rightarrow> x) else None) ais, g')"
proof -
  obtain a as where a: "ais = a # as" "ai_canonname a = None" using assms(2,3) by (cases ais) (auto simp: plain_def)
  have u: "a\<lparr>ai_canonname := None\<rparr> = a" using a(2) by (cases a) simp
  show ?thesis using assms(1,4,5) a(1) u alloc_ample [OF assms(1)]
    by (cases name) (auto simp: put_canon_def name_first_def)
qed

lemma name_first_fresh: "list_all (fresh t) ais \<Longrightarrow> list_all (fresh t) (name_first n ais)"
  by (cases ais) (auto simp: name_first_def fresh_def)

lemma ref_ip_families:
  "resolver_ok R \<Longrightarrow> ref_searches R hints n ss = Inr (as, name) \<Longrightarrow> fa \<in> set as \<Longrightarrow> ip_family (fst fa)"
proof (induction R hints n ss arbitrary: as name rule: ref_searches.induct)
  case (2 R hints n s ss)
  obtain as1 n1 where 1: "ref_search R hints n s = Inr (as1, n1)" using 2(3) by (auto split: sum.splits)
  obtain as2 n2 where r2: "ref_searches R hints n ss = Inr (as2, n2)" using 2(3) 1 by (auto split: sum.splits)
  have ip: "ip_family (fst x)" if "x \<in> set as1" for x
    using 1 2(2) that
    by (auto simp: ref_search_def ref_text_def resolver_ok_def ip_family_def split: option.splits sum.splits if_splits) metis+
  then show ?case using 2(1) [OF _ _ 2(2) r2] 2(3,4) ip [of fa] 1 r2 by (cases fa) auto
qed simp

lemma finish_ample:
  assumes "resolver_ok R" "ref_searches R hints n ss = q" "fits hints (canon_wanted hostname hints) [] None r q"
  shows "\<exists>g'. finish R hostname servname hints host0 r =
    (case q of Inl e \<Rightarrow> Inl e
      | Inr (as, name) \<Rightarrow>
          if as = [] then Inl EAI_NONAME
          else let canon = (if canon_wanted hostname hints then Some (case name of None \<Rightarrow> host0 | Some x \<Rightarrow> x) else None);
                   ais = name_first canon (map (entry hints) as)
               in if is_unset servname then Inr ais
                  else let ports = serv_ports R (ai_socktype hints) (the servname) in
                    if ports = [] then Inl (if ai_socktype hints = 0 then EAI_NONAME else EAI_SERVICE)
                    else Inr (concat (map (with_ports ports) ais)), g')"
proof (cases q)
  case (Inl e)
  then show ?thesis using assms(3) by (auto simp: fits_def finish_def Let_def)
next
  case (Inr x)
  obtain as name where x: "x = (as, name)" by fastforce
  let ?w = "canon_wanted hostname hints"
  obtain g where r: "r = (None, map (entry hints) as, later ?w None name, g)" "ample g"
    using assms(3) Inr x by (auto simp: fits_def)
  show ?thesis
  proof (cases "as = []")
    case True
    then show ?thesis using r Inr x by (auto simp: finish_def Let_def)
  next
    case False
    let ?es = "map (entry hints) as"
    have "plain ?es" by (auto simp: plain_def list_all_iff entry_def new_ai_def)
    moreover have "later ?w None name = (if ?w then name else None)" by (simp add: later_def)
    ultimately obtain g1 where p: "ample g1" "put_canon hostname hints host0 ?es (later ?w None name) g
      = (None, name_first (if ?w then Some (case name of None \<Rightarrow> host0 | Some x \<Rightarrow> x) else None) ?es, g1)"
      using put_canon_ample [OF r(2), of ?es "later ?w None name" ?w name hostname hints host0] False by auto
    let ?ais = "name_first (if ?w then Some (case name of None \<Rightarrow> host0 | Some x \<Rightarrow> x) else None) ?es"
    have "list_all (fresh (ai_socktype hints)) ?es"
      using ref_ip_families [OF assms(1), of hints n ss as name] assms(2) Inr x by (auto simp: list_all_iff intro: fresh_entry)
    then have f: "list_all (fresh (ai_socktype hints)) ?ais" by (rule name_first_fresh)
    have ne: "?ais \<noteq> []" using False by (cases as) (auto simp: name_first_def)
    obtain g2 ais' where v: "ga_serv R hints (the servname) ?ais g1 =
        (let ports = serv_ports R (ai_socktype hints) (the servname) in
         if ports = [] then (Some (if ai_socktype hints = 0 then EAI_NONAME else EAI_SERVICE), ais', g2)
         else (None, concat (map (with_ports ports) ?ais), g2))"
      using ga_serv_ample [OF f p(1) ne] by blast
    show ?thesis using r x Inr False p v by (simp add: finish_def Let_def)
  qed
qed

lemma getaddrinfo_fits:
  assumes "resolver_ok R" "allocs g = []" "\<not> unix_domain hostname servname" "ai_family hints \<noteq> AF_LOCAL"
    and "ga_echeck hostname servname (ai_flags hints) (ai_family hints) (ai_socktype hints) (ai_protocol hints) = None"
  shows "\<exists>g'. getaddrinfo R hostname servname (Some hints) g = Ret (gai_ref R hostname servname hints) g'"
proof -
  let ?ss = "ga_nsearch hostname hints"
  have fam: "ai_family hints = AF_UNSPEC \<or> ai_family hints = AF_INET \<or> ai_family hints = AF_INET6"
    using assms(4,5) by (cases "ai_family hints") (auto simp: ga_echeck_def split: if_splits)
  then have l: "length ?ss = 1 \<or> length ?ss = 2" by (auto simp: ga_nsearch_def)
  have a: "ample g" using assms(2) by (simp add: ample_def)
  note f = fits_searches [OF a assms(1), of hints hostname "[]" None "length ?ss" ?ss]
  from finish_ample [OF assms(1) refl f, of servname "fst (hd ?ss)"]
  obtain g' where "finish R hostname servname hints (fst (hd ?ss)) (searches R hostname hints (length ?ss) ?ss [] None g)
      = (gai_ref R hostname servname hints, g')" unfolding gai_ref_def Let_def by blast
  then show ?thesis using l assms(3,5) by (auto simp: getaddrinfo_def Let_def)
qed

section \<open>What the function is for\<close>

text \<open>
  The specification, without the definitions of the code: the families in the order of the result, the name
  that is looked up for each, the addresses of a name, the ports of a service, and the entries.
\<close>

definition given :: "string option \<Rightarrow> bool" where
  "given x \<longleftrightarrow> x \<noteq> None \<and> x \<noteq> Some []"

fun spec_families :: "af \<Rightarrow> af list" where
  "spec_families AF_UNSPEC = [AF_INET6, AF_INET]"
| "spec_families f = [f]"

definition spec_name :: "string option \<Rightarrow> bool \<Rightarrow> af \<Rightarrow> string" where
  "spec_name hostname passive f = (if given hostname then the hostname
     else if f = AF_INET6 then (if passive then ''0::0'' else ''0::1'')
     else (if passive then ''0.0.0.0'' else ''localhost''))"

text \<open>The address a text stands for: dotted decimal begins with a digit, an IPv6 address with a hexadecimal digit or \<open>:\<close>.\<close>

definition spec_number :: "string \<Rightarrow> (af \<times> nat list) option" where
  "spec_number h =
     (if h \<noteq> [] \<and> isdigit_c (hd h) \<and> inet_pton4 h \<noteq> None then Some (AF_INET, the (inet_pton4 h))
      else if h \<noteq> [] \<and> (isxdigit_c (hd h) \<or> hd h = CHR '':'') \<and> CHR '':'' \<in> set h \<and> inet_pton6 h \<noteq> None
      then Some (AF_INET6, the (inet_pton6 h)) else None)"

fun spec_h_error :: "h_error \<Rightarrow> eai" where
  "spec_h_error TRY_AGAIN = EAI_AGAIN"
| "spec_h_error NO_RECOVERY = EAI_FAIL"
| "spec_h_error NO_DATA = EAI_NODATA"
| "spec_h_error _ = EAI_NONAME"

text \<open>The addresses of the name \<open>h\<close> for the family \<open>f\<close>, when \<open>want\<close> is asked for, and the name the resolver gives.\<close>

definition spec_addrs :: "resolver \<Rightarrow> af \<Rightarrow> string \<Rightarrow> af \<Rightarrow> eai + (af \<times> nat list) list \<times> string option" where
  "spec_addrs R want h f =
     (case spec_number h of
        Some (g, bs) \<Rightarrow> if want \<noteq> AF_UNSPEC \<and> want \<noteq> g then Inl EAI_ADDRFAMILY
          else Inr (if f = g then [(g, bs)] else [], None)
      | None \<Rightarrow>
         (case (if want = AF_UNSPEC then gethostbyname2 R h f else gethostbyname R (f = AF_INET6) h) of
            Inl e \<Rightarrow> if want = AF_UNSPEC then Inr ([], None) else Inl (spec_h_error e)
          | Inr hp \<Rightarrow> if want \<noteq> AF_UNSPEC \<and> want \<noteq> h_addrtype hp then Inl EAI_ADDRFAMILY
              else Inr ([(h_addrtype hp, a). a \<leftarrow> h_addr_list hp], Some (h_name hp))))"

fun spec_all :: "(eai + (af \<times> nat list) list \<times> string option) list \<Rightarrow> eai + (af \<times> nat list) list \<times> string option" where
  "spec_all [] = Inr ([], None)"
| "spec_all (r # rs) = (case r of Inl e \<Rightarrow> Inl e
     | Inr (as, n) \<Rightarrow> (case spec_all rs of Inl e \<Rightarrow> Inl e | Inr (bs, m) \<Rightarrow> Inr (as @ bs, if n = None then m else n)))"

text \<open>A port by its number, or by the name of a service: the stream first.\<close>

definition spec_ports :: "resolver \<Rightarrow> int \<Rightarrow> string \<Rightarrow> (16 word \<times> int) list" where
  "spec_ports R typ serv =
     (if serv \<noteq> [] \<and> isdigit_c (hd serv)
      then [(of_int (atoi serv), t). t \<leftarrow> if typ = 0 then [SOCK_STREAM, SOCK_DGRAM] else [typ]]
      else [(the (getservbyname R serv proto), t). (proto, t) \<leftarrow> [(''tcp'', SOCK_STREAM), (''udp'', SOCK_DGRAM)],
              typ \<in> {0, t} \<and> getservbyname R serv proto \<noteq> None])"

definition spec_sockaddr :: "af \<times> nat list \<Rightarrow> 16 word \<Rightarrow> sockaddr" where
  "spec_sockaddr a port = (if fst a = AF_INET then Sin port (take 4 (snd a)) else Sin6 port (take 16 (snd a)))"

definition spec_entry :: "addrinfo \<Rightarrow> 32 word \<Rightarrow> string option \<Rightarrow> af \<times> nat list \<Rightarrow> 16 word \<times> int \<Rightarrow> addrinfo" where
  "spec_entry hints flags canon a pt = \<lparr>ai_flags = flags, ai_family = fst a, ai_socktype = snd pt, ai_protocol = ai_protocol hints,
     ai_canonname = canon, ai_addr = Some (spec_sockaddr a (fst pt))\<rparr>"

text \<open>The first entry of an address has the flag that a port is still to be filled in, and that of the list the name.\<close>

definition spec_address :: "addrinfo \<Rightarrow> (16 word \<times> int) list \<Rightarrow> string option \<Rightarrow> af \<times> nat list \<Rightarrow> addrinfo list" where
  "spec_address hints pts canon a = (case pts of [] \<Rightarrow> []
     | pt # rest \<Rightarrow> spec_entry hints (if ai_socktype hints = 0 then AI_CLONE else 0) canon a pt # [spec_entry hints 0 None a q. q \<leftarrow> rest])"

definition gai_spec :: "resolver \<Rightarrow> string option \<Rightarrow> string option \<Rightarrow> addrinfo \<Rightarrow> eai + addrinfo list" where
  "gai_spec R hostname servname hints =
     (let want = ai_family hints; typ = ai_socktype hints;
          name = spec_name hostname (ai_flags hints AND AI_PASSIVE \<noteq> 0) in
      case spec_all [spec_addrs R want (name f) f. f \<leftarrow> spec_families want] of
        Inl e \<Rightarrow> Inl e
      | Inr (as, n) \<Rightarrow>
          (let canon = (if given hostname \<and> ai_flags hints AND AI_CANONNAME \<noteq> 0 then Some (if n = None then the hostname else the n) else None);
               pts = (if given servname then spec_ports R typ (the servname) else [(0, typ)]) in
           if as = [] then Inl EAI_NONAME
           else if pts = [] then Inl (if typ = 0 then EAI_NONAME else EAI_SERVICE)
           else Inr (spec_address hints pts canon (hd as) @ concat [spec_address hints pts None a. a \<leftarrow> tl as])))"

section \<open>The two references\<close>

lemma given_unset: "is_unset x \<longleftrightarrow> \<not> given x"
  by (auto simp: is_unset_def given_def)

lemma nsearch_spec:
  assumes "ai_family hints \<in> {AF_UNSPEC, AF_INET, AF_INET6}"
  shows "ga_nsearch hostname hints
    = [(spec_name hostname (ai_flags hints AND AI_PASSIVE \<noteq> 0) f, f). f \<leftarrow> spec_families (ai_family hints)]"
  using assms by (auto simp: ga_nsearch_def given_unset spec_name_def)

lemma ref_search_spec:
  assumes "n = 2 \<longleftrightarrow> ai_family hints = AF_UNSPEC"
  shows "ref_search R hints n (h, f) = spec_addrs R (ai_family hints) h f"
proof -
  have t: "spec_number h = (case ipv4_text h of Some bs \<Rightarrow> Some (AF_INET, bs) | None \<Rightarrow> map_option (Pair AF_INET6) (ipv6_text h))"
    by (auto simp: spec_number_def ipv4_text_def ipv6_text_def starts_def)
  have e: "h_errno_eai x = spec_h_error x" for x by (cases x) simp_all
  show ?thesis using assms unfolding ref_search_def spec_addrs_def t
    by (auto simp: ref_text_def e split: option.splits sum.splits)
qed

lemma ref_searches_spec:
  assumes "n = 2 \<longleftrightarrow> ai_family hints = AF_UNSPEC"
  shows "ref_searches R hints n [(h f, f). f \<leftarrow> fs] = spec_all [spec_addrs R (ai_family hints) (h f) f. f \<leftarrow> fs]"
  by (induction fs) (auto simp: ref_search_spec [OF assms] split: sum.splits option.splits)

lemma serv_ports_spec: "serv_ports R typ serv = spec_ports R typ serv"
proof -
  have "SOCK_STREAM \<noteq> SOCK_DGRAM" by (simp add: SOCK_STREAM_def SOCK_DGRAM_def)
  then show ?thesis by (auto simp: serv_ports_def spec_ports_def serv_port_def Let_def split: option.splits)
qed

lemma entry_spec:
  assumes "ip_family (fst a)"
  shows "with_port pt ((entry hints a)\<lparr>ai_canonname := canon\<rparr>)
      = spec_entry hints (if ai_socktype hints = 0 then AI_CLONE else 0) canon a pt"
    and "with_port pt ((entry hints a)\<lparr>ai_flags := 0, ai_canonname := None\<rparr>) = spec_entry hints 0 None a pt"
    and "(entry hints a)\<lparr>ai_canonname := canon\<rparr>
      = spec_entry hints (if ai_socktype hints = 0 then AI_CLONE else 0) canon a (0, ai_socktype hints)"
  using assms by (auto simp: ip_family_def with_port_def entry_def new_ai_def ga_sockaddr_def spec_entry_def spec_sockaddr_def)

lemma with_ports_spec:
  assumes "ip_family (fst a)"
  shows "with_ports pts ((entry hints a)\<lparr>ai_canonname := canon\<rparr>) = spec_address hints pts canon a"
proof (cases pts)
  case (Cons pt rest)
  have "((entry hints a)\<lparr>ai_canonname := canon\<rparr>)\<lparr>ai_flags := 0, ai_canonname := None\<rparr> = (entry hints a)\<lparr>ai_flags := 0, ai_canonname := None\<rparr>"
    by simp
  then show ?thesis using Cons entry_spec [OF assms] by (simp add: spec_address_def)
qed (simp add: spec_address_def)

lemma entries_spec:
  assumes "\<forall>a \<in> set as. ip_family (fst a)" "as \<noteq> []"
  shows "concat (map (with_ports pts) (name_first canon (map (entry hints) as)))
      = spec_address hints pts canon (hd as) @ concat [spec_address hints pts None a. a \<leftarrow> tl as]"
    and "name_first canon (map (entry hints) as)
      = spec_address hints [(0, ai_socktype hints)] canon (hd as) @ concat [spec_address hints [(0, ai_socktype hints)] None a. a \<leftarrow> tl as]"
proof -
  obtain a as' where as: "as = a # as'" using assms(2) by (cases as) auto
  have n: "(entry hints b)\<lparr>ai_canonname := None\<rparr> = entry hints b" for b by (simp add: entry_def new_ai_def)
  have w: "with_ports pts (entry hints b) = spec_address hints pts None b" if "b \<in> set as'" for b
    using with_ports_spec [where a = b and pts = pts and hints = hints and canon = None] assms(1) that as unfolding n by simp
  have e: "entry hints b = spec_entry hints (if ai_socktype hints = 0 then AI_CLONE else 0) None b (0, ai_socktype hints)" if "b \<in> set as'" for b
    using entry_spec(3) [where a = b and hints = hints and canon = None] assms(1) that as unfolding n by simp
  have "concat (map (with_ports pts) (map (entry hints) as')) = concat [spec_address hints pts None a. a \<leftarrow> as']"
    using w by (induction as') auto
  then show "concat (map (with_ports pts) (name_first canon (map (entry hints) as)))
      = spec_address hints pts canon (hd as) @ concat [spec_address hints pts None a. a \<leftarrow> tl as]"
    using with_ports_spec [where a = a and pts = pts and hints = hints and canon = canon] assms(1) as by (simp add: name_first_def)
  have "map (entry hints) as' = concat [spec_address hints [(0, ai_socktype hints)] None a. a \<leftarrow> as']"
    using e by (induction as') (auto simp: spec_address_def)
  then show "name_first canon (map (entry hints) as)
      = spec_address hints [(0, ai_socktype hints)] canon (hd as) @ concat [spec_address hints [(0, ai_socktype hints)] None a. a \<leftarrow> tl as]"
    using entry_spec(3) [where a = a and hints = hints and canon = canon] assms(1) as by (simp add: name_first_def spec_address_def)
qed

lemma gai_ref_spec:
  assumes "resolver_ok R" "ai_family hints \<in> {AF_UNSPEC, AF_INET, AF_INET6}"
  shows "gai_ref R hostname servname hints = gai_spec R hostname servname hints"
proof -
  let ?h = "spec_name hostname (ai_flags hints AND AI_PASSIVE \<noteq> 0)" and ?fs = "spec_families (ai_family hints)"
  note ss = nsearch_spec [OF assms(2), of hostname]
  have n: "length ?fs = 2 \<longleftrightarrow> ai_family hints = AF_UNSPEC" using assms(2) by auto
  have r: "ref_searches R hints (length ?fs) [(?h f, f). f \<leftarrow> ?fs] = spec_all [spec_addrs R (ai_family hints) (?h f) f. f \<leftarrow> ?fs]"
    by (rule ref_searches_spec [OF n])
  have c: "given hostname \<Longrightarrow> fst (hd [(?h f, f). f \<leftarrow> ?fs]) = the hostname" using assms(2) by (auto simp: spec_name_def)
  show ?thesis
  proof (cases "spec_all [spec_addrs R (ai_family hints) (?h f) f. f \<leftarrow> ?fs]")
    case (Inl e)
    then show ?thesis unfolding gai_ref_def gai_spec_def ss Let_def using r by simp
  next
    case (Inr q)
    obtain as name where q: "q = (as, name)" by fastforce
    have ip: "\<forall>a \<in> set as. ip_family (fst a)" using ref_ip_families [OF assms(1) r [unfolded Inr q]] by blast
    have nm: "(case name of None \<Rightarrow> x | Some y \<Rightarrow> y) = (if name = None then x else the name)" for x by (cases name) simp_all
    show ?thesis unfolding gai_ref_def gai_spec_def ss Let_def
      using r c Inr q entries_spec [OF ip]
      by (simp add: canon_wanted_def given_unset serv_ports_spec nm)
  qed
qed

section \<open>Property\<close>

text \<open>
  C9.  \<open>getaddrinfo\<close> with hints that pass \<open>ga_echeck\<close>, whose family is not \<open>AF_LOCAL\<close>, and a call that
  is not for a Unix domain socket, when memory suffices and the resolver gives IPv4 and IPv6 addresses only,
  is its specification: the families asked for are tried in the order IPv6, IPv4, with the name given or the
  wildcard or loopback name of the family; an address given as text stands for itself, a name for all
  addresses the resolver has, in its order; each address has an entry for each port of the service, stream
  before datagram; the errors are those of the specification, and a family without an answer
  is passed over when both are asked for.
\<close>

theorem getaddrinfo_reference:
  assumes "resolver_ok R" "allocs g = []" "\<not> unix_domain hostname servname" "ai_family hints \<noteq> AF_LOCAL"
    and "ga_echeck hostname servname (ai_flags hints) (ai_family hints) (ai_socktype hints) (ai_protocol hints) = None"
  shows "\<exists>g'. getaddrinfo R hostname servname (Some hints) g = Ret (gai_spec R hostname servname hints) g'"
proof -
  have "ai_family hints \<in> {AF_UNSPEC, AF_INET, AF_INET6}"
    using assms(4,5) by (cases "ai_family hints") (auto simp: ga_echeck_def split: if_splits)
  then show ?thesis using getaddrinfo_fits [OF assms] gai_ref_spec [OF assms(1)] by simp
qed

theorem getaddrinfo_reference_witness:
  "\<exists>g'. getaddrinfo \<lparr>gethostbyname = \<lambda>_ _. Inl HOST_NOT_FOUND,
        gethostbyname2 = \<lambda>h f. if f = AF_INET then Inr \<lparr>h_name = ''a.b'', h_addrtype = AF_INET, h_addr_list = [[10, 0, 0, 1], [10, 0, 0, 2]]\<rparr> else Inl HOST_NOT_FOUND,
        getservbyname = \<lambda>s p. Some 13, nodename = None\<rparr>
      (Some ''a'') (Some ''daytime'') (Some no_hints) \<lparr>allocs = [], live = 0, use_inet6 = True, unlinked = []\<rparr>
    = Ret (Inr [\<lparr>ai_flags = AI_CLONE, ai_family = AF_INET, ai_socktype = 1, ai_protocol = 0, ai_canonname = None, ai_addr = Some (Sin 13 [10, 0, 0, 1])\<rparr>,
        \<lparr>ai_flags = 0, ai_family = AF_INET, ai_socktype = 2, ai_protocol = 0, ai_canonname = None, ai_addr = Some (Sin 13 [10, 0, 0, 1])\<rparr>,
        \<lparr>ai_flags = AI_CLONE, ai_family = AF_INET, ai_socktype = 1, ai_protocol = 0, ai_canonname = None, ai_addr = Some (Sin 13 [10, 0, 0, 2])\<rparr>,
        \<lparr>ai_flags = 0, ai_family = AF_INET, ai_socktype = 2, ai_protocol = 0, ai_canonname = None, ai_addr = Some (Sin 13 [10, 0, 0, 2])\<rparr>]) g'"
proof -
  let ?R = "\<lparr>gethostbyname = \<lambda>_ _. Inl HOST_NOT_FOUND,
        gethostbyname2 = \<lambda>h f. if f = AF_INET then Inr \<lparr>h_name = ''a.b'', h_addrtype = AF_INET, h_addr_list = [[10, 0, 0, 1], [10, 0, 0, 2]]\<rparr> else Inl HOST_NOT_FOUND,
        getservbyname = \<lambda>s p. Some 13, nodename = None\<rparr>"
  have t: "spec_number ''a'' = None" by (simp add: spec_number_def isdigit_c_def)
  have "gai_spec ?R (Some ''a'') (Some ''daytime'') no_hints
    = Inr [\<lparr>ai_flags = AI_CLONE, ai_family = AF_INET, ai_socktype = 1, ai_protocol = 0, ai_canonname = None, ai_addr = Some (Sin 13 [10, 0, 0, 1])\<rparr>,
        \<lparr>ai_flags = 0, ai_family = AF_INET, ai_socktype = 2, ai_protocol = 0, ai_canonname = None, ai_addr = Some (Sin 13 [10, 0, 0, 1])\<rparr>,
        \<lparr>ai_flags = AI_CLONE, ai_family = AF_INET, ai_socktype = 1, ai_protocol = 0, ai_canonname = None, ai_addr = Some (Sin 13 [10, 0, 0, 2])\<rparr>,
        \<lparr>ai_flags = 0, ai_family = AF_INET, ai_socktype = 2, ai_protocol = 0, ai_canonname = None, ai_addr = Some (Sin 13 [10, 0, 0, 2])\<rparr>]"
    by (simp add: gai_spec_def Let_def no_hints_def given_def spec_name_def spec_addrs_def t spec_ports_def isdigit_c_def
        spec_address_def spec_entry_def spec_sockaddr_def SOCK_STREAM_def SOCK_DGRAM_def)
  then show ?thesis
    using getaddrinfo_reference [of ?R "\<lparr>allocs = [], live = 0, use_inet6 = True, unlinked = []\<rparr>" "Some ''a''" "Some ''daytime''" no_hints]
    by (auto simp: resolver_ok_def ip_family_def unix_domain_def ga_echeck_def is_unset_def no_hints_def split: if_splits)
qed

end
