(* ===== verification/Gni.thy ===== *)
theory Gni
  imports Gai
begin

text \<open>
  \<open>getnameinfo\<close> and \<open>gai_strerror\<close> of \<open>unpv13e/libgai\<close>.  What is stored in the two buffers, null byte
  included, is \<open>None\<close> for a buffer that is not written.  The host and service databases are arguments.
\<close>

definition NI_NOFQDN :: "32 word" where "NI_NOFQDN = 1"
definition NI_NUMERICHOST :: "32 word" where "NI_NUMERICHOST = 2"
definition NI_NAMEREQD :: "32 word" where "NI_NAMEREQD = 4"
definition NI_NUMERICSERV :: "32 word" where "NI_NUMERICSERV = 8"
definition NI_DGRAM :: "32 word" where "NI_DGRAM = 16"

record namedb =
  gethostbyaddr :: "nat list \<Rightarrow> af \<Rightarrow> string option"
  getservbyport :: "16 word \<Rightarrow> string option \<Rightarrow> string option"

text \<open>\<open>snprintf\<close> into a buffer of \<open>n\<close> bytes, \<open>0 < n\<close>.\<close>

definition snprintf_s :: "nat \<Rightarrow> string \<Rightarrow> string" where
  "snprintf_s n s = take (n - 1) s @ [NUL]"

definition gn_ntop :: "af \<Rightarrow> nat list \<Rightarrow> nat \<Rightarrow> string option" where
  "gn_ntop family aptr n = (case (case family of AF_INET \<Rightarrow> inet_ntop4 aptr n | AF_INET6 \<Rightarrow> inet_ntop6 aptr n | _ \<Rightarrow> Inl EAFNOSUPPORT) of
     Inl e \<Rightarrow> None | Inr out \<Rightarrow> Some out)"

text \<open>The host part: \<open>None\<close> if the function returns 1, otherwise what it stored.\<close>

definition gn_host :: "namedb \<Rightarrow> nat \<Rightarrow> nat list \<Rightarrow> af \<Rightarrow> 32 word \<Rightarrow> string option option" where
  "gn_host D hostlen aptr family flags =
     (if 0 < hostlen then
        if flags AND NI_NUMERICHOST \<noteq> 0 then map_option Some (gn_ntop family aptr hostlen)
        else (case gethostbyaddr D aptr family of
            Some name \<Rightarrow>
              let name = (if flags AND NI_NOFQDN \<noteq> 0 then takeWhile (\<lambda>c. c \<noteq> CHR ''.'') name else name)
              in Some (Some (snprintf_s hostlen name))
          | None \<Rightarrow> if flags AND NI_NAMEREQD \<noteq> 0 then None else map_option Some (gn_ntop family aptr hostlen))
      else Some None)"

definition gn_serv :: "namedb \<Rightarrow> nat \<Rightarrow> 16 word \<Rightarrow> 32 word \<Rightarrow> string option" where
  "gn_serv D servlen port flags =
     (if 0 < servlen then
        if flags AND NI_NUMERICSERV \<noteq> 0 then Some (snprintf_s servlen (fmt_d (uint port)))
        else (case getservbyport D port (if flags AND NI_DGRAM \<noteq> 0 then Some ''udp'' else None) of
            Some name \<Rightarrow> Some (snprintf_s servlen name)
          | None \<Rightarrow> Some (snprintf_s servlen (fmt_d (uint port))))
      else None)"

definition gn_ipv46 :: "namedb \<Rightarrow> nat \<Rightarrow> nat \<Rightarrow> nat list \<Rightarrow> af \<Rightarrow> 16 word \<Rightarrow> 32 word \<Rightarrow> int \<times> string option \<times> string option" where
  "gn_ipv46 D hostlen servlen aptr family port flags =
     (case gn_host D hostlen aptr family flags of
        None \<Rightarrow> (1, None, None)
      | Some host \<Rightarrow> (0, host, gn_serv D servlen port flags))"

text \<open>The socket address is one of the three kinds, so the default branch does not occur.\<close>

fun getnameinfo :: "namedb \<Rightarrow> sockaddr \<Rightarrow> nat \<Rightarrow> nat \<Rightarrow> 32 word \<Rightarrow> int \<times> string option \<times> string option" where
  "getnameinfo D (Sin port addr) hostlen servlen flags = gn_ipv46 D hostlen servlen addr AF_INET port flags"
| "getnameinfo D (Sin6 port addr) hostlen servlen flags = gn_ipv46 D hostlen servlen addr AF_INET6 port flags"
| "getnameinfo D (Sun path) hostlen servlen flags =
     (0, if 0 < hostlen then Some (snprintf_s hostlen ''/local'') else None,
      if 0 < servlen then Some (snprintf_s servlen path) else None)"

fun gai_strerror :: "eai option \<Rightarrow> string" where
  "gai_strerror (Some EAI_ADDRFAMILY) = ''address family for host not supported''"
| "gai_strerror (Some EAI_AGAIN) = ''temporary failure in name resolution''"
| "gai_strerror (Some EAI_BADFLAGS) = ''invalid flags value''"
| "gai_strerror (Some EAI_FAIL) = ''non-recoverable failure in name resolution''"
| "gai_strerror (Some EAI_FAMILY) = ''address family not supported''"
| "gai_strerror (Some EAI_MEMORY) = ''memory allocation failure''"
| "gai_strerror (Some EAI_NODATA) = ''no address associated with host''"
| "gai_strerror (Some EAI_NONAME) = ''host nor service provided, or not known''"
| "gai_strerror (Some EAI_SERVICE) = ''service not supported for socket type''"
| "gai_strerror (Some EAI_SOCKTYPE) = ''socket type not supported''"
| "gai_strerror (Some EAI_SYSTEM) = ''system error''"
| "gai_strerror None = ''unknown getaddrinfo() error''"

end
