(* ===== verification/Gai_Round.thy ===== *)
theory Gai_Round
  imports Gai_Ref Gni
begin

text \<open>
  Address and port to text and back: \<open>getnameinfo\<close> with numbers, then \<open>getaddrinfo\<close> on the two texts.
\<close>

section \<open>What text the two conversions accept\<close>

lemma pton4_starts: "inet_pton4 s = Some a \<Longrightarrow> starts isdigit_c s"
  by (cases s) (auto simp: inet_pton4_def starts_def split: if_splits)

lemma pton4_loop_chars: "pton4_loop s tmp saw oct = Some a \<Longrightarrow> c \<in> set s \<Longrightarrow> isdigit_c c \<or> c = CHR ''.''"
  by (induction s tmp saw oct rule: pton4_loop.induct) (auto simp: Let_def split: if_splits)

lemma pton4_no_colon: "CHR '':'' \<in> set s \<Longrightarrow> inet_pton4 s = None"
  using pton4_loop_chars [of s "[0]" False 0 _ "CHR '':''"] by (cases "inet_pton4 s") (auto simp: inet_pton4_def)

lemma pton6_loop_no_colon:
  "pton6_loop s tmp tp None cur saw val = Some (tmp', tp', colonp', saw', val') \<Longrightarrow> CHR '':'' \<notin> set s \<Longrightarrow>
   colonp' = None \<and> tp' \<le> tp + 4"
  by (induction s arbitrary: saw val) (auto split: option.splits if_splits)

lemma xdigit_isxdigit: "xdigit c = Some d \<Longrightarrow> isxdigit_c c"
  by (auto simp: xdigit_def xdigits_l_def xdigits_u_def isxdigit_c_def NUL_def split: option.splits if_splits)

lemma pton6_colon:
  assumes "inet_pton6 s = Some bs"
  shows "CHR '':'' \<in> set s"
proof (rule ccontr)
  assume n: "CHR '':'' \<notin> set s"
  have e: "pton6_end (pton6_loop s (replicate 16 0) 0 None s False 0) = Some bs"
    using assms n by (cases s) (auto simp: inet_pton6_def Let_def simp del: pton6_loop.simps)
  then obtain tmp tp colonp saw val where l: "pton6_loop s (replicate 16 0) 0 None s False 0 = Some (tmp, tp, colonp, saw, val)"
    by (auto simp: pton6_end_def split: option.splits)
  show False using e l pton6_loop_no_colon [OF l n] by (auto simp: pton6_end_def Let_def split: if_splits)
qed

lemma pton6_starts:
  assumes "inet_pton6 s = Some bs"
  shows "starts (\<lambda>c. isxdigit_c c \<or> c = CHR '':'') s"
proof (cases s)
  case Nil
  then show ?thesis using assms pton6_colon by fastforce
next
  case (Cons c r)
  show ?thesis
  proof (cases "c = CHR '':''")
    case False
    have "pton6_end (pton6_loop (c # r) (replicate 16 0) 0 None s False 0) = Some bs"
      using assms Cons False by (auto simp: inet_pton6_def Let_def simp del: pton6_loop.simps)
    then show ?thesis using Cons False xdigit_isxdigit
      by (auto simp: starts_def inet_pton4_def pton6_end_def split: option.splits if_splits)
  qed (simp add: Cons starts_def)
qed

lemma ipv4_text_pton: "inet_pton4 s = Some a \<Longrightarrow> ipv4_text s = Some a"
  by (simp add: ipv4_text_def pton4_starts)

lemma ipv6_text_pton: "inet_pton6 s = Some a \<Longrightarrow> ipv4_text s = None \<and> ipv6_text s = Some a"
  using pton4_no_colon [OF pton6_colon] by (simp add: ipv4_text_def ipv6_text_def pton6_starts pton6_colon)

section \<open>Numbers as service names\<close>

lemma dec_starts: "starts isdigit_c (dec n)"
proof -
  obtain c cs where d: "dec n = c # cs" by (cases "dec n") auto
  then show ?thesis using dec_digits [of c n] by (simp add: starts_def)
qed

lemma serv_ports_dec:
  "serv_ports R t (dec (unat p)) = (if t \<noteq> 0 then [(p, t)] else [(p, SOCK_STREAM), (p, SOCK_DGRAM)])"
proof -
  have "unat p < 2 ^ LENGTH(16)" by (rule unsigned_less)
  then have "unat p < 2147483648" by simp
  then have "of_int (atoi (dec (unat p))) = p" by (simp add: atoi_dec)
  then show ?thesis using dec_starts [of "unat p"] by (simp add: serv_ports_def starts_def Let_def)
qed

lemma gn_serv_numeric:
  assumes "6 \<le> n" "flags AND NI_NUMERICSERV \<noteq> 0"
  shows "gn_serv D n p flags = Some (dec (unat p) @ [NUL])"
proof -
  have "unat p < 2 ^ LENGTH(16)" by (rule unsigned_less)
  then have "length (dec (unat p)) \<le> 5" by (intro length_dec_le) simp_all
  moreover have "fmt_d (uint p) = dec (unat p)" by (metis fmt_d_nat uint_nat)
  ultimately show ?thesis using assms by (simp add: gn_serv_def snprintf_s_def)
qed

lemma cstr_dec: "cstr (dec n @ [NUL]) = dec n"
  using dec_digits [of NUL n] by (intro cstr_append_NUL) (auto simp: isdigit_c_def NUL_def)

section \<open>One address as text\<close>

definition want :: "int \<Rightarrow> addrinfo" where
  "want t = no_hints\<lparr>ai_socktype := t\<rparr>"

lemma gai_text:
  assumes h: "ipv4_text h = Some bs \<and> f = AF_INET \<or> ipv4_text h = None \<and> ipv6_text h = Some bs \<and> f = AF_INET6" "h \<noteq> []"
  shows "gai_ref R (Some h) (Some (dec (unat p))) (want t)
    = Inr (with_ports (if t \<noteq> 0 then [(p, t)] else [(p, SOCK_STREAM), (p, SOCK_DGRAM)]) (entry (want t) (f, bs)))"
proof -
  have ns: "ga_nsearch (Some h) (want t) = [(h, AF_INET6), (h, AF_INET)]" using h(2) by (simp add: ga_nsearch_def is_unset_def want_def no_hints_def)
  have r: "ref_searches R (want t) 2 [(h, AF_INET6), (h, AF_INET)] = Inr ([(f, bs)], None)"
    using h(1) by (auto simp: ref_search_def ref_text_def want_def no_hints_def)
  have c: "\<not> canon_wanted (Some h) (want t)" by (simp add: canon_wanted_def want_def no_hints_def)
  have st: "ai_socktype (want t) = t" by (simp add: want_def)
  have u: "\<not> is_unset (Some (dec (unat p)))" by (simp add: is_unset_def)
  have "entry (want t) (f, bs)\<lparr>ai_canonname := None\<rparr> = entry (want t) (f, bs)" by (simp add: entry_def new_ai_def)
  then have n: "name_first None [entry (want t) (f, bs)] = [entry (want t) (f, bs)]" by (simp add: name_first_def)
  have ref: "gai_ref R (Some h) (Some (dec (unat p))) (want t)
      = Inr (concat (map (with_ports (serv_ports R t (dec (unat p)))) (name_first None [entry (want t) (f, bs)])))"
    using r c u by (simp add: gai_ref_def ns Let_def st serv_ports_dec numeral_2_eq_2)
  show ?thesis unfolding ref n serv_ports_dec by simp
qed

section \<open>Properties\<close>

text \<open>
  C10.  The numeric texts \<open>getnameinfo\<close> stores for an IPv4 or IPv6 socket address, given back to
  \<open>getaddrinfo\<close>, yield that socket address and no other, port included: one entry for the socket
  type asked for, or one for a stream and one for a datagram socket.
\<close>

theorem address_text_roundtrip:
  assumes "(\<exists>bs. sa = Sin p bs \<and> v4_bytes bs) \<or> (\<exists>bs. sa = Sin6 p bs \<and> v6_bytes bs)"
    and "46 \<le> hostlen" "6 \<le> servlen" "resolver_ok R" "allocs g = []" "t = 0 \<or> t = SOCK_STREAM \<or> t = SOCK_DGRAM"
  shows "\<exists>host serv ais g'. getnameinfo D sa hostlen servlen (NI_NUMERICHOST OR NI_NUMERICSERV) = (0, Some host, Some serv)
    \<and> getaddrinfo R (Some (cstr host)) (Some (cstr serv)) (Some (want t)) g = Ret (Inr ais) g'
    \<and> map ai_addr ais = replicate (length ais) (Some sa)
    \<and> map ai_socktype ais = (if t = 0 then [SOCK_STREAM, SOCK_DGRAM] else [t])"
proof -
  have flags: "(NI_NUMERICHOST OR NI_NUMERICSERV) AND NI_NUMERICHOST \<noteq> 0" "(NI_NUMERICHOST OR NI_NUMERICSERV) AND NI_NUMERICSERV \<noteq> 0"
    by (simp_all add: NI_NUMERICHOST_def NI_NUMERICSERV_def)
  note serv = gn_serv_numeric [OF assms(3) flags(2), of D p]
  obtain f bs host where f: "getnameinfo D sa hostlen servlen (NI_NUMERICHOST OR NI_NUMERICSERV) = (0, Some host, Some (dec (unat p) @ [NUL]))"
    "ipv4_text (cstr host) = Some bs \<and> f = AF_INET \<or> ipv4_text (cstr host) = None \<and> ipv6_text (cstr host) = Some bs \<and> f = AF_INET6"
    "cstr host \<noteq> []" "set_port p (ga_sockaddr bs f) = sa"
  proof -
    from assms(1) show ?thesis
    proof
      assume "\<exists>bs. sa = Sin p bs \<and> v4_bytes bs"
      then obtain bs where b: "sa = Sin p bs" "v4_bytes bs" by blast
      obtain out where o: "inet_ntop4 bs hostlen = Inr out" "cstr out = v4_text bs" using ntop4_text [OF b(2), of hostlen] assms(2) by auto
      have "inet_pton4 (cstr out) = Some bs" using pton4_text_rest [OF b(2)] o(2) by simp
      then show ?thesis using that [of out bs AF_INET] b o serv assms(2) flags ipv4_text_pton pton4_starts
        by (auto simp: gn_ipv46_def gn_host_def gn_ntop_def ga_sockaddr_def v4_bytes_def starts_def)
    next
      assume "\<exists>bs. sa = Sin6 p bs \<and> v6_bytes bs"
      then obtain bs where b: "sa = Sin6 p bs" "v6_bytes bs" by blast
      obtain out where o: "inet_ntop6 bs hostlen = Inr out" "inet_pton6 (cstr out) = Some bs" using v6_roundtrip [OF b(2) assms(2)] by blast
      then show ?thesis using that [of out bs AF_INET6] b serv assms(2) flags ipv6_text_pton [OF o(2)] pton6_starts [OF o(2)]
        by (auto simp: gn_ipv46_def gn_host_def gn_ntop_def ga_sockaddr_def v6_bytes_def starts_def)
    qed
  qed
  let ?s = "dec (unat p)"
  have fa: "ip_family f" using f(2) by (auto simp: ip_family_def)
  have e: "ga_echeck (Some (cstr host)) (Some ?s) (ai_flags (want t)) (ai_family (want t)) (ai_socktype (want t)) (ai_protocol (want t)) = None"
    using f(3) by (simp add: ga_echeck_def want_def no_hints_def is_unset_def)
  have "\<not> isdigit_c CHR ''/''" by (simp add: isdigit_c_def)
  then have u: "\<not> unix_domain (Some (cstr host)) (Some ?s)"
    using dec_starts [of "unat p"] by (auto simp: unix_domain_def starts_def)
  obtain g' where g: "getaddrinfo R (Some (cstr host)) (Some ?s) (Some (want t)) g = Ret (gai_ref R (Some (cstr host)) (Some ?s) (want t)) g'"
    using getaddrinfo_fits [OF assms(4,5) u _ e] by (auto simp: want_def no_hints_def)
  have d: "SOCK_STREAM \<noteq> SOCK_DGRAM" "SOCK_STREAM \<noteq> 0" "SOCK_DGRAM \<noteq> 0" by (simp_all add: SOCK_STREAM_def SOCK_DGRAM_def)
  show ?thesis
    using f(1,4) g gai_text [OF f(2,3), of R p t] assms(6) d
    by (auto simp: cstr_dec with_port_def entry_def)
qed

theorem address_text_roundtrip_witness:
  "\<exists>host serv ais g'. getnameinfo \<lparr>gethostbyaddr = \<lambda>_ _. None, getservbyport = \<lambda>_ _. None\<rparr> (Sin 80 [192, 168, 0, 1]) 46 6
        (NI_NUMERICHOST OR NI_NUMERICSERV) = (0, Some host, Some serv)
    \<and> getaddrinfo \<lparr>gethostbyname = \<lambda>_ _. Inl HOST_NOT_FOUND, gethostbyname2 = \<lambda>_ _. Inl HOST_NOT_FOUND,
        getservbyname = \<lambda>_ _. None, nodename = None\<rparr> (Some (cstr host)) (Some (cstr serv)) (Some (want 0))
        \<lparr>allocs = [], live = 0, use_inet6 = False, unlinked = []\<rparr> = Ret (Inr ais) g'
    \<and> map ai_socktype ais = [SOCK_STREAM, SOCK_DGRAM]"
  using address_text_roundtrip [of "Sin 80 [192, 168, 0, 1]" 80 46 6
      "\<lparr>gethostbyname = \<lambda>_ _. Inl HOST_NOT_FOUND, gethostbyname2 = \<lambda>_ _. Inl HOST_NOT_FOUND, getservbyname = \<lambda>_ _. None, nodename = None\<rparr>"
      "\<lparr>allocs = [], live = 0, use_inet6 = False, unlinked = []\<rparr>" 0 "\<lparr>gethostbyaddr = \<lambda>_ _. None, getservbyport = \<lambda>_ _. None\<rparr>"]
  by (fastforce simp: v4_bytes_def resolver_ok_def)

text \<open>
  Asked for a Unix domain address of a host that is not \<open>/local\<close> or \<open>/unix\<close>, or of a service that is
  no path, the function does not return an error: there is nothing to search, and \<open>err_quit\<close> ends
  the process of the caller.
\<close>

theorem getaddrinfo_local_quits:
  assumes "ai_family hints = AF_LOCAL" "ai_flags hints = 0" "ai_socktype hints \<in> {0, SOCK_STREAM, SOCK_DGRAM}"
    and "\<not> unix_domain hostname servname" "\<not> is_unset hostname \<or> \<not> is_unset servname"
  shows "getaddrinfo R hostname servname (Some hints) g = Abort (Err_quit ''nsearch = %d'') g"
proof -
  have "ga_echeck hostname servname 0 AF_LOCAL (ai_socktype hints) (ai_protocol hints) = None"
    using assms(3,5) by (auto simp: ga_echeck_def)
  then show ?thesis using assms(1,2,4) by (auto simp: getaddrinfo_def ga_nsearch_def Let_def)
qed

theorem getaddrinfo_local_quits_witness:
  "\<forall>R g. getaddrinfo R (Some ''localhost'') (Some ''http'') (Some (no_hints\<lparr>ai_family := AF_LOCAL\<rparr>)) g = Abort (Err_quit ''nsearch = %d'') g"
  using getaddrinfo_local_quits [of "no_hints\<lparr>ai_family := AF_LOCAL\<rparr>" "Some ''localhost''" "Some ''http''"]
  by (simp add: no_hints_def unix_domain_def is_unset_def)

end
