(* ===== verification/Free_Gai.thy ===== *)
theory Free_Gai
  imports Gai_Round
begin

text \<open>
  The first version of \<open>getaddrinfo\<close>, \<open>unpv13e/libfree/getaddrinfo.c\<close>, compiled with IPv4, IPv6 and
  Unix domain and without the reentrant functions, and how far it agrees with the one of \<open>libgai\<close>.
  Types, the resolver and the state are those of \<open>Gai\<close>; \<open>getaddrinfo_port\<close>, \<open>getaddrinfo_clone\<close> and
  \<open>freeaddrinfo\<close> have the same text as \<open>ga_port\<close>, \<open>ga_clone\<close> and \<open>freeaddrinfo\<close> there.
\<close>

section \<open>The host\<close>

definition HENTBUFSIZ :: nat where "HENTBUFSIZ = 8 * 1024"

text \<open>A \<open>hostent\<close> made up for an address in text form.\<close>

definition text_hostent :: "string \<Rightarrow> af \<Rightarrow> nat list \<Rightarrow> hostent" where
  "text_hostent host family bs = \<lparr>h_name = take (HENTBUFSIZ - 1) host, h_addrtype = family, h_addr_list = [bs]\<rparr>"

definition getaddrinfo_host :: "resolver \<Rightarrow> string \<Rightarrow> af \<Rightarrow> gst \<Rightarrow> (eai + hostent) \<times> gst" where
  "getaddrinfo_host R host family g =
     (case (if starts isdigit_c host then inet_pton4 host else None) of
        Some bs \<Rightarrow> (Inr (text_hostent host AF_INET bs), g)
      | None \<Rightarrow>
         (case (if starts (\<lambda>c. isxdigit_c c \<or> c = CHR '':'') host then inet_pton6 host else None) of
            Some bs \<Rightarrow> (Inr (text_hostent host AF_INET6 bs), g)
          | None \<Rightarrow>
             let g = (if family = AF_INET6 then g\<lparr>use_inet6 := True\<rparr> else g) in
               (case gethostbyname R (use_inet6 g) host of
                  Inl he \<Rightarrow> (Inl (h_errno_eai he), g)
                | Inr hp \<Rightarrow> (Inr hp, g))))"

section \<open>The service\<close>

definition getaddrinfo_port :: "16 word \<Rightarrow> int \<Rightarrow> addrinfo list \<Rightarrow> gst \<Rightarrow> int \<times> addrinfo list \<times> gst" where
  "getaddrinfo_port port socktype ais g = ga_port_loop port socktype 0 ais g"

definition numeric_port :: "addrinfo \<Rightarrow> string \<Rightarrow> addrinfo list \<Rightarrow> gst \<Rightarrow> eai option \<times> addrinfo list \<times> gst" where
  "numeric_port hints serv ais g =
     (case getaddrinfo_port (of_int (atoi serv)) (ai_socktype hints) ais g of (rc, ais, g) \<Rightarrow>
        (if rc = 0 then Some EAI_NONAME else if rc < 0 then Some EAI_MEMORY else None, ais, g))"

text \<open>One protocol: nothing if the service is not known for it.\<close>

definition try_proto :: "resolver \<Rightarrow> addrinfo \<Rightarrow> string \<Rightarrow> string \<Rightarrow> int \<Rightarrow> addrinfo list \<Rightarrow> gst \<Rightarrow> (eai + int) \<times> addrinfo list \<times> gst" where
  "try_proto R hints serv proto socktype ais g =
     (if ai_socktype hints = 0 \<or> ai_socktype hints = socktype then
        (case getservbyname R serv proto of
           None \<Rightarrow> (Inr 0, ais, g)
         | Some port \<Rightarrow> (case getaddrinfo_port port socktype ais g of (rc, ais, g) \<Rightarrow>
             (if rc < 0 then Inl EAI_MEMORY else Inr rc, ais, g)))
      else (Inr 0, ais, g))"

definition getaddrinfo_serv :: "resolver \<Rightarrow> addrinfo \<Rightarrow> string \<Rightarrow> addrinfo list \<Rightarrow> gst \<Rightarrow> eai option \<times> addrinfo list \<times> gst" where
  "getaddrinfo_serv R hints serv ais g =
     (if starts isdigit_c serv \<and> ai_socktype hints \<noteq> 0 then numeric_port hints serv ais g
      else (case try_proto R hints serv ''tcp'' SOCK_STREAM ais g of
          (Inl e, ais, g) \<Rightarrow> (Some e, ais, g)
        | (Inr n1, ais, g) \<Rightarrow>
            (case try_proto R hints serv ''udp'' SOCK_DGRAM ais g of
               (Inl e, ais, g) \<Rightarrow> (Some e, ais, g)
             | (Inr n2, ais, g) \<Rightarrow>
                 (if n1 + n2 = 0 then (if ai_socktype hints = 0 then Some EAI_NONAME else Some EAI_SERVICE) else None, ais, g))))"

section \<open>Unix domain\<close>

text \<open>
  The result code, 0 being \<open>None\<close>, and the list if \<open>result\<close> was set.  When the first allocation fails
  the function returns \<open>NULL\<close>, which is 0.  \<open>strncpy\<close> leaves a path of \<open>SUN_PATH\<close> bytes and more
  without a null byte.
\<close>

definition addrinfo_local :: "string \<Rightarrow> addrinfo \<Rightarrow> gst \<Rightarrow> (eai option \<times> addrinfo list option) \<times> gst" where
  "addrinfo_local path hints g =
     (if ai_socktype hints = 0 then ((Some EAI_SOCKTYPE, None), g)
      else (case alloc g of (ok, g) \<Rightarrow>
        if \<not> ok then ((None, None), g)
        else (case alloc g of (ok, g) \<Rightarrow>
          if \<not> ok then ((Some EAI_MEMORY, None), g)
          else ((None, Some [\<lparr>ai_flags = 0, ai_family = AF_LOCAL, ai_socktype = ai_socktype hints, ai_protocol = 0,
                   ai_canonname = None, ai_addr = Some (Sun (take SUN_PATH path))\<rparr>]),
                if ai_flags hints AND AI_PASSIVE \<noteq> 0 then g\<lparr>unlinked := unlinked g @ [path]\<rparr> else g))))"

section \<open>getaddrinfo\<close>

definition family_check :: "addrinfo \<Rightarrow> eai option" where
  "family_check hints = (case ai_family hints of
       AF_UNSPEC \<Rightarrow> None
     | AF_INET \<Rightarrow> if ai_socktype hints \<noteq> 0 \<and> (ai_socktype hints \<noteq> SOCK_STREAM \<and> ai_socktype hints \<noteq> SOCK_DGRAM \<and> ai_socktype hints \<noteq> SOCK_RAW)
         then Some EAI_SOCKTYPE else None
     | AF_INET6 \<Rightarrow> if ai_socktype hints \<noteq> 0 \<and> (ai_socktype hints \<noteq> SOCK_STREAM \<and> ai_socktype hints \<noteq> SOCK_DGRAM \<and> ai_socktype hints \<noteq> SOCK_RAW)
         then Some EAI_SOCKTYPE else None
     | AF_LOCAL \<Rightarrow> if ai_socktype hints \<noteq> 0 \<and> (ai_socktype hints \<noteq> SOCK_STREAM \<and> ai_socktype hints \<noteq> SOCK_DGRAM)
         then Some EAI_SOCKTYPE else None
     | AF_UNKNOWN n \<Rightarrow> Some EAI_FAMILY)"

definition is_path :: "string option \<Rightarrow> bool" where
  "is_path s \<longleftrightarrow> s \<noteq> None \<and> starts (\<lambda>c. c = CHR ''/'') (the s)"

text \<open>The host to look up and the hints, after the defaults; the error if there is none.\<close>

definition default_host :: "string option \<Rightarrow> string option \<Rightarrow> addrinfo \<Rightarrow> eai + string option \<times> addrinfo" where
  "default_host host serv hints =
     (if is_unset host then
        if is_unset serv then Inl EAI_NONAME
        else if ai_flags hints AND AI_PASSIVE \<noteq> 0 then
          (case ai_family hints of
             AF_INET \<Rightarrow> Inr (Some ''0.0.0.0'', hints)
           | AF_INET6 \<Rightarrow> Inr (Some ''0::0'', hints)
           | AF_LOCAL \<Rightarrow> if \<not> is_path serv then Inl EAI_ADDRFAMILY else Inr (host, hints)
           | AF_UNSPEC \<Rightarrow> Inl EAI_ADDRFAMILY
           | AF_UNKNOWN n \<Rightarrow> Inr (host, hints))
        else Inr (Some ''localhost'', hints)
      else if ai_family hints = AF_UNSPEC then
        Inr (host, if inet_pton6 (the host) \<noteq> None then hints\<lparr>ai_family := AF_INET6\<rparr>
                   else if inet_pton4 (the host) \<noteq> None then hints\<lparr>ai_family := AF_INET\<rparr> else hints)
      else Inr (host, hints))"

text \<open>
  One entry for each address, then the canonical name: \<open>h_name\<close> of the host is never null here.
  Without any address the first entry is a null pointer.
\<close>

definition first_name :: "addrinfo \<Rightarrow> string \<Rightarrow> addrinfo list \<Rightarrow> gst \<Rightarrow> (gst, eai option \<times> addrinfo list) outcome" where
  "first_name hints name ais g =
     (if ai_flags hints AND AI_CANONNAME \<noteq> 0 then
        (case alloc g of (ok, g) \<Rightarrow>
           if ais = [] then Abort Undefined g
           else if ok then Ret (None, (hd ais)\<lparr>ai_canonname := Some name\<rparr> # tl ais) g
           else Ret (Some EAI_MEMORY, ais) g)
      else Ret (None, ais) g)"

text \<open>
  \<open>bad\<close> frees the list at \<open>aihead\<close>, which is not initialised before the first entry is built: an
  error up to there has no defined behaviour.
\<close>

definition build :: "resolver \<Rightarrow> string option \<Rightarrow> addrinfo \<Rightarrow> hostent \<Rightarrow> (gst, eai option \<times> addrinfo list option) prog" where
  "build R serv hints hp g =
     (let bad = (\<lambda>e ais g. Ret (Some e, None) (freeaddrinfo ais g)) in
      case add_addrs hints (h_addrtype hp) (h_addr_list hp) [] g of
        (Some e, ais, g) \<Rightarrow> bad e ais g
      | (None, ais, g) \<Rightarrow>
          (case first_name hints (h_name hp) ais g of
             Abort a g \<Rightarrow> Abort a g
           | Ret (Some e, ais) g \<Rightarrow> bad e ais g
           | Ret (None, ais) g \<Rightarrow>
               if is_unset serv then Ret (None, Some ais) g
               else (case getaddrinfo_serv R hints (the serv) ais g of
                   (Some e, ais, g) \<Rightarrow> bad e ais g
                 | (None, ais, g) \<Rightarrow> Ret (None, Some ais) g)))"

definition getaddrinfo_old :: "resolver \<Rightarrow> string option \<Rightarrow> string option \<Rightarrow> addrinfo option \<Rightarrow> (gst, eai option \<times> addrinfo list option) prog" where
  "getaddrinfo_old R host serv hintsptr g =
     (let hints = (case hintsptr of None \<Rightarrow> no_hints | Some h \<Rightarrow> h) in
      if ai_flags hints AND NOT (AI_PASSIVE OR AI_CANONNAME) \<noteq> 0 then Abort Undefined g
      else if family_check hints \<noteq> None then Abort Undefined g
      else (case default_host host serv hints of
          Inl e \<Rightarrow> Abort Undefined g
        | Inr (host, hints) \<Rightarrow>
            if is_path host then (case addrinfo_local (the host) hints g of (r, g) \<Rightarrow> Ret r g)
            else if is_path serv then (case addrinfo_local (the serv) hints g of (r, g) \<Rightarrow> Ret r g)
            else (case getaddrinfo_host R (the host) (ai_family hints) g of
                (Inl e, g) \<Rightarrow> Abort Undefined g
              | (Inr hp, g) \<Rightarrow>
                  if ai_family hints \<noteq> AF_UNSPEC \<and> ai_family hints \<noteq> h_addrtype hp then Abort Undefined g
                  else build R serv hints hp g)))"

section \<open>Agreement with libgai\<close>

text \<open>With one family and a socket type, or a service that is a name, both look up the same.\<close>

lemma try_proto_other: "ai_socktype hints \<noteq> 0 \<Longrightarrow> ai_socktype hints \<noteq> t \<Longrightarrow> try_proto R hints serv proto t ais g = (Inr 0, ais, g)"
  by (simp add: try_proto_def)

lemma getaddrinfo_port_ga: "getaddrinfo_port = ga_port"
  by (rule ext)+ (simp add: getaddrinfo_port_def ga_port_def)

lemma ga_port_loop_count: "ga_port_loop p t n ais g = (rc, ais', g') \<Longrightarrow> 0 \<le> n \<Longrightarrow> rc < 0 \<or> n \<le> rc"
proof (induction p t n ais g arbitrary: ais' g' rc rule: ga_port_loop.induct)
  case (2 p t n ai ais g)
  then show ?case by (fastforce split: if_splits prod.splits bool.splits dest: fill_in_count)
qed auto

lemma serv_by_name:
  assumes "\<not> starts isdigit_c serv"
  shows "getaddrinfo_serv R hints serv ais g = ga_serv R hints serv ais g"
proof -
  have n: "\<not> (serv \<noteq> [] \<and> isdigit_c (hd serv))" using assms by (simp add: starts_def)
  let ?t = "ai_socktype hints"
  have d: "SOCK_STREAM \<noteq> 0" "SOCK_DGRAM \<noteq> 0" "SOCK_STREAM \<noteq> SOCK_DGRAM" by (simp_all add: SOCK_STREAM_def SOCK_DGRAM_def)
  have u: "getaddrinfo_serv R hints serv ais g = (case try_proto R hints serv ''tcp'' SOCK_STREAM ais g of
          (Inl e, ais, g) \<Rightarrow> (Some e, ais, g)
        | (Inr n1, ais, g) \<Rightarrow>
            (case try_proto R hints serv ''udp'' SOCK_DGRAM ais g of
               (Inl e, ais, g) \<Rightarrow> (Some e, ais, g)
             | (Inr n2, ais, g) \<Rightarrow>
                 (if n1 + n2 = 0 then (if ?t = 0 then Some EAI_NONAME else Some EAI_SERVICE) else None, ais, g)))"
    using assms by (simp add: getaddrinfo_serv_def)
  have p: "serv_ports R ?t serv = (if ?t = 0 \<or> ?t = SOCK_STREAM then serv_port R serv ''tcp'' SOCK_STREAM else [])
         @ (if ?t = 0 \<or> ?t = SOCK_DGRAM then serv_port R serv ''udp'' SOCK_DGRAM else [])"
    using n by (auto simp: serv_ports_def)
  obtain tcp udp where s: "getservbyname R serv ''tcp'' = tcp" "getservbyname R serv ''udp'' = udp" by blast
  obtain rc1 a1 g1 where 1: "ga_port (the tcp) SOCK_STREAM ais g = (rc1, a1, g1)" using prod_cases3 by blast
  obtain rc2 a2 g2 where 2: "ga_port (the udp) SOCK_DGRAM ais g = (rc2, a2, g2)" using prod_cases3 by blast
  obtain rc3 a3 g3 where 3: "ga_port (the udp) SOCK_DGRAM a1 g1 = (rc3, a3, g3)" using prod_cases3 by blast
  note f = u p ga_serv_def try_proto_def serv_port_def getaddrinfo_port_ga s 1 2 3
  consider (z) "?t = 0" | (st) "?t = SOCK_STREAM" | (dg) "?t = SOCK_DGRAM" | (other) "?t \<noteq> 0" "?t \<noteq> SOCK_STREAM" "?t \<noteq> SOCK_DGRAM" by blast
  then show ?thesis
  proof cases
    case z
    then show ?thesis using f d by (cases tcp; cases udp) (simp_all add: f)
  next
    case st
    then show ?thesis using f d by (cases tcp) (simp_all add: f)
  next
    case dg
    then show ?thesis using f d by (cases udp) (simp_all add: f)
  next
    case other
    then show ?thesis by (simp add: f)
  qed
qed

lemma serv_by_number:
  assumes "starts isdigit_c serv" "ai_socktype hints \<noteq> 0" "list_all (fresh (ai_socktype hints)) ais" "ais \<noteq> []"
  shows "getaddrinfo_serv R hints serv ais g = ga_serv R hints serv ais g"
proof -
  have p: "serv_ports R (ai_socktype hints) serv = [(of_int (atoi serv), ai_socktype hints)]"
    using assms(1,2) by (simp add: serv_ports_def starts_def Let_def)
  show ?thesis using assms fresh_first [OF assms(3), of "ai_socktype hints" "of_int (atoi serv)" g]
    by (simp add: getaddrinfo_serv_def numeric_port_def getaddrinfo_port_ga ga_serv_def p)
qed

lemma host_text:
  "(if starts isdigit_c host then inet_pton4 host else None) = ipv4_text host"
  "(if starts (\<lambda>c. isxdigit_c c \<or> c = CHR '':'') host then inet_pton6 host else None) = ipv6_text host"
  using pton6_colon [of host] by (cases "inet_pton6 host"; simp add: ipv4_text_def ipv6_text_def)+

text \<open>The host of the first version against the search of the reference.\<close>

lemma host_ref:
  assumes "ai_family hints = f" "ip_family f" "f = AF_INET6 \<or> \<not> use_inet6 g" "length h < HENTBUFSIZ"
    and "getaddrinfo_host R h f g = (r, g')"
  shows "case r of Inl e \<Rightarrow> ref_search R hints 1 (h, f) = Inl e
    | Inr hp \<Rightarrow> if f \<noteq> h_addrtype hp then ref_search R hints 1 (h, f) = Inl EAI_ADDRFAMILY
        else \<exists>nm. ref_search R hints 1 (h, f) = Inr (map (Pair (h_addrtype hp)) (h_addr_list hp), nm) \<and> (case nm of None \<Rightarrow> h | Some x \<Rightarrow> x) = h_name hp"
proof -
  have un: "f \<noteq> AF_UNSPEC" using assms(2) by (auto simp: ip_family_def)
  have tk: "take (HENTBUFSIZ - Suc 0) h = h" using assms(4) by simp
  consider (v4) bs where "ipv4_text h = Some bs" | (v6) bs where "ipv4_text h = None" "ipv6_text h = Some bs"
    | (nm) "ipv4_text h = None" "ipv6_text h = None" by (cases "ipv4_text h"; cases "ipv6_text h") auto
  then show ?thesis
  proof cases
    case (v4 bs)
    then show ?thesis using assms un tk
      by (auto simp: getaddrinfo_host_def host_text ref_search_def ref_text_def text_hostent_def split: option.splits)
  next
    case (v6 bs)
    then show ?thesis using assms un tk
      by (auto simp: getaddrinfo_host_def host_text ref_search_def ref_text_def text_hostent_def split: option.splits)
  next
    case nm
    have fl: "use_inet6 (if f = AF_INET6 then g\<lparr>use_inet6 := True\<rparr> else g) = (f = AF_INET6)" using assms(3) by auto
    show ?thesis
    proof (cases "gethostbyname R (f = AF_INET6) h")
      case (Inl he)
      then show ?thesis using assms(1,5) nm fl by (auto simp: getaddrinfo_host_def host_text ref_search_def Let_def)
    next
      case (Inr hp)
      then have "r = Inr hp" using assms(5) nm fl by (auto simp: getaddrinfo_host_def host_text Let_def)
      then show ?thesis using assms(1) nm Inr un by (auto simp: ref_search_def)
    qed
  qed
qed

lemma getaddrinfo_host_ample: "getaddrinfo_host R h f g = (r, g') \<Longrightarrow> ample g \<Longrightarrow> ample g'"
  by (auto simp: getaddrinfo_host_def host_text ample_def Let_def split: option.splits sum.splits if_splits)

lemma getaddrinfo_host_ip:
  "getaddrinfo_host R h f g = (Inr hp, g') \<Longrightarrow> resolver_ok R \<Longrightarrow> ip_family (h_addrtype hp)"
  by (auto simp: getaddrinfo_host_def host_text resolver_ok_def text_hostent_def ip_family_def Let_def split: option.splits sum.splits if_splits)

lemma first_name_ample:
  assumes "ample g" "plain ais" "ais \<noteq> []" "w = (ai_flags hints AND AI_CANONNAME \<noteq> 0)"
  shows "\<exists>g'. ample g' \<and> first_name hints name ais g = Ret (None, name_first (if w then Some name else None) ais) g'"
proof -
  obtain a as where a: "ais = a # as" "ai_canonname a = None" using assms(2,3) by (cases ais) (auto simp: plain_def)
  have u: "a\<lparr>ai_canonname := None\<rparr> = a" using a(2) by (cases a) simp
  show ?thesis using assms(1,4) a(1) u alloc_ample [OF assms(1)] by (auto simp: first_name_def name_first_def)
qed

definition nonempty_answers :: "resolver \<Rightarrow> bool" where
  "nonempty_answers R \<longleftrightarrow> (\<forall>b h hp. gethostbyname R b h = Inr hp \<longrightarrow> h_addr_list hp \<noteq> [])"

lemma getaddrinfo_host_nonempty:
  "getaddrinfo_host R h f g = (Inr hp, g') \<Longrightarrow> nonempty_answers R \<Longrightarrow> h_addr_list hp \<noteq> []"
  by (auto simp: getaddrinfo_host_def host_text nonempty_answers_def text_hostent_def Let_def split: option.splits sum.splits if_splits)

text \<open>From the host on: what \<open>build\<close> makes of the addresses is what the reference says.\<close>

lemma build_ref:
  assumes "ample g" "ip_family (h_addrtype hp)" "h_addr_list hp \<noteq> []"
    and "is_unset serv \<or> \<not> starts isdigit_c (the serv) \<or> ai_socktype hints \<noteq> 0"
  shows "\<exists>g'. build R serv hints hp g = (let es = name_first (if ai_flags hints AND AI_CANONNAME \<noteq> 0 then Some (h_name hp) else None)
        (map (entry hints) (map (Pair (h_addrtype hp)) (h_addr_list hp))); ports = serv_ports R (ai_socktype hints) (the serv) in
      if is_unset serv then Ret (None, Some es) g'
      else if ports = [] then Ret (Some (if ai_socktype hints = 0 then EAI_NONAME else EAI_SERVICE), None) g'
      else Ret (None, Some (concat (map (with_ports ports) es))) g')"
proof -
  let ?es = "map (entry hints) (map (Pair (h_addrtype hp)) (h_addr_list hp))"
  let ?ns = "name_first (if ai_flags hints AND AI_CANONNAME \<noteq> 0 then Some (h_name hp) else None) ?es"
  obtain g1 where 1: "add_addrs hints (h_addrtype hp) (h_addr_list hp) [] g = (None, ?es, g1)" "ample g1"
    using add_addrs_ample [OF assms(1,2), of hints "h_addr_list hp" "[]"] by auto
  have pl: "plain ?es" by (auto simp: plain_def list_all_iff entry_def new_ai_def)
  have ne: "?es \<noteq> []" using assms(3) by simp
  obtain g2 where 2: "ample g2" "first_name hints (h_name hp) ?es g1 = Ret (None, ?ns) g2"
    using first_name_ample [OF 1(2) pl ne refl] by blast
  have "list_all (fresh (ai_socktype hints)) ?es" using assms(2) by (auto simp: list_all_iff intro!: fresh_entry)
  then have fr: "list_all (fresh (ai_socktype hints)) ?ns" by (rule name_first_fresh)
  have nn: "?ns \<noteq> []" using assms(3) by (cases "h_addr_list hp") (auto simp: name_first_def)
  obtain g3 ais' where 3: "ga_serv R hints (the serv) ?ns g2 =
      (let ports = serv_ports R (ai_socktype hints) (the serv) in
       if ports = [] then (Some (if ai_socktype hints = 0 then EAI_NONAME else EAI_SERVICE), ais', g3)
       else (None, concat (map (with_ports ports) ?ns), g3))"
    using ga_serv_ample [OF fr 2(1) nn] by blast
  show ?thesis
  proof (cases "is_unset serv")
    case True
    then show ?thesis using 1 2 by (simp add: build_def Let_def)
  next
    case False
    then have "getaddrinfo_serv R hints (the serv) ?ns g2 = ga_serv R hints (the serv) ?ns g2"
      using assms(4) serv_by_name serv_by_number [OF _ _ fr nn] by blast
    then show ?thesis using False 1 2 3 by (simp add: build_def Let_def)
  qed
qed

text \<open>Once the host is known, the first version gives what the second gives.\<close>

lemma build_agrees:
  assumes "ample g" "ip_family (h_addrtype hp)" "h_addr_list hp \<noteq> []" "\<not> is_unset (Some h)"
    and "is_unset serv \<or> \<not> starts isdigit_c (the serv) \<or> ai_socktype hints \<noteq> 0"
    and "ga_nsearch (Some h) hints = [(h, f)]"
    and "ref_search R hints 1 (h, f) = Inr (map (Pair (h_addrtype hp)) (h_addr_list hp), nm)" "(case nm of None \<Rightarrow> h | Some x \<Rightarrow> x) = h_name hp"
  shows "\<exists>g'. build R serv hints hp g
    = (case gai_ref R (Some h) serv hints of Inl e \<Rightarrow> Ret (Some e, None) g' | Inr ais \<Rightarrow> Ret (None, Some ais) g')"
proof -
  have rs: "ref_searches R hints (Suc 0) [(h, f)] = Inr (map (Pair (h_addrtype hp)) (h_addr_list hp), nm)"
    using assms(7) by (cases nm) simp_all
  have nm: "(case nm of None \<Rightarrow> fst (hd [(h, f)]) | Some x \<Rightarrow> x) = h_name hp" using assms(8) by (cases nm) simp_all
  have "canon_wanted (Some h) hints = (ai_flags hints AND AI_CANONNAME \<noteq> 0)" using assms(4) by (simp add: canon_wanted_def)
  then have "gai_ref R (Some h) serv hints = (let es = name_first (if ai_flags hints AND AI_CANONNAME \<noteq> 0 then Some (h_name hp) else None)
      (map (entry hints) (map (Pair (h_addrtype hp)) (h_addr_list hp))); ports = serv_ports R (ai_socktype hints) (the serv) in
    if is_unset serv then Inr es
    else if ports = [] then Inl (if ai_socktype hints = 0 then EAI_NONAME else EAI_SERVICE)
    else Inr (concat (map (with_ports ports) es)))"
    using rs nm assms(3) by (simp add: gai_ref_def assms(6) Let_def)
  then show ?thesis using build_ref [OF assms(1-3,5), of R] by (auto simp: Let_def)
qed

lemma versions_checked:
  assumes "resolver_ok R" "nonempty_answers R" "allocs g = []" "allocs g' = []"
    and "ai_family hints = AF_INET \<and> \<not> use_inet6 g' \<or> ai_family hints = AF_INET6"
    and "h \<noteq> []" "hd h \<noteq> CHR ''/''" "length h < HENTBUFSIZ" "\<not> is_path serv"
    and "is_unset serv \<or> \<not> starts isdigit_c (the serv) \<or> ai_socktype hints \<noteq> 0"
    and ok: "ga_echeck (Some h) serv (ai_flags hints) (ai_family hints) (ai_socktype hints) (ai_protocol hints) = None"
  shows "\<exists>g2. getaddrinfo_old R (Some h) serv (Some hints) g'
    = (if isl (spec_addrs R (ai_family hints) h (ai_family hints)) then Abort Undefined g2
       else case gai_ref R (Some h) serv hints of Inl e \<Rightarrow> Ret (Some e, None) g2 | Inr ais \<Rightarrow> Ret (None, Some ais) g2)"
proof -
  let ?f = "ai_family hints"
  have ip: "ip_family ?f" and nu: "?f \<noteq> AF_UNSPEC" using assms(5) by (auto simp: ip_family_def)
  have un: "\<not> is_unset (Some h)" using assms(6) by (simp add: is_unset_def)
  have ph: "\<not> is_path (Some h)" using assms(7) by (auto simp: is_path_def starts_def)
  have dh: "default_host (Some h) serv hints = Inr (Some h, hints)" using un nu by (simp add: default_host_def)
  have fc: "family_check hints = None" "ai_flags hints AND NOT (AI_PASSIVE OR AI_CANONNAME) = 0"
    using ok assms(5) un by (auto simp: ga_echeck_def family_check_def split: if_splits)
  obtain r g2 where hr: "getaddrinfo_host R h ?f g' = (r, g2)" by fastforce
  have f6: "?f = AF_INET6 \<or> \<not> use_inet6 g'" using assms(5) by blast
  note H = host_ref [OF refl ip f6 assms(8) hr]
  have sp: "spec_addrs R ?f h ?f = ref_search R hints 1 (h, ?f)" using ref_search_spec [of 1 hints R h ?f] nu by simp
  have old: "getaddrinfo_old R (Some h) serv (Some hints) g' = (case r of Inl e \<Rightarrow> Abort Undefined g2
      | Inr hp \<Rightarrow> if ?f \<noteq> h_addrtype hp then Abort Undefined g2 else build R serv hints hp g2)"
    using fc dh ph assms(9) hr nu by (auto simp: getaddrinfo_old_def Let_def split: sum.splits)
  show ?thesis
  proof (cases "\<exists>hp. r = Inr hp \<and> ?f = h_addrtype hp")
    case False
    then show ?thesis using old H sp by (cases r) auto
  next
    case True
    then obtain hp where hp: "r = Inr hp" "?f = h_addrtype hp" by blast
    then obtain nm where nm: "ref_search R hints 1 (h, ?f) = Inr (map (Pair (h_addrtype hp)) (h_addr_list hp), nm)"
      "(case nm of None \<Rightarrow> h | Some x \<Rightarrow> x) = h_name hp" using H by auto
    have am: "ample g2" using getaddrinfo_host_ample [OF hr] assms(4) by (simp add: ample_def)
    have ne: "h_addr_list hp \<noteq> []" and ip': "ip_family (h_addrtype hp)"
      using getaddrinfo_host_nonempty getaddrinfo_host_ip hr hp(1) assms(1,2) by blast+
    have ns: "ga_nsearch (Some h) hints = [(h, ?f)]" using assms(5) un by (auto simp: ga_nsearch_def)
    show ?thesis using build_agrees [OF am ip' ne un assms(10) ns nm] old hp sp nm(1) by simp
  qed
qed

section \<open>Properties\<close>

text \<open>
  C12.  The two versions of \<open>getaddrinfo\<close> in the repository agree on a host name that is given and no path, and
  one of the families IPv4 and IPv6: the first returns the list of the second; it returns the error of the
  second when the hints are good and the host has addresses, so that only the service is wrong; and it has
  undefined behaviour (it frees a pointer that is not initialised) exactly when the second reports an error of the
  hints or of the host.  This needs enough memory, a resolver whose answers are not empty and are IPv4 or IPv6
  addresses, a host shorter than 8192 bytes, a service that is not a path and, when it is a number, a socket
  type, and for IPv4 that no earlier call left \<open>RES_USE_INET6\<close> set.
\<close>

theorem getaddrinfo_versions_agree:
  assumes "resolver_ok R" "nonempty_answers R" "allocs g = []" "allocs g' = []"
    and "ai_family hints = AF_INET \<and> \<not> use_inet6 g' \<or> ai_family hints = AF_INET6"
    and "h \<noteq> []" "hd h \<noteq> CHR ''/''" "length h < HENTBUFSIZ" "\<not> is_path serv"
    and "is_unset serv \<or> \<not> starts isdigit_c (the serv) \<or> ai_socktype hints \<noteq> 0"
  shows "\<exists>r g1 g2. getaddrinfo R (Some h) serv (Some hints) g = Ret r g1
    \<and> getaddrinfo_old R (Some h) serv (Some hints) g' = (case r of
        Inr ais \<Rightarrow> Ret (None, Some ais) g2
      | Inl e \<Rightarrow> if ga_echeck (Some h) serv (ai_flags hints) (ai_family hints) (ai_socktype hints) (ai_protocol hints) = None
            \<and> \<not> isl (spec_addrs R (ai_family hints) h (ai_family hints))
          then Ret (Some e, None) g2 else Abort Undefined g2)"
proof (cases "ga_echeck (Some h) serv (ai_flags hints) (ai_family hints) (ai_socktype hints) (ai_protocol hints)")
  case (Some e)
  have un: "\<not> is_unset (Some h)" using assms(6) by (simp add: is_unset_def)
  have "getaddrinfo R (Some h) serv (Some hints) g = Ret (Inl e) g" using Some by (simp add: getaddrinfo_def)
  moreover have "getaddrinfo_old R (Some h) serv (Some hints) g' = Abort Undefined g'"
    using Some assms(5) un by (auto simp: getaddrinfo_old_def ga_echeck_def family_check_def Let_def split: if_splits)
  ultimately show ?thesis using Some by fastforce
next
  case None
  let ?f = "ai_family hints"
  have f: "?f \<in> {AF_UNSPEC, AF_INET, AF_INET6}" "?f \<noteq> AF_LOCAL" "?f = AF_INET \<or> ?f = AF_INET6" using assms(5) by auto
  have ud: "\<not> unix_domain (Some h) serv" using assms(6,7) by (auto simp: unix_domain_def)
  obtain g1 where new: "getaddrinfo R (Some h) serv (Some hints) g = Ret (gai_ref R (Some h) serv hints) g1"
    using getaddrinfo_fits [OF assms(1,3) ud f(2) None] by blast
  obtain g2 where old: "getaddrinfo_old R (Some h) serv (Some hints) g'
    = (if isl (spec_addrs R ?f h ?f) then Abort Undefined g2
       else case gai_ref R (Some h) serv hints of Inl e \<Rightarrow> Ret (Some e, None) g2 | Inr ais \<Rightarrow> Ret (None, Some ais) g2)"
    using versions_checked [OF assms None] by blast
  have "isl (gai_ref R (Some h) serv hints)" if "isl (spec_addrs R ?f h ?f)"
  proof -
    have "given (Some h)" using assms(6) by (simp add: given_def)
    then have "spec_name (Some h) p ?f = h" for p by (simp add: spec_name_def)
    then show ?thesis using that f(3) unfolding gai_ref_spec [OF assms(1) f(1)]
      by (auto simp: gai_spec_def Let_def isl_def)
  qed
  then show ?thesis using new old None by (cases "gai_ref R (Some h) serv hints") auto
qed

theorem getaddrinfo_versions_agree_witness:
  "\<exists>ais g2. getaddrinfo_old \<lparr>gethostbyname = \<lambda>_ _. Inr \<lparr>h_name = ''a.b'', h_addrtype = AF_INET, h_addr_list = [[10, 0, 0, 1]]\<rparr>,
        gethostbyname2 = \<lambda>_ _. Inl HOST_NOT_FOUND, getservbyname = \<lambda>_ _. None, nodename = None\<rparr>
      (Some ''a'') (Some ''80'') (Some (no_hints\<lparr>ai_family := AF_INET, ai_socktype := SOCK_STREAM\<rparr>))
      \<lparr>allocs = [], live = 0, use_inet6 = False, unlinked = []\<rparr> = Ret (None, Some ais) g2"
proof -
  let ?R = "\<lparr>gethostbyname = \<lambda>_ _. Inr \<lparr>h_name = ''a.b'', h_addrtype = AF_INET, h_addr_list = [[10, 0, 0, 1]]\<rparr>,
        gethostbyname2 = \<lambda>_ _. Inl HOST_NOT_FOUND, getservbyname = \<lambda>_ _. None, nodename = None\<rparr>"
  let ?h = "no_hints\<lparr>ai_family := AF_INET, ai_socktype := SOCK_STREAM\<rparr>"
  let ?g = "\<lparr>allocs = [], live = 0, use_inet6 = False, unlinked = []\<rparr>"
  have a: "resolver_ok ?R" "nonempty_answers ?R" by (simp_all add: resolver_ok_def nonempty_answers_def ip_family_def)
  have "\<exists>r g1 g2. getaddrinfo ?R (Some ''a'') (Some ''80'') (Some ?h) ?g = Ret r g1
    \<and> getaddrinfo_old ?R (Some ''a'') (Some ''80'') (Some ?h) ?g = (case r of
        Inr ais \<Rightarrow> Ret (None, Some ais) g2
      | Inl e \<Rightarrow> if ga_echeck (Some ''a'') (Some ''80'') (ai_flags ?h) (ai_family ?h) (ai_socktype ?h) (ai_protocol ?h) = None
            \<and> \<not> isl (spec_addrs ?R (ai_family ?h) ''a'' (ai_family ?h))
          then Ret (Some e, None) g2 else Abort Undefined g2)"
    by (rule getaddrinfo_versions_agree [OF a]) (auto simp: HENTBUFSIZ_def is_path_def starts_def no_hints_def SOCK_STREAM_def)
  then obtain r g1 g2 where r: "getaddrinfo ?R (Some ''a'') (Some ''80'') (Some ?h) ?g = Ret r g1"
    "\<forall>ais. r = Inr ais \<longrightarrow> getaddrinfo_old ?R (Some ''a'') (Some ''80'') (Some ?h) ?g = Ret (None, Some ais) g2" by fastforce
  have t: "ipv4_text ''a'' = None" "ipv6_text ''a'' = None" by (simp_all add: ipv4_text_def ipv6_text_def starts_def isdigit_c_def)
  have "\<exists>ais. gai_ref ?R (Some ''a'') (Some ''80'') ?h = Inr ais"
    by (simp add: gai_ref_def ga_nsearch_def ref_search_def is_unset_def no_hints_def t Let_def serv_ports_def isdigit_c_def SOCK_STREAM_def)
  moreover have "\<exists>g'. getaddrinfo ?R (Some ''a'') (Some ''80'') (Some ?h) ?g = Ret (gai_ref ?R (Some ''a'') (Some ''80'') ?h) g'"
    using a(1) by (intro getaddrinfo_fits) (auto simp: unix_domain_def ga_echeck_def is_unset_def no_hints_def SOCK_STREAM_def)
  ultimately have "\<exists>ais. r = Inr ais" using r(1) by auto
  then show ?thesis using r(2) by blast
qed

text \<open>
  The first version sets \<open>RES_USE_INET6\<close> for a request for IPv6 and never clears it.  With a
  resolver that answers with IPv6 addresses while it is set, every later request of the process for
  the IPv4 addresses of a name finds the wrong family, and frees an uninitialised pointer, although
  it would have succeeded before.
\<close>

theorem use_inet6_sticks:
  assumes "\<And>h. gethostbyname R True h = Inr (six h) \<and> h_addrtype (six h) = AF_INET6 \<and> h_addr_list (six h) \<noteq> []"
    and "gethostbyname R False k = Inr four" "h_addrtype four = AF_INET" "h_addr_list four \<noteq> []"
    and "ipv4_text h = None" "ipv6_text h = None" "ipv4_text k = None" "ipv6_text k = None"
    and "h \<noteq> []" "hd h \<noteq> CHR ''/''" "k \<noteq> []" "hd k \<noteq> CHR ''/''"
    and "allocs g = []" "\<not> use_inet6 g"
  shows "\<exists>ais g1 bs g2 g3. getaddrinfo_old R (Some h) None (Some (no_hints\<lparr>ai_family := AF_INET6\<rparr>)) g = Ret (None, Some ais) g1
    \<and> getaddrinfo_old R (Some k) None (Some (no_hints\<lparr>ai_family := AF_INET\<rparr>)) g = Ret (None, Some bs) g2
    \<and> getaddrinfo_old R (Some k) None (Some (no_hints\<lparr>ai_family := AF_INET\<rparr>)) g1 = Abort Undefined g3"
proof -
  let ?h6 = "no_hints\<lparr>ai_family := AF_INET6\<rparr>" and ?h4 = "no_hints\<lparr>ai_family := AF_INET\<rparr>"
  have start: "getaddrinfo_old R (Some n) None (Some hints) s = (case getaddrinfo_host R n (ai_family hints) s of
      (Inl e, s) \<Rightarrow> Abort Undefined s
    | (Inr hp, s) \<Rightarrow> if ai_family hints \<noteq> h_addrtype hp then Abort Undefined s else build R None hints hp s)"
    if "n \<noteq> []" "hd n \<noteq> CHR ''/''" "hints = ?h6 \<or> hints = ?h4" for n hints s
  proof -
    have "ai_flags hints = 0" "ai_socktype hints = 0" "ai_family hints = AF_INET \<or> ai_family hints = AF_INET6"
      using that(3) by (auto simp: no_hints_def)
    moreover from this have "family_check hints = None" by (auto simp: family_check_def)
    moreover have "is_path (Some n) = False" "is_path None = False" using that(2) by (simp_all add: is_path_def starts_def that(1))
    moreover have "default_host (Some n) None hints = Inr (Some n, hints)" using that(1) calculation(3) by (auto simp: default_host_def is_unset_def)
    ultimately show ?thesis by (auto simp: getaddrinfo_old_def Let_def split: sum.splits prod.splits)
  qed
  have built: "\<exists>ais s'. build R None hints hp s = Ret (None, Some ais) s' \<and> use_inet6 s' = use_inet6 s"
    if "allocs s = []" "ip_family (h_addrtype hp)" "ai_flags hints = 0" for s hp hints
  proof -
    note hp = that
    have "\<exists>ais s'. add_addrs hints (h_addrtype hp) as bs s = (None, ais, s') \<and> use_inet6 s' = use_inet6 s" for as bs
      using that(1)
    proof (induction as arbitrary: bs s)
      case (Cons a as)
      obtain ais1 s1 where 1: "ga_aistruct hints a (h_addrtype hp) bs s = (None, ais1, s1)" "allocs s1 = []" "use_inet6 s1 = use_inet6 s"
        using Cons(2) hp(2,3) by (auto simp: ga_aistruct_def alloc_def Let_def ip_family_def)
      show ?case using Cons(1) [OF 1(2), of ais1] 1 by simp
    qed simp
    then obtain ais s' where "add_addrs hints (h_addrtype hp) (h_addr_list hp) [] s = (None, ais, s')" "use_inet6 s' = use_inet6 s" by blast
    then show ?thesis using that(3) by (auto simp: build_def first_name_def is_unset_def Let_def)
  qed
  have f: "ai_flags ?h6 = 0" "ai_family ?h6 = AF_INET6" "ai_flags ?h4 = 0" "ai_family ?h4 = AF_INET" by (simp_all add: no_hints_def)
  have 6: "getaddrinfo_host R h AF_INET6 g = (Inr (six h), g\<lparr>use_inet6 := True\<rparr>)"
    using assms(1,5,6) by (simp add: getaddrinfo_host_def host_text)
  obtain ais g1 where 1: "build R None ?h6 (six h) (g\<lparr>use_inet6 := True\<rparr>) = Ret (None, Some ais) g1" "use_inet6 g1"
    using built [of "g\<lparr>use_inet6 := True\<rparr>" "six h" ?h6] assms(1,13) f by (auto simp: ip_family_def)
  have 4: "getaddrinfo_host R k AF_INET g = (Inr four, g)"
    using assms(2,7,8,14) by (simp add: getaddrinfo_host_def host_text)
  obtain bs g2 where 2: "build R None ?h4 four g = Ret (None, Some bs) g2"
    using built [of g four ?h4] assms(3,13) f by (auto simp: ip_family_def)
  have 3: "getaddrinfo_host R k AF_INET g1 = (Inr (six k), g1)"
    using assms(1,7,8) 1(2) by (simp add: getaddrinfo_host_def host_text)
  have "h_addrtype (six h) = AF_INET6" "h_addrtype (six k) = AF_INET6" using assms(1) by simp_all
  then show ?thesis using start [of h ?h6 g] start [of k ?h4 g] start [of k ?h4 g1] assms(3,9-12) f 6 1 4 2 3 by simp
qed

theorem use_inet6_sticks_witness:
  "\<exists>ais g1 bs g2 g3. getaddrinfo_old \<lparr>gethostbyname = \<lambda>b h. Inr \<lparr>h_name = h, h_addrtype = (if b then AF_INET6 else AF_INET),
          h_addr_list = [if b then replicate 10 0 @ [255, 255, 10, 0, 0, 1] else [10, 0, 0, 1]]\<rparr>,
        gethostbyname2 = \<lambda>_ _. Inl HOST_NOT_FOUND, getservbyname = \<lambda>_ _. None, nodename = None\<rparr>
      (Some ''x'') None (Some (no_hints\<lparr>ai_family := AF_INET6\<rparr>)) \<lparr>allocs = [], live = 0, use_inet6 = False, unlinked = []\<rparr> = Ret (None, Some ais) g1
    \<and> getaddrinfo_old \<lparr>gethostbyname = \<lambda>b h. Inr \<lparr>h_name = h, h_addrtype = (if b then AF_INET6 else AF_INET),
          h_addr_list = [if b then replicate 10 0 @ [255, 255, 10, 0, 0, 1] else [10, 0, 0, 1]]\<rparr>,
        gethostbyname2 = \<lambda>_ _. Inl HOST_NOT_FOUND, getservbyname = \<lambda>_ _. None, nodename = None\<rparr>
      (Some ''y'') None (Some (no_hints\<lparr>ai_family := AF_INET\<rparr>)) g1 = Abort Undefined g3"
proof -
  let ?R = "\<lparr>gethostbyname = \<lambda>b h. Inr \<lparr>h_name = h, h_addrtype = (if b then AF_INET6 else AF_INET),
          h_addr_list = [if b then replicate 10 0 @ [255, 255, 10, 0, 0, 1] else [10, 0, 0, 1]]\<rparr>,
        gethostbyname2 = \<lambda>_ _. Inl HOST_NOT_FOUND, getservbyname = \<lambda>_ _. None, nodename = None\<rparr>"
  have t: "ipv4_text ''x'' = None" "ipv6_text ''x'' = None" "ipv4_text ''y'' = None" "ipv6_text ''y'' = None"
    by (simp_all add: ipv4_text_def ipv6_text_def starts_def isdigit_c_def)
  show ?thesis
    using use_inet6_sticks [of ?R "\<lambda>h. \<lparr>h_name = h, h_addrtype = AF_INET6, h_addr_list = [replicate 10 0 @ [255, 255, 10, 0, 0, 1]]\<rparr>"
        "''y''" "\<lparr>h_name = ''y'', h_addrtype = AF_INET, h_addr_list = [[10, 0, 0, 1]]\<rparr>" "''x''"
        "\<lparr>allocs = [], live = 0, use_inet6 = False, unlinked = []\<rparr>"] t
    by (simp del: replicate.simps) blast
qed

end
