(* ===== verification/In_Cksum.thy ===== *)
theory In_Cksum
  imports Prelude
begin

text \<open>
  The Internet checksum of \<open>unpv13e/libfree/in_cksum.c\<close>.  The packet is its bytes in memory; the byte
  order of the machine is an argument, true for little endian.
\<close>

unbundle bit_operations_syntax

section \<open>The code\<close>

text \<open>The \<open>uint16_t\<close> in two bytes of memory.\<close>

definition half :: "bool \<Rightarrow> 8 word \<Rightarrow> 8 word \<Rightarrow> 16 word" where
  "half le a b = of_nat (if le then unat a + 256 * unat b else 256 * unat a + unat b)"

text \<open>The loop and the odd byte after it, which is the first byte in memory of a zero \<open>answer\<close>.\<close>

fun add_words :: "bool \<Rightarrow> 8 word list \<Rightarrow> 32 word \<Rightarrow> 32 word" where
  "add_words le (a # b # bs) s = add_words le bs (s + ucast (half le a b))"
| "add_words le [a] s = s + ucast (half le a 0)"
| "add_words le [] s = s"

definition fold_carry :: "32 word \<Rightarrow> 16 word" where
  "fold_carry s =
     (let s = drop_bit 16 s + (s AND 0xFFFF);
          s = s + drop_bit 16 s in NOT (ucast s))"

definition in_cksum :: "bool \<Rightarrow> 8 word list \<Rightarrow> 16 word" where
  "in_cksum le bs = fold_carry (add_words le bs 0)"

text \<open>A 16-bit value stored in memory.\<close>

definition stored :: "bool \<Rightarrow> 16 word \<Rightarrow> 8 word list" where
  "stored le x = (if le then [of_nat (unat x mod 256), of_nat (unat x div 256)]
     else [of_nat (unat x div 256), of_nat (unat x mod 256)])"

section \<open>Ones' complement sums\<close>

fun wsum :: "bool \<Rightarrow> 8 word list \<Rightarrow> nat" where
  "wsum le (a # b # bs) = unat (half le a b) + wsum le bs"
| "wsum le [a] = unat (half le a 0)"
| "wsum le [] = 0"

text \<open>The value of a sum in ones' complement arithmetic, with 0 only for no carry at all.\<close>

definition ones :: "nat \<Rightarrow> nat" where
  "ones n = (if n = 0 then 0 else (n - 1) mod 65535 + 1)"

lemma unat_byte: "unat (a :: 8 word) < 256"
  using unsigned_less [where 'a = nat, of a] by simp

lemma unat_lt16: "unat (x :: 16 word) < 4294967296"
  using unsigned_less [where 'a = nat, of x] by simp

lemma unat_half: "unat (half le a b) = (if le then unat a + 256 * unat b else 256 * unat a + unat b)"
proof -
  have "(if le then unat a + 256 * unat b else 256 * unat a + unat b) < 2 ^ 16" using unat_byte [of a] unat_byte [of b] by auto
  then show ?thesis unfolding half_def by (subst unat_of_nat) simp
qed

lemma wsum_bound: "wsum le bs \<le> 65535 * ((length bs + 1) div 2)"
proof (induction le bs rule: wsum.induct)
  case (1 le a b bs)
  then show ?case using unat_byte [of a] unat_byte [of b] by (auto simp: unat_half)
next
  case (2 le a)
  then show ?case using unat_byte [of a] by (auto simp: unat_half)
qed simp

lemma unat_add_words: "unat s + wsum le bs < 2 ^ 32 \<Longrightarrow> unat (add_words le bs s) = unat s + wsum le bs"
proof (induction le bs s rule: add_words.induct)
  case (1 le a b bs s)
  have u: "unat (ucast (half le a b) :: 32 word) = unat (half le a b)" by (simp add: unsigned_ucast_eq take_bit_nat_eq_self_iff unat_lt16)
  have "unat (s + ucast (half le a b)) = unat s + unat (half le a b)" using 1(2) u by (subst unat_add_lem [THEN iffD1]) simp_all
  then show ?case using 1 by simp
next
  case (2 le a s)
  have u: "unat (ucast (half le a 0) :: 32 word) = unat (half le a 0)" by (simp add: unsigned_ucast_eq take_bit_nat_eq_self_iff unat_lt16)
  show ?case using 2 u by (subst add_words.simps, subst unat_add_lem [THEN iffD1]) simp_all
qed simp

lemma pred_mod:
  fixes k :: nat
  assumes "0 < m" "m \<le> k" "m mod k = n mod k" "0 < n"
  shows "m = (n - 1) mod k + 1"
proof (cases "n mod k = 0")
  case True
  then have "m = k" using assms(1-3) by (metis le_neq_implies_less mod_less not_less0)
  moreover obtain q where "n = k * q" "0 < q" using True assms(4) by (metis mod_0_imp_dvd dvdE nat_0_less_mult_iff)
  then have "n - 1 = k * (q - 1) + (k - 1)" using assms(1,2) by (cases q) (auto simp: algebra_simps)
  then have "(n - 1) mod k = k - 1" using assms(1,2) by (metis mod_mult_self4 mod_less diff_less less_le_trans zero_less_one)
  ultimately show ?thesis using assms(1) by simp
next
  case False
  then have "m = n mod k" using assms(2,3) by (metis le_neq_implies_less mod_less mod_self)
  moreover have "n - 1 = n div k * k + (n mod k - 1)" using False by (metis div_mult_mod_eq Nat.diff_add_assoc Suc_leI One_nat_def neq0_conv)
  then have "(n - 1) mod k = n mod k - 1" using assms(1,2) by (metis mod_mult_self3 mod_less less_imp_diff_less less_le_trans mod_less_divisor)
  ultimately show ?thesis using assms(1) by simp
qed

lemma ones_unique: "m \<le> 65535 \<Longrightarrow> m mod 65535 = n mod 65535 \<Longrightarrow> (m = 0 \<longleftrightarrow> n = 0) \<Longrightarrow> m = ones n"
  unfolding ones_def using pred_mod [of m 65535 n] by (cases "n = 0") simp_all

lemma ones_mod: "ones n \<le> 65535" "ones n mod 65535 = n mod 65535" "ones n = 0 \<longleftrightarrow> n = 0"
proof -
  show "ones n \<le> 65535" by (simp add: ones_def Suc_le_eq)
  show "ones n mod 65535 = n mod 65535" by (cases n) (simp_all add: ones_def mod_simps del: mod_Suc)
  show "ones n = 0 \<longleftrightarrow> n = 0" by (simp add: ones_def)
qed

lemma unat_drop_bit16: "unat (drop_bit 16 (v :: 32 word)) = unat v div 65536"
  unfolding unsigned_drop_bit_eq drop_bit_eq_div take_bit_eq_mod using unsigned_less [where 'a = nat, of v] by (simp add: unat_div)

lemma ones_fold:
  assumes "t = s div 65536 + s mod 65536" "t \<le> 131070"
  shows "(t + t div 65536) mod 65536 = ones s"
proof (cases "t < 65536")
  case True
  have "s = s div 65536 * 65535 + t" using assms(1) by simp
  then have "t mod 65535 = s mod 65535" by (metis mod_mult_self3)
  moreover have "t = 0 \<longleftrightarrow> s = 0" using assms(1) by (auto simp: mod_eq_0_iff_dvd elim: dvdE)
  ultimately show ?thesis using True ones_unique [of t s] by simp
next
  case False
  then obtain y where y: "t = 65536 + y" using nat_le_iff_add by (metis not_less)
  then have d1: "t div 65536 = 1" and y': "y + 1 < 65536" using y assms(2) by simp_all
  have "t + 1 = (y + 1) + 65536" using y by simp
  then have "(t + 1) mod 65536 = y + 1" using y' by (metis mod_add_self2 mod_less)
  note d = d1 this
  have "s = (q + 1) * 65535 + (y + 1)" if "65536 + y = q + r" "q * 65536 + r = s" for q r using that by simp
  then have "s = (s div 65536 + 1) * 65535 + (y + 1)" using assms(1) y div_mult_mod_eq [of s 65536] by metis
  then have "(y + 1) mod 65535 = s mod 65535" by (metis mod_mult_self3)
  moreover have "s \<noteq> 0" using False assms(1) by auto
  ultimately show ?thesis using d assms y ones_unique [of "y + 1" s] by simp
qed

lemma unat_not16: "unat (NOT x) = 65535 - unat (x :: 16 word)"
proof -
  have "NOT x = - 1 - x" by (simp add: not_eq_complement)
  moreover have "unat (- 1 - x) = unat (- 1 :: 16 word) - unat x" by (rule unat_sub) simp
  moreover have "unat (- 1 :: 16 word) = 65535" by (simp add: unsigned_minus_1_eq_mask mask_eq_exp_minus_1)
  ultimately show ?thesis by simp
qed

lemma fold_carry_ones: "unat (fold_carry s) = 65535 - ones (unat s)"
proof -
  let ?h = "unat s div 65536" and ?l = "unat s mod 65536"
  have s: "unat s < 4294967296" using unsigned_less [where 'a = nat, of s] by simp
  have db: "unat (drop_bit 16 v) = unat v div 65536" for v :: "32 word" by (rule unat_drop_bit16)
  have h: "unat (drop_bit 16 s) = ?h" by (rule db)
  have "s AND 0xFFFF = take_bit 16 s" by (simp add: take_bit_eq_mask mask_eq_exp_minus_1)
  then have l: "unat (s AND 0xFFFF) = ?l" by (simp add: take_bit_eq_mod unat_mod)
  let ?t = "drop_bit 16 s + (s AND 0xFFFF)"
  have hl: "?h + ?l \<le> 131070" using s by (simp add: less_mult_imp_div_less)
  have t: "unat ?t = ?h + ?l" using h l hl by (subst unat_add_lem [THEN iffD1]) simp_all
  have d: "unat (drop_bit 16 ?t) = (?h + ?l) div 65536" by (simp only: db t)
  have fit: "x + x div 65536 < 4294967296" if "x \<le> 131070" for x :: nat using that div_le_dividend [of x 65536] by linarith
  have u: "unat (?t + drop_bit 16 ?t) = ?h + ?l + (?h + ?l) div 65536"
    using t d fit [OF hl] by (subst unat_add_lem [THEN iffD1]) simp_all
  let ?r = "(?h + ?l + (?h + ?l) div 65536) mod 65536"
  have c: "unat (ucast (?t + drop_bit 16 ?t) :: 16 word) = ?r"
    by (simp add: unsigned_ucast_eq u take_bit_eq_mod)
  have "?r = ones (unat s)" by (rule ones_fold [OF refl hl])
  then show ?thesis using c by (simp add: fold_carry_def Let_def unat_not16)
qed


lemma in_cksum_ones:
  assumes "length bs \<le> 131074"
  shows "unat (in_cksum le bs) = 65535 - ones (wsum le bs)"
proof -
  have "(length bs + 1) div 2 \<le> 65537" using assms div_le_mono [of "length bs + 1" 131075 2] by simp
  then have "65535 * ((length bs + 1) div 2) < 2 ^ 32" by simp
  then have "unat (add_words le bs 0) = wsum le bs" using wsum_bound [of le bs] by (subst unat_add_words) simp_all
  then show ?thesis by (simp add: in_cksum_def fold_carry_ones)
qed

lemma wsum_append: "even (length as) \<Longrightarrow> wsum le (as @ bs) = wsum le as + wsum le bs"
  by (induction le as rule: wsum.induct) simp_all

lemma stored_word: "wsum le (stored le x) = unat x"
proof -
  have "unat x div 256 < 256" using unsigned_less [where 'a = nat, of x] by (simp add: less_mult_imp_div_less)
  then have "unat (of_nat (unat x div 256) :: 8 word) = unat x div 256" "unat (of_nat (unat x mod 256) :: 8 word) = unat x mod 256"
    by (simp_all add: unat_of_nat)
  then show ?thesis by (simp add: stored_def unat_half)
qed

text \<open>A byte weighs 1 or 256, depending on its place; changing it changes the sum by less than 65535.\<close>

definition weight :: "bool \<Rightarrow> nat \<Rightarrow> nat" where
  "weight le i = (if even i = le then 1 else 256)"

lemma wsum_update: "i < length bs \<Longrightarrow> wsum le (bs[i := b]) + weight le i * unat (bs ! i) = wsum le bs + weight le i * unat b"
proof (induction le bs arbitrary: i rule: wsum.induct)
  case (1 le a c bs)
  consider "i = 0" | "i = 1" | j where "i = Suc (Suc j)" by (metis One_nat_def not0_implies_Suc)
  then show ?case
  proof cases
    case 3
    then show ?thesis using 1(1) [of j] 1(2) by (simp add: weight_def)
  qed (auto simp: unat_half weight_def)
qed (auto simp: unat_half weight_def)

lemma in_cksum_zero: "length bs \<le> 131074 \<Longrightarrow> in_cksum le bs = 0 \<longleftrightarrow> 65535 dvd wsum le bs \<and> wsum le bs \<noteq> 0"
proof -
  assume l: "length bs \<le> 131074"
  have "in_cksum le bs = 0 \<longleftrightarrow> ones (wsum le bs) = 65535"
    using in_cksum_ones [OF l, of le] ones_mod(1) [of "wsum le bs"] by (metis diff_diff_cancel diff_self_eq_0 minus_nat.diff_0 unat_eq_zero)
  also have "\<dots> \<longleftrightarrow> 65535 dvd wsum le bs \<and> wsum le bs \<noteq> 0"
    using ones_mod [of "wsum le bs"] by (metis dvd_eq_mod_eq_0 dvd_imp_le le_antisym mod_self neq0_conv zero_neq_numeral)
  finally show ?thesis .
qed

text \<open>Exchanging the bytes multiplies by 256, modulo 65535.\<close>

definition swap :: "nat \<Rightarrow> nat" where
  "swap n = 256 * (n mod 256) + n div 256"

lemma swap_mod: "swap n mod 65535 = (256 * n) mod 65535"
proof -
  have "256 * n = n div 256 * 65535 + swap n" if "n = n div 256 * 256 + n mod 256" using that unfolding swap_def by linarith
  then have "256 * n = n div 256 * 65535 + swap n" by simp
  then show ?thesis by (metis mod_mult_self3)
qed

lemma swap_bound: "n \<le> 65535 \<Longrightarrow> swap n \<le> 65535" "swap n = 0 \<longleftrightarrow> n = 0"
proof -
  show "swap n \<le> 65535" if "n \<le> 65535"
  proof -
    have "n div 256 \<le> 255" "n mod 256 \<le> 255" using that by (auto simp: less_mult_imp_div_less less_Suc_eq_le [symmetric])
    then show ?thesis unfolding swap_def by linarith
  qed
  show "swap n = 0 \<longleftrightarrow> n = 0" unfolding swap_def using div_mult_mod_eq [of n 256] by (auto simp: mod_eq_0_iff_dvd elim: dvdE)
qed

lemma wsum_swap: "(256 * wsum True bs) mod 65535 = wsum False bs mod 65535 \<and> (wsum True bs = 0 \<longleftrightarrow> wsum False bs = 0)"
proof (induction bs rule: induct_list012)
  case (3 a b bs)
  have "256 * wsum True (a # b # bs) = unat b * 65535 + (256 * unat a + unat b + 256 * wsum True bs)" by (simp add: unat_half)
  then have "(256 * wsum True (a # b # bs)) mod 65535 = (256 * unat a + unat b + 256 * wsum True bs) mod 65535" by (metis mod_mult_self3)
  also have "\<dots> = (256 * unat a + unat b + wsum False bs) mod 65535" using 3(1) by (metis mod_add_right_eq)
  finally have "(256 * wsum True (a # b # bs)) mod 65535 = wsum False (a # b # bs) mod 65535" by (simp add: unat_half)
  moreover have "wsum True (a # b # bs) = 0 \<longleftrightarrow> wsum False (a # b # bs) = 0" using 3(1) by (auto simp: unat_half)
  ultimately show ?case by blast
qed (simp_all add: unat_half)

lemma ones_swap: "swap (ones (wsum True bs)) = ones (wsum False bs)"
proof (rule ones_unique)
  have "(256 * ones (wsum True bs)) mod 65535 = (256 * wsum True bs) mod 65535" using ones_mod(2) by (metis mod_mult_right_eq)
  then show "swap (ones (wsum True bs)) mod 65535 = wsum False bs mod 65535" by (simp add: swap_mod wsum_swap)
qed (use ones_mod swap_bound wsum_swap in auto)

lemma stored_bytes:
  assumes "x \<le> 255" "y \<le> 255"
  shows "stored le (of_nat (x * 256 + y)) = (if le then [of_nat y, of_nat x] else [of_nat x, of_nat y])"
proof -
  have "x * 256 + y < 65536" using assms by linarith
  then have "unat (of_nat (x * 256 + y) :: 16 word) = x * 256 + y" by (subst unat_of_nat) simp
  moreover have "(x * 256 + y) div 256 = x" "(x * 256 + y) mod 256 = y" using assms by simp_all
  ultimately show ?thesis by (simp only: stored_def)
qed

lemma stored_complement:
  assumes "m \<le> 65535"
  shows "stored True (of_nat (65535 - m)) = stored False (of_nat (65535 - swap m))"
proof -
  let ?h = "m div 256" and ?l = "m mod 256"
  have b: "?h \<le> 255" "?l \<le> 255" using assms by (auto simp: less_mult_imp_div_less less_Suc_eq_le [symmetric])
  have m: "m = ?h * 256 + ?l" by simp
  have 1: "65535 - m = (255 - ?h) * 256 + (255 - ?l)" using b m by linarith
  have 2: "65535 - swap m = (255 - ?l) * 256 + (255 - ?h)" unfolding swap_def using b by linarith
  have c: "255 - ?h \<le> 255" "255 - ?l \<le> 255" by simp_all
  show ?thesis unfolding 1 2 stored_bytes [OF c] stored_bytes [OF c(2,1)] by simp
qed

lemma of_unat: "unat x = n \<Longrightarrow> x = of_nat n"
  by auto

text \<open>A packet with its checksum filled in.\<close>

lemma cksum_filled:
  assumes "even (length pre)" "length pre + 2 + length post \<le> 131074"
  shows "65535 dvd wsum le (pre @ stored le (in_cksum le (pre @ [0, 0] @ post)) @ post)"
    and "wsum le (pre @ stored le (in_cksum le (pre @ [0, 0] @ post)) @ post) \<noteq> 0"
proof -
  let ?S = "wsum le pre + wsum le post" and ?p = "pre @ stored le (in_cksum le (pre @ [0, 0] @ post)) @ post"
  have z: "wsum le (pre @ [0, 0] @ post) = ?S" using assms(1) by (simp add: wsum_append unat_half)
  have c: "unat (in_cksum le (pre @ [0, 0] @ post)) = 65535 - ones ?S" using in_cksum_ones [of "pre @ [0, 0] @ post" le] assms(2) z by simp
  have "length (stored le x) = 2" for x by (simp add: stored_def)
  then have sum: "wsum le ?p = wsum le pre + (65535 - ones ?S) + wsum le post"
    using assms(1) c by (simp add: wsum_append stored_word)
  have "int ?S mod 65535 = int (ones ?S) mod 65535" using arg_cong [where f = int, OF ones_mod(2) [of ?S]] by (simp only: of_nat_mod of_nat_numeral)
  then have "65535 dvd int ?S - int (ones ?S)" by (simp add: mod_eq_dvd_iff)
  moreover have "int (wsum le ?p) = int ?S - int (ones ?S) + 65535" using sum ones_mod(1) [of ?S] by simp
  ultimately have "int 65535 dvd int (wsum le ?p)" by simp
  then show "65535 dvd wsum le ?p" by (simp only: int_dvd_int_iff)
  show "wsum le ?p \<noteq> 0" using sum ones_mod [of ?S] by auto
qed

section \<open>Properties\<close>

text \<open>
  C38.  A packet whose checksum field, at an even offset, was filled with the checksum of the packet with
  a zero field has checksum 0; after a change of any one byte, the field included, it has not.
\<close>

theorem cksum_detects_byte:
  assumes "even (length pre)" "length pre + 2 + length post \<le> 131074"
    and "packet = pre @ stored le (in_cksum le (pre @ [0, 0] @ post)) @ post"
  shows "in_cksum le packet = 0 \<and> (\<forall>i b. i < length packet \<and> b \<noteq> packet ! i \<longrightarrow> in_cksum le (packet[i := b]) \<noteq> 0)"
proof -
  have l: "length packet \<le> 131074" using assms(2) by (simp add: assms(3) stored_def)
  have "65535 dvd wsum le packet" "wsum le packet \<noteq> 0" using cksum_filled [OF assms(1,2)] by (simp_all add: assms(3))
  then have ok: "in_cksum le packet = 0" using in_cksum_zero [OF l] by simp
  have "in_cksum le (packet[i := b]) \<noteq> 0" if i: "i < length packet" "b \<noteq> packet ! i" for i b
  proof
    assume "in_cksum le (packet[i := b]) = 0"
    then have "65535 dvd wsum le (packet[i := b])" using in_cksum_zero [of "packet[i := b]" le] l by simp
    then have "int 65535 dvd int (wsum le (packet[i := b])) - int (wsum le packet)"
      using \<open>65535 dvd wsum le packet\<close> by (intro dvd_diff) (simp_all only: int_dvd_int_iff)
    moreover have "int (wsum le (packet[i := b])) - int (wsum le packet) = int (weight le i) * (int (unat b) - int (unat (packet ! i)))"
      using arg_cong [where f = int, OF wsum_update [OF i(1), of le b]] unfolding of_nat_add of_nat_mult right_diff_distrib by linarith
    ultimately have dvd: "65535 dvd int (weight le i) * (int (unat b) - int (unat (packet ! i)))" by simp
    have ne: "int (unat b) \<noteq> int (unat (packet ! i))" using i(2) unfolding of_nat_eq_iff by (simp add: word_eq_iff_unsigned [where 'a = nat])
    have "\<bar>int (weight le i) * (int (unat b) - int (unat (packet ! i)))\<bar> < 65535"
    proof -
      have "\<bar>w * d\<bar> < 65535" if "w = 1 \<or> w = 256" "\<bar>d\<bar> \<le> 255" for w d :: int using that by auto
      moreover have "int (weight le i) = 1 \<or> int (weight le i) = 256" by (simp add: weight_def)
      moreover have "\<bar>int (unat b) - int (unat (packet ! i))\<bar> \<le> 255" using unat_byte [of b] unat_byte [of "packet ! i"] by linarith
      ultimately show ?thesis by blast
    qed
    moreover have "int (weight le i) * (int (unat b) - int (unat (packet ! i))) \<noteq> 0" using ne by (simp add: weight_def)
    ultimately show False using dvd_imp_le_int [OF _ dvd] by linarith
  qed
  then show ?thesis using ok by blast
qed

theorem cksum_detects_byte_witness:
  "in_cksum True ([69, 0, 1, 2] @ stored True (in_cksum True ([69, 0, 1, 2] @ [0, 0] @ [7])) @ [7]) = 0
   \<and> in_cksum True (([69, 0, 1, 2] @ stored True (in_cksum True ([69, 0, 1, 2] @ [0, 0] @ [7])) @ [7])[6 := 8]) \<noteq> 0"
proof -
  let ?p = "[69, 0, 1, 2] @ stored True (in_cksum True ([69, 0, 1, 2] @ [0, 0] @ [7])) @ [7]"
  have "in_cksum True ?p = 0 \<and> (\<forall>i b. i < length ?p \<and> b \<noteq> ?p ! i \<longrightarrow> in_cksum True (?p[i := b]) \<noteq> 0)"
    by (rule cksum_detects_byte [OF _ _ refl]) simp_all
  moreover have "6 < length ?p \<and> 8 \<noteq> ?p ! 6" by (simp add: stored_def)
  ultimately show ?thesis by blast
qed

text \<open>
  The checksum does not depend on the byte order of the machine: the two bytes stored in the packet
  are the same.
\<close>

theorem cksum_byte_order:
  assumes "length bs \<le> 131074"
  shows "stored True (in_cksum True bs) = stored False (in_cksum False bs)"
proof -
  have "in_cksum True bs = of_nat (65535 - ones (wsum True bs))" "in_cksum False bs = of_nat (65535 - swap (ones (wsum True bs)))"
    using in_cksum_ones [OF assms] ones_swap by (metis of_unat)+
  then show ?thesis using stored_complement [OF ones_mod(1)] by simp
qed

theorem cksum_byte_order_witness: "stored True (in_cksum True [1, 2, 3]) = stored False (in_cksum False [1, 2, 3])"
  by (rule cksum_byte_order) simp

end
