(* ===== verification/Ftw8.thy ===== *)
theory Ftw8
  imports Prelude
begin

text \<open>
  The file tree walk of \<open>apue.3e/filedir/ftw8.c\<close>.  The file system is an argument: what \<open>lstat\<close>
  says of a path, which names a directory holds, and how many bytes can be allocated.  It does not
  change during the walk.  The recursion is bounded by fuel, one unit for each level.
\<close>

section \<open>State\<close>

text \<open>The file type bits of \<open>st_mode\<close>.\<close>

datatype ftype = S_IFREG | S_IFDIR | S_IFBLK | S_IFCHR | S_IFIFO | S_IFLNK | S_IFSOCK | S_OTHER

definition FTW_F :: int where "FTW_F = 1"
definition FTW_D :: int where "FTW_D = 2"
definition FTW_DNR :: int where "FTW_DNR = 3"
definition FTW_NS :: int where "FTW_NS = 4"

definition NAME_MAX :: nat where "NAME_MAX = 255"
definition PATH_MAX :: nat where "PATH_MAX = 4096"

text \<open>
  \<open>listing fs j path\<close> is what \<open>readdir\<close> returns until its end, \<open>None\<close> if \<open>opendir\<close> fails with \<open>j\<close>
  directory streams open.
\<close>

record fs =
  lstat :: "string \<Rightarrow> ftype option"
  listing :: "nat \<Rightarrow> string \<Rightarrow> string list option"
  alloc_ok :: "nat \<Rightarrow> bool"

text \<open>The path buffer, as the string up to its null byte, its size, the open streams and the caller's state.\<close>

record 's walk =
  fullpath :: string
  pathlen :: nat
  nopen :: nat
  cb :: 's

text \<open>\<open>statbuf\<close> holds nothing when \<open>lstat\<close> failed.\<close>

type_synonym 's func = "string \<Rightarrow> ftype option \<Rightarrow> int \<Rightarrow> ('s, int) prog"

section \<open>The walk\<close>

definition call :: "'s func \<Rightarrow> string \<Rightarrow> ftype option \<Rightarrow> int \<Rightarrow> ('s walk, int) prog" where
  "call func path st type w =
     (case func path st type (cb w) of Ret r s \<Rightarrow> Ret r (w\<lparr>cb := s\<rparr>) | Abort e s \<Rightarrow> Abort e (w\<lparr>cb := s\<rparr>))"

text \<open>\<open>strcpy\<close> to position \<open>n\<close> of the buffer: it is not seen behind an earlier null byte.\<close>

definition put_name :: "nat \<Rightarrow> string \<Rightarrow> string \<Rightarrow> string" where
  "put_name n d buf = (if length buf < n then buf else take n buf @ d)"

definition grow :: "fs \<Rightarrow> nat \<Rightarrow> ('s walk, unit) prog" where
  "grow F n w =
     (if n + NAME_MAX + 2 > pathlen w then
        (let w = w\<lparr>pathlen := pathlen w * 2\<rparr> in
         if alloc_ok F (pathlen w) then Ret () w else Abort (Err_sys ''realloc failed'') w)
      else Ret () w)"

primrec read_names :: "('s walk \<Rightarrow> ('s walk, int) outcome option) \<Rightarrow> nat \<Rightarrow> string list \<Rightarrow> int \<Rightarrow> 's walk \<Rightarrow> ('s walk, int) outcome option" where
  "read_names rec n [] rv w = Some (Ret rv w)"
| "read_names rec n (d # ds) rv w =
     (if d = ''.'' \<or> d = ''..'' then read_names rec n ds rv w
      else if n + length d + 1 > pathlen w then Some (Abort Undefined w)
      else (case rec (w\<lparr>fullpath := put_name n d (fullpath w)\<rparr>) of
          None \<Rightarrow> None
        | Some (Abort e w) \<Rightarrow> Some (Abort e w)
        | Some (Ret rv w) \<Rightarrow> if rv \<noteq> 0 then Some (Ret rv w) else read_names rec n ds rv w))"

text \<open>A directory that \<open>func\<close> was called for.  \<open>closedir\<close> succeeds on an open stream.\<close>

definition read_dir :: "fs \<Rightarrow> 's func \<Rightarrow> ('s walk \<Rightarrow> ('s walk, int) outcome option) \<Rightarrow> int \<Rightarrow> 's walk \<Rightarrow> ('s walk, int) outcome option" where
  "read_dir F func rec rv w =
     (let n = length (fullpath w) in
      case grow F n w of
        Abort e w \<Rightarrow> Some (Abort e w)
      | Ret _ w \<Rightarrow>
          if n + 2 > pathlen w then Some (Abort Undefined w)
          else (let w = w\<lparr>fullpath := fullpath w @ ''/''\<rparr>; n = n + 1 in
            case listing F (nopen w) (fullpath w) of
              None \<Rightarrow> Some (call func (fullpath w) (Some S_IFDIR) FTW_DNR w)
            | Some ds \<Rightarrow>
                (case read_names rec n ds rv (w\<lparr>nopen := nopen w + 1\<rparr>) of
                   None \<Rightarrow> None
                 | Some (Abort e w) \<Rightarrow> Some (Abort e w)
                 | Some (Ret rv w) \<Rightarrow> Some (Ret rv (w\<lparr>fullpath := take (n - 1) (fullpath w), nopen := nopen w - 1\<rparr>)))))"

primrec dopath :: "fs \<Rightarrow> 's func \<Rightarrow> nat \<Rightarrow> 's walk \<Rightarrow> ('s walk, int) outcome option" where
  "dopath F func 0 w = None"
| "dopath F func (Suc k) w =
     (case lstat F (fullpath w) of
        None \<Rightarrow> Some (call func (fullpath w) None FTW_NS w)
      | Some m \<Rightarrow>
          if m \<noteq> S_IFDIR then Some (call func (fullpath w) (Some m) FTW_F w)
          else (case call func (fullpath w) (Some m) FTW_D w of
              Abort e w \<Rightarrow> Some (Abort e w)
            | Ret rv w \<Rightarrow> if rv \<noteq> 0 then Some (Ret rv w) else read_dir F func (dopath F func k) rv w))"

text \<open>
  \<open>path_alloc\<close> with \<open>PATH_MAX\<close> defined: one byte more on systems before POSIX 2001 and XPG4.
\<close>

definition path_alloc :: "int \<Rightarrow> int \<Rightarrow> fs \<Rightarrow> nat option" where
  "path_alloc posix_version xsi_version F =
     (let sz = (if posix_version < 200112 \<and> xsi_version < 4 then PATH_MAX + 1 else PATH_MAX) in
      if alloc_ok F sz then Some sz else None)"

definition myftw :: "int \<times> int \<Rightarrow> fs \<Rightarrow> 's func \<Rightarrow> nat \<Rightarrow> string \<Rightarrow> 's \<Rightarrow> ('s walk, int) outcome option" where
  "myftw vers F func k pathname s =
     (let w = \<lparr>fullpath = '''', pathlen = 0, nopen = 0, cb = s\<rparr> in
      case path_alloc (fst vers) (snd vers) F of
        None \<Rightarrow> Some (Abort (Err_sys ''malloc error for pathname'') w)
      | Some sz \<Rightarrow>
          let len = (if sz \<le> length pathname then length pathname * 2 else sz);
              w = w\<lparr>pathlen := len\<rparr> in
          if sz \<le> length pathname \<and> \<not> alloc_ok F len then Some (Abort (Err_sys ''realloc failed'') w)
          else if length pathname + 1 > pathlen w then Some (Abort Undefined w)
          else dopath F func k (w\<lparr>fullpath := pathname\<rparr>))"

section \<open>Counting files\<close>

record counts =
  nreg :: int
  ndir :: int
  nblk :: int
  nchr :: int
  nfifo :: int
  nslink :: int
  nsock :: int
  messages :: "string list"

definition say :: "string \<Rightarrow> counts \<Rightarrow> counts" where
  "say m c = c\<lparr>messages := messages c @ [m]\<rparr>"

definition myfunc :: "counts func" where
  "myfunc pathname st type c =
     (if type = FTW_F then
        (case st of
           Some S_IFREG \<Rightarrow> Ret 0 (c\<lparr>nreg := nreg c + 1\<rparr>)
         | Some S_IFBLK \<Rightarrow> Ret 0 (c\<lparr>nblk := nblk c + 1\<rparr>)
         | Some S_IFCHR \<Rightarrow> Ret 0 (c\<lparr>nchr := nchr c + 1\<rparr>)
         | Some S_IFIFO \<Rightarrow> Ret 0 (c\<lparr>nfifo := nfifo c + 1\<rparr>)
         | Some S_IFLNK \<Rightarrow> Ret 0 (c\<lparr>nslink := nslink c + 1\<rparr>)
         | Some S_IFSOCK \<Rightarrow> Ret 0 (c\<lparr>nsock := nsock c + 1\<rparr>)
         | Some S_IFDIR \<Rightarrow> Abort (Err_dump (''for S_IFDIR for '' @ pathname)) c
         | _ \<Rightarrow> Ret 0 c)
      else if type = FTW_D then Ret 0 (c\<lparr>ndir := ndir c + 1\<rparr>)
      else if type = FTW_DNR then Ret 0 (say (''can't read directory '' @ pathname) c)
      else if type = FTW_NS then Ret 0 (say (''stat error for '' @ pathname) c)
      else Abort (Err_dump (''unknown type for pathname '' @ pathname)) c)"

text \<open>The program: the counts and their sum, at least 1, that the percentages are taken of, and the exit status.\<close>

definition no_counts :: counts where
  "no_counts = \<lparr>nreg = 0, ndir = 0, nblk = 0, nchr = 0, nfifo = 0, nslink = 0, nsock = 0, messages = []\<rparr>"

definition ntot :: "counts \<Rightarrow> int" where
  "ntot c = (let n = nreg c + ndir c + nblk c + nchr c + nfifo c + nslink c + nsock c in if n = 0 then 1 else n)"

definition ftw_main :: "int \<times> int \<Rightarrow> fs \<Rightarrow> nat \<Rightarrow> string list \<Rightarrow> (counts, int list \<times> int \<times> int) outcome option" where
  "ftw_main vers F k argv =
     (if length argv \<noteq> 2 then Some (Abort (Err_quit ''usage:  ftw  <starting-pathname>'') no_counts)
      else (case myftw vers F myfunc k (argv ! 1) no_counts of
        None \<Rightarrow> None
      | Some (Abort e w) \<Rightarrow> Some (Abort e (cb w))
      | Some (Ret rv w) \<Rightarrow>
          let c = cb w in Some (Ret ([nreg c, ndir c, nblk c, nchr c, nfifo c, nslink c, nsock c], ntot c, rv) c)))"

section \<open>The buffer\<close>

text \<open>What a call of \<open>dopath\<close> keeps, whatever the file system: the path it was called with, the streams.\<close>

definition roomy :: "'s walk \<Rightarrow> bool" where
  "roomy w \<longleftrightarrow> length (fullpath w) < pathlen w \<and> NAME_MAX < pathlen w"

definition keeps :: "nat \<Rightarrow> 's walk \<Rightarrow> 's walk \<Rightarrow> bool" where
  "keeps n w w' \<longleftrightarrow> n \<le> length (fullpath w') \<and> take n (fullpath w') = take n (fullpath w)
     \<and> pathlen w \<le> pathlen w' \<and> nopen w' = nopen w"

definition short_names :: "fs \<Rightarrow> bool" where
  "short_names F \<longleftrightarrow> (\<forall>j p ds. listing F j p = Some ds \<longrightarrow> list_all (\<lambda>d. length d \<le> NAME_MAX) ds)"

definition defined_func :: "'s func \<Rightarrow> bool" where
  "defined_func f \<longleftrightarrow> (\<forall>p st t s s'. f p st t s \<noteq> Abort Undefined s')"

text \<open>A good result for a call made with the path \<open>fullpath w\<close>.\<close>

definition safe :: "nat \<Rightarrow> 's walk \<Rightarrow> ('s walk, int) outcome option \<Rightarrow> bool" where
  "safe n w res \<longleftrightarrow> (case res of None \<Rightarrow> True
     | Some (Ret r w') \<Rightarrow> keeps n w w'
     | Some (Abort e w') \<Rightarrow> e \<noteq> Undefined)"

lemma safe_simps [simp]:
  "safe n w None" "safe n w (Some (Ret r w')) = keeps n w w'" "safe n w (Some (Abort e w')) = (e \<noteq> Undefined)"
  by (simp_all add: safe_def)

lemma keeps_refl [simp]: "n \<le> length (fullpath w) \<Longrightarrow> keeps n w w"
  by (simp add: keeps_def)

lemma keeps_trans: "keeps n w w' \<Longrightarrow> keeps m w' w'' \<Longrightarrow> n \<le> m \<Longrightarrow> keeps n w w''"
  unfolding keeps_def by (metis dual_order.trans min.absorb1 take_take)

lemma call_fields: "call f p st t w = Ret r w' \<Longrightarrow> fullpath w' = fullpath w \<and> pathlen w' = pathlen w \<and> nopen w' = nopen w"
  by (auto simp: call_def split: outcome.splits)

lemma call_defined: "defined_func f \<Longrightarrow> call f p st t w = Abort e w' \<Longrightarrow> e \<noteq> Undefined"
  by (auto simp: call_def defined_func_def split: outcome.splits)

lemma call_safe: "defined_func f \<Longrightarrow> n \<le> length (fullpath w) \<Longrightarrow> safe n w (Some (call f p st t w))"
  by (cases "call f p st t w") (auto simp: keeps_def dest: call_fields call_defined)

text \<open>After \<open>grow\<close> a slash and a name fit.\<close>

lemma grow_room:
  "roomy w \<Longrightarrow> grow F (length (fullpath w)) w = Ret u w' \<Longrightarrow>
     fullpath w' = fullpath w \<and> nopen w' = nopen w \<and> cb w' = cb w \<and> pathlen w \<le> pathlen w' \<and> length (fullpath w) + NAME_MAX + 2 \<le> pathlen w'"
  by (auto simp: grow_def roomy_def Let_def split: if_splits)

lemma grow_abort: "grow F n w = Abort e w' \<Longrightarrow> e = Err_sys ''realloc failed'' \<and> \<not> alloc_ok F (pathlen w')"
  by (auto simp: grow_def Let_def split: if_splits)

lemma read_names_safe:
  assumes "\<And>w. roomy w \<Longrightarrow> safe (length (fullpath w)) w (rec w)"
    and "list_all (\<lambda>d. length d \<le> NAME_MAX) ds" "n \<le> length (fullpath w)" "n + NAME_MAX + 1 \<le> pathlen w"
  shows "safe n w (read_names rec n ds rv w)"
  using assms(2-)
proof (induction ds arbitrary: rv w)
  case (Cons d ds)
  let ?w = "w\<lparr>fullpath := put_name n d (fullpath w)\<rparr>"
  have len: "length (fullpath ?w) = n + length d" "take n (fullpath ?w) = take n (fullpath w)" using Cons.prems(2) by (auto simp: put_name_def)
  have "roomy ?w" using Cons.prems len(1) by (simp add: roomy_def)
  then have s: "safe (length (fullpath ?w)) ?w (rec ?w)" by (rule assms(1))
  show ?case
  proof (cases "d = ''.'' \<or> d = ''..''")
    case True
    then show ?thesis using Cons by simp
  next
    case d: False
    have fit: "\<not> n + length d + 1 > pathlen w" using Cons.prems by simp
    show ?thesis
    proof (cases "rec ?w")
      case (Some res)
      show ?thesis
      proof (cases res)
        case (Ret r w')
        then have k: "keeps n w w'" using s Some len by (auto simp: keeps_def) (metis le_add1 min.absorb1 take_take)
        show ?thesis
        proof (cases "r = 0")
          case True
          have "safe n w' (read_names rec n ds r w')" using Cons.IH [of w' r] Cons.prems k by (auto simp: keeps_def)
          then have "safe n w (read_names rec n ds r w')" using k by (auto simp: safe_def split: option.splits outcome.splits intro: keeps_trans)
          then show ?thesis using d fit Some Ret True by simp
        next
          case False
          then show ?thesis using d fit Some Ret k by simp
        qed
      next
        case (Abort e w')
        then show ?thesis using d fit Some s by simp
      qed
    qed (use d fit in simp)
  qed
qed simp

lemma dopath_safe:
  assumes "short_names F" "defined_func f"
  shows "roomy w \<Longrightarrow> safe (length (fullpath w)) w (dopath F f k w)"
proof (induction k arbitrary: w)
  case (Suc k)
  show ?case
  proof (cases "\<exists>w1. lstat F (fullpath w) = Some S_IFDIR \<and> call f (fullpath w) (Some S_IFDIR) FTW_D w = Ret 0 w1")
    case False
    then show ?thesis using call_safe [OF assms(2) order.refl]
      by (auto split: option.splits outcome.splits simp: keeps_def dest: call_fields call_defined [OF assms(2)])
  next
    case True
    then obtain w1 where l: "lstat F (fullpath w) = Some S_IFDIR" and c: "call f (fullpath w) (Some S_IFDIR) FTW_D w = Ret 0 w1" by blast
    note w1 = call_fields [OF c]
    have r1: "roomy w1" using Suc.prems w1 by (simp add: roomy_def)
    have "safe (length (fullpath w)) w (read_dir F f (dopath F f k) 0 w1)"
    proof (cases "grow F (length (fullpath w1)) w1")
      case (Abort e w2)
      then show ?thesis using grow_abort by (fastforce simp: read_dir_def Let_def)
    next
      case (Ret u w2)
      note g = grow_room [OF r1 Ret]
      let ?w3 = "w2\<lparr>fullpath := fullpath w2 @ ''/''\<rparr>"
      have room: "\<not> length (fullpath w1) + 2 > pathlen w2" using g by simp
      show ?thesis
      proof (cases "listing F (nopen ?w3) (fullpath ?w3)")
        case None
        have "safe (length (fullpath w)) ?w3 (Some (call f (fullpath ?w3) (Some S_IFDIR) FTW_DNR ?w3))"
          using g w1 by (intro call_safe [OF assms(2)]) simp
        then have "safe (length (fullpath w)) w (Some (call f (fullpath ?w3) (Some S_IFDIR) FTW_DNR ?w3))"
          using g w1 by (auto simp: safe_def keeps_def split: outcome.splits)
        then show ?thesis using Ret room None by (simp add: read_dir_def Let_def)
      next
        case (Some ds)
        let ?n = "length (fullpath w1) + 1"
        have "list_all (\<lambda>d. length d \<le> NAME_MAX) ds" using assms(1) Some unfolding short_names_def by blast
        then have "safe ?n (?w3\<lparr>nopen := nopen ?w3 + 1\<rparr>) (read_names (dopath F f k) ?n ds 0 (?w3\<lparr>nopen := nopen ?w3 + 1\<rparr>))"
          using g by (intro read_names_safe Suc.IH) auto
        then show ?thesis using Ret room Some g w1
          by (auto simp: read_dir_def Let_def safe_def keeps_def split: option.splits outcome.splits)
            (metis (no_types, lifting) append_take_drop_id le_add1 length_take min.absorb2 take_take append_eq_conv_conj)
      qed
    qed
    then show ?thesis using l c by simp
  qed
qed simp

section \<open>The tree below a path\<close>

text \<open>A path \<open>lstat\<close> fails for, a file, a directory that cannot be read, and one with its entries.\<close>

datatype tree = Unstat | Leaf ftype | Locked | Dir "(string \<times> tree) list"

definition not_dots :: "string \<Rightarrow> bool" where
  "not_dots d \<longleftrightarrow> d \<noteq> ''.'' \<and> d \<noteq> ''..''"

text \<open>The file system has this tree at path \<open>p\<close>, for a walk that has \<open>j\<close> streams open.\<close>

fun has_tree :: "fs \<Rightarrow> nat \<Rightarrow> string \<Rightarrow> tree \<Rightarrow> bool" where
  "has_tree F j p Unstat = (lstat F p = None)"
| "has_tree F j p (Leaf m) = (lstat F p = Some m \<and> m \<noteq> S_IFDIR)"
| "has_tree F j p Locked = (lstat F p = Some S_IFDIR \<and> listing F j (p @ ''/'') = None)"
| "has_tree F j p (Dir es) = (lstat F p = Some S_IFDIR
     \<and> (case listing F j (p @ ''/'') of None \<Rightarrow> False | Some ds \<Rightarrow> filter not_dots ds = map fst es)
     \<and> (\<forall>(d, t) \<in> set es. length d \<le> NAME_MAX \<and> has_tree F (j + 1) (p @ ''/'' @ d) t))"

fun height :: "tree \<Rightarrow> nat" where
  "height (Dir es) = Suc (foldr (\<lambda>(d, t). max (height t)) es 0)"
| "height _ = 1"

text \<open>The calls of \<open>func\<close>, in order: a directory before its entries.\<close>

fun visits :: "string \<Rightarrow> tree \<Rightarrow> (string \<times> ftype option \<times> int) list" where
  "visits p Unstat = [(p, None, FTW_NS)]"
| "visits p (Leaf m) = [(p, Some m, FTW_F)]"
| "visits p Locked = [(p, Some S_IFDIR, FTW_D), (p @ ''/'', Some S_IFDIR, FTW_DNR)]"
| "visits p (Dir es) = (p, Some S_IFDIR, FTW_D) # concat (map (\<lambda>(d, t). visits (p @ ''/'' @ d) t) es)"

fun run_calls :: "'s func \<Rightarrow> (string \<times> ftype option \<times> int) list \<Rightarrow> ('s, int) prog" where
  "run_calls f [] s = Ret 0 s"
| "run_calls f ((p, st, t) # cs) s =
     (case f p st t s of Abort e s \<Rightarrow> Abort e s | Ret r s \<Rightarrow> if r \<noteq> 0 then Ret r s else run_calls f cs s)"

lemma run_calls_append:
  "run_calls f (cs @ cs') s =
     (case run_calls f cs s of Abort e s \<Rightarrow> Abort e s | Ret r s \<Rightarrow> if r \<noteq> 0 then Ret r s else run_calls f cs' s)"
  by (induction f cs s rule: run_calls.induct) (auto split: outcome.splits)

lemma height_entry: "(d, t) \<in> set es \<Longrightarrow> height t < height (Dir es)"
  by (induction es) (auto simp: less_Suc_eq_le le_max_iff_disj)

lemma height_pos: "0 < height t"
  by (cases t) simp_all

text \<open>A result that is the one of the calls in order.\<close>

definition outcome_is :: "('s walk, int) outcome option \<Rightarrow> ('s, int) outcome \<Rightarrow> bool" where
  "outcome_is res out \<longleftrightarrow> (case res of None \<Rightarrow> False
     | Some (Ret r w) \<Rightarrow> out = Ret r (cb w)
     | Some (Abort e w) \<Rightarrow> out = Abort e (cb w))"

lemma outcome_is_simps [simp]:
  "\<not> outcome_is None out" "outcome_is (Some (Ret r w)) out \<longleftrightarrow> out = Ret r (cb w)"
  "outcome_is (Some (Abort e w)) out \<longleftrightarrow> out = Abort e (cb w)"
  by (simp_all add: outcome_is_def)

lemma call_outcome: "outcome_is (Some (call f p st t w)) (f p st t (cb w))"
  by (simp add: call_def split: outcome.splits)

lemma call_calls: "outcome_is (Some (call f p st t w)) (run_calls f [(p, st, t)] (cb w))"
  using call_outcome [of f p st t w] by (auto split: outcome.splits)

text \<open>The entries of a directory, each with a walk \<open>rec\<close> that does what its tree says.\<close>

lemma read_names_walks:
  assumes "filter not_dots ds = map fst es" "n + NAME_MAX + 1 \<le> pathlen w" "take n (fullpath w) = p" "length p = n"
    and "\<And>d t w. (d, t) \<in> set es \<Longrightarrow> fullpath w = p @ d \<Longrightarrow> n + NAME_MAX + 1 \<le> pathlen w \<Longrightarrow> nopen w = j \<Longrightarrow>
          outcome_is (rec w) (run_calls f (visits (p @ d) t) (cb w)) \<and> safe (length (fullpath w)) w (rec w)"
    and "\<forall>(d, t) \<in> set es. length d \<le> NAME_MAX" "nopen w = j" "rv = 0"
  shows "outcome_is (read_names rec n ds rv w) (run_calls f (concat (map (\<lambda>(d, t). visits (p @ d) t) es)) (cb w))"
  using assms
proof (induction ds arbitrary: es w rv)
  case (Cons d ds)
  show ?case
  proof (cases "d = ''.'' \<or> d = ''..''")
    case True
    then have "\<not> not_dots d" by (auto simp: not_dots_def)
    then have "filter not_dots ds = map fst es" using Cons.prems(1) by simp
    then show ?thesis using True Cons.IH [of es w rv] Cons.prems(2-) by simp
  next
    case d: False
    then have "not_dots d" by (simp add: not_dots_def)
    then obtain t es' where es: "es = (d, t) # es'" and f: "filter not_dots ds = map fst es'"
      using Cons.prems(1) by (cases es) auto
    have n: "n \<le> length (fullpath w)" using Cons.prems(3,4) by (metis length_take min.absorb_iff2 min.commute)
    let ?w = "w\<lparr>fullpath := put_name n d (fullpath w)\<rparr>"
    have fp: "fullpath ?w = p @ d" using Cons.prems(3) n by (simp add: put_name_def)
    have fit: "\<not> n + length d + 1 > pathlen w" using Cons.prems(2,6) es by auto
    have r: "outcome_is (rec ?w) (run_calls f (visits (p @ d) t) (cb ?w))" "safe (length (fullpath ?w)) ?w (rec ?w)"
      using Cons.prems(5) [of d t ?w] es fp Cons.prems(2,7) by simp_all
    show ?thesis
    proof (cases "\<exists>w'. rec ?w = Some (Ret 0 w')")
      case True
      then obtain w' where w': "rec ?w = Some (Ret 0 w')" by blast
      then have k: "keeps (length (fullpath ?w)) ?w w'" using r(2) by simp
      then have t': "take n (fullpath w') = p" using fp Cons.prems(4) unfolding keeps_def
        by (metis append_eq_conv_conj le_add1 length_append min.absorb1 take_take)
      have "outcome_is (read_names rec n ds 0 w') (run_calls f (concat (map (\<lambda>(d, t). visits (p @ d) t) es')) (cb w'))"
        using Cons.prems k es by (intro Cons.IH [OF f _ t' Cons.prems(4)]) (auto simp: keeps_def)
      then show ?thesis using d fit w' r(1) es by (simp add: run_calls_append)
    next
      case False
      then show ?thesis using d fit r(1) es by (auto simp: run_calls_append outcome_is_def split: option.splits outcome.splits)
    qed
  qed
qed simp

lemma read_dir_start:
  assumes "\<And>n. alloc_ok F n" "roomy w"
  obtains w2 where "fullpath w2 = fullpath w @ ''/''" "nopen w2 = nopen w" "cb w2 = cb w" "length (fullpath w) + NAME_MAX + 2 \<le> pathlen w2"
    "read_dir F f rec rv w = (case listing F (nopen w) (fullpath w @ ''/'') of
        None \<Rightarrow> Some (call f (fullpath w @ ''/'') (Some S_IFDIR) FTW_DNR w2)
      | Some ds \<Rightarrow> (case read_names rec (length (fullpath w) + 1) ds rv (w2\<lparr>nopen := nopen w + 1\<rparr>) of
            None \<Rightarrow> None
          | Some (Abort e w) \<Rightarrow> Some (Abort e w)
          | Some (Ret r w') \<Rightarrow> Some (Ret r (w'\<lparr>fullpath := take (length (fullpath w)) (fullpath w'), nopen := nopen w' - 1\<rparr>))))"
proof (cases "grow F (length (fullpath w)) w")
  case (Abort e w1)
  then show ?thesis using grow_abort assms(1) by blast
next
  case (Ret u w1)
  note g = grow_room [OF assms(2) Ret]
  show ?thesis
  proof (rule that [of "w1\<lparr>fullpath := fullpath w1 @ ''/''\<rparr>"])
    have "\<not> length (fullpath w) + 2 > pathlen w1" using g by simp
    then show "read_dir F f rec rv w = (case listing F (nopen w) (fullpath w @ ''/'') of
        None \<Rightarrow> Some (call f (fullpath w @ ''/'') (Some S_IFDIR) FTW_DNR (w1\<lparr>fullpath := fullpath w1 @ ''/''\<rparr>))
      | Some ds \<Rightarrow> (case read_names rec (length (fullpath w) + 1) ds rv (w1\<lparr>fullpath := fullpath w1 @ ''/''\<rparr>\<lparr>nopen := nopen w + 1\<rparr>) of
            None \<Rightarrow> None
          | Some (Abort e w) \<Rightarrow> Some (Abort e w)
          | Some (Ret r w') \<Rightarrow> Some (Ret r (w'\<lparr>fullpath := take (length (fullpath w)) (fullpath w'), nopen := nopen w' - 1\<rparr>))))"
      using Ret g by (simp add: read_dir_def Let_def split: option.split outcome.split)
  qed (use g in auto)
qed

lemma first_call_walks:
  assumes "lstat F (fullpath w) = Some S_IFDIR"
    and "\<And>w1. fullpath w1 = fullpath w \<Longrightarrow> pathlen w1 = pathlen w \<Longrightarrow> nopen w1 = nopen w \<Longrightarrow>
      outcome_is (read_dir F f (dopath F f k) 0 w1) (run_calls f cs (cb w1))"
  shows "outcome_is (dopath F f (Suc k) w) (run_calls f ((fullpath w, Some S_IFDIR, FTW_D) # cs) (cb w))"
proof (cases "call f (fullpath w) (Some S_IFDIR) FTW_D w")
  case (Ret r w1)
  then have c: "f (fullpath w) (Some S_IFDIR) FTW_D (cb w) = Ret r (cb w1)"
    using call_outcome [of f "fullpath w" "Some S_IFDIR" FTW_D w] by simp
  show ?thesis
  proof (cases "r = 0")
    case True
    then show ?thesis using assms(1) assms(2) [of w1] call_fields [OF Ret] Ret c by simp
  qed (use assms(1) Ret c in simp)
next
  case (Abort e w1)
  then show ?thesis using assms(1) call_outcome [of f "fullpath w" "Some S_IFDIR" FTW_D w] by simp
qed

lemma dopath_walks:
  assumes "\<And>n. alloc_ok F n" "short_names F" "defined_func f"
  shows "has_tree F (nopen w) (fullpath w) t \<Longrightarrow> height t \<le> k \<Longrightarrow> roomy w \<Longrightarrow>
    outcome_is (dopath F f k w) (run_calls f (visits (fullpath w) t) (cb w))"
proof (induction k arbitrary: w t)
  case 0
  then show ?case using height_pos [of t] by simp
next
  case (Suc k)
  show ?case
  proof (cases t)
    case Unstat
    then show ?thesis using Suc.prems call_calls [of f "fullpath w" None FTW_NS w] by (simp del: run_calls.simps)
  next
    case (Leaf m)
    then show ?thesis using Suc.prems call_calls [of f "fullpath w" "Some m" FTW_F w] by (simp del: run_calls.simps)
  next
    case Locked
    have "outcome_is (read_dir F f (dopath F f k) 0 w1) (run_calls f [(fullpath w @ ''/'', Some S_IFDIR, FTW_DNR)] (cb w1))"
      if "fullpath w1 = fullpath w" "pathlen w1 = pathlen w" "nopen w1 = nopen w" for w1
    proof -
      have r: "roomy w1" using that Suc.prems(3) by (simp add: roomy_def)
      have none: "listing F (nopen w1) (fullpath w1 @ ''/'') = None" using that Suc.prems(1) Locked by simp
      obtain w2 where w2: "cb w2 = cb w1" "read_dir F f (dopath F f k) 0 w1 = Some (call f (fullpath w1 @ ''/'') (Some S_IFDIR) FTW_DNR w2)"
        by (rule read_dir_start [where F = F and f = f and rec = "dopath F f k" and rv = 0, OF assms(1) r]) (use none in simp)
      then show ?thesis using call_calls [of f "fullpath w @ ''/''" "Some S_IFDIR" FTW_DNR w2] that by (simp del: run_calls.simps)
    qed
    then show ?thesis using first_call_walks [of F w f k] Suc.prems(1) Locked by (simp del: run_calls.simps dopath.simps)
  next
    case (Dir es)
    let ?p = "fullpath w @ ''/''"
    obtain ds where ds: "listing F (nopen w) ?p = Some ds" "filter not_dots ds = map fst es"
      and l: "lstat F (fullpath w) = Some S_IFDIR"
      and sub: "\<And>d t. (d, t) \<in> set es \<Longrightarrow> length d \<le> NAME_MAX \<and> has_tree F (nopen w + 1) (?p @ d) t"
      using Suc.prems(1) Dir by (fastforce split: option.splits)
    have "outcome_is (read_dir F f (dopath F f k) 0 w1) (run_calls f (concat (map (\<lambda>(d, t). visits (?p @ d) t) es)) (cb w1))"
      if w1: "fullpath w1 = fullpath w" "pathlen w1 = pathlen w" "nopen w1 = nopen w" for w1
    proof -
      have r: "roomy w1" using w1 Suc.prems(3) by (simp add: roomy_def)
      obtain w2 where w2: "fullpath w2 = fullpath w1 @ ''/''" "nopen w2 = nopen w1" "cb w2 = cb w1" "length (fullpath w1) + NAME_MAX + 2 \<le> pathlen w2"
        and rd: "read_dir F f (dopath F f k) 0 w1 = (case read_names (dopath F f k) (length (fullpath w1) + 1) ds 0 (w2\<lparr>nopen := nopen w1 + 1\<rparr>) of
            None \<Rightarrow> None
          | Some (Abort e w) \<Rightarrow> Some (Abort e w)
          | Some (Ret r w') \<Rightarrow> Some (Ret r (w'\<lparr>fullpath := take (length (fullpath w1)) (fullpath w'), nopen := nopen w' - 1\<rparr>)))"
        by (rule read_dir_start [where F = F and f = f and rec = "dopath F f k" and rv = 0, OF assms(1) r]) (use ds(1) w1 in simp)
      have "outcome_is (read_names (dopath F f k) (length ?p) ds 0 (w2\<lparr>nopen := nopen w + 1\<rparr>))
          (run_calls f (concat (map (\<lambda>(d, t). visits (?p @ d) t) es)) (cb (w2\<lparr>nopen := nopen w + 1\<rparr>)))"
      proof (rule read_names_walks [OF ds(2), where j = "nopen w + 1"])
        fix d t and v :: "'a walk"
        assume d: "(d, t) \<in> set es" and v: "fullpath v = ?p @ d" "length ?p + NAME_MAX + 1 \<le> pathlen v" "nopen v = nopen w + 1"
        have "roomy v" using v sub [OF d] by (simp add: roomy_def)
        then show "outcome_is (dopath F f k v) (run_calls f (visits (?p @ d) t) (cb v)) \<and> safe (length (fullpath v)) v (dopath F f k v)"
          using Suc.IH [of v t] dopath_safe [OF assms(2,3), of v k] v sub [OF d] height_entry [OF d] Suc.prems(2) Dir by simp
      qed (use w2 w1 sub in auto)
      then show ?thesis unfolding rd using w2(3) w1 by (auto simp: outcome_is_def split: option.splits outcome.splits)
    qed
    then show ?thesis using first_call_walks [of F w f k, OF l] Dir by (simp del: run_calls.simps dopath.simps)
  qed
qed

section \<open>The counts\<close>

text \<open>How many files of a type, and how many directories, a tree has.\<close>

fun files :: "ftype \<Rightarrow> tree \<Rightarrow> int" where
  "files m (Leaf m') = (if m' = m then 1 else 0)"
| "files m (Dir es) = sum_list (map (\<lambda>(d, t). files m t) es)"
| "files m _ = 0"

fun dirs :: "tree \<Rightarrow> int" where
  "dirs Locked = 1"
| "dirs (Dir es) = 1 + sum_list (map (\<lambda>(d, t). dirs t) es)"
| "dirs _ = 0"

definition calls_with :: "ftype option \<Rightarrow> int \<Rightarrow> (string \<times> ftype option \<times> int) list \<Rightarrow> int" where
  "calls_with st ty cs = int (length (filter (\<lambda>(p, s, t). s = st \<and> t = ty) cs))"

definition walk_call :: "string \<times> ftype option \<times> int \<Rightarrow> bool" where
  "walk_call = (\<lambda>(p, st, t). t = FTW_F \<and> st \<noteq> None \<and> st \<noteq> Some S_IFDIR \<or> t = FTW_D \<and> st = Some S_IFDIR \<or> t = FTW_DNR \<or> t = FTW_NS)"

lemmas ftw_types = FTW_F_def FTW_D_def FTW_DNR_def FTW_NS_def

lemma calls_with_simps [simp]:
  "calls_with st ty [] = 0"
  "calls_with st ty ((p, s, t) # cs) = (if s = st \<and> t = ty then 1 else 0) + calls_with st ty cs"
  "calls_with st ty (cs @ cs') = calls_with st ty cs + calls_with st ty cs'"
  by (simp_all add: calls_with_def)

lemma calls_with_concat: "calls_with st ty (concat css) = sum_list (map (calls_with st ty) css)"
  by (induction css) simp_all

lemma myfunc_step:
  assumes "walk_call (p, st, t)"
  shows "\<exists>c'. myfunc p st t c = Ret 0 c' \<and> nreg c' = nreg c + (if st = Some S_IFREG \<and> t = FTW_F then 1 else 0)
     \<and> ndir c' = ndir c + (if st = Some S_IFDIR \<and> t = FTW_D then 1 else 0) \<and> nblk c' = nblk c + (if st = Some S_IFBLK \<and> t = FTW_F then 1 else 0)
     \<and> nchr c' = nchr c + (if st = Some S_IFCHR \<and> t = FTW_F then 1 else 0) \<and> nfifo c' = nfifo c + (if st = Some S_IFIFO \<and> t = FTW_F then 1 else 0)
     \<and> nslink c' = nslink c + (if st = Some S_IFLNK \<and> t = FTW_F then 1 else 0) \<and> nsock c' = nsock c + (if st = Some S_IFSOCK \<and> t = FTW_F then 1 else 0)"
proof -
  consider m where "t = FTW_F" "st = Some m" "m \<noteq> S_IFDIR" | "t = FTW_D" "st = Some S_IFDIR" | "t = FTW_DNR" | "t = FTW_NS"
    using assms by (auto simp: walk_call_def)
  then show ?thesis
  proof cases
    case (1 m)
    then show ?thesis by (cases m) (simp_all add: myfunc_def ftw_types)
  qed (simp_all add: myfunc_def ftw_types say_def)
qed

lemma myfunc_calls:
  "list_all walk_call cs \<Longrightarrow> \<exists>ms. run_calls myfunc cs c = Ret 0 \<lparr>nreg = nreg c + calls_with (Some S_IFREG) FTW_F cs,
     ndir = ndir c + calls_with (Some S_IFDIR) FTW_D cs, nblk = nblk c + calls_with (Some S_IFBLK) FTW_F cs,
     nchr = nchr c + calls_with (Some S_IFCHR) FTW_F cs, nfifo = nfifo c + calls_with (Some S_IFIFO) FTW_F cs,
     nslink = nslink c + calls_with (Some S_IFLNK) FTW_F cs, nsock = nsock c + calls_with (Some S_IFSOCK) FTW_F cs, messages = ms\<rparr>"
proof (induction cs arbitrary: c)
  case (Cons x cs)
  obtain p st t where x: "x = (p, st, t)" by (cases x)
  obtain c' where c': "myfunc p st t c = Ret 0 c'"
      "nreg c' = nreg c + (if st = Some S_IFREG \<and> t = FTW_F then 1 else 0)" "ndir c' = ndir c + (if st = Some S_IFDIR \<and> t = FTW_D then 1 else 0)"
      "nblk c' = nblk c + (if st = Some S_IFBLK \<and> t = FTW_F then 1 else 0)" "nchr c' = nchr c + (if st = Some S_IFCHR \<and> t = FTW_F then 1 else 0)"
      "nfifo c' = nfifo c + (if st = Some S_IFIFO \<and> t = FTW_F then 1 else 0)" "nslink c' = nslink c + (if st = Some S_IFLNK \<and> t = FTW_F then 1 else 0)"
      "nsock c' = nsock c + (if st = Some S_IFSOCK \<and> t = FTW_F then 1 else 0)"
    using myfunc_step [of p st t c] Cons.prems x by auto
  have "list_all walk_call cs" using Cons.prems by simp
  from Cons.IH [OF this, of c'] show ?case using c' x by (simp add: add.assoc)
next
  case Nil
  then show ?case by (cases c) simp
qed

lemma visits_calls:
  "m \<noteq> S_IFDIR \<Longrightarrow> calls_with (Some m) FTW_F (visits p t) = files m t"
  "calls_with (Some S_IFDIR) FTW_D (visits p t) = dirs t"
  by (induction p t rule: visits.induct)
    (auto simp: ftw_types calls_with_concat comp_def case_prod_beta intro!: arg_cong [of _ _ sum_list] map_cong)

lemma visits_walk_calls: "has_tree F j p t \<Longrightarrow> list_all walk_call (visits p t)"
proof (induction F j p t rule: has_tree.induct)
  case (4 F j p es)
  have "list_all walk_call (visits (p @ ''/'' @ d) t)" if "(d, t) \<in> set es" for d t
    using 4 that by fastforce
  moreover have "walk_call (p, Some S_IFDIR, FTW_D)" by (simp add: walk_call_def)
  ultimately show ?case by (auto simp: list_all_iff)
qed (auto simp: walk_call_def)

lemma myfunc_defined: "defined_func myfunc"
  by (auto simp: defined_func_def myfunc_def split: if_splits option.splits ftype.splits)

lemma files_nonneg: "0 \<le> files m t" "0 \<le> dirs t"
  by (induction t rule: dirs.induct) (auto intro!: sum_list_nonneg add_nonneg_nonneg)

lemma myftw_cases:
  obtains w where "myftw vers F f k pathname s = dopath F f k w" "fullpath w = pathname" "nopen w = 0" "cb w = s" "roomy w"
  | m w where "myftw vers F f k pathname s = Some (Abort (Err_sys m) w)" "\<not> (\<forall>n. alloc_ok F n)"
proof -
  let ?sz = "if fst vers < 200112 \<and> snd vers < 4 then PATH_MAX + 1 else PATH_MAX"
  let ?len = "if ?sz \<le> length pathname then length pathname * 2 else ?sz"
  have l: "length pathname < ?len" "NAME_MAX < ?len" by (auto simp: PATH_MAX_def NAME_MAX_def)
  consider "\<not> alloc_ok F ?sz" | "alloc_ok F ?sz" "?sz \<le> length pathname" "\<not> alloc_ok F ?len"
    | "alloc_ok F ?sz" "?sz \<le> length pathname \<longrightarrow> alloc_ok F ?len" by blast
  then show ?thesis
  proof cases
    case 3
    then show ?thesis using that(1) [of "\<lparr>fullpath = pathname, pathlen = ?len, nopen = 0, cb = s\<rparr>"] l
      by (simp add: myftw_def path_alloc_def roomy_def Let_def)
  qed (use that(2) in \<open>auto simp: myftw_def path_alloc_def Let_def\<close>)
qed

lemma myftw_start:
  assumes "\<And>n. alloc_ok F n"
  obtains w where "myftw vers F f k pathname s = dopath F f k w" "fullpath w = pathname" "nopen w = 0" "cb w = s" "roomy w"
  using myftw_cases assms by metis

text \<open>A directory with a file, a directory that cannot be read, and a name that went away.\<close>

definition sample_fs :: fs where
  "sample_fs = \<lparr>lstat = (\<lambda>p. if p = ''d'' \<or> p = ''d/x'' then Some S_IFDIR else if p = ''d/a'' then Some S_IFREG else None),
     listing = (\<lambda>j p. if p = ''d/'' then Some [''.'', ''..'', ''a'', ''x'', ''b''] else None), alloc_ok = (\<lambda>_. True)\<rparr>"

definition sample_tree :: tree where
  "sample_tree = Dir [(''a'', Leaf S_IFREG), (''x'', Locked), (''b'', Unstat)]"

lemma sample_short_names: "short_names sample_fs"
  by (simp add: short_names_def sample_fs_def NAME_MAX_def)

lemma sample_has_tree: "has_tree sample_fs 0 ''d'' sample_tree" "height sample_tree = 2" "alloc_ok sample_fs n"
  by (simp_all add: sample_fs_def sample_tree_def NAME_MAX_def not_dots_def)

section \<open>Properties\<close>

text \<open>
  C37.  Whatever the file system holds, if no name is longer than \<open>NAME_MAX\<close> the walk never writes beyond
  its path buffer; when it returns, however deep it was, the buffer still begins with the path it
  started from and all directory streams are closed, also if \<open>func\<close> asked to stop.
\<close>

theorem ftw_stays_in_buffer:
  assumes "short_names F" "defined_func f"
  shows "case myftw vers F f k pathname s of
      None \<Rightarrow> True
    | Some (Ret r w) \<Rightarrow> nopen w = 0 \<and> take (length pathname) (fullpath w) = pathname \<and> length pathname < pathlen w
    | Some (Abort e w) \<Rightarrow> e \<noteq> Undefined"
proof (cases rule: myftw_cases [of vers F f k pathname s])
  case (1 w)
  then have "safe (length pathname) w (dopath F f k w)" using dopath_safe [OF assms, of w k] by simp
  then show ?thesis using 1 by (auto simp: safe_def keeps_def roomy_def split: option.splits outcome.splits)
next
  case (2 m w)
  then show ?thesis by simp
qed

theorem ftw_stays_in_buffer_witness:
  "case myftw (200809, 700) sample_fs myfunc 2 ''d'' no_counts of
      None \<Rightarrow> True
    | Some (Ret r w) \<Rightarrow> nopen w = 0 \<and> take (length ''d'') (fullpath w) = ''d'' \<and> length ''d'' < pathlen w
    | Some (Abort e w) \<Rightarrow> e \<noteq> Undefined"
  by (rule ftw_stays_in_buffer [OF sample_short_names myfunc_defined])

text \<open>
  C36.  On a finite tree of files the walk ends, with one level of recursion for each level of the tree:
  it calls \<open>func\<close> for a directory, then for each of its entries, stops at the first call that does
  not return 0, and returns what that call did.
\<close>

theorem ftw_walks_tree:
  assumes "\<And>n. alloc_ok F n" "short_names F" "defined_func f" "has_tree F 0 pathname t" "height t \<le> k"
  shows "\<exists>res. myftw vers F f k pathname s = Some res
    \<and> run_calls f (visits pathname t) s = (case res of Ret r w \<Rightarrow> Ret r (cb w) | Abort e w \<Rightarrow> Abort e (cb w))"
proof (rule myftw_start [OF assms(1), of vers f k pathname s])
  fix w :: "'a walk"
  assume w: "myftw vers F f k pathname s = dopath F f k w" "fullpath w = pathname" "nopen w = 0" "cb w = s" "roomy w"
  have "outcome_is (dopath F f k w) (run_calls f (visits pathname t) s)"
    using dopath_walks [OF assms(1-3), of w t k] assms(4,5) w by simp
  then show ?thesis using w(1) by (auto simp: outcome_is_def split: option.splits outcome.splits)
qed

theorem ftw_walks_tree_witness:
  "\<exists>res. myftw (200809, 700) sample_fs myfunc 2 ''d'' no_counts = Some res
    \<and> (case res of Ret r w \<Rightarrow> r = 0 \<and> nreg (cb w) = 1 \<and> ndir (cb w) = 2
         \<and> messages (cb w) = [''can't read directory d/x/'', ''stat error for d/b''] | Abort e w \<Rightarrow> False)"
proof -
  have "run_calls myfunc (visits ''d'' sample_tree) no_counts = Ret 0 (no_counts\<lparr>nreg := 1, ndir := 2,
      messages := [''can't read directory d/x/'', ''stat error for d/b'']\<rparr>)"
    by (simp add: sample_tree_def myfunc_def ftw_types say_def no_counts_def)
  then obtain res where r: "myftw (200809, 700) sample_fs myfunc 2 ''d'' no_counts = Some res"
    "Ret 0 (no_counts\<lparr>nreg := 1, ndir := 2, messages := [''can't read directory d/x/'', ''stat error for d/b'']\<rparr>)
       = (case res of Ret r w \<Rightarrow> Ret r (cb w) | Abort e w \<Rightarrow> Abort e (cb w))"
    using ftw_walks_tree [OF sample_has_tree(3) sample_short_names myfunc_defined sample_has_tree(1), of 2 "(200809, 700)" no_counts] sample_has_tree(2)
    by auto
  then show ?thesis
  proof (cases res)
    case (Ret rv w)
    then have "rv = 0" "cb w = no_counts\<lparr>nreg := 1, ndir := 2, messages := [''can't read directory d/x/'', ''stat error for d/b'']\<rparr>"
      using r(2) by simp_all
    then show ?thesis using r(1) Ret by simp
  qed simp
qed

text \<open>
  The program counts each file once under its type, and each directory once, whether it can be read
  or not; it never stops in \<open>err_dump\<close>, and its exit status is 0.
\<close>

theorem ftw_counts:
  assumes "\<And>n. alloc_ok F n" "short_names F" "has_tree F 0 pathname t" "height t \<le> k"
  shows "\<exists>c. ftw_main vers F k [prog, pathname] = Some (Ret
    ([files S_IFREG t, dirs t, files S_IFBLK t, files S_IFCHR t, files S_IFIFO t, files S_IFLNK t, files S_IFSOCK t],
     max 1 (dirs t + sum_list (map (\<lambda>m. files m t) [S_IFREG, S_IFBLK, S_IFCHR, S_IFIFO, S_IFLNK, S_IFSOCK])), 0) c)"
proof (rule myftw_start [OF assms(1), of vers myfunc k pathname no_counts])
  fix w :: "counts walk"
  assume w: "myftw vers F myfunc k pathname no_counts = dopath F myfunc k w" "fullpath w = pathname" "nopen w = 0" "cb w = no_counts" "roomy w"
  have "outcome_is (dopath F myfunc k w) (run_calls myfunc (visits pathname t) no_counts)"
    using dopath_walks [OF assms(1,2) myfunc_defined, of w t k] assms(3,4) w by simp
  moreover obtain c where c: "run_calls myfunc (visits pathname t) no_counts = Ret 0 c" "nreg c = files S_IFREG t" "ndir c = dirs t"
      "nblk c = files S_IFBLK t" "nchr c = files S_IFCHR t" "nfifo c = files S_IFIFO t" "nslink c = files S_IFLNK t" "nsock c = files S_IFSOCK t"
    using myfunc_calls [OF visits_walk_calls [OF assms(3)], of no_counts] by (auto simp: no_counts_def visits_calls)
  ultimately obtain w' where w': "myftw vers F myfunc k pathname no_counts = Some (Ret 0 w')" "cb w' = c"
    using w(1) by (auto simp: outcome_is_def split: option.splits outcome.splits)
  have nn: "0 \<le> files m t" "0 \<le> dirs t" for m by (rule files_nonneg)+
  have "ntot c = max 1 (dirs t + sum_list (map (\<lambda>m. files m t) [S_IFREG, S_IFBLK, S_IFCHR, S_IFIFO, S_IFLNK, S_IFSOCK]))"
    using c(2-) nn(2) nn(1) [of S_IFREG] nn(1) [of S_IFBLK] nn(1) [of S_IFCHR] nn(1) [of S_IFIFO] nn(1) [of S_IFLNK] nn(1) [of S_IFSOCK]
    by (simp add: ntot_def Let_def)
  then show ?thesis using w' c(2-) by (simp add: ftw_main_def)
qed

theorem ftw_counts_witness:
  "\<exists>c. ftw_main (200809, 700) sample_fs 2 [''ftw8'', ''d''] = Some (Ret ([1, 2, 0, 0, 0, 0, 0], 3, 0) c)"
  using ftw_counts [OF sample_has_tree(3) sample_short_names sample_has_tree(1), of 2 "(200809, 700)" "''ftw8''"] sample_has_tree(2)
  by (simp add: sample_tree_def)

end
