(* ===== verification/Fd_Scan.thy ===== *)
theory Fd_Scan
  imports Prelude Index_Count
begin

text \<open>
  The loop that the servers with \<open>select\<close> or \<open>poll\<close> share: it goes through the indices of the clients,
  serves those whose descriptor is ready and counts them down, and leaves early when the count that
  \<open>select\<close> or \<open>poll\<close> returned is used up.  The locale states when leaving early skips nothing.
\<close>

definition FD_SETSIZE :: nat where "FD_SETSIZE = 1024"

text \<open>
  \<open>ready s i\<close>: the entry is in use and its descriptor is ready; \<open>serve i\<close>: the body for it.  The
  result is the new state with what is left of \<open>nready\<close>.
\<close>

fun scan :: "('s \<Rightarrow> nat \<Rightarrow> bool) \<Rightarrow> (nat \<Rightarrow> ('s, unit) prog) \<Rightarrow> nat list \<Rightarrow> int \<Rightarrow> ('s, unit) prog" where
  "scan ready serve [] nready s = Ret () s"
| "scan ready serve (i # is) nready s =
     (if \<not> ready s i then scan ready serve is nready s
      else case serve i s of
             Abort e s \<Rightarrow> Abort e s
           | Ret _ s \<Rightarrow> if nready - 1 \<le> 0 then Ret () s else scan ready serve is (nready - 1) s)"

text \<open>The loop without the count.\<close>

fun serve_all :: "('s \<Rightarrow> nat \<Rightarrow> bool) \<Rightarrow> (nat \<Rightarrow> ('s, unit) prog) \<Rightarrow> nat list \<Rightarrow> ('s, unit) prog" where
  "serve_all ready serve [] s = Ret () s"
| "serve_all ready serve (i # is) s =
     (if \<not> ready s i then serve_all ready serve is s
      else case serve i s of Abort e s \<Rightarrow> Abort e s | Ret _ s \<Rightarrow> serve_all ready serve is s)"

lemma serve_all_none: "\<forall>i \<in> set is. \<not> ready s i \<Longrightarrow> serve_all ready serve is s = Ret () s"
  by (induction "is") auto

lemma serve_all_append:
  "serve_all ready serve (is @ js) s =
     (case serve_all ready serve is s of Abort e s \<Rightarrow> Abort e s | Ret _ s \<Rightarrow> serve_all ready serve js s)"
  by (induction "is" arbitrary: s) (auto split: outcome.splits)

lemma serve_all_cong:
  assumes "Q s" and ready: "\<And>s i. Q s \<Longrightarrow> i \<in> set is \<Longrightarrow> ready1 s i = ready2 s i"
    and Q: "\<And>s i u s'. Q s \<Longrightarrow> ready1 s i \<Longrightarrow> serve i s = Ret u s' \<Longrightarrow> Q s'"
  shows "serve_all ready1 serve is s = serve_all ready2 serve is s"
  using assms(1) ready
proof (induction "is" arbitrary: s)
  case (Cons i "is")
  have r: "ready1 s i = ready2 s i" using Cons.prems by simp
  have "serve_all ready1 serve is t = serve_all ready2 serve is t" if "Q t" for t
    by (rule Cons.IH) (use that Cons.prems(2) in auto)
  then show ?case using r Cons.prems(1) Q [OF Cons.prems(1)] by (auto split: outcome.splits)
qed simp

text \<open>\<open>P\<close> is what the client knows of its states; serving one entry leaves the others as ready as they were.\<close>

locale fd_scan =
  fixes P :: "'s \<Rightarrow> bool"
    and ready :: "'s \<Rightarrow> nat \<Rightarrow> bool"
    and serve :: "nat \<Rightarrow> ('s, unit) prog"
  assumes serve_keeps: "P s \<Longrightarrow> ready s i \<Longrightarrow> serve i s = Ret u s' \<Longrightarrow> P s'"
    and serve_others: "P s \<Longrightarrow> ready s i \<Longrightarrow> serve i s = Ret u s' \<Longrightarrow> j \<noteq> i \<Longrightarrow> ready s' j = ready s j"
begin

lemma serve_all_keeps: "P s \<Longrightarrow> serve_all ready serve is s = Ret u s' \<Longrightarrow> P s'"
  by (induction "is" arbitrary: s) (auto split: if_splits outcome.splits dest: serve_keeps)

text \<open>
  A count that is at least the number of ready entries never ends the loop too early, and if it is
  that number the loop looks at nothing after the last of them.
\<close>

lemma scan_count:
  "P s \<Longrightarrow> distinct is \<Longrightarrow> int (card {i \<in> set is. ready s i}) \<le> n \<Longrightarrow>
   js = [] \<or> int (card {i \<in> set is. ready s i}) = n \<and> 0 < n \<Longrightarrow>
   scan ready serve (is @ js) n s = serve_all ready serve is s"
proof (induction "is" arbitrary: s n)
  case (Cons i "is")
  show ?case
  proof (cases "ready s i")
    case False
    then have "{j \<in> set (i # is). ready s j} = {j \<in> set is. ready s j}" by auto
    then show ?thesis using False Cons by simp
  next
    case True
    show ?thesis
    proof (cases "serve i s")
      case (Ret u s')
      have P': "P s'" using serve_keeps [OF Cons.prems(1) True Ret] .
      have "{j \<in> set is. ready s' j} = {j \<in> set is. ready s j}"
        using serve_others [OF Cons.prems(1) True Ret] Cons.prems(2) by (intro Collect_cong) (metis distinct.simps(2))
      moreover have "{j \<in> set (i # is). ready s j} = insert i {j \<in> set is. ready s j}" using True by auto
      ultimately have c: "int (card {j \<in> set (i # is). ready s j}) = int (card {j \<in> set is. ready s' j}) + 1"
        using Cons.prems(2) by simp
      show ?thesis
      proof (cases "n - 1 \<le> 0")
        case True
        then have "card {j \<in> set is. ready s' j} = 0" using c Cons.prems(3) by linarith
        then have "serve_all ready serve is s' = Ret () s'" by (intro serve_all_none) auto
        then show ?thesis using True \<open>ready s i\<close> Ret by simp
      next
        case False
        have "scan ready serve (is @ js) (n - 1) s' = serve_all ready serve is s'"
          by (rule Cons.IH) (use P' c False Cons.prems(2-4) in auto)
        then show ?thesis using False \<open>ready s i\<close> Ret by simp
      qed
    qed (use True in simp)
  qed
qed auto

lemma scan_serves_all:
  "P s \<Longrightarrow> distinct is \<Longrightarrow> int (card {i \<in> set is. ready s i}) \<le> n \<Longrightarrow>
   scan ready serve is n s = serve_all ready serve is s"
  using scan_count [of s "is" n "[]"] by simp

lemma scan_stops:
  "P s \<Longrightarrow> distinct is \<Longrightarrow> int (card {i \<in> set is. ready s i}) = n \<Longrightarrow> 0 < n \<Longrightarrow>
   scan ready serve (is @ js) n s = serve_all ready serve is s"
  using scan_count [of s "is" n js] by simp

text \<open>Entries beyond the highest index in use are never ready.\<close>

lemma serve_all_upto:
  assumes "P s" "a \<le> m" "m \<le> k" "\<And>s' i. P s' \<Longrightarrow> m \<le> i \<Longrightarrow> \<not> ready s' i"
  shows "serve_all ready serve [a ..< k] s = serve_all ready serve [a ..< m] s"
proof -
  have k: "[a ..< k] = [a ..< m] @ [m ..< k]" using assms(2,3) upt_add_eq_append [of a m "k - m"] by simp
  have "serve_all ready serve [m ..< k] t = Ret () t" if "P t" for t
    using assms(4) that by (intro serve_all_none) auto
  then show ?thesis unfolding k serve_all_append
    using serve_all_keeps [OF assms(1)] by (auto split: outcome.splits)
qed

lemma scan_serves_upto:
  assumes "P s" "m \<le> k" "\<And>s' i. P s' \<Longrightarrow> m \<le> i \<Longrightarrow> \<not> ready s' i" "int (card {i. i < m \<and> ready s i}) \<le> n"
  shows "scan ready serve [0 ..< m] n s = serve_all ready serve [0 ..< k] s"
proof -
  have "scan ready serve [0 ..< m] n s = serve_all ready serve [0 ..< m] s"
    using assms(1,4) by (intro scan_serves_all) auto
  then show ?thesis using serve_all_upto [OF assms(1) _ assms(2,3)] by simp
qed

end

text \<open>A table of descriptors in which \<open>-1\<close> marks a free entry: those in use are distinct.\<close>

definition fd_table :: "int list \<Rightarrow> bool" where
  "fd_table cs \<longleftrightarrow> (\<forall>i < length cs. \<forall>j < length cs. 0 \<le> cs ! i \<longrightarrow> cs ! i = cs ! j \<longrightarrow> i = j)"

definition open_fds :: "int list \<Rightarrow> int set" where
  "open_fds cs = {fd \<in> set cs. 0 \<le> fd}"

definition first_free :: "int list \<Rightarrow> nat" where
  "first_free cs = first_index (length cs) (\<lambda>i. cs ! i < 0)"

lemma first_free_eq:
  assumes "i < length cs" "cs ! i < 0" "\<forall>j < i. 0 \<le> cs ! j"
  shows "first_free cs = i"
proof -
  have u: "[0 ..< length cs] = [0 ..< i] @ i # [Suc i ..< length cs]"
    using assms(1) upt_add_eq_append [of 0 i "length cs - i"] upt_conv_Cons [of i "length cs"] by simp
  show ?thesis unfolding first_free_def first_index_def u using assms(2,3) by (subst takeWhile_append2) auto
qed

lemma fd_tableD: "fd_table cs \<Longrightarrow> i < length cs \<Longrightarrow> j < length cs \<Longrightarrow> 0 \<le> cs ! i \<Longrightarrow> cs ! i = cs ! j \<Longrightarrow> i = j"
  by (auto simp: fd_table_def)

lemma fd_table_empty [simp]: "fd_table (replicate n (-1))" "open_fds (replicate n (-1)) = {}"
  by (auto simp: fd_table_def open_fds_def)

lemma fd_table_tl: "fd_table cs \<Longrightarrow> fd_table (tl cs)"
proof -
  assume t: "fd_table cs"
  have "i = j" if "i < length (tl cs)" "j < length (tl cs)" "0 \<le> tl cs ! i" "tl cs ! i = tl cs ! j" for i j
    using fd_tableD [OF t, of "Suc i" "Suc j"] that by (simp add: nth_tl)
  then show ?thesis by (simp add: fd_table_def)
qed

lemma fd_table_distinct:
  "fd_table (map g cs) \<Longrightarrow> (\<And>c. P c \<Longrightarrow> 0 \<le> g c) \<Longrightarrow> distinct (map g (filter P (take n cs)))"
proof (induction cs arbitrary: n)
  case (Cons c cs)
  show ?case
  proof (cases n)
    case (Suc m)
    have "g d \<noteq> g c" if "d \<in> set (take m cs)" "P c" for d
    proof -
      have "d \<in> set cs" using that(1) by (rule in_set_takeD)
      moreover have "0 \<le> g c" by (rule Cons.prems(2) [OF that(2)])
      ultimately show ?thesis using fd_tableD [OF Cons.prems(1), of 0 "Suc j" for j] by (fastforce simp: in_set_conv_nth)
    qed
    then show ?thesis using Cons.IH [of m] fd_table_tl [OF Cons.prems(1)] Cons.prems(2) Suc by fastforce
  qed simp
qed simp

lemma open_fds_iff: "fd \<in> open_fds cs \<longleftrightarrow> 0 \<le> fd \<and> (\<exists>i < length cs. cs ! i = fd)"
  by (auto simp: open_fds_def in_set_conv_nth)

lemma finite_open_fds [simp]: "finite (open_fds cs)"
  by (simp add: open_fds_def)

lemma open_fds_upd:
  assumes "i < length cs"
  shows "fd \<in> open_fds (cs[i := x]) \<longleftrightarrow> 0 \<le> fd \<and> (fd = x \<or> (\<exists>j < length cs. j \<noteq> i \<and> cs ! j = fd))"
proof -
  have "(\<exists>j < length cs. cs[i := x] ! j = fd) \<longleftrightarrow> cs[i := x] ! i = fd \<or> (\<exists>j < length cs. j \<noteq> i \<and> cs[i := x] ! j = fd)"
    using assms by metis
  also have "\<dots> \<longleftrightarrow> fd = x \<or> (\<exists>j < length cs. j \<noteq> i \<and> cs ! j = fd)" using assms by (auto simp: nth_list_update)
  finally show ?thesis by (simp add: open_fds_iff)
qed

lemma fd_table_add:
  assumes "fd_table cs" "i < length cs" "cs ! i < 0" "0 \<le> fd" "fd \<notin> open_fds cs"
  shows "fd_table (cs[i := fd])" "open_fds (cs[i := fd]) = insert fd (open_fds cs)"
proof -
  have other: "cs ! j \<noteq> fd" if "j < length cs" for j using assms(4,5) that by (auto simp: open_fds_iff)
  show "fd_table (cs[i := fd])" using assms(1,2) other unfolding fd_table_def by (auto simp: nth_list_update)
  show "open_fds (cs[i := fd]) = insert fd (open_fds cs)"
  proof (rule set_eqI)
    fix x
    have "(\<exists>j < length cs. j \<noteq> i \<and> cs ! j = x) \<longleftrightarrow> (\<exists>j < length cs. cs ! j = x)" if "0 \<le> x" using assms(3) that by (metis not_le)
    then show "x \<in> open_fds (cs[i := fd]) \<longleftrightarrow> x \<in> insert fd (open_fds cs)"
      using assms(4) unfolding open_fds_upd [OF assms(2)] insert_iff open_fds_iff [of _ cs] by blast
  qed
qed

lemma fd_table_del:
  assumes "fd_table cs" "i < length cs" "0 \<le> cs ! i"
  shows "fd_table (cs[i := -1])" "open_fds (cs[i := -1]) = open_fds cs - {cs ! i}"
proof -
  have "cs[i := -1] ! j = (if j = i then -1 else cs ! j)" if "j < length cs" for j using that by (simp add: nth_list_update)
  then show "fd_table (cs[i := -1])" using fd_tableD [OF assms(1)] unfolding fd_table_def by (simp split: if_splits)
  show "open_fds (cs[i := -1]) = open_fds cs - {cs ! i}"
  proof (rule set_eqI)
    fix x
    have "(\<exists>j < length cs. j \<noteq> i \<and> cs ! j = x) \<longleftrightarrow> (\<exists>j < length cs. cs ! j = x) \<and> x \<noteq> cs ! i"
      using fd_tableD [OF assms(1) assms(2) _ assms(3)] by metis
    then show "x \<in> open_fds (cs[i := -1]) \<longleftrightarrow> x \<in> open_fds cs - {cs ! i}"
      using assms(3) unfolding open_fds_upd [OF assms(2)] Diff_iff singleton_iff open_fds_iff [of _ cs] by auto
  qed
qed

lemma card_open_fds: "fd_table cs \<Longrightarrow> card (open_fds cs) = card {i. i < length cs \<and> 0 \<le> cs ! i}"
proof -
  assume t: "fd_table cs"
  have "open_fds cs = (!) cs ` {i. i < length cs \<and> 0 \<le> cs ! i}" by (auto simp: open_fds_iff)
  moreover have "inj_on ((!) cs) {i. i < length cs \<and> 0 \<le> cs ! i}" using fd_tableD [OF t] by (auto intro!: inj_onI)
  ultimately show ?thesis by (simp add: card_image)
qed

text \<open>A full table of \<open>FD_SETSIZE\<close> entries has no room for the descriptor of another open file.\<close>

lemma full_table:
  assumes "fd_table cs" "length cs = FD_SETSIZE" "first_free cs = length cs" "open_fds cs \<subseteq> {0 ..< int FD_SETSIZE}"
  shows "open_fds cs = {0 ..< int FD_SETSIZE}"
proof -
  have "{i. i < length cs \<and> 0 \<le> cs ! i} = {..< length cs}"
    using first_index_none [OF assms(3) [unfolded first_free_def]] by force
  then have "card (open_fds cs) = card {0 ..< int FD_SETSIZE}" using card_open_fds [OF assms(1)] assms(2) by simp
  then show ?thesis using assms(4) by (intro card_subset_eq) auto
qed

end
