(* ===== verification/Tcp_Select.thy ===== *)
theory Tcp_Select
  imports Fd_Scan
begin

text \<open>
  The echo server of \<open>unpv13e/tcpcliserv/tcpservselect01.c\<close>: one process, all clients in an array, one
  \<open>select\<close> for them and the listening socket.  What the kernel answers in one round of the loop is an
  argument; the events of the sockets are recorded in the state.
\<close>

type_synonym bytes = "8 word list"

section \<open>The life of a descriptor\<close>

text \<open>\<open>Received fd None\<close> is \<open>ECONNRESET\<close>, \<open>Received fd (Some [])\<close> the end of file.\<close>

datatype event = Accepted int | Received int "bytes option" | Sent int bytes | Closed int

datatype phase = Idle | Connected | Holding "bytes option"

text \<open>
  An echo server accepts a connection, sends back what it receives piece by piece, and closes it after
  the end of file or a reset; anything else is \<open>None\<close>.
\<close>

fun echo_step :: "int \<Rightarrow> phase option \<Rightarrow> event \<Rightarrow> phase option" where
  "echo_step fd None e = None"
| "echo_step fd (Some p) (Accepted a) = (if a \<noteq> fd then Some p else if p = Idle then Some Connected else None)"
| "echo_step fd (Some p) (Received a d) = (if a \<noteq> fd then Some p else if p = Connected then Some (Holding d) else None)"
| "echo_step fd (Some p) (Sent a d) =
     (if a \<noteq> fd then Some p else if p = Holding (Some d) \<and> d \<noteq> [] then Some Connected else None)"
| "echo_step fd (Some p) (Closed a) =
     (if a \<noteq> fd then Some p else if p = Holding None \<or> p = Holding (Some []) then Some Idle else None)"

definition echo_life :: "int \<Rightarrow> event list \<Rightarrow> phase option" where
  "echo_life fd es = foldl (echo_step fd) (Some Idle) es"

lemma echo_life_append [simp]: "echo_life fd [] = Some Idle" "echo_life fd (es @ es') = foldl (echo_step fd) (echo_life fd es) es'"
  by (simp_all add: echo_life_def)

text \<open>Every descriptor is in the middle of its life just if it is in the set.\<close>

definition echoes :: "int set \<Rightarrow> event list \<Rightarrow> bool" where
  "echoes fds es \<longleftrightarrow> (\<forall>fd. echo_life fd es = Some (if fd \<in> fds then Connected else Idle))"

lemma echoes_Nil [simp]: "echoes {} []"
  by (simp add: echoes_def)

lemma echoes_accept: "echoes fds es \<Longrightarrow> fd \<notin> fds \<Longrightarrow> echoes (insert fd fds) (es @ [Accepted fd])"
  by (auto simp: echoes_def)

lemma echoes_echo: "echoes fds es \<Longrightarrow> fd \<in> fds \<Longrightarrow> d \<noteq> [] \<Longrightarrow> echoes fds (es @ [Received fd (Some d), Sent fd d])"
  by (auto simp: echoes_def)

lemma echoes_close: "echoes fds es \<Longrightarrow> fd \<in> fds \<Longrightarrow> d = None \<or> d = Some [] \<Longrightarrow> echoes (fds - {fd}) (es @ [Received fd d, Closed fd])"
  by (auto simp: echoes_def)

section \<open>The server\<close>

record srv =
  client :: "int list"
  maxi :: int
  maxfd :: int
  allset :: "int set"
  trace :: "event list"

definition select_start :: "int \<Rightarrow> srv" where
  "select_start listenfd = \<lparr>client = replicate FD_SETSIZE (-1), maxi = -1, maxfd = listenfd, allset = {listenfd}, trace = []\<rparr>"

text \<open>
  One round: the descriptors that are ready, the descriptor of a new connection, what \<open>read\<close> gives, and
  whether the data can be written; \<open>None\<close> is an error, for which the wrappers end the process.
\<close>

record round =
  r_ready :: "int set"
  r_accept :: "int option"
  r_read :: "int \<Rightarrow> bytes option"
  r_writen :: "int \<Rightarrow> bool"

text \<open>\<open>FD_SET\<close> beyond \<open>FD_SETSIZE\<close> writes outside of the set.\<close>

definition add_client :: "int \<Rightarrow> (srv, unit) prog" where
  "add_client connfd s =
     (let i = first_free (client s) in
      if i = FD_SETSIZE then Abort (Err_quit ''too many clients'') s
      else if int FD_SETSIZE \<le> connfd then Abort Undefined s
      else Ret () (s\<lparr>client := (client s)[i := connfd], allset := insert connfd (allset s),
                    maxfd := max connfd (maxfd s), maxi := max (int i) (maxi s), trace := trace s @ [Accepted connfd]\<rparr>))"

definition is_ready :: "int set \<Rightarrow> srv \<Rightarrow> nat \<Rightarrow> bool" where
  "is_ready rset s i \<longleftrightarrow> i < length (client s) \<and> 0 \<le> client s ! i \<and> client s ! i \<in> rset"

definition serve :: "round \<Rightarrow> nat \<Rightarrow> (srv, unit) prog" where
  "serve x i s =
     (let sockfd = client s ! i in
      case r_read x sockfd of
        None \<Rightarrow> Abort (Err_sys ''read error'') s
      | Some buf \<Rightarrow>
        if buf = []
        then Ret () (s\<lparr>client := (client s)[i := -1], allset := allset s - {sockfd},
                      trace := trace s @ [Received sockfd (Some []), Closed sockfd]\<rparr>)
        else if r_writen x sockfd
        then Ret () (s\<lparr>trace := trace s @ [Received sockfd (Some buf), Sent sockfd buf]\<rparr>)
        else Abort (Err_sys ''writen error'') s)"

definition select_round :: "int \<Rightarrow> round \<Rightarrow> (srv, unit) prog" where
  "select_round listenfd x s =
     (let rset = r_ready x \<inter> allset s \<inter> {.. maxfd s}; nready = int (card rset) in
      if listenfd \<in> rset
      then (case r_accept x of
              None \<Rightarrow> Abort (Err_sys ''accept error'') s
            | Some connfd \<Rightarrow>
              (case add_client connfd s of
                 Abort e s \<Rightarrow> Abort e s
               | Ret _ s \<Rightarrow>
                 if nready - 1 \<le> 0 then Ret () s
                 else scan (is_ready rset) (serve x) [0 ..< nat (maxi s + 1)] (nready - 1) s))
      else scan (is_ready rset) (serve x) [0 ..< nat (maxi s + 1)] nready s)"

fun select_loop :: "int \<Rightarrow> round list \<Rightarrow> (srv, unit) prog" where
  "select_loop listenfd [] s = Ret () s"
| "select_loop listenfd (x # xs) s =
     (case select_round listenfd x s of Abort e s \<Rightarrow> Abort e s | Ret _ s \<Rightarrow> select_loop listenfd xs s)"

text \<open>The kernel gives a new connection a descriptor that the process does not have.\<close>

fun fresh_fds :: "int \<Rightarrow> round list \<Rightarrow> srv \<Rightarrow> bool" where
  "fresh_fds listenfd [] s \<longleftrightarrow> True"
| "fresh_fds listenfd (x # xs) s \<longleftrightarrow>
     (\<forall>fd \<in> set_option (r_accept x). 0 \<le> fd \<and> fd \<noteq> listenfd \<and> fd \<notin> set (client s))
     \<and> (case select_round listenfd x s of Abort e s \<Rightarrow> True | Ret _ s \<Rightarrow> fresh_fds listenfd xs s)"

section \<open>The round without its counters\<close>

text \<open>
  What a round is to do: take a new connection, then serve each client that is ready, in the order
  of the array, with no \<open>maxi\<close>, \<open>maxfd\<close> and \<open>nready\<close>.
\<close>

definition select_reference :: "int \<Rightarrow> round \<Rightarrow> (srv, unit) prog" where
  "select_reference listenfd x s =
     (let rset = r_ready x \<inter> allset s in
      if listenfd \<in> rset
      then (case r_accept x of
              None \<Rightarrow> Abort (Err_sys ''accept error'') s
            | Some connfd \<Rightarrow>
              (case add_client connfd s of
                 Abort e s \<Rightarrow> Abort e s
               | Ret _ s \<Rightarrow> serve_all (is_ready rset) (serve x) [0 ..< FD_SETSIZE] s))
      else serve_all (is_ready rset) (serve x) [0 ..< FD_SETSIZE] s)"

section \<open>The invariant\<close>

definition table_ok :: "nat \<Rightarrow> srv \<Rightarrow> bool" where
  "table_ok m s \<longleftrightarrow> length (client s) = FD_SETSIZE \<and> fd_table (client s) \<and> (\<forall>i < FD_SETSIZE. m \<le> i \<longrightarrow> client s ! i < 0)"

lemma serve_cases:
  assumes "serve x i s = Ret u s'"
  obtains "r_read x (client s ! i) = Some []"
      "s' = s\<lparr>client := (client s)[i := -1], allset := allset s - {client s ! i},
              trace := trace s @ [Received (client s ! i) (Some []), Closed (client s ! i)]\<rparr>"
    | buf where "r_read x (client s ! i) = Some buf" "buf \<noteq> []"
      "s' = s\<lparr>trace := trace s @ [Received (client s ! i) (Some buf), Sent (client s ! i) buf]\<rparr>"
  using assms by (auto simp: serve_def Let_def split: option.splits if_splits)

interpretation sel: fd_scan "table_ok m" "is_ready rset" "serve x" for m rset x
proof
  fix s i u s' assume t: "table_ok m s" and r: "is_ready rset s i" and v: "serve x i s = Ret u s'"
  show "table_ok m s'"
    using v by (cases rule: serve_cases) (use t r in \<open>auto simp: table_ok_def is_ready_def fd_table_del nth_list_update\<close>)
next
  fix s i u s' and j :: nat assume r: "is_ready rset s i" and v: "serve x i s = Ret u s'" and n: "j \<noteq> i"
  show "is_ready rset s' j = is_ready rset s j"
    using v by (cases rule: serve_cases) (use r n in \<open>simp_all add: is_ready_def\<close>)
qed

text \<open>The variables of the program describe the connections that its events say are open.\<close>

definition sel_inv :: "int \<Rightarrow> srv \<Rightarrow> bool" where
  "sel_inv listenfd s \<longleftrightarrow> table_ok (nat (maxi s + 1)) s \<and> -1 \<le> maxi s \<and> maxi s < int FD_SETSIZE
     \<and> open_fds (client s) \<subseteq> {0 ..< int FD_SETSIZE} \<and> listenfd \<notin> open_fds (client s)
     \<and> allset s = insert listenfd (open_fds (client s)) \<and> (\<forall>fd \<in> allset s. fd \<le> maxfd s)
     \<and> echoes (open_fds (client s)) (trace s)"

lemma sel_inv_start: "sel_inv listenfd (select_start listenfd)"
  by (simp add: sel_inv_def table_ok_def select_start_def FD_SETSIZE_def)

lemma sel_inv_serve:
  assumes "sel_inv listenfd s" "is_ready rset s i" "serve x i s = Ret u s'"
  shows "sel_inv listenfd s' \<and> maxi s' = maxi s"
proof -
  have c: "i < length (client s)" "0 \<le> client s ! i" using assms(2) by (auto simp: is_ready_def)
  have t: "fd_table (client s)" using assms(1) by (simp add: sel_inv_def table_ok_def)
  have o: "client s ! i \<in> open_fds (client s)" using c by (auto simp: open_fds_iff)
  have t': "table_ok (nat (maxi s + 1)) s'" using sel.serve_keeps [OF _ assms(2,3)] assms(1) by (simp add: sel_inv_def)
  show ?thesis
    using assms(3)
  proof (cases rule: serve_cases)
    case 1
    then show ?thesis
      using assms(1) t' o echoes_close [OF _ o] unfolding sel_inv_def by (auto simp: fd_table_del [OF t c])
  next
    case (2 buf)
    then show ?thesis using assms(1) t' echoes_echo [OF _ o] by (auto simp: sel_inv_def)
  qed
qed

lemma sel_inv_all: "sel_inv listenfd s \<Longrightarrow> serve_all (is_ready rset) (serve x) is s = Ret u s' \<Longrightarrow> sel_inv listenfd s'"
  by (induction "is" arbitrary: s) (auto split: if_splits outcome.splits dest: sel_inv_serve)

lemma sel_inv_add:
  assumes "sel_inv listenfd s" "0 \<le> fd" "fd \<noteq> listenfd" "fd \<notin> set (client s)" "add_client fd s = Ret u s'"
  shows "sel_inv listenfd s'" "is_ready rset s' i \<longleftrightarrow> is_ready rset s i \<or> i = first_free (client s) \<and> fd \<in> rset"
proof -
  let ?i = "first_free (client s)"
  have i: "?i < length (client s)" "fd < int FD_SETSIZE"
    and s': "s' = s\<lparr>client := (client s)[?i := fd], allset := insert fd (allset s), maxfd := max fd (maxfd s),
               maxi := max (int ?i) (maxi s), trace := trace s @ [Accepted fd]\<rparr>"
    using assms(1,5) first_index_le [of "length (client s)" "\<lambda>i. client s ! i < 0"]
    by (auto simp: add_client_def Let_def sel_inv_def table_ok_def first_free_def split: if_splits)
  have f: "client s ! ?i < 0" using first_index_holds i(1) unfolding first_free_def by fast
  have o: "fd \<notin> open_fds (client s)" using assms(4) by (auto simp: open_fds_def)
  have t: "fd_table (client s)" using assms(1) by (simp add: sel_inv_def table_ok_def)
  note add = fd_table_add [OF t i(1) f assms(2) o]
  have "echoes (insert fd (open_fds (client s))) (trace s')"
    using echoes_accept [OF _ o] assms(1) s' by (simp add: sel_inv_def)
  moreover have "table_ok (nat (maxi s' + 1)) s'"
    using assms(1) add(1) by (auto simp: s' sel_inv_def table_ok_def nth_list_update)
  ultimately show "sel_inv listenfd s'"
    using assms(1-3) i add(2) by (auto simp: s' sel_inv_def table_ok_def le_max_iff_disj)
  show "is_ready rset s' i \<longleftrightarrow> is_ready rset s i \<or> i = ?i \<and> fd \<in> rset"
    using f i assms(2) by (auto simp: s' is_ready_def nth_list_update)
qed


lemma ready_count:
  assumes "sel_inv listenfd s" "finite rset"
  shows "card {i. i < m \<and> is_ready rset s i} \<le> card (rset - {listenfd})"
proof (rule card_inj_on_le)
  have "fd_table (client s)" using assms(1) by (simp add: sel_inv_def table_ok_def)
  then show "inj_on ((!) (client s)) {i. i < m \<and> is_ready rset s i}"
    by (auto simp: is_ready_def intro!: inj_onI dest: fd_tableD)
  have "listenfd \<notin> open_fds (client s)" using assms(1) by (simp add: sel_inv_def)
  then show "(!) (client s) ` {i. i < m \<and> is_ready rset s i} \<subseteq> rset - {listenfd}"
    by (auto simp: is_ready_def open_fds_iff)
qed (use assms(2) in simp)

lemma scan_reference:
  assumes "sel_inv listenfd s" "finite rset" "int (card (rset - {listenfd})) \<le> n"
  shows "scan (is_ready rset) (serve x) [0 ..< nat (maxi s + 1)] n s = serve_all (is_ready rset) (serve x) [0 ..< FD_SETSIZE] s"
proof (rule sel.scan_serves_upto)
  show "table_ok (nat (maxi s + 1)) s" "nat (maxi s + 1) \<le> FD_SETSIZE" using assms(1) by (auto simp: sel_inv_def)
  show "\<not> is_ready rset s' i" if "table_ok (nat (maxi s + 1)) s'" "nat (maxi s + 1) \<le> i" for s' i
    using that by (auto simp: table_ok_def is_ready_def)
  show "int (card {i. i < nat (maxi s + 1) \<and> is_ready rset s i}) \<le> n"
    using ready_count [OF assms(1,2), of "nat (maxi s + 1)"] assms(3) by linarith
qed

definition fresh_accept :: "int \<Rightarrow> round \<Rightarrow> srv \<Rightarrow> bool" where
  "fresh_accept listenfd x s \<longleftrightarrow> (\<forall>fd \<in> set_option (r_accept x). 0 \<le> fd \<and> fd \<noteq> listenfd \<and> fd \<notin> set (client s))"

lemma round_reference:
  assumes I: "sel_inv listenfd s" and fresh: "fresh_accept listenfd x s"
  shows "select_round listenfd x s = select_reference listenfd x s"
proof -
  let ?R = "r_ready x \<inter> allset s"
  have R: "r_ready x \<inter> allset s \<inter> {.. maxfd s} = ?R" using I by (auto simp: sel_inv_def)
  have fin: "finite ?R" using I by (simp add: sel_inv_def)
  show ?thesis
  proof (cases "listenfd \<in> ?R")
    case False
    then have "?R - {listenfd} = ?R" by blast
    then have "int (card (?R - {listenfd})) \<le> int (card ?R)" by simp
    from scan_reference [OF I fin this] show ?thesis
      unfolding select_round_def select_reference_def Let_def R if_not_P [OF False] .
  next
    case True
    have card: "int (card (?R - {listenfd})) = int (card ?R) - 1" using card_Suc_Diff1 [OF fin True] by linarith
    have "(if int (card ?R) - 1 \<le> 0 then Ret () t else scan (is_ready ?R) (serve x) [0 ..< nat (maxi t + 1)] (int (card ?R) - 1) t)
        = serve_all (is_ready ?R) (serve x) [0 ..< FD_SETSIZE] t"
      if a: "r_accept x = Some fd" "add_client fd s = Ret u t" for fd u t
    proof -
      have f: "0 \<le> fd" "fd \<noteq> listenfd" "fd \<notin> set (client s)" using fresh a(1) by (auto simp: fresh_accept_def)
      note add = sel_inv_add [OF I f a(2)]
      show ?thesis
      proof (cases "int (card ?R) - 1 \<le> 0")
        case False
        then show ?thesis using scan_reference [OF add(1) fin] card by simp
      next
        case True
        then have "card (?R - {listenfd}) = 0" using card by linarith
        then have none: "?R - {listenfd} = {}" using fin by simp
        have "fd \<notin> ?R" using I f by (auto simp: sel_inv_def open_fds_def)
        moreover have "\<not> is_ready ?R s i" for i using none I by (auto simp: is_ready_def sel_inv_def open_fds_iff)
        ultimately have "\<not> is_ready ?R t i" for i using add(2) by simp
        then show ?thesis using True by (simp add: serve_all_none)
      qed
    qed
    then show ?thesis unfolding select_round_def select_reference_def Let_def R if_P [OF True]
      by (simp split: option.splits outcome.splits)
  qed
qed

lemma reference_inv:
  assumes I: "sel_inv listenfd s" and fresh: "fresh_accept listenfd x s" and r: "select_reference listenfd x s = Ret u s'"
  shows "sel_inv listenfd s'"
proof (cases "listenfd \<in> r_ready x \<inter> allset s")
  case False
  from r have "serve_all (is_ready (r_ready x \<inter> allset s)) (serve x) [0 ..< FD_SETSIZE] s = Ret u s'"
    unfolding select_reference_def Let_def if_not_P [OF False] .
  then show ?thesis by (rule sel_inv_all [OF I])
next
  case True
  from r obtain fd v t where a: "r_accept x = Some fd" "add_client fd s = Ret v t"
      and t: "serve_all (is_ready (r_ready x \<inter> allset s)) (serve x) [0 ..< FD_SETSIZE] t = Ret u s'"
    unfolding select_reference_def Let_def if_P [OF True] by (auto split: option.splits outcome.splits)
  then have "sel_inv listenfd t" using fresh sel_inv_add(1) [OF I _ _ _ a(2)] by (simp add: fresh_accept_def)
  then show ?thesis using t by (rule sel_inv_all)
qed

lemma fresh_fds_Cons:
  "fresh_fds listenfd (x # xs) s \<longleftrightarrow> fresh_accept listenfd x s
     \<and> (case select_round listenfd x s of Abort e s \<Rightarrow> True | Ret _ s \<Rightarrow> fresh_fds listenfd xs s)"
  by (simp add: fresh_accept_def)

lemma loop_inv:
  "sel_inv listenfd s \<Longrightarrow> fresh_fds listenfd (xs @ ys) s \<Longrightarrow> select_loop listenfd xs s = Ret u s' \<Longrightarrow>
   sel_inv listenfd s' \<and> fresh_fds listenfd ys s'"
proof (induction xs arbitrary: s)
  case (Cons x xs)
  then have f: "fresh_accept listenfd x s" using fresh_fds_Cons by simp
  obtain v t where t: "select_round listenfd x s = Ret v t" "select_loop listenfd xs t = Ret u s'"
    using Cons.prems(3) by (auto split: outcome.splits)
  then have "sel_inv listenfd t" using reference_inv [OF Cons.prems(1) f] round_reference [OF Cons.prems(1) f] by simp
  then show ?case using Cons.IH t Cons.prems(2) by simp
qed simp

section \<open>Properties\<close>

text \<open>
  Whatever the clients and the network do, a round of the server serves exactly the descriptors
  that \<open>select\<close> found ready: \<open>maxi\<close>, \<open>maxfd\<close> and the count \<open>nready\<close>, with which the loops leave early, skip
  nobody and serve nobody else.
\<close>

theorem tcp_select_reference:
  assumes "select_loop listenfd xs (select_start listenfd) = Ret u s"
    and "fresh_fds listenfd (xs @ [x]) (select_start listenfd)"
  shows "select_round listenfd x s = select_reference listenfd x s"
  using loop_inv [OF sel_inv_start assms(2,1)] round_reference by (simp add: fresh_accept_def)

text \<open>Two clients; in the last round both send, and a third one connects.\<close>

definition two_clients :: "round list" where
  "two_clients = [\<lparr>r_ready = {3}, r_accept = Some 4, r_read = \<lambda>_. None, r_writen = \<lambda>_. True\<rparr>,
                  \<lparr>r_ready = {3, 4}, r_accept = Some 5, r_read = \<lambda>_. Some [1], r_writen = \<lambda>_. True\<rparr>]"

definition two_clients_end :: srv where
  "two_clients_end = \<lparr>client = (replicate FD_SETSIZE (-1))[0 := 4, 1 := 5], maxi = 1, maxfd = 5, allset = {3, 4, 5},
     trace = [Accepted 4, Accepted 5, Received 4 (Some [1]), Sent 4 [1]]\<rparr>"

lemma two_clients_run:
  "select_loop 3 two_clients (select_start 3) = Ret () two_clients_end"
  "fresh_fds 3 (two_clients @ xs) (select_start 3) \<longleftrightarrow> fresh_fds 3 xs two_clients_end"
proof -
  define cs :: "int list" where "cs = replicate FD_SETSIZE (-1)"
  define t where "t = \<lparr>client = cs[0 := 4], maxi = 0, maxfd = 4, allset = {4, 3}, trace = [Accepted 4]\<rparr>"
  have l: "length cs = 1024" "replicate 1024 (-1) = cs" by (simp_all add: cs_def FD_SETSIZE_def)
  have n: "cs ! 0 = -1" "cs ! Suc 0 = -1" by (simp_all add: cs_def FD_SETSIZE_def)
  have f: "first_free cs = 0" "first_free (cs[0 := 4]) = 1" by (rule first_free_eq; use l n in simp)+
  have a: "{3} \<inter> {3} \<inter> {.. 3} = {3 :: int}" "{3, 4} \<inter> insert 4 {3} \<inter> {.. 4} = {3, 4 :: int}" "{4, 3} = {3, 4 :: int}" by auto
  have m: "4 \<notin> set cs" "5 \<notin> set (cs[0 := 4])" using set_update_subset_insert [of cs 0 4] by (auto simp: cs_def)
  have 1: "select_round 3 (two_clients ! 0) (select_start 3) = Ret () t"
    using l f a by (simp add: two_clients_def select_round_def select_start_def add_client_def FD_SETSIZE_def Let_def t_def)
  have 2: "select_round 3 (two_clients ! 1) t = Ret () two_clients_end"
    using l n f a by (simp add: two_clients_def two_clients_end_def select_round_def add_client_def FD_SETSIZE_def Let_def t_def
        is_ready_def serve_def upt_rec [of _ 2] numeral_2_eq_2 insert_commute)
  show "select_loop 3 two_clients (select_start 3) = Ret () two_clients_end" using 1 2 by (simp add: two_clients_def)
  show "fresh_fds 3 (two_clients @ xs) (select_start 3) \<longleftrightarrow> fresh_fds 3 xs two_clients_end"
    using 1 2 m l by (simp add: two_clients_def select_start_def FD_SETSIZE_def t_def)
qed

lemma two_clients_fds: "set (client two_clients_end) \<subseteq> {-1, 4, 5}"
  using set_update_subset_insert [of "(replicate FD_SETSIZE (-1))[0 := 4]" 1 5] set_update_subset_insert [of "replicate FD_SETSIZE (-1)" 0 4]
  by (auto simp: two_clients_end_def)

theorem tcp_select_reference_witness:
  "select_round 3 \<lparr>r_ready = {3, 4, 5}, r_accept = Some 6, r_read = \<lambda>_. Some [], r_writen = \<lambda>_. True\<rparr> two_clients_end
   = select_reference 3 \<lparr>r_ready = {3, 4, 5}, r_accept = Some 6, r_read = \<lambda>_. Some [], r_writen = \<lambda>_. True\<rparr> two_clients_end"
  by (rule tcp_select_reference [OF two_clients_run(1)])
    (use two_clients_fds in \<open>auto simp: two_clients_run(2) split: outcome.splits\<close>)

text \<open>
  The events of each descriptor are those of an echo server's connection: it is accepted, every
  piece received on it is sent back on it unchanged before the next one is read, and after the end of
  file it is closed; it is in the table, and in the set for \<open>select\<close>, just as long.
\<close>

theorem tcp_select_echoes:
  assumes "select_loop listenfd xs (select_start listenfd) = Ret u s"
    and "fresh_fds listenfd xs (select_start listenfd)"
  shows "echoes (open_fds (client s)) (trace s) \<and> fd_table (client s) \<and> allset s = insert listenfd (open_fds (client s))"
  using loop_inv [OF sel_inv_start _ assms(1), of "[]"] assms(2) by (simp add: sel_inv_def table_ok_def)

theorem tcp_select_echoes_witness: "echo_life 5 (trace two_clients_end) = Some Connected \<and> echo_life 6 (trace two_clients_end) = Some Idle"
proof -
  have e: "echoes (open_fds (client two_clients_end)) (trace two_clients_end)"
    using tcp_select_echoes [OF two_clients_run(1)] two_clients_run(2) [of "[]"] by simp
  have "5 \<in> open_fds (client two_clients_end)" unfolding open_fds_iff by (auto simp: two_clients_end_def FD_SETSIZE_def intro!: exI [of _ 1])
  moreover have "6 \<notin> open_fds (client two_clients_end)" using two_clients_fds by (auto simp: open_fds_def)
  ultimately show ?thesis using e by (simp add: echoes_def)
qed

text \<open>
  The check for too many clients is never reached: before the table is full the server gets a
  descriptor for which \<open>FD_SET\<close> writes outside of the set.
\<close>

theorem tcp_select_overruns:
  assumes "select_loop listenfd xs (select_start listenfd) = Ret u s"
    and "fresh_fds listenfd (xs @ [x]) (select_start listenfd)"
    and "0 \<le> listenfd" "listenfd < int FD_SETSIZE"
    and "listenfd \<in> r_ready x" "r_accept x = Some connfd"
  shows "first_free (client s) < FD_SETSIZE
    \<and> (int FD_SETSIZE \<le> connfd \<longrightarrow> select_round listenfd x s = Abort Undefined s)"
proof -
  have I: "sel_inv listenfd s" and f: "fresh_accept listenfd x s"
    using loop_inv [OF sel_inv_start assms(2,1)] by (simp_all add: fresh_accept_def)
  have t: "fd_table (client s)" "length (client s) = FD_SETSIZE" using I by (simp_all add: sel_inv_def table_ok_def)
  have "open_fds (client s) \<noteq> {0 ..< int FD_SETSIZE}" using I assms(3,4) by (auto simp: sel_inv_def)
  then have "first_free (client s) \<noteq> FD_SETSIZE" using full_table [OF t] t(2) I by (auto simp: sel_inv_def)
  moreover have "first_free (client s) \<le> FD_SETSIZE" using first_index_le t(2) by (metis first_free_def)
  ultimately have "first_free (client s) < FD_SETSIZE" by simp
  moreover have "listenfd \<in> r_ready x \<inter> allset s" using I assms(5) by (simp add: sel_inv_def)
  ultimately show ?thesis
    using round_reference [OF I f] assms(6) by (simp add: select_reference_def add_client_def)
qed

theorem tcp_select_overruns_witness:
  "select_round 3 \<lparr>r_ready = {3}, r_accept = Some 1024, r_read = \<lambda>_. None, r_writen = \<lambda>_. True\<rparr> two_clients_end
   = Abort Undefined two_clients_end"
proof -
  let ?x = "\<lparr>r_ready = {3}, r_accept = Some 1024, r_read = \<lambda>_. None, r_writen = \<lambda>_. True\<rparr>"
  have "fresh_fds 3 (two_clients @ [?x]) (select_start 3)"
    using two_clients_fds by (auto simp: two_clients_run(2) split: outcome.splits)
  from tcp_select_overruns [OF two_clients_run(1) this, of 1024] show ?thesis by (simp add: FD_SETSIZE_def)
qed

end
