(* ===== verification/Tcp_Poll.thy ===== *)
theory Tcp_Poll
  imports Tcp_Select
begin

text \<open>
  The echo server of \<open>unpv13e/tcpcliserv/tcpservpoll01.c\<close>: the same server with \<open>poll\<close>.  The array of
  \<open>OPEN_MAX\<close> entries is not initialised except for its descriptors, so the \<open>revents\<close> of an entry that
  \<open>poll\<close> was not yet given is what the memory held.
\<close>

datatype flag = POLLRDNORM | POLLERR | POLLHUP | POLLNVAL

record pollfd =
  fd :: int
  revents :: "flag set"

record psrv =
  pclient :: "pollfd list"
  pmaxi :: nat
  ptrace :: "event list"

text \<open>\<open>junk\<close>: the \<open>revents\<close> that the array starts with; its length is \<open>OPEN_MAX\<close>.\<close>

definition poll_start :: "int \<Rightarrow> flag set list \<Rightarrow> psrv" where
  "poll_start listenfd junk =
     \<lparr>pclient = (map (\<lambda>r. \<lparr>fd = -1, revents = r\<rparr>) junk)[0 := \<lparr>fd = listenfd, revents = junk ! 0\<rparr>], pmaxi = 0, ptrace = []\<rparr>"

datatype rd = Data bytes | Reset | Failed

text \<open>One round: what \<open>poll\<close> reports for a descriptor, a new connection, and the answers to \<open>read\<close> and \<open>write\<close>.\<close>

record pround =
  p_poll :: "int \<Rightarrow> flag set"
  p_accept :: "int option"
  p_read :: "int \<Rightarrow> rd"
  p_writen :: "int \<Rightarrow> bool"

text \<open>\<open>poll\<close> fills in the entries up to \<open>maxi\<close>, clears those with a negative descriptor, and counts.\<close>

definition poll_fill :: "(int \<Rightarrow> flag set) \<Rightarrow> nat \<Rightarrow> pollfd list \<Rightarrow> pollfd list" where
  "poll_fill ev n cs = map (\<lambda>c. c\<lparr>revents := (if fd c < 0 then {} else ev (fd c))\<rparr>) (take n cs) @ drop n cs"

definition poll_count :: "nat \<Rightarrow> pollfd list \<Rightarrow> int" where
  "poll_count n cs = int (length (filter (\<lambda>c. revents c \<noteq> {}) (take n cs)))"

text \<open>The first free entry after that of the listening socket, \<open>OPEN_MAX\<close> if there is none.\<close>

definition free_entry :: "pollfd list \<Rightarrow> nat" where
  "free_entry cs = Suc (first_free (map fd (tl cs)))"

definition poll_add :: "int \<Rightarrow> (psrv, unit) prog" where
  "poll_add connfd s =
     (let i = free_entry (pclient s) in
      if i = length (pclient s) then Abort (Err_quit ''too many clients'') s
      else Ret () (s\<lparr>pclient := (pclient s)[i := (pclient s ! i)\<lparr>fd := connfd\<rparr>], pmaxi := max i (pmaxi s),
                    ptrace := ptrace s @ [Accepted connfd]\<rparr>))"

definition p_ready :: "psrv \<Rightarrow> nat \<Rightarrow> bool" where
  "p_ready s i \<longleftrightarrow> i < length (pclient s) \<and> 0 \<le> fd (pclient s ! i) \<and> revents (pclient s ! i) \<inter> {POLLRDNORM, POLLERR} \<noteq> {}"

definition p_close :: "nat \<Rightarrow> bytes option \<Rightarrow> psrv \<Rightarrow> psrv" where
  "p_close i d s = (let sockfd = fd (pclient s ! i) in
     s\<lparr>pclient := (pclient s)[i := (pclient s ! i)\<lparr>fd := -1\<rparr>], ptrace := ptrace s @ [Received sockfd d, Closed sockfd]\<rparr>)"

definition p_serve :: "pround \<Rightarrow> nat \<Rightarrow> (psrv, unit) prog" where
  "p_serve x i s =
     (let sockfd = fd (pclient s ! i) in
      case p_read x sockfd of
        Failed \<Rightarrow> Abort (Err_sys ''read error'') s
      | Reset \<Rightarrow> Ret () (p_close i None s)
      | Data buf \<Rightarrow>
        if buf = [] then Ret () (p_close i (Some []) s)
        else if p_writen x sockfd
        then Ret () (s\<lparr>ptrace := ptrace s @ [Received sockfd (Some buf), Sent sockfd buf]\<rparr>)
        else Abort (Err_sys ''writen error'') s)"

definition poll_round :: "pround \<Rightarrow> (psrv, unit) prog" where
  "poll_round x s =
     (let s = s\<lparr>pclient := poll_fill (p_poll x) (pmaxi s + 1) (pclient s)\<rparr>;
          nready = poll_count (pmaxi s + 1) (pclient s) in
      if POLLRDNORM \<in> revents (pclient s ! 0)
      then (case p_accept x of
              None \<Rightarrow> Abort (Err_sys ''accept error'') s
            | Some connfd \<Rightarrow>
              (case poll_add connfd s of
                 Abort e s \<Rightarrow> Abort e s
               | Ret _ s \<Rightarrow>
                 if nready - 1 \<le> 0 then Ret () s
                 else scan p_ready (p_serve x) [1 ..< pmaxi s + 1] (nready - 1) s))
      else scan p_ready (p_serve x) [1 ..< pmaxi s + 1] nready s)"

fun poll_loop :: "pround list \<Rightarrow> (psrv, unit) prog" where
  "poll_loop [] s = Ret () s"
| "poll_loop (x # xs) s = (case poll_round x s of Abort e s \<Rightarrow> Abort e s | Ret _ s \<Rightarrow> poll_loop xs s)"

text \<open>
  The kernel: a new connection has a new descriptor, and where \<open>poll\<close> reports anything for a descriptor
  it reports that it can be read or has an error, as it does for a stream socket that is hung up.
\<close>

definition kernel_ok :: "pround \<Rightarrow> psrv \<Rightarrow> bool" where
  "kernel_ok x s \<longleftrightarrow> (\<forall>c \<in> set_option (p_accept x). 0 \<le> c \<and> c \<notin> fd ` set (pclient s))
     \<and> (\<forall>e \<in> set (pclient s). p_poll x (fd e) = {} \<or> p_poll x (fd e) \<inter> {POLLRDNORM, POLLERR} \<noteq> {})"

fun kernel_oks :: "pround list \<Rightarrow> psrv \<Rightarrow> bool" where
  "kernel_oks [] s \<longleftrightarrow> True"
| "kernel_oks (x # xs) s \<longleftrightarrow> kernel_ok x s \<and> (case poll_round x s of Abort e s \<Rightarrow> True | Ret _ s \<Rightarrow> kernel_oks xs s)"

section \<open>The round without its counters\<close>

text \<open>
  Each client that was connected before the round and for which \<open>poll\<close> reports data or an error is
  served; \<open>revents\<close> is not looked at.
\<close>

definition reported :: "pround \<Rightarrow> int set \<Rightarrow> psrv \<Rightarrow> nat \<Rightarrow> bool" where
  "reported x fds s i \<longleftrightarrow> i < length (pclient s) \<and> fd (pclient s ! i) \<in> fds \<and> p_poll x (fd (pclient s ! i)) \<inter> {POLLRDNORM, POLLERR} \<noteq> {}"

definition connected :: "psrv \<Rightarrow> int set" where
  "connected s = open_fds (map fd (tl (pclient s)))"

definition poll_reference :: "int \<Rightarrow> pround \<Rightarrow> (psrv, unit) prog" where
  "poll_reference listenfd x s =
     (let fds = connected s;
          s = s\<lparr>pclient := poll_fill (p_poll x) (pmaxi s + 1) (pclient s)\<rparr> in
      if POLLRDNORM \<in> p_poll x listenfd
      then (case p_accept x of
              None \<Rightarrow> Abort (Err_sys ''accept error'') s
            | Some connfd \<Rightarrow>
              (case poll_add connfd s of
                 Abort e s \<Rightarrow> Abort e s
               | Ret _ s \<Rightarrow> serve_all (reported x fds) (p_serve x) [1 ..< length (pclient s)] s))
      else serve_all (reported x fds) (p_serve x) [1 ..< length (pclient s)] s)"

section \<open>The invariant\<close>

lemma p_serve_cases:
  assumes "p_serve x i s = Ret u s'"
  obtains d where "d = None \<or> d = Some []" "s' = p_close i d s"
    | buf where "buf \<noteq> []" "s' = s\<lparr>ptrace := ptrace s @ [Received (fd (pclient s ! i)) (Some buf), Sent (fd (pclient s ! i)) buf]\<rparr>"
  using assms by (auto simp: p_serve_def Let_def split: rd.splits if_splits)

lemma p_serve_client:
  assumes "p_serve x i s = Ret u s'"
  shows "length (pclient s') = length (pclient s)" "j \<noteq> i \<Longrightarrow> pclient s' ! j = pclient s ! j"
    "i < length (pclient s) \<Longrightarrow> pclient s' ! i = pclient s ! i \<or> fd (pclient s' ! i) < 0" "pmaxi s' = pmaxi s"
  by (cases rule: p_serve_cases [OF assms]; simp add: p_close_def Let_def)+

interpretation pol: fd_scan "\<lambda>_. True" p_ready "p_serve x" for x
proof
  fix s u s' and i j :: nat assume "p_serve x i s = Ret u s'" "j \<noteq> i"
  then show "p_ready s' j = p_ready s j" by (simp add: p_ready_def p_serve_client)
qed simp

text \<open>Up to index \<open>m\<close> the \<open>revents\<close> tell what \<open>poll\<close> reported, and nothing beyond it was reported.\<close>

definition told :: "pround \<Rightarrow> int set \<Rightarrow> nat \<Rightarrow> psrv \<Rightarrow> bool" where
  "told x fds m s \<longleftrightarrow> (\<forall>i. 0 < i \<longrightarrow> i < m \<longrightarrow> p_ready s i = reported x fds s i) \<and> (\<forall>i \<ge> m. \<not> reported x fds s i)"

lemma told_serve:
  assumes "told x fds m s" "fds \<subseteq> {0..}" "p_serve x i s = Ret u s'"
  shows "told x fds m s'"
proof -
  note v = p_serve_client [OF assms(3)]
  have "p_ready s' j = p_ready s j \<and> reported x fds s' j = reported x fds s j \<or> \<not> p_ready s' j \<and> \<not> reported x fds s' j" for j
  proof (cases "j = i")
    case True
    then show ?thesis using v(1) v(3) assms(2) by (fastforce simp: p_ready_def reported_def)
  next
    case False
    then show ?thesis using v(1,2) by (simp add: p_ready_def reported_def)
  qed
  then show ?thesis using assms(1) unfolding told_def by metis
qed

interpretation rep: fd_scan "\<lambda>s. told x fds m s \<and> fds \<subseteq> {0..}" "reported x fds" "p_serve x" for x fds m
proof
  fix s u s' and i j :: nat assume v: "p_serve x i s = Ret u s'"
  show "told x fds m s' \<and> fds \<subseteq> {0..}" if "told x fds m s \<and> fds \<subseteq> {0..}" using told_serve v that by blast
  show "reported x fds s' j = reported x fds s j" if "j \<noteq> i" using p_serve_client [OF v] that by (simp add: reported_def)
qed

lemma told_serve_all:
  assumes "told x fds m s" "fds \<subseteq> {0..}" "0 < m" "m \<le> k"
  shows "serve_all p_ready (p_serve x) [1 ..< m] s = serve_all (reported x fds) (p_serve x) [1 ..< k] s"
proof -
  have "serve_all p_ready (p_serve x) [1 ..< m] s = serve_all (reported x fds) (p_serve x) [1 ..< m] s"
  proof (rule serve_all_cong [of "told x fds m"])
    show "told x fds m s" by (rule assms(1))
    show "p_ready t i = reported x fds t i" if "told x fds m t" "i \<in> set [1 ..< m]" for t i using that by (auto simp: told_def)
    show "told x fds m t'" if "told x fds m t" "p_serve x i t = Ret u t'" for t i u t' using told_serve [OF that(1) assms(2) that(2)] .
  qed
  moreover have "serve_all (reported x fds) (p_serve x) [1 ..< k] s = serve_all (reported x fds) (p_serve x) [1 ..< m] s"
    by (rule rep.serve_all_upto [where m = m]) (use assms in \<open>auto simp: told_def\<close>)
  ultimately show ?thesis by simp
qed

definition poll_inv :: "int \<Rightarrow> psrv \<Rightarrow> bool" where
  "poll_inv listenfd s \<longleftrightarrow> pmaxi s < length (pclient s) \<and> fd (pclient s ! 0) = listenfd \<and> 0 \<le> listenfd
     \<and> fd_table (map fd (pclient s)) \<and> (\<forall>i < length (pclient s). pmaxi s < i \<longrightarrow> fd (pclient s ! i) < 0)
     \<and> echoes (connected s) (ptrace s)"

lemma connected_iff: "c \<in> connected s \<longleftrightarrow> 0 \<le> c \<and> (\<exists>i < length (pclient s). 0 < i \<and> fd (pclient s ! i) = c)"
proof -
  have "(\<exists>i < length (tl (pclient s)). fd (tl (pclient s) ! i) = c) \<longleftrightarrow> (\<exists>i < length (pclient s). 0 < i \<and> fd (pclient s ! i) = c)"
    by (cases "pclient s") (auto simp: less_Suc_eq_0_disj gr0_conv_Suc)
  moreover have "c \<in> connected s \<longleftrightarrow> 0 \<le> c \<and> (\<exists>i < length (tl (pclient s)). fd (tl (pclient s) ! i) = c)"
    unfolding connected_def open_fds_def mem_Collect_eq set_map set_conv_nth [of "tl (pclient s)"] by blast
  ultimately show ?thesis by blast
qed

lemma poll_fill [simp]:
  "length (poll_fill ev n cs) = length cs" "map fd (poll_fill ev n cs) = map fd cs"
  "i < length cs \<Longrightarrow> poll_fill ev n cs ! i = (if i < n then (cs ! i)\<lparr>revents := (if fd (cs ! i) < 0 then {} else ev (fd (cs ! i)))\<rparr> else cs ! i)"
  "i < length cs \<Longrightarrow> fd (poll_fill ev n cs ! i) = fd (cs ! i)"
proof -
  show l: "length (poll_fill ev n cs) = length cs" by (simp add: poll_fill_def)
  show n: "poll_fill ev n cs ! i = (if i < n then (cs ! i)\<lparr>revents := (if fd (cs ! i) < 0 then {} else ev (fd (cs ! i)))\<rparr> else cs ! i)"
    if "i < length cs" for i using that by (simp add: poll_fill_def nth_append min_def)
  show f: "fd (poll_fill ev n cs ! i) = fd (cs ! i)" if "i < length cs" for i using n [OF that] by simp
  show "map fd (poll_fill ev n cs) = map fd cs" by (rule nth_equalityI) (simp_all add: l f)
qed

definition filled :: "pround \<Rightarrow> psrv \<Rightarrow> psrv" where
  "filled x s = s\<lparr>pclient := poll_fill (p_poll x) (pmaxi s + 1) (pclient s)\<rparr>"

lemma filled_inv: "poll_inv listenfd s \<Longrightarrow> poll_inv listenfd (filled x s)" "connected (filled x s) = connected s"
proof -
  show "connected (filled x s) = connected s" by (simp add: connected_def filled_def map_tl)
  moreover have "0 < length (pclient s)" if "poll_inv listenfd s" using that by (auto simp: poll_inv_def)
  ultimately show "poll_inv listenfd s \<Longrightarrow> poll_inv listenfd (filled x s)" by (simp add: poll_inv_def filled_def)
qed

lemma told_filled:
  assumes "poll_inv listenfd s"
  shows "told x (connected s) (pmaxi s + 1) (filled x s)" "connected s \<subseteq> {0..}"
proof -
  show "connected s \<subseteq> {0..}" by (auto simp: connected_iff)
  have "p_ready (filled x s) i = reported x (connected s) (filled x s) i" if "0 < i" "i < pmaxi s + 1" for i
  proof -
    have i: "i < length (pclient s)" using assms that by (auto simp: poll_inv_def)
    then have "0 \<le> fd (pclient s ! i) \<longleftrightarrow> fd (pclient s ! i) \<in> connected s" using that(1) unfolding connected_iff by blast
    then show ?thesis using i that by (auto simp: p_ready_def reported_def filled_def)
  qed
  moreover have "\<not> reported x (connected s) (filled x s) i" if "pmaxi s + 1 \<le> i" for i
    using assms that by (auto simp: reported_def filled_def poll_inv_def connected_iff)
  ultimately show "told x (connected s) (pmaxi s + 1) (filled x s)" by (simp add: told_def)
qed

text \<open>What \<open>poll\<close> returns counts the clients to serve, and the listening socket.\<close>

lemma poll_count_ready:
  assumes I: "poll_inv listenfd s" and k: "kernel_ok x s"
  shows "poll_count (pmaxi s + 1) (pclient (filled x s))
    = of_bool (revents (pclient (filled x s) ! 0) \<noteq> {}) + int (card {i. 0 < i \<and> i < pmaxi s + 1 \<and> p_ready (filled x s) i})"
proof -
  let ?t = "filled x s"
  let ?A = "{i. 0 < i \<and> i < pmaxi s + 1 \<and> p_ready ?t i}"
  let ?B = "{i. i < pmaxi s + 1 \<and> revents (pclient ?t ! i) \<noteq> {}}"
  have l: "pmaxi s + 1 \<le> length (pclient ?t)" using I by (simp add: poll_inv_def filled_def)
  have "p_ready ?t i \<longleftrightarrow> revents (pclient ?t ! i) \<noteq> {}" if "i < pmaxi s + 1" for i
  proof -
    have i: "i < length (pclient s)" using l that by (simp add: filled_def)
    then have "p_poll x (fd (pclient s ! i)) = {} \<or> p_poll x (fd (pclient s ! i)) \<inter> {POLLRDNORM, POLLERR} \<noteq> {}"
      using k by (simp add: kernel_ok_def)
    then show ?thesis using i that by (auto simp: p_ready_def filled_def)
  qed
  then have "i \<in> ?B \<longleftrightarrow> i \<in> ?A \<union> (if revents (pclient ?t ! 0) \<noteq> {} then {0} else {})" for i by (cases i) auto
  then have "?B = ?A \<union> (if revents (pclient ?t ! 0) \<noteq> {} then {0} else {})" by blast
  moreover have "finite ?A" "0 \<notin> ?A" by auto
  ultimately have "int (card ?B) = of_bool (revents (pclient ?t ! 0) \<noteq> {}) + int (card ?A)" by simp
  moreover have "poll_count (pmaxi s + 1) (pclient ?t) = int (card ?B)"
    unfolding poll_count_def length_filter_conv_card using l by (intro arg_cong [where f = "int \<circ> card", unfolded comp_def]) auto
  ultimately show ?thesis by simp
qed


text \<open>A new client goes to the first free entry, which is at most one beyond those in use.\<close>

lemma free_entry:
  assumes "poll_inv listenfd s" "free_entry (pclient s) < length (pclient s)"
  shows "0 < free_entry (pclient s)" "fd (pclient s ! free_entry (pclient s)) < 0" "free_entry (pclient s) \<le> pmaxi s + 1"
proof -
  let ?cs = "map fd (tl (pclient s))"
  show "0 < free_entry (pclient s)" by (simp add: free_entry_def)
  have l: "first_free ?cs < length ?cs" using assms(2) by (simp add: free_entry_def)
  then have "?cs ! first_free ?cs < 0" using first_index_holds unfolding first_free_def by fast
  then show f: "fd (pclient s ! free_entry (pclient s)) < 0" using l by (simp add: free_entry_def nth_tl)
  show "free_entry (pclient s) \<le> pmaxi s + 1"
  proof (rule ccontr)
    assume "\<not> ?thesis"
    then have p: "pmaxi s < first_free ?cs" by (simp add: free_entry_def)
    then have "pmaxi s + 1 < length (pclient s)" using l by simp
    then have "fd (pclient s ! (pmaxi s + 1)) < 0" using assms(1) by (simp add: poll_inv_def)
    then have "?cs ! pmaxi s < 0" using p l by (simp add: nth_tl)
    moreover have "\<not> ?cs ! pmaxi s < 0" using p first_index_before unfolding first_free_def by fast
    ultimately show False by blast
  qed
qed

lemma poll_add_Ret:
  assumes "0 < length (pclient s)" "poll_add c s = Ret u t"
  shows "free_entry (pclient s) < length (pclient s)"
    and "t = s\<lparr>pclient := (pclient s)[free_entry (pclient s) := (pclient s ! free_entry (pclient s))\<lparr>fd := c\<rparr>],
      pmaxi := max (free_entry (pclient s)) (pmaxi s), ptrace := ptrace s @ [Accepted c]\<rparr>"
proof -
  have "first_free (map fd (tl (pclient s))) \<le> length (map fd (tl (pclient s)))" unfolding first_free_def by (rule first_index_le)
  then have "free_entry (pclient s) \<le> length (pclient s)" using assms(1) by (cases "pclient s") (simp_all add: free_entry_def)
  then show "free_entry (pclient s) < length (pclient s)"
    and "t = s\<lparr>pclient := (pclient s)[free_entry (pclient s) := (pclient s ! free_entry (pclient s))\<lparr>fd := c\<rparr>],
      pmaxi := max (free_entry (pclient s)) (pmaxi s), ptrace := ptrace s @ [Accepted c]\<rparr>"
    using assms(2) by (auto simp: poll_add_def Let_def split: if_splits)
qed

lemma told_add:
  assumes "told x fds m s" "fds \<subseteq> {0..}" "c \<notin> fds" "k < length (pclient s)" "fd (pclient s ! k) < 0" "k < m \<longrightarrow> revents (pclient s ! k) = {}"
    and t: "t = s\<lparr>pclient := (pclient s)[k := (pclient s ! k)\<lparr>fd := c\<rparr>], pmaxi := n, ptrace := tr\<rparr>"
  shows "told x fds m t" "i < m \<Longrightarrow> p_ready t i = p_ready s i"
proof -
  have n: "p_ready t j = p_ready s j \<and> reported x fds t j = reported x fds s j" if "j \<noteq> k" for j
    using that by (simp add: t p_ready_def reported_def)
  have k: "\<not> reported x fds t k" "\<not> reported x fds s k" "\<not> p_ready s k" "k < m \<longrightarrow> \<not> p_ready t k"
    using assms(2-6) by (auto simp: t p_ready_def reported_def)
  show "told x fds m t" using assms(1) n k unfolding told_def by metis
  show "p_ready t i = p_ready s i" if "i < m" using that n k by (cases "i = k") auto
qed

lemma poll_add_inv:
  assumes I: "poll_inv listenfd s" and c: "0 \<le> c" "c \<notin> fd ` set (pclient s)" and a: "poll_add c s = Ret u t"
  shows "poll_inv listenfd t"
proof -
  let ?k = "free_entry (pclient s)"
  have "0 < length (pclient s)" using I by (auto simp: poll_inv_def)
  note k = poll_add_Ret(1) [OF this a] and t = poll_add_Ret(2) [OF this a]
  note f = free_entry [OF I k]
  have m: "map fd (pclient t) = (map fd (pclient s))[?k := c]" by (simp add: t map_update)
  have "c \<notin> open_fds (map fd (pclient s))" using c(2) by (auto simp: open_fds_def)
  then have "fd_table (map fd (pclient t))" unfolding m using I k f(2) c(1) by (intro fd_table_add) (simp_all add: poll_inv_def)
  moreover have "connected t = insert c (connected s)"
  proof -
    have tl: "map fd (tl (pclient t)) = (map fd (tl (pclient s)))[?k - 1 := c]"
      using f(1) by (cases "pclient s"; cases "free_entry (pclient s)") (simp_all add: t map_update)
    have "c \<notin> open_fds (map fd (tl (pclient s)))" using c(2) by (cases "pclient s") (auto simp: open_fds_def)
    moreover have "fd_table (map fd (tl (pclient s)))" using I fd_table_tl [of "map fd (pclient s)"] by (simp add: poll_inv_def map_tl)
    ultimately show ?thesis unfolding connected_def tl using f k c(1) by (intro fd_table_add(2)) (auto simp: nth_tl)
  qed
  moreover have "c \<notin> connected s" using c(2) by (auto simp: connected_iff)
  ultimately show ?thesis using I k f by (auto simp: t poll_inv_def nth_list_update intro: echoes_accept)
qed


lemma poll_serve_inv:
  assumes I: "poll_inv listenfd s" and r: "reported x fds s i" "0 < i" "fds \<subseteq> {0..}" and v: "p_serve x i s = Ret u t"
  shows "poll_inv listenfd t"
proof -
  have i: "i < length (pclient s)" "0 \<le> fd (pclient s ! i)" using r by (auto simp: reported_def)
  then have o: "fd (pclient s ! i) \<in> connected s" using r(2) unfolding connected_iff by blast
  show ?thesis
    using v
  proof (cases rule: p_serve_cases)
    case (1 d)
    have m: "map fd (pclient t) = (map fd (pclient s))[i := -1]" by (simp add: 1 p_close_def Let_def map_update)
    have tab: "fd_table (map fd (pclient s))" using I by (simp add: poll_inv_def)
    have "fd_table (map fd (pclient t))" unfolding m using tab i by (intro fd_table_del) simp_all
    moreover have "connected t = connected s - {fd (pclient s ! i)}"
    proof -
      have tl: "map fd (tl (pclient t)) = (map fd (tl (pclient s)))[i - 1 := -1]"
        using r(2) by (cases "pclient s"; cases i) (simp_all add: 1 p_close_def Let_def map_update)
      have n: "map fd (tl (pclient s)) ! (i - 1) = fd (pclient s ! i)" using i r(2) by (simp add: nth_tl)
      have "fd_table (map fd (tl (pclient s)))" using tab fd_table_tl [of "map fd (pclient s)"] by (simp add: map_tl)
      then show ?thesis unfolding connected_def tl using i r(2) n fd_table_del(2) [of "map fd (tl (pclient s))" "i - 1"] by simp
    qed
    ultimately show ?thesis using I i r(2) echoes_close [OF _ o 1(1)]
      by (auto simp: 1 p_close_def Let_def poll_inv_def nth_list_update)
  next
    case (2 buf)
    then show ?thesis using I echoes_echo [OF _ o] by (simp add: poll_inv_def connected_def)
  qed
qed

lemma poll_all_inv:
  "poll_inv listenfd s \<Longrightarrow> \<forall>i \<in> set is. 0 < i \<Longrightarrow> fds \<subseteq> {0..} \<Longrightarrow> serve_all (reported x fds) (p_serve x) is s = Ret u t \<Longrightarrow> poll_inv listenfd t"
  by (induction "is" arbitrary: s) (auto split: if_splits outcome.splits dest: poll_serve_inv)

section \<open>The two rounds agree\<close>

lemma scan_told:
  assumes "told x fds m s" "fds \<subseteq> {0..}" "0 < m" "m \<le> length (pclient s)" "pmaxi s + 1 = m \<or> pmaxi s = m"
    and "int (card {i. 0 < i \<and> i < m \<and> p_ready s i}) \<le> n"
    and "pmaxi s + 1 = m \<or> int (card {i. 0 < i \<and> i < m \<and> p_ready s i}) = n \<and> 0 < n"
  shows "scan p_ready (p_serve x) [1 ..< pmaxi s + 1] n s = serve_all (reported x fds) (p_serve x) [1 ..< length (pclient s)] s"
proof -
  have js: "[1 ..< pmaxi s + 1] = [1 ..< m] @ (if pmaxi s = m then [m] else [])" using assms(3,5) by auto
  have e: "{i \<in> set [1 ..< m]. p_ready s i} = {i. 0 < i \<and> i < m \<and> p_ready s i}" by auto
  have "scan p_ready (p_serve x) [1 ..< pmaxi s + 1] n s = serve_all p_ready (p_serve x) [1 ..< m] s"
    unfolding js
  proof (rule pol.scan_count)
    show "int (card {i \<in> set [1 ..< m]. p_ready s i}) \<le> n" unfolding e by (rule assms(6))
    show "(if pmaxi s = m then [m] else []) = [] \<or> int (card {i \<in> set [1 ..< m]. p_ready s i}) = n \<and> 0 < n"
      unfolding e using assms(7) by presburger
  qed simp_all
  then show ?thesis using told_serve_all [OF assms(1-4)] by simp
qed

lemma poll_round_reference:
  assumes I: "poll_inv listenfd s" and k: "kernel_ok x s"
  shows "poll_round x s = poll_reference listenfd x s"
proof -
  let ?t = "filled x s" and ?m = "pmaxi s + 1" and ?fds = "connected s"
  let ?n = "poll_count ?m (pclient ?t)" and ?c = "\<lambda>t. int (card {i. 0 < i \<and> i < ?m \<and> p_ready t i})"
  note T = told_filled(1) [OF I, of x] told_filled(2) [OF I] and C = poll_count_ready [OF I k]
  have l: "0 < length (pclient s)" "?m \<le> length (pclient s)" "length (pclient ?t) = length (pclient s)" "pmaxi ?t = pmaxi s"
    using I by (auto simp: poll_inv_def filled_def)
  have r0: "revents (pclient ?t ! 0) = p_poll x listenfd" using I l(1) by (simp add: filled_def poll_inv_def)
  show ?thesis
  proof (cases "POLLRDNORM \<in> p_poll x listenfd")
    case False
    have "scan p_ready (p_serve x) [1 ..< pmaxi ?t + 1] ?n ?t = serve_all (reported x ?fds) (p_serve x) [1 ..< length (pclient ?t)] ?t"
      by (rule scan_told [OF T]) (use C l in auto)
    then show ?thesis using False r0 unfolding poll_round_def poll_reference_def Let_def filled_def [symmetric] l(4) by simp
  next
    case True
    have n: "?n - 1 = ?c ?t" using C r0 True by force
    have "(if ?n - 1 \<le> 0 then Ret () t else scan p_ready (p_serve x) [1 ..< pmaxi t + 1] (?n - 1) t)
        = serve_all (reported x ?fds) (p_serve x) [1 ..< length (pclient t)] t"
      if a: "p_accept x = Some c" "poll_add c ?t = Ret u t" for c u t
    proof -
      have c: "0 \<le> c" "c \<notin> fd ` set (pclient s)" using k a(1) by (auto simp: kernel_ok_def)
      have cf: "c \<notin> ?fds" using c(2) by (auto simp: connected_iff)
      let ?k = "free_entry (pclient ?t)"
      have "0 < length (pclient ?t)" using l(1,3) by simp
      note k = poll_add_Ret(1) [OF this a(2)] and t = poll_add_Ret(2) [OF this a(2)]
      note f = free_entry [OF filled_inv(1) [OF I] k]
      have "revents (pclient ?t ! ?k) = {}" if "?k < ?m" using that f(2) k l(3) by (simp add: filled_def)
      then have told: "told x ?fds ?m t" and same: "\<And>i. i < ?m \<Longrightarrow> p_ready t i = p_ready ?t i"
        using told_add [OF T cf k f(2) _ t] by auto
      have "{i. 0 < i \<and> i < ?m \<and> p_ready t i} = {i. 0 < i \<and> i < ?m \<and> p_ready ?t i}" using same by blast
      then have ct: "?c t = ?n - 1" using n by simp
      have mt: "pmaxi t + 1 = ?m \<or> pmaxi t = ?m" "length (pclient t) = length (pclient s)" using f(3) l(3,4) by (auto simp: t)
      show ?thesis
      proof (cases "?n - 1 \<le> 0")
        case True
        then have "card {i. 0 < i \<and> i < ?m \<and> p_ready t i} = 0" using ct by linarith
        then have "{i. 0 < i \<and> i < ?m \<and> p_ready t i} = {}" by (subst (asm) card_0_eq) auto
        then have "\<not> reported x ?fds t i" if "0 < i" for i using told that unfolding told_def by (cases "i < ?m") auto
        then have "serve_all (reported x ?fds) (p_serve x) [1 ..< length (pclient t)] t = Ret () t" by (intro serve_all_none) auto
        then show ?thesis using True by simp
      next
        case False
        then show ?thesis using scan_told [OF told T(2) _ _ mt(1), of "?n - 1"] ct l(2) mt(2) by simp
      qed
    qed
    note served = this
    have "poll_round x s = (case p_accept x of None \<Rightarrow> Abort (Err_sys ''accept error'') ?t
        | Some c \<Rightarrow> (case poll_add c ?t of Abort e s \<Rightarrow> Abort e s
          | Ret _ t \<Rightarrow> if ?n - 1 \<le> 0 then Ret () t else scan p_ready (p_serve x) [1 ..< pmaxi t + 1] (?n - 1) t))"
      unfolding poll_round_def Let_def filled_def [symmetric] r0 l(4) if_P [OF True] ..
    moreover have "poll_reference listenfd x s = (case p_accept x of None \<Rightarrow> Abort (Err_sys ''accept error'') ?t
        | Some c \<Rightarrow> (case poll_add c ?t of Abort e s \<Rightarrow> Abort e s
          | Ret _ t \<Rightarrow> serve_all (reported x ?fds) (p_serve x) [1 ..< length (pclient t)] t))"
      unfolding poll_reference_def Let_def filled_def [symmetric] if_P [OF True] ..
    ultimately show ?thesis using served by (cases "p_accept x") (auto simp del: upt_Suc split: outcome.split)
  qed
qed

lemma poll_round_inv:
  assumes I: "poll_inv listenfd s" and k: "kernel_ok x s" and r: "poll_round x s = Ret u t"
  shows "poll_inv listenfd t"
proof -
  note T = told_filled(1) [OF I, of x] told_filled(2) [OF I] and F = filled_inv(1) [OF I, of x]
  have r: "poll_reference listenfd x s = Ret u t" using r poll_round_reference [OF I k] by simp
  show ?thesis
  proof (cases "POLLRDNORM \<in> p_poll x listenfd")
    case False
    then have "serve_all (reported x (connected s)) (p_serve x) [1 ..< length (pclient (filled x s))] (filled x s) = Ret u t"
      using r by (simp add: poll_reference_def filled_def)
    then show ?thesis by (rule poll_all_inv [OF F _ T(2), rotated]) simp
  next
    case True
    then obtain c v w where a: "p_accept x = Some c" "poll_add c (filled x s) = Ret v w"
        and w: "serve_all (reported x (connected s)) (p_serve x) [1 ..< length (pclient w)] w = Ret u t"
      using r by (auto simp: poll_reference_def filled_def Let_def split: option.splits outcome.splits)
    have "fd ` set (pclient (filled x s)) = fd ` set (pclient s)"
      using poll_fill(2) [of "p_poll x" "pmaxi s + 1" "pclient s"] by (metis filled_def list.set_map psrv.select_convs(1) psrv.surjective psrv.update_convs(1))
    then have "poll_inv listenfd w" using poll_add_inv [OF F _ _ a(2)] k a(1) by (simp add: kernel_ok_def)
    then show ?thesis by (intro poll_all_inv [OF _ _ T(2) w]) auto
  qed
qed

lemma poll_loop_inv:
  "poll_inv listenfd s \<Longrightarrow> kernel_oks (xs @ ys) s \<Longrightarrow> poll_loop xs s = Ret u t \<Longrightarrow> poll_inv listenfd t \<and> kernel_oks ys t"
proof (induction xs arbitrary: s)
  case (Cons x xs)
  obtain v w where w: "poll_round x s = Ret v w" "poll_loop xs w = Ret u t"
    using Cons.prems(3) by (auto split: outcome.splits)
  then show ?case using Cons poll_round_inv [OF Cons.prems(1) _ w(1)] by simp
qed simp

lemma poll_start_inv:
  assumes "junk \<noteq> []" "0 \<le> listenfd"
  shows "poll_inv listenfd (poll_start listenfd junk)"
proof -
  have m: "map fd (pclient (poll_start listenfd junk)) = (replicate (length junk) (-1))[0 := listenfd]"
    by (simp add: poll_start_def map_update map_replicate_const [symmetric] comp_def)
  have "fd_table ((replicate (length junk) (-1))[0 := listenfd])" using assms by (intro fd_table_add(1)) simp_all
  moreover have "connected (poll_start listenfd junk) = {}"
    using assms(1) by (cases junk) (auto simp: connected_def poll_start_def open_fds_def)
  ultimately show ?thesis using assms m by (auto simp: poll_inv_def poll_start_def nth_list_update)
qed

section \<open>Properties\<close>

text \<open>
  C17.  A round of the server with \<open>poll\<close> serves exactly the clients that \<open>poll\<close> reported, whatever
  the uninitialised part of its array held: the count \<open>nready\<close> ends the loop before it comes to the
  \<open>revents\<close> of a client that \<open>poll\<close> has not seen, as long as \<open>poll\<close> reports no hangup alone.
\<close>

theorem tcp_poll_reference:
  assumes "poll_loop xs (poll_start listenfd junk) = Ret u s"
    and "kernel_oks (xs @ [x]) (poll_start listenfd junk)"
    and "junk \<noteq> []" "0 \<le> listenfd"
  shows "poll_round x s = poll_reference listenfd x s \<and> echoes (connected s) (ptrace s)"
  using poll_loop_inv [OF poll_start_inv [OF assms(3,4)] assms(2,1)] poll_round_reference by (simp add: poll_inv_def)

text \<open>In the second round client 4 sends, and a connection comes whose entry has \<open>POLLRDNORM\<close> in memory.\<close>

definition poll_sample :: "pround list" where
  "poll_sample = [\<lparr>p_poll = \<lambda>c. if c = 3 then {POLLRDNORM} else {}, p_accept = Some 4, p_read = \<lambda>_. Failed, p_writen = \<lambda>_. True\<rparr>,
                  \<lparr>p_poll = \<lambda>c. {POLLRDNORM}, p_accept = Some 5, p_read = \<lambda>c. if c = 4 then Data [1] else Failed, p_writen = \<lambda>_. True\<rparr>]"

definition poll_junk :: "flag set list" where
  "poll_junk = [{}, {POLLRDNORM}, {POLLRDNORM}, {}]"

definition poll_sample_mid :: psrv where
  "poll_sample_mid = \<lparr>pclient = [\<lparr>fd = 3, revents = {POLLRDNORM}\<rparr>, \<lparr>fd = 4, revents = {POLLRDNORM}\<rparr>, \<lparr>fd = -1, revents = {POLLRDNORM}\<rparr>,
     \<lparr>fd = -1, revents = {}\<rparr>], pmaxi = 1, ptrace = [Accepted 4]\<rparr>"

lemma poll_sample_first: "poll_round (poll_sample ! 0) (poll_start 3 poll_junk) = Ret () poll_sample_mid"
  by (simp add: poll_sample_def poll_junk_def poll_sample_mid_def poll_round_def poll_start_def poll_fill_def poll_count_def poll_add_def
      free_entry_def first_free_def first_index_def upt_rec Let_def)

theorem tcp_poll_reference_witness:
  "poll_round (poll_sample ! 1) poll_sample_mid = poll_reference 3 (poll_sample ! 1) poll_sample_mid \<and> echo_life 4 (ptrace poll_sample_mid) = Some Connected"
proof -
  have l: "poll_loop [poll_sample ! 0] (poll_start 3 poll_junk) = Ret () poll_sample_mid" using poll_sample_first by simp
  have k: "kernel_oks ([poll_sample ! 0] @ [poll_sample ! 1]) (poll_start 3 poll_junk)"
    using poll_sample_first by (simp add: kernel_ok_def poll_sample_mid_def split: outcome.splits)
      (simp add: poll_sample_def poll_junk_def poll_start_def)
  have "4 \<in> connected poll_sample_mid" by (simp add: connected_def poll_sample_mid_def open_fds_def)
  then show ?thesis using tcp_poll_reference [OF l k] by (simp add: poll_junk_def echoes_def)
qed

end
