(* ===== verification/Packet.thy ===== *)
theory Packet
  imports In_Cksum
begin

unbundle bit_operations_syntax

text \<open>
  IPv4, UDP and ICMP headers as the programs of unpv13e read them: through structures laid over a
  buffer, so that a field is the bytes at an offset, whether they were received or not.  Ports are
  compared as they are in the packet; here they are the numbers in network byte order.
\<close>

type_synonym bytes = "8 word list"
type_synonym mem = "nat \<Rightarrow> 8 word"

text \<open>A buffer after \<open>recvfrom\<close>: what was received, and behind it what was there before.\<close>

definition buffer :: "bytes \<Rightarrow> mem \<Rightarrow> mem" where
  "buffer d junk i = (if i < length d then d ! i else junk i)"

definition field :: "mem \<Rightarrow> nat \<Rightarrow> nat \<Rightarrow> bytes" where
  "field b i n = map b [i ..< i + n]"

definition be16 :: "mem \<Rightarrow> nat \<Rightarrow> 16 word" where
  "be16 b i = half False (b i) (b (i + 1))"

definition ip_v :: "mem \<Rightarrow> nat \<Rightarrow> 8 word" where "ip_v b i = drop_bit 4 (b i)"
definition ip_hl :: "mem \<Rightarrow> nat \<Rightarrow> nat" where "ip_hl b i = unat (b i AND 15)"
definition ip_p :: "mem \<Rightarrow> nat \<Rightarrow> 8 word" where "ip_p b i = b (i + 9)"
definition ip_dst :: "mem \<Rightarrow> nat \<Rightarrow> bytes" where "ip_dst b i = field b (i + 16) 4"

definition uh_sport :: "mem \<Rightarrow> nat \<Rightarrow> 16 word" where "uh_sport b i = be16 b i"
definition uh_dport :: "mem \<Rightarrow> nat \<Rightarrow> 16 word" where "uh_dport b i = be16 b (i + 2)"

definition IPPROTO_UDP :: "8 word" where "IPPROTO_UDP = 17"

lemma ip_hl_le: "ip_hl b i \<le> 15"
  unfolding ip_hl_def using word_and_le1 [of "b i" 15] by (simp add: word_le_nat_alt)

lemma buffer_append:
  "i < length d \<Longrightarrow> buffer (d @ e) junk i = d ! i"
  "buffer (d @ e) junk (length d + i) = buffer e (\<lambda>k. junk (length d + k)) i"
  by (simp_all add: buffer_def nth_append)

lemma field_cong: "(\<And>k. i \<le> k \<Longrightarrow> k < i + n \<Longrightarrow> b k = c k) \<Longrightarrow> field b i n = field c i n"
  by (auto simp: field_def)

text \<open>Fields that lie in what was received do not depend on the rest of the buffer.\<close>

lemma buffer_received: "i < length d \<Longrightarrow> buffer d junk i = buffer d junk' i"
  by (simp add: buffer_def)

lemma fields_received:
  "i < length d \<Longrightarrow> ip_v (buffer d junk) i = ip_v (buffer d junk') i"
  "i < length d \<Longrightarrow> ip_hl (buffer d junk) i = ip_hl (buffer d junk') i"
  "i + 9 < length d \<Longrightarrow> ip_p (buffer d junk) i = ip_p (buffer d junk') i"
  "i + 19 < length d \<Longrightarrow> ip_dst (buffer d junk) i = ip_dst (buffer d junk') i"
  "i + 1 < length d \<Longrightarrow> uh_sport (buffer d junk) i = uh_sport (buffer d junk') i"
  "i + 3 < length d \<Longrightarrow> uh_dport (buffer d junk) i = uh_dport (buffer d junk') i"
proof -
  show "i + 19 < length d \<Longrightarrow> ip_dst (buffer d junk) i = ip_dst (buffer d junk') i"
    unfolding ip_dst_def by (rule field_cong) (simp add: buffer_def)
qed (simp_all add: ip_v_def ip_hl_def ip_p_def uh_sport_def uh_dport_def be16_def buffer_def)

section \<open>Packets as bytes\<close>

text \<open>An IPv4 header: its first four bits are the version, the next four its length in words.\<close>

definition ip_header :: "bytes \<Rightarrow> bool" where
  "ip_header h \<longleftrightarrow> h \<noteq> [] \<and> length h = 4 * unat (h ! 0 AND 15) \<and> 20 \<le> length h"

definition header_proto :: "bytes \<Rightarrow> 8 word" where "header_proto h = h ! 9"
definition header_dst :: "bytes \<Rightarrow> bytes" where "header_dst h = take 4 (drop 16 h)"

text \<open>A UDP header starts with the two ports.\<close>

abbreviation port_bytes :: "16 word \<Rightarrow> bytes" where
  "port_bytes \<equiv> stored False"

lemma half_stored: "half False (stored False p ! 0) (stored False p ! 1) = p"
proof -
  have p: "unat p < 65536" using unsigned_less [where 'a = nat, of p] by simp
  then have "unat (of_nat (unat p div 256) :: 8 word) = unat p div 256" "unat (of_nat (unat p mod 256) :: 8 word) = unat p mod 256"
    by (simp_all add: unat_of_nat)
  then show ?thesis by (simp add: word_unat_eq_iff unat_half stored_def)
qed

lemma length_port_bytes [simp]: "length (port_bytes p) = 2"
  by (simp add: stored_def)

text \<open>
  An ICMP error about a UDP datagram: an IP header, the ICMP header, and the IP header and the
  start of the datagram that it is about.
\<close>

definition icmp_error :: "bytes \<Rightarrow> 8 word \<Rightarrow> 8 word \<Rightarrow> bytes \<Rightarrow> bytes \<Rightarrow> bytes \<Rightarrow> bytes" where
  "icmp_error h1 type code r6 h2 udp = h1 @ ([type, code] @ r6) @ h2 @ udp"

definition icmp_error_ok :: "bytes \<Rightarrow> bytes \<Rightarrow> bytes \<Rightarrow> bool" where
  "icmp_error_ok h1 r6 h2 \<longleftrightarrow> ip_header h1 \<and> length r6 = 6 \<and> ip_header h2 \<and> header_proto h2 = IPPROTO_UDP"

lemma icmp_error_outer:
  assumes "ip_header h1" "length r6 = 6"
  shows "ip_hl (buffer (icmp_error h1 type code r6 h2 udp) junk) 0 * 4 = length h1"
    and "buffer (icmp_error h1 type code r6 h2 udp) junk (length h1) = type"
    and "buffer (icmp_error h1 type code r6 h2 udp) junk (length h1 + 1) = code"
    and "buffer (icmp_error h1 type code r6 h2 udp) junk (length h1 + 8 + i) = buffer (h2 @ udp) (\<lambda>k. junk (length h1 + 8 + k)) i"
    and "length (icmp_error h1 type code r6 h2 udp) = length h1 + 8 + length h2 + length udp"
  using assms by (simp_all add: icmp_error_def ip_hl_def buffer_def ip_header_def nth_append add.assoc)

lemma icmp_error_inner:
  assumes "icmp_error_ok h1 r6 h2" and b_def: "b = buffer (icmp_error h1 type code r6 h2 (port_bytes sp @ port_bytes dp @ r)) junk"
  shows "ip_hl b (length h1 + 8) * 4 = length h2"
    and "ip_p b (length h1 + 8) = IPPROTO_UDP"
    and "ip_dst b (length h1 + 8) = header_dst h2"
    and "uh_sport b (length h1 + 8 + length h2) = sp"
    and "uh_dport b (length h1 + 8 + length h2) = dp"
proof -
  have o: "ip_header h1" "length r6 = 6" and h: "h2 \<noteq> []" "length h2 = 4 * unat (h2 ! 0 AND 15)" "20 \<le> length h2" "h2 ! 9 = IPPROTO_UDP"
    using assms(1) by (simp_all add: icmp_error_ok_def ip_header_def header_proto_def)
  have b: "b (length h1 + 8 + i) = buffer (h2 @ port_bytes sp @ port_bytes dp @ r) (\<lambda>k. junk (length h1 + 8 + k)) i" for i
    unfolding b_def by (rule icmp_error_outer(4) [OF o])
  show "ip_hl b (length h1 + 8) * 4 = length h2" using b [of 0] h by (simp add: ip_hl_def buffer_def nth_append)
  show "ip_p b (length h1 + 8) = IPPROTO_UDP" using b [of 9] h by (simp add: ip_p_def buffer_def nth_append)
  have "b (length h1 + 8 + (16 + k)) = h2 ! (16 + k)" if "k < 4" for k using b [of "16 + k"] h(3) that by (simp add: buffer_def nth_append)
  then show "ip_dst b (length h1 + 8) = header_dst h2"
    using h(3) by (intro nth_equalityI) (simp_all add: ip_dst_def field_def header_dst_def add.assoc)
  have udp: "b (length h1 + 8 + length h2 + i) = (port_bytes sp @ port_bytes dp) ! i" if "i < 4" for i
    using b [of "length h2 + i"] that by (auto simp: buffer_def nth_append add.assoc)
  show "uh_sport b (length h1 + 8 + length h2) = sp" using udp [of 0] udp [of 1] half_stored [of sp]
    by (simp add: uh_sport_def be16_def nth_append stored_def)
  show "uh_dport b (length h1 + 8 + length h2) = dp" using udp [of 2] udp [of 3] half_stored [of dp]
    by (simp add: uh_dport_def be16_def nth_append stored_def)
qed

end
