(* ===== verification/Icmpd.thy ===== *)
theory Icmpd
  imports Fd_Scan Packet
begin

text \<open>
  The daemon of \<open>unpv13e/icmpd\<close>, with \<open>IPV6\<close> defined: clients connect to a Unix domain socket and pass
  the descriptor of a UDP socket; the daemon reads all ICMP messages of the host and sends each error to
  the clients whose socket has the port the failed datagram came from.  What the kernel answers in
  one round of the main loop is an argument; the effects on clients are events in the state.
\<close>

section \<open>The clients\<close>

datatype family = AF_UNSPEC | AF_INET | AF_INET6 | AF_OTHER

record client =
  connfd :: int
  family :: family
  lport :: int

datatype errno = EHOSTUNREACH | ECONNREFUSED | EMSGSIZE

record icmpd_err =
  icmpd_errno :: errno
  icmpd_type :: "8 word"
  icmpd_code :: "8 word"
  dest_family :: family
  dest_addr :: bytes
  dest_port :: "16 word"

text \<open>A connection is accepted, registered with the name of its socket, refused or found closed.\<close>

datatype event =
    Accepted int
  | Registered int family int
  | Refused int
  | Gone int
  | Icmp int icmpd_err
  | Closed_passed int

record icmpd =
  clients :: "client list"
  maxi :: int
  maxfd :: int
  allset :: "int set"
  trace :: "event list"

text \<open>The sockets of the daemon, and what the kernel answers in one round; \<open>None\<close> is an error.\<close>

record socks =
  fd4 :: int
  fd6 :: int
  listenfd :: int

record cmsg =
  cmsg_int :: bool
  cmsg_level :: int
  cmsg_type :: int
  cmsg_data :: int

datatype recvmsg = Msg_error | Msg_eof | Msg_byte "cmsg option"

record round =
  r_ready :: "int set"
  r_accept :: "int option"
  r_v4 :: "(bytes \<times> mem) option"
  r_v6 :: "(bytes \<times> mem) option"
  r_recvmsg :: "int \<Rightarrow> recvmsg"
  r_sockname :: "int \<Rightarrow> (family \<times> int) option"
  r_bind :: "int \<Rightarrow> int option"
  r_write :: "int \<Rightarrow> bool"

definition icmpd_start :: "socks \<Rightarrow> icmpd" where
  "icmpd_start k = \<lparr>clients = replicate FD_SETSIZE \<lparr>connfd = -1, family = AF_UNSPEC, lport = 0\<rparr>, maxi = -1,
     maxfd = max (max (fd4 k) (fd6 k)) (listenfd k), allset = {fd4 k, fd6 k, listenfd k}, trace = []\<rparr>"

definition log :: "event \<Rightarrow> icmpd \<Rightarrow> icmpd" where
  "log e s = s\<lparr>trace := trace s @ [e]\<rparr>"

section \<open>A new connection\<close>

text \<open>Only the descriptor of the entry is set.  \<open>FD_SET\<close> beyond \<open>FD_SETSIZE\<close> writes outside of the set.\<close>

definition readable_listen :: "round \<Rightarrow> (icmpd, unit) prog" where
  "readable_listen x s =
     (case r_accept x of
        None \<Rightarrow> Abort (Err_sys ''accept error'') s
      | Some c \<Rightarrow>
        let i = first_free (map connfd (clients s)) in
        if i = FD_SETSIZE then Ret () s
        else if int FD_SETSIZE \<le> c then Abort Undefined s
        else Ret () (log (Accepted c) (s\<lparr>clients := (clients s)[i := (clients s ! i)\<lparr>connfd := c\<rparr>],
               allset := insert c (allset s), maxfd := max c (maxfd s), maxi := max (int i) (maxi s)\<rparr>)))"

section \<open>A client passes its socket\<close>

text \<open>
  \<open>cmsg_int\<close>: the control message has the length of one integer.  A byte without such a message gives
  the descriptor \<open>-1\<close>.
\<close>

definition SOL_SOCKET :: int where "SOL_SOCKET = 1"
definition SCM_RIGHTS :: int where "SCM_RIGHTS = 1"

datatype read_result = Rfd_error | Rfd_quit string | Rfd_eof | Rfd_byte int

fun read_fd :: "recvmsg \<Rightarrow> read_result" where
  "read_fd Msg_error = Rfd_error"
| "read_fd Msg_eof = Rfd_eof"
| "read_fd (Msg_byte None) = Rfd_byte (-1)"
| "read_fd (Msg_byte (Some c)) =
     (if \<not> cmsg_int c then Rfd_byte (-1)
      else if cmsg_level c \<noteq> SOL_SOCKET then Rfd_quit ''control level != SOL_SOCKET''
      else if cmsg_type c \<noteq> SCM_RIGHTS then Rfd_quit ''control type != SCM_RIGHTS''
      else Rfd_byte (cmsg_data c))"

fun sock_get_port :: "family \<Rightarrow> int \<Rightarrow> int" where
  "sock_get_port AF_INET port = port"
| "sock_get_port AF_INET6 port = port"
| "sock_get_port _ port = -1"

text \<open>\<open>b\<close>: the port that \<open>bind\<close> and \<open>getsockname\<close> give.\<close>

fun sock_bind_wild :: "int option \<Rightarrow> family \<Rightarrow> int" where
  "sock_bind_wild b AF_INET = (case b of None \<Rightarrow> -1 | Some port \<Rightarrow> port)"
| "sock_bind_wild b AF_INET6 = (case b of None \<Rightarrow> -1 | Some port \<Rightarrow> port)"
| "sock_bind_wild b _ = -1"

definition clientdone :: "nat \<Rightarrow> event \<Rightarrow> int option \<Rightarrow> icmpd \<Rightarrow> icmpd" where
  "clientdone i e recvfd s =
     (let s = log e (s\<lparr>clients := (clients s)[i := (clients s ! i)\<lparr>connfd := -1\<rparr>], allset := allset s - {connfd (clients s ! i)}\<rparr>)
      in case recvfd of None \<Rightarrow> s | Some r \<Rightarrow> log (Closed_passed r) s)"

definition clienterr :: "round \<Rightarrow> nat \<Rightarrow> int option \<Rightarrow> (icmpd, unit) prog" where
  "clienterr x i recvfd s =
     (let unixfd = connfd (clients s ! i) in
      if r_write x unixfd then Ret () (clientdone i (Refused unixfd) recvfd s) else Abort (Err_sys ''write error'') s)"

definition readable_conn :: "round \<Rightarrow> nat \<Rightarrow> (icmpd, unit) prog" where
  "readable_conn x i s =
     (let unixfd = connfd (clients s ! i) in
      case read_fd (r_recvmsg x unixfd) of
        Rfd_error \<Rightarrow> Abort (Err_sys ''read_fd error'') s
      | Rfd_quit m \<Rightarrow> Abort (Err_quit m) s
      | Rfd_eof \<Rightarrow> Ret () (clientdone i (Gone unixfd) None s)
      | Rfd_byte r \<Rightarrow>
        if r < 0 then clienterr x i None s
        else (case r_sockname x r of
           None \<Rightarrow> clienterr x i (Some r) s
         | Some (f, p) \<Rightarrow>
           let port = sock_get_port f p;
               lp = (if port = 0 then sock_bind_wild (r_bind x r) f else port);
               s = s\<lparr>clients := (clients s)[i := \<lparr>connfd = unixfd, family = f, lport = lp\<rparr>]\<rparr> in
           if port = 0 \<and> lp \<le> 0 then clienterr x i (Some r) s
           else if r_write x unixfd then Ret () (log (Closed_passed r) (log (Registered unixfd f lp) s))
           else Abort (Err_sys ''write error'') s))"

section \<open>An ICMP message\<close>

definition ICMP_UNREACH :: "8 word" where "ICMP_UNREACH = 3"
definition ICMP_SOURCEQUENCH :: "8 word" where "ICMP_SOURCEQUENCH = 4"
definition ICMP_TIMXCEED :: "8 word" where "ICMP_TIMXCEED = 11"
definition ICMP_UNREACH_PORT :: "8 word" where "ICMP_UNREACH_PORT = 3"
definition ICMP_UNREACH_NEEDFRAG :: "8 word" where "ICMP_UNREACH_NEEDFRAG = 4"
definition ICMP6_DST_UNREACH :: "8 word" where "ICMP6_DST_UNREACH = 1"
definition ICMP6_PACKET_TOO_BIG :: "8 word" where "ICMP6_PACKET_TOO_BIG = 2"
definition ICMP6_TIME_EXCEEDED :: "8 word" where "ICMP6_TIME_EXCEEDED = 3"
definition ICMP6_DST_UNREACH_NOPORT :: "8 word" where "ICMP6_DST_UNREACH_NOPORT = 4"

lemmas icmp_codes = ICMP_UNREACH_def ICMP_SOURCEQUENCH_def ICMP_TIMXCEED_def ICMP_UNREACH_PORT_def ICMP_UNREACH_NEEDFRAG_def
  ICMP6_DST_UNREACH_def ICMP6_PACKET_TOO_BIG_def ICMP6_TIME_EXCEEDED_def ICMP6_DST_UNREACH_NOPORT_def

definition errno_v4 :: "8 word \<Rightarrow> 8 word \<Rightarrow> errno" where
  "errno_v4 type code =
     (if type = ICMP_UNREACH
      then if code = ICMP_UNREACH_PORT then ECONNREFUSED else if code = ICMP_UNREACH_NEEDFRAG then EMSGSIZE else EHOSTUNREACH
      else EHOSTUNREACH)"

definition errno_v6 :: "8 word \<Rightarrow> 8 word \<Rightarrow> errno" where
  "errno_v6 type code =
     (let e = (if type = ICMP6_DST_UNREACH \<and> code = ICMP6_DST_UNREACH_NOPORT then ECONNREFUSED else EHOSTUNREACH)
      in if type = ICMP6_PACKET_TOO_BIG then EMSGSIZE else e)"

text \<open>The loop over the entries up to \<open>maxi\<close>.\<close>

fun send_errs :: "(int \<Rightarrow> bool) \<Rightarrow> family \<Rightarrow> int \<Rightarrow> icmpd_err \<Rightarrow> client list \<Rightarrow> (icmpd, unit) prog" where
  "send_errs w f sport e [] s = Ret () s"
| "send_errs w f sport e (c # cs) s =
     (if 0 \<le> connfd c \<and> family c = f \<and> lport c = sport
      then if w (connfd c) then send_errs w f sport e cs (log (Icmp (connfd c) e) s) else Abort (Err_sys ''write error'') s
      else send_errs w f sport e cs s)"

definition readable_v4 :: "(int \<Rightarrow> bool) \<Rightarrow> (bytes \<times> mem) option \<Rightarrow> (icmpd, unit) prog" where
  "readable_v4 w r s =
     (case r of
        None \<Rightarrow> Abort (Err_sys ''recvfrom error'') s
      | Some (d, junk) \<Rightarrow>
        let buf = buffer d junk; hlen1 = ip_hl buf 0 * 4; icmplen = int (length d) - int hlen1 in
        if icmplen < 8 then Abort (Err_quit ''icmplen < 8'') s
        else let type = buf hlen1; code = buf (hlen1 + 1) in
        if type = ICMP_UNREACH \<or> type = ICMP_TIMXCEED \<or> type = ICMP_SOURCEQUENCH
        then if icmplen < 8 + 20 + 8 then Abort (Err_quit ''icmplen < 8 + 20 + 8'') s
             else let hip = hlen1 + 8; hlen2 = ip_hl buf hip * 4 in
                  if ip_p buf hip = IPPROTO_UDP
                  then let udp = hip + hlen2 in
                       send_errs w AF_INET (uint (uh_sport buf udp))
                         \<lparr>icmpd_errno = errno_v4 type code, icmpd_type = type, icmpd_code = code, dest_family = AF_INET,
                          dest_addr = ip_dst buf hip, dest_port = uh_dport buf udp\<rparr>
                         (take (nat (maxi s + 1)) (clients s)) s
                  else Ret () s
        else Ret () s)"

text \<open>The IPv6 header has 40 bytes, its next header field at 6 and the destination at 24.\<close>

definition readable_v6 :: "(int \<Rightarrow> bool) \<Rightarrow> (bytes \<times> mem) option \<Rightarrow> (icmpd, unit) prog" where
  "readable_v6 w r s =
     (case r of
        None \<Rightarrow> Abort (Err_sys ''recvfrom error'') s
      | Some (d, junk) \<Rightarrow>
        let buf = buffer d junk; icmp6len = int (length d) in
        if icmp6len < 8 then Abort (Err_quit ''icmp6len < 8'') s
        else let type = buf 0; code = buf 1 in
        if type = ICMP6_DST_UNREACH \<or> type = ICMP6_PACKET_TOO_BIG \<or> type = ICMP6_TIME_EXCEEDED
        then if icmp6len < 8 + 8 then Abort (Err_quit ''icmp6len < 8 + 8'') s
             else let hip6 = 8; hlen2 = 40 in
                  if buf (hip6 + 6) = IPPROTO_UDP
                  then let udp = hip6 + hlen2 in
                       send_errs w AF_INET6 (uint (uh_sport buf udp))
                         \<lparr>icmpd_errno = errno_v6 type code, icmpd_type = type, icmpd_code = code, dest_family = AF_INET6,
                          dest_addr = field buf (hip6 + 24) 16, dest_port = uh_dport buf udp\<rparr>
                         (take (nat (maxi s + 1)) (clients s)) s
                  else Ret () s
        else Ret () s)"

section \<open>The main loop\<close>

definition is_ready :: "int set \<Rightarrow> icmpd \<Rightarrow> nat \<Rightarrow> bool" where
  "is_ready rset s i \<longleftrightarrow> i < length (clients s) \<and> 0 \<le> connfd (clients s ! i) \<and> connfd (clients s ! i) \<in> rset"

text \<open>One of the sockets of the daemon; the rest of the round is left out when the count is used up.\<close>

definition stage :: "bool \<Rightarrow> ('s, unit) prog \<Rightarrow> (int \<Rightarrow> ('s, unit) prog) \<Rightarrow> int \<Rightarrow> ('s, unit) prog" where
  "stage on act rest nready s =
     (if on then case act s of Abort e s \<Rightarrow> Abort e s | Ret _ s \<Rightarrow> if nready - 1 \<le> 0 then Ret () s else rest (nready - 1) s
      else rest nready s)"

definition icmpd_round :: "socks \<Rightarrow> round \<Rightarrow> (icmpd, unit) prog" where
  "icmpd_round k x s =
     (let rset = r_ready x \<inter> allset s \<inter> {.. maxfd s} in
      stage (listenfd k \<in> rset) (readable_listen x)
        (stage (fd4 k \<in> rset) (readable_v4 (r_write x) (r_v4 x))
          (stage (fd6 k \<in> rset) (readable_v6 (r_write x) (r_v6 x))
            (\<lambda>nready s. scan (is_ready rset) (readable_conn x) [0 ..< nat (maxi s + 1)] nready s)))
        (int (card rset)) s)"

fun icmpd_loop :: "socks \<Rightarrow> round list \<Rightarrow> (icmpd, unit) prog" where
  "icmpd_loop k [] s = Ret () s"
| "icmpd_loop k (x # xs) s = (case icmpd_round k x s of Abort e s \<Rightarrow> Abort e s | Ret _ s \<Rightarrow> icmpd_loop k xs s)"

text \<open>The kernel gives a new connection a descriptor that the daemon does not have.\<close>

definition fresh_accept :: "socks \<Rightarrow> round \<Rightarrow> icmpd \<Rightarrow> bool" where
  "fresh_accept k x s \<longleftrightarrow> (\<forall>c \<in> set_option (r_accept x). 0 \<le> c \<and> c \<notin> {fd4 k, fd6 k, listenfd k} \<and> c \<notin> connfd ` set (clients s))"

fun fresh_fds :: "socks \<Rightarrow> round list \<Rightarrow> icmpd \<Rightarrow> bool" where
  "fresh_fds k [] s \<longleftrightarrow> True"
| "fresh_fds k (x # xs) s \<longleftrightarrow> fresh_accept k x s \<and> (case icmpd_round k x s of Abort e s \<Rightarrow> True | Ret _ s \<Rightarrow> fresh_fds k xs s)"

text \<open>The round without \<open>maxi\<close>, \<open>maxfd\<close> and the count: each descriptor that is ready is handled.\<close>

definition act_if :: "bool \<Rightarrow> ('s, unit) prog \<Rightarrow> ('s, unit) prog" where
  "act_if on act s = (if on then act s else Ret () s)"

definition icmpd_reference :: "socks \<Rightarrow> round \<Rightarrow> (icmpd, unit) prog" where
  "icmpd_reference k x s =
     (let rset = r_ready x \<inter> allset s in
      bindc (act_if (listenfd k \<in> rset) (readable_listen x)) (\<lambda>_.
      bindc (act_if (fd4 k \<in> rset) (readable_v4 (r_write x) (r_v4 x))) (\<lambda>_.
      bindc (act_if (fd6 k \<in> rset) (readable_v6 (r_write x) (r_v6 x))) (\<lambda>_.
      serve_all (is_ready rset) (readable_conn x) [0 ..< FD_SETSIZE]))) s)"

section \<open>Who is connected, and with which socket\<close>

text \<open>From the events: \<open>None\<close> for no connection, \<open>Some None\<close> before the client has registered.\<close>

fun upd_conn :: "(int \<Rightarrow> (family \<times> int) option option) \<Rightarrow> event \<Rightarrow> int \<Rightarrow> (family \<times> int) option option" where
  "upd_conn w (Accepted c) = w(c := Some None)"
| "upd_conn w (Registered c f p) = w(c := Some (Some (f, p)))"
| "upd_conn w (Refused c) = w(c := None)"
| "upd_conn w (Gone c) = w(c := None)"
| "upd_conn w _ = w"

definition conn :: "event list \<Rightarrow> int \<Rightarrow> (family \<times> int) option option" where
  "conn es = foldl upd_conn (\<lambda>_. None) es"

lemma conn_append [simp]: "conn [] = (\<lambda>_. None)" "conn (es @ es') = foldl upd_conn (conn es) es'"
  by (simp_all add: conn_def)

lemma conn_icmp: "foldl upd_conn w (map (\<lambda>c. Icmp (g c) e) cs) = w"
  by (induction cs) auto

lemma log_simps [simp]:
  "clients (log e s) = clients s" "maxi (log e s) = maxi s" "maxfd (log e s) = maxfd s" "allset (log e s) = allset s"
  "trace (log e s) = trace s @ [e]"
  by (simp_all add: log_def)

abbreviation fds :: "icmpd \<Rightarrow> int list" where
  "fds s \<equiv> map connfd (clients s)"

definition table_ok :: "nat \<Rightarrow> icmpd \<Rightarrow> bool" where
  "table_ok m s \<longleftrightarrow> length (clients s) = FD_SETSIZE \<and> fd_table (fds s) \<and> (\<forall>i < FD_SETSIZE. m \<le> i \<longrightarrow> connfd (clients s ! i) < 0)"

text \<open>What serving one client does.\<close>

lemma clientdone_simps [simp]:
  "clients (clientdone i e r s) = (clients s)[i := (clients s ! i)\<lparr>connfd := -1\<rparr>]" "maxi (clientdone i e r s) = maxi s"
  "maxfd (clientdone i e r s) = maxfd s" "allset (clientdone i e r s) = allset s - {connfd (clients s ! i)}"
  "conn (trace (clientdone i e r s)) = upd_conn (conn (trace s)) e"
  by (simp_all add: clientdone_def Let_def split: option.splits)

lemma readable_conn_cases:
  assumes "readable_conn x i s = Ret u s'" "i < length (clients s)"
  obtains (dropped) e r c where "e = Gone (connfd (clients s ! i)) \<or> e = Refused (connfd (clients s ! i))" "connfd c = connfd (clients s ! i)"
      "s' = clientdone i e r (s\<lparr>clients := (clients s)[i := c]\<rparr>)"
    | (registered) r f p where
      "s' = log (Closed_passed r) (log (Registered (connfd (clients s ! i)) f p)
              (s\<lparr>clients := (clients s)[i := \<lparr>connfd = connfd (clients s ! i), family = f, lport = p\<rparr>]\<rparr>))"
proof (cases "read_fd (r_recvmsg x (connfd (clients s ! i)))")
  case (Rfd_byte r)
  have same: "s = s\<lparr>clients := (clients s)[i := clients s ! i]\<rparr>" by simp
  show ?thesis
  proof (cases "r < 0")
    case True
    then show ?thesis using assms Rfd_byte dropped [of "Refused (connfd (clients s ! i))" "clients s ! i" None] same
      by (simp add: readable_conn_def clienterr_def Let_def split: if_splits)
  next
    case r: False
    show ?thesis
    proof (cases "r_sockname x r")
      case None
      then show ?thesis using assms Rfd_byte r dropped [of "Refused (connfd (clients s ! i))" "clients s ! i" "Some r"] same
        by (simp add: readable_conn_def clienterr_def Let_def split: if_splits)
    next
      case (Some fp)
      obtain f p where fp: "fp = (f, p)" by force
      show ?thesis
      proof (cases "sock_get_port f p = 0")
        case True
        then show ?thesis
          using assms Rfd_byte r Some fp registered [of r f "sock_bind_wild (r_bind x r) f"]
            dropped [of "Refused (connfd (clients s ! i))" "\<lparr>connfd = connfd (clients s ! i), family = f, lport = sock_bind_wild (r_bind x r) f\<rparr>" "Some r"]
          by (simp add: readable_conn_def clienterr_def Let_def split: if_splits)
      next
        case False
        then show ?thesis using assms Rfd_byte r Some fp registered [of r f "sock_get_port f p"]
          by (simp add: readable_conn_def Let_def split: if_splits)
      qed
    qed
  qed
next
  case Rfd_eof
  then show ?thesis using assms dropped [of "Gone (connfd (clients s ! i))" "clients s ! i" None]
    by (simp add: readable_conn_def)
qed (use assms in \<open>simp_all add: readable_conn_def\<close>)

lemma map_connfd_upd:
  assumes "i < length (clients s)" "connfd c = connfd (clients s ! i)"
  shows "map connfd ((clients s)[i := c]) = fds s"
  using assms list_update_id [of "fds s" i] by (simp add: map_update)

lemma readable_conn_fds:
  assumes "readable_conn x i s = Ret u s'" "i < length (clients s)"
  shows "(fds s' = fds s \<or> fds s' = (fds s)[i := -1]) \<and> maxi s' = maxi s"
  using assms
proof (cases rule: readable_conn_cases)
  case (dropped e r c)
  then show ?thesis by (simp add: map_update)
next
  case (registered r f p)
  then show ?thesis using map_connfd_upd [OF assms(2)] by simp
qed

lemma readable_conn_nth:
  assumes "readable_conn x i s = Ret u s'" "i < length (clients s)"
  shows "length (clients s') = length (clients s)" "j \<noteq> i \<Longrightarrow> fds s' ! j = fds s ! j"
proof -
  show "length (clients s') = length (clients s)" using readable_conn_fds [OF assms] by (metis length_list_update length_map)
  show "j \<noteq> i \<Longrightarrow> fds s' ! j = fds s ! j" using readable_conn_fds [OF assms] by auto
qed

interpretation icm: fd_scan "table_ok m" "is_ready rset" "readable_conn x" for m rset x
proof
  fix s i u s' assume t: "table_ok m s" and r: "is_ready rset s i" and v: "readable_conn x i s = Ret u s'"
  have i: "i < length (clients s)" "0 \<le> fds s ! i" using r by (auto simp: is_ready_def)
  note f = readable_conn_fds [OF v i(1)] and l = readable_conn_nth(1) [OF v i(1)]
  have "fd_table (fds s')" using f t fd_table_del(1) [of "fds s" i] i by (auto simp: table_ok_def)
  moreover have "fds s' ! j < 0" if "j < FD_SETSIZE" "m \<le> j" for j
  proof -
    have "fds s ! j < 0" "i < FD_SETSIZE" using t that i(1) by (simp_all add: table_ok_def)
    then show ?thesis using f t that by (cases "j = i") (auto simp: table_ok_def)
  qed
  ultimately show "table_ok m s'" using t l by (simp add: table_ok_def)
next
  fix s i u s' and j :: nat assume r: "is_ready rset s i" and v: "readable_conn x i s = Ret u s'" and n: "j \<noteq> i"
  have i: "i < length (clients s)" using r by (simp add: is_ready_def)
  note l = readable_conn_nth [OF v i]
  show "is_ready rset s' j = is_ready rset s j" using l(1) l(2) [OF n] by (auto simp: is_ready_def)
qed

section \<open>The invariant\<close>

definition daemon :: "socks \<Rightarrow> int set" where
  "daemon k = {fd4 k, fd6 k, listenfd k}"

text \<open>A client that has registered is in the table with the name of its socket.\<close>

definition names_ok :: "icmpd \<Rightarrow> bool" where
  "names_ok s \<longleftrightarrow> (\<forall>i f p. i < length (clients s) \<longrightarrow> 0 \<le> fds s ! i \<longrightarrow> conn (trace s) (fds s ! i) = Some (Some (f, p)) \<longrightarrow>
     family (clients s ! i) = f \<and> lport (clients s ! i) = p)"

lemma names_okD:
  "names_ok s \<Longrightarrow> i < length (clients s) \<Longrightarrow> 0 \<le> connfd (clients s ! i) \<Longrightarrow> conn (trace s) (connfd (clients s ! i)) = Some (Some (f, p)) \<Longrightarrow>
   family (clients s ! i) = f \<and> lport (clients s ! i) = p"
  unfolding names_ok_def by (metis nth_map)

definition icmpd_inv :: "socks \<Rightarrow> icmpd \<Rightarrow> bool" where
  "icmpd_inv k s \<longleftrightarrow> table_ok (nat (maxi s + 1)) s \<and> -1 \<le> maxi s \<and> maxi s < int FD_SETSIZE
     \<and> open_fds (fds s) \<subseteq> {0 ..< int FD_SETSIZE} \<and> daemon k \<inter> open_fds (fds s) = {}
     \<and> allset s = daemon k \<union> open_fds (fds s) \<and> (\<forall>fd \<in> allset s. fd \<le> maxfd s)
     \<and> (\<forall>c. conn (trace s) c \<noteq> None \<longleftrightarrow> c \<in> open_fds (fds s)) \<and> names_ok s"

lemma icmpd_inv_start: "icmpd_inv k (icmpd_start k)"
  by (auto simp: icmpd_inv_def names_ok_def icmpd_start_def table_ok_def daemon_def FD_SETSIZE_def)

lemma inv_table: "icmpd_inv k s \<Longrightarrow> length (clients s) = FD_SETSIZE \<and> fd_table (fds s)"
  by (simp add: icmpd_inv_def table_ok_def)

lemma inv_log_icmp:
  assumes "icmpd_inv k s" "foldl upd_conn (conn (trace s)) es = conn (trace s)"
  shows "icmpd_inv k (s\<lparr>trace := trace s @ es\<rparr>)"
  using assms by (simp add: icmpd_inv_def table_ok_def names_ok_def)

lemma inv_listen:
  assumes I: "icmpd_inv k s" and fresh: "fresh_accept k x s" and r: "readable_listen x s = Ret u s'"
  shows "icmpd_inv k s'"
proof (cases "first_free (fds s) = FD_SETSIZE")
  case True
  then show ?thesis using r I by (auto simp: readable_listen_def Let_def split: option.splits)
next
  case False
  let ?i = "first_free (fds s)"
  obtain c where c: "r_accept x = Some c" "c < int FD_SETSIZE"
    and s': "s' = log (Accepted c) (s\<lparr>clients := (clients s)[?i := (clients s ! ?i)\<lparr>connfd := c\<rparr>],
               allset := insert c (allset s), maxfd := max c (maxfd s), maxi := max (int ?i) (maxi s)\<rparr>)"
    using r False by (auto simp: readable_listen_def Let_def split: option.splits if_splits)
  have i: "?i < length (fds s)" using False first_index_le [of "length (fds s)"] inv_table [OF I]
    by (metis first_free_def le_neq_implies_less length_map)
  have f: "fds s ! ?i < 0" using first_index_holds i unfolding first_free_def by fast
  have cc: "0 \<le> c" "c \<notin> daemon k" "c \<notin> connfd ` set (clients s)" using fresh c(1) by (auto simp: fresh_accept_def daemon_def)
  have o: "c \<notin> open_fds (fds s)" using cc(3) by (auto simp: open_fds_def)
  have m: "fds s' = (fds s)[?i := c]" by (simp add: s' map_update)
  note add = fd_table_add [OF conjunct2 [OF inv_table [OF I]] i f cc(1) o]
  have t: "conn (trace s') = (conn (trace s))(c := Some None)" by (simp add: s')
  have "fds s' ! j < 0" if "j < FD_SETSIZE" "nat (maxi s' + 1) \<le> j" for j
    using I that m by (auto simp: icmpd_inv_def table_ok_def s')
  then have "table_ok (nat (maxi s' + 1)) s'" using inv_table [OF I] add(1) m by (simp add: table_ok_def s')
  moreover have "names_ok s'" unfolding names_ok_def
  proof (intro allI impI)
    fix j g p assume j: "j < length (clients s')" "0 \<le> fds s' ! j" "conn (trace s') (fds s' ! j) = Some (Some (g, p))"
    then have n: "fds s' ! j \<noteq> c" by (auto simp: t)
    then have "j \<noteq> ?i" using m i by auto
    then have "fds s' ! j = fds s ! j" "clients s' ! j = clients s ! j" "j < length (clients s)" using j(1) m by (simp_all add: s')
    then show "family (clients s' ! j) = g \<and> lport (clients s' ! j) = p" using I j n by (simp add: icmpd_inv_def names_ok_def t)
  qed
  moreover have "maxi s' = max (int ?i) (maxi s)" "maxfd s' = max c (maxfd s)" "allset s' = insert c (allset s)" by (simp_all add: s')
  moreover have "conn (trace s') b \<noteq> None \<longleftrightarrow> b \<in> open_fds (fds s')" for b using I add(2) m t by (simp add: icmpd_inv_def)
  ultimately show ?thesis
    using I c(2) cc(1,2) i add(2) m inv_table [OF I] by (auto simp: icmpd_inv_def le_max_iff_disj)
qed

lemma inv_conn:
  assumes I: "icmpd_inv k s" and r: "is_ready rset s i" and v: "readable_conn x i s = Ret u s'"
  shows "icmpd_inv k s'"
proof -
  have i: "i < length (clients s)" "i < length (fds s)" "0 \<le> fds s ! i" using r by (auto simp: is_ready_def)
  have t: "fd_table (fds s)" using inv_table [OF I] by simp
  have m: "maxi s' = maxi s" using readable_conn_fds [OF v i(1)] by simp
  have tab: "table_ok (nat (maxi s' + 1)) s'" using icm.serve_keeps [OF _ r v] I m by (simp add: icmpd_inv_def)
  have uniq: "fds s ! j = fds s ! i \<Longrightarrow> j = i" if "j < length (clients s)" for j using fd_tableD [OF t] i that by (metis length_map)
  from v i(1) show ?thesis
  proof (cases rule: readable_conn_cases)
    case (dropped e ro c)
    have f: "fds s' = (fds s)[i := -1]" by (simp add: dropped map_update)
    have o: "open_fds (fds s') = open_fds (fds s) - {fds s ! i}" unfolding f by (rule fd_table_del(2) [OF t i(2,3)])
    have c: "conn (trace s') = (conn (trace s))(fds s ! i := None)" using dropped(1,3) i(1) by auto
    have "names_ok s'" unfolding names_ok_def
    proof (intro allI impI)
      fix j g p assume j: "j < length (clients s')" "0 \<le> fds s' ! j" "conn (trace s') (fds s' ! j) = Some (Some (g, p))"
      then have n: "j \<noteq> i" using f i(2) by auto
      then have "fds s' ! j = fds s ! j" "clients s' ! j = clients s ! j" "j < length (clients s)" using j(1) f by (simp_all add: dropped(3))
      then have "conn (trace s') (fds s' ! j) = conn (trace s) (fds s ! j)" using n uniq by (auto simp: c)
      then show "family (clients s' ! j) = g \<and> lport (clients s' ! j) = p"
        using I j \<open>fds s' ! j = fds s ! j\<close> \<open>clients s' ! j = clients s ! j\<close> \<open>j < length (clients s)\<close>
        unfolding icmpd_inv_def names_ok_def by metis
    qed
    moreover have "allset s' = allset s - {fds s ! i}" "maxfd s' = maxfd s" using dropped(2,3) i(1) by simp_all
    moreover have "fds s ! i \<in> open_fds (fds s)" using i unfolding open_fds_iff by auto
    ultimately show ?thesis using I tab o c m by (auto simp: icmpd_inv_def)
  next
    case (registered ro f p)
    have f: "fds s' = fds s" by (simp add: registered map_connfd_upd [OF i(1)])
    have c: "conn (trace s') = (conn (trace s))(fds s ! i := Some (Some (f, p)))" using i(1) by (simp add: registered)
    have "names_ok s'" unfolding names_ok_def
    proof (intro allI impI)
      fix j g q assume j: "j < length (clients s')" "0 \<le> fds s' ! j" "conn (trace s') (fds s' ! j) = Some (Some (g, q))"
      show "family (clients s' ! j) = g \<and> lport (clients s' ! j) = q"
      proof (cases "j = i")
        case True
        then show ?thesis using j(3) i(1) f c by (simp add: registered)
      next
        case False
        then have "fds s' ! j = fds s ! j" "clients s' ! j = clients s ! j" "j < length (clients s)" using j(1) f by (simp_all add: registered)
        moreover from this have "conn (trace s') (fds s' ! j) = conn (trace s) (fds s ! j)" using False uniq by (auto simp: c)
        ultimately show ?thesis using I j unfolding icmpd_inv_def names_ok_def by metis
      qed
    qed
    moreover have "fds s ! i \<in> open_fds (fds s)" using i unfolding open_fds_iff by auto
    ultimately show ?thesis using I tab f c m by (auto simp: icmpd_inv_def registered)
  qed
qed

lemma inv_all: "icmpd_inv k s \<Longrightarrow> serve_all (is_ready rset) (readable_conn x) is s = Ret u s' \<Longrightarrow> icmpd_inv k s'"
  by (induction "is" arbitrary: s) (auto split: if_splits outcome.splits dest: inv_conn)

section \<open>Messages change only the events\<close>

lemma send_errs_Ret:
  "send_errs w f p e cs s = Ret u s' \<Longrightarrow>
   s' = s\<lparr>trace := trace s @ map (\<lambda>c. Icmp (connfd c) e) (filter (\<lambda>c. 0 \<le> connfd c \<and> family c = f \<and> lport c = p) cs)\<rparr>"
proof (induction cs arbitrary: s)
  case (Cons c cs)
  show ?case
  proof (cases "0 \<le> connfd c \<and> family c = f \<and> lport c = p")
    case True
    then have "send_errs w f p e cs (log (Icmp (connfd c) e) s) = Ret u s'" using Cons.prems by (simp split: if_splits)
    from Cons.IH [OF this] show ?thesis using True by (simp add: log_def)
  next
    case False
    then have "send_errs w f p e cs s = Ret u s'" using Cons.prems by (simp split: if_splits)
    from Cons.IH [OF this] show ?thesis using False by simp
  qed
qed simp

lemma send_errs_writes:
  "\<forall>c \<in> set cs. 0 \<le> connfd c \<longrightarrow> w (connfd c) \<Longrightarrow> \<exists>s'. send_errs w f p e cs s = Ret () s'"
  by (induction cs arbitrary: s) auto

lemma inv_send_errs: "icmpd_inv k s \<Longrightarrow> send_errs w f p e cs s = Ret u s' \<Longrightarrow> icmpd_inv k s'"
  using send_errs_Ret [of w f p e cs s u s'] by (auto intro: inv_log_icmp simp: conn_icmp)

lemma inv_v4: "icmpd_inv k s \<Longrightarrow> readable_v4 w r s = Ret u s' \<Longrightarrow> icmpd_inv k s'"
  by (auto simp: readable_v4_def Let_def split: option.splits if_splits intro: inv_send_errs)

lemma inv_v6: "icmpd_inv k s \<Longrightarrow> readable_v6 w r s = Ret u s' \<Longrightarrow> icmpd_inv k s'"
  by (auto simp: readable_v6_def Let_def split: option.splits if_splits intro: inv_send_errs)

section \<open>The two rounds agree\<close>

lemma ready_clients:
  assumes "icmpd_inv k s" "finite rset"
  shows "card {i. i < m \<and> is_ready rset s i} \<le> card (rset - daemon k)"
proof (rule card_inj_on_le)
  have "inj_on (\<lambda>i. fds s ! i) {i. i < m \<and> is_ready rset s i}"
    using inv_table [OF assms(1)] by (intro inj_onI) (auto simp: is_ready_def dest: fd_tableD)
  then show "inj_on ((!) (fds s)) {i. i < m \<and> is_ready rset s i}" by simp
  have "daemon k \<inter> open_fds (fds s) = {}" using assms(1) by (simp add: icmpd_inv_def)
  moreover have "fds s ! i \<in> open_fds (fds s)" if "is_ready rset s i" for i
    using that unfolding open_fds_iff is_ready_def by auto
  ultimately show "(!) (fds s) ` {i. i < m \<and> is_ready rset s i} \<subseteq> rset - daemon k"
    by (auto simp: is_ready_def)
qed (use assms(2) in simp)

definition serve_clients :: "round \<Rightarrow> int set \<Rightarrow> (icmpd, unit) prog" where
  "serve_clients x rset = serve_all (is_ready rset) (readable_conn x) [0 ..< FD_SETSIZE]"

lemma scan_clients:
  assumes "icmpd_inv k s" "finite rset"
  shows "scan (is_ready rset) (readable_conn x) [0 ..< nat (maxi s + 1)] (int (card (rset - daemon k))) s = serve_clients x rset s"
  unfolding serve_clients_def
proof (rule icm.scan_serves_upto)
  show "table_ok (nat (maxi s + 1)) s" "nat (maxi s + 1) \<le> FD_SETSIZE" using assms(1) by (auto simp: icmpd_inv_def)
  show "\<not> is_ready rset s' i" if "table_ok (nat (maxi s + 1)) s'" "nat (maxi s + 1) \<le> i" for s' i
    using that by (auto simp: table_ok_def is_ready_def)
  show "int (card {i. i < nat (maxi s + 1) \<and> is_ready rset s i}) \<le> int (card (rset - daemon k))"
    using ready_clients [OF assms] by simp
qed

lemma serve_clients_none:
  assumes "icmpd_inv k s" "finite rset" "card (rset - daemon k) = 0"
  shows "serve_clients x rset s = Ret () s"
proof -
  have "card {i. i < FD_SETSIZE \<and> is_ready rset s i} = 0" using ready_clients [OF assms(1,2), of FD_SETSIZE] assms(3) by simp
  then have "{i. i < FD_SETSIZE \<and> is_ready rset s i} = {}" by (subst (asm) card_0_eq) auto
  then show ?thesis unfolding serve_clients_def by (intro serve_all_none) auto
qed

text \<open>A stage with its count is the action and then the rest, if the count is right for the rest.\<close>

lemma stage_reference:
  assumes "\<And>s'. (if on then act s = Ret () s' else s' = s) \<Longrightarrow> rest (int m) s' = ref s'"
    and "\<And>s'. (if on then act s = Ret () s' else s' = s) \<Longrightarrow> m = 0 \<Longrightarrow> ref s' = Ret () s'"
  shows "stage on act rest (of_bool on + int m) s = bindc (act_if on act) (\<lambda>_. ref) s"
proof (cases on)
  case True
  then show ?thesis using assms by (cases "act s") (auto simp: stage_def bindc_def act_if_def)
next
  case False
  then show ?thesis using assms(1) [of s] by (simp add: stage_def bindc_def act_if_def)
qed

lemma bindc_none: "act_if on act s = Ret () s' \<Longrightarrow> bindc (act_if on act) (\<lambda>_. ref) s = ref s'"
  by (simp add: bindc_def)

lemma icmpd_round_reference:
  assumes I: "icmpd_inv k s" and fresh: "fresh_accept k x s" and d: "distinct [listenfd k, fd4 k, fd6 k]"
  shows "icmpd_round k x s = icmpd_reference k x s"
proof -
  let ?R = "r_ready x \<inter> allset s"
  define on1 where "on1 \<longleftrightarrow> listenfd k \<in> ?R"
  define on2 where "on2 \<longleftrightarrow> fd4 k \<in> ?R"
  define on3 where "on3 \<longleftrightarrow> fd6 k \<in> ?R"
  let ?m = "card (?R - daemon k)"
  let ?v4 = "readable_v4 (r_write x) (r_v4 x)" and ?v6 = "readable_v6 (r_write x) (r_v6 x)"
  let ?scan = "\<lambda>n s. scan (is_ready ?R) (readable_conn x) [0 ..< nat (maxi s + 1)] n s"
  have R: "r_ready x \<inter> allset s \<inter> {.. maxfd s} = ?R" and fin: "finite ?R" using I by (auto simp: icmpd_inv_def daemon_def)
  have "?R = (?R - daemon k) \<union> ({fd. fd = listenfd k \<and> on1} \<union> ({fd. fd = fd4 k \<and> on2} \<union> {fd. fd = fd6 k \<and> on3}))"
    by (auto simp: daemon_def on1_def on2_def on3_def)
  moreover have "card \<dots> = ?m + (of_bool on1 + (of_bool on2 + of_bool on3))"
  proof -
    have c: "card {fd. fd = a \<and> b} = of_bool b" "finite {fd. fd = a \<and> b}" for a :: int and b by (cases b; simp)+
    show ?thesis using d fin by (subst card_Un_disjoint; (subst card_Un_disjoint)?) (auto simp: daemon_def c card_Un_disjoint)
  qed
  ultimately have n: "int (card ?R) = of_bool on1 + int (nat (of_bool on2 + int (nat (of_bool on3 + int ?m))))" by simp
  have s3: "stage on3 ?v6 ?scan (of_bool on3 + int ?m) t = bindc (act_if on3 ?v6) (\<lambda>_. serve_clients x ?R) t" if "icmpd_inv k t" for t
  proof (rule stage_reference)
    fix t' assume "if on3 then ?v6 t = Ret () t' else t' = t"
    then have t': "icmpd_inv k t'" using that inv_v6 by (auto split: if_splits)
    show "?scan (int ?m) t' = serve_clients x ?R t'" by (rule scan_clients [OF t' fin])
    show "?m = 0 \<Longrightarrow> serve_clients x ?R t' = Ret () t'" by (rule serve_clients_none [OF t' fin])
  qed
  have s2: "stage on2 ?v4 (stage on3 ?v6 ?scan) (of_bool on2 + int (nat (of_bool on3 + int ?m))) t
      = bindc (act_if on2 ?v4) (\<lambda>_. bindc (act_if on3 ?v6) (\<lambda>_. serve_clients x ?R)) t" if "icmpd_inv k t" for t
  proof (rule stage_reference)
    fix t' assume "if on2 then ?v4 t = Ret () t' else t' = t"
    then have "icmpd_inv k t'" using that inv_v4 by (auto split: if_splits)
    then show "stage on3 ?v6 ?scan (int (nat (of_bool on3 + int ?m))) t' = bindc (act_if on3 ?v6) (\<lambda>_. serve_clients x ?R) t'"
      using s3 by simp
    show "bindc (act_if on3 ?v6) (\<lambda>_. serve_clients x ?R) t' = Ret () t'" if "nat (of_bool on3 + int ?m) = 0"
      using that serve_clients_none [OF \<open>icmpd_inv k t'\<close> fin] by (auto simp: act_if_def bindc_def)
  qed
  have "icmpd_round k x s = stage on1 (readable_listen x) (stage on2 ?v4 (stage on3 ?v6 ?scan)) (int (card ?R)) s"
    unfolding icmpd_round_def Let_def R on1_def on2_def on3_def ..
  also have "\<dots> = bindc (act_if on1 (readable_listen x)) (\<lambda>_. bindc (act_if on2 ?v4) (\<lambda>_. bindc (act_if on3 ?v6) (\<lambda>_. serve_clients x ?R))) s"
    unfolding n
  proof (rule stage_reference)
    fix t assume "if on1 then readable_listen x s = Ret () t else t = s"
    then have t: "icmpd_inv k t" using inv_listen [OF I fresh] I by (auto split: if_splits)
    then show "stage on2 ?v4 (stage on3 ?v6 ?scan) (int (nat (of_bool on2 + int (nat (of_bool on3 + int ?m))))) t
        = bindc (act_if on2 ?v4) (\<lambda>_. bindc (act_if on3 ?v6) (\<lambda>_. serve_clients x ?R)) t"
      using s2 by simp
    show "bindc (act_if on2 ?v4) (\<lambda>_. bindc (act_if on3 ?v6) (\<lambda>_. serve_clients x ?R)) t = Ret () t"
      if "nat (of_bool on2 + int (nat (of_bool on3 + int ?m))) = 0"
      using that serve_clients_none [OF t fin] by (auto simp: act_if_def bindc_def split: if_splits)
  qed
  also have "\<dots> = icmpd_reference k x s"
    unfolding icmpd_reference_def Let_def on1_def on2_def on3_def serve_clients_def ..
  finally show ?thesis .
qed

lemma icmpd_round_inv:
  assumes I: "icmpd_inv k s" and fresh: "fresh_accept k x s" and d: "distinct [listenfd k, fd4 k, fd6 k]" and r: "icmpd_round k x s = Ret u s'"
  shows "icmpd_inv k s'"
proof -
  have "icmpd_reference k x s = Ret u s'" using r icmpd_round_reference [OF I fresh d] by simp
  then obtain a b c u1 u2 u3 where
      1: "act_if (listenfd k \<in> r_ready x \<inter> allset s) (readable_listen x) s = Ret u1 a"
    and 2: "act_if (fd4 k \<in> r_ready x \<inter> allset s) (readable_v4 (r_write x) (r_v4 x)) a = Ret u2 b"
    and 3: "act_if (fd6 k \<in> r_ready x \<inter> allset s) (readable_v6 (r_write x) (r_v6 x)) b = Ret u3 c"
    and 4: "serve_all (is_ready (r_ready x \<inter> allset s)) (readable_conn x) [0 ..< FD_SETSIZE] c = Ret u s'"
    unfolding icmpd_reference_def Let_def by (elim bindc_RetE) blast
  have "icmpd_inv k a" using 1 I inv_listen [OF I fresh] by (auto simp: act_if_def split: if_splits)
  then have "icmpd_inv k b" using 2 inv_v4 by (auto simp: act_if_def split: if_splits)
  then have "icmpd_inv k c" using 3 inv_v6 by (auto simp: act_if_def split: if_splits)
  then show ?thesis using inv_all 4 by blast
qed

lemma icmpd_loop_inv:
  "icmpd_inv k s \<Longrightarrow> distinct [listenfd k, fd4 k, fd6 k] \<Longrightarrow> fresh_fds k (xs @ ys) s \<Longrightarrow> icmpd_loop k xs s = Ret u s' \<Longrightarrow>
   icmpd_inv k s' \<and> fresh_fds k ys s'"
proof (induction xs arbitrary: s)
  case (Cons x xs)
  obtain v t where t: "icmpd_round k x s = Ret v t" "icmpd_loop k xs t = Ret u s'"
    using Cons.prems(4) by (auto split: outcome.splits)
  then show ?case using Cons.IH [OF icmpd_round_inv [OF Cons.prems(1) _ Cons.prems(2) t(1)] Cons.prems(2) _ t(2)] Cons.prems(3) by simp
qed simp

section \<open>An ICMP error about a datagram\<close>

definition err_v4 :: "8 word \<Rightarrow> 8 word \<Rightarrow> bytes \<Rightarrow> 16 word \<Rightarrow> icmpd_err" where
  "err_v4 type code addr port = \<lparr>icmpd_errno = errno_v4 type code, icmpd_type = type, icmpd_code = code,
     dest_family = AF_INET, dest_addr = addr, dest_port = port\<rparr>"

abbreviation is_error_v4 :: "8 word \<Rightarrow> bool" where
  "is_error_v4 type \<equiv> type \<in> {ICMP_UNREACH, ICMP_TIMXCEED, ICMP_SOURCEQUENCH}"

lemma readable_v4_error:
  assumes ok: "icmp_error_ok h1 r6 h2" and type: "is_error_v4 type" and r: "4 \<le> length r"
  shows "readable_v4 w (Some (icmp_error h1 type code r6 h2 (port_bytes sp @ port_bytes dp @ r), junk)) s =
    send_errs w AF_INET (uint sp) (err_v4 type code (header_dst h2) dp) (take (nat (maxi s + 1)) (clients s)) s"
proof -
  let ?udp = "port_bytes sp @ port_bytes dp @ r"
  define b where "b = buffer (icmp_error h1 type code r6 h2 ?udp) junk"
  have h: "ip_header h1" "length r6 = 6" "20 \<le> length h2" using ok by (simp_all add: icmp_error_ok_def ip_header_def)
  note o = icmp_error_outer(1-3) [OF h(1,2), of type code h2 ?udp junk, folded b_def]
  note i = icmp_error_inner [OF ok b_def]
  have n: "int (length (icmp_error h1 type code r6 h2 ?udp)) - int (length h1) = 12 + int (length h2) + int (length r)"
    using icmp_error_outer(5) [OF h(1,2)] by simp
  have c: "type = ICMP_UNREACH \<or> type = ICMP_TIMXCEED \<or> type = ICMP_SOURCEQUENCH" using type by simp
  have "\<not> 12 + int (length h2) + int (length r) < 8" "\<not> 12 + int (length h2) + int (length r) < 8 + 20 + 8" using h(3) r by simp_all
  then show ?thesis using c
    by (simp only: readable_v4_def Let_def option.case prod.case b_def [symmetric] o i n err_v4_def if_False if_True refl simp_thms)
qed

section \<open>Properties\<close>

text \<open>
  A round of the daemon handles each descriptor that is ready, first its own sockets and then
  the clients in the order of the table, whichever of them leaves the round early: \<open>maxi\<close>, \<open>maxfd\<close> and
  \<open>nready\<close> skip nobody.
\<close>

theorem icmpd_serves_ready:
  assumes "icmpd_loop k xs (icmpd_start k) = Ret u s" and "fresh_fds k (xs @ [x]) (icmpd_start k)"
    and "distinct [listenfd k, fd4 k, fd6 k]"
  shows "icmpd_round k x s = icmpd_reference k x s"
proof -
  have "icmpd_inv k s \<and> fresh_fds k [x] s" by (rule icmpd_loop_inv [OF icmpd_inv_start assms(3,2,1)])
  then show ?thesis using icmpd_round_reference assms(3) by simp
qed

text \<open>
  C14.  The table is consistent in every state: the connections that were accepted and not closed are
  in it once each, they and the three sockets are what \<open>select\<close> is asked about, and each client that has
  registered is there with the family and port of the socket it passed.
\<close>

theorem icmpd_table:
  assumes "icmpd_loop k xs (icmpd_start k) = Ret u s" and "fresh_fds k xs (icmpd_start k)"
    and "distinct [listenfd k, fd4 k, fd6 k]"
  shows "fd_table (fds s) \<and> (\<forall>c. conn (trace s) c \<noteq> None \<longleftrightarrow> c \<in> open_fds (fds s))
    \<and> allset s = daemon k \<union> open_fds (fds s) \<and> names_ok s"
proof -
  have "icmpd_inv k s" using icmpd_loop_inv [OF icmpd_inv_start assms(3) _ assms(1), of "[]"] assms(2) by simp
  then show ?thesis by (simp add: icmpd_inv_def table_ok_def)
qed

text \<open>
  What a client is to be told: RFC 792 numbers an unreachable port 3, 3 and a datagram that would have to be
  fragmented 3, 4.
\<close>

definition told_errno :: "8 word \<Rightarrow> 8 word \<Rightarrow> errno" where
  "told_errno type code = (case map_of [((3, 3), ECONNREFUSED), ((3, 4), EMSGSIZE)] (type, code) of None \<Rightarrow> EHOSTUNREACH | Some e \<Rightarrow> e)"

lemma errno_v4_told: "errno_v4 type code = told_errno type code"
  by (simp add: errno_v4_def told_errno_def icmp_codes)

text \<open>
  C13.  When all connected clients have registered and their connections can be written to, an ICMP
  version 4 error (unreachable, time exceeded or source quench) about a UDP datagram over IPv4 is sent to
  exactly the clients whose socket is an IPv4 socket with its source port, once each, with type and code, the
  destination of the datagram, and \<open>ECONNREFUSED\<close> for an unreachable port, \<open>EMSGSIZE\<close> when fragmentation was
  needed, \<open>EHOSTUNREACH\<close> otherwise; it changes nothing else.
\<close>

theorem icmpd_delivers:
  assumes "icmpd_loop k xs (icmpd_start k) = Ret u s" and "fresh_fds k xs (icmpd_start k)"
    and "distinct [listenfd k, fd4 k, fd6 k]"
    and registered: "\<forall>c. conn (trace s) c \<noteq> Some None"
    and ok: "icmp_error_ok h1 r6 h2" and type: "is_error_v4 type" and r: "4 \<le> length r" and w: "\<forall>c. w c"
  shows "\<exists>cs. readable_v4 w (Some (icmp_error h1 type code r6 h2 (port_bytes sp @ port_bytes dp @ r), junk)) s
      = Ret () (s\<lparr>trace := trace s @ map (\<lambda>c. Icmp c \<lparr>icmpd_errno = told_errno type code, icmpd_type = type, icmpd_code = code,
          dest_family = AF_INET, dest_addr = header_dst h2, dest_port = dp\<rparr>) cs\<rparr>)
    \<and> distinct cs \<and> set cs = {c. conn (trace s) c = Some (Some (AF_INET, uint sp))}"
proof -
  let ?P = "\<lambda>c. 0 \<le> connfd c \<and> family c = AF_INET \<and> lport c = uint sp"
  let ?m = "nat (maxi s + 1)" and ?e = "err_v4 type code (header_dst h2) dp"
  let ?cs = "map connfd (filter ?P (take ?m (clients s)))"
  have I: "icmpd_inv k s" using icmpd_loop_inv [OF icmpd_inv_start assms(3) _ assms(1), of "[]"] assms(2) by simp
  obtain s' where s': "send_errs w AF_INET (uint sp) ?e (take ?m (clients s)) s = Ret () s'"
    using send_errs_writes w by metis
  then have "s' = s\<lparr>trace := trace s @ map (\<lambda>c. Icmp c ?e) ?cs\<rparr>" using send_errs_Ret [OF s'] by (simp add: comp_def)
  moreover have "distinct ?cs" by (rule fd_table_distinct) (use inv_table [OF I] in auto)
  moreover have "c \<in> set ?cs \<longleftrightarrow> conn (trace s) c = Some (Some (AF_INET, uint sp))" for c
  proof
    assume "c \<in> set ?cs"
    then obtain e where e: "e \<in> set (take ?m (clients s))" "?P e" "c = connfd e" by auto
    then obtain i where i: "i < length (clients s)" "clients s ! i = e" using in_set_takeD by (metis in_set_conv_nth)
    then have "c \<in> open_fds (fds s)" unfolding open_fds_iff using e by auto
    then have "conn (trace s) c \<noteq> None" using I by (simp add: icmpd_inv_def)
    moreover have "conn (trace s) c \<noteq> Some None" using registered by simp
    ultimately obtain fp where "conn (trace s) c = Some (Some fp)" by (metis not_Some_eq)
    then obtain f p where c: "conn (trace s) c = Some (Some (f, p))" by (cases fp) simp
    have "names_ok s" using I by (simp add: icmpd_inv_def)
    then have "family (clients s ! i) = f \<and> lport (clients s ! i) = p" using names_okD [OF _ i(1), of f p] i(2) e c by simp
    then show "conn (trace s) c = Some (Some (AF_INET, uint sp))" using c i e by simp
  next
    assume c: "conn (trace s) c = Some (Some (AF_INET, uint sp))"
    then have "c \<in> open_fds (fds s)" using I by (auto simp: icmpd_inv_def)
    then obtain i where i: "i < length (clients s)" "connfd (clients s ! i) = c" "0 \<le> c" unfolding open_fds_iff by auto
    have "names_ok s" using I by (simp add: icmpd_inv_def)
    then have "?P (clients s ! i)" using names_okD [OF _ i(1)] i c by simp
    moreover have "i < ?m" using I i by (force simp: icmpd_inv_def table_ok_def)
    then have "clients s ! i \<in> set (take ?m (clients s))" using i(1) by (auto simp: in_set_conv_nth)
    ultimately show "c \<in> set ?cs" using i(2) by force
  qed
  moreover have "?e = \<lparr>icmpd_errno = told_errno type code, icmpd_type = type, icmpd_code = code,
          dest_family = AF_INET, dest_addr = header_dst h2, dest_port = dp\<rparr>" by (simp add: err_v4_def errno_v4_told)
  ultimately show ?thesis using readable_v4_error [OF ok type r] s' by (intro exI [of _ ?cs]) auto
qed

text \<open>
  A new client gets the errors of the client whose entry it takes over, before it has passed
  a socket of its own: \<open>readable_listen\<close> sets only the descriptor.
\<close>

theorem icmpd_stale_registration:
  assumes "icmpd_loop k xs (icmpd_start k) = Ret u s" and "fresh_fds k (xs @ [y]) (icmpd_start k)"
    and "distinct [listenfd k, fd4 k, fd6 k]"
    and owner: "0 \<le> fds s ! 0" "conn (trace s) (fds s ! 0) = Some (Some (AF_INET, uint sp))" "r_recvmsg x (fds s ! 0) = Msg_eof"
    and new: "r_accept y = Some c" "c < int FD_SETSIZE"
    and ok: "icmp_error_ok h1 r6 h2" and type: "is_error_v4 type" and r: "4 \<le> length r" and w: "\<forall>c. w c"
  shows "\<exists>s'. bindc (readable_conn x 0) (\<lambda>_. bindc (readable_listen y) (\<lambda>_.
        readable_v4 w (Some (icmp_error h1 type code r6 h2 (port_bytes sp @ port_bytes dp @ r), junk)))) s = Ret () s'
    \<and> conn (trace s') c = Some None \<and> Icmp c (err_v4 type code (header_dst h2) dp) \<in> set (trace s')"
proof -
  let ?e = "err_v4 type code (header_dst h2) dp"
  have IF: "icmpd_inv k s \<and> fresh_fds k [y] s" by (rule icmpd_loop_inv [OF icmpd_inv_start assms(3,2,1)])
  then have I: "icmpd_inv k s" and c0: "0 \<le> c" by (auto simp: fresh_accept_def new(1))
  have l: "length (clients s) = FD_SETSIZE" "0 < length (clients s)" using inv_table [OF I] by (simp_all add: FD_SETSIZE_def)
  then have n0: "connfd (clients s ! 0) = fds s ! 0" by simp
  have "family (clients s ! 0) = AF_INET \<and> lport (clients s ! 0) = uint sp"
    using I l(2) owner(1,2) unfolding icmpd_inv_def names_ok_def by blast
  define s1 where "s1 = clientdone 0 (Gone (fds s ! 0)) None s"
  have 1: "readable_conn x 0 s = Ret () s1" using owner(3) n0 by (simp add: readable_conn_def s1_def)
  have f: "first_free (fds s1) = 0" by (rule first_free_eq) (use l in \<open>auto simp: s1_def\<close>)
  define s2 where "s2 = log (Accepted c) (s1\<lparr>clients := (clients s1)[0 := (clients s1 ! 0)\<lparr>connfd := c\<rparr>],
    allset := insert c (allset s1), maxfd := max c (maxfd s1), maxi := max 0 (maxi s1)\<rparr>)"
  have 2: "readable_listen y s1 = Ret () s2" using new f by (simp add: readable_listen_def s2_def FD_SETSIZE_def)
  let ?cs = "take (nat (maxi s2 + 1)) (clients s2)"
  obtain s3 where 3: "send_errs w AF_INET (uint sp) ?e ?cs s2 = Ret () s3" using send_errs_writes w by metis
  note s3 = send_errs_Ret [OF 3]
  have head: "clients s2 ! 0 = (clients s ! 0)\<lparr>connfd := c\<rparr>" using l by (simp add: s2_def s1_def)
  have "0 < nat (maxi s2 + 1)" "0 < length (clients s2)" using l by (simp_all add: s2_def s1_def)
  then have "clients s2 ! 0 \<in> set ?cs" by (auto simp: in_set_conv_nth intro!: exI [of _ 0])
  then have "Icmp c ?e \<in> set (trace s3)"
    unfolding s3 using head c0 \<open>family (clients s ! 0) = AF_INET \<and> lport (clients s ! 0) = uint sp\<close> by force
  moreover have "conn (trace s3) c = Some None" using s3 by (simp add: conn_icmp s2_def)
  moreover have "bindc (readable_conn x 0) (\<lambda>_. bindc (readable_listen y) (\<lambda>_.
        readable_v4 w (Some (icmp_error h1 type code r6 h2 (port_bytes sp @ port_bytes dp @ r), junk)))) s = Ret () s3"
    using 1 2 3 readable_v4_error [OF ok type r] by (simp add: bindc_def)
  ultimately show ?thesis by blast
qed

text \<open>
  The length of the quoted IP header is not compared with what was received: with a header that
  claims 60 bytes in a message of the shortest length, the port is read from what the buffer held
  before, and the error can go to any client.
\<close>

theorem icmpd_reads_past:
  assumes "icmpd_loop k xs (icmpd_start k) = Ret u s" and "fresh_fds k xs (icmpd_start k)"
    and "distinct [listenfd k, fd4 k, fd6 k]"
    and client: "conn (trace s) c = Some (Some (AF_INET, uint (sp :: 16 word)))"
    and h: "ip_header h1" "length r6 = 6" "length h2 = 20" "h2 ! 0 AND 15 = 15" "header_proto h2 = IPPROTO_UDP" "length u8 = 8"
    and type: "is_error_v4 type" and w: "\<forall>c. w c"
  shows "\<exists>junk s'. readable_v4 w (Some (icmp_error h1 type code r6 h2 u8, junk)) s = Ret () s'
    \<and> (\<exists>e. Icmp c e \<in> set (drop (length (trace s)) (trace s')))"
proof -
  have I: "icmpd_inv k s" using icmpd_loop_inv [OF icmpd_inv_start assms(3) _ assms(1), of "[]"] assms(2) by simp
  let ?udp = "length h1 + 8 + 60" and ?p = "icmp_error h1 type code r6 h2 u8"
  define junk where "junk = (\<lambda>i. port_bytes sp ! (i - ?udp))"
  define b where "b = buffer ?p junk"
  note o = icmp_error_outer(1-3) [OF h(1,2), of type code h2 u8 junk, folded b_def]
  have n: "length ?p = length h1 + 36" using icmp_error_outer(5) [OF h(1,2), of type code h2 u8] h(3,6) by simp
  have q: "b (length h1 + 8 + i) = h2 ! i" if "i < 20" for i
    using icmp_error_outer(4) [OF h(1,2), of type code h2 u8 junk i] that h(3) by (simp add: b_def buffer_def nth_append)
  have hl: "ip_hl b (length h1 + 8) * 4 = 60" using q [of 0] h(4) by (simp add: ip_hl_def)
  have pr: "ip_p b (length h1 + 8) = IPPROTO_UDP" using q [of 9] h(5) by (simp add: ip_p_def header_proto_def)
  have "b (?udp + i) = port_bytes sp ! i" for i unfolding b_def buffer_def n by (simp add: junk_def)
  from this [of 0] this [of 1] have sp: "uh_sport b ?udp = sp" using half_stored [of sp] by (simp add: uh_sport_def be16_def)
  let ?e = "\<lparr>icmpd_errno = errno_v4 type code, icmpd_type = type, icmpd_code = code, dest_family = AF_INET,
      dest_addr = ip_dst b (length h1 + 8), dest_port = uh_dport b ?udp\<rparr>"
  let ?cs = "take (nat (maxi s + 1)) (clients s)"
  have t: "type = ICMP_UNREACH \<or> type = ICMP_TIMXCEED \<or> type = ICMP_SOURCEQUENCH" using type by simp
  have l: "int (length h1 + 36) - int (length h1) = 36" by simp
  have "\<not> (36 :: int) < 8" "\<not> (36 :: int) < 8 + 20 + 8" by simp_all
  then have "readable_v4 w (Some (?p, junk)) s = send_errs w AF_INET (uint sp) ?e ?cs s"
    using t by (simp only: readable_v4_def Let_def option.case prod.case b_def [symmetric] o n l hl pr sp if_False if_True refl simp_thms)
  moreover obtain s' where s': "send_errs w AF_INET (uint sp) ?e ?cs s = Ret () s'" using send_errs_writes w by metis
  moreover have "Icmp c ?e \<in> set (drop (length (trace s)) (trace s'))"
  proof -
    have "c \<in> open_fds (fds s)" using I client by (auto simp: icmpd_inv_def)
    then obtain i where i: "i < length (clients s)" "connfd (clients s ! i) = c" "0 \<le> c" unfolding open_fds_iff by auto
    have "names_ok s" using I by (simp add: icmpd_inv_def)
    then have p: "family (clients s ! i) = AF_INET \<and> lport (clients s ! i) = uint sp" using names_okD [OF _ i(1)] i client by simp
    have "i < nat (maxi s + 1)" using I i by (force simp: icmpd_inv_def table_ok_def)
    then have "clients s ! i \<in> set ?cs" using i(1) by (auto simp: in_set_conv_nth)
    then show ?thesis unfolding send_errs_Ret [OF s'] using i p by force
  qed
  ultimately show ?thesis by metis
qed

section \<open>A run\<close>

text \<open>Client 6 connects and passes a socket with port 1000.\<close>

definition sample_socks :: socks where "sample_socks = \<lparr>fd4 = 3, fd6 = 4, listenfd = 5\<rparr>"

definition quiet :: round where
  "quiet = \<lparr>r_ready = {}, r_accept = None, r_v4 = None, r_v6 = None, r_recvmsg = \<lambda>_. Msg_eof, r_sockname = \<lambda>_. None, r_bind = \<lambda>_. None,
     r_write = \<lambda>_. True\<rparr>"

definition sample_rounds :: "round list" where
  "sample_rounds = [quiet\<lparr>r_ready := {5}, r_accept := Some 6\<rparr>,
     quiet\<lparr>r_ready := {6}, r_recvmsg := \<lambda>_. Msg_byte (Some \<lparr>cmsg_int = True, cmsg_level = SOL_SOCKET, cmsg_type = SCM_RIGHTS, cmsg_data = 7\<rparr>), r_sockname := \<lambda>_. Some (AF_INET, 1000)\<rparr>]"

definition sample_end :: icmpd where
  "sample_end = \<lparr>clients = (replicate FD_SETSIZE \<lparr>connfd = -1, family = AF_UNSPEC, lport = 0\<rparr>)[0 := \<lparr>connfd = 6, family = AF_INET, lport = 1000\<rparr>],
     maxi = 0, maxfd = 6, allset = {3, 4, 5, 6}, trace = [Accepted 6, Registered 6 AF_INET 1000, Closed_passed 7]\<rparr>"

lemma icmpd_sample_run:
  "icmpd_loop sample_socks sample_rounds (icmpd_start sample_socks) = Ret () sample_end"
  "fresh_fds sample_socks (sample_rounds @ xs) (icmpd_start sample_socks) \<longleftrightarrow> fresh_fds sample_socks xs sample_end"
proof -
  let ?c = "\<lparr>connfd = -1, family = AF_UNSPEC, lport = 0\<rparr>"
  define cs where "cs = replicate FD_SETSIZE ?c"
  define t where "t = \<lparr>clients = cs[0 := ?c\<lparr>connfd := 6\<rparr>], maxi = 0, maxfd = 6, allset = {3, 4, 5, 6}, trace = [Accepted 6]\<rparr>"
  have l: "length cs = 1024" "replicate 1024 ?c = cs" "cs ! 0 = ?c" by (simp_all add: cs_def FD_SETSIZE_def)
  have f: "first_free (map connfd cs) = 0" by (rule first_free_eq) (use l in simp_all)
  have a: "{5} \<inter> {3, 4, 5} \<inter> {.. 5} = {5 :: int}" "{6} \<inter> {3, 4, 5, 6} \<inter> {.. 6} = {6 :: int}" "insert 6 {3, 4, 5} = {3, 4, 5, 6 :: int}" by auto
  have 1: "icmpd_round sample_socks (sample_rounds ! 0) (icmpd_start sample_socks) = Ret () t"
    using l f a by (simp add: sample_rounds_def quiet_def icmpd_round_def icmpd_start_def sample_socks_def readable_listen_def FD_SETSIZE_def Let_def
        t_def stage_def log_def)
  have 2: "icmpd_round sample_socks (sample_rounds ! 1) t = Ret () sample_end"
    using l a by (simp add: sample_rounds_def quiet_def sample_end_def icmpd_round_def sample_socks_def FD_SETSIZE_def Let_def t_def
        stage_def log_def is_ready_def readable_conn_def)
  show "icmpd_loop sample_socks sample_rounds (icmpd_start sample_socks) = Ret () sample_end" using 1 2 by (simp add: sample_rounds_def)
  have m: "6 \<notin> connfd ` set (replicate 1024 ?c)" by auto
  show "fresh_fds sample_socks (sample_rounds @ xs) (icmpd_start sample_socks) \<longleftrightarrow> fresh_fds sample_socks xs sample_end"
    using 1 2 m by (simp add: sample_rounds_def quiet_def fresh_accept_def icmpd_start_def sample_socks_def FD_SETSIZE_def)
qed

lemma sample_socks: "distinct [listenfd sample_socks, fd4 sample_socks, fd6 sample_socks]"
  by (simp add: sample_socks_def)

lemma sample_conn: "conn (trace sample_end) = (\<lambda>_. None)(6 := Some (Some (AF_INET, uint (1000 :: 16 word))))"
  by (simp add: sample_end_def conn_def)

text \<open>An IP header of 20 bytes for a UDP datagram, and one that claims 60.\<close>

definition sample_header :: "8 word \<Rightarrow> bytes" where
  "sample_header b = b # replicate 8 0 @ [17] @ replicate 10 0"

lemma sample_header: "icmp_error_ok (sample_header 0x45) (replicate 6 0) (sample_header 0x45)"
  by (simp add: icmp_error_ok_def ip_header_def header_proto_def sample_header_def IPPROTO_UDP_def nth_append)

theorem icmpd_serves_ready_witness:
  "icmpd_round sample_socks (quiet\<lparr>r_ready := {5, 6}, r_accept := Some 8\<rparr>) sample_end
   = icmpd_reference sample_socks (quiet\<lparr>r_ready := {5, 6}, r_accept := Some 8\<rparr>) sample_end"
proof (rule icmpd_serves_ready [OF icmpd_sample_run(1) _ sample_socks])
  have "8 \<notin> connfd ` set (clients sample_end)"
    using set_update_subset_insert [of "replicate FD_SETSIZE \<lparr>connfd = -1, family = AF_UNSPEC, lport = 0\<rparr>" 0 "\<lparr>connfd = 6, family = AF_INET, lport = 1000\<rparr>"]
    by (auto simp: sample_end_def)
  then show "fresh_fds sample_socks (sample_rounds @ [quiet\<lparr>r_ready := {5, 6}, r_accept := Some 8\<rparr>]) (icmpd_start sample_socks)"
    unfolding icmpd_sample_run(2) by (simp add: fresh_accept_def sample_socks_def quiet_def split: outcome.splits)
qed

theorem icmpd_table_witness: "6 \<in> open_fds (fds sample_end) \<and> 7 \<notin> open_fds (fds sample_end)"
proof -
  have "\<forall>c. conn (trace sample_end) c \<noteq> None \<longleftrightarrow> c \<in> open_fds (fds sample_end)"
    using icmpd_table [OF icmpd_sample_run(1) _ sample_socks] icmpd_sample_run(2) [of "[]"] by simp
  from spec [OF this, of 6] spec [OF this, of 7] show ?thesis by (simp add: sample_conn)
qed

theorem icmpd_delivers_witness:
  "\<exists>s'. readable_v4 (\<lambda>_. True) (Some (icmp_error (sample_header 0x45) ICMP_UNREACH ICMP_UNREACH_PORT (replicate 6 0) (sample_header 0x45)
      (port_bytes 1000 @ port_bytes 53 @ replicate 4 0), \<lambda>_. 0)) sample_end = Ret () s'
    \<and> trace s' = trace sample_end @ [Icmp 6 \<lparr>icmpd_errno = ECONNREFUSED, icmpd_type = ICMP_UNREACH, icmpd_code = ICMP_UNREACH_PORT,
          dest_family = AF_INET, dest_addr = header_dst (sample_header 0x45), dest_port = 53\<rparr>]"
proof -
  have r: "\<forall>c. conn (trace sample_end) c \<noteq> Some None" by (simp add: sample_conn)
  obtain cs where cs: "readable_v4 (\<lambda>_. True) (Some (icmp_error (sample_header 0x45) ICMP_UNREACH ICMP_UNREACH_PORT (replicate 6 0) (sample_header 0x45)
      (port_bytes 1000 @ port_bytes 53 @ replicate 4 0), \<lambda>_. 0)) sample_end
      = Ret () (sample_end\<lparr>trace := trace sample_end @ map (\<lambda>c. Icmp c \<lparr>icmpd_errno = told_errno ICMP_UNREACH ICMP_UNREACH_PORT, icmpd_type = ICMP_UNREACH,
          icmpd_code = ICMP_UNREACH_PORT, dest_family = AF_INET, dest_addr = header_dst (sample_header 0x45), dest_port = 53\<rparr>) cs\<rparr>)"
      "distinct cs" "set cs = {c. conn (trace sample_end) c = Some (Some (AF_INET, uint (1000 :: 16 word)))}"
    using icmpd_delivers [OF icmpd_sample_run(1) _ sample_socks r sample_header, of ICMP_UNREACH "replicate 4 0" "\<lambda>_. True" ICMP_UNREACH_PORT 1000 53 "\<lambda>_. 0"]
      icmpd_sample_run(2) [of "[]"] by auto
  have "set cs = {6}" unfolding cs(3) sample_conn by auto
  then have "length cs = 1" using distinct_card [OF cs(2)] by simp
  then have "cs = [6]" using \<open>set cs = {6}\<close> by (cases cs) auto
  moreover have "told_errno ICMP_UNREACH ICMP_UNREACH_PORT = ECONNREFUSED" by (simp add: told_errno_def icmp_codes)
  ultimately show ?thesis using cs(1) by simp
qed

theorem icmpd_stale_registration_witness:
  "\<exists>s'. bindc (readable_conn quiet 0) (\<lambda>_. bindc (readable_listen (quiet\<lparr>r_accept := Some 8\<rparr>)) (\<lambda>_.
        readable_v4 (\<lambda>_. True) (Some (icmp_error (sample_header 0x45) ICMP_UNREACH ICMP_UNREACH_PORT (replicate 6 0) (sample_header 0x45)
          (port_bytes 1000 @ port_bytes 53 @ replicate 4 0), \<lambda>_. 0)))) sample_end = Ret () s'
    \<and> conn (trace s') 8 = Some None \<and> Icmp 8 (err_v4 ICMP_UNREACH ICMP_UNREACH_PORT (header_dst (sample_header 0x45)) 53) \<in> set (trace s')"
proof (rule icmpd_stale_registration [OF icmpd_sample_run(1) _ sample_socks])
  have "8 \<notin> connfd ` set (clients sample_end)"
    using set_update_subset_insert [of "replicate FD_SETSIZE \<lparr>connfd = -1, family = AF_UNSPEC, lport = 0\<rparr>" 0 "\<lparr>connfd = 6, family = AF_INET, lport = 1000\<rparr>"]
    by (auto simp: sample_end_def)
  then show "fresh_fds sample_socks (sample_rounds @ [quiet\<lparr>r_accept := Some 8\<rparr>]) (icmpd_start sample_socks)"
    unfolding icmpd_sample_run(2) by (simp add: fresh_accept_def sample_socks_def quiet_def split: outcome.splits)
  have f: "fds sample_end ! 0 = 6" by (simp add: sample_end_def FD_SETSIZE_def)
  show "0 \<le> fds sample_end ! 0" "conn (trace sample_end) (fds sample_end ! 0) = Some (Some (AF_INET, uint (1000 :: 16 word)))"
    unfolding f sample_conn by simp_all
  show "icmp_error_ok (sample_header 0x45) (replicate 6 0) (sample_header 0x45)" by (rule sample_header)
qed (simp_all add: quiet_def FD_SETSIZE_def)

theorem icmpd_reads_past_witness:
  "\<exists>junk s'. readable_v4 (\<lambda>_. True) (Some (icmp_error (sample_header 0x45) ICMP_UNREACH 0 (replicate 6 0) (sample_header 0x4F) (replicate 8 0), junk)) sample_end
      = Ret () s' \<and> (\<exists>e. Icmp 6 e \<in> set (drop (length (trace sample_end)) (trace s')))"
proof (rule icmpd_reads_past [OF icmpd_sample_run(1) _ sample_socks])
  show "fresh_fds sample_socks sample_rounds (icmpd_start sample_socks)" using icmpd_sample_run(2) [of "[]"] by simp
  show "conn (trace sample_end) 6 = Some (Some (AF_INET, uint (1000 :: 16 word)))" by (simp add: sample_conn)
  show "ip_header (sample_header 0x45)" using sample_header by (simp add: icmp_error_ok_def)
qed (simp_all add: sample_header_def header_proto_def IPPROTO_UDP_def nth_append)

end
