(* ===== verification/Dg_Echo.thy ===== *)
theory Dg_Echo
  imports Main "HOL-Library.Word"
begin

text \<open>
  The signal-driven echo server of \<open>unpv13e/sigio/dgecho01.c\<close>: the handler of \<open>SIGIO\<close> reads datagrams into
  a ring, the main loop sends them back.  The two share \<open>nqueue\<close>; the main loop blocks the signal
  while it looks at it.  A step is what the main loop or the handler does between two points where
  the other side, or the network, can come in.
\<close>

definition QSIZE :: nat where "QSIZE = 8"
definition MAXDG :: nat where "MAXDG = 4096"

record DG =
  dg_data :: "8 word list"
  dg_sa :: int

text \<open>\<open>recvfrom\<close> keeps the first \<open>MAXDG\<close> bytes of a datagram.\<close>

definition received :: "DG \<Rightarrow> DG" where
  "received d = d\<lparr>dg_data := take MAXDG (dg_data d)\<rparr>"

text \<open>
  Where the main loop is: before \<open>FIOASYNC\<close>, \<open>FIONBIO\<close> or the first \<open>Sigprocmask\<close>; before the test of
  \<open>nqueue\<close>; between the test and \<open>sigsuspend\<close>; in \<open>sigsuspend\<close>; before the \<open>Sigprocmask\<close> that unblocks
  \<open>SIGIO\<close>, \<open>Sendto\<close>, \<open>++iget\<close>, the \<open>Sigprocmask\<close> that blocks it, or the load or the store of \<open>nqueue--\<close>.  The handler remembers what
  it interrupted and counts what it has read.
\<close>

datatype pc = Async_Io | Nonblocking | Masking | Testing | Calling | Suspended | Unblocking | Sending | Advancing | Blocking | Counting | Storing
datatype mode = Main pc | Handler pc nat | Quit string

record server =
  dg :: "DG list"
  iget :: nat
  iput :: nat
  nqueue :: nat
  loaded :: nat
  cntread :: "nat list"
  sockq :: "DG list"
  async :: bool
  nonblock :: bool
  blocked :: bool
  oldmask :: bool
  pending :: bool
  mode :: mode

text \<open>\<open>Async\<close> is the moment the socket is set to raise \<open>SIGIO\<close>.\<close>

datatype event = Arrived DG | Sent DG | Async | Internal

text \<open>
  The buffers are not initialised: \<open>junk\<close> is what they hold.  The handler is installed; the server starts
  before \<open>FIOASYNC\<close>, so datagrams may come before the socket raises signals.
\<close>

definition dg_start :: "DG list \<Rightarrow> server" where
  "dg_start junk = \<lparr>dg = junk, iget = 0, iput = 0, nqueue = 0, loaded = 0, cntread = replicate (QSIZE + 1) 0, sockq = [],
     async = False, nonblock = False, blocked = False, oldmask = False, pending = False, mode = Main Async_Io\<rparr>"

definition advance :: "nat \<Rightarrow> nat" where
  "advance i = (if i + 1 \<ge> QSIZE then 0 else i + 1)"

text \<open>The main loop of \<open>dg_echo\<close>.\<close>

inductive main_step :: "server \<Rightarrow> event \<Rightarrow> server \<Rightarrow> bool" where
  m_async: "mode s = Main Async_Io \<Longrightarrow> main_step s Async (s\<lparr>async := True, mode := Main Nonblocking\<rparr>)"
| m_nonblock: "mode s = Main Nonblocking \<Longrightarrow> main_step s Internal (s\<lparr>nonblock := True, mode := Main Masking\<rparr>)"
| m_mask: "mode s = Main Masking \<Longrightarrow> main_step s Internal (s\<lparr>oldmask := blocked s, blocked := True, mode := Main Testing\<rparr>)"
| m_empty: "mode s = Main Testing \<Longrightarrow> nqueue s = 0 \<Longrightarrow> main_step s Internal (s\<lparr>mode := Main Calling\<rparr>)"
| m_found: "mode s = Main Testing \<Longrightarrow> nqueue s \<noteq> 0 \<Longrightarrow> main_step s Internal (s\<lparr>mode := Main Unblocking\<rparr>)"
| m_suspend: "mode s = Main Calling \<Longrightarrow> main_step s Internal (s\<lparr>mode := Main Suspended\<rparr>)"
| m_unblock: "mode s = Main Unblocking \<Longrightarrow> main_step s Internal (s\<lparr>blocked := oldmask s, mode := Main Sending\<rparr>)"
| m_send: "mode s = Main Sending \<Longrightarrow> main_step s (Sent (dg s ! iget s)) (s\<lparr>mode := Main Advancing\<rparr>)"
| m_error: "mode s = Main Sending \<Longrightarrow> main_step s Internal (s\<lparr>mode := Quit ''sendto error''\<rparr>)"
| m_advance: "mode s = Main Advancing \<Longrightarrow> main_step s Internal (s\<lparr>iget := advance (iget s), mode := Main Blocking\<rparr>)"
| m_block: "mode s = Main Blocking \<Longrightarrow> main_step s Internal (s\<lparr>oldmask := blocked s, blocked := True, mode := Main Counting\<rparr>)"
| m_count: "mode s = Main Counting \<Longrightarrow> main_step s Internal (s\<lparr>loaded := nqueue s, mode := Main Storing\<rparr>)"
| m_store: "mode s = Main Storing \<Longrightarrow> main_step s Internal (s\<lparr>nqueue := loaded s - 1, mode := Main Testing\<rparr>)"

text \<open>
  The handler \<open>sig_io\<close>.  A pending signal is taken wherever it is not blocked, and in \<open>sigsuspend\<close>, whose mask
  is empty; when the handler returns there, \<open>sigsuspend\<close> returns and the mask is the old one again.  On an
  empty socket \<open>recvfrom\<close> returns \<open>EWOULDBLOCK\<close> only when \<open>FIONBIO\<close> is on; before that it waits.
\<close>

inductive sig_step :: "server \<Rightarrow> event \<Rightarrow> server \<Rightarrow> bool" where
  h_enter: "mode s = Main p \<Longrightarrow> \<not> blocked s \<or> p = Suspended \<Longrightarrow> pending s \<Longrightarrow>
     sig_step s Internal (s\<lparr>pending := False, mode := Handler p 0\<rparr>)"
| h_full: "mode s = Handler p n \<Longrightarrow> nqueue s \<ge> QSIZE \<Longrightarrow> sig_step s Internal (s\<lparr>mode := Quit ''receive overflow''\<rparr>)"
| h_read: "mode s = Handler p n \<Longrightarrow> nqueue s < QSIZE \<Longrightarrow> sockq s = d # r \<Longrightarrow>
     sig_step s Internal (s\<lparr>dg := (dg s)[iput s := received d], sockq := r, nqueue := nqueue s + 1, iput := advance (iput s),
       mode := Handler p (n + 1)\<rparr>)"
| h_error: "mode s = Handler p n \<Longrightarrow> nqueue s < QSIZE \<Longrightarrow> sig_step s Internal (s\<lparr>mode := Quit ''recvfrom error''\<rparr>)"
| h_done: "mode s = Handler p n \<Longrightarrow> nqueue s < QSIZE \<Longrightarrow> sockq s = [] \<Longrightarrow> nonblock s \<Longrightarrow>
     sig_step s Internal (s\<lparr>cntread := (cntread s)[n := cntread s ! n + 1], mode := Main (if p = Suspended then Testing else p)\<rparr>)"

text \<open>
  A datagram arrives, and raises \<open>SIGIO\<close> once the socket is asynchronous; the signal may also come without
  one, and \<open>SIGHUP\<close> may end \<open>sigsuspend\<close>: \<open>sig_hup\<close> only prints.
\<close>

inductive dg_step :: "server \<Rightarrow> event \<Rightarrow> server \<Rightarrow> bool" where
  d_main: "main_step s e s' \<Longrightarrow> dg_step s e s'"
| d_sig: "sig_step s e s' \<Longrightarrow> dg_step s e s'"
| d_arrive: "dg_step s (Arrived d) (s\<lparr>sockq := sockq s @ [d], pending := pending s \<or> async s\<rparr>)"
| d_signal: "dg_step s Internal (s\<lparr>pending := True\<rparr>)"
| d_hup: "mode s = Main Suspended \<Longrightarrow> dg_step s Internal (s\<lparr>mode := Main Testing\<rparr>)"

inductive_cases main_stepE: "main_step s e s'"
inductive_cases sig_stepE: "sig_step s e s'"
inductive_cases dg_stepE: "dg_step s e s'"

inductive dg_run :: "DG list \<Rightarrow> event list \<Rightarrow> server \<Rightarrow> bool" for junk where
  d_start: "dg_run junk [] (dg_start junk)"
| d_next: "dg_run junk es s \<Longrightarrow> dg_step s e s' \<Longrightarrow> dg_run junk (es @ [e]) s'"

section \<open>What the ring holds\<close>

fun at :: "mode \<Rightarrow> pc" where
  "at (Main p) = p"
| "at (Handler p n) = p"
| "at (Quit m) = Testing"

text \<open>Where \<open>SIGIO\<close> is blocked, where the ring is not empty, and where its first datagram has been sent.\<close>

definition masked :: "pc \<Rightarrow> bool" where
  "masked p \<longleftrightarrow> p \<in> {Testing, Calling, Suspended, Unblocking, Counting, Storing}"

definition holding :: "pc \<Rightarrow> bool" where
  "holding p \<longleftrightarrow> p \<in> {Unblocking, Sending, Advancing, Blocking, Counting, Storing}"

definition counted :: "pc \<Rightarrow> bool" where
  "counted p \<longleftrightarrow> p \<in> {Advancing, Blocking, Counting, Storing}"

lemma masked_simps [simp]:
  "masked Testing" "masked Calling" "masked Suspended" "masked Unblocking" "masked Counting" "masked Storing"
  "\<not> masked Async_Io" "\<not> masked Nonblocking" "\<not> masked Masking" "\<not> masked Sending" "\<not> masked Advancing" "\<not> masked Blocking"
  by (simp_all add: masked_def)

lemma holding_simps [simp]:
  "holding Unblocking" "holding Sending" "holding Advancing" "holding Blocking" "holding Counting" "holding Storing"
  "\<not> holding Async_Io" "\<not> holding Nonblocking" "\<not> holding Masking" "\<not> holding Testing" "\<not> holding Calling" "\<not> holding Suspended"
  by (simp_all add: holding_def)

lemma counted_simps [simp]:
  "counted Advancing" "counted Blocking" "counted Counting" "counted Storing"
  "\<not> counted Async_Io" "\<not> counted Nonblocking" "\<not> counted Masking" "\<not> counted Testing" "\<not> counted Calling" "\<not> counted Suspended"
  "\<not> counted Unblocking" "\<not> counted Sending"
  by (simp_all add: counted_def)

lemma counted_holding: "counted p \<Longrightarrow> holding p"
  by (auto simp: counted_def)

text \<open>The first datagram that was not sent, and how many there are; the one just sent still counts.\<close>

definition front :: "server \<Rightarrow> nat" where
  "front s = (if at (mode s) = Advancing then iget s + 1 else iget s)"

definition unsent :: "server \<Rightarrow> nat" where
  "unsent s = (if counted (at (mode s)) then nqueue s - 1 else nqueue s)"

definition ring :: "DG list \<Rightarrow> nat \<Rightarrow> nat \<Rightarrow> DG list" where
  "ring g i n = map (\<lambda>k. g ! ((i + k) mod QSIZE)) [0 ..< n]"

definition queued :: "server \<Rightarrow> DG list" where
  "queued s = ring (dg s) (front s) (unsent s)"

definition arrived :: "event list \<Rightarrow> DG list" where
  "arrived es = List.map_filter (\<lambda>e. case e of Arrived d \<Rightarrow> Some d | _ \<Rightarrow> None) es"

definition sent :: "event list \<Rightarrow> DG list" where
  "sent es = List.map_filter (\<lambda>e. case e of Sent d \<Rightarrow> Some d | _ \<Rightarrow> None) es"

text \<open>What arrived after the socket was made asynchronous.\<close>

fun after_async :: "event list \<Rightarrow> DG list" where
  "after_async [] = []"
| "after_async (e # es) = (if e = Async then arrived es else after_async es)"

lemma dg_history [simp]:
  "arrived [] = []" "arrived (es @ [e]) = arrived es @ (case e of Arrived d \<Rightarrow> [d] | _ \<Rightarrow> [])"
  "sent [] = []" "sent (es @ [e]) = sent es @ (case e of Sent d \<Rightarrow> [d] | _ \<Rightarrow> [])"
  by (simp_all add: arrived_def sent_def List.map_filter_def split: event.splits)

lemma after_async_snoc [simp]:
  "after_async (es @ [e]) = (if Async \<in> set es then after_async es @ arrived [e] else [])"
  by (induction es) (auto simp: arrived_def List.map_filter_def)

lemma arrived_one [simp]: "arrived [e] = (case e of Arrived d \<Rightarrow> [d] | _ \<Rightarrow> [])"
  by (simp add: arrived_def List.map_filter_def split: event.splits)

lemma advance_mod: "i < QSIZE \<Longrightarrow> advance i = (i + 1) mod QSIZE"
  by (auto simp: advance_def mod_Suc)

lemma ring_Suc: "0 < n \<Longrightarrow> ring g i n = g ! (i mod QSIZE) # ring g (i + 1) (n - 1)"
proof (cases n)
  case (Suc m)
  have "[0 ..< Suc m] = 0 # map Suc [0 ..< m]" unfolding map_Suc_upt by (rule upt_conv_Cons) simp
  then show ?thesis unfolding Suc ring_def by (simp del: upt_Suc add: comp_def)
qed simp

lemma ring_mod: "ring g (i mod QSIZE) n = ring g i n"
  by (simp add: ring_def mod_add_left_eq)

lemma ring_put:
  assumes "n < QSIZE" "length g = QSIZE"
  shows "ring (g[(i + n) mod QSIZE := d]) i (n + 1) = ring g i n @ [d]"
proof -
  have q: "(i + n) mod QSIZE < QSIZE" by (simp add: QSIZE_def)
  have ne: "(i + k) mod QSIZE \<noteq> (i + n) mod QSIZE" if "k < n" for k
  proof
    assume "(i + k) mod QSIZE = (i + n) mod QSIZE"
    then have "QSIZE dvd (i + n) - (i + k)" by (metis mod_eq_dvd_iff_nat add_le_mono le_refl less_imp_le that)
    then have "QSIZE dvd n - k" by simp
    then show False using that assms(1) by (auto dest: dvd_imp_le)
  qed
  have "ring (g[(i + n) mod QSIZE := d]) i n = ring g i n" unfolding ring_def
    by (rule map_cong [OF refl]) (use ne in \<open>metis atLeastLessThan_iff nth_list_update_neq set_upt\<close>)
  moreover have "ring (g[(i + n) mod QSIZE := d]) i (n + 1) = ring (g[(i + n) mod QSIZE := d]) i n @ [d]"
    using q assms(2) by (simp add: ring_def)
  ultimately show ?thesis by simp
qed

section \<open>The invariant\<close>

text \<open>
  The ring; the mask, the counts and the socket where the main loop is; and the history.
\<close>

definition dg_ring :: "server \<Rightarrow> bool" where
  "dg_ring s \<longleftrightarrow> length (dg s) = QSIZE \<and> iget s < QSIZE \<and> length (cntread s) = QSIZE + 1 \<and> cntread s ! QSIZE = 0
     \<and> iput s = (front s + unsent s) mod QSIZE"

definition dg_mask :: "server \<Rightarrow> bool" where
  "dg_mask s \<longleftrightarrow> (masked (at (mode s)) \<longrightarrow> blocked s) \<and> (holding (at (mode s)) \<longrightarrow> 0 < nqueue s)
     \<and> (at (mode s) = Storing \<longrightarrow> loaded s = nqueue s)
     \<and> (case mode s of Main p \<Rightarrow> nqueue s < QSIZE \<and> (p = Calling \<or> p = Suspended \<longrightarrow> nqueue s = 0)
                     | Handler p n \<Rightarrow> n \<le> nqueue s \<and> nqueue s \<le> QSIZE \<and> (masked p \<longrightarrow> p = Suspended)
                     | Quit m \<Rightarrow> True)"

definition dg_signalled :: "event list \<Rightarrow> server \<Rightarrow> bool" where
  "dg_signalled es s \<longleftrightarrow> (async s \<longleftrightarrow> Async \<in> set es) \<and> (at (mode s) = Async_Io \<longrightarrow> \<not> async s)
     \<and> (\<forall>p. mode s = Main p \<longrightarrow> sockq s \<noteq> [] \<longrightarrow> pending s \<or> after_async es = [])"

definition dg_inv :: "event list \<Rightarrow> server \<Rightarrow> bool" where
  "dg_inv es s \<longleftrightarrow> dg_ring s \<and> dg_mask s \<and> dg_signalled es s
     \<and> map received (arrived es) = sent es @ queued s @ map received (sockq s)"

lemmas dg_inv_defs = dg_inv_def dg_ring_def dg_mask_def dg_signalled_def

lemma dg_inv_start: "length junk = QSIZE \<Longrightarrow> dg_inv [] (dg_start junk)"
  by (simp add: dg_inv_defs dg_start_def front_def unsent_def queued_def ring_def QSIZE_def)

lemma dg_inv_main:
  assumes "dg_inv es s" "main_step s e s'" "\<forall>m. mode s' \<noteq> Quit m"
  shows "dg_inv (es @ [e]) s'"
  using assms(2)
proof cases
  case m_send
  then have "0 < nqueue s" "queued s = dg s ! iget s # queued s'"
    using assms(1) ring_Suc [of "nqueue s" "dg s" "iget s"] by (auto simp: dg_inv_defs queued_def front_def unsent_def)
  then show ?thesis using assms(1) m_send by (auto simp: dg_inv_defs front_def unsent_def)
next
  case m_advance
  then have "queued s' = queued s"
    using assms(1) advance_mod [of "iget s"] ring_mod [of "dg s" "iget s + 1"] by (simp add: dg_inv_defs queued_def front_def unsent_def)
  moreover have "advance (iget s) < QSIZE" by (simp add: advance_def QSIZE_def)
  moreover have "(front s' + unsent s') mod QSIZE = (front s + unsent s) mod QSIZE"
  proof -
    have "front s' + unsent s' = (iget s + 1) mod QSIZE + (nqueue s - 1)"
      using assms(1) m_advance advance_mod [of "iget s"] by (simp add: dg_inv_defs front_def unsent_def)
    then show ?thesis using m_advance(3) by (simp only: mod_add_left_eq) (simp add: front_def unsent_def)
  qed
  ultimately show ?thesis using assms(1) m_advance by (simp add: dg_inv_defs)
next
  case m_store
  then show ?thesis using assms(1) by (auto simp: dg_inv_defs front_def unsent_def queued_def)
qed (use assms in \<open>auto simp: dg_inv_defs front_def unsent_def queued_def\<close>)

lemma dg_inv_read:
  assumes I: "dg_inv es s" and m: "mode s = Handler p n" and q: "nqueue s < QSIZE" and d: "sockq s = d # r"
    and s': "s' = s\<lparr>dg := (dg s)[iput s := received d], sockq := r, nqueue := nqueue s + 1, iput := advance (iput s), mode := Handler p (n + 1)\<rparr>"
  shows "dg_inv (es @ [Internal]) s'"
proof -
  have R: "dg_ring s" and M: "dg_mask s" and S: "dg_signalled es s" and H: "map received (arrived es) = sent es @ queued s @ map received (sockq s)"
    using I by (simp_all add: dg_inv_def)
  have l: "length (dg s) = QSIZE" and i: "iput s = (front s + unsent s) mod QSIZE" using R by (simp_all add: dg_ring_def)
  have f: "front s' = front s" using m by (simp add: front_def s')
  have u: "unsent s' = unsent s + 1" "unsent s < QSIZE" using M m q counted_holding [of p] by (auto simp: dg_mask_def unsent_def s')
  have dgs: "dg s' = (dg s)[(front s + unsent s) mod QSIZE := received d]" by (simp add: s' i)
  have "queued s' = queued s @ [received d]"
    unfolding queued_def f u(1) dgs by (rule ring_put [OF u(2) l])
  then have "map received (arrived (es @ [Internal])) = sent (es @ [Internal]) @ queued s' @ map received (sockq s')"
    using H d by (simp add: s')
  moreover have "iput s' = (front s' + unsent s') mod QSIZE"
  proof -
    have "iput s' = advance (iput s)" "iput s < QSIZE" using i by (simp_all add: QSIZE_def s')
    then show ?thesis unfolding f u(1) using advance_mod i by (simp add: mod_Suc_eq)
  qed
  then have "dg_ring s'" using R by (simp add: dg_ring_def s')
  moreover have "dg_mask s'" using M m q by (auto simp: dg_mask_def s')
  moreover have "dg_signalled (es @ [Internal]) s'" using S m by (auto simp: dg_signalled_def s')
  ultimately show ?thesis by (simp add: dg_inv_def)
qed

lemma dg_inv_sig:
  assumes "dg_inv es s" "sig_step s e s'" "\<forall>m. mode s' \<noteq> Quit m"
  shows "dg_inv (es @ [e]) s'"
  using assms(2)
proof cases
  case (h_read p n d r)
  then show ?thesis using dg_inv_read [OF assms(1)] by blast
next
  case (h_enter p)
  then have "masked p \<longrightarrow> p = Suspended" using assms(1) by (auto simp: dg_inv_def dg_mask_def)
  then show ?thesis using assms(1) h_enter
    by (auto simp: dg_inv_def dg_ring_def dg_mask_def dg_signalled_def front_def unsent_def queued_def)
next
  case (h_done p n)
  then have "n < QSIZE" using assms(1) by (simp add: dg_inv_def dg_mask_def)
  then have R: "dg_ring s'" using assms(1) h_done by (auto simp: dg_inv_def dg_ring_def front_def unsent_def)
  have M: "dg_mask s'" using assms(1) h_done by (auto simp: dg_inv_def dg_mask_def)
  have "queued s' = queued s" using h_done by (auto simp: queued_def front_def unsent_def)
  then show ?thesis using assms(1) h_done R M by (auto simp: dg_inv_def dg_signalled_def)
qed (use assms in auto)

lemma dg_inv_arrive: "dg_inv es s \<Longrightarrow> dg_inv (es @ [Arrived d]) (s\<lparr>sockq := sockq s @ [d], pending := pending s \<or> async s\<rparr>)"
  by (cases "mode s") (auto simp: dg_inv_defs front_def unsent_def queued_def)

lemma dg_inv_signal: "dg_inv es s \<Longrightarrow> dg_inv (es @ [Internal]) (s\<lparr>pending := True\<rparr>)"
  by (cases "mode s") (auto simp: dg_inv_defs front_def unsent_def queued_def)

lemma dg_inv_hup: "dg_inv es s \<Longrightarrow> mode s = Main Suspended \<Longrightarrow> dg_inv (es @ [Internal]) (s\<lparr>mode := Main Testing\<rparr>)"
  by (auto simp: dg_inv_defs front_def unsent_def queued_def)

lemma dg_inv_run: "dg_run junk es s \<Longrightarrow> length junk = QSIZE \<Longrightarrow> \<forall>m. mode s \<noteq> Quit m \<Longrightarrow> dg_inv es s"
proof (induction rule: dg_run.induct)
  case d_start
  then show ?case by (simp add: dg_inv_start)
next
  case (d_next es s e s')
  have "\<forall>m. mode s \<noteq> Quit m"
    using d_next(2,5) by (auto elim!: dg_stepE main_stepE sig_stepE)
  then have I: "dg_inv es s" using d_next by simp
  from d_next(2) show ?case
  proof cases
    case d_main
    then show ?thesis using dg_inv_main I d_next(5) by blast
  next
    case d_sig
    then show ?thesis using dg_inv_sig I d_next(5) by blast
  qed (use I dg_inv_arrive dg_inv_signal dg_inv_hup in auto)
qed

section \<open>Bursts\<close>

lemma run_burst:
  assumes "dg_run junk es s" "async s"
  shows "\<exists>b. dg_run junk (es @ map Arrived ds) (s\<lparr>sockq := sockq s @ ds, pending := b\<rparr>) \<and> (ds \<noteq> [] \<longrightarrow> b)"
proof (induction ds rule: rev_induct)
  case Nil
  then show ?case using assms(1) by (intro exI [of _ "pending s"]) simp
next
  case (snoc d ds)
  then obtain b where "dg_run junk (es @ map Arrived ds) (s\<lparr>sockq := sockq s @ ds, pending := b\<rparr>)" by blast
  from d_next [OF this d_arrive [of _ d]] show ?case using assms(2) by (intro exI [of _ True]) simp
qed

lemma run_reads:
  "dg_run junk es s \<Longrightarrow> mode s = Handler p n \<Longrightarrow> sockq s = ds \<Longrightarrow> nqueue s + length ds \<le> QSIZE \<Longrightarrow>
   \<exists>s'. dg_run junk (es @ replicate (length ds) Internal) s' \<and> (\<exists>m. mode s' = Handler p m) \<and> nqueue s' = nqueue s + length ds \<and> sockq s' = []"
proof (induction ds arbitrary: es s n)
  case (Cons d ds)
  let ?s = "s\<lparr>dg := (dg s)[iput s := received d], sockq := ds, nqueue := nqueue s + 1, iput := advance (iput s), mode := Handler p (n + 1)\<rparr>"
  have "sig_step s Internal ?s" by (rule h_read) (use Cons.prems in auto)
  then have "dg_run junk (es @ [Internal]) ?s" by (intro d_next [OF Cons.prems(1)] d_sig)
  from Cons.IH [OF this] show ?case using Cons.prems(4) by auto
qed auto

section \<open>Properties\<close>

text \<open>
  C15.  However the signal interrupts the main loop, each datagram is sent back once, cut to 4096 bytes,
  to the address it came from and in the order of arrival; the slot that is being sent is not
  overwritten.  The handler never reads 8 datagrams and returns.
\<close>

theorem dgecho_fifo:
  assumes "dg_run junk es s" "length junk = QSIZE" "\<forall>m. mode s \<noteq> Quit m"
  shows "map received (arrived es) = sent es @ queued s @ map received (sockq s) \<and> length (queued s) \<le> QSIZE \<and> cntread s ! QSIZE = 0"
proof -
  have I: "dg_inv es s" by (rule dg_inv_run [OF assms])
  then have "nqueue s \<le> QSIZE" using assms(3) by (cases "mode s") (auto simp: dg_inv_def dg_mask_def)
  then have "length (queued s) \<le> QSIZE" by (auto simp: queued_def ring_def unsent_def)
  then show ?thesis using I by (simp add: dg_inv_def dg_ring_def)
qed

text \<open>
  A step without an error of \<open>recvfrom\<close> or \<open>sendto\<close>.
\<close>

definition can_go_on :: "server \<Rightarrow> bool" where
  "can_go_on s \<longleftrightarrow> (\<exists>e s'. (main_step s e s' \<or> sig_step s e s') \<and> mode s' \<notin> {Quit ''sendto error'', Quit ''recvfrom error''})"

lemma can_go_on_step: "main_step s e s' \<or> sig_step s e s' \<Longrightarrow> mode s' \<notin> {Quit ''sendto error'', Quit ''recvfrom error''} \<Longrightarrow> can_go_on s"
  unfolding can_go_on_def by blast

lemma main_goes_on:
  assumes "mode s = Main p" "p \<noteq> Suspended"
  shows "can_go_on s"
proof -
  have "\<exists>e s'. main_step s e s' \<and> (\<exists>q. mode s' = Main q)"
  proof (cases p)
    case Testing
    then show ?thesis using m_empty [of s] m_found [of s] assms(1)
      by (cases "nqueue s = 0") (auto intro!: exI)
  next
    case Async_Io
    then show ?thesis using m_async [of s] assms(1) by (auto intro!: exI)
  next
    case Nonblocking
    then show ?thesis using m_nonblock [of s] assms(1) by (auto intro!: exI)
  next
    case Masking
    then show ?thesis using m_mask [of s] assms(1) by (auto intro!: exI)
  next
    case Calling
    then show ?thesis using m_suspend [of s] assms(1) by (auto intro!: exI)
  next
    case Unblocking
    then show ?thesis using m_unblock [of s] assms(1) by (auto intro!: exI)
  next
    case Sending
    then show ?thesis using m_send [of s] assms(1) by (auto intro!: exI)
  next
    case Advancing
    then show ?thesis using m_advance [of s] assms(1) by (auto intro!: exI)
  next
    case Blocking
    then show ?thesis using m_block [of s] assms(1) by (auto intro!: exI)
  next
    case Counting
    then show ?thesis using m_count [of s] assms(1) by (auto intro!: exI)
  next
    case Storing
    then show ?thesis using m_store [of s] assms(1) by (auto intro!: exI)
  qed (use assms(2) in simp)
  then show ?thesis by (auto intro: can_go_on_step)
qed

lemma handler_goes_on:
  assumes "mode s = Handler p n" "sockq s \<noteq> [] \<or> nonblock s"
  shows "can_go_on s"
proof (cases "nqueue s < QSIZE")
  case False
  show ?thesis by (rule can_go_on_step [OF disjI2 [OF h_full [OF assms(1)]]]) (use False in simp_all)
next
  case True
  show ?thesis
  proof (cases "sockq s")
    case Nil
    show ?thesis by (rule can_go_on_step [OF disjI2 [OF h_done [OF assms(1) True Nil]]]) (use Nil assms in simp_all)
  next
    case (Cons d r)
    show ?thesis by (rule can_go_on_step [OF disjI2 [OF h_read [OF assms(1) True Cons]]]) simp
  qed
qed

text \<open>
  C16.  No signal is lost between the test of \<open>nqueue\<close> and \<open>sigsuspend\<close>: while a datagram is in the ring or in
  the socket and the server has not ended, the main loop or the handler can go on, by a step that is no
  error of \<open>recvfrom\<close> or \<open>sendto\<close>, without another datagram or signal.  There are two exceptions: a signal
  between \<open>FIOASYNC\<close> and \<open>FIONBIO\<close> leaves the handler waiting in \<open>recvfrom\<close>, and the server is suspended with an
  empty ring when the socket holds only datagrams that arrived before \<open>FIOASYNC\<close>.
\<close>

theorem dgecho_no_lost_signal:
  assumes "dg_run junk es s" "length junk = QSIZE" "\<forall>m. mode s \<noteq> Quit m" "queued s \<noteq> [] \<or> sockq s \<noteq> []"
  shows "can_go_on s
     \<or> (\<exists>p n. mode s = Handler p n) \<and> sockq s = [] \<and> \<not> nonblock s
     \<or> mode s = Main Suspended \<and> queued s = [] \<and> \<not> pending s \<and> after_async es = []"
proof (cases "mode s")
  case (Main p)
  have I: "dg_inv es s" by (rule dg_inv_run [OF assms(1-3)])
  show ?thesis
  proof (cases "p = Suspended")
    case True
    then have "nqueue s = 0" using I Main by (simp add: dg_inv_def dg_mask_def)
    then have "queued s = []" using Main True by (simp add: queued_def ring_def unsent_def)
    moreover have "pending s \<or> after_async es = []" using calculation assms(4) I Main by (simp add: dg_inv_def dg_signalled_def)
    moreover have "can_go_on s" if "pending s"
      using can_go_on_step [OF disjI2 [OF h_enter [OF Main]]] True that by simp
    ultimately show ?thesis using Main True by auto
  qed (use main_goes_on [OF Main] in simp)
next
  case (Handler p n)
  then show ?thesis using handler_goes_on [of s p n] by auto
qed (use assms(3) in auto)

text \<open>
  Both exceptions occur.  A datagram that arrives before \<open>FIOASYNC\<close> stays in the socket until another one
  arrives, and a handler that comes before \<open>FIONBIO\<close> does not return from an empty socket.
\<close>

lemma dg_run_suspended:
  "dg_run junk (map Arrived ds @ [Async, Internal, Internal, Internal, Internal])
     ((dg_start junk)\<lparr>sockq := ds, async := True, nonblock := True, blocked := True, mode := Main Suspended\<rparr>)"
proof -
  let ?s = "(dg_start junk)\<lparr>sockq := ds\<rparr>"
  have "dg_run junk (map Arrived ds) ?s"
  proof (induction ds rule: rev_induct)
    case Nil
    have "(dg_start junk)\<lparr>sockq := []\<rparr> = dg_start junk" by (simp add: dg_start_def)
    then show ?case using d_start by simp
  next
    case (snoc d ds)
    from d_next [OF snoc d_arrive [of _ d]] show ?case by (simp add: dg_start_def)
  qed
  from d_next [OF this d_main [OF m_async]]
  have 1: "dg_run junk (map Arrived ds @ [Async]) (?s\<lparr>async := True, mode := Main Nonblocking\<rparr>)" by (simp add: dg_start_def)
  from d_next [OF this d_main [OF m_nonblock]]
  have 2: "dg_run junk (map Arrived ds @ [Async, Internal]) (?s\<lparr>async := True, nonblock := True, mode := Main Masking\<rparr>)" by simp
  from d_next [OF this d_main [OF m_mask]]
  have 3: "dg_run junk (map Arrived ds @ [Async, Internal, Internal])
      (?s\<lparr>async := True, nonblock := True, blocked := True, mode := Main Testing\<rparr>)" by (simp add: dg_start_def)
  from d_next [OF this d_main [OF m_empty]]
  have 4: "dg_run junk (map Arrived ds @ [Async, Internal, Internal, Internal])
      (?s\<lparr>async := True, nonblock := True, blocked := True, mode := Main Calling\<rparr>)" by (simp add: dg_start_def)
  from d_next [OF this d_main [OF m_suspend]] show ?thesis by simp
qed

theorem dgecho_early_datagram_waits:
  "\<exists>es s. dg_run junk es s \<and> arrived es = [d] \<and> mode s = Main Suspended \<and> sockq s = [d] \<and> \<not> pending s \<and> \<not> can_go_on s"
proof -
  let ?s = "(dg_start junk)\<lparr>sockq := [d], async := True, nonblock := True, blocked := True, mode := Main Suspended\<rparr>"
  have "\<not> can_go_on ?s" unfolding can_go_on_def by (auto simp: dg_start_def elim!: main_stepE sig_stepE)
  then show ?thesis using dg_run_suspended [of junk "[d]"]
    by (intro exI [of _ "map Arrived [d] @ [Async, Internal, Internal, Internal, Internal]"] exI [of _ ?s])
       (simp add: dg_start_def arrived_def List.map_filter_def)
qed

theorem dgecho_handler_waits:
  "\<exists>es s. dg_run junk es s \<and> arrived es = [d] \<and> mode s = Handler Nonblocking 1 \<and> sockq s = [] \<and> \<not> can_go_on s"
proof -
  let ?a = "(dg_start junk)\<lparr>async := True, mode := Main Nonblocking\<rparr>"
  let ?b = "?a\<lparr>sockq := [d], mode := Handler Nonblocking 0\<rparr>"
  let ?c = "?b\<lparr>dg := junk[0 := received d], sockq := [], nqueue := 1, iput := 1, mode := Handler Nonblocking 1\<rparr>"
  from d_next [OF d_start d_main [OF m_async], of junk] have "dg_run junk [Async] ?a" by (simp add: dg_start_def)
  from d_next [OF this d_arrive [of _ d]]
  have "dg_run junk [Async, Arrived d] (?a\<lparr>sockq := [d], pending := True\<rparr>)" by (simp add: dg_start_def)
  from d_next [OF this d_sig [OF h_enter [of _ Nonblocking]]] have "dg_run junk [Async, Arrived d, Internal] ?b" by (simp add: dg_start_def)
  from d_next [OF this d_sig [OF h_read [of _ Nonblocking 0 d "[]"]]]
  have "dg_run junk [Async, Arrived d, Internal, Internal] ?c" by (simp add: dg_start_def QSIZE_def advance_def)
  moreover have "\<not> can_go_on ?c" unfolding can_go_on_def by (auto simp: dg_start_def QSIZE_def elim!: main_stepE sig_stepE)
  ultimately show ?thesis
    by (intro exI [of _ "[Async, Arrived d, Internal, Internal]"] exI [of _ ?c]) (simp add: arrived_def List.map_filter_def)
qed

text \<open>
  Eight datagrams fill the ring, and the handler then calls \<open>err_quit\<close> for an overflow although the
  socket is empty and nothing would have been lost: the ring holds seven.
\<close>

theorem dgecho_overflow:
  assumes "length junk = QSIZE" "length ds = QSIZE"
  shows "\<exists>es s. dg_run junk es s \<and> arrived es = ds \<and> sent es = [] \<and> sockq s = [] \<and> mode s = Quit ''receive overflow''"
proof -
  let ?s1 = "(dg_start junk)\<lparr>sockq := [], async := True, nonblock := True, blocked := True, mode := Main Suspended\<rparr>"
  let ?e1 = "[Async, Internal, Internal, Internal, Internal]"
  have 1: "dg_run junk ?e1 ?s1" using dg_run_suspended [of junk "[]"] by simp
  obtain b where 2: "dg_run junk (?e1 @ map Arrived ds) (?s1\<lparr>sockq := ds, pending := b\<rparr>)" "ds \<noteq> [] \<longrightarrow> b"
    using run_burst [OF 1, of ds] by auto
  have b using 2(2) assms(2) by (auto simp: QSIZE_def)
  then have "sig_step (?s1\<lparr>sockq := ds, pending := b\<rparr>) Internal (?s1\<lparr>sockq := ds, pending := False, mode := Handler Suspended 0\<rparr>)"
    using h_enter [of "?s1\<lparr>sockq := ds, pending := b\<rparr>" Suspended] by simp
  from d_next [OF 2(1) d_sig [OF this]]
  have 3: "dg_run junk (?e1 @ map Arrived ds @ [Internal]) (?s1\<lparr>sockq := ds, pending := False, mode := Handler Suspended 0\<rparr>)" by simp
  obtain s m where 4: "dg_run junk ((?e1 @ map Arrived ds @ [Internal]) @ replicate (length ds) Internal) s"
      "mode s = Handler Suspended m" "nqueue s = QSIZE" "sockq s = []"
    using run_reads [OF 3, of Suspended 0 ds] assms(2) by (auto simp: dg_start_def)
  let ?es = "((?e1 @ map Arrived ds @ [Internal]) @ replicate (length ds) Internal) @ [Internal]"
  have "sig_step s Internal (s\<lparr>mode := Quit ''receive overflow''\<rparr>)" by (rule h_full [OF 4(2)]) (simp add: 4(3))
  then have "dg_run junk ?es (s\<lparr>mode := Quit ''receive overflow''\<rparr>)" by (intro d_next [OF 4(1)] d_sig)
  moreover have "List.map_filter (\<lambda>e. case e of Arrived d \<Rightarrow> Some d | _ \<Rightarrow> None) (map Arrived ds) = ds"
    "List.map_filter (\<lambda>e. case e of Sent d \<Rightarrow> Some d | _ \<Rightarrow> None) (map Arrived ds) = []"
    by (induction ds) (simp_all add: List.map_filter_def)
  then have "arrived ?es = ds" "sent ?es = []" by (simp_all add: arrived_def sent_def List.map_filter_def)
  ultimately show ?thesis using 4(4) by (intro exI [of _ ?es] exI [of _ "s\<lparr>mode := Quit ''receive overflow''\<rparr>"]) simp
qed

section \<open>Examples\<close>

lemma dg_run_one:
  obtains s where "dg_run junk [Async, Internal, Internal, Internal, Internal, Arrived d] s" "mode s = Main Suspended" "sockq s = [d]" "nqueue s = 0"
    "after_async [Async, Internal, Internal, Internal, Internal, Arrived d] = [d]"
proof -
  from d_next [OF dg_run_suspended [of junk "[]"] d_arrive [of _ d]]
  show ?thesis by (intro that) (auto simp: dg_start_def arrived_def List.map_filter_def)
qed

theorem dgecho_fifo_witness:
  "\<exists>es s. dg_run (replicate QSIZE \<lparr>dg_data = [], dg_sa = 0\<rparr>) es s \<and> arrived es = [\<lparr>dg_data = [1], dg_sa = 9\<rparr>]
     \<and> [\<lparr>dg_data = [1], dg_sa = 9\<rparr>] = queued s @ map received (sockq s)"
proof -
  let ?es = "[Async, Internal, Internal, Internal, Internal, Arrived \<lparr>dg_data = [1], dg_sa = 9\<rparr>]"
  obtain s where s: "dg_run (replicate QSIZE \<lparr>dg_data = [], dg_sa = 0\<rparr>) ?es s" "mode s = Main Suspended"
    by (rule dg_run_one)
  have h: "arrived ?es = [\<lparr>dg_data = [1], dg_sa = 9\<rparr>]" "sent ?es = []"
    by (simp_all add: arrived_def sent_def List.map_filter_def)
  have "map received (arrived ?es) = sent ?es @ queued s @ map received (sockq s) \<and> length (queued s) \<le> QSIZE \<and> cntread s ! QSIZE = 0"
    by (rule dgecho_fifo [OF s(1)]) (simp_all add: s(2))
  then show ?thesis using s(1) unfolding h by (intro exI [of _ ?es] exI [of _ s]) (simp add: h received_def MAXDG_def)
qed

theorem dgecho_no_lost_signal_witness:
  "\<exists>es s. dg_run (replicate QSIZE \<lparr>dg_data = [], dg_sa = 0\<rparr>) es s \<and> mode s = Main Suspended \<and> sockq s \<noteq> [] \<and> can_go_on s"
proof -
  let ?es = "[Async, Internal, Internal, Internal, Internal, Arrived \<lparr>dg_data = [1], dg_sa = 9\<rparr>]"
  obtain s where s: "dg_run (replicate QSIZE \<lparr>dg_data = [], dg_sa = 0\<rparr>) ?es s" "mode s = Main Suspended"
      "sockq s = [\<lparr>dg_data = [1], dg_sa = 9\<rparr>]" "after_async ?es = [\<lparr>dg_data = [1], dg_sa = 9\<rparr>]"
    by (rule dg_run_one)
  have "can_go_on s \<or> (\<exists>p n. mode s = Handler p n) \<and> sockq s = [] \<and> \<not> nonblock s
     \<or> mode s = Main Suspended \<and> queued s = [] \<and> \<not> pending s \<and> after_async ?es = []"
    by (rule dgecho_no_lost_signal [OF s(1)]) (simp_all add: s(2,3))
  then show ?thesis using s by (intro exI [of _ ?es] exI [of _ s]) auto
qed

theorem dgecho_overflow_witness:
  "\<exists>es s. dg_run (replicate QSIZE \<lparr>dg_data = [], dg_sa = 0\<rparr>) es s \<and> arrived es = replicate QSIZE \<lparr>dg_data = [1], dg_sa = 9\<rparr> \<and> mode s = Quit ''receive overflow''"
proof -
  have "\<exists>es s. dg_run (replicate QSIZE \<lparr>dg_data = [], dg_sa = 0\<rparr>) es s \<and> arrived es = replicate QSIZE \<lparr>dg_data = [1], dg_sa = 9\<rparr> \<and> sent es = []
      \<and> sockq s = [] \<and> mode s = Quit ''receive overflow''"
    by (rule dgecho_overflow) simp_all
  then show ?thesis by metis
qed

end
