(* ===== verification/Traceroute.thy ===== *)
theory Traceroute
  imports Packet
begin

text \<open>
  The traceroute program of \<open>unpv13e/traceroute\<close>: \<open>recv_v4\<close> and \<open>recv_v6\<close> wait for the ICMP error
  that answers a probe, or three seconds, and \<open>traceloop\<close> sends probes with growing hop limits.
  What happens during one call is a list of events.
\<close>

section \<open>Waiting for an answer\<close>

text \<open>
  \<open>Alarm\<close>: \<open>SIGALRM\<close> interrupts \<open>recvfrom\<close>.  \<open>Gap\<close>: it comes between the test of \<open>gotalarm\<close> and
  \<open>recvfrom\<close>, which then blocks all the same.  \<open>Recv late d junk from\<close>: a packet, with what the
  buffer held behind it and its sender; \<open>late\<close> if the alarm comes while it is looked at.
\<close>

datatype 'a ev = Alarm | Gap | Recv bool bytes mem 'a | Failed

text \<open>\<open>Timeout\<close> is the result -3.\<close>

datatype 'a reply = Timeout | Reply int 'a | Error

text \<open>
  The loop of \<open>recv_v4\<close> and \<open>recv_v6\<close>; \<open>look d junk\<close> is the value of \<open>ret\<close> with which the loop ends
  for a packet.  \<open>None\<close>: still in \<open>recvfrom\<close> after the last event.
\<close>

fun recv_loop :: "(bytes \<Rightarrow> mem \<Rightarrow> int option) \<Rightarrow> bool \<Rightarrow> 'a ev list \<Rightarrow> 'a reply option" where
  "recv_loop look gotalarm [] = None"
| "recv_loop look gotalarm (Gap # es) = recv_loop look True es"
| "recv_loop look gotalarm (Alarm # es) = Some Timeout"
| "recv_loop look gotalarm (Failed # es) = Some Error"
| "recv_loop look gotalarm (Recv late d junk from # es) =
     (case look d junk of
        Some r \<Rightarrow> Some (Reply r from)
      | None \<Rightarrow> if gotalarm \<or> late then Some Timeout else recv_loop look gotalarm es)"

definition ICMP_UNREACH :: "8 word" where "ICMP_UNREACH = 3"
definition ICMP_TIMXCEED :: "8 word" where "ICMP_TIMXCEED = 11"
definition ICMP_UNREACH_PORT :: "8 word" where "ICMP_UNREACH_PORT = 3"
definition ICMP_TIMXCEED_INTRANS :: "8 word" where "ICMP_TIMXCEED_INTRANS = 0"
definition ICMP6_DST_UNREACH :: "8 word" where "ICMP6_DST_UNREACH = 1"
definition ICMP6_TIME_EXCEEDED :: "8 word" where "ICMP6_TIME_EXCEEDED = 3"
definition ICMP6_TIME_EXCEED_TRANSIT :: "8 word" where "ICMP6_TIME_EXCEED_TRANSIT = 0"
definition ICMP6_DST_UNREACH_NOPORT :: "8 word" where "ICMP6_DST_UNREACH_NOPORT = 4"

text \<open>The quoted datagram is the probe: it is UDP and has the ports of the probe.\<close>

definition our_probe :: "16 word \<Rightarrow> 16 word \<Rightarrow> mem \<Rightarrow> 8 word \<Rightarrow> nat \<Rightarrow> bool" where
  "our_probe sport port buf proto udp \<longleftrightarrow> proto = IPPROTO_UDP \<and> uh_sport buf udp = sport \<and> uh_dport buf udp = port"

text \<open>\<open>port\<close> is \<open>dport + seq\<close> as a port number.\<close>

definition look_v4 :: "16 word \<Rightarrow> 16 word \<Rightarrow> bytes \<Rightarrow> mem \<Rightarrow> int option" where
  "look_v4 sport port d junk =
     (let buf = buffer d junk; n = int (length d); hlen1 = ip_hl buf 0 * 4; icmplen = n - int hlen1 in
      if icmplen < 8 then None
      else let type = buf hlen1; code = buf (hlen1 + 1); hip = hlen1 + 8; hlen2 = ip_hl buf hip * 4; udp = hip + hlen2 in
      if type = ICMP_TIMXCEED \<and> code = ICMP_TIMXCEED_INTRANS
      then if icmplen < 8 + 20 then None
           else if icmplen < 8 + int hlen2 + 4 then None
           else if our_probe sport port buf (ip_p buf hip) udp then Some (-2) else None
      else if type = ICMP_UNREACH
      then if icmplen < 8 + 20 then None
           else if icmplen < 8 + int hlen2 + 4 then None
           else if our_probe sport port buf (ip_p buf hip) udp
           then Some (if code = ICMP_UNREACH_PORT then -1 else uint code) else None
      else None)"

text \<open>
  In \<open>recv_v6\<close> the \<open>break\<close> after a time exceeded message is not part of the \<open>if\<close> before it; \<open>ret\<close> is
  then what the variable held, the argument \<open>junk_ret\<close>.
\<close>

definition look_v6 :: "int \<Rightarrow> 16 word \<Rightarrow> 16 word \<Rightarrow> bytes \<Rightarrow> mem \<Rightarrow> int option" where
  "look_v6 junk_ret sport port d junk =
     (let buf = buffer d junk; icmp6len = int (length d) in
      if icmp6len < 8 then None
      else let type = buf 0; code = buf 1; hip6 = 8; udp = hip6 + 40 in
      if type = ICMP6_TIME_EXCEEDED \<and> code = ICMP6_TIME_EXCEED_TRANSIT
      then if icmp6len < 8 + 40 + 4 then None
           else Some (if our_probe sport port buf (buf (hip6 + 6)) udp then -2 else junk_ret)
      else if type = ICMP6_DST_UNREACH
      then if icmp6len < 8 + 40 + 4 then None
           else if our_probe sport port buf (buf (hip6 + 6)) udp
           then Some (if code = ICMP6_DST_UNREACH_NOPORT then -1 else uint code) else None
      else None)"

definition recv_v4 :: "16 word \<Rightarrow> 16 word \<Rightarrow> nat \<Rightarrow> 'a ev list \<Rightarrow> 'a reply option" where
  "recv_v4 sport dport seq es = recv_loop (look_v4 sport (dport + of_nat seq)) False es"

definition recv_v6 :: "int \<Rightarrow> 16 word \<Rightarrow> 16 word \<Rightarrow> nat \<Rightarrow> 'a ev list \<Rightarrow> 'a reply option" where
  "recv_v6 junk_ret sport dport seq es = recv_loop (look_v6 junk_ret sport (dport + of_nat seq)) False es"

section \<open>The main loop\<close>

text \<open>Seconds and microseconds.\<close>

definition tv_sub :: "int \<times> int \<Rightarrow> int \<times> int \<Rightarrow> int \<times> int" where
  "tv_sub out tin =
     (let usec = snd out - snd tin; (sec, usec) = (if usec < 0 then (fst out - 1, usec + 1000000) else (fst out, usec))
      in (sec - fst tin, usec))"

text \<open>
  What is printed for a probe: a star, or the sender if it is not the one before, the time, and
  the code of an unreachable error.
\<close>

datatype 'a shown = Star | Answer "'a option" "int \<times> int" "int option"

record 'a trace =
  t_seq :: nat
  t_last :: "'a option"
  t_done :: nat
  t_out :: "'a shown list"

text \<open>The clock gives the time a probe is sent and the time its answer is taken.\<close>

type_synonym clock = "nat \<Rightarrow> (int \<times> int) \<times> (int \<times> int)"

text \<open>One probe; \<open>None\<close> if \<open>recv\<close> does not return, \<open>Some None\<close> if it ends the process.\<close>

definition probe :: "(nat \<Rightarrow> nat \<Rightarrow> 'a reply option) \<Rightarrow> clock \<Rightarrow> nat \<Rightarrow> 'a trace \<Rightarrow> 'a trace option option" where
  "probe recv clk ttl s =
     (let seq = t_seq s + 1; s = s\<lparr>t_seq := seq\<rparr> in
      case recv seq ttl of
        None \<Rightarrow> None
      | Some Error \<Rightarrow> Some None
      | Some Timeout \<Rightarrow> Some (Some (s\<lparr>t_out := t_out s @ [Star]\<rparr>))
      | Some (Reply code from) \<Rightarrow>
        if code = -3 then Some (Some (s\<lparr>t_out := t_out s @ [Star]\<rparr>))
        else let who = (if t_last s = Some from then None else Some from) in
          Some (Some (s\<lparr>t_last := Some from, t_done := (if code = -1 then t_done s + 1 else t_done s),
            t_out := t_out s @ [Answer who (tv_sub (snd (clk seq)) (fst (clk seq))) (if code \<ge> 0 then Some code else None)]\<rparr>)))"

fun probes :: "(nat \<Rightarrow> nat \<Rightarrow> 'a reply option) \<Rightarrow> clock \<Rightarrow> nat \<Rightarrow> nat \<Rightarrow> 'a trace \<Rightarrow> 'a trace option option" where
  "probes recv clk ttl 0 s = Some (Some s)"
| "probes recv clk ttl (Suc n) s =
     (case probe recv clk ttl s of Some (Some s) \<Rightarrow> probes recv clk ttl n s | r \<Rightarrow> r)"

text \<open>The loop over the hop limits; the lines that are printed.\<close>

function hops :: "(nat \<Rightarrow> nat \<Rightarrow> 'a reply option) \<Rightarrow> clock \<Rightarrow> nat \<Rightarrow> nat \<Rightarrow> nat \<Rightarrow> 'a trace \<Rightarrow> (nat \<times> 'a shown list) list option option" where
  "hops recv clk nprobes max_ttl ttl s =
     (if ttl \<le> max_ttl \<and> t_done s = 0
      then (case probes recv clk ttl nprobes (s\<lparr>t_last := None, t_out := []\<rparr>) of
              None \<Rightarrow> None
            | Some None \<Rightarrow> Some None
            | Some (Some s) \<Rightarrow>
              (case hops recv clk nprobes max_ttl (ttl + 1) s of
                 Some (Some ls) \<Rightarrow> Some (Some ((ttl, t_out s) # ls)) | r \<Rightarrow> r))
      else Some (Some []))"
  by pat_completeness auto
termination
  by (relation "measure (\<lambda>(recv, clk, nprobes, max_ttl, ttl, s). max_ttl + 1 - ttl)") auto

declare hops.simps [simp del]

definition traceloop :: "(nat \<Rightarrow> nat \<Rightarrow> 'a reply option) \<Rightarrow> clock \<Rightarrow> nat \<Rightarrow> nat \<Rightarrow> (nat \<times> 'a shown list) list option option" where
  "traceloop recv clk nprobes max_ttl = hops recv clk nprobes max_ttl 1 \<lparr>t_seq = 0, t_last = None, t_done = 0, t_out = []\<rparr>"

text \<open>The program for IPv4: \<open>es seq ttl\<close> are the events while probe \<open>seq\<close> with that hop limit is out.\<close>

definition traceroute_v4 :: "16 word \<Rightarrow> 16 word \<Rightarrow> (nat \<Rightarrow> nat \<Rightarrow> 'a ev list) \<Rightarrow> clock \<Rightarrow> nat \<Rightarrow> nat
    \<Rightarrow> (nat \<times> 'a shown list) list option option" where
  "traceroute_v4 sport dport es clk nprobes max_ttl = traceloop (\<lambda>seq ttl. recv_v4 sport dport seq (es seq ttl)) clk nprobes max_ttl"

section \<open>Packets\<close>

text \<open>An error about the probe is found.\<close>

lemma look_v4_error:
  assumes ok: "icmp_error_ok h1 r6 h2"
  shows "look_v4 sport port (icmp_error h1 type code r6 h2 (port_bytes sp @ port_bytes dp @ r)) junk =
    (if type = ICMP_TIMXCEED \<and> code = ICMP_TIMXCEED_INTRANS
     then if sp = sport \<and> dp = port then Some (-2) else None
     else if type = ICMP_UNREACH
     then if sp = sport \<and> dp = port then Some (if code = ICMP_UNREACH_PORT then -1 else uint code) else None
     else None)"
proof -
  let ?p = "icmp_error h1 type code r6 h2 (port_bytes sp @ port_bytes dp @ r)"
  define b where "b = buffer ?p junk"
  have h: "ip_header h1" "length r6 = 6" "20 \<le> length h2" using ok by (simp_all add: icmp_error_ok_def ip_header_def)
  note o = icmp_error_outer(1-3) [OF h(1,2), of type code h2 "port_bytes sp @ port_bytes dp @ r" junk, folded b_def]
  note i = icmp_error_inner [OF ok b_def]
  have n: "int (length ?p) - int (length h1) = 12 + int (length h2) + int (length r)"
    using icmp_error_outer(5) [OF h(1,2)] by simp
  have c: "\<not> 12 + int (length h2) + int (length r) < 8" "\<not> 12 + int (length h2) + int (length r) < 8 + 20"
    "\<not> 12 + int (length h2) + int (length r) < 8 + int (length h2) + 4" using h(3) by simp_all
  show ?thesis
    by (simp only: look_v4_def Let_def b_def [symmetric] o i n c our_probe_def if_False simp_thms)
qed

section \<open>A path\<close>

text \<open>
  A path of \<open>h\<close> hops: the answer to a probe comes from \<open>hop ttl\<close> if the hop limit is smaller, a time
  exceeded message, and from the destination otherwise, a port unreachable message; before it, other
  ICMP messages of the host may arrive, in any number.
\<close>

definition answers :: "16 word \<Rightarrow> 16 word \<Rightarrow> (nat \<Rightarrow> 'a) \<Rightarrow> nat \<Rightarrow> nat \<Rightarrow> nat \<Rightarrow> 'a ev list \<Rightarrow> bool" where
  "answers sport dport hop h seq ttl es \<longleftrightarrow> (\<exists>os h1 r6 h2 r junk late rest.
     es = os @ Recv late (icmp_error h1 (if ttl < h then ICMP_TIMXCEED else ICMP_UNREACH)
                       (if ttl < h then ICMP_TIMXCEED_INTRANS else ICMP_UNREACH_PORT) r6 h2
                       (port_bytes sport @ port_bytes (dport + of_nat seq) @ r)) junk (hop (min ttl h)) # rest
     \<and> icmp_error_ok h1 r6 h2
     \<and> (\<forall>e \<in> set os. \<exists>d j a. e = Recv False d j a \<and> look_v4 sport (dport + of_nat seq) d j = None))"

lemma recv_loop_skip:
  "\<forall>e \<in> set os. \<exists>d j a. e = Recv False d j a \<and> look d j = None \<Longrightarrow> recv_loop look False (os @ es) = recv_loop look False es"
  by (induction os) auto

lemma recv_answer:
  assumes "answers sport dport hop h seq ttl es"
  shows "recv_v4 sport dport seq es = Some (Reply (if ttl < h then -2 else -1) (hop (min ttl h)))"
  using assms unfolding answers_def recv_v4_def
  by (force simp: recv_loop_skip look_v4_error ICMP_TIMXCEED_def ICMP_UNREACH_def ICMP_UNREACH_PORT_def ICMP_TIMXCEED_INTRANS_def)

text \<open>The line of a hop: its first probe shows the address, the others do not.\<close>

definition hop_line :: "clock \<Rightarrow> nat \<Rightarrow> 'a \<Rightarrow> nat \<Rightarrow> 'a shown list" where
  "hop_line clk nprobes a ttl = map (\<lambda>k. let seq = (ttl - 1) * nprobes + k + 1 in
     Answer (if k = 0 then Some a else None) (tv_sub (snd (clk seq)) (fst (clk seq))) None) [0 ..< nprobes]"

lemma probes_path:
  assumes "\<And>k. k < n \<Longrightarrow> recv (t_seq s + k + 1) ttl = Some (Reply code a)" "code = -2 \<or> code = -1"
  shows "\<exists>last. probes recv clk ttl n s = Some (Some (s\<lparr>t_seq := t_seq s + n, t_last := last,
      t_done := t_done s + (if code = -1 then n else 0),
      t_out := t_out s @ map (\<lambda>k. Answer (if k = 0 \<and> t_last s \<noteq> Some a then Some a else None)
        (tv_sub (snd (clk (t_seq s + k + 1))) (fst (clk (t_seq s + k + 1)))) None) [0 ..< n]\<rparr>))"
  using assms(1)
proof (induction n arbitrary: s)
  case 0
  then show ?case by (intro exI [of _ "t_last s"]) simp
next
  case (Suc n)
  define t where "t = s\<lparr>t_seq := t_seq s + 1, t_last := Some a, t_done := (if code = -1 then t_done s + 1 else t_done s),
      t_out := t_out s @ [Answer (if t_last s = Some a then None else Some a) (tv_sub (snd (clk (t_seq s + 1))) (fst (clk (t_seq s + 1)))) None]\<rparr>"
  have p: "probe recv clk ttl s = Some (Some t)"
    using Suc.prems [of 0] assms(2) by (auto simp: probe_def t_def Let_def)
  have "recv (t_seq t + k + 1) ttl = Some (Reply code a)" if "k < n" for k using Suc.prems [of "Suc k"] that by (simp add: t_def)
  from Suc.IH [OF this] obtain last where l: "probes recv clk ttl n t = Some (Some (t\<lparr>t_seq := t_seq t + n, t_last := last,
      t_done := t_done t + (if code = -1 then n else 0),
      t_out := t_out t @ map (\<lambda>k. Answer (if k = 0 \<and> t_last t \<noteq> Some a then Some a else None)
        (tv_sub (snd (clk (t_seq t + k + 1))) (fst (clk (t_seq t + k + 1)))) None) [0 ..< n]\<rparr>))" by blast
  have u: "[0 ..< Suc n] = 0 # map Suc [0 ..< n]" unfolding map_Suc_upt by (rule upt_conv_Cons) simp
  show ?case unfolding probes.simps p option.case l u by (intro exI [of _ last]) (simp add: t_def del: upt_Suc)
qed

lemma hops_path:
  assumes es: "\<And>seq ttl. 0 < ttl \<Longrightarrow> ttl \<le> max_ttl \<Longrightarrow> recv seq ttl = Some (Reply (if ttl < h then -2 else -1) (hop (min ttl h)))"
    and n: "0 < nprobes"
  shows "0 < ttl \<Longrightarrow> ttl \<le> h \<Longrightarrow> t_seq s = (ttl - 1) * nprobes \<Longrightarrow> t_done s = 0 \<Longrightarrow>
    hops recv clk nprobes max_ttl ttl s = Some (Some (map (\<lambda>t. (t, hop_line clk nprobes (hop t) t)) [ttl ..< min h max_ttl + 1]))"
proof (induction "max_ttl + 1 - ttl" arbitrary: ttl s)
  case 0
  then show ?case by (subst hops.simps) simp
next
  case (Suc d)
  then have m: "ttl \<le> max_ttl" by simp
  let ?code = "if ttl < h then -2 else -1 :: int" and ?s = "s\<lparr>t_last := None, t_out := []\<rparr>"
  have "recv (t_seq ?s + k + 1) ttl = Some (Reply ?code (hop ttl))" for k using es [OF Suc.prems(1) m] Suc.prems(2) by simp
  from probes_path [of nprobes recv ?s ttl ?code "hop ttl" clk, OF this]
  have "\<exists>last. probes recv clk ttl nprobes ?s = Some (Some (?s\<lparr>t_seq := t_seq s + nprobes, t_last := last,
      t_done := (if ttl < h then 0 else nprobes), t_out := hop_line clk nprobes (hop ttl) ttl\<rparr>))"
    using Suc.prems(3,4) by (cases "ttl < h") (simp_all add: hop_line_def Let_def)
  then obtain t where p: "probes recv clk ttl nprobes ?s = Some (Some t)"
    and t: "t_seq t = t_seq s + nprobes" "t_done t = (if ttl < h then 0 else nprobes)" "t_out t = hop_line clk nprobes (hop ttl) ttl"
    by force
  have rest: "hops recv clk nprobes max_ttl (ttl + 1) t = Some (Some (map (\<lambda>t. (t, hop_line clk nprobes (hop t) t)) [ttl + 1 ..< min h max_ttl + 1]))"
  proof (cases "ttl < h")
    case True
    have "t_seq t = (ttl + 1 - 1) * nprobes" using Suc.prems(1,3) t(1) by (cases ttl) simp_all
    then show ?thesis using Suc.hyps True t(2) by (intro Suc.hyps(1)) simp_all
  next
    case False
    then have "t_done t \<noteq> 0" "[ttl + 1 ..< min h max_ttl + 1] = []" using n t(2) by simp_all
    then show ?thesis by (subst hops.simps) simp
  qed
  have u: "[ttl ..< min h max_ttl + 1] = ttl # [ttl + 1 ..< min h max_ttl + 1]" using Suc.prems(2) m by (simp add: upt_conv_Cons del: upt_Suc)
  have "hops recv clk nprobes max_ttl ttl s = (case hops recv clk nprobes max_ttl (ttl + 1) t of
      Some (Some ls) \<Rightarrow> Some (Some ((ttl, t_out t) # ls)) | r \<Rightarrow> r)"
    using m Suc.prems(4) p by (subst hops.simps) simp
  then show ?case unfolding rest u t(3) by simp
qed

section \<open>Properties\<close>

text \<open>
  C19.  On a path of \<open>h\<close> hops, where every probe is answered by the router its hop limit ends at or by
  the destination, traceroute prints one line for each hop up to the destination or the maximum,
  with the address of that hop and one answer for each probe, and stops; ICMP messages about other
  datagrams do not disturb it.
\<close>

theorem traceroute_path:
  assumes "\<And>seq ttl. 0 < ttl \<Longrightarrow> ttl \<le> max_ttl \<Longrightarrow> answers sport dport hop h seq ttl (es seq ttl)"
    and "0 < nprobes" "0 < h"
  shows "traceroute_v4 sport dport es clk nprobes max_ttl
    = Some (Some (map (\<lambda>ttl. (ttl, hop_line clk nprobes (hop ttl) ttl)) [1 ..< min h max_ttl + 1]))"
  unfolding traceroute_v4_def traceloop_def
  by (rule hops_path) (use assms recv_answer [OF assms(1)] in auto)

text \<open>Two hops; before the answer to the first probe comes a message about port 7.\<close>

definition sample_ip :: bytes where
  "sample_ip = 0x45 # replicate 8 0 @ [17] @ replicate 10 0"

definition sample_reply :: "8 word \<Rightarrow> 8 word \<Rightarrow> 16 word \<Rightarrow> 16 word \<Rightarrow> bytes" where
  "sample_reply type code sp dp = icmp_error sample_ip type code (replicate 6 0) sample_ip (port_bytes sp @ port_bytes dp @ replicate 4 0)"

definition sample_events :: "nat \<Rightarrow> nat \<Rightarrow> string ev list" where
  "sample_events seq ttl = (if seq = 1 then [Recv False (sample_reply ICMP_UNREACH ICMP_UNREACH_PORT 7 7) (\<lambda>_. 0) ''other''] else [])
     @ [if ttl < 2 then Recv False (sample_reply ICMP_TIMXCEED ICMP_TIMXCEED_INTRANS 40000 (33434 + of_nat seq)) (\<lambda>_. 0) ''router''
        else Recv False (sample_reply ICMP_UNREACH ICMP_UNREACH_PORT 40000 (33434 + of_nat seq)) (\<lambda>_. 0) ''host'']"

theorem traceroute_path_witness:
  "traceroute_v4 40000 33434 sample_events (\<lambda>_. ((0, 0), (0, 5))) 1 30
   = Some (Some [(1, [Answer (Some ''router'') (0, 5) None]), (2, [Answer (Some ''host'') (0, 5) None])])"
proof -
  let ?hop = "\<lambda>t. if t < 2 then ''router'' else ''host'' :: string"
  have ok: "icmp_error_ok sample_ip (replicate 6 0) sample_ip"
    by (simp add: icmp_error_ok_def ip_header_def header_proto_def sample_ip_def IPPROTO_UDP_def nth_append)
  have other: "look_v4 40000 port (sample_reply ICMP_UNREACH ICMP_UNREACH_PORT 7 7) j = None" for port j
    unfolding sample_reply_def look_v4_error [OF ok] by simp
  have "answers 40000 33434 ?hop 2 seq ttl (sample_events seq ttl)" for seq ttl
    unfolding answers_def
    by (rule exI [of _ "if seq = 1 then [Recv False (sample_reply ICMP_UNREACH ICMP_UNREACH_PORT 7 7) (\<lambda>_. 0) ''other''] else []"],
        rule exI [of _ sample_ip], rule exI [of _ "replicate 6 0"], rule exI [of _ sample_ip], rule exI [of _ "replicate 4 0"],
        rule exI [of _ "\<lambda>_. 0"], rule exI [of _ False], rule exI [of _ "[]"]) (use ok other in \<open>auto simp: sample_events_def sample_reply_def\<close>)
  from traceroute_path [of 30 40000 33434 ?hop 2 sample_events, OF this, of 1 "\<lambda>_. ((0, 0), (0, 5))"] show ?thesis
    by (simp add: hop_line_def tv_sub_def upt_rec numeral_2_eq_2 Let_def)
qed

text \<open>Events without what the buffer held.\<close>

fun strip :: "'a ev \<Rightarrow> 'a ev" where
  "strip (Recv late d junk from) = Recv late d (\<lambda>_. 0) from"
| "strip e = e"

lemma look_v4_received: "look_v4 sport port d junk = look_v4 sport port d junk'"
proof -
  let ?b = "buffer d junk" and ?c = "buffer d junk'"
  let ?n = "int (length d)"
  show ?thesis
  proof (cases "?n - int (ip_hl ?b 0 * 4) < 8")
    case True
    have "?n - int (ip_hl ?c 0 * 4) < 8"
    proof (cases "d = []")
      case False
      then show ?thesis using True fields_received(2) [of 0 d junk junk'] by simp
    qed simp
    then show ?thesis using True by (simp add: look_v4_def Let_def)
  next
    case F1: False
    let ?h = "ip_hl ?b 0 * 4"
    have l: "?h + 7 < length d" using F1 by linarith
    then have h: "ip_hl ?c 0 * 4 = ?h" using fields_received(2) [of 0 d junk junk'] by (cases d) simp_all
    have t: "?c ?h = ?b ?h" "?c (?h + 1) = ?b (?h + 1)" using l by (simp_all add: buffer_def)
    show ?thesis
    proof (cases "?n - int ?h < 8 + 20")
      case True
      then show ?thesis using F1 by (simp add: look_v4_def Let_def h t)
    next
      case F2: False
      let ?i = "?h + 8"
      have l2: "?i + 19 < length d" using F2 by linarith
      then have f: "ip_hl ?c ?i = ip_hl ?b ?i" "ip_p ?c ?i = ip_p ?b ?i"
        using fields_received(2) [of ?i d junk junk'] fields_received(3) [of ?i d junk junk'] by simp_all
      show ?thesis
      proof (cases "?n - int ?h < 8 + int (ip_hl ?b ?i * 4) + 4")
        case True
        then show ?thesis unfolding look_v4_def Let_def h t f by simp
      next
        case False
        let ?u = "?i + ip_hl ?b ?i * 4"
        have "?u + 3 < length d" using False by linarith
        then have "uh_sport ?c ?u = uh_sport ?b ?u" "uh_dport ?c ?u = uh_dport ?b ?u"
          using fields_received(5) [of ?u d junk junk'] fields_received(6) [of ?u d junk junk'] by simp_all
        then show ?thesis unfolding look_v4_def Let_def h t f our_probe_def by simp
      qed
    qed
  qed
qed

text \<open>
  \<open>recv_v4\<close> looks at no byte beyond the packet it received: what the buffer held there before
  makes no difference, for any packets at all.
\<close>

theorem recv_v4_in_packet:
  shows "recv_v4 sport dport seq (map strip es) = recv_v4 sport dport seq es"
proof -
  have "recv_loop (look_v4 sport port) g (map strip es) = recv_loop (look_v4 sport port) g es" for port g
  proof (induction es arbitrary: g)
    case (Cons e es)
    show ?case
    proof (cases e)
      case (Recv late d junk src)
      then show ?thesis using Cons.IH look_v4_received [of sport port d "\<lambda>_. 0" junk] by (simp split: option.split)
    qed (use Cons.IH in simp_all)
  qed simp
  then show ?thesis by (simp add: recv_v4_def)
qed

text \<open>
  \<open>recv_v6\<close> ends at a time exceeded message about any datagram, of another program for instance,
  and returns the value that the uninitialised variable \<open>ret\<close> had.
\<close>

theorem recv_v6_undefined:
  assumes "52 \<le> length d" "d ! 0 = ICMP6_TIME_EXCEEDED" "d ! 1 = ICMP6_TIME_EXCEED_TRANSIT"
    and "\<not> our_probe sport (dport + of_nat seq) (buffer d junk) (d ! 14) 48"
  shows "recv_v6 junk_ret sport dport seq (Recv late d junk from # es) = Some (Reply junk_ret from)"
proof -
  have "buffer d junk 0 = ICMP6_TIME_EXCEEDED" "buffer d junk 1 = ICMP6_TIME_EXCEED_TRANSIT" "buffer d junk 14 = d ! 14"
    using assms(1-3) by (auto simp: buffer_def)
  then show ?thesis using assms(1,4) by (simp add: recv_v6_def look_v6_def Let_def)
qed

theorem recv_v6_undefined_witness:
  "recv_v6 7 40000 33434 1 [Recv False (3 # replicate 51 0) (\<lambda>_. 0) ''other''] = Some (Reply 7 ''other'')"
  by (rule recv_v6_undefined)
    (simp_all add: ICMP6_TIME_EXCEEDED_def ICMP6_TIME_EXCEED_TRANSIT_def our_probe_def IPPROTO_UDP_def nth_Cons')

text \<open>An alarm between the test of \<open>gotalarm\<close> and \<open>recvfrom\<close> is not noticed until a packet comes.\<close>

lemma recv_v4_gap: "recv_v4 sport dport seq [Gap] = None" "recv_v4 sport dport seq [Alarm] = Some Timeout"
  by (simp_all add: recv_v4_def)

end
