(* ===== verification/Udp_Cksum.thy ===== *)
theory Udp_Cksum
  imports Packet
begin

text \<open>
  The program of \<open>unpv13e/udpcksum\<close>: it builds a UDP datagram with its IP header, with or without a
  checksum, writes it to a raw socket, and looks at the reply that it captures.  \<open>le\<close> is the byte order
  of the machine, \<open>net_len\<close> whether the kernel takes the length in network order.
\<close>

abbreviation net16 :: "16 word \<Rightarrow> bytes" where "net16 \<equiv> stored False"

section \<open>Writing\<close>

record addrs =
  src :: bytes
  dst :: bytes
  sport :: "16 word"
  dport :: "16 word"

text \<open>
  The structure \<open>udpiphdr\<close>, which is also the pseudo header: nine zero bytes, the protocol, the
  length, the addresses; then the UDP header.
\<close>

definition udpiphdr :: "addrs \<Rightarrow> 16 word \<Rightarrow> bytes \<Rightarrow> bytes" where
  "udpiphdr a len cksum = replicate 9 0 @ [IPPROTO_UDP] @ net16 len @ src a @ dst a @ net16 (sport a) @ net16 (dport a) @ net16 len @ cksum"

definition ui_len :: "bytes \<Rightarrow> 16 word" where
  "ui_len payload = of_nat (8 + length payload)"

definition ui_sum :: "bool \<Rightarrow> bool \<Rightarrow> addrs \<Rightarrow> bytes \<Rightarrow> bytes" where
  "ui_sum le zerosum a payload =
     (if zerosum then [0, 0]
      else let s = in_cksum le (udpiphdr a (ui_len payload) [0, 0] @ payload) in stored le (if s = 0 then 0xFFFF else s))"

text \<open>
  Then the fields of the IP header are filled in over the first bytes; its checksum keeps \<open>ui_len\<close>,
  the kernel computes it.
\<close>

definition udp_write :: "bool \<Rightarrow> bool \<Rightarrow> bool \<Rightarrow> addrs \<Rightarrow> bytes \<Rightarrow> bytes" where
  "udp_write le net_len zerosum a payload =
     (let ui = udpiphdr a (ui_len payload) (ui_sum le zerosum a payload) @ payload;
          ip_len = of_nat (28 + length payload) in
      [0x45, 0] @ (if net_len then net16 ip_len else stored le ip_len) @ [0, 0] @ [0, 0] @ [64] @ drop 9 ui)"

definition send_dns_query :: bytes where
  "send_dns_query = net16 1234 @ net16 0x0100 @ net16 1 @ [0, 0] @ [0, 0] @ [0, 0]
     @ [1, 97] @ [12, 114, 111, 111, 116, 45, 115, 101, 114, 118, 101, 114, 115] @ [3, 110, 101, 116] @ [0]
     @ net16 1 @ net16 1"

text \<open>
  The kernel, with \<open>IP_HDRINCL\<close>, fills in the length, an identification and the checksum of the
  header.
\<close>

definition ip_output :: "bool \<Rightarrow> bytes \<Rightarrow> bytes \<Rightarrow> bytes" where
  "ip_output le ident p =
     (let h = take 2 p @ net16 (of_nat (length p)) @ ident @ take 4 (drop 6 p) @ [0, 0] @ take 8 (drop 12 p) in
      take 10 h @ stored le (in_cksum le h) @ drop 12 h @ drop 20 p)"

section \<open>Reading\<close>

text \<open>
  \<open>len\<close> is compared as an unsigned number of 64 bits; a negative one is large, and bytes are then read
  outside of what was captured.  On success the checksum of the IP header is overwritten with 0.
\<close>

definition udp_check :: "bool \<Rightarrow> bytes \<Rightarrow> int \<Rightarrow> (unit, bytes) outcome" where
  "udp_check le p len =
     (if len mod 2 ^ 64 < 20 + 8 then Abort (Err_quit ''len'') ()
      else if len < 0 then Abort Undefined ()
      else let b = buffer p (\<lambda>_. 0); hlen = ip_hl b 0 * 4 in
      if ip_v b 0 \<noteq> 4 then Abort (Err_quit ''ip_v'') ()
      else if hlen < 20 then Abort (Err_quit ''ip_hl'') ()
      else if len < int hlen + 8 then Abort (Err_quit ''len, hlen'') ()
      else if in_cksum le (take hlen p) \<noteq> 0 then Abort (Err_quit ''ip checksum error'') ()
      else if ip_p b 0 = IPPROTO_UDP then Ret (p[10 := 0, 11 := 0]) ()
      else Abort (Err_quit ''not a UDP packet'') ())"

datatype datalink = DLT_NULL | DLT_EN10MB | DLT_SLIP | DLT_PPP | DLT_OTHER

definition ETHERTYPE_IP :: "16 word" where "ETHERTYPE_IP = 0x0800"

definition udp_read :: "bool \<Rightarrow> datalink \<Rightarrow> bytes \<Rightarrow> (unit, bytes) outcome" where
  "udp_read le datalink p =
     (let len = int (length p) in
      case datalink of
        DLT_NULL \<Rightarrow> udp_check le (drop 4 p) (len - 4)
      | DLT_EN10MB \<Rightarrow>
        if len < 14 then Abort Undefined ()
        else if be16 (buffer p (\<lambda>_. 0)) 12 \<noteq> ETHERTYPE_IP then Abort (Err_quit ''Ethernet type not IP'') ()
        else udp_check le (drop 14 p) (len - 14)
      | DLT_SLIP \<Rightarrow> udp_check le (drop 24 p) (len - 24)
      | DLT_PPP \<Rightarrow> udp_check le (drop 24 p) (len - 24)
      | DLT_OTHER \<Rightarrow> Abort (Err_quit ''unsupported datalink'') ())"

text \<open>
  The query is sent up to three times, with waits of 3, 6 and 12 seconds.  \<open>rs\<close>: for each query the
  captured packet, or \<open>None\<close> when the alarm comes first.  The result is whether checksums are on.
\<close>

fun test_udp :: "bool \<Rightarrow> datalink \<Rightarrow> nat \<Rightarrow> nat \<Rightarrow> bytes option list \<Rightarrow> nat list \<times> (unit, bool) outcome option" where
  "test_udp le datalink nsent timeout [] = ([timeout], None)"
| "test_udp le datalink nsent timeout (None # rs) =
     (if nsent + 1 \<ge> 3 then ([timeout], Some (Abort (Err_quit ''no response'') ()))
      else case test_udp le datalink (nsent + 1) (timeout * 2) rs of (ts, r) \<Rightarrow> (timeout # ts, r))"
| "test_udp le datalink nsent timeout (Some p # rs) =
     ([timeout], Some (case udp_read le datalink p of
        Abort e s \<Rightarrow> Abort e s
      | Ret ui s \<Rightarrow> Ret (take 2 (drop 26 ui) \<noteq> [0, 0]) s))"

section \<open>The checksum of UDP\<close>

text \<open>A receiver's check: the pseudo header and the datagram sum up to 0.\<close>

definition udp_valid :: "bool \<Rightarrow> bytes \<Rightarrow> bytes \<Rightarrow> bytes \<Rightarrow> bool" where
  "udp_valid le sa da d \<longleftrightarrow> in_cksum le (sa @ da @ [0, IPPROTO_UDP] @ net16 (of_nat (length d)) @ d) = 0"

text \<open>Addresses of four bytes, and a datagram that fits into an IP packet.\<close>

definition fits :: "addrs \<Rightarrow> bytes \<Rightarrow> bool" where
  "fits a payload \<longleftrightarrow> length (src a) = 4 \<and> length (dst a) = 4 \<and> 28 + length payload < 65536"

lemma length_net16 [simp]: "length (stored le x) = 2"
  by (simp add: stored_def)

lemma length_ui_sum [simp]: "length (ui_sum le z a payload) = 2"
  by (simp add: ui_sum_def Let_def)

lemma stored_zero: "stored le x = [0, 0] \<longleftrightarrow> x = 0"
proof
  assume "stored le x = [0, 0]"
  then have "unat x = 0" using stored_word [of le x] by (cases le) (simp_all add: unat_half)
  then show "x = 0" by (simp add: unat_eq_zero)
qed (simp add: stored_def)

lemma ui_sum_zero: "ui_sum le zerosum a payload = [0, 0] \<longleftrightarrow> zerosum"
  by (simp add: ui_sum_def Let_def stored_zero)

text \<open>The datagram as it is sent.\<close>

definition dgram :: "bool \<Rightarrow> bool \<Rightarrow> addrs \<Rightarrow> bytes \<Rightarrow> bytes" where
  "dgram le zerosum a payload = net16 (sport a) @ net16 (dport a) @ net16 (ui_len payload) @ ui_sum le zerosum a payload @ payload"

lemma ui_sum_valid:
  assumes "fits a payload"
  shows "udp_valid le (src a) (dst a) (dgram le False a payload)"
proof -
  let ?L = "net16 (ui_len payload)" and ?P = "net16 (sport a) @ net16 (dport a)"
  let ?pre = "replicate 9 0 @ [IPPROTO_UDP] @ ?L @ src a @ dst a @ ?P @ ?L"
  let ?s = "in_cksum le (?pre @ [0, 0] @ payload)"
  have e: "even (length ?pre)" "length ?pre + 2 + length payload \<le> 131074" using assms by (simp_all add: fits_def)
  have hdr: "udpiphdr a (ui_len payload) x = ?pre @ x" for x by (simp add: udpiphdr_def)
  have sum: "ui_sum le False a payload = stored le (if ?s = 0 then 0xFFFF else ?s)" by (simp add: ui_sum_def hdr)
  have ev: "even (length (src a))" "even (length (dst a))" using assms by (simp_all add: fits_def)
  have split: "wsum le (?pre @ stored le x @ payload) = wsum le ?pre + unat x + wsum le payload" for x
    using e(1) by (simp add: wsum_append stored_word del: append_assoc replicate.simps)
  have pre: "wsum le ?pre = unat (half le 0 IPPROTO_UDP) + wsum le (?L @ src a @ dst a @ ?P @ ?L)"
  proof -
    have "wsum le (replicate 8 0) = 0" by (simp add: numeral_eq_Suc unat_half)
    moreover have "?pre = replicate 8 0 @ [0, IPPROTO_UDP] @ (?L @ src a @ dst a @ ?P @ ?L)" by (simp add: numeral_eq_Suc)
    ultimately show ?thesis using wsum_append [of "replicate 8 0" le "[0, IPPROTO_UDP] @ (?L @ src a @ dst a @ ?P @ ?L)"] by simp
  qed
  have n: "ui_len payload = of_nat (length (dgram le False a payload))" by (simp add: dgram_def ui_len_def)
  have "wsum le (src a @ dst a @ [0, IPPROTO_UDP] @ ?L @ dgram le False a payload)
      = wsum le (?pre @ stored le (if ?s = 0 then 0xFFFF else ?s) @ payload)"
    unfolding split pre using ev by (simp add: dgram_def sum wsum_append stored_word)
  also have "\<dots> = wsum le (?pre @ stored le ?s @ payload) + (if ?s = 0 then 65535 else 0)"
    unfolding split by simp
  finally have w: "wsum le (src a @ dst a @ [0, IPPROTO_UDP] @ ?L @ dgram le False a payload)
      = wsum le (?pre @ stored le ?s @ payload) + (if ?s = 0 then 65535 else 0)" .
  note filled = cksum_filled [OF e, of le]
  have len: "length (src a @ dst a @ [0, IPPROTO_UDP] @ ?L @ dgram le False a payload) \<le> 131074" using assms by (simp add: fits_def dgram_def)
  have "65535 dvd A + c \<and> A + c \<noteq> 0" if "65535 dvd A" "A \<noteq> 0" "c = 0 \<or> c = 65535" for A c :: nat using that by auto
  from this [OF filled] show ?thesis unfolding udp_valid_def n [symmetric] in_cksum_zero [OF len] w by simp
qed

section \<open>What goes over the wire\<close>

definition wire_header :: "bool \<Rightarrow> bytes \<Rightarrow> addrs \<Rightarrow> bytes \<Rightarrow> bytes" where
  "wire_header le ident a payload =
     (let pre = [0x45, 0] @ net16 (of_nat (28 + length payload)) @ ident @ [0, 0, 64, IPPROTO_UDP] in
      pre @ stored le (in_cksum le (pre @ [0, 0] @ src a @ dst a)) @ src a @ dst a)"

lemma list_two:
  assumes "length xs = 2"
  obtains a b where "xs = [a, b]"
  using assms by (auto simp: numeral_eq_Suc length_Suc_conv)

lemma list_four:
  assumes "length xs = 4"
  obtains a b c d where "xs = [a, b, c, d]"
  using assms by (auto simp: numeral_eq_Suc length_Suc_conv)

lemma ip_output_write:
  assumes "fits a payload" "length ident = 2"
  shows "ip_output le ident (udp_write le net_len zerosum a payload) = wire_header le ident a payload @ dgram le zerosum a payload"
proof -
  obtain i1 i2 where i: "ident = [i1, i2]" using assms(2) by (rule list_two)
  obtain l1 l2 where l: "(if net_len then net16 (of_nat (28 + length payload)) else stored le (of_nat (28 + length payload))) = [l1, l2]"
    by (rule list_two [of "if net_len then net16 (of_nat (28 + length payload)) else stored le (of_nat (28 + length payload))"]) auto
  obtain n1 n2 where n: "net16 (of_nat (28 + length payload)) = [n1, n2]" by (rule list_two [OF length_net16])
  obtain u1 u2 where u: "net16 (ui_len payload) = [u1, u2]" by (rule list_two [OF length_net16])
  obtain s1 s2 s3 s4 where s: "src a = [s1, s2, s3, s4]" using list_four assms(1) by (metis fits_def)
  obtain d1 d2 d3 d4 where d: "dst a = [d1, d2, d3, d4]" using list_four assms(1) by (metis fits_def)
  have drop9: "drop 9 (udpiphdr a (ui_len payload) (ui_sum le zerosum a payload) @ payload)
      = IPPROTO_UDP # [u1, u2] @ [s1, s2, s3, s4] @ [d1, d2, d3, d4] @ dgram le zerosum a payload"
    by (simp add: udpiphdr_def dgram_def u s d)
  have w: "udp_write le net_len zerosum a payload = [0x45, 0, l1, l2, 0, 0, 0, 0, 64, IPPROTO_UDP, u1, u2, s1, s2, s3, s4, d1, d2, d3, d4] @ dgram le zerosum a payload"
    unfolding udp_write_def Let_def drop9 l by simp
  have len: "length (udp_write le net_len zerosum a payload) = 28 + length payload" unfolding w by (simp add: dgram_def)
  show ?thesis unfolding ip_output_def len n wire_header_def Let_def unfolding w by (simp add: i s d numeral_eq_Suc)
qed

definition link_ok :: "datalink \<Rightarrow> bytes \<Rightarrow> bool" where
  "link_ok datalink link = (case datalink of
       DLT_NULL \<Rightarrow> length link = 4
     | DLT_EN10MB \<Rightarrow> length link = 14 \<and> drop 12 link = net16 ETHERTYPE_IP
     | DLT_SLIP \<Rightarrow> length link = 24
     | DLT_PPP \<Rightarrow> length link = 24
     | DLT_OTHER \<Rightarrow> False)"

lemma udp_read_link:
  assumes "link_ok datalink link"
  shows "udp_read le datalink (link @ p) = udp_check le p (int (length p))"
proof (cases datalink)
  case DLT_EN10MB
  then have l: "length link = 14" "drop 12 link = net16 ETHERTYPE_IP" using assms by (simp_all add: link_ok_def)
  then have "link ! 12 = net16 ETHERTYPE_IP ! 0" "link ! 13 = net16 ETHERTYPE_IP ! 1"
    using nth_drop [of 12 link 0] nth_drop [of 12 link 1] by simp_all
  then have "be16 (buffer (link @ p) (\<lambda>_. 0)) 12 = ETHERTYPE_IP"
    using half_stored [of ETHERTYPE_IP] l(1) by (simp add: be16_def buffer_def nth_append)
  then show ?thesis using DLT_EN10MB l by (simp add: udp_read_def Let_def)
qed (use assms in \<open>simp_all add: udp_read_def link_ok_def Let_def\<close>)

lemma udp_check_wire:
  assumes "fits a payload" "length ident = 2" "p = wire_header le ident a payload @ d" "8 \<le> length d" "length d < 65536"
  shows "udp_check le p (int (length p)) = Ret (p[10 := 0, 11 := 0]) ()"
proof -
  let ?pre = "[0x45, 0] @ net16 (of_nat (28 + length payload)) @ ident @ [0, 0, 64, IPPROTO_UDP]"
  have f: "length (src a) = 4" "length (dst a) = 4" using assms(1) by (simp_all add: fits_def)
  have l: "length (wire_header le ident a payload) = 20" using f assms(2) by (simp add: wire_header_def Let_def)
  have "65535 dvd wsum le (wire_header le ident a payload)" "wsum le (wire_header le ident a payload) \<noteq> 0"
    unfolding wire_header_def Let_def using cksum_filled [of ?pre "src a @ dst a" le] f assms(2) by simp_all
  then have c: "in_cksum le (wire_header le ident a payload) = 0" using in_cksum_zero [of "wire_header le ident a payload" le] l by simp
  define b where "b = buffer p (\<lambda>_. 0)"
  have "b 0 = 0x45" by (simp add: b_def buffer_def assms(3) wire_header_def Let_def)
  then have v: "ip_v b 0 = 4" "ip_hl b 0 * 4 = 20" by (simp_all add: ip_v_def ip_hl_def)
  have "b 9 = IPPROTO_UDP" using assms(2) by (simp add: b_def buffer_def assms(3) wire_header_def Let_def nth_append)
  then have q: "ip_p b 0 = IPPROTO_UDP" by (simp add: ip_p_def)
  have t: "take 20 p = wire_header le ident a payload" using l by (simp add: assms(3))
  have n: "int (length p) = 20 + int (length d)" using l by (simp add: assms(3))
  have "(20 + int (length d)) mod 2 ^ 64 = 20 + int (length d)" using assms(5) by simp
  then have m: "\<not> (20 + int (length d)) mod 2 ^ 64 < 20 + 8" "\<not> 20 + int (length d) < 0" "\<not> 20 + int (length d) < int 20 + 8" "\<not> (20 :: nat) < 20"
    using assms(4) by simp_all
  show ?thesis unfolding udp_check_def Let_def b_def [symmetric] n v q t c if_not_P [OF m(1)] if_not_P [OF m(2)] if_not_P [OF m(3)] by simp
qed

section \<open>Properties\<close>

text \<open>
  C18.  A datagram that the program writes, with the header as the kernel completes it, is accepted by
  \<open>udp_read\<close> on every kind of link, with its addresses, ports and data; its UDP checksum is the one a
  receiver computes, and it is 0, for none, exactly if the option was given.
\<close>

theorem udp_roundtrip:
  assumes "fits a payload" "length ident = 2" "link_ok datalink link"
  shows "\<exists>q. udp_read le datalink (link @ ip_output le ident (udp_write le net_len zerosum a payload)) = Ret q ()
    \<and> take 8 (drop 12 q) = src a @ dst a
    \<and> drop 20 q = net16 (sport a) @ net16 (dport a) @ net16 (ui_len payload) @ ui_sum le zerosum a payload @ payload
    \<and> (take 2 (drop 26 q) = [0, 0] \<longleftrightarrow> zerosum) \<and> (\<not> zerosum \<longrightarrow> udp_valid le (src a) (dst a) (drop 20 q))"
proof -
  let ?h = "wire_header le ident a payload" and ?d = "dgram le zerosum a payload"
  have f: "length (src a) = 4" "length (dst a) = 4" using assms(1) by (simp_all add: fits_def)
  have l: "length ?h = 20" using f assms(2) by (simp add: wire_header_def Let_def)
  have d: "8 \<le> length ?d" "length ?d < 65536" using assms(1) by (simp_all add: dgram_def fits_def)
  let ?q = "(?h @ ?d)[10 := 0, 11 := 0]"
  have r: "udp_read le datalink (link @ ip_output le ident (udp_write le net_len zerosum a payload)) = Ret ?q ()"
    unfolding ip_output_write [OF assms(1,2)] udp_read_link [OF assms(3)] by (rule udp_check_wire [OF assms(1,2) refl d])
  have q: "?q = ?h[10 := 0, 11 := 0] @ ?d" using l by (simp add: list_update_append)
  have "take 8 (drop 12 (?h[10 := 0, 11 := 0])) = src a @ dst a"
    using f assms(2) by (simp add: wire_header_def Let_def)
  then have "take 8 (drop 12 ?q) = src a @ dst a" "drop 20 ?q = ?d" unfolding q using l f by simp_all
  moreover have "take 2 (drop 26 ?q) = ui_sum le zerosum a payload" unfolding q using l by (simp add: dgram_def)
  moreover have "\<not> zerosum \<longrightarrow> udp_valid le (src a) (dst a) (dgram le zerosum a payload)" using ui_sum_valid [OF assms(1), of le] by (cases zerosum) simp_all
  ultimately show ?thesis using r by (metis dgram_def ui_sum_zero)
qed

theorem udp_roundtrip_witness:
  "\<exists>q. udp_read True DLT_NULL (replicate 4 0 @ ip_output True [0, 1] (udp_write True True False
        \<lparr>src = [10, 0, 0, 1], dst = [10, 0, 0, 2], sport = 1000, dport = 53\<rparr> send_dns_query)) = Ret q ()
     \<and> udp_valid True [10, 0, 0, 1] [10, 0, 0, 2] (drop 20 q)"
proof -
  let ?a = "\<lparr>src = [10, 0, 0, 1], dst = [10, 0, 0, 2], sport = 1000, dport = 53\<rparr>"
  have "fits ?a send_dns_query" "length [0, 1 :: 8 word] = 2" "link_ok DLT_NULL (replicate 4 0)"
    by (simp_all add: fits_def send_dns_query_def link_ok_def)
  from udp_roundtrip [OF this, of True True False] show ?thesis by auto
qed

text \<open>
  A capture shorter than the link header: the length is negative, passes the unsigned test and the
  program reads outside of the packet.
\<close>

lemma udp_read_short: "length p < 4 \<Longrightarrow> udp_read le DLT_NULL p = Abort Undefined ()"
proof -
  assume l: "length p < 4"
  have "(int (length p) - 4) mod 18446744073709551616 = (int (length p) - 4 + 18446744073709551616) mod 18446744073709551616" by (rule mod_add_self2 [symmetric])
  also have "\<dots> = int (length p) - 4 + 18446744073709551616" using l by (intro mod_pos_pos_trivial) simp_all
  finally have "(int (length p) - 4) mod 18446744073709551616 = int (length p) - 4 + 18446744073709551616" .
  then show ?thesis using l by (simp add: udp_read_def udp_check_def Let_def)
qed

text \<open>The program gives up after three queries.\<close>

lemma test_udp_timeout: "test_udp le datalink 0 3 [None, None, None] = ([3, 6, 12], Some (Abort (Err_quit ''no response'') ()))"
  by simp

end
