(* ===== verification/Mem_Bytes.thy ===== *)
theory Mem_Bytes
  imports Packet
begin

text \<open>
  Structures in memory, as bytes at offsets: numbers of 16, 32 and 64 bits in the byte order of the
  machine, stores, and what a concatenation of bytes at a place says of the fields there.  \<open>le\<close> is
  true for little endian.
\<close>

section \<open>Numbers and stores\<close>

definition get16 :: "bool \<Rightarrow> mem \<Rightarrow> nat \<Rightarrow> 16 word" where
  "get16 le b i = half le (b i) (b (i + 1))"

definition poke :: "nat \<Rightarrow> bytes \<Rightarrow> mem \<Rightarrow> mem" where
  "poke i bs b j = (if i \<le> j \<and> j < i + length bs then bs ! (j - i) else b j)"

lemma half_of_stored: "half le (stored le x ! 0) (stored le x ! 1) = x"
proof -
  have "unat (x :: 16 word) < 65536" using unsigned_less [where 'a = nat, of x] by simp
  then show ?thesis by (simp add: word_unat_eq_iff unat_half stored_def unat_of_nat)
qed

lemma stored_half: "stored le (half le a b) = [a, b]"
  using unat_byte [of a] unat_byte [of b] by (simp add: stored_def unat_half)

lemma length_stored [simp]: "length (stored le x) = 2"
  by (simp add: stored_def)

lemma field_poke:
  "field (poke i bs b) i (length bs) = bs"
  "j + n \<le> i \<or> i + length bs \<le> j \<Longrightarrow> field (poke i bs b) j n = field b j n"
  by (auto simp: field_def poke_def intro!: nth_equalityI)

lemma get16_poke [simp]: "j + 2 \<le> i \<or> i + length bs \<le> j \<Longrightarrow> get16 le (poke i bs b) j = get16 le b j"
  "get16 le (poke i (stored le x) b) i = x"
  using half_of_stored [of le x] by (auto simp: get16_def poke_def stored_def)

definition le_val :: "bytes \<Rightarrow> nat" where
  "le_val bs = foldr (\<lambda>b n. unat b + 256 * n) bs 0"

definition get_num :: "bool \<Rightarrow> mem \<Rightarrow> nat \<Rightarrow> nat \<Rightarrow> nat" where
  "get_num le b i n = le_val (if le then field b i n else rev (field b i n))"

fun le_bytes :: "nat \<Rightarrow> nat \<Rightarrow> bytes" where
  "le_bytes 0 x = []"
| "le_bytes (Suc n) x = of_nat x # le_bytes n (x div 256)"

definition put_num :: "bool \<Rightarrow> nat \<Rightarrow> nat \<Rightarrow> bytes" where
  "put_num le n x = (if le then le_bytes n x else rev (le_bytes n x))"

section \<open>Numbers\<close>

lemma length_le_bytes [simp]: "length (le_bytes n x) = n"
  by (induction n arbitrary: x) auto

lemma four: "(4 :: nat) = Suc (Suc (Suc (Suc 0)))"
  by simp

lemma le_bytes_4: "le_bytes 4 x = [of_nat x, of_nat (x div 256), of_nat (x div 65536), of_nat (x div 16777216)]"
  by (simp add: four div_mult2_eq [symmetric])

lemma length_put_num [simp]: "length (put_num le n x) = n"
  by (simp add: put_num_def)

lemma le_val_simps [simp]: "le_val [] = 0" "le_val (b # bs) = unat b + 256 * le_val bs"
  by (simp_all add: le_val_def)

lemma le_val_bytes: "le_val (le_bytes n x) = x mod 256 ^ n"
proof (induction n arbitrary: x)
  case (Suc n)
  have "unat (of_nat x :: 8 word) = x mod 256" by (simp add: unat_of_nat)
  then show ?case using Suc by (simp add: mod_mult2_eq)
qed simp

lemma get_put_num: "field b i n = put_num le n x \<Longrightarrow> get_num le b i n = x mod 256 ^ n"
  by (simp add: get_num_def put_num_def le_val_bytes)

section \<open>Bytes at a place\<close>

definition holds :: "mem \<Rightarrow> nat \<Rightarrow> bytes \<Rightarrow> bool" where
  "holds b i bs \<longleftrightarrow> field b i (length bs) = bs"

lemma field_append: "field b i (m + n) = field b i m @ field b (i + m) n"
  using upt_add_eq_append [of i "i + m" n] by (simp add: field_def add.assoc)

lemma field_Suc: "field b i 0 = []" "field b i (Suc n) = b i # field b (Suc i) n"
  by (simp_all add: field_def upt_conv_Cons del: upt_Suc)

lemma length_field [simp]: "length (field b i n) = n"
  by (simp add: field_def)

lemma holds_append: "holds b i (xs @ ys) \<longleftrightarrow> holds b i xs \<and> holds b (i + length xs) ys"
  by (simp add: holds_def field_append)

lemma holds_Cons: "holds b i (x # xs) \<longleftrightarrow> b i = x \<and> holds b (i + 1) xs"
  by (auto simp: holds_def field_Suc)

lemma holds_buffer: "holds (buffer m junk) 0 m"
  by (auto simp: holds_def field_def buffer_def intro: nth_equalityI)

lemma holds_num: "holds b i (put_num le n x) \<Longrightarrow> get_num le b i n = x mod 256 ^ n"
  using get_put_num [of b i n le x] by (simp add: holds_def)

lemma holds_stored: "holds b i (stored le x) \<Longrightarrow> get16 le b i = x"
proof -
  assume "holds b i (stored le x)"
  then have "stored le x = [b i, b (i + 1)]" by (simp add: holds_def numeral_2_eq_2 field_Suc)
  then show ?thesis using half_of_stored [of le x] by (simp add: get16_def)
qed

lemma holds_field: "holds b i bs \<Longrightarrow> n = length bs \<Longrightarrow> field b i n = bs"
  by (simp add: holds_def)

definition pad :: "nat \<Rightarrow> bytes \<Rightarrow> bytes" where
  "pad n bs = bs @ replicate (n - length bs) 0"

lemma holds_pad: "holds b i (pad n bs) \<Longrightarrow> holds b i bs"
  by (simp add: pad_def holds_append)

lemma length_pad: "length bs \<le> n \<Longrightarrow> length (pad n bs) = n"
  by (simp add: pad_def)

lemma unat16: "n < 65536 \<Longrightarrow> unat (of_nat n :: 16 word) = n"
  by (simp add: unat_of_nat)

lemma unat8: "n < 256 \<Longrightarrow> unat (of_nat n :: 8 word) = n"
  by (simp add: unat_of_nat)

end
