(* ===== verification/Sock_Addr.thy ===== *)
theory Sock_Addr
  imports Mem_Bytes Inet_Text
begin

text \<open>
  The functions of \<open>unpv13e/lib\<close> on socket addresses of any family: \<open>sock_ntop\<close>, \<open>sock_ntop_host\<close>,
  \<open>sock_cmp_addr\<close>, \<open>sock_cmp_port\<close>, \<open>sock_get_port\<close>, \<open>sock_set_port\<close>, \<open>sock_set_addr\<close> and
  \<open>sock_set_wild\<close>.  A socket address is its bytes in memory, in the layout without \<open>sa_len\<close>: the family
  in host order, for the Internet families the port, and the address at offset 4 or 8.  \<open>le\<close> is the
  byte order of the machine.
\<close>

definition af_unix :: nat where "af_unix = 1"
definition af_inet :: nat where "af_inet = 2"
definition af_inet6 :: nat where "af_inet6 = 10"

lemma af_distinct [simp]:
  "af_unix \<noteq> af_inet" "af_unix \<noteq> af_inet6" "af_inet \<noteq> af_unix" "af_inet \<noteq> af_inet6" "af_inet6 \<noteq> af_unix" "af_inet6 \<noteq> af_inet"
  by (simp_all add: af_unix_def af_inet_def af_inet6_def)

section \<open>The code\<close>

definition sa_family :: "bool \<Rightarrow> mem \<Rightarrow> nat" where "sa_family le b = unat (get16 le b 0)"

definition sin_addr :: "mem \<Rightarrow> bytes" where "sin_addr b = field b 4 4"
definition sin6_addr :: "mem \<Rightarrow> bytes" where "sin6_addr b = field b 8 16"

text \<open>The port as a number, and the text of a path; a path without a null byte fills its 108 bytes.\<close>

definition sin_port :: "mem \<Rightarrow> nat" where "sin_port b = unat (be16 b 2)"
definition sun_path :: "mem \<Rightarrow> bytes" where "sun_path b = takeWhile (\<lambda>c. c \<noteq> 0) (field b 2 108)"

definition chars :: "bytes \<Rightarrow> string" where "chars = map (\<lambda>c. char_of (unat c))"

definition ntop_inet :: "mem \<Rightarrow> nat \<Rightarrow> string option" where
  "ntop_inet b sz = (case inet_ntop4 (map unat (sin_addr b)) sz of Inl e \<Rightarrow> None | Inr s \<Rightarrow> Some (cstr s))"

definition ntop_inet6 :: "mem \<Rightarrow> nat \<Rightarrow> string option" where
  "ntop_inet6 b sz = (case inet_ntop6 (map unat (sin6_addr b)) sz of Inl e \<Rightarrow> None | Inr s \<Rightarrow> Some (cstr s))"

definition unix_text :: "mem \<Rightarrow> string" where
  "unix_text b = (if b 2 = 0 then ''(no pathname bound)'' else take 127 (chars (sun_path b)))"

text \<open>\<open>portstr\<close> has room for seven characters.\<close>

definition sock_ntop :: "bool \<Rightarrow> mem \<Rightarrow> int \<Rightarrow> string option" where
  "sock_ntop le b salen =
     (let f = sa_family le b in
      if f = af_inet then
        (case ntop_inet b 128 of None \<Rightarrow> None
         | Some str \<Rightarrow> Some (if sin_port b \<noteq> 0 then str @ take 7 ('':'' @ dec (sin_port b)) else str))
      else if f = af_inet6 then
        (case ntop_inet6 b 127 of None \<Rightarrow> None
         | Some str \<Rightarrow> Some (if sin_port b \<noteq> 0 then ''['' @ str @ take 7 ('']:'' @ dec (sin_port b)) else str))
      else if f = af_unix then Some (unix_text b)
      else Some (take 127 (''sock_ntop: unknown AF_xxx: '' @ dec f @ '', len '' @ fmt_d salen)))"

definition sock_ntop_host :: "bool \<Rightarrow> mem \<Rightarrow> int \<Rightarrow> string option" where
  "sock_ntop_host le b salen =
     (let f = sa_family le b in
      if f = af_inet then ntop_inet b 128
      else if f = af_inet6 then ntop_inet6 b 128
      else if f = af_unix then Some (unix_text b)
      else Some (take 127 (''sock_ntop_host: unknown AF_xxx: '' @ dec f @ '', len '' @ fmt_d salen)))"

text \<open>The result of \<open>memcmp\<close> and \<open>strcmp\<close>, of which only the sign is defined.\<close>

fun memcmp :: "bytes \<Rightarrow> bytes \<Rightarrow> int" where
  "memcmp (a # as) (b # bs) = (if a = b then memcmp as bs else if a < b then -1 else 1)"
| "memcmp [] [] = 0"
| "memcmp [] (b # bs) = -1"
| "memcmp (a # as) [] = 1"

definition sock_cmp_addr :: "bool \<Rightarrow> mem \<Rightarrow> mem \<Rightarrow> int" where
  "sock_cmp_addr le b c =
     (let f = sa_family le b in
      if f \<noteq> sa_family le c then -1
      else if f = af_inet then memcmp (sin_addr b) (sin_addr c)
      else if f = af_inet6 then memcmp (sin6_addr b) (sin6_addr c)
      else if f = af_unix then memcmp (sun_path b) (sun_path c)
      else -1)"

definition sock_cmp_port :: "bool \<Rightarrow> mem \<Rightarrow> mem \<Rightarrow> int" where
  "sock_cmp_port le b c =
     (let f = sa_family le b in
      if f \<noteq> sa_family le c then -1
      else if f = af_inet \<or> f = af_inet6 then (if get16 le b 2 = get16 le c 2 then 1 else 0)
      else -1)"

text \<open>The port is passed and returned as the number that its bytes are in host order.\<close>

definition sock_get_port :: "bool \<Rightarrow> mem \<Rightarrow> int" where
  "sock_get_port le b =
     (let f = sa_family le b in if f = af_inet \<or> f = af_inet6 then uint (get16 le b 2) else -1)"

definition sock_set_port :: "bool \<Rightarrow> int \<Rightarrow> mem \<Rightarrow> mem" where
  "sock_set_port le port b =
     (let f = sa_family le b in if f = af_inet \<or> f = af_inet6 then poke 2 (stored le (of_int port)) b else b)"

definition sock_set_addr :: "bool \<Rightarrow> bytes \<Rightarrow> mem \<Rightarrow> mem" where
  "sock_set_addr le addr b =
     (let f = sa_family le b in
      if f = af_inet then poke 4 (take 4 addr) b
      else if f = af_inet6 then poke 8 (take 16 addr) b
      else b)"

definition sock_set_wild :: "bool \<Rightarrow> mem \<Rightarrow> mem" where
  "sock_set_wild le b =
     (let f = sa_family le b in
      if f = af_inet then sock_set_addr le (replicate 4 0) b
      else if f = af_inet6 then sock_set_addr le (replicate 16 0) b
      else b)"

section \<open>Text\<close>

text \<open>What a reader of the text takes from it: the family, the address and the port.\<close>

definition sock_pton :: "string \<Rightarrow> nat \<times> nat list option \<times> nat" where
  "sock_pton s =
     (let h = takeWhile (\<lambda>c. c \<noteq> CHR '':'') s in
      if s \<noteq> [] \<and> hd s = CHR ''['' then
        let t = takeWhile (\<lambda>c. c \<noteq> CHR '']'') (tl s) in (af_inet6, inet_pton6 t, nat (atol (drop (length t + 3) s)))
      else if CHR ''.'' \<in> set h then (af_inet, inet_pton4 h, nat (atol (drop (length h + 1) s)))
      else (af_inet6, inet_pton6 s, 0))"

lemma dec_chars [simp]: "CHR '':'' \<notin> set (dec n)" "CHR ''.'' \<notin> set (dec n)" "CHR ''['' \<notin> set (dec n)" "CHR '']'' \<notin> set (dec n)"
  by (auto dest!: dec_digits simp: isdigit_c_def)

lemma hex_set: "set (hex n) \<subseteq> set xdigits_l"
proof (induction n rule: hex.induct)
  case (1 n)
  have "xdigits_l ! (m mod 16) \<in> set xdigits_l" for m by (rule nth_mem) (simp add: xdigits_l_def)
  from this [of n] show ?case using 1 by (cases "n < 16") (auto simp: hex_lt hex_ge)
qed

lemma hex_chars [simp]: "CHR '':'' \<notin> set (hex n)" "CHR ''.'' \<notin> set (hex n)" "CHR ''['' \<notin> set (hex n)" "CHR '']'' \<notin> set (hex n)"
  using hex_set [of n] by (auto simp: xdigits_l_def)

lemma ctext_chars [simp]: "CHR ''.'' \<notin> set (ctext ws)" "CHR ''['' \<notin> set (ctext ws)" "CHR '']'' \<notin> set (ctext ws)"
  by (induction ws) simp_all

lemma v4_text_chars [simp]:
  "CHR '':'' \<notin> set (v4_text bs)" "CHR ''['' \<notin> set (v4_text bs)" "CHR '']'' \<notin> set (v4_text bs)" "CHR ''.'' \<in> set (v4_text bs)"
  by (simp_all add: v4_text_def)

lemma v6_text_chars [simp]: "CHR ''['' \<notin> set (v6_text ws bs)" "CHR '']'' \<notin> set (v6_text ws bs)"
  by (simp_all add: v6_text_def split: option.split)

text \<open>Before the first colon there are only digits.\<close>

abbreviation head :: "string \<Rightarrow> string" where
  "head \<equiv> takeWhile (\<lambda>c. c \<noteq> CHR '':'')"

lemma head_hex: "xs = [] \<or> hd xs = CHR '':'' \<Longrightarrow> CHR ''.'' \<notin> set (head (hex n @ xs))"
proof -
  assume x: "xs = [] \<or> hd xs = CHR '':''"
  have "head (hex n @ xs) = hex n @ head xs" by (rule takeWhile_append2) (metis hex_chars(1))
  moreover have "head xs = []" using x by (cases xs) auto
  ultimately show ?thesis by simp
qed

lemma head_ctext: "ctext xs @ CHR '':'' # ys = [] \<or> hd (ctext xs @ CHR '':'' # ys) = CHR '':''"
  by (cases xs) simp_all

lemma v6_text_head: "CHR ''.'' \<notin> set (head (v6_text ws bs))"
proof (cases "best_run ws")
  case None
  have "ctext (tl ws) = [] \<or> hd (ctext (tl ws)) = CHR '':''" by (cases "tl ws") simp_all
  then show ?thesis using None head_hex by (simp add: v6_text_def)
next
  case (Some r)
  then show ?thesis using head_hex [OF head_ctext] by (cases r) (simp add: v6_text_def)
qed

lemma map_unat_field [simp]: "length (field b i n) = n" "\<forall>x \<in> set (map unat (bs :: bytes)). x < 256"
  using unat_byte by (auto simp: field_def)

lemma ntop_inet: "16 \<le> sz \<Longrightarrow> ntop_inet b sz = Some (v4_text (map unat (sin_addr b)))"
proof -
  assume sz: "16 \<le> sz"
  have "v4_bytes (map unat (sin_addr b))" unfolding v4_bytes_def sin_addr_def by simp
  then have "length (v4_text (map unat (sin_addr b))) \<le> 15" by (rule length_v4_text)
  then have "inet_ntop4 (map unat (sin_addr b)) sz = Inr (v4_text (map unat (sin_addr b)) @ [NUL])"
    using sz by (simp add: inet_ntop4_def Let_def v4_text_def)
  then show ?thesis by (simp add: ntop_inet_def cstr_v4)
qed

lemma ntop_inet6: "46 \<le> sz \<Longrightarrow> ntop_inet6 b sz = Some (v6_text (addr_words (map unat (sin6_addr b))) (drop 12 (map unat (sin6_addr b))))"
proof -
  assume sz: "46 \<le> sz"
  let ?bs = "map unat (sin6_addr b)"
  let ?t = "v6_text (addr_words ?bs) (drop 12 ?bs)"
  have v: "v6_bytes ?bs" unfolding v6_bytes_def sin6_addr_def by simp
  note W = addr_words [OF v]
  have b4: "v4_bytes (drop 12 ?bs)" using v by (auto simp: v4_bytes_def v6_bytes_def dest: in_set_dropD)
  have "length ?t \<le> 45" by (rule v6_text_length [OF W(1,2) b4])
  then have "inet_ntop6 ?bs sz = Inr (?t @ [NUL])" using v6_text_fmt [OF W(1) refl b4] sz by (auto simp: inet_ntop6_def Let_def)
  moreover have "cstr (?t @ [NUL]) = ?t" by (rule cstr_append_NUL) (rule v6_text_no_NUL)
  ultimately show ?thesis by (simp add: ntop_inet6_def)
qed

lemma take_port: "n < 65536 \<Longrightarrow> take 7 (CHR '':'' # dec n) = CHR '':'' # dec n" "n < 65536 \<Longrightarrow> take 7 ('']:'' @ dec n) = '']:'' @ dec n"
  using length_dec_le [of n 5] by simp_all

lemma atol_nil: "atol [] = 0"
  by (simp add: atol_def)

lemma head_v4: "head (v4_text a) = v4_text a" "head (v4_text a @ CHR '':'' # xs) = v4_text a"
proof -
  have "head (v4_text a @ ys) = v4_text a @ head ys" for ys by (rule takeWhile_append2) (metis v4_text_chars(1))
  from this [of "[]"] this [of "CHR '':'' # xs"]
  show "head (v4_text a) = v4_text a" "head (v4_text a @ CHR '':'' # xs) = v4_text a" by simp_all
qed

lemma sock_pton_inet: "sock_pton (v4_text a @ (if p \<noteq> 0 then CHR '':'' # dec p else [])) = (af_inet, inet_pton4 (v4_text a), p)"
proof -
  have "v4_text a \<noteq> []" by (simp add: v4_text_def)
  moreover from this have "hd (v4_text a @ xs) \<noteq> CHR ''[''" for xs using v4_text_chars(2) [of a] by (cases "v4_text a") auto
  from this [of "CHR '':'' # dec p"] this [of "[]"] have "hd (v4_text a @ CHR '':'' # dec p) \<noteq> CHR ''[''" "hd (v4_text a) \<noteq> CHR ''[''" by simp_all
  ultimately show ?thesis by (cases "p = 0") (simp_all add: sock_pton_def head_v4 atol_nil)
qed

lemma sock_pton_inet6: "sock_pton (if p \<noteq> 0 then ''['' @ v6_text ws a @ '']:'' @ dec p else v6_text ws a) = (af_inet6, inet_pton6 (v6_text ws a), p)"
proof (cases "p = 0")
  case True
  have "v6_text ws a = [] \<or> hd (v6_text ws a) \<noteq> CHR ''[''" using v6_text_chars(1) [of ws a] by (cases "v6_text ws a") auto
  then show ?thesis using True v6_text_head by (auto simp: sock_pton_def)
next
  case False
  have "takeWhile (\<lambda>c. c \<noteq> CHR '']'') (v6_text ws a @ '']:'' @ dec p) = v6_text ws a @ takeWhile (\<lambda>c. c \<noteq> CHR '']'') ('']:'' @ dec p)"
    by (rule takeWhile_append2) (metis v6_text_chars(2))
  then have t: "takeWhile (\<lambda>c. c \<noteq> CHR '']'') (v6_text ws a @ '']:'' @ dec p) = v6_text ws a" by simp
  have "drop (length (v6_text ws a) + 3) (''['' @ v6_text ws a @ '']:'' @ dec p) = dec p" by (simp add: numeral_3_eq_3)
  then show ?thesis using False t by (simp add: sock_pton_def)
qed

section \<open>Fields\<close>

definition htons :: "bool \<Rightarrow> 16 word \<Rightarrow> 16 word" where
  "htons le p = half le (stored False p ! 0) (stored False p ! 1)"

lemma stored_htons: "stored le (htons le p) = stored False p"
  unfolding htons_def stored_half by (simp add: stored_def)

lemma sa_family_poke [simp]: "2 \<le> i \<Longrightarrow> sa_family le (poke i bs b) = sa_family le b"
  by (simp add: sa_family_def)

abbreviation addr_len :: "nat \<Rightarrow> nat" where
  "addr_len f \<equiv> if f = af_inet then 4 else 16"

abbreviation addr_of :: "nat \<Rightarrow> mem \<Rightarrow> bytes" where
  "addr_of f b \<equiv> if f = af_inet then sin_addr b else sin6_addr b"

abbreviation inet :: "nat \<Rightarrow> bool" where
  "inet f \<equiv> f = af_inet \<or> f = af_inet6"

lemma set_family [simp]:
  "sa_family le (sock_set_port le p b) = sa_family le b" "sa_family le (sock_set_addr le a b) = sa_family le b"
  by (simp_all add: sock_set_port_def sock_set_addr_def Let_def)

lemma set_addr:
  assumes "inet (sa_family le b)" "length a = addr_len (sa_family le b)"
  shows "addr_of (sa_family le b) (sock_set_addr le a b) = a" "sock_get_port le (sock_set_addr le a b) = sock_get_port le b"
  using assms field_poke(1) [of 4 a b] field_poke(1) [of 8 a b]
  by (auto simp: sock_set_addr_def sock_get_port_def sin_addr_def sin6_addr_def Let_def)

lemma set_port:
  assumes "inet (sa_family le b)"
  shows "addr_of (sa_family le b) (sock_set_port le p b) = addr_of (sa_family le b) b"
    and "sock_get_port le (sock_set_port le (uint q) b) = uint (q :: 16 word)"
    and "be16 (sock_set_port le (uint (htons le r)) b) 2 = r"
proof -
  show "addr_of (sa_family le b) (sock_set_port le p b) = addr_of (sa_family le b) b"
    by (simp add: sock_set_port_def sin_addr_def sin6_addr_def Let_def field_poke(2))
  show "sock_get_port le (sock_set_port le (uint q) b) = uint (q :: 16 word)"
    using assms by (auto simp: sock_set_port_def sock_get_port_def Let_def)
  have "get16 False (poke 2 (stored False r) b) 2 = r" by simp
  then show "be16 (sock_set_port le (uint (htons le r)) b) 2 = r"
    using assms by (auto simp: sock_set_port_def Let_def stored_htons be16_def get16_def)
qed

lemma memcmp_zero: "length as = length bs \<Longrightarrow> memcmp as bs = 0 \<longleftrightarrow> as = bs"
  by (induction as bs rule: memcmp.induct) auto

section \<open>Properties\<close>

text \<open>
  The text of \<open>sock_ntop\<close> for an Internet address, whatever its bytes, tells the family, the
  address and the port; two addresses with the same text are equal in these.
\<close>

theorem sock_ntop_roundtrip:
  assumes "inet (sa_family le b)"
  shows "\<exists>s. sock_ntop le b salen = Some s \<and> sock_pton s = (sa_family le b, Some (map unat (addr_of (sa_family le b) b)), sin_port b)"
proof -
  have p: "sin_port b < 65536" using unsigned_less [where 'a = nat, of "be16 b 2"] by (simp add: sin_port_def)
  show ?thesis
  proof (cases "sa_family le b = af_inet")
    case True
    let ?a = "map unat (sin_addr b)"
    have "v4_bytes ?a" unfolding v4_bytes_def sin_addr_def by simp
    then have "inet_pton4 (v4_text ?a) = Some ?a" using inet_v4_roundtrip [of ?a 16] ntop_inet [of 16 b] by (auto simp: ntop_inet_def)
    then show ?thesis using True sock_pton_inet [of ?a "sin_port b"] take_port(1) [OF p] ntop_inet [of 128 b]
      by (auto simp: sock_ntop_def Let_def)
  next
    case False
    then have f: "sa_family le b = af_inet6" using assms by simp
    let ?a = "map unat (sin6_addr b)"
    let ?t = "v6_text (addr_words ?a) (drop 12 ?a)"
    have "v6_bytes ?a" unfolding v6_bytes_def sin6_addr_def by simp
    then have "inet_pton6 ?t = Some ?a" using v6_roundtrip [of ?a 46] ntop_inet6 [of 46 b] by (auto simp: ntop_inet6_def)
    then show ?thesis using f sock_pton_inet6 [of "sin_port b" "addr_words ?a" "drop 12 ?a"] take_port(2) [OF p] ntop_inet6 [of 127 b]
      by (auto simp: sock_ntop_def Let_def)
  qed
qed

theorem sock_ntop_roundtrip_witness:
  "\<exists>s. sock_ntop True (\<lambda>i. if i = 0 then 10 else if i = 1 then 0 else 1) 28 = Some s
     \<and> sock_pton s = (af_inet6, Some (replicate 16 1), 257)"
proof -
  let ?b = "\<lambda>i. if i = 0 then 10 else if i = 1 then 0 else 1 :: 8 word"
  have f: "sa_family True ?b = af_inet6" by (simp add: sa_family_def get16_def unat_half af_inet6_def)
  have "map unat (sin6_addr ?b) = replicate 16 1" by (rule replicate_eqI) (auto simp: sin6_addr_def field_def)
  moreover have "sin_port ?b = 257" by (simp add: sin_port_def be16_def unat_half)
  ultimately show ?thesis using sock_ntop_roundtrip [of True ?b 28] f by simp
qed

text \<open>
  An address and a port that are set are the ones that the text shows, and \<open>sock_cmp_addr\<close> is 0
  for two addresses exactly if they were set to the same.
\<close>

theorem sock_set_shows:
  assumes "inet (sa_family le b)" "length a = addr_len (sa_family le b)"
  shows "\<exists>s. sock_ntop le (sock_set_port le (uint (htons le p)) (sock_set_addr le a b)) salen = Some s
    \<and> sock_pton s = (sa_family le b, Some (map unat a), unat p)
    \<and> (\<forall>c. sa_family le c = sa_family le b \<longrightarrow>
        (sock_cmp_addr le (sock_set_port le (uint (htons le p)) (sock_set_addr le a b)) c = 0 \<longleftrightarrow> addr_of (sa_family le b) c = a))"
proof -
  let ?c = "sock_set_port le (uint (htons le p)) (sock_set_addr le a b)"
  have f: "sa_family le ?c = sa_family le b" by simp
  have a: "addr_of (sa_family le b) ?c = a" using set_port(1) [of le "sock_set_addr le a b" "uint (htons le p)"] set_addr(1) [OF assms] assms(1) by simp
  have p: "sin_port ?c = unat p" using set_port(3) [of le "sock_set_addr le a b" p] assms(1) by (simp add: sin_port_def)
  have "sock_cmp_addr le ?c c = 0 \<longleftrightarrow> addr_of (sa_family le b) c = a" if "sa_family le c = sa_family le b" for c
    using that a assms memcmp_zero [of a "sin_addr c"] memcmp_zero [of a "sin6_addr c"]
    by (auto simp: sock_cmp_addr_def Let_def sin_addr_def sin6_addr_def)
  then show ?thesis using sock_ntop_roundtrip [of le ?c salen] assms(1) a p unfolding f by auto
qed

theorem sock_set_shows_witness:
  "\<exists>s. sock_ntop True (sock_set_port True (uint (htons True 80)) (sock_set_addr True [10, 0, 0, 1] (\<lambda>i. if i = 0 then 2 else 0))) 16 = Some s
     \<and> sock_pton s = (af_inet, Some [10, 0, 0, 1], 80)"
proof -
  let ?b = "\<lambda>i. if i = 0 then 2 else 0 :: 8 word"
  have f: "sa_family True ?b = af_inet" by (simp add: sa_family_def get16_def unat_half af_inet_def)
  then show ?thesis using sock_set_shows [of True ?b "[10, 0, 0, 1]" 80 16] by auto
qed

text \<open>
  \<open>sock_cmp_port\<close> gives 1 for equal ports and 0 for different ones, the opposite of
  \<open>sock_cmp_addr\<close>.
\<close>

lemma sock_cmp_port_inverted:
  "inet (sa_family le b) \<Longrightarrow> sa_family le c = sa_family le b \<Longrightarrow>
   sock_cmp_port le b c = (if sock_get_port le b = sock_get_port le c then 1 else 0)"
  by (auto simp: sock_cmp_port_def sock_get_port_def Let_def word_uint_eq_iff)

end
