(* ===== verification/Pf_Key.thy ===== *)
theory Pf_Key
  imports Sock_Addr
begin

text \<open>
  The programs of \<open>unpv13e/key\<close>: they build messages for the key management socket of the kernel
  (\<open>add.c\<close>, \<open>register.c\<close>, \<open>dump.c\<close>) and print them (\<open>printsadbmsg.c\<close>); \<open>name.c\<close> looks up algorithms.
  Messages are bytes in memory, with the structures of PF\_KEY version 2 laid over them; numbers in
  them are in the byte order of the machine, \<open>le\<close> for little endian.
\<close>

text \<open>A 32-bit number as \<open>%d\<close> prints it.\<close>

definition signed32 :: "nat \<Rightarrow> int" where
  "signed32 n = sint (of_nat n :: 32 word)"

section \<open>Names\<close>

definition name_of :: "(nat \<times> string) list \<Rightarrow> string \<Rightarrow> nat \<Rightarrow> string" where
  "name_of tbl what n = (case map_of tbl n of Some s \<Rightarrow> s | None \<Rightarrow> ''[Unknown '' @ what @ '' '' @ dec n @ '']'')"

definition get_sadb_msg_type :: "nat \<Rightarrow> string" where
  "get_sadb_msg_type = name_of [(0, ''Reserved''), (1, ''Get SPI''), (2, ''Update''), (3, ''Add''), (4, ''Delete''), (5, ''Get''),
     (6, ''Acquire''), (7, ''Register''), (8, ''Expire''), (9, ''Flush''), (10, ''Dump'')] ''type''"

definition get_sadb_satype :: "nat \<Rightarrow> string" where
  "get_sadb_satype = name_of [(0, ''Unspecified''), (2, ''IPsec AH''), (3, ''IPsec ESP''), (5, ''RSVP''), (6, ''OSPFv2''), (7, ''RIPv2''),
     (8, ''Mobile IP'')] ''satype''"

definition get_auth_alg :: "nat \<Rightarrow> string" where
  "get_auth_alg = name_of [(0, ''None''), (2, ''HMAC-MD5''), (3, ''HMAC-SHA-1'')] ''authentication algorithm''"

definition get_encrypt_alg :: "nat \<Rightarrow> string" where
  "get_encrypt_alg = name_of [(0, ''None''), (2, ''DES-CBC''), (3, ''3DES-CBC''), (11, ''Null'')] ''encryption algorithm''"

definition get_sa_state :: "nat \<Rightarrow> string" where
  "get_sa_state = name_of [(0, ''Larval''), (1, ''Mature''), (2, ''Dying''), (3, ''Dead'')] ''SA state''"

text \<open>The types of extensions.\<close>

definition EXT_SA :: nat where "EXT_SA = 1"
definition EXT_LIFETIME_CURRENT :: nat where "EXT_LIFETIME_CURRENT = 2"
definition EXT_LIFETIME_HARD :: nat where "EXT_LIFETIME_HARD = 3"
definition EXT_LIFETIME_SOFT :: nat where "EXT_LIFETIME_SOFT = 4"
definition EXT_ADDRESS_SRC :: nat where "EXT_ADDRESS_SRC = 5"
definition EXT_ADDRESS_DST :: nat where "EXT_ADDRESS_DST = 6"
definition EXT_ADDRESS_PROXY :: nat where "EXT_ADDRESS_PROXY = 7"
definition EXT_KEY_AUTH :: nat where "EXT_KEY_AUTH = 8"
definition EXT_KEY_ENCRYPT :: nat where "EXT_KEY_ENCRYPT = 9"
definition EXT_SUPPORTED_AUTH :: nat where "EXT_SUPPORTED_AUTH = 14"
definition EXT_SUPPORTED_ENCRYPT :: nat where "EXT_SUPPORTED_ENCRYPT = 15"

lemmas ext_defs = EXT_SA_def EXT_LIFETIME_CURRENT_def EXT_LIFETIME_HARD_def EXT_LIFETIME_SOFT_def EXT_ADDRESS_SRC_def
  EXT_ADDRESS_DST_def EXT_ADDRESS_PROXY_def EXT_KEY_AUTH_def EXT_KEY_ENCRYPT_def EXT_SUPPORTED_AUTH_def EXT_SUPPORTED_ENCRYPT_def

section \<open>Printing a message\<close>

text \<open>What is printed, as the arguments of \<open>printf\<close>; the times of a lifetime are not formatted.\<close>

datatype line =
    Msg_len int int
  | Bad_version
  | Header string nat string int int
  | Errno nat
  | Text string
  | Sa int nat string string string bool
  | Supported string "(string \<times> nat \<times> nat \<times> nat) list option"
  | Lifetime string nat nat nat nat
  | Address string string nat nat
  | Key string nat bytes

definition sa_print :: "bool \<Rightarrow> mem \<Rightarrow> nat \<Rightarrow> line" where
  "sa_print le b i = Sa (signed32 (get_num le b (i + 4) 4)) (unat (b (i + 8))) (get_sa_state (unat (b (i + 9))))
     (get_auth_alg (unat (b (i + 10)))) (get_encrypt_alg (unat (b (i + 11)))) (odd (get_num le b (i + 12) 4))"

definition get_sadb_alg_type :: "nat \<Rightarrow> nat \<Rightarrow> string" where
  "get_sadb_alg_type alg authenc = (if authenc = EXT_SUPPORTED_AUTH then get_auth_alg alg else get_encrypt_alg alg)"

definition ext_len :: "bool \<Rightarrow> mem \<Rightarrow> nat \<Rightarrow> nat" where "ext_len le b i = unat (get16 le b i)"
definition ext_type :: "bool \<Rightarrow> mem \<Rightarrow> nat \<Rightarrow> nat" where "ext_type le b i = unat (get16 le b (i + 2))"

definition supported_print :: "bool \<Rightarrow> mem \<Rightarrow> nat \<Rightarrow> line" where
  "supported_print le b i =
     (let ty = ext_type le b i; len = int (ext_len le b i) * 8 - 8 in
      Supported (if ty = EXT_SUPPORTED_AUTH then ''authentication'' else ''encryption'')
        (if len = 0 then None
         else Some (map (\<lambda>k. let a = i + 8 + 8 * k in
                (get_sadb_alg_type (unat (b a)) ty, unat (b (a + 1)), unat (get16 le b (a + 2)), unat (get16 le b (a + 4))))
                [0 ..< nat (len div 8)])))"

definition lifetime_print :: "bool \<Rightarrow> mem \<Rightarrow> nat \<Rightarrow> line" where
  "lifetime_print le b i =
     (let ty = ext_type le b i in
      Lifetime (if ty = EXT_LIFETIME_CURRENT then ''Current'' else if ty = EXT_LIFETIME_HARD then ''Hard'' else ''Soft'')
        (get_num le b (i + 4) 4) (get_num le b (i + 8) 8) (get_num le b (i + 16) 8) (get_num le b (i + 24) 8))"

definition address_print :: "bool \<Rightarrow> mem \<Rightarrow> nat \<Rightarrow> line" where
  "address_print le b i =
     (let ty = ext_type le b i in
      Address (if ty = EXT_ADDRESS_SRC then ''Source'' else if ty = EXT_ADDRESS_DST then ''Dest'' else ''Proxy'')
        (case sock_ntop le (\<lambda>k. b (i + 8 + k)) (int (ext_len le b i) * 8 - 8) of None \<Rightarrow> ''(null)'' | Some s \<Rightarrow> s)
        (unat (b (i + 5))) (unat (b (i + 4))))"

text \<open>One byte is printed for each eight bits that are left.\<close>

definition key_print :: "bool \<Rightarrow> mem \<Rightarrow> nat \<Rightarrow> line" where
  "key_print le b i =
     (let bits = unat (get16 le b (i + 4)) in
      Key (if ext_type le b i = EXT_KEY_AUTH then ''Authentication'' else ''Encryption'') bits (field b (i + 8) ((bits + 7) div 8)))"

definition print_ext :: "bool \<Rightarrow> mem \<Rightarrow> nat \<Rightarrow> line" where
  "print_ext le b i =
     (let ty = ext_type le b i in
      if ty = 0 then Text '' Reserved Extension''
      else if ty = EXT_SA then sa_print le b i
      else if ty \<in> {EXT_LIFETIME_CURRENT, EXT_LIFETIME_HARD, EXT_LIFETIME_SOFT} then lifetime_print le b i
      else if ty \<in> {EXT_ADDRESS_SRC, EXT_ADDRESS_DST, EXT_ADDRESS_PROXY} then address_print le b i
      else if ty \<in> {EXT_KEY_AUTH, EXT_KEY_ENCRYPT} then key_print le b i
      else if ty = 10 \<or> ty = 11 then Text '' [identity...]''
      else if ty = 12 then Text '' [sensitivity...]''
      else if ty = 13 then Text '' [proposal...]''
      else if ty \<in> {EXT_SUPPORTED_AUTH, EXT_SUPPORTED_ENCRYPT} then supported_print le b i
      else if ty = 16 then Text '' [spirange...]''
      else Text ('' [unknown extension '' @ dec ty @ '']''))"

text \<open>The loop over the extensions; it may go on forever, then there is no result.\<close>

partial_function (option) print_exts :: "bool \<Rightarrow> mem \<Rightarrow> nat \<Rightarrow> int \<Rightarrow> line list option" where
  "print_exts le b i msglen =
     (if msglen \<le> 0 then Some []
      else Option.bind (print_exts le b (i + 8 * ext_len le b i) (msglen - 8 * int (ext_len le b i)))
             (\<lambda>ls. Some (print_ext le b i # ls)))"

definition print_sadb_msg :: "bool \<Rightarrow> mem \<Rightarrow> int \<Rightarrow> line list option" where
  "print_sadb_msg le b msglen =
     (let len = int (unat (get16 le b 4)) * 8; errno = unat (b 2) in
      if msglen \<noteq> len then Some [Msg_len len msglen]
      else if b 0 \<noteq> 2 then Some [Bad_version]
      else
        let h = Header (get_sadb_msg_type (unat (b 1))) errno (get_sadb_satype (unat (b 3))) (signed32 (get_num le b 8 4)) (signed32 (get_num le b 12 4))
                # (if errno \<noteq> 0 then [Errno errno] else []) in
        if msglen = 16 then Some h
        else Option.bind (print_exts le b 16 (msglen - 16)) (\<lambda>ls. Some (h @ ls)))"

section \<open>Names of the command line\<close>

fun idlistlookup :: "string \<Rightarrow> (nat \<times> string) list \<Rightarrow> int" where
  "idlistlookup name [] = -1"
| "idlistlookup name ((v, n) # il) = (if name = n then int v else idlistlookup name il)"

definition getsatypebyname :: "string \<Rightarrow> int" where
  "getsatypebyname name = idlistlookup name
     [(0, ''unspec''), (2, ''ah''), (3, ''esp''), (5, ''rsvp''), (6, ''ospfv2''), (7, ''ripv2''), (8, ''mip'')]"

definition getsaalgbyname :: "nat \<Rightarrow> string \<Rightarrow> int" where
  "getsaalgbyname type name =
     (if type = 2 then idlistlookup name [(0, ''none''), (2, ''HMAC-MD5-96''), (3, ''HMAC-SHA-1-96'')]
      else if type = 3 then idlistlookup name [(0, ''none''), (2, ''DES-CBC''), (3, ''3DES-CBC''), (11, ''NULL'')]
      else -1)"

text \<open>
  \<open>sscanf\<close> with \<open>%2x\<close>: white space, a sign, one or two hexadecimal digits, in two characters after
  the white space.
\<close>

definition scan2x :: "string \<Rightarrow> 8 word option" where
  "scan2x s =
     (case dropWhile isspace_c s of
        [] \<Rightarrow> None
      | a # r \<Rightarrow>
        if a = CHR ''+'' \<or> a = CHR ''-'' then
          (case r of [] \<Rightarrow> None
           | d # _ \<Rightarrow> map_option (\<lambda>v. if a = CHR ''-'' then - of_nat v else of_nat v) (xdigit d))
        else
          (case xdigit a of None \<Rightarrow> None
           | Some v \<Rightarrow>
             (case r of [] \<Rightarrow> Some (of_nat v)
              | d # _ \<Rightarrow>
                if a = CHR ''0'' \<and> (d = CHR ''x'' \<or> d = CHR ''X'') then None
                else (case xdigit d of None \<Rightarrow> Some (of_nat v) | Some w \<Rightarrow> Some (of_nat (16 * v + w))))))"

text \<open>The key of the command line: \<open>n\<close> bytes are expected.\<close>

fun parse_key :: "nat \<Rightarrow> string \<Rightarrow> abort + bytes" where
  "parse_key 0 p = (if p \<noteq> [] then Inl (Err_quit ''too many bytes'') else Inr [])"
| "parse_key (Suc n) p =
     (if length p < 2 then Inl (Err_quit ''not enough bytes'')
      else case scan2x p of
        None \<Rightarrow> Inl (Err_quit ''contains invalid hex digit'')
      | Some c \<Rightarrow> (case parse_key n (drop 2 p) of Inl e \<Rightarrow> Inl e | Inr cs \<Rightarrow> Inr (c # cs)))"

definition key_arg :: "int \<Rightarrow> string \<Rightarrow> abort + bytes" where
  "key_arg keybits p =
     (if keybits mod 8 \<noteq> 0 then Inl (Err_quit ''Invalid number of bits'')
      else parse_key (nat (keybits div 8)) (if take 2 p = ''0x'' \<or> take 2 p = ''0X'' then drop 2 p else p))"

section \<open>Building a message\<close>

definition salen :: "nat \<Rightarrow> nat" where
  "salen f = (if f = af_inet then 16 else if f = af_inet6 then 28 else 0)"

definition prefix_all :: "nat \<Rightarrow> nat" where
  "prefix_all f = (if f = af_inet then 32 else if f = af_inet6 then 128 else 0)"

definition sadb_msg :: "bool \<Rightarrow> nat \<Rightarrow> nat \<Rightarrow> nat \<Rightarrow> nat \<Rightarrow> bytes" where
  "sadb_msg le type satype len pid = [2, of_nat type, 0, of_nat satype] @ stored le (of_nat len) @ [0, 0] @ put_num le 4 0 @ put_num le 4 pid"

definition sadb_sa :: "bool \<Rightarrow> nat \<Rightarrow> nat \<Rightarrow> bytes" where
  "sadb_sa le spi alg = stored le 2 @ stored le (of_nat EXT_SA) @ put_num False 4 spi @ [0, 1, of_nat alg, 0] @ put_num le 4 0"

definition sadb_address :: "bool \<Rightarrow> nat \<Rightarrow> mem \<Rightarrow> bytes" where
  "sadb_address le which sa =
     (let f = sa_family le sa; len = (8 + salen f + 7) div 8 in
      pad (8 * len) (stored le (of_nat len) @ stored le (of_nat which) @ [0, of_nat (prefix_all f), 0, 0] @ field sa 0 (salen f)))"

definition sadb_key :: "bool \<Rightarrow> bytes \<Rightarrow> bytes" where
  "sadb_key le key =
     (let len = (8 + length key + 7) div 8 in
      pad (8 * len) (stored le (of_nat len) @ stored le (of_nat EXT_KEY_AUTH) @ stored le (of_nat (8 * length key)) @ [0, 0] @ key))"

text \<open>\<open>sadb_add\<close> up to the call of \<open>write\<close>; \<open>buf\<close> has 4096 bytes.\<close>

definition sadb_add :: "bool \<Rightarrow> mem \<Rightarrow> mem \<Rightarrow> nat \<Rightarrow> nat \<Rightarrow> nat \<Rightarrow> bytes \<Rightarrow> nat \<Rightarrow> (unit, bytes) outcome" where
  "sadb_add le src dst type alg spi key pid =
     (let exts = sadb_sa le spi alg @ sadb_address le EXT_ADDRESS_SRC src @ sadb_address le EXT_ADDRESS_DST dst in
      if 16 + length exts + 8 + length key > 4096 then Abort Undefined ()
      else let exts = exts @ sadb_key le key in Ret (sadb_msg le 3 type ((16 + length exts) div 8) pid @ exts) ())"

definition sadb_request :: "bool \<Rightarrow> nat \<Rightarrow> nat \<Rightarrow> nat \<Rightarrow> bytes" where
  "sadb_request le msgtype satype pid = sadb_msg le msgtype satype 2 pid"

text \<open>
  The replies: messages are read into the same buffer until one is for this process and of the type;
  \<open>sadb_dump\<close> prints all up to one with number 0.  \<open>None\<close> while there is none, and \<open>Some None\<close> if
  printing does not end.
\<close>

fun await :: "bool \<Rightarrow> nat \<Rightarrow> nat \<Rightarrow> mem \<Rightarrow> bytes list \<Rightarrow> line list option option" where
  "await le type pid b [] = None"
| "await le type pid b (d # ds) =
     (let b = buffer d b in
      if get_num le b 12 4 = pid \<and> unat (b 1) = type then Some (print_sadb_msg le b (int (length d)))
      else await le type pid b ds)"

fun dump_loop :: "bool \<Rightarrow> mem \<Rightarrow> bytes list \<Rightarrow> line list option option" where
  "dump_loop le b [] = None"
| "dump_loop le b (d # ds) =
     (let b = buffer d b in
      case print_sadb_msg le b (int (length d)) of
        None \<Rightarrow> Some None
      | Some ls \<Rightarrow>
        if get_num le b 8 4 = 0 then Some (Some ls)
        else map_option (map_option (\<lambda>rs. ls @ rs)) (dump_loop le b ds))"

text \<open>A number in network order that is read in host order.\<close>

definition htonl :: "bool \<Rightarrow> nat \<Rightarrow> nat" where
  "htonl le x = le_val (if le then rev (le_bytes 4 x) else le_bytes 4 x)"

lemma holds_htonl: "holds b i (put_num False 4 x) \<Longrightarrow> get_num le b i 4 = htonl le x"
  using holds_field [of b i "put_num False 4 x" 4] by (simp add: get_num_def put_num_def htonl_def)

section \<open>The extensions of an add message\<close>

lemma length_sadb_sa [simp]: "length (sadb_sa le spi alg) = 16"
  by (simp add: sadb_sa_def)

lemma print_sadb_sa:
  assumes "holds b i (sadb_sa le spi alg)" "alg < 256"
  shows "ext_len le b i = 2"
    and "print_ext le b i = Sa (signed32 (htonl le spi)) 0 ''Mature'' (get_auth_alg alg) ''None'' False"
proof -
  have h: "holds b i (stored le 2)" "holds b (i + 2) (stored le (of_nat EXT_SA))" "holds b (i + 4) (put_num False 4 spi)"
      "b (i + 8) = 0" "b (i + 9) = 1" "b (i + 10) = of_nat alg" "b (i + 11) = 0" "holds b (i + 12) (put_num le 4 0)"
    using assms(1) by (simp_all add: sadb_sa_def holds_append holds_Cons ac_simps del: One_nat_def add_2_eq_Suc' le_bytes.simps)
  have "ext_type le b i = EXT_SA" using holds_stored [OF h(2)] by (simp add: ext_type_def unat16 ext_defs)
  then show "print_ext le b i = Sa (signed32 (htonl le spi)) 0 ''Mature'' (get_auth_alg alg) ''None'' False"
    using h(4-7) assms(2) holds_htonl [OF h(3), of le] holds_num [OF h(8)]
    by (simp add: print_ext_def sa_print_def EXT_SA_def get_sa_state_def get_encrypt_alg_def name_of_def unat8 Let_def)
  show "ext_len le b i = 2" using holds_stored [OF h(1)] by (simp add: ext_len_def)
qed

lemma sock_ntop_cong:
  assumes "inet (sa_family le b)" "\<And>k. k < salen (sa_family le b) \<Longrightarrow> c k = b k"
  shows "sock_ntop le c n = sock_ntop le b m"
proof -
  have l: "16 \<le> salen (sa_family le b)" "sa_family le b = af_inet6 \<Longrightarrow> salen (sa_family le b) = 28" using assms(1) by (auto simp: salen_def)
  have "c 0 = b 0" "c 1 = b 1" "c 2 = b 2" "c 3 = b 3" using assms(2) l(1) by simp_all
  then have f: "sa_family le c = sa_family le b" "sin_port c = sin_port b" by (simp_all add: sa_family_def get16_def sin_port_def be16_def)
  have "sin_addr c = sin_addr b" unfolding sin_addr_def by (rule field_cong) (use assms(2) l(1) in simp)
  moreover have "sin6_addr c = sin6_addr b" if "sa_family le b = af_inet6"
    unfolding sin6_addr_def by (rule field_cong) (use assms(2) l(2) that in simp)
  ultimately show ?thesis using assms(1) f by (auto simp: sock_ntop_def ntop_inet_def ntop_inet6_def Let_def split: option.split)
qed

abbreviation ext_words :: "nat \<Rightarrow> nat" where
  "ext_words n \<equiv> (8 + n + 7) div 8"

lemma ext_words_le: "8 + n \<le> 8 * ext_words n" "8 * ext_words n \<le> 15 + n"
  by linarith+

lemma salen_le: "salen f \<le> 28"
  by (simp add: salen_def)

lemma length_sadb_address [simp]: "length (sadb_address le which sa) = 8 * ext_words (salen (sa_family le sa))"
  unfolding sadb_address_def Let_def by (rule length_pad) (use ext_words_le(1) in simp)

text \<open>The text of a socket address; for the Internet families it does not depend on the length given.\<close>

definition text_of :: "bool \<Rightarrow> mem \<Rightarrow> string" where
  "text_of le sa = the (sock_ntop le sa 0)"

lemma print_sadb_address:
  assumes "holds b i (sadb_address le which sa)" "inet (sa_family le sa)" "which = EXT_ADDRESS_SRC \<or> which = EXT_ADDRESS_DST"
  shows "ext_len le b i = ext_words (salen (sa_family le sa))"
    and "print_ext le b i = Address (if which = EXT_ADDRESS_SRC then ''Source'' else ''Dest'') (text_of le sa) (prefix_all (sa_family le sa)) 0"
proof -
  let ?f = "sa_family le sa"
  have h: "holds b i (stored le (of_nat (ext_words (salen ?f))))" "holds b (i + 2) (stored le (of_nat which))"
      "b (i + 4) = 0" "b (i + 5) = of_nat (prefix_all ?f)" "holds b (i + 8) (field sa 0 (salen ?f))"
    using holds_pad [OF assms(1) [unfolded sadb_address_def Let_def]] by (simp_all add: holds_append holds_Cons ac_simps del: One_nat_def add_2_eq_Suc' le_bytes.simps)
  have w: "which < 65536" using assms(3) by (auto simp: ext_defs)
  have t: "ext_type le b i = which" using holds_stored [OF h(2)] unat16 [OF w] by (simp add: ext_type_def)
  have e: "field b (i + 8) (salen ?f) = field sa 0 (salen ?f)" using holds_field [OF h(5)] by simp
  have "b (i + 8 + k) = sa k" if "k < salen ?f" for k using arg_cong [OF e, of "\<lambda>l. l ! k"] that by (simp add: field_def)
  then have s: "sock_ntop le (\<lambda>k. b (i + 8 + k)) n = sock_ntop le sa 0" for n by (rule sock_ntop_cong [OF assms(2)])
  obtain x where "sock_ntop le sa 0 = Some x" using sock_ntop_roundtrip [OF assms(2), of 0] by auto
  then have "(case sock_ntop le (\<lambda>k. b (i + 8 + k)) n of None \<Rightarrow> ''(null)'' | Some s \<Rightarrow> s) = text_of le sa" for n
    unfolding s by (simp add: text_of_def)
  then show "print_ext le b i = Address (if which = EXT_ADDRESS_SRC then ''Source'' else ''Dest'') (text_of le sa) (prefix_all ?f) 0"
    using t h(3,4) assms(3) by (auto simp: print_ext_def address_print_def ext_defs prefix_all_def Let_def)
  have "ext_words (salen ?f) < 65536" using salen_le [of ?f] by simp
  then show "ext_len le b i = ext_words (salen ?f)" using holds_stored [OF h(1)] unat16 by (simp add: ext_len_def)
qed

lemma length_sadb_key [simp]: "length (sadb_key le key) = 8 * ext_words (length key)"
  unfolding sadb_key_def Let_def by (rule length_pad) (use ext_words_le(1) in simp)

lemma print_sadb_key:
  assumes "holds b i (sadb_key le key)" "length key \<le> 4096"
  shows "ext_len le b i = ext_words (length key)"
    and "print_ext le b i = Key ''Authentication'' (8 * length key) key"
proof -
  have h: "holds b i (stored le (of_nat (ext_words (length key))))" "holds b (i + 2) (stored le (of_nat EXT_KEY_AUTH))"
      "holds b (i + 4) (stored le (of_nat (8 * length key)))" "holds b (i + 8) key"
    using holds_pad [OF assms(1) [unfolded sadb_key_def Let_def]] by (simp_all add: holds_append holds_Cons ac_simps del: One_nat_def add_2_eq_Suc' le_bytes.simps)
  have t: "ext_type le b i = EXT_KEY_AUTH" using holds_stored [OF h(2)] by (simp add: ext_type_def unat16 ext_defs)
  have k: "unat (get16 le b (i + 4)) = 8 * length key" using holds_stored [OF h(3)] assms(2) unat16 [of "8 * length key"] by simp
  have "(8 * length key + 7) div 8 = length key" by simp
  then show "print_ext le b i = Key ''Authentication'' (8 * length key) key"
    using t k holds_field [OF h(4) refl] by (simp add: print_ext_def key_print_def ext_defs Let_def)
  show "ext_len le b i = ext_words (length key)" using holds_stored [OF h(1)] assms(2) unat16 [of "ext_words (length key)"] by (simp add: ext_len_def)
qed

section \<open>Properties\<close>

lemma print_exts_step:
  "0 < n \<Longrightarrow> ext_len le b i = l \<Longrightarrow>
   print_exts le b i n = Option.bind (print_exts le b (i + 8 * l) (n - 8 * int l)) (\<lambda>ls. Some (print_ext le b i # ls))"
  by (subst print_exts.simps) simp

lemma print_exts_end: "n \<le> 0 \<Longrightarrow> print_exts le b i n = Some []"
  by (subst print_exts.simps) simp

text \<open>
  C20.  The add message for two Internet addresses and any key that fits into the buffer is printed
  as what it was built from: type, process, both addresses as text, and all bytes of the key.  The
  index of the association is printed in network order.
\<close>

theorem sadb_add_printed:
  assumes "inet (sa_family le src)" "inet (sa_family le dst)" "type < 256" "alg < 256" "pid < 2 ^ 32" "length key \<le> 3900"
  shows "\<exists>m. sadb_add le src dst type alg spi key pid = Ret m ()
    \<and> print_sadb_msg le (buffer m junk) (int (length m)) = Some
        [Header ''Add'' 0 (get_sadb_satype type) 0 (signed32 pid),
         Sa (signed32 (htonl le spi)) 0 ''Mature'' (get_auth_alg alg) ''None'' False,
         Address ''Source'' (text_of le src) (prefix_all (sa_family le src)) 0,
         Address ''Dest'' (text_of le dst) (prefix_all (sa_family le dst)) 0,
         Key ''Authentication'' (8 * length key) key]"
proof -
  let ?ls = "ext_words (salen (sa_family le src))" and ?ld = "ext_words (salen (sa_family le dst))" and ?lk = "ext_words (length key)"
  let ?exts = "sadb_sa le spi alg @ sadb_address le EXT_ADDRESS_SRC src @ sadb_address le EXT_ADDRESS_DST dst @ sadb_key le key"
  let ?n = "4 + ?ls + ?ld + ?lk"
  define m where "m = sadb_msg le 3 type ?n pid @ ?exts"
  have sl: "8 * ?ls \<le> 43" "8 * ?ld \<le> 43" 
    using ext_words_le(2) [of "salen (sa_family le src)"] ext_words_le(2) [of "salen (sa_family le dst)"]
      salen_le [of "sa_family le src"] salen_le [of "sa_family le dst"] by linarith+
  have kl: "8 * ?lk \<le> 15 + length key" by (rule ext_words_le)
  have "16 + length ?exts = 8 * ?n" by simp
  then have add: "sadb_add le src dst type alg spi key pid = Ret m ()"
    using sl assms(6) by (simp add: sadb_add_def m_def Let_def add.assoc)
  define b where "b = buffer m junk"
  have "holds b 0 m" unfolding b_def by (rule holds_buffer)
  then have h: "b 0 = 2" "b 1 = 3" "b 2 = 0" "b 3 = of_nat type" "holds b 4 (stored le (of_nat ?n))" "holds b 8 (put_num le 4 0)" "holds b 12 (put_num le 4 pid)"
      "holds b 16 (sadb_sa le spi alg)" "holds b 32 (sadb_address le EXT_ADDRESS_SRC src)"
      "holds b (32 + 8 * ?ls) (sadb_address le EXT_ADDRESS_DST dst)" "holds b (32 + 8 * ?ls + 8 * ?ld) (sadb_key le key)"
    by (simp_all add: m_def sadb_msg_def holds_append holds_Cons ac_simps del: One_nat_def add_2_eq_Suc' le_bytes.simps)
  have len: "length m = 8 * ?n" by (simp add: m_def sadb_msg_def)
  have n: "unat (get16 le b 4) = ?n" using holds_stored [OF h(5)] sl kl assms(6) unat16 [of ?n] by simp
  note sa = print_sadb_sa [OF h(8) assms(4)] and s = print_sadb_address [OF h(9) assms(1)] and d = print_sadb_address [OF h(10) assms(2)]
    and k = print_sadb_key [OF h(11)]
  have kl: "length key \<le> 4096" using assms(6) by simp
  have pos: "0 < 8 * int ?n - 16" "0 < 8 * int ?n - 32" "0 < 8 * int ?n - 32 - 8 * int ?ls" "0 < 8 * int ?n - 32 - 8 * int ?ls - 8 * int ?ld"
    and last: "8 * int ?n - 32 - 8 * int ?ls - 8 * int ?ld - 8 * int ?lk \<le> 0" by simp_all
  have "print_exts le b 16 (8 * int ?n - 16) = Some
      [Sa (signed32 (htonl le spi)) 0 ''Mature'' (get_auth_alg alg) ''None'' False,
       Address ''Source'' (text_of le src) (prefix_all (sa_family le src)) 0,
       Address ''Dest'' (text_of le dst) (prefix_all (sa_family le dst)) 0,
       Key ''Authentication'' (8 * length key) key]"
    using print_exts_step [OF pos(1) sa(1)] print_exts_step [OF pos(2) s(1)] print_exts_step [OF pos(3) d(1)] print_exts_step [OF pos(4) k(1) [OF kl]]
      print_exts_end [OF last] sa(2) s(2) d(2) k(2) [OF kl]
    by (simp add: ext_defs)
  moreover have "8 * int ?n \<noteq> 16" by simp
  moreover have "signed32 (get_num le b 8 4) = 0" "get_num le b 12 4 = pid"
    using holds_num [OF h(6)] holds_num [OF h(7)] assms(5) by (simp_all add: signed32_def)
  ultimately have "print_sadb_msg le b (int (length m)) = Some
        [Header ''Add'' 0 (get_sadb_satype type) 0 (signed32 pid),
         Sa (signed32 (htonl le spi)) 0 ''Mature'' (get_auth_alg alg) ''None'' False,
         Address ''Source'' (text_of le src) (prefix_all (sa_family le src)) 0,
         Address ''Dest'' (text_of le dst) (prefix_all (sa_family le dst)) 0,
         Key ''Authentication'' (8 * length key) key]"
    using h(1-4) n assms(3) len unfolding print_sadb_msg_def Let_def
    by (simp add: get_sadb_msg_type_def name_of_def unat8)
  then show ?thesis using add b_def by blast
qed

definition sample_sin :: "nat \<Rightarrow> bytes \<Rightarrow> mem" where
  "sample_sin p a = buffer ([2, 0] @ stored False (of_nat p) @ a @ replicate 8 0) (\<lambda>_. 0)"

lemma sample_sin: "sa_family True (sample_sin p a) = af_inet"
  by (simp add: sample_sin_def sa_family_def get16_def buffer_def unat_half af_inet_def)

theorem sadb_add_printed_witness:
  "\<exists>m. sadb_add True (sample_sin 0 [10, 0, 0, 1]) (sample_sin 0 [10, 0, 0, 2]) 2 2 0x9876 [1, 2, 3] 7 = Ret m ()
    \<and> print_sadb_msg True (buffer m (\<lambda>_. 0)) (int (length m)) = Some
        [Header ''Add'' 0 ''IPsec AH'' 0 7,
         Sa 0x76980000 0 ''Mature'' ''HMAC-MD5'' ''None'' False,
         Address ''Source'' (text_of True (sample_sin 0 [10, 0, 0, 1])) 32 0,
         Address ''Dest'' (text_of True (sample_sin 0 [10, 0, 0, 2])) 32 0,
         Key ''Authentication'' 24 [1, 2, 3]]"
proof -
  let ?s = "sample_sin 0 [10, 0, 0, 1]" and ?d = "sample_sin 0 [10, 0, 0, 2]"
  have e: "htonl True 0x9876 = 0x76980000" by (simp add: htonl_def le_bytes_4)
  have p: "inet (sa_family True ?s)" "inet (sa_family True ?d)" "(2 :: nat) < 256" "(7 :: nat) < 2 ^ 32" "length [1, 2, 3 :: 8 word] \<le> 3900"
    by (simp_all add: sample_sin)
  have f: "prefix_all (sa_family True ?s) = 32" "prefix_all (sa_family True ?d) = 32" "get_sadb_satype 2 = ''IPsec AH''" "get_auth_alg 2 = ''HMAC-MD5''"
      "signed32 7 = 7" "signed32 0x76980000 = 0x76980000" "8 * length [1, 2, 3 :: 8 word] = 24"
    by (simp_all add: sample_sin prefix_all_def get_sadb_satype_def get_auth_alg_def name_of_def signed32_def)
  show ?thesis
    using sadb_add_printed [OF p(1,2,3,3,4,5), where spi = "0x9876" and junk = "\<lambda>_. 0"] unfolding e f .
qed

text \<open>
  A key written in hexadecimal digits, with or without \<open>0x\<close>, is the key that is added, and so the
  key that is printed, in the same digits.
\<close>

definition hex2 :: "8 word \<Rightarrow> string" where
  "hex2 c = [xdigits_l ! (unat c div 16), xdigits_l ! (unat c mod 16)]"

lemma hex_digit: "c \<in> set xdigits_l \<Longrightarrow> \<not> isspace_c c \<and> c \<noteq> CHR ''+'' \<and> c \<noteq> CHR ''-'' \<and> c \<noteq> CHR ''x'' \<and> c \<noteq> CHR ''X''"
  by (auto simp: xdigits_l_def isspace_c_def)

lemma hex2_digits: "unat (c :: 8 word) div 16 < 16" "unat c mod 16 < 16"
    "xdigits_l ! (unat c div 16) \<in> set xdigits_l" "xdigits_l ! (unat c mod 16) \<in> set xdigits_l"
proof -
  show a: "unat c div 16 < 16" using unat_byte [of c] by simp
  have "length xdigits_l = 16" by (simp add: xdigits_l_def)
  then show "xdigits_l ! (unat c div 16) \<in> set xdigits_l" "xdigits_l ! (unat c mod 16) \<in> set xdigits_l" using a by simp_all
qed simp

lemma scan_hex2: "scan2x (hex2 c @ r) = Some c"
proof -
  have "16 * (unat c div 16) + unat c mod 16 = unat c" by simp
  then show ?thesis
    using hex_digit [OF hex2_digits(3) [of c]] hex_digit [OF hex2_digits(4) [of c]] xdigit_l [OF hex2_digits(1) [of c]] xdigit_l [OF hex2_digits(2) [of c]]
    by (simp add: scan2x_def hex2_def)
qed

lemma parse_hex2: "parse_key (length key) (concat (map hex2 key)) = Inr key"
proof (induction key)
  case (Cons c key)
  have "length (hex2 c) = 2" by (simp add: hex2_def)
  then show ?case using Cons scan_hex2 [of c "concat (map hex2 key)"] by simp
qed simp

theorem key_arg_hex:
  assumes "pre = [] \<or> pre = ''0x''"
  shows "key_arg (8 * int (length key)) (pre @ concat (map hex2 key)) = Inr key"
proof -
  have "take 2 (concat (map hex2 key)) \<noteq> ''0x'' \<and> take 2 (concat (map hex2 key)) \<noteq> ''0X''"
  proof (cases key)
    case (Cons c k)
    then show ?thesis using hex_digit [OF hex2_digits(4) [of c]] by (auto simp: hex2_def numeral_2_eq_2)
  qed simp
  then show ?thesis using assms parse_hex2 [of key] by (auto simp: key_arg_def)
qed

theorem key_arg_hex_witness: "key_arg 16 ''0x0aff'' = Inr [10, 255]"
  using key_arg_hex [of "''0x''" "[10, 255]"] by (simp add: hex2_def xdigits_l_def)

text \<open>Only the first of two digits is checked.\<close>

lemma key_arg_unchecked: "key_arg 8 ''1z'' = Inr [1]"
  by (simp add: key_arg_def scan2x_def xdigit_def xdigits_l_def xdigits_u_def isspace_c_def NUL_def)

text \<open>The places in a message that the loop over the extensions comes to, with the length that is left.\<close>

inductive visits :: "bool \<Rightarrow> mem \<Rightarrow> nat \<Rightarrow> int \<Rightarrow> nat \<Rightarrow> int \<Rightarrow> bool" for le b where
  here: "visits le b i n i n"
| there: "0 < n \<Longrightarrow> visits le b (i + 8 * ext_len le b i) (n - 8 * int (ext_len le b i)) j m \<Longrightarrow> visits le b i n j m"

lemma print_exts_stuck:
  assumes "0 < n" "ext_len le b i = 0"
  shows "print_exts le b i n = None"
proof (cases "print_exts le b i n")
  case (Some ls)
  have a: "i + 8 * 0 = i" "n - 8 * int 0 = n" by simp_all
  have "print_exts le b i n = Option.bind (print_exts le b i n) (\<lambda>ls. Some (print_ext le b i # ls))"
    by (rule print_exts_step [OF assms, unfolded a])
  then have "Some ls = Some (print_ext le b i # ls)" unfolding Some by (simp only: Option.bind.simps)
  then show ?thesis using not_Cons_self2 [of "print_ext le b i" ls] by (metis option.inject)
qed

lemma print_exts_returns:
  "(\<exists>ls. print_exts le b i n = Some ls) \<longleftrightarrow> (\<forall>j m. visits le b i n j m \<longrightarrow> 0 < m \<longrightarrow> 0 < ext_len le b j)"
proof
  assume "\<exists>ls. print_exts le b i n = Some ls"
  then obtain ls where ls: "print_exts le b i n = Some ls" by blast
  have "visits le b i n j m \<Longrightarrow> print_exts le b i n = Some ls \<Longrightarrow> 0 < m \<Longrightarrow> 0 < ext_len le b j" for i n j m ls
  proof (induction arbitrary: ls rule: visits.induct)
    case (here i n)
    then show ?case using print_exts_stuck by fastforce
  next
    case (there n i j m)
    then show ?case using print_exts_step [OF there.hyps(1) refl, of le b] by (cases "print_exts le b (i + 8 * ext_len le b i) (n - 8 * int (ext_len le b i))") auto
  qed
  then show "\<forall>j m. visits le b i n j m \<longrightarrow> 0 < m \<longrightarrow> 0 < ext_len le b j" using ls by blast
next
  assume "\<forall>j m. visits le b i n j m \<longrightarrow> 0 < m \<longrightarrow> 0 < ext_len le b j"
  then show "\<exists>ls. print_exts le b i n = Some ls"
  proof (induction "nat n" arbitrary: i n rule: less_induct)
    case less
    show ?case
    proof (cases "n \<le> 0")
      case False
      then have l: "0 < ext_len le b i" using less.prems visits.here [of le b i n] by (metis not_le)
      have "\<exists>ls. print_exts le b (i + 8 * ext_len le b i) (n - 8 * int (ext_len le b i)) = Some ls"
      proof (rule less.hyps)
        show "nat (n - 8 * int (ext_len le b i)) < nat n" using False l by simp
        show "\<forall>j m. visits le b (i + 8 * ext_len le b i) (n - 8 * int (ext_len le b i)) j m \<longrightarrow> 0 < m \<longrightarrow> 0 < ext_len le b j"
          using less.prems visits.there False by (metis not_le)
      qed
      then show ?thesis using print_exts_step [OF _ refl, of n le b i] False by auto
    qed (simp add: print_exts_end)
  qed
qed

text \<open>
  C28.  Printing returns for exactly the messages in which the loop comes to no extension of length 0.
\<close>

theorem print_sadb_msg_returns:
  "(\<exists>ls. print_sadb_msg le b n = Some ls) \<longleftrightarrow>
     (n = 8 * int (unat (get16 le b 4)) \<and> b 0 = 2 \<and> n \<noteq> 16
      \<longrightarrow> (\<forall>j m. visits le b 16 (n - 16) j m \<longrightarrow> 0 < m \<longrightarrow> 0 < ext_len le b j))"
proof -
  define l where "l = int (unat (get16 le b 4)) * 8"
  have "n = 8 * int (unat (get16 le b 4)) \<longleftrightarrow> n = l" by (simp only: l_def mult.commute)
  moreover have "(\<exists>ls. print_sadb_msg le b n = Some ls) \<longleftrightarrow> (n = l \<and> b 0 = 2 \<and> n \<noteq> 16 \<longrightarrow> (\<exists>ls. print_exts le b 16 (n - 16) = Some ls))"
    unfolding print_sadb_msg_def l_def [symmetric] by (cases "print_exts le b 16 (n - 16)") (auto simp: Let_def)
  ultimately show ?thesis by (simp only: print_exts_returns)
qed

theorem print_sadb_msg_returns_witness:
  "print_sadb_msg True (buffer ([2, 3, 0, 2, 3, 0, 0, 0] @ replicate 16 0) (\<lambda>_. 0)) 24 = None"
proof -
  define b where "b = buffer ([2, 3, 0, 2, 3, 0, 0, 0] @ replicate 16 0) (\<lambda>_. 0)"
  have g: "unat (get16 True b 4) = 3" "b 0 = 2" "ext_len True b 16 = 0"
    by (simp_all add: b_def get16_def buffer_def unat_half ext_len_def nth_append)
  have v: "visits True b 16 8 16 8" by (rule visits.here)
  have "\<not> (\<forall>j m. visits True b 16 8 j m \<longrightarrow> 0 < m \<longrightarrow> 0 < ext_len True b j)"
  proof
    assume "\<forall>j m. visits True b 16 8 j m \<longrightarrow> 0 < m \<longrightarrow> 0 < ext_len True b j"
    then have "0 < ext_len True b 16" using v by (metis zero_less_numeral)
    then show False using g(3) by simp
  qed
  then have "\<not> (\<exists>ls. print_sadb_msg True b 24 = Some ls)" unfolding print_sadb_msg_returns using g(1,2) by simp
  then show ?thesis by (simp add: b_def)
qed

end
