(* ===== verification/Ping.thy ===== *)
theory Ping
  imports Mem_Bytes Traceroute
begin

text \<open>
  The program of \<open>unpv13e/ping\<close>: the handler of the alarm sends an echo request each second, the main
  loop prints the replies.  A \<open>timeval\<close> is two numbers of 64 bits; \<open>le\<close> is the byte order of the
  machine, \<open>pid\<close> the low 16 bits of the process id.
\<close>

section \<open>Sending\<close>

definition timeval :: "bool \<Rightarrow> nat \<times> nat \<Rightarrow> bytes" where
  "timeval le t = put_num le 8 (fst t) @ put_num le 8 (snd t)"

definition get_timeval :: "bool \<Rightarrow> mem \<Rightarrow> nat \<Rightarrow> int \<times> int" where
  "get_timeval le b i = (int (get_num le b i 8), int (get_num le b (i + 8) 8))"

text \<open>The pattern, with the time over its start; only \<open>datalen\<close> bytes of it are sent.\<close>

definition echo_data :: "bool \<Rightarrow> nat \<Rightarrow> nat \<times> nat \<Rightarrow> bytes" where
  "echo_data le datalen t = take datalen (timeval le t @ replicate (datalen - 16) 0xa5)"

definition ICMP_ECHO :: "8 word" where "ICMP_ECHO = 8"
definition ICMP_ECHOREPLY :: "8 word" where "ICMP_ECHOREPLY = 0"
definition ICMP6_ECHO_REQUEST :: "8 word" where "ICMP6_ECHO_REQUEST = 128"
definition ICMP6_ECHO_REPLY :: "8 word" where "ICMP6_ECHO_REPLY = 129"
definition IPPROTO_ICMP :: "8 word" where "IPPROTO_ICMP = 1"

definition echo_rest :: "bool \<Rightarrow> nat \<Rightarrow> nat \<Rightarrow> nat \<Rightarrow> nat \<times> nat \<Rightarrow> bytes" where
  "echo_rest le datalen pid nsent t = stored le (of_nat pid) @ stored le (of_nat nsent) @ echo_data le datalen t"

definition send_v4 :: "bool \<Rightarrow> nat \<Rightarrow> nat \<Rightarrow> nat \<Rightarrow> nat \<times> nat \<Rightarrow> bytes" where
  "send_v4 le datalen pid nsent t =
     (let rest = echo_rest le datalen pid nsent t in
      [ICMP_ECHO, 0] @ stored le (in_cksum le ([ICMP_ECHO, 0] @ [0, 0] @ rest)) @ rest)"

text \<open>The kernel fills in the checksum of an ICMPv6 message.\<close>

definition send_v6 :: "bool \<Rightarrow> nat \<Rightarrow> nat \<Rightarrow> nat \<Rightarrow> nat \<times> nat \<Rightarrow> bytes" where
  "send_v6 le datalen pid nsent t = [ICMP6_ECHO_REQUEST, 0] @ [0, 0] @ echo_rest le datalen pid nsent t"

section \<open>Receiving\<close>

text \<open>
  What is printed for a packet: length, sequence number, hop limit if it is known and time; or, with
  \<open>verbose\<close>, type and code of another message.
\<close>

datatype line = Echo int nat "nat option" "int \<times> int" | Other int "8 word" "8 word"

definition proc_v4 :: "bool \<Rightarrow> bool \<Rightarrow> nat \<Rightarrow> bytes \<Rightarrow> mem \<Rightarrow> int \<times> int \<Rightarrow> line option" where
  "proc_v4 le verbose pid d junk tvrecv =
     (let ptr = buffer d junk; hlen1 = ip_hl ptr 0 * 4; icmplen = int (length d) - int hlen1 in
      if ip_p ptr 0 \<noteq> IPPROTO_ICMP then None
      else if icmplen < 8 then None
      else if ptr hlen1 = ICMP_ECHOREPLY then
        if unat (get16 le ptr (hlen1 + 4)) \<noteq> pid then None
        else if icmplen < 16 then None
        else Some (Echo icmplen (unat (get16 le ptr (hlen1 + 6))) (Some (unat (ptr 8))) (tv_sub tvrecv (get_timeval le ptr (hlen1 + 8))))
      else if verbose then Some (Other icmplen (ptr hlen1) (ptr (hlen1 + 1)))
      else None)"

text \<open>\<open>ctl\<close>: the control messages, with whether they are a hop limit; a missing one is printed as \<open>???\<close>.\<close>

definition proc_v6 :: "bool \<Rightarrow> bool \<Rightarrow> nat \<Rightarrow> bytes \<Rightarrow> mem \<Rightarrow> (bool \<times> nat) list \<Rightarrow> int \<times> int \<Rightarrow> line option" where
  "proc_v6 le verbose pid d junk ctl tvrecv =
     (let ptr = buffer d junk; len = int (length d) in
      if len < 8 then None
      else if ptr 0 = ICMP6_ECHO_REPLY then
        if unat (get16 le ptr 4) \<noteq> pid then None
        else if len < 16 then None
        else Some (Echo len (unat (get16 le ptr 6)) (map_option snd (List.find fst ctl)) (tv_sub tvrecv (get_timeval le ptr 8)))
      else if verbose then Some (Other len (ptr 0) (ptr 1))
      else None)"

section \<open>The program\<close>

text \<open>
  \<open>Alrm t\<close>: the alarm goes off, at time \<open>t\<close>; \<open>Packet\<close>: one is received, with what the buffer held
  before.  The trace is what is sent and printed.
\<close>

datatype event = Alrm "nat \<times> nat" | Packet bytes mem "int \<times> int" | Recv_error

datatype act = Sent bytes | Printed line

fun readloop :: "(nat \<Rightarrow> nat \<times> nat \<Rightarrow> bytes) \<Rightarrow> (bytes \<Rightarrow> mem \<Rightarrow> int \<times> int \<Rightarrow> line option) \<Rightarrow> event list \<Rightarrow> nat \<Rightarrow> act list \<times> bool" where
  "readloop fsend fproc [] nsent = ([], True)"
| "readloop fsend fproc (Alrm t # es) nsent = (case readloop fsend fproc es (nsent + 1) of (as, ok) \<Rightarrow> (Sent (fsend nsent t) # as, ok))"
| "readloop fsend fproc (Packet d junk t # es) nsent =
     (case readloop fsend fproc es nsent of (as, ok) \<Rightarrow>
        ((case fproc d junk t of None \<Rightarrow> as | Some l \<Rightarrow> Printed l # as), ok))"
| "readloop fsend fproc (Recv_error # es) nsent = ([], False)"

text \<open>\<open>readloop\<close> calls the handler of the alarm itself for the first request.\<close>

definition ping_v4 :: "bool \<Rightarrow> bool \<Rightarrow> nat \<Rightarrow> nat \<times> nat \<Rightarrow> event list \<Rightarrow> act list \<times> bool" where
  "ping_v4 le verbose pid t es = readloop (\<lambda>n. send_v4 le 56 pid n) (proc_v4 le verbose pid) (Alrm t # es) 0"

section \<open>Echo\<close>

text \<open>A host answers a request with its data, a checksum of its own and an IP header.\<close>

definition echo_reply :: "bytes \<Rightarrow> bytes \<Rightarrow> bytes \<Rightarrow> bytes" where
  "echo_reply h ck m = h @ [ICMP_ECHOREPLY, 0] @ ck @ drop 4 m"

definition reply_ok :: "bytes \<Rightarrow> bytes \<Rightarrow> bool" where
  "reply_ok h ck \<longleftrightarrow> ip_header h \<and> header_proto h = IPPROTO_ICMP \<and> length ck = 2"

lemma length_echo_data [simp]: "length (echo_data le datalen t) = datalen"
  by (simp add: echo_data_def timeval_def)

lemma length_echo_rest [simp]: "length (echo_rest le datalen pid n t) = 4 + datalen"
  by (simp add: echo_rest_def)

lemma drop_send_v4: "drop 4 (send_v4 le datalen pid n t) = echo_rest le datalen pid n t"
  by (simp add: send_v4_def Let_def)

lemma send_v4_valid: "datalen \<le> 1400 \<Longrightarrow> in_cksum le (send_v4 le datalen pid n t) = 0"
proof -
  assume d: "datalen \<le> 1400"
  let ?m = "[ICMP_ECHO, 0] @ stored le (in_cksum le ([ICMP_ECHO, 0] @ [0, 0] @ echo_rest le datalen pid n t)) @ echo_rest le datalen pid n t"
  have "even (length [ICMP_ECHO, 0])" "length [ICMP_ECHO, 0] + 2 + length (echo_rest le datalen pid n t) \<le> 131074" using d by simp_all
  from cksum_filled [OF this, of le] have "65535 dvd wsum le ?m" "wsum le ?m \<noteq> 0" by simp_all
  moreover have "length ?m \<le> 131074" using d by simp
  ultimately have "in_cksum le ?m = 0" using in_cksum_zero [of ?m le] by blast
  then show ?thesis by (simp add: send_v4_def Let_def)
qed

lemma header_fields:
  assumes "ip_header h"
  shows "ip_hl (buffer (h @ d) junk) 0 * 4 = length h" "ip_p (buffer (h @ d) junk) 0 = header_proto h" "buffer (h @ d) junk 8 = h ! 8"
  using assms by (simp_all add: ip_hl_def ip_p_def header_proto_def ip_header_def buffer_def nth_append)

lemma proc_v4_reply:
  assumes ok: "reply_ok h ck" and pid: "pid < 65536" and t: "fst t < 2 ^ 64" "snd t < 2 ^ 64" and d: "16 \<le> datalen"
  shows "proc_v4 le verbose pid' (echo_reply h ck (send_v4 le datalen pid n t)) junk tvrecv
    = (if pid = pid' then Some (Echo (8 + int datalen) (n mod 65536) (Some (unat (h ! 8))) (tv_sub tvrecv (int (fst t), int (snd t)))) else None)"
proof -
  let ?p = "echo_reply h ck (send_v4 le datalen pid n t)"
  have h: "ip_header h" "header_proto h = IPPROTO_ICMP" "length ck = 2" using ok by (simp_all add: reply_ok_def)
  have p: "?p = h @ [ICMP_ECHOREPLY, 0] @ ck @ echo_rest le datalen pid n t" by (simp add: echo_reply_def drop_send_v4)
  define b where "b = buffer ?p junk"
  have "holds b 0 ?p" unfolding b_def by (rule holds_buffer)
  then have "holds b (length h) ([ICMP_ECHOREPLY, 0] @ ck @ echo_rest le datalen pid n t)" unfolding p holds_append by simp
  moreover have "echo_data le datalen t = put_num le 8 (fst t) @ put_num le 8 (snd t) @ replicate (datalen - 16) 0xa5"
    using d by (simp add: echo_data_def timeval_def)
  ultimately have f: "b (length h) = ICMP_ECHOREPLY" "holds b (length h + 4) (stored le (of_nat pid))" "holds b (length h + 6) (stored le (of_nat n))"
      "holds b (length h + 8) (put_num le 8 (fst t))" "holds b (length h + 16) (put_num le 8 (snd t))"
    using h(3) by (simp_all add: echo_rest_def holds_append holds_Cons ac_simps del: One_nat_def add_2_eq_Suc' le_bytes.simps)
  note hf = header_fields [OF h(1), of "[ICMP_ECHOREPLY, 0] @ ck @ echo_rest le datalen pid n t" junk, folded p b_def]
  have len: "int (length ?p) - int (length h) = 8 + int datalen" using h(3) by (simp add: p)
  have tv: "get_timeval le b (length h + 8) = (int (fst t), int (snd t))"
    using holds_num [OF f(4)] holds_num [OF f(5)] t by (simp add: get_timeval_def add.assoc)
  have i: "unat (get16 le b (length h + 4)) = pid" using holds_stored [OF f(2)] unat16 [OF pid] by simp
  have s: "unat (get16 le b (length h + 6)) = n mod 65536" using holds_stored [OF f(3)] by (simp add: unat_of_nat)
  have c: "\<not> 8 + int datalen < 8" "\<not> 8 + int datalen < 16" using d by simp_all
  show ?thesis
    unfolding proc_v4_def Let_def b_def [symmetric] hf len h(2) f(1) i s tv if_not_P [OF c(1)] if_not_P [OF c(2)] by simp
qed

section \<open>A run of the program\<close>

text \<open>
  What happens on a network: the alarm goes off, the answer to request \<open>k\<close> arrives, which has been
  sent before, or the answer to a request of another process.  Packets can be lost, duplicated and
  reordered.
\<close>

datatype happening =
    Tick "nat \<times> nat"
  | Answer nat bytes bytes mem "int \<times> int"
  | Foreign nat nat nat "nat \<times> nat" bytes bytes mem "int \<times> int"

definition time_ok :: "nat \<times> nat \<Rightarrow> bool" where
  "time_ok t \<longleftrightarrow> fst t < 2 ^ 64 \<and> snd t < 2 ^ 64"

text \<open>\<open>ts\<close>: the times at which requests were sent.\<close>

fun happens :: "nat \<Rightarrow> (nat \<times> nat) list \<Rightarrow> happening list \<Rightarrow> bool" where
  "happens pid ts [] \<longleftrightarrow> True"
| "happens pid ts (Tick t # hs) \<longleftrightarrow> time_ok t \<and> happens pid (ts @ [t]) hs"
| "happens pid ts (Answer k h ck junk tv # hs) \<longleftrightarrow> k < length ts \<and> reply_ok h ck \<and> happens pid ts hs"
| "happens pid ts (Foreign pid' len n t h ck junk tv # hs) \<longleftrightarrow>
     pid' \<noteq> pid \<and> pid' < 65536 \<and> 16 \<le> len \<and> time_ok t \<and> reply_ok h ck \<and> happens pid ts hs"

fun events :: "bool \<Rightarrow> nat \<Rightarrow> (nat \<times> nat) list \<Rightarrow> happening list \<Rightarrow> event list" where
  "events le pid ts [] = []"
| "events le pid ts (Tick t # hs) = Alrm t # events le pid (ts @ [t]) hs"
| "events le pid ts (Answer k h ck junk tv # hs) = Packet (echo_reply h ck (send_v4 le 56 pid k (ts ! k))) junk tv # events le pid ts hs"
| "events le pid ts (Foreign pid' len n t h ck junk tv # hs) = Packet (echo_reply h ck (send_v4 le len pid' n t)) junk tv # events le pid ts hs"

text \<open>What the user sees: each answer with its number, hop limit and round trip time, in the order of arrival.\<close>

fun transcript :: "bool \<Rightarrow> nat \<Rightarrow> (nat \<times> nat) list \<Rightarrow> happening list \<Rightarrow> act list" where
  "transcript le pid ts [] = []"
| "transcript le pid ts (Tick t # hs) = Sent (send_v4 le 56 pid (length ts) t) # transcript le pid (ts @ [t]) hs"
| "transcript le pid ts (Answer k h ck junk tv # hs) =
     Printed (Echo 64 (k mod 65536) (Some (unat (h ! 8))) (tv_sub tv (int (fst (ts ! k)), int (snd (ts ! k))))) # transcript le pid ts hs"
| "transcript le pid ts (Foreign pid' len n t h ck junk tv # hs) = transcript le pid ts hs"

lemma readloop_transcript:
  "pid < 65536 \<Longrightarrow> \<forall>t \<in> set ts. time_ok t \<Longrightarrow> happens pid ts hs \<Longrightarrow>
   readloop (\<lambda>n. send_v4 le 56 pid n) (proc_v4 le verbose pid) (events le pid ts hs) (length ts) = (transcript le pid ts hs, True)"
proof (induction le pid ts hs rule: transcript.induct)
  case (2 le pid ts t hs)
  have "\<forall>x \<in> set (ts @ [t]). time_ok x" "happens pid (ts @ [t]) hs" using 2(3,4) by auto
  from 2(1) [OF 2(2) this] show ?case by simp
next
  case (3 le pid ts k h ck junk tv hs)
  have k: "k < length ts" "reply_ok h ck" "happens pid ts hs" using 3(4) by auto
  then have t: "fst (ts ! k) < 2 ^ 64" "snd (ts ! k) < 2 ^ 64" using 3(3) by (auto simp: time_ok_def)
  have d: "16 \<le> (56 :: nat)" by simp
  have r: "readloop (\<lambda>n. send_v4 le 56 pid n) (proc_v4 le verbose pid) (events le pid ts hs) (length ts) = (transcript le pid ts hs, True)"
    by (rule 3(1) [OF 3(2,3) k(3)])
  show ?case using proc_v4_reply [OF k(2) 3(2) t d, of le verbose pid k junk tv] r by simp
next
  case (4 le pid ts pid' len n t h ck junk tv hs)
  have f: "pid' \<noteq> pid" "pid' < 65536" "16 \<le> len" "fst t < 2 ^ 64" "snd t < 2 ^ 64" "reply_ok h ck" "happens pid ts hs"
    using 4(4) by (auto simp: time_ok_def)
  have r: "readloop (\<lambda>n. send_v4 le 56 pid n) (proc_v4 le verbose pid) (events le pid ts hs) (length ts) = (transcript le pid ts hs, True)"
    by (rule 4(1) [OF 4(2,3) f(7)])
  show ?case using proc_v4_reply [OF f(6,2,4,5,3), of le verbose pid n junk tv] f(1) r by simp
qed simp

section \<open>Properties\<close>

text \<open>
  C21.  Each request has its own number and a valid checksum; for each answer to one of them, lost,
  repeated or out of order as they may be, the program prints its number and the time since just that
  request was sent, and it prints nothing for the answers to other processes.
\<close>

theorem ping_session:
  assumes "pid < 65536" "time_ok t" "happens pid [t] hs"
  shows "ping_v4 le verbose pid t (events le pid [t] hs) = (Sent (send_v4 le 56 pid 0 t) # transcript le pid [t] hs, True)
    \<and> in_cksum le (send_v4 le 56 pid n tn) = 0"
proof -
  have "happens pid [] (Tick t # hs)" using assms by simp
  from readloop_transcript [OF assms(1) _ this, of le verbose]
  have "readloop (\<lambda>n. send_v4 le 56 pid n) (proc_v4 le verbose pid) (Alrm t # events le pid [t] hs) 0 = (Sent (send_v4 le 56 pid 0 t) # transcript le pid [t] hs, True)"
    by simp
  then show ?thesis using send_v4_valid [of 56] unfolding ping_v4_def by simp
qed

definition sample_h :: bytes where
  "sample_h = [0x45, 0, 0, 84, 0, 0, 0, 0, 60, 1, 0, 0, 10, 0, 0, 2, 10, 0, 0, 1]"

text \<open>The answer to the second request comes before that to the first.\<close>

theorem ping_session_witness:
  "fst (ping_v4 True False 7 (5, 0) (events True 7 [(5, 0)]
      [Tick (6, 0), Answer 1 sample_h [0, 0] (\<lambda>_. 0) (6, 20), Answer 0 sample_h [0, 0] (\<lambda>_. 0) (6, 30)]))
   = [Sent (send_v4 True 56 7 0 (5, 0)), Sent (send_v4 True 56 7 1 (6, 0)), Printed (Echo 64 1 (Some 60) (0, 20)), Printed (Echo 64 0 (Some 60) (1, 30))]"
proof -
  let ?hs = "[Tick (6, 0), Answer 1 sample_h [0, 0] (\<lambda>_. 0) (6, 20), Answer 0 sample_h [0, 0] (\<lambda>_. 0) (6, 30)]"
  have ok: "reply_ok sample_h [0, 0]" by (simp add: reply_ok_def sample_h_def ip_header_def header_proto_def IPPROTO_ICMP_def)
  have tok: "time_ok (5, 0)" "time_ok (6, 0)" by (simp_all add: time_ok_def)
  have h: "happens 7 [(5, 0)] ?hs" using ok tok by simp
  have p: "(7 :: nat) < 65536" by simp
  have e: "transcript True 7 [(5, 0)] ?hs = [Sent (send_v4 True 56 7 1 (6, 0)), Printed (Echo 64 1 (Some 60) (0, 20)), Printed (Echo 64 0 (Some 60) (1, 30))]"
    by (simp add: tv_sub_def sample_h_def)
  show ?thesis using ping_session [OF p tok(1) h, of True False] unfolding e by simp
qed

text \<open>
  With a \<open>timeval\<close> of 16 bytes a reply must have 24 bytes to hold one: 16 are asked for, and the time is
  then partly what the buffer held before.
\<close>

lemma proc_v4_short:
  "proc_v4 True False 7 (sample_h @ [0, 0, 0, 0, 7, 0, 0, 0] @ replicate 8 0) junk tv
   = Some (Echo 16 0 (Some 60) (tv_sub tv (0, int (get_num True (\<lambda>k. junk (36 + k)) 0 8))))"
proof -
  define b where "b = buffer (sample_h @ [0, 0, 0, 0, 7, 0, 0, 0] @ replicate 8 0) junk"
  have "field b 28 8 = replicate 8 0" by (rule replicate_eqI) (auto simp: b_def field_def buffer_def sample_h_def nth_append nth_Cons')
  then have "get_num True b 28 8 = 0" by (simp add: get_num_def numeral_eq_Suc)
  moreover have f: "field b 36 8 = field (\<lambda>k. junk (36 + k)) 0 8"
    by (simp add: field_def b_def buffer_def sample_h_def upt_rec)
  moreover have "get_num True b 36 8 = get_num True (\<lambda>k. junk (36 + k)) 0 8"
    using f by (simp add: get_num_def)
  ultimately show ?thesis
    by (simp add: proc_v4_def get_timeval_def b_def [symmetric] Let_def)
      (simp add: b_def ip_hl_def ip_p_def buffer_def sample_h_def IPPROTO_ICMP_def ICMP_ECHOREPLY_def get16_def unat_half)
qed

end
