(* ===== verification/Sock_Loop.thy ===== *)
theory Sock_Loop
  imports Prelude
begin

text \<open>
  The copying loop of the program \<open>unpv13e/sock\<close> (\<open>loop.c\<close>), from standard input to the socket and from
  the socket to standard output, with the conversion of line ends (\<open>crlf.c\<close>).  The case of a UDP server,
  which prints who sends, is left out.
\<close>

definition CR :: char where "CR = CHR 0x0D"
definition LF :: char where "LF = CHR 0x0A"

lemma CR_LF [simp]: "CR \<noteq> LF" "LF \<noteq> CR"
  by (simp_all add: CR_def LF_def)

section \<open>Line ends\<close>

text \<open>The result is what is stored at \<open>dst\<close>; its length is the result of the function.\<close>

fun add_loop :: "nat \<Rightarrow> nat \<Rightarrow> string \<Rightarrow> abort + string" where
  "add_loop dstsize lenout [] = Inr []"
| "add_loop dstsize lenout (c # src) =
     (if c = LF then
        if lenout + 1 \<ge> dstsize then Inl (Err_quit ''crlf_add: destination not big enough'')
        else (case add_loop dstsize (lenout + 1) src of Inl e \<Rightarrow> Inl e | Inr d \<Rightarrow> Inr (CR # LF # d))
      else (case add_loop dstsize lenout src of Inl e \<Rightarrow> Inl e | Inr d \<Rightarrow> Inr (c # d)))"

definition crlf_add :: "nat \<Rightarrow> string \<Rightarrow> abort + string" where
  "crlf_add dstsize src =
     (if length src > dstsize then Inl (Err_quit ''crlf_add: destination not big enough'')
      else add_loop dstsize (length src) src)"

fun strip_loop :: "nat \<Rightarrow> nat \<Rightarrow> string \<Rightarrow> abort + string" where
  "strip_loop dstsize lenout [] = Inr []"
| "strip_loop dstsize lenout (c # src) =
     (if c \<noteq> CR then
        if lenout + 1 \<ge> dstsize then Inl (Err_quit ''crlf_strip: destination not big enough'')
        else (case strip_loop dstsize (lenout + 1) src of Inl e \<Rightarrow> Inl e | Inr d \<Rightarrow> Inr (c # d))
      else strip_loop dstsize lenout src)"

definition crlf_strip :: "nat \<Rightarrow> string \<Rightarrow> abort + string" where
  "crlf_strip dstsize src = strip_loop dstsize 0 src"

section \<open>The loop\<close>

text \<open>
  \<open>opts\<close>: convert line ends, shut down one direction at the end of input, and the sizes of the buffers.
  In a round \<open>select\<close> reports what is ready, and a read returns at most \<open>readlen\<close> bytes, none at the
  end, \<open>None\<close> for an error; the writes say whether they succeed.
\<close>

record opts =
  crlf :: bool
  halfclose :: bool
  readlen :: nat
  writelen :: nat

record round =
  r_stdin :: "string option option"
  r_sock :: "string option option"
  r_write :: bool
  r_writen :: bool

record state =
  stdineof :: bool
  to_sock :: string
  to_stdout :: string
  closed :: bool

definition loop_start :: state where
  "loop_start = \<lparr>stdineof = False, to_sock = [], to_stdout = [], closed = False\<rparr>"

text \<open>What a half of the round leads to: on to the next test, back to \<open>select\<close>, or out of the loop.\<close>

datatype flow = Go | Continue | Break

definition convert :: "bool \<Rightarrow> (string \<Rightarrow> abort + string) \<Rightarrow> string \<Rightarrow> abort + string" where
  "convert on f buf = (if on then f buf else Inr buf)"

definition from_stdin :: "opts \<Rightarrow> round \<Rightarrow> (state, flow) prog" where
  "from_stdin o' x s =
     (if stdineof s then Ret Go s
      else case r_stdin x of
        None \<Rightarrow> Ret Go s
      | Some None \<Rightarrow> Abort (Err_sys ''read error from stdin'') s
      | Some (Some buf) \<Rightarrow>
        if buf = [] then if halfclose o' then Ret Continue (s\<lparr>stdineof := True\<rparr>) else Ret Break s
        else case convert (crlf o') (crlf_add (writelen o')) buf of
          Inl e \<Rightarrow> Abort e s
        | Inr w \<Rightarrow> if r_write x then Ret Go (s\<lparr>to_sock := to_sock s @ w\<rparr>) else Abort (Err_sys ''write error'') s)"

definition from_sock :: "opts \<Rightarrow> round \<Rightarrow> (state, flow) prog" where
  "from_sock o' x s =
     (case r_sock x of
        None \<Rightarrow> Ret Go s
      | Some None \<Rightarrow> Abort (Err_sys ''read error'') s
      | Some (Some buf) \<Rightarrow>
        if buf = [] then Ret Break s
        else case convert (crlf o') (crlf_strip (writelen o')) buf of
          Inl e \<Rightarrow> Abort e s
        | Inr w \<Rightarrow> if r_writen x then Ret Go (s\<lparr>to_stdout := to_stdout s @ w\<rparr>) else Abort (Err_sys ''writen error to stdout'') s)"

fun loop :: "opts \<Rightarrow> round list \<Rightarrow> (state, unit) prog" where
  "loop o' [] s = Ret () s"
| "loop o' (x # xs) s =
     (case from_stdin o' x s of
        Abort e s \<Rightarrow> Abort e s
      | Ret Break s \<Rightarrow> Ret () (s\<lparr>closed := True\<rparr>)
      | Ret Continue s \<Rightarrow> loop o' xs s
      | Ret Go s \<Rightarrow>
        (case from_sock o' x s of
           Abort e s \<Rightarrow> Abort e s
         | Ret Go s \<Rightarrow> loop o' xs s
         | Ret Continue s \<Rightarrow> loop o' xs s
         | Ret Break s \<Rightarrow> Ret () (s\<lparr>closed := True\<rparr>)))"

section \<open>What the conversions compute\<close>

definition expand :: "string \<Rightarrow> string" where
  "expand s = concat (map (\<lambda>c. if c = LF then [CR, LF] else [c]) s)"

definition squeeze :: "string \<Rightarrow> string" where
  "squeeze s = filter (\<lambda>c. c \<noteq> CR) s"

lemma expand_simps [simp]: "expand [] = []" "expand (c # s) = (if c = LF then [CR, LF] else [c]) @ expand s" "expand (s @ t) = expand s @ expand t"
  by (simp_all add: expand_def)

lemma squeeze_simps [simp]: "squeeze [] = []" "squeeze (c # s) = (if c = CR then [] else [c]) @ squeeze s" "squeeze (s @ t) = squeeze s @ squeeze t"
  by (simp_all add: squeeze_def)

lemma length_expand: "length (expand s) = length s + count_list s LF"
  by (induction s) auto

lemma length_squeeze: "length (squeeze s) \<le> length s"
  by (simp add: squeeze_def)

lemma add_loop: "add_loop n l s = (if count_list s LF = 0 \<or> l + count_list s LF < n then Inr (expand s)
    else Inl (Err_quit ''crlf_add: destination not big enough''))"
  by (induction s arbitrary: l) auto

lemma strip_loop: "strip_loop n l s = (if squeeze s = [] \<or> l + length (squeeze s) < n then Inr (squeeze s)
    else Inl (Err_quit ''crlf_strip: destination not big enough''))"
  by (induction s arbitrary: l) auto

lemma crlf_add_eq: "crlf_add n s = (if (if count_list s LF = 0 then length s \<le> n else length (expand s) < n) then Inr (expand s)
    else Inl (Err_quit ''crlf_add: destination not big enough''))"
  by (auto simp: crlf_add_def add_loop length_expand)

lemma squeeze_expand: "squeeze (expand s) = squeeze s"
  by (induction s) auto

section \<open>Properties\<close>

text \<open>
  Whenever \<open>crlf_add\<close> and \<open>crlf_strip\<close> do not end the program, what they store fits, and text
  without carriage returns comes back from the two unchanged.
\<close>

theorem crlf_roundtrip:
  assumes "crlf_add n s = Inr t" "crlf_strip m t = Inr u"
  shows "length t \<le> n \<and> (u = [] \<or> length u < m) \<and> u = squeeze s \<and> (CR \<notin> set s \<longrightarrow> u = s)"
proof -
  have t: "t = expand s" "length t \<le> n" using assms(1) by (auto simp: crlf_add_eq length_expand split: if_splits)
  moreover have u: "u = squeeze t" "u = [] \<or> length u < m" using assms(2) by (auto simp: crlf_strip_def strip_loop split: if_splits)
  moreover have "CR \<notin> set s \<Longrightarrow> squeeze s = s" by (auto simp: squeeze_def filter_id_conv)
  ultimately show ?thesis using squeeze_expand [of s] by simp
qed

theorem crlf_roundtrip_witness: "squeeze (expand ''a'' @ [LF]) = ''a'' @ [LF]"
proof -
  have "crlf_add 1024 (''a'' @ [LF]) = Inr (''a'' @ [CR, LF])" "crlf_strip 1024 (''a'' @ [CR, LF]) = Inr (''a'' @ [LF])"
    by (simp_all add: crlf_add_def crlf_strip_def CR_def LF_def)
  from crlf_roundtrip [OF this] show ?thesis by (simp add: CR_def LF_def)
qed

text \<open>What was read in the rounds that the loop has gone through, until it ended.\<close>

fun input :: "opts \<Rightarrow> bool \<Rightarrow> round list \<Rightarrow> string \<times> string" where
  "input o' eof [] = ([], [])"
| "input o' eof (x # xs) =
     (case (if eof then None else r_stdin x) of
        Some (Some []) \<Rightarrow> if halfclose o' then input o' True xs else ([], [])
      | i \<Rightarrow>
        let a = (case i of Some (Some b) \<Rightarrow> b | _ \<Rightarrow> []) in
        (case r_sock x of
           Some (Some []) \<Rightarrow> (a, [])
         | Some (Some b) \<Rightarrow> (case input o' eof xs of (p, q) \<Rightarrow> (a @ p, b @ q))
         | _ \<Rightarrow> (case input o' eof xs of (p, q) \<Rightarrow> (a @ p, q))))"

definition sent_as :: "opts \<Rightarrow> string \<Rightarrow> string" where "sent_as o' s = (if crlf o' then expand s else s)"
definition shown_as :: "opts \<Rightarrow> string \<Rightarrow> string" where "shown_as o' s = (if crlf o' then squeeze s else s)"

lemma convert_add: "convert (crlf o') (crlf_add n) buf = Inr w \<Longrightarrow> w = sent_as o' buf"
  by (auto simp: convert_def sent_as_def crlf_add_eq split: if_splits)

lemma convert_strip: "convert (crlf o') (crlf_strip n) buf = Inr w \<Longrightarrow> w = shown_as o' buf"
  by (auto simp: convert_def shown_as_def crlf_strip_def strip_loop split: if_splits)

lemma as_simps [simp]: "sent_as o' [] = []" "sent_as o' (s @ t) = sent_as o' s @ sent_as o' t" "shown_as o' [] = []" "shown_as o' (s @ t) = shown_as o' s @ shown_as o' t"
  by (simp_all add: sent_as_def shown_as_def)

lemma as_Cons [simp]: "sent_as o' (c # b @ q) = sent_as o' (c # b) @ sent_as o' q" "shown_as o' (c # b @ q) = shown_as o' (c # b) @ shown_as o' q"
  using as_simps(2) [of o' "c # b" q] as_simps(4) [of o' "c # b" q] by simp_all

abbreviation copied :: "opts \<Rightarrow> string \<times> string \<Rightarrow> state \<Rightarrow> state \<Rightarrow> bool" where
  "copied o' r s t \<equiv> to_sock t = to_sock s @ sent_as o' (fst r) \<and> to_stdout t = to_stdout s @ shown_as o' (snd r)"

text \<open>The half of a round that reads from the socket, and what follows it.\<close>

definition sock_half :: "opts \<Rightarrow> round \<Rightarrow> round list \<Rightarrow> (state, unit) prog" where
  "sock_half o' x xs s = (case from_sock o' x s of Abort e s \<Rightarrow> Abort e s | Ret Go s \<Rightarrow> loop o' xs s | Ret Continue s \<Rightarrow> loop o' xs s
     | Ret Break s \<Rightarrow> Ret () (s\<lparr>closed := True\<rparr>))"

definition sock_input :: "opts \<Rightarrow> bool \<Rightarrow> round \<Rightarrow> round list \<Rightarrow> string \<times> string" where
  "sock_input o' eof x xs = (case r_sock x of Some (Some []) \<Rightarrow> ([], [])
     | Some (Some b) \<Rightarrow> (case input o' eof xs of (p, q) \<Rightarrow> (p, b @ q)) | _ \<Rightarrow> input o' eof xs)"

lemma sock_half_copies:
  assumes IH: "\<And>s. loop o' xs s = Ret u t \<Longrightarrow> copied o' (input o' (stdineof s) xs) s t"
    and w: "sock_half o' x xs s = Ret u t"
  shows "copied o' (sock_input o' (stdineof s) x xs) s t"
proof (cases "r_sock x")
  case None
  then show ?thesis using w IH [of s] by (simp add: sock_half_def from_sock_def sock_input_def)
next
  case (Some d)
  show ?thesis
  proof (cases d)
    case None
    then show ?thesis using w Some by (simp add: sock_half_def from_sock_def)
  next
    case d: (Some b)
    show ?thesis
    proof (cases b)
      case Nil
      then show ?thesis using w Some d by (auto simp: sock_half_def from_sock_def sock_input_def)
    next
      case (Cons c b')
      then obtain v where v: "convert (crlf o') (crlf_strip (writelen o')) b = Inr v" "r_writen x"
        using w Some d by (auto simp: sock_half_def from_sock_def split: sum.splits if_splits)
      then show ?thesis
        using w Some d Cons IH [of "s\<lparr>to_stdout := to_stdout s @ v\<rparr>"] convert_strip [OF v(1)]
        by (cases "input o' (stdineof s) xs") (simp add: sock_half_def from_sock_def sock_input_def)
    qed
  qed
qed

lemma loop_Cons:
  "loop o' (x # xs) s =
     (case from_stdin o' x s of Abort e s \<Rightarrow> Abort e s | Ret Break s \<Rightarrow> Ret () (s\<lparr>closed := True\<rparr>)
      | Ret Continue s \<Rightarrow> loop o' xs s | Ret Go s \<Rightarrow> sock_half o' x xs s)"
  unfolding loop.simps sock_half_def ..

lemma input_Cons:
  "input o' eof (x # xs) =
     (case (if eof then None else r_stdin x) of
        Some (Some []) \<Rightarrow> if halfclose o' then input o' True xs else ([], [])
      | Some (Some b) \<Rightarrow> (case sock_input o' eof x xs of (p, q) \<Rightarrow> (b @ p, q))
      | _ \<Rightarrow> sock_input o' eof x xs)"
  by (auto simp: sock_input_def Let_def split: option.splits list.splits prod.splits)

lemma loop_copied: "loop o' xs s = Ret u t \<Longrightarrow> copied o' (input o' (stdineof s) xs) s t"
proof (induction xs arbitrary: s)
  case (Cons x xs)
  note half = sock_half_copies [OF Cons.IH]
  show ?case
  proof (cases "stdineof s \<or> r_stdin x = None")
    case True
    then have "from_stdin o' x s = Ret Go s" by (auto simp: from_stdin_def)
    then show ?thesis using Cons.prems half [where x = x and s = s] True unfolding loop_Cons input_Cons by auto
  next
    case False
    then obtain d where d: "r_stdin x = Some d" "\<not> stdineof s" by auto
    show ?thesis
    proof (cases d)
      case None
      then show ?thesis using Cons.prems d unfolding loop_Cons by (simp add: from_stdin_def)
    next
      case b: (Some b)
      show ?thesis
      proof (cases b)
        case Nil
        then show ?thesis using Cons.prems d b Cons.IH [of "s\<lparr>stdineof := True\<rparr>"] unfolding loop_Cons input_Cons
          by (auto simp: from_stdin_def split: if_splits)
      next
        case (Cons c b')
        then obtain v where v: "convert (crlf o') (crlf_add (writelen o')) b = Inr v" "r_write x"
          using \<open>loop o' (x # xs) s = Ret u t\<close> d b unfolding loop_Cons by (auto simp: from_stdin_def split: sum.splits if_splits)
        let ?s = "s\<lparr>to_sock := to_sock s @ v\<rparr>"
        have "from_stdin o' x s = Ret Go ?s" using d b Cons v by (simp add: from_stdin_def)
        then have "copied o' (sock_input o' (stdineof s) x xs) ?s t" using \<open>loop o' (x # xs) s = Ret u t\<close> half [where x = x and s = "?s"] unfolding loop_Cons by simp
        then show ?thesis using d b Cons convert_add [OF v(1)] unfolding input_Cons
          by (cases "sock_input o' (stdineof s) x xs") simp
      qed
    qed
  qed
qed simp

text \<open>
  The loop sends all that was read from standard input, with each line end expanded, and writes
  out all that was read from the socket, without carriage returns, in order and nothing else; after the
  end of the input it goes on with the socket, if it shuts down one direction only.
\<close>

theorem loop_copies:
  assumes "loop o' xs loop_start = Ret u t"
  shows "to_sock t = sent_as o' (fst (input o' False xs)) \<and> to_stdout t = shown_as o' (snd (input o' False xs))"
  using loop_copied [OF assms] by (simp add: loop_start_def)

definition sample :: "round list" where
  "sample = [\<lparr>r_stdin = Some (Some ''GET''), r_sock = None, r_write = True, r_writen = True\<rparr>,
             \<lparr>r_stdin = Some (Some []), r_sock = None, r_write = True, r_writen = True\<rparr>,
             \<lparr>r_stdin = None, r_sock = Some (Some [CHR ''o'', CR, LF]), r_write = True, r_writen = True\<rparr>,
             \<lparr>r_stdin = None, r_sock = Some (Some []), r_write = True, r_writen = True\<rparr>]"

theorem loop_copies_witness:
  "\<exists>t. loop \<lparr>crlf = True, halfclose = True, readlen = 1024, writelen = 1024\<rparr> sample loop_start = Ret () t
     \<and> to_sock t = ''GET'' \<and> to_stdout t = [CHR ''o'', LF]"
proof -
  let ?o = "\<lparr>crlf = True, halfclose = True, readlen = 1024, writelen = 1024\<rparr>"
  have "\<exists>t. loop ?o sample loop_start = Ret () t"
    by (simp add: sample_def loop_start_def from_stdin_def from_sock_def convert_def crlf_add_def crlf_strip_def CR_def LF_def)
  then obtain t where t: "loop ?o sample loop_start = Ret () t" by blast
  have "input ?o False sample = (''GET'', [CHR ''o'', CR, LF])" by (simp add: sample_def)
  then show ?thesis using loop_copies [OF t] t by (simp add: sent_as_def shown_as_def CR_def LF_def)
qed

text \<open>
  With buffers of one size, as they are by default, a full buffer with a line end in it, or any full
  buffer from the socket, ends the program.
\<close>

lemma crlf_full: "length s = n \<Longrightarrow> LF \<in> set s \<Longrightarrow> crlf_add n s = Inl (Err_quit ''crlf_add: destination not big enough'')"
  "length s = n \<Longrightarrow> 0 < n \<Longrightarrow> CR \<notin> set s \<Longrightarrow> crlf_strip n s = Inl (Err_quit ''crlf_strip: destination not big enough'')"
proof -
  show "length s = n \<Longrightarrow> LF \<in> set s \<Longrightarrow> crlf_add n s = Inl (Err_quit ''crlf_add: destination not big enough'')"
    using count_list_0_iff [of s LF] by (auto simp: crlf_add_eq length_expand)
  assume l: "length s = n" "0 < n" "CR \<notin> set s"
  then have "squeeze s = s" by (auto simp: squeeze_def filter_id_conv)
  then show "crlf_strip n s = Inl (Err_quit ''crlf_strip: destination not big enough'')" using l by (auto simp: crlf_strip_def strip_loop)
qed

end
