(* ===== verification/Tell_Wait.thy ===== *)
theory Tell_Wait
  imports Prelude
begin

text \<open>
  The synchronisation of parent and child with signals, \<open>apue.3e/lib/tellwait.c\<close>, and a program that
  uses it again and again, \<open>apue.3e/ipc1/devzero.c\<close>: parent and child take turns to increment a counter
  in shared memory.  \<open>N\<close> is \<open>NLOOPS\<close>.
\<close>

section \<open>The two processes\<close>

text \<open>
  Where a process is: before the update, before the call of \<open>kill\<close>, at the test of \<open>sigflag\<close>, between
  the test and the call of \<open>sigsuspend\<close>, in that call, before \<open>sigflag\<close> is reset, before the old mask is
  restored; \<open>Wrong\<close> is \<open>err_quit\<close>.
\<close>

datatype pc = Update | Tell | Test | Calling | Suspended | Reset | Restore | Done | Wrong

text \<open>\<open>pending\<close>: a signal from the other process waits; \<open>blocked\<close>: the signals are in the mask.\<close>

record process =
  pc :: pc
  idx :: nat
  sigflag :: bool
  pending :: bool
  blocked :: bool

record world =
  counter :: nat
  parent :: process
  child :: process

text \<open>After \<open>TELL_WAIT\<close> and \<open>fork\<close>.\<close>

definition start :: "nat \<Rightarrow> world" where
  "start N = \<lparr>counter = 0,
     parent = \<lparr>pc = Update, idx = 0, sigflag = False, pending = False, blocked = True\<rparr>,
     child = \<lparr>pc = (if 1 < N + 1 then Test else Done), idx = 1, sigflag = False, pending = False, blocked = True\<rparr>\<rparr>"

text \<open>The body of \<open>WAIT_PARENT\<close> and \<open>WAIT_CHILD\<close>, up to the change of the mask.\<close>

inductive wait_step :: "process \<Rightarrow> process \<Rightarrow> bool" where
  w_set: "pc p = Test \<Longrightarrow> sigflag p \<Longrightarrow> wait_step p (p\<lparr>pc := Reset\<rparr>)"
| w_unset: "pc p = Test \<Longrightarrow> \<not> sigflag p \<Longrightarrow> wait_step p (p\<lparr>pc := Calling\<rparr>)"
| w_suspend: "pc p = Calling \<Longrightarrow> wait_step p (p\<lparr>pc := Suspended\<rparr>)"
| w_reset: "pc p = Reset \<Longrightarrow> wait_step p (p\<lparr>sigflag := False, pc := Restore\<rparr>)"

text \<open>
  The handler \<open>sig_usr\<close>: it runs when a signal is pending and not blocked; \<open>sigsuspend\<close> blocks nothing,
  and returns after it.
\<close>

inductive sig_usr :: "process \<Rightarrow> process \<Rightarrow> bool" where
  s_usr: "pending p \<Longrightarrow> \<not> blocked p \<or> pc p = Suspended \<Longrightarrow> pc p \<noteq> Done \<Longrightarrow> pc p \<noteq> Wrong \<Longrightarrow>
     sig_usr p (p\<lparr>pending := False, sigflag := True, pc := (if pc p = Suspended then Test else pc p)\<rparr>)"

inductive parent_step :: "nat \<Rightarrow> world \<Rightarrow> world \<Rightarrow> bool" for N where
  p_update: "pc (parent w) = Update \<Longrightarrow> idx (parent w) < N \<Longrightarrow> counter w = idx (parent w) \<Longrightarrow>
     parent_step N w (w\<lparr>counter := counter w + 1, parent := (parent w)\<lparr>pc := Tell\<rparr>\<rparr>)"
| p_wrong: "pc (parent w) = Update \<Longrightarrow> idx (parent w) < N \<Longrightarrow> counter w \<noteq> idx (parent w) \<Longrightarrow>
     parent_step N w (w\<lparr>counter := counter w + 1, parent := (parent w)\<lparr>pc := Wrong\<rparr>\<rparr>)"
| p_exit: "pc (parent w) = Update \<Longrightarrow> \<not> idx (parent w) < N \<Longrightarrow> parent_step N w (w\<lparr>parent := (parent w)\<lparr>pc := Done\<rparr>\<rparr>)"
| p_tell: "pc (parent w) = Tell \<Longrightarrow> parent_step N w (w\<lparr>parent := (parent w)\<lparr>pc := Test\<rparr>, child := (child w)\<lparr>pending := True\<rparr>\<rparr>)"
| p_restore: "pc (parent w) = Restore \<Longrightarrow>
     parent_step N w (w\<lparr>parent := (parent w)\<lparr>blocked := False, pc := Update, idx := idx (parent w) + 2\<rparr>\<rparr>)"
| p_wait: "wait_step (parent w) p \<Longrightarrow> parent_step N w (w\<lparr>parent := p\<rparr>)"
| p_sig: "sig_usr (parent w) p \<Longrightarrow> parent_step N w (w\<lparr>parent := p\<rparr>)"

inductive child_step :: "nat \<Rightarrow> world \<Rightarrow> world \<Rightarrow> bool" for N where
  c_update: "pc (child w) = Update \<Longrightarrow> counter w = idx (child w) \<Longrightarrow>
     child_step N w (w\<lparr>counter := counter w + 1, child := (child w)\<lparr>pc := Tell\<rparr>\<rparr>)"
| c_wrong: "pc (child w) = Update \<Longrightarrow> counter w \<noteq> idx (child w) \<Longrightarrow>
     child_step N w (w\<lparr>counter := counter w + 1, child := (child w)\<lparr>pc := Wrong\<rparr>\<rparr>)"
| c_tell: "pc (child w) = Tell \<Longrightarrow>
     child_step N w (w\<lparr>child := (child w)\<lparr>pc := (if idx (child w) + 2 < N + 1 then Test else Done), idx := idx (child w) + 2\<rparr>,
       parent := (parent w)\<lparr>pending := True\<rparr>\<rparr>)"
| c_restore: "pc (child w) = Restore \<Longrightarrow> child_step N w (w\<lparr>child := (child w)\<lparr>blocked := False, pc := Update\<rparr>\<rparr>)"
| c_wait: "wait_step (child w) p \<Longrightarrow> child_step N w (w\<lparr>child := p\<rparr>)"
| c_sig: "sig_usr (child w) p \<Longrightarrow> child_step N w (w\<lparr>child := p\<rparr>)"

inductive step :: "nat \<Rightarrow> world \<Rightarrow> world \<Rightarrow> bool" for N where
  s_parent: "parent_step N w w' \<Longrightarrow> step N w w'"
| s_child: "child_step N w w' \<Longrightarrow> step N w w'"

inductive reachable :: "nat \<Rightarrow> world \<Rightarrow> bool" for N where
  r_start: "reachable N (start N)"
| r_step: "reachable N w \<Longrightarrow> step N w w' \<Longrightarrow> reachable N w'"

section \<open>Whose turn it is\<close>

text \<open>
  There is one token: a process has it, or it is on its way as a signal, which is pending or has set
  \<open>sigflag\<close>.
\<close>

definition has_turn :: "process \<Rightarrow> bool" where
  "has_turn p \<longleftrightarrow> pc p = Reset \<and> sigflag p \<and> \<not> pending p \<or> pc p \<in> {Restore, Update, Tell} \<and> \<not> sigflag p \<and> \<not> pending p"

definition waits :: "process \<Rightarrow> bool" where
  "waits p \<longleftrightarrow> pc p \<in> {Test, Calling, Suspended, Done} \<and> \<not> sigflag p \<and> \<not> pending p"

definition signalled :: "process \<Rightarrow> bool" where
  "signalled p \<longleftrightarrow> pc p \<in> {Test, Calling, Suspended} \<and> sigflag p \<noteq> pending p"

definition active :: "process \<Rightarrow> bool" where
  "active p \<longleftrightarrow> has_turn p \<or> signalled p"

definition parent_count :: "world \<Rightarrow> bool" where
  "parent_count w \<longleftrightarrow>
     (if pc (parent w) = Update then counter w = idx (parent w) \<and> idx (child w) = idx (parent w) + 1
      else if pc (parent w) = Tell then counter w = idx (parent w) + 1 \<and> idx (child w) = idx (parent w) + 1
      else counter w = idx (parent w) + 2 \<and> idx (child w) = idx (parent w) + 3)"

definition child_count :: "world \<Rightarrow> bool" where
  "child_count w \<longleftrightarrow> idx (child w) = idx (parent w) + 1 \<and> counter w = (if pc (child w) = Tell then idx (child w) + 1 else idx (child w))"

definition turn_inv :: "nat \<Rightarrow> world \<Rightarrow> bool" where
  "turn_inv N w \<longleftrightarrow>
     (active (parent w) \<and> waits (child w) \<and> parent_count w
        \<and> (pc (child w) = Done \<longleftrightarrow> \<not> idx (child w) < N + 1) \<and> (pc (parent w) = Tell \<longrightarrow> idx (parent w) < N)
      \<or> waits (parent w) \<and> pc (parent w) \<noteq> Done \<and> active (child w) \<and> child_count w \<and> idx (parent w) < N
      \<or> pc (parent w) = Done \<and> pc (child w) = Done \<and> counter w = idx (parent w))"

lemma turn_inv_start: "turn_inv N (start N)"
  by (simp add: turn_inv_def start_def active_def has_turn_def waits_def parent_count_def)

inductive_cases wait_stepE: "wait_step p q"
inductive_cases sig_usrE: "sig_usr p q"
inductive_cases parent_stepE: "parent_step N w w'"
inductive_cases child_stepE: "child_step N w w'"
inductive_cases stepE: "step N w w'"

lemma wait_step_turn:
  assumes "wait_step p q"
  shows "active p \<Longrightarrow> active q" "waits p \<Longrightarrow> waits q" "idx q = idx p"
    and "pc q = Update \<longleftrightarrow> pc p = Update" "pc q = Tell \<longleftrightarrow> pc p = Tell" "pc p \<noteq> Done" "pc q \<noteq> Done" "pc p \<noteq> Wrong"
  using assms by (cases rule: wait_step.cases; fastforce simp: active_def has_turn_def signalled_def waits_def)+

lemma sig_usr_turn:
  assumes "sig_usr p q"
  shows "active p \<Longrightarrow> active q" "waits p \<Longrightarrow> waits q" "idx q = idx p"
    and "pc q = Update \<longleftrightarrow> pc p = Update" "pc q = Tell \<longleftrightarrow> pc p = Tell" "pc p \<noteq> Done" "pc q \<noteq> Done" "pc p \<noteq> Wrong"
  using assms by (auto simp: active_def has_turn_def signalled_def waits_def elim!: sig_usr.cases split: if_splits)

lemma wait_or_signal:
  assumes "wait_step p q \<or> sig_usr p q"
  shows "active p \<Longrightarrow> active q" "waits p \<Longrightarrow> waits q" "idx q = idx p"
    and "pc q = Update \<longleftrightarrow> pc p = Update" "pc q = Tell \<longleftrightarrow> pc p = Tell" "pc p \<noteq> Done" "pc q \<noteq> Done" "pc p \<noteq> Wrong"
  using assms by (auto simp: wait_step_turn [of p q] sig_usr_turn [of p q])

lemma turn_inv_parent_own:
  assumes I: "turn_inv N w" and s: "wait_step (parent w) p \<or> sig_usr (parent w) p"
  shows "turn_inv N (w\<lparr>parent := p\<rparr>)"
  using I wait_or_signal [OF s] unfolding turn_inv_def parent_count_def child_count_def by (elim disjE) simp_all

lemma turn_inv_parent:
  assumes I: "turn_inv N w" and s: "parent_step N w w'"
  shows "turn_inv N w'"
  using s
proof (cases rule: parent_step.cases)
  case p_update
  with I have "active (parent w) \<and> waits (child w) \<and> parent_count w \<and> (pc (child w) = Done \<longleftrightarrow> \<not> idx (child w) < N + 1)"
    by (auto simp: turn_inv_def waits_def)
  then show ?thesis using p_update unfolding p_update(1) turn_inv_def
    by (auto simp: active_def has_turn_def signalled_def waits_def parent_count_def child_count_def)
next
  case p_wrong
  then show ?thesis using I by (auto simp: turn_inv_def waits_def parent_count_def)
next
  case p_exit
  then have "pc (child w) = Done" "counter w = idx (parent w)" using I by (auto simp: turn_inv_def waits_def parent_count_def)
  then show ?thesis unfolding p_exit(1) turn_inv_def by simp
next
  case p_tell
  with I have "active (parent w) \<and> waits (child w) \<and> parent_count w \<and> (pc (child w) = Done \<longleftrightarrow> \<not> idx (child w) < N + 1) \<and> idx (parent w) < N"
    by (auto simp: turn_inv_def waits_def)
  then show ?thesis using p_tell unfolding p_tell(1) turn_inv_def
    by (auto simp: active_def has_turn_def signalled_def waits_def parent_count_def child_count_def)
next
  case p_restore
  with I have "active (parent w) \<and> waits (child w) \<and> parent_count w \<and> (pc (child w) = Done \<longleftrightarrow> \<not> idx (child w) < N + 1)"
    by (auto simp: turn_inv_def waits_def)
  then show ?thesis using p_restore unfolding p_restore(1) turn_inv_def
    by (auto simp: active_def has_turn_def signalled_def waits_def parent_count_def child_count_def)
qed (use I in \<open>auto intro: turn_inv_parent_own\<close>)

lemma turn_inv_child_own:
  assumes I: "turn_inv N w" and s: "wait_step (child w) p \<or> sig_usr (child w) p"
  shows "turn_inv N (w\<lparr>child := p\<rparr>)"
  using I wait_or_signal [OF s] unfolding turn_inv_def parent_count_def child_count_def by (elim disjE) simp_all

lemma turn_inv_child:
  assumes I: "turn_inv N w" and s: "child_step N w w'"
  shows "turn_inv N w'"
  using s
proof (cases rule: child_step.cases)
  case c_update
  with I have "waits (parent w) \<and> pc (parent w) \<noteq> Done \<and> active (child w) \<and> child_count w \<and> idx (parent w) < N"
    by (auto simp: turn_inv_def waits_def)
  then show ?thesis using c_update unfolding c_update(1) turn_inv_def
    by (auto simp: active_def has_turn_def signalled_def waits_def parent_count_def child_count_def)
next
  case c_wrong
  then show ?thesis using I by (auto simp: turn_inv_def waits_def child_count_def)
next
  case c_tell
  with I have "waits (parent w) \<and> pc (parent w) \<noteq> Done \<and> active (child w) \<and> child_count w \<and> idx (parent w) < N"
    by (auto simp: turn_inv_def waits_def)
  then show ?thesis using c_tell unfolding c_tell(1) turn_inv_def
    by (auto simp: active_def has_turn_def signalled_def waits_def parent_count_def child_count_def)
next
  case c_restore
  with I have "waits (parent w) \<and> pc (parent w) \<noteq> Done \<and> active (child w) \<and> child_count w \<and> idx (parent w) < N"
    by (auto simp: turn_inv_def waits_def)
  then show ?thesis using c_restore unfolding c_restore(1) turn_inv_def
    by (auto simp: active_def has_turn_def signalled_def waits_def parent_count_def child_count_def)
qed (use I in \<open>auto intro: turn_inv_child_own\<close>)

lemma turn_inv_reachable: "reachable N w \<Longrightarrow> turn_inv N w"
  by (induction rule: reachable.induct) (auto simp: turn_inv_start elim!: stepE intro: turn_inv_parent turn_inv_child)

text \<open>The parent counts in twos, and leaves the loop at the first index that is not below \<open>N\<close>.\<close>

definition index_inv :: "nat \<Rightarrow> world \<Rightarrow> bool" where
  "index_inv N w \<longleftrightarrow> even (idx (parent w)) \<and> idx (parent w) < N + 2 \<and> (pc (parent w) \<in> {Update, Done} \<or> idx (parent w) < N)
     \<and> (pc (parent w) = Done \<longrightarrow> N \<le> idx (parent w)) \<and> 1 \<le> idx (child w)"

text \<open>Before the first call has restored the mask, a signal is only taken in \<open>sigsuspend\<close>.\<close>

definition mask_inv :: "process \<Rightarrow> bool" where
  "mask_inv p \<longleftrightarrow> (pc p \<in> {Calling, Suspended} \<and> sigflag p \<longrightarrow> \<not> blocked p)"

definition first_wait :: "world \<Rightarrow> bool" where
  "first_wait w \<longleftrightarrow> (blocked (parent w) \<or> 2 \<le> idx (parent w)) \<and> (blocked (child w) \<or> 3 \<le> idx (child w) \<or> pc (child w) \<in> {Update, Tell, Wrong})"

lemma own_steps:
  assumes "wait_step p q \<or> sig_usr p q"
  shows "mask_inv p \<Longrightarrow> mask_inv q" "blocked q = blocked p"
  using assms by (auto simp: mask_inv_def elim!: wait_step.cases sig_usr.cases)

lemma active_pcs: "active p \<Longrightarrow> pc p \<noteq> Done \<and> pc p \<noteq> Wrong"
  by (auto simp: active_def has_turn_def signalled_def)

lemma waits_pcs: "waits p \<Longrightarrow> pc p \<noteq> Update \<and> pc p \<noteq> Wrong"
  by (auto simp: waits_def)

lemma index_inv_reachable: "reachable N w \<Longrightarrow> index_inv N w"
proof (induction rule: reachable.induct)
  case (r_step w w')
  from r_step.hyps(2) show ?case
  proof cases
    case s_parent
    then show ?thesis using r_step.IH
    proof (cases rule: parent_step.cases)
      case (p_wait p)
      then show ?thesis using r_step.IH wait_or_signal(3-8) [of "parent w" p] by (auto simp: index_inv_def)
    next
      case (p_sig p)
      then show ?thesis using r_step.IH wait_or_signal(3-8) [of "parent w" p] by (auto simp: index_inv_def)
    qed (auto simp: index_inv_def)
  next
    case s_child
    then show ?thesis using r_step.IH by (cases rule: child_step.cases) (auto simp: index_inv_def wait_step_turn(3) sig_usr_turn(3))
  qed
qed (simp add: index_inv_def start_def)

lemma masks_reachable: "reachable N w \<Longrightarrow> mask_inv (parent w) \<and> mask_inv (child w)"
proof (induction rule: reachable.induct)
  case (r_step w w')
  from r_step.hyps(2) show ?case
  proof cases
    case s_parent
    then show ?thesis using r_step.IH own_steps(1) by (cases rule: parent_step.cases) (auto simp: mask_inv_def)
  next
    case s_child
    then show ?thesis using r_step.IH own_steps(1) by (cases rule: child_step.cases) (auto simp: mask_inv_def)
  qed
qed (simp add: mask_inv_def start_def)

lemma first_wait_reachable: "reachable N w \<Longrightarrow> first_wait w"
proof (induction rule: reachable.induct)
  case (r_step w w')
  from r_step.hyps(2) show ?case
  proof cases
    case s_parent
    then show ?thesis using r_step.IH
    proof (cases rule: parent_step.cases)
      case (p_wait p)
      then show ?thesis using r_step.IH wait_or_signal(3-8) [of "parent w" p] own_steps(2) by (auto simp: first_wait_def)
    next
      case (p_sig p)
      then show ?thesis using r_step.IH wait_or_signal(3-8) [of "parent w" p] own_steps(2) by (auto simp: first_wait_def)
    qed (auto simp: first_wait_def)
  next
    case s_child
    then show ?thesis using r_step.IH
    proof (cases rule: child_step.cases)
      case (c_wait p)
      then show ?thesis using r_step.IH wait_or_signal(3-8) [of "child w" p] own_steps(2) by (auto simp: first_wait_def)
    next
      case (c_sig p)
      then show ?thesis using r_step.IH wait_or_signal(3-8) [of "child w" p] own_steps(2) by (auto simp: first_wait_def)
    next
      case c_tell
      moreover have "1 \<le> idx (child w)" using index_inv_reachable [OF r_step.hyps(1)] by (simp add: index_inv_def)
      ultimately show ?thesis using r_step.IH by (auto simp: first_wait_def)
    qed (auto simp: first_wait_def)
  qed
qed (simp add: first_wait_def start_def)

section \<open>What the turns guarantee\<close>

text \<open>
  C22.  The updates alternate: in no reachable state does a process find another value in the counter than
  the one it expects, the two processes are never both at the update, and when both have left their loops
  the counter is \<open>N\<close>, or \<open>N + 1\<close> for an odd \<open>N\<close>.
\<close>

theorem devzero_turns:
  assumes "reachable N w"
  shows "pc (parent w) \<noteq> Wrong \<and> pc (child w) \<noteq> Wrong \<and> \<not> (pc (parent w) = Update \<and> pc (child w) = Update)
    \<and> (pc (parent w) = Update \<longrightarrow> counter w = idx (parent w)) \<and> (pc (child w) = Update \<longrightarrow> counter w = idx (child w))
    \<and> (pc (parent w) = Done \<longrightarrow> pc (child w) = Done \<and> counter w = (if even N then N else N + 1))"
proof -
  have fin: "counter w = (if even N then N else N + 1)" if "pc (parent w) = Done" "counter w = idx (parent w)"
  proof -
    have "even (idx (parent w))" "idx (parent w) = N \<or> idx (parent w) = N + 1"
      using index_inv_reachable [OF assms] that(1) by (auto simp: index_inv_def)
    then show ?thesis using that(2) by auto
  qed
  from turn_inv_reachable [OF assms] show ?thesis
    unfolding turn_inv_def
  proof (elim disjE conjE)
    assume "active (parent w)" "waits (child w)" "parent_count w"
    then show ?thesis using active_pcs [of "parent w"] waits_pcs [of "child w"] by (auto simp: parent_count_def)
  next
    assume "waits (parent w)" "pc (parent w) \<noteq> Done" "active (child w)" "child_count w"
    then show ?thesis using active_pcs [of "child w"] waits_pcs [of "parent w"] by (auto simp: child_count_def)
  qed (use fin in auto)
qed

text \<open>A process that can move.\<close>

lemma active_moves:
  assumes "active p" "mask_inv p" "pc p \<notin> {Update, Tell, Restore}" "\<not> (pc p = Suspended \<and> sigflag p)"
  shows "\<exists>q. wait_step p q \<or> sig_usr p q"
proof (cases "pc p")
  case Test
  then show ?thesis by (cases "sigflag p") (blast intro: wait_step.intros)+
next
  case Suspended
  then have "pending p" using assms by (auto simp: active_def has_turn_def signalled_def)
  then show ?thesis using Suspended sig_usr.s_usr [of p] by auto
qed (use assms in \<open>auto simp: active_def has_turn_def signalled_def intro: wait_step.intros\<close>)

lemma parent_moves:
  assumes "active (parent w)" "mask_inv (parent w)" "\<not> (pc (parent w) = Suspended \<and> sigflag (parent w))"
  shows "\<exists>w'. step N w w'"
proof (cases "pc (parent w) \<in> {Update, Tell, Restore}")
  case True
  then show ?thesis by (auto intro: s_parent parent_step.intros) (metis parent_step.intros(1-3) s_parent)
next
  case False
  then show ?thesis using active_moves [OF assms(1,2) False assms(3)] by (blast intro: s_parent p_wait p_sig)
qed

lemma child_moves:
  assumes "active (child w)" "mask_inv (child w)" "\<not> (pc (child w) = Suspended \<and> sigflag (child w))"
  shows "\<exists>w'. step N w w'"
proof (cases "pc (child w) \<in> {Update, Tell, Restore}")
  case True
  then show ?thesis by (auto intro: s_child child_step.intros) (metis child_step.intros(1-2) s_child)
next
  case False
  then show ?thesis using active_moves [OF assms(1,2) False assms(3)] by (blast intro: s_child c_wait c_sig)
qed

text \<open>
  C23.  The only way to hang is the lost signal: a reachable state with no next step is the end of both
  loops, or one process sleeps in \<open>sigsuspend\<close> although \<open>sigflag\<close> is set and its signals are not blocked,
  and then that process has been through \<open>WAIT_PARENT\<close> or \<open>WAIT_CHILD\<close> before.  With \<open>N\<close> at most 2, where
  each process waits once, the only such state is the end.
\<close>

theorem devzero_hangs_only_on_lost_signal:
  assumes "reachable N w" "\<And>w'. \<not> step N w w'"
  shows "pc (parent w) = Done \<and> pc (child w) = Done
    \<or> 2 < N \<and> (\<exists>p. (p = parent w \<and> 2 \<le> idx p \<or> p = child w \<and> 3 \<le> idx p) \<and> pc p = Suspended \<and> sigflag p \<and> \<not> blocked p)"
proof -
  have m: "mask_inv (parent w)" "mask_inv (child w)" and f: "first_wait w" and i: "index_inv N w"
    using assms(1) by (simp_all add: masks_reachable first_wait_reachable index_inv_reachable)
  from turn_inv_reachable [OF assms(1)] show ?thesis
    unfolding turn_inv_def
  proof (elim disjE conjE)
    assume a: "active (parent w)"
    then have "pc (parent w) = Suspended" "sigflag (parent w)"
      using parent_moves [OF a m(1)] assms(2) by blast+
    then show ?thesis using m(1) f i by (auto simp: mask_inv_def first_wait_def index_inv_def)
  next
    assume a: "active (child w)" and n: "idx (parent w) < N" "child_count w"
    then have "pc (child w) = Suspended" "sigflag (child w)"
      using child_moves [OF a m(2)] assms(2) by blast+
    then show ?thesis using m(2) f i n by (auto simp: mask_inv_def first_wait_def index_inv_def child_count_def)
  qed auto
qed

section \<open>The lost signal\<close>

lemma parent_own: "reachable N w \<Longrightarrow> wait_step (parent w) p \<or> sig_usr (parent w) p \<Longrightarrow> reachable N (w\<lparr>parent := p\<rparr>)"
  by (auto intro: r_step s_parent p_wait p_sig)

lemma child_own: "reachable N w \<Longrightarrow> wait_step (child w) p \<or> sig_usr (child w) p \<Longrightarrow> reachable N (w\<lparr>child := p\<rparr>)"
  by (auto intro: r_step s_child c_wait c_sig)

lemmas own_intros = wait_step.intros sig_usr.intros

text \<open>A wait that works: the process is asleep when the signal comes, or not yet.\<close>

inductive own_steps_to :: "process \<Rightarrow> process \<Rightarrow> bool" where
  o_refl: "own_steps_to p p"
| o_step: "own_steps_to p q \<Longrightarrow> wait_step q r \<or> sig_usr q r \<Longrightarrow> own_steps_to p r"

lemma parent_steps: "own_steps_to p q \<Longrightarrow> reachable N w \<Longrightarrow> parent w = p \<Longrightarrow> reachable N (w\<lparr>parent := q\<rparr>)"
proof (induction rule: own_steps_to.induct)
  case (o_step p q r)
  then show ?case using parent_own [of N "w\<lparr>parent := q\<rparr>" r] by simp
next
  case (o_refl p)
  then show ?case by (cases w) auto
qed

lemma child_steps: "own_steps_to p q \<Longrightarrow> reachable N w \<Longrightarrow> child w = p \<Longrightarrow> reachable N (w\<lparr>child := q\<rparr>)"
proof (induction rule: own_steps_to.induct)
  case (o_step p q r)
  then show ?case using child_own [of N "w\<lparr>child := q\<rparr>" r] by simp
next
  case (o_refl p)
  then show ?case by (cases w) auto
qed

lemma wait_works:
  "own_steps_to \<lparr>pc = Test, idx = i, sigflag = False, pending = True, blocked = b\<rparr>
     \<lparr>pc = Restore, idx = i, sigflag = False, pending = False, blocked = b\<rparr>"
proof -
  let ?p = "\<lambda>x f s. \<lparr>pc = x, idx = i, sigflag = f, pending = s, blocked = b\<rparr>"
  have "own_steps_to (?p Test False True) (?p Calling False True)"
    using o_step [OF o_refl [of "?p Test False True"]] w_unset [of "?p Test False True"] by simp
  from o_step [OF this] have "own_steps_to (?p Test False True) (?p Suspended False True)"
    using w_suspend [of "?p Calling False True"] by simp
  from o_step [OF this] have "own_steps_to (?p Test False True) (?p Test True False)"
    using s_usr [of "?p Suspended False True"] by simp
  from o_step [OF this] have "own_steps_to (?p Test False True) (?p Reset True False)"
    using w_set [of "?p Test True False"] by simp
  from o_step [OF this] show ?thesis using w_reset [of "?p Reset True False"] by simp
qed

text \<open>A turn of the parent, of the child, and both waits.\<close>

lemma parent_turn:
  assumes "reachable N \<lparr>counter = i, parent = \<lparr>pc = Update, idx = i, sigflag = False, pending = False, blocked = b\<rparr>, child = c\<rparr>" "i < N"
  shows "reachable N \<lparr>counter = Suc i, parent = \<lparr>pc = Test, idx = i, sigflag = False, pending = False, blocked = b\<rparr>, child = c\<lparr>pending := True\<rparr>\<rparr>"
  using r_step [OF r_step [OF assms(1) s_parent [OF p_update]] s_parent [OF p_tell]] assms(2) by simp

lemma child_wait:
  assumes "reachable N \<lparr>counter = k, parent = p, child = \<lparr>pc = Test, idx = i, sigflag = False, pending = True, blocked = b\<rparr>\<rparr>"
  shows "reachable N \<lparr>counter = k, parent = p, child = \<lparr>pc = Update, idx = i, sigflag = False, pending = False, blocked = False\<rparr>\<rparr>"
  using r_step [OF child_steps [OF wait_works assms] s_child [OF c_restore]] by simp

lemma parent_wait:
  assumes "reachable N \<lparr>counter = k, parent = \<lparr>pc = Test, idx = i, sigflag = False, pending = True, blocked = b\<rparr>, child = c\<rparr>"
  shows "reachable N \<lparr>counter = k, parent = \<lparr>pc = Update, idx = Suc (Suc i), sigflag = False, pending = False, blocked = False\<rparr>, child = c\<rparr>"
  using r_step [OF parent_steps [OF wait_works assms] s_parent [OF p_restore]] by simp

lemma child_turn:
  assumes "reachable N \<lparr>counter = i, parent = p, child = \<lparr>pc = Update, idx = i, sigflag = False, pending = False, blocked = b\<rparr>\<rparr>"
  shows "reachable N \<lparr>counter = Suc i, parent = p\<lparr>pending := True\<rparr>, child = \<lparr>pc = (if Suc (Suc i) < N + 1 then Test else Done), idx = Suc (Suc i),
    sigflag = False, pending = False, blocked = b\<rparr>\<rparr>"
  using r_step [OF r_step [OF assms(1) s_child [OF c_update]] s_child [OF c_tell]] by simp

text \<open>The second wait of the parent: the signal comes between the test and the call.\<close>

lemma signal_too_early:
  "own_steps_to \<lparr>pc = Calling, idx = i, sigflag = False, pending = True, blocked = False\<rparr>
     \<lparr>pc = Suspended, idx = i, sigflag = True, pending = False, blocked = False\<rparr>"
  using o_step [OF o_step [OF o_refl], OF disjI2 [OF s_usr] disjI1 [OF w_suspend],
    of "\<lparr>pc = Calling, idx = i, sigflag = False, pending = True, blocked = False\<rparr>"] by simp

lemma asleep: "own_steps_to \<lparr>pc = Test, idx = i, sigflag = False, pending = False, blocked = b\<rparr>
    \<lparr>pc = Suspended, idx = i, sigflag = False, pending = False, blocked = b\<rparr>"
  using o_step [OF o_step [OF o_refl], OF disjI1 [OF w_unset] disjI1 [OF w_suspend],
    of "\<lparr>pc = Test, idx = i, sigflag = False, pending = False, blocked = b\<rparr>"] by simp

text \<open>
  C24.  The wait can hang: with more than two updates there is a run that ends with the parent asleep in
  \<open>sigsuspend\<close> and \<open>sigflag\<close> set.  \<open>WAIT_CHILD\<close> restored the old mask when it returned the first time, so
  the second signal is not blocked and comes between the test of \<open>sigflag\<close> and the call.
\<close>

theorem devzero_lost_signal:
  assumes "2 < N"
  shows "\<exists>w. reachable N w \<and> (\<forall>w'. \<not> step N w w') \<and> pc (parent w) = Suspended \<and> sigflag (parent w) \<and> \<not> blocked (parent w)
    \<and> counter w = 4"
proof -
  let ?p = "\<lambda>x i f s b. \<lparr>pc = x, idx = i, sigflag = f, pending = s, blocked = b\<rparr>"
  let ?last = "if 5 < Suc N then Test else Done"
  have "reachable N \<lparr>counter = 0, parent = ?p Update 0 False False True, child = ?p Test 1 False False True\<rparr>"
    using r_start [of N] assms by (simp add: start_def)
  from child_wait [OF parent_turn [OF this, simplified]] assms
  have "reachable N \<lparr>counter = 1, parent = ?p Test 0 False False True, child = ?p Update 1 False False False\<rparr>" by simp
  from parent_wait [OF child_turn [OF this, simplified]] assms
  have "reachable N \<lparr>counter = 2, parent = ?p Update 2 False False False, child = ?p Test 3 False False False\<rparr>"
    by (simp add: numeral_eq_Suc)
  from child_wait [OF parent_turn [OF this assms, simplified]]
  have "reachable N \<lparr>counter = 3, parent = ?p Test 2 False False False, child = ?p Update 3 False False False\<rparr>" by simp
  from parent_own [OF this disjI1 [OF w_unset]]
  have "reachable N \<lparr>counter = 3, parent = ?p Calling 2 False False False, child = ?p Update 3 False False False\<rparr>" by simp
  from parent_steps [OF signal_too_early child_turn [OF this, simplified]]
  have r: "reachable N \<lparr>counter = 4, parent = ?p Suspended 2 True False False, child = ?p ?last 5 False False False\<rparr>"
    by (simp add: numeral_eq_Suc)
  let ?w = "\<lparr>counter = 4, parent = ?p Suspended 2 True False False, child = ?p (if 5 < Suc N then Suspended else Done) 5 False False False\<rparr>"
  have "reachable N ?w"
    using r child_steps [OF asleep, of N "\<lparr>counter = 4, parent = ?p Suspended 2 True False False, child = ?p Test 5 False False False\<rparr>"]
    by (cases "5 < Suc N") auto
  moreover have "\<not> step N ?w w'" for w'
    by (auto elim!: step.cases parent_step.cases child_step.cases wait_step.cases sig_usr.cases split: if_splits)
  ultimately show ?thesis by (intro exI [of _ ?w]) simp
qed

section \<open>Witnesses\<close>

lemma devzero_turns_witness: "counter (start 1000) = 0 \<and> pc (child (start 1000)) \<noteq> Wrong"
  using devzero_turns [OF r_start, of 1000] by (simp add: start_def)

lemma devzero_lost_signal_witness: "\<exists>w. reachable 1000 w \<and> (\<forall>w'. \<not> step 1000 w w')"
  using devzero_lost_signal [of 1000] by auto

text \<open>With no update to make the program ends at once.\<close>

lemma end_state: "reachable 0 ((start 0)\<lparr>parent := (parent (start 0))\<lparr>pc := Done\<rparr>\<rparr>)"
  by (rule r_step [OF r_start s_parent [OF p_exit]]) (simp_all add: start_def)

lemma end_state_stuck: "\<not> step 0 ((start 0)\<lparr>parent := (parent (start 0))\<lparr>pc := Done\<rparr>\<rparr>) w'"
  by (auto simp: start_def elim!: step.cases parent_step.cases child_step.cases wait_step.cases sig_usr.cases)

lemma devzero_hangs_only_on_lost_signal_witness:
  "pc (child ((start 0)\<lparr>parent := (parent (start 0))\<lparr>pc := Done\<rparr>\<rparr>)) = Done"
  using devzero_hangs_only_on_lost_signal [OF end_state end_state_stuck] by (simp add: start_def)

end
