(* ===== verification/Web_Nonb.thy ===== *)
theory Web_Nonb
  imports Prelude
begin

text \<open>
  The web client with nonblocking connections, \<open>unpv13e/nonblock/web.c\<close> with \<open>start_connect.c\<close> and
  \<open>write_get_cmd.c\<close>: it fetches the files of a page over several connections at once, with one
  \<open>select\<close>.  The kernel gives a new socket the lowest descriptor that is free.
\<close>

section \<open>The program\<close>

datatype flags = F_NONE | F_CONNECTING | F_READING | F_DONE

record webfile =
  f_fd :: nat
  f_flags :: flags

text \<open>What happens on the connection of a file, for the statements about a run.\<close>

datatype act = Start nat | Failed nat | Get nat | Data nat string | Eof nat

record web =
  files :: "webfile list"
  nconn :: int
  nlefttoconn :: int
  nlefttoread :: int
  maxfd :: int
  rset :: "nat set"
  wset :: "nat set"
  acts :: "act list"

text \<open>
  The outcome of the nonblocking \<open>connect\<close> for each file, and whether the request could be written.
  \<open>round\<close>: what \<open>select\<close> reports, the pending error of each socket and what \<open>read\<close> returns.
\<close>

datatype conn = Established | In_progress | Refused

record net =
  connects :: "nat \<Rightarrow> conn"
  writes :: "nat \<Rightarrow> bool"

record round =
  r_rs :: "nat set"
  r_ws :: "nat set"
  r_error :: "nat \<Rightarrow> bool"
  r_read :: "nat \<Rightarrow> string option"

definition web_start :: "nat \<Rightarrow> web" where
  "web_start n = \<lparr>files = replicate n \<lparr>f_fd = 0, f_flags = F_NONE\<rparr>, nconn = 0, nlefttoconn = int n, nlefttoread = int n,
     maxfd = -1, rset = {}, wset = {}, acts = []\<rparr>"

definition is_open :: "webfile \<Rightarrow> bool" where
  "is_open f \<longleftrightarrow> f_flags f = F_CONNECTING \<or> f_flags f = F_READING"

text \<open>The descriptor that \<open>socket\<close> returns: 0, 1 and 2 are in use.\<close>

definition new_fd :: "webfile list \<Rightarrow> nat" where
  "new_fd fs = hd (filter (\<lambda>d. d \<notin> f_fd ` set (filter is_open fs)) [3 ..< 4 + length fs])"

definition write_get_cmd :: "net \<Rightarrow> nat \<Rightarrow> (web, unit) prog" where
  "write_get_cmd N i s =
     (if \<not> writes N i then Abort (Err_sys ''writen error'') s
      else let f = files s ! i in
        Ret () (s\<lparr>files := (files s)[i := f\<lparr>f_flags := F_READING\<rparr>], rset := insert (f_fd f) (rset s),
          maxfd := max (maxfd s) (int (f_fd f)), acts := acts s @ [Get i]\<rparr>))"

definition start_connect :: "net \<Rightarrow> nat \<Rightarrow> (web, unit) prog" where
  "start_connect N i s =
     (let fd = new_fd (files s); f = files s ! i; s = s\<lparr>files := (files s)[i := f\<lparr>f_fd := fd\<rparr>], acts := acts s @ [Start i]\<rparr> in
      case connects N i of
        Refused \<Rightarrow> Abort (Err_sys ''nonblocking connect error'') s
      | In_progress \<Rightarrow> Ret () (s\<lparr>files := (files s)[i := \<lparr>f_fd = fd, f_flags = F_CONNECTING\<rparr>], rset := insert fd (rset s),
            wset := insert fd (wset s), maxfd := max (maxfd s) (int fd)\<rparr>)
      | Established \<Rightarrow> write_get_cmd N i s)"

text \<open>The search for a file that has not been started.\<close>

definition find_file :: "webfile list \<Rightarrow> nat" where
  "find_file fs = length (takeWhile (\<lambda>f. f_flags f \<noteq> F_NONE) fs)"

lemma start_connect_left: "start_connect N i s = Ret u t \<Longrightarrow> nlefttoconn t = nlefttoconn s"
  by (auto simp: start_connect_def write_get_cmd_def Let_def split: conn.splits if_splits)

function connect_more :: "net \<Rightarrow> int \<Rightarrow> (web, unit) prog" where
  "connect_more N maxnconn s =
     (if \<not> (nconn s < maxnconn \<and> nlefttoconn s > 0) then Ret () s
      else let i = find_file (files s) in
        if i = length (files s) then Abort (Err_quit ''nlefttoconn but nothing found'') s
        else case start_connect N i s of
          Abort e t \<Rightarrow> Abort e t
        | Ret u t \<Rightarrow> connect_more N maxnconn (t\<lparr>nconn := nconn t + 1, nlefttoconn := nlefttoconn t - 1\<rparr>))"
  by pat_completeness auto
termination
  by (relation "measure (\<lambda>(N, m, s). nat (nlefttoconn s))") (auto dest: start_connect_left)

declare connect_more.simps [simp del]

text \<open>One file after \<open>select\<close>; \<open>rs\<close> and \<open>ws\<close> are the sets that it returned.\<close>

definition serve_file :: "net \<Rightarrow> nat set \<Rightarrow> nat set \<Rightarrow> round \<Rightarrow> nat \<Rightarrow> (web, unit) prog" where
  "serve_file N rs ws x i s =
     (let f = files s ! i; fd = f_fd f in
      if f_flags f = F_NONE \<or> f_flags f = F_DONE then Ret () s
      else if f_flags f = F_CONNECTING \<and> (fd \<in> rs \<or> fd \<in> ws) then
        write_get_cmd N i (s\<lparr>acts := acts s @ (if r_error x i then [Failed i] else []), wset := wset s - {fd}\<rparr>)
      else if f_flags f = F_READING \<and> fd \<in> rs then
        (case r_read x i of
           None \<Rightarrow> Abort (Err_sys ''read error'') s
         | Some buf \<Rightarrow>
             if buf = [] then
               Ret () (s\<lparr>acts := acts s @ [Eof i], files := (files s)[i := f\<lparr>f_flags := F_DONE\<rparr>], rset := rset s - {fd},
                 nconn := nconn s - 1, nlefttoread := nlefttoread s - 1\<rparr>)
             else Ret () (s\<lparr>acts := acts s @ [Data i buf]\<rparr>))
      else Ret () s)"

fun serve_files :: "net \<Rightarrow> nat set \<Rightarrow> nat set \<Rightarrow> round \<Rightarrow> nat list \<Rightarrow> (web, unit) prog" where
  "serve_files N rs ws x [] s = Ret () s"
| "serve_files N rs ws x (i # is) s = (case serve_file N rs ws x i s of Abort e t \<Rightarrow> Abort e t | Ret u t \<Rightarrow> serve_files N rs ws x is t)"

text \<open>\<open>select\<close> looks at the descriptors up to \<open>maxfd\<close> that are in its sets.\<close>

definition selected :: "web \<Rightarrow> nat set \<Rightarrow> nat set \<Rightarrow> nat set" where
  "selected s asked ready = Set.filter (\<lambda>fd. int fd < maxfd s + 1) (asked \<inter> ready)"

definition web_round :: "net \<Rightarrow> round \<Rightarrow> (web, unit) prog" where
  "web_round N x s = serve_files N (selected s (rset s) (r_rs x)) (selected s (wset s) (r_ws x)) x [0 ..< length (files s)] s"

text \<open>The result is whether the loop has ended; otherwise the program is in \<open>select\<close>.\<close>

fun web_loop :: "net \<Rightarrow> int \<Rightarrow> round list \<Rightarrow> (web, bool) prog" where
  "web_loop N m xs s =
     (if \<not> nlefttoread s > 0 then Ret True s
      else case connect_more N m s of
        Abort e t \<Rightarrow> Abort e t
      | Ret u t \<Rightarrow>
        (case xs of
           [] \<Rightarrow> Ret False t
         | x # xs \<Rightarrow> (case web_round N x t of Abort e t \<Rightarrow> Abort e t | Ret u t \<Rightarrow> web_loop N m xs t)))"

declare web_loop.simps [simp del]

section \<open>Counting the files\<close>

definition number :: "(webfile \<Rightarrow> bool) \<Rightarrow> webfile list \<Rightarrow> int" where
  "number P fs = int (length (filter P fs))"

lemma number_upd: "i < length fs \<Longrightarrow> number P (fs[i := f]) = number P fs - of_bool (P (fs ! i)) + of_bool (P f)"
proof -
  assume i: "i < length fs"
  have "number P fs = number P (take i fs @ fs ! i # drop (Suc i) fs)" using id_take_nth_drop [OF i] by simp
  then have "number P fs = number P (take i fs) + of_bool (P (fs ! i)) + number P (drop (Suc i) fs)" by (simp add: number_def)
  then show ?thesis using i by (simp add: upd_conv_take_nth_drop number_def)
qed

lemma number_pos: "number P fs > 0 \<longleftrightarrow> (\<exists>i < length fs. P (fs ! i))"
  unfolding number_def of_nat_0_less_iff length_greater_0_conv filter_empty_conv by (metis in_set_conv_nth)

section \<open>The descriptors in use\<close>

definition fds :: "(webfile \<Rightarrow> bool) \<Rightarrow> webfile list \<Rightarrow> nat set" where
  "fds P fs = {f_fd (fs ! i) |i. i < length fs \<and> P (fs ! i)}"

definition apart :: "webfile list \<Rightarrow> bool" where
  "apart fs \<longleftrightarrow> inj_on (\<lambda>i. f_fd (fs ! i)) {i. i < length fs \<and> is_open (fs ! i)}"

definition connecting :: "webfile \<Rightarrow> bool" where
  "connecting f \<longleftrightarrow> f_flags f = F_CONNECTING"

lemma fds_add: "i < length fs \<Longrightarrow> \<not> P (fs ! i) \<Longrightarrow> P f \<Longrightarrow> fds P (fs[i := f]) = insert (f_fd f) (fds P fs)"
  by (auto simp: fds_def nth_list_update)

lemma fds_same: "i < length fs \<Longrightarrow> P (fs ! i) \<longleftrightarrow> P f \<Longrightarrow> (P f \<Longrightarrow> f_fd f = f_fd (fs ! i)) \<Longrightarrow> fds P (fs[i := f]) = fds P fs"
  unfolding fds_def by (rule Collect_cong) (metis length_list_update nth_list_update)

lemma fds_remove:
  assumes "i < length fs" "P (fs ! i)" "\<not> P f" "apart fs" "\<And>f. P f \<Longrightarrow> is_open f"
  shows "fds P (fs[i := f]) = fds P fs - {f_fd (fs ! i)}"
proof -
  have "f_fd (fs ! j) \<noteq> f_fd (fs ! i)" if "j < length fs" "P (fs ! j)" "j \<noteq> i" for j
    using assms that unfolding apart_def inj_on_def by blast
  then have "x \<in> fds P fs - {f_fd (fs ! i)} \<longleftrightarrow> (\<exists>j < length fs. j \<noteq> i \<and> P (fs ! j) \<and> x = f_fd (fs ! j))" for x
    unfolding fds_def by auto
  moreover have "x \<in> fds P (fs[i := f]) \<longleftrightarrow> (\<exists>j < length fs. j \<noteq> i \<and> P (fs ! j) \<and> x = f_fd (fs ! j))" for x
    using assms(1,3) unfolding fds_def mem_Collect_eq length_list_update by (metis nth_list_update)
  ultimately show ?thesis by blast
qed

lemma apart_alt: "apart fs \<longleftrightarrow> (\<forall>j k. j < length fs \<longrightarrow> k < length fs \<longrightarrow> is_open (fs ! j) \<longrightarrow> is_open (fs ! k) \<longrightarrow> f_fd (fs ! j) = f_fd (fs ! k) \<longrightarrow> j = k)"
  by (auto simp: apart_def inj_on_def)

lemma apart_upd: "apart fs \<Longrightarrow> i < length fs \<Longrightarrow> (is_open f \<Longrightarrow> is_open (fs ! i) \<and> f_fd f = f_fd (fs ! i)) \<Longrightarrow> apart (fs[i := f])"
  unfolding apart_alt length_list_update by (metis nth_list_update)

lemma apart_add: "apart fs \<Longrightarrow> i < length fs \<Longrightarrow> f_fd f \<notin> fds is_open fs \<Longrightarrow> apart (fs[i := f])"
  unfolding apart_alt length_list_update fds_def mem_Collect_eq by (metis nth_list_update)

lemma new_fd: "new_fd fs \<notin> fds is_open fs" "3 \<le> new_fd fs"
proof -
  let ?used = "f_fd ` set (filter is_open fs)"
  have "card ?used \<le> length fs"
    using card_image_le [OF finite_set [of "filter is_open fs"], of f_fd] card_length [of "filter is_open fs"] length_filter_le [of is_open fs] by linarith
  moreover have "card (set [3 ..< 4 + length fs]) = length fs + 1" by simp
  ultimately have "\<not> set [3 ..< 4 + length fs] \<subseteq> ?used" using card_mono [of ?used "set [3 ..< 4 + length fs]"] by auto
  then have "filter (\<lambda>d. d \<notin> ?used) [3 ..< 4 + length fs] \<noteq> []" unfolding filter_empty_conv by blast
  then have "new_fd fs \<in> set (filter (\<lambda>d. d \<notin> ?used) [3 ..< 4 + length fs])" unfolding new_fd_def by (rule hd_in_set)
  then show "new_fd fs \<notin> fds is_open fs" "3 \<le> new_fd fs" by (auto simp: fds_def)
qed

section \<open>The invariant\<close>

definition counts_ok :: "web \<Rightarrow> bool" where
  "counts_ok s \<longleftrightarrow> nlefttoconn s = number (\<lambda>f. f_flags f = F_NONE) (files s) \<and> nlefttoread s = number (\<lambda>f. f_flags f \<noteq> F_DONE) (files s)
     \<and> nconn s = number is_open (files s)"

definition sets_ok :: "web \<Rightarrow> bool" where
  "sets_ok s \<longleftrightarrow> rset s = fds is_open (files s) \<and> wset s = fds connecting (files s) \<and> apart (files s) \<and> (\<forall>fd \<in> rset s. int fd \<le> maxfd s)"

text \<open>What has happened on the connection of file \<open>i\<close>.\<close>

fun about :: "nat \<Rightarrow> act \<Rightarrow> bool" where
  "about i (Start j) \<longleftrightarrow> i = j"
| "about i (Failed j) \<longleftrightarrow> i = j"
| "about i (Get j) \<longleftrightarrow> i = j"
| "about i (Data j d) \<longleftrightarrow> i = j"
| "about i (Eof j) \<longleftrightarrow> i = j"

definition fetched :: "nat \<Rightarrow> act list \<Rightarrow> bool" where
  "fetched i as \<longleftrightarrow> (\<exists>e ds. as = Start i # e @ Get i # map (Data i) ds \<and> (e = [] \<or> e = [Failed i]))"

fun life :: "nat \<Rightarrow> flags \<Rightarrow> act list \<Rightarrow> bool" where
  "life i F_NONE as \<longleftrightarrow> as = []"
| "life i F_CONNECTING as \<longleftrightarrow> as = [Start i]"
| "life i F_READING as \<longleftrightarrow> fetched i as"
| "life i F_DONE as \<longleftrightarrow> (\<exists>bs. as = bs @ [Eof i] \<and> fetched i bs)"

definition lives_ok :: "web \<Rightarrow> bool" where
  "lives_ok s \<longleftrightarrow> (\<forall>i < length (files s). life i (f_flags (files s ! i)) (filter (about i) (acts s)))"

definition web_ok :: "web \<Rightarrow> bool" where
  "web_ok s \<longleftrightarrow> counts_ok s \<and> sets_ok s \<and> lives_ok s"

lemma fetched_intros:
  "fetched i [Start i, Get i]" "fetched i [Start i, Failed i, Get i]" "fetched i as \<Longrightarrow> fetched i (as @ [Data i d])"
proof -
  show "fetched i [Start i, Get i]" unfolding fetched_def by (rule exI [of _ "[]"], rule exI [of _ "[]"]) simp
  show "fetched i [Start i, Failed i, Get i]" unfolding fetched_def by (rule exI [of _ "[Failed i]"], rule exI [of _ "[]"]) simp
  assume "fetched i as"
  then obtain e ds where "as = Start i # e @ Get i # map (Data i) ds" "e = [] \<or> e = [Failed i]" unfolding fetched_def by blast
  then show "fetched i (as @ [Data i d])" unfolding fetched_def by (intro exI [of _ e] exI [of _ "ds @ [d]"]) simp
qed

text \<open>One file changes, and some events about it are added.\<close>

lemma lives_upd:
  assumes "lives_ok s" "i < length (files s)" "\<forall>a \<in> set as. about i a"
    and "files t = (files s)[i := f]" "acts t = acts s @ as"
    and "life i (f_flags (files s ! i)) (filter (about i) (acts s)) \<Longrightarrow> life i (f_flags f) (filter (about i) (acts s) @ as)"
  shows "lives_ok t"
proof -
  have o: "filter (about j) as = []" if "j \<noteq> i" for j
  proof -
    have "\<not> about j a" if "about i a" for a using that \<open>j \<noteq> i\<close> by (cases a) auto
    then show ?thesis using assms(3) by (auto simp: filter_empty_conv)
  qed
  have "filter (about i) as = as" using assms(3) by (simp add: filter_id_conv)
  then show ?thesis using assms o by (auto simp: lives_ok_def nth_list_update)
qed

lemma write_get_cmd_ok:
  assumes "write_get_cmd N i s = Ret u t"
  shows "t = s\<lparr>files := (files s)[i := (files s ! i)\<lparr>f_flags := F_READING\<rparr>], rset := insert (f_fd (files s ! i)) (rset s),
    maxfd := max (maxfd s) (int (f_fd (files s ! i))), acts := acts s @ [Get i]\<rparr>"
  using assms by (auto simp: write_get_cmd_def Let_def split: if_splits)

lemma flag_tests [simp]:
  "is_open (f\<lparr>f_flags := F_READING\<rparr>)" "\<not> is_open (f\<lparr>f_flags := F_DONE\<rparr>)" "is_open \<lparr>f_fd = d, f_flags = F_CONNECTING\<rparr>"
  "is_open \<lparr>f_fd = d, f_flags = F_READING\<rparr>" "\<not> connecting (f\<lparr>f_flags := F_READING\<rparr>)" "\<not> connecting (f\<lparr>f_flags := F_DONE\<rparr>)"
  "connecting \<lparr>f_fd = d, f_flags = F_CONNECTING\<rparr>" "\<not> connecting \<lparr>f_fd = d, f_flags = F_READING\<rparr>"
  by (simp_all add: is_open_def connecting_def)

lemma file_upd [simp]: "f\<lparr>f_fd := d, f_flags := g\<rparr> = \<lparr>f_fd = d, f_flags = g\<rparr>" for f :: webfile
  by (cases f) simp

lemma connecting_open: "connecting f \<Longrightarrow> is_open f"
  by (simp add: is_open_def connecting_def)

text \<open>Starting a connection; the count of connections is corrected by the caller.\<close>

lemma start_connect_ok:
  assumes ok: "web_ok s" and i: "i < length (files s)" "f_flags (files s ! i) = F_NONE" and r: "start_connect N i s = Ret u t"
  shows "web_ok (t\<lparr>nconn := nconn t + 1, nlefttoconn := nlefttoconn t - 1\<rparr>) \<and> length (files t) = length (files s) \<and> nconn t = nconn s"
proof -
  let ?fd = "new_fd (files s)"
  have closed: "\<not> is_open (files s ! i)" "\<not> connecting (files s ! i)" using i(2) by (simp_all add: is_open_def connecting_def)
  obtain fl as where f: "fl = F_CONNECTING \<and> as = [Start i] \<or> fl = F_READING \<and> as = [Start i, Get i]"
    and t: "files t = (files s)[i := \<lparr>f_fd = ?fd, f_flags = fl\<rparr>]" "rset t = insert ?fd (rset s)"
      "wset t = (if fl = F_CONNECTING then insert ?fd (wset s) else wset s)" "maxfd t = max (maxfd s) (int ?fd)" "acts t = acts s @ as"
      "nconn t = nconn s" "nlefttoconn t = nlefttoconn s" "nlefttoread t = nlefttoread s"
  proof (cases "connects N i")
    case Established
    show thesis by (rule that [of F_READING "[Start i, Get i]"]) (use r i(1) Established in \<open>auto simp: start_connect_def Let_def dest!: write_get_cmd_ok\<close>)
  next
    case In_progress
    show thesis by (rule that [of F_CONNECTING "[Start i]"]) (use r i(1) In_progress in \<open>auto simp: start_connect_def Let_def\<close>)
  qed (use r in \<open>simp add: start_connect_def Let_def\<close>)
  have "lives_ok t"
    by (rule lives_upd [where i = i and as = as]) (use ok i f t in \<open>auto simp: web_ok_def fetched_intros\<close>)
  moreover have "sets_ok t"
  proof -
    have s: "sets_ok s" using ok by (simp add: web_ok_def)
    have "apart (files t)" unfolding t(1) by (rule apart_add) (use s i new_fd(1) in \<open>auto simp: sets_ok_def\<close>)
    moreover have "fds is_open (files t) = insert ?fd (fds is_open (files s))"
      unfolding t(1) by (subst fds_add) (use f i(1) closed in auto)
    moreover have "fds connecting (files t) = (if fl = F_CONNECTING then insert ?fd (fds connecting (files s)) else fds connecting (files s))"
      unfolding t(1)
    proof (cases "fl = F_CONNECTING")
      case False
      have "fds connecting ((files s)[i := \<lparr>f_fd = ?fd, f_flags = fl\<rparr>]) = fds connecting (files s)"
        by (rule fds_same) (use False f i(1) closed in auto)
      then show "fds connecting ((files s)[i := \<lparr>f_fd = ?fd, f_flags = fl\<rparr>])
        = (if fl = F_CONNECTING then insert ?fd (fds connecting (files s)) else fds connecting (files s))" using False by simp
    qed (use i(1) closed in \<open>simp add: fds_add\<close>)
    ultimately show ?thesis using s by (auto simp: sets_ok_def t le_max_iff_disj)
  qed
  moreover have "counts_ok (t\<lparr>nconn := nconn t + 1, nlefttoconn := nlefttoconn t - 1\<rparr>)"
    using ok i f closed by (auto simp: web_ok_def counts_ok_def t number_upd)
  ultimately have "web_ok (t\<lparr>nconn := nconn t + 1, nlefttoconn := nlefttoconn t - 1\<rparr>)" by (simp add: web_ok_def sets_ok_def lives_ok_def)
  then show ?thesis using t(1,6) by simp
qed

text \<open>What serving a file does: nothing, the request, the end of the file, or data.\<close>

definition counters :: "web \<Rightarrow> int \<times> int \<times> int" where
  "counters s = (nconn s, nlefttoconn s, nlefttoread s)"

lemma serve_file_cases:
  assumes "serve_file N rs ws x i s = Ret u t"
  obtains "t = s"
  | (get) e where "f_flags (files s ! i) = F_CONNECTING" "e = [] \<or> e = [Failed i]" "files t = (files s)[i := (files s ! i)\<lparr>f_flags := F_READING\<rparr>]"
      "rset t = insert (f_fd (files s ! i)) (rset s)" "maxfd t = max (maxfd s) (int (f_fd (files s ! i)))"
      "wset t = wset s - {f_fd (files s ! i)}" "acts t = acts s @ e @ [Get i]" "counters t = counters s"
  | (eof) "f_flags (files s ! i) = F_READING" "files t = (files s)[i := (files s ! i)\<lparr>f_flags := F_DONE\<rparr>]"
      "rset t = rset s - {f_fd (files s ! i)}" "maxfd t = maxfd s" "wset t = wset s" "acts t = acts s @ [Eof i]"
      "counters t = (nconn s - 1, nlefttoconn s, nlefttoread s - 1)"
  | (dat) d where "f_flags (files s ! i) = F_READING" "files t = files s" "rset t = rset s" "maxfd t = maxfd s" "wset t = wset s"
      "acts t = acts s @ [Data i d]" "counters t = counters s"
proof (cases "f_flags (files s ! i)")
  case F_CONNECTING
  show thesis
  proof (cases "f_fd (files s ! i) \<in> rs \<or> f_fd (files s ! i) \<in> ws")
    case True
    show thesis by (rule get [OF F_CONNECTING, of "if r_error x i then [Failed i] else []"])
        (use assms F_CONNECTING True in \<open>auto simp: serve_file_def Let_def counters_def dest!: write_get_cmd_ok\<close>)
  next
    case False
    then show thesis using assms F_CONNECTING that(1) by (simp add: serve_file_def Let_def)
  qed
next
  case F_READING
  show thesis
  proof (cases "f_fd (files s ! i) \<in> rs")
    case True
    then obtain buf where b: "r_read x i = Some buf" using assms F_READING by (auto simp: serve_file_def Let_def split: option.splits)
    show thesis
    proof (cases "buf = []")
      case e: True
      show thesis by (rule eof [OF F_READING]) (use assms F_READING True b e in \<open>auto simp: serve_file_def Let_def counters_def\<close>)
    next
      case e: False
      show thesis by (rule dat [OF F_READING, of buf]) (use assms F_READING True b e in \<open>auto simp: serve_file_def Let_def counters_def\<close>)
    qed
  next
    case False
    then show thesis using assms F_READING that(1) by (simp add: serve_file_def Let_def)
  qed
qed (use assms that(1) in \<open>simp_all add: serve_file_def Let_def\<close>)

lemma serve_file_ok:
  assumes ok: "web_ok s" and i: "i < length (files s)" and r: "serve_file N rs ws x i s = Ret u t"
  shows "web_ok t \<and> length (files t) = length (files s) \<and> nconn t \<le> nconn s"
  using r
proof (cases rule: serve_file_cases)
  have s: "sets_ok s" "lives_ok s" "counts_ok s" using ok by (simp_all add: web_ok_def)
  let ?f = "files s ! i"
  {
    case (get e)
    have o: "is_open ?f" "connecting ?f" using get by (simp_all add: is_open_def connecting_def)
    have "lives_ok t" by (rule lives_upd [OF s(2) i _ get(3,7)]) (use get in \<open>auto simp: fetched_intros\<close>)
    moreover have "sets_ok t"
    proof -
      have "fds connecting ((files s)[i := ?f\<lparr>f_flags := F_READING\<rparr>]) = fds connecting (files s) - {f_fd ?f}"
        by (rule fds_remove [where P = connecting, OF i o(2)]) (use s in \<open>auto simp: sets_ok_def connecting_open\<close>)
      moreover have "apart ((files s)[i := ?f\<lparr>f_flags := F_READING\<rparr>])" by (rule apart_upd) (use s i o in \<open>auto simp: sets_ok_def\<close>)
      moreover have "fds is_open ((files s)[i := ?f\<lparr>f_flags := F_READING\<rparr>]) = fds is_open (files s)" by (rule fds_same) (use i o in auto)
      moreover have "f_fd ?f \<in> fds is_open (files s)" using i o by (auto simp: fds_def)
      ultimately show ?thesis using s(1) get by (auto simp: sets_ok_def)
    qed
    moreover have "counts_ok t" using s(3) get i o by (auto simp: counts_ok_def counters_def number_upd)
    ultimately show ?thesis using get by (simp add: web_ok_def counters_def)
  next
    case eof
    have o: "is_open ?f" "\<not> connecting ?f" using eof by (simp_all add: is_open_def connecting_def)
    have "lives_ok t" by (rule lives_upd [OF s(2) i _ eof(2,6)]) (use eof in auto)
    moreover have "sets_ok t"
    proof -
      have "fds is_open ((files s)[i := ?f\<lparr>f_flags := F_DONE\<rparr>]) = fds is_open (files s) - {f_fd ?f}"
        by (rule fds_remove [where P = is_open, OF i o(1)]) (use s in \<open>auto simp: sets_ok_def\<close>)
      moreover have "apart ((files s)[i := ?f\<lparr>f_flags := F_DONE\<rparr>])" by (rule apart_upd) (use s i o in \<open>auto simp: sets_ok_def\<close>)
      moreover have "fds connecting ((files s)[i := ?f\<lparr>f_flags := F_DONE\<rparr>]) = fds connecting (files s)" by (rule fds_same) (use i o in auto)
      ultimately show ?thesis using s(1) eof by (auto simp: sets_ok_def)
    qed
    moreover have "counts_ok t" using s(3) eof i o by (auto simp: counts_ok_def counters_def number_upd)
    ultimately show ?thesis using eof by (simp add: web_ok_def counters_def)
  next
    case (dat d)
    have "lives_ok t"
      by (rule lives_upd [OF s(2) i, where as = "[Data i d]" and f = ?f]) (use dat in \<open>auto simp: fetched_intros\<close>)
    then show ?thesis using dat s by (auto simp: web_ok_def sets_ok_def counts_ok_def counters_def)
  }
qed (use ok in simp)

section \<open>Runs\<close>

lemma takeWhile_shorter: "\<exists>x \<in> set xs. \<not> P x \<Longrightarrow> length (takeWhile P xs) < length xs"
  by (induction xs) auto

lemma find_file_some:
  assumes "web_ok s" "nlefttoconn s > 0"
  shows "find_file (files s) < length (files s)" "f_flags (files s ! find_file (files s)) = F_NONE"
proof -
  have "\<exists>i < length (files s). f_flags (files s ! i) = F_NONE" using assms by (simp add: web_ok_def counts_ok_def number_pos)
  then have "\<exists>f \<in> set (files s). \<not> f_flags f \<noteq> F_NONE" by (metis nth_mem)
  then show l: "find_file (files s) < length (files s)" unfolding find_file_def by (rule takeWhile_shorter)
  then show "f_flags (files s ! find_file (files s)) = F_NONE"
    unfolding find_file_def using nth_length_takeWhile by fastforce
qed

text \<open>No process end but for a system call that fails.\<close>

definition fine :: "int \<Rightarrow> nat \<Rightarrow> (web, 'a) outcome \<Rightarrow> bool" where
  "fine m n r \<longleftrightarrow> (case r of Abort e t \<Rightarrow> \<exists>msg. e = Err_sys msg | Ret u t \<Rightarrow> web_ok t \<and> length (files t) = n \<and> nconn t \<le> max 0 m)"

lemma write_get_cmd_abort: "write_get_cmd N i s = Abort e t \<Longrightarrow> \<exists>msg. e = Err_sys msg"
  by (auto simp: write_get_cmd_def Let_def split: if_splits)

lemma start_connect_abort: "start_connect N i s = Abort e t \<Longrightarrow> \<exists>msg. e = Err_sys msg"
  by (auto simp: start_connect_def Let_def split: conn.splits dest: write_get_cmd_abort)

lemma serve_file_abort: "serve_file N rs ws x i s = Abort e t \<Longrightarrow> \<exists>msg. e = Err_sys msg"
  by (auto simp: serve_file_def Let_def split: if_splits option.splits dest: write_get_cmd_abort)

lemma connect_more_fine: "web_ok s \<Longrightarrow> length (files s) = n \<Longrightarrow> nconn s \<le> max 0 m \<Longrightarrow> fine m n (connect_more N m s)
    \<and> (\<forall>t u. connect_more N m s = Ret u t \<longrightarrow> \<not> (nconn t < m \<and> nlefttoconn t > 0) \<and> nlefttoread t = nlefttoread s)"
proof (induction N m s rule: connect_more.induct)
  case (1 N m s)
  show ?case
  proof (cases "nconn s < m \<and> nlefttoconn s > 0")
    case False
    then show ?thesis using 1(2-4) connect_more.simps [of N m s] by (auto simp: fine_def)
  next
    case True
    note f = find_file_some [OF 1(2)]
    have i: "find_file (files s) < length (files s)" "f_flags (files s ! find_file (files s)) = F_NONE" using f True by simp_all
    show ?thesis
    proof (cases "start_connect N (find_file (files s)) s")
      case (Abort e t)
      then show ?thesis using connect_more.simps [of N m s] True i(1) start_connect_abort [OF Abort] by (auto simp: fine_def Let_def)
    next
      case (Ret u t)
      let ?t = "t\<lparr>nconn := nconn t + 1, nlefttoconn := nlefttoconn t - 1\<rparr>"
      have ok: "web_ok ?t" "length (files ?t) = n" "nconn ?t \<le> max 0 m"
        using start_connect_ok [OF 1(2) i Ret] 1(3) True by auto
      have "nlefttoread t = nlefttoread s" using Ret by (auto simp: start_connect_def write_get_cmd_def Let_def split: conn.splits if_splits)
      moreover have "connect_more N m s = connect_more N m ?t" using connect_more.simps [of N m s] True i(1) Ret by (simp add: Let_def)
      ultimately show ?thesis using 1(1) [OF _ refl _ Ret ok] True i(1) by auto
    qed
  qed
qed

lemma serve_files_fine:
  "web_ok s \<Longrightarrow> length (files s) = n \<Longrightarrow> nconn s \<le> max 0 m \<Longrightarrow> \<forall>i \<in> set is. i < n \<Longrightarrow> fine m n (serve_files N rs ws x is s)"
proof (induction "is" arbitrary: s)
  case (Cons i "is")
  show ?case
  proof (cases "serve_file N rs ws x i s")
    case (Abort e t)
    then show ?thesis using serve_file_abort [OF Abort] by (simp add: fine_def)
  next
    case (Ret u t)
    have "i < length (files s)" using Cons.prems by simp
    from serve_file_ok [OF Cons.prems(1) this Ret] have "web_ok t" "length (files t) = n" "nconn t \<le> max 0 m" using Cons.prems by auto
    from Cons.IH [OF this] show ?thesis using Ret Cons.prems(4) by simp
  qed
qed (simp add: fine_def)

lemma web_loop_fine:
  "web_ok s \<Longrightarrow> length (files s) = n \<Longrightarrow> nconn s \<le> max 0 m \<Longrightarrow> fine m n (web_loop N m xs s)
    \<and> (\<forall>t b. web_loop N m xs s = Ret b t \<longrightarrow> (if b then \<not> nlefttoread t > 0 else nlefttoread t > 0 \<and> \<not> (nconn t < m \<and> nlefttoconn t > 0)))"
proof (induction xs arbitrary: s)
  case Nil
  then show ?case using connect_more_fine [OF Nil, of N] web_loop.simps [of N m "[]" s]
    by (cases "connect_more N m s") (auto simp: fine_def)
next
  case (Cons x xs)
  note c = connect_more_fine [OF Cons.prems, of N]
  show ?case
  proof (cases "nlefttoread s > 0")
    case False
    then show ?thesis using web_loop.simps [of N m "x # xs" s] Cons.prems by (simp add: fine_def)
  next
    case True
    show ?thesis
    proof (cases "connect_more N m s")
      case (Abort e t)
      then show ?thesis using c True web_loop.simps [of N m "x # xs" s] by (simp add: fine_def)
    next
      case (Ret u t)
      then have t: "web_ok t" "length (files t) = n" "nconn t \<le> max 0 m" using c by (simp_all add: fine_def)
      have r: "fine m n (web_round N x t)" unfolding web_round_def by (rule serve_files_fine [OF t]) (use t in auto)
      show ?thesis
      proof (cases "web_round N x t")
        case a: (Abort e v)
        then show ?thesis using r Ret True web_loop.simps [of N m "x # xs" s] by (simp add: fine_def)
      next
        case v: (Ret w v)
        then have "web_ok v" "length (files v) = n" "nconn v \<le> max 0 m" using r by (simp_all add: fine_def)
        from Cons.IH [OF this] show ?thesis using Ret v True web_loop.simps [of N m "x # xs" s] by simp
      qed
    qed
  qed
qed

lemma web_start_ok: "web_ok (web_start n)" "length (files (web_start n)) = n" "nconn (web_start n) \<le> max 0 m"
  by (auto simp: web_start_def web_ok_def counts_ok_def sets_ok_def lives_ok_def number_def fds_def is_open_def connecting_def apart_def inj_on_def)

lemmas from_start = web_loop_fine [OF web_start_ok]

lemma from_start_Ret:
  assumes "web_loop N m xs (web_start n) = Ret b t"
  shows "web_ok t" "length (files t) = n" "nconn t \<le> max 0 m" "b \<Longrightarrow> \<not> nlefttoread t > 0"
    "\<not> b \<Longrightarrow> nlefttoread t > 0" "\<not> b \<Longrightarrow> \<not> (nconn t < m \<and> nlefttoconn t > 0)"
proof -
  have "fine m n (Ret b t)" using from_start [of m n N xs, THEN conjunct1] unfolding assms .
  then show "web_ok t" "length (files t) = n" "nconn t \<le> max 0 m" by (simp_all add: fine_def)
  have "if b then \<not> nlefttoread t > 0 else nlefttoread t > 0 \<and> \<not> (nconn t < m \<and> nlefttoconn t > 0)"
    using from_start [of m n N xs, THEN conjunct2] assms by blast
  then show "b \<Longrightarrow> \<not> nlefttoread t > 0" "\<not> b \<Longrightarrow> nlefttoread t > 0" "\<not> b \<Longrightarrow> \<not> (nconn t < m \<and> nlefttoconn t > 0)" by auto
qed

lemma open_number: "apart fs \<Longrightarrow> number is_open fs = int (card (fds is_open fs))"
proof -
  assume a: "apart fs"
  have "fds is_open fs = (\<lambda>i. f_fd (fs ! i)) ` {i. i < length fs \<and> is_open (fs ! i)}" by (auto simp: fds_def)
  then show ?thesis using a by (simp add: number_def length_filter_conv_card card_image apart_def)
qed

section \<open>Properties\<close>

text \<open>
  C25.  When the loop ends, each file has been started once, asked for once and read to its end, whatever
  the order in which the connections got ready; and the program never ends because its counters do not
  fit the table of files.
\<close>

theorem web_nonb_fetches:
  shows "(web_loop N m xs (web_start n) = Ret True t \<longrightarrow>
      (\<forall>i < n. \<exists>bs. filter (about i) (acts t) = bs @ [Eof i] \<and> fetched i bs))
    \<and> (\<forall>msg. web_loop N m xs (web_start n) \<noteq> Abort (Err_quit msg) v)"
proof -
  have "\<exists>bs. filter (about i) (acts t) = bs @ [Eof i] \<and> fetched i bs" if r: "web_loop N m xs (web_start n) = Ret True t" and i: "i < n" for i
  proof -
    have t: "web_ok t" "length (files t) = n" "\<not> nlefttoread t > 0" using from_start_Ret [OF r] by auto
    then have "\<not> number (\<lambda>f. f_flags f \<noteq> F_DONE) (files t) > 0" by (simp add: web_ok_def counts_ok_def)
    then have "f_flags (files t ! i) = F_DONE" using i t(2) unfolding number_pos by blast
    then show ?thesis using t i unfolding web_ok_def lives_ok_def by fastforce
  qed
  then show ?thesis using from_start [of m n N xs] by (auto simp: fine_def)
qed

text \<open>
  C26.  Whenever the program waits in \<open>select\<close>, it has at most \<open>maxnconn\<close> sockets, all of them in the set
  and below \<open>maxfd + 1\<close>; with at least one connection allowed the set is not empty, so that it does not
  wait for nothing.
\<close>

theorem web_nonb_waits:
  assumes "web_loop N m xs (web_start n) = Ret False t"
  shows "int (card (rset t)) \<le> max 0 m \<and> nconn t = int (card (rset t)) \<and> rset t = f_fd ` set (filter is_open (files t))
    \<and> wset t \<subseteq> rset t \<and> (\<forall>fd \<in> rset t. int fd < maxfd t + 1) \<and> (1 \<le> m \<longrightarrow> rset t \<noteq> {})"
proof -
  have t: "web_ok t" "nconn t \<le> max 0 m" "nlefttoread t > 0" "\<not> (nconn t < m \<and> nlefttoconn t > 0)"
    using from_start_Ret [OF assms] by auto
  then have s: "rset t = fds is_open (files t)" "wset t = fds connecting (files t)" "\<forall>fd \<in> rset t. int fd \<le> maxfd t" "nconn t = number is_open (files t)"
    and c: "nconn t = int (card (rset t))"
    by (auto simp: web_ok_def sets_ok_def counts_ok_def open_number)
  have r: "rset t = f_fd ` set (filter is_open (files t))" unfolding s(1) fds_def by (force simp: in_set_conv_nth)
  have "rset t \<noteq> {}" if "1 \<le> m"
  proof
    assume e: "rset t = {}"
    then have "nlefttoconn t \<le> 0" using t(4) that c by simp
    moreover obtain i where i: "i < length (files t)" "f_flags (files t ! i) \<noteq> F_DONE" using t(1,3) by (auto simp: web_ok_def counts_ok_def number_pos)
    moreover have "\<not> is_open (files t ! i)" using e i(1) unfolding s(1) fds_def by blast
    ultimately have "f_flags (files t ! i) = F_NONE" by (cases "f_flags (files t ! i)") (auto simp: is_open_def)
    then have "nlefttoconn t > 0" using t(1) i(1) by (auto simp: web_ok_def counts_ok_def number_pos)
    then show False using \<open>nlefttoconn t \<le> 0\<close> by simp
  qed
  moreover have "wset t \<subseteq> rset t" unfolding s by (auto simp: fds_def connecting_open)
  ultimately show ?thesis using s(3) r c t(2) by auto
qed

section \<open>A run, and two mistakes\<close>

definition sample_net :: net where
  "sample_net = \<lparr>connects = (\<lambda>i. if i = 0 then In_progress else Established), writes = (\<lambda>_. True)\<rparr>"

definition sample_rounds :: "round list" where
  "sample_rounds =
    [\<lparr>r_rs = {}, r_ws = {3}, r_error = (\<lambda>_. False), r_read = (\<lambda>_. None)\<rparr>,
     \<lparr>r_rs = {3}, r_ws = {}, r_error = (\<lambda>_. False), r_read = (\<lambda>_. Some ''page'')\<rparr>,
     \<lparr>r_rs = {3}, r_ws = {}, r_error = (\<lambda>_. False), r_read = (\<lambda>_. Some [])\<rparr>,
     \<lparr>r_rs = {3}, r_ws = {}, r_error = (\<lambda>_. False), r_read = (\<lambda>_. Some [])\<rparr>]"

lemma web_sample_run: "\<exists>t. web_loop sample_net 1 sample_rounds (web_start 2) = Ret True t"
proof -
  have "case web_loop sample_net 1 sample_rounds (web_start 2) of Ret b t \<Rightarrow> b | Abort e t \<Rightarrow> False" by code_simp
  then show ?thesis by (auto split: outcome.splits)
qed

lemma web_sample_waits: "\<exists>t. web_loop sample_net 1 [] (web_start 2) = Ret False t"
proof -
  have "case web_loop sample_net 1 [] (web_start 2) of Ret b t \<Rightarrow> \<not> b | Abort e t \<Rightarrow> False" by code_simp
  then show ?thesis by (auto split: outcome.splits)
qed

theorem web_nonb_fetches_witness:
  "\<exists>t bs. web_loop sample_net 1 sample_rounds (web_start 2) = Ret True t \<and> filter (about 1) (acts t) = bs @ [Eof 1] \<and> fetched 1 bs"
proof -
  obtain t where t: "web_loop sample_net 1 sample_rounds (web_start 2) = Ret True t" using web_sample_run by blast
  then have "\<forall>i < 2. \<exists>bs. filter (about i) (acts t) = bs @ [Eof i] \<and> fetched i bs"
    using web_nonb_fetches [of sample_net 1 sample_rounds 2 t] by blast
  from this [rule_format, of 1] obtain bs where "filter (about 1) (acts t) = bs @ [Eof 1] \<and> fetched 1 bs" by auto
  then show ?thesis using t by blast
qed

theorem web_nonb_waits_witness: "\<exists>t. web_loop sample_net 1 [] (web_start 2) = Ret False t \<and> rset t \<noteq> {} \<and> nconn t = int (card (rset t))"
proof -
  obtain t where t: "web_loop sample_net 1 [] (web_start 2) = Ret False t" using web_sample_waits by blast
  from web_nonb_waits [OF t] have "rset t \<noteq> {}" "nconn t = int (card (rset t))" by (metis order_refl)+
  then show ?thesis using t by blast
qed

text \<open>Without a connection allowed, the program waits forever for no descriptor at all.\<close>

lemma web_nonb_no_conn: "0 < n \<Longrightarrow> m \<le> 0 \<Longrightarrow> web_loop N m xs (web_start n) = Ret False (web_start n)"
proof (induction xs)
  case (Cons x xs)
  have c: "connect_more N m (web_start n) = Ret () (web_start n)"
    using connect_more.simps [of N m "web_start n"] Cons.prems by (simp add: web_start_def)
  have f: "serve_file N rs ws x i (web_start n) = Ret () (web_start n)" if "i < n" for i rs ws
    using that by (simp add: serve_file_def web_start_def)
  have "serve_files N rs ws x is (web_start n) = Ret () (web_start n)" if "\<forall>i \<in> set is. i < n" for "is" rs ws
    using that by (induction "is") (auto simp: f)
  from this [of "[0 ..< n]"] have "web_round N x (web_start n) = Ret () (web_start n)" by (simp add: web_round_def web_start_ok(2))
  then show ?case using Cons c web_loop.simps [of N m "x # xs" "web_start n"] by (simp add: web_start_def)
next
  case Nil
  then show ?case using web_loop.simps [of N m "[]" "web_start n"] connect_more.simps [of N m "web_start n"] by (simp add: web_start_def)
qed

text \<open>A connection that has failed is treated like one that is established: the request is written to it.\<close>

lemma web_nonb_failed:
  assumes "f_flags (files s ! i) = F_CONNECTING" "f_fd (files s ! i) \<in> ws" "r_error x i" "writes N i" "i < length (files s)"
  shows "\<exists>t. serve_file N rs ws x i s = Ret () t \<and> acts t = acts s @ [Failed i, Get i] \<and> f_flags (files t ! i) = F_READING"
  using assms by (auto simp: serve_file_def write_get_cmd_def Let_def)

end
