(* ===== verification/Open_Fe.thy ===== *)
theory Open_Fe
  imports Open_Request
begin

text \<open>
  The open server that is started with fork and exec, \<open>apue.3e/ipc2/opend.fe\<close>, and its client,
  \<open>apue.3e/ipc2/open.fe\<close>: the client keeps one server for all its files, on one stream pipe, and copies
  each file that is named on its standard input.  The words of a request, the messages and \<open>recv_fd\<close>
  are those of \<open>Open_Request\<close>.
\<close>

section \<open>The server\<close>

definition null_error_fe :: "string \<Rightarrow> string" where
  "null_error_fe buf = take (MAXLINE - 2) (''request not null terminated: ''
     @ replicate (length buf - length (cstr buf)) (CHR '' '') @ cstr buf @ [CHR 0x0A])"

definition handle_request_fe :: "(32 word \<Rightarrow> string) \<Rightarrow> (string \<Rightarrow> int \<Rightarrow> 32 word + int) \<Rightarrow> string \<Rightarrow> opend \<Rightarrow> msg list \<times> opend" where
  "handle_request_fe strerr op buf s =
     (if buf ! (length buf - 1) \<noteq> NUL
      then (let s = s\<lparr>errmsg := null_error_fe buf\<rparr> in (send_err (-1) (errmsg s), s))
      else (case buf_args (cstr buf) (cli_args s) of
              None \<Rightarrow> (send_err (-1) (errmsg s), s)
            | Some (rc, s) \<Rightarrow>
              if rc < 0 then (send_err (-1) (errmsg s), s)
              else (case op (pathname s) (oflag s) of
                      Inl e \<Rightarrow>
                        let s = s\<lparr>errmsg := take (MAXLINE - 2) (''can't open '' @ pathname s @ '': '' @ strerr e @ [CHR 0x0A])\<rparr>
                        in (send_err (-1) (errmsg s), s)
                    | Inr newfd \<Rightarrow> ([send_fd newfd], s))))"

text \<open>The loop of the server, over what its reads return; the messages it sends.\<close>

fun opend_main :: "(32 word \<Rightarrow> string) \<Rightarrow> (string \<Rightarrow> int \<Rightarrow> 32 word + int) \<Rightarrow> string list \<Rightarrow> opend \<Rightarrow> msg list \<times> opend" where
  "opend_main strerr op [] s = ([], s)"
| "opend_main strerr op (buf # bufs) s =
     (if buf = [] then ([], s)
      else case handle_request_fe strerr op buf s of
        (ms, s) \<Rightarrow> (case opend_main strerr op bufs s of (ms', s) \<Rightarrow> (ms @ ms', s)))"

section \<open>The client\<close>

text \<open>What was written in one piece is read in pieces of at most \<open>MAXLINE\<close> bytes.\<close>

function chunks :: "string \<Rightarrow> string list" where
  "chunks s = (if s = [] then [] else take MAXLINE s # chunks (drop MAXLINE s))"
  by pat_completeness auto
termination
  by (relation "measure length") (auto simp: MAXLINE_def)

declare chunks.simps [simp del]

text \<open>
  \<open>recv_fd\<close>, with what is left in the pipe for the next call; \<open>None\<close> if it waits for more than the
  server has sent.
\<close>

fun recv_rest :: "msg list \<Rightarrow> string \<Rightarrow> (string \<times> (abort + int) \<times> msg list) option" where
  "recv_rest [] shown = None"
| "recv_rest ((buf, fd) # ms) shown =
     (case scan_status buf of
        Inr e \<Rightarrow> Some (shown, Inl e, ms)
      | Inl None \<Rightarrow> if buf = [] then Some (shown, Inr (-1), ms) else recv_rest ms (shown @ buf)
      | Inl (Some (status, nr)) \<Rightarrow>
          if status = 0
          then (case fd of None \<Rightarrow> Some (shown, Inl (Err_dump ''status = 0 but no fd''), ms)
                | Some newfd \<Rightarrow> Some (shown @ take nr buf, Inr newfd, ms))
          else Some (shown @ take nr buf, Inr (- int status), ms))"

text \<open>Client and server between two requests: the state of the server, and what is left in the pipe.\<close>

record session =
  server :: opend
  pipe :: "msg list"
  to_stdout :: string
  to_stderr :: string

definition csopen_fe :: "(32 word \<Rightarrow> string) \<Rightarrow> (string \<Rightarrow> int \<Rightarrow> 32 word + int) \<Rightarrow> string \<Rightarrow> int \<Rightarrow> session
    \<Rightarrow> ((abort + int) \<times> session) option" where
  "csopen_fe strerr op name oflg s =
     (case opend_main strerr op (chunks (csopen_request name oflg)) (server s) of
        (ms, srv) \<Rightarrow> (case recv_rest (pipe s @ ms) [] of
           None \<Rightarrow> None
         | Some (shown, r, rest) \<Rightarrow> Some (r, s\<lparr>server := srv, pipe := rest, to_stderr := to_stderr s @ shown\<rparr>)))"

text \<open>The name on a line: the new line at its end is removed; \<open>Inl\<close> before the start of an empty line.\<close>

definition line_name :: "string \<Rightarrow> abort + string" where
  "line_name line =
     (if line = [] then Inl Undefined
      else Inr (if last line = CHR 0x0A then butlast line else line))"

text \<open>
  The loop that copies a file: what each \<open>read\<close> returns (\<open>None\<close> for an error, \<open>Some []\<close> or the end of the list for
  the end of the file) and how many of its bytes \<open>write\<close> writes.
\<close>

fun cat_copy :: "(string option \<times> int) list \<Rightarrow> session \<Rightarrow> abort option \<times> session" where
  "cat_copy [] s = (None, s)"
| "cat_copy ((r, w) # rs) s =
     (case r of
        None \<Rightarrow> (Some (Err_sys ''read error''), s)
      | Some b \<Rightarrow>
          if b = [] then (None, s)
          else let s = s\<lparr>to_stdout := to_stdout s @ take (nat w) b\<rparr> in
            if w \<noteq> int (length b) then (Some (Err_sys ''write error''), s) else cat_copy rs s)"

text \<open>\<open>main\<close>: \<open>content fd\<close> is what the calls of the loop return for the open file \<open>fd\<close>.\<close>

fun cat_main :: "(32 word \<Rightarrow> string) \<Rightarrow> (string \<Rightarrow> int \<Rightarrow> 32 word + int) \<Rightarrow> (int \<Rightarrow> (string option \<times> int) list) \<Rightarrow> string list \<Rightarrow> session
    \<Rightarrow> ((abort + unit) \<times> session) option" where
  "cat_main strerr op content [] s = Some (Inr (), s)"
| "cat_main strerr op content (line # lines) s =
     (case line_name line of
        Inl e \<Rightarrow> Some (Inl e, s)
      | Inr name \<Rightarrow>
        (case csopen_fe strerr op name 0 s of
           None \<Rightarrow> None
         | Some (Inl e, s) \<Rightarrow> Some (Inl e, s)
         | Some (Inr fd, s) \<Rightarrow>
             if fd < 0 then cat_main strerr op content lines s
             else (case cat_copy (content fd) s of
                 (Some e, s) \<Rightarrow> Some (Inl e, s)
               | (None, s) \<Rightarrow> cat_main strerr op content lines s)))"

section \<open>One request\<close>

lemma fe_same_request:
  "buf ! (length buf - 1) = NUL \<Longrightarrow> handle_request_fe strerr op buf s = handle_request strerr op buf uid s"
  by (simp add: handle_request_fe_def handle_request_def)

lemma chunks_short: "s \<noteq> [] \<Longrightarrow> length s \<le> MAXLINE \<Longrightarrow> chunks s = [s]"
  using chunks.simps [of s] chunks.simps [of "[]"] by simp

lemma length_request: "length (csopen_request name 0) = length name + 8"
  by (simp add: csopen_request_def CL_OPEN_def fmt_d_def dec.simps)

definition name_ok :: "string \<Rightarrow> bool" where
  "name_ok name \<longleftrightarrow> name \<noteq> [] \<and> (\<forall>c \<in> set name. \<not> is_white c \<and> c \<noteq> NUL)"

text \<open>What the client sees for one name.\<close>

lemma csopen_answer_fe:
  assumes n: "name_ok name" "length name \<le> 4088"
  shows "\<exists>srv. opend_main strerr op (chunks (csopen_request name 0)) s =
    (case op name 0 of Inr fd \<Rightarrow> [send_fd fd] | Inl e \<Rightarrow> [(cant_open name (strerr e), None), ([NUL, CHR 0x01], None)], srv)"
proof -
  let ?r = "csopen_request name 0"
  have c: "chunks ?r = [?r]" using n(2) length_request [of name] by (intro chunks_short) (auto simp: MAXLINE_def csopen_request_def)
  obtain ms srv where h: "handle_request strerr op ?r 0 s = (ms, srv)" by fastforce
  have "?r ! (length ?r - 1) = NUL" unfolding csopen_request_def by (simp add: nth_append)
  then have o: "opend_main strerr op (chunks ?r) s = (ms, srv)"
    unfolding c using h fe_same_request [of ?r strerr op s 0] by (simp add: csopen_request_def)
  have nm: "name \<noteq> []" "\<forall>c \<in> set name. \<not> is_white c \<and> c \<noteq> NUL" using n(1) by (simp_all add: name_ok_def)
  show ?thesis using csopen_answer [OF nm, of 0 strerr op 0 s] h o by simp
qed

lemma recv_refuse:
  assumes "NUL \<notin> set m" "m \<noteq> []"
  shows "recv_rest ((m, None) # ([NUL, CHR 0x01], None) # ms) [] = Some (m, Inr (-1), ms)"
proof -
  have "scan_status [NUL, CHR 0x01] = Inl (Some (1, 0))" by (simp add: scan_status_def NUL_def)
  then show ?thesis using assms by (simp add: scan_none)
qed

lemma recv_send: "0 \<le> fd \<Longrightarrow> recv_rest (send_fd fd # ms) [] = Some ([], Inr fd, ms)"
  by (simp add: send_fd_def scan_status_def NUL_def)

lemma csopen_fe_served:
  assumes n: "name_ok name" "length name \<le> 4088" and e: "\<And>e. NUL \<notin> set (strerr e)" and fd: "\<And>n fd. op n 0 = Inr fd \<Longrightarrow> 0 \<le> fd"
    and p: "pipe s = []"
  shows "\<exists>srv. csopen_fe strerr op name 0 s = Some (case op name 0 of
      Inr fd \<Rightarrow> (Inr fd, s\<lparr>server := srv, pipe := []\<rparr>)
    | Inl e \<Rightarrow> (Inr (-1), s\<lparr>server := srv, pipe := [], to_stderr := to_stderr s @ cant_open name (strerr e)\<rparr>))"
proof -
  obtain srv where o: "opend_main strerr op (chunks (csopen_request name 0)) (server s) =
      (case op name 0 of Inr fd \<Rightarrow> [send_fd fd] | Inl e \<Rightarrow> [(cant_open name (strerr e), None), ([NUL, CHR 0x01], None)], srv)"
    using csopen_answer_fe [OF n] by blast
  have m: "NUL \<notin> set (cant_open name (strerr err))" "cant_open name (strerr err) \<noteq> []" for err
    using n(1) e cant_open_NUL [of name "strerr err"] by (auto simp: name_ok_def cant_open_def MAXLINE_def)
  show ?thesis
  proof (cases "op name 0")
    case (Inr d)
    show ?thesis by (rule exI [of _ srv]) (use Inr p o recv_send [OF fd [OF Inr]] in \<open>simp add: csopen_fe_def\<close>)
  next
    case (Inl err)
    show ?thesis by (rule exI [of _ srv]) (use Inl p o recv_refuse [OF m, of err "[]"] in \<open>simp add: csopen_fe_def\<close>)
  qed
qed

section \<open>Copying\<close>

text \<open>A \<open>read\<close> of a piece that is then written whole; what these pieces are; and what ends the program after them.\<close>

definition io_ok :: "string option \<times> int \<Rightarrow> bool" where
  "io_ok x \<longleftrightarrow> (case fst x of None \<Rightarrow> False | Some b \<Rightarrow> b \<noteq> [] \<and> snd x = int (length b))"

definition copied :: "(string option \<times> int) list \<Rightarrow> string" where
  "copied rs = concat (map (the \<circ> fst) (takeWhile io_ok rs))"

definition failure :: "(string option \<times> int) list \<Rightarrow> (string \<times> string) option" where
  "failure rs = (case dropWhile io_ok rs of [] \<Rightarrow> None
     | (None, w) # _ \<Rightarrow> Some ([], ''read error'')
     | (Some b, w) # _ \<Rightarrow> if b = [] then None else Some (take (nat w) b, ''write error''))"

lemma cat_copy_correct:
  "cat_copy rs s = (case failure rs of
      None \<Rightarrow> (None, s\<lparr>to_stdout := to_stdout s @ copied rs\<rparr>)
    | Some (part, m) \<Rightarrow> (Some (Err_sys m), s\<lparr>to_stdout := to_stdout s @ copied rs @ part\<rparr>))"
proof (induction rs arbitrary: s)
  case (Cons x rs)
  obtain r w where x: "x = (r, w)" by fastforce
  show ?case
  proof (cases "io_ok x")
    case True
    then obtain b where b: "r = Some b" "b \<noteq> []" "w = int (length b)" by (auto simp: io_ok_def x split: option.splits)
    have "copied (x # rs) = b @ copied rs" "failure (x # rs) = failure rs" using True b(1) by (simp_all add: copied_def failure_def x)
    then show ?thesis using Cons.IH [of "s\<lparr>to_stdout := to_stdout s @ b\<rparr>"] b by (simp add: x split: option.split prod.split)
  next
    case False
    then have e: "copied (x # rs) = []" "dropWhile io_ok (x # rs) = x # rs" by (simp_all add: copied_def)
    show ?thesis
    proof (cases r)
      case None
      then show ?thesis unfolding failure_def e by (simp add: x)
    next
      case (Some b)
      then show ?thesis unfolding failure_def e using False by (auto simp: x io_ok_def)
    qed
  qed
qed (simp add: copied_def failure_def)

section \<open>Properties\<close>

text \<open>A name whose file can be opened and not copied to its end.\<close>

definition bad_copy :: "(string \<Rightarrow> int \<Rightarrow> 32 word + int) \<Rightarrow> (int \<Rightarrow> (string option \<times> int) list) \<Rightarrow> string \<Rightarrow> bool" where
  "bad_copy op content n \<longleftrightarrow> (case op n 0 of Inl e \<Rightarrow> False | Inr fd \<Rightarrow> failure (content fd) \<noteq> None)"

definition copy_bytes :: "(string \<Rightarrow> int \<Rightarrow> 32 word + int) \<Rightarrow> (int \<Rightarrow> (string option \<times> int) list) \<Rightarrow> string \<Rightarrow> string" where
  "copy_bytes op content n = (case op n 0 of Inl e \<Rightarrow> [] | Inr fd \<Rightarrow> copied (content fd))"

definition copy_error :: "(string \<Rightarrow> int \<Rightarrow> 32 word + int) \<Rightarrow> (int \<Rightarrow> (string option \<times> int) list) \<Rightarrow> string \<Rightarrow> string \<times> string" where
  "copy_error op content n = (case op n 0 of Inl e \<Rightarrow> ([], []) | Inr fd \<Rightarrow> the (failure (content fd)))"

text \<open>
  C27.  For names without white space of at most 4088 bytes the program handles the names in order: for each
  it writes what it reads from the file when it can be opened, and the message of the server otherwise.
  It ends after the last name, or with \<open>read error\<close> or \<open>write error\<close> at the first file that cannot be
  read to its end (a directory can be opened) or whose bytes are not all written; of that file the pieces
  before the error and the part that was written have been shown.
  The server answers each request once, so that nothing is left in the pipe.
\<close>

theorem cat_session:
  assumes "\<forall>n \<in> set names. name_ok n \<and> length n \<le> 4088" "\<And>e. NUL \<notin> set (strerr e)" "\<And>n fd. op n 0 = Inr fd \<Longrightarrow> 0 \<le> fd" "pipe s = []"
  shows "\<exists>t. cat_main strerr op content (map (\<lambda>n. n @ [CHR 0x0A]) names) s
        = Some (case dropWhile (\<lambda>n. \<not> bad_copy op content n) names of [] \<Rightarrow> Inr ()
            | n # _ \<Rightarrow> Inl (Err_sys (snd (copy_error op content n))), t)
    \<and> to_stdout t = to_stdout s @ concat (map (copy_bytes op content) (takeWhile (\<lambda>n. \<not> bad_copy op content n) names))
        @ (case dropWhile (\<lambda>n. \<not> bad_copy op content n) names of [] \<Rightarrow> []
            | n # _ \<Rightarrow> copy_bytes op content n @ fst (copy_error op content n))
    \<and> to_stderr t = to_stderr s @ concat (map (\<lambda>n. case op n 0 of Inr fd \<Rightarrow> [] | Inl e \<Rightarrow> cant_open n (strerr e))
        (takeWhile (\<lambda>n. \<not> bad_copy op content n) names))
    \<and> pipe t = []"
  using assms(1,4)
proof (induction names arbitrary: s)
  case (Cons n names)
  have n: "name_ok n" "length n \<le> 4088" using Cons.prems(1) by simp_all
  have "\<exists>srv. csopen_fe strerr op n 0 s = Some (case op n 0 of
      Inr fd \<Rightarrow> (Inr fd, s\<lparr>server := srv, pipe := []\<rparr>)
    | Inl e \<Rightarrow> (Inr (-1), s\<lparr>server := srv, pipe := [], to_stderr := to_stderr s @ cant_open n (strerr e)\<rparr>))"
    by (rule csopen_fe_served [OF n]) (use assms(2,3) Cons.prems(2) in auto)
  then obtain srv where c: "csopen_fe strerr op n 0 s = Some (case op n 0 of
      Inr fd \<Rightarrow> (Inr fd, s\<lparr>server := srv, pipe := []\<rparr>)
    | Inl e \<Rightarrow> (Inr (-1), s\<lparr>server := srv, pipe := [], to_stderr := to_stderr s @ cant_open n (strerr e)\<rparr>))" by blast
  show ?case
  proof (cases "op n 0")
    case (Inr fd)
    have fd: "\<not> fd < 0" using assms(3) [OF Inr] by simp
    show ?thesis
    proof (cases "failure (content fd)")
      case None
      let ?s = "s\<lparr>server := srv, pipe := [], to_stdout := to_stdout s @ copied (content fd)\<rparr>"
      have "\<not> bad_copy op content n" using Inr None by (simp add: bad_copy_def)
      then show ?thesis using Cons.IH [of ?s] Cons.prems(1) c Inr fd None
        by (auto simp: line_name_def cat_copy_correct copy_bytes_def)
    next
      case (Some pm)
      then have "bad_copy op content n" using Inr by (simp add: bad_copy_def)
      then show ?thesis using c Inr fd Some
        by (cases pm) (simp add: line_name_def cat_copy_correct copy_bytes_def copy_error_def)
    qed
  next
    case (Inl e)
    let ?s = "s\<lparr>server := srv, pipe := [], to_stderr := to_stderr s @ cant_open n (strerr e)\<rparr>"
    have "\<not> bad_copy op content n" using Inl by (simp add: bad_copy_def)
    then show ?thesis using Cons.IH [of ?s] Cons.prems(1) c Inl by (auto simp: line_name_def copy_bytes_def)
  qed
qed simp

definition fresh :: session where
  "fresh = \<lparr>server = \<lparr>errmsg = [], pathname = [], oflag = 0\<rparr>, pipe = [], to_stdout = [], to_stderr = []\<rparr>"

text \<open>A file that does not exist, one of four bytes, a directory, and one more that is not reached.\<close>

theorem cat_session_witness:
  "\<exists>t. cat_main (\<lambda>_. ''No such file'') (\<lambda>n _. if n = ''b'' then Inl 2 else if n = ''d'' then Inr 6 else Inr 5)
        (\<lambda>fd. if fd = 5 then [(Some ''text'', 4), (Some [], 0)] else [(None, 0)])
        (map (\<lambda>n. n @ [CHR 0x0A]) [''b'', ''a'', ''d'', ''a'']) fresh
      = Some (Inl (Err_sys ''read error''), t) \<and> to_stdout t = ''text'' \<and> to_stderr t = cant_open ''b'' ''No such file'' \<and> pipe t = []"
proof -
  let ?op = "\<lambda>n (_ :: int). if n = ''b'' then Inl (2 :: 32 word) else if n = ''d'' then Inr (6 :: int) else Inr 5"
  let ?c = "\<lambda>fd :: int. if fd = 5 then [(Some ''text'', 4), (Some [], 0)] else [(None, 0 :: int)]"
  have ok: "\<forall>n \<in> set [''b'', ''a'', ''d'', ''a'']. name_ok n \<and> length n \<le> 4088" by (simp add: name_ok_def is_white_def NUL_def)
  have e: "NUL \<notin> set ''No such file''" by (simp add: NUL_def)
  have fd: "0 \<le> fd" if "?op n 0 = Inr fd" for n fd using that by (simp split: if_splits)
  have p: "pipe fresh = []" by (simp add: fresh_def)
  have b: "bad_copy ?op ?c ''d''" "\<not> bad_copy ?op ?c ''a''" "\<not> bad_copy ?op ?c ''b''" by (simp_all add: bad_copy_def failure_def io_ok_def)
  note session = cat_session [where op = ?op and strerr = "\<lambda>_. ''No such file''" and content = ?c, OF ok _ _ p]
  show ?thesis
  proof (rule ex_forward [OF session])
    show "NUL \<notin> set ''No such file''" by (rule e)
    show "0 \<le> fd" if "?op n 0 = Inr fd" for n fd by (rule fd [OF that])
  qed (simp add: b fresh_def copy_bytes_def copy_error_def copied_def failure_def io_ok_def del: cat_main.simps)
qed

section \<open>A name that is too long\<close>

text \<open>
  The request for a name of 4089 bytes does not fit into the buffer of the server, which answers each of
  its two parts: one answer is left in the pipe, and from then on the client takes the answer to each
  request for the answer to the next.
\<close>

lemma opend_main_split:
  assumes "length r = MAXLINE" "r ! (MAXLINE - 1) \<noteq> NUL"
  shows "opend_main strerr op [r, [NUL]] s = (refuse (null_error_fe r) @ refuse (null_error_fe r), s\<lparr>errmsg := null_error_fe r\<rparr>)"
proof -
  have "r \<noteq> []" using assms(1) by (auto simp: MAXLINE_def)
  moreover have "handle_request_fe strerr op r s = (refuse (null_error_fe r), s\<lparr>errmsg := null_error_fe r\<rparr>)"
    using assms by (simp add: handle_request_fe_def send_err_refuse Let_def)
  moreover have "handle_request_fe strerr op [NUL] t = (refuse (errmsg t), t)" for t
    by (simp add: handle_request_fe_def send_err_refuse cstr_def buf_args_def strtok_def)
  ultimately show ?thesis by simp
qed

theorem csopen_long_name:
  assumes "name_ok name" "length name = 4089" "pipe s = []"
  shows "\<exists>m t. csopen_fe strerr op name 0 s = Some (Inr (-1), t) \<and> NUL \<notin> set m \<and> m \<noteq> [] \<and> pipe t = refuse m"
proof -
  let ?r = "csopen_request name 0"
  define b where "b = CL_OPEN @ '' '' @ name @ '' 0''"
  have "fmt_d 0 = ''0''" by code_simp
  then have r: "?r = b @ [NUL]" by (simp add: csopen_request_def b_def)
  have l: "length b = MAXLINE" using assms(2) by (simp add: b_def CL_OPEN_def MAXLINE_def)
  have nb: "NUL \<notin> set b" using assms(1) by (auto simp: b_def name_ok_def CL_OPEN_def NUL_def)
  have c: "chunks ?r = [b, [NUL]]"
    using chunks.simps [of ?r] chunks_short [of "[NUL]"] l unfolding r by (simp add: MAXLINE_def)
  have "b ! (MAXLINE - 1) \<in> set b" using l by (intro nth_mem) (simp add: MAXLINE_def)
  then have o: "opend_main strerr op (chunks ?r) (server s) = (refuse (null_error_fe b) @ refuse (null_error_fe b), (server s)\<lparr>errmsg := null_error_fe b\<rparr>)"
    unfolding c using opend_main_split [OF l] nb by metis
  have cb: "cstr b = b" using nb by (auto simp: cstr_def takeWhile_eq_all_conv)
  have m: "NUL \<notin> set (null_error_fe b)" "null_error_fe b \<noteq> []"
  proof -
    have "NUL \<notin> set (''request not null terminated: '' @ replicate 0 (CHR '' '') @ b @ [CHR 0x0A])" using nb by (simp add: NUL_def)
    then show "NUL \<notin> set (null_error_fe b)" unfolding null_error_fe_def cb diff_self_eq_0 using in_set_takeD by fast
    show "null_error_fe b \<noteq> []" by (simp add: null_error_fe_def MAXLINE_def)
  qed
  have "refuse (null_error_fe b) @ refuse (null_error_fe b) = (null_error_fe b, None) # ([NUL, CHR 0x01], None) # refuse (null_error_fe b)"
    using m(2) by (simp add: refuse_def)
  then have "opend_main strerr op (chunks ?r) (server s)
      = ((null_error_fe b, None) # ([NUL, CHR 0x01], None) # refuse (null_error_fe b), (server s)\<lparr>errmsg := null_error_fe b\<rparr>)" using o by simp
  then show ?thesis using assms(3) m recv_refuse [OF m, of "refuse (null_error_fe b)"]
    by (intro exI [of _ "null_error_fe b"]) (simp add: csopen_fe_def del: recv_rest.simps)
qed

lemma csopen_shifted:
  assumes "name_ok name" "length name \<le> 4088" "pipe s = refuse m" "NUL \<notin> set m" "m \<noteq> []" "op name 0 = Inr fd"
  shows "\<exists>t. csopen_fe strerr op name 0 s = Some (Inr (-1), t) \<and> pipe t = [send_fd fd]"
proof -
  obtain srv where "opend_main strerr op (chunks (csopen_request name 0)) (server s) = ([send_fd fd], srv)"
    using csopen_answer_fe [OF assms(1,2), of strerr op "server s"] assms(6) by auto
  moreover have "refuse m @ [send_fd fd] = (m, None) # ([NUL, CHR 0x01], None) # [send_fd fd]" using assms(5) by (simp add: refuse_def)
  ultimately show ?thesis using assms(3) recv_refuse [OF assms(4,5), of "[send_fd fd]"] by (simp add: csopen_fe_def)
qed

theorem csopen_long_name_witness:
  "\<exists>m t. csopen_fe (\<lambda>_. []) (\<lambda>_ _. Inr 5) (replicate 4089 (CHR ''a'')) 0 fresh = Some (Inr (-1), t) \<and> m \<noteq> [] \<and> pipe t = refuse m"
proof -
  have "name_ok (replicate 4089 (CHR ''a''))" unfolding name_ok_def set_replicate_conv_if by (simp add: is_white_def NUL_def)
  then show ?thesis using csopen_long_name [of "replicate 4089 (CHR ''a'')" fresh "\<lambda>_. []" "\<lambda>_ _. Inr 5"] length_replicate
    by (fastforce simp: fresh_def)
qed

end
