(* ===== verification/Source_Route.thy ===== *)
theory Source_Route
  imports Inet_V4
begin

text \<open>
  Building and printing source routes, \<open>unpv13e/ipopts/sourceroute.c\<close>: the IP option is built in a buffer
  of 44 bytes, one address for each call; a received option is printed with the first hop in front of it.
\<close>

type_synonym bytes = "8 word list"

section \<open>The code\<close>

definition IPOPT_NOP :: "8 word" where "IPOPT_NOP = 1"
definition IPOPT_LSRR :: "8 word" where "IPOPT_LSRR = 131"
definition IPOPT_SSRR :: "8 word" where "IPOPT_SSRR = 137"

lemma opts_distinct [simp]: "IPOPT_LSRR \<noteq> IPOPT_NOP" "IPOPT_SSRR \<noteq> IPOPT_NOP" "IPOPT_SSRR \<noteq> IPOPT_LSRR" "IPOPT_LSRR \<noteq> IPOPT_SSRR"
  by (simp_all add: IPOPT_NOP_def IPOPT_LSRR_def IPOPT_SSRR_def)

text \<open>\<open>optr\<close> and \<open>lenptr\<close> as offsets into the buffer, whose start the caller has.\<close>

record srcrt =
  obuf :: bytes
  optr :: nat
  lenptr :: nat
  ocnt :: nat

definition inet_srcrt_init :: "bool \<Rightarrow> srcrt" where
  "inet_srcrt_init type = \<lparr>obuf = [IPOPT_NOP, if type then IPOPT_SSRR else IPOPT_LSRR, 0, 4] @ replicate 40 0, optr = 4, lenptr = 2, ocnt = 0\<rparr>"

text \<open>The argument is the address that \<open>host_serv\<close> has found; a store behind the buffer would be undefined.\<close>

definition inet_srcrt_add :: "bytes \<Rightarrow> (srcrt, nat) prog" where
  "inet_srcrt_add addr s =
     (if ocnt s > 9 then Abort (Err_quit ''too many source routes'') s
      else if optr s + 4 > length (obuf s) then Abort Undefined s
      else let n = ocnt s + 1; len = 3 + n * 4 in
        Ret (len + 1) (s\<lparr>obuf := (overlay 0 (obuf s) (optr s) (take 4 addr))[lenptr s := of_nat len], optr := optr s + 4, ocnt := n\<rparr>))"

text \<open>All calls for the arguments of the command line; the result is the size for \<open>setsockopt\<close>.\<close>

fun add_all :: "bytes list \<Rightarrow> (srcrt, nat) prog" where
  "add_all [] s = Ret 4 s"
| "add_all [a] s = inet_srcrt_add a s"
| "add_all (a # as) s = (case inet_srcrt_add a s of Abort e s \<Rightarrow> Abort e s | Ret _ s \<Rightarrow> add_all as s)"

text \<open>What is printed: the type of an option of another kind, or the kind of route and the addresses.\<close>

datatype printed = Other_type "8 word" | Route bool "string list"

definition Inet_ntop :: "bytes \<Rightarrow> abort + string" where
  "Inet_ntop a = (case inet_ntop4 (map unat a) 16 of Inl e \<Rightarrow> Inl (Err_sys ''inet_ntop error'') | Inr s \<Rightarrow> Inr (cstr s))"

text \<open>The loop over the addresses, on what follows in memory; behind its end a read is undefined.\<close>

function addr_loop :: "int \<Rightarrow> bytes \<Rightarrow> abort + string list" where
  "addr_loop len p =
     (if len \<le> 0 then Inr []
      else if length p < 4 then Inl Undefined
      else case Inet_ntop (take 4 p) of
        Inl e \<Rightarrow> Inl e
      | Inr s \<Rightarrow> (case addr_loop (len - 4) (drop 4 p) of Inl e \<Rightarrow> Inl e | Inr ss \<Rightarrow> Inr (s # ss)))"
  by pat_completeness auto
termination
  by (relation "measure (\<lambda>(len, p). nat len)") auto

declare addr_loop.simps [simp del]

text \<open>The length that the caller passes is not used.\<close>

definition inet_srcrt_print :: "bytes \<Rightarrow> int \<Rightarrow> abort + printed" where
  "inet_srcrt_print ptr len =
     (if length ptr < 4 then Inl Undefined
      else case dropWhile (\<lambda>c. c = IPOPT_NOP) (drop 4 ptr) of
        c # p \<Rightarrow>
          if c \<noteq> IPOPT_LSRR \<and> c \<noteq> IPOPT_SSRR then Inr (Other_type c)
          else (case Inet_ntop (take 4 ptr) of
            Inl e \<Rightarrow> Inl e
          | Inr hop1 \<Rightarrow>
            (case p of
               l # _ # p \<Rightarrow> (case addr_loop (int (unat l) - 4) p of Inl e \<Rightarrow> Inl e | Inr ss \<Rightarrow> Inr (Route (c = IPOPT_SSRR) (hop1 # ss)))
             | _ \<Rightarrow> Inl Undefined))
      | [] \<Rightarrow> Inl Undefined)"

section \<open>The option that is built\<close>

definition built :: "bool \<Rightarrow> bytes list \<Rightarrow> bytes" where
  "built type as = [IPOPT_NOP, if type then IPOPT_SSRR else IPOPT_LSRR, if as = [] then 0 else of_nat (3 + 4 * length as), 4] @ concat as"

definition after :: "bool \<Rightarrow> bytes list \<Rightarrow> srcrt" where
  "after type as = \<lparr>obuf = built type as @ replicate (40 - 4 * length as) 0, optr = 4 + 4 * length as, lenptr = 2, ocnt = length as\<rparr>"

lemma length_concat_4: "\<forall>a \<in> set as. length a = 4 \<Longrightarrow> length (concat as) = 4 * length as"
  by (induction as) auto

lemma add_step:
  assumes "\<forall>a \<in> set as. length a = 4" "length a = 4" "length as < 10"
  shows "inet_srcrt_add a (after type as) = Ret (4 + 4 * Suc (length as)) (after type (as @ [a]))"
proof -
  have c: "length (concat as) = 4 * length as" by (rule length_concat_4 [OF assms(1)])
  have r: "40 - 4 * length as = 4 + (40 - 4 * Suc (length as))" using assms(3) by simp
  have "overlay 0 (obuf (after type as)) (4 + 4 * length as) a
      = built type as @ a @ replicate (40 - 4 * Suc (length as)) 0"
    unfolding after_def select_convs r replicate_add by (rule overlay_mid) (use c assms(2) in \<open>simp_all add: built_def\<close>)
  then have "(overlay 0 (obuf (after type as)) (4 + 4 * length as) a)[2 := of_nat (3 + (length as + 1) * 4)]
      = built type (as @ [a]) @ replicate (40 - 4 * Suc (length as)) 0"
    by (simp add: built_def ac_simps)
  moreover have "length (obuf (after type as)) = 44" using c assms(3) by (simp add: after_def built_def)
  ultimately show ?thesis using assms(2,3) by (simp add: inet_srcrt_add_def after_def Let_def)
qed

lemma init_after: "inet_srcrt_init type = after type []"
  by (simp add: inet_srcrt_init_def after_def built_def)

lemma add_full:
  assumes "length as = 10"
  shows "inet_srcrt_add a (after type as) = Abort (Err_quit ''too many source routes'') (after type as)"
  using assms by (simp add: inet_srcrt_add_def after_def)

lemma add_all_after:
  "\<forall>a \<in> set as. length a = 4 \<Longrightarrow> \<forall>a \<in> set pre. length a = 4 \<Longrightarrow> as \<noteq> [] \<Longrightarrow> length pre \<le> 10 \<Longrightarrow>
   add_all as (after type pre) = (if length pre + length as \<le> 10 then Ret (4 + 4 * (length pre + length as)) (after type (pre @ as))
     else Abort (Err_quit ''too many source routes'') (after type (take 10 (pre @ as))))"
proof (induction as arbitrary: pre)
  case (Cons a as)
  show ?case
  proof (cases "length pre = 10")
    case True
    then show ?thesis using add_full [OF True, of a type] by (cases as) auto
  next
    case False
    then have l: "length pre < 10" using Cons.prems(4) by simp
    have st: "inet_srcrt_add a (after type pre) = Ret (4 + 4 * Suc (length pre)) (after type (pre @ [a]))"
      by (rule add_step) (use Cons.prems l in auto)
    show ?thesis
    proof (cases as)
      case Nil
      then show ?thesis using st l by simp
    next
      case as: (Cons b bs)
      have pa: "\<forall>x \<in> set (pre @ [a]). length x = 4" "\<forall>x \<in> set as. length x = 4" using Cons.prems(1,2) by auto
      have "add_all as (after type (pre @ [a])) = (if length (pre @ [a]) + length as \<le> 10
          then Ret (4 + 4 * (length (pre @ [a]) + length as)) (after type ((pre @ [a]) @ as))
          else Abort (Err_quit ''too many source routes'') (after type (take 10 ((pre @ [a]) @ as))))"
        by (rule Cons.IH [OF pa(2,1)]) (use as l in auto)
      then show ?thesis using st unfolding as by simp
    qed
  qed
qed simp

section \<open>Printing it\<close>

lemma Inet_ntop: "length a = 4 \<Longrightarrow> \<exists>s. Inet_ntop a = Inr s \<and> inet_pton4 s = Some (map unat a)"
proof -
  assume "length a = 4"
  moreover have "unat (x :: 8 word) < 256" for x using unsigned_less [where 'a = nat, of x] by simp
  ultimately have "v4_bytes (map unat a)" by (auto simp: v4_bytes_def)
  then obtain out where "inet_ntop4 (map unat a) 16 = Inr out" "inet_pton4 (cstr out) = Some (map unat a)"
    using inet_v4_roundtrip [of "map unat a" 16] by auto
  then show ?thesis by (simp add: Inet_ntop_def)
qed

text \<open>A length byte that counts \<open>k\<close> bytes too few of the last address.\<close>

lemma addr_loop_prints:
  "\<forall>a \<in> set as. length a = 4 \<Longrightarrow> k < 4 \<Longrightarrow> \<exists>ss. addr_loop (4 * int (length as) - int k) (concat as @ junk) = Inr ss
    \<and> map inet_pton4 ss = map (\<lambda>a. Some (map unat a)) as"
proof (induction as)
  case Nil
  then show ?case by (simp add: addr_loop.simps [of "- int k"])
next
  case (Cons a as)
  then obtain ss where ss: "addr_loop (4 * int (length as) - int k) (concat as @ junk) = Inr ss" "map inet_pton4 ss = map (\<lambda>a. Some (map unat a)) as" by auto
  have a: "length a = 4" using Cons.prems by simp
  obtain s where s: "Inet_ntop a = Inr s" "inet_pton4 s = Some (map unat a)" using Inet_ntop [OF a] by blast
  let ?n = "4 * int (length (a # as)) - int k"
  have "?n - 4 = 4 * int (length as) - int k" "\<not> ?n \<le> 0" using Cons.prems(2) by simp_all
  then show ?case using addr_loop.simps [of ?n "concat (a # as) @ junk"] a s ss by simp
qed

section \<open>Properties\<close>

text \<open>
  Up to ten addresses fit: the calls return the size of an option that, received with the first hop in
  front, prints as the same kind of route with the first hop and all the addresses in order, whatever
  follows it in memory. With more than ten the program ends before it writes past the buffer.
\<close>

theorem source_route_roundtrip:
  assumes "\<forall>a \<in> set as. length a = 4" "as \<noteq> []" "length hop = 4"
  shows "if length as \<le> 10
    then (\<exists>s ss. add_all as (inet_srcrt_init type) = Ret (4 + 4 * length as) s \<and> length (obuf s) = 44
        \<and> inet_srcrt_print (hop @ take (4 + 4 * length as) (obuf s) @ junk) n = Inr (Route type ss)
        \<and> map inet_pton4 ss = map (\<lambda>a. Some (map unat a)) (hop # as))
    else (\<exists>s. add_all as (inet_srcrt_init type) = Abort (Err_quit ''too many source routes'') s)"
proof (cases "length as \<le> 10")
  case True
  have add: "add_all as (inet_srcrt_init type) = Ret (4 + 4 * length as) (after type as)"
    using add_all_after [of as "[]" type] assms(1,2) True by (simp add: init_after)
  have c: "length (concat as) = 4 * length as" by (rule length_concat_4 [OF assms(1)])
  have t: "take (4 + 4 * length as) (obuf (after type as)) = built type as" "length (obuf (after type as)) = 44"
  proof -
    have "length (built type as) = 4 + 4 * length as" using c by (simp add: built_def)
    then show "take (4 + 4 * length as) (obuf (after type as)) = built type as" "length (obuf (after type as)) = 44"
      using True by (simp_all add: after_def)
  qed
  obtain h where h: "Inet_ntop hop = Inr h" "inet_pton4 h = Some (map unat hop)" using Inet_ntop [OF assms(3)] by blast
  obtain ss where ss: "addr_loop (4 * int (length as) - int 1) (concat as @ junk) = Inr ss" "map inet_pton4 ss = map (\<lambda>a. Some (map unat a)) as"
    using addr_loop_prints [OF assms(1), of 1 junk] by auto
  have "unat (of_nat (3 + 4 * length as) :: 8 word) = 3 + 4 * length as" using True by (simp add: unat_of_nat del: of_nat_add of_nat_mult)
  then have "int (unat (of_nat (3 + 4 * length as) :: 8 word)) - 4 = 4 * int (length as) - int 1" by simp
  then have "inet_srcrt_print (hop @ built type as @ junk) n = Inr (Route type (h # ss))"
    using h(1) ss(1) assms(2,3) by (simp add: inet_srcrt_print_def built_def del: of_nat_add of_nat_mult)
  then show ?thesis using add t h(2) ss(2) True by auto
next
  case False
  then show ?thesis using add_all_after [of as "[]" type] assms(1,2) by (simp add: init_after)
qed

theorem source_route_roundtrip_witness:
  "\<exists>s ss. add_all [[10, 0, 0, 1], [10, 0, 0, 2]] (inet_srcrt_init True) = Ret 12 s
     \<and> inet_srcrt_print ([10, 0, 0, 9] @ take 12 (obuf s) @ [0]) 16 = Inr (Route True ss) \<and> length ss = 3"
proof -
  let ?as = "[[10, 0, 0, 1], [10, 0, 0, 2]] :: bytes list"
  have "\<forall>a \<in> set ?as. length a = 4" "?as \<noteq> []" "length ([10, 0, 0, 9] :: bytes) = 4" by simp_all
  from source_route_roundtrip [OF this, of True "[0]" 16] obtain s ss where
    "add_all ?as (inet_srcrt_init True) = Ret 12 s" "inet_srcrt_print ([10, 0, 0, 9] @ take 12 (obuf s) @ [0]) 16 = Inr (Route True ss)"
    "map inet_pton4 ss = map (\<lambda>a. Some (map unat a)) ([10, 0, 0, 9] # ?as)" by auto
  moreover from this(3) have "length ss = 3" by (metis length_map length_Cons list.size(3) numeral_3_eq_3)
  ultimately show ?thesis by blast
qed

text \<open>The length of the option is believed: with a greater one, memory behind it is read.\<close>

lemma srcrt_print_overread: "inet_srcrt_print [10, 0, 0, 9, 131, 7, 4] 7 = Inl Undefined"
proof -
  obtain h where "Inet_ntop [10, 0, 0, 9] = Inr h" using Inet_ntop [of "[10, 0, 0, 9]"] by auto
  then show ?thesis by (simp add: inet_srcrt_print_def IPOPT_NOP_def IPOPT_LSRR_def IPOPT_SSRR_def addr_loop.simps [of 3])
qed

end
