(* ===== verification/Spec2Isabelle.thy ===== *)
theory Spec2Isabelle
  imports Db_Props Mem_Stream Inet_Text Rw_Queue Print_Client Str_Cli Foo_Mutex Open_Loop Par_Sort Web_Threads Serv_Queue Serv_Prefork Semaph Popen Lib_Io Free_Gai In_Cksum Ftw8 Tcp_Poll Icmpd Dg_Echo Traceroute Udp_Cksum Pf_Key Ping Sock_Loop Tell_Wait Web_Nonb Open_Fe Source_Route
begin

text \<open>
  Verification library for the C programs of this repository: the examples of two books on Unix
  programming, under \<open>src/apue.3e\<close> and \<open>src/unpv13e\<close>.  The programs with state and logic of their
  own are modelled function by function and proved correct; programs that only show a system call
  are not.

  How code is modelled.  A C function is a HOL function from its arguments and the state it changes
  to its result and the new state; a function that may end the process (\<open>err_sys\<close>, \<open>err_dump\<close>,
  \<open>err_quit\<close>) has the abort as an outcome (theory \<open>Prelude\<close>), one that may follow a null or dangling
  pointer returns an option.  Integers that can wrap are words of their width.  C strings and
  buffers are lists of characters, addresses lists of bytes.  What the kernel, the C library or the
  network decides is an argument: the result of each call, or a plan of results.  Loops are
  recursive functions with a termination proof; loops that wait for the outside world recurse over
  the list of what it does, so that every finite prefix of a run is covered without fuel.
  Concurrent code is a step relation, one step being what a thread does between two points where
  another one can see the difference, and properties are proved for all reachable states.

  \<^bold>\<open>Shared theories.\<close>  \<open>Prelude\<close> (outcomes, overwriting a list in place), \<open>C_Text\<close> (\<open>atol\<close>, \<open>%d\<close>,
  \<open>strchr\<close>, C strings), \<open>Unix_Files\<close> (files, record locks, descriptors), \<open>Job_List\<close> (doubly linked
  lists in a heap, and the interface both job queues implement).

  \<^bold>\<open>The key/value database\<close>, \<open>apue.3e/db/db.c\<close> and the lock function of \<open>apue.3e/lib\<close>.  \<open>Db\<close> has
  every function of the library on two files with record locks.  \<open>Db_Repr\<close>, \<open>Db_Files\<close>, \<open>Db_Chain\<close> and
  \<open>Db_Scan\<close> relate the bytes of the files to chains of records, \<open>Db_Inv\<close> and \<open>Db_Locks\<close> give the
  invariant, \<open>Db_Update\<close>, \<open>Db_Ops\<close> and \<open>Db_Correct\<close> show that each operation does to the files what
  the operation of a map does to a map.  \<open>Db_Client\<close> states this as the interface of a key/value
  store with a client, \<open>Db_Session\<close> and \<open>Db_World\<close> open and close databases, \<open>Db_Props\<close> has the
  properties.  One process calls the library; the locks it takes are modelled and released, other
  processes are not.

  \<^bold>\<open>The print spooler\<close>, \<open>apue.3e/printer\<close>.  \<open>Printd_Req\<close> (requests and the IPP message),
  \<open>Printd_Jobs\<close> (the job list), \<open>Printd_Spool\<close> (the spool directory and the thread of a client),
  \<open>Printd_Workers\<close> (worker list and job numbers), \<open>Printd_Status\<close> (parsing the printer's response),
  \<open>Printd_Printer\<close> (what the printer is sent), \<open>Printd_Clients\<close> (the thread of a client in steps, one for each
  call that changes the spool), \<open>Printd_System\<close> (the daemon as a step relation over the calls of all client
  threads, the printer thread, hangups and restarts at any point; a job number can be handed out twice), \<open>Print_Client\<close> (the program \<open>print\<close>).

  \<^bold>\<open>The open server\<close>, \<open>apue.3e/ipc2/opend\<close> with \<open>bufargs\<close>, \<open>sendfd\<close>, \<open>senderr\<close>, \<open>recvfd\<close> of
  \<open>apue.3e/lib\<close>: \<open>Open_Request\<close> (a request and its answer, and the client's side), \<open>Open_Loop\<close> (the
  array of clients, the loops with \<open>select\<close> and with \<open>poll\<close>), \<open>Open_Fe\<close> (the first version,
  \<open>opend.fe\<close> and \<open>open.fe\<close>: a session of a client with its own server, and the program that copies the files).

  \<^bold>\<open>Threads and processes.\<close>  \<open>Rw_Queue\<close> (\<open>threads/rwlock.c\<close>, on the interface of \<open>Job_List\<close>), \<open>Foo_Hash\<close> and
  \<open>Foo_Mutex\<close> (\<open>mutex2.c\<close> and \<open>mutex3.c\<close>: chains of reference counted objects, the two locking schemes
  as instances of one interface), \<open>Par_Sort\<close> (\<open>barrier.c\<close>), \<open>Web_Threads\<close> (\<open>unpv13e/threads/web03.c\<close>).
  Two servers of \<open>unpv13e/server\<close>: \<open>Serv_Prefork\<close> (\<open>serv05.c\<close>, \<open>child05.c\<close>: descriptors passed to
  forked children) and \<open>Serv_Queue\<close> (\<open>serv08.c\<close>, \<open>pthread08.c\<close>: threads behind a ring of descriptors).
  \<open>Semaph\<close> (\<open>apue.3e/lib/semaph.c\<close>): System V semaphores shared by processes, one step for each
  system call.  \<open>Popen\<close> (\<open>apue.3e/lib/popen.c\<close>): what a command inherits, and which child a stream has.
  \<open>Index_Count\<close> holds what these share on counting and searching by index.

  \<^bold>\<open>Streams and descriptors.\<close>  \<open>Mem_Stream\<close> (\<open>apue.3e/exercises/fmemopen.c\<close>, with
  the conversions between \<open>size_t\<close> and \<open>int\<close>), \<open>Str_Cli\<close>
  (\<open>unpv13e/nonblock/strclinonb.c\<close>), \<open>Lib_Io\<close> (\<open>readn\<close>, \<open>writen\<close>, \<open>readline\<close> of \<open>unpv13e/lib\<close>),
  \<open>In_Cksum\<close> (the Internet checksum of \<open>unpv13e/libfree/in_cksum.c\<close>, on both byte orders).

  \<^bold>\<open>Files.\<close>  \<open>Ftw8\<close> (\<open>apue.3e/filedir/ftw8.c\<close>): the walk of a file tree.  Its recursion has fuel, one unit
  for each level; the height of the tree is enough.

  \<^bold>\<open>Names and addresses.\<close>  \<open>Inet_V4\<close>, \<open>Inet_V6\<close>, \<open>Inet_Parse\<close>, \<open>Inet_Text\<close> (\<open>inet_pton\<close>,
  \<open>inet_ntop\<close>, \<open>inet_aton\<close> of \<open>unpv13e/libfree\<close>).  \<open>Gai\<close> and \<open>Gni\<close> are \<open>getaddrinfo\<close> and
  \<open>getnameinfo\<close> of \<open>unpv13e/libgai\<close>; \<open>Gai_Mem\<close> counts the blocks they allocate, \<open>Gai_Ref\<close> specifies
  \<open>getaddrinfo\<close> without the definitions of the code and proves it equal, \<open>Gai_Round\<close> goes from an address to text and back, \<open>Free_Gai\<close> is the
  first, one-file version in \<open>unpv13e/libfree\<close> and how far the two agree.  The resolver is assumed
  to return IPv4 or IPv6 addresses only (\<open>resolver_ok\<close>).

  \<^bold>\<open>Interfaces.\<close>  \<open>kv_store\<close> (\<open>Db_Client\<close>), \<open>job_list\<close> (\<open>Job_List\<close>, instances in \<open>Printd_Jobs\<close> and
  \<open>Rw_Queue\<close>) and \<open>refcount\<close> (\<open>Foo_Hash\<close>, two instances in \<open>Foo_Mutex\<close>) are locales; what their
  clients rely on is proved once and holds for the code through the interpretations.

  \<^bold>\<open>Servers on one thread.\<close>  \<open>Fd_Scan\<close> has what the servers with \<open>select\<close> and \<open>poll\<close> share, a table of
  descriptors that is scanned up to a highest index, as the locale \<open>fd_scan\<close>; \<open>Tcp_Select\<close> and
  \<open>Tcp_Poll\<close> (\<open>unpv13e/tcpcliserv/tcpservselect01.c\<close> and \<open>tcpservpoll01.c\<close>) and \<open>Icmpd\<close> (the ICMP error
  daemon \<open>unpv13e/icmpd\<close>) interpret it.  \<open>Dg_Echo\<close> (\<open>unpv13e/sigio/dgecho01.c\<close>): a main loop and a signal
  handler around a ring of datagrams, call by call with the signal mask, from \<open>FIOASYNC\<close> on.  \<open>Tell_Wait\<close> (\<open>apue.3e/lib/tellwait.c\<close> with \<open>apue.3e/ipc1/devzero.c\<close>):
  parent and child take turns by signals, and the run in which a signal is lost.  \<open>Sock_Loop\<close> (\<open>crlf.c\<close> and
  \<open>loop.c\<close> of \<open>unpv13e/sock\<close>): copying between a socket and the terminal.
  \<open>Web_Nonb\<close> (\<open>unpv13e/nonblock/web.c\<close>): several connections in one loop.

  \<^bold>\<open>Packets.\<close>  \<open>Packet\<close> (bytes received into a buffer that held something before, IP headers) and \<open>Mem_Bytes\<close>
  (numbers in memory in either byte order) serve \<open>Traceroute\<close> (\<open>unpv13e/traceroute\<close>), \<open>Ping\<close>
  (\<open>unpv13e/ping\<close>), \<open>Udp_Cksum\<close> (\<open>unpv13e/udpcksum\<close>), \<open>Sock_Addr\<close> (the functions \<open>sock_*\<close> of \<open>unpv13e/lib\<close>)
  \<open>Source_Route\<close> (\<open>unpv13e/ipopts/sourceroute.c\<close>) and \<open>Pf_Key\<close> (\<open>unpv13e/key\<close>: key management messages, built and printed; the loop over extensions is a
  partial function, since it can run forever, and the messages on which it ends are characterised).
  \<^bold>\<open>Not modelled.\<close>  Programs that show one system call each (processes, signals, terminals, most of
  the I/O and socket examples): their behaviour is the kernel's.  The round trip estimator of
  \<open>unpv13e/lib/rtt.c\<close>: floating point.  The
  wrappers of the two libraries; routing sockets, interface lists, multicast and SCTP
  programs, which pass structures of the kernel through.  Of the designs in \<open>unpv13e/server\<close> only two are modelled.
  The C++, Python and Perl projects are not C.
\<close>

end
